(* ===== verification/Prelude.thy ===== *)
theory Prelude
  imports Main "HOL-Library.Char_ord" "HOL-Library.List_Lexorder" "HOL-Library.Product_Lexorder"
    "HOL-Library.Sublist"
begin

text \<open>
  Shared vocabulary of the development.

  \<^item> Exceptions, failed assertions and undefined behaviour of the C++ code are values of
    \<open>hfst_exception\<close>; a fallible operation returns \<open>'a result\<close>, and \<open>rbind\<close> sequences two
    of them, stopping at the first failure as a C++ exception does.
  \<^item> \<open>std::string\<close> is \<open>string\<close>; its order is the byte order of \<open>std::string::compare\<close>
    (theories \<open>Char_ord\<close> and \<open>List_Lexorder\<close>). The members the sources use (\<open>find\<close>,
    \<open>find_last_of\<close>, \<open>substr\<close>) are defined here, \<open>npos\<close> being \<open>None\<close>.
  \<^item> \<open>std::set\<close> is a set, \<open>std::map\<close> a map; where the code iterates over one, the model
    iterates over the sorted list of its elements or keys.
  \<^item> the generic lemmas on these, and the collections of facts the component theories share.
\<close>

named_theorems result_simps "when a sequenced operation succeeds"
named_theorems string_simps "std::string members on well-shaped arguments"

section \<open>Failures as values\<close>

datatype hfst_exception =
    EmptyStringException
  | StateIndexOutOfBoundsException
  | StateIsNotFinalException
  | StateNotDefined
  | IncorrectUtf8CodingException
  | TransducersAreNotAutomataException
  | NotValidAttFormatException
  | NotValidPrologFormatException
  | EndOfStreamException
  | EmptyMulticharSymbol
  | UnescapedColsFound
  | HfstException string
  | HfstFatalException
  | TransducerHasWrongTypeException
  | AlphabetTranslationException string
  | OverflowError
  | OutOfRange
  | ConstCharException string
  | Terminate
  | AssertionFailed
  | Diverges
  | UndefinedBehaviour

type_synonym 'a result = "hfst_exception + 'a"
type_synonym string_pair = "string \<times> string"

fun rbind :: "'e + 'a \<Rightarrow> ('a \<Rightarrow> 'e + 'b) \<Rightarrow> 'e + 'b" where
  "rbind (Inl e) f = Inl e"
| "rbind (Inr a) f = f a"

fun rmap :: "('a \<Rightarrow> 'b) \<Rightarrow> 'e + 'a \<Rightarrow> 'e + 'b" where
  "rmap f (Inl e) = Inl e"
| "rmap f (Inr a) = Inr (f a)"

text \<open>A loop that may not return is a partial function; not returning is the value \<open>Diverges\<close>.\<close>

fun of_option :: "'a option \<Rightarrow> 'a result" where
  "of_option None = Inl Diverges"
| "of_option (Some a) = Inr a"

text \<open>A loop over a list whose body may throw: the accumulator is the state of the loop.\<close>

fun rfold :: "('b \<Rightarrow> 'a \<Rightarrow> 'e + 'a) \<Rightarrow> 'b list \<Rightarrow> 'a \<Rightarrow> 'e + 'a" where
  "rfold f [] a = Inr a"
| "rfold f (x # xs) a = rbind (f x a) (rfold f xs)"

lemma rbind_eq_Inr [result_simps]:
  "rbind x f = Inr b \<longleftrightarrow> (\<exists>a. x = Inr a \<and> f a = Inr b)"
  by (cases x) auto

lemma rmap_eq_Inr [result_simps]: "rmap f x = Inr b \<longleftrightarrow> (\<exists>a. x = Inr a \<and> b = f a)"
  by (cases x) auto

lemma rbind_assoc: "rbind (rbind x f) g = rbind x (\<lambda>a. rbind (f a) g)"
  by (cases x) auto

lemma rbind_Inr_right [simp]: "rbind x Inr = x"
  by (cases x) auto

lemma rfold_append: "rfold f (xs @ ys) a = rbind (rfold f xs a) (rfold f ys)"
proof (induction xs arbitrary: a)
  case Nil
  then show ?case by simp
next
  case (Cons x xs)
  then show ?case by (cases "f x a") auto
qed

lemma rfold_map: "rfold f (map g xs) = rfold (\<lambda>x. f (g x)) xs"
proof
  fix a show "rfold f (map g xs) a = rfold (\<lambda>x. f (g x)) xs a"
  proof (induction xs arbitrary: a)
    case (Cons x xs)
    then show ?case by (cases "f (g x) a") auto
  qed simp
qed

lemma rfold_concat: "rfold f (concat xss) a = rfold (\<lambda>xs a. rfold f xs a) xss a"
proof (induction xss arbitrary: a)
  case (Cons xs xss)
  then show ?case by (cases "rfold f xs a") (auto simp: rfold_append)
qed simp

lemma rfold_Inr_fold:
  "(\<And>x a. x \<in> set xs \<Longrightarrow> f x a = Inr (g x a)) \<Longrightarrow> rfold f xs a = Inr (fold g xs a)"
  by (induction xs arbitrary: a) auto

lemma rfold_invariant:
  assumes "rfold f xs a = Inr b" and "P a"
    and "\<And>x a b. x \<in> set xs \<Longrightarrow> P a \<Longrightarrow> f x a = Inr b \<Longrightarrow> P b"
  shows "P b"
  using assms by (induction xs arbitrary: a) (auto simp: result_simps)

lemma fold_invariant_set:
  assumes "P a" and "\<And>x a. x \<in> set xs \<Longrightarrow> P a \<Longrightarrow> P (f x a)"
  shows "P (fold f xs a)"
  using assms by (induction xs arbitrary: a) auto

section \<open>Members of std::string\<close>

text \<open>\<open>s.find(needle, pos)\<close>: the first index from \<open>pos\<close> on where \<open>needle\<close> occurs.\<close>

fun find_at :: "'a list \<Rightarrow> 'a list \<Rightarrow> nat \<Rightarrow> nat option" where
  "find_at needle [] i = (if needle = [] then Some i else None)"
| "find_at needle (c # cs) i =
     (if prefix needle (c # cs) then Some i else find_at needle cs (Suc i))"

definition str_find :: "'a list \<Rightarrow> 'a list \<Rightarrow> nat \<Rightarrow> nat option" where
  "str_find s needle pos =
     (if pos \<le> length s then find_at needle (drop pos s) pos else None)"

text \<open>\<open>s.find_last_of(c)\<close> for a single character.\<close>

fun find_last_at :: "'a \<Rightarrow> 'a list \<Rightarrow> nat \<Rightarrow> nat option" where
  "find_last_at c [] i = None"
| "find_last_at c (x # xs) i =
     (case find_last_at c xs (Suc i) of
        Some j \<Rightarrow> Some j
      | None \<Rightarrow> if x = c then Some i else None)"

definition str_find_last_of :: "'a list \<Rightarrow> 'a \<Rightarrow> nat option" where
  "str_find_last_of s c = find_last_at c s 0"

text \<open>\<open>s.substr(pos, n)\<close> throws \<open>std::out_of_range\<close> past the end.\<close>

definition str_substr :: "'a list \<Rightarrow> nat \<Rightarrow> nat \<Rightarrow> 'a list result" where
  "str_substr s pos n = (if pos \<le> length s then Inr (take n (drop pos s)) else Inl OutOfRange)"

lemma find_at_Some:
  "find_at needle s i = Some j \<Longrightarrow>
     i \<le> j \<and> j \<le> i + length s \<and> prefix needle (drop (j - i) s)"
proof (induction needle s i rule: find_at.induct)
  case (1 needle i)
  then show ?case by (auto split: if_splits)
next
  case (2 needle c cs i)
  show ?case
  proof (cases "prefix needle (c # cs)")
    case True
    with "2.prems" show ?thesis by auto
  next
    case False
    with 2 have IH: "Suc i \<le> j" "j \<le> Suc i + length cs" "prefix needle (drop (j - Suc i) cs)"
      by auto
    from IH(1) have "j - i = Suc (j - Suc i)" by simp
    with IH show ?thesis by simp
  qed
qed

lemma find_at_least:
  "find_at needle s i = Some j \<Longrightarrow> i \<le> k \<Longrightarrow> k < j \<Longrightarrow> \<not> prefix needle (drop (k - i) s)"
proof (induction needle s i arbitrary: k rule: find_at.induct)
  case (1 needle i)
  then show ?case by (auto split: if_splits)
next
  case (2 needle c cs i)
  show ?case
  proof (cases "prefix needle (c # cs)")
    case True
    with "2.prems" show ?thesis by auto
  next
    case False
    with "2.prems" have *: "find_at needle cs (Suc i) = Some j" by simp
    show ?thesis
    proof (cases "k = i")
      case True
      with False show ?thesis by simp
    next
      case neq: False
      with "2.prems" have "Suc i \<le> k" by simp
      moreover from this have "k - i = Suc (k - Suc i)" by simp
      ultimately show ?thesis using "2.IH" [OF False * _ \<open>k < j\<close>] by simp
    qed
  qed
qed

lemma find_at_None:
  "find_at needle s i = None \<longleftrightarrow> (\<forall>k \<le> length s. \<not> prefix needle (drop k s))"
proof (induction needle s i rule: find_at.induct)
  case (1 needle i)
  then show ?case by auto
next
  case (2 needle c cs i)
  have split: "(\<forall>k \<le> length (c # cs). \<not> prefix needle (drop k (c # cs))) \<longleftrightarrow>
      \<not> prefix needle (c # cs) \<and> (\<forall>k \<le> length cs. \<not> prefix needle (drop k cs))"
    by (auto simp: less_Suc_eq_le [symmetric] All_less_Suc2)
  with 2 show ?case by (auto simp del: prefix_Cons)
qed

lemma find_at_char_None [string_simps]: "find_at [c] s i = None \<longleftrightarrow> c \<notin> set s"
  by (induction s arbitrary: i) auto

lemma find_at_char_append [string_simps]:
  "find_at [c] (xs @ ys) i =
     (if c \<in> set xs then find_at [c] xs i else find_at [c] ys (i + length xs))"
  by (induction xs arbitrary: i) auto

lemma find_at_char_Some:
  "find_at [c] s i = Some j \<Longrightarrow> i \<le> j \<and> j < i + length s \<and> s ! (j - i) = c"
proof (induction s arbitrary: i)
  case Nil
  then show ?case by simp
next
  case (Cons x xs)
  show ?case
  proof (cases "x = c")
    case True
    with Cons.prems show ?thesis by auto
  next
    case False
    with Cons.prems have "find_at [c] xs (Suc i) = Some j" by simp
    from Cons.IH [OF this] have *: "Suc i \<le> j" "j < Suc i + length xs" "xs ! (j - Suc i) = c"
      by auto
    then have "j - i = Suc (j - Suc i)" by simp
    with * show ?thesis by simp
  qed
qed

lemma find_last_at_None [string_simps]: "find_last_at c s i = None \<longleftrightarrow> c \<notin> set s"
proof (induction s arbitrary: i)
  case Nil
  then show ?case by simp
next
  case (Cons x xs)
  show ?case by (cases "find_last_at c xs (Suc i)") (use Cons.IH [of "Suc i"] in auto)
qed

lemma find_last_at_Some:
  "find_last_at c s i = Some j \<Longrightarrow>
     i \<le> j \<and> j < i + length s \<and> s ! (j - i) = c \<and> c \<notin> set (drop (Suc (j - i)) s)"
proof (induction s arbitrary: i)
  case Nil
  then show ?case by simp
next
  case (Cons x xs)
  show ?case
  proof (cases "find_last_at c xs (Suc i)")
    case None
    with Cons.prems show ?thesis by (auto simp: string_simps split: if_splits)
  next
    case (Some k)
    with Cons.prems have "k = j" by simp
    with Some Cons.IH [of "Suc i"]
    have "Suc i \<le> j" "j < Suc i + length xs" "xs ! (j - Suc i) = c"
      "c \<notin> set (drop (Suc (j - Suc i)) xs)" by auto
    moreover from this have "j - i = Suc (j - Suc i)" by simp
    ultimately show ?thesis by simp
  qed
qed

section \<open>Iteration over std::set and std::map\<close>

definition map_keys :: "('k::linorder \<rightharpoonup> 'v) \<Rightarrow> 'k list" where
  "map_keys m = sorted_list_of_set (dom m)"

definition map_entries :: "('k::linorder \<rightharpoonup> 'v) \<Rightarrow> ('k \<times> 'v) list" where
  "map_entries m = map (\<lambda>k. (k, the (m k))) (map_keys m)"

lemma set_map_keys [simp]: "finite (dom m) \<Longrightarrow> set (map_keys m) = dom m"
  by (simp add: map_keys_def)

lemma set_map_entries [simp]:
  "finite (dom m) \<Longrightarrow> set (map_entries m) = {(k, v). m k = Some v}"
  by (force simp: map_entries_def)

lemma map_fst_map_entries [simp]: "map fst (map_entries m) = map_keys m"
  by (simp add: map_entries_def o_def)

lemma distinct_map_keys [simp]: "distinct (map_keys m)"
  by (simp add: map_keys_def)

lemma map_of_map_entries [simp]: "finite (dom m) \<Longrightarrow> map_of (map_entries m) = m"
proof -
  assume fin: "finite (dom m)"
  have "map_of (map_entries m) x = m x" for x
    using fin by (cases "m x") (auto simp: map_entries_def map_of_map_restrict restrict_map_def
        map_keys_def o_def)
  then show ?thesis by blast
qed

lemma length_map_entries [simp]: "length (map_entries m) = card (dom m)"
  by (simp add: map_entries_def map_keys_def)

lemma map_keys_empty [simp]: "map_keys Map.empty = []"
  by (simp add: map_keys_def)

lemma map_entries_empty [simp]: "map_entries Map.empty = []"
  by (simp add: map_entries_def)

lemma finite_dom_delete [simp]: "finite (dom m) \<Longrightarrow> finite (dom (m(k := None)))"
  by simp

section \<open>Lists\<close>

lemma nth_append_middle: "(xs @ y # ys) ! length xs = y"
  by simp

lemma take_Suc_diff_nth:
  "n < length xs \<Longrightarrow> xs = take n xs @ xs ! n # drop (Suc n) xs"
  by (simp add: id_take_nth_drop)

lemma list_all2_right: "list_all2 P xs ys \<Longrightarrow> y \<in> set ys \<Longrightarrow> \<exists>x \<in> set xs. P x y"
  by (induction xs ys rule: list_all2_induct) auto

lemma list_all2_left: "list_all2 P xs ys \<Longrightarrow> x \<in> set xs \<Longrightarrow> \<exists>y \<in> set ys. P x y"
  by (induction xs ys rule: list_all2_induct) auto

lemma set_list_update_subset: "set (xs[i := y]) \<subseteq> insert y (set xs)"
  by (rule set_update_subset_insert)

end
