(* ===== verification/Numbering.thy ===== *)
theory Numbering
  imports Prelude
begin

text \<open>
  The contract that every table handing out numbers to strings shares: feature numbers and
  value numbers of \<open>FdTable\<close> (\<open>HfstFlagDiacritics.h\<close>) and the global symbol numbers of
  \<open>HfstTropicalTransducerTransitionData\<close>. Each looks the key up and, when it is missing,
  stores the next number, computed from the number of entries. The locale \<open>numbering\<close> has
  the laws of the next number; its lemmas say that the table stays injective and that old
  entries keep their number. The providers interpret it where they are defined.
\<close>

definition alloc :: "(nat \<Rightarrow> 'i) \<Rightarrow> 'k \<Rightarrow> ('k \<rightharpoonup> 'i) \<Rightarrow> ('k \<rightharpoonup> 'i)" where
  "alloc next k m = (if m k = None then m(k \<mapsto> next (card (dom m))) else m)"

definition map_inj :: "('k \<rightharpoonup> 'i) \<Rightarrow> bool" where
  "map_inj m \<longleftrightarrow> (\<forall>k l i. m k = Some i \<longrightarrow> m l = Some i \<longrightarrow> k = l)"

lemma map_injD: "map_inj m \<Longrightarrow> m k = Some i \<Longrightarrow> m l = Some i \<Longrightarrow> k = l"
  by (auto simp: map_inj_def)

lemma map_inj_update: "map_inj m \<Longrightarrow> i \<notin> ran m \<Longrightarrow> m k = None \<Longrightarrow> map_inj (m(k \<mapsto> i))"
  by (auto simp: map_inj_def ran_def)

lemma alloc_keeps [simp]: "m k = Some i \<Longrightarrow> alloc nx l m k = Some i"
  by (auto simp: alloc_def)

lemma alloc_defines: "\<exists>i. alloc nx k m k = Some i"
  by (auto simp: alloc_def)

lemma finite_dom_alloc [simp]: "finite (dom (alloc nx k m)) = finite (dom m)"
  by (auto simp: alloc_def)

lemma dom_alloc [simp]: "dom (alloc nx k m) = insert k (dom m)"
  by (auto simp: alloc_def)

lemma card_alloc:
  "finite (dom m) \<Longrightarrow>
     card (dom (alloc nx k m)) = (if m k = None then Suc (card (dom m)) else card (dom m))"
  by (auto simp: alloc_def card_insert_if)

locale numbering =
  fixes nxt :: "nat \<Rightarrow> 'i"
    and used :: "nat \<Rightarrow> 'i set"
    and bound :: nat
  assumes nxt_fresh: "n \<le> bound \<Longrightarrow> nxt n \<notin> used n"
    and nxt_used: "n \<le> bound \<Longrightarrow> nxt n \<in> used (Suc n)"
    and used_mono: "used n \<subseteq> used (Suc n)"
begin

definition numbering_ok :: "('k \<rightharpoonup> 'i) \<Rightarrow> bool" where
  "numbering_ok m \<longleftrightarrow> finite (dom m) \<and> map_inj m \<and> ran m \<subseteq> used (card (dom m))"

lemma numbering_ok_alloc:
  assumes ok: "numbering_ok m" and room: "card (dom m) \<le> bound"
  shows "numbering_ok (alloc nxt k m)"
proof (cases "m k = None")
  case True
  from ok have fin: "finite (dom m)" and inj: "map_inj m"
    and ran: "ran m \<subseteq> used (card (dom m))" by (auto simp: numbering_ok_def)
  let ?i = "nxt (card (dom m))"
  from ran nxt_fresh [OF room] have "?i \<notin> ran m" by blast
  with inj True have "map_inj (m(k \<mapsto> ?i))" by (intro map_inj_update)
  moreover have "ran (m(k \<mapsto> ?i)) \<subseteq> insert ?i (ran m)"
    by (auto simp: ran_def)
  then have "ran (m(k \<mapsto> ?i)) \<subseteq> used (Suc (card (dom m)))"
    using ran used_mono nxt_used [OF room] by blast
  moreover have "card (dom (m(k \<mapsto> ?i))) = Suc (card (dom m))"
    using True fin by (simp add: card_insert_if domIff)
  ultimately show ?thesis
    using True fin by (simp add: numbering_ok_def alloc_def)
next
  case False
  with ok show ?thesis by (auto simp: alloc_def)
qed

lemma numbering_ok_inj: "numbering_ok m \<Longrightarrow> m k = Some i \<Longrightarrow> m l = Some i \<Longrightarrow> k = l"
  by (auto simp: numbering_ok_def dest: map_injD)

lemma numbering_ok_used: "numbering_ok m \<Longrightarrow> m k = Some i \<Longrightarrow> i \<in> used (card (dom m))"
  by (auto simp: numbering_ok_def ran_def)

lemma numbering_ok_finite: "numbering_ok m \<Longrightarrow> finite (dom m)"
  by (simp add: numbering_ok_def)

lemma numbering_ok_fold:
  "numbering_ok m \<Longrightarrow> card (dom m) + length ks \<le> Suc bound \<Longrightarrow>
     numbering_ok (fold (alloc nxt) ks m)"
proof (induction ks arbitrary: m)
  case Nil
  then show ?case by simp
next
  case (Cons k ks)
  then have "numbering_ok (alloc nxt k m)" by (intro numbering_ok_alloc) auto
  moreover have "card (dom (alloc nxt k m)) + length ks \<le> Suc bound"
    using Cons.prems numbering_ok_finite [OF Cons.prems(1)]
    by (simp add: card_insert_if split: if_splits)
  ultimately show ?case using Cons.IH by simp
qed

end

end
