(* ===== verification/Flags.thy ===== *)
theory Flags
  imports Numbering
begin

text \<open>
  Flag diacritics: \<open>FdOperation\<close>, \<open>FdTable\<close> and \<open>FdState\<close> of
  \<open>libhfst/src/HfstFlagDiacritics.h\<close> and \<open>HfstFlagDiacritics.cc\<close>. A flag diacritic is a
  symbol \<open>@OP.FEATURE@\<close> or \<open>@OP.FEATURE.VALUE@\<close>. A table numbers the features and values it
  has seen; a state holds one signed number per feature (0 unset, negative when negatively
  set) and runs the operations. \<open>FdValue\<close> is a C++ \<open>short\<close>: \<open>to_short\<close> writes its
  wrap-around out. \<open>throw;\<close> outside a handler ends the program (\<open>Terminate\<close>); indexing the
  value vector past its end is \<open>UndefinedBehaviour\<close>.
\<close>

section \<open>FdOperation\<close>

datatype fd_operator = Pop | Nop | Rop | Dop | Cop | Uop

record fd_operation =
  op_operator :: fd_operator
  op_feature :: nat
  op_value :: int
  op_name :: string

definition char_to_operator :: "char \<Rightarrow> fd_operator result" where
  "char_to_operator c =
     (if c = CHR ''P'' then Inr Pop
      else if c = CHR ''N'' then Inr Nop
      else if c = CHR ''R'' then Inr Rop
      else if c = CHR ''D'' then Inr Dop
      else if c = CHR ''C'' then Inr Cop
      else if c = CHR ''U'' then Inr Uop
      else Inl Terminate)"

definition is_diacritic :: "string \<Rightarrow> bool" where
  "is_diacritic s =
     (if length s < 5 then False
      else if s ! 2 \<noteq> CHR ''.'' then False
      else if s ! 0 \<noteq> CHR ''@'' then False
      else if s ! (length s - 1) \<noteq> CHR ''@'' then False
      else if \<not> (s ! 1 = CHR ''P'' \<or> s ! 1 = CHR ''N'' \<or> s ! 1 = CHR ''D'' \<or>
                 s ! 1 = CHR ''R'' \<or> s ! 1 = CHR ''C'' \<or> s ! 1 = CHR ''U'') then False
      else if str_find_last_of s (CHR ''.'') = Some 2 then
        (if s ! 1 \<noteq> CHR ''R'' \<and> s ! 1 \<noteq> CHR ''D'' \<and> s ! 1 \<noteq> CHR ''C'' then False else True)
      else True)"

definition get_operator :: "string \<Rightarrow> string result" where
  "get_operator s = str_substr s 1 1"

definition get_feature :: "string \<Rightarrow> string result" where
  "get_feature s =
     (let feature_past = (case str_find s ''.'' 3 of None \<Rightarrow> length s - 1 | Some p \<Rightarrow> p)
      in str_substr s 3 (feature_past - 3))"

definition second_stop :: "string \<Rightarrow> nat option" where
  "second_stop s =
     str_find s ''.'' (case str_find s ''.'' 0 of None \<Rightarrow> 0 | Some p \<Rightarrow> p + 1)"

definition get_value :: "string \<Rightarrow> string result" where
  "get_value s =
     (case second_stop s of
        None \<Rightarrow> Inr []
      | Some p \<Rightarrow> str_substr s (p + 1) (length s - 1 - (p + 1)))"

definition has_value :: "string \<Rightarrow> bool" where
  "has_value s = (second_stop s \<noteq> None)"

text \<open>\<open>find_diacritic\<close> returns the position and sets its \<open>length\<close> argument; \<open>None\<close> is \<open>npos\<close>.\<close>

definition find_diacritic :: "string \<Rightarrow> (nat \<times> nat) option" where
  "find_diacritic s =
     (case str_find s ''@'' 0 of
        None \<Rightarrow> None
      | Some start \<Rightarrow>
          (case str_find s ''@'' (start + 1) of
             None \<Rightarrow> None
           | Some end' \<Rightarrow>
               if is_diacritic (take (end' - start) (drop start s))
               then Some (start, end' - start) else None))"

section \<open>FdTable\<close>

record 't fd_table =
  feature_map :: "string \<rightharpoonup> nat"
  value_map :: "string \<rightharpoonup> int"
  operations :: "'t \<rightharpoonup> fd_operation"
  symbol_map :: "string \<rightharpoonup> 't"

definition empty_fd_table :: "'t fd_table" where
  "empty_fd_table =
     \<lparr>feature_map = Map.empty, value_map = [[] \<mapsto> 0], operations = Map.empty, symbol_map = Map.empty\<rparr>"

definition size_t_to_ushort :: "nat \<Rightarrow> nat result" where
  "size_t_to_ushort n = (if n > 65535 then Inl OverflowError else Inr n)"

definition to_short :: "int \<Rightarrow> int" where
  "to_short x = (x + 32768) mod 65536 - 32768"

definition next_value :: "nat \<Rightarrow> int" where
  "next_value n = to_short (int (n + 1))"

text \<open>The first half of \<open>define_diacritic\<close> takes the string apart, the second half updates the maps.\<close>

definition split_flag :: "string \<Rightarrow> (fd_operator \<times> string \<times> string) result" where
  "split_flag str =
     (if \<not> is_diacritic str then Inl Terminate
      else rbind (char_to_operator (str ! 1)) (\<lambda>opr.
        let second = str_find str ''.'' 3; last = length str - 1 in
        case second of
          None \<Rightarrow>
            if opr = Cop \<or> opr = Dop \<or> opr = Rop
            then rmap (\<lambda>feat. (opr, feat, [])) (str_substr str 3 (last - 2 - 1))
            else Inl AssertionFailed
        | Some p \<Rightarrow>
            rbind (str_substr str 3 (p - 2 - 1)) (\<lambda>feat.
              rmap (\<lambda>val. (opr, feat, val)) (str_substr str (p + 1) (last - p - 1)))))"

definition define_diacritic :: "'t \<Rightarrow> string \<Rightarrow> 't fd_table \<Rightarrow> 't fd_table result" where
  "define_diacritic symbol str t =
     rbind (split_flag str) (\<lambda>(opr, feat, val).
     rbind (if feature_map t feat = None
            then rmap (\<lambda>_. ()) (size_t_to_ushort (card (dom (feature_map t)))) else Inr ()) (\<lambda>_.
     rbind (if value_map t val = None
            then rmap (\<lambda>_. ()) (size_t_to_ushort (card (dom (value_map t)) + 1)) else Inr ()) (\<lambda>_.
     let fm = alloc id feat (feature_map t);
         vm = alloc next_value val (value_map t);
         opn = \<lparr>op_operator = opr, op_feature = the (fm feat), op_value = the (vm val),
                op_name = str\<rparr>
     in Inr (t\<lparr>feature_map := fm, value_map := vm,
               operations := (operations t)(symbol \<mapsto> opn),
               symbol_map := (symbol_map t)(str \<mapsto> symbol)\<rparr>))))"

definition num_features :: "'t fd_table \<Rightarrow> nat" where
  "num_features t = card (dom (feature_map t)) mod 65536"

definition table_is_diacritic :: "'t fd_table \<Rightarrow> 't \<Rightarrow> bool" where
  "table_is_diacritic t symbol = (operations t symbol \<noteq> None)"

definition get_symbols_with_feature :: "'t::linorder fd_table \<Rightarrow> string \<Rightarrow> 't list" where
  "get_symbols_with_feature t feature =
     (case feature_map t feature of
        None \<Rightarrow> []
      | Some code \<Rightarrow>
          map fst (filter (\<lambda>(s, opn). op_feature opn = code) (map_entries (operations t))))"

definition get_operation :: "'t fd_table \<Rightarrow> 't \<Rightarrow> fd_operation option" where
  "get_operation t symbol = operations t symbol"

definition get_operation_str :: "'t fd_table \<Rightarrow> string \<Rightarrow> fd_operation option" where
  "get_operation_str t symbol =
     (case symbol_map t symbol of None \<Rightarrow> None | Some x \<Rightarrow> get_operation t x)"

section \<open>FdState\<close>

record 't fd_state =
  st_table :: "'t fd_table"
  st_values :: "int list"
  st_num_features :: nat
  st_error :: bool

definition new_fd_state :: "'t fd_table \<Rightarrow> 't fd_state" where
  "new_fd_state t =
     \<lparr>st_table = t, st_values = replicate (num_features t) 0,
      st_num_features = num_features t, st_error = False\<rparr>"

definition assign_values :: "int list \<Rightarrow> 't fd_state \<Rightarrow> 't fd_state" where
  "assign_values vals st =
     (let st' = st\<lparr>st_values := vals\<rparr>
      in if length vals \<noteq> st_num_features st then st'\<lparr>st_error := True\<rparr> else st')"

definition set_value :: "nat \<Rightarrow> int \<Rightarrow> 't fd_state \<Rightarrow> 't fd_state" where
  "set_value f v st = st\<lparr>st_values := (st_values st)[f := v]\<rparr>"

definition apply_fd_operation :: "fd_operation \<Rightarrow> 't fd_state \<Rightarrow> (bool \<times> 't fd_state) result" where
  "apply_fd_operation opn st =
     (let f = op_feature opn; v = op_value opn; cur = st_values st ! f in
      if \<not> f < length (st_values st) then Inl UndefinedBehaviour
      else case op_operator opn of
        Pop \<Rightarrow> Inr (True, set_value f v st)
      | Nop \<Rightarrow> Inr (True, set_value f (to_short (- 1 * v)) st)
      | Rop \<Rightarrow> Inr (if v = 0 then cur \<noteq> 0 else cur = v, st)
      | Dop \<Rightarrow> Inr (if v = 0 then cur = 0 else cur \<noteq> v, st)
      | Cop \<Rightarrow> Inr (True, set_value f 0 st)
      | Uop \<Rightarrow> (if cur = 0 \<or> cur = v \<or> (cur < 0 \<and> cur * - 1 \<noteq> v)
                then Inr (True, set_value f v st) else Inr (False, st)))"

definition apply_operation :: "'t \<Rightarrow> 't fd_state \<Rightarrow> (bool \<times> 't fd_state) result" where
  "apply_operation symbol st =
     (case get_operation (st_table st) symbol of
        Some opn \<Rightarrow> apply_fd_operation opn st
      | None \<Rightarrow> Inr (True, st))"

definition apply_operation_str :: "string \<Rightarrow> 't fd_state \<Rightarrow> (bool \<times> 't fd_state) result" where
  "apply_operation_str symbol st =
     (case get_operation_str (st_table st) symbol of
        Some opn \<Rightarrow> apply_fd_operation opn st
      | None \<Rightarrow> Inr (True, st))"

definition fd_fails :: "'t fd_state \<Rightarrow> bool" where
  "fd_fails st = st_error st"

definition fd_reset :: "'t fd_state \<Rightarrow> 't fd_state" where
  "fd_reset st = st\<lparr>st_error := False, st_values := replicate (num_features (st_table st)) 0\<rparr>"

text \<open>\<open>FdTable::is_valid_string\<close>: the loop over a symbol vector, with its \<open>break\<close>.\<close>

fun valid_vector_loop :: "'t list \<Rightarrow> 't fd_state \<Rightarrow> 't fd_state result" where
  "valid_vector_loop [] st = Inr st"
| "valid_vector_loop (x # xs) st =
     rbind (apply_operation x st) (\<lambda>(ok, st').
       if ok then valid_vector_loop xs st' else Inr st')"

definition is_valid_vector :: "'t fd_table \<Rightarrow> 't list \<Rightarrow> bool result" where
  "is_valid_vector t symbols =
     rmap (\<lambda>st. \<not> fd_fails st) (valid_vector_loop symbols (new_fd_state t))"

lemma find_diacritic_length:
  assumes "find_diacritic s = Some (p, n)"
  shows "0 < n \<and> n \<le> length s"
proof -
  from assms obtain e where e: "str_find s ''@'' (p + 1) = Some e" "n = e - p"
    "is_diacritic (take n (drop p s))"
    by (auto simp: find_diacritic_def split: option.splits if_splits)
  from e(1) have "e \<le> length s"
    by (auto simp: str_find_def split: if_splits dest: find_at_Some)
  moreover from e(3) have "5 \<le> length (take n (drop p s))"
    by (auto simp: is_diacritic_def split: if_splits)
  ultimately show ?thesis using e(2) by auto
qed

text \<open>The same on a plain string: cut the string at the diacritics \<open>find_diacritic\<close> reports.\<close>

function valid_string_loop :: "string \<Rightarrow> 't fd_state \<Rightarrow> 't fd_state result" where
  "valid_string_loop remaining st =
     (case find_diacritic remaining of
        None \<Rightarrow> Inr st
      | Some (p, n) \<Rightarrow>
          rbind (apply_operation_str (take n remaining) st) (\<lambda>(ok, st').
            if ok then valid_string_loop (drop n remaining) st' else Inr st'))"
  by pat_completeness auto
termination
  by (relation "measure (\<lambda>(s, st). length s)") (auto dest: find_diacritic_length)

declare valid_string_loop.simps [simp del]

definition is_valid_string :: "'t fd_table \<Rightarrow> string \<Rightarrow> bool result" where
  "is_valid_string t str = rmap (\<lambda>st. \<not> fd_fails st) (valid_string_loop str (new_fd_state t))"

section \<open>The shape of a flag diacritic\<close>

text \<open>\<open>make_flag\<close> prints a flag; the accessors of \<open>FdOperation\<close> read its parts back.\<close>


fun make_flag :: "char \<Rightarrow> string \<Rightarrow> string option \<Rightarrow> string" where
  "make_flag c f None = ''@'' @ [c] @ ''.'' @ f @ ''@''"
| "make_flag c f (Some v) = ''@'' @ [c] @ ''.'' @ f @ ''.'' @ v @ ''@''"

definition op_char :: "char \<Rightarrow> bool" where
  "op_char c \<longleftrightarrow> c \<in> set ''PNRDCU''"

definition op_char_unvalued :: "char \<Rightarrow> bool" where
  "op_char_unvalued c \<longleftrightarrow> c \<in> set ''RDC''"

lemma op_char_unvalued_op_char: "op_char_unvalued c \<Longrightarrow> op_char c"
  by (auto simp: op_char_def op_char_unvalued_def)

lemma op_char_not_dot: "op_char c \<Longrightarrow> c \<noteq> CHR ''.''"
  by (auto simp: op_char_def)

lemma is_diacritic_iff:
  "is_diacritic s \<longleftrightarrow> 5 \<le> length s \<and> s ! 2 = CHR ''.'' \<and> s ! 0 = CHR ''@'' \<and>
     s ! (length s - 1) = CHR ''@'' \<and> op_char (s ! 1) \<and>
     (str_find_last_of s (CHR ''.'') = Some 2 \<longrightarrow> op_char_unvalued (s ! 1))"
proof (cases "5 \<le> length s \<and> s ! 2 = CHR ''.'' \<and> s ! 0 = CHR ''@'' \<and> s ! (length s - 1) = CHR ''@''")
  case True
  then show ?thesis
    by (auto simp: is_diacritic_def op_char_def op_char_unvalued_def)
next
  case False
  then show ?thesis by (auto simp: is_diacritic_def)
qed

definition wf_flag :: "char \<Rightarrow> string \<Rightarrow> string option \<Rightarrow> bool" where
  "wf_flag c f v \<longleftrightarrow>
     op_char c \<and> CHR ''.'' \<notin> set f \<and> (v = None \<longrightarrow> op_char_unvalued c \<and> f \<noteq> [])"

lemma wf_flag_operator_not_dot: "wf_flag c f v \<Longrightarrow> c \<noteq> CHR ''.''"
  by (auto simp: wf_flag_def dest: op_char_not_dot)

lemma find_second_stop_None:
  "CHR ''.'' \<notin> set f \<Longrightarrow> str_find (make_flag c f None) ''.'' 3 = None"
  by (simp add: str_find_def numeral_3_eq_3 string_simps)

lemma find_second_stop_Some:
  "CHR ''.'' \<notin> set f \<Longrightarrow> str_find (make_flag c f (Some v)) ''.'' 3 = Some (3 + length f)"
  by (simp add: str_find_def numeral_3_eq_3 string_simps)

lemma second_stop_make_flag:
  "wf_flag c f v \<Longrightarrow>
     second_stop (make_flag c f v) = (case v of None \<Rightarrow> None | Some _ \<Rightarrow> Some (3 + length f))"
  using wf_flag_operator_not_dot [of c f v]
  by (cases v)
     (auto simp: second_stop_def str_find_def wf_flag_def string_simps numeral_3_eq_3 numeral_2_eq_2)

lemma flag_features:
  assumes "wf_flag c f v"
  shows "get_operator (make_flag c f v) = Inr [c]"
    and "get_feature (make_flag c f v) = Inr f"
    and "get_value (make_flag c f v) = Inr (case v of None \<Rightarrow> [] | Some w \<Rightarrow> w)"
    and "has_value (make_flag c f v) = (v \<noteq> None)"
proof -
  have nodot: "CHR ''.'' \<notin> set f" using assms by (simp add: wf_flag_def)
  show "get_operator (make_flag c f v) = Inr [c]"
    by (cases v) (simp_all add: get_operator_def str_substr_def)
  show "get_feature (make_flag c f v) = Inr f"
    by (cases v)
       (simp_all add: get_feature_def find_second_stop_None [OF nodot, simplified]
         find_second_stop_Some [OF nodot, simplified] str_substr_def)
  show "get_value (make_flag c f v) = Inr (case v of None \<Rightarrow> [] | Some w \<Rightarrow> w)"
    using second_stop_make_flag [OF assms]
    by (cases v) (simp_all add: get_value_def str_substr_def eval_nat_numeral)
  show "has_value (make_flag c f v) = (v \<noteq> None)"
    using second_stop_make_flag [OF assms] by (cases v) (simp_all add: has_value_def)
qed

lemma last_of_make_flag_None:
  "CHR ''.'' \<notin> set f \<Longrightarrow> str_find_last_of (make_flag c f None) (CHR ''.'') = Some 2"
  by (simp add: str_find_last_of_def string_simps split: option.split)
     (use find_last_at_None [of "CHR ''.''" "f @ ''@''" 3] in \<open>auto simp: eval_nat_numeral\<close>)

lemma last_of_make_flag_Some:
  "str_find_last_of (make_flag c f (Some v)) (CHR ''.'') \<noteq> Some 2"
proof
  assume "str_find_last_of (make_flag c f (Some v)) (CHR ''.'') = Some 2"
  from find_last_at_Some [OF this [unfolded str_find_last_of_def]]
  have "CHR ''.'' \<notin> set (drop 3 (make_flag c f (Some v)))" by (simp add: eval_nat_numeral)
  then show False by (simp add: eval_nat_numeral)
qed

lemma is_diacritic_make_flag:
  assumes "wf_flag c f v"
  shows "is_diacritic (make_flag c f v)"
proof (cases v)
  case None
  with assms have *: "op_char_unvalued c" "f \<noteq> []" "CHR ''.'' \<notin> set f" "op_char c"
    by (auto simp: wf_flag_def)
  from \<open>f \<noteq> []\<close> have "1 \<le> length f" by (cases f) auto
  with * None show ?thesis by (simp add: is_diacritic_iff nth_append)
next
  case (Some w)
  with assms last_of_make_flag_Some [of c f w] show ?thesis
    by (simp add: is_diacritic_iff nth_append wf_flag_def)
qed

lemma is_diacritic_cases:
  assumes "is_diacritic s"
  obtains c f v where "wf_flag c f v" and "s = make_flag c f v"
proof -
  from assms have len: "5 \<le> length s" and ends: "s ! 0 = CHR ''@''" "s ! 2 = CHR ''.''"
    "s ! (length s - 1) = CHR ''@''" and opr: "op_char (s ! 1)"
    and unvalued: "str_find_last_of s (CHR ''.'') = Some 2 \<Longrightarrow> op_char_unvalued (s ! 1)"
    by (simp_all add: is_diacritic_iff)
  from len obtain a c d rest where s: "s = a # c # d # rest" "2 \<le> length rest"
    by (auto simp: eval_nat_numeral Suc_le_length_iff)
  from s(2) have "rest = butlast rest @ [last rest]" "butlast rest \<noteq> []"
    by (cases rest; auto)+
  then obtain mid z where rest: "rest = mid @ [z]" "mid \<noteq> []" by blast
  have s': "s = ''@'' @ [c] @ ''.'' @ mid @ ''@''"
    using ends s rest by (simp add: nth_append)
  then have c: "s ! 1 = c" by simp
  show thesis
  proof (cases "CHR ''.'' \<in> set mid")
    case False
    then have "op_char_unvalued c" using unvalued last_of_make_flag_None [of mid c] s' c by simp
    with False rest c opr have "wf_flag c mid None" by (simp add: wf_flag_def)
    then show thesis using s' by (intro that [of c mid None]) simp_all
  next
    case True
    then obtain f v where "mid = f @ CHR ''.'' # v" "CHR ''.'' \<notin> set f"
      by (meson split_list_first)
    with s' c opr show thesis by (intro that [of c f "Some v"]) (simp_all add: wf_flag_def)
  qed
qed

lemma make_flag_inj:
  assumes "wf_flag c f v" "wf_flag c' f' v'" "make_flag c f v = make_flag c' f' v'"
  shows "c = c' \<and> f = f' \<and> v = v'"
proof -
  note 1 = flag_features [OF assms(1)] and 2 = flag_features [OF assms(2), folded assms(3)]
  from 1(1) 2(1) have "c = c'" by simp
  moreover from 1(2) 2(2) have "f = f'" by simp
  moreover from 1(3,4) 2(3,4) have "v = v'" by (cases v; cases v') simp_all
  ultimately show ?thesis by simp
qed

section \<open>What the operations mean\<close>

type_synonym flag_env = "string \<rightharpoonup> (bool \<times> string)"

fun spec_flag :: "fd_operator \<Rightarrow> string \<Rightarrow> string option \<Rightarrow> flag_env \<Rightarrow> flag_env option" where
  "spec_flag Pop f v e = Some (e(f \<mapsto> (True, case v of None \<Rightarrow> [] | Some w \<Rightarrow> w)))"
| "spec_flag Nop f v e = Some (e(f \<mapsto> (False, case v of None \<Rightarrow> [] | Some w \<Rightarrow> w)))"
| "spec_flag Rop f None e = (if e f \<noteq> None then Some e else None)"
| "spec_flag Rop f (Some v) e = (if e f = Some (True, v) then Some e else None)"
| "spec_flag Dop f None e = (if e f = None then Some e else None)"
| "spec_flag Dop f (Some v) e = (if e f \<noteq> Some (True, v) then Some e else None)"
| "spec_flag Cop f v e = Some (e(f := None))"
| "spec_flag Uop f v e =
     (let w = (case v of None \<Rightarrow> [] | Some w \<Rightarrow> w) in
      if e f = None \<or> e f = Some (True, w) \<or> (\<exists>u. e f = Some (False, u) \<and> u \<noteq> w)
      then Some (e(f \<mapsto> (True, w))) else None)"

definition flag_step :: "string \<Rightarrow> flag_env \<Rightarrow> flag_env option" where
  "flag_step x e =
     (if is_diacritic x then
        (case (char_to_operator (x ! 1), get_feature x, get_value x) of
           (Inr opr, Inr f, Inr v) \<Rightarrow> spec_flag opr f (if has_value x then Some v else None) e
         | _ \<Rightarrow> None)
      else Some e)"

fun flag_run :: "string list \<Rightarrow> flag_env \<Rightarrow> flag_env option" where
  "flag_run [] e = Some e"
| "flag_run (x # xs) e = (case flag_step x e of None \<Rightarrow> None | Some e' \<Rightarrow> flag_run xs e')"

lemma char_to_operator_op_char: "op_char c \<Longrightarrow> \<exists>opr. char_to_operator c = Inr opr"
  by (auto simp: op_char_def char_to_operator_def)

lemma char_to_operator_unvalued:
  "op_char_unvalued c \<Longrightarrow> char_to_operator c = Inr opr \<Longrightarrow> opr = Rop \<or> opr = Dop \<or> opr = Cop"
  by (auto simp: op_char_unvalued_def char_to_operator_def)

text \<open>An engine over states \<open>'s\<close> that runs flag symbols; \<open>None\<close> is a rejected symbol.\<close>

locale flag_engine =
  fixes step :: "string \<Rightarrow> 's \<Rightarrow> 's option"
    and rel :: "'s \<Rightarrow> flag_env \<Rightarrow> bool"
    and covers :: "'s \<Rightarrow> string \<Rightarrow> bool"
  assumes step_rejects: "rel s e \<Longrightarrow> covers s x \<Longrightarrow> flag_step x e = None \<Longrightarrow> step x s = None"
    and step_accepts: "rel s e \<Longrightarrow> covers s x \<Longrightarrow> flag_step x e = Some e' \<Longrightarrow>
           \<exists>s'. step x s = Some s' \<and> rel s' e'"
    and covers_step: "covers s x \<Longrightarrow> step y s = Some s' \<Longrightarrow> covers s' x"
begin

fun run :: "string list \<Rightarrow> 's \<Rightarrow> 's option" where
  "run [] s = Some s"
| "run (x # xs) s = (case step x s of None \<Rightarrow> None | Some s' \<Rightarrow> run xs s')"

lemma run_iff_flag_run:
  assumes "rel s e" and "\<forall>x \<in> set xs. covers s x"
  shows "(run xs s \<noteq> None) = (flag_run xs e \<noteq> None)"
  using assms
proof (induction xs arbitrary: s e)
  case Nil
  then show ?case by simp
next
  case (Cons x xs)
  show ?case
  proof (cases "flag_step x e")
    case None
    with Cons.prems step_rejects have "step x s = None" by auto
    with None show ?thesis by simp
  next
    case (Some e')
    with Cons.prems step_accepts obtain s' where s': "step x s = Some s'" "rel s' e'"
      by (metis list.set_intros(1))
    with Cons.prems covers_step have "\<forall>y \<in> set xs. covers s' y" by auto
    with Cons.IH [OF s'(2)] s'(1) Some show ?thesis by simp
  qed
qed

end

section \<open>The table's invariant\<close>

definition used_features :: "nat \<Rightarrow> nat set" where
  "used_features n = {..<n}"

definition used_values :: "nat \<Rightarrow> int set" where
  "used_values n = {0..int n}"

interpretation feature_ids: numbering id used_features 65535
  by unfold_locales (auto simp: used_features_def)

lemma to_short_small: "- 32768 \<le> x \<Longrightarrow> x \<le> 32767 \<Longrightarrow> to_short x = x"
  by (simp add: to_short_def)

interpretation value_ids: numbering next_value used_values 32766
  by unfold_locales (auto simp: used_values_def next_value_def to_short_small)

definition encodes :: "'t fd_table \<Rightarrow> fd_operation \<Rightarrow> string \<Rightarrow> bool" where
  "encodes t opn x \<longleftrightarrow>
     is_diacritic x \<and> op_name opn = x \<and> char_to_operator (x ! 1) = Inr (op_operator opn) \<and>
     (\<exists>f v. get_feature x = Inr f \<and> get_value x = Inr v \<and>
        feature_map t f = Some (op_feature opn) \<and> value_map t v = Some (op_value opn))"

definition fd_table_ok :: "'t fd_table \<Rightarrow> bool" where
  "fd_table_ok t \<longleftrightarrow>
     feature_ids.numbering_ok (feature_map t) \<and> value_ids.numbering_ok (value_map t) \<and>
     card (dom (feature_map t)) \<le> 65535 \<and> card (dom (value_map t)) \<le> 32767 \<and>
     value_map t [] = Some 0 \<and>
     (\<forall>x opn. operations t x = Some opn \<longrightarrow> encodes t opn (op_name opn)) \<and>
     (\<forall>s x. symbol_map t s = Some x \<longrightarrow> is_diacritic s \<and> operations t x \<noteq> None)"

lemma fd_table_ok_empty: "fd_table_ok empty_fd_table"
  by (auto simp: fd_table_ok_def empty_fd_table_def feature_ids.numbering_ok_def
      value_ids.numbering_ok_def map_inj_def used_values_def)

lemma get_feature_diacritic: "is_diacritic x \<Longrightarrow> \<exists>f v. get_feature x = Inr f \<and> get_value x = Inr v"
  by (erule is_diacritic_cases) (auto simp: flag_features)

text \<open>What \<open>define_diacritic\<close> cuts out of the string is what the accessors return.\<close>

lemma split_flag_make_flag:
  assumes "wf_flag c f v" and "x = make_flag c f v" and "char_to_operator c = Inr opr"
  shows "split_flag x = Inr (opr, f, case v of None \<Rightarrow> [] | Some w \<Rightarrow> w)"
proof -
  have c: "x ! 1 = c" using assms(2) by (cases v) auto
  have d: "is_diacritic x" using assms(1,2) is_diacritic_make_flag by simp
  show ?thesis
  proof (cases v)
    case None
    with assms have "opr = Rop \<or> opr = Dop \<or> opr = Cop"
      by (auto simp: wf_flag_def dest: char_to_operator_unvalued)
    with None assms c d find_second_stop_None [of f c] show ?thesis
      by (auto simp: split_flag_def str_substr_def wf_flag_def)
  next
    case (Some w)
    with assms c d find_second_stop_Some [of f c w] show ?thesis
      by (simp add: split_flag_def str_substr_def wf_flag_def eval_nat_numeral)
  qed
qed

lemma split_flag_accessors:
  assumes "is_diacritic x"
  obtains opr f v where "split_flag x = Inr (opr, f, v)" "char_to_operator (x ! 1) = Inr opr"
    "get_feature x = Inr f" "get_value x = Inr v" "has_value x \<or> v = []"
    "\<not> has_value x \<Longrightarrow> opr = Rop \<or> opr = Dop \<or> opr = Cop"
proof -
  from assms obtain c f v where w: "wf_flag c f v" and x: "x = make_flag c f v"
    by (rule is_diacritic_cases)
  from w obtain opr where opr: "char_to_operator c = Inr opr"
    by (auto simp: wf_flag_def dest: char_to_operator_op_char)
  moreover have "x ! 1 = c" using x by (cases v) auto
  moreover have "v = None \<Longrightarrow> opr = Rop \<or> opr = Dop \<or> opr = Cop"
    using w opr by (auto simp: wf_flag_def dest: char_to_operator_unvalued)
  ultimately show thesis
    using split_flag_make_flag [OF w x opr] flag_features [OF w] x
    by (intro that [of opr f "case v of None \<Rightarrow> [] | Some w \<Rightarrow> w"]) (auto split: option.splits)
qed

lemma define_diacritic_cases:
  assumes "define_diacritic symbol x t = Inr t'"
  obtains opr f v where "is_diacritic x" "split_flag x = Inr (opr, f, v)"
    "t' = t\<lparr>feature_map := alloc id f (feature_map t),
            value_map := alloc next_value v (value_map t),
            operations := (operations t)(symbol \<mapsto>
              \<lparr>op_operator = opr, op_feature = the (alloc id f (feature_map t) f),
               op_value = the (alloc next_value v (value_map t) v), op_name = x\<rparr>),
            symbol_map := (symbol_map t)(x \<mapsto> symbol)\<rparr>"
    "feature_map t f = None \<Longrightarrow> card (dom (feature_map t)) \<le> 65535"
proof -
  have "is_diacritic x"
    using assms by (auto simp: define_diacritic_def split_flag_def split: if_splits)
  with assms show thesis
    by (auto simp: define_diacritic_def result_simps Let_def size_t_to_ushort_def
        split: if_splits intro!: that)
qed

lemma define_diacritic_ok:
  assumes "fd_table_ok t" and "define_diacritic symbol x t = Inr t'"
    and "card (dom (feature_map t)) < 65535" and "card (dom (value_map t)) < 32767"
  shows "fd_table_ok t'"
  using assms(2)
proof (rule define_diacritic_cases)
  fix opr f v
  let ?fm = "alloc id f (feature_map t)" and ?vm = "alloc next_value v (value_map t)"
  let ?opn = "\<lparr>op_operator = opr, op_feature = the (?fm f), op_value = the (?vm v), op_name = x\<rparr>"
  assume d: "is_diacritic x" and sp: "split_flag x = Inr (opr, f, v)"
    and t': "t' = t\<lparr>feature_map := ?fm, value_map := ?vm,
        operations := (operations t)(symbol \<mapsto> ?opn), symbol_map := (symbol_map t)(x \<mapsto> symbol)\<rparr>"
  from d obtain opr' f' v' where acc: "split_flag x = Inr (opr', f', v')"
    "char_to_operator (x ! 1) = Inr opr'" "get_feature x = Inr f'" "get_value x = Inr v'"
    by (rule split_flag_accessors)
  have ok: "feature_ids.numbering_ok (feature_map t)" "value_ids.numbering_ok (value_map t)"
    "value_map t [] = Some 0"
    and old: "\<And>y opn. operations t y = Some opn \<Longrightarrow> encodes t opn (op_name opn)"
    and sym: "\<And>s y. symbol_map t s = Some y \<Longrightarrow> is_diacritic s \<and> operations t y \<noteq> None"
    using assms(1) by (auto simp: fd_table_ok_def)
  have nums: "feature_ids.numbering_ok ?fm" "value_ids.numbering_ok ?vm"
    using ok assms(3,4)
    by (auto intro: feature_ids.numbering_ok_alloc value_ids.numbering_ok_alloc)
  have cards: "card (dom ?fm) \<le> 65535" "card (dom ?vm) \<le> 32767"
    using assms(3,4) feature_ids.numbering_ok_finite [OF ok(1)] value_ids.numbering_ok_finite [OF ok(2)]
    by (simp_all add: card_insert_if)
  have enc_old: "encodes t' opn y" if "encodes t opn y" for opn y
    using that t' by (auto simp: encodes_def)
  have "encodes t' ?opn x"
    using d sp acc alloc_defines [of id f "feature_map t"] alloc_defines [of next_value v "value_map t"]
    by (auto simp: encodes_def t')
  with enc_old old have "\<forall>y opn. operations t' y = Some opn \<longrightarrow> encodes t' opn (op_name opn)"
    by (auto simp: t' split: if_splits)
  moreover have "\<forall>s y. symbol_map t' s = Some y \<longrightarrow> is_diacritic s \<and> operations t' y \<noteq> None"
    using sym d by (auto simp: t' split: if_splits)
  ultimately show ?thesis
    using nums cards ok by (simp add: fd_table_ok_def t')
qed

lemma define_diacritic_total:
  assumes "is_diacritic x" and "card (dom (feature_map t)) \<le> 65535"
    and "card (dom (value_map t)) < 65535"
  shows "\<exists>t'. define_diacritic symbol x t = Inr t'"
proof -
  from assms(1) obtain opr f v where "split_flag x = Inr (opr, f, v)"
    by (rule split_flag_accessors)
  with assms(2,3) show ?thesis
    by (auto simp: define_diacritic_def size_t_to_ushort_def Let_def)
qed


section \<open>The state implements the meaning\<close>

definition value_rel :: "'t fd_table \<Rightarrow> int \<Rightarrow> (bool \<times> string) option \<Rightarrow> bool" where
  "value_rel t x r \<longleftrightarrow>
     (case r of
        None \<Rightarrow> x = 0
      | Some (pos, v) \<Rightarrow> v \<noteq> [] \<and> (\<exists>n. value_map t v = Some n \<and> x = (if pos then n else - n)))"

definition env_rel :: "'t fd_table \<Rightarrow> int list \<Rightarrow> flag_env \<Rightarrow> bool" where
  "env_rel t vals e \<longleftrightarrow>
     (\<forall>f. case feature_map t f of None \<Rightarrow> e f = None | Some i \<Rightarrow> value_rel t (vals ! i) (e f))"

definition fd_rel :: "'t fd_state \<Rightarrow> flag_env \<Rightarrow> bool" where
  "fd_rel st e \<longleftrightarrow>
     fd_table_ok (st_table st) \<and> length (st_values st) = card (dom (feature_map (st_table st))) \<and>
     env_rel (st_table st) (st_values st) e"

text \<open>A symbol the table covers: not a flag at all, or a defined flag without an empty value.\<close>

definition fd_covers :: "'t fd_state \<Rightarrow> string \<Rightarrow> bool" where
  "fd_covers st x \<longleftrightarrow>
     (if is_diacritic x
      then (\<exists>opn. get_operation_str (st_table st) x = Some opn \<and> op_name opn = x) \<and>
           (has_value x \<longrightarrow> get_value x \<noteq> Inr [])
      else True)"

definition fd_step :: "string \<Rightarrow> 't fd_state \<Rightarrow> 't fd_state option" where
  "fd_step x st = (case apply_operation_str x st of Inr (True, st') \<Rightarrow> Some st' | _ \<Rightarrow> None)"

lemma value_id_pos:
  assumes "fd_table_ok t" and "value_map t v = Some n" and "v \<noteq> []"
  shows "0 < n \<and> n \<le> 32767"
proof -
  have ok: "value_ids.numbering_ok (value_map t)" "card (dom (value_map t)) \<le> 32767"
    "value_map t [] = Some 0" using assms(1) by (auto simp: fd_table_ok_def)
  have "n \<in> used_values (card (dom (value_map t)))"
    using value_ids.numbering_ok_used [OF ok(1) assms(2)] .
  moreover have "n \<noteq> 0"
    using value_ids.numbering_ok_inj [OF ok(1) assms(2), of "[]"] ok(3) assms(3) by auto
  ultimately show ?thesis using ok(2) by (auto simp: used_values_def)
qed

lemma feature_id_less:
  "fd_table_ok t \<Longrightarrow> feature_map t f = Some i \<Longrightarrow> i < card (dom (feature_map t))"
  using feature_ids.numbering_ok_used [of "feature_map t" f i]
  by (auto simp: fd_table_ok_def used_features_def)

lemma feature_id_inj:
  "fd_table_ok t \<Longrightarrow> feature_map t f = Some i \<Longrightarrow> feature_map t g = Some i \<Longrightarrow> f = g"
  using feature_ids.numbering_ok_inj [where m = "feature_map t"] by (auto simp: fd_table_ok_def)

lemma value_id_inj:
  "fd_table_ok t \<Longrightarrow> value_map t v = Some n \<Longrightarrow> value_map t w = Some n \<Longrightarrow> v = w"
  using value_ids.numbering_ok_inj [where m = "value_map t"] by (auto simp: fd_table_ok_def)

lemma fd_rel_update:
  assumes rel: "fd_rel st e" and i: "feature_map (st_table st) f = Some i"
    and r: "value_rel (st_table st) x r"
  shows "fd_rel (set_value i x st) (e(f := r))"
proof -
  let ?t = "st_table st"
  have ok: "fd_table_ok ?t" and len: "length (st_values st) = card (dom (feature_map ?t))"
    using rel by (auto simp: fd_rel_def)
  then have il: "i < length (st_values st)" using feature_id_less [OF ok i] by simp
  have inj: "feature_map ?t g = Some i \<Longrightarrow> g = f" for g
    using feature_id_inj [OF ok _ i] by blast
  have "case feature_map ?t g of None \<Rightarrow> (e(f := r)) g = None
      | Some j \<Rightarrow> value_rel ?t ((st_values st)[i := x] ! j) ((e(f := r)) g)" for g
  proof (cases "g = f")
    case True
    with i r il show ?thesis by simp
  next
    case False
    with inj have ne: "feature_map ?t g \<noteq> Some i" by blast
    from rel have "case feature_map ?t g of None \<Rightarrow> e g = None
        | Some j \<Rightarrow> value_rel ?t (st_values st ! j) (e g)"
      by (simp add: fd_rel_def env_rel_def)
    with ne False show ?thesis by (cases "feature_map ?t g") (auto simp: nth_list_update)
  qed
  then have "env_rel ?t ((st_values st)[i := x]) (e(f := r))" unfolding env_rel_def by blast
  with ok len show ?thesis by (simp add: fd_rel_def set_value_def)
qed

lemma value_rel_cases:
  assumes "fd_table_ok t" "value_rel t x r"
  obtains "r = None" "x = 0"
  | v n where "r = Some (True, v)" "v \<noteq> []" "value_map t v = Some n" "x = n" "0 < n"
  | v n where "r = Some (False, v)" "v \<noteq> []" "value_map t v = Some n" "x = - n" "0 < n"
proof (cases r)
  case None
  with assms(2) that(1) show thesis by (simp add: value_rel_def)
next
  case (Some pv)
  obtain pos v where pv: "pv = (pos, v)" by (cases pv)
  with Some assms(2) obtain n where n: "v \<noteq> []" "value_map t v = Some n" "x = (if pos then n else - n)"
    by (auto simp: value_rel_def)
  moreover have "0 < n" using value_id_pos [OF assms(1) n(2,1)] by simp
  ultimately show thesis using that(2,3) Some pv by (cases pos) auto
qed

lemma value_rel_pos_iff:
  assumes "fd_table_ok t" "value_map t v = Some n" "v \<noteq> []" "value_rel t x r"
  shows "x = n \<longleftrightarrow> r = Some (True, v)"
  using assms(1,4)
proof (cases rule: value_rel_cases)
  case 1
  with value_id_pos [OF assms(1-3)] show ?thesis by simp
next
  case (2 w m)
  with value_id_inj [OF assms(1,2), of w] assms(2) show ?thesis by auto
next
  case (3 w m)
  with value_id_pos [OF assms(1-3)] show ?thesis by simp
qed

lemma value_rel_neg_iff:
  assumes "fd_table_ok t" "value_map t v = Some n" "v \<noteq> []" "value_rel t x r"
  shows "x < 0 \<and> x * - 1 \<noteq> n \<longleftrightarrow> (\<exists>u. r = Some (False, u) \<and> u \<noteq> v)"
  using assms(1,4)
proof (cases rule: value_rel_cases)
  case (3 w m)
  with value_id_inj [OF assms(1,2), of w] assms(2) show ?thesis by auto
qed simp_all

lemma value_rel_zero_iff:
  "fd_table_ok t \<Longrightarrow> value_rel t x r \<Longrightarrow> x = 0 \<longleftrightarrow> r = None"
  by (erule (1) value_rel_cases) auto

text \<open>One operation: it is rejected exactly when its meaning is undefined.\<close>

lemma apply_fd_operation_spec:
  assumes rel: "fd_rel st e"
    and f: "feature_map (st_table st) f = Some (op_feature opn)"
    and v: "value_map (st_table st) (case v of None \<Rightarrow> [] | Some w \<Rightarrow> w) = Some (op_value opn)"
    and nonempty: "v \<noteq> Some []"
    and unvalued: "v = None \<Longrightarrow> op_operator opn \<in> {Rop, Dop, Cop}"
  shows "case spec_flag (op_operator opn) f v e of
           None \<Rightarrow> apply_fd_operation opn st = Inr (False, st)
         | Some e' \<Rightarrow> \<exists>st'. apply_fd_operation opn st = Inr (True, st') \<and> fd_rel st' e' \<and>
                         st_table st' = st_table st"
proof -
  let ?t = "st_table st" and ?i = "op_feature opn" and ?n = "op_value opn"
  let ?x = "st_values st ! op_feature opn"
  have ok: "fd_table_ok ?t" and len: "length (st_values st) = card (dom (feature_map ?t))"
    using rel by (auto simp: fd_rel_def)
  have il: "?i < length (st_values st)" using feature_id_less [OF ok f] len by simp
  have cur: "value_rel ?t ?x (e f)"
    using rel f by (auto simp: fd_rel_def env_rel_def split: option.splits dest: spec [of _ f])
  have zero: "value_map ?t [] = Some 0" using ok by (auto simp: fd_table_ok_def)
  note upd = fd_rel_update [OF rel f]
  show ?thesis
  proof (cases v)
    case None
    with v zero have "?n = 0" by simp
    with None unvalued il value_rel_zero_iff [OF ok cur] rel upd [of 0 None] show ?thesis
      by (auto simp: apply_fd_operation_def Let_def value_rel_def set_value_def)
  next
    case (Some w)
    with v nonempty have w: "value_map ?t w = Some ?n" "w \<noteq> []" by auto
    have n: "0 < ?n" "?n \<le> 32767" using value_id_pos [OF ok w] by auto
    have pos: "value_rel ?t ?n (Some (True, w))" and neg: "value_rel ?t (- ?n) (Some (False, w))"
      using w by (auto simp: value_rel_def)
    have short: "to_short (- ?n) = - ?n" using n by (intro to_short_small) auto
    show ?thesis
    proof (cases "op_operator opn")
      case Uop
      with Some il n value_rel_zero_iff [OF ok cur] value_rel_pos_iff [OF ok w cur]
        value_rel_neg_iff [OF ok w cur] upd [OF pos] show ?thesis
        by (auto simp: apply_fd_operation_def Let_def set_value_def)
    qed (use Some il n short value_rel_pos_iff [OF ok w cur] rel upd [OF pos] upd [OF neg]
        upd [of 0 None] in \<open>auto simp: apply_fd_operation_def Let_def set_value_def value_rel_def\<close>)
  qed
qed

lemma apply_operation_str_spec:
  assumes rel: "fd_rel st e" and cov: "fd_covers st x"
  shows "case flag_step x e of
           None \<Rightarrow> apply_operation_str x st = Inr (False, st)
         | Some e' \<Rightarrow> \<exists>st'. apply_operation_str x st = Inr (True, st') \<and> fd_rel st' e' \<and>
                         st_table st' = st_table st"
proof (cases "is_diacritic x")
  case False
  have "fd_table_ok (st_table st)" using rel by (simp add: fd_rel_def)
  with False have "get_operation_str (st_table st) x = None"
    by (auto simp: fd_table_ok_def get_operation_str_def split: option.splits)
  with False rel show ?thesis by (simp add: flag_step_def apply_operation_str_def)
next
  case True
  then obtain opr f v where p: "char_to_operator (x ! 1) = Inr opr" "get_feature x = Inr f"
    "get_value x = Inr v" "has_value x \<or> v = []" "\<not> has_value x \<Longrightarrow> opr = Rop \<or> opr = Dop \<or> opr = Cop"
    by (rule split_flag_accessors) blast
  from cov True obtain opn where opn: "get_operation_str (st_table st) x = Some opn" "op_name opn = x"
    and nonempty: "has_value x \<Longrightarrow> v \<noteq> []"
    using p(3) by (auto simp: fd_covers_def)
  have "encodes (st_table st) opn x"
    using rel opn by (auto simp: fd_rel_def fd_table_ok_def get_operation_str_def get_operation_def
        split: option.splits)
  with p have enc: "op_operator opn = opr" "feature_map (st_table st) f = Some (op_feature opn)"
    "value_map (st_table st) v = Some (op_value opn)" by (auto simp: encodes_def)
  have "case spec_flag opr f (if has_value x then Some v else None) e of
       None \<Rightarrow> apply_fd_operation opn st = Inr (False, st)
     | Some e' \<Rightarrow> \<exists>st'. apply_fd_operation opn st = Inr (True, st') \<and> fd_rel st' e' \<and>
                     st_table st' = st_table st"
    using apply_fd_operation_spec [OF rel enc(2), of "if has_value x then Some v else None"]
      enc p(4,5) nonempty by auto
  moreover have "flag_step x e = spec_flag opr f (if has_value x then Some v else None) e"
    using True p by (simp add: flag_step_def)
  moreover have "apply_operation_str x st = apply_fd_operation opn st"
    using opn by (simp add: apply_operation_str_def)
  ultimately show ?thesis by (simp only:)
qed

lemma fd_step_table: "fd_step x st = Some st' \<Longrightarrow> st_table st' = st_table st"
  by (auto simp: fd_step_def apply_operation_str_def apply_fd_operation_def Let_def set_value_def
      split: sum.splits prod.splits bool.splits option.splits if_splits fd_operator.splits)

interpretation fd: flag_engine fd_step fd_rel fd_covers
proof
  fix s :: "'t fd_state" and e x
  assume "fd_rel s e" "fd_covers s x" "flag_step x e = None"
  then show "fd_step x s = None"
    using apply_operation_str_spec [of s e x] by (simp add: fd_step_def)
next
  fix s :: "'t fd_state" and e x e'
  assume "fd_rel s e" "fd_covers s x" "flag_step x e = Some e'"
  then show "\<exists>s'. fd_step x s = Some s' \<and> fd_rel s' e'"
    using apply_operation_str_spec [of s e x] by (auto simp: fd_step_def)
next
  fix s s' :: "'t fd_state" and x y
  assume "fd_covers s x" "fd_step y s = Some s'"
  then show "fd_covers s' x"
    by (auto simp: fd_covers_def dest: fd_step_table)
qed

lemma fd_rel_new: "fd_table_ok t \<Longrightarrow> fd_rel (new_fd_state t) Map.empty"
  using feature_id_less [of t]
  by (auto simp: fd_rel_def env_rel_def new_fd_state_def num_features_def fd_table_ok_def
      value_rel_def split: option.splits)


section \<open>Running a state over symbols\<close>

fun apply_all :: "string list \<Rightarrow> 't fd_state \<Rightarrow> 't fd_state option" where
  "apply_all [] st = Some st"
| "apply_all (x # xs) st =
     (case apply_operation_str x st of
        Inr (True, st') \<Rightarrow> apply_all xs st'
      | _ \<Rightarrow> None)"

lemma apply_all_run: "apply_all xs st = fd.run xs st"
  by (induction xs arbitrary: st)
     (auto simp: fd_step_def split: sum.splits prod.splits bool.splits option.splits)

lemma apply_all_iff_flag_run:
  "fd_table_ok t \<Longrightarrow> \<forall>x \<in> set xs. fd_covers (new_fd_state t) x \<Longrightarrow>
     (apply_all xs (new_fd_state t) \<noteq> None) = (flag_run xs Map.empty \<noteq> None)"
  unfolding apply_all_run by (rule fd.run_iff_flag_run) (rule fd_rel_new)

lemma apply_fd_operation_error:
  "apply_fd_operation opn st = Inr (b, st') \<Longrightarrow> st_error st' = st_error st"
  by (auto simp: apply_fd_operation_def Let_def set_value_def
      split: if_splits fd_operator.splits)

lemma apply_operation_error:
  "apply_operation x st = Inr (b, st') \<Longrightarrow> st_error st' = st_error st"
  by (auto simp: apply_operation_def split: option.splits dest: apply_fd_operation_error)

lemma valid_vector_loop_error:
  "valid_vector_loop xs st = Inr st' \<Longrightarrow> st_error st' = st_error st"
  by (induction xs arbitrary: st)
     (auto simp: result_simps split: if_splits dest: apply_operation_error)

lemma find_diacritic_None: "find_diacritic s = None"
proof (rule ccontr)
  assume "find_diacritic s \<noteq> None"
  then obtain b e where b: "str_find s ''@'' 0 = Some b" and e: "str_find s ''@'' (b + 1) = Some e"
    and d: "is_diacritic (take (e - b) (drop b s))"
    by (auto simp: find_diacritic_def split: option.splits if_splits)
  let ?w = "take (e - b) (drop b s)"
  from e have "find_at ''@'' (drop (b + 1) s) (b + 1) = Some e"
    by (auto simp: str_find_def split: if_splits)
  from find_at_Some [OF this] find_at_least [OF this, of "e - 1"]
  have le: "b + 1 \<le> e" "e \<le> length s"
    and not_at: "b + 1 \<le> e - 1 \<Longrightarrow> \<not> prefix ''@'' (drop (e - 1 - (b + 1)) (drop (b + 1) s))"
    using e by (auto simp: str_find_def split: if_splits)
  from d have len: "5 \<le> length ?w" and last: "?w ! (length ?w - 1) = CHR ''@''"
    by (simp_all add: is_diacritic_iff)
  from len le have "b + 1 \<le> e - 1" and w: "length ?w = e - b" by auto
  have "?w ! (length ?w - 1) = s ! (e - 1)"
    using w len le by simp
  moreover have "e - 1 - (b + 1) + (b + 1) = e - 1" using \<open>b + 1 \<le> e - 1\<close> by arith
  then have "drop (e - 1 - (b + 1)) (drop (b + 1) s) = drop (e - 1) s"
    by (simp only: drop_drop)
  moreover have "e - 1 < length s" using le \<open>b + 1 \<le> e - 1\<close> by arith
  then have "s ! (e - 1) # drop (Suc (e - 1)) s = drop (e - 1) s"
    by (rule Cons_nth_drop_Suc)
  ultimately show False using last not_at \<open>b + 1 \<le> e - 1\<close>
    by (metis append_Cons append_Nil prefixI)
qed

section \<open>Properties\<close>

text \<open>A string is a flag diacritic for \<open>is_diacritic\<close> exactly when it is printed from an
  operator letter, a feature without full stop and an optional value; without a value the
  operator is R, D or C and the feature is not empty.\<close>

theorem is_diacritic_shape:
  "is_diacritic s \<longleftrightarrow> (\<exists>c f v. wf_flag c f v \<and> s = make_flag c f v)"
  by (blast intro: is_diacritic_make_flag elim: is_diacritic_cases)

text \<open>The accessors of \<open>FdOperation\<close> and the splitting code of \<open>define_diacritic\<close> read
  back operator, feature and value of a printed flag diacritic.\<close>

theorem flag_parts_roundtrip:
  assumes "wf_flag c f v"
  shows "get_operator (make_flag c f v) = Inr [c] \<and> get_feature (make_flag c f v) = Inr f \<and>
     get_value (make_flag c f v) = Inr (case v of None \<Rightarrow> [] | Some w \<Rightarrow> w) \<and>
     has_value (make_flag c f v) = (v \<noteq> None) \<and>
     (\<exists>opr. char_to_operator c = Inr opr \<and>
        split_flag (make_flag c f v) = Inr (opr, f, case v of None \<Rightarrow> [] | Some w \<Rightarrow> w))"
  using flag_features [OF assms] split_flag_make_flag [OF assms refl]
    char_to_operator_op_char [of c] assms
  by (auto simp: wf_flag_def)

lemma flag_parts_roundtrip_witness:
  "get_feature ''@U.CASE.GEN@'' = Inr ''CASE'' \<and> get_value ''@U.CASE.GEN@'' = Inr ''GEN''"
  using flag_parts_roundtrip [of "CHR ''U''" "''CASE''" "Some ''GEN''"]
  by (simp add: wf_flag_def op_char_def)

text \<open>C39. Defining a flag diacritic in a well-formed table with room left succeeds, keeps the
  table well-formed (numbers of features and values stay distinct, every operation encodes its
  string) and makes the operation available under the symbol and under the string.\<close>

theorem define_diacritic_correct:
  assumes "fd_table_ok t" and "is_diacritic s"
    and "card (dom (feature_map t)) < 65535" and "card (dom (value_map t)) < 32767"
  shows "\<exists>t' opn. define_diacritic x s t = Inr t' \<and> fd_table_ok t' \<and>
     get_operation t' x = Some opn \<and> get_operation_str t' s = Some opn \<and> op_name opn = s"
proof -
  from define_diacritic_total [OF assms(2), of t x] assms obtain t' where
    t': "define_diacritic x s t = Inr t'" by auto
  moreover from define_diacritic_ok [OF assms(1) t' assms(3,4)] have "fd_table_ok t'" .
  moreover from t' have "\<exists>opn. get_operation t' x = Some opn \<and> get_operation_str t' s = Some opn \<and>
      op_name opn = s"
    by (rule define_diacritic_cases) (simp add: get_operation_def get_operation_str_def)
  ultimately show ?thesis by blast
qed

lemma define_diacritic_correct_witness:
  "\<exists>t' opn. define_diacritic (7::nat) ''@P.A.B@'' empty_fd_table = Inr t' \<and> fd_table_ok t' \<and>
     get_operation t' 7 = Some opn"
  using define_diacritic_correct [of empty_fd_table "''@P.A.B@''" "7::nat"] fd_table_ok_empty
    is_diacritic_make_flag [of "CHR ''P''" "''A''" "Some ''B''"]
  by (auto simp: empty_fd_table_def wf_flag_def op_char_def)

text \<open>C3. Run over a sequence of symbols from the initial state, \<open>FdState\<close> with its numbered
  features and signed short values accepts the sequence exactly when the abstract meaning of the
  flag operations accepts it, provided that the table is well-formed, that every flag diacritic of
  the sequence is defined in it, and that none of them has an empty value (like \<open>@P.A.@\<close>): an undefined
  diacritic is ignored by \<open>FdState\<close>, and an empty value gets the number 0, which stands for a feature
  that is not set.\<close>

theorem fd_state_refines_flags:
  assumes "fd_table_ok t" and "\<forall>x \<in> set xs. fd_covers (new_fd_state t) x"
  shows "(apply_all xs (new_fd_state t) \<noteq> None) = (flag_run xs Map.empty \<noteq> None)"
  using assms unfolding apply_all_run by (intro fd.run_iff_flag_run) (rule fd_rel_new)

definition example_table :: "nat fd_table" where
  "example_table = \<lparr>feature_map = [''A'' \<mapsto> 0], value_map = [[] \<mapsto> 0, ''B'' \<mapsto> 2],
     operations = [7 \<mapsto> \<lparr>op_operator = Pop, op_feature = 0, op_value = 2, op_name = ''@P.A.B@''\<rparr>],
     symbol_map = [''@P.A.B@'' \<mapsto> 7]\<rparr>"

lemma example_table_defined: "define_diacritic 7 ''@P.A.B@'' empty_fd_table = Inr example_table"
  by (simp add: define_diacritic_def split_flag_def is_diacritic_def str_find_last_of_def
      char_to_operator_def str_find_def str_substr_def empty_fd_table_def size_t_to_ushort_def
      alloc_def next_value_def to_short_def example_table_def Let_def)

lemma example_table_ok: "fd_table_ok example_table"
  by (rule define_diacritic_ok [OF fd_table_ok_empty example_table_defined])
     (simp_all add: empty_fd_table_def)

lemma example_table_covers: "fd_covers (new_fd_state example_table) ''@P.A.B@''"
  using flag_features [of "CHR ''P''" "''A''" "Some ''B''"]
  by (simp add: fd_covers_def new_fd_state_def example_table_def get_operation_str_def
      get_operation_def wf_flag_def op_char_def)

lemma fd_state_refines_flags_witness:
  "(apply_all [''@P.A.B@'', ''x''] (new_fd_state example_table) \<noteq> None) =
     (flag_run [''@P.A.B@'', ''x''] Map.empty \<noteq> None)"
  by (rule fd_state_refines_flags [OF example_table_ok])
     (use example_table_covers in \<open>simp add: fd_covers_def [of _ "''x''"] is_diacritic_def
        new_fd_state_def example_table_def get_operation_str_def\<close>)

text \<open>\<open>FdTable::is_valid_string\<close> on a symbol vector never rejects: a failing operation
  leaves the loop, but the error flag that the result is read from is never set.\<close>

theorem is_valid_vector_never_rejects: "is_valid_vector t xs \<noteq> Inr False"
proof
  assume "is_valid_vector t xs = Inr False"
  then obtain st where "valid_vector_loop xs (new_fd_state t) = Inr st" "fd_fails st"
    by (auto simp: is_valid_vector_def result_simps)
  with valid_vector_loop_error [of xs "new_fd_state t" st] show False
    by (simp add: fd_fails_def new_fd_state_def)
qed

text \<open>\<open>FdTable::is_valid_string\<close> on a plain string accepts every string:
  \<open>find_diacritic\<close> leaves the closing \<open>@\<close> out of the substring it tests, so it never finds
  a diacritic and no operation is applied.\<close>

theorem is_valid_string_accepts_all:
  "find_diacritic s = None \<and> is_valid_string t s = Inr True"
  by (simp add: find_diacritic_None is_valid_string_def valid_string_loop.simps fd_fails_def
      new_fd_state_def)

end
