(* ===== verification/SymbolDefs.thy ===== *)
theory SymbolDefs
  imports Flags
begin

text \<open>
  Symbols and the helpers on them: \<open>libhfst/src/string-utils.cc\<close> (\<open>replace_all\<close>) and
  \<open>libhfst/src/HfstSymbolDefs.cc\<close> (special symbols, unknown-symbol sets, printing and
  filtering of paths). A two-level path is a weight and a vector of string pairs; a
  \<open>std::set\<close> of paths is a set. \<open>replace_all\<close> need not return, so it is a partial function
  whose value \<open>None\<close> stands for not returning.
\<close>

section \<open>Special symbols\<close>

definition internal_epsilon :: string where "internal_epsilon = ''@_EPSILON_SYMBOL_@''"
definition internal_unknown :: string where "internal_unknown = ''@_UNKNOWN_SYMBOL_@''"
definition internal_identity :: string where "internal_identity = ''@_IDENTITY_SYMBOL_@''"
definition internal_default :: string where "internal_default = ''@_DEFAULT_SYMBOL_@''"

lemmas special_symbol_defs =
  internal_epsilon_def internal_unknown_def internal_identity_def internal_default_def

definition is_epsilon :: "string \<Rightarrow> bool" where "is_epsilon s = (s = internal_epsilon)"
definition is_unknown :: "string \<Rightarrow> bool" where "is_unknown s = (s = internal_unknown)"
definition is_identity :: "string \<Rightarrow> bool" where "is_identity s = (s = internal_identity)"
definition is_default :: "string \<Rightarrow> bool" where "is_default s = (s = internal_default)"

lemma special_symbols_distinct [simp]:
  "internal_epsilon \<noteq> internal_unknown" "internal_unknown \<noteq> internal_epsilon"
  "internal_epsilon \<noteq> internal_identity" "internal_identity \<noteq> internal_epsilon"
  "internal_epsilon \<noteq> internal_default" "internal_default \<noteq> internal_epsilon"
  "internal_unknown \<noteq> internal_identity" "internal_identity \<noteq> internal_unknown"
  "internal_unknown \<noteq> internal_default" "internal_default \<noteq> internal_unknown"
  "internal_identity \<noteq> internal_default" "internal_default \<noteq> internal_identity"
  by (simp_all add: special_symbol_defs)

lemma special_symbols_nonempty [simp]:
  "internal_epsilon \<noteq> []" "internal_unknown \<noteq> []" "internal_identity \<noteq> []"
  "[] \<noteq> internal_epsilon" "[] \<noteq> internal_unknown" "[] \<noteq> internal_identity"
  by (simp_all add: special_symbol_defs)

lemma special_symbols_not_diacritic [simp]:
  "\<not> is_diacritic internal_epsilon" "\<not> is_diacritic internal_unknown"
  "\<not> is_diacritic internal_identity" "\<not> is_diacritic internal_default"
  by (simp_all add: special_symbol_defs is_diacritic_def)

section \<open>replace_all\<close>

definition str_replace :: "'a list \<Rightarrow> nat \<Rightarrow> nat \<Rightarrow> 'a list \<Rightarrow> 'a list" where
  "str_replace s pos n r = take pos s @ r @ drop (pos + n) s"

partial_function (option) replace_all_loop ::
  "'a list \<Rightarrow> 'a list \<Rightarrow> 'a list \<Rightarrow> nat option \<Rightarrow> 'a list option" where
  "replace_all_loop haystack needle replacement last_needle =
     (case last_needle of
        None \<Rightarrow> Some haystack
      | Some pos \<Rightarrow>
          (let haystack' = str_replace haystack pos (length needle) replacement
           in replace_all_loop haystack' needle replacement
                (str_find haystack' needle (pos + length replacement))))"

definition replace_all :: "'a list \<Rightarrow> 'a list \<Rightarrow> 'a list \<Rightarrow> 'a list option" where
  "replace_all haystack needle replacement =
     replace_all_loop haystack needle replacement (str_find haystack needle 0)"

text \<open>The result read from left to right: every non-overlapping occurrence is replaced.\<close>

function replaced :: "'a list \<Rightarrow> 'a list \<Rightarrow> 'a list \<Rightarrow> 'a list" where
  "replaced needle r [] = []"
| "replaced needle r (c # cs) =
     (if needle \<noteq> [] \<and> prefix needle (c # cs)
      then r @ replaced needle r (drop (length needle) (c # cs))
      else c # replaced needle r cs)"
  by pat_completeness auto
termination by (relation "measure (\<lambda>(n, r, s). length s)") (auto split: list.splits)

lemma replaced_none:
  "find_at needle s i = None \<Longrightarrow> replaced needle r s = s"
  by (induction needle s i rule: find_at.induct) (auto split: if_splits)

lemma replaced_some:
  assumes "needle \<noteq> []" and "find_at needle s i = Some j"
  shows "\<exists>a b. s = a @ needle @ b \<and> j = i + length a \<and>
           replaced needle r s = a @ r @ replaced needle r b"
  using assms
proof (induction needle s i rule: find_at.induct)
  case (1 needle i)
  then show ?case by auto
next
  case (2 needle c cs i)
  show ?case
  proof (cases "prefix needle (c # cs)")
    case True
    then obtain b where b: "c # cs = needle @ b" by (auto simp: prefix_def)
    have "replaced needle r (c # cs) = r @ replaced needle r (drop (length needle) (c # cs))"
      using True "2.prems" by simp
    then have "replaced needle r (c # cs) = r @ replaced needle r b" by (simp add: b)
    moreover have "j = i" using True "2.prems" by simp
    ultimately show ?thesis using b by (intro exI [of _ "[]"] exI [of _ b]) simp
  next
    case False
    with 2 obtain a b where "cs = a @ needle @ b" "j = Suc i + length a"
      "replaced needle r cs = a @ r @ replaced needle r b" by auto
    with False show ?thesis by (intro exI [of _ "c # a"] exI [of _ b]) simp
  qed
qed

lemma replace_all_loop_correct:
  assumes "needle \<noteq> []"
  shows "replace_all_loop (pre @ s) needle r (find_at needle s (length pre)) =
           Some (pre @ replaced needle r s)"
proof (induction "length s" arbitrary: pre s rule: less_induct)
  case less
  show ?case
  proof (cases "find_at needle s (length pre)")
    case None
    then show ?thesis by (simp add: replace_all_loop.simps replaced_none [OF None])
  next
    case (Some j)
    from replaced_some [OF assms Some, of r] obtain a b where ab: "s = a @ needle @ b"
      "j = length pre + length a" "replaced needle r s = a @ r @ replaced needle r b" by auto
    have rep: "str_replace (pre @ s) j (length needle) r = (pre @ a @ r) @ b"
      by (simp add: str_replace_def ab)
    have "length b < length s" using assms ab by simp
    note IH = less [OF this, of "pre @ a @ r"]
    have "str_find ((pre @ a @ r) @ b) needle (j + length r) = find_at needle b (length (pre @ a @ r))"
      using ab(2) by (simp add: str_find_def add.assoc)
    then have "replace_all_loop (pre @ s) needle r (Some j) =
        replace_all_loop ((pre @ a @ r) @ b) needle r (find_at needle b (length (pre @ a @ r)))"
      by (subst replace_all_loop.simps) (simp only: option.case Let_def rep)
    with IH Some ab(3) show ?thesis by simp
  qed
qed

lemma replace_all_correct_total:
  "needle \<noteq> [] \<Longrightarrow> replace_all haystack needle r = Some (replaced needle r haystack)"
  using replace_all_loop_correct [of needle "[]" haystack r]
  by (simp add: replace_all_def str_find_def)

lemma replace_all_loop_some:
  assumes "replace_all_loop h needle r l = Some x"
  shows "needle = [] \<longrightarrow> l = None \<or> (\<exists>p. l = Some p \<and> length h < p)"
proof (rule replace_all_loop.raw_induct [OF _ assms])
  fix f :: "'a list \<Rightarrow> 'a list \<Rightarrow> 'a list \<Rightarrow> nat option \<Rightarrow> 'a list option"
    and h needle r :: "'a list" and l y
  assume IH: "\<And>h needle r l y. f h needle r l = Some y \<Longrightarrow>
      needle = [] \<longrightarrow> l = None \<or> (\<exists>p. l = Some p \<and> length h < p)"
    and run: "(case l of None \<Rightarrow> Some h | Some pos \<Rightarrow>
       let haystack' = str_replace h pos (length needle) r
       in f haystack' needle r (str_find haystack' needle (pos + length r))) = Some y"
  show "needle = [] \<longrightarrow> l = None \<or> (\<exists>p. l = Some p \<and> length h < p)"
  proof (intro impI)
    assume empty: "needle = []"
    show "l = None \<or> (\<exists>p. l = Some p \<and> length h < p)"
    proof (cases l)
      case (Some p)
      let ?h = "str_replace h p (length needle) r"
      from run Some have "f ?h needle r (str_find ?h needle (p + length r)) = Some y"
        by (simp add: Let_def)
      from IH [OF this] empty have "str_find ?h [] (p + length r) = None \<or>
          (\<exists>q. str_find ?h [] (p + length r) = Some q \<and> length ?h < q)" by blast
      moreover have "str_find ?h [] (p + length r) =
          (if p + length r \<le> length ?h then Some (p + length r) else None)"
        by (cases "drop (p + length r) ?h") (simp_all add: str_find_def)
      ultimately have "length ?h < p + length r" by (auto split: if_splits)
      then have "length h < p" using empty by (auto simp: str_replace_def min_def split: if_splits)
      with Some show ?thesis by simp
    qed simp
  qed
qed

section \<open>Sets of symbols and paths\<close>

definition collect_unknown_sets ::
  "string set \<Rightarrow> string set \<Rightarrow> string set \<Rightarrow> string set \<Rightarrow> string set \<times> string set" where
  "collect_unknown_sets s1 unknown1 s2 unknown2 =
     (fold (\<lambda>sym u. if sym \<notin> s1 then insert sym u else u) (sorted_list_of_set s2) unknown1,
      fold (\<lambda>sym u. if sym \<notin> s2 then insert sym u else u) (sorted_list_of_set s1) unknown2)"

lemma fold_insert_if:
  "fold (\<lambda>x u. if P x then insert x u else u) xs u = u \<union> {x \<in> set xs. P x}"
  by (induction xs arbitrary: u) auto

lemma collect_unknown_sets_eq:
  "finite s1 \<Longrightarrow> finite s2 \<Longrightarrow>
     collect_unknown_sets s1 u1 s2 u2 = (u1 \<union> (s2 - s1), u2 \<union> (s1 - s2))"
  by (auto simp: collect_unknown_sets_def fold_insert_if)

text \<open>\<open>to_string\<close>: the separator goes before every element but the first.\<close>

definition strings_to_string :: "string list \<Rightarrow> bool \<Rightarrow> string" where
  "strings_to_string sv spaces =
     fst (fold (\<lambda>s (result, first).
       ((if spaces \<and> \<not> first then result @ '' '' else result) @ s, False)) sv ([], True))"

definition pairs_to_string :: "string_pair list \<Rightarrow> bool \<Rightarrow> string" where
  "pairs_to_string spv spaces =
     fst (fold (\<lambda>(i, out) (result, first).
       (let result' = (if spaces \<and> \<not> first then result @ '' '' else result) @ i
        in if i \<noteq> out then result' @ '':'' @ out else result', False)) spv ([], True))"

definition to_string_pair_set :: "string set \<Rightarrow> string_pair set" where
  "to_string_pair_set ss = fold (\<lambda>s r. insert (s, s) r) (sorted_list_of_set ss) {}"

definition to_string_vector :: "string_pair list \<Rightarrow> bool \<Rightarrow> string list" where
  "to_string_vector spv input_side =
     fold (\<lambda>p r. if input_side then r @ [fst p] else r @ [snd p]) spv []"

definition path_to_string_vector :: "'w \<times> string_pair list \<Rightarrow> string list" where
  "path_to_string_vector path = fold (\<lambda>p r. r @ [fst p]) (snd path) []"

definition to_unsigned :: "nat \<Rightarrow> nat" where
  "to_unsigned n = n mod 4294967296"

definition unsigned_to_int :: "nat \<Rightarrow> int" where
  "unsigned_to_int n = (int n + 2147483648) mod 4294967296 - 2147483648"

definition max_path_length :: "('w::linorder \<times> string_pair list) set \<Rightarrow> nat" where
  "max_path_length paths =
     fold (\<lambda>p m. let l = to_unsigned (length (snd p)) in if l > m then l else m)
       (sorted_list_of_set paths) 0"

definition longest_path_length :: "('w::linorder \<times> string_pair list) set \<Rightarrow> bool \<Rightarrow> int" where
  "longest_path_length paths equally_long =
     (if card paths = 0 then - 1
      else if equally_long
      then unsigned_to_int (to_unsigned (length (snd (hd (sorted_list_of_set paths)))))
      else unsigned_to_int (max_path_length paths))"

definition get_longest_paths ::
  "('w::linorder \<times> string_pair list) set \<Rightarrow> ('w \<times> string_pair list) set" where
  "get_longest_paths paths =
     fold (\<lambda>p r. if to_unsigned (length (snd p)) = max_path_length paths then insert p r else r)
       (sorted_list_of_set paths) {}"

definition remove_flags :: "string list \<Rightarrow> string list" where
  "remove_flags v = fold (\<lambda>s r. if \<not> is_diacritic s then r @ [s] else r) v []"

definition remove_flags_pairs :: "string_pair list \<Rightarrow> string_pair list" where
  "remove_flags_pairs v =
     fold (\<lambda>p r. if \<not> is_diacritic (fst p) \<and> \<not> is_diacritic (snd p) then r @ [p] else r) v []"

definition remove_flags_path :: "'w \<times> string_pair list \<Rightarrow> 'w \<times> string_pair list" where
  "remove_flags_path path = (let spv = snd path; spv' = remove_flags_pairs spv in (fst path, spv'))"

definition remove_flags_paths ::
  "('w::linorder \<times> string_pair list) set \<Rightarrow> ('w \<times> string_pair list) set" where
  "remove_flags_paths paths =
     fold (\<lambda>p r. insert (fst p, remove_flags_pairs (snd p)) r) (sorted_list_of_set paths) {}"

lemma fold_filter_append:
  "fold (\<lambda>x r. if P x then r @ [x] else r) xs r = r @ filter P xs"
  by (induction xs arbitrary: r) auto

lemma fold_map_append: "fold (\<lambda>x r. r @ [f x]) xs r = r @ map f xs"
  by (induction xs arbitrary: r) auto

lemma remove_flags_filter: "remove_flags v = filter (\<lambda>s. \<not> is_diacritic s) v"
  by (simp add: remove_flags_def fold_filter_append)

lemma remove_flags_pairs_filter:
  "remove_flags_pairs v = filter (\<lambda>p. \<not> is_diacritic (fst p) \<and> \<not> is_diacritic (snd p)) v"
  using fold_filter_append [of "\<lambda>p. \<not> is_diacritic (fst p) \<and> \<not> is_diacritic (snd p)" v "[]"]
  by (simp add: remove_flags_pairs_def)

lemma fold_max_fun:
  fixes f :: "'a \<Rightarrow> nat"
  shows "fold (\<lambda>p m. if f p > m then f p else m) xs m = Max (insert m (f ` set xs))"
proof (induction xs arbitrary: m)
  case Nil
  then show ?case by simp
next
  case (Cons x xs)
  have "(if f x > m then f x else m) = max m (f x)" by simp
  with Cons show ?case by (cases "xs = []") (simp_all add: max.assoc)
qed

lemma max_path_length_eq:
  assumes "finite paths" and "\<And>p. p \<in> paths \<Longrightarrow> length (snd p) < 4294967296"
  shows "max_path_length paths = Max (insert 0 ((\<lambda>p. length (snd p)) ` paths))"
proof -
  have "(\<lambda>p. to_unsigned (length (snd p))) ` paths = (\<lambda>p. length (snd p)) ` paths"
    using assms(2) by (intro image_cong) (auto simp: to_unsigned_def)
  with assms(1) show ?thesis
    by (simp add: max_path_length_def Let_def fold_max_fun)
qed

section \<open>Properties\<close>

text \<open>\<open>replace_all\<close> with a non-empty needle returns, and replaces from left to right every
  non-overlapping occurrence; with an empty needle it never returns.\<close>

theorem replace_all_correct:
  "replace_all haystack needle replacement =
     (if needle = [] then None else Some (replaced needle replacement haystack))"
proof (cases "needle = []")
  case True
  have "find_at [] haystack 0 = Some 0" by (cases haystack) simp_all
  with True replace_all_loop_some [of haystack "[]" replacement "Some 0"] show ?thesis
    by (cases "replace_all haystack [] replacement") (simp_all add: replace_all_def str_find_def)
next
  case False
  with replace_all_loop_correct [OF False, of "[]" haystack replacement] show ?thesis
    by (simp add: replace_all_def str_find_def)
qed

text \<open>\<open>get_longest_paths\<close> keeps exactly the paths no other path is longer than, and
  \<open>longest_path_length\<close> is the length of each of them.\<close>

theorem get_longest_paths_correct:
  assumes "finite paths" and "paths \<noteq> {}" and "\<forall>p \<in> paths. length (snd p) < 2147483648"
  shows "get_longest_paths paths =
           {p \<in> paths. \<forall>q \<in> paths. length (snd q) \<le> length (snd p)} \<and>
         get_longest_paths paths \<noteq> {} \<and>
         (\<forall>p \<in> get_longest_paths paths. longest_path_length paths False = int (length (snd p)))"
proof -
  let ?l = "\<lambda>p. length (snd p)"
  let ?m = "Max (?l ` paths)"
  have len: "?l p < 4294967296" if "p \<in> paths" for p using assms(3) that by fastforce
  have Max: "max_path_length paths = ?m"
    using max_path_length_eq [OF assms(1) len] assms(1,2) by simp
  have get: "get_longest_paths paths = {p \<in> paths. ?l p = ?m}"
    using assms(1) len by (simp add: get_longest_paths_def fold_insert_if Max to_unsigned_def
        cong: conj_cong)
  have same: "{p \<in> paths. ?l p = ?m} = {p \<in> paths. \<forall>q \<in> paths. ?l q \<le> ?l p}"
    using assms(1,2) by (auto simp: eq_Max_iff intro: Max_ge)
  have "?m \<in> ?l ` paths" using Max_in [of "?l ` paths"] assms(1,2) by simp
  then obtain p where "?m = ?l p" "p \<in> paths" by (rule imageE)
  then have "p \<in> {p \<in> paths. ?l p = ?m}" by simp
  then have nonempty: "{p \<in> paths. ?l p = ?m} \<noteq> {}" by (metis empty_iff)
  have "?m < 2147483648" using assms by simp
  then have "longest_path_length paths False = int ?m"
    using assms(1,2) by (simp add: longest_path_length_def Max unsigned_to_int_def)
  then show ?thesis unfolding get by (intro conjI same nonempty) simp
qed

lemma get_longest_paths_correct_witness:
  "get_longest_paths {(1 :: int, []), (0, [(''a'', ''b'')])} \<noteq> {}"
  by (rule get_longest_paths_correct [of "{(1 :: int, []), (0, [(''a'', ''b'')])}",
        THEN conjunct2, THEN conjunct1]) simp_all

end
