(* ===== verification/Tokenizer.thy ===== *)
theory Tokenizer
  imports SymbolDefs
begin

text \<open>
  Tokenization: \<open>MultiCharSymbolTrie\<close> and \<open>HfstTokenizer\<close> of
  \<open>libhfst/src/HfstTokenizer.cc\<close>. A \<open>const char *\<close> into a C string is the list of the bytes
  that are left; the empty list stands at the terminating 0. The trie's vectors have
  \<open>UCHAR_MAX = 255\<close> elements, so byte 255 indexes past their end; reading past the terminator
  and indexing past the end are \<open>UndefinedBehaviour\<close>. A bit test \<open>128 & c\<close> is \<open>digit7 c\<close>,
  and so on.
\<close>

section \<open>The trie of multicharacter symbols\<close>

datatype mc_trie = Trie (symbol_rests: "char \<Rightarrow> mc_trie option") (is_leaf: "char \<Rightarrow> bool")

definition new_trie :: mc_trie where
  "new_trie = Trie (\<lambda>_. None) (\<lambda>_. False)"

definition in_vector :: "char \<Rightarrow> bool" where
  "in_vector c = (c \<noteq> CHR 0xFF)"

fun trie_add :: "string \<Rightarrow> mc_trie \<Rightarrow> mc_trie result" where
  "trie_add [] t = Inl UndefinedBehaviour"
| "trie_add [c] t =
     (if \<not> in_vector c then Inl UndefinedBehaviour
      else Inr (Trie (symbol_rests t) ((is_leaf t)(c := True))))"
| "trie_add (c # d # cs) t =
     (if \<not> in_vector c then Inl UndefinedBehaviour
      else rmap (\<lambda>r. Trie ((symbol_rests t)(c := Some r)) (is_leaf t))
             (trie_add (d # cs) (case symbol_rests t c of None \<Rightarrow> new_trie | Some r \<Rightarrow> r)))"

text \<open>\<open>find\<close> returns a pointer behind the longest symbol; the model returns how far it moved.\<close>

fun trie_find :: "mc_trie \<Rightarrow> string \<Rightarrow> nat option result" where
  "trie_find t [] =
     (case symbol_rests t (CHR 0x00) of
        None \<Rightarrow> Inr (if is_leaf t (CHR 0x00) then Some 1 else None)
      | Some r \<Rightarrow> Inl UndefinedBehaviour)"
| "trie_find t (c # cs) =
     (if \<not> in_vector c then Inl UndefinedBehaviour
      else case symbol_rests t c of
        None \<Rightarrow> Inr (if is_leaf t c then Some 1 else None)
      | Some r \<Rightarrow>
          rmap (\<lambda>symbol_end. case symbol_end of
              None \<Rightarrow> if is_leaf t c then Some 1 else None
            | Some n \<Rightarrow> Some (Suc n)) (trie_find r cs))"

fun isin :: "mc_trie \<Rightarrow> string \<Rightarrow> bool" where
  "isin t [] = False"
| "isin t [c] = is_leaf t c"
| "isin t (c # d # cs) = (case symbol_rests t c of None \<Rightarrow> False | Some r \<Rightarrow> isin r (d # cs))"

inductive trie_ok :: "mc_trie \<Rightarrow> bool" where
  "symbol_rests t (CHR 0x00) = None \<Longrightarrow> \<not> is_leaf t (CHR 0x00) \<Longrightarrow>
   (\<And>c r. symbol_rests t c = Some r \<Longrightarrow> trie_ok r) \<Longrightarrow> trie_ok t"

inductive_simps trie_ok_simps: "trie_ok t"

lemma isin_Cons:
  "isin t (c # cs) = (if cs = [] then is_leaf t c
     else case symbol_rests t c of None \<Rightarrow> False | Some r \<Rightarrow> isin r cs)"
  by (cases cs) auto

lemma isin_new_trie [simp]: "\<not> isin new_trie w"
  by (cases w) (auto simp: new_trie_def isin_Cons)

lemma trie_ok_new [simp]: "trie_ok new_trie"
  by (subst trie_ok_simps) (simp add: new_trie_def)

lemma trie_add_isin: "trie_add p t = Inr t' \<Longrightarrow> isin t' w \<longleftrightarrow> w = p \<or> isin t w"
proof (induction p t arbitrary: t' w rule: trie_add.induct)
  case (2 c t)
  then show ?case by (cases w) (auto simp: isin_Cons split: if_splits)
next
  case (3 c d cs t)
  let ?r = "case symbol_rests t c of None \<Rightarrow> new_trie | Some r \<Rightarrow> r"
  from "3.prems" obtain r where r: "trie_add (d # cs) ?r = Inr r" "in_vector c"
    "t' = Trie ((symbol_rests t)(c := Some r)) (is_leaf t)"
    by (auto simp: result_simps split: if_splits)
  have IH: "isin r v \<longleftrightarrow> v = d # cs \<or> isin ?r v" for v using 3 r by simp
  show ?case
  proof (cases w)
    case (Cons e es)
    with r(3) IH [of es] show ?thesis by (auto simp: isin_Cons split: option.splits)
  qed simp
qed simp

lemma trie_add_ok:
  "trie_add p t = Inr t' \<Longrightarrow> trie_ok t \<Longrightarrow> CHR 0x00 \<notin> set p \<Longrightarrow> trie_ok t'"
proof (induction p t arbitrary: t' rule: trie_add.induct)
  case (2 c t)
  then have t': "t' = Trie (symbol_rests t) ((is_leaf t)(c := True))" by (simp split: if_splits)
  show ?case using 2 by (subst trie_ok_simps) (simp add: t' trie_ok_simps [of t])
next
  case (3 c d cs t)
  let ?r = "case symbol_rests t c of None \<Rightarrow> new_trie | Some r \<Rightarrow> r"
  from "3.prems" obtain r where r: "trie_add (d # cs) ?r = Inr r" "in_vector c"
    "t' = Trie ((symbol_rests t)(c := Some r)) (is_leaf t)"
    by (auto simp: result_simps split: if_splits)
  have t: "symbol_rests t (CHR 0x00) = None" "\<not> is_leaf t (CHR 0x00)"
    "\<And>c r. symbol_rests t c = Some r \<Longrightarrow> trie_ok r"
    using "3.prems"(2) by (simp_all add: trie_ok_simps [of t])
  then have "trie_ok ?r" by (simp split: option.split)
  with 3 r have "trie_ok r" by simp
  with t "3.prems"(3) show ?case by (subst trie_ok_simps) (simp add: r(3))
qed simp

lemma trie_add_total: "p \<noteq> [] \<Longrightarrow> CHR 0xFF \<notin> set p \<Longrightarrow> \<exists>t'. trie_add p t = Inr t'"
  by (induction p t rule: trie_add.induct) (auto simp: in_vector_def)

text \<open>\<open>longest W s r\<close>: \<open>r\<close> is the length of the longest word of \<open>W\<close> that \<open>s\<close> begins with.\<close>

definition longest :: "(string \<Rightarrow> bool) \<Rightarrow> string \<Rightarrow> nat option \<Rightarrow> bool" where
  "longest W s r \<longleftrightarrow>
     (case r of
        None \<Rightarrow> \<forall>m. 0 < m \<and> m \<le> length s \<longrightarrow> \<not> W (take m s)
      | Some n \<Rightarrow> 0 < n \<and> n \<le> length s \<and> W (take n s) \<and>
          (\<forall>m. n < m \<and> m \<le> length s \<longrightarrow> \<not> W (take m s)))"

lemma all_pos_range:
  "(\<forall>m. 0 < m \<and> m \<le> Suc n \<longrightarrow> P m) \<longleftrightarrow> P 1 \<and> (\<forall>m. 0 < m \<and> m \<le> n \<longrightarrow> P (Suc m))"
proof (intro iffI allI impI conjI)
  fix m assume "P 1 \<and> (\<forall>m. 0 < m \<and> m \<le> n \<longrightarrow> P (Suc m))" "0 < m \<and> m \<le> Suc n"
  then show "P m" by (cases m; cases "m - 1") auto
qed simp_all

lemma all_Suc_range:
  "(\<forall>m. Suc k < m \<and> m \<le> Suc n \<longrightarrow> P m) \<longleftrightarrow> (\<forall>m. k < m \<and> m \<le> n \<longrightarrow> P (Suc m))"
proof (intro iffI allI impI)
  fix m assume "\<forall>m. k < m \<and> m \<le> n \<longrightarrow> P (Suc m)" "Suc k < m \<and> m \<le> Suc n"
  then show "P m" by (cases m) auto
qed simp_all

lemma longest_Cons:
  "longest W (c # cs) None \<longleftrightarrow> \<not> W [c] \<and> (\<forall>m. 0 < m \<and> m \<le> length cs \<longrightarrow> \<not> W (c # take m cs))"
  "longest W (c # cs) (Some (Suc n)) \<longleftrightarrow> n \<le> length cs \<and> W (c # take n cs) \<and>
     (\<forall>m. n < m \<and> m \<le> length cs \<longrightarrow> \<not> W (c # take m cs))"
  by (simp_all add: longest_def all_pos_range all_Suc_range)

lemma trie_find_longest:
  "trie_ok t \<Longrightarrow> CHR 0xFF \<notin> set s \<Longrightarrow> \<exists>r. trie_find t s = Inr r \<and> longest (isin t) s r"
proof (induction t s rule: trie_find.induct)
  case (1 t)
  then show ?case by (simp add: trie_ok_simps [of t] longest_def)
next
  case (2 t c cs)
  have c: "in_vector c" using "2.prems" by (auto simp: in_vector_def)
  have ne: "take m cs \<noteq> []" if "0 < m" "m \<le> length cs" for m using that by (cases cs) auto
  show ?case
  proof (cases "symbol_rests t c")
    case None
    then have "\<not> isin t (c # take m cs)" if "0 < m" "m \<le> length cs" for m
      using ne [OF that] by (simp add: isin_Cons)
    then have "longest (isin t) (c # cs) (if is_leaf t c then Some (Suc 0) else None)"
      by (auto simp: longest_Cons)
    with None c show ?thesis by (cases "is_leaf t c") simp_all
  next
    case (Some r)
    with "2.prems" have r: "trie_ok r" by (auto simp: trie_ok_simps [of t])
    with 2 c Some obtain q where q: "trie_find r cs = Inr q" "longest (isin r) cs q" by auto
    have step: "isin t (c # take m cs) = isin r (take m cs)" if "0 < m" "m \<le> length cs" for m
      using Some ne [OF that] by (simp add: isin_Cons)
    show ?thesis
    proof (cases q)
      case None
      with q step have "longest (isin t) (c # cs) (if is_leaf t c then Some (Suc 0) else None)"
        by (auto simp: longest_Cons) (auto simp: longest_def)
      with c Some q None show ?thesis by (cases "is_leaf t c") simp_all
    next
      case (Some n)
      with q step have "longest (isin t) (c # cs) (Some (Suc n))"
        by (auto simp: longest_Cons) (auto simp: longest_def)
      with c \<open>symbol_rests t c = Some r\<close> q Some show ?thesis by simp
    qed
  qed
qed

section \<open>UTF-8 checking\<close>

text \<open>The initial byte gives the number of additional bytes.\<close>

definition additional_chars :: "char \<Rightarrow> nat result" where
  "additional_chars c =
     (if c = CHR 0xC0 \<or> c = CHR 0xC1 \<or> c = CHR 0xF5 \<or> c = CHR 0xF6 \<or> c = CHR 0xF7
      then Inl IncorrectUtf8CodingException
      else if \<not> digit7 c then Inr 0
      else if \<not> digit6 c then Inl IncorrectUtf8CodingException
      else if \<not> digit5 c then Inr 1
      else if \<not> digit4 c then Inr 2
      else if \<not> digit3 c then Inr 3
      else Inl IncorrectUtf8CodingException)"

text \<open>A byte passes \<open>128 & byte && 64 ^ byte\<close> when its bit 7 is set and it is not 64.\<close>

fun read_continuation :: "nat \<Rightarrow> string \<Rightarrow> string result" where
  "read_continuation 0 s = Inr s"
| "read_continuation (Suc n) [] = Inl IncorrectUtf8CodingException"
| "read_continuation (Suc n) (c # cs) =
     (if \<not> (digit7 c \<and> c \<noteq> CHR 0x40) then Inl IncorrectUtf8CodingException
      else read_continuation n cs)"

lemma read_continuation_eq:
  "read_continuation n s =
     (if n \<le> length s \<and> (\<forall>c \<in> set (take n s). digit7 c) then Inr (drop n s)
      else Inl IncorrectUtf8CodingException)"
  by (induction n s rule: read_continuation.induct) auto

function utf8_length :: "string \<Rightarrow> nat result" where
  "utf8_length [] = Inr 0"
| "utf8_length (c # cs) =
     (case additional_chars c of
        Inl e \<Rightarrow> Inl e
      | Inr n \<Rightarrow>
          (case read_continuation n cs of
             Inl e \<Rightarrow> Inl e
           | Inr rest \<Rightarrow> rmap Suc (utf8_length rest)))"
  by pat_completeness auto
termination
  by (relation "measure length") (auto simp: read_continuation_eq split: if_splits)

definition check_utf8_correctness_and_calculate_length :: "string \<Rightarrow> nat result" where
  "check_utf8_correctness_and_calculate_length s = utf8_length s"

definition check_utf8_correctness :: "string \<Rightarrow> unit result" where
  "check_utf8_correctness s = rmap (\<lambda>_. ()) (check_utf8_correctness_and_calculate_length s)"

definition utf8_ok :: "string \<Rightarrow> bool" where
  "utf8_ok s \<longleftrightarrow> (\<exists>n. utf8_length s = Inr n)"

definition utf8_char :: "string \<Rightarrow> bool" where
  "utf8_char s \<longleftrightarrow> (\<exists>c cs n. s = c # cs \<and> additional_chars c = Inr n \<and> length cs = n \<and>
     (\<forall>d \<in> set cs. digit7 d))"

text \<open>A correct string is a sequence of such characters, and the reading is unambiguous.\<close>

lemma utf8_length_char:
  assumes "utf8_char x"
  shows "utf8_length (x @ s) = rmap Suc (utf8_length s)"
  using assms by (auto simp: utf8_char_def read_continuation_eq)

lemma utf8_ok_cases:
  assumes "utf8_ok s" and "s \<noteq> []"
  obtains x rest where "s = x @ rest" "utf8_char x" "utf8_ok rest"
proof -
  obtain c cs where s: "s = c # cs" using assms(2) by (cases s) auto
  with assms(1) obtain n where n: "additional_chars c = Inr n" "n \<le> length cs"
    "\<forall>c \<in> set (take n cs). digit7 c" "utf8_ok (drop n cs)"
    by (auto simp: utf8_ok_def read_continuation_eq result_simps split: sum.splits if_splits)
  then have "utf8_char (c # take n cs)" by (auto simp: utf8_char_def)
  with n s show thesis by (intro that [of "c # take n cs" "drop n cs"]) simp_all
qed

lemma utf8_ok_char_append [simp]: "utf8_char x \<Longrightarrow> utf8_ok (x @ s) = utf8_ok s"
  by (auto simp: utf8_ok_def utf8_length_char result_simps)

lemma utf8_ok_Nil [simp]: "utf8_ok []"
  by (simp add: utf8_ok_def)

lemma utf8_ok_append: "utf8_ok x \<Longrightarrow> utf8_ok (x @ s) = utf8_ok s"
proof (induction "length x" arbitrary: x rule: less_induct)
  case less
  show ?case
  proof (cases "x = []")
    case False
    with less.prems obtain y rest where y: "x = y @ rest" "utf8_char y" "utf8_ok rest"
      by (rule utf8_ok_cases)
    then have "length rest < length x" by (auto simp: utf8_char_def)
    with y less.hyps [of rest] show ?thesis by simp
  qed simp
qed

lemma utf8_length_chars:
  "\<forall>x \<in> set xs. utf8_char x \<Longrightarrow> utf8_length (concat xs) = Inr (length xs)"
  by (induction xs) (auto simp: utf8_length_char)

lemma utf8_ok_chars: "utf8_ok s \<Longrightarrow> \<exists>xs. s = concat xs \<and> (\<forall>x \<in> set xs. utf8_char x)"
proof (induction "length s" arbitrary: s rule: less_induct)
  case less
  show ?case
  proof (cases "s = []")
    case True
    then show ?thesis by (intro exI [of _ "[]"]) simp
  next
    case False
    with less.prems obtain y rest where y: "s = y @ rest" "utf8_char y" "utf8_ok rest"
      by (rule utf8_ok_cases)
    then have "length rest < length s" by (auto simp: utf8_char_def)
    with less.hyps [of rest] y obtain xs where "rest = concat xs" "\<forall>x \<in> set xs. utf8_char x"
      by auto
    with y show ?thesis by (intro exI [of _ "y # xs"]) simp
  qed
qed

section \<open>HfstTokenizer\<close>

record tokenizer =
  multi_char_symbols :: mc_trie
  skip_symbol_set :: "string set"

definition new_tokenizer :: tokenizer where
  "new_tokenizer = \<lparr>multi_char_symbols = new_trie, skip_symbol_set = {}\<rparr>"

definition c_str :: "string \<Rightarrow> string" where
  "c_str s = takeWhile (\<lambda>c. c \<noteq> CHR 0x00) s"

definition get_next_symbol_size :: "tokenizer \<Rightarrow> string \<Rightarrow> nat result" where
  "get_next_symbol_size tok symbol =
     (case symbol of
        [] \<Rightarrow> Inr 0
      | c # _ \<Rightarrow>
          rbind (trie_find (multi_char_symbols tok) symbol) (\<lambda>multi_char_symbol_end.
            case multi_char_symbol_end of
              Some n \<Rightarrow> Inr n
            | None \<Rightarrow>
                if \<not> digit7 c then Inr 1
                else if \<not> digit5 c then Inr 2
                else if \<not> digit4 c then Inr 3
                else Inr 4))"

definition is_skip_symbol :: "tokenizer \<Rightarrow> string \<Rightarrow> bool" where
  "is_skip_symbol tok s = (s = [] \<or> s \<in> skip_symbol_set tok)"

definition add_multichar_symbol :: "string \<Rightarrow> tokenizer \<Rightarrow> tokenizer result" where
  "add_multichar_symbol symbol tok =
     (if symbol = [] then Inr tok
      else rmap (\<lambda>t. tok\<lparr>multi_char_symbols := t\<rparr>)
             (trie_add (c_str symbol) (multi_char_symbols tok)))"

definition add_skip_symbol :: "string \<Rightarrow> tokenizer \<Rightarrow> tokenizer result" where
  "add_skip_symbol symbol tok =
     (if symbol = [] then Inr tok
      else rmap (\<lambda>t. tok\<lparr>multi_char_symbols := t,
                        skip_symbol_set := insert (c_str symbol) (skip_symbol_set tok)\<rparr>)
             (trie_add (c_str symbol) (multi_char_symbols tok)))"

lemma trie_find_pos: "trie_find t s = Inr (Some n) \<Longrightarrow> 0 < n"
  by (cases s) (auto simp: result_simps split: option.splits if_splits)

lemma get_next_symbol_size_pos:
  "get_next_symbol_size tok (c # cs) = Inr n \<Longrightarrow> 0 < n"
  by (auto simp: get_next_symbol_size_def result_simps simp del: trie_find.simps
      split: option.splits if_splits dest: trie_find_pos)

lemma get_next_symbol_size_decreases:
  "get_next_symbol_size tok (c # cs) = Inr n \<Longrightarrow> length (drop n (c # cs)) < length (c # cs)"
  by (drule get_next_symbol_size_pos) simp

text \<open>The loop of \<open>tokenize\<close> and \<open>tokenize_one_level\<close>. Advancing past the terminator makes
  the next test of \<open>*s\<close> undefined.\<close>

function token_loop :: "tokenizer \<Rightarrow> string \<Rightarrow> string list result" where
  "token_loop tok [] = Inr []"
| "token_loop tok (c # cs) =
     (case get_next_symbol_size tok (c # cs) of
        Inl e \<Rightarrow> Inl e
      | Inr symbol_size \<Rightarrow>
          (let symbol = take symbol_size (c # cs) in
           if length (c # cs) < symbol_size then Inl UndefinedBehaviour
           else if is_skip_symbol tok symbol then token_loop tok (drop symbol_size (c # cs))
           else rmap ((#) symbol) (token_loop tok (drop symbol_size (c # cs)))))"
  by pat_completeness auto
termination
  by (relation "measure (\<lambda>(tok, s). length s)")
     (simp_all only: in_measure case_prod_conv wf_measure get_next_symbol_size_decreases)

definition tokenize :: "tokenizer \<Rightarrow> string \<Rightarrow> string_pair list result" where
  "tokenize tok input_string =
     rbind (check_utf8_correctness input_string) (\<lambda>_.
       rmap (map (\<lambda>symbol. (symbol, symbol))) (token_loop tok (c_str input_string)))"

definition tokenize_one_level :: "tokenizer \<Rightarrow> string \<Rightarrow> string list result" where
  "tokenize_one_level tok input_string =
     rbind (check_utf8_correctness input_string) (\<lambda>_. token_loop tok (c_str input_string))"

text \<open>\<open>tokenize_space_separated\<close>: \<open>symbol_pos\<close> is the start of the current symbol, if any.\<close>

fun space_loop :: "string \<Rightarrow> nat list \<Rightarrow> nat option \<Rightarrow> string list \<Rightarrow> nat option \<times> string list" where
  "space_loop str [] symbol_pos retval = (symbol_pos, retval)"
| "space_loop str (pos # ps) symbol_pos retval =
     (case symbol_pos of
        Some p \<Rightarrow>
          if str ! pos = CHR '' '' then space_loop str ps None (retval @ [take (pos - p) (drop p str)])
          else space_loop str ps symbol_pos retval
      | None \<Rightarrow>
          if str ! pos \<noteq> CHR '' '' then space_loop str ps (Some pos) retval
          else space_loop str ps symbol_pos retval)"

definition tokenize_space_separated :: "string \<Rightarrow> string_pair list result" where
  "tokenize_space_separated str =
     rbind (check_utf8_correctness str) (\<lambda>_.
       let (symbol_pos, retval) = space_loop str [0..<length str] None [];
           retval' = (case symbol_pos of None \<Rightarrow> retval | Some p \<Rightarrow> retval @ [drop p str])
       in Inr (map (\<lambda>symbol. (symbol, symbol)) retval'))"

text \<open>The two loops that pad the shorter side with epsilons.\<close>

definition pad_pairs :: "string list \<Rightarrow> string list \<Rightarrow> string_pair list" where
  "pad_pairs input output =
     (if length input < length output
      then zip input output @ map (\<lambda>y. (internal_epsilon, y)) (drop (length input) output)
      else zip input output @ map (\<lambda>x. (x, internal_epsilon)) (drop (length output) input))"

definition tokenize_pair :: "tokenizer \<Rightarrow> string \<Rightarrow> string \<Rightarrow> string_pair list result" where
  "tokenize_pair tok input_string output_string =
     rbind (check_utf8_correctness input_string) (\<lambda>_.
     rbind (check_utf8_correctness output_string) (\<lambda>_.
     rbind (tokenize tok (c_str input_string)) (\<lambda>input_spv.
     rbind (tokenize tok (c_str output_string)) (\<lambda>output_spv.
       Inr (pad_pairs (map fst input_spv) (map fst output_spv))))))"

text \<open>The variant that reports every pair; the second component lists the reported pairs.\<close>

definition tokenize_pair_warn ::
  "tokenizer \<Rightarrow> string \<Rightarrow> string \<Rightarrow> (string_pair list \<times> string_pair list) result" where
  "tokenize_pair_warn tok input_string output_string =
     rbind (check_utf8_correctness input_string) (\<lambda>_.
     rbind (check_utf8_correctness output_string) (\<lambda>_.
     rbind (tokenize tok (c_str input_string)) (\<lambda>input_spv.
     rbind (tokenize tok (c_str output_string)) (\<lambda>output_spv.
       let spv = pad_pairs (map fst input_spv) (map fst output_spv)
       in Inr (fold (\<lambda>sp (spv, warned). (spv @ [sp], warned @ [sp])) spv ([], []))))))"

fun align_loop :: "string list \<Rightarrow> string list \<Rightarrow> string_pair list \<times> string_pair list" where
  "align_loop [] [] = ([], [])"
| "align_loop [] (y # ys) =
     (let sp = (if is_diacritic y then (y, y) else (internal_epsilon, y));
          (spv, warned) = align_loop [] ys
      in (sp # spv, warned))"
| "align_loop (x # xs) [] =
     (let sp = (if is_diacritic x then (x, x) else (x, internal_epsilon));
          (spv, warned) = align_loop xs []
      in (sp # spv, warned))"
| "align_loop (x # xs) (y # ys) =
     (let (spv, warned) = align_loop xs ys in
      if (\<not> is_diacritic x \<and> \<not> is_diacritic y) \<or> x = y then ((x, y) # spv, warned)
      else ((x, x) # (if length y \<noteq> 0 \<and> length y \<noteq> 0 then [(y, y)] else []) @ spv,
            (x, y) # warned))"

definition tokenize_and_align_flag_diacritics ::
  "tokenizer \<Rightarrow> string \<Rightarrow> string \<Rightarrow> (string_pair list \<times> string_pair list) result" where
  "tokenize_and_align_flag_diacritics tok input_string output_string =
     rbind (check_utf8_correctness input_string) (\<lambda>_.
     rbind (check_utf8_correctness output_string) (\<lambda>_.
     rbind (tokenize tok (c_str input_string)) (\<lambda>input_spv.
     rbind (tokenize tok (c_str output_string)) (\<lambda>output_spv.
       if \<not> (length input_spv > 0 \<and> length output_spv > 0) then Inl AssertionFailed
       else Inr (align_loop (map fst input_spv) (map fst output_spv))))))"

section \<open>Longest match\<close>

text \<open>What the tokenizer needs of its dictionary: \<open>find\<close> is defined on every readable text
  and returns the longest word the text begins with.\<close>

locale symbol_matcher =
  fixes find :: "'t \<Rightarrow> string \<Rightarrow> nat option result"
    and word :: "'t \<Rightarrow> string \<Rightarrow> bool"
    and ok :: "'t \<Rightarrow> bool"
    and readable :: "string \<Rightarrow> bool"
  assumes find_longest: "ok t \<Longrightarrow> readable s \<Longrightarrow> \<exists>r. find t s = Inr r \<and> longest (word t) s r"
    and readable_append: "readable (x @ y) \<Longrightarrow> readable y"
begin

definition next_symbol :: "'t \<Rightarrow> string \<Rightarrow> nat result" where
  "next_symbol t s =
     rbind (find t s) (\<lambda>r. case r of
         Some n \<Rightarrow> Inr n
       | None \<Rightarrow> Inr (if \<not> digit7 (hd s) then 1 else if \<not> digit5 (hd s) then 2
                     else if \<not> digit4 (hd s) then 3 else 4))"

lemma next_symbol_munch:
  assumes "ok t" and "readable s" and "\<And>w. word t w \<Longrightarrow> utf8_ok w" and "utf8_ok s" and "s \<noteq> []"
  obtains x rest where "s = x @ rest" "x \<noteq> []" "next_symbol t s = Inr (length x)"
    "utf8_ok rest" "readable rest"
    "if longest (word t) s None then utf8_char x else longest (word t) s (Some (length x))"
proof -
  from find_longest [OF assms(1,2)] obtain r where r: "find t s = Inr r" "longest (word t) s r"
    by blast
  show thesis
  proof (cases r)
    case None
    from assms(4,5) obtain x rest where x: "s = x @ rest" "utf8_char x" "utf8_ok rest"
      by (rule utf8_ok_cases)
    then have "next_symbol t s = Inr (length x)"
      using r None by (auto simp: next_symbol_def utf8_char_def additional_chars_def split: if_splits)
    moreover have "x \<noteq> []" using x(2) by (auto simp: utf8_char_def)
    ultimately show thesis
      using x r None readable_append [of x rest] assms(2) by (intro that [of x rest]) auto
  next
    case (Some n)
    with r have n: "0 < n" "n \<le> length s" "word t (take n s)" by (auto simp: longest_def)
    with assms(3) have "utf8_ok (take n s)" by blast
    with assms(4) utf8_ok_append [of "take n s" "drop n s"] have "utf8_ok (drop n s)" by simp
    moreover have "\<not> longest (word t) s None" using n by (auto simp: longest_def)
    moreover have "readable (drop n s)"
      using assms(2) readable_append [of "take n s" "drop n s"] by simp
    ultimately show thesis
      using n r Some by (intro that [of "take n s" "drop n s"]) (auto simp: next_symbol_def min_def)
  qed
qed

end

definition no_byte_255 :: "string \<Rightarrow> bool" where
  "no_byte_255 s \<longleftrightarrow> CHR 0xFF \<notin> set s"

interpretation trie: symbol_matcher trie_find isin trie_ok no_byte_255
  by unfold_locales (auto simp: no_byte_255_def trie_find_longest)

lemma get_next_symbol_size_next:
  "s \<noteq> [] \<Longrightarrow> get_next_symbol_size tok s = trie.next_symbol (multi_char_symbols tok) s"
  by (cases s; cases "trie_find (multi_char_symbols tok) s")
     (auto simp: get_next_symbol_size_def trie.next_symbol_def simp del: trie_find.simps
       split: option.splits)

text \<open>A maximal-munch division: each piece is the longest word its rest begins with, or one
  UTF-8 character where no word matches.\<close>

fun munch :: "(string \<Rightarrow> bool) \<Rightarrow> string list \<Rightarrow> bool" where
  "munch W [] = True"
| "munch W (x # xs) =
     (x \<noteq> [] \<and>
      (if longest W (concat (x # xs)) None then utf8_char x
       else longest W (concat (x # xs)) (Some (length x))) \<and>
      munch W xs)"

definition tokenizer_ok :: "tokenizer \<Rightarrow> bool" where
  "tokenizer_ok tok \<longleftrightarrow>
     trie_ok (multi_char_symbols tok) \<and> (\<forall>w. isin (multi_char_symbols tok) w \<longrightarrow> utf8_ok w) \<and>
     (\<forall>w \<in> skip_symbol_set tok. isin (multi_char_symbols tok) w)"

lemma tokenizer_ok_new [simp]: "tokenizer_ok new_tokenizer"
  by (simp add: tokenizer_ok_def new_tokenizer_def)

lemma token_loop_munch:
  assumes "tokenizer_ok tok"
  shows "utf8_ok s \<Longrightarrow> no_byte_255 s \<Longrightarrow>
    \<exists>ts. concat ts = s \<and> munch (isin (multi_char_symbols tok)) ts \<and>
         token_loop tok s = Inr (filter (\<lambda>x. x \<notin> skip_symbol_set tok) ts)"
proof (induction "length s" arbitrary: s rule: less_induct)
  case less
  show ?case
  proof (cases s)
    case Nil
    then show ?thesis by (intro exI [of _ "[]"]) simp
  next
    case (Cons c cs)
    from assms have ok: "trie_ok (multi_char_symbols tok)"
      "\<And>w. isin (multi_char_symbols tok) w \<Longrightarrow> utf8_ok w" by (auto simp: tokenizer_ok_def)
    from Cons have ne: "s \<noteq> []" by simp
    obtain x rest where x: "s = x @ rest" "x \<noteq> []"
      "trie.next_symbol (multi_char_symbols tok) s = Inr (length x)" "utf8_ok rest" "no_byte_255 rest"
      "if longest (isin (multi_char_symbols tok)) s None then utf8_char x
       else longest (isin (multi_char_symbols tok)) s (Some (length x))"
      by (rule trie.next_symbol_munch [OF ok(1) less.prems(2) ok(2) less.prems(1) ne])
    then have "length rest < length s" by simp
    with less.hyps x(4,5) obtain ts where ts: "concat ts = rest"
      "munch (isin (multi_char_symbols tok)) ts"
      "token_loop tok rest = Inr (filter (\<lambda>x. x \<notin> skip_symbol_set tok) ts)" by blast
    have "get_next_symbol_size tok (c # cs) = Inr (length x)"
      using get_next_symbol_size_next [of s tok] x(3) Cons by simp
    moreover have "take (length x) (c # cs) = x" "drop (length x) (c # cs) = rest"
      "\<not> length (c # cs) < length x" using x(1) Cons by auto
    ultimately have "token_loop tok s = Inr (filter (\<lambda>x. x \<notin> skip_symbol_set tok) (x # ts))"
      using ts(3) x(2) Cons by (simp add: is_skip_symbol_def)
    with ts x show ?thesis by (intro exI [of _ "x # ts"]) (auto split: if_splits)
  qed
qed

lemma c_str_id: "CHR 0x00 \<notin> set s \<Longrightarrow> c_str s = s"
  by (auto simp: c_str_def takeWhile_eq_all_conv)

lemma check_utf8_ok: "utf8_ok s \<Longrightarrow> check_utf8_correctness s = Inr ()"
  by (auto simp: check_utf8_correctness_def check_utf8_correctness_and_calculate_length_def
      utf8_ok_def)

section \<open>Splitting at spaces and aligning flags\<close>

fun words_of :: "string \<Rightarrow> string \<Rightarrow> string list" where
  "words_of cur [] = (if cur = [] then [] else [cur])"
| "words_of cur (c # cs) =
     (if c = CHR '' '' then (if cur = [] then words_of [] cs else cur # words_of [] cs)
      else words_of (cur @ [c]) cs)"

lemma space_loop_words:
  assumes "str = pre @ cur @ s" and "sp = (if cur = [] then None else Some (length pre))"
  shows "(case space_loop str [length (pre @ cur)..<length str] sp acc of
            (symbol_pos, retval) \<Rightarrow>
              (case symbol_pos of None \<Rightarrow> retval | Some p \<Rightarrow> retval @ [drop p str])) =
         acc @ words_of cur s"
  using assms
proof (induction s arbitrary: pre cur sp acc)
  case Nil
  then show ?case by simp
next
  case (Cons c cs)
  have range: "[length (pre @ cur)..<length str] =
      length (pre @ cur) # [length (pre @ cur @ [c])..<length str]"
    using Cons.prems(1) upt_conv_Cons [of "length (pre @ cur)" "length str"] by simp
  have c: "str ! (length pre + length cur) = c"
    using Cons.prems(1) by (simp add: nth_append)
  show ?case
  proof (cases "c = CHR '' ''")
    case True
    have "str = (pre @ cur @ [c]) @ [] @ cs" using Cons.prems(1) by simp
    note IH = Cons.IH [OF this refl]
    show ?thesis
      unfolding range using IH [of acc] IH [of "acc @ [cur]"] c True Cons.prems
      by (cases "cur = []") (simp_all del: upt_Suc)
  next
    case False
    have "str = pre @ (cur @ [c]) @ cs" using Cons.prems(1) by simp
    note IH = Cons.IH [OF this refl]
    show ?thesis unfolding range using IH [of acc] c False Cons.prems
      by (cases "cur = []") (simp_all del: upt_Suc)
  qed
qed

lemma fst_align_loop:
  "fst (align_loop [] []) = []"
  "fst (align_loop [] (y # ys)) = (if is_diacritic y then y else internal_epsilon, y) # fst (align_loop [] ys)"
  "fst (align_loop (x # xs) []) = (x, if is_diacritic x then x else internal_epsilon) # fst (align_loop xs [])"
  "fst (align_loop (x # xs) (y # ys)) =
     (if (\<not> is_diacritic x \<and> \<not> is_diacritic y) \<or> x = y then (x, y) # fst (align_loop xs ys)
      else (x, x) # (if y \<noteq> [] then [(y, y)] else []) @ fst (align_loop xs ys))"
  by (simp_all add: case_prod_beta Let_def)

lemma align_loop_flags:
  "(a, b) \<in> set (fst (align_loop xs ys)) \<Longrightarrow> is_diacritic a \<or> is_diacritic b \<Longrightarrow> a = b"
proof (induction xs ys rule: align_loop.induct)
  case (2 y ys)
  then show ?case
    by (cases "is_diacritic y") (auto simp: fst_align_loop simp del: align_loop.simps)
next
  case (3 x xs)
  then show ?case
    by (cases "is_diacritic x") (auto simp: fst_align_loop simp del: align_loop.simps)
next
  case (4 x xs y ys)
  then have IH: "(a, b) \<in> set (fst (align_loop xs ys)) \<Longrightarrow> a = b" by blast
  show ?case
  proof (cases "(\<not> is_diacritic x \<and> \<not> is_diacritic y) \<or> x = y")
    case True
    with "4.prems"(1) have "(a, b) = (x, y) \<or> (a, b) \<in> set (fst (align_loop xs ys))"
      by (simp only: fst_align_loop if_True set_simps insert_iff)
    with IH True "4.prems"(2) show ?thesis by auto
  next
    case False
    with "4.prems"(1) have "a = b \<or> (a, b) \<in> set (fst (align_loop xs ys))"
      by (simp only: fst_align_loop) (auto split: if_splits)
    with IH show ?thesis by blast
  qed
qed simp

lemma align_loop_subseq:
  "\<forall>y \<in> set ys. y \<noteq> [] \<Longrightarrow> subseq xs (map fst (fst (align_loop xs ys))) \<and>
     subseq ys (map snd (fst (align_loop xs ys)))"
proof (induction xs ys rule: align_loop.induct)
  case (4 x xs y ys)
  then have IH: "subseq xs (map fst (fst (align_loop xs ys)))"
    "subseq ys (map snd (fst (align_loop xs ys)))" and y: "y \<noteq> []" by simp_all
  show ?case
  proof (cases "(\<not> is_diacritic x \<and> \<not> is_diacritic y) \<or> x = y")
    case True
    with IH show ?thesis by (simp only: fst_align_loop if_True list.map fst_conv snd_conv subseq_Cons2)
  next
    case False
    with IH y show ?thesis
      by (simp only: fst_align_loop if_False if_True list.map fst_conv snd_conv append_Cons
          append_Nil subseq_Cons2 not_False_eq_True) (blast intro: list_emb_Cons subseq_Cons2)
  qed
qed (simp_all add: fst_align_loop del: align_loop.simps)

section \<open>Properties\<close>

text \<open>The UTF-8 check accepts a string exactly when it is a sequence of characters, each an
  initial byte allowed by the code followed by the announced number of bytes above 127, and
  returns their number. (It does not insist that these bytes look like 10xxxxxx.)\<close>

theorem utf8_check_correct:
  "check_utf8_correctness_and_calculate_length s = Inr n \<longleftrightarrow>
     (\<exists>xs. s = concat xs \<and> length xs = n \<and> list_all utf8_char xs)"
proof
  assume "check_utf8_correctness_and_calculate_length s = Inr n"
  then have n: "utf8_length s = Inr n"
    by (simp add: check_utf8_correctness_and_calculate_length_def)
  then have "utf8_ok s" by (auto simp: utf8_ok_def)
  with utf8_ok_chars obtain xs where xs: "s = concat xs" "\<forall>x \<in> set xs. utf8_char x" by blast
  with n utf8_length_chars [of xs] have "length xs = n" by simp
  with xs show "\<exists>xs. s = concat xs \<and> length xs = n \<and> list_all utf8_char xs"
    by (auto simp: list_all_iff)
next
  assume "\<exists>xs. s = concat xs \<and> length xs = n \<and> list_all utf8_char xs"
  then show "check_utf8_correctness_and_calculate_length s = Inr n"
    by (auto simp: list_all_iff utf8_length_chars check_utf8_correctness_and_calculate_length_def)
qed

text \<open>C40. Adding a multicharacter symbol or a skip symbol that is correct UTF-8 (without bytes 0
  and 255) succeeds, keeps the tokenizer well-formed and adds exactly that word to the trie.\<close>

theorem tokenizer_add_correct:
  assumes "tokenizer_ok tok" and "w \<noteq> []" and "utf8_ok w" and "CHR 0x00 \<notin> set w"
    and "CHR 0xFF \<notin> set w"
  shows "\<exists>t1 t2. add_multichar_symbol w tok = Inr t1 \<and> add_skip_symbol w tok = Inr t2 \<and>
     tokenizer_ok t1 \<and> tokenizer_ok t2 \<and> multi_char_symbols t1 = multi_char_symbols t2 \<and>
     (\<forall>v. isin (multi_char_symbols t1) v = (v = w \<or> isin (multi_char_symbols tok) v)) \<and>
     skip_symbol_set t1 = skip_symbol_set tok \<and>
     skip_symbol_set t2 = insert w (skip_symbol_set tok)"
proof -
  from trie_add_total [OF assms(2,5)] obtain t where
    t: "trie_add w (multi_char_symbols tok) = Inr t" by blast
  from trie_add_isin [OF t] have words: "isin t v = (v = w \<or> isin (multi_char_symbols tok) v)" for v
    by blast
  have "trie_ok t" using trie_add_ok [OF t] assms by (auto simp: tokenizer_ok_def)
  with words assms t show ?thesis
    by (auto simp: add_multichar_symbol_def add_skip_symbol_def c_str_id tokenizer_ok_def)
qed

lemma tokenizer_add_correct_witness:
  "\<exists>t. add_multichar_symbol ''foo'' new_tokenizer = Inr t \<and> isin (multi_char_symbols t) ''foo''"
  using tokenizer_add_correct [of new_tokenizer "''foo''"]
  by (auto simp: utf8_ok_def additional_chars_def simp del: isin.simps)

text \<open>C2. On a well-formed tokenizer and correct UTF-8 input, tokenization returns (no read past
  the end, no exception), the pieces put together give the input back, each piece is the
  longest multicharacter symbol that its rest begins with or else one UTF-8 character, and
  the result leaves out exactly the skip symbols.\<close>

theorem tokenize_maximal_munch:
  assumes "tokenizer_ok tok" and "utf8_ok s" and "CHR 0x00 \<notin> set s" and "CHR 0xFF \<notin> set s"
  shows "\<exists>ts. concat ts = s \<and> munch (isin (multi_char_symbols tok)) ts \<and>
     tokenize_one_level tok s = Inr (filter (\<lambda>x. x \<notin> skip_symbol_set tok) ts) \<and>
     tokenize tok s = Inr (map (\<lambda>x. (x, x)) (filter (\<lambda>x. x \<notin> skip_symbol_set tok) ts))"
  using token_loop_munch [OF assms(1,2)] assms
  by (auto simp: no_byte_255_def tokenize_one_level_def tokenize_def check_utf8_ok c_str_id)

lemma tokenize_maximal_munch_witness:
  "\<exists>ts. concat ts = ''foobar'' \<and>
     tokenize_one_level new_tokenizer ''foobar'' = Inr (filter (\<lambda>x. x \<notin> {}) ts)"
  using tokenize_maximal_munch [of new_tokenizer "''foobar''"]
  by (auto simp: utf8_ok_def additional_chars_def new_tokenizer_def tokenizer_ok_def)

text \<open>\<open>tokenize_space_separated\<close> of correct UTF-8 returns the maximal runs of characters
  other than space, in order.\<close>

theorem tokenize_space_separated_correct:
  assumes "utf8_ok s"
  shows "tokenize_space_separated s = Inr (map (\<lambda>w. (w, w)) (words_of [] s))"
  using space_loop_words [of s "[]" "[]" s None "[]"] assms
  by (simp add: tokenize_space_separated_def check_utf8_ok split: prod.splits)

lemma tokenize_space_separated_correct_witness:
  "tokenize_space_separated '' a  bc '' = Inr [(''a'', ''a''), (''bc'', ''bc'')]"
  using tokenize_space_separated_correct [of "'' a  bc ''"]
  by (simp add: utf8_ok_def additional_chars_def)

text \<open>Aligning two token sequences keeps every token of both sides in order and puts a flag
  diacritic only into an identity pair.\<close>

theorem align_flag_diacritics_correct:
  assumes "tokenize tok (c_str s) = Inr is" and "tokenize tok (c_str t) = Inr os"
    and "tokenize_and_align_flag_diacritics tok s t = Inr (spv, warned)"
    and "\<forall>p \<in> set os. fst p \<noteq> []"
  shows "subseq (map fst is) (map fst spv) \<and> subseq (map fst os) (map snd spv) \<and>
     (\<forall>(a, b) \<in> set spv. is_diacritic a \<or> is_diacritic b \<longrightarrow> a = b)"
proof -
  have "align_loop (map fst is) (map fst os) = (spv, warned)"
    using assms(1-3)
    by (auto simp: tokenize_and_align_flag_diacritics_def result_simps split: if_splits)
  with align_loop_subseq [of "map fst os" "map fst is"] assms(4)
    align_loop_flags [of _ _ "map fst is" "map fst os"]
  show ?thesis by auto
qed

lemma align_flag_diacritics_correct_witness:
  "subseq [''a''] [''a'', internal_epsilon]"
  using align_flag_diacritics_correct [of new_tokenizer "''a''" "[(''a'', ''a'')]" "''bc''"
      "[(''b'', ''b''), (''c'', ''c'')]" "[(''a'', ''b''), (internal_epsilon, ''c'')]" "[]"]
  by (simp add: tokenize_def tokenize_and_align_flag_diacritics_def check_utf8_correctness_def
      check_utf8_correctness_and_calculate_length_def additional_chars_def c_str_def
      get_next_symbol_size_def new_tokenizer_def new_trie_def in_vector_def is_skip_symbol_def
      is_diacritic_def)

end
