(* ===== verification/PairStrings.thy ===== *)
theory PairStrings
  imports Tokenizer
begin

text \<open>
  \<open>HfstStrings2FstTokenizer\<close> (\<open>libhfst/src/HfstStrings2FstTokenizer.cc\<close>): reading pair
  strings such as \<open>a:b c\<close> and string pairs such as \<open>ab:cd\<close>, with backslash and named escapes.
  The loops of \<open>unescape\<close> search from the start after every replacement and are modelled by
  the partial function \<open>replace_rescan\<close>; that they return is a theorem.
\<close>

section \<open>Unescaping\<close>

definition COL :: string where "COL = '':''"
definition BACKSLASH :: string where "BACKSLASH = [CHR 0x5C]"
definition SPACE :: string where "SPACE = '' ''"
definition BACKSLASH_ESC :: string where "BACKSLASH_ESC = ''@_BACKSLASH_@''"
definition COL_ESCAPE :: string where "COL_ESCAPE = ''@_COLON_@''"
definition TAB_ESCAPE :: string where "TAB_ESCAPE = ''@_TAB_@''"
definition SPACE_ESCAPE :: string where "SPACE_ESCAPE = ''@_SPACE_@''"

lemmas escape_defs = COL_def BACKSLASH_def SPACE_def BACKSLASH_ESC_def COL_ESCAPE_def
  TAB_ESCAPE_def SPACE_ESCAPE_def

lemma str_find_bounds: "str_find s needle p = Some q \<Longrightarrow> p \<le> q \<and> q \<le> length s"
  by (auto simp: str_find_def split: if_splits dest: find_at_Some)

lemma str_find_char_less: "str_find s [c] p = Some q \<Longrightarrow> q < length s \<and> s ! q = c"
  by (auto simp: str_find_def split: if_splits dest: find_at_char_Some)

function check_cols_loop :: "string \<Rightarrow> nat \<Rightarrow> unit result" where
  "check_cols_loop symbol pos =
     (case str_find symbol COL (pos + 1) of
        None \<Rightarrow> Inr ()
      | Some p \<Rightarrow>
          if symbol ! (p - 1) \<noteq> CHR 0x5C then Inl UnescapedColsFound
          else if p > 1 \<and> symbol ! (p - 2) = CHR 0x5C then Inl UnescapedColsFound
          else check_cols_loop symbol p)"
  by pat_completeness auto
termination
  by (relation "measure (\<lambda>(s, p). length s - p)")
     (auto simp: COL_def dest: str_find_bounds str_find_char_less)

declare check_cols_loop.simps [simp del]

definition check_cols :: "string \<Rightarrow> unit result" where
  "check_cols symbol =
     (if symbol \<noteq> [] then
        (if symbol ! 0 = CHR '':'' then Inl UnescapedColsFound else check_cols_loop symbol 0)
      else Inr ())"

partial_function (option) replace_rescan ::
  "string \<Rightarrow> string \<Rightarrow> string \<Rightarrow> string option" where
  "replace_rescan symbol needle r =
     (case str_find symbol needle 0 of
        None \<Rightarrow> Some symbol
      | Some pos \<Rightarrow> replace_rescan (str_replace symbol pos (length needle) r) needle r)"

definition unescape :: "string \<Rightarrow> string result" where
  "unescape symbol =
     rbind (check_cols symbol) (\<lambda>_.
     if symbol = BACKSLASH @ BACKSLASH then Inr BACKSLASH
     else
       rbind (of_option (replace_rescan symbol (BACKSLASH @ BACKSLASH) BACKSLASH_ESC)) (\<lambda>s1.
       rbind (of_option (replace_rescan s1 BACKSLASH [])) (\<lambda>s2.
       rbind (of_option (replace_rescan s2 BACKSLASH_ESC [])) (\<lambda>s3.
       rbind (of_option (replace_rescan s3 SPACE_ESCAPE '' '')) (\<lambda>s4.
       rbind (of_option (replace_rescan s4 TAB_ESCAPE ''   '')) (\<lambda>s5.
       of_option (replace_rescan s5 COL_ESCAPE '':'')))))))"

text \<open>Where an occurrence is found the string is cut into three.\<close>

lemma str_find_split:
  assumes "str_find s needle 0 = Some pos"
  shows "\<exists>a b. s = a @ needle @ b \<and> str_replace s pos (length needle) r = a @ r @ b"
proof -
  from assms have "find_at needle s 0 = Some pos" by (simp add: str_find_def)
  from find_at_Some [OF this] obtain b where b: "drop pos s = needle @ b"
    by (auto simp: prefix_def)
  then have s: "s = take pos s @ needle @ b" by (metis append_take_drop_id)
  have "drop (pos + length needle) s = b" using b by (metis append_eq_conv_conj drop_drop add.commute)
  with s show ?thesis by (metis str_replace_def)
qed

lemma replace_rescan_total:
  fixes mu :: "string \<Rightarrow> nat"
  assumes "\<And>a b. mu (a @ r @ b) < mu (a @ needle @ b)"
  shows "\<exists>t. replace_rescan s needle r = Some t \<and> str_find t needle 0 = None \<and>
           set t \<subseteq> set s \<union> set r"
proof (induction "mu s" arbitrary: s rule: less_induct)
  case less
  show ?case
  proof (cases "str_find s needle 0")
    case None
    then show ?thesis by (subst replace_rescan.simps) simp
  next
    case (Some pos)
    from str_find_split [OF this, of r] obtain a b where
      ab: "s = a @ needle @ b" "str_replace s pos (length needle) r = a @ r @ b" by blast
    from assms [of a b] less [of "a @ r @ b"] ab obtain t where
      "replace_rescan (a @ r @ b) needle r = Some t" "str_find t needle 0 = None"
      "set t \<subseteq> set (a @ r @ b) \<union> set r" by blast
    with Some ab show ?thesis by (subst replace_rescan.simps) auto
  qed
qed

lemma replace_shorter_total:
  "length r < length needle \<Longrightarrow>
     \<exists>t. replace_rescan s needle r = Some t \<and> str_find t needle 0 = None \<and> set t \<subseteq> set s \<union> set r"
  by (rule replace_rescan_total [of length]) simp

lemma replace_backslashes_total:
  "\<exists>t. replace_rescan s (BACKSLASH @ BACKSLASH) BACKSLASH_ESC = Some t"
  using replace_rescan_total [of "\<lambda>s. length (filter ((=) (CHR 0x5C)) s)" BACKSLASH_ESC
      "BACKSLASH @ BACKSLASH" s]
  by (auto simp: escape_defs)

text \<open>After the check, \<open>unescape\<close> always returns.\<close>

lemma unescape_loops:
  assumes "s \<noteq> BACKSLASH @ BACKSLASH" and "check_cols s = Inr ()"
  shows "\<exists>t. unescape s = Inr t \<and> CHR 0x5C \<notin> set t"
proof -
  obtain s1 where s1: "replace_rescan s (BACKSLASH @ BACKSLASH) BACKSLASH_ESC = Some s1"
    using replace_backslashes_total by blast
  obtain s2 where s2: "replace_rescan s1 BACKSLASH [] = Some s2" "str_find s2 BACKSLASH 0 = None"
    using replace_shorter_total [of "[]" BACKSLASH s1] by (auto simp: BACKSLASH_def)
  then have none: "CHR 0x5C \<notin> set s2" by (simp add: str_find_def BACKSLASH_def string_simps)
  obtain s3 where s3: "replace_rescan s2 BACKSLASH_ESC [] = Some s3" "set s3 \<subseteq> set s2"
    using replace_shorter_total [of "[]" BACKSLASH_ESC s2] by (auto simp: BACKSLASH_ESC_def)
  obtain s4 where s4: "replace_rescan s3 SPACE_ESCAPE '' '' = Some s4" "set s4 \<subseteq> set s3 \<union> set '' ''"
    using replace_shorter_total [of "'' ''" SPACE_ESCAPE s3] by (auto simp: SPACE_ESCAPE_def)
  obtain s5 where s5: "replace_rescan s4 TAB_ESCAPE ''   '' = Some s5" "set s5 \<subseteq> set s4 \<union> set ''   ''"
    using replace_shorter_total [of "''   ''" TAB_ESCAPE s4] by (auto simp: TAB_ESCAPE_def)
  obtain t where t: "replace_rescan s5 COL_ESCAPE '':'' = Some t" "set t \<subseteq> set s5 \<union> set '':''"
    using replace_shorter_total [of "'':''" COL_ESCAPE s5] by (auto simp: COL_ESCAPE_def)
  have "unescape s = Inr t"
    using assms s1 s2 s3 s4 s5 t by (simp add: unescape_def)
  moreover have "CHR 0x5C \<notin> set t"
    using none s3(2) s4(2) s5(2) t(2) by auto
  ultimately show ?thesis by blast
qed

section \<open>The tokenizer object\<close>

record s2f_tokenizer =
  s2f_tok :: tokenizer
  s2f_eps :: string

definition s2f_add_multichar_symbol :: "string \<Rightarrow> s2f_tokenizer \<Rightarrow> s2f_tokenizer result" where
  "s2f_add_multichar_symbol w t = rmap (\<lambda>k. t\<lparr>s2f_tok := k\<rparr>) (add_multichar_symbol w (s2f_tok t))"

definition add_multichar_symbol_head :: "string \<Rightarrow> s2f_tokenizer \<Rightarrow> s2f_tokenizer result" where
  "add_multichar_symbol_head w t =
     (if w = [] then Inl EmptyMulticharSymbol
      else rbind (tokenize_one_level (s2f_tok t) w) (\<lambda>ts.
        case ts of
          [] \<Rightarrow> Inl UndefinedBehaviour
        | head # _ \<Rightarrow> s2f_add_multichar_symbol (BACKSLASH @ head) t))"

definition new_s2f_tokenizer :: "string list \<Rightarrow> string \<Rightarrow> s2f_tokenizer result" where
  "new_s2f_tokenizer multichar_symbols eps =
     (let t0 = \<lparr>s2f_tok = new_tokenizer, s2f_eps = eps\<rparr> in
      rbind (if eps \<noteq> [] then s2f_add_multichar_symbol eps t0 else Inr t0) (\<lambda>t1.
      rbind (rfold s2f_add_multichar_symbol
               [BACKSLASH @ COL, BACKSLASH @ SPACE, BACKSLASH @ BACKSLASH,
                COL_ESCAPE, TAB_ESCAPE, SPACE_ESCAPE] t1) (\<lambda>t2.
      rbind (if length eps > 0
             then rbind (s2f_add_multichar_symbol eps t2) (add_multichar_symbol_head eps)
             else Inr t2) (\<lambda>t3.
      rbind (add_multichar_symbol_head SPACE_ESCAPE t3) (\<lambda>t4.
      rfold (\<lambda>w t. rbind (add_multichar_symbol_head w t) (s2f_add_multichar_symbol w))
        multichar_symbols t4)))))"

definition is_pair_input_symbol :: "string list \<Rightarrow> bool" where
  "is_pair_input_symbol it =
     (case it of
        x # c # y # _ \<Rightarrow> c = COL
      | _ \<Rightarrow> False)"

definition or_epsilon :: "string \<Rightarrow> string \<Rightarrow> string" where
  "or_epsilon eps s = (if s = [] \<or> s = eps then internal_epsilon else s)"

definition epsilon_or_unescaped :: "string \<Rightarrow> string \<Rightarrow> string result" where
  "epsilon_or_unescaped eps s =
     (if s = [] \<or> s = eps then Inr internal_epsilon else unescape s)"

function make_pair_vector :: "string \<Rightarrow> string list \<Rightarrow> string_pair list result" where
  "make_pair_vector eps [] = Inr []"
| "make_pair_vector eps (x # xs) =
     (if \<not> is_pair_input_symbol (x # xs)
      then rbind (unescape x) (\<lambda>symbol.
             rmap ((#) (or_epsilon eps symbol, or_epsilon eps symbol)) (make_pair_vector eps xs))
      else rbind (epsilon_or_unescaped eps x) (\<lambda>input.
           rbind (epsilon_or_unescaped eps (hd (tl xs))) (\<lambda>output.
             rmap ((#) (input, output)) (make_pair_vector eps (tl (tl xs))))))"
  by pat_completeness auto
termination
  by (relation "measure (\<lambda>(e, v). length v)") auto

fun make_pair_vectors :: "string \<Rightarrow> string list \<Rightarrow> string list \<Rightarrow> string_pair list result" where
  "make_pair_vectors eps (x # xs) (y # ys) =
     rbind (unescape x) (\<lambda>input_symbol.
     rbind (unescape y) (\<lambda>output_symbol.
       rmap ((#) (or_epsilon eps input_symbol, or_epsilon eps output_symbol))
         (make_pair_vectors eps xs ys)))"
| "make_pair_vectors eps [] (y # ys) =
     rbind (epsilon_or_unescaped eps y) (\<lambda>output.
       rmap ((#) (internal_epsilon, output)) (make_pair_vectors eps [] ys))"
| "make_pair_vectors eps (x # xs) [] =
     rbind (epsilon_or_unescaped eps x) (\<lambda>input.
       rmap ((#) (input, internal_epsilon)) (make_pair_vectors eps xs []))"
| "make_pair_vectors eps [] [] = Inr []"

text \<open>\<open>get_col_pos\<close>: -1 when there is no unquoted colon.\<close>

fun col_pos_loop :: "string \<Rightarrow> nat list \<Rightarrow> int" where
  "col_pos_loop str [] = - 1"
| "col_pos_loop str (i # is) =
     (if str ! i = CHR '':'' \<and> str ! (i - 1) \<noteq> CHR 0x5C then int i else col_pos_loop str is)"

definition get_col_pos :: "string \<Rightarrow> int" where
  "get_col_pos str =
     (if str = [] then - 1
      else if str ! 0 = CHR '':'' then 0
      else col_pos_loop str [1..<length str])"

function split_loop :: "string list \<Rightarrow> string \<Rightarrow> string list \<Rightarrow> string list" where
  "split_loop [] symbol res = (if symbol \<noteq> [] then res @ [symbol] else res)"
| "split_loop (x # xs) symbol res =
     (if x = SPACE \<and> symbol \<noteq> []
      then split_loop (dropWhile (\<lambda>y. y = SPACE) xs) [] (res @ [symbol])
      else if x = SPACE then split_loop (dropWhile (\<lambda>y. y = SPACE) xs) symbol res
      else if x = COL \<and> symbol \<noteq> [] then split_loop xs [] (res @ [symbol, COL])
      else if x = COL then split_loop xs symbol (res @ [COL])
      else split_loop xs (symbol @ x) res)"
  by pat_completeness auto
termination
  by (relation "measure (\<lambda>(v, s, r). length v)") (auto simp: less_Suc_eq_le length_dropWhile_le)

definition split_at_spaces :: "s2f_tokenizer \<Rightarrow> string \<Rightarrow> string list result" where
  "split_at_spaces t str = rmap (\<lambda>sv. split_loop sv [] []) (tokenize_one_level (s2f_tok t) str)"

definition tokenize_pair_string ::
  "s2f_tokenizer \<Rightarrow> string \<Rightarrow> bool \<Rightarrow> string_pair list result" where
  "tokenize_pair_string t str spaces =
     rbind (if spaces then split_at_spaces t str
            else rmap (filter (\<lambda>x. x \<noteq> BACKSLASH)) (tokenize_one_level (s2f_tok t) str))
       (make_pair_vector (s2f_eps t))"

definition tokenize_string_pair ::
  "s2f_tokenizer \<Rightarrow> string \<Rightarrow> bool \<Rightarrow> string_pair list result" where
  "tokenize_string_pair t str spaces =
     rbind (if spaces then split_at_spaces t str else tokenize_one_level (s2f_tok t) str)
       (\<lambda>tokenized_str.
         if COL \<notin> set tokenized_str
         then make_pair_vectors (s2f_eps t) tokenized_str tokenized_str
         else make_pair_vectors (s2f_eps t) (takeWhile (\<lambda>x. x \<noteq> COL) tokenized_str)
                (tl (dropWhile (\<lambda>x. x \<noteq> COL) tokenized_str)))"

section \<open>Properties\<close>

lemma make_pair_vectors_length:
  "make_pair_vectors eps xs ys = Inr spv \<Longrightarrow> length spv = max (length xs) (length ys)"
  by (induction eps xs ys arbitrary: spv rule: make_pair_vectors.induct)
     (fastforce simp: result_simps)+

lemma or_epsilon_nonempty [simp]: "or_epsilon eps s \<noteq> []"
  by (simp add: or_epsilon_def)

lemma make_pair_vectors_nonempty:
  "make_pair_vectors eps xs ys = Inr spv \<Longrightarrow> i < length xs \<Longrightarrow> i < length ys \<Longrightarrow>
     fst (spv ! i) \<noteq> [] \<and> snd (spv ! i) \<noteq> []"
proof (induction eps xs ys arbitrary: spv i rule: make_pair_vectors.induct)
  case (1 eps x xs y ys)
  then show ?case by (cases i) (auto simp: result_simps)
qed auto

text \<open>The words of a list of tokens: what stands between spaces and colons.\<close>

lemma split_loop_nonempty:
  "[] \<notin> set res \<Longrightarrow> [] \<notin> set (split_loop sv symbol res)"
  by (induction sv symbol res rule: split_loop.induct) (auto simp: COL_def)

lemma split_loop_concat:
  "concat (split_loop sv symbol res) = concat res @ symbol @ concat (filter (\<lambda>x. x \<noteq> SPACE) sv)"
proof (induction sv symbol res rule: split_loop.induct)
  case (2 x xs symbol res)
  have "filter (\<lambda>x. x \<noteq> SPACE) (dropWhile (\<lambda>y. y = SPACE) xs) = filter (\<lambda>x. x \<noteq> SPACE) xs"
    by (induction xs) auto
  with 2 show ?case by (auto simp: COL_def)
qed simp

text \<open>\<open>unescape\<close> always returns (its rescanning loops end); it fails only for an unescaped
  colon, and otherwise the result has no backslash left unless the symbol was the quoted
  backslash itself.\<close>

theorem unescape_total:
  "if check_cols s \<noteq> Inr () then \<exists>e. unescape s = Inl e \<and> e = UnescapedColsFound
   else if s = BACKSLASH @ BACKSLASH then unescape s = Inr BACKSLASH
   else \<exists>t. unescape s = Inr t \<and> CHR 0x5C \<notin> set t"
proof (cases "check_cols s")
  case (Inl e)
  have "check_cols_loop s p = Inl e \<Longrightarrow> e = UnescapedColsFound" for p
    by (induction s p rule: check_cols_loop.induct)
       (subst (asm) (2) check_cols_loop.simps, auto split: option.splits if_splits)
  with Inl have "e = UnescapedColsFound" by (auto simp: check_cols_def split: if_splits)
  with Inl show ?thesis by (simp add: unescape_def)
next
  case (Inr u)
  then show ?thesis using unescape_loops [of s] by (auto simp: unescape_def)
qed

text \<open>A string pair becomes as many symbol pairs as its longer side has tokens, and where
  both sides have a token no component of the pair is empty.\<close>

theorem make_pair_vectors_correct:
  assumes "make_pair_vectors eps xs ys = Inr spv"
  shows "length spv = max (length xs) (length ys) \<and>
     list_all (\<lambda>p. fst p \<noteq> [] \<and> snd p \<noteq> []) (take (min (length xs) (length ys)) spv)"
  using make_pair_vectors_length [OF assms] make_pair_vectors_nonempty [OF assms]
  by (simp add: list_all_length)

lemma make_pair_vectors_correct_witness:
  "length [(''a'', ''b''), (internal_epsilon, ''c'')] = max (length [''a'']) (length [''b'', ''c''])"
  by (rule make_pair_vectors_correct [of "[]" "[''a'']" "[''b'', ''c'']", THEN conjunct1])
     (simp add: unescape_def check_cols_def check_cols_loop.simps str_find_def escape_defs
       replace_rescan.simps or_epsilon_def epsilon_or_unescaped_def)

text \<open>Past the end of the shorter side the emptiness test comes before unescaping, so a lone
  backslash token becomes an empty symbol there, though it becomes epsilon elsewhere.\<close>

theorem make_pair_vectors_empty_symbol:
  "make_pair_vectors [] [] [BACKSLASH] = Inr [(internal_epsilon, [])] \<and>
   make_pair_vectors [] [BACKSLASH] [BACKSLASH] = Inr [(internal_epsilon, internal_epsilon)]"
  by (simp add: unescape_def check_cols_def check_cols_loop.simps str_find_def escape_defs
      replace_rescan.simps or_epsilon_def epsilon_or_unescaped_def str_replace_def)

text \<open>Splitting at spaces drops exactly the space tokens: the pieces are not empty and put
  together they are the other tokens put together.\<close>

theorem split_at_spaces_correct:
  assumes "split_at_spaces t str = Inr ws"
  shows "\<exists>sv. tokenize_one_level (s2f_tok t) str = Inr sv \<and> [] \<notin> set ws \<and>
     concat ws = concat (filter (\<lambda>x. x \<noteq> SPACE) sv)"
  using assms split_loop_nonempty [of "[]"] split_loop_concat [of _ "[]" "[]"]
  by (auto simp: split_at_spaces_def result_simps)

lemma split_at_spaces_correct_witness:
  "concat [''a'', ''b''] = ''ab''"
  using split_at_spaces_correct [of "\<lparr>s2f_tok = new_tokenizer, s2f_eps = []\<rparr>" "''a b''"
      "[''a'', ''b'']"]
  by (simp add: split_at_spaces_def tokenize_one_level_def check_utf8_correctness_def
      check_utf8_correctness_and_calculate_length_def additional_chars_def c_str_def
      get_next_symbol_size_def new_tokenizer_def new_trie_def in_vector_def is_skip_symbol_def
      escape_defs)

end
