(* ===== verification/SymbolTable.thy ===== *)
theory SymbolTable
  imports SymbolDefs
begin

text \<open>
  The global symbol numbering and the transition data of
  \<open>libhfst/src/implementations/HfstTropicalTransducerTransitionData.cc\<close> and
  \<open>HfstBasicTransition.cc\<close>. The static vector, map and counter are the record \<open>symtab\<close>,
  passed and returned. Transition data carries two numbers and a weight; its order is the
  code's \<open>operator<\<close>, made the type's linear order here. \<open>unsigned int\<close> arithmetic is
  written modulo \<open>2 ^ 32\<close>.
\<close>

section \<open>The numbering of symbols\<close>

record symtab =
  number2symbol :: "string list"
  symbol2number :: "string \<rightharpoonup> nat"
  max_number :: nat

definition initial_symtab :: symtab where
  "initial_symtab =
     \<lparr>number2symbol = [internal_epsilon, internal_unknown, internal_identity],
      symbol2number = [internal_epsilon \<mapsto> 0, internal_unknown \<mapsto> 1, internal_identity \<mapsto> 2],
      max_number = 2\<rparr>"

definition get_symbol :: "nat \<Rightarrow> symtab \<Rightarrow> string result" where
  "get_symbol number tab =
     (if number \<ge> length (number2symbol tab) then Inl HfstFatalException
      else Inr (number2symbol tab ! number))"

definition get_number :: "string \<Rightarrow> symtab \<Rightarrow> (nat \<times> symtab) result" where
  "get_number symbol tab =
     (if symbol = [] then Inl AssertionFailed
      else case symbol2number tab symbol of
        None \<Rightarrow>
          (let n = (max_number tab + 1) mod 4294967296
           in Inr (n, \<lparr>number2symbol = number2symbol tab @ [symbol],
                       symbol2number = (symbol2number tab)(symbol \<mapsto> n), max_number = n\<rparr>))
      | Some n \<Rightarrow> Inr (n, tab))"

fun harmonization_loop :: "string list \<Rightarrow> symtab \<Rightarrow> (nat list \<times> symtab) result" where
  "harmonization_loop [] tab = Inr ([], tab)"
| "harmonization_loop (s # ss) tab =
     (if s \<noteq> [] then
        rbind (get_number s tab) (\<lambda>(n, tab').
          rmap (\<lambda>(v, tab''). (n # v, tab'')) (harmonization_loop ss tab'))
      else rmap (\<lambda>(v, tab'). (0 # v, tab')) (harmonization_loop ss tab))"

definition get_harmonization_vector :: "string list \<Rightarrow> symtab \<Rightarrow> (nat list \<times> symtab) result" where
  "get_harmonization_vector symbols tab = harmonization_loop symbols tab"

definition get_reverse_harmonization_vector :: "(string \<rightharpoonup> nat) \<Rightarrow> symtab \<Rightarrow> nat list result" where
  "get_reverse_harmonization_vector symbols tab =
     rfold (\<lambda>i harmv. rmap (\<lambda>s. harmv @ [case symbols s of Some k \<Rightarrow> k | None \<Rightarrow> 0]) (get_symbol i tab))
       [0..<(max_number tab + 1) mod 4294967296] []"

section \<open>Transition data and transitions\<close>

datatype 'w transition_data =
  TransitionData (input_number: nat) (output_number: nat) (td_weight: 'w)

definition td_less :: "'w::ord transition_data \<Rightarrow> 'w transition_data \<Rightarrow> bool" where
  "td_less this another =
     (if input_number this < input_number another then True
      else if input_number this > input_number another then False
      else if output_number this < output_number another then True
      else if output_number this > output_number another then False
      else td_weight this < td_weight another)"

definition less_than_ignore_weight :: "'w transition_data \<Rightarrow> 'w transition_data \<Rightarrow> bool" where
  "less_than_ignore_weight this another =
     (if input_number this < input_number another then True
      else if input_number this > input_number another then False
      else if output_number this < output_number another then True
      else if output_number this > output_number another then False
      else False)"

definition default_transition_data :: "'w::zero transition_data" where
  "default_transition_data = TransitionData 0 0 0"

definition new_transition_data ::
  "string \<Rightarrow> string \<Rightarrow> 'w \<Rightarrow> symtab \<Rightarrow> ('w transition_data \<times> symtab) result" where
  "new_transition_data isymbol osymbol weight tab =
     (if isymbol = [] \<or> osymbol = [] then Inl EmptyStringException
      else rbind (get_number isymbol tab) (\<lambda>(i, tab').
           rmap (\<lambda>(out, tab''). (TransitionData i out weight, tab'')) (get_number osymbol tab')))"

definition get_input_symbol :: "'w transition_data \<Rightarrow> symtab \<Rightarrow> string result" where
  "get_input_symbol d tab = get_symbol (input_number d) tab"

definition get_output_symbol :: "'w transition_data \<Rightarrow> symtab \<Rightarrow> string result" where
  "get_output_symbol d tab = get_symbol (output_number d) tab"

definition set_input_symbol ::
  "string \<Rightarrow> 'w transition_data \<Rightarrow> symtab \<Rightarrow> ('w transition_data \<times> symtab) result" where
  "set_input_symbol symbol d tab =
     rmap (\<lambda>(n, tab'). (TransitionData n (output_number d) (td_weight d), tab')) (get_number symbol tab)"

definition set_output_symbol ::
  "string \<Rightarrow> 'w transition_data \<Rightarrow> symtab \<Rightarrow> ('w transition_data \<times> symtab) result" where
  "set_output_symbol symbol d tab =
     rmap (\<lambda>(n, tab'). (TransitionData (input_number d) n (td_weight d), tab')) (get_number symbol tab)"

definition is_valid_symbol :: "string \<Rightarrow> bool" where
  "is_valid_symbol symbol = (if symbol = [] then False else True)"

definition get_marker :: "string set \<Rightarrow> string" where
  "get_marker sts = ''@_MARKER_SYMBOL_@''"

datatype 'w arc = Arc (arc_target: nat) (arc_data: "'w transition_data")

definition arc_less :: "'w::ord arc \<Rightarrow> 'w arc \<Rightarrow> bool" where
  "arc_less this another =
     (if arc_target this = arc_target another then td_less (arc_data this) (arc_data another)
      else arc_target this < arc_target another)"

instantiation transition_data :: (linorder) linorder
begin

definition less_transition_data_def:
  "(a :: 'a transition_data) < b \<longleftrightarrow> td_less a b"
definition less_eq_transition_data_def:
  "(a :: 'a transition_data) \<le> b \<longleftrightarrow> \<not> td_less b a"

instance
proof
  fix a b c :: "'a transition_data"
  show "(a < b) = (a \<le> b \<and> \<not> b \<le> a)" "a \<le> a" "a \<le> b \<or> b \<le> a"
    by (auto simp: less_transition_data_def less_eq_transition_data_def td_less_def)
  show "a \<le> b \<Longrightarrow> b \<le> c \<Longrightarrow> a \<le> c" "a \<le> b \<Longrightarrow> b \<le> a \<Longrightarrow> a = b"
    by (cases a; cases b; cases c;
        force simp: less_eq_transition_data_def td_less_def split: if_splits)+
qed

end

instantiation arc :: (linorder) linorder
begin

definition less_arc_def: "(a :: 'a arc) < b \<longleftrightarrow> arc_less a b"
definition less_eq_arc_def: "(a :: 'a arc) \<le> b \<longleftrightarrow> \<not> arc_less b a"

lemma arc_less_iff:
  "arc_less a b \<longleftrightarrow> arc_target a < arc_target b \<or> arc_target a = arc_target b \<and> arc_data a < arc_data b"
  by (auto simp: arc_less_def less_transition_data_def)

instance
proof
  fix a b c :: "'a arc"
  show "(a < b) = (a \<le> b \<and> \<not> b \<le> a)" "a \<le> a" "a \<le> b \<or> b \<le> a"
    by (auto simp: less_arc_def less_eq_arc_def arc_less_iff)
  show "a \<le> b \<Longrightarrow> b \<le> c \<Longrightarrow> a \<le> c" "a \<le> b \<Longrightarrow> b \<le> a \<Longrightarrow> a = b"
    by (cases a; cases b; cases c; force simp: less_eq_arc_def arc_less_iff)+
qed

end

section \<open>The table's invariant\<close>

definition used_numbers :: "nat \<Rightarrow> nat set" where
  "used_numbers n = {..<n}"

interpretation symbol_ids: numbering id used_numbers 4294967294
  by unfold_locales (auto simp: used_numbers_def)

definition symtab_ok :: "symtab \<Rightarrow> bool" where
  "symtab_ok tab \<longleftrightarrow>
     symbol_ids.numbering_ok (symbol2number tab) \<and> [] \<notin> dom (symbol2number tab) \<and>
     card (dom (symbol2number tab)) = max_number tab + 1 \<and>
     length (number2symbol tab) = max_number tab + 1 \<and> max_number tab < 4294967295 \<and>
     (\<forall>s n. symbol2number tab s = Some n \<longleftrightarrow>
        n < length (number2symbol tab) \<and> number2symbol tab ! n = s)"

lemma symtab_ok_initial: "symtab_ok initial_symtab"
proof -
  have "symbol2number initial_symtab s = Some n \<longleftrightarrow>
      n < length (number2symbol initial_symtab) \<and> number2symbol initial_symtab ! n = s" for s n
  proof -
    consider "n = 0" | "n = 1" | "n = 2" | "3 \<le> n" by linarith
    then show ?thesis by cases (auto simp: initial_symtab_def)
  qed
  then show ?thesis
    by (auto simp: symtab_ok_def initial_symtab_def symbol_ids.numbering_ok_def map_inj_def
        used_numbers_def)
qed

lemma get_number_alloc:
  assumes "symtab_ok tab" and "max_number tab < 4294967294" and "get_number s tab = Inr (n, tab')"
  shows "symbol2number tab' = alloc id s (symbol2number tab)"
proof -
  have "card (dom (symbol2number tab)) = max_number tab + 1"
    using assms(1) unfolding symtab_ok_def by blast
  with assms(2,3) show ?thesis
    by (cases "symbol2number tab s") (auto simp: get_number_def alloc_def Let_def split: if_splits)
qed

lemma get_number_ok:
  assumes "symtab_ok tab" and "max_number tab < 4294967294" and "get_number s tab = Inr (n, tab')"
  shows "symtab_ok tab' \<and> symbol2number tab' s = Some n \<and>
         max_number tab' \<le> max_number tab + 1 \<and> max_number tab \<le> max_number tab'"
proof (cases "symbol2number tab s")
  case None
  let ?N = "max_number tab + 1"
  from None assms have tab': "n = ?N" "number2symbol tab' = number2symbol tab @ [s]"
    "symbol2number tab' = (symbol2number tab)(s \<mapsto> ?N)" "max_number tab' = ?N" and "s \<noteq> []"
    by (auto simp: get_number_def Let_def split: if_splits)
  have ok: "symbol_ids.numbering_ok (symbol2number tab)" "[] \<notin> dom (symbol2number tab)"
    "card (dom (symbol2number tab)) = ?N" "length (number2symbol tab) = ?N"
    "\<And>s n. symbol2number tab s = Some n \<longleftrightarrow>
        n < length (number2symbol tab) \<and> number2symbol tab ! n = s"
    using assms(1) unfolding symtab_ok_def by blast+
  have "symbol_ids.numbering_ok (symbol2number tab')"
    unfolding get_number_alloc [OF assms]
    using ok assms(2) by (intro symbol_ids.numbering_ok_alloc) auto
  moreover have "card (dom (symbol2number tab')) = ?N + 1"
    using None ok symbol_ids.numbering_ok_finite [OF ok(1)]
    by (simp add: tab'(3) card_insert_if domIff)
  moreover have "symbol2number tab' t = Some m \<longleftrightarrow>
      m < length (number2symbol tab') \<and> number2symbol tab' ! m = t" for t m
    using ok(5) [of t m] ok(5) [of s m] None ok(4)
    by (auto simp: tab' nth_append less_Suc_eq)
  ultimately show ?thesis
    using tab' ok \<open>s \<noteq> []\<close> assms(2) by (simp add: symtab_ok_def)
next
  case (Some m)
  with assms show ?thesis by (auto simp: get_number_def split: if_splits)
qed

lemma get_number_keeps:
  "get_number s tab = Inr (n, tab') \<Longrightarrow> symbol2number tab t = Some m \<Longrightarrow>
     symbol2number tab' t = Some m"
  by (auto simp: get_number_def Let_def split: option.splits if_splits)

lemma get_symbol_number:
  "symtab_ok tab \<Longrightarrow> symbol2number tab s = Some n \<longleftrightarrow> get_symbol n tab = Inr s"
  by (auto simp: symtab_ok_def get_symbol_def)

lemma get_number_total: "s \<noteq> [] \<Longrightarrow> \<exists>n tab'. get_number s tab = Inr (n, tab')"
  by (auto simp: get_number_def Let_def split: option.splits)

lemma get_number_step:
  assumes "symtab_ok tab" and "max_number tab < 4294967294" and "s \<noteq> []"
  shows "\<exists>n tab'. get_number s tab = Inr (n, tab') \<and> symtab_ok tab' \<and>
     symbol2number tab' s = Some n \<and> max_number tab' \<le> max_number tab + 1 \<and>
     symbol2number tab \<subseteq>\<^sub>m symbol2number tab'"
proof -
  from get_number_total [OF assms(3)] obtain n tab' where n: "get_number s tab = Inr (n, tab')"
    by blast
  with get_number_ok [OF assms(1,2) n] get_number_keeps [OF n] show ?thesis
    by (auto simp: map_le_def dom_def)
qed

lemma get_number_known:
  "symtab_ok tab \<Longrightarrow> symbol2number tab s = Some n \<Longrightarrow> get_number s tab = Inr (n, tab)"
proof -
  assume "symtab_ok tab" and n: "symbol2number tab s = Some n"
  then have "[] \<notin> dom (symbol2number tab)" unfolding symtab_ok_def by blast
  with n have "s \<noteq> []" by blast
  with n show "get_number s tab = Inr (n, tab)" by (simp add: get_number_def)
qed

lemma symtab_number_inj:
  "symtab_ok tab \<Longrightarrow> symbol2number tab s = Some n \<Longrightarrow> symbol2number tab t = Some n \<Longrightarrow> s = t"
  by (auto simp: symtab_ok_def)

lemma symtab_number_less:
  "symtab_ok tab \<Longrightarrow> symbol2number tab s = Some n \<Longrightarrow> n < max_number tab + 1"
  by (auto simp: symtab_ok_def)

lemma harmonization_loop_ok:
  "symtab_ok tab \<Longrightarrow> max_number tab + length ss < 4294967295 \<Longrightarrow>
   \<exists>v tab'. harmonization_loop ss tab = Inr (v, tab') \<and> symtab_ok tab' \<and> length v = length ss \<and>
     symbol2number tab \<subseteq>\<^sub>m symbol2number tab' \<and>
     list_all2 (\<lambda>s n. if s = [] then n = 0 else symbol2number tab' s = Some n) ss v"
proof (induction ss arbitrary: tab)
  case Nil
  then show ?case by simp
next
  case (Cons s ss)
  show ?case
  proof (cases "s = []")
    case True
    from Cons.IH [OF Cons.prems(1)] Cons.prems(2) obtain v tab' where
      "harmonization_loop ss tab = Inr (v, tab')" "symtab_ok tab'" "length v = length ss"
      "symbol2number tab \<subseteq>\<^sub>m symbol2number tab'"
      "list_all2 (\<lambda>s n. if s = [] then n = 0 else symbol2number tab' s = Some n) ss v" by auto
    with True show ?thesis by simp
  next
    case False
    then obtain n tab1 where n: "get_number s tab = Inr (n, tab1)" using get_number_total by blast
    from get_number_ok [OF Cons.prems(1) _ n] Cons.prems(2)
    have tab1: "symtab_ok tab1" "symbol2number tab1 s = Some n" "max_number tab1 \<le> max_number tab + 1"
      by auto
    with Cons.IH [of tab1] Cons.prems(2) obtain v tab' where
      v: "harmonization_loop ss tab1 = Inr (v, tab')" "symtab_ok tab'" "length v = length ss"
        "symbol2number tab1 \<subseteq>\<^sub>m symbol2number tab'"
        "list_all2 (\<lambda>s n. if s = [] then n = 0 else symbol2number tab' s = Some n) ss v"
      by auto
    have "symbol2number tab \<subseteq>\<^sub>m symbol2number tab1"
      using get_number_keeps [OF n] by (auto simp: map_le_def dom_def)
    then have "symbol2number tab \<subseteq>\<^sub>m symbol2number tab'" using v(4) by (rule map_le_trans)
    moreover have "symbol2number tab' s = Some n" using tab1(2) v(4) by (force simp: map_le_def dom_def)
    ultimately show ?thesis using n v False by auto
  qed
qed

section \<open>Properties\<close>

text \<open>C36. Numbering a symbol keeps the table a bijection between the symbols and the numbers
  \<open>0..max_number\<close>: the number read back gives the symbol, and every symbol numbered before
  keeps its number.\<close>

theorem get_number_bijection:
  assumes "symtab_ok tab" and "max_number tab < 4294967294" and "s \<noteq> []"
  shows "\<exists>n tab'. get_number s tab = Inr (n, tab') \<and> symtab_ok tab' \<and> get_symbol n tab' = Inr s \<and>
     (\<forall>m t. get_symbol m tab = Inr t \<longrightarrow> get_symbol m tab' = Inr t)"
proof -
  from get_number_total [OF assms(3)] obtain n tab' where n: "get_number s tab = Inr (n, tab')"
    by blast
  from get_number_ok [OF assms(1,2) n] have ok: "symtab_ok tab'" "symbol2number tab' s = Some n"
    by auto
  from ok get_symbol_number [OF ok(1)] get_symbol_number [OF assms(1)] get_number_keeps [OF n]
  show ?thesis using n by auto
qed

lemma get_number_bijection_witness:
  "\<exists>n tab'. get_number ''a'' initial_symtab = Inr (n, tab') \<and> get_symbol n tab' = Inr ''a''"
  using get_number_bijection [OF symtab_ok_initial, of "''a''"] by (auto simp: initial_symtab_def)

text \<open>The harmonization vector of a list of symbols gives every non-empty symbol the number
  that stands for it in the global table, and 0 to the unused (empty) positions.\<close>

theorem get_harmonization_vector_correct:
  assumes "symtab_ok tab" and "max_number tab + length symbols < 4294967295"
  shows "\<exists>v tab'. get_harmonization_vector symbols tab = Inr (v, tab') \<and> symtab_ok tab' \<and>
     list_all2 (\<lambda>s n. if s = [] then n = 0 else get_symbol n tab' = Inr s) symbols v"
proof -
  from harmonization_loop_ok [OF assms] obtain v tab' where
    v: "harmonization_loop symbols tab = Inr (v, tab')" "symtab_ok tab'"
      "list_all2 (\<lambda>s n. if s = [] then n = 0 else symbol2number tab' s = Some n) symbols v" by blast
  then have "list_all2 (\<lambda>s n. if s = [] then n = 0 else get_symbol n tab' = Inr s) symbols v"
    by (simp only: get_symbol_number [OF v(2)])
  with v show ?thesis by (auto simp: get_harmonization_vector_def)
qed

lemma get_harmonization_vector_correct_witness:
  "\<exists>v tab'. get_harmonization_vector [''a'', [], ''b''] initial_symtab = Inr (v, tab') \<and>
     list_all2 (\<lambda>s n. if s = [] then n = 0 else get_symbol n tab' = Inr s) [''a'', [], ''b''] v"
  using get_harmonization_vector_correct [OF symtab_ok_initial, of "[''a'', [], ''b'']"]
  by (fastforce simp: initial_symtab_def)

text \<open>Transition data compares as a linear order on (input number, output number, weight):
  \<open>operator<\<close> is the strict lexicographic order, and the comparison that ignores weights is
  its projection.\<close>

theorem transition_data_order:
  fixes a b :: "'w::linorder transition_data"
  shows "(td_less a b \<longleftrightarrow> (input_number a, output_number a, td_weight a) <
            (input_number b, output_number b, td_weight b)) \<and>
         (less_than_ignore_weight a b \<longleftrightarrow>
            (input_number a, output_number a) < (input_number b, output_number b))"
  by (auto simp: td_less_def less_than_ignore_weight_def less_prod_def)

end
