(* ===== verification/BasicTransducer.thy ===== *)
theory BasicTransducer
  imports SymbolTable
begin

text \<open>
  The core of \<open>HfstBasicTransducer\<close>
  (\<open>libhfst/src/implementations/HfstBasicTransducer.cc\<close>, lines 22 to 583): the vector of
  states with their transitions, the final weights, the alphabet, and the operations that
  build and query them. A transition carries its symbols as strings, the ones its numbers
  stand for in the global table (theory \<open>SymbolTable\<close>); where the code compares numbers, the
  operation takes the table. State numbers are naturals: the code's \<open>unsigned int\<close> is enough
  for every vector that fits in memory. Weights are of any type with the operations used.
\<close>

section \<open>The data\<close>

record 'w transition =
  tr_target :: nat
  tr_input :: string
  tr_output :: string
  tr_weight :: 'w

record 'w hbt =
  hbt_name :: string
  state_vector :: "'w transition list list"
  final_weight_map :: "nat \<rightharpoonup> 'w"
  alphabet :: "string set"

text \<open>The constructor of a transition throws on an empty symbol.\<close>

definition new_transition :: "nat \<Rightarrow> string \<Rightarrow> string \<Rightarrow> 'w \<Rightarrow> 'w transition result" where
  "new_transition s isymbol osymbol weight =
     (if isymbol = [] \<or> osymbol = [] then Inl EmptyStringException
      else Inr \<lparr>tr_target = s, tr_input = isymbol, tr_output = osymbol, tr_weight = weight\<rparr>)"

definition encode_transition :: "symtab \<Rightarrow> 'w transition \<Rightarrow> 'w arc" where
  "encode_transition tab tr =
     Arc (tr_target tr) (TransitionData (the (symbol2number tab (tr_input tr)))
       (the (symbol2number tab (tr_output tr))) (tr_weight tr))"

definition initialize_alphabet :: "string set \<Rightarrow> string set" where
  "initialize_alphabet alpha =
     insert internal_identity (insert internal_unknown (insert internal_epsilon alpha))"

definition new_hbt :: "'w hbt" where
  "new_hbt =
     \<lparr>hbt_name = [], state_vector = [[]], final_weight_map = Map.empty,
      alphabet = initialize_alphabet {}\<rparr>"

text \<open>Assignment and copying assert that the empty string is not in the alphabet.\<close>

definition hbt_assign :: "'w hbt \<Rightarrow> 'w hbt \<Rightarrow> 'w hbt result" where
  "hbt_assign this graph =
     (let g = this\<lparr>state_vector := state_vector graph, final_weight_map := final_weight_map graph,
                   alphabet := alphabet graph\<rparr>
      in if [] \<in> alphabet g then Inl AssertionFailed else Inr (g\<lparr>hbt_name := hbt_name graph\<rparr>))"

definition hbt_copy :: "'w hbt \<Rightarrow> 'w hbt result" where
  "hbt_copy graph = (if [] \<in> alphabet graph then Inl AssertionFailed else Inr graph)"

section \<open>States\<close>

definition get_max_state :: "'w hbt \<Rightarrow> nat" where
  "get_max_state g = length (state_vector g) - 1"

definition states :: "'w hbt \<Rightarrow> nat list" where
  "states g = [0..<get_max_state g + 1]"

definition add_new_state :: "'w hbt \<Rightarrow> nat \<times> 'w hbt" where
  "add_new_state g =
     (let g' = g\<lparr>state_vector := state_vector g @ [[]]\<rparr> in (length (state_vector g') - 1, g'))"

definition grow_states :: "nat \<Rightarrow> 'w transition list list \<Rightarrow> 'w transition list list" where
  "grow_states s sv = (if length sv \<le> s then sv @ replicate (Suc s - length sv) [] else sv)"

definition add_state :: "nat \<Rightarrow> 'w hbt \<Rightarrow> 'w hbt" where
  "add_state s g = g\<lparr>state_vector := grow_states s (state_vector g)\<rparr>"

definition hbt_transitions :: "nat \<Rightarrow> 'w hbt \<Rightarrow> 'w transition list result" where
  "hbt_transitions s g =
     (if s \<ge> length (state_vector g) then Inl StateIndexOutOfBoundsException
      else Inr (state_vector g ! s))"

section \<open>The alphabet\<close>

definition check_alphabet :: "'w hbt \<Rightarrow> bool" where
  "check_alphabet g =
     list_all (list_all (\<lambda>tr. if tr_input tr \<notin> alphabet g then False
        else if tr_output tr \<notin> alphabet g then False else True)) (state_vector g)"

definition add_symbol_to_alphabet :: "string \<Rightarrow> 'w hbt \<Rightarrow> 'w hbt" where
  "add_symbol_to_alphabet symbol g = g\<lparr>alphabet := insert symbol (alphabet g)\<rparr>"

definition remove_symbol_from_alphabet :: "string \<Rightarrow> 'w hbt \<Rightarrow> 'w hbt" where
  "remove_symbol_from_alphabet symbol g = g\<lparr>alphabet := alphabet g - {symbol}\<rparr>"

definition remove_symbols_from_alphabet :: "string set \<Rightarrow> 'w hbt \<Rightarrow> 'w hbt" where
  "remove_symbols_from_alphabet symbols g =
     fold remove_symbol_from_alphabet (sorted_list_of_set symbols) g"

definition add_symbols_to_alphabet :: "string set \<Rightarrow> 'w hbt \<Rightarrow> 'w hbt" where
  "add_symbols_to_alphabet symbols g =
     fold add_symbol_to_alphabet (sorted_list_of_set symbols) g"

definition add_symbol_pairs_to_alphabet :: "string_pair set \<Rightarrow> 'w hbt \<Rightarrow> 'w hbt" where
  "add_symbol_pairs_to_alphabet symbols g =
     fold (\<lambda>p g. add_symbol_to_alphabet (snd p) (add_symbol_to_alphabet (fst p) g))
       (sorted_list_of_set symbols) g"

text \<open>A loop over all transitions that collects something of each.\<close>

definition collect_transitions :: "('w transition \<Rightarrow> 'a \<Rightarrow> 'a) \<Rightarrow> 'w hbt \<Rightarrow> 'a \<Rightarrow> 'a" where
  "collect_transitions f g a = fold (fold f) (state_vector g) a"

definition symbols_used :: "'w hbt \<Rightarrow> string set" where
  "symbols_used g =
     collect_transitions (\<lambda>tr r. insert (tr_output tr) (insert (tr_input tr) r)) g {}"

definition get_transition_pairs :: "'w hbt \<Rightarrow> string_pair set" where
  "get_transition_pairs g =
     collect_transitions (\<lambda>tr r. insert (tr_input tr, tr_output tr) r) g {}"

definition get_input_symbols :: "'w hbt \<Rightarrow> string set" where
  "get_input_symbols g = collect_transitions (\<lambda>tr r. insert (tr_input tr) r) g {}"

definition get_output_symbols :: "'w hbt \<Rightarrow> string set" where
  "get_output_symbols g = collect_transitions (\<lambda>tr r. insert (tr_output tr) r) g {}"

text \<open>The code marks the numbers found in a bit vector; \<open>symbols\<close> are the symbols of the numbers.\<close>

definition prune_alphabet_after_substitution :: "string set \<Rightarrow> 'w hbt \<Rightarrow> 'w hbt" where
  "prune_alphabet_after_substitution symbols g =
     (if card symbols = 0 then g
      else let symbols_found = symbols_used g in
        fold (\<lambda>s g. if s \<notin> symbols_found then remove_symbol_from_alphabet s g else g)
          (sorted_list_of_set symbols) g)"

definition prune_alphabet :: "bool \<Rightarrow> 'w hbt \<Rightarrow> 'w hbt" where
  "prune_alphabet force g =
     (let symbols_found = symbols_used g;
          unknowns_or_identities_used =
            (internal_unknown \<in> symbols_found \<or> internal_identity \<in> symbols_found)
      in if \<not> force \<and> unknowns_or_identities_used then g
         else let symbols_found' = initialize_alphabet symbols_found;
                  symbols_not_found = {s \<in> alphabet g. s \<notin> symbols_found'}
              in remove_symbols_from_alphabet symbols_not_found g)"

section \<open>Transitions and final weights\<close>

definition add_transition :: "nat \<Rightarrow> 'w transition \<Rightarrow> bool \<Rightarrow> 'w hbt \<Rightarrow> 'w hbt" where
  "add_transition s tr add_symbols g =
     (let g1 = add_state (tr_target tr) (add_state s g);
          g2 = (if add_symbols
                then add_symbol_to_alphabet (tr_output tr) (add_symbol_to_alphabet (tr_input tr) g1)
                else g1)
      in g2\<lparr>state_vector := (state_vector g2)[s := state_vector g2 ! s @ [tr]]\<rparr>)"

definition same_ignoring_weight :: "'w transition \<Rightarrow> 'w transition \<Rightarrow> bool" where
  "same_ignoring_weight it tr \<longleftrightarrow> tr_input it = tr_input tr \<and> tr_output it = tr_output tr \<and>
     tr_target it = tr_target tr"

definition remove_transition :: "nat \<Rightarrow> 'w transition \<Rightarrow> bool \<Rightarrow> 'w hbt \<Rightarrow> 'w hbt" where
  "remove_transition s tr remove_symbols g =
     (if \<not> length (state_vector g) > s then g
      else let g1 = g\<lparr>state_vector := (state_vector g)[s :=
                  filter (\<lambda>it. \<not> same_ignoring_weight it tr) (state_vector g ! s)]\<rparr>
        in if remove_symbols then
             let alpha = symbols_used g1;
                 g2 = (if tr_input tr \<notin> alpha then remove_symbol_from_alphabet (tr_input tr) g1 else g1)
             in (if tr_output tr \<notin> alpha then remove_symbol_from_alphabet (tr_output tr) g2 else g2)
           else g1)"

definition is_final_state :: "nat \<Rightarrow> 'w hbt \<Rightarrow> bool" where
  "is_final_state s g = (final_weight_map g s \<noteq> None)"

definition get_final_weight :: "nat \<Rightarrow> 'w hbt \<Rightarrow> 'w result" where
  "get_final_weight s g =
     (if s > get_max_state g then Inl StateIndexOutOfBoundsException
      else case final_weight_map g s of Some w \<Rightarrow> Inr w | None \<Rightarrow> Inl StateIsNotFinalException)"

definition set_final_weight :: "nat \<Rightarrow> 'w \<Rightarrow> 'w hbt \<Rightarrow> 'w hbt" where
  "set_final_weight s weight g =
     (let g1 = add_state s g in g1\<lparr>final_weight_map := (final_weight_map g1)(s \<mapsto> weight)\<rparr>)"

definition remove_final_weight :: "nat \<Rightarrow> 'w hbt \<Rightarrow> 'w hbt" where
  "remove_final_weight s g = g\<lparr>final_weight_map := (final_weight_map g)(s := None)\<rparr>"

definition sort_arcs :: "symtab \<Rightarrow> 'w::linorder hbt \<Rightarrow> 'w hbt" where
  "sort_arcs tab g = g\<lparr>state_vector := map (sort_key (encode_transition tab)) (state_vector g)\<rparr>"

section \<open>Well-formed graphs\<close>

text \<open>\<open>wf_graph\<close>: there is an initial state, every target and every final state exists, and no
  symbol is empty. \<open>wf_alphabet\<close>: the alphabet is finite, has no empty symbol and contains
  every symbol of a transition. (The special symbols need not stay in it: the code removes
  them like any other symbol in \<open>remove_transition\<close> and after substitutions.)\<close>

definition transitions_of :: "'w hbt \<Rightarrow> nat \<Rightarrow> 'w transition list" where
  "transitions_of g s = (if s < length (state_vector g) then state_vector g ! s else [])"

definition wf_transition :: "nat \<Rightarrow> 'w transition \<Rightarrow> bool" where
  "wf_transition n tr \<longleftrightarrow> tr_target tr < n \<and> tr_input tr \<noteq> [] \<and> tr_output tr \<noteq> []"

definition wf_graph :: "'w hbt \<Rightarrow> bool" where
  "wf_graph g \<longleftrightarrow>
     state_vector g \<noteq> [] \<and>
     (\<forall>trs \<in> set (state_vector g). \<forall>tr \<in> set trs. wf_transition (length (state_vector g)) tr) \<and>
     dom (final_weight_map g) \<subseteq> {..<length (state_vector g)}"

definition wf_alphabet :: "'w hbt \<Rightarrow> bool" where
  "wf_alphabet g \<longleftrightarrow>
     finite (alphabet g) \<and> [] \<notin> alphabet g \<and>
     (\<forall>trs \<in> set (state_vector g). \<forall>tr \<in> set trs.
        tr_input tr \<in> alphabet g \<and> tr_output tr \<in> alphabet g)"

definition wf_hbt :: "'w hbt \<Rightarrow> bool" where
  "wf_hbt g \<longleftrightarrow> wf_graph g \<and> wf_alphabet g"

lemma new_transition_wf:
  "new_transition s i out w = Inr tr \<Longrightarrow> s < n \<Longrightarrow> wf_transition n tr"
  by (auto simp: new_transition_def wf_transition_def split: if_splits)

lemma wf_transition_mono: "wf_transition n tr \<Longrightarrow> n \<le> m \<Longrightarrow> wf_transition m tr"
  by (auto simp: wf_transition_def)

lemma in_state_vector:
  "(\<exists>trs \<in> set (state_vector g). tr \<in> set trs) \<longleftrightarrow> (\<exists>s. tr \<in> set (transitions_of g s))"
proof
  assume "\<exists>trs \<in> set (state_vector g). tr \<in> set trs"
  then obtain trs where "trs \<in> set (state_vector g)" "tr \<in> set trs" by blast
  then obtain s where "s < length (state_vector g)" "state_vector g ! s = trs"
    by (auto simp: in_set_conv_nth [of trs])
  with \<open>tr \<in> set trs\<close> show "\<exists>s. tr \<in> set (transitions_of g s)"
    by (intro exI [of _ s]) (simp add: transitions_of_def)
next
  assume "\<exists>s. tr \<in> set (transitions_of g s)"
  then show "\<exists>trs \<in> set (state_vector g). tr \<in> set trs"
    by (auto simp: transitions_of_def split: if_splits intro: nth_mem)
qed

lemma wf_graph_iff:
  "wf_graph g \<longleftrightarrow> state_vector g \<noteq> [] \<and>
     (\<forall>s. \<forall>tr \<in> set (transitions_of g s). wf_transition (length (state_vector g)) tr) \<and>
     dom (final_weight_map g) \<subseteq> {..<length (state_vector g)}"
  unfolding wf_graph_def using in_state_vector [of g] by blast

lemma wf_alphabet_iff:
  "wf_alphabet g \<longleftrightarrow> finite (alphabet g) \<and> [] \<notin> alphabet g \<and>
     (\<forall>s. \<forall>tr \<in> set (transitions_of g s). tr_input tr \<in> alphabet g \<and> tr_output tr \<in> alphabet g)"
  unfolding wf_alphabet_def using in_state_vector [of g] by blast

lemma wf_graph_target:
  "wf_graph g \<Longrightarrow> tr \<in> set (transitions_of g s) \<Longrightarrow> tr_target tr < length (state_vector g)"
  by (auto simp: wf_graph_iff wf_transition_def)

lemma length_grow_states [simp]: "length (grow_states s sv) = max (length sv) (Suc s)"
  by (auto simp: grow_states_def)

lemma nth_grow_states:
  "i < length (grow_states s sv) \<Longrightarrow> grow_states s sv ! i = (if i < length sv then sv ! i else [])"
  by (auto simp: grow_states_def nth_append)

lemma add_state_simps [simp]:
  "length (state_vector (add_state s g)) = max (length (state_vector g)) (Suc s)"
  "final_weight_map (add_state s g) = final_weight_map g"
  "alphabet (add_state s g) = alphabet g" "hbt_name (add_state s g) = hbt_name g"
  "transitions_of (add_state s g) t = transitions_of g t"
  by (auto simp: add_state_def transitions_of_def nth_grow_states)

lemma add_state_exists [simp]: "s < length (state_vector g) \<Longrightarrow> add_state s g = g"
  by (simp add: add_state_def grow_states_def)

lemma symbol_to_alphabet_simps [simp]:
  "state_vector (add_symbol_to_alphabet x g) = state_vector g"
  "final_weight_map (add_symbol_to_alphabet x g) = final_weight_map g"
  "hbt_name (add_symbol_to_alphabet x g) = hbt_name g"
  "alphabet (add_symbol_to_alphabet x g) = insert x (alphabet g)"
  "state_vector (remove_symbol_from_alphabet x g) = state_vector g"
  "final_weight_map (remove_symbol_from_alphabet x g) = final_weight_map g"
  "hbt_name (remove_symbol_from_alphabet x g) = hbt_name g"
  "alphabet (remove_symbol_from_alphabet x g) = alphabet g - {x}"
  by (simp_all add: add_symbol_to_alphabet_def remove_symbol_from_alphabet_def)

lemma fold_alphabet_simps:
  "state_vector (fold add_symbol_to_alphabet xs g) = state_vector g"
  "final_weight_map (fold add_symbol_to_alphabet xs g) = final_weight_map g"
  "alphabet (fold add_symbol_to_alphabet xs g) = set xs \<union> alphabet g"
  "state_vector (fold remove_symbol_from_alphabet xs g) = state_vector g"
  "final_weight_map (fold remove_symbol_from_alphabet xs g) = final_weight_map g"
  "alphabet (fold remove_symbol_from_alphabet xs g) = alphabet g - set xs"
  by (induction xs arbitrary: g) auto

lemma fold_name:
  "hbt_name (fold add_symbol_to_alphabet xs g) = hbt_name g"
  "hbt_name (fold remove_symbol_from_alphabet xs g) = hbt_name g"
  "hbt.more (fold add_symbol_to_alphabet xs g) = hbt.more g"
  "hbt.more (fold remove_symbol_from_alphabet xs g) = hbt.more g"
  by (induction xs arbitrary: g)
     (auto simp: add_symbol_to_alphabet_def remove_symbol_from_alphabet_def)

lemma add_symbols_to_alphabet_simps [simp]:
  "state_vector (add_symbols_to_alphabet xs g) = state_vector g"
  "final_weight_map (add_symbols_to_alphabet xs g) = final_weight_map g"
  "finite xs \<Longrightarrow> alphabet (add_symbols_to_alphabet xs g) = xs \<union> alphabet g"
  by (simp_all add: add_symbols_to_alphabet_def fold_alphabet_simps)

lemma transitions_of_cong: "state_vector g = state_vector h \<Longrightarrow> transitions_of g = transitions_of h"
  by (simp add: transitions_of_def fun_eq_iff)

lemma symbol_to_alphabet_transitions [simp]:
  "transitions_of (add_symbol_to_alphabet x g) = transitions_of g"
  "transitions_of (remove_symbol_from_alphabet x g) = transitions_of g"
  "transitions_of (add_symbols_to_alphabet xs g) = transitions_of g"
  by (rule transitions_of_cong, simp)+

text \<open>What \<open>add_transition\<close> does, seen through the accessors.\<close>

lemma add_transition_simps:
  "length (state_vector (add_transition s tr b g)) =
     max (max (length (state_vector g)) (Suc s)) (Suc (tr_target tr))"
  "final_weight_map (add_transition s tr b g) = final_weight_map g"
  "alphabet (add_transition s tr b g) =
     (if b then insert (tr_output tr) (insert (tr_input tr) (alphabet g)) else alphabet g)"
  "transitions_of (add_transition s tr b g) t =
     (if t = s then transitions_of g s @ [tr] else transitions_of g t)"
proof -
  let ?g = "add_state (tr_target tr) (add_state s g)"
  have sv: "state_vector (add_transition s tr b g) =
      (state_vector ?g)[s := state_vector ?g ! s @ [tr]]"
    by (simp add: add_transition_def Let_def)
  show len: "length (state_vector (add_transition s tr b g)) =
     max (max (length (state_vector g)) (Suc s)) (Suc (tr_target tr))"
    by (simp add: sv)
  show "final_weight_map (add_transition s tr b g) = final_weight_map g"
    "alphabet (add_transition s tr b g) =
     (if b then insert (tr_output tr) (insert (tr_input tr) (alphabet g)) else alphabet g)"
    by (simp_all add: add_transition_def Let_def)
  have eq: "transitions_of ?g u = transitions_of g u" for u by simp
  have "s < length (state_vector ?g)" by simp
  moreover have "transitions_of (add_transition s tr b g) t =
      (if t = s \<and> s < length (state_vector ?g) then transitions_of ?g s @ [tr] else transitions_of ?g t)"
    by (auto simp: transitions_of_def sv nth_list_update)
  ultimately show "transitions_of (add_transition s tr b g) t =
     (if t = s then transitions_of g s @ [tr] else transitions_of g t)"
    by (simp add: eq)
qed

lemma add_transition_wf:
  assumes "wf_graph g" and "tr_input tr \<noteq> []" and "tr_output tr \<noteq> []"
  shows "wf_graph (add_transition s tr b g)"
proof -
  let ?n = "length (state_vector (add_transition s tr b g))"
  have mono: "length (state_vector g) \<le> ?n" "tr_target tr < ?n" "0 < ?n"
    by (simp_all add: add_transition_simps)
  have "wf_transition ?n t" if "t \<in> set (transitions_of (add_transition s tr b g) u)" for t u
    using that assms mono
    by (auto simp: add_transition_simps(4) wf_graph_iff intro: wf_transition_mono split: if_splits)
       (auto simp: wf_transition_def)
  moreover have "state_vector (add_transition s tr b g) \<noteq> []" using mono(3) by auto
  moreover have "dom (final_weight_map g) \<subseteq> {..<?n}"
    using assms(1) mono(1) unfolding wf_graph_iff by fastforce
  ultimately show ?thesis unfolding wf_graph_iff by (simp add: add_transition_simps(2))
qed

lemma add_new_state_simps:
  "transitions_of (snd (add_new_state g)) = transitions_of g"
  "final_weight_map (snd (add_new_state g)) = final_weight_map g"
  "alphabet (snd (add_new_state g)) = alphabet g"
  "length (state_vector (snd (add_new_state g))) = Suc (length (state_vector g))"
  "fst (add_new_state g) = length (state_vector g)"
  by (auto simp: add_new_state_def Let_def transitions_of_def nth_append fun_eq_iff)

lemma set_final_weight_simps:
  "length (state_vector (set_final_weight s w g)) = max (length (state_vector g)) (Suc s)"
  "transitions_of (set_final_weight s w g) t = transitions_of g t"
  "final_weight_map (set_final_weight s w g) = (final_weight_map g)(s \<mapsto> w)"
  "alphabet (set_final_weight s w g) = alphabet g"
  using transitions_of_cong [of "set_final_weight s w g" "add_state s g"] add_state_simps(5) [of s g t]
  by (simp_all add: set_final_weight_def Let_def)

lemma wf_graph_more_states:
  assumes "wf_graph g" and "length (state_vector g) \<le> length (state_vector h)"
    and "\<And>s. set (transitions_of h s) \<subseteq> set (transitions_of g s)"
    and "dom (final_weight_map h) \<subseteq> {..<length (state_vector h)}"
  shows "wf_graph h"
proof -
  have g: "\<And>s tr. tr \<in> set (transitions_of g s) \<Longrightarrow> wf_transition (length (state_vector g)) tr"
    "state_vector g \<noteq> []" using assms(1) by (auto simp: wf_graph_iff)
  then have "wf_transition (length (state_vector h)) tr" if "tr \<in> set (transitions_of h s)" for tr s
    using that assms(2,3) by (blast intro: wf_transition_mono)
  moreover have "state_vector h \<noteq> []" using g(2) assms(2) by auto
  ultimately show ?thesis using assms(4) by (simp add: wf_graph_iff)
qed

lemma set_final_weight_wf: "wf_graph g \<Longrightarrow> wf_graph (set_final_weight s w g)"
  by (rule wf_graph_more_states [of g]) (auto simp: set_final_weight_simps wf_graph_iff)

lemma collect_insert:
  "collect_transitions (\<lambda>tr r. insert (f tr) r) g r =
     r \<union> {f tr | tr s. tr \<in> set (transitions_of g s)}"
proof -
  have inner: "fold (\<lambda>tr r. insert (f tr) r) trs r = r \<union> f ` set trs" for trs r
    by (induction trs arbitrary: r) auto
  have outer: "fold (fold (\<lambda>tr r. insert (f tr) r)) sv r = r \<union> {f tr | tr. \<exists>trs \<in> set sv. tr \<in> set trs}"
    for sv r by (induction sv arbitrary: r) (auto simp: inner)
  show ?thesis
    unfolding collect_transitions_def outer in_state_vector by auto
qed

lemma symbols_used_eq:
  "symbols_used g = {x. \<exists>s. \<exists>tr \<in> set (transitions_of g s). x = tr_input tr \<or> x = tr_output tr}"
proof -
  have inner: "fold (\<lambda>tr r. insert (tr_output tr) (insert (tr_input tr) r)) trs r =
      r \<union> tr_input ` set trs \<union> tr_output ` set trs" for trs :: "'a transition list" and r
    by (induction trs arbitrary: r) auto
  have outer: "fold (fold (\<lambda>tr r. insert (tr_output tr) (insert (tr_input tr) r))) sv r =
      r \<union> {x. \<exists>tr. (\<exists>trs \<in> set sv. tr \<in> set trs) \<and> (x = tr_input tr \<or> x = tr_output tr)}"
    for sv :: "'a transition list list" and r
    by (induction sv arbitrary: r) (auto simp: inner)
  show ?thesis
    unfolding symbols_used_def collect_transitions_def outer in_state_vector by auto
qed

lemma finite_symbols_used [simp]: "finite (symbols_used g)"
proof -
  have "symbols_used g \<subseteq> (\<Union>trs \<in> set (state_vector g). tr_input ` set trs \<union> tr_output ` set trs)"
    unfolding symbols_used_eq using in_state_vector [of g] by blast
  then show ?thesis by (rule finite_subset) auto
qed

lemma check_alphabet_iff: "check_alphabet g \<longleftrightarrow> symbols_used g \<subseteq> alphabet g"
  using in_state_vector [of g] unfolding check_alphabet_def symbols_used_eq list_all_iff by auto

lemma wf_alphabet_used:
  "wf_alphabet g \<longleftrightarrow> finite (alphabet g) \<and> [] \<notin> alphabet g \<and>
     symbols_used g \<subseteq> alphabet g"
  unfolding wf_alphabet_iff symbols_used_eq by blast

section \<open>Paths\<close>

text \<open>A path is a list of transitions, each leaving the target of the one before.\<close>

fun path :: "'w hbt \<Rightarrow> nat \<Rightarrow> 'w transition list \<Rightarrow> nat \<Rightarrow> bool" where
  "path g p [] q = (p = q)"
| "path g p (tr # ts) q = (tr \<in> set (transitions_of g p) \<and> path g (tr_target tr) ts q)"

definition accepts :: "'w hbt \<Rightarrow> string_pair list \<Rightarrow> bool" where
  "accepts g ps \<longleftrightarrow> (\<exists>ts q. path g 0 ts q \<and> is_final_state q g \<and>
     ps = map (\<lambda>tr. (tr_input tr, tr_output tr)) ts)"

lemma path_append: "path g p (ts @ us) q \<longleftrightarrow> (\<exists>r. path g p ts r \<and> path g r us q)"
  by (induction ts arbitrary: p) auto

lemma path_bounds:
  "wf_graph g \<Longrightarrow> p < length (state_vector g) \<Longrightarrow> path g p ts q \<Longrightarrow> q < length (state_vector g)"
  by (induction ts arbitrary: p) (auto dest: wf_graph_target)

lemma path_cong: "transitions_of g = transitions_of h \<Longrightarrow> path g p ts q = path h p ts q"
  by (induction ts arbitrary: p) auto

section \<open>Swapping two states\<close>

definition swap_target :: "nat \<Rightarrow> nat \<Rightarrow> 'w transition \<Rightarrow> 'w transition" where
  "swap_target s1 s2 tr =
     (let t = tr_target tr;
          n1 = (if t = s1 then s2 else t);
          n2 = (if t = s2 then s1 else n1)
      in if n2 \<noteq> t then tr\<lparr>tr_target := n2\<rparr> else tr)"

text \<open>The three conditionals on the final weights, in order; both iterators are taken before
  them, and erasing \<open>s1\<close> invalidates the second one when \<open>s1 = s2\<close>.\<close>

definition swap_final_weights :: "nat \<Rightarrow> nat \<Rightarrow> (nat \<rightharpoonup> 'w) \<Rightarrow> (nat \<rightharpoonup> 'w) result" where
  "swap_final_weights s1 s2 m =
     (let f1 = m s1 \<noteq> None; f2 = m s2 \<noteq> None;
          m1 = (if f1 \<and> f2 then m(s1 := m s2, s2 := m s1) else m);
          m2 = (if f1 then (m1(s1 := None))(s2 := m1 s1) else m1)
      in if f2 then (if f1 \<and> s1 = s2 then Inl UndefinedBehaviour
                     else Inr ((m2(s2 := None))(s1 := m2 s2)))
         else Inr m2)"

definition swap_state_numbers :: "nat \<Rightarrow> nat \<Rightarrow> 'w hbt \<Rightarrow> 'w hbt result" where
  "swap_state_numbers s1 s2 g =
     (let sv = state_vector g in
      if \<not> (s1 < length sv \<and> s2 < length sv) then Inl UndefinedBehaviour
      else let sv1 = sv[s1 := sv ! s2]; sv2 = sv1[s2 := sv ! s1];
               sv3 = map (map (swap_target s1 s2)) sv2
           in rmap (\<lambda>m. g\<lparr>state_vector := sv3, final_weight_map := m\<rparr>)
                (swap_final_weights s1 s2 (final_weight_map g)))"

definition swapped :: "nat \<Rightarrow> nat \<Rightarrow> nat \<Rightarrow> nat" where
  "swapped s1 s2 s = (if s = s1 then s2 else if s = s2 then s1 else s)"

lemma swap_target_eq: "swap_target s1 s2 tr = tr\<lparr>tr_target := swapped s1 s2 (tr_target tr)\<rparr>"
  by (cases tr) (auto simp: swap_target_def swapped_def Let_def)

lemma swapped_involution [simp]: "swapped s1 s2 (swapped s1 s2 s) = s"
  by (simp add: swapped_def)

lemma swap_final_weights_one:
  assumes "s1 \<noteq> s2" and "m s1 = None \<or> m s2 = None"
  shows "swap_final_weights s1 s2 m = Inr (\<lambda>s. m (swapped s1 s2 s))"
  using assms
  by (cases "m s1"; cases "m s2") (auto simp: swap_final_weights_def swapped_def fun_eq_iff)

lemma swap_state_numbers_transitions:
  assumes "swap_state_numbers s1 s2 g = Inr g'"
  shows "length (state_vector g') = length (state_vector g) \<and> alphabet g' = alphabet g \<and>
     transitions_of g' s = map (swap_target s1 s2) (transitions_of g (swapped s1 s2 s))"
  using assms
  by (auto simp: swap_state_numbers_def Let_def result_simps transitions_of_def swapped_def
      nth_list_update split: if_splits)

section \<open>Properties\<close>

lemma wf_alphabet_more:
  assumes "wf_alphabet g" and "finite (alphabet h)" and "[] \<notin> alphabet h"
    and "symbols_used h \<subseteq> alphabet h"
  shows "wf_alphabet h"
  using assms by (simp add: wf_alphabet_used)

lemma symbols_used_mono:
  "(\<And>s. set (transitions_of h s) \<subseteq> set (transitions_of g s)) \<Longrightarrow> symbols_used h \<subseteq> symbols_used g"
  unfolding symbols_used_eq by blast

lemma add_transition_wf_alphabet:
  assumes "wf_alphabet g" and "tr_input tr \<noteq> []" and "tr_output tr \<noteq> []"
  shows "wf_alphabet (add_transition s tr True g)"
  using assms unfolding wf_alphabet_iff by (auto simp: add_transition_simps split: if_splits)

lemma remove_transition_simps:
  "length (state_vector (remove_transition s tr b g)) = length (state_vector g)"
  "transitions_of (remove_transition s tr b g) t =
     (if t = s then filter (\<lambda>it. \<not> same_ignoring_weight it tr) (transitions_of g s)
      else transitions_of g t)"
  "final_weight_map (remove_transition s tr b g) = final_weight_map g"
  by (auto simp: remove_transition_def Let_def transitions_of_def nth_list_update)

lemma remove_transition_alphabet:
  "alphabet (remove_transition s tr b g) =
     (if b \<and> s < length (state_vector g)
      then alphabet g - ({tr_input tr, tr_output tr} - symbols_used (remove_transition s tr b g))
      else alphabet g)"
proof (cases "b \<and> s < length (state_vector g)")
  case True
  let ?g1 = "g\<lparr>state_vector := (state_vector g)[s :=
      filter (\<lambda>it. \<not> same_ignoring_weight it tr) (state_vector g ! s)]\<rparr>"
  have "state_vector (remove_transition s tr b g) = state_vector ?g1"
    using True by (simp add: remove_transition_def Let_def)
  then have "symbols_used (remove_transition s tr b g) = symbols_used ?g1"
    by (simp only: symbols_used_def collect_transitions_def)
  moreover obtain U where U: "symbols_used ?g1 = U" by blast
  moreover have "alphabet (remove_transition s tr b g) =
      alphabet g - ({tr_input tr, tr_output tr} - U)"
    using True U by (cases "tr_input tr \<in> U"; cases "tr_output tr \<in> U")
      (auto simp: remove_transition_def Let_def)
  ultimately show ?thesis using True by simp
next
  case False
  then show ?thesis by (auto simp: remove_transition_def Let_def)
qed

lemma symbols_used_sv: "state_vector h = state_vector g \<Longrightarrow> symbols_used h = symbols_used g"
  by (simp add: symbols_used_def collect_transitions_def)

lemma remove_symbols_eq: "finite X \<Longrightarrow> remove_symbols_from_alphabet X g = g\<lparr>alphabet := alphabet g - X\<rparr>"
  by (rule hbt.equality) (simp_all add: remove_symbols_from_alphabet_def fold_alphabet_simps fold_name)

lemma prune_alphabet_eq:
  assumes "finite (alphabet g)"
  shows "prune_alphabet force g =
    (if \<not> force \<and> (internal_unknown \<in> symbols_used g \<or> internal_identity \<in> symbols_used g) then g
     else g\<lparr>alphabet := alphabet g \<inter> initialize_alphabet (symbols_used g)\<rparr>)"
proof -
  have "remove_symbols_from_alphabet X g = g\<lparr>alphabet := alphabet g - X\<rparr>" if "finite X" for X
    using that by (intro hbt.equality)
      (simp_all add: remove_symbols_from_alphabet_def fold_alphabet_simps fold_name)
  moreover have "alphabet g - {s \<in> alphabet g. s \<notin> Y} = alphabet g \<inter> Y" for Y by blast
  ultimately show ?thesis using assms by (simp add: prune_alphabet_def Let_def)
qed

text \<open>C37. The operations that build a graph keep it well-formed: targets and final states exist,
  symbols are non-empty and in the alphabet.\<close>

theorem building_keeps_wf:
  assumes "wf_hbt g" and "new_transition t i out w = Inr tr"
  shows "wf_hbt (add_state s g) \<and> wf_hbt (add_transition s tr True g) \<and>
     wf_hbt (set_final_weight s fw g) \<and> wf_hbt (remove_final_weight s g) \<and>
     wf_hbt (remove_transition s tr b g) \<and> wf_hbt (prune_alphabet force g)"
proof -
  have g: "wf_graph g" "wf_alphabet g" using assms(1) by (simp_all add: wf_hbt_def)
  have tr: "tr_input tr \<noteq> []" "tr_output tr \<noteq> []"
    using assms(2) by (auto simp: new_transition_def split: if_splits)
  have 1: "wf_hbt (add_state s g)"
    unfolding wf_hbt_def
  proof
    show "wf_graph (add_state s g)"
      using g(1) by (intro wf_graph_more_states [OF g(1)]) (auto simp: wf_graph_iff)
    show "wf_alphabet (add_state s g)" using g(2) by (simp add: wf_alphabet_iff)
  qed
  have 2: "wf_hbt (add_transition s tr True g)"
    unfolding wf_hbt_def using add_transition_wf [OF g(1) tr] add_transition_wf_alphabet [OF g(2) tr]
    by simp
  have 3: "wf_hbt (set_final_weight s fw g)"
    unfolding wf_hbt_def using set_final_weight_wf [OF g(1)] g(2)
    by (simp add: wf_alphabet_iff set_final_weight_simps)
  have 4: "wf_hbt (remove_final_weight s g)"
    unfolding wf_hbt_def
  proof
    have "transitions_of (remove_final_weight s g) = transitions_of g"
      by (rule transitions_of_cong) (simp add: remove_final_weight_def)
    then show "wf_graph (remove_final_weight s g)" "wf_alphabet (remove_final_weight s g)"
      using g by (auto simp: wf_graph_iff wf_alphabet_iff remove_final_weight_def)
  qed
  let ?r = "remove_transition s tr b g"
  have sub: "set (transitions_of ?r u) \<subseteq> set (transitions_of g u)" for u
    by (auto simp: remove_transition_simps)
  have 5: "wf_hbt ?r"
    unfolding wf_hbt_def
  proof
    show "wf_graph ?r"
      using g(1) sub by (intro wf_graph_more_states [OF g(1)])
        (auto simp: remove_transition_simps(1,3) wf_graph_iff)
    have "symbols_used ?r \<subseteq> alphabet g"
      using symbols_used_mono [of ?r g, OF sub] g(2) by (auto simp: wf_alphabet_used)
    then show "wf_alphabet ?r"
      using g(2) by (auto simp: wf_alphabet_used remove_transition_alphabet)
  qed
  have 6: "wf_hbt (prune_alphabet force g)"
  proof -
    have fin: "finite (alphabet g)" using g(2) by (simp add: wf_alphabet_iff)
    let ?h = "g\<lparr>alphabet := alphabet g \<inter> initialize_alphabet (symbols_used g)\<rparr>"
    have "transitions_of ?h = transitions_of g" by (rule transitions_of_cong) simp
    moreover have "symbols_used ?h = symbols_used g" by (rule symbols_used_sv) simp
    ultimately have "wf_hbt ?h"
      using g unfolding wf_hbt_def wf_graph_iff wf_alphabet_used initialize_alphabet_def by auto
    with assms(1) show ?thesis by (simp add: prune_alphabet_eq [OF fin])
  qed
  from 1 2 3 4 5 6 show ?thesis by blast
qed

lemma building_keeps_wf_witness:
  "wf_hbt (add_transition 3 \<lparr>tr_target = 1, tr_input = ''a'', tr_output = ''b'', tr_weight = 0 :: int\<rparr>
     True new_hbt)"
  by (rule building_keeps_wf [of new_hbt 1 "''a''" "''b''" 0, THEN conjunct2, THEN conjunct1])
     (simp_all add: wf_hbt_def wf_graph_def wf_alphabet_def new_hbt_def new_transition_def
       initialize_alphabet_def)

text \<open>\<open>prune_alphabet\<close> leaves in the alphabet exactly the symbols that occur in transitions
  and the special symbols; without \<open>force\<close> it does nothing when unknown or identity occurs.\<close>

theorem prune_alphabet_correct:
  assumes "wf_hbt g" and "initialize_alphabet {} \<subseteq> alphabet g"
  shows "prune_alphabet force g =
    (if \<not> force \<and> (internal_unknown \<in> symbols_used g \<or> internal_identity \<in> symbols_used g) then g
     else g\<lparr>alphabet := initialize_alphabet (symbols_used g)\<rparr>)"
proof -
  have "alphabet g \<inter> initialize_alphabet (symbols_used g) = initialize_alphabet (symbols_used g)"
    using assms by (auto simp: wf_hbt_def wf_alphabet_used initialize_alphabet_def)
  with assms show ?thesis by (simp add: prune_alphabet_eq wf_hbt_def wf_alphabet_used)
qed

lemma prune_alphabet_correct_witness:
  "prune_alphabet True (new_hbt :: int hbt) = new_hbt"
  using prune_alphabet_correct [of "new_hbt :: int hbt" True]
  by (simp add: wf_hbt_def wf_graph_def wf_alphabet_def new_hbt_def initialize_alphabet_def
      symbols_used_def collect_transitions_def)

text \<open>Swapping two different states of which at most one is final renames them: each state
  gets the other's transitions with renamed targets, and the final weight moves along.\<close>

theorem swap_state_numbers_renames:
  assumes "s1 < length (state_vector g)" and "s2 < length (state_vector g)" and "s1 \<noteq> s2"
    and "\<not> (is_final_state s1 g \<and> is_final_state s2 g)"
  shows "\<exists>g'. swap_state_numbers s1 s2 g = Inr g' \<and>
     length (state_vector g') = length (state_vector g) \<and>
     (\<forall>s. transitions_of g' (swapped s1 s2 s) =
        map (\<lambda>tr. tr\<lparr>tr_target := swapped s1 s2 (tr_target tr)\<rparr>) (transitions_of g s) \<and>
        final_weight_map g' (swapped s1 s2 s) = final_weight_map g s)"
proof -
  have "swap_final_weights s1 s2 (final_weight_map g) =
      Inr (\<lambda>s. final_weight_map g (swapped s1 s2 s))"
    using assms by (intro swap_final_weights_one) (auto simp: is_final_state_def)
  then obtain g' where g': "swap_state_numbers s1 s2 g = Inr g'"
    "final_weight_map g' = (\<lambda>s. final_weight_map g (swapped s1 s2 s))"
    using assms by (simp add: swap_state_numbers_def Let_def)
  with swap_state_numbers_transitions [OF g'(1)] show ?thesis
    by (auto simp: swap_target_eq [abs_def])
qed

lemma swap_state_numbers_renames_witness:
  "\<exists>g'. swap_state_numbers 0 1 (set_final_weight 1 (2 :: int) new_hbt) = Inr g' \<and>
     final_weight_map g' (swapped 0 1 1) = Some 2"
  using swap_state_numbers_renames [of 0 "set_final_weight 1 (2 :: int) new_hbt" 1]
  by (auto simp: set_final_weight_simps is_final_state_def new_hbt_def)

text \<open>When both states are final, the final weights are not swapped: the second one stops
  being final and the first gets the second one's weight.\<close>

theorem swap_state_numbers_loses_final:
  assumes "s1 < length (state_vector g)" and "s2 < length (state_vector g)" and "s1 \<noteq> s2"
    and "is_final_state s1 g" and "is_final_state s2 g"
  shows "\<exists>g'. swap_state_numbers s1 s2 g = Inr g' \<and> \<not> is_final_state s2 g' \<and>
     final_weight_map g' s1 = final_weight_map g s2"
  using assms by (auto simp: swap_state_numbers_def swap_final_weights_def is_final_state_def Let_def)

lemma swap_state_numbers_loses_final_witness:
  "\<exists>g'. swap_state_numbers 0 1 (set_final_weight 0 (3 :: int) (set_final_weight 1 2 new_hbt)) = Inr g' \<and>
     \<not> is_final_state 1 g'"
  using swap_state_numbers_loses_final
      [of 0 "set_final_weight 0 (3 :: int) (set_final_weight 1 2 new_hbt)" 1]
  by (auto simp: set_final_weight_simps is_final_state_def new_hbt_def)

end
