(* ===== verification/AttFormat.thy ===== *)
theory AttFormat
  imports BasicTransducer Tokenizer
begin

text \<open>
  The AT&T text format of \<open>HfstBasicTransducer.cc\<close> (lines 1419 to 1736): the writers and the
  line-by-line reader. Files and streams are strings. The members of the C library that the
  code uses are defined here (\<open>fgets\<close> with its buffer of 255 bytes, \<open>sscanf\<close> with \<open>%s\<close> into
  arrays of 100 bytes, \<open>printf\<close> of integers, \<open>atoi\<close>); printing and reading of floating-point
  weights (\<open>%f\<close>, \<open>operator<<\<close>, \<open>atof\<close>) are the parameters \<open>pw\<close> and \<open>rw\<close>. A field that does
  not fit its array is \<open>UndefinedBehaviour\<close>.
\<close>

section \<open>The C library\<close>

definition isspace :: "char \<Rightarrow> bool" where
  "isspace c \<longleftrightarrow> c = CHR '' '' \<or> c = CHR 0x09 \<or> c = CHR 0x0A \<or> c = CHR 0x0B \<or> c = CHR 0x0C \<or>
     c = CHR 0x0D"

definition digit_char :: "nat \<Rightarrow> char" where
  "digit_char n = char_of (48 + n)"

fun show_nat :: "nat \<Rightarrow> string" where
  "show_nat n = (if n < 10 then [digit_char n] else show_nat (n div 10) @ [digit_char (n mod 10)])"

declare show_nat.simps [simp del]

text \<open>\<open>printf("%i")\<close> of an unsigned value prints the int with the same bits.\<close>

definition print_i :: "nat \<Rightarrow> string" where
  "print_i n =
     (let i = unsigned_to_int (to_unsigned n)
      in if i < 0 then CHR ''-'' # show_nat (nat (- i)) else show_nat (nat i))"

definition is_digit :: "char \<Rightarrow> bool" where
  "is_digit c \<longleftrightarrow> 48 \<le> (of_char c :: nat) \<and> (of_char c :: nat) \<le> 57"

definition digits_value :: "string \<Rightarrow> nat" where
  "digits_value ds = fold (\<lambda>c n. 10 * n + (of_char c - 48)) ds 0"

text \<open>\<open>atoi\<close>, and its conversion to an unsigned state number; out of range is undefined.\<close>

definition atoi :: "string \<Rightarrow> int result" where
  "atoi s =
     (let t = dropWhile isspace s;
          neg = (t \<noteq> [] \<and> hd t = CHR ''-'');
          u = (if t \<noteq> [] \<and> (hd t = CHR ''-'' \<or> hd t = CHR ''+'') then tl t else t);
          n = digits_value (takeWhile is_digit u);
          i = (if neg then - int n else int n)
      in if i < - 2147483648 \<or> i > 2147483647 then Inl UndefinedBehaviour else Inr i)"

definition atoi_state :: "string \<Rightarrow> nat result" where
  "atoi_state s = rmap (\<lambda>i. nat (i mod 4294967296)) (atoi s)"

text \<open>The whitespace-separated fields of a line; \<open>sscanf\<close> stores at most five of them.\<close>

function fields_of :: "string \<Rightarrow> string list" where
  "fields_of s =
     (case dropWhile isspace s of
        [] \<Rightarrow> []
      | c # cs \<Rightarrow> (c # takeWhile (\<lambda>d. \<not> isspace d) cs) # fields_of (dropWhile (\<lambda>d. \<not> isspace d) cs))"
  by pat_completeness auto
termination
proof (relation "measure length", simp)
  fix s c cs
  assume "dropWhile isspace s = c # cs"
  then have "Suc (length cs) \<le> length s" by (metis length_Cons length_dropWhile_le)
  moreover have "length (dropWhile (\<lambda>d. \<not> isspace d) cs) \<le> length cs" by (rule length_dropWhile_le)
  ultimately show "(dropWhile (\<lambda>d. \<not> isspace d) cs, s) \<in> measure length" by simp
qed

declare fields_of.simps [simp del]

definition sscanf_fields :: "string \<Rightarrow> string list result" where
  "sscanf_fields line =
     (let fs = take 5 (fields_of line)
      in if list_all (\<lambda>f. length f < 100) fs then Inr fs else Inl UndefinedBehaviour)"

text \<open>\<open>fgets\<close> reads at most \<open>k\<close> characters, up to and including a newline.\<close>

fun fgets_chunk :: "nat \<Rightarrow> string \<Rightarrow> string \<times> string" where
  "fgets_chunk 0 s = ([], s)"
| "fgets_chunk (Suc k) [] = ([], [])"
| "fgets_chunk (Suc k) (c # cs) =
     (if c = CHR 0x0A then ([c], cs)
      else let (a, b) = fgets_chunk k cs in (c # a, b))"

lemma fgets_chunk_append: "fgets_chunk k s = (a, b) \<Longrightarrow> s = a @ b"
  by (induction k s arbitrary: a b rule: fgets_chunk.induct) (auto split: if_splits prod.splits)

lemma fgets_chunk_nonempty: "0 < k \<Longrightarrow> s \<noteq> [] \<Longrightarrow> fst (fgets_chunk k s) \<noteq> []"
  by (cases k; cases s) (auto split: prod.splits)

definition fgets_255 :: "string \<Rightarrow> (string \<times> string) option" where
  "fgets_255 s = (if s = [] then None else Some (fgets_chunk 254 s))"

lemma fgets_255_decreases: "fgets_255 s = Some (l, r) \<Longrightarrow> length r < length s"
proof -
  assume "fgets_255 s = Some (l, r)"
  then have "s \<noteq> []" and c: "fgets_chunk 254 s = (l, r)" by (auto simp: fgets_255_def split: if_splits)
  then have "l \<noteq> []" using fgets_chunk_nonempty [of 254 s] by simp
  with fgets_chunk_append [OF c] show ?thesis by simp
qed

section \<open>Writing\<close>

definition att_escape :: "string \<Rightarrow> string result" where
  "att_escape symbol =
     rbind (of_option (replace_all symbol '' '' ''@_SPACE_@'')) (\<lambda>s1.
     rbind (of_option (replace_all s1 internal_epsilon ''@0@'')) (\<lambda>s2.
     of_option (replace_all s2 [CHR 0x09] ''@_TAB_@'')))"

text \<open>The line of a transition and of a final state; \<open>pn\<close> prints a state number (\<open>%i\<close> for a
  \<open>FILE\<close>, \<open>operator<<\<close> for a stream), \<open>ps\<close> a symbol (\<open>%s\<close>, which stops at a NUL byte, or all of
  it), \<open>pw\<close> a weight.\<close>

definition att_arc_line ::
  "(nat \<Rightarrow> string) \<Rightarrow> (string \<Rightarrow> string) \<Rightarrow> ('w \<Rightarrow> string) \<Rightarrow> bool \<Rightarrow> nat \<Rightarrow> 'w transition \<Rightarrow> string result" where
  "att_arc_line pn ps pw write_weights source_state tr =
     rbind (att_escape (tr_input tr)) (\<lambda>isymbol.
     rbind (att_escape (tr_output tr)) (\<lambda>osymbol.
     Inr (pn source_state @ [CHR 0x09] @ pn (tr_target tr) @ [CHR 0x09] @ ps isymbol @ [CHR 0x09] @
          ps osymbol @ (if write_weights then [CHR 0x09] @ pw (tr_weight tr) else []) @ [CHR 0x0A])))"

definition att_final_line ::
  "(nat \<Rightarrow> string) \<Rightarrow> ('w \<Rightarrow> string) \<Rightarrow> bool \<Rightarrow> nat \<Rightarrow> 'w hbt \<Rightarrow> string result" where
  "att_final_line pn pw write_weights s g =
     (if is_final_state s g
      then if write_weights
           then rmap (\<lambda>w. pn s @ [CHR 0x09] @ pw w @ [CHR 0x0A]) (get_final_weight s g)
           else Inr (pn s @ [CHR 0x0A])
      else Inr [])"

definition write_att ::
  "(nat \<Rightarrow> string) \<Rightarrow> (string \<Rightarrow> string) \<Rightarrow> ('w \<Rightarrow> string) \<Rightarrow> bool \<Rightarrow> 'w hbt \<Rightarrow> string result" where
  "write_att pn ps pw write_weights g =
     rfold (\<lambda>s os.
       rbind (rfold (\<lambda>tr os. rmap (\<lambda>l. os @ l) (att_arc_line pn ps pw write_weights s tr))
                (state_vector g ! s) os) (\<lambda>os'.
         rmap (\<lambda>l. os' @ l) (att_final_line pn pw write_weights s g)))
       [0..<length (state_vector g)] []"

definition write_in_att_format_stream :: "('w \<Rightarrow> string) \<Rightarrow> bool \<Rightarrow> 'w hbt \<Rightarrow> string result" where
  "write_in_att_format_stream pw write_weights g = write_att show_nat (\<lambda>s. s) pw write_weights g"

definition write_in_att_format_file :: "('w \<Rightarrow> string) \<Rightarrow> bool \<Rightarrow> 'w hbt \<Rightarrow> string result" where
  "write_in_att_format_file pw write_weights g = write_att print_i c_str pw write_weights g"

text \<open>Writing into memory: \<open>sprintf\<close> stores the characters and a terminating 0 at an offset.
  The state is the buffer, \<open>cwt\<close> and \<open>cw\<close>; note that \<open>cw\<close> is added to \<open>cwt\<close> also when the
  weight was not printed.\<close>

definition sprintf_at :: "nat \<Rightarrow> string \<Rightarrow> (nat \<Rightarrow> char) \<Rightarrow> (nat \<Rightarrow> char)" where
  "sprintf_at off s buf =
     (\<lambda>i. if off \<le> i \<and> i < off + length s then s ! (i - off)
          else if i = off + length s then CHR 0x00 else buf i)"

definition sprintf_step :: "string \<Rightarrow> (nat \<Rightarrow> char) \<times> nat \<times> nat \<Rightarrow> (nat \<Rightarrow> char) \<times> nat \<times> nat" where
  "sprintf_step s = (\<lambda>(buf, cwt, cw). (sprintf_at cwt s buf, cwt, length s))"

definition advance :: "(nat \<Rightarrow> char) \<times> nat \<times> nat \<Rightarrow> (nat \<Rightarrow> char) \<times> nat \<times> nat" where
  "advance = (\<lambda>(buf, cwt, cw). (buf, cwt + cw, cw))"

definition ptr_line ::
  "string \<Rightarrow> bool \<Rightarrow> string \<Rightarrow> (nat \<Rightarrow> char) \<times> nat \<times> nat \<Rightarrow> (nat \<Rightarrow> char) \<times> nat \<times> nat" where
  "ptr_line txt write_weights weight st =
     (let st1 = advance (sprintf_step txt st);
          st2 = (if write_weights then sprintf_step ([CHR 0x09] @ weight) st1 else st1);
          st3 = advance st2
      in advance (sprintf_step [CHR 0x0A] st3))"

definition write_in_att_format_ptr ::
  "('w \<Rightarrow> string) \<Rightarrow> bool \<Rightarrow> 'w hbt \<Rightarrow> (nat \<Rightarrow> char) \<Rightarrow> ((nat \<Rightarrow> char) \<times> nat \<times> nat) result" where
  "write_in_att_format_ptr pw write_weights g ptr =
     rfold (\<lambda>s st.
       rbind (rfold (\<lambda>tr st.
           rbind (att_escape (tr_input tr)) (\<lambda>isymbol.
           rbind (att_escape (tr_output tr)) (\<lambda>osymbol.
           Inr (ptr_line (print_i s @ [CHR 0x09] @ print_i (tr_target tr) @ [CHR 0x09] @
                  c_str isymbol @ [CHR 0x09] @ c_str osymbol) write_weights (pw (tr_weight tr)) st))))
           (state_vector g ! s) st) (\<lambda>st'.
         if is_final_state s g
         then rmap (\<lambda>w. ptr_line (print_i s) write_weights (pw w) st')
                (if write_weights then get_final_weight s g else Inr (the (final_weight_map g s)))
         else Inr st'))
       [0..<length (state_vector g)] (ptr, 0, 0)"

text \<open>The variant with symbol numbers prints the line of the final state after every transition.\<close>

definition write_in_att_format_number ::
  "symtab \<Rightarrow> ('w \<Rightarrow> string) \<Rightarrow> bool \<Rightarrow> 'w hbt \<Rightarrow> string result" where
  "write_in_att_format_number tab pw write_weights g =
     rfold (\<lambda>s os.
       rfold (\<lambda>tr os.
         (let arc = arc_data (encode_transition tab tr) in
          rmap (\<lambda>l. os @ print_i s @ [CHR 0x09] @ print_i (tr_target tr) @ [CHR 0x09] @
                   print_i (input_number arc) @ [CHR 0x09] @ print_i (output_number arc) @
                   (if write_weights then [CHR 0x09] @ pw (tr_weight tr) else []) @ [CHR 0x0A] @ l)
            (att_final_line print_i pw write_weights s g)))
         (state_vector g ! s) os)
       [0..<length (state_vector g)] []"

section \<open>Reading\<close>

definition att_unescape :: "string \<Rightarrow> string result" where
  "att_unescape symbol =
     rbind (of_option (replace_all symbol ''@_SPACE_@'' '' '')) (\<lambda>s1.
     rbind (of_option (replace_all s1 ''@0@'' internal_epsilon)) (\<lambda>s2.
     rbind (of_option (replace_all s2 ''@_TAB_@'' [CHR 0x09])) (\<lambda>s3.
     of_option (replace_all s3 ''@_COLON_@'' '':''))))"

definition add_att_line ::
  "(string \<Rightarrow> 'w) \<Rightarrow> string \<Rightarrow> string \<Rightarrow> 'w::zero hbt \<Rightarrow> (bool \<times> 'w hbt) result" where
  "add_att_line rw line epsilon_symbol g =
     rbind (sscanf_fields line) (\<lambda>a.
       let n = length a;
           weight = (if n = 5 then rw (a ! 4) else if n = 2 then rw (a ! 1) else 0)
       in if n = 1 \<or> n = 2
          then rmap (\<lambda>s. (True, set_final_weight s weight g)) (atoi_state (a ! 0))
          else if n = 4 \<or> n = 5 then
            rbind (att_unescape (a ! 2)) (\<lambda>i0.
            rbind (att_unescape (a ! 3)) (\<lambda>o0.
            let input_symbol = (if epsilon_symbol = i0 then internal_epsilon else i0);
                output_symbol = (if epsilon_symbol = o0 then internal_epsilon else o0)
            in rbind (atoi_state (a ! 1)) (\<lambda>target.
               rbind (new_transition target input_symbol output_symbol weight) (\<lambda>tr.
               rmap (\<lambda>s. (True, add_transition s tr True g)) (atoi_state (a ! 0))))))
          else Inr (False, g))"

definition att_empty_line :: "string \<Rightarrow> bool" where
  "att_empty_line line \<longleftrightarrow> line = [] \<or> line = [CHR 0x0A] \<or> line = [CHR 0x0D, CHR 0x0A]"

text \<open>The reading loop over a \<open>FILE\<close>: the content that is left, the line count, the graph. A
  line is seen as a C string, up to its first 0.\<close>

function read_att_loop ::
  "(string \<Rightarrow> 'w) \<Rightarrow> string \<Rightarrow> string \<Rightarrow> nat \<Rightarrow> 'w::zero hbt \<Rightarrow> ('w hbt \<times> string \<times> nat) result" where
  "read_att_loop rw epsilon_symbol content linecount g =
     (case fgets_255 content of
        None \<Rightarrow> Inr (g, content, linecount)
      | Some (l, rest) \<Rightarrow>
          (let line = c_str l in
           if att_empty_line line then Inr (g, tl rest, linecount + 1)
           else if hd line = CHR ''-'' then Inr (g, rest, linecount + 1)
           else (case add_att_line rw line epsilon_symbol g of
                   Inl e \<Rightarrow> Inl e
                 | Inr (ok, g') \<Rightarrow>
                     if \<not> ok then Inl NotValidAttFormatException
                     else read_att_loop rw epsilon_symbol rest (linecount + 1) g')))"
  by pat_completeness auto
termination
  by (relation "measure (\<lambda>(rw, e, content, n, g). length content)") (auto dest: fgets_255_decreases)

declare read_att_loop.simps [simp del]

definition read_in_att_format_file ::
  "(string \<Rightarrow> 'w) \<Rightarrow> bool \<Rightarrow> string \<Rightarrow> string \<Rightarrow> nat \<Rightarrow> ('w::zero hbt \<times> string \<times> nat) result" where
  "read_in_att_format_file rw at_eof content epsilon_symbol linecount =
     (if at_eof then Inl EndOfStreamException
      else read_att_loop rw epsilon_symbol content linecount new_hbt)"

text \<open>The same over an \<open>istream\<close>. \<open>getline\<close> drops the newline; it sets \<open>eof\<close> only when the
  content ends before one, and the code leaves the loop unless \<open>eof\<close> is set.\<close>

definition getline_255 :: "bool \<Rightarrow> string \<Rightarrow> string \<times> string \<times> bool" where
  "getline_255 eof content =
     (if eof then ([], content, True)
      else let (a, b) = fgets_chunk 254 content in
        if a \<noteq> [] \<and> last a = CHR 0x0A then (butlast a, b, False)
        else if b \<noteq> [] \<and> hd b = CHR 0x0A then (a, tl b, False)
        else (a, b, b = []))"

definition read_in_att_format_stream ::
  "(string \<Rightarrow> 'w) \<Rightarrow> bool \<Rightarrow> string \<Rightarrow> string \<Rightarrow> nat \<Rightarrow> ('w::zero hbt \<times> string \<times> nat) result" where
  "read_in_att_format_stream rw eof content epsilon_symbol linecount =
     (if eof then Inl EndOfStreamException
      else let (l, rest, eof1) = getline_255 False content; line = c_str l in
        if \<not> eof1 then Inr (new_hbt, rest, linecount)
        else if att_empty_line line then Inr (new_hbt, tl rest, linecount + 1)
        else if hd line = CHR ''-'' then Inr (new_hbt, rest, linecount + 1)
        else rbind (add_att_line rw line epsilon_symbol new_hbt) (\<lambda>(ok, g').
          if \<not> ok then Inl NotValidAttFormatException
          else (let (l2, rest2, eof2) = getline_255 True rest
                in Inr (g', tl rest2, linecount + 2))))"

section \<open>Numbers and fields\<close>

lemma of_char_digit [simp]: "d < 10 \<Longrightarrow> (of_char (digit_char d) :: nat) = 48 + d"
  by (simp add: digit_char_def)

lemma is_digit_digit_char [simp]: "d < 10 \<Longrightarrow> is_digit (digit_char d)"
  by (simp add: is_digit_def)

lemma digits_value_snoc: "digits_value (ds @ [c]) = 10 * digits_value ds + (of_char c - 48)"
  by (simp add: digits_value_def)

lemma show_nat_digits: "set (show_nat n) \<subseteq> Collect is_digit \<and> show_nat n \<noteq> []"
proof (induction n rule: show_nat.induct)
  case (1 n)
  then show ?case by (subst (1 2) show_nat.simps) auto
qed

lemma digits_value_show_nat [simp]: "digits_value (show_nat n) = n"
proof (induction n rule: show_nat.induct)
  case (1 n)
  show ?case
  proof (cases "n < 10")
    case True
    then show ?thesis by (subst show_nat.simps) (simp add: digits_value_def)
  next
    case False
    with 1 show ?thesis by (subst show_nat.simps) (simp add: digits_value_snoc)
  qed
qed

lemma length_show_nat: "n < 10 ^ k \<Longrightarrow> 0 < k \<Longrightarrow> length (show_nat n) \<le> k"
proof (induction k arbitrary: n)
  case (Suc k)
  show ?case
  proof (cases "n < 10")
    case True
    then show ?thesis by (subst show_nat.simps) simp
  next
    case False
    with Suc.prems have "n div 10 < 10 ^ k" "0 < k" by (auto intro: Nat.gr0I)
    with Suc.IH [of "n div 10"] False show ?thesis by (subst show_nat.simps) simp
  qed
qed simp

lemma digit_not_space: "is_digit c \<Longrightarrow> \<not> isspace c \<and> c \<noteq> CHR ''-'' \<and> c \<noteq> CHR ''+'' \<and> c \<noteq> CHR 0x00"
  by (auto simp: is_digit_def isspace_def)

lemma show_nat_no_space: "c \<in> set (show_nat n) \<Longrightarrow> \<not> isspace c \<and> c \<noteq> CHR 0x00 \<and> c \<noteq> CHR ''-''"
  using show_nat_digits [of n] digit_not_space by auto

lemma print_i_small: "n < 2147483648 \<Longrightarrow> print_i n = show_nat n"
  by (simp add: print_i_def to_unsigned_def unsigned_to_int_def)

lemma atoi_state_show_nat:
  assumes "n < 2147483648"
  shows "atoi_state (show_nat n) = Inr n"
proof -
  obtain c cs where c: "show_nat n = c # cs" using show_nat_digits [of n] by (cases "show_nat n") auto
  then have d: "is_digit c" using show_nat_digits [of n] by auto
  have all: "takeWhile is_digit (show_nat n) = show_nat n"
    using show_nat_digits [of n] by (auto simp: takeWhile_eq_all_conv)
  have "dropWhile isspace (show_nat n) = show_nat n" using c digit_not_space [OF d] by simp
  moreover have "hd (show_nat n) \<noteq> CHR ''-''" "hd (show_nat n) \<noteq> CHR ''+''"
    using c digit_not_space [OF d] by simp_all
  ultimately have "atoi (show_nat n) = Inr (int n)" using assms by (simp add: atoi_def Let_def all del: takeWhile_eq_all_conv)
  with assms show ?thesis by (simp add: atoi_state_def)
qed

lemma fields_of_Nil [simp]: "fields_of [] = []"
  by (simp add: fields_of.simps)

definition is_field :: "string \<Rightarrow> bool" where
  "is_field w \<longleftrightarrow> w \<noteq> [] \<and> (\<forall>c \<in> set w. \<not> isspace c \<and> c \<noteq> CHR 0x00)"

lemma fields_of_word:
  assumes "is_field w" and "isspace c"
  shows "fields_of (w @ c # rest) = w # fields_of rest"
proof -
  obtain d ds where w: "w = d # ds" using assms(1) by (cases w) (auto simp: is_field_def)
  then have ds: "\<forall>e \<in> set ds. \<not> isspace e" and d: "\<not> isspace d"
    using assms(1) by (auto simp: is_field_def)
  have "dropWhile isspace (w @ c # rest) = d # ds @ c # rest" using w d by simp
  moreover have "takeWhile (\<lambda>e. \<not> isspace e) (ds @ c # rest) = ds"
    using ds assms(2) by (simp add: takeWhile_append2)
  moreover have "dropWhile (\<lambda>e. \<not> isspace e) (ds @ c # rest) = c # rest"
    using ds assms(2) by (simp add: dropWhile_append2)
  ultimately have "fields_of (w @ c # rest) = w # fields_of (c # rest)"
    by (subst fields_of.simps) (simp add: w)
  also have "fields_of (c # rest) = fields_of rest"
    using assms(2) by (subst (1 2) fields_of.simps) simp
  finally show ?thesis .
qed

lemma isspace_tab_newline [simp]: "isspace (CHR 0x09)" "isspace (CHR 0x0A)"
  by (simp_all add: isspace_def)

section \<open>Symbols\<close>

text \<open>A symbol the format can carry: a string without white space and without any of the escape
  words, or one of epsilon, a single space and a single tab.\<close>

definition att_words :: "string list" where
  "att_words = [''@_EPSILON_SYMBOL_@'', ''@_SPACE_@'', ''@0@'', ''@_TAB_@'', ''@_COLON_@'']"

definition att_plain :: "string \<Rightarrow> bool" where
  "att_plain s \<longleftrightarrow> is_field s \<and> list_all (\<lambda>w. str_find s w 0 = None) att_words"

definition att_safe :: "string \<Rightarrow> string \<Rightarrow> bool" where
  "att_safe epsilon_symbol s \<longleftrightarrow>
     s = internal_epsilon \<or> s \<noteq> epsilon_symbol \<and> (s = '' '' \<or> s = [CHR 0x09] \<or> att_plain s)"

definition att_code :: "string \<Rightarrow> string" where
  "att_code s =
     (if s = internal_epsilon then ''@0@'' else if s = '' '' then ''@_SPACE_@''
      else if s = [CHR 0x09] then ''@_TAB_@'' else s)"

lemma replaced_absent: "str_find s needle 0 = None \<Longrightarrow> replaced needle r s = s"
  by (simp add: str_find_def replaced_none)

lemma replaced_char_absent: "c \<notin> set s \<Longrightarrow> replaced [c] r s = s"
  by (rule replaced_none [of "[c]" s 0]) (simp add: find_at_char_None)

lemma att_plain_codes:
  assumes "att_plain s"
  shows "att_escape s = Inr s" and "att_unescape s = Inr s" and "s \<noteq> internal_epsilon"
    and "s \<noteq> '' ''" and "s \<noteq> [CHR 0x09]"
proof -
  have "CHR '' '' \<notin> set s" "CHR 0x09 \<notin> set s" using assms by (auto simp: att_plain_def is_field_def isspace_def)
  then show "att_escape s = Inr s" "att_unescape s = Inr s"
    using assms by (simp_all add: att_escape_def att_unescape_def replace_all_correct_total
      replaced_char_absent replaced_absent att_plain_def att_words_def internal_epsilon_def)
  show "s \<noteq> internal_epsilon"
    using assms by (auto simp: att_plain_def att_words_def internal_epsilon_def str_find_def)
  show "s \<noteq> '' ''" "s \<noteq> [CHR 0x09]"
    using \<open>CHR '' '' \<notin> set s\<close> \<open>CHR 0x09 \<notin> set s\<close> by auto
qed

lemma att_special_codes:
  "att_escape internal_epsilon = Inr ''@0@''" "att_escape '' '' = Inr ''@_SPACE_@''"
  "att_escape [CHR 0x09] = Inr ''@_TAB_@''"
  "att_unescape ''@0@'' = Inr internal_epsilon" "att_unescape ''@_SPACE_@'' = Inr '' ''"
  "att_unescape ''@_TAB_@'' = Inr [CHR 0x09]"
  by (simp_all add: att_escape_def att_unescape_def replace_all_correct_total internal_epsilon_def)

lemma att_safe_code:
  assumes "att_safe e s"
  shows "att_escape s = Inr (att_code s) \<and> att_unescape (att_code s) = Inr s \<and>
     is_field (att_code s) \<and> s \<noteq> [] \<and> (if e = s then internal_epsilon else s) = s"
proof (cases "s = internal_epsilon")
  case True
  then show ?thesis by (auto simp: att_code_def att_special_codes is_field_def isspace_def)
next
  case False
  with assms have ne: "e \<noteq> s" and "s = '' '' \<or> s = [CHR 0x09] \<or> att_plain s"
    by (auto simp: att_safe_def)
  then consider "s = '' ''" | "s = [CHR 0x09]" | "att_plain s" by blast
  then show ?thesis
  proof cases
    case 3
    then have "s \<noteq> []" by (auto simp: att_plain_def is_field_def)
    with 3 ne show ?thesis
      by (simp add: att_code_def att_plain_codes [OF 3]) (simp add: att_plain_def)
  qed (use ne in \<open>auto simp: att_code_def att_special_codes is_field_def isspace_def internal_epsilon_def\<close>)
qed

section \<open>What a file says\<close>

text \<open>A file is a sequence of events: a transition, or a state becoming final.\<close>

datatype 'w att_event = ArcEvent nat "'w transition" | FinalEvent nat 'w

fun event_text :: "('w \<Rightarrow> string) \<Rightarrow> 'w att_event \<Rightarrow> string" where
  "event_text pw (ArcEvent s tr) =
     show_nat s @ [CHR 0x09] @ show_nat (tr_target tr) @ [CHR 0x09] @ att_code (tr_input tr) @
     [CHR 0x09] @ att_code (tr_output tr) @ [CHR 0x09] @ pw (tr_weight tr) @ [CHR 0x0A]"
| "event_text pw (FinalEvent s w) = show_nat s @ [CHR 0x09] @ pw w @ [CHR 0x0A]"

definition weight_ok :: "('w \<Rightarrow> string) \<Rightarrow> 'w \<Rightarrow> bool" where
  "weight_ok pw w \<longleftrightarrow> is_field (pw w) \<and> length (pw w) < 100"

fun event_ok :: "('w \<Rightarrow> string) \<Rightarrow> string \<Rightarrow> 'w att_event \<Rightarrow> bool" where
  "event_ok pw e (ArcEvent s tr) \<longleftrightarrow>
     s < 2147483648 \<and> tr_target tr < 2147483648 \<and> att_safe e (tr_input tr) \<and>
     att_safe e (tr_output tr) \<and> length (att_code (tr_input tr)) < 100 \<and>
     length (att_code (tr_output tr)) < 100 \<and> weight_ok pw (tr_weight tr) \<and>
     length (event_text pw (ArcEvent s tr)) \<le> 254"
| "event_ok pw e (FinalEvent s w) \<longleftrightarrow>
     s < 2147483648 \<and> weight_ok pw w \<and> length (event_text pw (FinalEvent s w)) \<le> 254"

fun apply_event :: "'w att_event \<Rightarrow> 'w hbt \<Rightarrow> 'w hbt" where
  "apply_event (ArcEvent s tr) g = add_transition s tr True g"
| "apply_event (FinalEvent s w) g = set_final_weight s w g"

text \<open>A weight that is printed and read back need not be the same; \<open>f\<close> says what it becomes.\<close>

definition reweighted :: "('w \<Rightarrow> 'w) \<Rightarrow> 'w transition \<Rightarrow> 'w transition" where
  "reweighted f tr = tr\<lparr>tr_weight := f (tr_weight tr)\<rparr>"

fun reweighted_event :: "('w \<Rightarrow> 'w) \<Rightarrow> 'w att_event \<Rightarrow> 'w att_event" where
  "reweighted_event f (ArcEvent s tr) = ArcEvent s (reweighted f tr)"
| "reweighted_event f (FinalEvent s w) = FinalEvent s (f w)"

definition att_events :: "'w hbt \<Rightarrow> 'w att_event list" where
  "att_events g =
     concat (map (\<lambda>s. map (ArcEvent s) (state_vector g ! s) @
                   (case final_weight_map g s of None \<Rightarrow> [] | Some w \<Rightarrow> [FinalEvent s w]))
             [0..<length (state_vector g)])"

lemma show_nat_field [simp]: "is_field (show_nat n)"
  using show_nat_digits [of n] show_nat_no_space by (auto simp: is_field_def)

lemma length_show_nat_small: "n < 2147483648 \<Longrightarrow> length (show_nat n) < 100"
  using length_show_nat [of n 10] by simp

lemma c_str_field: "is_field s \<Longrightarrow> c_str s = s"
  by (rule c_str_id) (auto simp: is_field_def)

lemma add_att_line_event:
  assumes "event_ok pw e ev"
  shows "add_att_line rw (event_text pw ev) e g =
     Inr (True, apply_event (reweighted_event (\<lambda>w. rw (pw w)) ev) g)"
proof (cases ev)
  case (ArcEvent s tr)
  with assms have ok: "s < 2147483648" "tr_target tr < 2147483648" "weight_ok pw (tr_weight tr)"
    "length (att_code (tr_input tr)) < 100" "length (att_code (tr_output tr)) < 100"
    and i: "att_safe e (tr_input tr)" and o: "att_safe e (tr_output tr)" by auto
  note i = att_safe_code [OF i] and o = att_safe_code [OF o]
  let ?fs = "[show_nat s, show_nat (tr_target tr), att_code (tr_input tr), att_code (tr_output tr),
      pw (tr_weight tr)]"
  have "fields_of (event_text pw ev) = ?fs"
    using ArcEvent i o ok(3) by (simp add: fields_of_word weight_ok_def)
  then have scan: "sscanf_fields (event_text pw ev) = Inr ?fs"
    using ok by (simp add: sscanf_fields_def length_show_nat_small weight_ok_def)
  have "new_transition (tr_target tr) (tr_input tr) (tr_output tr) (rw (pw (tr_weight tr))) =
      Inr (reweighted (\<lambda>w. rw (pw w)) tr)"
    using i o by (simp add: new_transition_def reweighted_def)
  then show ?thesis
    using ok i o unfolding add_att_line_def scan
    by (simp add: ArcEvent Let_def atoi_state_show_nat)
next
  case (FinalEvent s w)
  with assms have ok: "s < 2147483648" "weight_ok pw w" by auto
  have "fields_of (event_text pw ev) = [show_nat s, pw w]"
    using FinalEvent ok by (simp add: fields_of_word weight_ok_def)
  then have scan: "sscanf_fields (event_text pw ev) = Inr [show_nat s, pw w]"
    using ok by (simp add: sscanf_fields_def length_show_nat_small weight_ok_def)
  then show ?thesis
    using ok unfolding add_att_line_def scan
    by (simp add: FinalEvent Let_def atoi_state_show_nat weight_ok_def)
qed

lemma fgets_chunk_line:
  "CHR 0x0A \<notin> set l \<Longrightarrow> length l < k \<Longrightarrow> fgets_chunk k (l @ CHR 0x0A # rest) = (l @ [CHR 0x0A], rest)"
proof (induction l arbitrary: k)
  case Nil
  then show ?case by (cases k) auto
next
  case (Cons c l)
  then show ?case by (cases k) auto
qed

definition one_line :: "string \<Rightarrow> bool" where
  "one_line w \<longleftrightarrow> CHR 0x0A \<notin> set w \<and> CHR 0x00 \<notin> set w"

lemma one_line_simps [simp]:
  "one_line []" "one_line (c # w) \<longleftrightarrow> c \<noteq> CHR 0x0A \<and> c \<noteq> CHR 0x00 \<and> one_line w"
  "one_line (v @ w) \<longleftrightarrow> one_line v \<and> one_line w"
  by (auto simp: one_line_def)

lemma is_field_one_line: "is_field w \<Longrightarrow> one_line w"
  by (auto simp: is_field_def one_line_def isspace_def)

lemma event_text_parts:
  assumes "event_ok pw e ev"
  shows "\<exists>s t. event_text pw ev = show_nat s @ t @ [CHR 0x0A] \<and> one_line t"
proof (cases ev)
  case (ArcEvent s tr)
  let ?t = "[CHR 0x09] @ show_nat (tr_target tr) @ [CHR 0x09] @ att_code (tr_input tr) @
      [CHR 0x09] @ att_code (tr_output tr) @ [CHR 0x09] @ pw (tr_weight tr)"
  from ArcEvent assms have "att_safe e (tr_input tr)" "att_safe e (tr_output tr)"
    "is_field (pw (tr_weight tr))" by (simp_all add: weight_ok_def)
  then have "one_line (att_code (tr_input tr))" "one_line (att_code (tr_output tr))"
    "one_line (pw (tr_weight tr))" using att_safe_code is_field_one_line by blast+
  then have "one_line ?t" using is_field_one_line [OF show_nat_field] by simp
  then show ?thesis using ArcEvent by (intro exI [of _ s] exI [of _ ?t]) simp
next
  case (FinalEvent s w)
  with assms have "one_line ([CHR 0x09] @ pw w)" by (simp add: weight_ok_def is_field_one_line)
  then show ?thesis using FinalEvent by (intro exI [of _ s] exI [of _ "[CHR 0x09] @ pw w"]) simp
qed

lemma event_text_shape:
  assumes "event_ok pw e ev"
  shows "\<exists>c l. event_text pw ev = (c # l) @ [CHR 0x0A] \<and> is_digit c \<and> one_line (c # l) \<and>
     length (c # l) < 254"
proof -
  from event_text_parts [OF assms] obtain s t where
    t: "event_text pw ev = show_nat s @ t @ [CHR 0x0A]" "one_line t" by blast
  obtain c cs where c: "show_nat s = c # cs" using show_nat_digits [of s] by (cases "show_nat s") auto
  then have "is_digit c" using show_nat_digits [of s] by auto
  moreover have "one_line (show_nat s)" by (simp add: is_field_one_line)
  moreover have "length (event_text pw ev) \<le> 254" using assms by (cases ev) auto
  ultimately show ?thesis
    using t c by (intro exI [of _ c] exI [of _ "cs @ t"]) simp
qed

lemma read_att_events:
  assumes "\<forall>ev \<in> set evs. event_ok pw e ev"
  shows "read_att_loop rw e (concat (map (event_text pw) evs)) n g =
     Inr (fold apply_event (map (reweighted_event (\<lambda>w. rw (pw w))) evs) g, [], n + length evs)"
  using assms
proof (induction evs arbitrary: n g)
  case Nil
  then show ?case by (subst read_att_loop.simps) (simp add: fgets_255_def)
next
  case (Cons ev evs)
  then have ok: "event_ok pw e ev" by simp
  from event_text_shape [OF ok] obtain c l where l: "event_text pw ev = (c # l) @ [CHR 0x0A]"
    "is_digit c" "one_line (c # l)" "length (c # l) < 254" by blast
  let ?rest = "concat (map (event_text pw) evs)" and ?f = "\<lambda>w. rw (pw w)"
  have "fgets_255 (event_text pw ev @ ?rest) = Some (event_text pw ev, ?rest)"
    using fgets_chunk_line [of "c # l" 254 ?rest] l unfolding one_line_def by (simp add: fgets_255_def)
  moreover have "c_str (event_text pw ev) = event_text pw ev"
    using l(1,3) by (intro c_str_id) (auto simp: one_line_def)
  moreover have "\<not> att_empty_line (event_text pw ev)" "hd (event_text pw ev) \<noteq> CHR ''-''"
    using l(1,3) digit_not_space [OF l(2)] by (auto simp: att_empty_line_def isspace_def)
  moreover note add_att_line_event [OF ok, of rw g]
  moreover have "read_att_loop rw e ?rest (n + 1) (apply_event (reweighted_event ?f ev) g) =
      Inr (fold apply_event (map (reweighted_event ?f) evs) (apply_event (reweighted_event ?f ev) g), [], n + 1 + length evs)"
    using Cons.prems by (intro Cons.IH) simp
  ultimately show ?case
    by (subst read_att_loop.simps) simp
qed

lemma rfold_append_texts:
  "(\<And>x. x \<in> set xs \<Longrightarrow> line x = Inr (tx x)) \<Longrightarrow>
     rfold (\<lambda>x os. rmap (\<lambda>l. os @ l) (line x)) xs os = Inr (os @ concat (map tx xs))"
  by (induction xs arbitrary: os) auto

lemma concat_of_concat: "concat (concat xss) = concat (map concat xss)"
  by (induction xss) auto

lemma write_att_events:
  assumes "\<forall>ev \<in> set (att_events g). event_ok pw e ev"
    and "dom (final_weight_map g) \<subseteq> {..<length (state_vector g)}"
  shows "write_in_att_format_file pw True g = Inr (concat (map (event_text pw) (att_events g)))"
proof -
  let ?ev = "\<lambda>s. map (ArcEvent s) (state_vector g ! s) @
      (case final_weight_map g s of None \<Rightarrow> [] | Some w \<Rightarrow> [FinalEvent s w])"
  have step: "rbind (rfold (\<lambda>tr os. rmap (\<lambda>l. os @ l) (att_arc_line print_i c_str pw True s tr))
        (state_vector g ! s) os) (\<lambda>os'. rmap (\<lambda>l. os' @ l) (att_final_line print_i pw True s g)) =
      Inr (os @ concat (map (event_text pw) (?ev s)))" if s: "s < length (state_vector g)" for s os
  proof -
    have ok: "event_ok pw e ev" if "ev \<in> set (?ev s)" for ev
      using assms(1) that s unfolding att_events_def by auto
    have arc: "att_arc_line print_i c_str pw True s tr = Inr (event_text pw (ArcEvent s tr))"
      if "tr \<in> set (state_vector g ! s)" for tr
    proof -
      have "event_ok pw e (ArcEvent s tr)" using that by (intro ok) simp
      then show ?thesis
        using att_safe_code [of e "tr_input tr"] att_safe_code [of e "tr_output tr"]
        by (simp add: att_arc_line_def print_i_small c_str_field)
    qed
    have fin: "att_final_line print_i pw True s g =
        Inr (concat (map (event_text pw) (case final_weight_map g s of None \<Rightarrow> [] | Some w \<Rightarrow> [FinalEvent s w])))"
    proof (cases "final_weight_map g s")
      case None
      then show ?thesis by (simp add: att_final_line_def is_final_state_def)
    next
      case (Some w)
      then have "event_ok pw e (FinalEvent s w)" by (intro ok) simp
      moreover have "\<not> s > get_max_state g" using s by (simp add: get_max_state_def)
      ultimately show ?thesis
        using Some by (simp add: att_final_line_def is_final_state_def get_final_weight_def print_i_small)
    qed
    show ?thesis
      by (subst rfold_append_texts [where tx = "\<lambda>tr. event_text pw (ArcEvent s tr)"])
        (simp_all add: arc fin o_def)
  qed
  have "write_att print_i c_str pw True g =
      Inr ([] @ concat (map (\<lambda>s. concat (map (event_text pw) (?ev s))) [0..<length (state_vector g)]))"
    unfolding write_att_def
  proof -
    have "rfold (\<lambda>s os. rbind (rfold (\<lambda>tr os. rmap (\<lambda>l. os @ l) (att_arc_line print_i c_str pw True s tr))
        (state_vector g ! s) os) (\<lambda>os'. rmap (\<lambda>l. os' @ l) (att_final_line print_i pw True s g))) xs os =
      Inr (os @ concat (map (\<lambda>s. concat (map (event_text pw) (?ev s))) xs))"
      if "\<forall>s \<in> set xs. s < length (state_vector g)" for xs os
      using that by (induction xs arbitrary: os) (simp_all add: step)
    from this [of "[0..<length (state_vector g)]" "[]"] show "rfold (\<lambda>s os.
        rbind (rfold (\<lambda>tr os. rmap (\<lambda>l. os @ l) (att_arc_line print_i c_str pw True s tr))
        (state_vector g ! s) os) (\<lambda>os'. rmap (\<lambda>l. os' @ l) (att_final_line print_i pw True s g)))
       [0..<length (state_vector g)] [] =
      Inr ([] @ concat (map (\<lambda>s. concat (map (event_text pw) (?ev s))) [0..<length (state_vector g)]))"
      by simp
  qed
  moreover have "concat (map (event_text pw) (att_events g)) =
      concat (map (\<lambda>s. concat (map (event_text pw) (?ev s))) [0..<length (state_vector g)])"
    by (simp only: att_events_def map_concat concat_of_concat map_map o_def)
  ultimately show ?thesis by (simp only: write_in_att_format_file_def append_Nil)
qed

section \<open>The graph that a file builds\<close>

fun event_arcs :: "nat \<Rightarrow> 'w att_event list \<Rightarrow> 'w transition list" where
  "event_arcs s [] = []"
| "event_arcs s (ArcEvent t tr # evs) = (if t = s then tr # event_arcs s evs else event_arcs s evs)"
| "event_arcs s (FinalEvent t w # evs) = event_arcs s evs"

lemma event_arcs_append: "event_arcs s (xs @ ys) = event_arcs s xs @ event_arcs s ys"
  by (induction s xs rule: event_arcs.induct) auto

lemma fold_events_transitions:
  "transitions_of (fold apply_event evs g) s = transitions_of g s @ event_arcs s evs"
proof (induction evs arbitrary: g)
  case (Cons ev evs)
  then show ?case
    by (cases ev) (auto simp: add_transition_simps set_final_weight_simps)
qed simp

lemma fold_events_final:
  assumes "\<forall>s w. FinalEvent s w \<in> set evs \<longrightarrow> m s = Some w"
  shows "final_weight_map (fold apply_event evs g) s =
    (if \<exists>w. FinalEvent s w \<in> set evs then m s else final_weight_map g s)"
  using assms
proof (induction evs arbitrary: g)
  case (Cons ev evs)
  then show ?case
    by (cases ev) (auto simp: add_transition_simps set_final_weight_simps)
qed simp

lemma fold_events_alphabet:
  "alphabet (fold apply_event evs g) =
     alphabet g \<union> {x. \<exists>s tr. ArcEvent s tr \<in> set evs \<and> (x = tr_input tr \<or> x = tr_output tr)}"
proof (induction evs arbitrary: g)
  case (Cons ev evs)
  then show ?case
    by (cases ev) (auto simp: add_transition_simps set_final_weight_simps)
qed simp

lemma event_arcs_of_graph:
  fixes g :: "'a hbt"
  shows "event_arcs s (att_events g) = transitions_of g s"
proof -
  let ?ev = "\<lambda>t. map (ArcEvent t) (state_vector g ! t) @
      (case final_weight_map g t of None \<Rightarrow> [] | Some w \<Rightarrow> [FinalEvent t w])"
  have arcs: "event_arcs s (map (ArcEvent t) trs) = (if t = s then trs else [])"
    for t and trs :: "'a transition list" by (induction trs) auto
  then have one: "event_arcs s (?ev t) = (if t = s then state_vector g ! t else [])" for t
    by (simp add: event_arcs_append split: option.split)
  have "event_arcs s (concat (map ?ev [0..<n])) = (if s < n then state_vector g ! s else [])" for n
    by (induction n) (simp_all add: event_arcs_append one del: map_append, auto simp: event_arcs_append arcs less_Suc_eq split: option.split)
  then show ?thesis by (simp add: att_events_def transitions_of_def)
qed

lemma event_arcs_reweighted: "event_arcs s (map (reweighted_event f) evs) = map (reweighted f) (event_arcs s evs)"
  by (induction s evs rule: event_arcs.induct) auto

lemma in_reweighted_events:
  "ArcEvent s tr \<in> set (map (reweighted_event f) evs) \<longleftrightarrow> (\<exists>tr'. ArcEvent s tr' \<in> set evs \<and> tr = reweighted f tr')"
  "FinalEvent s w \<in> set (map (reweighted_event f) evs) \<longleftrightarrow> (\<exists>w'. FinalEvent s w' \<in> set evs \<and> w = f w')"
proof -
  have "ArcEvent s tr = reweighted_event f ev \<longleftrightarrow> (\<exists>tr'. ev = ArcEvent s tr' \<and> tr = reweighted f tr')"
    "FinalEvent s w = reweighted_event f ev \<longleftrightarrow> (\<exists>w'. ev = FinalEvent s w' \<and> w = f w')" for ev
    by (cases ev; auto)+
  then show "ArcEvent s tr \<in> set (map (reweighted_event f) evs) \<longleftrightarrow> (\<exists>tr'. ArcEvent s tr' \<in> set evs \<and> tr = reweighted f tr')"
    "FinalEvent s w \<in> set (map (reweighted_event f) evs) \<longleftrightarrow> (\<exists>w'. FinalEvent s w' \<in> set evs \<and> w = f w')"
    by (auto simp: image_iff)
qed

lemma reweighted_simps [simp]:
  "tr_input (reweighted f tr) = tr_input tr" "tr_output (reweighted f tr) = tr_output tr"
  "tr_target (reweighted f tr) = tr_target tr" "tr_weight (reweighted f tr) = f (tr_weight tr)"
  by (simp_all add: reweighted_def)

lemma final_events_of_graph:
  "FinalEvent s w \<in> set (att_events g) \<longleftrightarrow> s < length (state_vector g) \<and> final_weight_map g s = Some w"
proof
  assume "s < length (state_vector g) \<and> final_weight_map g s = Some w"
  then show "FinalEvent s w \<in> set (att_events g)"
    by (auto simp: att_events_def intro!: bexI [of _ s])
qed (auto simp: att_events_def split: option.splits)

lemma arc_events_of_graph:
  "ArcEvent s tr \<in> set (att_events g) \<longleftrightarrow> tr \<in> set (transitions_of g s)"
  by (auto simp: att_events_def transitions_of_def split: option.splits)

lemma att_new_hbt_simps [simp]:
  "transitions_of new_hbt s = []" "final_weight_map new_hbt = Map.empty"
  "alphabet new_hbt = initialize_alphabet {}" "state_vector new_hbt = [[]]"
  by (simp_all add: new_hbt_def transitions_of_def)

section \<open>Writing into memory\<close>

text \<open>A line leaves everything before \<open>cwt\<close> alone.\<close>

lemma ptr_line_keeps:
  "ptr_line t ww w (buf, cwt, cw) = (buf', cwt', cw') \<Longrightarrow> (\<forall>i < cwt. buf' i = buf i) \<and> cwt \<le> cwt'"
  by (auto simp: ptr_line_def advance_def sprintf_step_def sprintf_at_def Let_def split: if_splits)

lemma ptr_line_first:
  "ptr_line t False w (buf, 0, cw) = (buf', cwt', cw') \<Longrightarrow> t \<noteq> [] \<Longrightarrow>
     (\<forall>i < length t. buf' i = t ! i) \<and> buf' (length t) = CHR 0x00 \<and> length t < cwt'"
  by (auto simp: ptr_line_def advance_def sprintf_step_def sprintf_at_def Let_def)

definition keeps_prefix :: "nat \<Rightarrow> (nat \<Rightarrow> char) \<Rightarrow> (nat \<Rightarrow> char) \<times> nat \<times> nat \<Rightarrow> bool" where
  "keeps_prefix m b st \<longleftrightarrow> (\<forall>i < m. fst st i = b i) \<and> m \<le> fst (snd st)"

lemma keeps_prefix_ptr_line:
  "keeps_prefix m b st \<Longrightarrow> keeps_prefix m b (ptr_line t ww w st)"
  using ptr_line_keeps [of t ww w "fst st" "fst (snd st)" "snd (snd st)"]
  by (cases "ptr_line t ww w st") (fastforce simp: keeps_prefix_def)

definition ptr_state_step ::
  "('w \<Rightarrow> string) \<Rightarrow> bool \<Rightarrow> 'w hbt \<Rightarrow> nat \<Rightarrow> 'w transition list \<Rightarrow> (nat \<Rightarrow> char) \<times> nat \<times> nat \<Rightarrow>
     ((nat \<Rightarrow> char) \<times> nat \<times> nat) result" where
  "ptr_state_step pw ww g s trs st =
     rbind (rfold (\<lambda>tr st.
         rbind (att_escape (tr_input tr)) (\<lambda>isymbol.
         rbind (att_escape (tr_output tr)) (\<lambda>osymbol.
         Inr (ptr_line (print_i s @ [CHR 0x09] @ print_i (tr_target tr) @ [CHR 0x09] @
                c_str isymbol @ [CHR 0x09] @ c_str osymbol) ww (pw (tr_weight tr)) st)))) trs st)
       (\<lambda>st'. if is_final_state s g
         then rmap (\<lambda>w. ptr_line (print_i s) ww (pw w) st')
                (if ww then get_final_weight s g else Inr (the (final_weight_map g s)))
         else Inr st')"

lemma ptr_state_step_keeps:
  assumes "ptr_state_step pw ww g s trs st = Inr st'" and "keeps_prefix m b st"
  shows "keeps_prefix m b st'"
proof -
  from assms(1) obtain st1 where 1: "rfold (\<lambda>tr st.
         rbind (att_escape (tr_input tr)) (\<lambda>isymbol.
         rbind (att_escape (tr_output tr)) (\<lambda>osymbol.
         Inr (ptr_line (print_i s @ [CHR 0x09] @ print_i (tr_target tr) @ [CHR 0x09] @
                c_str isymbol @ [CHR 0x09] @ c_str osymbol) ww (pw (tr_weight tr)) st)))) trs st = Inr st1"
    and 2: "(if is_final_state s g
         then rmap (\<lambda>w. ptr_line (print_i s) ww (pw w) st1)
                (if ww then get_final_weight s g else Inr (the (final_weight_map g s)))
         else Inr st1) = Inr st'"
    unfolding ptr_state_step_def by (auto simp only: rbind_eq_Inr)
  have "keeps_prefix m b st1"
    using 1 assms(2)
  proof (rule rfold_invariant)
    fix tr st st'
    assume k: "keeps_prefix m b st" and "rbind (att_escape (tr_input tr)) (\<lambda>isymbol.
         rbind (att_escape (tr_output tr)) (\<lambda>osymbol.
         Inr (ptr_line (print_i s @ [CHR 0x09] @ print_i (tr_target tr) @ [CHR 0x09] @
                c_str isymbol @ [CHR 0x09] @ c_str osymbol) ww (pw (tr_weight tr)) st))) = Inr st'"
    then obtain t where "st' = ptr_line t ww (pw (tr_weight tr)) st"
      by (auto simp only: rbind_eq_Inr sum.inject)
    with k show "keeps_prefix m b st'" by (simp only: keeps_prefix_ptr_line)
  qed
  with 2 show ?thesis
    by (auto simp: result_simps split: if_splits intro: keeps_prefix_ptr_line)
qed

lemma write_in_att_format_ptr_steps:
  "write_in_att_format_ptr pw ww g ptr =
     rfold (\<lambda>s st. ptr_state_step pw ww g s (state_vector g ! s) st)
       [0..<length (state_vector g)] (ptr, 0, 0)"
  by (simp add: write_in_att_format_ptr_def ptr_state_step_def)

section \<open>Properties\<close>

text \<open>C1. Writing a graph in AT&T format to a file and reading the file back gives the same
  transitions in the same order for every state and the same final states, with every weight
  replaced by what its printed form is read as (so the graph itself, when the weights used are
  printed without loss), and the symbols used (with the special ones) as alphabet. The hypotheses
  are limits of the format and the code: state numbers below \<open>2 ^ 31\<close>; printed symbols and weights
  below 100 bytes, weights printed without white space; lines of at most 254 bytes; and symbols
  that are epsilon, one space, one tab, or neither empty nor with white space, a NUL byte or one of the five
  escape words inside, and not the name \<open>e\<close> that the reader is given for epsilon.\<close>

theorem att_roundtrip:
  assumes "wf_graph g" and "list_all (event_ok pw e) (att_events g)"
  shows "\<exists>content h. write_in_att_format_file pw True g = Inr content \<and>
     read_in_att_format_file rw False content e 0 = Inr (h, [], length (att_events g)) \<and>
     (\<forall>s. transitions_of h s = map (\<lambda>tr. tr\<lparr>tr_weight := rw (pw (tr_weight tr))\<rparr>) (transitions_of g s)) \<and>
     (\<forall>s. final_weight_map h s = map_option (\<lambda>w. rw (pw w)) (final_weight_map g s)) \<and>
     alphabet h = initialize_alphabet (symbols_used g)"
proof -
  let ?f = "\<lambda>w. rw (pw w)"
  let ?evs = "map (reweighted_event ?f) (att_events g)"
  let ?h = "fold apply_event ?evs new_hbt"
  have ok: "\<forall>ev \<in> set (att_events g). event_ok pw e ev" using assms(2) by (simp add: list_all_iff)
  have dom: "dom (final_weight_map g) \<subseteq> {..<length (state_vector g)}"
    using assms(1) by (simp add: wf_graph_def)
  have "read_in_att_format_file rw False (concat (map (event_text pw) (att_events g))) e 0 =
      Inr (?h, [], length (att_events g))"
    using read_att_events [OF ok, of rw 0 new_hbt] by (simp add: read_in_att_format_file_def)
  moreover have "transitions_of ?h s = map (\<lambda>tr. tr\<lparr>tr_weight := ?f (tr_weight tr)\<rparr>) (transitions_of g s)" for s
    unfolding fold_events_transitions event_arcs_reweighted event_arcs_of_graph by (simp add: reweighted_def)
  moreover have "final_weight_map ?h s = map_option ?f (final_weight_map g s)" for s
  proof -
    have "\<forall>s w. FinalEvent s w \<in> set ?evs \<longrightarrow> map_option ?f (final_weight_map g s) = Some w"
      unfolding in_reweighted_events final_events_of_graph by auto
    from fold_events_final [of ?evs "\<lambda>s. map_option ?f (final_weight_map g s)", OF this, of new_hbt s] dom show ?thesis
      unfolding in_reweighted_events final_events_of_graph
      by (cases "final_weight_map g s") auto
  qed
  moreover have "alphabet ?h = initialize_alphabet (symbols_used g)"
    unfolding fold_events_alphabet in_reweighted_events arc_events_of_graph
    by (fastforce simp: initialize_alphabet_def symbols_used_eq)
  ultimately show ?thesis using write_att_events [OF ok dom] by blast
qed

text \<open>An instance: weights that are natural numbers, written in decimal and read back rounded down to even ones.\<close>

definition att_example_graph :: "nat hbt" where
  "att_example_graph = set_final_weight 1 7
     (add_transition 0 \<lparr>tr_target = 1, tr_input = '' '', tr_output = internal_epsilon, tr_weight = 3\<rparr>
       True new_hbt)"

lemma att_example_graph_events: "att_events att_example_graph =
   [ArcEvent 0 \<lparr>tr_target = 1, tr_input = '' '', tr_output = internal_epsilon, tr_weight = 3\<rparr>,
    FinalEvent 1 7]"
  by (simp add: att_events_def att_example_graph_def set_final_weight_def add_transition_def
      add_state_def grow_states_def new_hbt_def add_symbol_to_alphabet_def upt_rec numeral_2_eq_2)

lemma att_example_graph_wf: "wf_graph att_example_graph"
  unfolding att_example_graph_def
  by (intro set_final_weight_wf add_transition_wf) (simp_all add: wf_graph_def)

lemma weight_ok_nat: "n < 2147483648 \<Longrightarrow> weight_ok show_nat n"
  by (simp add: weight_ok_def length_show_nat_small)

lemma att_example_graph_ok: "list_all (event_ok show_nat ''@0@'') (att_events att_example_graph)"
  using weight_ok_nat [of 3] weight_ok_nat [of 7]
  by (simp add: att_example_graph_events att_safe_def att_code_def internal_epsilon_def show_nat.simps)

lemma att_example_graph_length: "length (att_events att_example_graph) = 2"
  by (simp add: att_example_graph_events)

lemma att_roundtrip_witness:
  "\<exists>content h. write_in_att_format_file show_nat True att_example_graph = Inr content \<and>
     read_in_att_format_file (\<lambda>t. digits_value t div 2 * 2) False content ''@0@'' 0 = Inr (h, [], 2) \<and>
     transitions_of h 0 = [\<lparr>tr_target = 1, tr_input = '' '', tr_output = internal_epsilon, tr_weight = 2\<rparr>] \<and>
     final_weight_map h 1 = Some 6"
proof -
  have "transitions_of att_example_graph 0 = [\<lparr>tr_target = 1, tr_input = '' '', tr_output = internal_epsilon, tr_weight = 3\<rparr>]"
    "final_weight_map att_example_graph 1 = Some 7"
    by (simp_all add: att_example_graph_def set_final_weight_simps add_transition_simps)
  then show ?thesis
    using att_roundtrip [OF att_example_graph_wf att_example_graph_ok, of "\<lambda>t. digits_value t div 2 * 2"]
    unfolding att_example_graph_length by fastforce
qed

text \<open>The reader of a stream uses only a first line that is not ended by a newline: when the
  first 254 characters contain a newline, it returns the empty graph.\<close>

theorem att_stream_reader_stops:
  assumes "CHR 0x0A \<notin> set l" and "length l < 254"
  shows "read_in_att_format_stream rw False (l @ CHR 0x0A # rest) e n = Inr (new_hbt, rest, n)"
  using fgets_chunk_line [OF assms] by (simp add: read_in_att_format_stream_def getline_255_def)

lemma att_stream_reader_stops_witness:
  "read_in_att_format_stream digits_value False ''0 1 a b
0
'' ''@0@'' 0 = Inr (new_hbt, ''0
'', 0)"
  using att_stream_reader_stops [of "''0 1 a b''" digits_value "''0
''" "''@0@''" 0] by simp

text \<open>Writing into memory without weights leaves a terminating 0 after the first transition:
  \<open>cwt\<close> is advanced twice over the line, so the newline and all that follows are stored past
  a gap, and the C string in the buffer is the first line only.\<close>

theorem att_ptr_writer_truncates:
  assumes "write_in_att_format_ptr pw False g ptr = Inr (buf, n, m)"
    and "state_vector g = (tr # trs) # rest"
    and "att_escape (tr_input tr) = Inr i" and "att_escape (tr_output tr) = Inr out"
    and "line = print_i 0 @ [CHR 0x09] @ print_i (tr_target tr) @ [CHR 0x09] @ c_str i @ [CHR 0x09] @ c_str out"
  shows "(\<forall>k < length line. buf k = line ! k) \<and> buf (length line) = CHR 0x00"
proof -
  obtain buf1 n1 m1 where 1: "ptr_line line False (pw (tr_weight tr)) (ptr, 0, 0) = (buf1, n1, m1)"
    by (cases "ptr_line line False (pw (tr_weight tr)) (ptr, 0, 0)")
  have ne: "line \<noteq> []" using assms(5) by simp
  from ptr_line_first [OF 1 ne] have first: "\<forall>k < length line. buf1 k = line ! k"
    "buf1 (length line) = CHR 0x00" "length line < n1" by auto
  have "keeps_prefix n1 buf1 (buf1, n1, m1)" by (simp add: keeps_prefix_def)
  moreover from assms(1) have "rfold (\<lambda>s st. ptr_state_step pw False g s (state_vector g ! s) st)
      [1..<length (state_vector g)] (buf1, n1, m1) = Inr (buf, n, m) \<or>
    (\<exists>st. ptr_state_step pw False g 0 trs (buf1, n1, m1) = Inr st \<and>
      rfold (\<lambda>s st. ptr_state_step pw False g s (state_vector g ! s) st)
      [1..<length (state_vector g)] st = Inr (buf, n, m))"
  proof -
    have "[0..<length (state_vector g)] = 0 # [1..<length (state_vector g)]"
      using assms(2) upt_conv_Cons [of 0 "length (state_vector g)"] by simp
    with assms(1) obtain st where
      st: "ptr_state_step pw False g 0 (tr # trs) (ptr, 0, 0) = Inr st"
      "rfold (\<lambda>s st. ptr_state_step pw False g s (state_vector g ! s) st)
        [1..<length (state_vector g)] st = Inr (buf, n, m)"
      unfolding write_in_att_format_ptr_steps using assms(2) by (auto simp: rbind_eq_Inr)
    moreover have "ptr_state_step pw False g 0 (tr # trs) (ptr, 0, 0) =
        ptr_state_step pw False g 0 trs (buf1, n1, m1)"
      using assms(3-5) 1 by (simp add: ptr_state_step_def)
    ultimately show ?thesis by auto
  qed
  ultimately have "keeps_prefix n1 buf1 (buf, n, m)"
    by (auto intro: ptr_state_step_keeps
        elim!: rfold_invariant [where P = "keeps_prefix n1 buf1"])
  with first show ?thesis by (auto simp: keeps_prefix_def)
qed

definition example_arc :: "nat transition" where
  "example_arc = \<lparr>tr_target = 0, tr_input = ''a'', tr_output = ''b'', tr_weight = 0\<rparr>"

definition example_arc_graph :: "nat hbt" where
  "example_arc_graph = new_hbt\<lparr>state_vector := [[example_arc]]\<rparr>"

lemma example_arc_escapes: "att_escape (tr_input example_arc) = Inr ''a''"
  "att_escape (tr_output example_arc) = Inr ''b''"
  by (simp_all add: example_arc_def att_escape_def replace_all_correct_total internal_epsilon_def)

lemma att_ptr_writer_truncates_witness:
  "\<exists>buf n m. write_in_att_format_ptr show_nat False example_arc_graph (\<lambda>_. CHR ''x'') = Inr (buf, n, m) \<and>
     buf 7 = CHR 0x00"
proof -
  obtain buf n m where w:
    "write_in_att_format_ptr show_nat False example_arc_graph (\<lambda>_. CHR ''x'') = Inr (buf, n, m)"
    by (cases "write_in_att_format_ptr show_nat False example_arc_graph (\<lambda>_. CHR ''x'')")
       (auto simp: write_in_att_format_ptr_def example_arc_graph_def example_arc_escapes
          is_final_state_def)
  have "buf (length (print_i 0 @ [CHR 0x09] @ print_i 0 @ [CHR 0x09] @ ''a'' @ [CHR 0x09] @ ''b'')) = CHR 0x00"
    using att_ptr_writer_truncates [OF w _ example_arc_escapes, of "[]" "[]"]
    by (simp add: example_arc_graph_def example_arc_def c_str_def)
  moreover have "length (print_i 0 @ [CHR 0x09] @ print_i 0 @ [CHR 0x09] @ ''a'' @ [CHR 0x09] @ ''b'') = 7"
    by (simp add: print_i_small show_nat.simps)
  ultimately have "buf 7 = CHR 0x00" by (simp only:)
  with w show ?thesis by blast
qed

end
