(* ===== verification/PrologFormat.thy ===== *)
theory PrologFormat
  imports AttFormat
begin

text \<open>
  The xfst and prolog text formats of \<open>HfstBasicTransducer.cc\<close> (lines 651 to 1416): escaping of
  symbols, writing, and the parsing of the lines of a prolog file. A \<open>sscanf\<close> format is a
  list of directives; a destination array of 100 bytes that is too small, and an array read
  although nothing was stored in it, are \<open>UndefinedBehaviour\<close>. Weights are printed and read by
  the parameters \<open>pw\<close> and \<open>rw\<close> (\<open>None\<close> when \<open>operator>>\<close> fails).
\<close>

section \<open>xfst\<close>

definition xfstize :: "string \<Rightarrow> string" where
  "xfstize symbol =
     fold (\<lambda>c escaped_symbol.
       if c = CHR ''%'' then escaped_symbol @ [CHR 0x22, CHR ''%'', CHR 0x22]
       else if c = CHR 0x22 then escaped_symbol @ [CHR ''%'', CHR 0x22]
       else if c = CHR ''?'' then escaped_symbol @ [CHR 0x22, CHR ''?'', CHR 0x22]
       else escaped_symbol @ [c]) symbol []"

definition xfstize_symbol :: "string \<Rightarrow> string result" where
  "xfstize_symbol symbol =
     rbind (of_option (replace_all (xfstize symbol) internal_epsilon ''0'')) (\<lambda>s1.
     rbind (of_option (replace_all s1 internal_unknown ''?'')) (\<lambda>s2.
     rbind (of_option (replace_all s2 internal_identity ''?'')) (\<lambda>s3.
     of_option (replace_all s3 [CHR 0x09] ''@_TAB_@''))))"

definition print_xfst_state :: "(nat \<Rightarrow> string) \<Rightarrow> 'w hbt \<Rightarrow> nat \<Rightarrow> string" where
  "print_xfst_state pn g s =
     (if s = 0 then ''S'' else []) @ (if is_final_state s g then ''f'' else []) @ ''s'' @ pn s"

definition print_xfst_arc :: "'w transition \<Rightarrow> string result" where
  "print_xfst_arc tr =
     rbind (xfstize_symbol (tr_input tr)) (\<lambda>i.
     rbind (if tr_input tr \<noteq> tr_output tr \<or> tr_output tr = internal_unknown
            then rmap (\<lambda>o'. '':'' @ o') (xfstize_symbol (tr_output tr)) else Inr []) (\<lambda>o'.
     Inr ((if tr_input tr \<noteq> tr_output tr then ''<'' else []) @ i @ o' @
          (if tr_input tr \<noteq> tr_output tr then ''>'' else []))))"

definition write_in_xfst_format :: "(nat \<Rightarrow> string) \<Rightarrow> 'w hbt \<Rightarrow> string result" where
  "write_in_xfst_format pn g =
     rfold (\<lambda>s os.
       rmap (\<lambda>(arcs, first). os @ print_xfst_state pn g s @ [CHR '':'', CHR 0x09] @
               (if state_vector g ! s = [] then ''(no arcs)'' else arcs) @ [CHR ''.'', CHR 0x0A])
         (rfold (\<lambda>tr (arcs, first).
             rmap (\<lambda>a. (arcs @ (if first then [] else '', '') @ a @ '' -> '' @
                         print_xfst_state pn g (tr_target tr), False)) (print_xfst_arc tr))
            (state_vector g ! s) ([], True)))
       [0..<length (state_vector g)] []"

section \<open>Prolog symbols\<close>

definition prologize_symbol :: "string \<Rightarrow> string result" where
  "prologize_symbol symbol =
     (if symbol = ''0'' then Inr ''%0''
      else if symbol = ''?'' then Inr ''%?''
      else if symbol = internal_epsilon then Inr ''0''
      else if symbol = internal_unknown then Inr ''?''
      else if symbol = internal_identity then Inr ''?''
      else rbind (of_option (replace_all symbol [CHR 0x5C] [CHR 0x5C, CHR 0x5C])) (\<lambda>r.
           of_option (replace_all r [CHR 0x22] [CHR 0x5C, CHR 0x22])))"

definition deprologize_symbol :: "string \<Rightarrow> string result" where
  "deprologize_symbol symbol =
     (if symbol = ''%0'' then Inr ''0''
      else if symbol = ''%?'' then Inr ''?''
      else if symbol = ''0'' then Inr internal_epsilon
      else if symbol = ''?'' then Inr internal_unknown
      else rbind (of_option (replace_all symbol [CHR 0x5C, CHR 0x22] [CHR 0x22])) (\<lambda>r.
           of_option (replace_all r [CHR 0x5C, CHR 0x5C] [CHR 0x5C])))"

definition quoted :: "string \<Rightarrow> string" where
  "quoted s = [CHR 0x22] @ s @ [CHR 0x22]"

definition print_prolog_arc_symbols :: "'w transition \<Rightarrow> string result" where
  "print_prolog_arc_symbols tr =
     rbind (prologize_symbol (tr_input tr)) (\<lambda>i.
       if tr_input tr \<noteq> tr_output tr \<or> tr_input tr = internal_unknown
       then rmap (\<lambda>o'. quoted i @ '':'' @ quoted o') (prologize_symbol (tr_output tr))
       else Inr (quoted i))"

definition write_in_prolog_format ::
  "(nat \<Rightarrow> string) \<Rightarrow> ('w \<Rightarrow> string) \<Rightarrow> string \<Rightarrow> bool \<Rightarrow> 'w hbt \<Rightarrow> string result" where
  "write_in_prolog_format pn pw name write_weights g =
     (if str_find name '','' 0 \<noteq> None
      then Inl (HfstException ''no commas allowed in the name of prolog networks'')
      else
        let weight = (\<lambda>w. if write_weights then '', '' @ pw w else []);
            os0 = ''network('' @ name @ '').'' @ [CHR 0x0A];
            used = initialize_alphabet (symbols_used g)
        in rbind (rfold (\<lambda>x os.
               if x \<notin> used then rmap (\<lambda>p. os @ ''symbol('' @ name @ '', '' @ quoted p @ '').'' @ [CHR 0x0A])
                                  (prologize_symbol x)
               else Inr os) (sorted_list_of_set (alphabet g)) os0) (\<lambda>os1.
           rbind (rfold (\<lambda>s os.
               rfold (\<lambda>tr os. rmap (\<lambda>p. os @ ''arc('' @ name @ '', '' @ pn s @ '', '' @ pn (tr_target tr) @
                   '', '' @ p @ weight (tr_weight tr) @ '').'' @ [CHR 0x0A]) (print_prolog_arc_symbols tr))
                 (state_vector g ! s) os)
               [0..<length (state_vector g)] os1) (\<lambda>os2.
           Inr (os2 @ concat (map (\<lambda>(s, w). ''final('' @ name @ '', '' @ pn s @ weight w @ '').'' @ [CHR 0x0A])
             (map_entries (final_weight_map g)))))))"

section \<open>Parsing\<close>

definition strip_quotes_from_both_sides :: "string \<Rightarrow> string option" where
  "strip_quotes_from_both_sides str =
     (if length str < 3 then None
      else if str ! 0 \<noteq> CHR 0x22 \<or> str ! (length str - 1) \<noteq> CHR 0x22 then None
      else Some (butlast (tl str)))"

definition strip_ending_parenthesis_and_comma :: "string \<Rightarrow> string option" where
  "strip_ending_parenthesis_and_comma str =
     (if length str < 3 then None
      else if str ! (length str - 2) \<noteq> CHR '')'' \<or> str ! (length str - 1) \<noteq> CHR ''.'' then None
      else Some (take (length str - 2) str))"

text \<open>\<open>sscanf\<close>: literal characters, white space, \<open>%s\<close> and \<open>%[^...]\<close>. The result lists the fields
  stored before the first directive that fails.\<close>

datatype directive = Lit char | Spaces | Word | Until string

fun sscanf :: "directive list \<Rightarrow> string \<Rightarrow> string list" where
  "sscanf [] s = []"
| "sscanf (Lit c # ds) s = (if s \<noteq> [] \<and> hd s = c then sscanf ds (tl s) else [])"
| "sscanf (Spaces # ds) s = sscanf ds (dropWhile isspace s)"
| "sscanf (Word # ds) s =
     (let t = dropWhile isspace s; w = takeWhile (\<lambda>c. \<not> isspace c) t
      in if w = [] then [] else w # sscanf ds (dropWhile (\<lambda>c. \<not> isspace c) t))"
| "sscanf (Until stop # ds) s =
     (let w = takeWhile (\<lambda>c. c \<notin> set stop) s
      in if w = [] then [] else w # sscanf ds (dropWhile (\<lambda>c. c \<notin> set stop) s))"

definition sscanf_100 :: "directive list \<Rightarrow> string \<Rightarrow> string list result" where
  "sscanf_100 ds s =
     (let fs = sscanf ds s in if list_all (\<lambda>f. length f < 100) fs then Inr fs else Inl UndefinedBehaviour)"

definition parse_prolog_network_line :: "string \<Rightarrow> 'w hbt \<Rightarrow> (bool \<times> 'w hbt) result" where
  "parse_prolog_network_line line g =
     rmap (\<lambda>fs. if length fs \<noteq> 1 then (False, g)
        else case strip_ending_parenthesis_and_comma (fs ! 0) of
            None \<Rightarrow> (False, g)
          | Some namestr \<Rightarrow> (True, g\<lparr>hbt_name := namestr\<rparr>))
       (sscanf_100 (map Lit ''network('' @ [Word]) (c_str line))"

definition get_positions_of_unescaped_char :: "string \<Rightarrow> char \<Rightarrow> char \<Rightarrow> nat list" where
  "get_positions_of_unescaped_char str c esc =
     filter (\<lambda>i. str ! i = c \<and> (if i = 0 then True else if str ! (i - 1) = esc then False else True))
       [0..<length str]"

definition substring :: "string \<Rightarrow> nat \<Rightarrow> nat \<Rightarrow> string" where
  "substring str i j = take (j - i - 1) (drop (i + 1) str)"

definition get_prolog_arc_symbols :: "string \<Rightarrow> string_pair option result" where
  "get_prolog_arc_symbols str =
     (let q = get_positions_of_unescaped_char str (CHR 0x22) (CHR 0x5C) in
      if length q = 2 then
        (if q ! 0 \<noteq> 0 \<or> q ! 1 \<noteq> length str - 1 then Inr None
         else rmap (\<lambda>i. let isymbol = (if i = internal_unknown then internal_identity else i)
                        in Some (isymbol, isymbol))
                (deprologize_symbol (substring str (q ! 0) (q ! 1))))
      else if length q = 4 then
        (if q ! 0 \<noteq> 0 \<or> q ! 3 \<noteq> length str - 1 then Inr None
         else if q ! 2 - q ! 1 \<noteq> 2 then Inr None
         else if str ! (q ! 1 + 1) \<noteq> CHR '':'' then Inr None
         else rbind (deprologize_symbol (substring str (q ! 0) (q ! 1))) (\<lambda>i.
              rmap (\<lambda>o'. Some (i, o')) (deprologize_symbol (substring str (q ! 2) (q ! 3)))))
      else Inr None)"

definition extract_weight ::
  "(string \<Rightarrow> 'w option) \<Rightarrow> string \<Rightarrow> 'w \<Rightarrow> (string \<times> 'w) option" where
  "extract_weight rw symbol weight =
     (case str_find_last_of symbol (CHR 0x22) of
        None \<Rightarrow> None
      | Some last_double_quote \<Rightarrow>
          (case str_find_last_of symbol (CHR '' '') of
             None \<Rightarrow> Some (symbol, weight)
           | Some last_space \<Rightarrow>
               if last_double_quote > last_space then Some (symbol, weight)
               else if last_double_quote + 2 = last_space \<and> last_space < length symbol - 1
               then (case rw (drop (last_space + 1) symbol) of
                       None \<Rightarrow> None
                     | Some w \<Rightarrow> Some (take (last_space - 1) symbol, w))
               else None))"

text \<open>The arc line reads \<open>symbolstr\<close> before it looks at the number of fields stored.\<close>

definition parse_prolog_arc_line ::
  "(string \<Rightarrow> 'w option) \<Rightarrow> string \<Rightarrow> 'w::zero hbt \<Rightarrow> (bool \<times> 'w hbt) result" where
  "parse_prolog_arc_line rw line g =
     rbind (sscanf_100 (map Lit ''arc('' @ [Until '','', Lit (CHR '',''), Spaces, Until '','',
              Lit (CHR '',''), Spaces, Until '','', Lit (CHR '',''), Spaces,
              Until [CHR 0x09, CHR 0x0A]]) (c_str line)) (\<lambda>fs.
       if length fs < 4 then Inl UndefinedBehaviour
       else case strip_ending_parenthesis_and_comma (fs ! 3) of
           None \<Rightarrow> Inr (False, g)
         | Some symbol \<Rightarrow>
             if fs ! 0 \<noteq> hbt_name g then Inr (False, g)
             else rbind (atoi_state (fs ! 1)) (\<lambda>source.
                  rbind (atoi_state (fs ! 2)) (\<lambda>target.
                  case extract_weight rw symbol 0 of
                    None \<Rightarrow> Inr (False, g)
                  | Some (sym1, weight) \<Rightarrow>
                      rbind (get_prolog_arc_symbols sym1) (\<lambda>io. case io of
                          None \<Rightarrow> Inr (False, g)
                        | Some (i, o') \<Rightarrow>
                            rmap (\<lambda>tr. (True, add_transition source tr True g))
                              (new_transition target i o' weight)))))"

definition parse_prolog_final_line ::
  "(string \<Rightarrow> 'w option) \<Rightarrow> string \<Rightarrow> 'w::zero hbt \<Rightarrow> (bool \<times> 'w hbt) result" where
  "parse_prolog_final_line rw line g =
     (let number_of_commas = length (filter (\<lambda>c. c = CHR '','') line);
          finish = (\<lambda>namestr finalstr weight.
            if namestr \<noteq> hbt_name g then Inr (False, g)
            else rmap (\<lambda>s. (True, set_final_weight s weight g)) (atoi_state finalstr))
      in if number_of_commas = 1 then
           rbind (sscanf_100 (map Lit ''final('' @ [Until '','', Lit (CHR '',''), Spaces, Until '')'',
                    Lit (CHR '')''), Lit (CHR ''.'')]) (c_str line)) (\<lambda>fs.
             if length fs \<noteq> 2 then Inr (False, g) else finish (fs ! 0) (fs ! 1) 0)
         else if number_of_commas = 2 then
           rbind (sscanf_100 (map Lit ''final('' @ [Until '','', Lit (CHR '',''), Spaces, Until '','',
                    Lit (CHR '',''), Spaces, Until '')'', Lit (CHR '')''), Lit (CHR ''.'')])
                    (c_str line)) (\<lambda>fs.
             if length fs \<noteq> 3 then Inr (False, g)
             else case rw (fs ! 2) of
                 None \<Rightarrow> Inr (False, g)
               | Some weight \<Rightarrow> finish (fs ! 0) (fs ! 1) weight)
         else Inr (False, g))"

definition parse_prolog_symbol_line :: "string \<Rightarrow> 'w hbt \<Rightarrow> (bool \<times> 'w hbt) result" where
  "parse_prolog_symbol_line line g =
     rbind (sscanf_100 (map Lit ''symbol('' @ [Until '','', Lit (CHR '',''), Spaces, Word]) (c_str line)) (\<lambda>fs.
       if length fs \<noteq> 2 then Inr (False, g)
       else if fs ! 0 \<noteq> hbt_name g then Inr (False, g)
       else case strip_ending_parenthesis_and_comma (fs ! 1) of
           None \<Rightarrow> Inr (False, g)
         | Some symbolstr \<Rightarrow>
             (case strip_quotes_from_both_sides symbolstr of
                None \<Rightarrow> Inr (False, g)
              | Some sym1 \<Rightarrow>
                  rmap (\<lambda>x. (True, add_symbol_to_alphabet x g)) (deprologize_symbol sym1)))"

fun strip_newlines_rev :: "string \<Rightarrow> string" where
  "strip_newlines_rev [] = []"
| "strip_newlines_rev (c # cs) =
     (if c = CHR 0x0A \<or> c = CHR 0x0D then strip_newlines_rev cs else c # cs)"

definition strip_newlines :: "string \<Rightarrow> string" where
  "strip_newlines str = rev (strip_newlines_rev (rev str))"

text \<open>\<open>get_stripped_line\<close> on a \<open>FILE\<close>.\<close>

definition get_stripped_line :: "string \<Rightarrow> nat \<Rightarrow> (string \<times> string \<times> nat) result" where
  "get_stripped_line content linecount =
     (case fgets_255 content of
        None \<Rightarrow> Inl EndOfStreamException
      | Some (l, rest) \<Rightarrow> Inr (strip_newlines (c_str l), rest, linecount + 1))"

lemma get_stripped_line_decreases:
  "get_stripped_line content n = Inr (l, rest, m) \<Longrightarrow> length rest < length content"
  by (auto simp: get_stripped_line_def split: option.splits dest: fgets_255_decreases)

function prolog_first_line :: "string \<Rightarrow> nat \<Rightarrow> (string \<times> string \<times> nat) result" where
  "prolog_first_line content linecount =
     (case get_stripped_line content linecount of
        Inl e \<Rightarrow> Inl (if e = EndOfStreamException then NotValidPrologFormatException else e)
      | Inr (l, rest, n) \<Rightarrow>
          if length l \<noteq> 0 \<and> l ! 0 = CHR ''#'' then prolog_first_line rest n
          else Inr (l, rest, n))"
  by pat_completeness auto
termination
  by (relation "measure (\<lambda>(c, n). length c)") (auto dest: get_stripped_line_decreases)

declare prolog_first_line.simps [simp del]

definition parse_prolog_line ::
  "(string \<Rightarrow> 'w option) \<Rightarrow> string \<Rightarrow> 'w::zero hbt \<Rightarrow> (bool \<times> 'w hbt) result" where
  "parse_prolog_line rw line g =
     rbind (parse_prolog_arc_line rw line g) (\<lambda>(ok1, g1).
       if ok1 then Inr (True, g1)
       else rbind (parse_prolog_final_line rw line g1) (\<lambda>(ok2, g2).
         if ok2 then Inr (True, g2) else parse_prolog_symbol_line line g2))"

function prolog_loop ::
  "(string \<Rightarrow> 'w option) \<Rightarrow> string \<Rightarrow> nat \<Rightarrow> 'w::zero hbt \<Rightarrow> ('w hbt \<times> string \<times> nat) result" where
  "prolog_loop rw content linecount g =
     (case get_stripped_line content linecount of
        Inl e \<Rightarrow> if e = EndOfStreamException then Inr (g, content, linecount) else Inl e
      | Inr (l, rest, n) \<Rightarrow>
          if l = [] then Inr (g, rest, n)
          else (case parse_prolog_line rw l g of
                  Inl e \<Rightarrow> Inl e
                | Inr (ok, g') \<Rightarrow>
                    if \<not> ok then Inl NotValidPrologFormatException else prolog_loop rw rest n g'))"
  by pat_completeness auto
termination
  by (relation "measure (\<lambda>(rw, c, n, g). length c)") (auto dest: get_stripped_line_decreases)

declare prolog_loop.simps [simp del]

definition read_in_prolog_format ::
  "(string \<Rightarrow> 'w option) \<Rightarrow> string \<Rightarrow> nat \<Rightarrow> ('w::zero hbt \<times> string \<times> nat) result" where
  "read_in_prolog_format rw content linecount =
     rbind (prolog_first_line content linecount) (\<lambda>(l, rest, n).
     rbind (parse_prolog_network_line l new_hbt) (\<lambda>(ok, g).
       if \<not> ok then Inl NotValidPrologFormatException else prolog_loop rw rest n g))"

section \<open>Escaping undone\<close>

lemma replaced_char: "replaced [c] r s = concat (map (\<lambda>x. if x = c then r else [x]) s)"
  by (induction s) auto

fun prolog_escape :: "char \<Rightarrow> string" where
  "prolog_escape c =
     (if c = CHR 0x5C then [CHR 0x5C, CHR 0x5C]
      else if c = CHR 0x22 then [CHR 0x5C, CHR 0x22] else [c])"

definition prolog_code :: "string \<Rightarrow> string" where
  "prolog_code s = concat (map prolog_escape s)"

definition prolog_special :: "string \<Rightarrow> bool" where
  "prolog_special s \<longleftrightarrow> s = ''0'' \<or> s = ''?'' \<or> s = internal_epsilon \<or> s = internal_unknown \<or>
     s = internal_identity"

lemma prolog_code_simps [simp]:
  "prolog_code [] = []" "prolog_code (c # s) = prolog_escape c @ prolog_code s"
  by (simp_all add: prolog_code_def)

lemma prologize_code: "\<not> prolog_special s \<Longrightarrow> prologize_symbol s = Inr (prolog_code s)"
proof -
  have "replaced [CHR 0x22] [CHR 0x5C, CHR 0x22] (replaced [CHR 0x5C] [CHR 0x5C, CHR 0x5C] s) = prolog_code s"
    by (induction s) (auto simp: replaced_char)
  then show "\<not> prolog_special s \<Longrightarrow> prologize_symbol s = Inr (prolog_code s)"
    by (simp add: prologize_symbol_def prolog_special_def replace_all_correct_total)
qed

lemma prolog_code_not_quote: "prolog_code s = c # cs \<Longrightarrow> c \<noteq> CHR 0x22"
  by (cases s) (auto split: if_splits)

lemma unescape_quotes:
  "replaced [CHR 0x5C, CHR 0x22] [CHR 0x22] (prolog_code s) =
     concat (map (\<lambda>c. if c = CHR 0x5C then [CHR 0x5C, CHR 0x5C] else [c]) s)"
proof (induction s)
  case (Cons c s)
  have "\<not> prefix [CHR 0x5C, CHR 0x22] (CHR 0x5C # prolog_code s)"
    using prolog_code_not_quote [of s] by (cases "prolog_code s") auto
  with Cons show ?case by auto
qed simp

lemma unescape_backslashes:
  "replaced [CHR 0x5C, CHR 0x5C] [CHR 0x5C]
     (concat (map (\<lambda>c. if c = CHR 0x5C then [CHR 0x5C, CHR 0x5C] else [c]) s)) = s"
  by (induction s) auto

lemma prolog_decode:
  "replaced [CHR 0x5C, CHR 0x5C] [CHR 0x5C] (replaced [CHR 0x5C, CHR 0x22] [CHR 0x22] (prolog_code s)) = s"
  by (simp only: unescape_quotes unescape_backslashes)

lemma prolog_code_special:
  "prolog_code s = ''0'' \<Longrightarrow> s = ''0''" "prolog_code s = ''?'' \<Longrightarrow> s = ''?''"
  "prolog_code s = ''%0'' \<Longrightarrow> s = ''%0''" "prolog_code s = ''%?'' \<Longrightarrow> s = ''%?''"
  using prolog_decode [of s] by auto

lemma deprologize_code:
  assumes "\<not> prolog_special s" and "s \<noteq> ''%0''" and "s \<noteq> ''%?''"
  shows "deprologize_symbol (prolog_code s) = Inr s"
  using assms prolog_code_special [of s]
  by (auto simp: deprologize_symbol_def prolog_special_def replace_all_correct_total prolog_decode)

section \<open>Finding the quotes\<close>

fun quote_positions :: "char option \<Rightarrow> nat \<Rightarrow> string \<Rightarrow> nat list" where
  "quote_positions p i [] = []"
| "quote_positions p i (c # s) =
     (if c = CHR 0x22 \<and> p \<noteq> Some (CHR 0x5C) then i # quote_positions (Some c) (Suc i) s
      else quote_positions (Some c) (Suc i) s)"

lemma quote_positions_eq:
  "str = pre @ s \<Longrightarrow> p = (if pre = [] then None else Some (last pre)) \<Longrightarrow>
   filter (\<lambda>i. str ! i = CHR 0x22 \<and> (if i = 0 then True else if str ! (i - 1) = CHR 0x5C then False else True))
     [length pre..<length str] = quote_positions p (length pre) s"
proof (induction s arbitrary: pre p)
  case Nil
  then show ?case by simp
next
  case (Cons c s)
  have range: "[length pre..<length str] = length pre # [length (pre @ [c])..<length str]"
    using Cons.prems(1) upt_conv_Cons [of "length pre" "length str"] by simp
  have at: "str ! length pre = c" and before: "pre \<noteq> [] \<Longrightarrow> str ! (length pre - 1) = last pre"
    using Cons.prems(1) by (simp_all add: nth_append last_conv_nth)
  have IH: "filter (\<lambda>i. str ! i = CHR 0x22 \<and> (if i = 0 then True else if str ! (i - 1) = CHR 0x5C then False else True))
     [length (pre @ [c])..<length str] = quote_positions (Some c) (length (pre @ [c])) s"
    using Cons.prems by (intro Cons.IH) auto
  show ?case
    unfolding range filter.simps IH using at before Cons.prems(2) by (cases "pre = []") auto
qed

lemma get_positions_quote:
  "get_positions_of_unescaped_char str (CHR 0x22) (CHR 0x5C) = quote_positions None 0 str"
  using quote_positions_eq [of str "[]" str None] by (simp add: get_positions_of_unescaped_char_def)

lemma quote_positions_append:
  "quote_positions p i (s @ t) =
     quote_positions p i s @ quote_positions (if s = [] then p else Some (last s)) (i + length s) t"
  by (induction s arbitrary: p i) auto

lemma quote_positions_code: "quote_positions p i (prolog_code s) = []"
  by (induction s arbitrary: p i) auto

definition prologized :: "string \<Rightarrow> string" where
  "prologized s =
     (if s = ''0'' then ''%0'' else if s = ''?'' then ''%?'' else if s = internal_epsilon then ''0''
      else if s = internal_unknown \<or> s = internal_identity then ''?'' else prolog_code s)"

lemma prologize_eq: "prologize_symbol s = Inr (prologized s)"
  using prologize_code [of s]
  by (cases "prolog_special s") (auto simp: prologize_symbol_def prologized_def prolog_special_def)

lemma quote_positions_prologized [simp]: "quote_positions p i (prologized s) = []"
  by (simp add: prologized_def quote_positions_code)

lemma last_prolog_code: "s \<noteq> [] \<Longrightarrow> last s \<noteq> CHR 0x5C \<Longrightarrow>
  prolog_code s \<noteq> [] \<and> last (prolog_code s) \<noteq> CHR 0x5C"
  by (induction s) (auto split: if_splits)

lemma last_prolog_code_backslash:
  "s \<noteq> [] \<Longrightarrow> last s = CHR 0x5C \<Longrightarrow> prolog_code s \<noteq> [] \<and> last (prolog_code s) = CHR 0x5C"
  by (induction s) (auto split: if_splits)

lemma last_prologized:
  "s \<noteq> [] \<Longrightarrow> last s \<noteq> CHR 0x5C \<Longrightarrow> prologized s \<noteq> [] \<and> last (prologized s) \<noteq> CHR 0x5C"
  using last_prolog_code [of s] by (auto simp: prologized_def)

lemma quote_positions_quoted:
  assumes "s \<noteq> []" and "last s \<noteq> CHR 0x5C" and "p \<noteq> Some (CHR 0x5C)"
  shows "quote_positions p i (quoted (prologized s)) = [i, i + length (prologized s) + 1]"
  using last_prologized [OF assms(1,2)] assms(3)
  by (simp add: quoted_def quote_positions_append)

lemma deprologize_prologized:
  "s \<noteq> ''%0'' \<Longrightarrow> s \<noteq> ''%?'' \<Longrightarrow>
     deprologize_symbol (prologized s) = Inr (if s = internal_identity then internal_unknown else s)"
proof (cases "prolog_special s")
  case True
  then consider "s = ''0''" | "s = ''?''" | "s = internal_epsilon" | "s = internal_unknown"
    | "s = internal_identity" by (auto simp: prolog_special_def)
  then show ?thesis
    by cases (simp_all add: prologized_def deprologize_symbol_def special_symbol_defs)
next
  case False
  moreover assume "s \<noteq> ''%0''" "s \<noteq> ''%?''"
  moreover have "prologized s = prolog_code s" "s \<noteq> internal_identity"
    using False by (auto simp: prologized_def prolog_special_def)
  ultimately show ?thesis using deprologize_code [of s] by simp
qed

lemma prologized_percent:
  "deprologize_symbol (prologized ''%0'') = Inr ''0''" "deprologize_symbol (prologized ''%?'') = Inr ''?''"
  by (simp_all add: prologized_def deprologize_symbol_def special_symbol_defs)

lemma substring_quoted: "length a = i \<Longrightarrow> substring (a @ [q] @ t @ b) i (i + length t + 1) = t"
  by (simp add: substring_def)

lemma arc_symbols_two:
  assumes "quote_positions None 0 str = [0, length str - 1]"
  shows "get_prolog_arc_symbols str =
     rmap (\<lambda>i. let isymbol = (if i = internal_unknown then internal_identity else i)
               in Some (isymbol, isymbol)) (deprologize_symbol (substring str 0 (length str - 1)))"
  using assms by (simp add: get_prolog_arc_symbols_def get_positions_quote)

lemma arc_symbols_four:
  assumes "quote_positions None 0 str = [0, b, b + 2, length str - 1]" and "str ! (b + 1) = CHR '':''"
  shows "get_prolog_arc_symbols str =
     rbind (deprologize_symbol (substring str 0 b)) (\<lambda>i.
       rmap (\<lambda>o'. Some (i, o')) (deprologize_symbol (substring str (b + 2) (length str - 1))))"
  using assms by (simp add: get_prolog_arc_symbols_def get_positions_quote)

lemma quoted_pair_positions:
  assumes "i \<noteq> []" "last i \<noteq> CHR 0x5C" "out \<noteq> []" "last out \<noteq> CHR 0x5C"
    and "s = quoted (prologized i) @ '':'' @ quoted (prologized out)" and "b = length (prologized i) + 1"
  shows "quote_positions None 0 s = [0, b, b + 2, length s - 1]" and "s ! (b + 1) = CHR '':''"
    and "substring s 0 b = prologized i" and "substring s (b + 2) (length s - 1) = prologized out"
proof -
  have q: "quote_positions (Some (CHR '':'')) (b + 2) (quoted (prologized out)) =
      [b + 2, b + 2 + length (prologized out) + 1]"
    using assms by (intro quote_positions_quoted) auto
  have len: "length s = b + 2 + length (prologized out) + 2" by (simp add: assms(5,6) quoted_def)
  show "quote_positions None 0 s = [0, b, b + 2, length s - 1]"
    using quote_positions_quoted [of i None 0] q assms(1,2) len
    by (simp add: assms(5,6) quote_positions_append) (simp add: quoted_def)
  show "s ! (b + 1) = CHR '':''" by (simp add: assms(5,6) quoted_def nth_append)
  show "substring s 0 b = prologized i"
    using substring_quoted [of "[]" 0 "CHR 0x22" "prologized i"] by (simp add: assms(5,6) quoted_def)
  show "substring s (b + 2) (length s - 1) = prologized out"
    using substring_quoted [of "quoted (prologized i) @ '':''" "b + 2" "CHR 0x22" "prologized out" "[CHR 0x22]"]
    by (simp add: assms(5,6) quoted_def)
qed

section \<open>Properties\<close>

text \<open>Reading back a prolog symbol gives the symbol that was written, with exactly three
  exceptions: \<open>%0\<close> and \<open>%?\<close> lose their percent sign, and identity comes back as unknown.\<close>

theorem prolog_symbol_roundtrip:
  "rbind (prologize_symbol s) deprologize_symbol =
     Inr (if s = ''%0'' then ''0'' else if s = ''%?'' then ''?''
          else if s = internal_identity then internal_unknown else s)"
proof (cases "s = ''%0'' \<or> s = ''%?''")
  case True
  then show ?thesis by (auto simp: prologize_eq prologized_percent)
next
  case False
  with deprologize_prologized [of s] show ?thesis by (simp add: prologize_eq)
qed

text \<open>C38. The symbols of a printed prolog arc are read back as they were, when neither is \<open>%0\<close> or
  \<open>%?\<close> or ends in a backslash, and identity stands on both sides or on none.\<close>

theorem prolog_arc_roundtrip:
  assumes "tr_input tr \<notin> {[], ''%0'', ''%?''}" and "tr_output tr \<notin> {[], ''%0'', ''%?''}"
    and "last (tr_input tr) \<noteq> CHR 0x5C" and "last (tr_output tr) \<noteq> CHR 0x5C"
    and "tr_input tr = internal_identity \<or> tr_output tr = internal_identity \<Longrightarrow> tr_input tr = tr_output tr"
  shows "rbind (print_prolog_arc_symbols tr) get_prolog_arc_symbols = Inr (Some (tr_input tr, tr_output tr))"
proof -
  let ?i = "tr_input tr" and ?o = "tr_output tr"
  let ?pi = "prologized ?i" and ?po = "prologized ?o"
  show ?thesis
  proof (cases "?i \<noteq> ?o \<or> ?i = internal_unknown")
    case True
    let ?s = "quoted ?pi @ '':'' @ quoted ?po"
    have sym: "?i \<noteq> []" "last ?i \<noteq> CHR 0x5C" "?o \<noteq> []" "last ?o \<noteq> CHR 0x5C" using assms by auto
    note pos = quoted_pair_positions [OF sym refl refl]
    have "get_prolog_arc_symbols ?s = rbind (deprologize_symbol ?pi) (\<lambda>i.
        rmap (\<lambda>o'. Some (i, o')) (deprologize_symbol ?po))"
      using arc_symbols_four [OF pos(1,2)] unfolding pos(3,4) .
    then have "get_prolog_arc_symbols ?s = Inr (Some (?i, ?o))"
      using deprologize_prologized [of ?i] deprologize_prologized [of ?o] assms True by auto
    with True show ?thesis by (simp add: print_prolog_arc_symbols_def prologize_eq)
  next
    case False
    have len: "length (quoted ?pi) - 1 = length ?pi + 1" by (simp add: quoted_def)
    have pos: "quote_positions None 0 (quoted ?pi) = [0, length (quoted ?pi) - 1]"
      using quote_positions_quoted [of ?i None 0] assms len by simp
    have "substring (quoted ?pi) 0 (length (quoted ?pi) - 1) = ?pi"
      using substring_quoted [of "[]" 0 "CHR 0x22" ?pi "[CHR 0x22]"] by (simp add: quoted_def)
    with arc_symbols_two [OF pos] have "get_prolog_arc_symbols (quoted ?pi) =
      rmap (\<lambda>i. let isymbol = (if i = internal_unknown then internal_identity else i)
               in Some (isymbol, isymbol)) (deprologize_symbol ?pi)" by simp
    then have "get_prolog_arc_symbols (quoted ?pi) = Inr (Some (?i, ?o))"
      using deprologize_prologized [of ?i] assms False by (auto simp: Let_def)
    with False show ?thesis by (simp add: print_prolog_arc_symbols_def prologize_eq)
  qed
qed

lemma prolog_arc_roundtrip_witness:
  "rbind (print_prolog_arc_symbols \<lparr>tr_target = 0, tr_input = [CHR ''a'', CHR 0x22], tr_output = ''0'', tr_weight = 0 :: int\<rparr>)
     get_prolog_arc_symbols = Inr (Some ([CHR ''a'', CHR 0x22], ''0''))"
  using prolog_arc_roundtrip [of "\<lparr>tr_target = 0, tr_input = [CHR ''a'', CHR 0x22], tr_output = ''0'', tr_weight = 0 :: int\<rparr>"]
  by (simp add: special_symbol_defs)

text \<open>A symbol that ends in a backslash cannot be read back: the closing quote counts as
  escaped and the arc is refused.\<close>

theorem prolog_arc_backslash_refused:
  assumes "tr_input tr = s @ [CHR 0x5C]" and "tr_output tr = tr_input tr"
  shows "rbind (print_prolog_arc_symbols tr) get_prolog_arc_symbols = Inr None"
proof -
  have ns: "\<not> prolog_special (tr_input tr)"
    using assms(1) by (auto simp: prolog_special_def special_symbol_defs append_eq_Cons_conv)
  then have p: "prologized (tr_input tr) = prolog_code (tr_input tr)"
    by (auto simp: prologized_def prolog_special_def)
  have "prolog_code (tr_input tr) \<noteq> [] \<and> last (prolog_code (tr_input tr)) = CHR 0x5C"
    using assms(1) by (intro last_prolog_code_backslash) simp_all
  then have "quote_positions None 0 (quoted (prologized (tr_input tr))) = [0]"
    unfolding p by (simp add: quoted_def quote_positions_append quote_positions_code)
  moreover have "tr_input tr \<noteq> internal_unknown" using ns by (auto simp: prolog_special_def)
  ultimately show ?thesis
    using assms(2) by (simp add: print_prolog_arc_symbols_def prologize_eq get_prolog_arc_symbols_def
        get_positions_quote Let_def)
qed

lemma prolog_arc_backslash_refused_witness:
  "rbind (print_prolog_arc_symbols \<lparr>tr_target = 0, tr_input = [CHR 0x5C], tr_output = [CHR 0x5C], tr_weight = 0 :: int\<rparr>)
     get_prolog_arc_symbols = Inr None"
  by (rule prolog_arc_backslash_refused [of _ "[]"]) simp_all

text \<open>A line that does not begin with \<open>arc(\<close>, such as the line of a final state, makes
  \<open>parse_prolog_arc_line\<close>, which is tried first, read an array nothing was stored in.\<close>

theorem prolog_other_lines_undefined:
  assumes "\<not> prefix ''arc('' (c_str line)"
  shows "parse_prolog_line rw line g = Inl UndefinedBehaviour"
proof -
  have lits: "\<not> prefix w s \<Longrightarrow> sscanf (map Lit w @ ds) s = []" for w s ds
  proof (induction w arbitrary: s)
    case (Cons c w)
    then show ?case by (cases s) auto
  qed simp
  from lits [OF assms] show ?thesis
    by (simp add: parse_prolog_line_def parse_prolog_arc_line_def sscanf_100_def del: list.map append.simps)
qed

lemma prolog_other_lines_undefined_witness:
  "parse_prolog_line (\<lambda>_. None) ''final(N, 0).'' (new_hbt :: int hbt) = Inl UndefinedBehaviour"
  by (rule prolog_other_lines_undefined) (simp add: c_str_def)

end
