(* ===== verification/Rewriting.thy ===== *)
theory Rewriting
  imports BasicTransducer
begin

text \<open>
  The loop most operations of \<open>HfstBasicTransducer\<close> share: go through all states and all their
  transitions, put another transition in the place of the current one, schedule transitions
  to be appended to the state when its transitions have been gone through, and carry
  something along (the alphabet, a flag). The body of the loop may throw. The locale
  \<open>rewriting\<close> states what a body must do for the graph to stay well-formed; the operations
  that use the loop interpret it where they are defined. At the end, labels and weights of
  paths.
\<close>

section \<open>The loop over all transitions\<close>

type_synonym ('w, 'a) transition_body =
  "'w transition \<Rightarrow> 'a \<Rightarrow> ('w transition \<times> 'w transition list \<times> 'a) result"

fun edit_state ::
  "('w, 'a) transition_body \<Rightarrow> 'w transition list \<Rightarrow> 'a \<Rightarrow>
     ('w transition list \<times> 'w transition list \<times> 'a) result" where
  "edit_state f [] a = Inr ([], [], a)"
| "edit_state f (tr # trs) a =
     rbind (f tr a) (\<lambda>(tr', new, a1).
       rmap (\<lambda>(trs', news, a2). (tr' # trs', new @ news, a2)) (edit_state f trs a1))"

fun edit_states ::
  "('w, 'a) transition_body \<Rightarrow> 'w transition list list \<Rightarrow> 'a \<Rightarrow>
     ('w transition list list \<times> 'a) result" where
  "edit_states f [] a = Inr ([], a)"
| "edit_states f (trs # sv) a =
     rbind (edit_state f trs a) (\<lambda>(trs', new_transitions, a1).
       rmap (\<lambda>(sv', a2). ((trs' @ new_transitions) # sv', a2)) (edit_states f sv a1))"

text \<open>The loop with the alphabet as what is carried along.\<close>

definition edit_transitions :: "('w, string set) transition_body \<Rightarrow> 'w hbt \<Rightarrow> 'w hbt result" where
  "edit_transitions f g =
     rmap (\<lambda>(sv, A). g\<lparr>state_vector := sv, alphabet := A\<rparr>)
       (edit_states f (state_vector g) (alphabet g))"

lemma edit_state_simple:
  assumes "\<And>tr a. tr \<in> set trs \<Longrightarrow> f tr a = Inr (h tr, n tr, k tr a)"
  shows "edit_state f trs a = Inr (map h trs, concat (map n trs), fold k trs a)"
  using assms by (induction trs arbitrary: a) auto

lemma edit_states_simple:
  assumes "\<And>tr a. \<exists>trs \<in> set sv. tr \<in> set trs \<Longrightarrow> f tr a = Inr (h tr, n tr, k tr a)"
  shows "edit_states f sv a =
     Inr (map (\<lambda>trs. map h trs @ concat (map n trs)) sv, fold (fold k) sv a)"
  using assms
proof (induction sv arbitrary: a)
  case Nil
  then show ?case by simp
next
  case (Cons trs sv)
  have "edit_state f trs a = Inr (map h trs, concat (map n trs), fold k trs a)"
    using Cons.prems by (intro edit_state_simple) auto
  moreover have "edit_states f sv (fold k trs a) =
      Inr (map (\<lambda>trs. map h trs @ concat (map n trs)) sv, fold (fold k) sv (fold k trs a))"
    using Cons.prems by (intro Cons.IH) auto
  ultimately show ?case by simp
qed

lemma fold_collect_sets:
  "fold (fold (\<lambda>tr A. A \<union> new tr)) sv A = A \<union> (\<Union>trs \<in> set sv. \<Union>tr \<in> set trs. new tr)"
proof -
  have inner: "fold (\<lambda>tr A. A \<union> new tr) trs A = A \<union> (\<Union>tr \<in> set trs. new tr)" for trs A
    by (induction trs arbitrary: A) auto
  show ?thesis by (induction sv arbitrary: A) (auto simp: inner)
qed

lemma transitions_of_mapped:
  "f [] = [] \<Longrightarrow>
     transitions_of (g\<lparr>state_vector := map f (state_vector g), alphabet := A\<rparr>) s =
       f (transitions_of g s)"
  by (simp add: transitions_of_def)

section \<open>Bodies that keep a graph well-formed\<close>

text \<open>\<open>rep\<close> takes the place of a transition, \<open>extra\<close> are the transitions scheduled and \<open>used\<close>
  the symbols entered into the alphabet; all of them lead to where the transition led and have
  symbols of it or entered ones. \<open>admissible p\<close> are the transitions on which the body with the
  arguments \<open>p\<close> does not throw.\<close>

locale rewriting =
  fixes body :: "'p \<Rightarrow> ('w, string set) transition_body"
    and admissible :: "'p \<Rightarrow> 'w transition \<Rightarrow> bool"
    and rep :: "'p \<Rightarrow> 'w transition \<Rightarrow> 'w transition"
    and extra :: "'p \<Rightarrow> 'w transition \<Rightarrow> 'w transition list"
    and used :: "'p \<Rightarrow> 'w transition \<Rightarrow> string set"
  assumes step: "admissible p tr \<Longrightarrow> body p tr A = Inr (rep p tr, extra p tr, A \<union> used p tr)"
    and same_target: "x \<in> set (rep p tr # extra p tr) \<Longrightarrow> tr_target x = tr_target tr"
    and symbols: "admissible p tr \<Longrightarrow> x \<in> set (rep p tr # extra p tr) \<Longrightarrow>
      {tr_input x, tr_output x} \<subseteq> {tr_input tr, tr_output tr} \<union> used p tr"
    and used_ok: "admissible p tr \<Longrightarrow> finite (used p tr) \<and> [] \<notin> used p tr"
begin

lemma edit_result:
  assumes "\<And>s tr. tr \<in> set (transitions_of g s) \<Longrightarrow> admissible p tr"
  shows "\<exists>g'. edit_transitions (body p) g = Inr g' \<and>
     length (state_vector g') = length (state_vector g) \<and>
     final_weight_map g' = final_weight_map g \<and>
     (\<forall>s. transitions_of g' s =
        map (rep p) (transitions_of g s) @ concat (map (extra p) (transitions_of g s))) \<and>
     alphabet g' = alphabet g \<union> (\<Union>s. \<Union>tr \<in> set (transitions_of g s). used p tr)"
proof -
  let ?f = "\<lambda>trs. map (rep p) trs @ concat (map (extra p) trs)"
  let ?A = "alphabet g \<union> (\<Union>trs \<in> set (state_vector g). \<Union>tr \<in> set trs. used p tr)"
  have "edit_states (body p) (state_vector g) (alphabet g) =
      Inr (map ?f (state_vector g), fold (fold (\<lambda>tr A. A \<union> used p tr)) (state_vector g) (alphabet g))"
    using assms in_state_vector [of g] by (intro edit_states_simple step) blast
  then have "edit_transitions (body p) g =
      Inr (g\<lparr>state_vector := map ?f (state_vector g), alphabet := ?A\<rparr>)"
    by (simp add: edit_transitions_def fold_collect_sets)
  moreover have "?A = alphabet g \<union> (\<Union>s. \<Union>tr \<in> set (transitions_of g s). used p tr)"
    using in_state_vector [of g] by blast
  ultimately show ?thesis by (simp add: transitions_of_mapped)
qed

lemma edit_wf:
  assumes wf: "wf_graph g" "wf_alphabet g"
    and adm: "\<And>s tr. tr \<in> set (transitions_of g s) \<Longrightarrow> admissible p tr"
    and res: "edit_transitions (body p) g = Inr g'"
  shows "wf_graph g' \<and> wf_alphabet g'"
proof -
  obtain h where h: "edit_transitions (body p) g = Inr h"
    "length (state_vector h) = length (state_vector g)" "final_weight_map h = final_weight_map g"
    "\<And>s. transitions_of h s =
        map (rep p) (transitions_of g s) @ concat (map (extra p) (transitions_of g s))"
    "alphabet h = alphabet g \<union> (\<Union>s. \<Union>tr \<in> set (transitions_of g s). used p tr)"
    using edit_result [of g p] adm by blast
  with res have [simp]: "g' = h" by simp
  have new: "\<exists>t \<in> set (transitions_of g s). x \<in> set (rep p t # extra p t)"
    if "x \<in> set (transitions_of h s)" for x s using that unfolding h(4) by auto
  have *: "tr_target x < length (state_vector h) \<and> tr_input x \<in> alphabet h \<and>
      tr_output x \<in> alphabet h" if "x \<in> set (transitions_of h s)" for x s
  proof -
    from new [OF that] obtain t where t: "t \<in> set (transitions_of g s)"
      "x \<in> set (rep p t # extra p t)" by blast
    from wf t have "tr_target t < length (state_vector g)" "tr_input t \<in> alphabet g"
      "tr_output t \<in> alphabet g" by (auto simp: wf_graph_iff wf_alphabet_iff wf_transition_def)
    with same_target [OF t(2)] symbols [OF adm [OF t(1)] t(2)] t(1) show ?thesis unfolding h(2,5) by auto
  qed
  have "finite (\<Union>s. \<Union>tr \<in> set (transitions_of g s). used p tr)"
  proof -
    have "(\<Union>s. \<Union>tr \<in> set (transitions_of g s). used p tr) =
        (\<Union>trs \<in> set (state_vector g). \<Union>tr \<in> set trs. used p tr)"
      using in_state_vector [of g] by blast
    moreover have "finite (used p tr)" if "trs \<in> set (state_vector g)" "tr \<in> set trs" for tr trs
      using that in_state_vector [of g] adm used_ok by blast
    ultimately show ?thesis by auto
  qed
  with wf have fin: "finite (alphabet h)" unfolding h(5) by (simp add: wf_alphabet_iff)
  have "[] \<notin> alphabet h" using wf adm used_ok unfolding h(5) by (auto simp: wf_alphabet_iff)
  with fin * wf h(2,3) have "wf_alphabet h" "wf_graph h"
    unfolding wf_alphabet_iff wf_graph_iff wf_transition_def by (auto, metis+)
  then show ?thesis by simp
qed

end

section \<open>Labels and weights of paths\<close>

definition tr_label :: "'w transition \<Rightarrow> string_pair" where
  "tr_label tr = (tr_input tr, tr_output tr)"

definition path_weight :: "'w::monoid_add transition list \<Rightarrow> 'w" where
  "path_weight ts = sum_list (map tr_weight ts)"

definition weighted_accepts :: "'w::monoid_add hbt \<Rightarrow> string_pair list \<Rightarrow> 'w \<Rightarrow> bool" where
  "weighted_accepts g ps w \<longleftrightarrow> (\<exists>ts q fw. path g 0 ts q \<and> final_weight_map g q = Some fw \<and>
     ps = map tr_label ts \<and> w = path_weight ts + fw)"

lemma path_weight_simps [simp]:
  "path_weight [] = 0" "path_weight (t # ts) = tr_weight t + path_weight ts"
  "path_weight (ts @ us) = path_weight ts + path_weight us"
  by (simp_all add: path_weight_def)

lemma accepts_labels:
  "accepts g ps \<longleftrightarrow> (\<exists>ts q. path g 0 ts q \<and> final_weight_map g q \<noteq> None \<and> ps = map tr_label ts)"
  by (simp add: accepts_def is_final_state_def tr_label_def [abs_def])

lemma weighted_accepts_accepts: "weighted_accepts g ps w \<Longrightarrow> accepts g ps"
  unfolding weighted_accepts_def accepts_labels by blast

text \<open>Paths when every transition has become the transitions related to it.\<close>

lemma path_related:
  assumes "\<And>s. set (transitions_of g' s) = {t'. \<exists>t \<in> set (transitions_of g s). R t t'}"
    and "\<And>t t'. R t t' \<Longrightarrow> tr_target t' = tr_target t"
  shows "path g' p us q \<longleftrightarrow> (\<exists>ts. path g p ts q \<and> list_all2 R ts us)"
proof (induction us arbitrary: p)
  case Nil
  then show ?case by simp
next
  case (Cons u us)
  show ?case
  proof
    assume "path g' p (u # us) q"
    then obtain t ts where "t \<in> set (transitions_of g p)" "R t u" "path g (tr_target t) ts q"
      "list_all2 R ts us" using Cons assms by auto
    then show "\<exists>ts. path g p ts q \<and> list_all2 R ts (u # us)" by (intro exI [of _ "t # ts"]) simp
  next
    assume "\<exists>ts. path g p ts q \<and> list_all2 R ts (u # us)"
    then obtain t ts where "path g p (t # ts) q" "R t u" "list_all2 R ts us"
      by (auto simp: list_all2_Cons2)
    with Cons assms show "path g' p (u # us) q" by auto
  qed
qed

lemma accepts_related:
  assumes "\<And>s. set (transitions_of g' s) =
      {t'. \<exists>t \<in> set (transitions_of g s). \<exists>q. r (tr_label t) q \<and> t' = f t q}"
    and "\<And>t q. tr_target (f t q) = tr_target t \<and> tr_label (f t q) = q"
    and "final_weight_map g' = final_weight_map g"
  shows "accepts g' ps \<longleftrightarrow> (\<exists>qs. accepts g qs \<and> list_all2 r qs ps)"
proof -
  let ?R = "\<lambda>t t'. \<exists>q. r (tr_label t) q \<and> t' = f t q"
  note path = path_related [of g' g ?R, OF assms(1)]
  have lab: "list_all2 r (map tr_label ts) ps \<longleftrightarrow> (\<exists>us. list_all2 ?R ts us \<and> ps = map tr_label us)"
    for ts ps
  proof (induction ts arbitrary: ps)
    case Nil
    then show ?case by auto
  next
    case (Cons t ts)
    show ?case
    proof
      assume "list_all2 r (map tr_label (t # ts)) ps"
      then obtain p ps' where "ps = p # ps'" "r (tr_label t) p" "list_all2 r (map tr_label ts) ps'"
        by (auto simp: list_all2_Cons1)
      with Cons.IH assms(2) show "\<exists>us. list_all2 ?R (t # ts) us \<and> ps = map tr_label us"
        by (metis (mono_tags, lifting) list.simps(9) list_all2_Cons)
    next
      assume "\<exists>us. list_all2 ?R (t # ts) us \<and> ps = map tr_label us"
      then obtain us' where us': "list_all2 ?R (t # ts) us'" "ps = map tr_label us'" by blast
      then obtain u us where "us' = u # us" by (cases us') simp_all
      with us' have "?R t u" "list_all2 ?R ts us" "ps = tr_label u # map tr_label us" by simp_all
      with Cons.IH [of "map tr_label us"] assms(2) show "list_all2 r (map tr_label (t # ts)) ps"
        by auto
    qed
  qed
  have "path g' p us q \<longleftrightarrow> (\<exists>ts. path g p ts q \<and> list_all2 ?R ts us)" for p us q
    using assms(2) by (intro path) auto
  note path = this
  show ?thesis
  proof
    assume "accepts g' ps"
    then obtain ts us q where "path g 0 ts q" "list_all2 ?R ts us" "final_weight_map g q \<noteq> None"
      "ps = map tr_label us" unfolding accepts_labels assms(3) path by blast
    then have "accepts g (map tr_label ts)" "list_all2 r (map tr_label ts) ps"
      unfolding accepts_labels lab by blast+
    then show "\<exists>qs. accepts g qs \<and> list_all2 r qs ps" by blast
  next
    assume "\<exists>qs. accepts g qs \<and> list_all2 r qs ps"
    then obtain ts q where ts: "path g 0 ts q" "final_weight_map g q \<noteq> None"
      "list_all2 r (map tr_label ts) ps" unfolding accepts_labels by blast
    from ts(3) obtain us where "list_all2 ?R ts us" "ps = map tr_label us" unfolding lab by blast
    with ts(1,2) show "accepts g' ps" unfolding accepts_labels assms(3) path by blast
  qed
qed

text \<open>Renaming every transition renames the labels of the paths.\<close>

lemma path_mapped:
  assumes "\<And>s. transitions_of g' s = map h (transitions_of g s)"
    and "\<And>tr. tr_target (h tr) = tr_target tr"
  shows "path g' p us q \<longleftrightarrow> (\<exists>ts. path g p ts q \<and> us = map h ts)"
proof (induction us arbitrary: p)
  case Nil
  then show ?case by simp
next
  case (Cons u us)
  show ?case
  proof
    assume "path g' p (u # us) q"
    then obtain t ts where "t \<in> set (transitions_of g p)" "u = h t" "path g (tr_target t) ts q"
      "us = map h ts" using Cons assms by auto
    then show "\<exists>ts. path g p ts q \<and> u # us = map h ts" by (intro exI [of _ "t # ts"]) simp
  next
    assume "\<exists>ts. path g p ts q \<and> u # us = map h ts"
    then obtain t ts where "path g p (t # ts) q" "u = h t" "us = map h ts" by auto
    with Cons assms show "path g' p (u # us) q" by auto
  qed
qed

lemma accepts_mapped:
  assumes "\<And>s. transitions_of g' s = map h (transitions_of g s)"
    and "\<And>tr. tr_target (h tr) = tr_target tr"
    and "\<And>tr. tr_label (h tr) = r (tr_label tr)"
    and "final_weight_map g' = final_weight_map g"
  shows "accepts g' ps \<longleftrightarrow> (\<exists>qs. accepts g qs \<and> ps = map r qs)"
proof -
  have lab: "map tr_label (map h ts) = map r (map tr_label ts)" for ts using assms(3) by simp
  show ?thesis
  proof
    assume "accepts g' ps"
    then obtain ts q where "path g 0 ts q" "final_weight_map g q \<noteq> None"
      "ps = map r (map tr_label ts)"
      unfolding accepts_labels path_mapped [OF assms(1,2)] assms(4) using lab by metis
    then show "\<exists>qs. accepts g qs \<and> ps = map r qs" unfolding accepts_labels by blast
  next
    assume "\<exists>qs. accepts g qs \<and> ps = map r qs"
    then obtain ts q where "path g 0 ts q" "final_weight_map g q \<noteq> None"
      "ps = map r (map tr_label ts)" unfolding accepts_labels by blast
    then show "accepts g' ps"
      unfolding accepts_labels path_mapped [OF assms(1,2)] assms(4) using lab by metis
  qed
qed

lemma weighted_accepts_mapped:
  assumes "\<And>s. transitions_of g' s = map h (transitions_of g s)"
    and "\<And>tr. tr_target (h tr) = tr_target tr"
    and "\<And>tr. tr_label (h tr) = r (tr_label tr)"
    and "\<And>tr. tr_weight (h tr) = tr_weight tr"
    and "final_weight_map g' = final_weight_map g"
  shows "weighted_accepts g' ps w \<longleftrightarrow> (\<exists>qs. weighted_accepts g qs w \<and> ps = map r qs)"
proof -
  have lab: "map tr_label (map h ts) = map r (map tr_label ts)" for ts using assms(3) by simp
  have wt: "path_weight (map h ts) = path_weight ts" for ts by (induction ts) (simp_all add: assms(4))
  show ?thesis
    unfolding weighted_accepts_def path_mapped [OF assms(1,2)] assms(5) using lab wt by metis
qed

section \<open>Well-formed graphs built step by step\<close>

lemma wf_graph_same_states:
  assumes "wf_graph g" and len: "length (state_vector h) = length (state_vector g)"
    and "final_weight_map h = final_weight_map g"
    and "\<And>s t. t \<in> set (transitions_of h s) \<Longrightarrow> wf_transition (length (state_vector g)) t"
  shows "wf_graph h"
proof -
  have "state_vector h \<noteq> []" using assms(1) len unfolding wf_graph_def by auto
  then show ?thesis using assms unfolding wf_graph_iff by simp
qed

lemma wf_hbt_new: "wf_hbt new_hbt"
  by (simp add: wf_hbt_def wf_graph_def wf_alphabet_def new_hbt_def initialize_alphabet_def)

lemma wf_hbt_add_transition:
  "wf_hbt g \<Longrightarrow> tr_input tr \<noteq> [] \<Longrightarrow> tr_output tr \<noteq> [] \<Longrightarrow> wf_hbt (add_transition s tr True g)"
  by (simp add: wf_hbt_def add_transition_wf add_transition_wf_alphabet)

lemma wf_hbt_set_final_weight: "wf_hbt g \<Longrightarrow> wf_hbt (set_final_weight s w g)"
  by (simp add: wf_hbt_def set_final_weight_wf wf_alphabet_iff set_final_weight_simps)

lemmas wf_hbt_intros = wf_hbt_new wf_hbt_add_transition wf_hbt_set_final_weight

lemma new_hbt_simps:
  "transitions_of new_hbt s = []" "alphabet new_hbt = initialize_alphabet {}"
  "final_weight_map new_hbt = Map.empty" "length (state_vector new_hbt) = 1"
  by (simp_all add: new_hbt_def transitions_of_def)

lemma sort_arcs_simps:
  "transitions_of (sort_arcs tab g) s = sort_key (encode_transition tab) (transitions_of g s)"
  "length (state_vector (sort_arcs tab g)) = length (state_vector g)"
  "final_weight_map (sort_arcs tab g) = final_weight_map g"
  "set (transitions_of (sort_arcs tab g) s) = set (transitions_of g s)"
  by (auto simp: sort_arcs_def transitions_of_def)

lemma path_sort_arcs: "path (sort_arcs tab g) p ts q \<longleftrightarrow> path g p ts q"
  by (induction ts arbitrary: p) (simp_all add: sort_arcs_simps(4))

lemma sort_arcs_wf: "wf_graph g \<Longrightarrow> wf_graph (sort_arcs tab g)"
  by (rule wf_graph_more_states [of g]) (simp_all add: sort_arcs_simps wf_graph_iff)

lemma empty_result_simps [simp]:
  "state_vector new_hbt = [[]]" "final_weight_map new_hbt = Map.empty" "transitions_of new_hbt s = []"
  "wf_hbt new_hbt"
  by (auto simp: new_hbt_def transitions_of_def wf_hbt_def wf_graph_def wf_alphabet_def initialize_alphabet_def)

lemma sort_arcs_wf_hbt: "wf_hbt g \<Longrightarrow> wf_hbt (sort_arcs tab g)"
  using sort_arcs_wf [of g tab] by (simp add: wf_hbt_def wf_alphabet_iff sort_arcs_simps)
    (simp add: sort_arcs_def)

text \<open>Building keeps graphs well-formed.\<close>

lemma new_transition_ok:
  "i \<noteq> [] \<Longrightarrow> out \<noteq> [] \<Longrightarrow> \<exists>tr. new_transition t i out w = Inr tr \<and> tr_target tr = t \<and>
     tr_label tr = (i, out) \<and> tr_weight tr = w"
  by (simp add: new_transition_def tr_label_def)

lemma add_transition_wf_hbt:
  "wf_hbt g \<Longrightarrow> new_transition t i out w = Inr tr \<Longrightarrow> wf_hbt (add_transition s tr True g)"
  using add_transition_wf [of g tr s True] add_transition_wf_alphabet [of g tr s]
  by (auto simp: wf_hbt_def new_transition_def split: if_splits)

lemma final_weight_known:
  "wf_graph g \<Longrightarrow> final_weight_map g s = Some w \<Longrightarrow> get_final_weight s g = Inr w"
  by (auto simp: get_final_weight_def get_max_state_def wf_graph_def)

lemma set_final_weight_wf_hbt: "wf_hbt g \<Longrightarrow> wf_hbt (set_final_weight s w g)"
  by (simp add: wf_hbt_def set_final_weight_wf wf_alphabet_iff set_final_weight_simps)

lemma add_new_state_wf_hbt: "wf_hbt g \<Longrightarrow> wf_hbt (snd (add_new_state g))"
proof -
  assume g: "wf_hbt g"
  have "wf_graph (snd (add_new_state g))"
  proof (rule wf_graph_more_states [of g])
    have "dom (final_weight_map g) \<subseteq> {..<length (state_vector g)}" using g unfolding wf_hbt_def wf_graph_iff by blast
    then show "dom (final_weight_map (snd (add_new_state g))) \<subseteq> {..<length (state_vector (snd (add_new_state g)))}"
      unfolding add_new_state_simps by fastforce
  qed (use g in \<open>simp_all add: wf_hbt_def add_new_state_simps\<close>)
  with g show "wf_hbt (snd (add_new_state g))" by (simp add: wf_hbt_def wf_alphabet_iff add_new_state_simps)
qed

text \<open>A graph with one transition, for the witnesses.\<close>

definition example_graph :: "int hbt" where
  "example_graph = add_transition 0
     \<lparr>tr_target = 1, tr_input = ''a'', tr_output = ''b'', tr_weight = 3\<rparr> True (set_final_weight 1 2 new_hbt)"

lemma example_graph_wf: "wf_hbt example_graph"
  unfolding example_graph_def by (intro wf_hbt_intros) simp_all

lemma example_graph_simps:
  "transitions_of example_graph s =
     (if s = 0 then [\<lparr>tr_target = 1, tr_input = ''a'', tr_output = ''b'', tr_weight = 3\<rparr>] else [])"
  "symbols_used example_graph = {''a'', ''b''}"
  "alphabet example_graph = {''a'', ''b'', internal_epsilon, internal_unknown, internal_identity}"
  "final_weight_map example_graph = [1 \<mapsto> 2]" "length (state_vector example_graph) = 2"
proof -
  show t: "transitions_of example_graph s =
     (if s = 0 then [\<lparr>tr_target = 1, tr_input = ''a'', tr_output = ''b'', tr_weight = 3\<rparr>] else [])" for s
    by (simp add: example_graph_def add_transition_simps set_final_weight_simps new_hbt_simps)
  show "symbols_used example_graph = {''a'', ''b''}" unfolding symbols_used_eq t by auto
  show "alphabet example_graph = {''a'', ''b'', internal_epsilon, internal_unknown, internal_identity}"
    by (auto simp: example_graph_def add_transition_simps set_final_weight_simps new_hbt_simps
        initialize_alphabet_def)
  show "final_weight_map example_graph = [1 \<mapsto> 2]" "length (state_vector example_graph) = 2"
    by (simp_all add: example_graph_def add_transition_simps set_final_weight_simps new_hbt_simps)
qed

end
