(* ===== verification/Substitution.thy ===== *)
theory Substitution
  imports Rewriting
begin

text \<open>
  The substitution functions of \<open>HfstBasicTransducer\<close> that rewrite transitions in place
  (\<open>HfstBasicTransducer.cc\<close>, lines 1780 to 1934 and 2175 to 2291): one symbol, symbols by a
  map (through a vector of symbol numbers) and symbol pairs by a map (through a map of number
  pairs). When a call throws, the graph it has changed so far is not modelled.
\<close>

section \<open>One symbol\<close>

definition substitute_body ::
  "string \<Rightarrow> string \<Rightarrow> bool \<Rightarrow> bool \<Rightarrow> ('w, string set) transition_body" where
  "substitute_body old_symbol new_symbol input_side output_side tr A =
     (let in_made = (input_side \<and> tr_input tr = old_symbol);
          out_made = (output_side \<and> tr_output tr = old_symbol);
          isym = (if in_made then new_symbol else tr_input tr);
          osym = (if out_made then new_symbol else tr_output tr)
      in if in_made \<or> out_made
         then rmap (\<lambda>tr'. (tr', [], insert new_symbol A))
                (new_transition (tr_target tr) isym osym (tr_weight tr))
         else Inr (tr, [], A))"

definition substitute_in_transitions :: "string \<Rightarrow> string \<Rightarrow> bool \<Rightarrow> bool \<Rightarrow> 'w hbt \<Rightarrow> 'w hbt result" where
  "substitute_in_transitions old_symbol new_symbol input_side output_side g =
     edit_transitions (substitute_body old_symbol new_symbol input_side output_side) g"

definition substitute_symbol ::
  "string \<Rightarrow> string \<Rightarrow> bool \<Rightarrow> bool \<Rightarrow> 'w hbt \<Rightarrow> 'w hbt result" where
  "substitute_symbol old_symbol new_symbol input_side output_side g =
     (if \<not> is_valid_symbol old_symbol \<or> \<not> is_valid_symbol new_symbol then Inl EmptyStringException
      else if old_symbol = new_symbol then Inr g
      else if old_symbol \<notin> alphabet g then Inr g
      else let g1 = (if input_side \<and> output_side then
                  (if \<not> is_epsilon old_symbol \<and> \<not> is_unknown old_symbol \<and> \<not> is_identity old_symbol
                   then remove_symbol_from_alphabet old_symbol g else g)
                else g);
               g2 = add_symbol_to_alphabet new_symbol g1
           in substitute_in_transitions old_symbol new_symbol input_side output_side g2)"

section \<open>A map of symbols\<close>

definition vec_at :: "'a list \<Rightarrow> nat \<Rightarrow> 'a result" where
  "vec_at v i = (if i < length v then Inr (v ! i) else Inl OutOfRange)"

definition size_t_to_uint :: "nat \<Rightarrow> nat result" where
  "size_t_to_uint value = (if value > 4294967295 then Inl OverflowError else Inr value)"

text \<open>The numbers a transition stores.\<close>

definition tr_input_number :: "symtab \<Rightarrow> 'w transition \<Rightarrow> nat" where
  "tr_input_number tab tr = input_number (arc_data (encode_transition tab tr))"

definition tr_output_number :: "symtab \<Rightarrow> 'w transition \<Rightarrow> nat" where
  "tr_output_number tab tr = output_number (arc_data (encode_transition tab tr))"

definition substitute_numbers_body ::
  "symtab \<Rightarrow> nat list \<Rightarrow> nat \<Rightarrow> ('w, string set) transition_body" where
  "substitute_numbers_body tab substitutions no_substitution tr A =
     rbind (vec_at substitutions (tr_input_number tab tr)) (\<lambda>new_inumber.
     rbind (vec_at substitutions (tr_output_number tab tr)) (\<lambda>new_onumber.
       if new_inumber \<noteq> no_substitution \<or> new_onumber \<noteq> no_substitution then
         rbind (if new_inumber \<noteq> no_substitution
                then rmap (\<lambda>s. (s, insert s A)) (get_symbol new_inumber tab)
                else Inr (tr_input tr, A)) (\<lambda>(isym, A1).
         rmap (\<lambda>(osym, A2). (tr\<lparr>tr_input := isym, tr_output := osym\<rparr>, [], A2))
           (if new_onumber \<noteq> no_substitution
            then rmap (\<lambda>s. (s, insert s A1)) (get_symbol new_onumber tab)
            else Inr (tr_output tr, A1)))
       else Inr (tr, [], A)))"

definition substitute_numbers :: "symtab \<Rightarrow> nat list \<Rightarrow> nat \<Rightarrow> 'w hbt \<Rightarrow> 'w hbt result" where
  "substitute_numbers tab substitutions no_substitution g =
     edit_transitions (substitute_numbers_body tab substitutions no_substitution) g"

definition number_symbols :: "(string \<times> string) list \<Rightarrow> symtab \<Rightarrow> symtab result" where
  "number_symbols entries tab =
     rfold (\<lambda>(from_sym, to_sym) tab. rbind (get_number from_sym tab) (\<lambda>(_, tab1).
       rmap snd (get_number to_sym tab1))) entries tab"

definition fill_substitutions ::
  "(string \<times> string) list \<Rightarrow> nat list \<times> symtab \<Rightarrow> (nat list \<times> symtab) result" where
  "fill_substitutions entries vt =
     rfold (\<lambda>(from_sym, to_sym) (v, tab).
       rbind (get_number from_sym tab) (\<lambda>(from_symbol, tab1).
       rbind (get_number to_sym tab1) (\<lambda>(to_symbol, tab2).
         if from_symbol < length v then Inr (v[from_symbol := to_symbol], tab2)
         else Inl OutOfRange))) entries vt"

definition substitute_symbols ::
  "(string \<rightharpoonup> string) \<Rightarrow> symtab \<Rightarrow> 'w hbt \<Rightarrow> ('w hbt \<times> symtab) result" where
  "substitute_symbols substitutions tab g =
     rbind (number_symbols (map_entries substitutions) tab) (\<lambda>tab1.
     rbind (size_t_to_uint (max_number tab1 + card (dom substitutions) + 1)) (\<lambda>no_substitution.
     rbind (fill_substitutions (map_entries substitutions)
              (replicate ((max_number tab1 + 1) mod 4294967296) no_substitution, tab1)) (\<lambda>(v, tab2).
       rmap (\<lambda>g'. (g', tab2)) (substitute_numbers tab2 v no_substitution g))))"

section \<open>A map of symbol pairs\<close>

text \<open>C++ leaves open in which order the two symbols of a pair get their numbers; here the input
  symbol comes first. It matters only for the numbers new symbols get.\<close>

definition substitute_number_pairs_body ::
  "symtab \<Rightarrow> (nat \<times> nat \<rightharpoonup> nat \<times> nat) \<Rightarrow> ('w, string set) transition_body" where
  "substitute_number_pairs_body tab substitutions tr A =
     (case substitutions (tr_input_number tab tr, tr_output_number tab tr) of
        None \<Rightarrow> Inr (tr, [], A)
      | Some (new_input_number, new_output_number) \<Rightarrow>
          rbind (get_symbol new_input_number tab) (\<lambda>isym.
          rmap (\<lambda>osym. (tr\<lparr>tr_input := isym, tr_output := osym\<rparr>, [], insert osym (insert isym A)))
            (get_symbol new_output_number tab)))"

definition substitute_number_pairs ::
  "symtab \<Rightarrow> (nat \<times> nat \<rightharpoonup> nat \<times> nat) \<Rightarrow> 'w hbt \<Rightarrow> 'w hbt result" where
  "substitute_number_pairs tab substitutions g =
     edit_transitions (substitute_number_pairs_body tab substitutions) g"

definition number_pair :: "string_pair \<Rightarrow> symtab \<Rightarrow> ((nat \<times> nat) \<times> symtab) result" where
  "number_pair sp tab =
     rbind (get_number (fst sp) tab) (\<lambda>(i, tab1).
       rmap (\<lambda>(k, tab2). ((i, k), tab2)) (get_number (snd sp) tab1))"

definition number_pair_substitutions ::
  "(string_pair \<times> string_pair) list \<Rightarrow> (nat \<times> nat \<rightharpoonup> nat \<times> nat) \<times> symtab \<Rightarrow>
     ((nat \<times> nat \<rightharpoonup> nat \<times> nat) \<times> symtab) result" where
  "number_pair_substitutions entries mt =
     rfold (\<lambda>(from_pair, to_pair) (m, tab).
       rbind (number_pair from_pair tab) (\<lambda>(from_transition, tab1).
         rmap (\<lambda>(to_transition, tab2). (m(from_transition \<mapsto> to_transition), tab2))
           (number_pair to_pair tab1))) entries mt"

definition substitute_symbol_pairs ::
  "(string_pair \<rightharpoonup> string_pair) \<Rightarrow> symtab \<Rightarrow> 'w hbt \<Rightarrow> ('w hbt \<times> symtab) result" where
  "substitute_symbol_pairs substitutions tab g =
     rbind (number_pair_substitutions (map_entries substitutions) (Map.empty, tab)) (\<lambda>(m, tab').
       rmap (\<lambda>g'. (g', tab')) (substitute_number_pairs tab' m g))"

text \<open>Shared with the theories that follow.\<close>

definition valid_pair :: "string_pair \<Rightarrow> bool" where
  "valid_pair sp \<longleftrightarrow> is_valid_symbol (fst sp) \<and> is_valid_symbol (snd sp)"

definition with_label :: "'w transition \<Rightarrow> string_pair \<Rightarrow> 'w transition" where
  "with_label tr sp = tr\<lparr>tr_input := fst sp, tr_output := snd sp\<rparr>"

section \<open>Lemmas\<close>

definition rename_symbol :: "string \<Rightarrow> string \<Rightarrow> string \<Rightarrow> string" where
  "rename_symbol old_symbol new_symbol s = (if s = old_symbol then new_symbol else s)"

definition rename_sides ::
  "string \<Rightarrow> string \<Rightarrow> bool \<Rightarrow> bool \<Rightarrow> 'w transition \<Rightarrow> 'w transition" where
  "rename_sides old_symbol new_symbol input_side output_side tr =
     tr\<lparr>tr_input := (if input_side then rename_symbol old_symbol new_symbol (tr_input tr) else tr_input tr),
        tr_output := (if output_side then rename_symbol old_symbol new_symbol (tr_output tr) else tr_output tr)\<rparr>"

definition rename_made :: "string \<Rightarrow> bool \<Rightarrow> bool \<Rightarrow> 'w transition \<Rightarrow> bool" where
  "rename_made old_symbol input_side output_side tr \<longleftrightarrow>
     input_side \<and> tr_input tr = old_symbol \<or> output_side \<and> tr_output tr = old_symbol"

interpretation one_symbol: rewriting
  "\<lambda>(old_symbol, new_symbol, i, out). substitute_body old_symbol new_symbol i out"
  "\<lambda>(old_symbol, new_symbol, i, out) tr. new_symbol \<noteq> [] \<and> tr_input tr \<noteq> [] \<and> tr_output tr \<noteq> []"
  "\<lambda>(old_symbol, new_symbol, i, out). rename_sides old_symbol new_symbol i out"
  "\<lambda>p tr. []"
  "\<lambda>(old_symbol, new_symbol, i, out) tr. if rename_made old_symbol i out tr then {new_symbol} else {}"
  by unfold_locales
    (auto simp: substitute_body_def new_transition_def Let_def rename_sides_def rename_symbol_def
      rename_made_def split: if_splits)

lemma rename_sides_simps [simp]:
  "tr_target (rename_sides x y i out tr) = tr_target tr"
  "tr_weight (rename_sides x y i out tr) = tr_weight tr"
  by (simp_all add: rename_sides_def)

lemma rename_sides_same:
  "\<not> rename_made x i out tr \<Longrightarrow> rename_sides x y i out tr = tr"
  by (cases tr) (auto simp: rename_made_def rename_sides_def rename_symbol_def)

lemma rename_side_symbols:
  "y \<noteq> x \<Longrightarrow> i \<and> out \<Longrightarrow> tr_input (rename_sides x y i out tr) \<noteq> x \<and>
     tr_output (rename_sides x y i out tr) \<noteq> x"
  by (auto simp: rename_sides_def rename_symbol_def)

definition is_special :: "string \<Rightarrow> bool" where
  "is_special s \<longleftrightarrow> is_epsilon s \<or> is_unknown s \<or> is_identity s"

lemma substitute_in_transitions_result:
  assumes "wf_graph g" and "new \<noteq> []"
  shows "\<exists>g'. substitute_in_transitions old new i out g = Inr g' \<and>
     length (state_vector g') = length (state_vector g) \<and>
     final_weight_map g' = final_weight_map g \<and>
     (\<forall>s. transitions_of g' s = map (rename_sides old new i out) (transitions_of g s)) \<and>
     alphabet g \<subseteq> alphabet g' \<and> alphabet g' \<subseteq> insert new (alphabet g)"
proof -
  have "new \<noteq> [] \<and> tr_input tr \<noteq> [] \<and> tr_output tr \<noteq> []" if "tr \<in> set (transitions_of g s)" for s tr
    using assms that by (auto simp: wf_graph_iff wf_transition_def)
  with one_symbol.edit_result [of g "(old, new, i, out)"] show ?thesis
    by (auto simp: substitute_in_transitions_def split: if_splits)
qed

lemma not_in_alphabet_not_made:
  "wf_alphabet g \<Longrightarrow> x \<notin> alphabet g \<Longrightarrow> tr \<in> set (transitions_of g s) \<Longrightarrow> \<not> rename_made x i out tr"
  unfolding wf_alphabet_iff rename_made_def by blast

lemma wf_alphabet_mapped:
  assumes "\<And>s. transitions_of h s = map f (transitions_of g s)"
    and "finite (alphabet h)" and "[] \<notin> alphabet h"
    and "\<And>s tr. tr \<in> set (transitions_of g s) \<Longrightarrow> tr_input (f tr) \<in> alphabet h \<and> tr_output (f tr) \<in> alphabet h"
  shows "wf_alphabet h"
  using assms unfolding wf_alphabet_iff by simp

lemma wf_graph_mapped:
  assumes "wf_graph g" and "\<And>s. transitions_of h s = map f (transitions_of g s)"
    and "length (state_vector h) = length (state_vector g)" and "final_weight_map h = final_weight_map g"
    and "\<And>s tr. tr \<in> set (transitions_of g s) \<Longrightarrow>
      tr_target (f tr) = tr_target tr \<and> tr_input (f tr) \<noteq> [] \<and> tr_output (f tr) \<noteq> []"
  shows "wf_graph h"
proof -
  have "state_vector h \<noteq> []" using assms(1,3) unfolding wf_graph_def by auto
  then show ?thesis using assms unfolding wf_graph_iff wf_transition_def by simp
qed

text \<open>Substitution by numbers, seen as substitution of symbols.\<close>

definition map_symbol :: "('a \<rightharpoonup> 'a) \<Rightarrow> 'a \<Rightarrow> 'a" where
  "map_symbol m s = (case m s of None \<Rightarrow> s | Some t \<Rightarrow> t)"

definition map_sides :: "(string \<rightharpoonup> string) \<Rightarrow> 'w transition \<Rightarrow> 'w transition" where
  "map_sides m tr = tr\<lparr>tr_input := map_symbol m (tr_input tr), tr_output := map_symbol m (tr_output tr)\<rparr>"

definition mapped_symbols :: "(string \<rightharpoonup> string) \<Rightarrow> string set \<Rightarrow> string set" where
  "mapped_symbols m S = {t. \<exists>s \<in> S. m s = Some t}"

lemma finite_mapped_symbols [simp]: "finite S \<Longrightarrow> finite (mapped_symbols m S)"
  by (rule finite_subset [of _ "(the \<circ> m) ` S"]) (force simp: mapped_symbols_def)+

text \<open>What the vector of numbers must hold to stand for the map \<open>m\<close>.\<close>

definition stands_for :: "symtab \<Rightarrow> nat list \<Rightarrow> nat \<Rightarrow> (string \<rightharpoonup> string) \<Rightarrow> bool" where
  "stands_for tab v no_sub m \<longleftrightarrow> symtab_ok tab \<and> [] \<notin> ran m \<and>
     (\<forall>s n. symbol2number tab s = Some n \<longrightarrow> n < length v \<and>
        (case m s of None \<Rightarrow> v ! n = no_sub
         | Some t \<Rightarrow> v ! n \<noteq> no_sub \<and> symbol2number tab t = Some (v ! n)))"

definition numbered :: "symtab \<Rightarrow> 'w transition \<Rightarrow> bool" where
  "numbered tab tr \<longleftrightarrow> tr_input tr \<in> dom (symbol2number tab) \<and> tr_output tr \<in> dom (symbol2number tab)"

lemma tr_numbers:
  "numbered tab tr \<Longrightarrow> symbol2number tab (tr_input tr) = Some (tr_input_number tab tr) \<and>
     symbol2number tab (tr_output tr) = Some (tr_output_number tab tr)"
  by (auto simp: numbered_def tr_input_number_def tr_output_number_def encode_transition_def)

definition all_numbered :: "symtab \<Rightarrow> 'w hbt \<Rightarrow> bool" where
  "all_numbered tab g \<longleftrightarrow> (\<forall>trs \<in> set (state_vector g). \<forall>t \<in> set trs. numbered tab t)"

lemma all_numbered_at: "all_numbered tab g \<Longrightarrow> t \<in> set (transitions_of g s) \<Longrightarrow> numbered tab t"
  using in_state_vector [of g t] unfolding all_numbered_def by blast

lemma stands_for_at:
  assumes "stands_for tab v no_sub m" and "symbol2number tab s = Some n"
  shows "n < length v" "m s = None \<Longrightarrow> v ! n = no_sub"
    "m s = Some t \<Longrightarrow> v ! n \<noteq> no_sub \<and> get_symbol (v ! n) tab = Inr t"
  using assms get_symbol_number [of tab] unfolding stands_for_def by fastforce+

lemma substitute_numbers_body_result:
  assumes st: "stands_for tab v no_sub m" and num: "numbered tab tr"
  shows "substitute_numbers_body tab v no_sub tr A =
     Inr (map_sides m tr, [], A \<union> mapped_symbols m {tr_input tr, tr_output tr})"
proof -
  note i = stands_for_at [OF st conjunct1 [OF tr_numbers [OF num]]]
  note k = stands_for_at [OF st conjunct2 [OF tr_numbers [OF num]]]
  have id: "tr\<lparr>tr_input := tr_input tr, tr_output := tr_output tr\<rparr> = tr" by simp
  show ?thesis
  proof (cases "m (tr_input tr)")
    case None
    then show ?thesis using i(1,2) k
      by (cases "m (tr_output tr)")
        (auto simp: substitute_numbers_body_def vec_at_def map_sides_def map_symbol_def
          mapped_symbols_def)
  next
    case (Some t)
    then show ?thesis using i(1) i(3) [OF Some] k
      by (cases "m (tr_output tr)")
        (auto simp: substitute_numbers_body_def vec_at_def map_sides_def map_symbol_def
          mapped_symbols_def)
  qed
qed

interpretation symbol_numbers: rewriting
  "\<lambda>(tab, v, no_sub, m). substitute_numbers_body tab v no_sub"
  "\<lambda>(tab, v, no_sub, m) tr. stands_for tab v no_sub m \<and> numbered tab tr"
  "\<lambda>(tab, v, no_sub, m). map_sides m"
  "\<lambda>p tr. []"
  "\<lambda>(tab, v, no_sub, m) tr. mapped_symbols m {tr_input tr, tr_output tr}"
proof (unfold_locales, goal_cases)
  case (1 p tr A)
  then show ?case by (auto simp: substitute_numbers_body_result split: prod.splits)
next
  case (2 x p tr)
  then show ?case by (auto simp: map_sides_def split: prod.splits)
next
  case (3 x p tr)
  then show ?case
    by (auto simp: map_sides_def map_symbol_def mapped_symbols_def split: prod.splits option.splits)
next
  case (4 p tr)
  then have "[] \<notin> (case p of (tab, v, no_sub, m) \<Rightarrow> mapped_symbols m {tr_input tr, tr_output tr})"
    by (auto simp: mapped_symbols_def stands_for_def ran_def split: prod.splits)
  then show ?case by (auto split: prod.splits)
qed

lemma number_symbols_ok:
  "symtab_ok tab \<Longrightarrow> max_number tab + 2 * length es < 4294967295 \<Longrightarrow>
   (\<And>a b. (a, b) \<in> set es \<Longrightarrow> a \<noteq> [] \<and> b \<noteq> []) \<Longrightarrow>
   \<exists>tab'. number_symbols es tab = Inr tab' \<and> symtab_ok tab' \<and>
     symbol2number tab \<subseteq>\<^sub>m symbol2number tab' \<and> max_number tab' \<le> max_number tab + 2 * length es \<and>
     (\<forall>(a, b) \<in> set es. a \<in> dom (symbol2number tab') \<and> b \<in> dom (symbol2number tab'))"
proof (induction es arbitrary: tab)
  case Nil
  then show ?case by (simp add: number_symbols_def)
next
  case (Cons e es)
  obtain a b where e: "e = (a, b)" by (cases e)
  with Cons.prems have ab: "a \<noteq> []" "b \<noteq> []" by auto
  from Cons.prems(2) have "max_number tab < 4294967294" by simp
  from get_number_step [OF Cons.prems(1) this ab(1)] obtain n tab1 where
    1: "get_number a tab = Inr (n, tab1)" "symtab_ok tab1" "symbol2number tab1 a = Some n"
      "max_number tab1 \<le> max_number tab + 1" "symbol2number tab \<subseteq>\<^sub>m symbol2number tab1" by blast
  from Cons.prems(2) 1(4) have "max_number tab1 < 4294967294" by simp
  from get_number_step [OF 1(2) this ab(2)] obtain k tab2 where
    2: "get_number b tab1 = Inr (k, tab2)" "symtab_ok tab2" "symbol2number tab2 b = Some k"
      "max_number tab2 \<le> max_number tab1 + 1" "symbol2number tab1 \<subseteq>\<^sub>m symbol2number tab2" by blast
  have "max_number tab2 + 2 * length es < 4294967295" using Cons.prems(2) 1(4) 2(4) by simp
  from Cons.IH [OF 2(2) this] Cons.prems(3) obtain tab' where
    3: "number_symbols es tab2 = Inr tab'" "symtab_ok tab'"
      "symbol2number tab2 \<subseteq>\<^sub>m symbol2number tab'"
      "max_number tab' \<le> max_number tab2 + 2 * length es"
      "\<forall>(a, b) \<in> set es. a \<in> dom (symbol2number tab') \<and> b \<in> dom (symbol2number tab')" by auto
  have "number_symbols (e # es) tab = Inr tab'"
    using 1(1) 2(1) 3(1) by (simp add: e number_symbols_def)
  moreover have "symbol2number tab1 \<subseteq>\<^sub>m symbol2number tab'" using 2(5) 3(3) by (rule map_le_trans)
  moreover from this have "symbol2number tab \<subseteq>\<^sub>m symbol2number tab'" using 1(5) by (metis map_le_trans)
  moreover have "a \<in> dom (symbol2number tab')" "b \<in> dom (symbol2number tab')"
    using 1(3) 2(3) 3(3) calculation(2) map_le_implies_dom_le by blast+
  ultimately show ?case using 3 1(4) 2(4) e by (intro exI [of _ tab']) auto
qed

lemma fill_substitutions_ok:
  "symtab_ok tab \<Longrightarrow> length v = max_number tab + 1 \<Longrightarrow> distinct (map fst es) \<Longrightarrow>
   (\<And>a b. (a, b) \<in> set es \<Longrightarrow> a \<in> dom (symbol2number tab) \<and> b \<in> dom (symbol2number tab)) \<Longrightarrow>
   \<exists>v'. fill_substitutions es (v, tab) = Inr (v', tab) \<and> length v' = length v \<and>
     (\<forall>s n. symbol2number tab s = Some n \<longrightarrow>
        v' ! n = (case map_of es s of None \<Rightarrow> v ! n | Some t \<Rightarrow> the (symbol2number tab t)))"
proof (induction es arbitrary: v)
  case Nil
  then show ?case by (simp add: fill_substitutions_def)
next
  case (Cons e es)
  obtain a b where e: "e = (a, b)" by (cases e)
  with Cons.prems(4) obtain n k where nk: "symbol2number tab a = Some n" "symbol2number tab b = Some k"
    by (metis domD list.set_intros(1))
  have n: "n < length v" using symtab_number_less [OF Cons.prems(1) nk(1)] Cons.prems(2) by simp
  have "fill_substitutions (e # es) (v, tab) = fill_substitutions es (v[n := k], tab)"
    using n get_number_known [OF Cons.prems(1)] nk by (simp add: e fill_substitutions_def)
  moreover obtain v' where v': "fill_substitutions es (v[n := k], tab) = Inr (v', tab)"
    "length v' = length v"
    "\<And>s m. symbol2number tab s = Some m \<Longrightarrow>
       v' ! m = (case map_of es s of None \<Rightarrow> v[n := k] ! m | Some t \<Rightarrow> the (symbol2number tab t))"
    using Cons.IH [of "v[n := k]"] Cons.prems by auto
  moreover have "v' ! m = (case map_of (e # es) s of None \<Rightarrow> v ! m | Some t \<Rightarrow> the (symbol2number tab t))"
    if m: "symbol2number tab s = Some m" for s m
  proof (cases "s = a")
    case True
    with m nk have "m = n" by simp
    moreover have "map_of es a = None" using Cons.prems(3) e by (simp add: map_of_eq_None_iff)
    ultimately show ?thesis using v'(3) [OF m] True e nk n by simp
  next
    case False
    with symtab_number_inj [OF Cons.prems(1) nk(1)] m have "m \<noteq> n" by auto
    then show ?thesis using v'(3) [OF m] False e by (simp split: option.splits)
  qed
  ultimately show ?case by (intro exI [of _ v']) simp
qed

lemma number_pair_ok:
  assumes "symtab_ok tab" and "max_number tab + 2 < 4294967295" and "fst sp \<noteq> []" and "snd sp \<noteq> []"
  shows "\<exists>i k tab'. number_pair sp tab = Inr ((i, k), tab') \<and> symtab_ok tab' \<and>
     symbol2number tab' (fst sp) = Some i \<and> symbol2number tab' (snd sp) = Some k \<and>
     max_number tab' \<le> max_number tab + 2 \<and> symbol2number tab \<subseteq>\<^sub>m symbol2number tab'"
proof -
  from assms(2) have "max_number tab < 4294967294" by simp
  from get_number_step [OF assms(1) this assms(3)] obtain i tab1 where
    1: "get_number (fst sp) tab = Inr (i, tab1)" "symtab_ok tab1" "symbol2number tab1 (fst sp) = Some i"
      "max_number tab1 \<le> max_number tab + 1" "symbol2number tab \<subseteq>\<^sub>m symbol2number tab1" by blast
  with assms(2) have "max_number tab1 < 4294967294" by simp
  from get_number_step [OF 1(2) this assms(4)] obtain k tab2 where
    2: "get_number (snd sp) tab1 = Inr (k, tab2)" "symtab_ok tab2" "symbol2number tab2 (snd sp) = Some k"
      "max_number tab2 \<le> max_number tab1 + 1" "symbol2number tab1 \<subseteq>\<^sub>m symbol2number tab2" by blast
  have "symbol2number tab2 (fst sp) = Some i" using 1(3) 2(5) by (force simp: map_le_def dom_def)
  moreover have "symbol2number tab \<subseteq>\<^sub>m symbol2number tab2" using 1(5) 2(5) by (rule map_le_trans)
  ultimately show ?thesis using 1(1,4) 2 by (simp add: number_pair_def)
qed

definition pair_numbered :: "symtab \<Rightarrow> string_pair \<Rightarrow> bool" where
  "pair_numbered tab sp \<longleftrightarrow> fst sp \<in> dom (symbol2number tab) \<and> snd sp \<in> dom (symbol2number tab)"

definition pair_number :: "symtab \<Rightarrow> string_pair \<Rightarrow> nat \<times> nat" where
  "pair_number tab sp = (the (symbol2number tab (fst sp)), the (symbol2number tab (snd sp)))"

lemma pair_numbered_mono:
  "pair_numbered tab sp \<Longrightarrow> symbol2number tab \<subseteq>\<^sub>m symbol2number tab' \<Longrightarrow>
     pair_numbered tab' sp \<and> pair_number tab' sp = pair_number tab sp"
  by (force simp: pair_numbered_def pair_number_def map_le_def dom_def)

lemma pair_number_inj:
  "symtab_ok tab \<Longrightarrow> pair_numbered tab p \<Longrightarrow> pair_numbered tab q \<Longrightarrow>
     pair_number tab p = pair_number tab q \<Longrightarrow> p = q"
  by (cases p; cases q) (auto simp: pair_numbered_def pair_number_def dest: symtab_number_inj)

text \<open>The map of number pairs \<open>M\<close> stands for the map of symbol pairs \<open>m\<close>.\<close>

definition pairs_stand_for ::
  "symtab \<Rightarrow> (nat \<times> nat \<rightharpoonup> nat \<times> nat) \<Rightarrow> (string_pair \<rightharpoonup> string_pair) \<Rightarrow> bool" where
  "pairs_stand_for tab M m \<longleftrightarrow>
     (\<forall>p \<in> dom m \<union> ran m. pair_numbered tab p) \<and>
     (\<forall>n k. M n = Some k \<longleftrightarrow> (\<exists>p q. m p = Some q \<and> n = pair_number tab p \<and> k = pair_number tab q))"

lemma pairs_stand_for_mono:
  assumes "pairs_stand_for tab M m" and "symbol2number tab \<subseteq>\<^sub>m symbol2number tab'"
  shows "pairs_stand_for tab' M m"
proof -
  have *: "pair_numbered tab' p \<and> pair_number tab' p = pair_number tab p"
    if "p \<in> dom m \<union> ran m" for p
    using assms that by (intro pair_numbered_mono) (auto simp: pairs_stand_for_def)
  then have eq: "pair_numbered tab' p" "pair_number tab' p = pair_number tab p"
    "pair_number tab' q = pair_number tab q" "pair_numbered tab' q" if "m p = Some q" for p q
    using that * [of p] * [of q] ranI [of m p q] domI [of m p q] by blast+
  have "(m p = Some q \<and> n = pair_number tab p \<and> k = pair_number tab q) \<longleftrightarrow>
      (m p = Some q \<and> n = pair_number tab' p \<and> k = pair_number tab' q)" for p q n k
    using eq [of p q] by auto
  then show ?thesis
    using assms(1) * unfolding pairs_stand_for_def by (simp del: split_paired_Ex split_paired_All)
qed

lemma pairs_stand_for_insert:
  assumes "symtab_ok tab" and "pairs_stand_for tab M m" and "pair_numbered tab p" and "pair_numbered tab q"
  shows "pairs_stand_for tab (M(pair_number tab p \<mapsto> pair_number tab q)) (m(p \<mapsto> q))"
proof -
  have inj: "pair_number tab x = pair_number tab p \<longleftrightarrow> x = p" if "m x = Some y" for x y
    using pair_number_inj [OF assms(1) _ assms(3)] assms(2) domI [of m x y, OF that]
    unfolding pairs_stand_for_def by blast
  have "(M(pair_number tab p \<mapsto> pair_number tab q)) n = Some k \<longleftrightarrow>
      (\<exists>x y. (m(p \<mapsto> q)) x = Some y \<and> n = pair_number tab x \<and> k = pair_number tab y)" for n k
  proof (cases "n = pair_number tab p")
    case True
    have "(m(p \<mapsto> q)) x = Some y \<and> n = pair_number tab x \<longleftrightarrow> x = p \<and> y = q" for x y
      using inj [of x y] True by (cases "x = p") auto
    then have "(\<exists>x y. (m(p \<mapsto> q)) x = Some y \<and> n = pair_number tab x \<and> k = pair_number tab y) \<longleftrightarrow>
        k = pair_number tab q" by metis
    with True show ?thesis by auto
  next
    case False
    then have "(M(pair_number tab p \<mapsto> pair_number tab q)) n = Some k \<longleftrightarrow> M n = Some k" by simp
    also have "\<dots> \<longleftrightarrow> (\<exists>x y. m x = Some y \<and> n = pair_number tab x \<and> k = pair_number tab y)"
      using assms(2) unfolding pairs_stand_for_def by blast
    moreover have "(m(p \<mapsto> q)) x = Some y \<and> n = pair_number tab x \<longleftrightarrow>
        m x = Some y \<and> n = pair_number tab x" for x y using False by (cases "x = p") auto
    ultimately show ?thesis by metis
  qed
  moreover have "\<forall>x \<in> dom (m(p \<mapsto> q)) \<union> ran (m(p \<mapsto> q)). pair_numbered tab x"
    using assms(2-4) by (auto simp: pairs_stand_for_def ran_def)
  ultimately show ?thesis by (simp add: pairs_stand_for_def)
qed

lemma number_pair_substitutions_ok:
  "symtab_ok tab \<Longrightarrow> max_number tab + 4 * length es < 4294967295 \<Longrightarrow> distinct (map fst es) \<Longrightarrow>
   (\<And>p q. (p, q) \<in> set es \<Longrightarrow> valid_pair p \<and> valid_pair q) \<Longrightarrow> pairs_stand_for tab M m \<Longrightarrow>
   \<exists>M' tab'. number_pair_substitutions es (M, tab) = Inr (M', tab') \<and> symtab_ok tab' \<and>
     symbol2number tab \<subseteq>\<^sub>m symbol2number tab' \<and> pairs_stand_for tab' M' (m ++ map_of es)"
proof (induction es arbitrary: M m tab)
  case Nil
  then show ?case by (simp add: number_pair_substitutions_def)
next
  case (Cons e es)
  obtain p q where e: "e = (p, q)" by (cases e)
  with Cons.prems(4) [of p q] have pq: "fst p \<noteq> []" "snd p \<noteq> []" "fst q \<noteq> []" "snd q \<noteq> []"
    by (auto simp: valid_pair_def is_valid_symbol_def split: if_splits)
  from Cons.prems(2) have "max_number tab + 2 < 4294967295" by simp
  from number_pair_ok [OF Cons.prems(1) this pq(1,2)] obtain i k tab1 where
    1: "number_pair p tab = Inr ((i, k), tab1)" "symtab_ok tab1" "symbol2number tab1 (fst p) = Some i"
      "symbol2number tab1 (snd p) = Some k" "max_number tab1 \<le> max_number tab + 2"
      "symbol2number tab \<subseteq>\<^sub>m symbol2number tab1" by blast
  from Cons.prems(2) 1(5) have "max_number tab1 + 2 < 4294967295" by simp
  from number_pair_ok [OF 1(2) this pq(3,4)] obtain j l tab2 where
    2: "number_pair q tab1 = Inr ((j, l), tab2)" "symtab_ok tab2" "symbol2number tab2 (fst q) = Some j"
      "symbol2number tab2 (snd q) = Some l" "max_number tab2 \<le> max_number tab1 + 2"
      "symbol2number tab1 \<subseteq>\<^sub>m symbol2number tab2" by blast
  have p: "pair_numbered tab1 p" "pair_number tab1 p = (i, k)"
    using 1(3,4) by (auto simp: pair_numbered_def pair_number_def)
  have p2: "pair_numbered tab2 p" "pair_number tab2 p = (i, k)"
    using pair_numbered_mono [OF p(1) 2(6)] p(2) by auto
  have q: "pair_numbered tab2 q" "pair_number tab2 q = (j, l)"
    using 2(3,4) by (auto simp: pair_numbered_def pair_number_def)
  have le: "symbol2number tab \<subseteq>\<^sub>m symbol2number tab2" using 1(6) 2(6) by (rule map_le_trans)
  from pairs_stand_for_insert [OF 2(2) pairs_stand_for_mono [OF Cons.prems(5) le] p2(1) q(1)]
  have st: "pairs_stand_for tab2 (M((i, k) \<mapsto> (j, l))) (m(p \<mapsto> q))" by (simp add: p2 q)
  have "max_number tab2 + 4 * length es < 4294967295" using Cons.prems(2) 1(5) 2(5) by simp
  moreover have "distinct (map fst es)" "\<And>p q. (p, q) \<in> set es \<Longrightarrow> valid_pair p \<and> valid_pair q"
    using Cons.prems(3) Cons.prems(4) [OF list.set_intros(2)] by simp_all
  ultimately obtain M' tab' where
    3: "number_pair_substitutions es (M((i, k) \<mapsto> (j, l)), tab2) = Inr (M', tab')" "symtab_ok tab'"
      "symbol2number tab2 \<subseteq>\<^sub>m symbol2number tab'" "pairs_stand_for tab' M' (m(p \<mapsto> q) ++ map_of es)"
    using Cons.IH [OF 2(2) _ _ _ st] by blast
  have "map_of es p = None" using Cons.prems(3) e by (simp add: map_of_eq_None_iff)
  then have eq: "m(p \<mapsto> q) ++ map_of es = m ++ map_of (e # es)"
    by (auto simp: e fun_eq_iff map_add_def split: option.splits)
  have "number_pair_substitutions (e # es) (M, tab) = Inr (M', tab')"
    using 1(1) 2(1) 3(1) by (simp add: e number_pair_substitutions_def)
  moreover have "symbol2number tab \<subseteq>\<^sub>m symbol2number tab'" using le 3(3) by (rule map_le_trans)
  ultimately show ?case using 3(2) 3(4) [unfolded eq] by blast
qed

definition map_label :: "(string_pair \<rightharpoonup> string_pair) \<Rightarrow> 'w transition \<Rightarrow> 'w transition" where
  "map_label m tr = with_label tr (map_symbol m (tr_label tr))"

definition pair_symbols :: "string_pair set \<Rightarrow> string set" where
  "pair_symbols S = fst ` S \<union> snd ` S"

lemma finite_pair_symbols [simp]: "finite S \<Longrightarrow> finite (pair_symbols S)"
  by (simp add: pair_symbols_def)

lemma pair_symbols_option: "pair_symbols (set_option (m l)) \<subseteq> pair_symbols (ran m)"
  unfolding pair_symbols_def by (intro Un_mono image_mono) (auto intro: ranI)

lemma with_label_simps [simp]:
  "tr_target (with_label tr sp) = tr_target tr" "tr_weight (with_label tr sp) = tr_weight tr"
  "tr_input (with_label tr sp) = fst sp" "tr_output (with_label tr sp) = snd sp"
  "tr_label (with_label tr sp) = sp" "with_label tr (tr_label tr) = tr"
  by (simp_all add: with_label_def tr_label_def)

lemma substitute_number_pairs_body_result:
  assumes ok: "symtab_ok tab" and st: "pairs_stand_for tab M m" and num: "numbered tab tr"
  shows "substitute_number_pairs_body tab M tr A =
     Inr (map_label m tr, [], A \<union> pair_symbols (set_option (m (tr_label tr))))"
proof -
  have lab: "pair_numbered tab (tr_label tr)"
    "(tr_input_number tab tr, tr_output_number tab tr) = pair_number tab (tr_label tr)"
    using tr_numbers [OF num] num
    by (auto simp: pair_numbered_def pair_number_def tr_label_def numbered_def)
  show ?thesis
  proof (cases "m (tr_label tr)")
    case None
    have "M (pair_number tab (tr_label tr)) = None"
    proof (rule ccontr)
      assume "M (pair_number tab (tr_label tr)) \<noteq> None"
      then obtain p q where p: "m p = Some q" "pair_number tab p = pair_number tab (tr_label tr)"
        using st unfolding pairs_stand_for_def by (metis not_None_eq)
      then have "pair_numbered tab p" using st domI [of m p q] unfolding pairs_stand_for_def by blast
      from pair_number_inj [OF ok this lab(1) p(2)] p(1) None show False by simp
    qed
    with None show ?thesis
      by (simp add: substitute_number_pairs_body_def lab(2) map_label_def map_symbol_def pair_symbols_def)
  next
    case (Some q)
    then have q: "pair_numbered tab q" using st ranI [of m _ q] unfolding pairs_stand_for_def by blast
    have "M (pair_number tab (tr_label tr)) = Some (pair_number tab q)"
      using st Some unfolding pairs_stand_for_def by blast
    moreover have "get_symbol (fst (pair_number tab q)) tab = Inr (fst q)"
      "get_symbol (snd (pair_number tab q)) tab = Inr (snd q)"
    proof -
      from q obtain a b where "symbol2number tab (fst q) = Some a" "symbol2number tab (snd q) = Some b"
        by (auto simp: pair_numbered_def)
      with get_symbol_number [OF ok, of "fst q" a] get_symbol_number [OF ok, of "snd q" b]
      show "get_symbol (fst (pair_number tab q)) tab = Inr (fst q)"
        "get_symbol (snd (pair_number tab q)) tab = Inr (snd q)" by (simp_all add: pair_number_def)
    qed
    ultimately show ?thesis using Some
      by (auto simp: substitute_number_pairs_body_def lab(2) map_label_def map_symbol_def
          pair_symbols_def with_label_def split: prod.splits)
  qed
qed

interpretation pair_numbers: rewriting
  "\<lambda>(tab, M, m). substitute_number_pairs_body tab M"
  "\<lambda>(tab, M, m) tr. symtab_ok tab \<and> pairs_stand_for tab M m \<and> numbered tab tr \<and>
     [] \<notin> pair_symbols (ran m)"
  "\<lambda>(tab, M, m). map_label m"
  "\<lambda>p tr. []"
  "\<lambda>(tab, M, m) tr. pair_symbols (set_option (m (tr_label tr)))"
proof (unfold_locales, goal_cases)
  case (1 p tr A)
  then show ?case by (auto simp: substitute_number_pairs_body_result split: prod.splits)
next
  case (2 x p tr)
  then show ?case by (auto simp: map_label_def split: prod.splits)
next
  case (3 x p tr)
  then show ?case
    by (auto simp: map_label_def map_symbol_def pair_symbols_def tr_label_def
        split: prod.splits option.splits)
next
  case (4 p tr)
  then show ?case using pair_symbols_option [of "snd (snd p)" "tr_label tr"]
    by (cases p) auto
qed

lemma example_symtab:
  "\<exists>tab. symtab_ok tab \<and> symbols_used example_graph \<subseteq> dom (symbol2number tab) \<and> max_number tab \<le> 4"
proof -
  from get_number_step [OF symtab_ok_initial, of "''a''"] obtain n tab1 where
    1: "symtab_ok tab1" "symbol2number tab1 ''a'' = Some n" "max_number tab1 \<le> 3"
    by (auto simp: initial_symtab_def)
  from get_number_step [OF 1(1), of "''b''"] 1(3) obtain k tab2 where
    2: "symtab_ok tab2" "symbol2number tab2 ''b'' = Some k" "max_number tab2 \<le> 4"
      "symbol2number tab1 \<subseteq>\<^sub>m symbol2number tab2" by fastforce
  have "symbols_used example_graph \<subseteq> dom (symbol2number tab2)"
    using 1(2) 2(2) map_le_implies_dom_le [OF 2(4)] by (auto simp: example_graph_simps)
  with 2 show ?thesis by blast
qed

section \<open>Properties\<close>

text \<open>C31. Substituting a symbol never fails on non-empty symbols and keeps a graph well-formed:
  every transition is renamed on the sides asked for and keeps its place, target and weight, so
  that the label sequences of the accepting paths are renamed; a symbol substituted on both
  sides leaves the alphabet unless it is special.\<close>

theorem substitute_symbol_correct:
  assumes "wf_hbt g" and "old \<noteq> []" and "new \<noteq> []"
  shows "\<exists>g'. substitute_symbol old new i out g = Inr g' \<and> wf_hbt g' \<and>
     (\<forall>s. transitions_of g' s = map (rename_sides old new i out) (transitions_of g s)) \<and>
     (\<forall>ps. accepts g' ps \<longleftrightarrow> (\<exists>qs. accepts g qs \<and>
        ps = map (\<lambda>(a, b). (if i then rename_symbol old new a else a,
                            if out then rename_symbol old new b else b)) qs)) \<and>
     alphabet g' = (if old = new \<or> old \<notin> alphabet g then alphabet g
        else insert new (if i \<and> out \<and> \<not> is_special old then alphabet g - {old} else alphabet g))"
proof -
  have wf: "wf_graph g" "wf_alphabet g" using assms(1) by (simp_all add: wf_hbt_def)
  let ?ren = "rename_sides old new i out"
  let ?A = "if old = new \<or> old \<notin> alphabet g then alphabet g
        else insert new (if i \<and> out \<and> \<not> is_special old then alphabet g - {old} else alphabet g)"
  have "\<exists>g'. substitute_symbol old new i out g = Inr g' \<and>
     length (state_vector g') = length (state_vector g) \<and>
     final_weight_map g' = final_weight_map g \<and> alphabet g' = ?A \<and>
     (\<forall>s. transitions_of g' s = map ?ren (transitions_of g s))"
  proof (cases "old = new \<or> old \<notin> alphabet g")
    case True
    have "?ren tr = tr" if "tr \<in> set (transitions_of g s)" for s tr
    proof (cases "old = new")
      case True
      then show ?thesis by (cases tr) (simp add: rename_sides_def rename_symbol_def)
    next
      case False
      with True have "old \<notin> alphabet g" by simp
      from rename_sides_same [OF not_in_alphabet_not_made [OF wf(2) this that]] show ?thesis .
    qed
    then have "map ?ren (transitions_of g s) = transitions_of g s" for s by (simp add: map_idI)
    with True assms(2,3) show ?thesis
      by (intro exI [of _ g]) (auto simp: substitute_symbol_def is_valid_symbol_def)
  next
    case False
    let ?g1 = "if i \<and> out \<and> \<not> is_special old then remove_symbol_from_alphabet old g else g"
    let ?g2 = "add_symbol_to_alphabet new ?g1"
    have eq: "substitute_symbol old new i out g = substitute_in_transitions old new i out ?g2"
      using False assms(2,3)
      by (simp add: substitute_symbol_def is_valid_symbol_def is_special_def Let_def)
    have "transitions_of ?g2 = transitions_of g" by (rule transitions_of_cong) simp
    moreover have "wf_graph ?g2" using wf(1) calculation by (simp add: wf_graph_iff)
    ultimately show ?thesis
      using substitute_in_transitions_result [of ?g2 new old i out] assms(3) False unfolding eq
      by (auto simp: insert_absorb)
  qed
  then obtain g' where g': "substitute_symbol old new i out g = Inr g'"
    "length (state_vector g') = length (state_vector g)"
    "final_weight_map g' = final_weight_map g" "alphabet g' = ?A"
    "\<And>s. transitions_of g' s = map ?ren (transitions_of g s)" by blast
  have sym: "tr_input tr \<in> alphabet g \<and> tr_output tr \<in> alphabet g"
    if "tr \<in> set (transitions_of g s)" for s tr using wf(2) that by (auto simp: wf_alphabet_iff)
  have "wf_alphabet g'"
  proof (rule wf_alphabet_mapped [OF g'(5)])
    show "finite (alphabet g')" "[] \<notin> alphabet g'"
      using wf(2) assms(3) unfolding g'(4) wf_alphabet_iff by auto
    show "tr_input (?ren tr) \<in> alphabet g' \<and> tr_output (?ren tr) \<in> alphabet g'"
      if "tr \<in> set (transitions_of g s)" for s tr
      using sym [OF that] unfolding g'(4) by (auto simp: rename_sides_def rename_symbol_def)
  qed
  moreover have "wf_graph g'"
  proof (rule wf_graph_mapped [OF wf(1) g'(5,2,3)])
    show "tr_target (?ren tr) = tr_target tr \<and> tr_input (?ren tr) \<noteq> [] \<and> tr_output (?ren tr) \<noteq> []"
      if "tr \<in> set (transitions_of g s)" for s tr
      using wf(1) that assms(3)
      by (auto simp: wf_graph_iff wf_transition_def rename_sides_def rename_symbol_def)
  qed
  moreover have "accepts g' ps \<longleftrightarrow> (\<exists>qs. accepts g qs \<and>
        ps = map (\<lambda>(a, b). (if i then rename_symbol old new a else a,
                            if out then rename_symbol old new b else b)) qs)" for ps
    by (rule accepts_mapped [OF g'(5) _ _ g'(3)]) (auto simp: tr_label_def rename_sides_def)
  ultimately show ?thesis using g'(1,4,5) by (simp add: wf_hbt_def)
qed

lemma substitute_symbol_correct_witness:
  "\<exists>g'. substitute_symbol ''a'' ''c'' True False example_graph = Inr g' \<and>
     map tr_label (transitions_of g' 0) = [(''c'', ''b'')]"
  using substitute_symbol_correct [OF example_graph_wf, of "''a''" "''c''" True False]
  by (auto simp: example_graph_simps rename_sides_def rename_symbol_def tr_label_def)

text \<open>C32. Substituting symbols by a map goes through the numbers of the symbols and a vector
  indexed by them, and yet does to a well-formed graph what the map says: every symbol of a
  transition that has an entry is replaced, simultaneously, and the new symbols enter the
  alphabet.\<close>

theorem substitute_symbols_correct:
  assumes "wf_hbt g" and "symtab_ok tab" and "symbols_used g \<subseteq> dom (symbol2number tab)"
    and "finite (dom m)" and "[] \<notin> dom m" and "[] \<notin> ran m"
    and "max_number tab + 3 * card (dom m) + 1 < 4294967295"
  shows "\<exists>g' tab'. substitute_symbols m tab g = Inr (g', tab') \<and> symtab_ok tab' \<and> wf_hbt g' \<and>
     (\<forall>s. transitions_of g' s = map (map_sides m) (transitions_of g s)) \<and>
     final_weight_map g' = final_weight_map g \<and>
     alphabet g' = alphabet g \<union> mapped_symbols m (symbols_used g)"
proof -
  let ?es = "map_entries m"
  have es: "(a, b) \<in> set ?es \<longleftrightarrow> m a = Some b" for a b using assms(4) by simp
  have nonempty: "a \<noteq> [] \<and> b \<noteq> []" if "(a, b) \<in> set ?es" for a b
    using that assms(5,6) es by (auto simp: ran_def)
  have "max_number tab + 2 * length ?es < 4294967295" using assms(7) by simp
  from number_symbols_ok [OF assms(2) this nonempty] obtain tab1 where
    t: "number_symbols ?es tab = Inr tab1" "symtab_ok tab1"
      "symbol2number tab \<subseteq>\<^sub>m symbol2number tab1" "max_number tab1 \<le> max_number tab + 2 * length ?es"
      "\<And>a b. (a, b) \<in> set ?es \<Longrightarrow> a \<in> dom (symbol2number tab1) \<and> b \<in> dom (symbol2number tab1)"
    by blast
  let ?no = "max_number tab1 + card (dom m) + 1"
  let ?v = "replicate (max_number tab1 + 1) ?no"
  have small: "?no \<le> 4294967295" "(max_number tab1 + 1) mod 4294967296 = max_number tab1 + 1"
    using t(4) assms(7) by simp_all
  have "distinct (map fst ?es)" by simp
  from fill_substitutions_ok [OF t(2) _ this t(5), of ?v] obtain v where
    v: "fill_substitutions ?es (?v, tab1) = Inr (v, tab1)" "length v = max_number tab1 + 1"
      "\<And>s n. symbol2number tab1 s = Some n \<Longrightarrow>
        v ! n = (case map_of ?es s of None \<Rightarrow> ?v ! n | Some t \<Rightarrow> the (symbol2number tab1 t))"
    by auto
  have eq: "substitute_symbols m tab g = rmap (\<lambda>g'. (g', tab1)) (substitute_numbers tab1 v ?no g)"
    using t(1) v(1) small by (simp add: substitute_symbols_def size_t_to_uint_def)
  have st: "stands_for tab1 v ?no m"
    unfolding stands_for_def
  proof (intro conjI allI impI t(2) assms(6))
    fix s n assume n: "symbol2number tab1 s = Some n"
    have less: "n < max_number tab1 + 1" using symtab_number_less [OF t(2) n] .
    then show "n < length v" by (simp add: v(2))
    show "case m s of None \<Rightarrow> v ! n = ?no
        | Some t \<Rightarrow> v ! n \<noteq> ?no \<and> symbol2number tab1 t = Some (v ! n)"
    proof (cases "m s")
      case None
      then show ?thesis using v(3) [OF n] less assms(4) by (simp del: replicate_Suc)
    next
      case (Some b)
      with t(5) [of s b] es obtain k where k: "symbol2number tab1 b = Some k" by auto
      have "k < max_number tab1 + 1" using symtab_number_less [OF t(2) k] .
      then show ?thesis using v(3) [OF n] Some k assms(4) by simp
    qed
  qed
  have adm: "stands_for tab1 v ?no m \<and> numbered tab1 tr" if "tr \<in> set (transitions_of g s)" for tr s
  proof -
    have "tr_input tr \<in> symbols_used g" "tr_output tr \<in> symbols_used g"
      using that by (auto simp: symbols_used_eq)
    then show ?thesis using st assms(3) map_le_implies_dom_le [OF t(3)] by (auto simp: numbered_def)
  qed
  have used: "(\<Union>s. \<Union>tr \<in> set (transitions_of g s). mapped_symbols m {tr_input tr, tr_output tr}) =
      mapped_symbols m (symbols_used g)"
    unfolding mapped_symbols_def symbols_used_eq by blast
  from symbol_numbers.edit_result [of g "(tab1, v, ?no, m)"] adm used obtain g' where
    g': "substitute_numbers tab1 v ?no g = Inr g'" "final_weight_map g' = final_weight_map g"
      "\<And>s. transitions_of g' s = map (map_sides m) (transitions_of g s)"
      "alphabet g' = alphabet g \<union> mapped_symbols m (symbols_used g)"
    by (auto simp: substitute_numbers_def)
  have "wf_hbt g'"
    using symbol_numbers.edit_wf [of g "(tab1, v, ?no, m)" g'] adm g'(1) assms(1)
    by (auto simp: wf_hbt_def substitute_numbers_def)
  with g' eq t(2) show ?thesis by simp
qed

lemma substitute_symbols_correct_witness:
  "\<exists>tab g' tab'. substitute_symbols [''a'' \<mapsto> ''b'', ''b'' \<mapsto> ''a''] tab example_graph = Inr (g', tab') \<and>
     map tr_label (transitions_of g' 0) = [(''b'', ''a'')]"
proof -
  obtain tab where tab: "symtab_ok tab" "symbols_used example_graph \<subseteq> dom (symbol2number tab)"
    "max_number tab \<le> 4" using example_symtab by blast
  have r: "[] \<notin> ran [''a'' \<mapsto> ''b'', ''b'' \<mapsto> ''a'']" by (auto simp: ran_def split: if_splits)
  obtain g' tab' where "substitute_symbols [''a'' \<mapsto> ''b'', ''b'' \<mapsto> ''a''] tab example_graph = Inr (g', tab')"
    "transitions_of g' 0 = map (map_sides [''a'' \<mapsto> ''b'', ''b'' \<mapsto> ''a'']) (transitions_of example_graph 0)"
    using substitute_symbols_correct [OF example_graph_wf tab(1,2) _ _ r] tab(3) by auto
  then show ?thesis
    by (intro exI) (auto simp: example_graph_simps map_sides_def map_symbol_def tr_label_def)
qed

text \<open>Substituting symbol pairs by a map replaces the label of every transition whose pair has
  an entry, and no other; the graph stays well-formed, and the label sequences of the accepting
  paths are the mapped ones.\<close>

theorem substitute_symbol_pairs_correct:
  assumes "wf_hbt g" and "symtab_ok tab" and "symbols_used g \<subseteq> dom (symbol2number tab)"
    and "finite (dom m)" and "[] \<notin> pair_symbols (dom m \<union> ran m)"
    and "max_number tab + 4 * card (dom m) < 4294967295"
  shows "\<exists>g' tab'. substitute_symbol_pairs m tab g = Inr (g', tab') \<and> symtab_ok tab' \<and> wf_hbt g' \<and>
     (\<forall>s. transitions_of g' s = map (map_label m) (transitions_of g s)) \<and>
     (\<forall>ps. accepts g' ps \<longleftrightarrow> (\<exists>qs. accepts g qs \<and> ps = map (map_symbol m) qs))"
proof -
  let ?es = "map_entries m"
  have valid: "valid_pair p \<and> valid_pair q" if "(p, q) \<in> set ?es" for p q
  proof -
    have "m p = Some q" using that assms(4) by simp
    then have "p \<in> dom m \<union> ran m" "q \<in> dom m \<union> ran m"
      using domI [of m p q] ranI [of m p q] by blast+
    then have "[] \<noteq> fst x \<and> [] \<noteq> snd x" if "x = p \<or> x = q" for x
      using assms(5) that unfolding pair_symbols_def by (metis UnCI image_eqI)
    then show ?thesis by (metis valid_pair_def is_valid_symbol_def)
  qed
  have "pairs_stand_for tab Map.empty Map.empty" by (simp add: pairs_stand_for_def)
  moreover have "max_number tab + 4 * length ?es < 4294967295" "distinct (map fst ?es)"
    using assms(6) by simp_all
  moreover have "Map.empty ++ map_of ?es = m" using assms(4) by simp
  ultimately obtain M tab1 where
    t: "number_pair_substitutions ?es (Map.empty, tab) = Inr (M, tab1)" "symtab_ok tab1"
      "symbol2number tab \<subseteq>\<^sub>m symbol2number tab1" "pairs_stand_for tab1 M m"
    using number_pair_substitutions_ok [OF assms(2) _ _ valid] by metis
  have no_empty: "[] \<notin> pair_symbols (ran m)" using assms(5) by (auto simp: pair_symbols_def)
  have adm: "symtab_ok tab1 \<and> pairs_stand_for tab1 M m \<and> numbered tab1 tr \<and>
      [] \<notin> pair_symbols (ran m)" if "tr \<in> set (transitions_of g s)" for tr s
  proof -
    have "tr_input tr \<in> symbols_used g" "tr_output tr \<in> symbols_used g"
      using that by (auto simp: symbols_used_eq)
    then show ?thesis using t no_empty assms(3) map_le_implies_dom_le [OF t(3)]
      by (auto simp: numbered_def)
  qed
  from pair_numbers.edit_result [of g "(tab1, M, m)"] adm obtain g' where
    g': "substitute_number_pairs tab1 M g = Inr g'" "final_weight_map g' = final_weight_map g"
      "\<And>s. transitions_of g' s = map (map_label m) (transitions_of g s)"
    by (auto simp: substitute_number_pairs_def)
  have "wf_hbt g'"
    using pair_numbers.edit_wf [of g "(tab1, M, m)" g'] adm g'(1) assms(1)
    by (auto simp: wf_hbt_def substitute_number_pairs_def)
  moreover have "accepts g' ps \<longleftrightarrow> (\<exists>qs. accepts g qs \<and> ps = map (map_symbol m) qs)" for ps
    by (rule accepts_mapped [OF g'(3) _ _ g'(2)]) (simp_all add: map_label_def)
  ultimately show ?thesis using g'(1,3) t by (simp add: substitute_symbol_pairs_def)
qed

lemma substitute_symbol_pairs_correct_witness:
  "\<exists>tab g' tab'. substitute_symbol_pairs [(''a'', ''b'') \<mapsto> (''c'', ''c'')] tab example_graph = Inr (g', tab') \<and>
     map tr_label (transitions_of g' 0) = [(''c'', ''c'')]"
proof -
  obtain tab where tab: "symtab_ok tab" "symbols_used example_graph \<subseteq> dom (symbol2number tab)"
    "max_number tab \<le> 4" using example_symtab by blast
  obtain g' tab' where "substitute_symbol_pairs [(''a'', ''b'') \<mapsto> (''c'', ''c'')] tab example_graph = Inr (g', tab')"
    "transitions_of g' 0 = map (map_label [(''a'', ''b'') \<mapsto> (''c'', ''c'')]) (transitions_of example_graph 0)"
    using substitute_symbol_pairs_correct [OF example_graph_wf tab(1,2),
        of "[(''a'', ''b'') \<mapsto> (''c'', ''c'')]"] tab(3)
    by (auto simp: pair_symbols_def)
  then show ?thesis
    by (intro exI) (auto simp: example_graph_simps map_label_def map_symbol_def tr_label_def)
qed

end
