(* ===== verification/PairSubstitution.thy ===== *)
theory PairSubstitution
  imports Substitution "HOL-Library.Multiset"
begin

text \<open>
  Operations of \<open>HfstBasicTransducer\<close> on symbol pairs (\<open>HfstBasicTransducer.cc\<close>, lines 1938 to
  2172, 2293 to 2354 and 2839 to 2901): the removal of the transitions with a pair, the
  substitution of a pair by a set of pairs or by what a function of the caller says, and the
  free insertion of pairs.
\<close>

section \<open>Removing transitions\<close>

text \<open>The loop over the transitions of a state by index: after \<open>erase\<close> the index still advances.
  Numbers are compared, which is comparing symbols. The flags say whether the two symbols were
  seen in a transition that stays.\<close>

function remove_transitions_loop ::
  "string_pair \<Rightarrow> nat \<Rightarrow> 'w transition list \<Rightarrow> bool \<times> bool \<Rightarrow> 'w transition list \<times> bool \<times> bool" where
  "remove_transitions_loop sp i trs (in_match_used, out_match_used) =
     (if i < length trs then
        (let tr = trs ! i in
         if tr_input tr = fst sp \<and> tr_output tr = snd sp
         then remove_transitions_loop sp (i + 1) (take i trs @ drop (i + 1) trs)
                (in_match_used, out_match_used)
         else remove_transitions_loop sp (i + 1) trs
                ((if tr_input tr = fst sp \<or> tr_output tr = fst sp then True else in_match_used),
                 (if tr_input tr = snd sp \<or> tr_output tr = snd sp then True else out_match_used)))
      else (trs, in_match_used, out_match_used))"
  by pat_completeness auto
termination by (relation "measure (\<lambda>(sp, i, trs, u). length trs - i)") auto

definition remove_transitions :: "string_pair \<Rightarrow> 'w hbt \<Rightarrow> 'w hbt" where
  "remove_transitions sp g =
     (let (sv, in_match_used, out_match_used) =
            fold (\<lambda>trs (sv, u). let (trs', u') = remove_transitions_loop sp 0 trs u in (sv @ [trs'], u'))
              (state_vector g) ([], (False, False));
          g1 = g\<lparr>state_vector := sv\<rparr>;
          g2 = (if \<not> in_match_used then remove_symbol_from_alphabet (fst sp) g1 else g1)
      in if \<not> out_match_used then remove_symbol_from_alphabet (snd sp) g2 else g2)"

section \<open>A pair by a set of pairs\<close>

text \<open>The iterator still stands at the first element when the rest is scheduled.\<close>

definition substitute_pair_set_body ::
  "string_pair \<Rightarrow> string_pair list \<Rightarrow> ('w, bool) transition_body" where
  "substitute_pair_set_body old_sp new_sps tr performed =
     (if tr_input tr = fst old_sp \<and> tr_output tr = snd old_sp
      then let tr' = with_label tr (hd new_sps) in Inr (tr', map (with_label tr') new_sps, True)
      else Inr (tr, [], performed))"

definition substitute_pair_set ::
  "string_pair \<Rightarrow> string_pair set \<Rightarrow> 'w hbt \<Rightarrow> 'w hbt result" where
  "substitute_pair_set old_sp new_sps g =
     (if new_sps = {} then Inr (remove_transitions old_sp g)
      else rmap (\<lambda>(sv, substitution_performed).
             let g1 = g\<lparr>state_vector := sv\<rparr>;
                 g2 = (if substitution_performed then add_symbol_pairs_to_alphabet new_sps g1 else g1)
             in prune_alphabet_after_substitution {fst old_sp, snd old_sp} g2)
             (edit_states (substitute_pair_set_body old_sp (sorted_list_of_set new_sps))
               (state_vector g) False))"

definition substitute_symbol_pair_with_set ::
  "string_pair \<Rightarrow> string_pair set \<Rightarrow> 'w hbt \<Rightarrow> 'w hbt result" where
  "substitute_symbol_pair_with_set sp sps g =
     (if \<not> valid_pair sp then Inl EmptyStringException
      else if list_ex (\<lambda>x. \<not> valid_pair x) (sorted_list_of_set sps) then Inl EmptyStringException
      else substitute_pair_set sp sps g)"

definition substitute_symbol_pair ::
  "string_pair \<Rightarrow> string_pair \<Rightarrow> 'w hbt \<Rightarrow> 'w hbt result" where
  "substitute_symbol_pair old_pair new_pair g =
     (if \<not> valid_pair old_pair \<or> \<not> valid_pair new_pair then Inl EmptyStringException
      else substitute_pair_set old_pair {new_pair} g)"

section \<open>By a function\<close>

text \<open>The caller's function gives whether to substitute and the substituting pairs; it may throw.
  Taking the first element of an empty set is undefined.\<close>

definition substitute_func_body ::
  "(string_pair \<Rightarrow> (bool \<times> string_pair set) result) \<Rightarrow> ('w, string set) transition_body" where
  "substitute_func_body func tr A =
     rbind (func (tr_input tr, tr_output tr)) (\<lambda>(perform_substitution, substituting_transitions).
       if perform_substitution then
         (case sorted_list_of_set substituting_transitions of
            [] \<Rightarrow> Inl UndefinedBehaviour
          | first # rest \<Rightarrow>
              if \<not> valid_pair first then Inl EmptyStringException
              else rmap (\<lambda>(TRs, A'). (with_label tr first, TRs, A'))
                (rfold (\<lambda>sp (TRs, A'). if \<not> valid_pair sp then Inl EmptyStringException
                   else Inr (TRs @ [with_label tr sp], insert (snd sp) (insert (fst sp) A')))
                 (first # rest) ([], insert (snd first) (insert (fst first) A))))
       else Inr (tr, [], A))"

definition substitute_func ::
  "(string_pair \<Rightarrow> (bool \<times> string_pair set) result) \<Rightarrow> 'w hbt \<Rightarrow> 'w hbt result" where
  "substitute_func func g = edit_transitions (substitute_func_body func) g"

section \<open>Free insertion of symbol pairs\<close>

fun insert_loops :: "nat \<Rightarrow> string_pair list \<Rightarrow> 'w \<Rightarrow> 'w transition list list \<Rightarrow> 'w transition list list" where
  "insert_loops source_state sps weight [] = []"
| "insert_loops source_state sps weight (trs # sv) =
     (trs @ map (\<lambda>sp. \<lparr>tr_target = source_state, tr_input = fst sp, tr_output = snd sp,
                      tr_weight = weight\<rparr>) sps) # insert_loops (source_state + 1) sps weight sv"

definition insert_freely_pair :: "string_pair \<Rightarrow> 'w \<Rightarrow> 'w hbt \<Rightarrow> 'w hbt result" where
  "insert_freely_pair symbol_pair weight g =
     (if \<not> valid_pair symbol_pair then Inl EmptyStringException
      else let g1 = add_symbol_to_alphabet (snd symbol_pair)
                 (add_symbol_to_alphabet (fst symbol_pair) g)
           in Inr (g1\<lparr>state_vector := insert_loops 0 [symbol_pair] weight (state_vector g1)\<rparr>))"

definition insert_freely_pairs :: "string_pair set \<Rightarrow> 'w \<Rightarrow> 'w hbt \<Rightarrow> 'w hbt result" where
  "insert_freely_pairs symbol_pairs weight g =
     rmap (\<lambda>g1. g1\<lparr>state_vector :=
               insert_loops 0 (sorted_list_of_set symbol_pairs) weight (state_vector g1)\<rparr>)
       (rfold (\<lambda>sp g1. if \<not> valid_pair sp then Inl EmptyStringException
          else Inr (add_symbol_to_alphabet (snd sp) (add_symbol_to_alphabet (fst sp) g1)))
        (sorted_list_of_set symbol_pairs) g)"

section \<open>Lemmas\<close>

text \<open>The removing loop from left to right: the transition after a removed one is neither
  compared nor noted.\<close>

fun skipping :: "('a \<Rightarrow> bool) \<Rightarrow> 'a list \<Rightarrow> 'a list" where
  "skipping P [] = []"
| "skipping P [x] = (if P x then [] else [x])"
| "skipping P (x # y # ys) = (if P x then y # skipping P ys else x # skipping P (y # ys))"

fun noted :: "('a \<Rightarrow> bool) \<Rightarrow> 'a list \<Rightarrow> 'a list" where
  "noted P [] = []"
| "noted P [x] = (if P x then [] else [x])"
| "noted P (x # y # ys) = (if P x then noted P ys else x # noted P (y # ys))"

definition uses_symbol :: "'w transition \<Rightarrow> string \<Rightarrow> bool" where
  "uses_symbol tr s \<longleftrightarrow> tr_input tr = s \<or> tr_output tr = s"

lemma remove_transitions_loop_eq:
  "remove_transitions_loop sp i trs u =
     (take i trs @ skipping (\<lambda>tr. tr_label tr = sp) (drop i trs),
      fst u \<or> list_ex (\<lambda>tr. uses_symbol tr (fst sp)) (noted (\<lambda>tr. tr_label tr = sp) (drop i trs)),
      snd u \<or> list_ex (\<lambda>tr. uses_symbol tr (snd sp)) (noted (\<lambda>tr. tr_label tr = sp) (drop i trs)))"
proof (induction sp i trs u rule: remove_transitions_loop.induct)
  case (1 sp i trs iu ou)
  let ?u = "(iu, ou)"
  show ?case
  proof (cases "i < length trs")
    case False
    then show ?thesis by simp
  next
    case True
    then have d: "drop i trs = trs ! i # drop (Suc i) trs" by (simp add: Cons_nth_drop_Suc)
    show ?thesis
    proof (cases "tr_label (trs ! i) = sp")
      case match: True
      then have m: "tr_input (trs ! i) = fst sp \<and> tr_output (trs ! i) = snd sp"
        by (auto simp: tr_label_def)
      have IH: "remove_transitions_loop sp (i + 1) (take i trs @ drop (i + 1) trs) ?u =
         (take (i + 1) (take i trs @ drop (i + 1) trs) @
            skipping (\<lambda>tr. tr_label tr = sp) (drop (i + 1) (take i trs @ drop (i + 1) trs)),
          iu \<or> list_ex (\<lambda>tr. uses_symbol tr (fst sp))
            (noted (\<lambda>tr. tr_label tr = sp) (drop (i + 1) (take i trs @ drop (i + 1) trs))),
          ou \<or> list_ex (\<lambda>tr. uses_symbol tr (snd sp))
            (noted (\<lambda>tr. tr_label tr = sp) (drop (i + 1) (take i trs @ drop (i + 1) trs))))"
        using 1(1) [OF True refl m] by (simp del: remove_transitions_loop.simps)
      have "remove_transitions_loop sp i trs ?u =
          remove_transitions_loop sp (i + 1) (take i trs @ drop (i + 1) trs) ?u"
        using True m by (subst remove_transitions_loop.simps) (simp add: Let_def del: remove_transitions_loop.simps)
      moreover have "drop (i + 1) (take i trs @ drop (i + 1) trs) = drop 1 (drop (Suc i) trs)"
        "take (i + 1) (take i trs @ drop (i + 1) trs) = take i trs @ take 1 (drop (Suc i) trs)"
        using True by simp_all
      moreover have "skipping (\<lambda>tr. tr_label tr = sp) (drop i trs) =
          take 1 (drop (Suc i) trs) @ skipping (\<lambda>tr. tr_label tr = sp) (drop 1 (drop (Suc i) trs))"
        "noted (\<lambda>tr. tr_label tr = sp) (drop i trs) =
          noted (\<lambda>tr. tr_label tr = sp) (drop 1 (drop (Suc i) trs))"
        using match unfolding d by (cases "drop (Suc i) trs"; simp)+
      ultimately show ?thesis using IH by (simp del: remove_transitions_loop.simps)
    next
      case no: False
      then have m: "\<not> (tr_input (trs ! i) = fst sp \<and> tr_output (trs ! i) = snd sp)"
        by (auto simp: tr_label_def)
      let ?v = "((if uses_symbol (trs ! i) (fst sp) then True else iu),
                 (if uses_symbol (trs ! i) (snd sp) then True else ou))"
      have "remove_transitions_loop sp i trs ?u = remove_transitions_loop sp (i + 1) trs ?v"
        using True m by (subst remove_transitions_loop.simps) (auto simp: Let_def uses_symbol_def simp del: remove_transitions_loop.simps)
      moreover have "remove_transitions_loop sp (i + 1) trs ?v =
         (take (i + 1) trs @ skipping (\<lambda>tr. tr_label tr = sp) (drop (i + 1) trs),
          fst ?v \<or> list_ex (\<lambda>tr. uses_symbol tr (fst sp)) (noted (\<lambda>tr. tr_label tr = sp) (drop (i + 1) trs)),
          snd ?v \<or> list_ex (\<lambda>tr. uses_symbol tr (snd sp)) (noted (\<lambda>tr. tr_label tr = sp) (drop (i + 1) trs)))"
        using 1(2) [OF True refl m] by (simp add: uses_symbol_def del: remove_transitions_loop.simps)
      moreover have "skipping (\<lambda>tr. tr_label tr = sp) (drop i trs) =
          trs ! i # skipping (\<lambda>tr. tr_label tr = sp) (drop (Suc i) trs)"
        "noted (\<lambda>tr. tr_label tr = sp) (drop i trs) =
          trs ! i # noted (\<lambda>tr. tr_label tr = sp) (drop (Suc i) trs)"
        using no unfolding d by (cases "drop (Suc i) trs"; simp)+
      ultimately show ?thesis using True by (auto simp: take_Suc_conv_app_nth simp del: remove_transitions_loop.simps)
    qed
  qed
qed

definition noted_symbol :: "string_pair \<Rightarrow> 'w hbt \<Rightarrow> string \<Rightarrow> bool" where
  "noted_symbol sp g x \<longleftrightarrow>
     (\<exists>s. \<exists>tr \<in> set (noted (\<lambda>tr. tr_label tr = sp) (transitions_of g s)). uses_symbol tr x)"

lemma remove_transitions_fold:
  "fold (\<lambda>trs (sv, u). let (trs', u') = remove_transitions_loop sp 0 trs u in (sv @ [trs'], u'))
     svs (acc, iu, ou) =
   (acc @ map (skipping (\<lambda>tr. tr_label tr = sp)) svs,
    iu \<or> (\<exists>trs \<in> set svs. \<exists>tr \<in> set (noted (\<lambda>tr. tr_label tr = sp) trs). uses_symbol tr (fst sp)),
    ou \<or> (\<exists>trs \<in> set svs. \<exists>tr \<in> set (noted (\<lambda>tr. tr_label tr = sp) trs). uses_symbol tr (snd sp)))"
proof (induction svs arbitrary: acc iu ou)
  case Nil
  then show ?case by simp
next
  case (Cons trs svs)
  let ?f = "\<lambda>trs (sv, u). let (trs', u') = remove_transitions_loop sp 0 trs u in (sv @ [trs'], u')"
  have "?f trs (acc, iu, ou) = (acc @ [skipping (\<lambda>tr. tr_label tr = sp) trs],
      iu \<or> (\<exists>tr \<in> set (noted (\<lambda>tr. tr_label tr = sp) trs). uses_symbol tr (fst sp)),
      ou \<or> (\<exists>tr \<in> set (noted (\<lambda>tr. tr_label tr = sp) trs). uses_symbol tr (snd sp)))"
    by (simp add: remove_transitions_loop_eq list_ex_iff del: remove_transitions_loop.simps)
  then have "fold ?f (trs # svs) (acc, iu, ou) = fold ?f svs
      (acc @ [skipping (\<lambda>tr. tr_label tr = sp) trs],
       iu \<or> (\<exists>tr \<in> set (noted (\<lambda>tr. tr_label tr = sp) trs). uses_symbol tr (fst sp)),
       ou \<or> (\<exists>tr \<in> set (noted (\<lambda>tr. tr_label tr = sp) trs). uses_symbol tr (snd sp)))"
    by (simp only: fold_simps)
  then show ?case unfolding Cons.IH by (simp add: disj_assoc)
qed

lemma noted_symbol_sv:
  "noted_symbol sp g x \<longleftrightarrow>
     (\<exists>trs \<in> set (state_vector g). \<exists>tr \<in> set (noted (\<lambda>tr. tr_label tr = sp) trs). uses_symbol tr x)"
proof
  assume "noted_symbol sp g x"
  then obtain s tr where *: "tr \<in> set (noted (\<lambda>tr. tr_label tr = sp) (transitions_of g s))"
    "uses_symbol tr x" by (auto simp: noted_symbol_def)
  then have "s < length (state_vector g)" by (auto simp: transitions_of_def split: if_splits)
  with * show "\<exists>trs \<in> set (state_vector g). \<exists>tr \<in> set (noted (\<lambda>tr. tr_label tr = sp) trs). uses_symbol tr x"
    by (intro bexI [of _ "state_vector g ! s"] bexI [of _ tr]) (simp_all add: transitions_of_def)
next
  assume "\<exists>trs \<in> set (state_vector g). \<exists>tr \<in> set (noted (\<lambda>tr. tr_label tr = sp) trs). uses_symbol tr x"
  then obtain trs tr where trs: "trs \<in> set (state_vector g)" "uses_symbol tr x"
    "tr \<in> set (noted (\<lambda>tr. tr_label tr = sp) trs)" by blast
  then obtain s where "s < length (state_vector g)" "state_vector g ! s = trs"
    by (auto simp: in_set_conv_nth [of trs])
  with trs(2,3) show "noted_symbol sp g x"
    by (auto simp: noted_symbol_def transitions_of_def intro!: exI [of _ s])
qed

lemma remove_transitions_simps:
  "length (state_vector (remove_transitions sp g)) = length (state_vector g)"
  "final_weight_map (remove_transitions sp g) = final_weight_map g"
  "transitions_of (remove_transitions sp g) s =
     skipping (\<lambda>tr. tr_label tr = sp) (transitions_of g s)"
  "alphabet (remove_transitions sp g) =
     alphabet g - {x \<in> {fst sp, snd sp}. \<not> noted_symbol sp g x}"
proof -
  let ?g = "g\<lparr>state_vector := map (skipping (\<lambda>tr. tr_label tr = sp)) (state_vector g)\<rparr>"
  have eq: "remove_transitions sp g =
     (let g2 = (if \<not> noted_symbol sp g (fst sp) then remove_symbol_from_alphabet (fst sp) ?g else ?g)
      in if \<not> noted_symbol sp g (snd sp) then remove_symbol_from_alphabet (snd sp) g2 else g2)"
    unfolding remove_transitions_def remove_transitions_fold by (simp add: noted_symbol_sv Let_def)
  show "length (state_vector (remove_transitions sp g)) = length (state_vector g)"
    "final_weight_map (remove_transitions sp g) = final_weight_map g"
    by (simp_all add: eq Let_def)
  show "alphabet (remove_transitions sp g) =
     alphabet g - {x \<in> {fst sp, snd sp}. \<not> noted_symbol sp g x}" by (auto simp: eq Let_def)
  have "transitions_of (remove_transitions sp g) = transitions_of ?g"
    by (rule transitions_of_cong) (simp add: eq Let_def)
  then show "transitions_of (remove_transitions sp g) s =
     skipping (\<lambda>tr. tr_label tr = sp) (transitions_of g s)" by (simp add: transitions_of_def)
qed

text \<open>When no transition right behind a removed one shares a symbol with it, nothing is missed.\<close>

fun apart :: "string_pair \<Rightarrow> 'w transition list \<Rightarrow> bool" where
  "apart sp (x # y # ys) \<longleftrightarrow>
     (tr_label x = sp \<longrightarrow> \<not> uses_symbol y (fst sp) \<and> \<not> uses_symbol y (snd sp)) \<and> apart sp (y # ys)"
| "apart sp _ \<longleftrightarrow> True"

lemma skipping_subset: "set (skipping P xs) \<subseteq> set xs"
  by (induction P xs rule: skipping.induct) auto

lemma skipping_all: "\<forall>x \<in> set xs. P x \<Longrightarrow> length (skipping P xs) = length xs div 2"
  by (induction P xs rule: skipping.induct) auto

lemma apart_skipping:
  "apart sp trs \<Longrightarrow>
     skipping (\<lambda>tr. tr_label tr = sp) trs = filter (\<lambda>tr. tr_label tr \<noteq> sp) trs \<and>
     (\<forall>x \<in> {fst sp, snd sp}. (\<exists>tr \<in> set (noted (\<lambda>tr. tr_label tr = sp) trs). uses_symbol tr x) \<longleftrightarrow>
        (\<exists>tr \<in> set (filter (\<lambda>tr. tr_label tr \<noteq> sp) trs). uses_symbol tr x))"
proof (induction "\<lambda>tr :: 'a transition. tr_label tr = sp" trs rule: skipping.induct)
  case (3 x y ys)
  then have IH: "tr_label x \<noteq> sp \<Longrightarrow> ?case" by auto
  have "?case" if "tr_label x = sp"
  proof -
    have "tr_label y \<noteq> sp" using 3(3) that by (auto simp: uses_symbol_def tr_label_def)
    moreover have "apart sp ys" using 3(3) by (cases ys) auto
    ultimately show ?thesis using 3(1,3) that by auto
  qed
  with IH show ?case by blast
qed auto

text \<open>Substitution by a set: the first pair takes the place of the transition and is appended
  once more with the others.\<close>

definition expand_pair :: "string_pair \<Rightarrow> string_pair list \<Rightarrow> 'w transition list \<Rightarrow> 'w transition list" where
  "expand_pair sp sps trs =
     map (\<lambda>tr. if tr_label tr = sp then with_label tr (hd sps) else tr) trs @
     concat (map (\<lambda>tr. if tr_label tr = sp then map (with_label tr) sps else []) trs)"

lemma with_label_twice [simp]: "with_label (with_label tr p) q = with_label tr q"
  by (simp add: with_label_def)

lemma label_eq: "tr_input tr = fst sp \<and> tr_output tr = snd sp \<longleftrightarrow> tr_label tr = sp"
  by (auto simp: tr_label_def)

lemma fold_performed:
  "fold (fold (\<lambda>tr b. P tr \<or> b)) sv b \<longleftrightarrow> b \<or> (\<exists>trs \<in> set sv. \<exists>tr \<in> set trs. P tr)"
proof -
  have inner: "fold (\<lambda>tr b. P tr \<or> b) trs b \<longleftrightarrow> b \<or> (\<exists>tr \<in> set trs. P tr)" for trs b
    by (induction trs arbitrary: b) auto
  show ?thesis by (induction sv arbitrary: b) (auto simp: inner)
qed

lemma edit_pair_set:
  "edit_states (substitute_pair_set_body sp sps) sv b =
     Inr (map (expand_pair sp sps) sv, b \<or> (\<exists>trs \<in> set sv. \<exists>tr \<in> set trs. tr_label tr = sp))"
proof -
  have "edit_states (substitute_pair_set_body sp sps) sv b =
      Inr (map (\<lambda>trs. map (\<lambda>tr. if tr_label tr = sp then with_label tr (hd sps) else tr) trs @
        concat (map (\<lambda>tr. if tr_label tr = sp then map (with_label tr) sps else []) trs)) sv,
        fold (fold (\<lambda>tr b. tr_label tr = sp \<or> b)) sv b)"
    by (rule edit_states_simple) (simp add: substitute_pair_set_body_def label_eq Let_def comp_def)
  then show ?thesis by (simp add: fold_performed expand_pair_def [abs_def])
qed

lemma set_expand_pair:
  assumes "sps \<noteq> []"
  shows "set (expand_pair sp sps trs) =
     {t'. \<exists>t \<in> set trs. \<exists>q. (if tr_label t = sp then q \<in> set sps else q = tr_label t) \<and> t' = with_label t q}"
proof -
  have 1: "t' \<in> set (expand_pair sp sps trs) \<longleftrightarrow>
      (\<exists>t \<in> set trs. if tr_label t = sp then \<exists>q \<in> set sps. t' = with_label t q else t' = t)" for t'
    using hd_in_set [OF assms] by (auto simp: expand_pair_def split: if_splits)
  have "(if tr_label t = sp then \<exists>q \<in> set sps. t' = with_label t q else t' = t) \<longleftrightarrow>
      (\<exists>q. (if tr_label t = sp then q \<in> set sps else q = tr_label t) \<and> t' = with_label t q)"
    for t t' :: "'a transition"
    by (cases "tr_label t = sp") (simp_all add: Bex_def del: split_paired_Ex)
  with 1 show ?thesis by blast
qed

text \<open>With their multiplicities: a transition with the pair becomes one with the first pair of the list, and one
  with each pair of the list.\<close>

lemma mset_expand_pair:
  "mset (expand_pair sp sps trs) =
     (\<Sum>tr \<in># mset trs. if tr_label tr = sp then add_mset (with_label tr (hd sps)) (mset (map (with_label tr) sps)) else {#tr#})"
proof (induction trs)
  case (Cons tr trs)
  have "mset (expand_pair sp sps (tr # trs)) =
      (if tr_label tr = sp then add_mset (with_label tr (hd sps)) (mset (map (with_label tr) sps)) else {#tr#}) + mset (expand_pair sp sps trs)"
    by (simp add: expand_pair_def del: mset_map)
  with Cons show ?case by simp
qed (simp add: expand_pair_def)

lemma add_symbol_pairs_simps [simp]:
  "state_vector (add_symbol_pairs_to_alphabet S g) = state_vector g"
  "final_weight_map (add_symbol_pairs_to_alphabet S g) = final_weight_map g"
  "finite S \<Longrightarrow> alphabet (add_symbol_pairs_to_alphabet S g) = pair_symbols S \<union> alphabet g"
proof -
  let ?f = "\<lambda>p g. add_symbol_to_alphabet (snd p) (add_symbol_to_alphabet (fst p) g)"
  have f: "state_vector (fold ?f ps g) = state_vector g"
    "final_weight_map (fold ?f ps g) = final_weight_map g"
    "alphabet (fold ?f ps g) = pair_symbols (set ps) \<union> alphabet g" for ps
    by (induction ps arbitrary: g) (auto simp: pair_symbols_def)
  show "state_vector (add_symbol_pairs_to_alphabet S g) = state_vector g"
    "final_weight_map (add_symbol_pairs_to_alphabet S g) = final_weight_map g"
    by (simp_all add: add_symbol_pairs_to_alphabet_def f)
  show "alphabet (add_symbol_pairs_to_alphabet S g) = pair_symbols S \<union> alphabet g" if "finite S"
    using that by (simp add: add_symbol_pairs_to_alphabet_def f(3))
qed

lemma prune_after_substitution_simps [simp]:
  "state_vector (prune_alphabet_after_substitution S g) = state_vector g"
  "final_weight_map (prune_alphabet_after_substitution S g) = final_weight_map g"
  "finite S \<Longrightarrow> alphabet (prune_alphabet_after_substitution S g) = alphabet g - (S - symbols_used g)"
proof -
  let ?f = "\<lambda>s g. if s \<notin> U then remove_symbol_from_alphabet s g else g"
  have f: "state_vector (fold (\<lambda>s g. if s \<notin> U then remove_symbol_from_alphabet s g else g) xs h) = state_vector h"
    "final_weight_map (fold (\<lambda>s g. if s \<notin> U then remove_symbol_from_alphabet s g else g) xs h) =
      final_weight_map h"
    "alphabet (fold (\<lambda>s g. if s \<notin> U then remove_symbol_from_alphabet s g else g) xs h) =
      alphabet h - (set xs - U)" for U xs and h :: "'a hbt"
    by (induction xs arbitrary: h) auto
  show "state_vector (prune_alphabet_after_substitution S g) = state_vector g"
    "final_weight_map (prune_alphabet_after_substitution S g) = final_weight_map g"
    by (simp_all add: prune_alphabet_after_substitution_def Let_def f)
  show "alphabet (prune_alphabet_after_substitution S g) = alphabet g - (S - symbols_used g)"
    if "finite S"
    using that by (simp add: prune_alphabet_after_substitution_def Let_def f)
qed

text \<open>Substitution by a function.\<close>

definition func_ok :: "(string_pair \<Rightarrow> (bool \<times> string_pair set) result) \<Rightarrow> string_pair \<Rightarrow> bool" where
  "func_ok func sp \<longleftrightarrow> (case func sp of Inl e \<Rightarrow> False
     | Inr (b, S) \<Rightarrow> b \<longrightarrow> finite S \<and> S \<noteq> {} \<and> (\<forall>p \<in> S. valid_pair p))"

definition func_set :: "(string_pair \<Rightarrow> (bool \<times> string_pair set) result) \<Rightarrow> string_pair \<Rightarrow> string_pair set" where
  "func_set func sp = (case func sp of Inl e \<Rightarrow> {} | Inr (b, S) \<Rightarrow> if b then S else {})"

lemma func_loop:
  "\<forall>p \<in> set sps. valid_pair p \<Longrightarrow>
   rfold (\<lambda>sp (TRs, A). if \<not> valid_pair sp then Inl EmptyStringException
      else Inr (TRs @ [with_label tr sp], insert (snd sp) (insert (fst sp) A))) sps (trs, A) =
     Inr (trs @ map (with_label tr) sps, A \<union> pair_symbols (set sps))"
proof (induction sps arbitrary: trs A)
  case Nil
  then show ?case by (simp add: pair_symbols_def)
next
  case (Cons p sps)
  have "pair_symbols (set (p # sps)) = insert (snd p) (insert (fst p) (pair_symbols (set sps)))"
    by (auto simp: pair_symbols_def)
  with Cons show ?case by simp
qed

lemma substitute_func_body_result:
  assumes "func_ok func (tr_label tr)"
  shows "substitute_func_body func tr A =
     Inr (if func_set func (tr_label tr) = {} then tr
          else with_label tr (hd (sorted_list_of_set (func_set func (tr_label tr)))),
          map (with_label tr) (sorted_list_of_set (func_set func (tr_label tr))),
          A \<union> pair_symbols (func_set func (tr_label tr)))"
proof -
  from assms obtain b S where f: "func (tr_label tr) = Inr (b, S)"
    and S: "b \<Longrightarrow> finite S \<and> S \<noteq> {} \<and> (\<forall>p \<in> S. valid_pair p)"
    by (auto simp: func_ok_def split: sum.splits prod.splits)
  note f' = f [unfolded tr_label_def]
  show ?thesis
  proof (cases b)
    case False
    with f f' show ?thesis by (simp add: substitute_func_body_def func_set_def pair_symbols_def)
  next
    case True
    with S obtain p ps where ps: "sorted_list_of_set S = p # ps" "set (p # ps) = S"
      by (metis list.exhaust set_empty2 set_sorted_list_of_set)
    have valid: "\<forall>q \<in> set (p # ps). valid_pair q" using S True ps(2) by blast
    then have vp: "valid_pair p" by simp
    have "pair_symbols (set (p # ps)) \<union> insert (snd p) (insert (fst p) A) = A \<union> pair_symbols S"
      using ps(2) by (auto simp: pair_symbols_def)
    with True f f' S ps valid vp
      func_loop [OF valid, of tr "[]" "insert (snd p) (insert (fst p) A)"]
    show ?thesis
      by (simp add: substitute_func_body_def func_set_def Un_commute del: rfold.simps list.set(2))
  qed
qed

lemma wf_alphabet_pruned:
  "alphabet h = A - (S - symbols_used h) \<Longrightarrow> symbols_used h \<subseteq> A \<Longrightarrow> finite A \<Longrightarrow> [] \<notin> A \<Longrightarrow>
     wf_alphabet h"
  unfolding wf_alphabet_used by auto

lemma func_set_ok:
  "func_ok func sp \<Longrightarrow> finite (func_set func sp) \<and> (\<forall>p \<in> func_set func sp. valid_pair p)"
  by (auto simp: func_ok_def func_set_def split: sum.splits prod.splits)

lemma valid_pair_symbols: "\<forall>p \<in> S. valid_pair p \<Longrightarrow> [] \<notin> pair_symbols S"
  by (auto simp: pair_symbols_def valid_pair_def is_valid_symbol_def split: if_splits)

lemma hd_sorted_in: "finite S \<Longrightarrow> S \<noteq> {} \<Longrightarrow> hd (sorted_list_of_set S) \<in> S"
  by (metis hd_in_set set_sorted_list_of_set sorted_list_of_set_eq_Nil_iff)

interpretation by_function: rewriting substitute_func_body
  "\<lambda>func tr. func_ok func (tr_label tr)"
  "\<lambda>func tr. if func_set func (tr_label tr) = {} then tr
     else with_label tr (hd (sorted_list_of_set (func_set func (tr_label tr))))"
  "\<lambda>func tr. map (with_label tr) (sorted_list_of_set (func_set func (tr_label tr)))"
  "\<lambda>func tr. pair_symbols (func_set func (tr_label tr))"
proof (unfold_locales, goal_cases)
  case (1 p tr A)
  then show ?case by (simp add: substitute_func_body_result)
next
  case (2 x p tr)
  then show ?case by (auto split: if_splits)
next
  case (3 p tr x)
  then have fin: "finite (func_set p (tr_label tr))" using func_set_ok by blast
  from 3(2) consider "x = tr" | "func_set p (tr_label tr) \<noteq> {}"
      "x = with_label tr (hd (sorted_list_of_set (func_set p (tr_label tr))))"
    | "x \<in> with_label tr ` func_set p (tr_label tr)"
    using fin by (auto split: if_splits)
  then consider "x = tr" | q where "q \<in> func_set p (tr_label tr)" "x = with_label tr q"
    using hd_sorted_in [OF fin] by cases blast+
  then show ?case by cases (auto simp: pair_symbols_def)
next
  case (4 p tr)
  then show ?case using func_set_ok valid_pair_symbols by (meson finite_pair_symbols)
qed

text \<open>Free insertion: loops at every state.\<close>

definition loops_at :: "string_pair list \<Rightarrow> 'w \<Rightarrow> nat \<Rightarrow> 'w transition list" where
  "loops_at sps w s = map (\<lambda>sp. \<lparr>tr_target = s, tr_input = fst sp, tr_output = snd sp, tr_weight = w\<rparr>) sps"

lemma loops_at_mem:
  "tr \<in> set (loops_at sps w s) \<Longrightarrow> tr_target tr = s \<and> tr_label tr \<in> set sps"
  by (auto simp: loops_at_def tr_label_def)

lemma insert_loops_nth:
  "length (insert_loops k sps w sv) = length sv \<and>
   (i < length sv \<longrightarrow> insert_loops k sps w sv ! i = sv ! i @ loops_at sps w (k + i))"
  by (induction k sps w sv arbitrary: i rule: insert_loops.induct)
     (auto simp: nth_Cons loops_at_def split: nat.splits)

lemma insert_freely_loop:
  "\<forall>p \<in> set sps. valid_pair p \<Longrightarrow>
   \<exists>g'. rfold (\<lambda>sp g1. if \<not> valid_pair sp then Inl EmptyStringException
      else Inr (add_symbol_to_alphabet (snd sp) (add_symbol_to_alphabet (fst sp) g1))) sps g = Inr g' \<and>
     state_vector g' = state_vector g \<and> final_weight_map g' = final_weight_map g \<and>
     alphabet g' = alphabet g \<union> pair_symbols (set sps)"
proof (induction sps arbitrary: g)
  case Nil
  then show ?case by (simp add: pair_symbols_def)
next
  case (Cons p sps)
  let ?g = "add_symbol_to_alphabet (snd p) (add_symbol_to_alphabet (fst p) g)"
  have "insert (snd p) (insert (fst p) (alphabet g)) \<union> pair_symbols (set sps) =
      alphabet g \<union> pair_symbols (set (p # sps))" by (auto simp: pair_symbols_def)
  with Cons.IH [of ?g] Cons.prems show ?case by simp
qed

lemma inserted_path_shuffle:
  assumes t: "\<And>s. transitions_of g' s = (if s < n then transitions_of g s @ loops_at sps w s else [])"
  shows "path g' p us q \<Longrightarrow>
     \<exists>ts xs. path g p ts q \<and> set xs \<subseteq> set sps \<and> map tr_label us \<in> shuffles (map tr_label ts) xs"
proof (induction us arbitrary: p)
  case Nil
  then show ?case by (intro exI [of _ "[]"]) simp
next
  case (Cons u us)
  then have u: "u \<in> set (transitions_of g' p)" and rest: "path g' (tr_target u) us q" by simp_all
  from Cons.IH [OF rest] obtain ts xs where
    IH: "path g (tr_target u) ts q" "set xs \<subseteq> set sps" "map tr_label us \<in> shuffles (map tr_label ts) xs"
    by blast
  from u consider "u \<in> set (transitions_of g p)" | "u \<in> set (loops_at sps w p)"
    unfolding t by (auto split: if_splits)
  then show ?case
  proof cases
    case 1
    with IH show ?thesis
      by (intro exI [of _ "u # ts"] exI [of _ xs]) (simp add: Cons_in_shuffles_leftI)
  next
    case 2
    then have "tr_label u \<in> set sps" "tr_target u = p" by (auto simp: loops_at_def tr_label_def)
    with IH show ?thesis
      by (intro exI [of _ ts] exI [of _ "tr_label u # xs"]) (simp add: Cons_in_shuffles_rightI)
  qed
qed

lemma shuffle_inserted_path:
  assumes t: "\<And>s. transitions_of g' s = (if s < n then transitions_of g s @ loops_at sps w s else [])"
    and n: "\<And>s tr. tr \<in> set (transitions_of g s) \<Longrightarrow> tr_target tr < n \<and> s < n"
  shows "path g p ts q \<Longrightarrow> set xs \<subseteq> set sps \<Longrightarrow> ps \<in> shuffles (map tr_label ts) xs \<Longrightarrow> p < n \<Longrightarrow>
     \<exists>us. path g' p us q \<and> ps = map tr_label us"
proof (induction ps arbitrary: p ts xs)
  case Nil
  then show ?case by (intro exI [of _ "[]"]) simp
next
  case (Cons x ps)
  from Cons.prems(3) consider
      t' ts' where "ts = t' # ts'" "tr_label t' = x" "ps \<in> shuffles (map tr_label ts') xs"
    | xs' where "xs = x # xs'" "ps \<in> shuffles (map tr_label ts) xs'"
    by (cases ts; cases xs) (auto simp: Cons_in_shuffles_iff)
  then show ?case
  proof cases
    case 1
    with Cons.prems have tr: "t' \<in> set (transitions_of g p)" "path g (tr_target t') ts' q" by simp_all
    from Cons.IH [OF tr(2) Cons.prems(2) 1(3)] n [OF tr(1)] obtain us where
      "path g' (tr_target t') us q" "ps = map tr_label us" by blast
    with 1(2) tr(1) Cons.prems(4) show ?thesis by (intro exI [of _ "t' # us"]) (simp add: t)
  next
    case 2
    with Cons.prems obtain us where us: "path g' p us q" "ps = map tr_label us"
      using Cons.IH [OF Cons.prems(1), of xs'] by auto
    let ?l = "\<lparr>tr_target = p, tr_input = fst x, tr_output = snd x, tr_weight = w\<rparr>"
    have "?l \<in> set (loops_at sps w p)" using 2(1) Cons.prems(2) by (force simp: loops_at_def)
    with us Cons.prems(4) show ?thesis
      by (intro exI [of _ "?l # us"]) (simp add: t tr_label_def)
  qed
qed

section \<open>Properties\<close>

text \<open>Removing the transitions with a pair removes exactly these, keeps the graph well-formed and
  drops the symbols no longer used, provided that no transition right behind one of them shares
  a symbol with the pair.\<close>

theorem remove_transitions_correct:
  assumes "wf_hbt g" and "\<forall>s. apart sp (transitions_of g s)"
  shows "wf_hbt (remove_transitions sp g) \<and>
     (\<forall>s. transitions_of (remove_transitions sp g) s =
        filter (\<lambda>tr. tr_label tr \<noteq> sp) (transitions_of g s)) \<and>
     alphabet (remove_transitions sp g) =
       alphabet g - ({fst sp, snd sp} - symbols_used (remove_transitions sp g))"
proof -
  let ?h = "remove_transitions sp g"
  have t: "transitions_of ?h s = filter (\<lambda>tr. tr_label tr \<noteq> sp) (transitions_of g s)" for s
    using apart_skipping [of sp "transitions_of g s"] assms(2) by (simp add: remove_transitions_simps)
  have "noted_symbol sp g x \<longleftrightarrow> x \<in> symbols_used ?h" if x: "x \<in> {fst sp, snd sp}" for x
  proof -
    have "(\<exists>tr \<in> set (noted (\<lambda>tr. tr_label tr = sp) (transitions_of g s)). uses_symbol tr x) \<longleftrightarrow>
        (\<exists>tr \<in> set (transitions_of ?h s). uses_symbol tr x)" for s
      using apart_skipping [of sp "transitions_of g s"] assms(2) x unfolding t by blast
    then show ?thesis unfolding noted_symbol_def symbols_used_eq uses_symbol_def by auto
  qed
  then have a: "alphabet ?h = alphabet g - ({fst sp, snd sp} - symbols_used ?h)"
    unfolding remove_transitions_simps by blast
  have sub: "set (transitions_of ?h s) \<subseteq> set (transitions_of g s)" for s by (auto simp: t)
  have g: "wf_graph g" "wf_alphabet g" using assms(1) by (simp_all add: wf_hbt_def)
  then have "wf_graph ?h"
    using sub by (intro wf_graph_more_states [OF g(1)]) (auto simp: remove_transitions_simps(1,2) wf_graph_iff)
  moreover have "wf_alphabet ?h"
    using g(2) symbols_used_mono [of ?h g, OF sub] unfolding wf_alphabet_used a by auto
  ultimately show ?thesis using t a by (simp add: wf_hbt_def)
qed

lemma remove_transitions_correct_witness:
  "transitions_of (remove_transitions (''a'', ''b'') example_graph) 0 = []"
  using remove_transitions_correct [OF example_graph_wf, of "(''a'', ''b'')"]
  by (simp add: example_graph_simps tr_label_def)

text \<open>The loop that removes the transitions with a pair advances past the transition behind a
  removed one: of a state whose transitions all carry the pair, half stay, and when this is so
  in every state, the symbols leave the alphabet although they are still in use.\<close>

theorem remove_transitions_leaves_half:
  assumes "\<forall>s. \<forall>tr \<in> set (transitions_of g s). tr_label tr = sp"
  shows "(\<forall>s. length (transitions_of (remove_transitions sp g) s) = length (transitions_of g s) div 2) \<and>
     fst sp \<notin> alphabet (remove_transitions sp g) \<and>
     (2 \<le> length (transitions_of g s) \<longrightarrow> \<not> wf_hbt (remove_transitions sp g))"
proof -
  let ?h = "remove_transitions sp g"
  let ?P = "\<lambda>tr :: 'a transition. tr_label tr = sp"
  have half: "length (transitions_of ?h s) = length (transitions_of g s) div 2" for s
    using skipping_all [of "transitions_of g s" ?P] assms by (simp add: remove_transitions_simps)
  have "noted ?P trs = []" if "\<forall>tr \<in> set trs. ?P tr" for trs
    using that by (induction ?P trs rule: noted.induct) auto
  with assms have "\<not> noted_symbol sp g (fst sp)" by (simp add: noted_symbol_def)
  then have a: "fst sp \<notin> alphabet ?h" by (simp add: remove_transitions_simps)
  moreover have "\<not> wf_hbt ?h" if "2 \<le> length (transitions_of g s)"
  proof -
    have "0 < length (transitions_of ?h s)" using half that by simp
    then obtain tr where tr: "tr \<in> set (transitions_of ?h s)" by (cases "transitions_of ?h s") auto
    moreover have "tr \<in> set (transitions_of g s)"
      using tr skipping_subset by (fastforce simp: remove_transitions_simps)
    ultimately have "tr_label tr = sp" using assms by blast
    with tr a show ?thesis unfolding wf_hbt_def wf_alphabet_iff by (auto simp: tr_label_def)
  qed
  ultimately show ?thesis using half by blast
qed

lemma remove_transitions_leaves_half_witness:
  "\<not> wf_hbt (remove_transitions (''a'', ''b'') (add_transition 0
     \<lparr>tr_target = 0, tr_input = ''a'', tr_output = ''b'', tr_weight = 1\<rparr> True example_graph))"
  using remove_transitions_leaves_half [of "add_transition 0
     \<lparr>tr_target = 0, tr_input = ''a'', tr_output = ''b'', tr_weight = 1\<rparr> True example_graph" "(''a'', ''b'')" 0]
  by (simp add: add_transition_simps example_graph_simps tr_label_def)

text \<open>C33. Substituting a symbol pair by a non-empty finite set of pairs (without empty symbols) returns and keeps a graph
  well-formed. With their multiplicities, the transitions of each state are the old ones, where a transition
  with the pair has become one transition with every pair of the set, and a second one with the smallest pair of the
  set; targets, weights and final weights stay. An accepted label sequence may show any pair of
  the set in the place of the pair. (The empty set removes transitions instead, and is not covered.)\<close>

theorem substitute_pair_with_set_correct:
  assumes "wf_hbt g" and "valid_pair sp" and "finite sps" and "sps \<noteq> {}" and "\<forall>p \<in> sps. valid_pair p"
  shows "\<exists>g'. substitute_symbol_pair_with_set sp sps g = Inr g' \<and> wf_hbt g' \<and>
     (\<forall>s. mset (transitions_of g' s) =
        (\<Sum>tr \<in># mset (transitions_of g s).
           if tr_label tr = sp then add_mset (with_label tr (Min sps)) (image_mset (with_label tr) (mset_set sps)) else {#tr#})) \<and>
     final_weight_map g' = final_weight_map g \<and>
     (\<forall>ps. accepts g' ps \<longleftrightarrow>
        (\<exists>qs. accepts g qs \<and> list_all2 (\<lambda>q p. if q = sp then p \<in> sps else p = q) qs ps))"
proof -
  let ?l = "sorted_list_of_set sps"
  have l: "?l \<noteq> []" "set ?l = sps" "length ?l = card sps" using assms(3,4) by simp_all
  let ?b = "\<exists>trs \<in> set (state_vector g). \<exists>tr \<in> set trs. tr_label tr = sp"
  let ?g1 = "g\<lparr>state_vector := map (expand_pair sp ?l) (state_vector g)\<rparr>"
  let ?g2 = "if ?b then add_symbol_pairs_to_alphabet sps ?g1 else ?g1"
  let ?g' = "prune_alphabet_after_substitution {fst sp, snd sp} ?g2"
  have eq: "substitute_symbol_pair_with_set sp sps g = Inr ?g'"
    using assms(2-5) by (simp add: substitute_symbol_pair_with_set_def substitute_pair_set_def
        edit_pair_set list_ex_iff Let_def)
  have sv: "state_vector ?g' = map (expand_pair sp ?l) (state_vector g)" by simp
  have t: "transitions_of ?g' s = expand_pair sp ?l (transitions_of g s)" for s
    using sv by (simp add: transitions_of_def expand_pair_def)
  have f: "final_weight_map ?g' = final_weight_map g" by simp
  have set: "set (transitions_of ?g' s) = {t'. \<exists>t \<in> set (transitions_of g s).
      \<exists>q. (if tr_label t = sp then q \<in> sps else q = tr_label t) \<and> t' = with_label t q}" for s
    unfolding t set_expand_pair [OF l(1)] l(2) ..
  have used2: "symbols_used ?g' = symbols_used ?g2" by (rule symbols_used_sv) simp
  have alph: "alphabet ?g' = alphabet ?g2 - ({fst sp, snd sp} - symbols_used ?g')"
    unfolding used2 by simp
  have g: "wf_graph g" "wf_alphabet g" using assms(1) by (simp_all add: wf_hbt_def)
  have new: "wf_transition (length (state_vector g)) t' \<and> tr_input t' \<in> alphabet ?g2 \<and>
      tr_output t' \<in> alphabet ?g2" if "t' \<in> set (transitions_of ?g' s)" for t' s
  proof -
    from that obtain t q where tq: "t \<in> set (transitions_of g s)"
      "if tr_label t = sp then q \<in> sps else q = tr_label t" "t' = with_label t q"
      unfolding set by blast
    have old: "wf_transition (length (state_vector g)) t" "tr_input t \<in> alphabet g" "tr_output t \<in> alphabet g"
      using g tq(1) by (auto simp: wf_graph_iff wf_alphabet_iff)
    show ?thesis
    proof (cases "tr_label t = sp")
      case False
      with tq old show ?thesis using assms(3) by auto
    next
      case True
      with tq(1) in_state_vector [of g t] have ?b by blast
      moreover have "q \<in> sps" using True tq(2) by simp
      moreover have "valid_pair q" using calculation(2) assms(5) by blast
      ultimately show ?thesis using old(1) tq(3) assms(3)
        by (auto simp: wf_transition_def pair_symbols_def valid_pair_def is_valid_symbol_def split: if_splits)
    qed
  qed
  have "symbols_used ?g' \<subseteq> alphabet ?g2" using new unfolding symbols_used_eq by blast
  moreover have "finite (alphabet ?g2)" "[] \<notin> alphabet ?g2"
    using g(2) assms(3) valid_pair_symbols [OF assms(5)] by (auto simp: wf_alphabet_iff)
  ultimately have "wf_alphabet ?g'" by (rule wf_alphabet_pruned [OF alph])
  moreover have "wf_graph ?g'" using new by (intro wf_graph_same_states [OF g(1) _ f]) (simp, blast)
  moreover have "accepts ?g' ps \<longleftrightarrow>
        (\<exists>qs. accepts g qs \<and> list_all2 (\<lambda>q p. if q = sp then p \<in> sps else p = q) qs ps)" for ps
    by (rule accepts_related [OF set _ f]) simp
  moreover have "mset (transitions_of ?g' s) =
        (\<Sum>tr \<in># mset (transitions_of g s).
           if tr_label tr = sp then add_mset (with_label tr (Min sps)) (image_mset (with_label tr) (mset_set sps)) else {#tr#})" for s
  proof -
    have "hd ?l = Min sps" using sorted_list_of_set_nonempty [OF assms(3,4)] by simp
    moreover have "mset (map (with_label tr) ?l) = image_mset (with_label tr) (mset_set sps)" for tr :: "'a transition"
      by (simp flip: sorted_list_of_mset_set)
    ultimately show ?thesis unfolding t mset_expand_pair by (simp only:)
  qed
  ultimately show ?thesis using eq f by (simp add: wf_hbt_def)
qed

lemma substitute_pair_with_set_correct_witness:
  "\<exists>g'. substitute_symbol_pair_with_set (''a'', ''b'') {(''c'', ''d''), (''e'', ''f'')} example_graph = Inr g' \<and>
     image_mset tr_label (mset (transitions_of g' 0)) = {#(''c'', ''d''), (''c'', ''d''), (''e'', ''f'')#}"
proof -
  have "Min {(''c'', ''d''), (''e'', ''f'')} = (''c'', ''d'')" by (simp add: min_def)
  then show ?thesis
    using substitute_pair_with_set_correct [OF example_graph_wf, of "(''a'', ''b'')" "{(''c'', ''d''), (''e'', ''f'')}"]
    by (auto simp: valid_pair_def is_valid_symbol_def example_graph_simps tr_label_def)
qed

text \<open>C34. Inserting pairs freely keeps a graph well-formed, and the accepted label sequences become
  the shuffles of an accepted one with any sequence of the inserted pairs.\<close>

theorem insert_freely_pairs_correct:
  assumes "wf_hbt g" and "finite sps" and "\<forall>p \<in> sps. valid_pair p"
  shows "\<exists>g'. insert_freely_pairs sps w g = Inr g' \<and> wf_hbt g' \<and>
     (\<forall>ps. accepts g' ps \<longleftrightarrow> (\<exists>qs xs. accepts g qs \<and> set xs \<subseteq> sps \<and> ps \<in> shuffles qs xs))"
proof -
  let ?l = "sorted_list_of_set sps" and ?n = "length (state_vector g)"
  have l: "set ?l = sps" using assms(2) by simp
  from insert_freely_loop [of ?l g] assms(3) l obtain g1 where
    g1: "insert_freely_pairs sps w g =
        Inr (g1\<lparr>state_vector := insert_loops 0 ?l w (state_vector g1)\<rparr>)"
      "state_vector g1 = state_vector g" "final_weight_map g1 = final_weight_map g"
      "alphabet g1 = alphabet g \<union> pair_symbols sps"
    by (auto simp: insert_freely_pairs_def)
  obtain g' where g': "g' = g1\<lparr>state_vector := insert_loops 0 ?l w (state_vector g1)\<rparr>" by blast
  have f: "final_weight_map g' = final_weight_map g" and a: "alphabet g' = alphabet g \<union> pair_symbols sps"
    and n: "length (state_vector g') = ?n"
    using insert_loops_nth [of 0 ?l w "state_vector g1"] g1(2-4) by (simp_all add: g')
  have t: "transitions_of g' s = (if s < ?n then transitions_of g s @ loops_at ?l w s else [])" for s
    using insert_loops_nth [of 0 ?l w "state_vector g1" s] g1(2) by (simp add: transitions_of_def g')
  have wf: "wf_graph g" "wf_alphabet g" using assms(1) by (simp_all add: wf_hbt_def)
  have loop: "tr_target tr < ?n \<and> tr_label tr \<in> sps" if "tr \<in> set (loops_at ?l w s)" "s < ?n" for tr s
    using loops_at_mem [OF that(1)] that(2) unfolding l by simp
  have valid: "tr_input tr \<noteq> [] \<and> tr_output tr \<noteq> []" if "tr_label tr \<in> sps" for tr :: "'a transition"
  proof -
    from that assms(3) have "valid_pair (tr_label tr)" by blast
    then show ?thesis by (simp add: valid_pair_def is_valid_symbol_def tr_label_def split: if_splits)
  qed
  have in_used: "tr_input tr \<in> pair_symbols sps \<and> tr_output tr \<in> pair_symbols sps"
    if "tr_label tr \<in> sps" for tr :: "'a transition"
    using that by (force simp: pair_symbols_def tr_label_def)
  have tr: "wf_transition ?n tr \<and> tr_input tr \<in> alphabet g' \<and> tr_output tr \<in> alphabet g'"
    if "tr \<in> set (transitions_of g' s)" for tr s
  proof (cases "tr \<in> set (transitions_of g s)")
    case True
    with wf show ?thesis by (auto simp: wf_graph_iff wf_alphabet_iff a)
  next
    case False
    with that have "tr \<in> set (loops_at ?l w s)" "s < ?n" by (auto simp: t split: if_splits)
    from loop [OF this] valid in_used show ?thesis by (auto simp: wf_transition_def a)
  qed
  have "wf_graph g'" using tr by (intro wf_graph_same_states [OF wf(1) n f]) blast
  moreover have "wf_alphabet g'"
  proof -
    have "finite (alphabet g)" "[] \<notin> alphabet g" using wf(2) unfolding wf_alphabet_iff by blast+
    then have "finite (alphabet g')" "[] \<notin> alphabet g'"
      using assms(2) valid_pair_symbols [OF assms(3)] by (simp_all add: a)
    with tr show ?thesis unfolding wf_alphabet_iff by blast
  qed
  moreover have "accepts g' ps \<longleftrightarrow> (\<exists>qs xs. accepts g qs \<and> set xs \<subseteq> sps \<and> ps \<in> shuffles qs xs)" for ps
  proof
    assume "accepts g' ps"
    then obtain us q where us: "path g' 0 us q" "final_weight_map g q \<noteq> None" "ps = map tr_label us"
      unfolding accepts_labels f by blast
    from inserted_path_shuffle [OF t us(1)] us(2,3) l
    show "\<exists>qs xs. accepts g qs \<and> set xs \<subseteq> sps \<and> ps \<in> shuffles qs xs"
      unfolding accepts_labels by blast
  next
    assume "\<exists>qs xs. accepts g qs \<and> set xs \<subseteq> sps \<and> ps \<in> shuffles qs xs"
    then obtain ts q xs where ts: "path g 0 ts q" "final_weight_map g q \<noteq> None" "set xs \<subseteq> set ?l"
      "ps \<in> shuffles (map tr_label ts) xs" unfolding accepts_labels l by blast
    have "tr_target tr < ?n \<and> s < ?n" if "tr \<in> set (transitions_of g s)" for s tr
      using that wf_graph_target [OF wf(1) that] by (auto simp: transitions_of_def split: if_splits)
    moreover have "0 < ?n" using wf(1) by (simp add: wf_graph_iff)
    ultimately obtain us where "path g' 0 us q" "ps = map tr_label us"
      using shuffle_inserted_path [OF t _ ts(1,3,4)] by blast
    with ts(2) show "accepts g' ps" unfolding accepts_labels f by blast
  qed
  ultimately show ?thesis using g1(1) g' by (auto simp: wf_hbt_def)
qed

lemma insert_freely_pairs_correct_witness:
  "\<exists>g'. insert_freely_pairs {(''x'', ''x'')} 0 example_graph = Inr g' \<and> wf_hbt g'"
  using insert_freely_pairs_correct [OF example_graph_wf, of "{(''x'', ''x'')}" 0]
  by (auto simp: valid_pair_def is_valid_symbol_def)

end
