(* ===== verification/Harmonization.thy ===== *)
theory Harmonization
  imports PairSubstitution
begin

text \<open>
  \<open>HarmonizeUnknownAndIdentitySymbols.cc\<close>: the unknown and identity symbols of two graphs are
  expanded to the symbols the other graph knows. The meaning of a transition depends on the
  alphabet of its graph: unknown and identity stand for the symbols that are not in it. The
  main theorem says that harmonization gives both graphs the same alphabet and leaves the
  meaning of every state as it was. The string tests of the pmatch alphabet
  (\<open>optimized-lookup/pmatch.cc\<close>, lines 631 to 682) are modelled as far as they are used. The
  checks and printing under \<open>debug_harmonize\<close> are left out.
\<close>

section \<open>Symbols of pmatch\<close>

definition starts_with :: "string \<Rightarrow> string \<Rightarrow> bool" where
  "starts_with symbol start \<longleftrightarrow> str_find symbol start 0 = Some 0"

definition ends_with_at :: "string \<Rightarrow> bool" where
  "ends_with_at symbol \<longleftrightarrow> str_find_last_of symbol (CHR ''@'') = Some (length symbol - 1)"

definition is_insertion :: "string \<Rightarrow> bool" where
  "is_insertion symbol \<longleftrightarrow> starts_with symbol ''@I.'' \<and> ends_with_at symbol"

definition is_list :: "string \<Rightarrow> bool" where
  "is_list symbol \<longleftrightarrow>
     (starts_with symbol ''@L.'' \<or> starts_with symbol ''@X.'') \<and> ends_with_at symbol"

definition is_pmatch_special :: "string \<Rightarrow> bool" where
  "is_pmatch_special symbol =
     (if length symbol < 3 then False
      else if symbol = ''@PMATCH_INPUT_MARK@'' \<or> symbol = ''@PMATCH_BACKTRACK@'' then False
      else if is_insertion symbol \<or> symbol = ''@BOUNDARY@'' then True
      else starts_with symbol ''@PMATCH'' \<and> symbol ! (length symbol - 1) = CHR ''@'' \<or> is_list symbol)"

section \<open>Harmonization\<close>

definition harmonize_remove_flags :: "string set \<Rightarrow> string set" where
  "harmonize_remove_flags alpha =
     fold (\<lambda>s r. if \<not> is_diacritic s \<and> \<not> is_pmatch_special s then insert s r else r)
       (sorted_list_of_set alpha) {}"

text \<open>The body of both loops adds transitions behind the ones of the state. Failed assertions end
  the program.\<close>

definition harmonize_identity_body :: "string list \<Rightarrow> ('w, unit) transition_body" where
  "harmonize_identity_body missing_symbols tr u =
     (if tr_input tr = internal_identity
      then if tr_output tr \<noteq> internal_identity then Inl AssertionFailed
           else Inr (tr, map (\<lambda>k. tr\<lparr>tr_input := k, tr_output := k\<rparr>) missing_symbols, u)
      else Inr (tr, [], u))"

definition harmonize_unknown_body :: "string list \<Rightarrow> ('w, unit) transition_body" where
  "harmonize_unknown_body missing_symbols tr u =
     (if tr_input tr = internal_unknown \<and> \<not> tr_output tr \<noteq> internal_identity then Inl AssertionFailed
      else if tr_output tr = internal_unknown \<and> \<not> tr_input tr \<noteq> internal_identity
      then Inl AssertionFailed
      else Inr (tr,
        (if tr_input tr = internal_unknown then map (\<lambda>k. tr\<lparr>tr_input := k\<rparr>) missing_symbols else []) @
        (if tr_output tr = internal_unknown then map (\<lambda>k. tr\<lparr>tr_output := k\<rparr>) missing_symbols else []) @
        (if tr_input tr = internal_unknown \<and> tr_output tr = internal_unknown
         then concat (map (\<lambda>k. concat (map (\<lambda>l. if k = l then []
                else [tr\<lparr>tr_input := l, tr_output := k\<rparr>]) missing_symbols)) missing_symbols)
         else []), u))"

definition harmonize_symbols ::
  "(string list \<Rightarrow> ('w, unit) transition_body) \<Rightarrow> 'w hbt \<Rightarrow> string set \<Rightarrow> 'w hbt result" where
  "harmonize_symbols body t missing_symbols =
     (if missing_symbols = {} then Inr t
      else rmap (\<lambda>(sv, u). t\<lparr>state_vector := sv\<rparr>)
             (edit_states (body (sorted_list_of_set missing_symbols)) (state_vector t) ()))"

definition harmonize_identity_symbols :: "'w hbt \<Rightarrow> string set \<Rightarrow> 'w hbt result" where
  "harmonize_identity_symbols t missing_symbols = harmonize_symbols harmonize_identity_body t missing_symbols"

definition harmonize_unknown_symbols :: "'w hbt \<Rightarrow> string set \<Rightarrow> 'w hbt result" where
  "harmonize_unknown_symbols t missing_symbols = harmonize_symbols harmonize_unknown_body t missing_symbols"

text \<open>\<open>t1 - t2\<close> has unknown and identity erased, twice; \<open>t2 - t1\<close> keeps them.\<close>

definition harmonize_unknown_and_identity ::
  "'w hbt \<Rightarrow> 'w hbt \<Rightarrow> ('w hbt \<times> 'w hbt) result" where
  "harmonize_unknown_and_identity t1 t2 =
     (let t1_symbol_set = harmonize_remove_flags (alphabet t1);
          t2_symbol_set = harmonize_remove_flags (alphabet t2);
          t1_symbols_minus_t2_symbols =
            t1_symbol_set - t2_symbol_set - {internal_identity} - {internal_unknown};
          t2_symbols_minus_t1_symbols = t2_symbol_set - t1_symbol_set
      in rbind (harmonize_identity_symbols t1 t2_symbols_minus_t1_symbols) (\<lambda>a1.
         rbind (harmonize_identity_symbols t2 t1_symbols_minus_t2_symbols) (\<lambda>a2.
         rbind (harmonize_unknown_symbols a1 t2_symbols_minus_t1_symbols) (\<lambda>b1.
         rmap (\<lambda>b2. let c1 = add_symbols_to_alphabet (alphabet b2) b1;
                        c2 = add_symbols_to_alphabet (alphabet c1) b2 in (c1, c2))
           (harmonize_unknown_symbols a2 t1_symbols_minus_t2_symbols)))))"

text \<open>\<open>HfstBasicTransducer::harmonize\<close>.\<close>

definition harmonize :: "'w hbt \<Rightarrow> 'w hbt \<Rightarrow> ('w hbt \<times> 'w hbt) result" where
  "harmonize this another = harmonize_unknown_and_identity this another"

section \<open>The meaning of transitions\<close>

text \<open>An ordinary symbol is one that unknown and identity can stand for. With the alphabet \<open>A\<close>,
  they stand for the ordinary symbols that are not in \<open>A\<close>; unknown on both sides means two
  different ones.\<close>

definition ordinary :: "string \<Rightarrow> bool" where
  "ordinary x \<longleftrightarrow> \<not> is_special x \<and> \<not> is_diacritic x \<and> \<not> is_pmatch_special x"

definition unknown_to :: "string set \<Rightarrow> string \<Rightarrow> bool" where
  "unknown_to A x \<longleftrightarrow> ordinary x \<and> x \<notin> A"

definition label_meaning :: "string set \<Rightarrow> string_pair \<Rightarrow> string_pair set" where
  "label_meaning A l = (case l of (i, out) \<Rightarrow>
     if i = internal_identity \<and> out = internal_identity then {(x, x) | x. unknown_to A x}
     else if i = internal_unknown \<and> out = internal_unknown
       then {(x, y) | x y. unknown_to A x \<and> unknown_to A y \<and> x \<noteq> y}
     else if i = internal_unknown then {(x, out) | x. unknown_to A x}
     else if out = internal_unknown then {(i, y) | y. unknown_to A y}
     else {(i, out)})"

definition state_meaning :: "'w hbt \<Rightarrow> nat \<Rightarrow> (nat \<times> 'w \<times> string_pair) set" where
  "state_meaning g s = {(tr_target tr, tr_weight tr, p) | tr p.
     tr \<in> set (transitions_of g s) \<and> p \<in> label_meaning (alphabet g) (tr_label tr)}"

text \<open>Identity stands only with itself.\<close>

definition identity_paired :: "'w hbt \<Rightarrow> bool" where
  "identity_paired g \<longleftrightarrow> (\<forall>s. \<forall>tr \<in> set (transitions_of g s).
     tr_input tr = internal_identity \<longleftrightarrow> tr_output tr = internal_identity)"

section \<open>Lemmas\<close>

lemma harmonize_remove_flags_eq:
  "finite A \<Longrightarrow> harmonize_remove_flags A = {s \<in> A. \<not> is_diacritic s \<and> \<not> is_pmatch_special s}"
proof -
  have "fold (\<lambda>s r. if \<not> is_diacritic s \<and> \<not> is_pmatch_special s then insert s r else r) xs r =
      r \<union> {s \<in> set xs. \<not> is_diacritic s \<and> \<not> is_pmatch_special s}" for xs r
    by (induction xs arbitrary: r) auto
  then show "finite A \<Longrightarrow> ?thesis" by (simp add: harmonize_remove_flags_def)
qed

definition identity_extra :: "string set \<Rightarrow> 'w transition \<Rightarrow> 'w transition set" where
  "identity_extra M tr =
     (if tr_input tr = internal_identity then {with_label tr (k, k) | k. k \<in> M} else {})"

definition unknown_extra :: "string set \<Rightarrow> 'w transition \<Rightarrow> 'w transition set" where
  "unknown_extra M tr =
     {with_label tr (k, tr_output tr) | k. k \<in> M \<and> tr_input tr = internal_unknown} \<union>
     {with_label tr (tr_input tr, k) | k. k \<in> M \<and> tr_output tr = internal_unknown} \<union>
     {with_label tr (l, k) | k l. k \<in> M \<and> l \<in> M \<and> k \<noteq> l \<and>
        tr_input tr = internal_unknown \<and> tr_output tr = internal_unknown}"

lemma harmonize_symbols_result:
  assumes fin: "finite M"
    and ok: "\<And>tr s. tr \<in> set (transitions_of t s) \<Longrightarrow>
      \<exists>new. body (sorted_list_of_set M) tr () = Inr (tr, new, ()) \<and> set new = extra M tr"
    and none: "\<And>tr. extra {} tr = {}"
  shows "\<exists>t'. harmonize_symbols body t M = Inr t' \<and>
     length (state_vector t') = length (state_vector t) \<and>
     final_weight_map t' = final_weight_map t \<and> alphabet t' = alphabet t \<and> hbt_name t' = hbt_name t \<and>
     (\<forall>s. set (transitions_of t' s) =
        set (transitions_of t s) \<union> (\<Union>tr \<in> set (transitions_of t s). extra M tr))"
proof (cases "M = {}")
  case True
  then show ?thesis by (simp add: harmonize_symbols_def none)
next
  case False
  have "\<exists>nf. \<forall>s. \<forall>tr \<in> set (transitions_of t s).
      body (sorted_list_of_set M) tr () = Inr (tr, nf tr, ()) \<and> set (nf tr) = extra M tr"
    using ok by (intro exI [of _ "\<lambda>tr. fst (snd (projr (body (sorted_list_of_set M) tr ())))"]) fastforce
  then obtain nf where nf: "\<And>tr s. tr \<in> set (transitions_of t s) \<Longrightarrow>
      body (sorted_list_of_set M) tr () = Inr (tr, nf tr, ()) \<and> set (nf tr) = extra M tr" by blast
  have "edit_states (body (sorted_list_of_set M)) (state_vector t) () =
      Inr (map (\<lambda>trs. map (\<lambda>tr. tr) trs @ concat (map nf trs)) (state_vector t),
        fold (fold (\<lambda>tr u. u)) (state_vector t) ())"
  proof (rule edit_states_simple)
    fix tr :: "'a transition" and a :: unit
    assume "\<exists>trs \<in> set (state_vector t). tr \<in> set trs"
    then obtain s where "tr \<in> set (transitions_of t s)" unfolding in_state_vector by blast
    from nf [OF this] show "body (sorted_list_of_set M) tr a = Inr (tr, nf tr, a)" by simp
  qed
  then have eq: "harmonize_symbols body t M =
      Inr (t\<lparr>state_vector := map (\<lambda>trs. trs @ concat (map nf trs)) (state_vector t)\<rparr>)"
    using False by (simp add: harmonize_symbols_def)
  let ?t = "t\<lparr>state_vector := map (\<lambda>trs. trs @ concat (map nf trs)) (state_vector t)\<rparr>"
  have "set (concat (map nf (transitions_of t s))) = (\<Union>tr \<in> set (transitions_of t s). extra M tr)" for s
  proof -
    have "set (concat (map nf (transitions_of t s))) = (\<Union>tr \<in> set (transitions_of t s). set (nf tr))"
      by simp
    also have "\<dots> = (\<Union>tr \<in> set (transitions_of t s). extra M tr)"
      using nf by (intro SUP_cong refl) blast
    finally show ?thesis .
  qed
  moreover have "transitions_of ?t s = transitions_of t s @ concat (map nf (transitions_of t s))" for s
    by (simp add: transitions_of_def)
  ultimately have "set (transitions_of ?t s) =
      set (transitions_of t s) \<union> (\<Union>tr \<in> set (transitions_of t s). extra M tr)" for s
    by (simp only: set_append)
  with eq show ?thesis by simp
qed

lemma identity_body_extra:
  assumes "finite M" and "tr_input tr = internal_identity \<longrightarrow> tr_output tr = internal_identity"
  shows "\<exists>new. harmonize_identity_body (sorted_list_of_set M) tr () = Inr (tr, new, ()) \<and>
     set new = identity_extra M tr"
  using assms by (auto simp: harmonize_identity_body_def identity_extra_def with_label_def)

lemma unknown_body_extra:
  assumes "finite M" and "tr_input tr = internal_identity \<longleftrightarrow> tr_output tr = internal_identity"
  shows "\<exists>new. harmonize_unknown_body (sorted_list_of_set M) tr () = Inr (tr, new, ()) \<and>
     set new = unknown_extra M tr"
proof -
  have "tr\<lparr>tr_input := k\<rparr> = with_label tr (k, tr_output tr)"
    "tr\<lparr>tr_output := k\<rparr> = with_label tr (tr_input tr, k)"
    "tr\<lparr>tr_input := l, tr_output := k\<rparr> = with_label tr (l, k)" for k l
    by (simp_all add: with_label_def)
  note upd = this
  let ?l = "sorted_list_of_set M"
  have l: "set ?l = M" using assms(1) by simp
  have 1: "set (if tr_input tr = internal_unknown then map (\<lambda>k. tr\<lparr>tr_input := k\<rparr>) ?l else []) =
      {with_label tr (k, tr_output tr) | k. k \<in> M \<and> tr_input tr = internal_unknown}"
    using l unfolding upd by auto
  have 2: "set (if tr_output tr = internal_unknown then map (\<lambda>k. tr\<lparr>tr_output := k\<rparr>) ?l else []) =
      {with_label tr (tr_input tr, k) | k. k \<in> M \<and> tr_output tr = internal_unknown}"
    using l unfolding upd by auto
  have 3: "set (if tr_input tr = internal_unknown \<and> tr_output tr = internal_unknown
         then concat (map (\<lambda>k. concat (map (\<lambda>l. if k = l then []
                else [tr\<lparr>tr_input := l, tr_output := k\<rparr>]) ?l)) ?l) else []) =
      {with_label tr (l, k) | k l. k \<in> M \<and> l \<in> M \<and> k \<noteq> l \<and>
        tr_input tr = internal_unknown \<and> tr_output tr = internal_unknown}"
    using l unfolding upd(3) by auto
  have "\<not> (tr_input tr = internal_unknown \<and> tr_output tr = internal_identity)"
    "\<not> (tr_output tr = internal_unknown \<and> tr_input tr = internal_identity)" using assms(2) by auto
  then show ?thesis
    unfolding harmonize_unknown_body_def unknown_extra_def 1 [symmetric] 2 [symmetric] 3 [symmetric]
    by (simp add: Un_assoc)
qed



text \<open>Adding the missing symbols to the alphabet and the extra transitions to the state keeps
  the meaning of the transition.\<close>

lemma label_meaning_ordinary:
  "a \<noteq> internal_unknown \<Longrightarrow> b \<noteq> internal_unknown \<Longrightarrow>
     \<not> (a = internal_identity \<and> b = internal_identity) \<Longrightarrow> label_meaning A (a, b) = {(a, b)}"
  by (auto simp: label_meaning_def)

lemma ordinary_not_special:
  "ordinary x \<Longrightarrow> x \<noteq> internal_unknown" "ordinary x \<Longrightarrow> x \<noteq> internal_identity"
  "ordinary x \<Longrightarrow> x \<noteq> internal_epsilon"
  by (auto simp: ordinary_def is_special_def is_unknown_def is_identity_def is_epsilon_def)

lemma unknown_to_split:
  assumes "M = {x. ordinary x \<and> x \<in> B - A}" and "C = A \<union> B"
  shows "unknown_to A x \<longleftrightarrow> unknown_to C x \<or> x \<in> M" "x \<in> M \<Longrightarrow> ordinary x"
    "x \<in> M \<Longrightarrow> \<not> unknown_to C x"
  using assms by (auto simp: unknown_to_def)

lemma extra_labels:
  "tr_label ` (identity_extra M tr \<union> unknown_extra M tr) =
     {(k, k) | k. k \<in> M \<and> tr_input tr = internal_identity} \<union>
     {(k, tr_output tr) | k. k \<in> M \<and> tr_input tr = internal_unknown} \<union>
     {(tr_input tr, k) | k. k \<in> M \<and> tr_output tr = internal_unknown} \<union>
     {(l, k) | k l. k \<in> M \<and> l \<in> M \<and> k \<noteq> l \<and>
        tr_input tr = internal_unknown \<and> tr_output tr = internal_unknown}"
proof -
  have img: "tr_label ` {with_label tr (f k) | k. P k} = {f k | k. P k}"
    for f :: "string \<Rightarrow> string_pair" and P
    by (force simp: image_def)
  have img2: "tr_label ` {with_label tr (l, k) | k l. P k l} = {(l, k) | k l. P k l}" for P
    by (force simp: image_def)
  have "tr_label ` identity_extra M tr = {(k, k) | k. k \<in> M \<and> tr_input tr = internal_identity}"
    unfolding identity_extra_def by (auto simp: img [of "\<lambda>k. (k, k)"])
  then show ?thesis
    unfolding unknown_extra_def image_Un img [of "\<lambda>k. (k, tr_output tr)"]
      img [of "\<lambda>k. (tr_input tr, k)"] img2 by (simp only: Un_assoc)
qed

lemma transition_meaning_expanded:
  assumes "M = {x. ordinary x \<and> x \<in> B - A}" and "C = A \<union> B"
    and "tr_input tr = internal_identity \<longleftrightarrow> tr_output tr = internal_identity"
  shows "label_meaning A (tr_label tr) =
     label_meaning C (tr_label tr) \<union>
     (\<Union>x \<in> identity_extra M tr \<union> unknown_extra M tr. label_meaning C (tr_label x))"
proof -
  note split = unknown_to_split [OF assms(1,2)]
  note ne = ordinary_not_special [OF split(2)]
  let ?i = "tr_input tr" and ?o = "tr_output tr" and ?E = "identity_extra M tr \<union> unknown_extra M tr"
  have E: "(\<Union>x \<in> ?E. label_meaning C (tr_label x)) = (\<Union>l \<in> tr_label ` ?E. label_meaning C l)"
    by blast
  consider "?i = internal_identity" "?o = internal_identity"
    | "?i = internal_unknown" "?o = internal_unknown"
    | "?i = internal_unknown" "?o \<noteq> internal_unknown" "?o \<noteq> internal_identity"
    | "?i \<noteq> internal_unknown" "?i \<noteq> internal_identity" "?o = internal_unknown"
    | "?i \<noteq> internal_unknown" "?o \<noteq> internal_unknown" "?i \<noteq> internal_identity"
    using assms(3) by fastforce
  then show ?thesis
  proof cases
    case 1
    have "(\<Union>x \<in> identity_extra M tr \<union> unknown_extra M tr. label_meaning C (tr_label x)) = {(k, k) | k. k \<in> M}"
      using 1 ne unfolding E extra_labels by (auto simp: label_meaning_def)
    with 1 show ?thesis by (auto simp: tr_label_def label_meaning_def split(1))
  next
    case 2
    have "(\<Union>x \<in> identity_extra M tr \<union> unknown_extra M tr. label_meaning C (tr_label x)) =
        {(k, y) | k y. k \<in> M \<and> unknown_to C y} \<union> {(x, k) | k x. k \<in> M \<and> unknown_to C x} \<union>
        {(l, k) | k l. k \<in> M \<and> l \<in> M \<and> k \<noteq> l}"
    proof -
      have lab: "tr_label ` ?E = (\<lambda>k. (k, internal_unknown)) ` M \<union> (\<lambda>k. (internal_unknown, k)) ` M \<union>
          {(l, k) | k l. k \<in> M \<and> l \<in> M \<and> k \<noteq> l}" unfolding extra_labels using 2 by auto
      have u1: "(\<Union>l \<in> (\<lambda>k. (k, internal_unknown)) ` M. label_meaning C l) =
          {(k, y) | k y. k \<in> M \<and> unknown_to C y}" using ne by (auto simp: label_meaning_def)
      have u2: "(\<Union>l \<in> (\<lambda>k. (internal_unknown, k)) ` M. label_meaning C l) =
          {(x, k) | k x. k \<in> M \<and> unknown_to C x}" using ne by (auto simp: label_meaning_def)
      have u3: "(\<Union>l \<in> {(l, k) | k l. k \<in> M \<and> l \<in> M \<and> k \<noteq> l}. label_meaning C l) =
          {(l, k) | k l. k \<in> M \<and> l \<in> M \<and> k \<noteq> l}"
      proof -
        have "label_meaning C l = {l}" if "l \<in> {(l, k) | k l. k \<in> M \<and> l \<in> M \<and> k \<noteq> l}" for l
          using that label_meaning_ordinary ne by blast
        then show ?thesis by blast
      qed
      show ?thesis unfolding E lab unfolding UN_Un u1 u2 u3 ..
    qed
    note m3 = this
    have m: "label_meaning A (tr_label tr) = {(x, y) | x y. unknown_to A x \<and> unknown_to A y \<and> x \<noteq> y}"
      "label_meaning C (tr_label tr) = {(x, y) | x y. unknown_to C x \<and> unknown_to C y \<and> x \<noteq> y}"
      using 2 by (simp_all add: tr_label_def label_meaning_def)
    show ?thesis unfolding m m3 split(1) using split(3) by auto
  next
    case 3
    have "(\<Union>x \<in> identity_extra M tr \<union> unknown_extra M tr. label_meaning C (tr_label x)) = {(k, ?o) | k. k \<in> M}"
      using 3 ne unfolding E extra_labels by (auto simp: label_meaning_def)
    with 3 show ?thesis by (auto simp: tr_label_def label_meaning_def split(1))
  next
    case 4
    have "(\<Union>x \<in> identity_extra M tr \<union> unknown_extra M tr. label_meaning C (tr_label x)) = {(?i, k) | k. k \<in> M}"
      using 4 ne unfolding E extra_labels by (auto simp: label_meaning_def)
    with 4 show ?thesis by (auto simp: tr_label_def label_meaning_def split(1))
  next
    case 5
    then have "identity_extra M tr \<union> unknown_extra M tr = {}"
      by (auto simp: identity_extra_def unknown_extra_def)
    with 5 show ?thesis by (simp add: tr_label_def label_meaning_def)
  qed
qed

lemma extra_target:
  "x \<in> identity_extra M tr \<union> unknown_extra M tr \<Longrightarrow>
     tr_target x = tr_target tr \<and> tr_weight x = tr_weight tr \<and>
     {tr_input x, tr_output x} \<subseteq> {tr_input tr, tr_output tr} \<union> M"
  by (auto simp: identity_extra_def unknown_extra_def split: if_splits)

lemma harmonize_one:
  assumes "wf_hbt t" and "identity_paired t"
    and M: "M = {x. ordinary x \<and> x \<in> B - alphabet t}" and "finite B" and "[] \<notin> B"
  shows "\<exists>a b. harmonize_identity_symbols t M = Inr a \<and> harmonize_unknown_symbols a M = Inr b \<and>
     length (state_vector b) = length (state_vector t) \<and>
     final_weight_map b = final_weight_map t \<and> alphabet b = alphabet t \<and>
     (\<forall>s. set (transitions_of b s) = set (transitions_of t s) \<union>
        (\<Union>tr \<in> set (transitions_of t s). identity_extra M tr \<union> unknown_extra M tr))"
proof -
  have fin: "finite M" using assms(4) by (rule finite_subset [rotated]) (auto simp: M)
  have none: "identity_extra {} tr = {}" "unknown_extra {} tr = {}" for tr :: "'a transition"
    by (auto simp: identity_extra_def unknown_extra_def)
  have ord: "x \<noteq> internal_identity \<and> x \<noteq> internal_unknown" if "x \<in> M" for x
    using that ordinary_not_special by (auto simp: M)
  have paired: "tr_input tr = internal_identity \<longleftrightarrow> tr_output tr = internal_identity"
    if "tr \<in> set (transitions_of t s)" for tr s using assms(2) that unfolding identity_paired_def by blast
  have "\<exists>new. harmonize_identity_body (sorted_list_of_set M) tr () = Inr (tr, new, ()) \<and>
      set new = identity_extra M tr" if "tr \<in> set (transitions_of t s)" for tr s
    using paired [OF that] by (intro identity_body_extra fin) blast
  note ok = this
  from harmonize_symbols_result [where extra = identity_extra and body = harmonize_identity_body and t = t,
      OF fin _ none(1)] ok obtain a where
    a: "harmonize_identity_symbols t M = Inr a" "length (state_vector a) = length (state_vector t)"
      "final_weight_map a = final_weight_map t" "alphabet a = alphabet t"
      "\<And>s. set (transitions_of a s) = set (transitions_of t s) \<union>
        (\<Union>tr \<in> set (transitions_of t s). identity_extra M tr)"
    unfolding harmonize_identity_symbols_def by blast
  have new: "(tr_input x = internal_identity \<longleftrightarrow> tr_output x = internal_identity) \<and> unknown_extra M x = {}"
    if "x \<in> identity_extra M tr" for x tr
    using that ord by (auto simp: identity_extra_def unknown_extra_def split: if_splits)
  have "\<exists>new. harmonize_unknown_body (sorted_list_of_set M) tr () = Inr (tr, new, ()) \<and>
      set new = unknown_extra M tr" if "tr \<in> set (transitions_of a s)" for tr s
    using that paired new unfolding a(5) by (intro unknown_body_extra fin) blast
  note ok = this
  from harmonize_symbols_result [where extra = unknown_extra and body = harmonize_unknown_body and t = a,
      OF fin _ none(2)] ok obtain b where
    b: "harmonize_unknown_symbols a M = Inr b" "length (state_vector b) = length (state_vector a)"
      "final_weight_map b = final_weight_map a" "alphabet b = alphabet a"
      "\<And>s. set (transitions_of b s) = set (transitions_of a s) \<union>
        (\<Union>tr \<in> set (transitions_of a s). unknown_extra M tr)"
    unfolding harmonize_unknown_symbols_def by blast
  have "(\<Union>tr \<in> set (transitions_of a s). unknown_extra M tr) =
      (\<Union>tr \<in> set (transitions_of t s). unknown_extra M tr)" for s
    unfolding a(5) using new by blast
  then have "set (transitions_of b s) = set (transitions_of t s) \<union>
        (\<Union>tr \<in> set (transitions_of t s). identity_extra M tr \<union> unknown_extra M tr)" for s
    unfolding b(5) a(5) by blast
  with a b show ?thesis by simp
qed

lemma harmonized_graph:
  assumes "wf_hbt t" and "identity_paired t"
    and M: "M = {x. ordinary x \<and> x \<in> B - alphabet t}" and "finite B" and "[] \<notin> B"
    and t: "\<And>s. set (transitions_of u s) = set (transitions_of t s) \<union>
        (\<Union>tr \<in> set (transitions_of t s). identity_extra M tr \<union> unknown_extra M tr)"
    and "length (state_vector u) = length (state_vector t)" and "final_weight_map u = final_weight_map t"
    and a: "alphabet u = alphabet t \<union> B"
  shows "wf_hbt u \<and> state_meaning u s = state_meaning t s"
proof
  have g: "wf_graph t" "wf_alphabet t" using assms(1) by (simp_all add: wf_hbt_def)
  have new: "wf_transition (length (state_vector t)) x \<and> tr_input x \<in> alphabet u \<and> tr_output x \<in> alphabet u"
    if "x \<in> set (transitions_of u s)" for x s
  proof -
    from that obtain tr where tr: "tr \<in> set (transitions_of t s)"
      "x = tr \<or> x \<in> identity_extra M tr \<union> unknown_extra M tr" unfolding t by blast
    have "wf_transition (length (state_vector t)) tr" "tr_input tr \<in> alphabet t" "tr_output tr \<in> alphabet t"
      using g tr(1) unfolding wf_graph_iff wf_alphabet_iff by blast+
    moreover have "[] \<notin> M" "M \<subseteq> B" using assms(5) by (auto simp: M)
    ultimately show ?thesis using tr(2) extra_target [of x M tr] unfolding a wf_transition_def by auto
  qed
  show "wf_hbt u"
    unfolding wf_hbt_def
  proof
    show "wf_graph u" using new by (intro wf_graph_same_states [OF g(1) assms(7,8)]) blast
    have "finite (alphabet u)" "[] \<notin> alphabet u"
      using g(2) assms(4,5) unfolding a wf_alphabet_iff by auto
    then show "wf_alphabet u" using new unfolding wf_alphabet_iff by blast
  qed
  have "identity_paired t" by fact
  then have "label_meaning (alphabet t) (tr_label tr) = label_meaning (alphabet u) (tr_label tr) \<union>
      (\<Union>x \<in> identity_extra M tr \<union> unknown_extra M tr. label_meaning (alphabet u) (tr_label x))"
    if "tr \<in> set (transitions_of t s)" for tr
    using that unfolding identity_paired_def by (intro transition_meaning_expanded [OF M a]) blast
  note meaning = this
  show "state_meaning u s = state_meaning t s"
  proof (intro equalityI subsetI)
    fix m assume "m \<in> state_meaning u s"
    then obtain x p where m: "m = (tr_target x, tr_weight x, p)" "x \<in> set (transitions_of u s)"
      "p \<in> label_meaning (alphabet u) (tr_label x)" by (auto simp: state_meaning_def)
    then obtain tr where tr: "tr \<in> set (transitions_of t s)"
      "x = tr \<or> x \<in> identity_extra M tr \<union> unknown_extra M tr" unfolding t by blast
    then have "p \<in> label_meaning (alphabet t) (tr_label tr)" using m(3) meaning [OF tr(1)] by blast
    moreover have "m = (tr_target tr, tr_weight tr, p)" using m(1) tr(2) extra_target [of x M tr] by auto
    ultimately show "m \<in> state_meaning t s" using tr(1) unfolding state_meaning_def by blast
  next
    fix m assume "m \<in> state_meaning t s"
    then obtain tr p where m: "m = (tr_target tr, tr_weight tr, p)" "tr \<in> set (transitions_of t s)"
      "p \<in> label_meaning (alphabet t) (tr_label tr)" by (auto simp: state_meaning_def)
    then obtain x where x: "x = tr \<or> x \<in> identity_extra M tr \<union> unknown_extra M tr"
      "p \<in> label_meaning (alphabet u) (tr_label x)" using meaning [OF m(2)] by blast
    then have "m = (tr_target x, tr_weight x, p)" using m(1) extra_target [of x M tr] by auto
    moreover have "x \<in> set (transitions_of u s)" using x(1) m(2) unfolding t by blast
    ultimately show "m \<in> state_meaning u s" using x(2) unfolding state_meaning_def by blast
  qed
qed

section \<open>Properties\<close>

text \<open>C27. Harmonizing two well-formed graphs gives them the same alphabet, the union of theirs, and
  leaves the meaning of every state of both as it was; the unknown and identity symbols are
  expanded just so that the larger alphabet does not take anything away.\<close>

theorem harmonize_preserves_meaning:
  assumes "wf_hbt t1" and "wf_hbt t2" and "identity_paired t1" and "identity_paired t2"
    and "initialize_alphabet {} \<subseteq> alphabet t1" and "initialize_alphabet {} \<subseteq> alphabet t2"
  shows "\<exists>u1 u2. harmonize t1 t2 = Inr (u1, u2) \<and> wf_hbt u1 \<and> wf_hbt u2 \<and>
     alphabet u1 = alphabet t1 \<union> alphabet t2 \<and> alphabet u2 = alphabet t1 \<union> alphabet t2 \<and>
     (\<forall>s. state_meaning u1 s = state_meaning t1 s \<and> state_meaning u2 s = state_meaning t2 s) \<and>
     final_weight_map u1 = final_weight_map t1 \<and> final_weight_map u2 = final_weight_map t2"
proof -
  let ?M1 = "{x. ordinary x \<and> x \<in> alphabet t2 - alphabet t1}"
  let ?M2 = "{x. ordinary x \<and> x \<in> alphabet t1 - alphabet t2}"
  have A: "finite (alphabet t1)" "[] \<notin> alphabet t1" "finite (alphabet t2)" "[] \<notin> alphabet t2"
    using assms(1,2) unfolding wf_hbt_def wf_alphabet_iff by blast+
  have sp: "{internal_epsilon, internal_unknown, internal_identity} \<subseteq> alphabet t1 \<inter> alphabet t2"
    using assms(5,6) by (simp add: initialize_alphabet_def)
  have diffs: "harmonize_remove_flags (alphabet t2) - harmonize_remove_flags (alphabet t1) = ?M1"
    "harmonize_remove_flags (alphabet t1) - harmonize_remove_flags (alphabet t2) -
       {internal_identity} - {internal_unknown} = ?M2"
    using sp A(1,3) by (auto simp: harmonize_remove_flags_eq ordinary_def is_special_def
        is_unknown_def is_identity_def is_epsilon_def)
  from harmonize_one [OF assms(1,3) refl A(3,4)] obtain a1 b1 where
    1: "harmonize_identity_symbols t1 ?M1 = Inr a1" "harmonize_unknown_symbols a1 ?M1 = Inr b1"
      "length (state_vector b1) = length (state_vector t1)" "final_weight_map b1 = final_weight_map t1"
      "alphabet b1 = alphabet t1"
      "\<And>s. set (transitions_of b1 s) = set (transitions_of t1 s) \<union>
        (\<Union>tr \<in> set (transitions_of t1 s). identity_extra ?M1 tr \<union> unknown_extra ?M1 tr)" by blast
  from harmonize_one [OF assms(2,4) refl A(1,2)] obtain a2 b2 where
    2: "harmonize_identity_symbols t2 ?M2 = Inr a2" "harmonize_unknown_symbols a2 ?M2 = Inr b2"
      "length (state_vector b2) = length (state_vector t2)" "final_weight_map b2 = final_weight_map t2"
      "alphabet b2 = alphabet t2"
      "\<And>s. set (transitions_of b2 s) = set (transitions_of t2 s) \<union>
        (\<Union>tr \<in> set (transitions_of t2 s). identity_extra ?M2 tr \<union> unknown_extra ?M2 tr)" by blast
  let ?c1 = "add_symbols_to_alphabet (alphabet b2) b1"
  let ?c2 = "add_symbols_to_alphabet (alphabet ?c1) b2"
  have eq: "harmonize t1 t2 = Inr (?c1, ?c2)"
    unfolding harmonize_def harmonize_unknown_and_identity_def Let_def diffs using 1(1,2) 2(1,2) by simp
  have c1: "alphabet ?c1 = alphabet t1 \<union> alphabet t2" using 1(5) 2(5) A by auto
  have c2: "alphabet ?c2 = alphabet t2 \<union> alphabet t1" unfolding c1 using 2(5) A c1 by auto
  have "wf_hbt ?c1 \<and> state_meaning ?c1 s = state_meaning t1 s" for s
    using 1 c1 by (intro harmonized_graph [OF assms(1,3) refl A(3,4)]) simp_all
  moreover have "wf_hbt ?c2 \<and> state_meaning ?c2 s = state_meaning t2 s" for s
    using 2 c2 by (intro harmonized_graph [OF assms(2,4) refl A(1,2)]) simp_all
  ultimately show ?thesis using eq c1 c2 1(4) 2(4) by auto
qed

lemma harmonize_preserves_meaning_witness:
  "\<exists>u1 u2. harmonize example_graph (new_hbt :: int hbt) = Inr (u1, u2) \<and>
     alphabet u2 = alphabet example_graph"
proof -
  have "identity_paired example_graph" "identity_paired (new_hbt :: int hbt)"
    by (auto simp: identity_paired_def example_graph_simps new_hbt_simps internal_identity_def)
  then show ?thesis
    using harmonize_preserves_meaning [OF example_graph_wf wf_hbt_new]
    by (auto simp: example_graph_simps new_hbt_simps initialize_alphabet_def)
qed

end
