(* ===== verification/GraphSubstitution.thy ===== *)
theory GraphSubstitution
  imports Harmonization
begin

text \<open>
  Substitution of symbol pairs by graphs (\<open>HfstBasicTransducer.cc\<close>, lines 2356 to 2482 and
  2587 to 2713) and free insertion of a graph (2905 to 2920). A transition is replaced by a
  copy of the substituting graph between two epsilon transitions. The main theorem says which
  weighted label sequences the result accepts. The pointer of \<open>substitution_data\<close> to a graph
  in the map of the caller is the key of that graph; it is followed when the copy is made.
\<close>

section \<open>Copies of a graph\<close>

record 'w substitution_data =
  origin_state :: nat
  target_state :: nat
  sub_weight :: 'w
  substituting_graph :: "'w hbt"

definition epsilon_transition :: "nat \<Rightarrow> 'w \<Rightarrow> 'w transition" where
  "epsilon_transition s w =
     \<lparr>tr_target = s, tr_input = internal_epsilon, tr_output = internal_epsilon, tr_weight = w\<rparr>"

definition shifted :: "nat \<Rightarrow> 'w transition \<Rightarrow> 'w transition" where
  "shifted offset tr = tr\<lparr>tr_target := tr_target tr + offset\<rparr>"

fun copy_states :: "nat \<Rightarrow> nat \<Rightarrow> 'w transition list list \<Rightarrow> 'w hbt \<Rightarrow> 'w hbt" where
  "copy_states offset source_state [] g = g"
| "copy_states offset source_state (trs # sv) g =
     copy_states offset (source_state + 1) sv
       (fold (\<lambda>tr g. add_transition (source_state + offset) (shifted offset tr) True g) trs g)"

definition add_substitution :: "'w substitution_data \<Rightarrow> 'w hbt \<Rightarrow> 'w hbt" where
  "add_substitution sub g =
     (let (s, g1) = add_new_state g;
          g2 = add_transition (origin_state sub) (epsilon_transition s (sub_weight sub)) True g1;
          offset = s;
          graph = substituting_graph sub;
          g3 = copy_states offset 0 (state_vector graph) g2
      in fold (\<lambda>(q, w) g. add_transition (q + offset) (epsilon_transition (target_state sub) w) True g)
           (map_entries (final_weight_map graph)) g3)"

section \<open>A pair by a graph\<close>

text \<open>Erasing from a vector through saved iterators. An iterator is the position that it was taken at, and
  \<open>erase\<close> invalidates the iterators at and behind the erased element: only those before the bound
  \<open>valid\<close> may still be used. The code saves the iterators of the transitions with the pair in a vector and erases
  in that order.\<close>

fun erase_all :: "nat \<Rightarrow> nat list \<Rightarrow> 'a list \<Rightarrow> 'a list result" where
  "erase_all valid [] xs = Inr xs"
| "erase_all valid (it # its) xs =
     (if it < valid then erase_all it its (take it xs @ drop (Suc it) xs) else Inl UndefinedBehaviour)"

definition positions :: "('a \<Rightarrow> bool) \<Rightarrow> 'a list \<Rightarrow> nat list" where
  "positions P xs = filter (\<lambda>i. P (xs ! i)) [0..<length xs]"

text \<open>The substituting graph is another object than the graph that is changed (a substitution of a graph into itself, which
  would change the vectors it runs over, is not modelled).\<close>

fun take_matching ::
  "string_pair \<Rightarrow> 'w hbt \<Rightarrow> nat \<Rightarrow> 'w transition list list \<Rightarrow>
     ('w transition list list \<times> 'w substitution_data list) result" where
  "take_matching sp graph source_state [] = Inr ([], [])"
| "take_matching sp graph source_state (trs # sv) =
     (let old_transitions = positions (\<lambda>tr. tr_input tr = fst sp \<and> tr_output tr = snd sp) trs;
          subs = map (\<lambda>i. \<lparr>origin_state = source_state, target_state = tr_target (trs ! i),
                           sub_weight = tr_weight (trs ! i), substituting_graph = graph\<rparr>) old_transitions
      in rbind (erase_all (length trs) old_transitions trs) (\<lambda>trs'.
         rmap (\<lambda>(sv', subs'). (trs' # sv', subs @ subs')) (take_matching sp graph (source_state + 1) sv)))"

definition substitute_symbol_pair_with_transducer ::
  "string_pair \<Rightarrow> 'w hbt \<Rightarrow> 'w hbt \<Rightarrow> 'w hbt result" where
  "substitute_symbol_pair_with_transducer sp graph g =
     (if \<not> valid_pair sp then Inl EmptyStringException
      else if fst sp \<notin> alphabet g \<and> snd sp \<notin> alphabet g then Inr g
      else rmap (\<lambda>(sv, substitutions). fold add_substitution substitutions (g\<lparr>state_vector := sv\<rparr>))
             (take_matching sp graph 0 (state_vector g)))"

definition insert_freely_graph :: "'w::zero hbt \<Rightarrow> 'w hbt \<Rightarrow> 'w hbt result" where
  "insert_freely_graph graph g =
     (let marker_this = get_marker (alphabet g); marker_graph = get_marker (alphabet g);
          marker = (if marker_graph > marker_this then marker_graph else marker_this)
      in rbind (insert_freely_pair (marker, marker) 0 g) (\<lambda>g1.
         rmap (remove_symbol_from_alphabet marker)
           (substitute_symbol_pair_with_transducer (marker, marker) graph g1)))"

section \<open>Symbols by a map of graphs\<close>

text \<open>Here the iterators are kept on a stack, and the last one is erased first.\<close>

fun take_mapped ::
  "(string \<rightharpoonup> 'w hbt) \<Rightarrow> nat \<Rightarrow> 'w transition list list \<Rightarrow>
     ('w transition list list \<times> (nat \<times> 'w transition) list) result" where
  "take_mapped substitution_map source_state [] = Inr ([], [])"
| "take_mapped substitution_map source_state (trs # sv) =
     (if list_ex (\<lambda>tr. (substitution_map (tr_input tr) \<noteq> None \<or> substitution_map (tr_output tr) \<noteq> None) \<and>
           tr_input tr \<noteq> tr_output tr) trs
      then Inl (HfstException ''symbol to be substituted must not occur only on one side of transition'')
      else
        let old_transitions = positions (\<lambda>tr. substitution_map (tr_input tr) \<noteq> None) trs
        in rbind (erase_all (length trs) (rev old_transitions) trs) (\<lambda>trs'.
           rmap (\<lambda>(sv', subs'). (trs' # sv', map (\<lambda>i. (source_state, trs ! i)) old_transitions @ subs'))
             (take_mapped substitution_map (source_state + 1) sv)))"

definition harmonize_all ::
  "string list \<Rightarrow> 'w hbt \<times> (string \<rightharpoonup> 'w hbt) \<Rightarrow> ('w hbt \<times> (string \<rightharpoonup> 'w hbt)) result" where
  "harmonize_all symbols gm =
     rfold (\<lambda>x (g, m). case m x of None \<Rightarrow> Inl OutOfRange
        | Some graph \<Rightarrow> rmap (\<lambda>(g', graph'). (g', m(x \<mapsto> graph'))) (harmonize g graph)) symbols gm"

definition substitute_map ::
  "(string \<rightharpoonup> 'w hbt) \<Rightarrow> bool \<Rightarrow> 'w hbt \<Rightarrow> ('w hbt \<times> (string \<rightharpoonup> 'w hbt)) result" where
  "substitute_map substitution_map do_harmonize g =
     (if list_ex (\<lambda>x. \<not> is_valid_symbol x) (map_keys substitution_map) then Inl EmptyStringException
      else if \<not> list_ex (\<lambda>x. x \<in> alphabet g) (map_keys substitution_map) then Inr (g, substitution_map)
      else rbind (take_mapped substitution_map 0 (state_vector g)) (\<lambda>(sv, subs).
        let performed = sorted_list_of_set (set (map (\<lambda>(s, tr). tr_input tr) subs));
            g1 = fold (\<lambda>x g. if x \<noteq> ''@_EPSILON_SYMBOL_@'' \<and> x \<noteq> ''@_UNKNOWN_SYMBOL_@'' \<and>
                                x \<noteq> ''@_IDENTITY_SYMBOL_@''
                             then remove_symbol_from_alphabet x g else g) performed
                   (g\<lparr>state_vector := sv\<rparr>)
        in rmap (\<lambda>(g2, m). (fold (\<lambda>(s, tr). add_substitution
               \<lparr>origin_state = s, target_state = tr_target tr, sub_weight = tr_weight tr,
                substituting_graph = the (m (tr_input tr))\<rparr>) subs g2, m))
             (if do_harmonize then harmonize_all performed (g1, substitution_map)
              else Inr (g1, substitution_map))))"

section \<open>Lemmas\<close>

text \<open>A list of transitions to be added, each with its source state.\<close>

definition add_all :: "(nat \<times> 'w transition) list \<Rightarrow> 'w hbt \<Rightarrow> 'w hbt" where
  "add_all es g = fold (\<lambda>(s, tr) g. add_transition s tr True g) es g"

lemma add_all_simps:
  "transitions_of (add_all es g) t = transitions_of g t @ map snd (filter (\<lambda>e. fst e = t) es)"
  "final_weight_map (add_all es g) = final_weight_map g"
  "alphabet (add_all es g) = alphabet g \<union> pair_symbols (set (map (tr_label \<circ> snd) es))"
  by (induction es arbitrary: g)
     (auto simp: add_all_def add_transition_simps pair_symbols_def tr_label_def split: prod.splits)

lemma add_all_length: "length (state_vector g) \<le> length (state_vector (add_all es g))"
proof (induction es arbitrary: g)
  case Nil
  then show ?case by (simp add: add_all_def)
next
  case (Cons e es)
  have "add_all (e # es) g = add_all es (add_transition (fst e) (snd e) True g)"
    by (simp add: add_all_def split: prod.splits)
  moreover have "length (state_vector g) \<le> length (state_vector (add_transition (fst e) (snd e) True g))"
    by (simp add: add_transition_simps)
  ultimately show ?case using Cons.IH [of "add_transition (fst e) (snd e) True g"] by simp
qed

lemma add_all_wf:
  "wf_hbt g \<Longrightarrow> (\<And>s tr. (s, tr) \<in> set es \<Longrightarrow> tr_input tr \<noteq> [] \<and> tr_output tr \<noteq> []) \<Longrightarrow>
     wf_hbt (add_all es g)"
proof (induction es arbitrary: g)
  case Nil
  then show ?case by (simp add: add_all_def)
next
  case (Cons e es)
  obtain s tr where e: "e = (s, tr)" by (cases e)
  have "add_all (e # es) g = add_all es (add_transition s tr True g)" by (simp add: add_all_def e)
  moreover have "wf_hbt (add_transition s tr True g)"
    using Cons.prems(1) Cons.prems(2) [of s tr] by (simp add: e wf_hbt_add_transition)
  ultimately show ?case using Cons.IH [of "add_transition s tr True g"] Cons.prems(2) [OF list.set_intros(2)] by simp
qed

fun copied :: "nat \<Rightarrow> nat \<Rightarrow> 'w transition list list \<Rightarrow> (nat \<times> 'w transition) list" where
  "copied offset k [] = []"
| "copied offset k (trs # sv) =
     map (\<lambda>tr. (k + offset, shifted offset tr)) trs @ copied offset (k + 1) sv"

lemma copy_states_eq: "copy_states offset k sv g = add_all (copied offset k sv) g"
proof (induction offset k sv g rule: copy_states.induct)
  case (1 offset k g)
  then show ?case by (simp add: add_all_def)
next
  case (2 offset k trs sv g)
  have "fold (\<lambda>tr g. add_transition (k + offset) (shifted offset tr) True g) trs g =
      add_all (map (\<lambda>tr. (k + offset, shifted offset tr)) trs) g"
    by (simp add: add_all_def fold_map comp_def)
  with 2 show ?case by (simp add: add_all_def)
qed

lemma set_copied:
  "(s, x) \<in> set (copied offset k sv) \<longleftrightarrow>
     (\<exists>i tr. i < length sv \<and> tr \<in> set (sv ! i) \<and> s = k + i + offset \<and> x = shifted offset tr)"
proof (induction offset k sv rule: copied.induct)
  case (1 offset k)
  then show ?case by simp
next
  case (2 offset k trs sv)
  have "(s, x) \<in> set (copied offset k (trs # sv)) \<longleftrightarrow>
      (\<exists>tr. tr \<in> set trs \<and> s = k + offset \<and> x = shifted offset tr) \<or>
      (\<exists>i tr. i < length sv \<and> tr \<in> set (sv ! i) \<and> s = k + 1 + i + offset \<and> x = shifted offset tr)"
    using 2 by auto
  also have "\<dots> \<longleftrightarrow> (\<exists>i tr. i < length (trs # sv) \<and> tr \<in> set ((trs # sv) ! i) \<and>
      s = k + i + offset \<and> x = shifted offset tr)" (is "?l \<longleftrightarrow> ?r")
  proof
    assume ?l
    then show ?r
    proof (elim disjE exE)
      fix tr assume "tr \<in> set trs \<and> s = k + offset \<and> x = shifted offset tr"
      then show ?r by (intro exI [of _ 0] exI [of _ tr]) simp
    next
      fix i tr assume "i < length sv \<and> tr \<in> set (sv ! i) \<and> s = k + 1 + i + offset \<and> x = shifted offset tr"
      then show ?r by (intro exI [of _ "Suc i"] exI [of _ tr]) simp
    qed
  next
    assume ?r
    then obtain i tr where "i < length (trs # sv)" "tr \<in> set ((trs # sv) ! i)"
      "s = k + i + offset" "x = shifted offset tr" by blast
    then show ?l by (cases i) auto
  qed
  finally show ?case .
qed

definition substitution_list :: "'w substitution_data \<Rightarrow> nat \<Rightarrow> (nat \<times> 'w transition) list" where
  "substitution_list sub n =
     (origin_state sub, epsilon_transition n (sub_weight sub)) #
     copied n 0 (state_vector (substituting_graph sub)) @
     map (\<lambda>(q, w). (q + n, epsilon_transition (target_state sub) w))
       (map_entries (final_weight_map (substituting_graph sub)))"

lemma add_substitution_eq:
  "add_substitution sub g =
     add_all (substitution_list sub (length (state_vector g))) (snd (add_new_state g))"
proof -
  have "fold (\<lambda>(q, w) g. add_transition (q + n) (epsilon_transition (target_state sub) w) True g) es h =
      add_all (map (\<lambda>(q, w). (q + n, epsilon_transition (target_state sub) w)) es) h" for n es h
    by (simp add: add_all_def fold_map comp_def case_prod_unfold)
  then show ?thesis
    by (simp add: add_substitution_def add_new_state_def Let_def copy_states_eq substitution_list_def
        add_all_def)
qed

lemma add_new_state_wf: "wf_hbt g \<Longrightarrow> wf_hbt (snd (add_new_state g))"
proof -
  assume "wf_hbt g"
  then have g: "wf_graph g" "wf_alphabet g" by (simp_all add: wf_hbt_def)
  have "dom (final_weight_map g) \<subseteq> {..<Suc (length (state_vector g))}"
    using g(1) unfolding wf_graph_iff by force
  then have "wf_graph (snd (add_new_state g))"
    by (intro wf_graph_more_states [OF g(1)]) (simp_all add: add_new_state_simps)
  moreover have "wf_alphabet (snd (add_new_state g))"
    using g(2) unfolding wf_alphabet_iff add_new_state_simps .
  ultimately show "wf_hbt (snd (add_new_state g))" by (simp add: wf_hbt_def)
qed

text \<open>What \<open>add_substitution\<close> adds to each state.\<close>

lemma add_substitution_transitions:
  assumes "finite (dom (final_weight_map (substituting_graph sub)))" and "n = length (state_vector g)"
  shows "x \<in> set (transitions_of (add_substitution sub g) t) \<longleftrightarrow>
     x \<in> set (transitions_of g t) \<or>
     t = origin_state sub \<and> x = epsilon_transition n (sub_weight sub) \<or>
     (\<exists>r. t = r + n \<and> x \<in> shifted n ` set (transitions_of (substituting_graph sub) r)) \<or>
     (\<exists>r w. t = r + n \<and> final_weight_map (substituting_graph sub) r = Some w \<and>
        x = epsilon_transition (target_state sub) w)"
proof -
  let ?h = "substituting_graph sub"
  have "x \<in> set (transitions_of (add_substitution sub g) t) \<longleftrightarrow>
      x \<in> set (transitions_of g t) \<or> (t, x) \<in> set (substitution_list sub n)"
    unfolding add_substitution_eq add_all_simps add_new_state_simps assms(2) by force
  moreover have "(t, x) \<in> set (copied n 0 (state_vector ?h)) \<longleftrightarrow>
      (\<exists>r. t = r + n \<and> x \<in> shifted n ` set (transitions_of ?h r))"
    unfolding set_copied by (auto simp: transitions_of_def split: if_splits)
  moreover have "(t, x) \<in> set (map (\<lambda>(q, w). (q + n, epsilon_transition (target_state sub) w))
        (map_entries (final_weight_map ?h))) \<longleftrightarrow>
      (\<exists>r w. t = r + n \<and> final_weight_map ?h r = Some w \<and> x = epsilon_transition (target_state sub) w)"
    using assms(1) by (auto simp: image_iff)
  ultimately show ?thesis by (auto simp: substitution_list_def)
qed

section \<open>Paths with substitutions\<close>

abbreviation epsilon_pair :: string_pair where
  "epsilon_pair \<equiv> (internal_epsilon, internal_epsilon)"

text \<open>Paths that may also cross a scheduled substitution: an epsilon, an accepted sequence of the
  substituting graph, an epsilon.\<close>

inductive spath ::
  "'w::monoid_add hbt \<Rightarrow> 'w substitution_data set \<Rightarrow> nat \<Rightarrow> string_pair list \<Rightarrow> 'w \<Rightarrow> nat \<Rightarrow> bool"
  for g S where
  spath_done: "spath g S p [] 0 p"
| spath_arc: "tr \<in> set (transitions_of g p) \<Longrightarrow> spath g S (tr_target tr) ls w q \<Longrightarrow>
    spath g S p (tr_label tr # ls) (tr_weight tr + w) q"
| spath_sub: "sd \<in> S \<Longrightarrow> weighted_accepts (substituting_graph sd) xs wx \<Longrightarrow>
    spath g S (target_state sd) ls w q \<Longrightarrow>
    spath g S (origin_state sd) (epsilon_pair # xs @ epsilon_pair # ls) (sub_weight sd + wx + w) q"

lemma spath_no_substitutions:
  "spath g {} p ls w q \<longleftrightarrow> (\<exists>ts. path g p ts q \<and> ls = map tr_label ts \<and> w = path_weight ts)"
proof
  assume "spath g {} p ls w q"
  then show "\<exists>ts. path g p ts q \<and> ls = map tr_label ts \<and> w = path_weight ts"
  proof induction
    case (spath_done p)
    then show ?case by (intro exI [of _ "[]"]) simp
  next
    case (spath_arc tr p ls w q)
    then obtain ts where "path g (tr_target tr) ts q" "ls = map tr_label ts" "w = path_weight ts" by blast
    with spath_arc(1) show ?case by (intro exI [of _ "tr # ts"]) simp
  qed simp
next
  have "path g p ts q \<Longrightarrow> spath g {} p (map tr_label ts) (path_weight ts) q" for ts
    by (induction ts arbitrary: p) (auto intro: spath.intros)
  then show "\<exists>ts. path g p ts q \<and> ls = map tr_label ts \<and> w = path_weight ts \<Longrightarrow> spath g {} p ls w q"
    by blast
qed

text \<open>Carrying out one substitution.\<close>

definition sub_ok :: "nat \<Rightarrow> 'w substitution_data \<Rightarrow> bool" where
  "sub_ok n sd \<longleftrightarrow> origin_state sd < n \<and> target_state sd < n \<and>
     finite (dom (final_weight_map (substituting_graph sd)))"

lemma epsilon_transition_simps [simp]:
  "tr_target (epsilon_transition s w) = s" "tr_weight (epsilon_transition s w) = w"
  "tr_label (epsilon_transition s w) = epsilon_pair"
  "tr_input (epsilon_transition s w) = internal_epsilon"
  "tr_output (epsilon_transition s w) = internal_epsilon"
  by (simp_all add: epsilon_transition_def tr_label_def)

lemma shifted_simps [simp]:
  "tr_target (shifted n tr) = tr_target tr + n" "tr_weight (shifted n tr) = tr_weight tr"
  "tr_label (shifted n tr) = tr_label tr" "tr_input (shifted n tr) = tr_input tr"
  "tr_output (shifted n tr) = tr_output tr"
  by (simp_all add: shifted_def tr_label_def)

lemma spath_add_substitution_D:
  fixes g :: "'w::monoid_add hbt"
  assumes wf: "wf_graph g" and n: "n = length (state_vector g)"
    and sd: "sub_ok n sd" and S: "\<And>x. x \<in> S \<Longrightarrow> sub_ok n x"
  shows "spath (add_substitution sd g) S p ls w q \<Longrightarrow> q < n \<Longrightarrow>
     (p < n \<longrightarrow> spath g (insert sd S) p ls w q) \<and>
     (\<forall>r. p = r + n \<longrightarrow> (\<exists>ts qf fw ls' w'. path (substituting_graph sd) r ts qf \<and>
        final_weight_map (substituting_graph sd) qf = Some fw \<and>
        ls = map tr_label ts @ epsilon_pair # ls' \<and> w = path_weight ts + fw + w' \<and>
        spath g (insert sd S) (target_state sd) ls' w' q))"
proof (induction rule: spath.induct)
  case (spath_done p)
  then show ?case by (auto intro: spath.spath_done)
next
  case (spath_arc tr p ls w q)
  let ?h = "substituting_graph sd"
  have fin: "finite (dom (final_weight_map ?h))" using sd by (simp add: sub_ok_def)
  have IH1: "tr_target tr < n \<Longrightarrow> spath g (insert sd S) (tr_target tr) ls w q"
    and IH2: "\<And>r. tr_target tr = r + n \<Longrightarrow> \<exists>ts qf fw ls' w'. path ?h r ts qf \<and>
        final_weight_map ?h qf = Some fw \<and> ls = map tr_label ts @ epsilon_pair # ls' \<and>
        w = path_weight ts + fw + w' \<and> spath g (insert sd S) (target_state sd) ls' w' q"
    using spath_arc.IH [OF spath_arc.prems] by blast+
  from spath_arc.hyps(1) [unfolded add_substitution_transitions [OF fin n]]
  consider (old) "tr \<in> set (transitions_of g p)"
    | (enter) "p = origin_state sd" "tr = epsilon_transition n (sub_weight sd)"
    | (inside) r tr0 where "p = r + n" "tr0 \<in> set (transitions_of ?h r)" "tr = shifted n tr0"
    | (leave) r fw where "p = r + n" "final_weight_map ?h r = Some fw"
        "tr = epsilon_transition (target_state sd) fw"
    by blast
  then show ?case
  proof cases
    case old
    then have p: "p < n" by (auto simp: transitions_of_def n split: if_splits)
    have "tr_target tr < n" using wf_graph_target [OF wf old] by (simp add: n)
    from spath.spath_arc [OF old IH1 [OF this]] p show ?thesis by simp
  next
    case enter
    from IH2 [of 0] enter(2) obtain ts qf fw ls' w' where *: "path ?h 0 ts qf"
      "final_weight_map ?h qf = Some fw" "ls = map tr_label ts @ epsilon_pair # ls'"
      "w = path_weight ts + fw + w'" "spath g (insert sd S) (target_state sd) ls' w' q" by auto
    then have "weighted_accepts ?h (map tr_label ts) (path_weight ts + fw)"
      unfolding weighted_accepts_def by blast
    from spath_sub [OF insertI1 this *(5)] enter *(3,4)
    have "spath g (insert sd S) p (tr_label tr # ls) (tr_weight tr + w) q" by (simp add: add.assoc)
    moreover have "p < n" using enter(1) sd by (simp add: sub_ok_def)
    ultimately show ?thesis by simp
  next
    case inside
    from IH2 [of "tr_target tr0"] inside(3) obtain ts qf fw ls' w' where *:
      "path ?h (tr_target tr0) ts qf"
      "final_weight_map ?h qf = Some fw" "ls = map tr_label ts @ epsilon_pair # ls'"
      "w = path_weight ts + fw + w'" "spath g (insert sd S) (target_state sd) ls' w' q" by auto
    have "path ?h r (tr0 # ts) qf" using inside(2) *(1) by simp
    moreover have "tr_label tr # ls = map tr_label (tr0 # ts) @ epsilon_pair # ls'"
      "tr_weight tr + w = path_weight (tr0 # ts) + fw + w'"
      using inside(3) *(3,4) by (simp_all add: add.assoc)
    ultimately have "\<exists>ts qf fw ls' w'. path ?h r ts qf \<and>
        final_weight_map ?h qf = Some fw \<and> tr_label tr # ls = map tr_label ts @ epsilon_pair # ls' \<and>
        tr_weight tr + w = path_weight ts + fw + w' \<and> spath g (insert sd S) (target_state sd) ls' w' q" using *(2,5) by blast
    with inside(1) show ?thesis by simp
  next
    case leave
    have "spath g (insert sd S) (target_state sd) ls w q" using IH1 leave(3) sd by (simp add: sub_ok_def)
    moreover have "path ?h r [] r" "tr_label tr # ls = map tr_label [] @ epsilon_pair # ls"
      "tr_weight tr + w = path_weight [] + fw + w" using leave(3) by simp_all
    ultimately have "\<exists>ts qf fw ls' w'. path ?h r ts qf \<and>
        final_weight_map ?h qf = Some fw \<and> tr_label tr # ls = map tr_label ts @ epsilon_pair # ls' \<and>
        tr_weight tr + w = path_weight ts + fw + w' \<and> spath g (insert sd S) (target_state sd) ls' w' q" using leave(2) by blast
    with leave(1) show ?thesis by simp
  qed
next
  case (spath_sub x xs wx ls w q)
  have "origin_state x < n" "target_state x < n" using S [OF spath_sub.hyps(1)] by (auto simp: sub_ok_def)
  moreover have "spath g (insert sd S) (target_state x) ls w q"
    using spath_sub.IH spath_sub.prems calculation(2) by blast
  ultimately show ?case using spath.spath_sub [OF insertI2 [OF spath_sub.hyps(1)] spath_sub.hyps(2)]
    by auto
qed

lemma spath_add_substitution_I:
  fixes g :: "'w::monoid_add hbt"
  assumes sd: "finite (dom (final_weight_map (substituting_graph sd)))"
  shows "spath g (insert sd S) p ls w q \<Longrightarrow> spath (add_substitution sd g) S p ls w q"
proof (induction rule: spath.induct)
  case (spath_done p)
  show ?case by (rule spath.spath_done)
next
  case (spath_arc tr p ls w q)
  then have "tr \<in> set (transitions_of (add_substitution sd g) p)"
    by (simp add: add_substitution_transitions [OF sd refl])
  then show ?case using spath_arc.IH by (rule spath.spath_arc)
next
  case (spath_sub x xs wx ls w q)
  let ?g = "add_substitution sd g" and ?h = "substituting_graph sd" and ?n = "length (state_vector g)"
  note trans = add_substitution_transitions [OF sd refl]
  show ?case
  proof (cases "x = sd")
    case False
    with spath_sub.hyps(1) have "x \<in> S" by simp
    then show ?thesis using spath_sub.hyps(2) spath_sub.IH by (rule spath.spath_sub)
  next
    case True
    then obtain ts qf fw where ts: "path ?h 0 ts qf" "final_weight_map ?h qf = Some fw"
      "xs = map tr_label ts" "wx = path_weight ts + fw"
      using spath_sub.hyps(2) by (auto simp: weighted_accepts_def)
    have copy: "path ?h r us qf \<Longrightarrow> spath ?g S (qf + ?n) ls' w' q \<Longrightarrow>
        spath ?g S (r + ?n) (map tr_label us @ ls') (path_weight us + w') q" for r us ls' w'
    proof (induction us arbitrary: r)
      case Nil
      then show ?case by simp
    next
      case (Cons u us)
      then have "shifted ?n u \<in> set (transitions_of ?g (r + ?n))" by (auto simp: trans)
      moreover have "spath ?g S (tr_target (shifted ?n u)) (map tr_label us @ ls') (path_weight us + w') q"
        using Cons by simp
      ultimately have "spath ?g S (r + ?n) (tr_label (shifted ?n u) # map tr_label us @ ls')
          (tr_weight (shifted ?n u) + (path_weight us + w')) q" by (rule spath.spath_arc)
      then show ?case by (simp add: add.assoc)
    qed
    have "epsilon_transition (target_state sd) fw \<in> set (transitions_of ?g (qf + ?n))"
      using ts(2) by (auto simp: trans)
    moreover have "spath ?g S (tr_target (epsilon_transition (target_state sd) fw)) ls w q"
      using spath_sub.IH True by simp
    ultimately have "spath ?g S (qf + ?n) (tr_label (epsilon_transition (target_state sd) fw) # ls)
        (tr_weight (epsilon_transition (target_state sd) fw) + w) q" by (rule spath.spath_arc)
    from copy [OF ts(1) this]
    have "spath ?g S ?n (xs @ epsilon_pair # ls) (wx + w) q" using ts(3,4) by (simp add: add.assoc)
    moreover have "epsilon_transition ?n (sub_weight sd) \<in> set (transitions_of ?g (origin_state sd))"
      by (simp add: trans)
    ultimately have "spath ?g S (origin_state sd) (tr_label (epsilon_transition ?n (sub_weight sd)) #
        xs @ epsilon_pair # ls) (tr_weight (epsilon_transition ?n (sub_weight sd)) + (wx + w)) q"
      by (intro spath.spath_arc) simp_all
    then show ?thesis using True by (simp add: add.assoc)
  qed
qed

lemma add_substitution_wf:
  assumes "wf_hbt g" and h: "wf_graph (substituting_graph sd)"
  shows "wf_hbt (add_substitution sd g) \<and> length (state_vector g) \<le> length (state_vector (add_substitution sd g)) \<and>
     final_weight_map (add_substitution sd g) = final_weight_map g"
proof -
  have fin: "finite (dom (final_weight_map (substituting_graph sd)))"
    using h finite_subset unfolding wf_graph_iff by blast
  have eps: "internal_epsilon \<noteq> []" by (simp add: internal_epsilon_def)
  have "tr_input x \<noteq> [] \<and> tr_output x \<noteq> []" if x: "(s, x) \<in> set (substitution_list sd n)" for s x n
  proof -
    from x fin consider "\<exists>q w. x = epsilon_transition q w" | "(s, x) \<in> set (copied n 0 (state_vector (substituting_graph sd)))"
      by (auto simp: substitution_list_def)
    then show ?thesis
    proof cases
      case 1
      with eps show ?thesis by auto
    next
      case 2
      then obtain i tr where "i < length (state_vector (substituting_graph sd))"
        "tr \<in> set (state_vector (substituting_graph sd) ! i)" "x = shifted n tr"
        unfolding set_copied by blast
      moreover from this have "wf_transition (length (state_vector (substituting_graph sd))) tr"
        using h nth_mem unfolding wf_graph_def by blast
      ultimately show ?thesis by (simp add: wf_transition_def)
    qed
  qed
  then have "wf_hbt (add_substitution sd g)"
    unfolding add_substitution_eq by (intro add_all_wf add_new_state_wf assms(1))
  moreover have "length (state_vector g) \<le> length (state_vector (add_substitution sd g))"
    using add_all_length [of "snd (add_new_state g)"]
    by (simp add: add_substitution_eq add_new_state_simps Suc_le_eq order_less_imp_le)
  ultimately show ?thesis by (simp add: add_substitution_eq add_all_simps add_new_state_simps)
qed

lemma spath_fold_substitutions:
  fixes g :: "'w::monoid_add hbt"
  assumes "wf_hbt g" and "n \<le> length (state_vector g)" and "p < n" and "q < n"
    and "\<And>sd. sd \<in> set subs \<union> S \<Longrightarrow> sub_ok n sd"
    and "\<And>sd. sd \<in> set subs \<Longrightarrow> wf_graph (substituting_graph sd)"
  shows "wf_hbt (fold add_substitution subs g) \<and>
     final_weight_map (fold add_substitution subs g) = final_weight_map g \<and>
     (spath (fold add_substitution subs g) S p ls w q \<longleftrightarrow> spath g (set subs \<union> S) p ls w q)"
  using assms
proof (induction subs arbitrary: g)
  case Nil
  then show ?case by simp
next
  case (Cons sd subs)
  let ?g = "add_substitution sd g" and ?n = "length (state_vector g)"
  have g': "wf_hbt ?g" "?n \<le> length (state_vector ?g)" "final_weight_map ?g = final_weight_map g"
    using add_substitution_wf [OF Cons.prems(1)] Cons.prems(6) by simp_all
  then have IH: "wf_hbt (fold add_substitution subs ?g)"
    "final_weight_map (fold add_substitution subs ?g) = final_weight_map ?g"
    "spath (fold add_substitution subs ?g) S p ls w q \<longleftrightarrow> spath ?g (set subs \<union> S) p ls w q"
    using Cons.IH [of ?g] Cons.prems by auto
  have ok: "sub_ok ?n x" if "x \<in> insert sd (set subs \<union> S)" for x
    using Cons.prems(2) Cons.prems(5) [of x] that by (auto simp: sub_ok_def)
  have "spath ?g (set subs \<union> S) p ls w q \<longleftrightarrow> spath g (insert sd (set subs \<union> S)) p ls w q"
  proof
    assume "spath ?g (set subs \<union> S) p ls w q"
    from spath_add_substitution_D [OF _ refl _ _ this] Cons.prems(1-4) ok
    show "spath g (insert sd (set subs \<union> S)) p ls w q" by (simp add: wf_hbt_def)
  next
    assume "spath g (insert sd (set subs \<union> S)) p ls w q"
    then show "spath ?g (set subs \<union> S) p ls w q"
      using ok by (intro spath_add_substitution_I) (simp_all add: sub_ok_def)
  qed
  then show ?case using IH g'(3) by simp
qed

text \<open>What substituting does to a path: every transition with the pair becomes an epsilon, an
  accepted sequence of the graph and an epsilon.\<close>

fun expands ::
  "string_pair \<Rightarrow> 'w::monoid_add hbt \<Rightarrow> 'w transition list \<Rightarrow> string_pair list \<Rightarrow> 'w \<Rightarrow> bool" where
  "expands sp graph [] ls w \<longleftrightarrow> ls = [] \<and> w = 0"
| "expands sp graph (t # ts) ls w \<longleftrightarrow>
     (if tr_label t = sp
      then \<exists>xs wx ls' w'. weighted_accepts graph xs wx \<and> ls = epsilon_pair # xs @ epsilon_pair # ls' \<and>
             w = tr_weight t + wx + w' \<and> expands sp graph ts ls' w'
      else \<exists>ls' w'. ls = tr_label t # ls' \<and> w = tr_weight t + w' \<and> expands sp graph ts ls' w')"

lemma spath_expands:
  fixes g :: "'w::monoid_add hbt"
  assumes b: "\<And>s. set (transitions_of b s) = {tr \<in> set (transitions_of g s). tr_label tr \<noteq> sp}"
    and S: "S = {\<lparr>origin_state = s, target_state = tr_target tr, sub_weight = tr_weight tr,
      substituting_graph = graph\<rparr> | s tr. tr \<in> set (transitions_of g s) \<and> tr_label tr = sp}"
  shows "spath b S p ls w q \<longleftrightarrow> (\<exists>ts. path g p ts q \<and> expands sp graph ts ls w)"
proof
  assume "spath b S p ls w q"
  then show "\<exists>ts. path g p ts q \<and> expands sp graph ts ls w"
  proof induction
    case (spath_done p)
    then show ?case by (intro exI [of _ "[]"]) simp
  next
    case (spath_arc tr p ls w q)
    then obtain ts where "path g (tr_target tr) ts q" "expands sp graph ts ls w" by blast
    with spath_arc(1) show ?case by (intro exI [of _ "tr # ts"]) (auto simp: b)
  next
    case (spath_sub sd xs wx ls w q)
    from spath_sub.hyps(1) obtain tr where tr: "tr \<in> set (transitions_of g (origin_state sd))"
      "tr_label tr = sp" "target_state sd = tr_target tr" "sub_weight sd = tr_weight tr"
      "substituting_graph sd = graph" unfolding S by auto
    from spath_sub.IH tr(3) obtain ts where "path g (tr_target tr) ts q" "expands sp graph ts ls w" by auto
    with tr spath_sub.hyps(2) show ?case by (intro exI [of _ "tr # ts"]) auto
  qed
next
  have "path g p ts q \<Longrightarrow> expands sp graph ts ls w \<Longrightarrow> spath b S p ls w q" for ts
  proof (induction ts arbitrary: p ls w)
    case Nil
    then show ?case by (auto intro: spath.spath_done)
  next
    case (Cons t ts)
    then have t: "t \<in> set (transitions_of g p)" and rest: "path g (tr_target t) ts q" by simp_all
    show ?case
    proof (cases "tr_label t = sp")
      case False
      with Cons.prems(2) obtain ls' w' where *: "ls = tr_label t # ls'" "w = tr_weight t + w'"
        "expands sp graph ts ls' w'" by auto
      from False t have "t \<in> set (transitions_of b p)" by (simp add: b)
      then show ?thesis unfolding *(1,2) using Cons.IH [OF rest *(3)] by (rule spath.spath_arc)
    next
      case True
      with Cons.prems(2) obtain xs wx ls' w' where *: "weighted_accepts graph xs wx"
        "ls = epsilon_pair # xs @ epsilon_pair # ls'" "w = tr_weight t + wx + w'"
        "expands sp graph ts ls' w'" by auto
      let ?sd = "\<lparr>origin_state = p, target_state = tr_target t, sub_weight = tr_weight t,
        substituting_graph = graph\<rparr>"
      have "?sd \<in> S" using t True unfolding S by blast
      from spath.spath_sub [OF this, of xs wx b ls' w' q] *(1) Cons.IH [OF rest *(4)]
      show ?thesis unfolding *(2,3) by simp
    qed
  qed
  then show "\<exists>ts. path g p ts q \<and> expands sp graph ts ls w \<Longrightarrow> spath b S p ls w q" by blast
qed

text \<open>Erasing two elements in ascending order uses an invalidated iterator; descending order is fine.\<close>

lemma positions_Nil [simp]: "positions P [] = []"
  by (simp add: positions_def)

lemma positions_snoc: "positions P (xs @ [x]) = positions P xs @ (if P x then [length xs] else [])"
proof -
  have "filter (\<lambda>i. P ((xs @ [x]) ! i)) [0..<length xs] = filter (\<lambda>i. P (xs ! i)) [0..<length xs]"
    by (rule filter_cong) (simp_all add: nth_append)
  then show ?thesis by (simp add: positions_def)
qed

lemma positions_nth: "map (\<lambda>i. f (xs ! i)) (positions P xs) = map f (filter P xs)"
proof (induction xs rule: rev_induct)
  case (snoc x xs)
  have "\<forall>i \<in> set (positions P xs). i < length xs" by (auto simp: positions_def)
  then have "map (\<lambda>i. f ((xs @ [x]) ! i)) (positions P xs) = map (\<lambda>i. f (xs ! i)) (positions P xs)"
    by (simp add: nth_append)
  with snoc show ?case by (simp add: positions_snoc)
qed simp

lemma length_positions: "length (positions P xs) = length (filter P xs)"
  using positions_nth [of id xs P] by (metis length_map)

lemma positions_below: "i \<in> set (positions P xs) \<Longrightarrow> i < length xs"
  by (auto simp: positions_def)

lemma erase_all_behind: "\<forall>i \<in> set its. i < n \<Longrightarrow> n \<le> length xs \<Longrightarrow>
    erase_all n its (xs @ ys) = rmap (\<lambda>zs. zs @ ys) (erase_all n its xs)"
proof (induction its arbitrary: n xs)
  case (Cons i its)
  show ?case
  proof (cases "\<forall>k \<in> set its. k < i")
    case True
    then have "erase_all i its ((take i xs @ drop (Suc i) xs) @ ys) = rmap (\<lambda>zs. zs @ ys) (erase_all i its (take i xs @ drop (Suc i) xs))"
      using Cons.prems by (intro Cons.IH) auto
    then show ?thesis using Cons.prems by simp
  next
    case False
    have stuck: "erase_all m its zs = Inl UndefinedBehaviour" if "\<not> (\<forall>k \<in> set its. k < m)" for m and zs :: "'a list"
      using that by (induction its arbitrary: m zs) (auto, meson less_trans not_less)
    show ?thesis using Cons.prems stuck [OF False] by simp
  qed
qed simp

lemma erase_descending: "erase_all (length xs) (rev (positions P xs)) xs = Inr (filter (\<lambda>x. \<not> P x) xs)"
proof (induction xs rule: rev_induct)
  case (snoc x xs)
  have below: "\<forall>i \<in> set (rev (positions P xs)). i < length xs" by (auto dest: positions_below)
  show ?case
  proof (cases "P x")
    case True
    then show ?thesis using snoc by (simp add: positions_snoc)
  next
    case False
    have "erase_all (length xs) its zs = erase_all (Suc (length xs)) its zs" if "\<forall>i \<in> set its. i < length xs" for its and zs :: "'a list"
      using that by (cases its) auto
    then show ?thesis using False snoc erase_all_behind [OF below order.refl, of "[x]"] below
      by (simp add: positions_snoc)
  qed
qed simp

lemma erase_ascending:
  "erase_all (length xs) (positions P xs) xs =
     (if length (filter P xs) \<le> 1 then Inr (filter (\<lambda>x. \<not> P x) xs) else Inl UndefinedBehaviour)"
proof (cases "positions P xs")
  case Nil
  then show ?thesis using erase_descending [of xs P] length_positions [of P xs] by simp
next
  case (Cons i its)
  show ?thesis
  proof (cases its)
    case Nil
    then show ?thesis using Cons erase_descending [of xs P] length_positions [of P xs] by simp
  next
    case (Cons k ks)
    have "sorted (positions P xs)" "distinct (positions P xs)" by (simp_all add: positions_def sorted_filter [where f = id, simplified])
    then have "i < k" using \<open>positions P xs = i # its\<close> Cons by auto
    then show ?thesis using \<open>positions P xs = i # its\<close> Cons length_positions [of P xs] by simp
  qed
qed

lemma take_matching_result:
  "(\<forall>trs \<in> set sv. length (filter (\<lambda>tr. tr_label tr = sp) trs) \<le> 1) \<Longrightarrow>
   \<exists>subs. take_matching sp graph k sv = Inr (map (filter (\<lambda>tr. tr_label tr \<noteq> sp)) sv, subs) \<and>
     set subs = {\<lparr>origin_state = k + i, target_state = tr_target tr, sub_weight = tr_weight tr,
       substituting_graph = graph\<rparr> | i tr. i < length sv \<and> tr \<in> set (sv ! i) \<and> tr_label tr = sp}"
proof (induction sv arbitrary: k)
  case Nil
  then show ?case by simp
next
  case (Cons trs sv)
  let ?sd = "\<lambda>i tr. \<lparr>origin_state = k + i, target_state = tr_target tr, sub_weight = tr_weight tr,
       substituting_graph = graph\<rparr>"
  from Cons.IH [of "k + 1"] Cons.prems obtain subs where IH: "take_matching sp graph (k + 1) sv =
      Inr (map (filter (\<lambda>tr. tr_label tr \<noteq> sp)) sv, subs)"
    "set subs = {?sd (Suc i) tr | i tr. i < length sv \<and> tr \<in> set (sv ! i) \<and> tr_label tr = sp}"
    by auto
  have "{?sd i tr | i tr. i < length (trs # sv) \<and> tr \<in> set ((trs # sv) ! i) \<and> tr_label tr = sp} =
      ?sd 0 ` {tr \<in> set trs. tr_label tr = sp} \<union> set subs" (is "?L = ?R")
  proof (intro equalityI subsetI)
    fix x assume "x \<in> ?L"
    then obtain i tr where "i < length (trs # sv)" "tr \<in> set ((trs # sv) ! i)" "tr_label tr = sp"
      "x = ?sd i tr" by blast
    then show "x \<in> ?R" unfolding IH(2) by (cases i) auto
  next
    fix x assume "x \<in> ?R"
    then consider tr where "tr \<in> set trs" "tr_label tr = sp" "x = ?sd 0 tr"
      | i tr where "i < length sv" "tr \<in> set (sv ! i)" "tr_label tr = sp" "x = ?sd (Suc i) tr"
      unfolding IH(2) by blast
    then show "x \<in> ?L"
    proof cases
      case 1
      then show ?thesis by (intro CollectI exI [of _ 0] exI [of _ tr]) simp
    next
      case 2
      then show ?thesis by (intro CollectI exI [of _ "Suc i"] exI [of _ tr]) simp
    qed
  qed
  moreover have "erase_all (length trs) (positions (\<lambda>tr. tr_label tr = sp) trs) trs = Inr (filter (\<lambda>tr. tr_label tr \<noteq> sp) trs)"
    using Cons.prems by (simp add: erase_ascending)
  moreover have "set (map (\<lambda>i. ?sd 0 (trs ! i)) (positions (\<lambda>tr. tr_label tr = sp) trs)) = ?sd 0 ` {tr \<in> set trs. tr_label tr = sp}"
    using positions_nth [of "?sd 0" trs "\<lambda>tr. tr_label tr = sp"] by simp
  ultimately show ?case using IH(1) by (simp add: label_eq Let_def)
qed

lemma take_mapped_result:
  "take_mapped m k sv \<noteq> Inl UndefinedBehaviour \<and>
     (take_mapped m k sv = Inr (sv', subs) \<longrightarrow> sv' = map (filter (\<lambda>tr. m (tr_input tr) = None)) sv)"
proof (induction sv arbitrary: k sv' subs)
  case (Cons trs sv)
  from erase_descending [of trs "\<lambda>tr. m (tr_input tr) \<noteq> None"] Cons [of "k + 1"] show ?case
    by (cases "take_mapped m (k + 1) sv") (auto simp: Let_def)
qed simp

lemma take_matching_undefined:
  "\<exists>trs \<in> set sv. 1 < length (filter (\<lambda>tr. tr_label tr = sp) trs) \<Longrightarrow> take_matching sp graph k sv = Inl UndefinedBehaviour"
proof (induction sv arbitrary: k)
  case (Cons trs sv)
  show ?case
  proof (cases "1 < length (filter (\<lambda>tr. tr_label tr = sp) trs)")
    case True
    then show ?thesis by (simp add: label_eq Let_def erase_ascending)
  next
    case False
    with Cons show ?thesis by (simp add: label_eq Let_def erase_ascending)
  qed
qed simp

lemma expands_nothing:
  "\<forall>t \<in> set ts. tr_label t \<noteq> sp \<Longrightarrow>
     expands sp graph ts ls w \<longleftrightarrow> ls = map tr_label ts \<and> w = path_weight ts"
  by (induction ts arbitrary: ls w) auto

lemma path_transitions:
  "path g p ts q \<Longrightarrow> t \<in> set ts \<Longrightarrow> \<exists>s. t \<in> set (transitions_of g s)"
  by (induction ts arbitrary: p) auto

section \<open>Properties\<close>

text \<open>C29. Substituting a pair by another graph, when no state has two transitions with the pair (otherwise the code is
  undefined): the result is well-formed, and it accepts exactly the weighted label sequences of the accepting
  paths of the old graph in which every transition with the pair has become an epsilon, a
  sequence accepted by the substituting graph and an epsilon, the weights added up.\<close>

theorem substitute_pair_with_transducer_correct:
  fixes g :: "'w::monoid_add hbt"
  assumes "wf_hbt g" and "wf_graph graph" and "valid_pair sp"
    and one: "\<forall>s. length (filter (\<lambda>tr. tr_label tr = sp) (transitions_of g s)) \<le> 1"
  shows "\<exists>g'. substitute_symbol_pair_with_transducer sp graph g = Inr g' \<and> wf_hbt g' \<and>
     (\<forall>ls w. weighted_accepts g' ls w \<longleftrightarrow> (\<exists>ts q fw v. path g 0 ts q \<and>
        final_weight_map g q = Some fw \<and> expands sp graph ts ls v \<and> w = v + fw))"
proof (cases "fst sp \<notin> alphabet g \<and> snd sp \<notin> alphabet g")
  case True
  have no: "tr_label tr \<noteq> sp" if "tr \<in> set (transitions_of g s)" for tr s
    using that assms(1) True unfolding wf_hbt_def wf_alphabet_iff by (auto simp: tr_label_def)
  have "expands sp graph ts ls v \<longleftrightarrow> ls = map tr_label ts \<and> v = path_weight ts" if "path g 0 ts q" for ts q ls v
    using no path_transitions [OF that] by (intro expands_nothing) blast
  note ex = this
  have "weighted_accepts g ls w \<longleftrightarrow> (\<exists>ts q fw v. path g 0 ts q \<and>
      final_weight_map g q = Some fw \<and> expands sp graph ts ls v \<and> w = v + fw)" for ls w
  proof
    assume "weighted_accepts g ls w"
    then obtain ts q fw where *: "path g 0 ts q" "final_weight_map g q = Some fw"
      "ls = map tr_label ts" "w = path_weight ts + fw" unfolding weighted_accepts_def by blast
    with ex [OF *(1), of ls "path_weight ts"] show "\<exists>ts q fw v. path g 0 ts q \<and>
      final_weight_map g q = Some fw \<and> expands sp graph ts ls v \<and> w = v + fw" by blast
  next
    assume "\<exists>ts q fw v. path g 0 ts q \<and>
      final_weight_map g q = Some fw \<and> expands sp graph ts ls v \<and> w = v + fw"
    then obtain ts q fw v where *: "path g 0 ts q" "final_weight_map g q = Some fw"
      "expands sp graph ts ls v" "w = v + fw" by blast
    from *(3) have "ls = map tr_label ts" "v = path_weight ts" unfolding ex [OF *(1)] by simp_all
    with * show "weighted_accepts g ls w" unfolding weighted_accepts_def by blast
  qed
  then show ?thesis using True assms(1,3) by (simp add: substitute_symbol_pair_with_transducer_def)
next
  case False
  let ?n = "length (state_vector g)"
  let ?sv = "map (filter (\<lambda>tr. tr_label tr \<noteq> sp)) (state_vector g)"
  obtain b where b: "b = g\<lparr>state_vector := ?sv\<rparr>" by blast
  have g: "wf_graph g" "wf_alphabet g" using assms(1) by (simp_all add: wf_hbt_def)
  have "\<forall>trs \<in> set (state_vector g). length (filter (\<lambda>tr. tr_label tr = sp) trs) \<le> 1"
  proof
    fix trs assume "trs \<in> set (state_vector g)"
    then obtain s where "s < ?n" "state_vector g ! s = trs" by (auto simp: in_set_conv_nth [of trs])
    with one [rule_format, of s] show "length (filter (\<lambda>tr. tr_label tr = sp) trs) \<le> 1"
      by (simp add: transitions_of_def)
  qed
  from take_matching_result [OF this, of graph 0] obtain subs where
    subs: "take_matching sp graph 0 (state_vector g) = Inr (?sv, subs)"
      "set subs = {\<lparr>origin_state = i, target_state = tr_target tr, sub_weight = tr_weight tr,
        substituting_graph = graph\<rparr> | i tr. i < ?n \<and> tr \<in> set (state_vector g ! i) \<and> tr_label tr = sp}"
    by auto
  have eq: "substitute_symbol_pair_with_transducer sp graph g = Inr (fold add_substitution subs b)"
    using False assms(3) subs(1) unfolding substitute_symbol_pair_with_transducer_def b by auto
  have S: "set subs = {\<lparr>origin_state = s, target_state = tr_target tr, sub_weight = tr_weight tr,
      substituting_graph = graph\<rparr> | s tr. tr \<in> set (transitions_of g s) \<and> tr_label tr = sp}"
    unfolding subs(2) by (auto simp: transitions_of_def split: if_splits)
  have bt: "set (transitions_of b s) = {tr \<in> set (transitions_of g s). tr_label tr \<noteq> sp}" for s
    by (auto simp: transitions_of_def b)
  have bn: "length (state_vector b) = ?n" "final_weight_map b = final_weight_map g" "alphabet b = alphabet g"
    by (simp_all add: b)
  have wfb: "wf_hbt b"
    unfolding wf_hbt_def
  proof
    show "wf_graph b" using g(1) bt by (intro wf_graph_same_states [OF g(1) bn(1,2)]) (auto simp: wf_graph_iff)
    show "wf_alphabet b" using g(2) bt bn(3) unfolding wf_alphabet_iff by auto
  qed
  have fin: "finite (dom (final_weight_map graph))"
    using assms(2) finite_subset unfolding wf_graph_iff by blast
  have ok: "sub_ok ?n sd \<and> substituting_graph sd = graph" if "sd \<in> set subs" for sd
  proof -
    from that obtain s tr where *: "tr \<in> set (transitions_of g s)" "origin_state sd = s"
      "target_state sd = tr_target tr" "substituting_graph sd = graph" unfolding S by auto
    then have "s < ?n" by (auto simp: transitions_of_def split: if_splits)
    with * wf_graph_target [OF g(1) *(1)] fin show ?thesis by (simp add: sub_ok_def)
  qed
  have n0: "0 < ?n" using g(1) by (simp add: wf_graph_iff)
  have final: "q < ?n" if "final_weight_map g q = Some fw" for q fw
    using that g(1) unfolding wf_graph_iff by auto
  let ?g' = "fold add_substitution subs b"
  have fold: "wf_hbt ?g' \<and> final_weight_map ?g' = final_weight_map b \<and>
      (spath ?g' {} 0 ls w q \<longleftrightarrow> spath b (set subs \<union> {}) 0 ls w q)" if "q < ?n" for ls w q
    using ok assms(2) n0 that by (intro spath_fold_substitutions [OF wfb, of ?n]) (auto simp: bn)
  have "weighted_accepts ?g' ls w \<longleftrightarrow> (\<exists>ts q fw v. path g 0 ts q \<and>
      final_weight_map g q = Some fw \<and> expands sp graph ts ls v \<and> w = v + fw)" for ls w
  proof -
    have "final_weight_map ?g' = final_weight_map g" using fold [OF n0] bn by simp
    then have "weighted_accepts ?g' ls w \<longleftrightarrow>
        (\<exists>q fw v. final_weight_map g q = Some fw \<and> spath ?g' {} 0 ls v q \<and> w = v + fw)"
      unfolding weighted_accepts_def spath_no_substitutions by auto
    also have "\<dots> \<longleftrightarrow> (\<exists>q fw v. final_weight_map g q = Some fw \<and> spath b (set subs) 0 ls v q \<and> w = v + fw)"
      using fold final by (metis (no_types, opaque_lifting) Un_empty_right)
    finally show ?thesis unfolding spath_expands [OF bt S] by blast
  qed
  moreover have "wf_hbt ?g'" using fold [OF n0] by blast
  ultimately show ?thesis using eq by blast
qed

lemma substitute_pair_with_transducer_correct_witness:
  "\<exists>g'. substitute_symbol_pair_with_transducer (''a'', ''b'') example_graph example_graph = Inr g' \<and>
     weighted_accepts g' [epsilon_pair, (''a'', ''b''), epsilon_pair] 10"
proof -
  let ?tr = "\<lparr>tr_target = 1, tr_input = ''a'', tr_output = ''b'', tr_weight = 3 :: int\<rparr>"
  have one: "\<forall>s. length (filter (\<lambda>tr. tr_label tr = (''a'', ''b'')) (transitions_of example_graph s)) \<le> 1"
    by (simp add: example_graph_simps)
  obtain g' where g': "substitute_symbol_pair_with_transducer (''a'', ''b'') example_graph example_graph = Inr g'"
    "\<And>ls w. weighted_accepts g' ls w \<longleftrightarrow> (\<exists>ts q fw v. path example_graph 0 ts q \<and>
        final_weight_map example_graph q = Some fw \<and> expands (''a'', ''b'') example_graph ts ls v \<and> w = v + fw)"
    using substitute_pair_with_transducer_correct [OF example_graph_wf _ _ one, of example_graph]
      example_graph_wf
    unfolding wf_hbt_def valid_pair_def is_valid_symbol_def by auto
  have acc: "weighted_accepts example_graph [(''a'', ''b'')] 5"
    unfolding weighted_accepts_def
    by (intro exI [of _ "[?tr]"] exI [of _ 1] exI [of _ 2]) (simp add: example_graph_simps tr_label_def)
  have "\<exists>xs wx ls' w'. weighted_accepts example_graph xs wx \<and>
      [epsilon_pair, (''a'', ''b''), epsilon_pair] = epsilon_pair # xs @ epsilon_pair # ls' \<and>
      8 = tr_weight ?tr + wx + w' \<and> expands (''a'', ''b'') example_graph [] ls' w'"
    using acc by (intro exI [of _ "[(''a'', ''b'')]"] exI [of _ 5] exI [of _ "[]"] exI [of _ 0]) simp
  then have "expands (''a'', ''b'') example_graph [?tr] [epsilon_pair, (''a'', ''b''), epsilon_pair] 8"
    by (simp add: tr_label_def)
  then have "weighted_accepts g' [epsilon_pair, (''a'', ''b''), epsilon_pair] 10"
    unfolding g'(2)
    by (intro exI [of _ "[?tr]"] exI [of _ 1] exI [of _ 2] exI [of _ 8]) (simp add: example_graph_simps)
  with g'(1) show ?thesis by blast
qed

text \<open>C35. Substituting a pair by another graph uses an iterator that an earlier \<open>erase\<close> has invalidated exactly when some
  state has two transitions with the pair, since the saved iterators are erased in ascending order; in
  all other cases it returns a graph. The variant with a map of graphs saves them on a stack and erases in descending order, which
  never does: what is left of a state are the transitions that are not substituted.\<close>

theorem substitute_pair_with_transducer_undefined:
  fixes g :: "'w::monoid_add hbt"
  assumes "wf_hbt g" and "wf_graph graph" and "valid_pair sp"
  shows "(substitute_symbol_pair_with_transducer sp graph g = Inl UndefinedBehaviour \<longleftrightarrow>
      (\<exists>s. 1 < length (filter (\<lambda>tr. tr_label tr = sp) (transitions_of g s)))) \<and>
    (substitute_symbol_pair_with_transducer sp graph g = Inl UndefinedBehaviour \<or>
      (\<exists>g'. substitute_symbol_pair_with_transducer sp graph g = Inr g')) \<and>
    (\<forall>m sv. take_mapped m 0 sv \<noteq> Inl UndefinedBehaviour \<and>
      (\<forall>sv' subs. take_mapped m 0 sv = Inr (sv', subs) \<longrightarrow> sv' = map (filter (\<lambda>tr. m (tr_input tr) = None)) sv))"
proof (intro conjI)
  have undefined: "substitute_symbol_pair_with_transducer sp graph g = Inl UndefinedBehaviour"
    if s: "1 < length (filter (\<lambda>tr. tr_label tr = sp) (transitions_of g s))" for s
  proof -
    have "filter (\<lambda>tr. tr_label tr = sp) (transitions_of g s) \<noteq> []" using s by auto
    then obtain tr where tr: "tr \<in> set (transitions_of g s)" "tr_label tr = sp" by (auto simp: filter_empty_conv)
    then have "fst sp \<in> alphabet g" using assms(1) unfolding wf_hbt_def wf_alphabet_iff by (auto simp: tr_label_def)
    moreover have "transitions_of g s \<in> set (state_vector g)"
      using tr(1) by (auto simp: transitions_of_def split: if_splits)
    moreover from this s have "take_matching sp graph 0 (state_vector g) = Inl UndefinedBehaviour"
      by (intro take_matching_undefined) blast
    ultimately show ?thesis using assms(3) by (simp add: substitute_symbol_pair_with_transducer_def)
  qed
  have defined: "\<exists>g'. substitute_symbol_pair_with_transducer sp graph g = Inr g'"
    if none: "\<not> (\<exists>s. 1 < length (filter (\<lambda>tr. tr_label tr = sp) (transitions_of g s)))"
  proof -
    have "length (filter (\<lambda>tr. tr_label tr = sp) trs) \<le> 1" if "trs \<in> set (state_vector g)" for trs
    proof -
      from that obtain s where "s < length (state_vector g)" "trs = transitions_of g s"
        by (auto simp: in_set_conv_nth transitions_of_def)
      then show ?thesis using none by (simp add: not_less)
    qed
    then show ?thesis using assms(3) take_matching_result [of "state_vector g" sp graph 0]
      by (auto simp: substitute_symbol_pair_with_transducer_def)
  qed
  show "substitute_symbol_pair_with_transducer sp graph g = Inl UndefinedBehaviour \<longleftrightarrow>
      (\<exists>s. 1 < length (filter (\<lambda>tr. tr_label tr = sp) (transitions_of g s)))" using undefined defined by fastforce
  show "substitute_symbol_pair_with_transducer sp graph g = Inl UndefinedBehaviour \<or>
      (\<exists>g'. substitute_symbol_pair_with_transducer sp graph g = Inr g')" using undefined defined by blast
  show "\<forall>m sv. take_mapped m 0 sv \<noteq> Inl UndefinedBehaviour \<and>
      (\<forall>sv' subs. take_mapped m 0 sv = Inr (sv', subs) \<longrightarrow> sv' = map (filter (\<lambda>tr. m (tr_input tr) = None)) sv)"
    using take_mapped_result by blast
qed

lemma substitute_pair_with_transducer_undefined_witness:
  "substitute_symbol_pair_with_transducer (''a'', ''b'') new_hbt
     (add_transition 0 \<lparr>tr_target = 0, tr_input = ''a'', tr_output = ''b'', tr_weight = 0\<rparr> True example_graph) =
     Inl UndefinedBehaviour"
proof -
  let ?g = "add_transition 0 \<lparr>tr_target = 0, tr_input = ''a'', tr_output = ''b'', tr_weight = 0\<rparr> True example_graph"
  have "wf_hbt ?g" by (intro wf_hbt_intros example_graph_wf) simp_all
  moreover have "wf_graph (new_hbt :: int hbt)" by (simp add: wf_graph_def new_hbt_def)
  moreover have "1 < length (filter (\<lambda>tr. tr_label tr = (''a'', ''b'')) (transitions_of ?g 0))"
    by (simp add: add_transition_simps example_graph_simps tr_label_def)
  ultimately show ?thesis
    using substitute_pair_with_transducer_undefined [of ?g new_hbt "(''a'', ''b'')"]
    by (auto simp: valid_pair_def is_valid_symbol_def)
qed

end
