(* ===== verification/Lexicon.thy ===== *)
theory Lexicon
  imports Rewriting
begin

text \<open>
  Disjunction of a graph with one-path graphs (\<open>HfstBasicTransducer.cc\<close>, lines 2966 to 3049), the
  construction of lexicons. The documented precondition is that the graph is a trie whose
  weights are in the final states. \<open>trie_graph\<close> states it; under it the graph is a finite map
  from sequences of symbol pairs to weights, and \<open>disjunct\<close> is the insertion that keeps the
  smaller weight. The locale \<open>min_map\<close> has the laws of such an insertion and derives what the
  insertion of many entries gives; \<open>disjunct\<close> interprets it.
\<close>

section \<open>The operations\<close>

text \<open>The recursion that follows or creates the path.\<close>

fun disjunct_path ::
  "string_pair list \<Rightarrow> nat \<Rightarrow> 'w::zero hbt \<Rightarrow> (nat \<times> 'w hbt) result" where
  "disjunct_path [] s g = Inr (s, g)"
| "disjunct_path (p # spv) s g =
     (if s \<ge> length (state_vector g) then Inl UndefinedBehaviour
      else case find (\<lambda>tr. tr_input tr = fst p \<and> tr_output tr = snd p) (state_vector g ! s) of
          Some tr \<Rightarrow> disjunct_path spv (tr_target tr) g
        | None \<Rightarrow>
            (let (next_state, g1) = add_new_state g in
             rbind (new_transition next_state (fst p) (snd p) 0) (\<lambda>transition.
               disjunct_path spv next_state (add_transition s transition True g1))))"

definition disjunct ::
  "string_pair list \<Rightarrow> 'w::{zero, ord} \<Rightarrow> 'w hbt \<Rightarrow> 'w hbt result" where
  "disjunct spv weight g =
     rbind (disjunct_path spv 0 g) (\<lambda>(final_state, g1).
       if is_final_state final_state g1 then
         rbind (get_final_weight final_state g1) (\<lambda>old_weight.
           if old_weight < weight then Inr g1
           else Inr (set_final_weight final_state weight g1))
       else Inr (set_final_weight final_state weight g1))"

section \<open>Maps that keep the smaller value\<close>

fun smaller :: "'w::ord option \<Rightarrow> 'w \<Rightarrow> 'w" where
  "smaller None w = w"
| "smaller (Some old) w = (if old < w then old else w)"

locale min_map =
  fixes valid :: "'k \<Rightarrow> bool"
    and inv :: "'g \<Rightarrow> bool"
    and look :: "'g \<Rightarrow> 'k \<Rightarrow> 'w::linorder option"
    and ins :: "'k \<Rightarrow> 'w \<Rightarrow> 'g \<Rightarrow> 'g result"
  assumes insert_entry: "inv g \<Longrightarrow> valid k \<Longrightarrow>
    \<exists>g'. ins k w g = Inr g' \<and> inv g' \<and>
      (\<forall>k'. look g' k' = (if k' = k then Some (smaller (look g k) w) else look g k'))"
begin

lemma insert_all:
  "inv g \<Longrightarrow> \<forall>(k, w) \<in> set es. valid k \<Longrightarrow>
   \<exists>g'. rfold (\<lambda>(k, w). ins k w) es g = Inr g' \<and> inv g' \<and>
     (\<forall>k. look g' k = (let ws = set_option (look g k) \<union> {w. (k, w) \<in> set es} in
        if ws = {} then None else Some (Min ws)))"
proof (induction es arbitrary: g)
  case Nil
  have "look g k = (let ws = set_option (look g k) in if ws = {} then None else Some (Min ws))" for k
    by (cases "look g k") auto
  with Nil show ?case by simp
next
  case (Cons e es)
  obtain k w where e: "e = (k, w)" by (cases e)
  from Cons.prems e insert_entry [of g k w] obtain g1 where
    g1: "ins k w g = Inr g1" "inv g1"
      "\<And>k'. look g1 k' = (if k' = k then Some (smaller (look g k) w) else look g k')" by auto
  from Cons.IH [OF g1(2)] Cons.prems(2) obtain g' where
    g': "rfold (\<lambda>(k, w). ins k w) es g1 = Inr g'" "inv g'"
      "\<And>k. look g' k = (let ws = set_option (look g1 k) \<union> {w. (k, w) \<in> set es} in
        if ws = {} then None else Some (Min ws))" by auto
  have "look g' k' = (let ws = set_option (look g k') \<union> {w. (k', w) \<in> set (e # es)} in
        if ws = {} then None else Some (Min ws))" for k'
  proof (cases "k' = k")
    case False
    then show ?thesis using g'(3) [of k'] g1(3) [of k'] e by auto
  next
    case True
    have fin: "finite {v. (k, v) \<in> set es}"
      by (rule finite_subset [of _ "snd ` set es"]) (auto intro: rev_image_eqI)
    have "Min (insert (smaller (look g k) w) {v. (k, v) \<in> set es}) =
        Min (set_option (look g k) \<union> insert w {v. (k, v) \<in> set es})"
    proof (cases "look g k")
      case None
      then show ?thesis by simp
    next
      case (Some old)
      have "Min (insert (min old w) V) = Min (insert old (insert w V))" if "finite V" for V
        using that by (cases "V = {}") (simp_all add: min.assoc)
      from this [OF fin] have "Min (insert (min old w) {v. (k, v) \<in> set es}) =
          Min (set_option (look g k) \<union> insert w {v. (k, v) \<in> set es})"
        using Some by (simp add: insert_commute)
      moreover have "smaller (look g k) w = min old w" using Some by (auto simp: min_def)
      ultimately show ?thesis by simp
    qed
    moreover have "{v. (k, v) \<in> set (e # es)} = insert w {v. (k, v) \<in> set es}" using e by auto
    ultimately show ?thesis using True g'(3) [of k] g1(3) [of k] by (simp add: Let_def)
  qed
  with g1(1) g'(1,2) e show ?case by auto
qed

end

section \<open>Tries\<close>

definition trie_step :: "'w hbt \<Rightarrow> nat \<Rightarrow> string_pair \<Rightarrow> nat option" where
  "trie_step g s p =
     map_option tr_target (find (\<lambda>tr. tr_input tr = fst p \<and> tr_output tr = snd p) (transitions_of g s))"

fun follow :: "'w hbt \<Rightarrow> nat \<Rightarrow> string_pair list \<Rightarrow> nat option" where
  "follow g s [] = Some s"
| "follow g s (p # ps) = (case trie_step g s p of None \<Rightarrow> None | Some t \<Rightarrow> follow g t ps)"

definition lexicon :: "'w hbt \<Rightarrow> string_pair list \<Rightarrow> 'w option" where
  "lexicon g ps = Option.bind (follow g 0 ps) (final_weight_map g)"

definition trie_graph :: "'w::zero hbt \<Rightarrow> bool" where
  "trie_graph g \<longleftrightarrow> wf_hbt g \<and>
     (\<forall>s. distinct (map tr_label (transitions_of g s))) \<and>
     (\<forall>s. \<forall>tr \<in> set (transitions_of g s). tr_weight tr = 0) \<and>
     (\<forall>ps qs s. follow g 0 ps = Some s \<longrightarrow> follow g 0 qs = Some s \<longrightarrow> ps = qs)"

lemma follow_append: "follow g s (ps @ qs) = Option.bind (follow g s ps) (\<lambda>t. follow g t qs)"
  by (induction ps arbitrary: s) (auto split: option.splits)

lemma follow_cong:
  assumes "transitions_of g = transitions_of h" shows "follow g s ps = follow h s ps"
proof -
  have "trie_step g = trie_step h" using assms by (simp add: trie_step_def fun_eq_iff)
  then show ?thesis by (induction ps arbitrary: s) (auto split: option.splits)
qed

lemma find_SomeD: "find P xs = Some x \<Longrightarrow> x \<in> set xs \<and> P x"
  by (induction xs) (auto split: if_splits)

lemma find_label:
  assumes "distinct (map tr_label trs)"
  shows "find (\<lambda>tr. tr_label tr = p) trs = Some tr \<longleftrightarrow> tr \<in> set trs \<and> tr_label tr = p"
  using assms by (induction trs) auto

lemma label_pair: "tr_input tr = fst p \<and> tr_output tr = snd p \<longleftrightarrow> tr_label tr = p"
  by (auto simp: tr_label_def)

lemma trie_step_None: "trie_step g s p = None \<longleftrightarrow> (\<forall>tr \<in> set (transitions_of g s). tr_label tr \<noteq> p)"
  by (auto simp: trie_step_def label_pair find_None_iff)

lemma trie_step_Some:
  "distinct (map tr_label (transitions_of g s)) \<Longrightarrow>
     trie_step g s p = Some t \<longleftrightarrow> (\<exists>tr \<in> set (transitions_of g s). tr_label tr = p \<and> tr_target tr = t)"
  by (auto simp: trie_step_def label_pair find_label)

text \<open>In a trie the paths are what \<open>follow\<close> finds, and their weights are in the final states.\<close>

lemma trie_path:
  assumes "trie_graph g"
  shows "(\<exists>ts. path g p ts q \<and> ls = map tr_label ts) \<longleftrightarrow> follow g p ls = Some q"
proof -
  have d: "distinct (map tr_label (transitions_of g s))" for s using assms by (simp add: trie_graph_def)
  show ?thesis
  proof
    have "path g p ts q \<Longrightarrow> follow g p (map tr_label ts) = Some q" for ts
    proof (induction ts arbitrary: p)
      case (Cons t ts)
      then have "trie_step g p (tr_label t) = Some (tr_target t)" by (auto simp: trie_step_Some [OF d])
      with Cons show ?case by simp
    qed simp
    then show "\<exists>ts. path g p ts q \<and> ls = map tr_label ts \<Longrightarrow> follow g p ls = Some q" by blast
  next
    show "follow g p ls = Some q \<Longrightarrow> \<exists>ts. path g p ts q \<and> ls = map tr_label ts"
    proof (induction ls arbitrary: p)
      case Nil
      then show ?case by (intro exI [of _ "[]"]) simp
    next
      case (Cons l ls)
      then obtain u where u: "trie_step g p l = Some u" "follow g u ls = Some q"
        by (auto split: option.splits)
      from u(1) obtain t where "t \<in> set (transitions_of g p)" "tr_label t = l" "tr_target t = u"
        unfolding trie_step_Some [OF d] by blast
      moreover from Cons.IH [OF u(2)] obtain ts where "path g u ts q" "ls = map tr_label ts" by blast
      ultimately show ?case by (intro exI [of _ "t # ts"]) simp
    qed
  qed
qed

lemma trie_path_weight:
  fixes g :: "'w::monoid_add hbt"
  assumes "trie_graph g"
  shows "path g p ts q \<Longrightarrow> path_weight ts = 0"
  using assms by (induction ts arbitrary: p) (auto simp: trie_graph_def)

lemma trie_accepts:
  fixes g :: "'w::monoid_add hbt"
  assumes "trie_graph g"
  shows "weighted_accepts g ps w \<longleftrightarrow> lexicon g ps = Some w"
proof
  assume "weighted_accepts g ps w"
  then obtain ts q fw where "path g 0 ts q" "final_weight_map g q = Some fw" "ps = map tr_label ts"
    "w = path_weight ts + fw" unfolding weighted_accepts_def by blast
  moreover from this have "follow g 0 ps = Some q" using trie_path [OF assms] by blast
  ultimately show "lexicon g ps = Some w" using trie_path_weight [OF assms] by (simp add: lexicon_def)
next
  assume "lexicon g ps = Some w"
  then obtain q where q: "follow g 0 ps = Some q" "final_weight_map g q = Some w"
    by (auto simp: lexicon_def bind_eq_Some_conv)
  then obtain ts where "path g 0 ts q" "ps = map tr_label ts" using trie_path [OF assms] by blast
  then show "weighted_accepts g ps w"
    using q(2) trie_path_weight [OF assms, of 0 ts q] unfolding weighted_accepts_def by force
qed

lemma follow_bound:
  assumes "wf_graph g" shows "s < length (state_vector g) \<Longrightarrow> follow g s ps = Some t \<Longrightarrow> t < length (state_vector g)"
proof (induction ps arbitrary: s)
  case (Cons p ps)
  then obtain u where u: "trie_step g s p = Some u" "follow g u ps = Some t" by (auto split: option.splits)
  from u(1) obtain tr where "tr \<in> set (transitions_of g s)" "tr_target tr = u"
    by (auto simp: trie_step_def dest: find_SomeD)
  then have "u < length (state_vector g)" using wf_graph_target [OF assms] by blast
  with Cons.IH u(2) show ?case by blast
qed simp

section \<open>Inserting a path\<close>

text \<open>A new state behind a state of the trie that has no transition with the pair.\<close>

definition grow :: "'w::zero hbt \<Rightarrow> nat \<Rightarrow> string_pair \<Rightarrow> 'w hbt" where
  "grow g s p = add_transition s \<lparr>tr_target = length (state_vector g), tr_input = fst p,
     tr_output = snd p, tr_weight = 0\<rparr> True (snd (add_new_state g))"

lemma grow_simps:
  "length (state_vector (grow g s p)) = max (Suc (length (state_vector g))) (Suc s)"
  "final_weight_map (grow g s p) = final_weight_map g"
  "transitions_of (grow g s p) t = (if t = s then transitions_of g s @
      [\<lparr>tr_target = length (state_vector g), tr_input = fst p, tr_output = snd p, tr_weight = 0\<rparr>]
    else transitions_of g t)"
proof -
  have a: "transitions_of (snd (add_new_state g)) = transitions_of g"
    "final_weight_map (snd (add_new_state g)) = final_weight_map g"
    "length (state_vector (snd (add_new_state g))) = Suc (length (state_vector g))"
    by (auto simp: add_new_state_def Let_def transitions_of_def nth_append fun_eq_iff)
  show "length (state_vector (grow g s p)) = max (Suc (length (state_vector g))) (Suc s)"
    "final_weight_map (grow g s p) = final_weight_map g"
    "transitions_of (grow g s p) t = (if t = s then transitions_of g s @
      [\<lparr>tr_target = length (state_vector g), tr_input = fst p, tr_output = snd p, tr_weight = 0\<rparr>]
    else transitions_of g t)"
    by (simp_all add: grow_def add_transition_simps a)
qed

lemma wf_hbt_add_new_state: "wf_hbt g \<Longrightarrow> wf_hbt (snd (add_new_state g))"
proof -
  assume "wf_hbt g"
  then have g: "wf_graph g" "wf_alphabet g" by (simp_all add: wf_hbt_def)
  have a: "transitions_of (snd (add_new_state g)) = transitions_of g"
    by (auto simp: add_new_state_def Let_def transitions_of_def nth_append fun_eq_iff)
  have "dom (final_weight_map g) \<subseteq> {..<Suc (length (state_vector g))}"
    using g(1) unfolding wf_graph_iff by force
  then have "wf_graph (snd (add_new_state g))"
    by (intro wf_graph_more_states [OF g(1)]) (simp_all add: a, simp_all add: add_new_state_def)
  moreover have "wf_alphabet (snd (add_new_state g))"
    using g(2) unfolding wf_alphabet_iff a by (simp add: add_new_state_def Let_def)
  ultimately show ?thesis by (simp add: wf_hbt_def)
qed

lemma trie_step_grow:
  assumes "trie_step g s p = None"
  shows "trie_step (grow g s p) t x =
    (if t = s \<and> x = p then Some (length (state_vector g)) else trie_step g t x)"
proof -
  have none: "find (\<lambda>tr. tr_label tr = p) (transitions_of g s) = None"
    using assms by (simp add: trie_step_def label_pair)
  have app: "find P (xs @ [y]) = (case find P xs of Some z \<Rightarrow> Some z | None \<Rightarrow> if P y then Some y else None)"
    for P :: "'a transition \<Rightarrow> bool" and xs y by (induction xs) auto
  show ?thesis
    using none by (auto simp: trie_step_def grow_simps label_pair app tr_label_def split: option.splits)
qed

lemma follow_grow:
  assumes g: "trie_graph g" and pre: "follow g 0 pre = Some s" and none: "trie_step g s p = None"
  shows "follow (grow g s p) 0 qs =
    (if qs = pre @ [p] then Some (length (state_vector g)) else follow g 0 qs)"
proof (induction qs rule: rev_induct)
  case Nil
  then show ?case by simp
next
  case (snoc x xs)
  let ?n = "length (state_vector g)"
  have wf: "wf_graph g" using g by (simp add: trie_graph_def wf_hbt_def)
  then have n0: "0 < ?n" by (simp add: wf_graph_iff)
  have s: "s < ?n" using follow_bound [OF wf n0 pre] .
  have snoc: "follow h 0 (xs @ [x]) = Option.bind (follow h 0 xs) (\<lambda>t. trie_step h t x)" for h :: "'a hbt"
    by (cases "follow h 0 xs") (auto simp: follow_append split: option.splits)
  have nn: "trie_step (grow g s p) ?n x = None"
    using s by (simp add: trie_step_grow [OF none]) (simp add: trie_step_def transitions_of_def)
  show ?case
  proof (cases "xs = pre @ [p]")
    case True
    then have "follow g 0 xs = None" using pre none by (simp add: follow_append)
    then have "follow g 0 (xs @ [x]) = None" unfolding snoc by simp
    moreover have "follow (grow g s p) 0 (xs @ [x]) = None" unfolding snoc snoc.IH using True nn by simp
    moreover have "xs @ [x] \<noteq> pre @ [p]" using True by simp
    ultimately show ?thesis by simp
  next
    case False
    show ?thesis
    proof (cases "follow g 0 xs")
      case None
      then have "xs \<noteq> pre" using pre by auto
      with None False show ?thesis by (simp add: snoc snoc.IH)
    next
      case (Some t)
      have "t = s \<longleftrightarrow> xs = pre" using Some pre g unfolding trie_graph_def by auto
      with Some False show ?thesis by (auto simp: snoc snoc.IH trie_step_grow [OF none])
    qed
  qed
qed

lemma grow_trie:
  fixes g :: "'w::zero hbt"
  assumes g: "trie_graph g" and pre: "follow g 0 pre = Some s" and none: "trie_step g s p = None"
    and "fst p \<noteq> []" and "snd p \<noteq> []"
  shows "trie_graph (grow g s p)"
  unfolding trie_graph_def
proof (intro conjI allI impI ballI)
  have wf: "wf_hbt g" "wf_graph g" using g by (simp_all add: trie_graph_def wf_hbt_def)
  then have n0: "0 < length (state_vector g)" by (simp add: wf_graph_iff)
  show "wf_hbt (grow g s p)"
    unfolding grow_def using assms(4,5) by (intro wf_hbt_add_transition wf_hbt_add_new_state wf(1)) simp_all
  fix t
  show "distinct (map tr_label (transitions_of (grow g s p) t))"
    using g none unfolding trie_step_None
    by (auto simp: grow_simps trie_graph_def tr_label_def)
  show "tr_weight tr = 0" if "tr \<in> set (transitions_of (grow g s p) t)" for tr
    using that g by (auto simp: grow_simps trie_graph_def split: if_splits)
  have less: "follow g 0 qs = Some u \<Longrightarrow> u < length (state_vector g)" for qs u
    using follow_bound [OF wf(2) n0] by blast
  fix ps qs
  assume "follow (grow g s p) 0 ps = Some t" "follow (grow g s p) 0 qs = Some t"
  then show "ps = qs"
    using less [of ps t] less [of qs t] g unfolding follow_grow [OF g pre none] trie_graph_def
    by (auto split: if_splits)
qed

lemma disjunct_path_result:
  fixes g :: "'w::zero hbt"
  assumes "trie_graph g" and "follow g 0 pre = Some s" and "\<forall>p \<in> set spv. fst p \<noteq> [] \<and> snd p \<noteq> []"
  shows "\<exists>f g'. disjunct_path spv s g = Inr (f, g') \<and> trie_graph g' \<and>
     follow g' 0 (pre @ spv) = Some f \<and> final_weight_map g' = final_weight_map g \<and>
     (\<forall>qs t. follow g 0 qs = Some t \<longrightarrow> follow g' 0 qs = Some t) \<and>
     (\<forall>qs t. follow g' 0 qs = Some t \<longrightarrow> follow g 0 qs = Some t \<or> length (state_vector g) \<le> t)"
  using assms
proof (induction spv arbitrary: g pre s)
  case Nil
  then show ?case by simp
next
  case (Cons p spv)
  have wf: "wf_graph g" using Cons.prems(1) by (simp add: trie_graph_def wf_hbt_def)
  then have n0: "0 < length (state_vector g)" by (simp add: wf_graph_iff)
  have s: "s < length (state_vector g)" using follow_bound [OF wf n0 Cons.prems(2)] .
  then have find: "find (\<lambda>tr. tr_input tr = fst p \<and> tr_output tr = snd p) (state_vector g ! s) =
      find (\<lambda>tr. tr_input tr = fst p \<and> tr_output tr = snd p) (transitions_of g s)"
    by (simp add: transitions_of_def)
  show ?case
  proof (cases "trie_step g s p")
    case (Some u)
    then have "disjunct_path (p # spv) s g = disjunct_path spv u g"
      using s by (auto simp: find trie_step_def)
    moreover have "follow g 0 (pre @ [p]) = Some u" using Some Cons.prems(2) by (simp add: follow_append)
    ultimately show ?thesis using Cons.IH [OF Cons.prems(1), of "pre @ [p]" u] Cons.prems(3) by simp
  next
    case None
    let ?g = "grow g s p" and ?n = "length (state_vector g)"
    have p: "fst p \<noteq> []" "snd p \<noteq> []" using Cons.prems(3) by simp_all
    have "disjunct_path (p # spv) s g = disjunct_path spv ?n ?g"
      using None s p by (auto simp: find trie_step_def new_transition_def grow_def add_new_state_def)
    moreover have g': "trie_graph ?g" by (rule grow_trie [OF Cons.prems(1,2) None p])
    note fg = follow_grow [OF Cons.prems(1,2) None]
    have "follow ?g 0 (pre @ [p]) = Some ?n" by (simp add: fg)
    from Cons.IH [OF g' this] Cons.prems(3) obtain f g'' where
      h: "disjunct_path spv ?n ?g = Inr (f, g'')" "trie_graph g''" "follow g'' 0 (pre @ p # spv) = Some f"
        "final_weight_map g'' = final_weight_map ?g"
        "\<And>qs t. follow ?g 0 qs = Some t \<Longrightarrow> follow g'' 0 qs = Some t"
        "\<And>qs t. follow g'' 0 qs = Some t \<Longrightarrow> follow ?g 0 qs = Some t \<or> length (state_vector ?g) \<le> t"
      by auto
    have none: "follow g 0 (pre @ [p]) = None" using Cons.prems(2) None by (simp add: follow_append)
    have "follow g'' 0 qs = Some t" if "follow g 0 qs = Some t" for qs t
    proof -
      have "qs \<noteq> pre @ [p]" using that none by auto
      then show ?thesis using that h(5) [of qs t] by (simp add: fg)
    qed
    moreover have "follow g 0 qs = Some t \<or> ?n \<le> t" if "follow g'' 0 qs = Some t" for qs t
      using h(6) [OF that] by (auto simp: fg grow_simps split: if_splits)
    ultimately show ?thesis using h(1-4) by (auto simp: grow_simps)
  qed
qed

definition valid_path :: "string_pair list \<Rightarrow> bool" where
  "valid_path spv \<longleftrightarrow> (\<forall>p \<in> set spv. fst p \<noteq> [] \<and> snd p \<noteq> [])"

lemma set_final_weight_trie:
  "trie_graph g \<Longrightarrow> f < length (state_vector g) \<Longrightarrow>
     trie_graph (set_final_weight f w g) \<and> follow (set_final_weight f w g) = follow g"
proof -
  assume g: "trie_graph g" and "f < length (state_vector g)"
  have t: "transitions_of (set_final_weight f w g) = transitions_of g"
    by (simp add: fun_eq_iff set_final_weight_simps)
  then have "follow (set_final_weight f w g) = follow g" using follow_cong [OF t] by blast
  moreover have "wf_hbt (set_final_weight f w g)"
    using g by (intro wf_hbt_set_final_weight) (simp add: trie_graph_def)
  ultimately show ?thesis using g by (simp add: trie_graph_def t)
qed

lemma disjunct_entry:
  fixes g :: "'w::{linorder, zero} hbt"
  assumes g: "trie_graph g" and spv: "valid_path spv"
  shows "\<exists>g'. disjunct spv w g = Inr g' \<and> trie_graph g' \<and>
     (\<forall>ps. lexicon g' ps = (if ps = spv then Some (smaller (lexicon g spv) w) else lexicon g ps))"
proof -
  have wf: "wf_graph g" using g by (simp add: trie_graph_def wf_hbt_def)
  have "follow g 0 [] = Some 0" by simp
  from disjunct_path_result [OF g this, of spv] spv obtain f h where
    h: "disjunct_path spv 0 g = Inr (f, h)" "trie_graph h" "follow h 0 spv = Some f"
      "final_weight_map h = final_weight_map g"
      "\<And>qs t. follow g 0 qs = Some t \<Longrightarrow> follow h 0 qs = Some t"
      "\<And>qs t. follow h 0 qs = Some t \<Longrightarrow> follow g 0 qs = Some t \<or> length (state_vector g) \<le> t"
    unfolding valid_path_def by auto
  have wfh: "wf_graph h" using h(2) by (simp add: trie_graph_def wf_hbt_def)
  have f: "f < length (state_vector h)"
    using follow_bound [OF wfh _ h(3)] wfh by (simp add: wf_graph_iff)
  have old: "final_weight_map g t = None" if "length (state_vector g) \<le> t" for t
    using that wf unfolding wf_graph_iff by (meson domIff lessThan_iff not_le subsetD)
  have lex: "lexicon h qs = lexicon g qs" for qs
  proof (cases "follow g 0 qs")
    case (Some t)
    then show ?thesis using h(4,5) by (simp add: lexicon_def)
  next
    case None
    then have "final_weight_map g t = None" if "follow h 0 qs = Some t" for t
      using h(6) [OF that] old by auto
    with None show ?thesis by (cases "follow h 0 qs") (simp_all add: lexicon_def h(4))
  qed
  have at: "final_weight_map h f = lexicon g spv" using lex [of spv] h(3) by (simp add: lexicon_def)
  let ?s = "set_final_weight f w h"
  have s: "trie_graph ?s" "follow ?s = follow h" using set_final_weight_trie [OF h(2) f] by auto
  have inj: "follow h 0 qs = Some f \<longleftrightarrow> qs = spv" for qs using h(2,3) unfolding trie_graph_def by blast
  have set_lex: "lexicon ?s ps = (if ps = spv then Some w else lexicon g ps)" for ps
    using inj [of ps] lex [of ps, symmetric] h(3)
    by (cases "follow h 0 ps") (auto simp: lexicon_def s(2) set_final_weight_simps)
  show ?thesis
  proof (cases "lexicon g spv")
    case None
    then have "disjunct spv w g = Inr ?s" using h(1) at by (simp add: disjunct_def is_final_state_def)
    with s(1) set_lex None show ?thesis by auto
  next
    case (Some old_weight)
    then have d: "disjunct spv w g = (if old_weight < w then Inr h else Inr ?s)"
      using h(1) at f by (simp add: disjunct_def is_final_state_def get_final_weight_def get_max_state_def)
    show ?thesis
    proof (cases "old_weight < w")
      case True
      with d h(2) lex Some show ?thesis by auto
    next
      case False
      with d s(1) set_lex Some show ?thesis by auto
    qed
  qed
qed

interpretation lexicons: min_map valid_path "trie_graph :: 'w::{linorder, zero} hbt \<Rightarrow> bool"
  lexicon disjunct
  by unfold_locales (rule disjunct_entry)

lemma trie_new:
  "trie_graph (new_hbt :: 'w::zero hbt)" "lexicon (new_hbt :: 'w hbt) ps = None"
proof -
  have "follow (new_hbt :: 'w hbt) 0 ps = (if ps = [] then Some 0 else None)" for ps
    by (cases ps) (simp_all add: trie_step_def new_hbt_simps)
  then show "trie_graph (new_hbt :: 'w hbt)" "lexicon new_hbt ps = (None :: 'w option)"
    by (auto simp: trie_graph_def wf_hbt_new new_hbt_simps lexicon_def split: if_splits)
qed

section \<open>Properties\<close>

text \<open>C28. A lexicon built by disjuncting paths into an empty graph is a trie, and it accepts exactly
  the paths put in, each with the smallest of the weights it was put in with.\<close>

theorem lexicon_construction_correct:
  fixes es :: "(string_pair list \<times> 'w::{linorder, monoid_add}) list"
  assumes "\<forall>(spv, w) \<in> set es. \<forall>p \<in> set spv. fst p \<noteq> [] \<and> snd p \<noteq> []"
  shows "\<exists>g. rfold (\<lambda>(spv, w). disjunct spv w) es new_hbt = Inr g \<and> trie_graph g \<and>
     (\<forall>ps w. weighted_accepts g ps w \<longleftrightarrow>
        (ps, w) \<in> set es \<and> (\<forall>v. (ps, v) \<in> set es \<longrightarrow> w \<le> v))"
proof -
  have "\<forall>(spv, w) \<in> set es. valid_path spv" using assms by (auto simp: valid_path_def)
  from lexicons.insert_all [OF trie_new(1) this] obtain g where
    g: "rfold (\<lambda>(spv, w). disjunct spv w) es new_hbt = Inr g" "trie_graph g"
      "\<And>ps. lexicon g ps = (let ws = {w. (ps, w) \<in> set es} in if ws = {} then None else Some (Min ws))"
    by (auto simp: trie_new(2))
  have "weighted_accepts g ps w \<longleftrightarrow> (ps, w) \<in> set es \<and> (\<forall>v. (ps, v) \<in> set es \<longrightarrow> w \<le> v)" for ps w
  proof -
    let ?ws = "{w. (ps, w) \<in> set es}"
    have fin: "finite ?ws" by (rule finite_subset [of _ "snd ` set es"]) (auto intro: rev_image_eqI)
    have "lexicon g ps = Some w \<longleftrightarrow> ?ws \<noteq> {} \<and> Min ?ws = w" by (simp add: g(3) Let_def)
    also have "\<dots> \<longleftrightarrow> w \<in> ?ws \<and> (\<forall>v \<in> ?ws. w \<le> v)"
      using Min_eq_iff [OF fin, of w] by blast
    finally show ?thesis unfolding trie_accepts [OF g(2)] by blast
  qed
  with g(1,2) show ?thesis by blast
qed

lemma lexicon_construction_correct_witness:
  "\<exists>g. rfold (\<lambda>(spv, w). disjunct spv w)
       [([(''a'', ''b'')], 5), ([(''a'', ''b''), (''c'', ''c'')], 1), ([(''a'', ''b'')], 3 :: int)] new_hbt = Inr g \<and>
     weighted_accepts g [(''a'', ''b'')] 3"
proof -
  let ?es = "[([(''a'', ''b'')], 5), ([(''a'', ''b''), (''c'', ''c'')], 1), ([(''a'', ''b'')], 3 :: int)]"
  have "\<forall>(spv, w) \<in> set ?es. \<forall>p \<in> set spv. fst p \<noteq> [] \<and> snd p \<noteq> []" by simp
  from lexicon_construction_correct [OF this] show ?thesis by auto
qed

end
