(* ===== verification/TopologicalSort.thy ===== *)
theory TopologicalSort
  imports Rewriting
begin

text \<open>
  The topological sort of \<open>HfstBasicTransducer\<close> (\<open>HfstBasicTransducer.h\<close>, lines 856 to 909, and
  \<open>HfstBasicTransducer.cc\<close>, lines 3161 to 3285) and the lengths of paths computed from it. The
  sort goes from distance to distance and does not end when a cycle can be reached from the
  initial state; this is the value \<open>None\<close> of \<open>topsort\<close>. Distances are naturals: the code's
  \<open>int\<close> is enough for graphs of less than \<open>2^31\<close> states.
\<close>

section \<open>The operations\<close>

text \<open>\<open>distance_of_state\<close> has -1 for a state without distance; here it is \<open>None\<close>.\<close>

record topological_sort =
  distance_of_state :: "nat option list"
  states_at_distance :: "nat set list"

definition set_biggest_state_number :: "nat \<Rightarrow> topological_sort" where
  "set_biggest_state_number biggest_state_number =
     \<lparr>distance_of_state = replicate (biggest_state_number + 1) None, states_at_distance = []\<rparr>"

definition grow_to :: "nat \<Rightarrow> nat set list \<Rightarrow> nat set list" where
  "grow_to n xs = xs @ replicate (n - length xs) {}"

definition set_state_at_distance ::
  "nat \<Rightarrow> nat \<Rightarrow> bool \<Rightarrow> topological_sort \<Rightarrow> topological_sort result" where
  "set_state_at_distance state distance overwrite ts =
     (let sad = grow_to (distance + 1) (states_at_distance ts) in
      if state \<ge> length (distance_of_state ts) then Inl OutOfRange
      else let sad1 = (case distance_of_state ts ! state of
                 None \<Rightarrow> sad
               | Some previous_distance \<Rightarrow>
                   if previous_distance \<noteq> distance \<and> overwrite
                   then sad[previous_distance := sad ! previous_distance - {state}] else sad)
           in Inr (ts\<lparr>states_at_distance := sad1[distance := insert state (sad1 ! distance)],
                      distance_of_state := (distance_of_state ts)[state := Some distance]\<rparr>))"

text \<open>The loop here compares with the unsigned \<open>size() - 1\<close>, so nothing is added to an empty vector.\<close>

definition get_states_at_distance ::
  "nat \<Rightarrow> topological_sort \<Rightarrow> (nat set \<times> topological_sort) result" where
  "get_states_at_distance distance ts =
     (if states_at_distance ts = [] then Inl OutOfRange
      else let sad = grow_to (distance + 1) (states_at_distance ts)
           in Inr (sad ! distance, ts\<lparr>states_at_distance := sad\<rparr>))"

text \<open>The targets of the transitions of the states in a set, and whether there was any.\<close>

definition successors :: "'w hbt \<Rightarrow> nat list \<Rightarrow> bool \<times> nat set" where
  "successors g ss =
     fold (\<lambda>s (found, new). fold (\<lambda>tr (found, new). (True, insert (tr_target tr) new))
        (transitions_of g s) (found, new)) ss (False, {})"

partial_function (option) topsort_loop ::
  "'w hbt \<Rightarrow> bool \<Rightarrow> nat \<Rightarrow> topological_sort \<Rightarrow> topological_sort result option" where
  "topsort_loop g overwrite current_distance ts =
     (case get_states_at_distance current_distance ts of
        Inl e \<Rightarrow> Some (Inl e)
      | Inr (sts, ts1) \<Rightarrow>
      if \<exists>s \<in> sts. s \<ge> length (state_vector g) then Some (Inl OutOfRange)
      else let (new_states_found, new_states) = successors g (sorted_list_of_set sts) in
        case rfold (\<lambda>s t. set_state_at_distance s (current_distance + 1) overwrite t)
            (sorted_list_of_set new_states) ts1 of
          Inl e \<Rightarrow> Some (Inl e)
        | Inr ts2 \<Rightarrow>
            if new_states_found then topsort_loop g overwrite (current_distance + 1) ts2
            else Some (Inr ts2))"

definition topsort :: "'w hbt \<Rightarrow> bool \<Rightarrow> nat set list result option" where
  "topsort g maximum_distance =
     (if length (state_vector g) = 0 then Some (Inr [])
      else case set_state_at_distance 0 0 maximum_distance
          (set_biggest_state_number (length (state_vector g) - 1)) of
        Inl e \<Rightarrow> Some (Inl e)
      | Inr ts \<Rightarrow> map_option (rmap states_at_distance) (topsort_loop g maximum_distance 0 ts))"

text \<open>The loops over the distances go down from the greatest.\<close>

definition longest_path_size :: "'w hbt \<Rightarrow> int result option" where
  "longest_path_size g =
     map_option (rmap (\<lambda>states_sorted.
       case find (\<lambda>d. list_ex (\<lambda>s. is_final_state s g) (sorted_list_of_set (states_sorted ! d)))
         (rev [0..<length states_sorted]) of
         Some d \<Rightarrow> int d | None \<Rightarrow> - 1)) (topsort g True)"

definition path_sizes :: "'w hbt \<Rightarrow> nat list result option" where
  "path_sizes g =
     map_option (rmap (\<lambda>states_sorted.
       filter (\<lambda>d. list_ex (\<lambda>s. is_final_state s g) (sorted_list_of_set (states_sorted ! d)))
         (rev [0..<length states_sorted]))) (topsort g False)"

section \<open>Walks\<close>

definition reached_in :: "'w hbt \<Rightarrow> nat \<Rightarrow> nat set" where
  "reached_in g k = {q. \<exists>ts. path g 0 ts q \<and> length ts = k}"

lemma reached_in_0 [simp]: "reached_in g 0 = {0}"
  by (auto simp: reached_in_def)

lemma reached_in_Suc:
  "reached_in g (Suc k) = {tr_target tr | tr s. s \<in> reached_in g k \<and> tr \<in> set (transitions_of g s)}"
proof (intro equalityI subsetI)
  fix q assume "q \<in> reached_in g (Suc k)"
  then obtain ts where ts: "path g 0 ts q" "length ts = Suc k" by (auto simp: reached_in_def)
  then obtain us t where "ts = us @ [t]" by (metis length_Suc_conv_rev)
  with ts show "q \<in> {tr_target tr | tr s. s \<in> reached_in g k \<and> tr \<in> set (transitions_of g s)}"
    by (auto simp: reached_in_def path_append)
next
  fix q assume "q \<in> {tr_target tr | tr s. s \<in> reached_in g k \<and> tr \<in> set (transitions_of g s)}"
  then obtain tr ts s where "path g 0 ts s" "length ts = k" "tr \<in> set (transitions_of g s)" "q = tr_target tr"
    by (auto simp: reached_in_def)
  then have "path g 0 (ts @ [tr]) q" "length (ts @ [tr]) = Suc k" by (auto simp: path_append)
  then show "q \<in> reached_in g (Suc k)" unfolding reached_in_def by blast
qed

lemma reached_in_empty: "reached_in g k = {} \<Longrightarrow> k \<le> m \<Longrightarrow> reached_in g m = {}"
  by (induction m) (auto simp: reached_in_Suc le_Suc_eq)

lemma reached_in_bound: "wf_graph g \<Longrightarrow> reached_in g k \<subseteq> {..<length (state_vector g)}"
  using path_bounds [of g 0] by (auto simp: reached_in_def wf_graph_iff)

lemma reached_in_finite [simp]: "wf_graph g \<Longrightarrow> finite (reached_in g k)"
  using reached_in_bound finite_subset by blast

lemma successors_eq:
  "successors g ss = ((\<exists>s \<in> set ss. transitions_of g s \<noteq> []),
     {tr_target tr | tr s. s \<in> set ss \<and> tr \<in> set (transitions_of g s)})"
proof -
  have inner: "fold (\<lambda>tr (found, new). (True, insert (tr_target tr) new)) trs (found, new) =
      (found \<or> trs \<noteq> [], new \<union> tr_target ` set trs)" for trs :: "'a transition list" and found new
    by (induction trs arbitrary: found new) auto
  have "fold (\<lambda>s (found, new). fold (\<lambda>tr (found, new). (True, insert (tr_target tr) new))
      (transitions_of g s) (found, new)) ss (found, new) =
      (found \<or> (\<exists>s \<in> set ss. transitions_of g s \<noteq> []),
       new \<union> {tr_target tr | tr s. s \<in> set ss \<and> tr \<in> set (transitions_of g s)})" for found new
    by (induction ss arbitrary: found new) (auto simp: inner)
  then show ?thesis by (simp add: successors_def)
qed

text \<open>Distances and levels seen as functions.\<close>

definition dist :: "topological_sort \<Rightarrow> nat \<Rightarrow> nat option" where
  "dist ts s = (if s < length (distance_of_state ts) then distance_of_state ts ! s else None)"

definition level :: "topological_sort \<Rightarrow> nat \<Rightarrow> nat set" where
  "level ts k = (if k < length (states_at_distance ts) then states_at_distance ts ! k else {})"

lemma grow_to_simps [simp]:
  "length (grow_to n xs) = max n (length xs)"
  "k < length (grow_to n xs) \<Longrightarrow> grow_to n xs ! k = (if k < length xs then xs ! k else {})"
  by (auto simp: grow_to_def nth_append)

lemma grow_to_same: "n \<le> length xs \<Longrightarrow> grow_to n xs = xs"
  by (simp add: grow_to_def)

lemma set_state_overwrite:
  assumes "s < length (distance_of_state ts)" and "length (states_at_distance ts) \<le> D + 1"
    and lev: "\<And>k. level ts k = {x. dist ts x = Some k}"
  shows "\<exists>ts'. set_state_at_distance s D True ts = Inr ts' \<and>
     length (distance_of_state ts') = length (distance_of_state ts) \<and>
     length (states_at_distance ts') = D + 1 \<and> dist ts' = (dist ts)(s := Some D) \<and>
     (\<forall>k. level ts' k = {x. dist ts' x = Some k})"
proof -
  let ?sad = "grow_to (D + 1) (states_at_distance ts)"
  have len: "length ?sad = D + 1" using assms(2) by simp
  have sad: "?sad ! k = {x. dist ts x = Some k}" if "k < D + 1" for k
    using that lev [of k] len by (auto simp: level_def)
  let ?sad1 = "case dist ts s of None \<Rightarrow> ?sad
    | Some p \<Rightarrow> if p \<noteq> D then ?sad[p := ?sad ! p - {s}] else ?sad"
  let ?ts = "ts\<lparr>states_at_distance := ?sad1[D := insert s (?sad1 ! D)],
    distance_of_state := (distance_of_state ts)[s := Some D]\<rparr>"
  have eq: "set_state_at_distance s D True ts = Inr ?ts"
    using assms(1) by (cases "distance_of_state ts ! s") (simp_all add: set_state_at_distance_def dist_def Let_def)
  have d: "dist ?ts = (dist ts)(s := Some D)" using assms(1) by (auto simp: dist_def fun_eq_iff)
  have len1: "length ?sad1 = D + 1" using len by (simp split: option.splits)
  have sad1: "?sad1 ! k = {x. dist ts x = Some k} - (if k \<noteq> D then {s} else {})" if k: "k < D + 1" for k
  proof (cases "dist ts s")
    case None
    with sad [OF k] show ?thesis by auto
  next
    case (Some p)
    then have "s \<in> level ts p" by (simp add: lev)
    then have "p < D + 1" using assms(2) by (auto simp: level_def split: if_splits)
    with Some sad k len show ?thesis by (auto simp: nth_list_update)
  qed
  have "level ?ts k = {x. dist ?ts x = Some k}" for k
  proof (cases "k < D + 1")
    case True
    then have "level ?ts k = (if k = D then insert s (?sad1 ! D) else ?sad1 ! k)"
      using len1 by (simp add: level_def nth_list_update)
    with sad1 [OF True] sad1 [of D] show ?thesis unfolding d by auto
  next
    case False
    then have "level ts k = {}" using assms(2) by (simp add: level_def)
    with lev [of k] False len1 show ?thesis unfolding d by (auto simp: level_def)
  qed
  with eq d len1 show ?thesis by simp
qed

lemma set_state_keep:
  assumes "s < length (distance_of_state ts)" and "length (states_at_distance ts) \<le> D + 1"
  shows "\<exists>ts'. set_state_at_distance s D False ts = Inr ts' \<and>
     length (distance_of_state ts') = length (distance_of_state ts) \<and>
     length (states_at_distance ts') = D + 1 \<and>
     (\<forall>k. level ts' k = (if k = D then insert s (level ts k) else level ts k))"
proof -
  let ?sad = "grow_to (D + 1) (states_at_distance ts)"
  let ?ts = "ts\<lparr>states_at_distance := ?sad[D := insert s (?sad ! D)],
    distance_of_state := (distance_of_state ts)[s := Some D]\<rparr>"
  have "set_state_at_distance s D False ts = Inr ?ts"
    using assms(1) by (cases "distance_of_state ts ! s") (simp_all add: set_state_at_distance_def Let_def)
  moreover have "level ?ts k = (if k = D then insert s (level ts k) else level ts k)" for k
    using assms(2) by (auto simp: level_def nth_list_update)
  ultimately show ?thesis using assms(2) by simp
qed

text \<open>Before distance \<open>d\<close> is gone through.\<close>

definition sort_inv :: "'w hbt \<Rightarrow> bool \<Rightarrow> nat \<Rightarrow> topological_sort \<Rightarrow> bool" where
  "sort_inv g b d ts \<longleftrightarrow>
     length (distance_of_state ts) = length (state_vector g) \<and> length (states_at_distance ts) = d + 1 \<and>
     (if b then (\<forall>k. level ts k = {x. dist ts x = Some k}) \<and>
        (\<forall>s k. dist ts s = Some k \<longleftrightarrow> k \<le> d \<and> s \<in> reached_in g k \<and> (\<forall>j. k < j \<longrightarrow> j \<le> d \<longrightarrow> s \<notin> reached_in g j))
      else (\<forall>k \<le> d. level ts k = reached_in g k))"

lemma set_states_loop:
  assumes "\<forall>s \<in> set ss. s < length (distance_of_state ts)" and "length (states_at_distance ts) \<le> D + 1"
    and "ss \<noteq> []" and "b \<Longrightarrow> \<forall>k. level ts k = {x. dist ts x = Some k}"
  shows "\<exists>ts'. rfold (\<lambda>s t. set_state_at_distance s D b t) ss ts = Inr ts' \<and>
     length (distance_of_state ts') = length (distance_of_state ts) \<and>
     length (states_at_distance ts') = D + 1 \<and>
     (if b then dist ts' = (\<lambda>s. if s \<in> set ss then Some D else dist ts s) \<and>
         (\<forall>k. level ts' k = {x. dist ts' x = Some k})
      else (\<forall>k. level ts' k = (if k = D then set ss \<union> level ts k else level ts k)))"
  using assms
proof (induction ss arbitrary: ts)
  case Nil
  then show ?case by simp
next
  case (Cons s ss)
  obtain ts1 where ts1: "set_state_at_distance s D b ts = Inr ts1"
    "length (distance_of_state ts1) = length (distance_of_state ts)"
    "length (states_at_distance ts1) = D + 1"
    "b \<Longrightarrow> dist ts1 = (dist ts)(s := Some D) \<and> (\<forall>k. level ts1 k = {x. dist ts1 x = Some k})"
    "\<not> b \<Longrightarrow> \<forall>k. level ts1 k = (if k = D then insert s (level ts k) else level ts k)"
  proof (cases b)
    case True
    with set_state_overwrite [of s ts D] Cons.prems that show ?thesis by auto
  next
    case False
    with set_state_keep [of s ts D] Cons.prems that show ?thesis by auto
  qed
  show ?case
  proof (cases "ss = []")
    case True
    with ts1 show ?thesis by (auto simp: fun_eq_iff)
  next
    case False
    with Cons.IH [of ts1] Cons.prems ts1 obtain ts' where
      ts': "rfold (\<lambda>s t. set_state_at_distance s D b t) ss ts1 = Inr ts'"
        "length (distance_of_state ts') = length (distance_of_state ts)"
        "length (states_at_distance ts') = D + 1"
        "if b then dist ts' = (\<lambda>s. if s \<in> set ss then Some D else dist ts1 s) \<and>
         (\<forall>k. level ts' k = {x. dist ts' x = Some k})
         else (\<forall>k. level ts' k = (if k = D then set ss \<union> level ts1 k else level ts1 k))" by auto
    with ts1 show ?thesis by (intro exI [of _ ts']) (auto simp: fun_eq_iff split: if_splits)
  qed
qed

text \<open>One round of the loop.\<close>

definition topsort_round :: "'w hbt \<Rightarrow> bool \<Rightarrow> nat \<Rightarrow> topological_sort \<Rightarrow> topological_sort" where
  "topsort_round g b d ts =
     projr (rfold (\<lambda>s t. set_state_at_distance s (d + 1) b t) (sorted_list_of_set (reached_in g (d + 1))) ts)"

lemma sort_inv_level: "sort_inv g b d ts \<Longrightarrow> level ts d = reached_in g d"
  unfolding sort_inv_def by (cases b) auto

lemma get_states_simp:
  assumes "sort_inv g b d ts"
  shows "get_states_at_distance d ts = Inr (reached_in g d, ts)"
proof -
  have len: "length (states_at_distance ts) = d + 1" using assms by (simp add: sort_inv_def)
  then have "grow_to (d + 1) (states_at_distance ts) = states_at_distance ts" by (simp add: grow_to_same)
  moreover have "states_at_distance ts ! d = reached_in g d"
    using sort_inv_level [OF assms] len by (simp add: level_def)
  moreover have "states_at_distance ts \<noteq> []" using len by auto
  ultimately show ?thesis by (simp add: get_states_at_distance_def Let_def)
qed

lemma topsort_round_ok:
  assumes wf: "wf_graph g" and inv: "sort_inv g b d ts" and ne: "reached_in g (d + 1) \<noteq> {}"
  shows "rfold (\<lambda>s t. set_state_at_distance s (d + 1) b t) (sorted_list_of_set (reached_in g (d + 1))) ts =
       Inr (topsort_round g b d ts) \<and> sort_inv g b (d + 1) (topsort_round g b d ts)"
proof -
  let ?R = "sorted_list_of_set (reached_in g (d + 1))"
  have R: "set ?R = reached_in g (d + 1)" using wf by simp
  have len: "length (distance_of_state ts) = length (state_vector g)"
    "length (states_at_distance ts) = d + 1" using inv by (simp_all add: sort_inv_def)
  have "\<forall>s \<in> set ?R. s < length (distance_of_state ts)"
    using reached_in_bound [OF wf] unfolding R len(1) by blast
  moreover have "?R \<noteq> []" using ne R by (metis list.set(1))
  moreover have "b \<Longrightarrow> \<forall>k. level ts k = {x. dist ts x = Some k}" using inv by (simp add: sort_inv_def)
  ultimately obtain ts' where
    ts': "rfold (\<lambda>s t. set_state_at_distance s (d + 1) b t) ?R ts = Inr ts'"
      "length (distance_of_state ts') = length (distance_of_state ts)"
      "length (states_at_distance ts') = d + 1 + 1"
      "if b then dist ts' = (\<lambda>s. if s \<in> set ?R then Some (d + 1) else dist ts s) \<and>
         (\<forall>k. level ts' k = {x. dist ts' x = Some k})
       else (\<forall>k. level ts' k = (if k = d + 1 then set ?R \<union> level ts k else level ts k))"
    using set_states_loop [of ?R ts "d + 1" b] len(2) by auto
  have "sort_inv g b (d + 1) ts'"
  proof (cases b)
    case True
    have old: "dist ts s = Some k \<longleftrightarrow>
        k \<le> d \<and> s \<in> reached_in g k \<and> (\<forall>j. k < j \<longrightarrow> j \<le> d \<longrightarrow> s \<notin> reached_in g j)" for s k
      using inv True by (simp add: sort_inv_def)
    have "dist ts' s = Some k \<longleftrightarrow> k \<le> d + 1 \<and> s \<in> reached_in g k \<and>
        (\<forall>j. k < j \<longrightarrow> j \<le> d + 1 \<longrightarrow> s \<notin> reached_in g j)" (is "_ \<longleftrightarrow> ?last k") for s k
    proof (cases "s \<in> reached_in g (d + 1)")
      case True
      then have "?last k \<longleftrightarrow> k = d + 1"
        by (metis add.commute le_neq_implies_less not_less order_refl)
      with True show ?thesis using ts'(4) \<open>b\<close> R by auto
    next
      case False
      have "?last k \<longleftrightarrow> k \<le> d \<and> s \<in> reached_in g k \<and> (\<forall>j. k < j \<longrightarrow> j \<le> d \<longrightarrow> s \<notin> reached_in g j)"
        using False by (metis Suc_eq_plus1 le_Suc_eq)
      moreover have "dist ts' s = dist ts s" using False ts'(4) \<open>b\<close> R by simp
      ultimately show ?thesis using old by (simp only:)
    qed
    with True ts' len show ?thesis by (simp add: sort_inv_def)
  next
    case False
    have old: "level ts k = reached_in g k" if "k \<le> d" for k using inv False that by (simp add: sort_inv_def)
    have "level ts (d + 1) = {}" using len(2) by (simp add: level_def)
    then have "level ts' k = reached_in g k" if "k \<le> d + 1" for k
      using ts'(4) False R old [of k] that by (auto simp: le_Suc_eq)
    with False ts' len show ?thesis by (simp add: sort_inv_def)
  qed
  with ts'(1) show ?thesis by (simp add: topsort_round_def)
qed

lemma successors_reached:
  assumes "wf_graph g"
  shows "successors g (sorted_list_of_set (reached_in g d)) = (reached_in g (d + 1) \<noteq> {}, reached_in g (d + 1))"
proof -
  have "(\<exists>s \<in> reached_in g d. transitions_of g s \<noteq> []) \<longleftrightarrow>
      (\<exists>s tr. s \<in> reached_in g d \<and> tr \<in> set (transitions_of g s))"
    by (metis list.set_intros(1) neq_Nil_conv empty_iff list.set(1))
  with assms show ?thesis by (auto simp: successors_eq reached_in_Suc)
qed

lemma topsort_body:
  assumes wf: "wf_graph g" and inv: "sort_inv g b d ts"
  shows "(case get_states_at_distance d ts of
        Inl e \<Rightarrow> Some (Inl e)
      | Inr (sts, ts1) \<Rightarrow>
      if \<exists>s \<in> sts. s \<ge> length (state_vector g) then Some (Inl OutOfRange)
      else let (new_states_found, new_states) = successors g (sorted_list_of_set sts) in
        case rfold (\<lambda>s t. set_state_at_distance s (d + 1) b t) (sorted_list_of_set new_states) ts1 of
          Inl e \<Rightarrow> Some (Inl e)
        | Inr ts2 \<Rightarrow> if new_states_found then loop g b (d + 1) ts2 else Some (Inr ts2)) =
    (if reached_in g (d + 1) = {} then Some (Inr ts) else loop g b (d + 1) (topsort_round g b d ts))"
proof -
  have ok: "\<not> (\<exists>s \<in> reached_in g d. s \<ge> length (state_vector g))" using reached_in_bound [OF wf] by fastforce
  show ?thesis
  proof (cases "reached_in g (d + 1) = {}")
    case True
    with ok successors_reached [OF wf, of d] show ?thesis by (simp add: get_states_simp [OF inv])
  next
    case False
    with topsort_round_ok [OF wf inv this] ok successors_reached [OF wf, of d] show ?thesis
      by (simp add: get_states_simp [OF inv])
  qed
qed

lemma topsort_loop_step:
  assumes wf: "wf_graph g" and inv: "sort_inv g b d ts"
  shows "topsort_loop g b d ts =
    (if reached_in g (d + 1) = {} then Some (Inr ts)
     else topsort_loop g b (d + 1) (topsort_round g b d ts))"
  by (subst topsort_loop.simps) (rule topsort_body [OF wf inv])

lemma topsort_loop_ends:
  assumes wf: "wf_graph g"
  shows "sort_inv g b d ts \<Longrightarrow> d \<le> D \<Longrightarrow> reached_in g D \<noteq> {} \<Longrightarrow> reached_in g (D + 1) = {} \<Longrightarrow>
     \<exists>ts'. topsort_loop g b d ts = Some (Inr ts') \<and> sort_inv g b D ts'"
proof (induction "D - d" arbitrary: d ts)
  case 0
  then show ?case by (simp add: topsort_loop_step [OF wf 0(2)])
next
  case (Suc n)
  then have le: "d + 1 \<le> D" and n: "n = D - (d + 1)" by simp_all
  from le Suc.prems(3) reached_in_empty [of g "d + 1" D] have ne: "reached_in g (d + 1) \<noteq> {}" by blast
  have "sort_inv g b (d + 1) (topsort_round g b d ts)" using topsort_round_ok [OF wf Suc.prems(1) ne] by blast
  from Suc.hyps(1) [OF n this le Suc.prems(3,4)] ne show ?case
    by (simp add: topsort_loop_step [OF wf Suc.prems(1)])
qed

lemma topsort_loop_returns:
  assumes "topsort_loop g b d ts = Some r" and "wf_graph g" and "sort_inv g b d ts"
  shows "\<exists>k. reached_in g k = {}"
proof -
  have "wf_graph g \<longrightarrow> sort_inv g b d ts \<longrightarrow> (\<exists>k. reached_in g k = {})"
  proof (rule topsort_loop.raw_induct [OF _ assms(1)], goal_cases)
    case (1 loop g b d ts r)
    show ?case
    proof (intro impI)
      assume wf: "wf_graph g" and inv: "sort_inv g b d ts"
      show "\<exists>k. reached_in g k = {}"
      proof (cases "reached_in g (d + 1) = {}")
        case False
        with 1(2) have "loop g b (d + 1) (topsort_round g b d ts) = Some r"
          unfolding topsort_body [OF wf inv] by simp
        from 1(1) [OF this] wf topsort_round_ok [OF wf inv False] show ?thesis by blast
      qed blast
    qed
  qed
  with assms(2,3) show ?thesis by blast
qed

section \<open>Cycles\<close>

definition reachable_cycle :: "'w hbt \<Rightarrow> bool" where
  "reachable_cycle g \<longleftrightarrow> (\<exists>p ts us. path g 0 us p \<and> ts \<noteq> [] \<and> path g p ts p)"

lemma path_end_unique: "path g p ts q \<Longrightarrow> path g p ts q' \<Longrightarrow> q = q'"
  by (induction ts arbitrary: p) auto

lemma path_repeated:
  assumes "path g p ts p"
  shows "path g p (concat (replicate n ts)) p"
  using assms by (induction n) (auto simp: path_append)

lemma path_visits:
  assumes "path g p ts q"
  obtains f where "f 0 = p" "\<And>i. i \<le> length ts \<Longrightarrow> path g p (take i ts) (f i)"
    "\<And>i j. i \<le> j \<Longrightarrow> j \<le> length ts \<Longrightarrow> path g (f i) (drop i (take j ts)) (f j)"
proof -
  have "\<exists>r. path g p (take i ts) r" for i
    using assms path_append [of g p "take i ts" "drop i ts" q] by (metis append_take_drop_id)
  then obtain f where f: "path g p (take i ts) (f i)" for i by metis
  have "path g (f i) (drop i (take j ts)) (f j)" if "i \<le> j" for i j
  proof -
    have "take j ts = take i ts @ drop i (take j ts)"
      using that by (metis append_take_drop_id min.absorb1 take_take)
    with f [of j] path_append obtain r where "path g p (take i ts) r" "path g r (drop i (take j ts)) (f j)"
      by metis
    with path_end_unique [OF f [of i]] show ?thesis by blast
  qed
  moreover from f [of 0] have "f 0 = p" by simp
  ultimately show thesis using that f by blast
qed

text \<open>A walk longer than the number of states visits a state twice.\<close>

lemma reachable_cycle_iff:
  assumes wf: "wf_graph g"
  shows "reachable_cycle g \<longleftrightarrow> (\<forall>k. reached_in g k \<noteq> {})"
proof
  assume "reachable_cycle g"
  then obtain p ts us where c: "path g 0 us p" "ts \<noteq> []" "path g p ts p" unfolding reachable_cycle_def by blast
  show "\<forall>k. reached_in g k \<noteq> {}"
  proof
    fix k
    let ?w = "us @ concat (replicate k ts)"
    have "path g 0 ?w p" using c path_repeated [OF c(3)] path_append by blast
    then have "reached_in g (length ?w) \<noteq> {}" unfolding reached_in_def by blast
    moreover have "k * 1 \<le> k * length ts" using c(2) by (intro mult_le_mono2) (simp add: Suc_le_eq)
    then have "k \<le> length us + k * length ts" by linarith
    then have "k \<le> length ?w" by (simp add: length_concat sum_list_replicate)
    ultimately show "reached_in g k \<noteq> {}" using reached_in_empty by blast
  qed
next
  let ?n = "length (state_vector g)"
  assume "\<forall>k. reached_in g k \<noteq> {}"
  then obtain ts q where ts: "path g 0 ts q" "length ts = ?n" unfolding reached_in_def by blast
  then obtain f where f: "\<And>i. i \<le> ?n \<Longrightarrow> path g 0 (take i ts) (f i)"
    "\<And>i j. i \<le> j \<Longrightarrow> j \<le> ?n \<Longrightarrow> path g (f i) (drop i (take j ts)) (f j)"
    using path_visits [OF ts(1)] by metis
  have "f i \<in> {..<?n}" if "i \<in> {..?n}" for i
    using f(1) [of i] that path_bounds [OF wf, of 0] wf by (auto simp: wf_graph_iff)
  then have "f ` {..?n} \<subseteq> {..<?n}" by blast
  then have "card (f ` {..?n}) < card {..?n}"
    using card_mono [of "{..<?n}" "f ` {..?n}"] by simp
  then have "\<not> inj_on f {..?n}" using card_image by force
  then obtain i j where ij: "i < j" "j \<le> ?n" "f i = f j"
    unfolding inj_on_def by (metis atMost_iff linorder_neqE_nat)
  have "drop i (take j ts) \<noteq> []" using ij ts(2) by simp
  with f(1) [of i] f(2) [of i j] ij show "reachable_cycle g"
    unfolding reachable_cycle_def by (metis less_imp_le order_trans)
qed

text \<open>The number of levels of a graph without a reachable cycle.\<close>

definition depth :: "'w hbt \<Rightarrow> nat" where
  "depth g = (LEAST k. reached_in g k = {})"

lemma depth_iff:
  assumes "wf_graph g" and "\<not> reachable_cycle g"
  shows "reached_in g k \<noteq> {} \<longleftrightarrow> k < depth g"
proof -
  obtain m where m: "reached_in g m = {}" using assms reachable_cycle_iff by blast
  then have d: "reached_in g (depth g) = {}" unfolding depth_def by (rule LeastI)
  show ?thesis
  proof
    assume "reached_in g k \<noteq> {}"
    with d reached_in_empty show "k < depth g" by (metis not_less)
  next
    assume "k < depth g"
    then show "reached_in g k \<noteq> {}" unfolding depth_def by (rule not_less_Least)
  qed
qed

lemma depth_pos:
  assumes "wf_graph g" and "\<not> reachable_cycle g"
  shows "depth g > 0"
  using depth_iff [OF assms, of 0] by simp

lemma sort_inv_start:
  assumes "wf_graph g"
  shows "\<exists>ts. set_state_at_distance 0 0 b (set_biggest_state_number (length (state_vector g) - 1)) = Inr ts \<and>
     sort_inv g b 0 ts"
proof -
  let ?ts = "set_biggest_state_number (length (state_vector g) - 1)"
  have n: "length (state_vector g) > 0" using assms by (simp add: wf_graph_def)
  have t: "length (distance_of_state ?ts) = length (state_vector g)" "length (states_at_distance ?ts) = 0"
    "dist ?ts = (\<lambda>_. None)" "level ?ts = (\<lambda>_. {})"
    using n by (auto simp: set_biggest_state_number_def dist_def level_def fun_eq_iff)
  show ?thesis
  proof (cases b)
    case True
    have "\<exists>ts. set_state_at_distance 0 0 True ?ts = Inr ts \<and>
       length (distance_of_state ts) = length (distance_of_state ?ts) \<and>
       length (states_at_distance ts) = 0 + 1 \<and> dist ts = (dist ?ts)(0 := Some 0) \<and>
       (\<forall>k. level ts k = {x. dist ts x = Some k})"
      using t n by (intro set_state_overwrite) simp_all
    then obtain ts where ts: "set_state_at_distance 0 0 True ?ts = Inr ts"
      "length (distance_of_state ts) = length (state_vector g)" "length (states_at_distance ts) = 1"
      "dist ts = (dist ?ts)(0 := Some 0)" "\<forall>k. level ts k = {x. dist ts x = Some k}"
      unfolding t(1) by (auto simp del: fun_upd_apply)
    then have "dist ts s = Some k \<longleftrightarrow> k \<le> 0 \<and> s \<in> reached_in g k \<and> (\<forall>j. k < j \<longrightarrow> j \<le> 0 \<longrightarrow> s \<notin> reached_in g j)" for s k
      unfolding ts(4) t(3) by auto
    with ts True show ?thesis by (simp add: sort_inv_def)
  next
    case False
    have "\<exists>ts. set_state_at_distance 0 0 False ?ts = Inr ts \<and>
       length (distance_of_state ts) = length (distance_of_state ?ts) \<and>
       length (states_at_distance ts) = 0 + 1 \<and>
       (\<forall>k. level ts k = (if k = 0 then insert 0 (level ?ts k) else level ?ts k))"
      using t n by (intro set_state_keep) simp_all
    then show ?thesis unfolding t(1,4) using False by (auto simp: sort_inv_def)
  qed
qed

text \<open>The levels of the sort: with overwriting a state is kept at its greatest distance only.\<close>

definition sorted_level :: "'w hbt \<Rightarrow> bool \<Rightarrow> nat \<Rightarrow> nat set" where
  "sorted_level g maximum_distance k =
     {s \<in> reached_in g k. maximum_distance \<longrightarrow> (\<forall>j > k. s \<notin> reached_in g j)}"

lemma sort_inv_levels:
  assumes "sort_inv g b D ts" and "\<And>j. j > D \<Longrightarrow> reached_in g j = {}"
  shows "states_at_distance ts = map (sorted_level g b) [0..<D + 1]"
proof (rule nth_equalityI)
  show len: "length (states_at_distance ts) = length (map (sorted_level g b) [0..<D + 1])"
    using assms(1) by (simp add: sort_inv_def)
  fix k assume "k < length (states_at_distance ts)"
  with len have k: "k < D + 1" by simp
  have "level ts k = sorted_level g b k"
  proof (cases b)
    case True
    have "s \<in> level ts k \<longleftrightarrow> k \<le> D \<and> s \<in> reached_in g k \<and> (\<forall>j. k < j \<longrightarrow> j \<le> D \<longrightarrow> s \<notin> reached_in g j)" for s
      using assms(1) True unfolding sort_inv_def by simp
    moreover have "s \<notin> reached_in g j" if "\<not> j \<le> D" for s j using assms(2) [of j] that by simp
    ultimately show ?thesis unfolding sorted_level_def using k True by auto
  next
    case False
    with assms(1) k show ?thesis unfolding sort_inv_def sorted_level_def by auto
  qed
  with k len show "states_at_distance ts ! k = map (sorted_level g b) [0..<D + 1] ! k"
    by (simp add: level_def nth_map_upt del: upt_Suc)
qed

lemma topsort_levels:
  assumes wf: "wf_graph g"
  shows "topsort g b = (if reachable_cycle g then None else Some (Inr (map (sorted_level g b) [0..<depth g])))"
proof -
  have n: "length (state_vector g) \<noteq> 0" using wf by (simp add: wf_graph_def)
  obtain ts where ts: "set_state_at_distance 0 0 b (set_biggest_state_number (length (state_vector g) - 1)) = Inr ts"
    "sort_inv g b 0 ts" using sort_inv_start [OF wf] by blast
  then have eq: "topsort g b = map_option (rmap states_at_distance) (topsort_loop g b 0 ts)"
    unfolding topsort_def using n by simp
  show ?thesis
  proof (cases "reachable_cycle g")
    case True
    then have "topsort_loop g b 0 ts \<noteq> Some r" for r
      using topsort_loop_returns [OF _ wf ts(2)] reachable_cycle_iff [OF wf] by blast
    with True eq show ?thesis by (cases "topsort_loop g b 0 ts") auto
  next
    case False
    note less = depth_iff [OF wf False]
    from depth_pos [OF wf False] obtain D where D: "depth g = D + 1" by (cases "depth g") auto
    have "reached_in g D \<noteq> {}" using less [of D] D by simp
    moreover have above: "reached_in g j = {}" if "j > D" for j using less [of j] D that by simp
    moreover from above have "reached_in g (D + 1) = {}" by simp
    ultimately obtain ts' where ts': "topsort_loop g b 0 ts = Some (Inr ts')" "sort_inv g b D ts'"
      using topsort_loop_ends [OF wf ts(2)] by blast
    from sort_inv_levels [OF ts'(2) above] ts'(1) eq False show ?thesis unfolding D by simp
  qed
qed

section \<open>Lengths of paths\<close>

definition accepted_lengths :: "'w hbt \<Rightarrow> nat set" where
  "accepted_lengths g = {length ts | ts q. path g 0 ts q \<and> is_final_state q g}"

lemma accepted_lengths_iff:
  "k \<in> accepted_lengths g \<longleftrightarrow> (\<exists>s \<in> reached_in g k. is_final_state s g)"
  by (auto simp: accepted_lengths_def reached_in_def)

lemma accepted_lengths_bound:
  assumes "wf_graph g" and "\<not> reachable_cycle g"
  shows "accepted_lengths g \<subseteq> {..<depth g}" and "finite (accepted_lengths g)"
proof -
  show "accepted_lengths g \<subseteq> {..<depth g}" using depth_iff [OF assms] accepted_lengths_iff [of _ g] by blast
  then show "finite (accepted_lengths g)" using finite_subset by blast
qed

lemma filter_upt: "filter P [0..<n] = sorted_list_of_set {k. k < n \<and> P k}"
proof -
  have "set (filter P [0..<n]) = {k. k < n \<and> P k}" by auto
  moreover have "sorted (filter P [0..<n])" "distinct (filter P [0..<n])" by (simp_all add: sorted_wrt_filter)
  ultimately show ?thesis by (metis sorted_list_of_set.idem_if_sorted_distinct)
qed

lemma find_rev_upt:
  assumes "\<And>d. d < n \<Longrightarrow> P d \<Longrightarrow> d \<in> A" and "finite A" and "A \<noteq> {} \<Longrightarrow> Max A < n \<and> P (Max A)"
  shows "find P (rev [0..<n]) = (if A = {} then None else Some (Max A))"
proof (cases "A = {}")
  case True
  with assms(1) show ?thesis by (auto simp: find_None_iff)
next
  case False
  have "find P (rev [0..<n]) = Some (Max A)" if "Max A < n" "P (Max A)" "\<And>d. d < n \<Longrightarrow> P d \<Longrightarrow> d \<le> Max A" for n
    using that
  proof (induction n)
    case (Suc n)
    show ?case
    proof (cases "n = Max A")
      case True
      with Suc.prems(2) show ?thesis by simp
    next
      case False
      with Suc.prems(1) Suc.prems(3) [of n] have n: "\<not> P n" by linarith
      from False Suc.prems(1) have "Max A < n" by simp
      from Suc.IH [OF this Suc.prems(2)] Suc.prems(3) n show ?thesis by simp
    qed
  qed simp
  with False assms show ?thesis by simp
qed

lemma list_ex_level:
  assumes "wf_graph g"
  shows "list_ex (\<lambda>s. is_final_state s g) (sorted_list_of_set (sorted_level g b d)) \<longleftrightarrow>
     (\<exists>s \<in> sorted_level g b d. is_final_state s g)"
proof -
  have "finite (sorted_level g b d)" using assms by (simp add: sorted_level_def)
  then show ?thesis by (simp add: list_ex_iff)
qed

lemma example_graph_levels:
  "reached_in example_graph 0 = {0}" "reached_in example_graph (Suc 0) = {1}"
  "reached_in example_graph (Suc (Suc k)) = {}"
proof -
  show r: "reached_in example_graph 0 = {0}" by simp
  show s: "reached_in example_graph (Suc 0) = {1}"
    by (subst reached_in_Suc) (simp add: example_graph_simps)
  have "reached_in example_graph (Suc (Suc 0)) = {}"
    by (subst reached_in_Suc, subst s) (simp add: example_graph_simps)
  then show "reached_in example_graph (Suc (Suc k)) = {}" by (rule reached_in_empty) simp
qed

lemma example_graph_acyclic: "\<not> reachable_cycle example_graph"
  using example_graph_wf example_graph_levels(3) by (auto simp: reachable_cycle_iff wf_hbt_def)

lemma example_graph_accepted: "accepted_lengths example_graph = {1}"
proof -
  have "k \<in> accepted_lengths example_graph \<longleftrightarrow> k = 1" for k
  proof (cases k)
    case (Suc j)
    then show ?thesis
      by (cases j) (auto simp: accepted_lengths_iff example_graph_levels example_graph_simps is_final_state_def)
  qed (simp add: accepted_lengths_iff example_graph_simps is_final_state_def)
  then show ?thesis by blast
qed

section \<open>Properties\<close>

text \<open>C30. The topological sort of a well-formed graph returns exactly when no cycle can be reached from the initial state.
  Then it returns one set of states for every length of a path from the initial state. In the mode
  \<open>MaximumDistance\<close> the set at a distance holds the states for which it is the length of the longest path
  to them. In the mode called \<open>MinimumDistance\<close> it holds all states that some path of that length reaches, at
  minimum distance or not, since states are never taken away from a distance.\<close>

theorem topsort_correct:
  assumes "wf_graph g"
  shows "topsort g maximum_distance =
    (if reachable_cycle g then None
     else Some (Inr (map (\<lambda>k. {s \<in> reached_in g k. maximum_distance \<longrightarrow> (\<forall>j > k. s \<notin> reached_in g j)})
       [0..<LEAST k. reached_in g k = {}])))"
  using topsort_levels [OF assms] unfolding sorted_level_def depth_def .

theorem topsort_correct_witness: "\<exists>sad. topsort example_graph True = Some (Inr sad)"
  using topsort_correct [of example_graph True] example_graph_wf example_graph_acyclic by (simp add: wf_hbt_def)

text \<open>\<open>longest_path_size\<close> returns exactly when no cycle can be reached, and then it returns the
  length of the longest accepted path, or -1 when no path is accepted.\<close>

theorem longest_path_size_correct:
  assumes "wf_graph g"
  shows "longest_path_size g =
    (if reachable_cycle g then None
     else Some (Inr (if accepted_lengths g = {} then - 1 else int (Max (accepted_lengths g)))))"
proof (cases "reachable_cycle g")
  case False
  let ?P = "\<lambda>d. \<exists>s \<in> sorted_level g True d. is_final_state s g"
  let ?A = "accepted_lengths g"
  note bound = accepted_lengths_bound [OF assms False]
  have "Max ?A < depth g \<and> ?P (Max ?A)" if "?A \<noteq> {}"
  proof -
    have m: "Max ?A \<in> ?A" using Max_in bound(2) that by blast
    then obtain s where s: "s \<in> reached_in g (Max ?A)" "is_final_state s g" using accepted_lengths_iff by blast
    have "s \<notin> reached_in g j" if "j > Max ?A" for j
    proof
      assume "s \<in> reached_in g j"
      with s(2) have "j \<in> ?A" using accepted_lengths_iff by blast
      with Max_ge [OF bound(2)] that show False by fastforce
    qed
    with s m bound(1) show ?thesis by (auto simp: sorted_level_def)
  qed
  then have "find ?P (rev [0..<depth g]) = (if ?A = {} then None else Some (Max ?A))"
    using bound(2) by (intro find_rev_upt) (auto simp: sorted_level_def accepted_lengths_iff)
  moreover have "find (\<lambda>d. list_ex (\<lambda>s. is_final_state s g)
      (sorted_list_of_set (map (sorted_level g True) [0..<depth g] ! d))) (rev [0..<depth g]) =
      find ?P (rev [0..<depth g])"
    by (rule find_cong) (simp_all add: list_ex_level [OF assms])
  ultimately show ?thesis using False by (simp add: longest_path_size_def topsort_levels [OF assms])
qed (simp add: longest_path_size_def topsort_levels [OF assms])

theorem longest_path_size_correct_witness: "longest_path_size example_graph = Some (Inr 1)"
  using longest_path_size_correct [of example_graph] example_graph_wf example_graph_acyclic
  by (simp add: wf_hbt_def example_graph_accepted)

text \<open>\<open>path_sizes\<close> returns exactly when no cycle can be reached, and then it returns the lengths
  of all accepted paths, each once, in descending order.\<close>

theorem path_sizes_correct:
  assumes "wf_graph g"
  shows "path_sizes g =
    (if reachable_cycle g then None else Some (Inr (rev (sorted_list_of_set (accepted_lengths g)))))"
proof (cases "reachable_cycle g")
  case False
  let ?P = "\<lambda>d. \<exists>s \<in> sorted_level g False d. is_final_state s g"
  have "filter (\<lambda>d. list_ex (\<lambda>s. is_final_state s g)
      (sorted_list_of_set (map (sorted_level g False) [0..<depth g] ! d))) (rev [0..<depth g]) =
      filter ?P (rev [0..<depth g])"
    by (rule filter_cong) (simp_all add: list_ex_level [OF assms])
  also have "\<dots> = rev (sorted_list_of_set {k. k < depth g \<and> ?P k})" by (simp only: rev_filter [symmetric] filter_upt)
  also have "{k. k < depth g \<and> ?P k} = accepted_lengths g"
    using accepted_lengths_bound(1) [OF assms False] by (auto simp: sorted_level_def accepted_lengths_iff)
  finally show ?thesis using False by (simp add: path_sizes_def topsort_levels [OF assms])
qed (simp add: path_sizes_def topsort_levels [OF assms])

theorem path_sizes_correct_witness: "path_sizes example_graph = Some (Inr [1])"
  using path_sizes_correct [of example_graph] example_graph_wf example_graph_acyclic
  by (simp add: wf_hbt_def example_graph_accepted)

end
