(* ===== verification/Completion.thy ===== *)
theory Completion
  imports Substitution
begin

text \<open>
  Completion of an automaton and the removal of flag diacritics in \<open>HfstBasicTransducer\<close>
  (\<open>HfstBasicTransducer.cc\<close>, lines 3051 to 3158).
\<close>

section \<open>Completion\<close>

definition is_special_symbol :: "string \<Rightarrow> bool" where
  "is_special_symbol symbol =
     (if length symbol < 2 then False
      else symbol ! 0 = CHR ''@'' \<and> symbol ! 1 = CHR ''_'')"

text \<open>What the loop does for one state. The loop goes over the alphabet, which the transitions
  added do not change.\<close>

definition complete_state :: "nat \<Rightarrow> nat \<Rightarrow> 'w::zero hbt \<Rightarrow> 'w hbt result" where
  "complete_state failure_state current_state g =
     (let trs = state_vector g ! current_state in
      if list_ex (\<lambda>tr. tr_input tr \<noteq> tr_output tr) trs then Inl TransducersAreNotAutomataException
      else let symbols_present = fold (\<lambda>tr s. insert (tr_input tr) s) trs {}
           in rfold (\<lambda>a g. if a \<notin> symbols_present \<and> \<not> is_special_symbol a
                then rmap (\<lambda>tr. add_transition current_state tr True g) (new_transition failure_state a a 0)
                else Inr g) (sorted_list_of_set (alphabet g)) g)"

definition complete :: "'w::zero hbt \<Rightarrow> 'w hbt result" where
  "complete g =
     (let (failure_state, g1) = add_new_state g
      in rfold (complete_state failure_state) [0..<length (state_vector g1)] g1)"

section \<open>Flag diacritics\<close>

definition get_flags :: "'w hbt \<Rightarrow> string set" where
  "get_flags g =
     fold (\<lambda>a flags. if is_diacritic a then insert a flags else flags) (sorted_list_of_set (alphabet g)) {}"

definition purge_symbol :: "string \<Rightarrow> string \<Rightarrow> bool result" where
  "purge_symbol symbol flag =
     (if \<not> is_diacritic symbol then Inr False
      else if flag = [] then Inr True
      else rmap (\<lambda>feature. feature = flag) (get_feature symbol))"

definition flag_purge_body :: "string \<Rightarrow> ('w, string set) transition_body" where
  "flag_purge_body flag tr A =
     rbind (purge_symbol (tr_input tr) flag) (\<lambda>purge_input.
     rbind (if purge_input then Inr True else purge_symbol (tr_output tr) flag) (\<lambda>purge.
       if purge
       then rmap (\<lambda>tr'. (tr', [], A)) (new_transition (tr_target tr) internal_epsilon internal_epsilon (tr_weight tr))
       else Inr (tr, [], A)))"

definition flag_purge :: "string \<Rightarrow> 'w hbt \<Rightarrow> 'w hbt result" where
  "flag_purge flag g =
     rbind (edit_transitions (flag_purge_body flag) g) (\<lambda>g1.
     rmap (\<lambda>extra_symbols. remove_symbols_from_alphabet extra_symbols g1)
       (rfold (\<lambda>a extra. rmap (\<lambda>purge. if purge then insert a extra else extra) (purge_symbol a flag))
          (sorted_list_of_set (alphabet g1)) {}))"

section \<open>Lemmas\<close>

text \<open>The transitions that completion adds to a state.\<close>

definition missing_symbols :: "'w hbt \<Rightarrow> nat \<Rightarrow> string list" where
  "missing_symbols g s =
     filter (\<lambda>a. a \<notin> tr_input ` set (transitions_of g s) \<and> \<not> is_special_symbol a)
       (sorted_list_of_set (alphabet g))"

definition failing :: "nat \<Rightarrow> string \<Rightarrow> 'w::zero transition" where
  "failing failure_state a = \<lparr>tr_target = failure_state, tr_input = a, tr_output = a, tr_weight = 0\<rparr>"

definition non_automaton :: "'w transition list \<Rightarrow> bool" where
  "non_automaton trs \<longleftrightarrow> (\<exists>tr \<in> set trs. tr_input tr \<noteq> tr_output tr)"

lemma failing_simps [simp]:
  "tr_target (failing f a) = f" "tr_input (failing f a) = a" "tr_output (failing f a) = a"
  by (simp_all add: failing_def)

lemma present_symbols: "fold (\<lambda>tr s. insert (tr_input tr) s) trs A = tr_input ` set trs \<union> A"
  by (induction trs arbitrary: A) auto

lemma add_failing_loop:
  assumes "current < length (state_vector g)" and "f < length (state_vector g)"
    and "set as \<subseteq> alphabet g" and "[] \<notin> set as"
  shows "\<exists>g'. rfold (\<lambda>a g. if P a
         then rmap (\<lambda>tr. add_transition current tr True g) (new_transition f a a 0) else Inr g) as g = Inr g' \<and>
     length (state_vector g') = length (state_vector g) \<and> final_weight_map g' = final_weight_map g \<and>
     alphabet g' = alphabet g \<and>
     transitions_of g' = (transitions_of g)(current := transitions_of g current @ map (failing f) (filter P as))"
  using assms
proof (induction as arbitrary: g)
  case Nil
  then show ?case by simp
next
  case (Cons a as)
  show ?case
  proof (cases "P a")
    case False
    with Cons show ?thesis by simp
  next
    case True
    let ?h = "add_transition current (failing f a) True g"
    have a: "alphabet ?h = alphabet g" using Cons.prems by (auto simp: add_transition_simps)
    have l: "length (state_vector ?h) = length (state_vector g)"
      using Cons.prems by (simp add: add_transition_simps)
    have "current < length (state_vector ?h)" "f < length (state_vector ?h)" "set as \<subseteq> alphabet ?h" "[] \<notin> set as"
      using Cons.prems unfolding a l by auto
    from Cons.IH [OF this] obtain g' where g': "rfold (\<lambda>a g. if P a
         then rmap (\<lambda>tr. add_transition current tr True g) (new_transition f a a 0) else Inr g) as ?h = Inr g'"
      "length (state_vector g') = length (state_vector ?h)" "final_weight_map g' = final_weight_map ?h"
      "alphabet g' = alphabet ?h"
      "transitions_of g' = (transitions_of ?h)(current := transitions_of ?h current @ map (failing f) (filter P as))"
      by blast
    have "new_transition f a a 0 = Inr (failing f a :: 'a transition)"
      using Cons.prems by (auto simp: new_transition_def failing_def)
    with g' True a l show ?thesis
      by (intro exI [of _ g']) (auto simp: add_transition_simps fun_eq_iff)
  qed
qed

lemma complete_state_result:
  assumes "current < length (state_vector g)" and "f < length (state_vector g)" and "wf_alphabet g"
  shows "if non_automaton (transitions_of g current)
     then complete_state f current g = Inl TransducersAreNotAutomataException
     else \<exists>g'. complete_state f current g = Inr g' \<and>
       length (state_vector g') = length (state_vector g) \<and> final_weight_map g' = final_weight_map g \<and>
       alphabet g' = alphabet g \<and>
       transitions_of g' = (transitions_of g)(current :=
         transitions_of g current @ map (failing f) (missing_symbols g current))"
proof (cases "non_automaton (transitions_of g current)")
  case True
  with assms(1) show ?thesis
    by (auto simp: complete_state_def non_automaton_def transitions_of_def list_ex_iff)
next
  case False
  let ?as = "sorted_list_of_set (alphabet g)"
  have t: "state_vector g ! current = transitions_of g current" using assms(1) by (simp add: transitions_of_def)
  have "set ?as \<subseteq> alphabet g" "[] \<notin> set ?as" using assms(3) by (auto simp: wf_alphabet_iff)
  from add_failing_loop [OF assms(1,2) this, of "\<lambda>a. a \<notin> tr_input ` set (transitions_of g current) \<and> \<not> is_special_symbol a"]
  show ?thesis using False unfolding complete_state_def missing_symbols_def t
    by (simp add: Let_def present_symbols non_automaton_def list_ex_iff)
qed

lemma wf_alphabet_add_failing:
  assumes "wf_alphabet g" and "alphabet h = alphabet g"
    and "\<And>s tr. tr \<in> set (transitions_of h s) \<Longrightarrow> tr \<in> set (transitions_of g s) \<or> (\<exists>a \<in> alphabet g. tr = failing f a)"
  shows "wf_alphabet h"
  unfolding wf_alphabet_iff using assms unfolding wf_alphabet_iff by (metis failing_simps(2,3))

text \<open>The loop over the states before state \<open>k\<close>.\<close>

lemma complete_loop:
  assumes "f < length (state_vector g)" and "wf_alphabet g" and "k \<le> length (state_vector g)"
  shows "if \<exists>s < k. non_automaton (transitions_of g s)
     then rfold (complete_state f) [0..<k] g = Inl TransducersAreNotAutomataException
     else \<exists>g'. rfold (complete_state f) [0..<k] g = Inr g' \<and>
       length (state_vector g') = length (state_vector g) \<and> final_weight_map g' = final_weight_map g \<and>
       alphabet g' = alphabet g \<and>
       transitions_of g' = (\<lambda>s. if s < k then transitions_of g s @ map (failing f) (missing_symbols g s)
         else transitions_of g s)"
  using assms(3)
proof (induction k)
  case 0
  then show ?case by simp
next
  case (Suc k)
  show ?case
  proof (cases "\<exists>s < k. non_automaton (transitions_of g s)")
    case True
    with Suc show ?thesis by (auto simp: rfold_append less_Suc_eq)
  next
    case False
    with Suc obtain h where h: "rfold (complete_state f) [0..<k] g = Inr h"
      "length (state_vector h) = length (state_vector g)" "final_weight_map h = final_weight_map g"
      "alphabet h = alphabet g"
      "transitions_of h = (\<lambda>s. if s < k then transitions_of g s @ map (failing f) (missing_symbols g s)
         else transitions_of g s)" by auto
    have "wf_alphabet h"
      using assms(2) h(4) unfolding wf_alphabet_iff h(5)
      by (auto simp: missing_symbols_def)
    moreover have k: "transitions_of h k = transitions_of g k" "missing_symbols h k = missing_symbols g k"
      by (simp_all add: h missing_symbols_def)
    moreover have "k < length (state_vector h)" "f < length (state_vector h)"
      using assms(1) Suc.prems by (simp_all add: h(2))
    ultimately have step: "if non_automaton (transitions_of g k)
       then complete_state f k h = Inl TransducersAreNotAutomataException
       else \<exists>g'. complete_state f k h = Inr g' \<and>
         length (state_vector g') = length (state_vector g) \<and> final_weight_map g' = final_weight_map g \<and>
         alphabet g' = alphabet g \<and>
         transitions_of g' = (transitions_of h)(k := transitions_of g k @ map (failing f) (missing_symbols g k))"
      using complete_state_result [of k h f] unfolding k h(2,3,4) by blast
    show ?thesis
    proof (cases "non_automaton (transitions_of g k)")
      case True
      with step h(1) show ?thesis by (auto simp: rfold_append less_Suc_eq)
    next
      case no: False
      with False have none: "\<not> (\<exists>s < Suc k. non_automaton (transitions_of g s))" by (auto simp: less_Suc_eq)
      from no step obtain g' where "complete_state f k h = Inr g'"
         "length (state_vector g') = length (state_vector g)" "final_weight_map g' = final_weight_map g"
         "alphabet g' = alphabet g"
         "transitions_of g' = (transitions_of h)(k := transitions_of g k @ map (failing f) (missing_symbols g k))"
        by auto
      with none h(1,5) show ?thesis by (auto simp: rfold_append fun_eq_iff less_Suc_eq)
    qed
  qed
qed

text \<open>The failure state only leads to itself, so that no accepting path goes through it.\<close>

lemma completed_path:
  assumes wf: "wf_graph g" and f: "f = length (state_vector g)"
    and t: "transitions_of h = (\<lambda>s. if s \<le> f then transitions_of g s @ map (failing f) (m s) else transitions_of g s)"
    and q: "q < f"
  shows "p \<noteq> f \<Longrightarrow> path h p ts q \<longleftrightarrow> path g p ts q" and "\<not> path h f ts q"
proof -
  have out: "transitions_of g f = []" by (simp add: transitions_of_def f)
  show none: "\<not> path h f ts q" for ts
    by (induction ts) (use q in \<open>auto simp: t out\<close>)
  show "p \<noteq> f \<Longrightarrow> path h p ts q \<longleftrightarrow> path g p ts q"
  proof (induction ts arbitrary: p)
    case Nil
    then show ?case by simp
  next
    case (Cons tr ts)
    show ?case
    proof
      assume "path h p (tr # ts) q"
      then have tr: "tr \<in> set (transitions_of h p)" and rest: "path h (tr_target tr) ts q" by simp_all
      from rest none have "tr_target tr \<noteq> f" by blast
      with tr have "tr \<in> set (transitions_of g p)" by (auto simp: t split: if_splits)
      with Cons.IH [OF \<open>tr_target tr \<noteq> f\<close>] rest show "path g p (tr # ts) q" by simp
    next
      assume "path g p (tr # ts) q"
      then have tr: "tr \<in> set (transitions_of g p)" and rest: "path g (tr_target tr) ts q" by simp_all
      with wf_graph_target [OF wf tr] f have "tr_target tr \<noteq> f" by simp
      with Cons.IH [OF this] rest tr show "path h p (tr # ts) q" by (simp add: t)
    qed
  qed
qed

definition has_arc :: "'w hbt \<Rightarrow> nat \<Rightarrow> string \<Rightarrow> bool" where
  "has_arc g s a \<longleftrightarrow> (\<exists>tr \<in> set (transitions_of g s). tr_label tr = (a, a))"

lemma completed_arcs:
  assumes "finite (alphabet g)" and "a \<in> alphabet g" and "\<not> is_special_symbol a"
    and "\<not> non_automaton (transitions_of g s)"
    and "transitions_of h s = transitions_of g s @ map (failing f) (missing_symbols g s)"
  shows "has_arc h s a"
proof (cases "a \<in> tr_input ` set (transitions_of g s)")
  case True
  with assms(4,5) show ?thesis by (force simp: has_arc_def non_automaton_def tr_label_def)
next
  case False
  with assms(1-3) have "a \<in> set (missing_symbols g s)" by (simp add: missing_symbols_def)
  then have "failing f a \<in> set (transitions_of h s)" by (simp add: assms(5))
  then show ?thesis unfolding has_arc_def by (intro bexI [of _ "failing f a"]) (simp_all add: tr_label_def)
qed

lemma complete_cases:
  assumes "wf_alphabet g" and "n = length (state_vector g)"
  shows "if \<exists>s. non_automaton (transitions_of g s) then complete g = Inl TransducersAreNotAutomataException
     else \<exists>g'. complete g = Inr g' \<and> length (state_vector g') = Suc n \<and>
       final_weight_map g' = final_weight_map g \<and> alphabet g' = alphabet g \<and>
       transitions_of g' = (\<lambda>s. if s \<le> n then transitions_of g s @ map (failing n) (missing_symbols g s)
         else transitions_of g s)"
proof -
  let ?g1 = "snd (add_new_state g)"
  have wf: "wf_alphabet ?g1" using assms(1) unfolding wf_alphabet_iff by (simp add: add_new_state_simps)
  have m: "missing_symbols ?g1 = missing_symbols g"
    by (simp add: missing_symbols_def fun_eq_iff add_new_state_simps)
  have "complete g = rfold (complete_state n) [0..<Suc n] ?g1"
    by (cases "add_new_state g") (use add_new_state_simps [of g] in \<open>simp add: complete_def assms(2) del: upt_Suc\<close>)
  moreover have "(\<exists>s < Suc n. non_automaton (transitions_of g s)) \<longleftrightarrow> (\<exists>s. non_automaton (transitions_of g s))"
  proof -
    have "s < Suc n" if "non_automaton (transitions_of g s)" for s
      using that by (auto simp: transitions_of_def non_automaton_def assms(2) split: if_splits)
    then show ?thesis by blast
  qed
  moreover have b: "n < length (state_vector ?g1)" "Suc n \<le> length (state_vector ?g1)"
    by (simp_all add: add_new_state_simps assms(2))
  moreover note complete_loop [OF b(1) wf b(2), unfolded add_new_state_simps m assms(2)]
  ultimately show ?thesis unfolding assms(2) less_Suc_eq_le by (simp only: split: if_splits)
qed

text \<open>The symbols that are purged, and the transitions after it.\<close>

definition purges :: "string \<Rightarrow> string \<Rightarrow> bool" where
  "purges flag a \<longleftrightarrow> is_diacritic a \<and> (flag = [] \<or> get_feature a = Inr flag)"

definition purge_transition :: "string \<Rightarrow> 'w transition \<Rightarrow> 'w transition" where
  "purge_transition flag tr =
     (if purges flag (tr_input tr) \<or> purges flag (tr_output tr)
      then tr\<lparr>tr_input := internal_epsilon, tr_output := internal_epsilon\<rparr> else tr)"

definition purge_label :: "string \<Rightarrow> string_pair \<Rightarrow> string_pair" where
  "purge_label flag p =
     (if purges flag (fst p) \<or> purges flag (snd p) then (internal_epsilon, internal_epsilon) else p)"

lemma purge_symbol_eq: "purge_symbol a flag = Inr (purges flag a)"
proof (cases "is_diacritic a")
  case True
  then obtain f where "get_feature a = Inr f" using get_feature_diacritic by blast
  with True show ?thesis by (auto simp: purge_symbol_def purges_def)
qed (simp add: purge_symbol_def purges_def)

lemma special_not_purged: "is_special_symbol a \<Longrightarrow> \<not> purges flag a"
  by (auto simp: purges_def is_diacritic_iff is_special_symbol_def op_char_def split: if_splits)

lemma flag_purge_body_eq: "flag_purge_body flag tr A = Inr (purge_transition flag tr, [], A)"
  by (simp add: flag_purge_body_def purge_symbol_eq purge_transition_def new_transition_def internal_epsilon_def)

lemma collect_purged:
  "rfold (\<lambda>a extra. rmap (\<lambda>purge. if purge then insert a extra else extra) (purge_symbol a flag)) as E =
     Inr (E \<union> {a \<in> set as. purges flag a})"
  by (induction as arbitrary: E) (auto simp: purge_symbol_eq)

lemma flag_purge_result:
  assumes "finite (alphabet g)"
  shows "\<exists>g'. flag_purge flag g = Inr g' \<and> length (state_vector g') = length (state_vector g) \<and>
     final_weight_map g' = final_weight_map g \<and> alphabet g' = {a \<in> alphabet g. \<not> purges flag a} \<and>
     (\<forall>s. transitions_of g' s = map (purge_transition flag) (transitions_of g s))"
proof -
  let ?h = "g\<lparr>state_vector := map (map (purge_transition flag)) (state_vector g), alphabet := alphabet g\<rparr>"
  have "edit_states (flag_purge_body flag) (state_vector g) (alphabet g) =
      Inr (map (\<lambda>trs. map (purge_transition flag) trs @ concat (map (\<lambda>_. []) trs)) (state_vector g),
        fold (fold (\<lambda>_ A. A)) (state_vector g) (alphabet g))"
    by (intro edit_states_simple) (rule flag_purge_body_eq)
  moreover have "fold (fold (\<lambda>_ A. A)) sv A = A" for sv :: "'a transition list list" and A :: "string set"
    by (induction sv) (simp_all add: fold_invariant_set [where P = "\<lambda>x. x = A"])
  ultimately have "edit_transitions (flag_purge_body flag) g = Inr ?h" by (simp add: edit_transitions_def)
  then have eq: "flag_purge flag g = Inr (?h\<lparr>alphabet := alphabet g - {a \<in> alphabet g. purges flag a}\<rparr>)"
    using assms by (simp add: flag_purge_def collect_purged remove_symbols_eq)
  have "transitions_of (?h\<lparr>alphabet := A\<rparr>) s = map (purge_transition flag) (transitions_of g s)" for s A
    using transitions_of_mapped [where f = "map (purge_transition flag)" and g = g and A = A and s = s] by simp
  with eq assms show ?thesis by auto
qed

section \<open>Properties\<close>

text \<open>C10. Completion throws exactly when some transition has two different symbols; otherwise the
  graph stays well-formed with the same alphabet and one state more, accepts the same label
  sequences with the same weights, and every state has a transition for each symbol of the
  alphabet that does not begin with \<open>@_\<close>.\<close>

theorem complete_correct:
  assumes "wf_hbt g"
  shows "(if \<exists>s. \<exists>tr \<in> set (transitions_of g s). tr_input tr \<noteq> tr_output tr
      then complete g = Inl TransducersAreNotAutomataException
      else \<exists>g'. complete g = Inr g' \<and> wf_hbt g' \<and> alphabet g' = alphabet g \<and>
        length (state_vector g') = length (state_vector g) + 1 \<and>
        (\<forall>ps w. weighted_accepts g' ps w \<longleftrightarrow> weighted_accepts g ps w) \<and>
        (\<forall>s < length (state_vector g'). \<forall>a \<in> alphabet g'. \<not> is_special_symbol a \<longrightarrow>
           (\<exists>tr \<in> set (transitions_of g' s). tr_label tr = (a, a))))"
proof (cases "\<exists>s. non_automaton (transitions_of g s)")
  case True
  with complete_cases [OF _ refl, of g] assms show ?thesis
    by (auto simp: wf_hbt_def non_automaton_def)
next
  case False
  let ?n = "length (state_vector g)"
  have wf: "wf_graph g" "wf_alphabet g" using assms by (simp_all add: wf_hbt_def)
  from complete_cases [OF wf(2) refl] False obtain g' where g': "complete g = Inr g'"
    "length (state_vector g') = Suc ?n" "final_weight_map g' = final_weight_map g" "alphabet g' = alphabet g"
    "transitions_of g' = (\<lambda>s. if s \<le> ?n then transitions_of g s @ map (failing ?n) (missing_symbols g s)
       else transitions_of g s)" by auto
  have final: "q < ?n" if "final_weight_map g q = Some w" for q w
    using wf(1) that unfolding wf_graph_iff by auto
  have "0 < ?n" using wf(1) by (simp add: wf_graph_def)
  then have "path g' 0 ts q \<longleftrightarrow> path g 0 ts q" if "final_weight_map g q = Some w" for ts q w
    using completed_path(1) [OF wf(1) refl g'(5) final [OF that], of 0] by simp
  then have acc: "weighted_accepts g' ps w \<longleftrightarrow> weighted_accepts g ps w" for ps w
    unfolding weighted_accepts_def g'(3) by blast
  have new: "x \<in> set (transitions_of g s) \<or> (\<exists>a \<in> alphabet g. x = failing ?n a)"
    if "x \<in> set (transitions_of g' s)" for x s
    using that wf(2) by (auto simp: g'(5) missing_symbols_def wf_alphabet_iff split: if_splits)
  then have "wf_alphabet g'" using wf_alphabet_add_failing [OF wf(2) g'(4)] by blast
  moreover have "wf_graph g'"
  proof -
    have "wf_transition (Suc ?n) x" if "x \<in> set (transitions_of g' s)" for x s
    proof -
      have "wf_transition ?n x" if "x \<in> set (transitions_of g s)" using that wf(1) by (simp add: wf_graph_iff)
      moreover have "a \<noteq> []" if "a \<in> alphabet g" for a using that wf(2) by (auto simp: wf_alphabet_iff)
      ultimately show ?thesis using new [OF that] wf_transition_mono [of ?n x "Suc ?n"]
        by (auto simp: wf_transition_def)
    qed
    moreover have "state_vector g' \<noteq> []" using g'(2) by auto
    moreover have "dom (final_weight_map g') \<subseteq> {..<Suc ?n}" unfolding g'(3) using final by fastforce
    ultimately show ?thesis unfolding wf_graph_iff g'(2) by blast
  qed
  moreover have "has_arc g' s a" if "s < length (state_vector g')" "a \<in> alphabet g'" "\<not> is_special_symbol a" for s a
    using that False wf(2) by (intro completed_arcs [of g a s g' ?n]) (auto simp: g' wf_alphabet_iff)
  ultimately show ?thesis using False g' acc unfolding has_arc_def non_automaton_def by (simp add: wf_hbt_def)
qed

theorem complete_correct_witness:
  "\<exists>g'. complete (add_transition 0 \<lparr>tr_target = 0, tr_input = ''a'', tr_output = ''a'', tr_weight = 1\<rparr> True
       (new_hbt :: int hbt)) = Inr g' \<and> length (state_vector g') = 2"
proof -
  let ?g = "add_transition 0 \<lparr>tr_target = 0, tr_input = ''a'', tr_output = ''a'', tr_weight = 1\<rparr> True (new_hbt :: int hbt)"
  have "wf_hbt ?g" by (intro wf_hbt_intros) simp_all
  moreover have "\<not> (\<exists>s. \<exists>tr \<in> set (transitions_of ?g s). tr_input tr \<noteq> tr_output tr)"
    by (simp add: add_transition_simps new_hbt_simps)
  moreover have "length (state_vector ?g) = 1" by (simp add: add_transition_simps new_hbt_simps)
  ultimately show ?thesis using complete_correct [of ?g] by auto
qed

text \<open>C11. Purging a flag (or, for the empty name, all flags) always returns. Every transition with a
  flag diacritic of that name on either side becomes an epsilon transition with the same target and
  weight, every other transition stays as it is, their order and the final weights stay, and exactly these
  diacritics leave the alphabet; so the label sequences accepted with a weight are the old ones with
  the purged pairs replaced by epsilon pairs. When epsilon is in its alphabet (the code does not
  enter it) a well-formed graph stays well-formed.\<close>

theorem flag_purge_correct:
  fixes g :: "'w::monoid_add hbt"
  assumes "wf_hbt g"
  shows "\<exists>g'. flag_purge flag g = Inr g' \<and> (internal_epsilon \<in> alphabet g \<longrightarrow> wf_hbt g') \<and>
     (\<forall>s. transitions_of g' s =
        map (\<lambda>tr. if purges flag (tr_input tr) \<or> purges flag (tr_output tr)
                  then tr\<lparr>tr_input := internal_epsilon, tr_output := internal_epsilon\<rparr> else tr) (transitions_of g s)) \<and>
     length (state_vector g') = length (state_vector g) \<and> final_weight_map g' = final_weight_map g \<and>
     alphabet g' = alphabet g - {a. is_diacritic a \<and> (flag = [] \<or> get_feature a = Inr flag)} \<and>
     (flag = [] \<longrightarrow> get_flags g' = {}) \<and>
     (\<forall>ps w. weighted_accepts g' ps w \<longleftrightarrow> (\<exists>qs. weighted_accepts g qs w \<and> ps = map (purge_label flag) qs))"
proof -
  have wf: "wf_graph g" "wf_alphabet g" using assms(1) by (simp_all add: wf_hbt_def)
  then have fin: "finite (alphabet g)" by (simp add: wf_alphabet_iff)
  from flag_purge_result [OF fin] obtain g' where g': "flag_purge flag g = Inr g'"
    "length (state_vector g') = length (state_vector g)" "final_weight_map g' = final_weight_map g"
    "alphabet g' = {a \<in> alphabet g. \<not> purges flag a}"
    "\<And>s. transitions_of g' s = map (purge_transition flag) (transitions_of g s)" by blast
  have "wf_hbt g'" if "internal_epsilon \<in> alphabet g"
  proof -
    have e: "internal_epsilon \<in> alphabet g'" "internal_epsilon \<noteq> []"
      using that special_not_purged [of internal_epsilon]
      by (simp_all add: g'(4) internal_epsilon_def is_special_symbol_def)
    have "wf_graph g'"
      using wf(1) e(2) by (intro wf_graph_mapped [OF wf(1) g'(5,2,3)])
        (auto simp: purge_transition_def wf_graph_iff wf_transition_def)
    moreover have "wf_alphabet g'"
      using wf(2) e fin by (intro wf_alphabet_mapped [OF g'(5)])
        (auto simp: purge_transition_def g'(4) wf_alphabet_iff)
    ultimately show ?thesis by (simp add: wf_hbt_def)
  qed
  moreover have "weighted_accepts g' ps w \<longleftrightarrow> (\<exists>qs. weighted_accepts g qs w \<and> ps = map (purge_label flag) qs)" for ps w
    by (rule weighted_accepts_mapped [OF g'(5) _ _ _ g'(3)]) (auto simp: purge_transition_def purge_label_def tr_label_def)
  moreover have "get_flags g' = {}" if "flag = []"
  proof -
    have "fold (\<lambda>a flags. if is_diacritic a then insert a flags else flags) as {} = {a \<in> set as. is_diacritic a}" for as
      using fold_insert_if [of is_diacritic as "{}"] by auto
    then show ?thesis using that fin by (auto simp: get_flags_def g'(4) purges_def)
  qed
  moreover have "alphabet g' = alphabet g - {a. is_diacritic a \<and> (flag = [] \<or> get_feature a = Inr flag)}"
    by (auto simp: g'(4) purges_def)
  moreover have "transitions_of g' s =
      map (\<lambda>tr. if purges flag (tr_input tr) \<or> purges flag (tr_output tr)
        then tr\<lparr>tr_input := internal_epsilon, tr_output := internal_epsilon\<rparr> else tr) (transitions_of g s)" for s
    using g'(5) [of s] unfolding purge_transition_def .
  ultimately show ?thesis using g'(1,2,3) by blast
qed

text \<open>A graph whose only transition sets the flag \<open>A\<close>.\<close>

definition flag_graph :: "int hbt" where
  "flag_graph = set_final_weight 1 2
     (add_transition 0 \<lparr>tr_target = 1, tr_input = ''@P.A.B@'', tr_output = ''@P.A.B@'', tr_weight = 3\<rparr> True new_hbt)"

theorem flag_purge_correct_witness:
  "\<exists>g'. flag_purge ''A'' flag_graph = Inr g' \<and> wf_hbt g' \<and>
     transitions_of g' 0 = [\<lparr>tr_target = 1, tr_input = internal_epsilon, tr_output = internal_epsilon, tr_weight = 3\<rparr>] \<and>
     final_weight_map g' 1 = Some 2 \<and> ''@P.A.B@'' \<notin> alphabet g'"
proof -
  have "wf_hbt flag_graph" unfolding flag_graph_def by (intro wf_hbt_intros) simp_all
  moreover have "transitions_of flag_graph 0 = [\<lparr>tr_target = 1, tr_input = ''@P.A.B@'', tr_output = ''@P.A.B@'', tr_weight = 3\<rparr>]"
    "final_weight_map flag_graph 1 = Some 2" "internal_epsilon \<in> alphabet flag_graph"
    by (simp_all add: flag_graph_def set_final_weight_simps add_transition_simps new_hbt_simps initialize_alphabet_def)
  moreover have "is_diacritic ''@P.A.B@''" "get_feature ''@P.A.B@'' = Inr ''A''"
    using flag_features [of "CHR ''P''" "''A''" "Some ''B''"] is_diacritic_make_flag [of "CHR ''P''" "''A''" "Some ''B''"]
    by (simp_all add: wf_flag_def op_char_def)
  ultimately show ?thesis using flag_purge_correct [of flag_graph "''A''"] by (auto simp: purges_def)
qed

end
