(* ===== verification/LookupFlags.thy ===== *)
theory LookupFlags
  imports Flags
begin

text \<open>
  The second flag engine of the library, \<open>FlagDiacriticTable\<close> of
  \<open>libhfst/src/HfstLookupFlagDiacritics.cc\<close>, which lookup with flags uses. Its static maps
  (operator, feature, value and has-value of every symbol seen so far) are the record
  \<open>flag_statics\<close>; its per-object maps and its sticky error flag are \<open>flag_table\<close>.
  \<open>std::map::operator[]\<close> on a missing key gives the default value (\<open>subscript\<close>).
\<close>

datatype diacritic_operator = Pop_op | Nop_op | Dop_op | Rop_op | Cop_op | Uop_op

record flag_statics =
  diacritic_operators :: "string \<rightharpoonup> diacritic_operator"
  diacritic_features :: "string \<rightharpoonup> string"
  diacritic_values :: "string \<rightharpoonup> string"
  diacritic_has_value :: "string \<rightharpoonup> bool"

record flag_table =
  feature_values :: "string \<rightharpoonup> string"
  feature_polarities :: "string \<rightharpoonup> bool"
  error_flag :: bool

definition empty_statics :: flag_statics where
  "empty_statics =
     \<lparr>diacritic_operators = Map.empty, diacritic_features = Map.empty,
      diacritic_values = Map.empty, diacritic_has_value = Map.empty\<rparr>"

definition new_flag_table :: flag_table where
  "new_flag_table =
     \<lparr>feature_values = Map.empty, feature_polarities = Map.empty, error_flag = False\<rparr>"

definition subscript :: "('k \<rightharpoonup> 'v) \<Rightarrow> 'k \<Rightarrow> 'v \<Rightarrow> 'v" where
  "subscript m k d = (case m k of None \<Rightarrow> d | Some v \<Rightarrow> v)"

definition is_genuine_diacritic :: "string \<Rightarrow> bool" where
  "is_genuine_diacritic s =
     (if length s < 5 then False
      else if s ! 2 \<noteq> CHR ''.'' then False
      else if s ! 0 \<noteq> CHR ''@'' then False
      else if s ! (length s - 1) \<noteq> CHR ''@'' then False
      else if \<not> (s ! 1 = CHR ''P'' \<or> s ! 1 = CHR ''N'' \<or> s ! 1 = CHR ''D'' \<or>
                 s ! 1 = CHR ''R'' \<or> s ! 1 = CHR ''C'' \<or> s ! 1 = CHR ''U'') then False
      else if str_find_last_of s (CHR ''.'') = Some 2 then
        (if s ! 1 \<noteq> CHR ''R'' \<and> s ! 1 \<noteq> CHR ''D'' \<and> s ! 1 \<noteq> CHR ''C'' then False else True)
      else True)"

definition operator_of_char :: "char \<Rightarrow> diacritic_operator result" where
  "operator_of_char c =
     (if c = CHR ''P'' then Inr Pop_op
      else if c = CHR ''N'' then Inr Nop_op
      else if c = CHR ''D'' then Inr Dop_op
      else if c = CHR ''R'' then Inr Rop_op
      else if c = CHR ''C'' then Inr Cop_op
      else if c = CHR ''U'' then Inr Uop_op
      else Inl AssertionFailed)"

definition split_diacritic :: "string \<Rightarrow> flag_statics \<Rightarrow> flag_statics result" where
  "split_diacritic s g =
     rbind (operator_of_char (s ! 1)) (\<lambda>opr.
       let g1 = g\<lparr>diacritic_operators := (diacritic_operators g)(s \<mapsto> opr)\<rparr>;
           last = length s - 1
       in case str_find s ''.'' 3 of
            None \<Rightarrow>
              if opr = Cop_op \<or> opr = Dop_op \<or> opr = Rop_op
              then rmap (\<lambda>feat. g1\<lparr>
                     diacritic_has_value := (diacritic_has_value g1)(s \<mapsto> False),
                     diacritic_features := (diacritic_features g1)(s \<mapsto> feat)\<rparr>)
                   (str_substr s 3 (last - 2 - 1))
              else Inl AssertionFailed
          | Some p \<Rightarrow>
              rbind (str_substr s 3 (p - 2 - 1)) (\<lambda>feat.
                rmap (\<lambda>val. g1\<lparr>
                    diacritic_has_value := (diacritic_has_value g1)(s \<mapsto> True),
                    diacritic_features := (diacritic_features g1)(s \<mapsto> feat),
                    diacritic_values := (diacritic_values g1)(s \<mapsto> val)\<rparr>)
                  (str_substr s (p + 1) (last - p - 1))))"

text \<open>\<open>is_diacritic\<close> is a test that also fills the static maps.\<close>

definition lookup_is_diacritic :: "string \<Rightarrow> flag_statics \<Rightarrow> (bool \<times> flag_statics) result" where
  "lookup_is_diacritic s g =
     (if is_genuine_diacritic s then rmap (\<lambda>g'. (True, g')) (split_diacritic s g)
      else Inr (False, g))"

definition set_positive_value :: "string \<Rightarrow> string \<Rightarrow> flag_table \<Rightarrow> flag_table" where
  "set_positive_value f v t =
     t\<lparr>feature_values := (feature_values t)(f \<mapsto> v),
       feature_polarities := (feature_polarities t)(f \<mapsto> True)\<rparr>"

definition set_negative_value :: "string \<Rightarrow> string \<Rightarrow> flag_table \<Rightarrow> flag_table" where
  "set_negative_value f v t =
     t\<lparr>feature_values := (feature_values t)(f \<mapsto> v),
       feature_polarities := (feature_polarities t)(f \<mapsto> False)\<rparr>"

definition disallow_value :: "string \<Rightarrow> string \<Rightarrow> flag_table \<Rightarrow> flag_table" where
  "disallow_value f v t =
     (if feature_values t f = None then t
      else if subscript (feature_values t) f [] = v
      then t\<lparr>error_flag := error_flag t \<or> subscript (feature_polarities t) f False\<rparr>
      else t)"

definition disallow :: "string \<Rightarrow> flag_table \<Rightarrow> flag_table" where
  "disallow f t = (if feature_values t f \<noteq> None then t\<lparr>error_flag := True\<rparr> else t)"

definition require_value :: "string \<Rightarrow> string \<Rightarrow> flag_table \<Rightarrow> flag_table" where
  "require_value f v t =
     (if feature_values t f = None then t\<lparr>error_flag := True\<rparr>
      else if subscript (feature_values t) f [] \<noteq> v then t\<lparr>error_flag := True\<rparr>
      else t\<lparr>error_flag := error_flag t \<or> \<not> subscript (feature_polarities t) f False\<rparr>)"

definition require :: "string \<Rightarrow> flag_table \<Rightarrow> flag_table" where
  "require f t = (if feature_values t f = None then t\<lparr>error_flag := True\<rparr> else t)"

definition unify :: "string \<Rightarrow> string \<Rightarrow> flag_table \<Rightarrow> flag_table" where
  "unify f v t =
     (let t' = (if feature_values t f = None then set_positive_value f v t
                else if subscript (feature_values t) f [] \<noteq> v
                then (if \<not> subscript (feature_polarities t) f False
                      then set_positive_value f v t else t)
                else t)
      in require_value f v t')"

definition clear :: "string \<Rightarrow> flag_table \<Rightarrow> flag_table" where
  "clear f t =
     t\<lparr>feature_values := (feature_values t)(f := None),
       feature_polarities := (feature_polarities t)(f := None)\<rparr>"

definition insert_symbol ::
  "string \<Rightarrow> flag_statics \<times> flag_table \<Rightarrow> (flag_statics \<times> flag_table) result" where
  "insert_symbol s gt =
     (let (g0, t) = gt in
      rbind (lookup_is_diacritic s g0) (\<lambda>(is, g).
        if \<not> is then Inr (g, t)
        else
          let f = subscript (diacritic_features g) s []; v = subscript (diacritic_values g) s [];
              valued = subscript (diacritic_has_value g) s False
          in Inr (g, case subscript (diacritic_operators g) s Pop_op of
               Pop_op \<Rightarrow> set_positive_value f v t
             | Nop_op \<Rightarrow> set_negative_value f v t
             | Dop_op \<Rightarrow> if \<not> valued then disallow f t else disallow_value f v t
             | Rop_op \<Rightarrow> if \<not> valued then require f t else require_value f v t
             | Cop_op \<Rightarrow> clear f t
             | Uop_op \<Rightarrow> unify f v t)))"

definition flags_fail :: "flag_table \<Rightarrow> bool" where
  "flags_fail t = error_flag t"

definition flags_reset :: "flag_table \<Rightarrow> flag_table" where
  "flags_reset t =
     t\<lparr>error_flag := False, feature_values := Map.empty, feature_polarities := Map.empty\<rparr>"

fun valid_symbols_loop ::
  "string list \<Rightarrow> flag_statics \<times> flag_table \<Rightarrow> (bool \<times> flag_statics \<times> flag_table) result" where
  "valid_symbols_loop [] gt = Inr (True, gt)"
| "valid_symbols_loop (x # xs) gt =
     rbind (insert_symbol x gt) (\<lambda>(g, t).
       if flags_fail t then Inr (False, g, t) else valid_symbols_loop xs (g, t))"

definition is_valid_symbols ::
  "string list \<Rightarrow> flag_statics \<times> flag_table \<Rightarrow> (bool \<times> flag_statics \<times> flag_table) result" where
  "is_valid_symbols xs gt = valid_symbols_loop xs (fst gt, flags_reset (snd gt))"

fun filter_diacritics :: "string list \<Rightarrow> flag_statics \<Rightarrow> (string list \<times> flag_statics) result" where
  "filter_diacritics [] g = Inr ([], g)"
| "filter_diacritics (x # xs) g =
     rbind (lookup_is_diacritic x g) (\<lambda>(is, g').
       rmap (\<lambda>(ys, g''). (if is then ys else x # ys, g'')) (filter_diacritics xs g'))"

section \<open>Agreement with FdOperation\<close>

lemma is_genuine_diacritic_eq: "is_genuine_diacritic s = is_diacritic s"
  by (simp add: is_genuine_diacritic_def is_diacritic_def)

fun operator_of_fd :: "fd_operator \<Rightarrow> diacritic_operator" where
  "operator_of_fd Pop = Pop_op"
| "operator_of_fd Nop = Nop_op"
| "operator_of_fd Rop = Rop_op"
| "operator_of_fd Dop = Dop_op"
| "operator_of_fd Cop = Cop_op"
| "operator_of_fd Uop = Uop_op"

lemma operator_of_char_fd:
  "char_to_operator c = Inr opr \<Longrightarrow> operator_of_char c = Inr (operator_of_fd opr)"
  by (auto simp: char_to_operator_def operator_of_char_def split: if_splits)

lemma split_diacritic_eq:
  assumes "wf_flag c f v" and "x = make_flag c f v" and "char_to_operator c = Inr opr"
  shows "split_diacritic x g = Inr (case v of
      None \<Rightarrow> g\<lparr>diacritic_operators := (diacritic_operators g)(x \<mapsto> operator_of_fd opr),
                diacritic_has_value := (diacritic_has_value g)(x \<mapsto> False),
                diacritic_features := (diacritic_features g)(x \<mapsto> f)\<rparr>
    | Some w \<Rightarrow> g\<lparr>diacritic_operators := (diacritic_operators g)(x \<mapsto> operator_of_fd opr),
                diacritic_has_value := (diacritic_has_value g)(x \<mapsto> True),
                diacritic_features := (diacritic_features g)(x \<mapsto> f),
                diacritic_values := (diacritic_values g)(x \<mapsto> w)\<rparr>)"
proof (cases v)
  case None
  have c: "x ! 1 = c" using assms(2) by (cases v) auto
  from None assms have "opr = Rop \<or> opr = Dop \<or> opr = Cop"
    by (auto simp: wf_flag_def dest: char_to_operator_unvalued)
  then have "operator_of_fd opr = Cop_op \<or> operator_of_fd opr = Dop_op \<or> operator_of_fd opr = Rop_op"
    by auto
  moreover have "str_substr x 3 (length x - 1 - 2 - 1) = Inr f"
    using None assms(2) by (simp add: str_substr_def)
  moreover have "str_find x ''.'' 3 = None"
    using None assms(1,2) find_second_stop_None [of f c] by (simp add: wf_flag_def)
  ultimately show ?thesis
    using None c operator_of_char_fd [OF assms(3)] by (simp add: split_diacritic_def Let_def)
next
  case (Some w)
  have c: "x ! 1 = c" using assms(2) by (cases v) auto
  have "str_find x ''.'' 3 = Some (3 + length f)"
    using Some assms(1,2) find_second_stop_Some [of f c w] by (simp add: wf_flag_def)
  moreover have "str_substr x 3 (3 + length f - 2 - 1) = Inr f"
    "str_substr x (3 + length f + 1) (length x - 1 - (3 + length f) - 1) = Inr w"
    using Some assms(2) by (simp_all add: str_substr_def eval_nat_numeral)
  ultimately show ?thesis
    using Some c operator_of_char_fd [OF assms(3)] by (simp add: split_diacritic_def Let_def)
qed

lemma split_diacritic_parts:
  assumes "wf_flag c f v" and "x = make_flag c f v" and "char_to_operator c = Inr opr"
  obtains g' where "split_diacritic x g = Inr g'"
    "diacritic_operators g' x = Some (operator_of_fd opr)" "diacritic_features g' x = Some f"
    "diacritic_has_value g' x = Some (v \<noteq> None)"
    "\<And>w. v = Some w \<Longrightarrow> diacritic_values g' x = Some w"
  by (rule that [OF split_diacritic_eq [OF assms]]) (simp_all split: option.split)

lemma lookup_is_diacritic_total: "\<exists>g'. lookup_is_diacritic x g = Inr (is_diacritic x, g')"
proof (cases "is_diacritic x")
  case True
  then obtain c f v where w: "wf_flag c f v" and x: "x = make_flag c f v"
    by (rule is_diacritic_cases)
  from w obtain opr where "char_to_operator c = Inr opr"
    by (auto simp: wf_flag_def dest: char_to_operator_op_char)
  from split_diacritic_eq [OF w x this, of g] obtain g' where "split_diacritic x g = Inr g'" ..
  with True show ?thesis by (simp add: lookup_is_diacritic_def is_genuine_diacritic_eq)
qed (simp add: lookup_is_diacritic_def is_genuine_diacritic_eq)

lemma insert_symbol_flag:
  assumes "is_diacritic x"
  obtains opr f v g' where "char_to_operator (x ! 1) = Inr opr" "get_feature x = Inr f"
    "get_value x = Inr (case v of None \<Rightarrow> [] | Some w \<Rightarrow> w)" "has_value x = (v \<noteq> None)"
    "v = None \<Longrightarrow> opr = Rop \<or> opr = Dop \<or> opr = Cop"
    "insert_symbol x (g, t) = Inr (g',
       case opr of
         Pop \<Rightarrow> set_positive_value f (the v) t
       | Nop \<Rightarrow> set_negative_value f (the v) t
       | Dop \<Rightarrow> (case v of None \<Rightarrow> disallow f t | Some w \<Rightarrow> disallow_value f w t)
       | Rop \<Rightarrow> (case v of None \<Rightarrow> require f t | Some w \<Rightarrow> require_value f w t)
       | Cop \<Rightarrow> clear f t
       | Uop \<Rightarrow> unify f (the v) t)"
proof -
  from assms obtain c f v where w: "wf_flag c f v" and x: "x = make_flag c f v"
    by (rule is_diacritic_cases)
  from w obtain opr where opr: "char_to_operator c = Inr opr"
    by (auto simp: wf_flag_def dest: char_to_operator_op_char)
  have c: "x ! 1 = c" using x by (cases v) auto
  from split_diacritic_parts [OF w x opr, of g] obtain g' where g': "split_diacritic x g = Inr g'"
    "diacritic_operators g' x = Some (operator_of_fd opr)" "diacritic_features g' x = Some f"
    "diacritic_has_value g' x = Some (v \<noteq> None)"
    "\<And>w. v = Some w \<Longrightarrow> diacritic_values g' x = Some w" by blast
  have unv: "v = None \<Longrightarrow> opr = Rop \<or> opr = Dop \<or> opr = Cop"
    using w opr by (auto simp: wf_flag_def dest: char_to_operator_unvalued)
  show thesis
  proof (rule that [of opr f v g'])
    show "char_to_operator (x ! 1) = Inr opr" using c opr by simp
    show "get_feature x = Inr f" "get_value x = Inr (case v of None \<Rightarrow> [] | Some w \<Rightarrow> w)"
      "has_value x = (v \<noteq> None)" using flag_features [OF w] x by auto
    show "v = None \<Longrightarrow> opr = Rop \<or> opr = Dop \<or> opr = Cop" by (rule unv)
  next
    show "insert_symbol x (g, t) = Inr (g',
       case opr of
         Pop \<Rightarrow> set_positive_value f (the v) t
       | Nop \<Rightarrow> set_negative_value f (the v) t
       | Dop \<Rightarrow> (case v of None \<Rightarrow> disallow f t | Some w \<Rightarrow> disallow_value f w t)
       | Rop \<Rightarrow> (case v of None \<Rightarrow> require f t | Some w \<Rightarrow> require_value f w t)
       | Cop \<Rightarrow> clear f t
       | Uop \<Rightarrow> unify f (the v) t)"
      using g' unv assms
      by (cases opr; cases v)
         (simp_all add: insert_symbol_def lookup_is_diacritic_def is_genuine_diacritic_eq
           Let_def subscript_def)
  qed
qed

definition table_rel :: "flag_statics \<times> flag_table \<Rightarrow> flag_env \<Rightarrow> bool" where
  "table_rel gt e \<longleftrightarrow>
     \<not> error_flag (snd gt) \<and> feature_values (snd gt) = (\<lambda>f. map_option snd (e f)) \<and>
     feature_polarities (snd gt) = (\<lambda>f. map_option fst (e f))"

definition table_step ::
  "string \<Rightarrow> flag_statics \<times> flag_table \<Rightarrow> (flag_statics \<times> flag_table) option" where
  "table_step x gt =
     (case insert_symbol x gt of
        Inl _ \<Rightarrow> None
      | Inr (g, t) \<Rightarrow> if flags_fail t then None else Some (g, t))"

lemmas table_operations = set_positive_value_def set_negative_value_def disallow_value_def
  disallow_def require_value_def require_def unify_def clear_def subscript_def Let_def

lemma table_step_spec:
  assumes "table_rel (g, t) e"
  shows "case flag_step x e of
           None \<Rightarrow> table_step x (g, t) = None
         | Some e' \<Rightarrow> \<exists>gt'. table_step x (g, t) = Some gt' \<and> table_rel gt' e'"
proof (cases "is_diacritic x")
  case False
  with assms show ?thesis
    by (simp add: flag_step_def table_step_def insert_symbol_def lookup_is_diacritic_def
        is_genuine_diacritic_eq flags_fail_def table_rel_def)
next
  case True
  then show ?thesis
  proof (rule insert_symbol_flag [of x g t])
    fix opr f v g'
    assume x: "char_to_operator (x ! 1) = Inr opr" "get_feature x = Inr f"
      "get_value x = Inr (case v of None \<Rightarrow> [] | Some w \<Rightarrow> w)" "has_value x = (v \<noteq> None)"
      and unv: "v = None \<Longrightarrow> opr = Rop \<or> opr = Dop \<or> opr = Cop"
      and ins: "insert_symbol x (g, t) = Inr (g',
       case opr of
         Pop \<Rightarrow> set_positive_value f (the v) t
       | Nop \<Rightarrow> set_negative_value f (the v) t
       | Dop \<Rightarrow> (case v of None \<Rightarrow> disallow f t | Some w \<Rightarrow> disallow_value f w t)
       | Rop \<Rightarrow> (case v of None \<Rightarrow> require f t | Some w \<Rightarrow> require_value f w t)
       | Cop \<Rightarrow> clear f t
       | Uop \<Rightarrow> unify f (the v) t)"
    have step: "flag_step x e = spec_flag opr f v e"
      using True x by (cases v) (simp_all add: flag_step_def)
    obtain r where r: "e f = r" by simp
    show ?thesis
      unfolding step
      by (cases opr; cases v; cases r)
         (use assms unv r in \<open>auto simp: table_step_def ins flags_fail_def table_rel_def
            table_operations fun_eq_iff\<close>)
  qed
qed

interpretation lookup_flags: flag_engine table_step table_rel "\<lambda>_ _. True"
proof
  fix s e x
  assume "table_rel s e" "flag_step x e = None"
  then show "table_step x s = None"
    using table_step_spec [of "fst s" "snd s" e x] by simp
next
  fix s e x e'
  assume "table_rel s e" "flag_step x e = Some e'"
  then show "\<exists>s'. table_step x s = Some s' \<and> table_rel s' e'"
    using table_step_spec [of "fst s" "snd s" e x] by simp
qed simp

lemma insert_symbol_total: "\<exists>g' t'. insert_symbol x (g, t) = Inr (g', t')"
proof (cases "is_diacritic x")
  case False
  then show ?thesis
    by (simp add: insert_symbol_def lookup_is_diacritic_def is_genuine_diacritic_eq)
next
  case True
  then show ?thesis by (rule insert_symbol_flag [of x g t]) blast
qed

lemma valid_symbols_loop_run:
  "\<exists>gt'. valid_symbols_loop xs gt = Inr (lookup_flags.run xs gt \<noteq> None, gt')"
proof (induction xs arbitrary: gt)
  case Nil
  then show ?case by simp
next
  case (Cons x xs)
  obtain g t where gt: "gt = (g, t)" by (cases gt)
  from insert_symbol_total obtain g' t' where ins: "insert_symbol x (g, t) = Inr (g', t')" by blast
  show ?case
  proof (cases "flags_fail t'")
    case True
    then have "table_step x gt = None" by (simp add: gt ins table_step_def)
    with True show ?thesis by (simp add: gt ins)
  next
    case False
    then have "table_step x gt = Some (g', t')" by (simp add: gt ins table_step_def)
    with False Cons.IH [of "(g', t')"] show ?thesis by (simp add: gt ins)
  qed
qed

lemma is_valid_symbols_flag_run:
  "\<exists>gt'. is_valid_symbols xs gt = Inr (flag_run xs Map.empty \<noteq> None, gt')"
proof -
  have "table_rel (fst gt, flags_reset (snd gt)) Map.empty"
    by (simp add: table_rel_def flags_reset_def)
  then have "(lookup_flags.run xs (fst gt, flags_reset (snd gt)) \<noteq> None) =
      (flag_run xs Map.empty \<noteq> None)"
    by (rule lookup_flags.run_iff_flag_run) simp
  with valid_symbols_loop_run [of xs "(fst gt, flags_reset (snd gt))"] show ?thesis
    by (simp add: is_valid_symbols_def)
qed

section \<open>Properties\<close>

text \<open>C4. The two flag engines of the library agree on every sequence whose flag diacritics are
  defined in a well-formed table and have no empty value: there \<open>FdState\<close> accepts exactly when
  \<open>FlagDiacriticTable::is_valid_string\<close> returns true, whatever the static maps and the table
  held before. With empty values they disagree (\<open>flag_engines_disagree\<close> below).\<close>

theorem flag_engines_agree:
  assumes "fd_table_ok t" and "\<forall>x \<in> set xs. fd_covers (new_fd_state t) x"
  shows "\<exists>gt'. is_valid_symbols xs gt = Inr (apply_all xs (new_fd_state t) \<noteq> None, gt')"
  using apply_all_iff_flag_run [OF assms] is_valid_symbols_flag_run [of xs gt] by simp

lemma flag_engines_agree_witness:
  "\<exists>gt'. is_valid_symbols [''@P.A.B@''] (empty_statics, new_flag_table) =
     Inr (apply_all [''@P.A.B@''] (new_fd_state example_table) \<noteq> None, gt')"
  by (rule flag_engines_agree [OF example_table_ok]) (simp add: example_table_covers)

text \<open>With an empty value they disagree: \<open>FdState\<close> stores the number 0 of the empty value and
  takes the feature for unset, \<open>FlagDiacriticTable\<close> stores the empty string and takes it for set.\<close>

definition empty_value_table :: "nat fd_table" where
  "empty_value_table = \<lparr>feature_map = [''A'' \<mapsto> 0], value_map = [[] \<mapsto> 0],
     operations = [7 \<mapsto> \<lparr>op_operator = Pop, op_feature = 0, op_value = 0, op_name = ''@P.A.@''\<rparr>,
       8 \<mapsto> \<lparr>op_operator = Rop, op_feature = 0, op_value = 0, op_name = ''@R.A@''\<rparr>],
     symbol_map = [''@P.A.@'' \<mapsto> 7, ''@R.A@'' \<mapsto> 8]\<rparr>"

lemma empty_value_table_defined:
  "rbind (define_diacritic 7 ''@P.A.@'' empty_fd_table) (define_diacritic 8 ''@R.A@'') = Inr empty_value_table"
  by (simp add: define_diacritic_def split_flag_def is_diacritic_def str_find_last_of_def
      char_to_operator_def str_find_def str_substr_def empty_fd_table_def size_t_to_ushort_def
      alloc_def next_value_def to_short_def empty_value_table_def Let_def)

theorem flag_engines_disagree:
  "apply_all [''@P.A.@'', ''@R.A@''] (new_fd_state empty_value_table) = None"
  "\<exists>gt'. is_valid_symbols [''@P.A.@'', ''@R.A@''] gt = Inr (True, gt')"
proof -
  show "apply_all [''@P.A.@'', ''@R.A@''] (new_fd_state empty_value_table) = None"
    by (simp add: apply_operation_str_def get_operation_str_def get_operation_def new_fd_state_def
        num_features_def empty_value_table_def apply_fd_operation_def set_value_def)
  have "flag_run [''@P.A.@'', ''@R.A@''] Map.empty \<noteq> None"
    using flag_features [of "CHR ''P''" "''A''" "Some []"] is_diacritic_make_flag [of "CHR ''P''" "''A''" "Some []"]
      flag_features [of "CHR ''R''" "''A''" None] is_diacritic_make_flag [of "CHR ''R''" "''A''" None]
    by (simp add: flag_step_def char_to_operator_def wf_flag_def op_char_def op_char_unvalued_def)
  then show "\<exists>gt'. is_valid_symbols [''@P.A.@'', ''@R.A@''] gt = Inr (True, gt')"
    using is_valid_symbols_flag_run [of "[''@P.A.@'', ''@R.A@'']" gt] by simp
qed

text \<open>\<open>filter_diacritics\<close> never fails and removes exactly the flag diacritics.\<close>

theorem filter_diacritics_correct:
  "\<exists>g'. filter_diacritics xs g = Inr (filter (\<lambda>x. \<not> is_diacritic x) xs, g')"
proof (induction xs arbitrary: g)
  case Nil
  then show ?case by simp
next
  case (Cons x xs)
  obtain g' where g': "lookup_is_diacritic x g = Inr (is_diacritic x, g')"
    using lookup_is_diacritic_total [of x g] by blast
  from Cons.IH [of g'] show ?case by (auto simp: g')
qed

end
