(* ===== verification/EpsilonHandler.thy ===== *)
theory EpsilonHandler
  imports Prelude
begin

text \<open>
  \<open>HfstEpsilonHandler\<close> (\<open>libhfst/src/HfstEpsilonHandler.cc\<close>): the path of states reached by
  input epsilons since the last consumed symbol, which lookup uses to bound the number of
  epsilon cycles it follows. \<open>can_continue\<close> is called on entry to a state and \<open>push_back\<close>
  before following an epsilon transition; the lemmas say that this protocol keeps the path
  free of repetitions and that at most \<open>max_cycles\<close> cycles are followed.
\<close>

record epsilon_handler =
  epsilon_path :: "nat list"
  max_cycles :: nat
  cycles :: nat

definition new_epsilon_handler :: "nat \<Rightarrow> epsilon_handler" where
  "new_epsilon_handler cutoff = \<lparr>epsilon_path = [], max_cycles = cutoff, cycles = 0\<rparr>"

definition eh_push_back :: "nat \<Rightarrow> epsilon_handler \<Rightarrow> epsilon_handler" where
  "eh_push_back s h =
     (if epsilon_path h \<noteq> [] then
        (if last (epsilon_path h) \<noteq> s then h\<lparr>epsilon_path := epsilon_path h @ [s]\<rparr> else h)
      else h\<lparr>epsilon_path := epsilon_path h @ [s]\<rparr>)"

definition eh_pop_back :: "epsilon_handler \<Rightarrow> epsilon_handler" where
  "eh_pop_back h =
     (if epsilon_path h \<noteq> [] then h\<lparr>epsilon_path := butlast (epsilon_path h)\<rparr> else h)"

text \<open>The path up to and including the first occurrence of \<open>s\<close>.\<close>

fun erase_after :: "nat \<Rightarrow> nat list \<Rightarrow> nat list option" where
  "erase_after s [] = None"
| "erase_after s (x # xs) = (if x = s then Some [x] else map_option ((#) x) (erase_after s xs))"

definition can_continue :: "nat \<Rightarrow> epsilon_handler \<Rightarrow> bool \<times> epsilon_handler" where
  "can_continue s h =
     (case erase_after s (epsilon_path h) of
        Some path \<Rightarrow>
          (let h' = h\<lparr>epsilon_path := path, cycles := cycles h + 1\<rparr>
           in if cycles h' > max_cycles h' then (False, h') else (True, h'))
      | None \<Rightarrow> (True, h))"

lemma erase_after_None: "erase_after s xs = None \<longleftrightarrow> s \<notin> set xs"
  by (induction xs) auto

lemma erase_after_Some:
  "erase_after s xs = Some ys \<Longrightarrow> \<exists>us vs. xs = us @ s # vs \<and> ys = us @ [s] \<and> s \<notin> set us"
proof (induction xs arbitrary: ys)
  case Nil
  then show ?case by simp
next
  case (Cons x xs)
  show ?case
  proof (cases "x = s")
    case True
    with Cons.prems show ?thesis by auto
  next
    case False
    with Cons obtain us vs where "xs = us @ s # vs" "ys = x # us @ [s]" "s \<notin> set us" by auto
    with False show ?thesis by (intro exI [of _ "x # us"] exI [of _ vs]) auto
  qed
qed

lemma can_continue_max [simp]: "max_cycles (snd (can_continue s h)) = max_cycles h"
  by (simp add: can_continue_def Let_def split: option.split)

lemma protocol_step:
  assumes "distinct (epsilon_path h)" and "can_continue s h = (ok, h1)" and "h2 = eh_push_back s h1"
  shows "distinct (epsilon_path h2) \<and> last (epsilon_path h2) = s \<and>
     set (epsilon_path h2) \<subseteq> insert s (set (epsilon_path h)) \<and>
     cycles h2 = cycles h + (if s \<in> set (epsilon_path h) then 1 else 0) \<and>
     (\<not> ok \<longleftrightarrow> s \<in> set (epsilon_path h) \<and> max_cycles h < cycles h + 1)"
proof (cases "erase_after s (epsilon_path h)")
  case None
  with assms show ?thesis
    by (auto simp: can_continue_def eh_push_back_def erase_after_None)
next
  case (Some path)
  from erase_after_Some [OF this] obtain us vs where
    path: "epsilon_path h = us @ s # vs" "path = us @ [s]" by blast
  with Some assms(2) have
    "h1 = h\<lparr>epsilon_path := us @ [s], cycles := cycles h + 1\<rparr>" "ok = (\<not> max_cycles h < cycles h + 1)"
    by (auto simp: can_continue_def Let_def split: if_splits)
  with path assms(1,3) show ?thesis by (auto simp: eh_push_back_def)
qed

lemma eh_push_back_again [simp]: "eh_push_back s (eh_push_back s h) = eh_push_back s h"
  by (auto simp: eh_push_back_def)

lemma eh_push_back_max [simp]: "max_cycles (eh_push_back s h) = max_cycles h"
  by (simp add: eh_push_back_def)

text \<open>\<open>can_continue\<close> followed by \<open>push_back\<close>, the way lookup enters a state, keeps the
  epsilon path free of repetitions and ending in the current state; the call counts exactly
  the entries that close a cycle, and refuses exactly when that count passes the bound.\<close>

theorem epsilon_path_protocol:
  assumes "distinct (epsilon_path h)" and "can_continue s h = (ok, h1)" and "h2 = eh_push_back s h1"
  shows "distinct (epsilon_path h2) \<and> last (epsilon_path h2) = s \<and>
     set (epsilon_path h2) \<subseteq> insert s (set (epsilon_path h)) \<and>
     cycles h2 = cycles h + (if s \<in> set (epsilon_path h) then 1 else 0) \<and>
     (\<not> ok \<longleftrightarrow> s \<in> set (epsilon_path h) \<and> max_cycles h < cycles h + 1)"
  using protocol_step [OF assms] .

lemma epsilon_path_protocol_witness:
  "distinct (epsilon_path (eh_push_back 1 (snd (can_continue 1
      \<lparr>epsilon_path = [0, 1, 2], max_cycles = 5, cycles = 0\<rparr>))))"
  using epsilon_path_protocol [of "\<lparr>epsilon_path = [0, 1, 2], max_cycles = 5, cycles = 0\<rparr>" 1,
      OF _ surjective_pairing refl] by simp

end
