(* ===== verification/EpsilonCycles.thy ===== *)
theory EpsilonCycles
  imports Rewriting
begin

text \<open>
  Two searches for cycles in \<open>HfstBasicTransducer\<close> (\<open>HfstBasicTransducer.cc\<close>, lines 3287 to 3404):
  a cycle of epsilon transitions with a negative weight, and a cycle of transitions that consume
  no input. The recursive functions change a map, or a set and a vector, that they share with
  their callers; both are partial functions on what is left to do, \<open>None\<close> for the call on a
  state and \<open>Some trs\<close> for its loop over the remaining transitions. Weights are those of an
  ordered group; rounding is not modelled.
\<close>

section \<open>The operations\<close>

definition epsilon_arc :: "'w transition \<Rightarrow> bool" where
  "epsilon_arc tr \<longleftrightarrow> is_epsilon (tr_input tr) \<and> is_epsilon (tr_output tr)"

partial_function (option) negative_from ::
  "'w::linordered_ab_group_add hbt \<Rightarrow> nat \<Rightarrow> 'w transition list option \<Rightarrow> 'w \<Rightarrow> (nat \<rightharpoonup> 'w) \<Rightarrow>
     (bool \<times> (nat \<rightharpoonup> 'w)) result option" where
  "negative_from g state todo total_weight state_weights = (case todo of
      None \<Rightarrow>
        (case state_weights state of
           Some w \<Rightarrow> Some (Inr (total_weight - w < 0, state_weights))
         | None \<Rightarrow> (case hbt_transitions state g of
             Inl e \<Rightarrow> Some (Inl e)
           | Inr trs \<Rightarrow> negative_from g state (Some trs) total_weight (state_weights(state \<mapsto> total_weight))))
    | Some trs \<Rightarrow> (case trs of
        [] \<Rightarrow> Some (Inr (False, state_weights(state := None)))
      | tr # rest \<Rightarrow>
          if epsilon_arc tr
          then Option.bind (negative_from g (tr_target tr) None (total_weight + tr_weight tr) state_weights)
            (\<lambda>r. case r of
               Inl e \<Rightarrow> Some (Inl e)
             | Inr (found, sw) \<Rightarrow>
                 if found then Some (Inr (True, sw)) else negative_from g state (Some rest) total_weight sw)
          else negative_from g state (Some rest) total_weight state_weights))"

text \<open>The loop of both functions over all states as starting points.\<close>

fun any_state :: "(nat \<Rightarrow> 'a \<Rightarrow> (bool \<times> 'a) result option) \<Rightarrow> nat list \<Rightarrow> 'a \<Rightarrow> bool result option" where
  "any_state f [] a = Some (Inr False)"
| "any_state f (s # ss) a =
     (case f s a of
        None \<Rightarrow> None
      | Some (Inl e) \<Rightarrow> Some (Inl e)
      | Some (Inr (found, a1)) \<Rightarrow> if found then Some (Inr True) else any_state f ss a1)"

definition has_negative_epsilon_cycles :: "'w::linordered_ab_group_add hbt \<Rightarrow> bool result option" where
  "has_negative_epsilon_cycles g =
     (if \<not> list_ex (list_ex (\<lambda>tr. epsilon_arc tr \<and> tr_weight tr < 0)) (state_vector g)
      then Some (Inr False)
      else any_state (\<lambda>s sw. negative_from g s None 0 sw) [0..<get_max_state g + 1] Map.empty)"

definition input_free :: "'w transition \<Rightarrow> bool" where
  "input_free tr \<longleftrightarrow> is_epsilon (tr_input tr) \<or> is_diacritic (tr_input tr)"

partial_function (option) ambiguous_from ::
  "'w hbt \<Rightarrow> nat \<Rightarrow> 'w transition list option \<Rightarrow> nat set \<times> bool list \<Rightarrow>
     (bool \<times> nat set \<times> bool list) result option" where
  "ambiguous_from g state todo ph = (case todo of
      None \<Rightarrow>
        if state \<ge> length (snd ph) then Some (Inl UndefinedBehaviour)
        else if snd ph ! state then Some (Inr (False, ph))
        else (case hbt_transitions state g of
            Inl e \<Rightarrow> Some (Inl e)
          | Inr trs \<Rightarrow> ambiguous_from g state (Some trs) ph)
    | Some trs \<Rightarrow> (case trs of
        [] \<Rightarrow> Some (Inr (False, fst ph, (snd ph)[state := True]))
      | tr # rest \<Rightarrow>
          if input_free tr
          then let epsilon_path_states = insert state (fst ph) in
            if tr_target tr \<in> epsilon_path_states then Some (Inr (True, epsilon_path_states, snd ph))
            else Option.bind (ambiguous_from g (tr_target tr) None (epsilon_path_states, snd ph))
              (\<lambda>r. case r of
                 Inl e \<Rightarrow> Some (Inl e)
               | Inr (found, ph1) \<Rightarrow>
                   if found then Some (Inr (True, ph1))
                   else ambiguous_from g state (Some rest) (fst ph1 - {state}, snd ph1))
          else ambiguous_from g state (Some rest) ph))"

definition is_infinitely_ambiguous :: "'w hbt \<Rightarrow> bool result option" where
  "is_infinitely_ambiguous g =
     (let max_state = get_max_state g
      in any_state (\<lambda>s ph. ambiguous_from g s None ph) [0..<max_state + 1]
           ({}, replicate (max_state + 1) False))"

section \<open>Cycles\<close>

text \<open>Paths of transitions that satisfy a condition.\<close>

definition cond_path :: "('w transition \<Rightarrow> bool) \<Rightarrow> 'w hbt \<Rightarrow> nat \<Rightarrow> 'w transition list \<Rightarrow> nat \<Rightarrow> bool" where
  "cond_path c g p ts q \<longleftrightarrow> path g p ts q \<and> (\<forall>tr \<in> set ts. c tr)"

lemma cond_path_simps [simp]:
  "cond_path c g p [] q \<longleftrightarrow> p = q"
  "cond_path c g p (tr # ts) q \<longleftrightarrow> tr \<in> set (transitions_of g p) \<and> c tr \<and> cond_path c g (tr_target tr) ts q"
  by (auto simp: cond_path_def)

lemma cond_path_append:
  "cond_path c g p (ts @ us) q \<longleftrightarrow> (\<exists>r. cond_path c g p ts r \<and> cond_path c g r us q)"
  by (auto simp: cond_path_def path_append)

fun sources :: "nat \<Rightarrow> 'w transition list \<Rightarrow> nat list" where
  "sources p [] = []"
| "sources p (tr # ts) = p # sources (tr_target tr) ts"

lemma length_sources [simp]: "length (sources p ts) = length ts"
  by (induction ts arbitrary: p) auto

lemma sources_split:
  "cond_path c g p ts q \<Longrightarrow> sources p ts = xs @ y # ys \<Longrightarrow>
     \<exists>us vs. ts = us @ vs \<and> cond_path c g p us y \<and> cond_path c g y vs q \<and> sources y vs = y # ys \<and>
       length us = length xs"
proof (induction xs arbitrary: p ts)
  case Nil
  then show ?case by (cases ts) auto
next
  case (Cons x xs)
  then obtain tr ts' where ts: "ts = tr # ts'" by (cases ts) auto
  with Cons.prems Cons.IH [of "tr_target tr" ts'] obtain us vs where
    "ts' = us @ vs" "cond_path c g (tr_target tr) us y" "cond_path c g y vs q"
    "sources y vs = y # ys" "length us = length xs" by auto
  with ts Cons.prems show ?case by (intro exI [of _ "tr # us"] exI [of _ vs]) auto
qed

text \<open>A cycle that meets a state twice can be cut into two.\<close>

lemma cycle_cut:
  assumes "cond_path c g p ts p" and "\<not> distinct (sources p ts)"
  obtains us vs ws y where "ts = us @ vs @ ws" "cond_path c g p (us @ ws) p" "cond_path c g y vs y"
    "vs \<noteq> []" "ws \<noteq> []"
proof -
  from not_distinct_decomp [OF assms(2)] obtain xs y ys zs where "sources p ts = xs @ y # (ys @ y # zs)" by auto
  from sources_split [OF assms(1) this] obtain us ts' where us: "ts = us @ ts'" "cond_path c g p us y"
    "cond_path c g y ts' p" "sources y ts' = (y # ys) @ y # zs" by auto
  from sources_split [OF us(3,4)] obtain vs ws where vs: "ts' = vs @ ws" "cond_path c g y vs y"
    "cond_path c g y ws p" "sources y ws = y # zs" "length vs = Suc (length ys)" by auto
  have "ws \<noteq> []" using vs(4) by auto
  moreover have "vs \<noteq> []" using vs(5) by auto
  ultimately show thesis using that us vs cond_path_append by metis
qed

section \<open>Negative cycles\<close>

text \<open>The walks that the search follows: to states without a weight, until one with a weight
  that is reached at a smaller one.\<close>

fun negative_walk ::
  "'w::linordered_ab_group_add hbt \<Rightarrow> (nat \<rightharpoonup> 'w) \<Rightarrow> nat \<Rightarrow> 'w \<Rightarrow> 'w transition list \<Rightarrow> bool" where
  "negative_walk g sw s w [] = (case sw s of Some v \<Rightarrow> w - v < 0 | None \<Rightarrow> False)"
| "negative_walk g sw s w (tr # ts) =
     (sw s = None \<and> tr \<in> set (transitions_of g s) \<and> epsilon_arc tr \<and>
      negative_walk g (sw(s \<mapsto> w)) (tr_target tr) (w + tr_weight tr) ts)"

lemma negative_walk_from:
  "sw s = None \<Longrightarrow> (\<exists>ts. negative_walk g sw s w ts) \<longleftrightarrow>
     (\<exists>tr \<in> set (transitions_of g s). epsilon_arc tr \<and>
        (\<exists>ts. negative_walk g (sw(s \<mapsto> w)) (tr_target tr) (w + tr_weight tr) ts))"
  (is "_ \<Longrightarrow> ?l \<longleftrightarrow> ?r")
proof
  assume "sw s = None" ?l
  then obtain ts where "negative_walk g sw s w ts" by blast
  with \<open>sw s = None\<close> show ?r by (cases ts) auto
next
  assume "sw s = None" ?r
  then obtain tr ts where "negative_walk g sw s w (tr # ts)" by auto
  then show ?l by blast
qed

lemma negative_loop:
  assumes trs: "\<And>tr. tr \<in> set trs \<Longrightarrow> epsilon_arc tr \<Longrightarrow>
      \<exists>b sw'. negative_from g (tr_target tr) None (w + tr_weight tr) sw = Some (Inr (b, sw')) \<and>
        (b \<longleftrightarrow> (\<exists>ts. negative_walk g sw (tr_target tr) (w + tr_weight tr) ts)) \<and> (\<not> b \<longrightarrow> sw' = sw)"
  shows "\<exists>b sw'. negative_from g s (Some trs) w sw = Some (Inr (b, sw')) \<and>
     (b \<longleftrightarrow> (\<exists>tr \<in> set trs. epsilon_arc tr \<and>
        (\<exists>ts. negative_walk g sw (tr_target tr) (w + tr_weight tr) ts))) \<and>
     (\<not> b \<longrightarrow> sw' = sw(s := None))"
  using assms
proof (induction trs)
  case Nil
  show ?case by (subst negative_from.simps) auto
next
  case (Cons tr trs)
  have "\<exists>b sw'. negative_from g s (Some trs) w sw = Some (Inr (b, sw')) \<and>
     (b \<longleftrightarrow> (\<exists>tr \<in> set trs. epsilon_arc tr \<and>
        (\<exists>ts. negative_walk g sw (tr_target tr) (w + tr_weight tr) ts))) \<and>
     (\<not> b \<longrightarrow> sw' = sw(s := None))"
    by (intro Cons.IH Cons.prems) simp_all
  then obtain b sw' where rest: "negative_from g s (Some trs) w sw = Some (Inr (b, sw'))"
     "b \<longleftrightarrow> (\<exists>tr \<in> set trs. epsilon_arc tr \<and> (\<exists>ts. negative_walk g sw (tr_target tr) (w + tr_weight tr) ts))"
     "\<not> b \<longrightarrow> sw' = sw(s := None)" by blast
  show ?case
  proof (cases "epsilon_arc tr")
    case False
    with rest show ?thesis by (subst negative_from.simps) simp
  next
    case True
    with Cons.prems [of tr] obtain c sw1 where
      "negative_from g (tr_target tr) None (w + tr_weight tr) sw = Some (Inr (c, sw1))"
      "c \<longleftrightarrow> (\<exists>ts. negative_walk g sw (tr_target tr) (w + tr_weight tr) ts)" "\<not> c \<longrightarrow> sw1 = sw" by auto
    with True rest show ?thesis by (subst negative_from.simps) (cases c, auto)
  qed
qed

lemma negative_from_result:
  assumes wf: "wf_graph g"
  shows "dom sw \<subseteq> {..<length (state_vector g)} \<Longrightarrow> s < length (state_vector g) \<Longrightarrow>
     \<exists>b sw'. negative_from g s None w sw = Some (Inr (b, sw')) \<and>
       (b \<longleftrightarrow> (\<exists>ts. negative_walk g sw s w ts)) \<and> (\<not> b \<longrightarrow> sw' = sw)"
proof (induction "card ({..<length (state_vector g)} - dom sw)" arbitrary: sw s w rule: less_induct)
  case less
  let ?n = "length (state_vector g)"
  show ?case
  proof (cases "sw s")
    case (Some v)
    then have "negative_walk g sw s w ts \<longleftrightarrow> ts = [] \<and> w - v < 0" for ts by (cases ts) auto
    with Some show ?thesis by (subst negative_from.simps) auto
  next
    case None
    let ?sw = "sw(s \<mapsto> w)"
    have "{..<?n} - dom ?sw \<subset> {..<?n} - dom sw" using None less.prems(2) by auto
    then have m: "card ({..<?n} - dom ?sw) < card ({..<?n} - dom sw)" by (intro psubset_card_mono) auto
    have "\<exists>b sw'. negative_from g s (Some (transitions_of g s)) w ?sw = Some (Inr (b, sw')) \<and>
       (b \<longleftrightarrow> (\<exists>tr \<in> set (transitions_of g s). epsilon_arc tr \<and>
          (\<exists>ts. negative_walk g ?sw (tr_target tr) (w + tr_weight tr) ts))) \<and>
       (\<not> b \<longrightarrow> sw' = ?sw(s := None))"
      using less.prems wf by (intro negative_loop less.hyps [OF m]) (auto intro: wf_graph_target)
    moreover have "hbt_transitions s g = Inr (transitions_of g s)"
      using less.prems(2) by (simp add: hbt_transitions_def transitions_of_def)
    moreover have "?sw(s := None) = sw" using None by auto
    ultimately show ?thesis using None negative_walk_from [of sw s g w, OF None]
      by (subst negative_from.simps) simp
  qed
qed

definition negative_cycle :: "'w::linordered_ab_group_add hbt \<Rightarrow> nat \<Rightarrow> 'w transition list \<Rightarrow> bool" where
  "negative_cycle g p ts \<longleftrightarrow> cond_path epsilon_arc g p ts p \<and> path_weight ts < 0"

text \<open>Every weight noted is that of a path to the current state.\<close>

lemma negative_walk_cycle:
  assumes "negative_walk g sw s w ts"
    and "\<And>q v. sw q = Some v \<Longrightarrow> \<exists>us. cond_path epsilon_arc g q us s \<and> v + path_weight us = w"
  shows "\<exists>p us. negative_cycle g p us"
  using assms
proof (induction ts arbitrary: sw s w)
  case Nil
  then obtain v where v: "sw s = Some v" "w - v < 0" by (auto split: option.splits)
  with Nil.prems(2) obtain us where us: "cond_path epsilon_arc g s us s" "v + path_weight us = w" by blast
  then have "w - v = path_weight us" by (simp add: algebra_simps)
  with v(2) have "path_weight us < 0" by simp
  with us(1) show ?case unfolding negative_cycle_def by blast
next
  case (Cons tr ts)
  then have tr: "tr \<in> set (transitions_of g s)" "epsilon_arc tr"
    and walk: "negative_walk g (sw(s \<mapsto> w)) (tr_target tr) (w + tr_weight tr) ts" by auto
  show ?case
  proof (rule Cons.IH [OF walk])
    fix q v assume q: "(sw(s \<mapsto> w)) q = Some v"
    show "\<exists>us. cond_path epsilon_arc g q us (tr_target tr) \<and> v + path_weight us = w + tr_weight tr"
    proof (cases "q = s")
      case True
      with q tr show ?thesis by (intro exI [of _ "[tr]"]) simp
    next
      case False
      with q Cons.prems(2) obtain us where "cond_path epsilon_arc g q us s" "v + path_weight us = w" by auto
      with tr show ?thesis by (intro exI [of _ "us @ [tr]"]) (auto simp: cond_path_append add.assoc [symmetric])
    qed
  qed
qed

lemma negative_walk_along:
  assumes "cond_path epsilon_arc g s ts q" and "distinct (sources s ts)"
    and "set (sources s ts) \<inter> dom sw = {}" and "sw q = Some v" and "w + path_weight ts - v < 0"
  shows "negative_walk g sw s w ts"
  using assms
proof (induction ts arbitrary: sw s w)
  case Nil
  then show ?case by simp
next
  case (Cons tr ts)
  have s: "s \<notin> dom sw" "s \<notin> set (sources (tr_target tr) ts)" using Cons.prems(2,3) by simp_all
  with Cons.prems(4) have "(sw(s \<mapsto> w)) q = Some v" by auto
  moreover have "dom (sw(s \<mapsto> w)) = insert s (dom sw)" by simp
  then have "set (sources (tr_target tr) ts) \<inter> dom (sw(s \<mapsto> w)) = {}" using Cons.prems(3) s(2) by simp
  moreover have "w + tr_weight tr + path_weight ts - v < 0" using Cons.prems(5) by (simp add: add.assoc)
  ultimately have "negative_walk g (sw(s \<mapsto> w)) (tr_target tr) (w + tr_weight tr) ts"
    using Cons.prems(1,2) by (intro Cons.IH [of "tr_target tr" "sw(s \<mapsto> w)" "w + tr_weight tr"]) (simp_all del: fun_upd_apply)
  with Cons.prems(1) s(1) show ?case by auto
qed

lemma simple_negative_cycle:
  assumes "negative_cycle g p ts"
  shows "\<exists>p ts. negative_cycle g p ts \<and> distinct (sources p ts)"
  using assms
proof (induction ts arbitrary: p rule: length_induct)
  case (1 ts)
  show ?case
  proof (cases "distinct (sources p ts)")
    case True
    with 1 show ?thesis by blast
  next
    case False
    have c: "cond_path epsilon_arc g p ts p" and w: "path_weight ts < 0"
      using 1(2) by (simp_all add: negative_cycle_def)
    from cycle_cut [OF c False] obtain us vs ws y where cut: "ts = us @ vs @ ws"
      "cond_path epsilon_arc g p (us @ ws) p" "cond_path epsilon_arc g y vs y" "vs \<noteq> []" "ws \<noteq> []" by blast
    have "path_weight (us @ ws) + path_weight vs < 0" using w cut(1) by (simp add: ac_simps)
    then have "path_weight (us @ ws) < 0 \<or> path_weight vs < 0"
      using add_nonneg_nonneg [of "path_weight (us @ ws)" "path_weight vs"] by (auto simp: not_less [symmetric])
    then have "negative_cycle g p (us @ ws) \<or> negative_cycle g y vs"
      using cut by (auto simp: negative_cycle_def simp del: path_weight_simps(3))
    moreover have "length (us @ ws) < length ts" "length vs < length ts" using cut by simp_all
    ultimately show ?thesis using 1(1) by blast
  qed
qed

lemma negative_cycle_found:
  assumes "negative_cycle g p ts" and "distinct (sources p ts)"
  shows "\<exists>ts. negative_walk g Map.empty p 0 ts"
proof (cases ts)
  case Nil
  with assms show ?thesis by (simp add: negative_cycle_def)
next
  case (Cons tr ts')
  with assms have tr: "tr \<in> set (transitions_of g p)" "epsilon_arc tr"
    "cond_path epsilon_arc g (tr_target tr) ts' p" "tr_weight tr + path_weight ts' < 0"
    "distinct (sources (tr_target tr) ts')" "p \<notin> set (sources (tr_target tr) ts')"
    by (auto simp: negative_cycle_def)
  then have "negative_walk g [p \<mapsto> 0] (tr_target tr) (tr_weight tr) ts'"
    by (intro negative_walk_along [where q = p and v = 0]) auto
  with tr have "negative_walk g Map.empty p 0 (tr # ts')" by simp
  then show ?thesis by blast
qed

lemma cycle_bound:
  assumes "cond_path c g p ts p" and "ts \<noteq> []"
  shows "p < length (state_vector g)"
  using assms by (cases ts) (auto simp: transitions_of_def split: if_splits)

lemma negative_arc:
  assumes "path_weight ts < 0"
  shows "\<exists>tr \<in> set ts. tr_weight tr < (0 :: 'w :: linordered_ab_group_add)"
proof (rule ccontr)
  assume "\<not> ?thesis"
  then have "0 \<le> path_weight ts" by (induction ts) (auto simp: not_less)
  with assms show False by simp
qed

lemma cond_path_arcs: "cond_path c g p ts q \<Longrightarrow> tr \<in> set ts \<Longrightarrow> c tr \<and> (\<exists>s. tr \<in> set (transitions_of g s))"
  by (induction ts arbitrary: p) auto

lemma any_state_result:
  assumes "\<And>s. s \<in> set ss \<Longrightarrow> \<exists>b a'. f s a = Some (Inr (b, a')) \<and> (b \<longleftrightarrow> P s) \<and> (\<not> b \<longrightarrow> a' = a)"
  shows "any_state f ss a = Some (Inr (\<exists>s \<in> set ss. P s))"
  using assms
proof (induction ss)
  case (Cons s ss)
  obtain b a' where "f s a = Some (Inr (b, a'))" "b \<longleftrightarrow> P s" "\<not> b \<longrightarrow> a' = a"
    using Cons.prems [of s] by auto
  moreover have "any_state f ss a = Some (Inr (\<exists>s \<in> set ss. P s))"
    using Cons.prems by (intro Cons.IH) simp
  ultimately show ?case by auto
qed simp

section \<open>Cycles without input\<close>

text \<open>What holds of the states marked as handled: their input-free arcs lead to handled states and
  none of them is on a cycle.\<close>

definition marked :: "bool list \<Rightarrow> nat set" where
  "marked h = {s. s < length h \<and> h ! s}"

definition free_cycle :: "'w hbt \<Rightarrow> nat \<Rightarrow> bool" where
  "free_cycle g p \<longleftrightarrow> (\<exists>ts. ts \<noteq> [] \<and> cond_path input_free g p ts p)"

definition handled_ok :: "'w hbt \<Rightarrow> nat set \<Rightarrow> bool" where
  "handled_ok g D \<longleftrightarrow> (\<forall>s \<in> D. \<not> free_cycle g s \<and>
     (\<forall>tr \<in> set (transitions_of g s). input_free tr \<longrightarrow> tr_target tr \<in> D))"

lemma handled_closed:
  "handled_ok g D \<Longrightarrow> s \<in> D \<Longrightarrow> cond_path input_free g s ts q \<Longrightarrow> q \<in> D"
  by (induction ts arbitrary: s) (auto simp: handled_ok_def)

lemma handled_insert:
  assumes "handled_ok g D" and "s \<notin> D"
    and "\<forall>tr \<in> set (transitions_of g s). input_free tr \<longrightarrow> tr_target tr \<in> D"
  shows "handled_ok g (insert s D)"
proof -
  have "\<not> free_cycle g s"
  proof
    assume "free_cycle g s"
    then obtain tr ts where tr: "tr \<in> set (transitions_of g s)" "input_free tr"
      "cond_path input_free g (tr_target tr) ts s" unfolding free_cycle_def by (metis cond_path_simps(2) neq_Nil_conv)
    with assms(3) handled_closed [OF assms(1) _ tr(3)] assms(2) show False by blast
  qed
  with assms show ?thesis by (auto simp: handled_ok_def)
qed

text \<open>A call that finds nothing leaves the path as it was, marks the state and keeps the marked
  states apart from the path. All states of the path lead to the current one.\<close>

definition leads_to :: "'w hbt \<Rightarrow> nat set \<Rightarrow> nat \<Rightarrow> bool" where
  "leads_to g P s \<longleftrightarrow> (\<forall>q \<in> P. \<exists>ts. ts \<noteq> [] \<and> cond_path input_free g q ts s)"

definition search_ok :: "'w hbt \<Rightarrow> nat set \<times> bool list \<Rightarrow> bool" where
  "search_ok g ph \<longleftrightarrow> length (snd ph) = length (state_vector g) \<and> handled_ok g (marked (snd ph)) \<and>
     fst ph \<inter> marked (snd ph) = {} \<and> fst ph \<subseteq> {..<length (state_vector g)}"

definition searched :: "'w hbt \<Rightarrow> nat set \<times> bool list \<Rightarrow> nat set \<Rightarrow> (bool \<times> nat set \<times> bool list) result option \<Rightarrow> bool" where
  "searched g ph S r \<longleftrightarrow>
     (\<exists>b ph'. r = Some (Inr (b, ph')) \<and> (b \<longrightarrow> (\<exists>p. free_cycle g p)) \<and>
       (\<not> b \<longrightarrow> fst ph' = fst ph \<and> search_ok g ph' \<and> marked (snd ph) \<union> S \<subseteq> marked (snd ph')))"

lemma searched_mono:
  assumes "searched g (P, H') S r" and "marked H \<subseteq> marked H'"
  shows "searched g (P, H) S r"
proof -
  from assms(1) obtain b ph where "r = Some (Inr (b, ph))" "b \<longrightarrow> (\<exists>p. free_cycle g p)"
    "\<not> b \<longrightarrow> fst ph = P \<and> search_ok g ph \<and> marked H' \<union> S \<subseteq> marked (snd ph)"
    unfolding searched_def fst_conv snd_conv by blast
  moreover from this(3) assms(2) have
    "\<not> b \<longrightarrow> fst ph = P \<and> search_ok g ph \<and> marked H \<union> S \<subseteq> marked (snd ph)" by blast
  ultimately show ?thesis unfolding searched_def fst_conv snd_conv by blast
qed

lemma leads_to_step:
  assumes "leads_to g P s" and "tr \<in> set (transitions_of g s)" and "input_free tr"
  shows "leads_to g (insert s P) (tr_target tr)"
  unfolding leads_to_def
proof
  fix q assume "q \<in> insert s P"
  then show "\<exists>ts. ts \<noteq> [] \<and> cond_path input_free g q ts (tr_target tr)"
  proof
    assume "q = s"
    with assms show ?thesis by (intro exI [of _ "[tr]"]) simp
  next
    assume "q \<in> P"
    with assms(1) obtain ts where "cond_path input_free g q ts s" unfolding leads_to_def by blast
    with assms show ?thesis by (intro exI [of _ "ts @ [tr]"]) (auto simp: cond_path_append)
  qed
qed

lemma searched_loop:
  assumes "set trs \<subseteq> set (transitions_of g s)" and "s < length (state_vector g)" and "s \<notin> P"
    and "leads_to g P s" and "search_ok g (P, H)" and "s \<notin> marked H"
    and call: "\<And>tr H. tr \<in> set trs \<Longrightarrow> input_free tr \<Longrightarrow> tr_target tr \<notin> insert s P \<Longrightarrow> search_ok g (insert s P, H) \<Longrightarrow>
      searched g (insert s P, H) {tr_target tr} (ambiguous_from g (tr_target tr) None (insert s P, H))"
    and earlier: "\<forall>tr \<in> set (transitions_of g s) - set trs. input_free tr \<longrightarrow> tr_target tr \<in> marked H"
  shows "searched g (P, H) {s} (ambiguous_from g s (Some trs) (P, H))"
  using assms
proof (induction trs arbitrary: H)
  case Nil
  have "marked (H[s := True]) = insert s (marked H)"
    using Nil.prems(2,5) by (auto simp: marked_def search_ok_def nth_list_update)
  moreover from this have "handled_ok g (marked (H[s := True]))"
    using Nil.prems by (simp add: handled_insert search_ok_def)
  ultimately have "search_ok g (P, H[s := True])" using Nil.prems(3,5) by (auto simp: search_ok_def)
  with \<open>marked (H[s := True]) = insert s (marked H)\<close> show ?case
    by (subst ambiguous_from.simps) (auto simp: searched_def)
next
  case (Cons tr trs)
  show ?case
  proof (cases "input_free tr")
    case False
    have "searched g (P, H) {s} (ambiguous_from g s (Some trs) (P, H))"
      using Cons.prems False by (intro Cons.IH) auto
    with False show ?thesis by (subst ambiguous_from.simps) simp
  next
    case True
    have tr: "tr \<in> set (transitions_of g s)" using Cons.prems(1) by simp
    show ?thesis
    proof (cases "tr_target tr \<in> insert s P")
      case found: True
      have "\<exists>ts. ts \<noteq> [] \<and> cond_path input_free g (tr_target tr) ts (tr_target tr)"
        using leads_to_step [OF Cons.prems(4) tr True] found unfolding leads_to_def by blast
      then have "free_cycle g (tr_target tr)" unfolding free_cycle_def .
      with True found show ?thesis by (subst ambiguous_from.simps) (auto simp: searched_def Let_def)
    next
      case False
      have "search_ok g (insert s P, H)" using Cons.prems(2,5,6) by (auto simp: search_ok_def)
      with Cons.prems(7) [of tr H] True False
      have "searched g (insert s P, H) {tr_target tr} (ambiguous_from g (tr_target tr) None (insert s P, H))" by simp
      then obtain b ph where call: "ambiguous_from g (tr_target tr) None (insert s P, H) = Some (Inr (b, ph))"
        "b \<longrightarrow> (\<exists>p. free_cycle g p)"
        "\<not> b \<longrightarrow> fst ph = insert s P \<and> search_ok g ph \<and> marked H \<union> {tr_target tr} \<subseteq> marked (snd ph)"
        unfolding searched_def fst_conv snd_conv by blast
      note call = call(1) call(2,3) [THEN mp]
      show ?thesis
      proof (cases b)
        case True
        with call \<open>input_free tr\<close> False show ?thesis
          by (subst ambiguous_from.simps) (auto simp: searched_def Let_def)
      next
        case nob: False
        obtain H' where ph: "ph = (insert s P, H')" using call(3) [OF nob] by (metis prod.collapse)
        note H' = call(3) [OF nob, unfolded ph]
        have "searched g (P, H') {s} (ambiguous_from g s (Some trs) (P, H'))"
        proof (rule Cons.IH)
          show "set trs \<subseteq> set (transitions_of g s)" using Cons.prems(1) by simp
          show "search_ok g (P, H')" "s \<notin> marked H'" using H' Cons.prems(5) by (auto simp: search_ok_def)
          show "\<forall>tr \<in> set (transitions_of g s) - set trs. input_free tr \<longrightarrow> tr_target tr \<in> marked H'"
            using Cons.prems(8) H' by auto
        qed (use Cons.prems in auto)
        then have "searched g (P, H) {s} (ambiguous_from g s (Some trs) (P, H'))"
          by (rule searched_mono) (use H' in simp)
        moreover have "ambiguous_from g s (Some (tr # trs)) (P, H) = ambiguous_from g s (Some trs) (P, H')"
          using call(1) nob \<open>input_free tr\<close> False Cons.prems(3)
          by (subst ambiguous_from.simps) (simp add: ph Let_def)
        ultimately show ?thesis by simp
      qed
    qed
  qed
qed

lemma ambiguous_from_result:
  assumes wf: "wf_graph g"
  shows "s < length (state_vector g) \<Longrightarrow> s \<notin> fst ph \<Longrightarrow> leads_to g (fst ph) s \<Longrightarrow> search_ok g ph \<Longrightarrow>
     searched g ph {s} (ambiguous_from g s None ph)"
proof (induction "length (state_vector g) - card (fst ph)" arbitrary: s ph rule: less_induct)
  case less
  obtain P H where ph: "ph = (P, H)" by (cases ph)
  let ?n = "length (state_vector g)"
  have len: "length H = ?n" "P \<subseteq> {..<?n}" "finite P"
    using less.prems(4) by (auto simp: search_ok_def ph intro: finite_subset)
  show ?case
  proof (cases "H ! s")
    case True
    with less.prems len show ?thesis unfolding ph
      by (subst ambiguous_from.simps) (auto simp: searched_def marked_def)
  next
    case False
    have "insert s P \<subseteq> {..<?n}" using len less.prems(1) by auto
    then have "card (insert s P) \<le> ?n" using card_mono [of "{..<?n}" "insert s P"] by simp
    then have m: "?n - card (insert s P) < ?n - card P" using len(3) less.prems(2) by (simp add: ph)
    have "searched g (P, H) {s} (ambiguous_from g s (Some (transitions_of g s)) (P, H))"
    proof (rule searched_loop)
      fix tr H' assume tr: "tr \<in> set (transitions_of g s)" "input_free tr" "tr_target tr \<notin> insert s P"
        "search_ok g (insert s P, H')"
      show "searched g (insert s P, H') {tr_target tr} (ambiguous_from g (tr_target tr) None (insert s P, H'))"
        using less.hyps [of "(insert s P, H')" "tr_target tr"] m tr wf_graph_target [OF wf tr(1)]
          leads_to_step [of g P s tr] less.prems(3) by (simp add: ph)
    qed (use less.prems False in \<open>auto simp: ph marked_def\<close>)
    moreover have "hbt_transitions s g = Inr (transitions_of g s)"
      using less.prems(1) by (simp add: hbt_transitions_def transitions_of_def)
    ultimately show ?thesis unfolding ph using False len less.prems(1)
      by (subst ambiguous_from.simps) simp
  qed
qed

lemma ambiguous_states:
  assumes wf: "wf_graph g" and "search_ok g ({}, H)" and "\<forall>s \<in> set ss. s < length (state_vector g)"
  shows "\<exists>b. any_state (\<lambda>s ph. ambiguous_from g s None ph) ss ({}, H) = Some (Inr b) \<and>
     (b \<longrightarrow> (\<exists>p. free_cycle g p)) \<and> (\<not> b \<longrightarrow> (\<forall>s \<in> set ss. \<not> free_cycle g s))"
  using assms(2,3)
proof (induction ss arbitrary: H)
  case (Cons s ss)
  have "searched g ({}, H) {s} (ambiguous_from g s None ({}, H))"
    using Cons.prems by (intro ambiguous_from_result [OF wf]) (simp_all add: leads_to_def)
  then obtain b ph where call: "ambiguous_from g s None ({}, H) = Some (Inr (b, ph))"
    "b \<longrightarrow> (\<exists>p. free_cycle g p)" "\<not> b \<longrightarrow> fst ph = {} \<and> search_ok g ph \<and> s \<in> marked (snd ph)"
    unfolding searched_def fst_conv snd_conv by blast
  note call = call(1) call(2,3) [THEN mp]
  show ?case
  proof (cases b)
    case False
    obtain H' where ph: "ph = ({}, H')" using call(3) [OF False] by (metis prod.collapse)
    from call(3) [OF False] have "search_ok g ({}, H')" "\<not> free_cycle g s"
      by (auto simp: ph search_ok_def handled_ok_def)
    with Cons.IH [of H'] Cons.prems False call(1) show ?thesis by (auto simp: ph)
  qed (use call in auto)
qed auto

lemma is_infinitely_ambiguous_result:
  assumes "wf_graph g"
  shows "is_infinitely_ambiguous g = Some (Inr (\<exists>p. free_cycle g p))"
proof -
  let ?n = "length (state_vector g)"
  have n: "get_max_state g + 1 = ?n" using assms by (simp add: wf_graph_def get_max_state_def Suc_leI)
  have "search_ok g ({}, replicate ?n False)" by (auto simp: search_ok_def handled_ok_def marked_def)
  from ambiguous_states [OF assms this, of "[0..<?n]"] obtain b where
    b: "is_infinitely_ambiguous g = Some (Inr b)" "b \<longrightarrow> (\<exists>p. free_cycle g p)"
      "\<not> b \<longrightarrow> (\<forall>s < ?n. \<not> free_cycle g s)"
    unfolding is_infinitely_ambiguous_def Let_def n set_upt atLeast0LessThan lessThan_iff by blast
  have "s < ?n" if "free_cycle g s" for s using that cycle_bound unfolding free_cycle_def by blast
  with b(2,3) have "b \<longleftrightarrow> (\<exists>p. free_cycle g p)" by blast
  with b(1) show ?thesis by simp
qed

lemma example_graph_no_cycle: "\<not> free_cycle example_graph p"
proof -
  have "\<not> is_epsilon ''a''" "\<not> is_diacritic ''a''"
    by (simp_all add: is_epsilon_def internal_epsilon_def is_diacritic_iff)
  moreover have "tr_input tr = ''a''" if "tr \<in> set (transitions_of example_graph p)" for tr p
    using that by (auto simp: example_graph_simps split: if_splits)
  ultimately have "\<not> (ts \<noteq> [] \<and> cond_path input_free example_graph p ts p)" for ts
    by (cases ts) (auto simp: input_free_def)
  then show ?thesis by (simp add: free_cycle_def)
qed

section \<open>Properties\<close>

text \<open>C8. The search for negative epsilon cycles always ends without an error on a well-formed graph,
  and returns true exactly when some cycle of epsilon transitions has a negative weight in
  total, whether or not it can be reached.\<close>

theorem has_negative_epsilon_cycles_correct:
  assumes "wf_graph g"
  shows "has_negative_epsilon_cycles g = Some (Inr
     (\<exists>p ts. path g p ts p \<and> (\<forall>tr \<in> set ts. is_epsilon (tr_input tr) \<and> is_epsilon (tr_output tr)) \<and>
        path_weight ts < 0))"
proof -
  let ?n = "length (state_vector g)"
  have spec: "(\<exists>p ts. path g p ts p \<and> (\<forall>tr \<in> set ts. is_epsilon (tr_input tr) \<and> is_epsilon (tr_output tr)) \<and>
        path_weight ts < 0) \<longleftrightarrow> (\<exists>p ts. negative_cycle g p ts)"
    by (simp add: negative_cycle_def cond_path_def epsilon_arc_def)
  have "?n > 0" using assms by (simp add: wf_graph_def)
  then have n: "set [0..<get_max_state g + 1] = {..<?n}" by (auto simp: get_max_state_def)
  show ?thesis unfolding spec
  proof (cases "list_ex (list_ex (\<lambda>tr. epsilon_arc tr \<and> tr_weight tr < 0)) (state_vector g)")
    case False
    then have none: "\<not> (epsilon_arc tr \<and> tr_weight tr < 0)" if "tr \<in> set (transitions_of g s)" for tr s
      using that in_state_vector [of g tr] by (auto simp: list_ex_iff)
    have "\<not> negative_cycle g p ts" for p ts
      unfolding negative_cycle_def using negative_arc [of ts] cond_path_arcs none by blast
    with False show "has_negative_epsilon_cycles g = Some (Inr (\<exists>p ts. negative_cycle g p ts))"
      by (simp add: has_negative_epsilon_cycles_def)
  next
    case True
    have "any_state (\<lambda>s sw. negative_from g s None 0 sw) [0..<get_max_state g + 1] Map.empty =
        Some (Inr (\<exists>s \<in> set [0..<get_max_state g + 1]. \<exists>ts. negative_walk g Map.empty s 0 ts))"
      using n by (intro any_state_result negative_from_result [OF assms]) auto
    moreover have "(\<exists>s \<in> {..<?n}. \<exists>ts. negative_walk g Map.empty s 0 ts) \<longleftrightarrow> (\<exists>p ts. negative_cycle g p ts)"
    proof
      assume "\<exists>s \<in> {..<?n}. \<exists>ts. negative_walk g Map.empty s 0 ts"
      then show "\<exists>p ts. negative_cycle g p ts" using negative_walk_cycle [of g Map.empty] by fastforce
    next
      assume "\<exists>p ts. negative_cycle g p ts"
      then obtain p ts where pt: "negative_cycle g p ts" "distinct (sources p ts)"
        using simple_negative_cycle by blast
      then have "ts \<noteq> []" by (auto simp: negative_cycle_def)
      with pt cycle_bound have "p < ?n" by (auto simp: negative_cycle_def)
      with negative_cycle_found [OF pt] show "\<exists>s \<in> {..<?n}. \<exists>ts. negative_walk g Map.empty s 0 ts" by blast
    qed
    ultimately show "has_negative_epsilon_cycles g = Some (Inr (\<exists>p ts. negative_cycle g p ts))"
      using True unfolding n has_negative_epsilon_cycles_def by simp
  qed
qed

theorem has_negative_epsilon_cycles_correct_witness:
  "has_negative_epsilon_cycles (add_transition 0
     \<lparr>tr_target = 0, tr_input = internal_epsilon, tr_output = internal_epsilon, tr_weight = - 1\<rparr> True (new_hbt :: int hbt)) =
     Some (Inr True)"
proof -
  let ?tr = "\<lparr>tr_target = 0, tr_input = internal_epsilon, tr_output = internal_epsilon, tr_weight = - 1\<rparr> :: int transition"
  let ?g = "add_transition 0 ?tr True new_hbt"
  have "wf_hbt ?g" by (intro wf_hbt_intros) (simp_all add: internal_epsilon_def)
  then have "wf_graph ?g" by (simp add: wf_hbt_def)
  moreover have "path ?g 0 [?tr] 0" by (simp add: add_transition_simps)
  then have "\<exists>p ts. path ?g p ts p \<and> (\<forall>tr \<in> set ts. is_epsilon (tr_input tr) \<and> is_epsilon (tr_output tr)) \<and>
      path_weight ts < 0"
    by (intro exI [of _ 0] exI [of _ "[?tr]"]) (simp add: is_epsilon_def)
  ultimately show ?thesis using has_negative_epsilon_cycles_correct [of ?g] by simp
qed

text \<open>C9. The test for infinite ambiguity always ends without an error on a well-formed graph, and
  returns true exactly when the graph has a cycle whose transitions all have epsilon or a flag
  diacritic on the input side; although every state is gone through only once, no cycle is
  missed.\<close>

theorem is_infinitely_ambiguous_correct:
  assumes "wf_graph g"
  shows "is_infinitely_ambiguous g = Some (Inr
     (\<exists>p ts. ts \<noteq> [] \<and> path g p ts p \<and> (\<forall>tr \<in> set ts. is_epsilon (tr_input tr) \<or> is_diacritic (tr_input tr))))"
  using is_infinitely_ambiguous_result [OF assms] by (simp add: free_cycle_def cond_path_def input_free_def)

theorem is_infinitely_ambiguous_correct_witness: "is_infinitely_ambiguous example_graph = Some (Inr False)"
  using is_infinitely_ambiguous_correct [of example_graph] example_graph_wf example_graph_no_cycle
  by (simp add: wf_hbt_def free_cycle_def cond_path_def input_free_def)

end
