(* ===== verification/Lookup.thy ===== *)
theory Lookup
  imports Substitution LookupFlags EpsilonHandler EpsilonCycles
begin

text \<open>
  Lookup in \<open>HfstBasicTransducer\<close> (\<open>HfstBasicTransducer.cc\<close>, lines 3523 to 3779): all paths whose
  input side reads a given sequence of symbols, within bounds on the epsilon cycles followed
  in a row, on the weight and on the number of results. The recursive function changes the
  results, the path so far and the flag diacritics so far, which it shares with its callers; as
  in \<open>EpsilonCycles\<close> it is a partial function on what is left to do. The answer of
  \<open>FlagDiacriticTable::is_valid_string\<close> does not depend on the static maps it caches
  (theory \<open>LookupFlags\<close>), which are taken as empty here.
\<close>

section \<open>The operations\<close>

type_synonym 'w two_level_path = "'w \<times> string_pair list"

definition push_back_to_two_level_path ::
  "'w::ab_group_add two_level_path \<Rightarrow> string_pair \<Rightarrow> 'w \<Rightarrow> string list option \<Rightarrow>
     'w two_level_path \<times> string list option" where
  "push_back_to_two_level_path pth sp weight fds_so_far =
     ((fst pth + weight, snd pth @ [sp]),
      map_option (\<lambda>fds. if is_diacritic (fst sp) then fds @ [fst sp] else fds) fds_so_far)"

definition pop_back_from_two_level_path ::
  "'w::ab_group_add two_level_path \<Rightarrow> 'w \<Rightarrow> string list option \<Rightarrow>
     ('w two_level_path \<times> string list option) result" where
  "pop_back_from_two_level_path pth weight fds_so_far =
     (if snd pth = [] then Inl UndefinedBehaviour
      else Inr ((fst pth - weight, butlast (snd pth)),
        map_option (\<lambda>fds. if is_diacritic (fst (last (snd pth))) then butlast fds else fds) fds_so_far))"

definition add_to_results ::
  "'w::linordered_ab_group_add two_level_path set \<Rightarrow> 'w two_level_path \<Rightarrow> 'w \<Rightarrow> 'w option \<Rightarrow>
     'w two_level_path set \<times> 'w two_level_path" where
  "add_to_results results path_so_far final_weight max_weight =
     (let p = (fst path_so_far + final_weight, snd path_so_far);
          results1 = (case max_weight of
              None \<Rightarrow> insert p results
            | Some m \<Rightarrow> if \<not> fst p > m then insert p results else results)
      in (results1, (fst p - final_weight, snd p)))"

definition flags_valid :: "string list \<Rightarrow> bool result" where
  "flags_valid fds = rmap fst (is_valid_symbols fds (empty_statics, new_flag_table))"

text \<open>Whether the transition can be followed, and whether it then consumes a symbol.\<close>

definition is_possible_transition ::
  "'w transition \<Rightarrow> string list \<Rightarrow> nat \<Rightarrow> string set \<Rightarrow> bool \<Rightarrow> string list option \<Rightarrow> (bool \<times> bool) result" where
  "is_possible_transition transition lookup_path lookup_index alpha input_symbol_consumed fds_so_far =
     (let isymbol = tr_input transition in
      rbind (if lookup_index \<noteq> length lookup_path
             then rmap (\<lambda>a. isymbol = a \<or> (is_identity isymbol \<or> is_unknown isymbol) \<and> a \<notin> alpha)
                    (vec_at lookup_path lookup_index)
             else Inr False) (\<lambda>matches.
        if matches then Inr (True, True)
        else if is_epsilon isymbol then Inr (True, False)
        else if is_diacritic isymbol then
          (case fds_so_far of
             None \<Rightarrow> Inr (True, False)
           | Some fds \<Rightarrow> rmap (\<lambda>valid. if valid then (True, False) else (False, input_symbol_consumed))
                 (flags_valid (fds @ [isymbol])))
        else Inr (False, input_symbol_consumed)))"

definition lookup_labels :: "'w transition \<Rightarrow> string list \<Rightarrow> nat \<Rightarrow> string_pair result" where
  "lookup_labels tr lookup_path lookup_index =
     (if is_identity (tr_input tr) then rmap (\<lambda>a. (a, a)) (vec_at lookup_path lookup_index)
      else if is_unknown (tr_input tr) then rmap (\<lambda>a. (a, tr_output tr)) (vec_at lookup_path lookup_index)
      else Inr (tr_input tr, tr_output tr))"

record 'w lookup_limits =
  max_epsilon_cycles :: nat
  max_weight :: "'w option"
  max_number :: int

definition exceeds_weight :: "'w::ord option \<Rightarrow> 'w \<Rightarrow> bool" where
  "exceeds_weight m w = (case m of None \<Rightarrow> False | Some max_w \<Rightarrow> w > max_w)"

type_synonym 'w lookup_state = "'w two_level_path set \<times> 'w two_level_path \<times> string list option"

partial_function (option) lookup_from ::
  "'w::linordered_ab_group_add hbt \<Rightarrow> string list \<Rightarrow> 'w lookup_limits \<Rightarrow> nat \<Rightarrow> 'w transition list option \<Rightarrow>
     nat \<Rightarrow> epsilon_handler \<Rightarrow> 'w lookup_state \<Rightarrow> 'w lookup_state result option" where
  "lookup_from g lookup_path lim state todo lookup_index Eh acc = (case todo of
      None \<Rightarrow>
        (let (can, Eh1) = can_continue state Eh; (results, path_so_far, fds) = acc in
         if \<not> can then Some (Inr acc)
         else if exceeds_weight (max_weight lim) (fst path_so_far) then Some (Inr acc)
         else if max_number lim \<ge> 0 \<and> nat (max_number lim) \<le> card results then Some (Inr acc)
         else (case (if lookup_index = length lookup_path \<and> is_final_state state g
                     then rmap (\<lambda>w. let (r, p) = add_to_results results path_so_far w (max_weight lim) in (r, p, fds))
                            (get_final_weight state g)
                     else Inr acc) of
             Inl e \<Rightarrow> Some (Inl e)
           | Inr acc1 \<Rightarrow> (case hbt_transitions state g of
               Inl e \<Rightarrow> Some (Inl e)
             | Inr trs \<Rightarrow> lookup_from g lookup_path lim state (Some trs) lookup_index Eh1 acc1)))
    | Some trs \<Rightarrow> (case trs of
        [] \<Rightarrow> Some (Inr acc)
      | tr # rest \<Rightarrow>
          (let (results, path_so_far, fds) = acc in
           case is_possible_transition tr lookup_path lookup_index (alphabet g) False fds of
             Inl e \<Rightarrow> Some (Inl e)
           | Inr (possible, input_symbol_consumed) \<Rightarrow>
               if \<not> possible then lookup_from g lookup_path lim state (Some rest) lookup_index Eh acc
               else (case lookup_labels tr lookup_path lookup_index of
                   Inl e \<Rightarrow> Some (Inl e)
                 | Inr sp \<Rightarrow>
                     (let (path1, fds1) = push_back_to_two_level_path path_so_far sp (tr_weight tr) fds;
                          index1 = (if input_symbol_consumed then lookup_index + 1 else lookup_index);
                          Eh1 = (if input_symbol_consumed then Eh else eh_push_back state Eh);
                          Ehp = (if input_symbol_consumed then new_epsilon_handler (max_epsilon_cycles lim) else Eh1)
                      in Option.bind
                           (lookup_from g lookup_path lim (tr_target tr) None index1 Ehp (results, path1, fds1))
                           (\<lambda>r. case r of
                              Inl e \<Rightarrow> Some (Inl e)
                            | Inr (results2, path2, fds2) \<Rightarrow>
                                (case pop_back_from_two_level_path path2 (tr_weight tr) fds2 of
                                   Inl e \<Rightarrow> Some (Inl e)
                                 | Inr (path3, fds3) \<Rightarrow>
                                     lookup_from g lookup_path lim state (Some rest) lookup_index Eh1
                                       (results2, path3, fds3))))))))"

definition lookup ::
  "string list \<Rightarrow> 'w::linordered_ab_group_add two_level_path set \<Rightarrow> nat option \<Rightarrow> 'w option \<Rightarrow> int \<Rightarrow> bool \<Rightarrow>
     'w hbt \<Rightarrow> 'w two_level_path set result option" where
  "lookup lookup_path results cycles_limit weight_limit number_limit obey_flags g =
     (let cyc = (case cycles_limit of None \<Rightarrow> 100000 | Some c \<Rightarrow> c);
          flag_diacritic_path = (if obey_flags then Some [] else None)
      in map_option (rmap fst)
           (lookup_from g lookup_path
              \<lparr>max_epsilon_cycles = cyc, max_weight = weight_limit, max_number = number_limit\<rparr>
              0 None 0 (new_epsilon_handler cyc) (results, (0, []), flag_diacritic_path)))"

section \<open>The walks that lookup follows\<close>

lemma flags_valid_eq: "flags_valid fds = Inr (flag_run fds Map.empty \<noteq> None)"
  using is_valid_symbols_flag_run [of fds "(empty_statics, new_flag_table)"] by (auto simp: flags_valid_def)

text \<open>Whether a transition can be followed, seen as a function of what is left of the input.\<close>

definition reads_symbol :: "string set \<Rightarrow> string \<Rightarrow> string \<Rightarrow> bool" where
  "reads_symbol A isymbol a \<longleftrightarrow> isymbol = a \<or> (is_identity isymbol \<or> is_unknown isymbol) \<and> a \<notin> A"

definition consumes :: "string set \<Rightarrow> string list \<Rightarrow> 'w transition \<Rightarrow> bool" where
  "consumes A input tr \<longleftrightarrow> (case input of [] \<Rightarrow> False | a # _ \<Rightarrow> reads_symbol A (tr_input tr) a)"

definition passes :: "string list option \<Rightarrow> 'w transition \<Rightarrow> bool" where
  "passes fds tr \<longleftrightarrow> is_epsilon (tr_input tr) \<or> is_diacritic (tr_input tr) \<and>
     (case fds of None \<Rightarrow> True | Some f \<Rightarrow> flag_run (f @ [tr_input tr]) Map.empty \<noteq> None)"

definition label_read :: "string list \<Rightarrow> 'w transition \<Rightarrow> string_pair" where
  "label_read input tr =
     (if is_identity (tr_input tr) then (hd input, hd input)
      else if is_unknown (tr_input tr) then (hd input, tr_output tr) else tr_label tr)"

definition note_flag :: "string_pair \<Rightarrow> string list option \<Rightarrow> string list option" where
  "note_flag sp fds = map_option (\<lambda>f. if is_diacritic (fst sp) then f @ [fst sp] else f) fds"

lemma is_possible_transition_eq:
  assumes "i \<le> length s"
  shows "is_possible_transition tr s i A False fds =
     Inr (if consumes A (drop i s) tr then (True, True) else (passes fds tr, False))"
proof (cases "i = length s")
  case True
  then show ?thesis
    by (auto simp: is_possible_transition_def consumes_def passes_def flags_valid_eq Let_def split: option.splits)
next
  case False
  with assms have "drop i s = s ! i # drop (Suc i) s" by (simp add: Cons_nth_drop_Suc)
  with False assms show ?thesis
    by (auto simp: is_possible_transition_def consumes_def passes_def flags_valid_eq Let_def vec_at_def
        reads_symbol_def split: option.splits)
qed

lemma not_special_input: "is_epsilon x \<or> is_diacritic x \<Longrightarrow> \<not> is_identity x \<and> \<not> is_unknown x"
  by (auto simp: is_epsilon_def is_identity_def is_unknown_def internal_epsilon_def internal_identity_def
      internal_unknown_def is_diacritic_iff)

lemma lookup_labels_eq:
  assumes "i \<le> length s" and "consumes A (drop i s) tr \<or> passes fds tr"
  shows "lookup_labels tr s i = Inr (label_read (drop i s) tr)"
proof -
  have "i < length s" if "is_identity (tr_input tr) \<or> is_unknown (tr_input tr)"
    using assms that not_special_input [of "tr_input tr"]
    by (cases "i = length s") (auto simp: consumes_def passes_def)
  then show ?thesis
    by (auto simp: lookup_labels_def label_read_def vec_at_def tr_label_def hd_drop_conv_nth)
qed

text \<open>A walk from state \<open>s\<close> with input \<open>input\<close> left: the epsilon handler lets it go on at every state,
  the weight stays within its limit, and it ends in a final state with no input left. Its
  result is the weight and the labels.\<close>

fun lookup_walk ::
  "'w::linordered_ab_group_add hbt \<Rightarrow> 'w lookup_limits \<Rightarrow> string list \<Rightarrow> nat \<Rightarrow> epsilon_handler \<Rightarrow>
     string list option \<Rightarrow> 'w two_level_path \<Rightarrow> 'w transition list \<Rightarrow> 'w two_level_path \<Rightarrow> bool" where
  "lookup_walk g lim input s h fds p [] r \<longleftrightarrow>
     fst (can_continue s h) \<and> \<not> exceeds_weight (max_weight lim) (fst p) \<and> input = [] \<and>
     (\<exists>w. final_weight_map g s = Some w \<and> \<not> exceeds_weight (max_weight lim) (fst p + w) \<and>
        r = (fst p + w, snd p))"
| "lookup_walk g lim input s h fds p (tr # ts) r \<longleftrightarrow>
     fst (can_continue s h) \<and> \<not> exceeds_weight (max_weight lim) (fst p) \<and>
     tr \<in> set (transitions_of g s) \<and>
     (let sp = label_read input tr; p1 = (fst p + tr_weight tr, snd p @ [sp]); fds1 = note_flag sp fds in
      if consumes (alphabet g) input tr
      then lookup_walk g lim (tl input) (tr_target tr) (new_epsilon_handler (max_epsilon_cycles lim)) fds1 p1 ts r
      else passes fds tr \<and>
        lookup_walk g lim input (tr_target tr) (eh_push_back s (snd (can_continue s h))) fds1 p1 ts r)"

text \<open>The results of the walks that begin with the transition \<open>tr\<close>; \<open>h\<close> is the handler after
  \<open>can_continue\<close>.\<close>

definition walks_with where
  "walks_with g lim input s h fds p tr =
     (let sp = label_read input tr; p1 = (fst p + tr_weight tr, snd p @ [sp]); fds1 = note_flag sp fds in
      if consumes (alphabet g) input tr
      then {r. \<exists>ts. lookup_walk g lim (tl input) (tr_target tr)
             (new_epsilon_handler (max_epsilon_cycles lim)) fds1 p1 ts r}
      else if passes fds tr
      then {r. \<exists>ts. lookup_walk g lim input (tr_target tr) (eh_push_back s h) fds1 p1 ts r} else {})"

lemma lookup_walk_Cons:
  "(\<exists>ts. lookup_walk g lim input s h fds p (tr # ts) r) \<longleftrightarrow>
     fst (can_continue s h) \<and> \<not> exceeds_weight (max_weight lim) (fst p) \<and> tr \<in> set (transitions_of g s) \<and>
     r \<in> walks_with g lim input s (snd (can_continue s h)) fds p tr"
  by (simp add: walks_with_def Let_def)

definition walk_end where
  "walk_end g lim input s p =
     {r. input = [] \<and> (\<exists>w. final_weight_map g s = Some w \<and> \<not> exceeds_weight (max_weight lim) (fst p + w) \<and>
        r = (fst p + w, snd p))}"

lemma lookup_walk_Nil:
  "lookup_walk g lim input s h fds p [] r \<longleftrightarrow>
     (fst (can_continue s h) \<and> \<not> exceeds_weight (max_weight lim) (fst p)) \<and> r \<in> walk_end g lim input s p"
  by (simp only: lookup_walk.simps walk_end_def mem_Collect_eq conj_assoc)

lemma ex_list_cases: "(\<exists>xs. P xs) \<longleftrightarrow> P [] \<or> (\<exists>x xs. P (x # xs))"
  by (metis neq_Nil_conv)

lemma lookup_walk_from:
  "{r. \<exists>ts. lookup_walk g lim input s h fds p ts r} =
     (if fst (can_continue s h) \<and> \<not> exceeds_weight (max_weight lim) (fst p)
      then walk_end g lim input s p \<union>
        (\<Union>tr \<in> set (transitions_of g s). walks_with g lim input s (snd (can_continue s h)) fds p tr)
      else {})" (is "?l = ?r")
proof (intro set_eqI)
  fix r
  have "r \<in> ?l \<longleftrightarrow> lookup_walk g lim input s h fds p [] r \<or> (\<exists>tr ts. lookup_walk g lim input s h fds p (tr # ts) r)"
    unfolding mem_Collect_eq by (rule ex_list_cases)
  also have "\<dots> \<longleftrightarrow> (fst (can_continue s h) \<and> \<not> exceeds_weight (max_weight lim) (fst p)) \<and>
      (r \<in> walk_end g lim input s p \<or> (\<exists>tr \<in> set (transitions_of g s).
         r \<in> walks_with g lim input s (snd (can_continue s h)) fds p tr))"
    unfolding lookup_walk_Cons lookup_walk_Nil by blast
  also have "\<dots> \<longleftrightarrow> r \<in> ?r" by simp
  finally show "r \<in> ?l \<longleftrightarrow> r \<in> ?r" .
qed

text \<open>What a call does to the results, when \<open>W\<close> are those of the walks it stands for: with a limit on
  their number, it stops as soon as the limit is reached.\<close>

definition collects :: "int \<Rightarrow> 'a set \<Rightarrow> 'a set \<Rightarrow> 'a set \<Rightarrow> bool" where
  "collects N R W R' \<longleftrightarrow> finite R' \<and> R \<subseteq> R' \<and> R' \<subseteq> R \<union> W \<and>
     (0 \<le> N \<longrightarrow> card R' \<le> max (card R) (nat N)) \<and> (N < 0 \<or> card R' < nat N \<longrightarrow> R' = R \<union> W)"

lemma collects_none: "finite R \<Longrightarrow> collects N R {} R"
  by (auto simp: collects_def)

lemma collects_full: "finite R \<Longrightarrow> 0 \<le> N \<Longrightarrow> nat N \<le> card R \<Longrightarrow> collects N R W R"
  by (auto simp: collects_def)

lemma collects_insert:
  assumes "finite R" and "\<not> (0 \<le> N \<and> nat N \<le> card R)"
  shows "collects N R {p} (insert p R)"
  using assms by (auto simp: collects_def card_insert_if)

lemma collects_trans:
  assumes "collects N R W1 R1" and "collects N R1 W2 R2"
  shows "collects N R (W1 \<union> W2) R2"
proof -
  have fin: "finite R2" "R1 \<subseteq> R2" using assms(2) by (simp_all add: collects_def)
  then have le: "card R1 \<le> card R2" by (rule card_mono)
  have "R2 = R \<union> (W1 \<union> W2)" if "N < 0 \<or> card R2 < nat N"
  proof -
    from that le have "N < 0 \<or> card R1 < nat N" by auto
    with that assms have "R1 = R \<union> W1" "R2 = R1 \<union> W2" unfolding collects_def by blast+
    then show ?thesis by blast
  qed
  moreover have "card R2 \<le> max (card R) (nat N)" if "0 \<le> N" using that assms unfolding collects_def by auto
  moreover have "R \<subseteq> R2" "R2 \<subseteq> R \<union> (W1 \<union> W2)" using assms unfolding collects_def by blast+
  ultimately show ?thesis using fin(1) unfolding collects_def by blast
qed

section \<open>Lookup collects the results of the walks\<close>

definition call_ok :: "'w::linordered_ab_group_add hbt \<Rightarrow> string list \<Rightarrow> 'w lookup_limits \<Rightarrow> nat \<Rightarrow> nat \<Rightarrow> epsilon_handler \<Rightarrow> bool" where
  "call_ok g sp lim s i h \<longleftrightarrow> (\<forall>R p fds. finite R \<longrightarrow>
     (\<exists>R'. lookup_from g sp lim s None i h (R, p, fds) = Some (Inr (R', p, fds)) \<and>
        collects (max_number lim) R {r. \<exists>ts. lookup_walk g lim (drop i sp) s h fds p ts r} R'))"

lemma call_okD:
  assumes "call_ok g sp lim s i h" and "finite R"
  obtains R' where "lookup_from g sp lim s None i h (R, p, fds) = Some (Inr (R', p, fds))"
    "collects (max_number lim) R {r. \<exists>ts. lookup_walk g lim (drop i sp) s h fds p ts r} R'"
  using assms unfolding call_ok_def by blast

lemma push_back_eq:
  "push_back_to_two_level_path p sp w fds = ((fst p + w, snd p @ [sp]), note_flag sp fds)"
  by (simp add: push_back_to_two_level_path_def note_flag_def)

lemma pop_back_pushed:
  "pop_back_from_two_level_path (fst p + w, snd p @ [sp]) w (note_flag sp fds) = Inr (p, fds)"
  by (cases fds) (simp_all add: pop_back_from_two_level_path_def note_flag_def)

lemma lookup_loop:
  assumes i: "i \<le> length sp"
    and consuming: "\<And>tr. tr \<in> set trs \<Longrightarrow> consumes (alphabet g) (drop i sp) tr \<Longrightarrow>
      call_ok g sp lim (tr_target tr) (i + 1) (new_epsilon_handler (max_epsilon_cycles lim))"
    and other: "\<And>tr. tr \<in> set trs \<Longrightarrow> input_free tr \<Longrightarrow> call_ok g sp lim (tr_target tr) i (eh_push_back s h)"
    and "h' = h \<or> h' = eh_push_back s h" and "finite R"
  shows "\<exists>R'. lookup_from g sp lim s (Some trs) i h' (R, p, fds) = Some (Inr (R', p, fds)) \<and>
     collects (max_number lim) R (\<Union>tr \<in> set trs. walks_with g lim (drop i sp) s h fds p tr) R'"
  using assms(2-)
proof (induction trs arbitrary: R h')
  case Nil
  then show ?case by (subst lookup_from.simps) (simp add: collects_none)
next
  case (Cons tr trs)
  let ?A = "alphabet g" and ?in = "drop i sp"
  let ?l = "label_read ?in tr"
  let ?p1 = "(fst p + tr_weight tr, snd p @ [?l])" and ?fds1 = "note_flag ?l fds"
  note poss = is_possible_transition_eq [OF i, of tr ?A fds]
  note lab = lookup_labels_eq [OF i, of ?A tr fds]
  have push: "eh_push_back s h' = eh_push_back s h" using Cons.prems(3) by auto
  have rest: "\<exists>R'. lookup_from g sp lim s (Some trs) i k (R1, p, fds) = Some (Inr (R', p, fds)) \<and>
     collects (max_number lim) R1 (\<Union>tr \<in> set trs. walks_with g lim ?in s h fds p tr) R'"
    if "finite R1" "k = h \<or> k = eh_push_back s h" for R1 k
    using that Cons.prems by (intro Cons.IH) auto
  show ?case
  proof (cases "consumes ?A ?in tr \<or> passes fds tr")
    case False
    then have none: "walks_with g lim ?in s h fds p tr = {}" by (simp add: walks_with_def)
    have "lookup_from g sp lim s (Some (tr # trs)) i h' (R, p, fds) =
        lookup_from g sp lim s (Some trs) i h' (R, p, fds)"
      using False by (subst lookup_from.simps) (simp add: poss)
    with rest [OF Cons.prems(4,3)] none show ?thesis by simp
  next
    case True
    obtain i1 k1 k2 where call: "call_ok g sp lim (tr_target tr) i1 k1"
      "walks_with g lim ?in s h fds p tr = {r. \<exists>ts. lookup_walk g lim (drop i1 sp) (tr_target tr) k1 ?fds1 ?p1 ts r}"
      "k2 = h \<or> k2 = eh_push_back s h"
      "i1 = (if consumes ?A ?in tr then i + 1 else i)"
      "k1 = (if consumes ?A ?in tr then new_epsilon_handler (max_epsilon_cycles lim) else eh_push_back s h')"
      "k2 = (if consumes ?A ?in tr then h' else eh_push_back s h')"
    proof (cases "consumes ?A ?in tr")
      case c: True
      have "tl ?in = drop (i + 1) sp" by (simp add: tl_drop drop_Suc)
      with c Cons.prems(1) [of tr] Cons.prems(3) that show ?thesis by (simp add: walks_with_def Let_def)
    next
      case c: False
      with True have "input_free tr" by (auto simp: passes_def input_free_def)
      with c True Cons.prems(2) [of tr] that push show ?thesis by (simp add: walks_with_def Let_def)
    qed
    obtain R1 where R1: "lookup_from g sp lim (tr_target tr) None i1 k1 (R, ?p1, ?fds1) = Some (Inr (R1, ?p1, ?fds1))"
      "collects (max_number lim) R (walks_with g lim ?in s h fds p tr) R1"
      using call_okD [OF call(1) Cons.prems(4)] unfolding call(2) by blast
    have fin: "finite R1" using R1(2) by (simp add: collects_def)
    from rest [OF fin call(3)] obtain R2 where R2:
      "lookup_from g sp lim s (Some trs) i k2 (R1, p, fds) = Some (Inr (R2, p, fds))"
      "collects (max_number lim) R1 (\<Union>tr \<in> set trs. walks_with g lim ?in s h fds p tr) R2" by blast
    have "lookup_from g sp lim s (Some (tr # trs)) i h' (R, p, fds) =
        lookup_from g sp lim s (Some trs) i k2 (R1, p, fds)"
      using R1(1) True
      by (subst lookup_from.simps)
        (cases "consumes ?A ?in tr"; simp add: poss lab push_back_eq pop_back_pushed call(4-6) Let_def)
    with R2 collects_trans [OF R1(2) R2(2)] show ?thesis by simp
  qed
qed

text \<open>The handler of a call: no repetitions, only states of the graph, the count within the limit.\<close>

definition handler_ok :: "'w hbt \<Rightarrow> 'w lookup_limits \<Rightarrow> epsilon_handler \<Rightarrow> bool" where
  "handler_ok g lim h \<longleftrightarrow> distinct (epsilon_path h) \<and> set (epsilon_path h) \<subseteq> {..<length (state_vector g)} \<and>
     max_cycles h = max_epsilon_cycles lim \<and> cycles h \<le> max_cycles h"

lemma handler_ok_new: "handler_ok g lim (new_epsilon_handler (max_epsilon_cycles lim))"
  by (simp add: handler_ok_def new_epsilon_handler_def)

lemma handler_step:
  assumes "handler_ok g lim h" and "fst (can_continue s h)" and "s < length (state_vector g)"
    and "h2 = eh_push_back s (snd (can_continue s h))"
  shows "handler_ok g lim h2"
    and "cycles h < cycles h2 \<or>
       cycles h = cycles h2 \<and> length (epsilon_path h) < length (epsilon_path h2)"
proof -
  from assms(1) have h: "distinct (epsilon_path h)" "set (epsilon_path h) \<subseteq> {..<length (state_vector g)}"
    "max_cycles h = max_epsilon_cycles lim" "cycles h \<le> max_cycles h" by (simp_all add: handler_ok_def)
  have can: "can_continue s h = (True, snd (can_continue s h))" using assms(2) by (metis prod.collapse)
  note step = protocol_step [OF h(1) can assms(4)]
  have "max_cycles h2 = max_cycles h" by (simp add: assms(4))
  with step h assms(3) show "handler_ok g lim h2" by (auto simp: handler_ok_def)
  show "cycles h < cycles h2 \<or> cycles h = cycles h2 \<and> length (epsilon_path h) < length (epsilon_path h2)"
  proof (cases "s \<in> set (epsilon_path h)")
    case False
    then have "erase_after s (epsilon_path h) = None" by (simp add: erase_after_None)
    then have "snd (can_continue s h) = h" by (simp add: can_continue_def)
    moreover have "epsilon_path h = [] \<or> last (epsilon_path h) \<noteq> s" using False by (metis last_in_set)
    ultimately show ?thesis by (auto simp: assms(4) eh_push_back_def)
  qed (use step in simp)
qed

lemma handler_path_bound:
  "handler_ok g lim h \<Longrightarrow> length (epsilon_path h) \<le> length (state_vector g)"
  using card_mono [of "{..<length (state_vector g)}" "set (epsilon_path h)"]
  by (simp add: handler_ok_def distinct_card)

text \<open>What decreases from call to call: the input left, the cycles left, the states not on the path.\<close>

definition call_rank :: "'w hbt \<Rightarrow> string list \<Rightarrow> 'w lookup_limits \<Rightarrow> ((nat \<times> epsilon_handler) \<times> (nat \<times> epsilon_handler)) set" where
  "call_rank g sp lim = measures
     [\<lambda>(i, h). length sp - i, \<lambda>(i, h). max_epsilon_cycles lim - cycles h,
      \<lambda>(i, h). length (state_vector g) - length (epsilon_path h)]"

lemma call_rank_epsilon:
  assumes "handler_ok g lim h" and "fst (can_continue s h)" and "s < length (state_vector g)"
  shows "((i, eh_push_back s (snd (can_continue s h))), (i, h)) \<in> call_rank g sp lim"
proof -
  note step = handler_step [OF assms refl]
  from step(1) have "cycles (eh_push_back s (snd (can_continue s h))) \<le> max_epsilon_cycles lim"
    by (simp add: handler_ok_def)
  with step(2) handler_path_bound [OF step(1)] show ?thesis by (auto simp: call_rank_def)
qed

lemma call_rank_consumed: "i < length sp \<Longrightarrow> ((i + 1, k), (i, h)) \<in> call_rank g sp lim"
  by (simp add: call_rank_def diff_less_mono2)

lemma wf_call_rank: "wf (call_rank g sp lim)"
  by (simp add: call_rank_def)

lemma lookup_call:
  assumes wf: "wf_graph g"
  shows "i \<le> length sp \<Longrightarrow> s < length (state_vector g) \<Longrightarrow> handler_ok g lim h \<Longrightarrow> call_ok g sp lim s i h"
proof (induction "(i, h)" arbitrary: i h s rule: wf_induct_rule [OF wf_call_rank [of g sp lim]])
  case less: (1 i h s)
  let ?N = "max_number lim" and ?h1 = "snd (can_continue s h)" and ?in = "drop i sp"
  show ?case unfolding call_ok_def
  proof (intro allI impI)
    fix R :: "('a \<times> (string \<times> string) list) set" and p fds
    assume fin: "finite R"
    let ?W = "{r. \<exists>ts. lookup_walk g lim ?in s h fds p ts r}"
    obtain ok h1 where can: "can_continue s h = (ok, h1)" by (cases "can_continue s h")
    show "\<exists>R'. lookup_from g sp lim s None i h (R, p, fds) = Some (Inr (R', p, fds)) \<and> collects ?N R ?W R'"
    proof (cases "ok \<and> \<not> exceeds_weight (max_weight lim) (fst p)")
      case False
      then have "?W = {}" unfolding lookup_walk_from by (auto simp: can)
      moreover have "lookup_from g sp lim s None i h (R, p, fds) = Some (Inr (R, p, fds))"
        using False by (subst lookup_from.simps) (auto simp: can)
      ultimately show ?thesis using fin collects_none by metis
    next
      case True
      show ?thesis
      proof (cases "0 \<le> ?N \<and> nat ?N \<le> card R")
        case full: True
        then have "lookup_from g sp lim s None i h (R, p, fds) = Some (Inr (R, p, fds))"
          using True by (subst lookup_from.simps) (auto simp: can)
        with fin full show ?thesis by (intro exI [of _ R]) (auto intro: collects_full)
      next
        case room: False
        let ?trs = "transitions_of g s"
        have W: "?W = walk_end g lim ?in s p \<union> (\<Union>tr \<in> set ?trs. walks_with g lim ?in s h1 fds p tr)"
          unfolding lookup_walk_from using True by (simp add: can)
        obtain R1 where R1: "(if i = length sp \<and> is_final_state s g
            then rmap (\<lambda>w. let (r, q) = add_to_results R p w (max_weight lim) in (r, q, fds)) (get_final_weight s g)
            else Inr (R, p, fds)) = Inr (R1, p, fds)"
          "collects ?N R (walk_end g lim ?in s p) R1"
        proof (cases "i = length sp \<and> is_final_state s g")
          case no: False
          then have "walk_end g lim ?in s p = {}" using less(2) by (auto simp: walk_end_def is_final_state_def)
          with no that [of R] collects_none [OF fin] show ?thesis by auto
        next
          case yes: True
          then obtain fw where fw: "final_weight_map g s = Some fw" by (auto simp: is_final_state_def)
          with less(3) have "get_final_weight s g = Inr fw" by (simp add: get_final_weight_def get_max_state_def)
          moreover have "walk_end g lim ?in s p =
              (if exceeds_weight (max_weight lim) (fst p + fw) then {} else {(fst p + fw, snd p)})"
            using yes fw by (auto simp: walk_end_def)
          moreover have "add_to_results R p fw (max_weight lim) =
              (if exceeds_weight (max_weight lim) (fst p + fw) then R else insert (fst p + fw, snd p) R, p)"
            by (cases "max_weight lim") (auto simp: add_to_results_def exceeds_weight_def Let_def)
          ultimately show ?thesis
            using yes that collects_none [OF fin] collects_insert [OF fin room] by simp
        qed
        have fin1: "finite R1" using R1(2) by (simp add: collects_def)
        have ok: "fst (can_continue s h)" using True by (simp add: can)
        have "\<exists>R'. lookup_from g sp lim s (Some ?trs) i h1 (R1, p, fds) = Some (Inr (R', p, fds)) \<and>
           collects ?N R1 (\<Union>tr \<in> set ?trs. walks_with g lim ?in s h1 fds p tr) R'"
        proof (rule lookup_loop [OF less(2)])
          fix tr assume tr: "tr \<in> set ?trs"
          note target = wf_graph_target [OF wf tr]
          show "call_ok g sp lim (tr_target tr) (i + 1) (new_epsilon_handler (max_epsilon_cycles lim))"
            if "consumes (alphabet g) ?in tr"
          proof -
            from that less(2) have "i < length sp" by (cases "i = length sp") (auto simp: consumes_def)
            then show ?thesis using target
              by (intro less(1) call_rank_consumed handler_ok_new) simp_all
          qed
          show "call_ok g sp lim (tr_target tr) i (eh_push_back s h1)" if "input_free tr"
            using less(1) [OF call_rank_epsilon [OF less(4) ok less(3)] less(2) target]
              handler_step(1) [OF less(4) ok less(3) refl] by (simp add: can)
        qed (use fin1 in auto)
        then obtain R2 where R2: "lookup_from g sp lim s (Some ?trs) i h1 (R1, p, fds) = Some (Inr (R2, p, fds))"
          "collects ?N R1 (\<Union>tr \<in> set ?trs. walks_with g lim ?in s h1 fds p tr) R2" by blast
        have "hbt_transitions s g = Inr ?trs"
          using less(3) by (simp add: hbt_transitions_def transitions_of_def)
        then have "lookup_from g sp lim s None i h (R, p, fds) =
            lookup_from g sp lim s (Some ?trs) i h1 (R1, p, fds)"
          using True room R1(1) by (subst lookup_from.simps) (simp add: can, blast)
        with R2(1) collects_trans [OF R1(2) R2(2)] show ?thesis unfolding W by simp
      qed
    qed
  qed
qed

section \<open>Paths that read the input\<close>

text \<open>The transitions read the input: those that do not consume a symbol pass, epsilons always and
  flag diacritics when the diacritics up to there are compatible. \<open>out\<close> are the labels, with
  the symbols read in the place of unknown and identity.\<close>

fun reads :: "string set \<Rightarrow> string list option \<Rightarrow> string list \<Rightarrow> 'w transition list \<Rightarrow> string_pair list \<Rightarrow> bool" where
  "reads A fds input [] out \<longleftrightarrow> input = [] \<and> out = []"
| "reads A fds input (tr # ts) out \<longleftrightarrow>
     (\<exists>out'. out = label_read input tr # out' \<and>
        (if consumes A input tr then reads A (note_flag (label_read input tr) fds) (tl input) ts out'
         else passes fds tr \<and> reads A (note_flag (label_read input tr) fds) input ts out'))"

text \<open>No state is met twice between two symbols consumed.\<close>

fun simple_runs :: "string set \<Rightarrow> string list \<Rightarrow> nat set \<Rightarrow> nat \<Rightarrow> 'w transition list \<Rightarrow> bool" where
  "simple_runs A input V s [] \<longleftrightarrow> s \<notin> V"
| "simple_runs A input V s (tr # ts) \<longleftrightarrow> s \<notin> V \<and>
     (if consumes A input tr then simple_runs A (tl input) {} (tr_target tr) ts
      else simple_runs A input (insert s V) (tr_target tr) ts)"

definition read_results ::
  "'w::linordered_ab_group_add hbt \<Rightarrow> string list option \<Rightarrow> 'w option \<Rightarrow> string list \<Rightarrow> ('w transition list \<Rightarrow> bool) \<Rightarrow>
     'w two_level_path set" where
  "read_results g fds m input P = {(w, out). \<exists>ts q fw. path g 0 ts q \<and> final_weight_map g q = Some fw \<and>
     reads (alphabet g) fds input ts out \<and> w = path_weight ts + fw \<and> \<not> exceeds_weight m w \<and> P ts}"

lemma read_resultsI:
  "path g 0 ts q \<Longrightarrow> final_weight_map g q = Some fw \<Longrightarrow> reads (alphabet g) fds input ts out \<Longrightarrow>
     \<not> exceeds_weight m (path_weight ts + fw) \<Longrightarrow> P ts \<Longrightarrow> (path_weight ts + fw, out) \<in> read_results g fds m input P"
  unfolding read_results_def by blast

lemma read_results_mono:
  assumes "\<And>ts q out. path g 0 ts q \<Longrightarrow> reads (alphabet g) fds input ts out \<Longrightarrow> P ts \<Longrightarrow> Q ts"
  shows "read_results g fds m input P \<subseteq> read_results g fds m input Q"
  unfolding read_results_def using assms by blast

lemma walk_reads:
  "lookup_walk g lim input s h fds p ts r \<Longrightarrow>
     \<exists>q fw out. path g s ts q \<and> final_weight_map g q = Some fw \<and> reads (alphabet g) fds input ts out \<and>
       r = (fst p + path_weight ts + fw, snd p @ out) \<and> \<not> exceeds_weight (max_weight lim) (fst r)"
proof (induction ts arbitrary: input s h fds p)
  case Nil
  then show ?case by auto
next
  case (Cons tr ts)
  let ?l = "label_read input tr"
  let ?p = "(fst p + tr_weight tr, snd p @ [?l])"
  have tr: "tr \<in> set (transitions_of g s)" using Cons.prems by simp
  obtain input1 h1 where walk: "lookup_walk g lim input1 (tr_target tr) h1 (note_flag ?l fds) ?p ts r"
    "if consumes (alphabet g) input tr then input1 = tl input else passes fds tr \<and> input1 = input"
    using Cons.prems by (auto simp: Let_def split: if_splits)
  from Cons.IH [OF walk(1)] obtain q fw out where out: "path g (tr_target tr) ts q"
    "final_weight_map g q = Some fw" "reads (alphabet g) (note_flag ?l fds) input1 ts out"
    "r = (fst ?p + path_weight ts + fw, snd ?p @ out)" "\<not> exceeds_weight (max_weight lim) (fst r)" by blast
  have "reads (alphabet g) fds input (tr # ts) (?l # out)" using walk(2) out(3) by (auto split: if_splits)
  with tr out show ?case
    by (intro exI [of _ q] exI [of _ fw] exI [of _ "?l # out"]) (simp add: add.assoc)
qed

text \<open>With a limit on the weight, paths are cut as soon as their weight so far exceeds it; this is
  safe when no weight is negative.\<close>

definition weight_limit_safe :: "'w::linordered_ab_group_add hbt \<Rightarrow> 'w option \<Rightarrow> bool" where
  "weight_limit_safe g m \<longleftrightarrow> m = None \<or>
     (\<forall>s. \<forall>tr \<in> set (transitions_of g s). 0 \<le> tr_weight tr) \<and> (\<forall>w \<in> ran (final_weight_map g). 0 \<le> w)"

lemma safe_prefix:
  assumes "weight_limit_safe g m" and "path g s ts q" and "final_weight_map g q = Some fw"
    and "\<not> exceeds_weight m (w + path_weight ts + fw)"
  shows "\<not> exceeds_weight m w"
proof (cases m)
  case (Some k)
  with assms(1) have nonneg: "0 \<le> tr_weight tr" if "tr \<in> set (transitions_of g s)" for tr s
    using that by (auto simp: weight_limit_safe_def)
  have "0 \<le> path_weight ts" using assms(2) nonneg by (induction ts arbitrary: s) auto
  moreover have "0 \<le> fw" using assms(1,3) Some by (auto simp: weight_limit_safe_def ran_def)
  ultimately have "w \<le> w + (path_weight ts + fw)" by (simp add: add_nonneg_nonneg)
  moreover have "w + (path_weight ts + fw) \<le> k"
    using assms(4) Some by (simp add: exceeds_weight_def not_less add.assoc)
  ultimately have "w \<le> k" by (rule order_trans)
  with Some show ?thesis by (simp add: exceeds_weight_def not_less)
qed (simp add: exceeds_weight_def)

lemma can_continue_fresh: "s \<notin> set (epsilon_path h) \<Longrightarrow> can_continue s h = (True, h)"
  by (simp add: can_continue_def erase_after_None [THEN iffD2])

lemma set_eh_push_back [simp]: "set (epsilon_path (eh_push_back s h)) = insert s (set (epsilon_path h))"
  using last_in_set [of "epsilon_path h"] by (auto simp: eh_push_back_def)

lemma reads_walk:
  assumes safe: "weight_limit_safe g (max_weight lim)"
  shows "path g s ts q \<Longrightarrow> final_weight_map g q = Some fw \<Longrightarrow> reads (alphabet g) fds input ts out \<Longrightarrow>
     simple_runs (alphabet g) input (set (epsilon_path h)) s ts \<Longrightarrow>
     \<not> exceeds_weight (max_weight lim) (fst p + path_weight ts + fw) \<Longrightarrow>
     lookup_walk g lim input s h fds p ts (fst p + path_weight ts + fw, snd p @ out)"
proof (induction ts arbitrary: input s h fds p out)
  case Nil
  with safe_prefix [OF safe Nil(1,2,5)] show ?case by (simp add: can_continue_fresh)
next
  case (Cons tr ts)
  let ?l = "label_read input tr"
  let ?p = "(fst p + tr_weight tr, snd p @ [?l])"
  have s: "s \<notin> set (epsilon_path h)" using Cons.prems(4) by simp
  obtain out' where out: "out = ?l # out'" using Cons.prems(3) by auto
  have r: "(fst p + path_weight (tr # ts) + fw, snd p @ out) = (fst ?p + path_weight ts + fw, snd ?p @ out')"
    by (simp add: out add.assoc)
  have tr: "tr \<in> set (transitions_of g s)" and rest: "path g (tr_target tr) ts q" using Cons.prems(1) by simp_all
  have w: "\<not> exceeds_weight (max_weight lim) (fst ?p + path_weight ts + fw)"
    using Cons.prems(5) by (simp add: add.assoc)
  have w0: "\<not> exceeds_weight (max_weight lim) (fst p)" by (rule safe_prefix [OF safe Cons.prems(1,2,5)])
  show ?case
  proof (cases "consumes (alphabet g) input tr")
    case True
    have "lookup_walk g lim (tl input) (tr_target tr) (new_epsilon_handler (max_epsilon_cycles lim))
        (note_flag ?l fds) ?p ts (fst ?p + path_weight ts + fw, snd ?p @ out')"
      using True Cons.prems out rest w by (intro Cons.IH) (simp_all add: new_epsilon_handler_def)
    with True tr s w0 show ?thesis unfolding r by (simp add: can_continue_fresh Let_def)
  next
    case False
    then have "passes fds tr" using Cons.prems(3) by auto
    moreover have "lookup_walk g lim input (tr_target tr) (eh_push_back s h)
        (note_flag ?l fds) ?p ts (fst ?p + path_weight ts + fw, snd ?p @ out')"
      using False Cons.prems out rest w by (intro Cons.IH) simp_all
    ultimately show ?thesis using False tr s w0 unfolding r by (simp add: can_continue_fresh Let_def)
  qed
qed

text \<open>Without cycles of input-free transitions every path is simple in this sense.\<close>

lemma acyclic_simple_runs:
  assumes "\<not> (\<exists>p. free_cycle g p)"
  shows "path g s ts q \<Longrightarrow> reads (alphabet g) fds input ts out \<Longrightarrow> leads_to g V s \<Longrightarrow>
     simple_runs (alphabet g) input V s ts"
proof (induction ts arbitrary: input s fds V out)
  case Nil
  then show ?case using assms by (auto simp: leads_to_def free_cycle_def)
next
  case (Cons tr ts)
  have s: "s \<notin> V" using Cons.prems(3) assms by (auto simp: leads_to_def free_cycle_def)
  show ?case
  proof (cases "consumes (alphabet g) input tr")
    case True
    with Cons s show ?thesis by (auto simp: leads_to_def)
  next
    case False
    with Cons.prems have "passes fds tr" by auto
    then have "input_free tr" by (auto simp: passes_def input_free_def)
    with leads_to_step [OF Cons.prems(3)] Cons.prems(1) have "leads_to g (insert s V) (tr_target tr)" by simp
    with False Cons s show ?thesis by auto
  qed
qed

lemma lookup_collects:
  assumes "wf_graph g" and "finite R"
    and "lim = \<lparr>max_epsilon_cycles = (case c of None \<Rightarrow> 100000 | Some n \<Rightarrow> n), max_weight = m, max_number = N\<rparr>"
  shows "\<exists>R'. lookup s R c m N obey g = Some (Inr R') \<and>
     collects N R {r. \<exists>ts. lookup_walk g lim s 0 (new_epsilon_handler (max_epsilon_cycles lim))
       (if obey then Some [] else None) (0, []) ts r} R'"
proof -
  have "0 < length (state_vector g)" using assms(1) by (simp add: wf_graph_def)
  then have "call_ok g s lim 0 0 (new_epsilon_handler (max_epsilon_cycles lim))"
    by (intro lookup_call [OF assms(1)] handler_ok_new) simp_all
  from call_okD [OF this assms(2), of "(0, [])" "if obey then Some [] else None"] obtain R' where
    "lookup_from g s lim 0 None 0 (new_epsilon_handler (max_epsilon_cycles lim))
       (R, (0, []), if obey then Some [] else None) = Some (Inr (R', (0, []), if obey then Some [] else None))"
    "collects (max_number lim) R {r. \<exists>ts. lookup_walk g lim (drop 0 s) 0 (new_epsilon_handler (max_epsilon_cycles lim))
       (if obey then Some [] else None) (0, []) ts r} R'" by blast
  then show ?thesis unfolding assms(3) by (simp add: lookup_def Let_def)
qed

lemma walk_results_sound:
  "{r. \<exists>ts. lookup_walk g lim s 0 h fds (0, []) ts r} \<subseteq> read_results g fds (max_weight lim) s (\<lambda>_. True)"
proof
  fix r assume "r \<in> {r. \<exists>ts. lookup_walk g lim s 0 h fds (0, []) ts r}"
  then obtain ts where "lookup_walk g lim s 0 h fds (0, []) ts r" by blast
  from walk_reads [OF this] obtain q fw out where "path g 0 ts q" "final_weight_map g q = Some fw"
    "reads (alphabet g) fds s ts out" "r = (path_weight ts + fw, out)" "\<not> exceeds_weight (max_weight lim) (fst r)"
    by auto
  then show "r \<in> read_results g fds (max_weight lim) s (\<lambda>_. True)" by (simp add: read_resultsI)
qed

lemma walk_results_complete:
  assumes "weight_limit_safe g (max_weight lim)"
  shows "read_results g fds (max_weight lim) s (simple_runs (alphabet g) s {} 0) \<subseteq>
     {r. \<exists>ts. lookup_walk g lim s 0 (new_epsilon_handler n) fds (0, []) ts r}"
proof
  fix r assume "r \<in> read_results g fds (max_weight lim) s (simple_runs (alphabet g) s {} 0)"
  then obtain ts q fw out where r: "r = (path_weight ts + fw, out)" "path g 0 ts q" "final_weight_map g q = Some fw"
    "reads (alphabet g) fds s ts out" "\<not> exceeds_weight (max_weight lim) (path_weight ts + fw)"
    "simple_runs (alphabet g) s {} 0 ts" unfolding read_results_def by auto
  have "lookup_walk g lim s 0 (new_epsilon_handler n) fds (0, []) ts
      (fst (0, [] :: string_pair list) + path_weight ts + fw, snd (0 :: 'a, []) @ out)"
    using r by (intro reads_walk [OF assms r(2)]) (simp_all add: new_epsilon_handler_def)
  with r(1) show "r \<in> {r. \<exists>ts. lookup_walk g lim s 0 (new_epsilon_handler n) fds (0, []) ts r}" by auto
qed

lemma example_reads:
  "path example_graph 0 (transitions_of example_graph 0) 1" "final_weight_map example_graph 1 = Some 2"
  "path_weight (transitions_of example_graph 0) = 3"
  "reads (alphabet example_graph) fds [''a''] (transitions_of example_graph 0) [(''a'', ''b'')]"
  "simple_runs (alphabet example_graph) [''a''] {} 0 (transitions_of example_graph 0)"
  by (simp_all add: example_graph_simps consumes_def reads_symbol_def label_read_def is_identity_def
      is_unknown_def internal_identity_def internal_unknown_def tr_label_def)

section \<open>Properties\<close>

text \<open>C6. Lookup always ends on a well-formed graph, even with epsilon cycles, and without an error;
  it keeps the results given to it, every new one is the weight and the labels of an accepting
  path that reads the input, within the weight limit, and the number of results does not
  pass the limit given.\<close>

theorem lookup_sound:
  assumes "wf_graph g" and "finite results"
  shows "\<exists>results'. lookup s results cycles_limit weight_limit number_limit obey_flags g = Some (Inr results') \<and>
     results \<subseteq> results' \<and>
     (0 \<le> number_limit \<longrightarrow> card results' \<le> max (card results) (nat number_limit)) \<and>
     (\<forall>(w, out) \<in> results' - results. \<not> exceeds_weight weight_limit w \<and>
        (\<exists>ts q fw. path g 0 ts q \<and> final_weight_map g q = Some fw \<and> w = path_weight ts + fw \<and>
           reads (alphabet g) (if obey_flags then Some [] else None) s ts out))"
proof -
  let ?lim = "\<lparr>max_epsilon_cycles = (case cycles_limit of None \<Rightarrow> 100000 | Some n \<Rightarrow> n),
    max_weight = weight_limit, max_number = number_limit\<rparr>"
  from lookup_collects [OF assms refl, of s cycles_limit weight_limit number_limit obey_flags] obtain R' where
    R': "lookup s results cycles_limit weight_limit number_limit obey_flags g = Some (Inr R')"
    "collects number_limit results {r. \<exists>ts. lookup_walk g ?lim s 0 (new_epsilon_handler (max_epsilon_cycles ?lim))
       (if obey_flags then Some [] else None) (0, []) ts r} R'" by blast
  have "R' - results \<subseteq> read_results g (if obey_flags then Some [] else None) weight_limit s (\<lambda>_. True)"
    using R'(2) walk_results_sound [of g ?lim] unfolding collects_def by fastforce
  then show ?thesis using R' unfolding collects_def read_results_def by (intro exI [of _ R']) blast
qed

theorem lookup_sound_witness:
  "\<exists>r. lookup [''a''] {} None None 1 True example_graph = Some (Inr r) \<and> card r \<le> 1"
  using lookup_sound [of example_graph "{}" "[''a'']" None None 1 True] example_graph_wf
  by (auto simp: wf_hbt_def)

text \<open>C7. Every accepting path that reads the input, keeps within the weight limit (if there is one) and does not meet a state twice
  between two symbols consumed is found by lookup, whatever the limit on epsilon cycles, unless
  the number of results has reached its limit. With a weight limit the graph must not have negative weights, since
  the search gives up a path as soon as the weight so far exceeds the limit.\<close>

theorem lookup_complete:
  assumes "wf_graph g" and "finite results" and "weight_limit_safe g weight_limit"
    and "path g 0 ts q" and "final_weight_map g q = Some fw"
    and "reads (alphabet g) (if obey_flags then Some [] else None) s ts out"
    and "simple_runs (alphabet g) s {} 0 ts" and "\<not> exceeds_weight weight_limit (path_weight ts + fw)"
  shows "\<exists>results'. lookup s results cycles_limit weight_limit number_limit obey_flags g = Some (Inr results') \<and>
     ((path_weight ts + fw, out) \<in> results' \<or> 0 \<le> number_limit \<and> nat number_limit \<le> card results')"
proof -
  let ?lim = "\<lparr>max_epsilon_cycles = (case cycles_limit of None \<Rightarrow> 100000 | Some n \<Rightarrow> n),
    max_weight = weight_limit, max_number = number_limit\<rparr>"
  let ?fds = "if obey_flags then Some [] else None"
  from lookup_collects [OF assms(1,2) refl, of s cycles_limit weight_limit number_limit obey_flags] obtain R' where
    R': "lookup s results cycles_limit weight_limit number_limit obey_flags g = Some (Inr R')"
    "collects number_limit results {r. \<exists>ts. lookup_walk g ?lim s 0 (new_epsilon_handler (max_epsilon_cycles ?lim))
       ?fds (0, []) ts r} R'" by blast
  have "(path_weight ts + fw, out) \<in> read_results g ?fds weight_limit s (simple_runs (alphabet g) s {} 0)"
    using assms(4-8) unfolding read_results_def by blast
  with walk_results_complete [of g ?lim ?fds s "max_epsilon_cycles ?lim"] assms(3) have
    "(path_weight ts + fw, out) \<in> {r. \<exists>ts. lookup_walk g ?lim s 0 (new_epsilon_handler (max_epsilon_cycles ?lim))
       ?fds (0, []) ts r}" by auto
  then have "(path_weight ts + fw, out) \<in> R'" if "number_limit < 0 \<or> card R' < nat number_limit"
    using R'(2) that unfolding collects_def by blast
  with R'(1) show ?thesis by (intro exI [of _ R']) linarith
qed

theorem lookup_complete_witness:
  "\<exists>r. lookup [''a''] {} (Some 0) (Some 7) 10 True example_graph = Some (Inr r) \<and>
     ((5, [(''a'', ''b'')]) \<in> r \<or> 10 \<le> card r)"
proof -
  have "weight_limit_safe example_graph (Some 7)"
    by (auto simp: weight_limit_safe_def example_graph_simps ran_def split: if_splits)
  moreover have "\<not> exceeds_weight (Some 7) (path_weight (transitions_of example_graph 0) + 2)"
    by (simp add: example_reads exceeds_weight_def)
  ultimately show ?thesis
    using lookup_complete [of example_graph "{}" "Some 7" "transitions_of example_graph 0" 1 2 True "[''a'']"
        "[(''a'', ''b'')]" "Some 0" 10] example_graph_wf example_reads(1,2,4,5)
    by (simp add: wf_hbt_def example_reads(3))
qed

text \<open>C5. When the test for infinite ambiguity says no, lookup without limits on weight and number adds
  exactly the accepting paths that read the input.\<close>

theorem lookup_unambiguous:
  assumes "wf_graph g" and "is_infinitely_ambiguous g = Some (Inr False)" and "finite results"
  shows "lookup s results cycles_limit None (- 1) obey_flags g = Some (Inr (results \<union>
     {(w, out). \<exists>ts q fw. path g 0 ts q \<and> final_weight_map g q = Some fw \<and> w = path_weight ts + fw \<and>
        reads (alphabet g) (if obey_flags then Some [] else None) s ts out}))"
proof -
  let ?lim = "\<lparr>max_epsilon_cycles = (case cycles_limit of None \<Rightarrow> 100000 | Some n \<Rightarrow> n),
    max_weight = None, max_number = - 1\<rparr> :: 'a lookup_limits"
  let ?fds = "if obey_flags then Some [] else None"
  let ?W = "{r. \<exists>ts. lookup_walk g ?lim s 0 (new_epsilon_handler (max_epsilon_cycles ?lim)) ?fds (0, []) ts r}"
  from lookup_collects [OF assms(1,3) refl, of s cycles_limit None "- 1" obey_flags] obtain R' where
    R': "lookup s results cycles_limit None (- 1) obey_flags g = Some (Inr R')" "R' = results \<union> ?W"
    unfolding collects_def by auto
  have none: "\<not> (\<exists>p. free_cycle g p)" using assms(2) is_infinitely_ambiguous_result [OF assms(1)] by simp
  have "leads_to g {} 0" by (simp add: leads_to_def)
  then have "read_results g ?fds None s (\<lambda>_. True) \<subseteq> read_results g ?fds None s (simple_runs (alphabet g) s {} 0)"
    using acyclic_simple_runs [OF none] by (intro read_results_mono) blast
  moreover have "?W \<subseteq> read_results g ?fds None s (\<lambda>_. True)" using walk_results_sound [of g ?lim] by simp
  moreover have "read_results g ?fds None s (simple_runs (alphabet g) s {} 0) \<subseteq> ?W"
    using walk_results_complete [of g ?lim ?fds s "max_epsilon_cycles ?lim"] by (simp add: weight_limit_safe_def)
  ultimately have "?W = read_results g ?fds None s (\<lambda>_. True)" by blast
  also have "\<dots> = {(w, out). \<exists>ts q fw. path g 0 ts q \<and> final_weight_map g q = Some fw \<and> w = path_weight ts + fw \<and>
        reads (alphabet g) ?fds s ts out}" by (auto simp: read_results_def exceeds_weight_def)
  finally show ?thesis using R' by simp
qed

theorem lookup_unambiguous_witness:
  "\<exists>r. lookup [''a''] {} None None (- 1) False example_graph = Some (Inr r) \<and> (5, [(''a'', ''b'')]) \<in> r"
proof -
  have wf: "wf_graph example_graph" using example_graph_wf by (simp add: wf_hbt_def)
  have "is_infinitely_ambiguous example_graph = Some (Inr False)"
    using is_infinitely_ambiguous_result [OF wf] example_graph_no_cycle by simp
  note eq = lookup_unambiguous [OF wf this finite.emptyI, of "[''a'']" None False]
  have "\<exists>ts q fw. path example_graph 0 ts q \<and> final_weight_map example_graph q = Some fw \<and>
      5 = path_weight ts + fw \<and> reads (alphabet example_graph) None [''a''] ts [(''a'', ''b'')]"
    using example_reads(1-3) example_reads(4) [of None]
    by (intro exI [of _ "transitions_of example_graph 0"] exI [of _ 1] exI [of _ 2]) simp
  then show ?thesis unfolding eq by simp
qed

end
