(* ===== verification/PairSearch.thy ===== *)
theory PairSearch
  imports Rewriting
begin

text \<open>
  The recursion that \<open>find_matches\<close> and \<open>find_matches_for_merge\<close> of \<open>HfstBasicTransducer\<close> share
  (\<open>HfstBasicTransducer.cc\<close>, lines 3981 to 4002, 4046 to 4107 and 4253 to 4317): pairs of states of
  two graphs are given states in a result as they are met, and a state is gone through unless it
  is on the agenda. The locale \<open>pair_search\<close> states what the handling of a match must do for the
  search to end and to go through everything that can be reached.
\<close>

section \<open>The search\<close>

text \<open>The result under construction, the pairs that have a state in it and the agenda; merging also
  notes the markers it adds.\<close>

record 'w product_search =
  result_graph :: "'w hbt"
  state_map :: "nat \<times> nat \<rightharpoonup> nat"
  agenda :: "nat set"
  markers_added :: "string set"

definition find_target_state ::
  "nat \<Rightarrow> nat \<Rightarrow> 'w product_search \<Rightarrow> nat \<times> bool \<times> 'w product_search" where
  "find_target_state target1 target2 P =
     (case state_map P (target1, target2) of
        Some s \<Rightarrow> (s, False, P)
      | None \<Rightarrow> let (s, g) = add_new_state (result_graph P)
                in (s, True, P\<lparr>result_graph := g, state_map := (state_map P)((target1, target2) \<mapsto> s)\<rparr>))"

text \<open>What is found for a pair of states, in order, where an exception thrown in between is an
  element of the list; \<open>handle\<close> copies what was found to the result and gives the target state,
  \<open>next\<close> is the pair it leads to.\<close>

partial_function (option) search_pairs ::
  "(nat \<times> nat \<Rightarrow> 'm result list result) \<Rightarrow> ('m \<Rightarrow> nat \<Rightarrow> 'w product_search \<Rightarrow> (nat \<times> 'w product_search) result) \<Rightarrow>
     ('m \<Rightarrow> nat \<times> nat) \<Rightarrow> nat \<times> nat \<Rightarrow> nat \<Rightarrow> 'm result list option \<Rightarrow> 'w product_search \<Rightarrow>
     'w product_search result option" where
  "search_pairs steps handle next_pair pq state todo P = (case todo of
      None \<Rightarrow>
        (case steps pq of
           Inl e \<Rightarrow> Some (Inl e)
         | Inr ms \<Rightarrow> search_pairs steps handle next_pair pq state (Some ms) (P\<lparr>agenda := insert state (agenda P)\<rparr>))
    | Some found \<Rightarrow> (case found of
        [] \<Rightarrow> Some (Inr P)
      | r # rest \<Rightarrow> (case r of
          Inl e \<Rightarrow> Some (Inl e)
        | Inr m \<Rightarrow> (case handle m state P of
            Inl e \<Rightarrow> Some (Inl e)
          | Inr (target, P1) \<Rightarrow>
              if target \<notin> agenda P1
              then Option.bind (search_pairs steps handle next_pair (next_pair m) target None P1)
                (\<lambda>x. case x of
                   Inl e \<Rightarrow> Some (Inl e)
                 | Inr P2 \<Rightarrow> search_pairs steps handle next_pair pq state (Some rest) P2)
              else search_pairs steps handle next_pair pq state (Some rest) P1))))"

section \<open>What the search does\<close>

text \<open>\<open>inv\<close> is an invariant of the search, \<open>ext\<close> says that one state of it extends another, and
  \<open>did m pq P\<close> that \<open>m\<close>, found for the pair \<open>pq\<close>, has been copied to the result.\<close>

locale pair_search =
  fixes steps :: "nat \<times> nat \<Rightarrow> 'm result list result"
    and handle :: "'m \<Rightarrow> nat \<Rightarrow> 'w product_search \<Rightarrow> (nat \<times> 'w product_search) result"
    and next_pair :: "'m \<Rightarrow> nat \<times> nat"
    and pairs :: "(nat \<times> nat) set"
    and found :: "nat \<times> nat \<Rightarrow> 'm list"
    and inv :: "'w product_search \<Rightarrow> bool"
    and ext :: "'w product_search \<Rightarrow> 'w product_search \<Rightarrow> bool"
    and did :: "'m \<Rightarrow> nat \<times> nat \<Rightarrow> 'w product_search \<Rightarrow> bool"
  assumes finite_pairs: "finite pairs"
    and steps_found: "pq \<in> pairs \<Longrightarrow> steps pq = Inr (map Inr (found pq))"
    and next_in: "pq \<in> pairs \<Longrightarrow> m \<in> set (found pq) \<Longrightarrow> next_pair m \<in> pairs"
    and inv_map: "inv P \<Longrightarrow> dom (state_map P) \<subseteq> pairs \<and> inj_on (state_map P) (dom (state_map P)) \<and>
      agenda P \<subseteq> ran (state_map P)"
    and inv_agenda: "inv P \<Longrightarrow> s \<in> ran (state_map P) \<Longrightarrow> inv (P\<lparr>agenda := insert s (agenda P)\<rparr>) \<and>
      ext P (P\<lparr>agenda := insert s (agenda P)\<rparr>)"
    and ext_refl: "ext P P"
    and ext_trans: "ext P Q \<Longrightarrow> ext Q R \<Longrightarrow> ext P R"
    and ext_map: "ext P Q \<Longrightarrow> state_map P \<subseteq>\<^sub>m state_map Q \<and> agenda P \<subseteq> agenda Q"
    and ext_did: "ext P Q \<Longrightarrow> did m pq P \<Longrightarrow> did m pq Q"
    and handle_step: "inv P \<Longrightarrow> state_map P pq = Some s \<Longrightarrow> m \<in> set (found pq) \<Longrightarrow>
      \<exists>t Q. handle m s P = Inr (t, Q) \<and> inv Q \<and> ext P Q \<and> agenda Q = agenda P \<and>
        state_map Q (next_pair m) = Some t \<and> did m pq Q"
begin

definition gone_through :: "'w product_search \<Rightarrow> nat \<times> nat \<Rightarrow> 'm list \<Rightarrow> bool" where
  "gone_through P pq ms \<longleftrightarrow> (\<forall>m \<in> set ms. did m pq P \<and> (\<exists>t \<in> agenda P. state_map P (next_pair m) = Some t))"

text \<open>States newly on the agenda have been gone through.\<close>

definition progress :: "'w product_search \<Rightarrow> 'w product_search \<Rightarrow> bool" where
  "progress P Q \<longleftrightarrow> inv Q \<and> ext P Q \<and>
     (\<forall>pq s. state_map Q pq = Some s \<longrightarrow> s \<in> agenda Q - agenda P \<longrightarrow> gone_through Q pq (found pq))"

lemma progressD:
  "progress P Q \<Longrightarrow> state_map Q pq = Some s \<Longrightarrow> s \<in> agenda Q \<Longrightarrow> s \<notin> agenda P \<Longrightarrow> gone_through Q pq (found pq)"
  unfolding progress_def by blast

lemma gone_through_Cons:
  "gone_through R pq (m # ms) \<longleftrightarrow> gone_through R pq [m] \<and> gone_through R pq ms"
  by (auto simp: gone_through_def)

lemma ext_get: "ext P Q \<Longrightarrow> state_map P x = Some s \<Longrightarrow> state_map Q x = Some s"
  using ext_map [of P Q] unfolding map_le_def by (metis domI)

lemma gone_through_ext: "ext P Q \<Longrightarrow> gone_through P pq ms \<Longrightarrow> gone_through Q pq ms"
  using ext_map [of P Q] ext_did [of P Q] unfolding gone_through_def map_le_def by (metis domI subsetD)

lemma map_of_agenda:
  assumes "inv Q" and "ext P Q" and "state_map Q pq = Some s" and "s \<in> ran (state_map P)"
  shows "state_map P pq = Some s"
proof -
  from assms(4) obtain pq' where "state_map P pq' = Some s" by (auto simp: ran_def)
  moreover from this have "state_map Q pq' = Some s" by (rule ext_get [OF assms(2)])
  ultimately show ?thesis using inv_map [OF assms(1)] assms(3) by (metis domI inj_onD)
qed

lemma progress_trans:
  assumes "inv P" and "progress P Q" and "progress Q R"
  shows "progress P R"
proof -
  have e: "ext P Q" "ext Q R" "inv Q" "inv R" using assms by (simp_all add: progress_def)
  have "gone_through R pq (found pq)" if s: "state_map R pq = Some s" "s \<in> agenda R - agenda P" for pq s
  proof (cases "s \<in> agenda Q")
    case True
    then have "s \<in> ran (state_map Q)" using inv_map [OF e(3)] by blast
    note map_of_agenda [OF e(4,2) s(1) this]
    with True s(2) assms(2) have "gone_through Q pq (found pq)"
      using \<open>state_map Q pq = Some s\<close> unfolding progress_def by blast
    then show ?thesis by (rule gone_through_ext [OF e(2)])
  next
    case False
    with s show ?thesis using progressD [OF assms(3)] by blast
  qed
  then show ?thesis using e ext_trans unfolding progress_def by blast
qed

lemma search_loop:
  assumes "inv P" and "state_map P pq = Some s" and "set ms \<subseteq> set (found pq)" and "pq \<in> pairs"
    and call: "\<And>Q m t. inv Q \<Longrightarrow> ext P Q \<Longrightarrow> m \<in> set (found pq) \<Longrightarrow> state_map Q (next_pair m) = Some t \<Longrightarrow>
      t \<notin> agenda Q \<Longrightarrow> \<exists>R. search_pairs steps handle next_pair (next_pair m) t None Q = Some (Inr R) \<and>
        progress Q R \<and> t \<in> agenda R"
  shows "\<exists>R. search_pairs steps handle next_pair pq s (Some (map Inr ms)) P = Some (Inr R) \<and>
     progress P R \<and> gone_through R pq ms"
  using assms
proof (induction ms arbitrary: P)
  case Nil
  show ?case
    by (subst search_pairs.simps) (auto simp: progress_def gone_through_def ext_refl Nil.prems(1))
next
  case (Cons m ms)
  have m: "m \<in> set (found pq)" using Cons.prems(3) by simp
  from handle_step [OF Cons.prems(1,2) m] obtain t Q where Q: "handle m s P = Inr (t, Q)" "inv Q" "ext P Q"
    "agenda Q = agenda P" "state_map Q (next_pair m) = Some t" "did m pq Q" by blast
  have PQ: "progress P Q" using Q by (simp add: progress_def)
  obtain Q1 where Q1: "search_pairs steps handle next_pair pq s (Some (map Inr (m # ms))) P =
      search_pairs steps handle next_pair pq s (Some (map Inr ms)) Q1" "progress Q Q1" "t \<in> agenda Q1"
  proof (cases "t \<in> agenda Q")
    case True
    then have "search_pairs steps handle next_pair pq s (Some (map Inr (m # ms))) P =
        search_pairs steps handle next_pair pq s (Some (map Inr ms)) Q"
      using Q(1) by (subst search_pairs.simps) simp
    with True that [of Q] Q(2) ext_refl show ?thesis by (simp add: progress_def)
  next
    case False
    from Cons.prems(5) [OF Q(2,3) m Q(5) this] obtain R where R:
      "search_pairs steps handle next_pair (next_pair m) t None Q = Some (Inr R)" "progress Q R" "t \<in> agenda R" by blast
    then have "search_pairs steps handle next_pair pq s (Some (map Inr (m # ms))) P =
        search_pairs steps handle next_pair pq s (Some (map Inr ms)) R"
      using Q(1) False by (subst search_pairs.simps) simp
    with R that [of R] show ?thesis by simp
  qed
  have e: "inv Q1" "ext Q Q1" using Q1(2) by (simp_all add: progress_def)
  have PQ1: "progress P Q1" by (rule progress_trans [OF Cons.prems(1) PQ Q1(2)])
  then have eP: "ext P Q1" by (simp add: progress_def)
  have s: "state_map Q1 pq = Some s" by (rule ext_get [OF eP Cons.prems(2)])
  have "\<exists>R. search_pairs steps handle next_pair pq s (Some (map Inr ms)) Q1 = Some (Inr R) \<and>
     progress Q1 R \<and> gone_through R pq ms"
    using Cons.prems(3,5) ext_trans [OF eP] by (intro Cons.IH e(1) s Cons.prems(4)) auto
  then obtain R where R: "search_pairs steps handle next_pair pq s (Some (map Inr ms)) Q1 = Some (Inr R)"
    "progress Q1 R" "gone_through R pq ms" by blast
  have "gone_through Q1 pq [m]"
    using ext_did [OF e(2) Q(6)] ext_get [OF e(2) Q(5)] Q1(3) by (simp add: gone_through_def)
  moreover have "ext Q1 R" using R(2) by (simp add: progress_def)
  ultimately have "gone_through R pq (m # ms)"
    using R(3) gone_through_ext unfolding gone_through_Cons [of R pq m ms] by blast
  with R Q1(1) progress_trans [OF Cons.prems(1) PQ1 R(2)] show ?case by auto
qed

lemma agenda_bound:
  assumes "inv P"
  shows "finite (agenda P)" and "s \<in> ran (state_map P) \<Longrightarrow> s \<notin> agenda P \<Longrightarrow> card (agenda P) < card pairs"
proof -
  note m = inv_map [OF assms]
  have fd: "finite (dom (state_map P))" using m finite_pairs finite_subset by blast
  have r: "ran (state_map P) = the ` state_map P ` dom (state_map P)" by (force simp: ran_def dom_def)
  then have fr: "finite (ran (state_map P))" using fd by simp
  have "card (ran (state_map P)) \<le> card (dom (state_map P))" unfolding r image_image by (rule card_image_le [OF fd])
  also have "\<dots> \<le> card pairs" using m finite_pairs by (intro card_mono) auto
  finally have le: "card (ran (state_map P)) \<le> card pairs" .
  show "finite (agenda P)" using m fr finite_subset by blast
  show "card (agenda P) < card pairs" if "s \<in> ran (state_map P)" "s \<notin> agenda P"
  proof -
    have "agenda P \<subset> ran (state_map P)" using m that by blast
    from psubset_card_mono [OF fr this] le show ?thesis by linarith
  qed
qed

lemma search_result:
  "inv P \<Longrightarrow> state_map P pq = Some s \<Longrightarrow> s \<notin> agenda P \<Longrightarrow>
     \<exists>R. search_pairs steps handle next_pair pq s None P = Some (Inr R) \<and> progress P R \<and> s \<in> agenda R"
proof (induction "card pairs - card (agenda P)" arbitrary: P pq s rule: less_induct)
  case less
  let ?Q = "P\<lparr>agenda := insert s (agenda P)\<rparr>"
  have s: "s \<in> ran (state_map P)" using less.prems(2) by (rule ranI)
  note Q = inv_agenda [OF less.prems(1) s]
  have pq: "pq \<in> pairs" using inv_map [OF less.prems(1)] less.prems(2) by blast
  note fin = agenda_bound(1) [OF less.prems(1)]
  have "card (agenda ?Q) = Suc (card (agenda P))" using fin less.prems(3) by simp
  with agenda_bound(2) [OF less.prems(1) s less.prems(3)]
  have smaller: "card pairs - card (agenda ?Q) < card pairs - card (agenda P)" by simp
  have "\<exists>R. search_pairs steps handle next_pair pq s (Some (map Inr (found pq))) ?Q = Some (Inr R) \<and>
     progress ?Q R \<and> gone_through R pq (found pq)"
  proof (rule search_loop)
    fix Q1 m t
    assume m: "inv Q1" "ext ?Q Q1" "m \<in> set (found pq)" "state_map Q1 (next_pair m) = Some t" "t \<notin> agenda Q1"
    have "card (agenda ?Q) \<le> card (agenda Q1)"
      using ext_map [OF m(2)] agenda_bound(1) [OF m(1)] by (intro card_mono) auto
    with smaller have "card pairs - card (agenda Q1) < card pairs - card (agenda P)" by linarith
    then show "\<exists>R. search_pairs steps handle next_pair (next_pair m) t None Q1 = Some (Inr R) \<and>
        progress Q1 R \<and> t \<in> agenda R" using m by (intro less.hyps)
  qed (use Q less.prems pq in auto)
  then obtain R where R: "search_pairs steps handle next_pair pq s (Some (map Inr (found pq))) ?Q = Some (Inr R)"
    "progress ?Q R" "gone_through R pq (found pq)" by blast
  have e: "inv R" "ext P R" "ext ?Q R" using R(2) Q ext_trans by (auto simp: progress_def)
  have "s \<in> agenda R" using ext_map [OF e(3)] by auto
  moreover have "progress P R" unfolding progress_def
  proof (intro conjI allI impI)
    fix pq' s' assume a: "state_map R pq' = Some s'" "s' \<in> agenda R - agenda P"
    show "gone_through R pq' (found pq')"
    proof (cases "s' = s")
      case True
      have "state_map R pq = Some s" by (rule ext_get [OF e(2) less.prems(2)])
      with a True inv_map [OF e(1)] have "pq' = pq" by (metis domI inj_onD)
      with R(3) show ?thesis by simp
    next
      case False
      with a show ?thesis using progressD [OF R(2) a(1)] by simp
    qed
  qed (use e in auto)
  moreover have "search_pairs steps handle next_pair pq s None P = Some (Inr R)"
    using R(1) steps_found [OF pq] by (subst search_pairs.simps) simp
  ultimately show ?case by blast
qed

end

section \<open>The product under construction\<close>

text \<open>What intersection and merging keep: the pairs have different states in the result, and the
  final weight of a state is the one of its pair, \<open>F\<close>.\<close>

definition product_inv :: "(nat \<times> nat) set \<Rightarrow> (nat \<times> nat \<Rightarrow> 'w option) \<Rightarrow> 'w product_search \<Rightarrow> bool" where
  "product_inv pairs F P \<longleftrightarrow> wf_hbt (result_graph P) \<and>
     dom (state_map P) \<subseteq> pairs \<and> inj_on (state_map P) (dom (state_map P)) \<and>
     ran (state_map P) \<subseteq> {..<length (state_vector (result_graph P))} \<and> agenda P \<subseteq> ran (state_map P) \<and>
     state_map P (0, 0) = Some 0 \<and>
     (\<forall>pq s. state_map P pq = Some s \<longrightarrow> final_weight_map (result_graph P) s = F pq) \<and>
     dom (final_weight_map (result_graph P)) \<subseteq> ran (state_map P)"

text \<open>The three copies of the lines that make a new state final (4022 to 4028, 4145 to 4151 and
  4181 to 4187).\<close>

definition make_final ::
  "bool \<Rightarrow> 'w::plus hbt \<Rightarrow> nat \<Rightarrow> 'w hbt \<Rightarrow> nat \<Rightarrow> nat \<Rightarrow> 'w hbt \<Rightarrow> 'w hbt result" where
  "make_final was_new_state g1 target1 g2 target2 retval g =
     (if was_new_state \<and> (is_final_state target1 g1 \<and> is_final_state target2 g2)
      then rbind (get_final_weight target1 g1) (\<lambda>w1.
             rmap (\<lambda>w2. set_final_weight retval (w1 + w2) g) (get_final_weight target2 g2))
      else Inr g)"

definition final_sum :: "'w::plus hbt \<Rightarrow> 'w hbt \<Rightarrow> nat \<times> nat \<Rightarrow> 'w option" where
  "final_sum g1 g2 pq =
     (case (final_weight_map g1 (fst pq), final_weight_map g2 (snd pq)) of
        (Some w1, Some w2) \<Rightarrow> Some (w1 + w2) | _ \<Rightarrow> None)"

definition state_pairs :: "'w hbt \<Rightarrow> 'w hbt \<Rightarrow> (nat \<times> nat) set" where
  "state_pairs g1 g2 = {..<length (state_vector g1)} \<times> {..<length (state_vector g2)}"

lemma make_final_step:
  assumes "wf_graph g1" and "wf_graph g2" and "wf_hbt g" and "t < length (state_vector g)"
    and "new \<longrightarrow> final_weight_map g t = None"
  shows "\<exists>g'. make_final new g1 p g2 q t g = Inr g' \<and> wf_hbt g' \<and> transitions_of g' = transitions_of g \<and>
     length (state_vector g') = length (state_vector g) \<and>
     final_weight_map g' = (if new then (final_weight_map g)(t := final_sum g1 g2 (p, q)) else final_weight_map g)"
proof -
  have "(final_weight_map g)(t := None) = final_weight_map g" if new using assms(5) that by auto
  moreover have "transitions_of (set_final_weight t w g) = transitions_of g" for w
    by (rule ext) (rule set_final_weight_simps(2))
  moreover have "length (state_vector (set_final_weight t w g)) = length (state_vector g)" for w
    using assms(4) by (simp add: set_final_weight_simps)
  ultimately show ?thesis
    using set_final_weight_wf_hbt [OF assms(3)] assms(3)
    by (cases "final_weight_map g1 p"; cases "final_weight_map g2 q")
      (auto simp: make_final_def is_final_state_def final_sum_def set_final_weight_simps(3)
        final_weight_known [OF assms(1)] final_weight_known [OF assms(2)])
qed

lemma find_target:
  assumes "product_inv pairs F P" and "find_target_state p q P = (t, new, P1)"
  shows "state_map P1 (p, q) = Some t" and "new \<longleftrightarrow> state_map P (p, q) = None"
    and "state_map P1 = (if new then (state_map P)((p, q) \<mapsto> t) else state_map P)"
    and "agenda P1 = agenda P" and "t < length (state_vector (result_graph P1))"
    and "length (state_vector (result_graph P)) \<le> length (state_vector (result_graph P1))"
    and "transitions_of (result_graph P1) = transitions_of (result_graph P)"
    and "final_weight_map (result_graph P1) = final_weight_map (result_graph P)"
    and "new \<Longrightarrow> t = length (state_vector (result_graph P))"
    and "wf_hbt (result_graph P1)" and "markers_added P1 = markers_added P"
proof -
  have old: "wf_hbt (result_graph P)" using assms(1) by (simp add: product_inv_def)
  have wf: "wf_hbt (snd (add_new_state (result_graph P)))" by (rule add_new_state_wf_hbt [OF old])
  obtain s g where g: "add_new_state (result_graph P) = (s, g)" by (cases "add_new_state (result_graph P)")
  note simps = add_new_state_simps [of "result_graph P", unfolded g, simplified]
  show r: "state_map P1 (p, q) = Some t" "new \<longleftrightarrow> state_map P (p, q) = None"
    "state_map P1 = (if new then (state_map P)((p, q) \<mapsto> t) else state_map P)"
    "agenda P1 = agenda P"
    "length (state_vector (result_graph P)) \<le> length (state_vector (result_graph P1))"
    "transitions_of (result_graph P1) = transitions_of (result_graph P)"
    "final_weight_map (result_graph P1) = final_weight_map (result_graph P)"
    "new \<Longrightarrow> t = length (state_vector (result_graph P))"
    "wf_hbt (result_graph P1)" "markers_added P1 = markers_added P"
    using assms(2) wf old simps by (auto simp: find_target_state_def g split: option.splits)
  show "t < length (state_vector (result_graph P1))"
  proof (cases "state_map P (p, q)")
    case None
    then show ?thesis using assms(2) simps by (auto simp: find_target_state_def g)
  next
    case (Some s)
    from ranI [of "state_map P" "(p, q)", OF this] assms(1) have "s < length (state_vector (result_graph P))"
      unfolding product_inv_def by blast
    with Some assms(2) show ?thesis by (simp add: find_target_state_def)
  qed
qed

lemma product_step:
  assumes inv: "product_inv pairs F P" and f: "find_target_state p q P = (t, new, P1)"
    and "(p, q) \<in> pairs" and "wf_hbt g"
    and "length (state_vector (result_graph P1)) \<le> length (state_vector g)"
    and fin: "final_weight_map g =
      (if new then (final_weight_map (result_graph P))(t := F (p, q)) else final_weight_map (result_graph P))"
  shows "product_inv pairs F (P1\<lparr>result_graph := g, markers_added := M\<rparr>)"
proof (cases new)
  case True
  note ft = find_target [OF inv f]
  have m: "state_map P1 = (state_map P)((p, q) \<mapsto> t)" "state_map P (p, q) = None"
    "t = length (state_vector (result_graph P))" using True ft by auto
  have r: "ran (state_map P) \<subseteq> {..<t}" using inv m(3) by (simp add: product_inv_def)
  then have t: "t \<notin> ran (state_map P)" by auto
  have ran: "ran (state_map P1) = insert t (ran (state_map P))" using m by simp
  have "inj_on (state_map P1) (dom (state_map P1))"
    using inv t m(2) unfolding m(1) product_inv_def inj_on_def by (auto simp: ran_def)
  moreover have "final_weight_map g s = F pq" if s: "state_map P1 pq = Some s" for pq s
  proof (cases "pq = (p, q)")
    case True
    with s \<open>new\<close> show ?thesis by (simp add: m(1) fin)
  next
    case False
    with s have "state_map P pq = Some s" by (simp add: m(1))
    with ranI [of "state_map P" pq, OF this] t inv \<open>new\<close> show ?thesis by (auto simp: fin product_inv_def simp del: split_paired_All)
  qed
  ultimately show ?thesis
    using inv assms(3-5) ft(4,5) True m(2) r
    unfolding product_inv_def by (auto simp: ran m(1) fin split: if_splits)
next
  case False
  with find_target [OF inv f] inv assms(3-6) show ?thesis by (auto simp: product_inv_def)
qed

lemma finish_target:
  assumes wf: "wf_graph g1" "wf_graph g2" and inv: "product_inv pairs F P"
    and f: "find_target_state p q P = (t, new, P1)" and "(p, q) \<in> pairs"
    and F: "\<And>pq. pq \<noteq> (0, 0) \<Longrightarrow> F pq = final_sum g1 g2 pq"
    and h: "wf_hbt h" "length (state_vector (result_graph P1)) \<le> length (state_vector h)"
      "final_weight_map h = final_weight_map (result_graph P)"
  shows "\<exists>g. make_final new g1 p g2 q t h = Inr g \<and> transitions_of g = transitions_of h \<and>
     length (state_vector g) = length (state_vector h) \<and>
     product_inv pairs F (P1\<lparr>result_graph := g, markers_added := M\<rparr>)"
proof -
  note ft = find_target [OF inv f]
  have "t < length (state_vector h)" using ft(5) h(2) by simp
  moreover have "final_weight_map h t = None" if new
    using ft(9) [OF that] inv h(3) unfolding product_inv_def by (auto simp: domIff)
  ultimately obtain g where g: "make_final new g1 p g2 q t h = Inr g" "wf_hbt g"
    "transitions_of g = transitions_of h" "length (state_vector g) = length (state_vector h)"
    "final_weight_map g = (if new then (final_weight_map h)(t := final_sum g1 g2 (p, q)) else final_weight_map h)"
    using make_final_step [OF wf h(1), of t new p q] by blast
  have "(p, q) \<noteq> (0, 0)" if new using that ft(2) inv by (auto simp: product_inv_def)
  then have fin: "final_weight_map g = (if new then (final_weight_map (result_graph P))(t := F (p, q))
      else final_weight_map (result_graph P))"
    using g(5) h(3) F by auto
  have "product_inv pairs F (P1\<lparr>result_graph := g, markers_added := M\<rparr>)"
    by (rule product_step [OF inv f assms(5) g(2) _ fin]) (simp add: g(4) h(2))
  with g(1,3,4) show ?thesis by blast
qed

text \<open>The search only adds.\<close>

definition search_ext :: "'w product_search \<Rightarrow> 'w product_search \<Rightarrow> bool" where
  "search_ext P Q \<longleftrightarrow> state_map P \<subseteq>\<^sub>m state_map Q \<and> agenda P \<subseteq> agenda Q \<and>
     markers_added P \<subseteq> markers_added Q \<and>
     (\<forall>s. set (transitions_of (result_graph P) s) \<subseteq> set (transitions_of (result_graph Q) s))"

lemma search_ext_refl: "search_ext P P" by (simp add: search_ext_def)

lemma search_ext_trans: "search_ext P Q \<Longrightarrow> search_ext Q R \<Longrightarrow> search_ext P R"
  unfolding search_ext_def using map_le_trans by blast

lemma search_ext_map: "search_ext P Q \<Longrightarrow> state_map P pq = Some s \<Longrightarrow> state_map Q pq = Some s"
  unfolding search_ext_def map_le_def by (metis domI)

lemma search_ext_agenda: "search_ext P (P\<lparr>agenda := insert s (agenda P)\<rparr>)"
  by (auto simp: search_ext_def)

lemma product_inv_agenda:
  "product_inv pairs F P \<Longrightarrow> s \<in> ran (state_map P) \<Longrightarrow> product_inv pairs F (P\<lparr>agenda := insert s (agenda P)\<rparr>)"
  by (simp add: product_inv_def)

lemma same_pair:
  "product_inv pairs F P \<Longrightarrow> state_map P pq = Some s \<Longrightarrow> state_map P pq' = Some s \<Longrightarrow> pq = pq'"
  unfolding product_inv_def by (metis domI inj_onD)

text \<open>The lines that make the initial state final (4119 to 4123 and 4329 to 4333), \<open>f\<close> giving the weight.\<close>

definition initial_result :: "('w \<Rightarrow> 'w \<Rightarrow> 'w) \<Rightarrow> 'w hbt \<Rightarrow> 'w hbt \<Rightarrow> 'w hbt result" where
  "initial_result f g1 g2 =
     (if is_final_state 0 g1 \<and> is_final_state 0 g2
      then rbind (get_final_weight 0 g1) (\<lambda>w1.
             rmap (\<lambda>w2. set_final_weight 0 (f w1 w2) new_hbt) (get_final_weight 0 g2))
      else Inr new_hbt)"

lemma initial_result_ok:
  assumes "wf_graph g1" and "wf_graph g2"
  shows "\<exists>r. initial_result f g1 g2 = Inr r \<and> wf_hbt r \<and> (\<forall>s. transitions_of r s = []) \<and>
     length (state_vector r) = 1 \<and> final_weight_map r = Map.empty(0 :=
       (case (final_weight_map g1 0, final_weight_map g2 0) of (Some w1, Some w2) \<Rightarrow> Some (f w1 w2) | _ \<Rightarrow> None))"
proof (cases "final_weight_map g1 0")
  case None
  then show ?thesis by (simp add: initial_result_def is_final_state_def)
next
  case (Some w1)
  note f1 = this
  show ?thesis
  proof (cases "final_weight_map g2 0")
    case None
    then show ?thesis by (cases "final_weight_map g1 0") (simp_all add: initial_result_def is_final_state_def)
  next
    case (Some w2)
    with f1 show ?thesis
      by (simp add: initial_result_def is_final_state_def final_weight_known [OF assms(1)]
          final_weight_known [OF assms(2)] set_final_weight_simps set_final_weight_wf_hbt)
  qed
qed

lemma product_inv_initial:
  assumes "wf_hbt r" and "length (state_vector r) = 1" and "final_weight_map r = Map.empty(0 := F (0, 0))"
    and "(0, 0) \<in> pairs"
  shows "product_inv pairs F \<lparr>result_graph = r, state_map = [(0, 0) \<mapsto> 0], agenda = {}, markers_added = M\<rparr>"
  using assms by (auto simp: product_inv_def split: if_splits)

lemma initial_pair: "wf_graph g1 \<Longrightarrow> wf_graph g2 \<Longrightarrow> (0, 0) \<in> state_pairs g1 g2"
  by (simp add: state_pairs_def wf_graph_def)

end
