(* ===== verification/Intersection.thy ===== *)
theory Intersection
  imports PairSearch Substitution
begin

text \<open>
  \<open>HfstBasicTransducer::intersect\<close> with \<open>handle_match\<close> and \<open>find_matches\<close>
  (\<open>HfstBasicTransducer.cc\<close>, lines 4004 to 4128). The search is the one of \<open>PairSearch\<close>, whose
  locale is interpreted here: a match is a pair of transitions, found by going through both sorted
  lists. The result accepts nothing but what both graphs accept, with the weights added; it
  accepts all of it when the sorted lists are in the order of the labels, which sorting by target
  states first does not ensure.
\<close>

section \<open>Matching two sorted lists\<close>

definition tr_less :: "symtab \<Rightarrow> 'w transition \<Rightarrow> 'w transition \<Rightarrow> bool" where
  "tr_less tab t1 t2 =
     less_than_ignore_weight (arc_data (encode_transition tab t1)) (arc_data (encode_transition tab t2))"

text \<open>The inner loop, over the transitions from the index \<open>j\<close> on: it gives the index where the search
  for the next transition starts, and the match if there is one.\<close>

fun search_match ::
  "symtab \<Rightarrow> 'w transition \<Rightarrow> nat \<Rightarrow> nat \<Rightarrow> 'w transition list \<Rightarrow> nat \<times> 'w transition option" where
  "search_match tab t1 start j [] = (start, None)"
| "search_match tab t1 start j (t2 # ts) =
     (if tr_less tab t2 t1 then search_match tab t1 start (j + 1) ts
      else if tr_less tab t1 t2 then (j, None)
      else (j + 1, Some t2))"

fun find_all ::
  "symtab \<Rightarrow> 'w transition list \<Rightarrow> nat \<Rightarrow> 'w transition list \<Rightarrow> ('w transition \<times> 'w transition) list" where
  "find_all tab [] start tr2 = []"
| "find_all tab (t1 # tr1) start tr2 =
     (let (start', match) = search_match tab t1 start start (drop start tr2)
      in (case match of Some t2 \<Rightarrow> [(t1, t2)] | None \<Rightarrow> []) @ find_all tab tr1 start' tr2)"

section \<open>Intersection\<close>

definition intersect_steps ::
  "symtab \<Rightarrow> 'w hbt \<Rightarrow> 'w hbt \<Rightarrow> nat \<times> nat \<Rightarrow> ('w transition \<times> 'w transition) result list result" where
  "intersect_steps tab g1 g2 ss =
     (case ss of (state1, state2) \<Rightarrow>
        if \<not> (state1 < length (state_vector g1) \<and> state2 < length (state_vector g2)) then Inl UndefinedBehaviour
        else let tr1 = state_vector g1 ! state1; tr2 = state_vector g2 ! state2
          in if length tr1 = 0 \<or> length tr2 = 0 then Inr []
             else Inr (map Inr (find_all tab tr1 0 tr2)))"

definition handle_match ::
  "'w::plus hbt \<Rightarrow> 'w hbt \<Rightarrow> 'w transition \<times> 'w transition \<Rightarrow> nat \<Rightarrow> 'w product_search \<Rightarrow>
     (nat \<times> 'w product_search) result" where
  "handle_match g1 g2 trs s P =
     (let tr1 = fst trs; tr2 = snd trs; target1 = tr_target tr1; target2 = tr_target tr2;
          (retval, was_new_state, P1) = find_target_state target1 target2 P;
          transition_weight = tr_weight tr1 + tr_weight tr2
      in rbind (new_transition retval (tr_input tr1) (tr_output tr1) transition_weight) (\<lambda>tr.
         rmap (\<lambda>g. (retval, P1\<lparr>result_graph := g\<rparr>))
           (make_final was_new_state g1 target1 g2 target2 retval (add_transition s tr True (result_graph P1)))))"

definition match_targets :: "'w transition \<times> 'w transition \<Rightarrow> nat \<times> nat" where
  "match_targets trs = (tr_target (fst trs), tr_target (snd trs))"

definition find_matches ::
  "symtab \<Rightarrow> 'w::plus hbt \<Rightarrow> 'w hbt \<Rightarrow> nat \<times> nat \<Rightarrow> nat \<Rightarrow> 'w product_search \<Rightarrow> 'w product_search result option" where
  "find_matches tab g1 g2 pq s P =
     search_pairs (intersect_steps tab g1 g2) (handle_match g1 g2) match_targets pq s None P"

definition intersect :: "symtab \<Rightarrow> 'w::{linorder, plus} hbt \<Rightarrow> 'w hbt \<Rightarrow> 'w hbt result option" where
  "intersect tab graph1 graph2 =
     (let g1 = sort_arcs tab graph1; g2 = sort_arcs tab graph2
      in case initial_result min g1 g2 of
           Inl e \<Rightarrow> Some (Inl e)
         | Inr r \<Rightarrow> map_option (rmap result_graph)
             (find_matches tab g1 g2 (0, 0) 0
                \<lparr>result_graph = r, state_map = [(0, 0) \<mapsto> 0], agenda = {}, markers_added = {}\<rparr>))"

section \<open>What is matched\<close>

text \<open>The order used in matching, on the numbers of the label.\<close>

definition label_number :: "symtab \<Rightarrow> 'w transition \<Rightarrow> nat \<times> nat" where
  "label_number tab t = pair_number tab (tr_label t)"

lemma tr_less_number: "tr_less tab t1 t2 \<longleftrightarrow> label_number tab t1 < label_number tab t2"
  by (auto simp: tr_less_def less_than_ignore_weight_def encode_transition_def label_number_def
      pair_number_def tr_label_def less_prod_def)

lemma label_number_inj:
  "symtab_ok tab \<Longrightarrow> numbered tab t1 \<Longrightarrow> numbered tab t2 \<Longrightarrow>
     label_number tab t1 = label_number tab t2 \<longleftrightarrow> tr_label t1 = tr_label t2"
  using pair_number_inj [of tab "tr_label t1" "tr_label t2"]
  by (auto simp: label_number_def numbered_def pair_numbered_def tr_label_def)

lemma search_match_sound:
  "search_match tab t1 start j ts = (start', Some t2) \<Longrightarrow>
     t2 \<in> set ts \<and> label_number tab t1 = label_number tab t2"
  by (induction ts arbitrary: j) (auto simp: tr_less_number split: if_splits)

lemma find_all_sound:
  "(t1, t2) \<in> set (find_all tab tr1 start tr2) \<Longrightarrow>
     t1 \<in> set tr1 \<and> t2 \<in> set tr2 \<and> label_number tab t1 = label_number tab t2"
  by (induction tr1 arbitrary: start)
    (auto split: option.splits dest: search_match_sound [OF sym] in_set_dropD)

text \<open>In lists ordered strictly by labels, everything is found.\<close>

abbreviation label_sorted :: "symtab \<Rightarrow> 'w transition list \<Rightarrow> bool" where
  "label_sorted tab \<equiv> sorted_wrt (\<lambda>t u. label_number tab t < label_number tab u)"

lemma search_match_start:
  "label_sorted tab ts \<Longrightarrow> search_match tab t1 start j ts = (start', match) \<Longrightarrow>
     (start' = start \<or> j \<le> start' \<and> start' \<le> j + length ts) \<and>
     (start' \<noteq> start \<longrightarrow> (\<forall>t \<in> set (take (start' - j) ts). label_number tab t \<le> label_number tab t1)) \<and>
     ((\<exists>t \<in> set ts. label_number tab t = label_number tab t1) \<longrightarrow>
        (\<exists>t2. match = Some t2))"
proof (induction ts arbitrary: j)
  case Nil
  then show ?case by auto
next
  case (Cons t ts)
  show ?case
  proof (cases "label_number tab t < label_number tab t1")
    case True
    with Cons have "search_match tab t1 start (j + 1) ts = (start', match)" by (simp add: tr_less_number)
    moreover have "label_sorted tab ts" using Cons.prems(1) by simp
    ultimately have IH: "start' = start \<or> j + 1 \<le> start' \<and> start' \<le> j + 1 + length ts"
      "start' \<noteq> start \<Longrightarrow> \<forall>t \<in> set (take (start' - (j + 1)) ts). label_number tab t \<le> label_number tab t1"
      "(\<exists>t \<in> set ts. label_number tab t = label_number tab t1) \<longrightarrow> (\<exists>t2. match = Some t2)"
      using Cons.IH [of "j + 1"] by blast+
    have "\<forall>u \<in> set (take (start' - j) (t # ts)). label_number tab u \<le> label_number tab t1" if "start' \<noteq> start"
    proof -
      have "start' - j = Suc (start' - (j + 1))" using IH(1) that by linarith
      then show ?thesis using IH(2) [OF that] True by simp
    qed
    with IH True show ?thesis by auto
  next
    case False
    then show ?thesis using Cons.prems by (auto simp: tr_less_number split: if_splits)
  qed
qed

lemma find_all_complete:
  "label_sorted tab tr1 \<Longrightarrow> label_sorted tab tr2 \<Longrightarrow> t1 \<in> set tr1 \<Longrightarrow> t2 \<in> set (drop start tr2) \<Longrightarrow>
     label_number tab t1 = label_number tab t2 \<Longrightarrow> (t1, t2) \<in> set (find_all tab tr1 start tr2)"
proof (induction tr1 arbitrary: start)
  case Nil
  then show ?case by simp
next
  case (Cons t tr1)
  obtain start' match where m: "search_match tab t start start (drop start tr2) = (start', match)"
    by (cases "search_match tab t start start (drop start tr2)")
  have srt: "label_sorted tab (drop start tr2)" using Cons.prems(2) by (rule sorted_wrt_drop)
  note st = search_match_start [OF srt m]
  show ?case
  proof (cases "t1 = t")
    case True
    with st Cons.prems obtain u where u: "match = Some u" by metis
    from search_match_sound [OF m [unfolded u]] have "u \<in> set (drop start tr2)"
      "label_number tab u = label_number tab t2" using True Cons.prems(5) by simp_all
    then have "u = t2" using srt Cons.prems(4) by (auto simp: in_set_conv_nth sorted_wrt_iff_nth_less)
        (metis linorder_neqE_nat order_less_irrefl)
    with True m u show ?thesis by simp
  next
    case False
    with Cons.prems have t1: "t1 \<in> set tr1" "label_number tab t < label_number tab t2" by auto
    have "t2 \<in> set (drop start' tr2)"
    proof (cases "start' = start")
      case True
      with Cons.prems(4) show ?thesis by simp
    next
      case False
      with st have le: "start \<le> start'" "\<forall>u \<in> set (take (start' - start) (drop start tr2)).
          label_number tab u \<le> label_number tab t" by auto
      then have "t2 \<notin> set (take (start' - start) (drop start tr2))" using t1(2) by auto
      moreover have "t2 \<in> set (take (start' - start) (drop start tr2) @ drop (start' - start) (drop start tr2))"
        using Cons.prems(4) by (simp only: append_take_drop_id)
      ultimately show ?thesis using le(1) by simp
    qed
    with Cons.IH [of start'] Cons.prems t1(1) m show ?thesis by (auto split: option.splits)
  qed
qed

lemma find_all_empty [simp]: "find_all tab tr1 start [] = []"
  by (induction tr1 arbitrary: start) (auto split: option.splits prod.splits)

section \<open>The search for matches\<close>

definition matched_pairs :: "'w hbt \<Rightarrow> 'w hbt \<Rightarrow> (nat \<times> nat) set" where
  "matched_pairs g1 g2 = (if wf_hbt g1 \<and> wf_hbt g2 then state_pairs g1 g2 else {})"

definition matches :: "symtab \<Rightarrow> 'w hbt \<Rightarrow> 'w hbt \<Rightarrow> nat \<times> nat \<Rightarrow> ('w transition \<times> 'w transition) list" where
  "matches tab g1 g2 pq = find_all tab (transitions_of g1 (fst pq)) 0 (transitions_of g2 (snd pq))"

text \<open>The final weight of a pair: the initial pair gets the smaller weight, every other pair the sum.\<close>

definition pair_final :: "'w::{linorder, plus} hbt \<Rightarrow> 'w hbt \<Rightarrow> nat \<times> nat \<Rightarrow> 'w option" where
  "pair_final g1 g2 pq =
     (if pq = (0, 0)
      then (case (final_weight_map g1 0, final_weight_map g2 0) of
              (Some w1, Some w2) \<Rightarrow> Some (min w1 w2) | _ \<Rightarrow> None)
      else final_sum g1 g2 pq)"

text \<open>The transition \<open>t\<close> of the result copies the match \<open>m\<close>.\<close>

definition copies :: "'w::plus product_search \<Rightarrow> 'w transition \<times> 'w transition \<Rightarrow> 'w transition \<Rightarrow> bool" where
  "copies P m t \<longleftrightarrow> tr_label t = tr_label (fst m) \<and> tr_weight t = tr_weight (fst m) + tr_weight (snd m) \<and>
     state_map P (match_targets m) = Some (tr_target t)"

definition match_copied ::
  "'w::plus transition \<times> 'w transition \<Rightarrow> nat \<times> nat \<Rightarrow> 'w product_search \<Rightarrow> bool" where
  "match_copied m pq P \<longleftrightarrow> (\<exists>s. state_map P pq = Some s \<and>
     (\<exists>t \<in> set (transitions_of (result_graph P) s). copies P m t))"

definition intersect_inv ::
  "symtab \<Rightarrow> 'w::{linorder, plus} hbt \<Rightarrow> 'w hbt \<Rightarrow> 'w product_search \<Rightarrow> bool" where
  "intersect_inv tab g1 g2 P \<longleftrightarrow> product_inv (matched_pairs g1 g2) (pair_final g1 g2) P \<and>
     (\<forall>s. \<forall>t \<in> set (transitions_of (result_graph P) s).
        \<exists>pq. state_map P pq = Some s \<and> (\<exists>m \<in> set (matches tab g1 g2 pq). copies P m t))"

lemma matches_in:
  assumes "m \<in> set (matches tab g1 g2 pq)"
  shows "fst m \<in> set (transitions_of g1 (fst pq))" and "snd m \<in> set (transitions_of g2 (snd pq))"
    and "label_number tab (fst m) = label_number tab (snd m)"
  using assms find_all_sound [of "fst m" "snd m"] by (auto simp: matches_def)

lemma copies_ext: "search_ext P Q \<Longrightarrow> copies P m t \<Longrightarrow> copies Q m t"
  by (auto simp: copies_def dest: search_ext_map)

lemma match_copied_ext: "search_ext P Q \<Longrightarrow> match_copied m pq P \<Longrightarrow> match_copied m pq Q"
proof -
  assume e: "search_ext P Q" and "match_copied m pq P"
  then obtain s t where s: "state_map P pq = Some s" "t \<in> set (transitions_of (result_graph P) s)"
    "copies P m t" by (auto simp: match_copied_def)
  moreover have "t \<in> set (transitions_of (result_graph Q) s)" using e s(2) by (auto simp: search_ext_def)
  ultimately show ?thesis using search_ext_map [OF e s(1)] copies_ext [OF e s(3)]
    unfolding match_copied_def by blast
qed

lemma match_targets_in:
  assumes "pq \<in> matched_pairs g1 g2" and "m \<in> set (matches tab g1 g2 pq)"
  shows "match_targets m \<in> matched_pairs g1 g2"
proof -
  have "wf_graph g1" "wf_graph g2" using assms(1) by (auto simp: matched_pairs_def wf_hbt_def split: if_splits)
  with matches_in(1,2) [OF assms(2)] assms(1) show ?thesis
    by (auto simp: matched_pairs_def state_pairs_def match_targets_def dest: wf_graph_target split: if_splits)
qed

lemma handle_match_step:
  assumes inv: "intersect_inv tab g1 g2 P" and pq: "state_map P pq = Some s" and m: "m \<in> set (matches tab g1 g2 pq)"
  shows "\<exists>t Q. handle_match g1 g2 m s P = Inr (t, Q) \<and> intersect_inv tab g1 g2 Q \<and> search_ext P Q \<and>
     agenda Q = agenda P \<and> state_map Q (match_targets m) = Some t \<and> match_copied m pq Q"
proof -
  have pi: "product_inv (matched_pairs g1 g2) (pair_final g1 g2) P"
    and from_match: "\<And>s t. t \<in> set (transitions_of (result_graph P) s) \<Longrightarrow>
        \<exists>pq. state_map P pq = Some s \<and> (\<exists>m \<in> set (matches tab g1 g2 pq). copies P m t)"
    using inv unfolding intersect_inv_def by blast+
  have inpq: "pq \<in> matched_pairs g1 g2" using pi pq unfolding product_inv_def by blast
  then have wf: "wf_graph g1" "wf_graph g2" by (auto simp: matched_pairs_def wf_hbt_def split: if_splits)
  note target = match_targets_in [OF inpq m]
  obtain t new P1 where f: "find_target_state (tr_target (fst m)) (tr_target (snd m)) P = (t, new, P1)"
    by (cases "find_target_state (tr_target (fst m)) (tr_target (snd m)) P")
  note ft = find_target [OF pi f]
  have "tr_input (fst m) \<noteq> []" "tr_output (fst m) \<noteq> []"
    using matches_in(1) [OF m] wf(1) by (auto simp: wf_graph_iff wf_transition_def)
  from new_transition_ok [OF this, where t = t and w = "tr_weight (fst m) + tr_weight (snd m)"] obtain tr where tr: "new_transition t (tr_input (fst m)) (tr_output (fst m))
      (tr_weight (fst m) + tr_weight (snd m)) = Inr tr" "tr_target tr = t" "tr_label tr = (tr_input (fst m), tr_output (fst m))"
      "tr_weight tr = tr_weight (fst m) + tr_weight (snd m)"
    by blast
  have s: "s < length (state_vector (result_graph P))"
    using pi pq unfolding product_inv_def by (auto intro: ranI)
  let ?g = "add_transition s tr True (result_graph P1)"
  have len: "length (state_vector ?g) = length (state_vector (result_graph P1))"
    using s ft(5,6) tr(2) by (simp add: add_transition_simps(1))
  have "pq' \<noteq> (0, 0) \<Longrightarrow> pair_final g1 g2 pq' = final_sum g1 g2 pq'" for pq' by (simp add: pair_final_def)
  moreover have "(tr_target (fst m), tr_target (snd m)) \<in> matched_pairs g1 g2"
    using target by (simp add: match_targets_def)
  ultimately obtain g where g: "make_final new g1 (tr_target (fst m)) g2 (tr_target (snd m)) t ?g = Inr g"
    "transitions_of g = transitions_of ?g" "length (state_vector g) = length (state_vector ?g)"
    "product_inv (matched_pairs g1 g2) (pair_final g1 g2) (P1\<lparr>result_graph := g, markers_added := markers_added P1\<rparr>)"
    using finish_target [OF wf pi f, of ?g] add_transition_wf_hbt [OF ft(10) tr(1)] len ft(8)
    by (simp only: add_transition_simps(2)) blast
  let ?Q = "P1\<lparr>result_graph := g\<rparr>"
  have trs: "transitions_of g u = (if u = s then transitions_of (result_graph P) s @ [tr]
      else transitions_of (result_graph P) u)" for u
    using g(2) ft(7) by (simp add: add_transition_simps(4))
  have piQ: "product_inv (matched_pairs g1 g2) (pair_final g1 g2) ?Q" using g(4) by simp
  have ext: "search_ext P ?Q"
    using ft(2,3,4,11) trs by (auto simp: search_ext_def map_le_def)
  have cp: "copies ?Q m tr" using tr ft(1) by (simp add: copies_def match_targets_def tr_label_def [of "fst m"])
  note pqQ = search_ext_map [OF ext pq]
  have "\<exists>pq. state_map ?Q pq = Some u \<and> (\<exists>m \<in> set (matches tab g1 g2 pq). copies ?Q m v)"
    if v: "v \<in> set (transitions_of g u)" for u v
  proof (cases "v \<in> set (transitions_of (result_graph P) u)")
    case True
    from from_match [OF this] search_ext_map [OF ext] copies_ext [OF ext] show ?thesis by blast
  next
    case False
    with v trs have "u = s" "v = tr" by (auto split: if_splits)
    with pqQ cp m show ?thesis by blast
  qed
  with piQ have "intersect_inv tab g1 g2 ?Q" by (simp add: intersect_inv_def)
  moreover have "match_copied m pq ?Q" unfolding match_copied_def using pqQ cp trs [of s] by auto
  moreover have "handle_match g1 g2 m s P = Inr (t, ?Q)"
    using f tr(1) g(1) by (simp add: handle_match_def Let_def)
  ultimately show ?thesis using ext ft(1,4) by (simp add: match_targets_def)
qed

interpretation product: pair_search "intersect_steps tab g1 g2" "handle_match g1 g2" match_targets
  "matched_pairs g1 g2" "matches tab g1 g2" "intersect_inv tab g1 g2" search_ext match_copied
  for tab :: symtab and g1 g2 :: "'w::{linorder, plus} hbt"
proof unfold_locales
  fix P :: "'w product_search" and pq s
  show "finite (matched_pairs g1 g2)" by (simp add: matched_pairs_def state_pairs_def)
  show "intersect_steps tab g1 g2 pq = Inr (map Inr (matches tab g1 g2 pq))" if "pq \<in> matched_pairs g1 g2"
    using that by (auto simp: intersect_steps_def matches_def matched_pairs_def state_pairs_def transitions_of_def
        Let_def split: if_splits)
  show "dom (state_map P) \<subseteq> matched_pairs g1 g2 \<and> inj_on (state_map P) (dom (state_map P)) \<and>
      agenda P \<subseteq> ran (state_map P)" if "intersect_inv tab g1 g2 P"
    using that unfolding intersect_inv_def product_inv_def by blast
  show "intersect_inv tab g1 g2 (P\<lparr>agenda := insert s (agenda P)\<rparr>) \<and>
      search_ext P (P\<lparr>agenda := insert s (agenda P)\<rparr>)"
    if "intersect_inv tab g1 g2 P" and "s \<in> ran (state_map P)"
    using that product_inv_agenda [of _ _ P s] by (simp add: intersect_inv_def search_ext_agenda copies_def)
  fix Q R m
  show "match_targets m \<in> matched_pairs g1 g2" if "pq \<in> matched_pairs g1 g2" "m \<in> set (matches tab g1 g2 pq)"
    using that by (rule match_targets_in)
  show "search_ext P Q \<Longrightarrow> search_ext Q R \<Longrightarrow> search_ext P R" by (rule search_ext_trans)
  show "search_ext P Q \<Longrightarrow> match_copied m pq P \<Longrightarrow> match_copied m pq Q" by (rule match_copied_ext)
  show "search_ext P Q \<Longrightarrow> state_map P \<subseteq>\<^sub>m state_map Q \<and> agenda P \<subseteq> agenda Q" by (simp add: search_ext_def)
  show "search_ext P P" by (rule search_ext_refl)
  show "\<exists>t Q. handle_match g1 g2 m s P = Inr (t, Q) \<and> intersect_inv tab g1 g2 Q \<and> search_ext P Q \<and>
      agenda Q = agenda P \<and> state_map Q (match_targets m) = Some t \<and> match_copied m pq Q"
    if "intersect_inv tab g1 g2 P" "state_map P pq = Some s" "m \<in> set (matches tab g1 g2 pq)"
    using that by (rule handle_match_step)
qed

section \<open>The paths of the result\<close>

text \<open>What has been reached and gone through.\<close>

definition intersected ::
  "symtab \<Rightarrow> 'w::{linorder, plus} hbt \<Rightarrow> 'w hbt \<Rightarrow> 'w product_search \<Rightarrow> bool" where
  "intersected tab g1 g2 P \<longleftrightarrow> intersect_inv tab g1 g2 P \<and> state_map P (0, 0) = Some 0 \<and> 0 \<in> agenda P \<and>
     (\<forall>pq s m. state_map P pq = Some s \<longrightarrow> s \<in> agenda P \<longrightarrow> m \<in> set (matches tab g1 g2 pq) \<longrightarrow>
        match_copied m pq P \<and> (\<exists>t \<in> agenda P. state_map P (match_targets m) = Some t))"

lemma intersect_path_sound:
  fixes g1 g2 :: "'w::{linorder, comm_monoid_add} hbt"
  assumes inv: "intersect_inv tab g1 g2 P"
  shows "path (result_graph P) s us r \<Longrightarrow> state_map P pq = Some s \<Longrightarrow>
     \<exists>ts vs pq'. path g1 (fst pq) ts (fst pq') \<and> path g2 (snd pq) vs (snd pq') \<and>
       state_map P pq' = Some r \<and> map (label_number tab) ts = map (label_number tab) vs \<and>
       map tr_label us = map tr_label ts \<and> path_weight us = path_weight ts + path_weight vs"
proof (induction us arbitrary: s pq)
  case Nil
  then show ?case by (intro exI [of _ "[]"] exI [of _ pq]) simp
next
  case (Cons u us)
  have u: "u \<in> set (transitions_of (result_graph P) s)" "path (result_graph P) (tr_target u) us r"
    using Cons.prems(1) by simp_all
  from inv u(1) obtain pq' m where m: "state_map P pq' = Some s" "m \<in> set (matches tab g1 g2 pq')"
    "copies P m u" unfolding intersect_inv_def by blast
  have "pq' = pq" using same_pair inv m(1) Cons.prems(2) unfolding intersect_inv_def by blast
  note mi = matches_in [OF m(2) [unfolded this]]
  from Cons.IH [OF u(2), of "match_targets m"] m(3) obtain ts vs pq'' where IH:
    "path g1 (tr_target (fst m)) ts (fst pq'')" "path g2 (tr_target (snd m)) vs (snd pq'')"
    "state_map P pq'' = Some r" "map (label_number tab) ts = map (label_number tab) vs"
    "map tr_label us = map tr_label ts" "path_weight us = path_weight ts + path_weight vs"
    by (auto simp: copies_def match_targets_def)
  show ?case
    by (rule exI [of _ "fst m # ts"], rule exI [of _ "snd m # vs"], rule exI [of _ pq''])
      (use IH mi m(3) in \<open>auto simp: copies_def ac_simps\<close>)
qed

lemma intersect_path_complete:
  fixes g1 g2 :: "'w::{linorder, comm_monoid_add} hbt"
  assumes done_all: "intersected tab g1 g2 P"
    and sorted: "\<And>p. label_sorted tab (transitions_of g1 p)" "\<And>p. label_sorted tab (transitions_of g2 p)"
  shows "path g1 p ts p' \<Longrightarrow> path g2 q vs q' \<Longrightarrow> map (label_number tab) ts = map (label_number tab) vs \<Longrightarrow>
     state_map P (p, q) = Some s \<Longrightarrow> s \<in> agenda P \<Longrightarrow>
     \<exists>us r. path (result_graph P) s us r \<and> state_map P (p', q') = Some r \<and>
       map tr_label us = map tr_label ts \<and> path_weight us = path_weight ts + path_weight vs"
proof (induction ts arbitrary: p q vs s)
  case Nil
  then show ?case by (intro exI [of _ "[]"]) auto
next
  case (Cons t ts)
  then obtain v vs' where vs: "vs = v # vs'" by (cases vs) auto
  let ?m = "(t, v)"
  have tv: "t \<in> set (transitions_of g1 p)" "v \<in> set (transitions_of g2 q)"
    "label_number tab t = label_number tab v" using Cons.prems vs by auto
  have "?m \<in> set (matches tab g1 g2 (p, q))"
    unfolding matches_def using tv by (simp add: find_all_complete [OF sorted])
  with done_all Cons.prems(4,5) obtain t' where copied: "match_copied ?m (p, q) P"
    and t': "t' \<in> agenda P" "state_map P (match_targets ?m) = Some t'" unfolding intersected_def by blast
  from copied Cons.prems(4) obtain u where u: "u \<in> set (transitions_of (result_graph P) s)" "copies P ?m u"
    by (auto simp: match_copied_def)
  from t' u(2) have tu: "tr_target u = t'" by (simp add: copies_def)
  have "\<exists>us r. path (result_graph P) t' us r \<and> state_map P (p', q') = Some r \<and>
      map tr_label us = map tr_label ts \<and> path_weight us = path_weight ts + path_weight vs'"
    by (rule Cons.IH [of "tr_target t" "tr_target v"]) (use Cons.prems t' vs in \<open>auto simp: match_targets_def\<close>)
  then obtain us r where IH: "path (result_graph P) t' us r" "state_map P (p', q') = Some r"
    "map tr_label us = map tr_label ts" "path_weight us = path_weight ts + path_weight vs'" by blast
  show ?case
    by (rule exI [of _ "u # us"], rule exI [of _ r]) (use IH u tu vs in \<open>auto simp: copies_def ac_simps\<close>)
qed

lemma intersect_result:
  assumes "wf_hbt graph1" and "wf_hbt graph2"
  shows "\<exists>P. intersect tab graph1 graph2 = Some (Inr (result_graph P)) \<and>
     intersected tab (sort_arcs tab graph1) (sort_arcs tab graph2) P"
proof -
  let ?g1 = "sort_arcs tab graph1" and ?g2 = "sort_arcs tab graph2"
  have wf: "wf_hbt ?g1" "wf_hbt ?g2" using assms by (simp_all add: sort_arcs_wf_hbt)
  then have wfg: "wf_graph ?g1" "wf_graph ?g2" by (simp_all add: wf_hbt_def)
  from initial_result_ok [OF wfg, of min] obtain r where r: "initial_result min ?g1 ?g2 = Inr r" "wf_hbt r"
    "\<And>s. transitions_of r s = []" "length (state_vector r) = 1"
    "final_weight_map r = Map.empty(0 := pair_final ?g1 ?g2 (0, 0))" unfolding pair_final_def by auto
  let ?P = "\<lparr>result_graph = r, state_map = [(0, 0) \<mapsto> 0], agenda = {}, markers_added = {}\<rparr>"
  have "product_inv (matched_pairs ?g1 ?g2) (pair_final ?g1 ?g2) ?P"
    using initial_pair [OF wfg] wf by (intro product_inv_initial r) (simp add: matched_pairs_def)
  then have inv: "intersect_inv tab ?g1 ?g2 ?P" by (simp add: intersect_inv_def r(3))
  have "\<exists>R. search_pairs (intersect_steps tab ?g1 ?g2) (handle_match ?g1 ?g2) match_targets (0, 0) 0 None ?P =
      Some (Inr R) \<and> product.progress tab ?g1 ?g2 ?P R \<and> 0 \<in> agenda R"
    by (rule product.search_result [OF inv]) simp_all
  then obtain R where R: "find_matches tab ?g1 ?g2 (0, 0) 0 ?P = Some (Inr R)"
    "product.progress tab ?g1 ?g2 ?P R" "0 \<in> agenda R" unfolding find_matches_def by blast
  have inv: "intersect_inv tab ?g1 ?g2 R" using R(2) by (simp add: product.progress_def)
  moreover have "state_map R (0, 0) = Some 0" using inv by (simp add: intersect_inv_def product_inv_def)
  moreover have "match_copied m pq R \<and> (\<exists>t \<in> agenda R. state_map R (match_targets m) = Some t)"
    if "state_map R pq = Some s" "s \<in> agenda R" "m \<in> set (matches tab ?g1 ?g2 pq)" for pq s m
    using product.progressD [OF R(2) that(1,2)] that(3) by (simp add: product.gone_through_def)
  ultimately have "intersected tab ?g1 ?g2 R" using R(3) unfolding intersected_def by blast
  moreover have "intersect tab graph1 graph2 = Some (Inr (result_graph R))"
    by (simp only: intersect_def Let_def r(1) sum.case R(1)) simp
  ultimately show ?thesis by blast
qed

section \<open>Properties\<close>

text \<open>What both graphs accept: paths with the same labels, with the weights of the paths added to the
  final weight of the pair of states.\<close>

definition both_accept ::
  "'w::{linorder, comm_monoid_add} hbt \<Rightarrow> 'w hbt \<Rightarrow> string_pair list \<Rightarrow> 'w \<Rightarrow> bool" where
  "both_accept g1 g2 ps w \<longleftrightarrow> (\<exists>ts us p q f. path g1 0 ts p \<and> path g2 0 us q \<and>
     map tr_label ts = ps \<and> map tr_label us = ps \<and> pair_final g1 g2 (p, q) = Some f \<and>
     w = path_weight ts + path_weight us + f)"

lemma pair_final_sort_arcs: "pair_final (sort_arcs tab g1) (sort_arcs tab g2) = pair_final g1 g2"
  by (simp add: pair_final_def final_sum_def fun_eq_iff sort_arcs_simps(3))

lemma all_numbered_path: "all_numbered tab g \<Longrightarrow> path g p ts q \<Longrightarrow> \<forall>t \<in> set ts. numbered tab t"
  by (induction ts arbitrary: p) (auto dest: all_numbered_at)

lemma same_labels:
  "symtab_ok tab \<Longrightarrow> \<forall>t \<in> set ts. numbered tab t \<Longrightarrow> \<forall>u \<in> set us. numbered tab u \<Longrightarrow>
     map (label_number tab) ts = map (label_number tab) us \<longleftrightarrow> map tr_label ts = map tr_label us"
proof (induction ts arbitrary: us)
  case (Cons t ts)
  then show ?case by (cases us) (auto simp: label_number_inj)
qed auto

lemma intersected_sound:
  assumes tab: "symtab_ok tab" "all_numbered tab graph1" "all_numbered tab graph2"
    and P: "intersected tab (sort_arcs tab graph1) (sort_arcs tab graph2) P"
    and "weighted_accepts (result_graph P) ps w"
  shows "both_accept graph1 graph2 ps w"
proof -
  have inv: "intersect_inv tab (sort_arcs tab graph1) (sort_arcs tab graph2) P"
    and init: "state_map P (0, 0) = Some 0" using P by (simp_all add: intersected_def)
  from assms(5) obtain us r fw where us: "path (result_graph P) 0 us r"
    "final_weight_map (result_graph P) r = Some fw" "ps = map tr_label us" "w = path_weight us + fw"
    by (auto simp: weighted_accepts_def)
  from intersect_path_sound [OF inv us(1) init] obtain ts vs p q where *:
    "path graph1 0 ts p" "path graph2 0 vs q" "state_map P (p, q) = Some r"
    "map (label_number tab) ts = map (label_number tab) vs" "map tr_label us = map tr_label ts"
    "path_weight us = path_weight ts + path_weight vs"
    by (auto simp: path_sort_arcs)
  have "pair_final graph1 graph2 (p, q) = Some fw"
    using inv *(3) us(2) unfolding intersect_inv_def product_inv_def pair_final_sort_arcs by auto
  moreover have "map tr_label ts = map tr_label vs"
    using same_labels [OF tab(1) all_numbered_path [OF tab(2) *(1)] all_numbered_path [OF tab(3) *(2)]] *(4)
    by simp
  ultimately show ?thesis unfolding both_accept_def using *(1,2,5,6) us(3,4) by metis
qed

lemma intersected_complete:
  assumes tab: "symtab_ok tab" "all_numbered tab graph1" "all_numbered tab graph2"
    and P: "intersected tab (sort_arcs tab graph1) (sort_arcs tab graph2) P"
    and sorted: "\<And>p. label_sorted tab (transitions_of (sort_arcs tab graph1) p)"
      "\<And>p. label_sorted tab (transitions_of (sort_arcs tab graph2) p)"
    and "both_accept graph1 graph2 ps w"
  shows "weighted_accepts (result_graph P) ps w"
proof -
  from assms(7) obtain ts vs p q f where *: "path graph1 0 ts p" "path graph2 0 vs q"
    "map tr_label ts = ps" "map tr_label vs = ps" "pair_final graph1 graph2 (p, q) = Some f"
    "w = path_weight ts + path_weight vs + f" by (auto simp: both_accept_def)
  have "map (label_number tab) ts = map (label_number tab) vs"
    using same_labels [OF tab(1) all_numbered_path [OF tab(2) *(1)] all_numbered_path [OF tab(3) *(2)]] *(3,4)
    by simp
  with intersect_path_complete [OF P sorted, of 0 ts p 0 vs q 0] *(1,2) P
  obtain us r where us: "path (result_graph P) 0 us r" "state_map P (p, q) = Some r"
    "map tr_label us = map tr_label ts" "path_weight us = path_weight ts + path_weight vs"
    by (auto simp: path_sort_arcs intersected_def)
  have "final_weight_map (result_graph P) r = Some f"
    using P us(2) *(5) unfolding intersected_def intersect_inv_def product_inv_def pair_final_sort_arcs by auto
  then show ?thesis unfolding weighted_accepts_def using us *(3,6) by metis
qed

text \<open>What is found, written out: a path of either graph, and their weights added; only the final weight
  of the pair of initial states is the smaller one of the two (line 4121).\<close>

lemma both_accept_iff: "both_accept g1 g2 ps w \<longleftrightarrow>
    (\<exists>ts us p q f1 f2. path g1 0 ts p \<and> path g2 0 us q \<and> map tr_label ts = ps \<and> map tr_label us = ps \<and>
       final_weight_map g1 p = Some f1 \<and> final_weight_map g2 q = Some f2 \<and>
       w = path_weight ts + path_weight us + (if p = 0 \<and> q = 0 then min f1 f2 else f1 + f2))"
proof -
  have "pair_final g1 g2 (p, q) = Some f \<longleftrightarrow> (\<exists>f1 f2. final_weight_map g1 p = Some f1 \<and> final_weight_map g2 q = Some f2 \<and>
      f = (if p = 0 \<and> q = 0 then min f1 f2 else f1 + f2))" for p q f
    by (auto simp: pair_final_def final_sum_def split: option.splits)
  note final = this
  show ?thesis unfolding both_accept_def final by (intro iffI; elim exE conjE) blast+
qed

lemma weighted_acceptsI:
  "path g 0 ts q \<Longrightarrow> final_weight_map g q = Some fw \<Longrightarrow> map tr_label ts = ps \<Longrightarrow> weighted_accepts g ps (path_weight ts + fw)"
  unfolding weighted_accepts_def by blast

lemma weighted_acceptsE:
  assumes "weighted_accepts g ps w"
  obtains ts q fw where "path g 0 ts q" "final_weight_map g q = Some fw" "map tr_label ts = ps" "w = path_weight ts + fw"
  using assms unfolding weighted_accepts_def by blast

lemma both_accept_added:
  assumes "final_weight_map g1 0 = None \<or> final_weight_map g2 0 = None"
  shows "both_accept g1 g2 ps w \<longleftrightarrow> (\<exists>w1 w2. weighted_accepts g1 ps w1 \<and> weighted_accepts g2 ps w2 \<and> w = w1 + w2)"
proof
  assume "both_accept g1 g2 ps w"
  then obtain ts us p q f1 f2 where *: "path g1 0 ts p" "path g2 0 us q" "map tr_label ts = ps" "map tr_label us = ps"
    "final_weight_map g1 p = Some f1" "final_weight_map g2 q = Some f2"
    "w = path_weight ts + path_weight us + (if p = 0 \<and> q = 0 then min f1 f2 else f1 + f2)"
    unfolding both_accept_iff by blast
  moreover have "\<not> (p = 0 \<and> q = 0)" using assms *(5,6) by (metis option.distinct(1))
  ultimately have "w = (path_weight ts + f1) + (path_weight us + f2)" by (simp only: if_False add_ac)
  moreover have "weighted_accepts g1 ps (path_weight ts + f1)" "weighted_accepts g2 ps (path_weight us + f2)"
    using weighted_acceptsI [OF *(1,5,3)] weighted_acceptsI [OF *(2,6,4)] by blast+
  ultimately show "\<exists>w1 w2. weighted_accepts g1 ps w1 \<and> weighted_accepts g2 ps w2 \<and> w = w1 + w2" by blast
next
  assume "\<exists>w1 w2. weighted_accepts g1 ps w1 \<and> weighted_accepts g2 ps w2 \<and> w = w1 + w2"
  then obtain ts us p q f1 f2 where *: "path g1 0 ts p" "path g2 0 us q" "map tr_label ts = ps" "map tr_label us = ps"
    "final_weight_map g1 p = Some f1" "final_weight_map g2 q = Some f2" "w = (path_weight ts + f1) + (path_weight us + f2)"
    by (elim exE conjE weighted_acceptsE) blast
  moreover have "\<not> (p = 0 \<and> q = 0)" using assms *(5,6) by (metis option.distinct(1))
  ultimately have "w = path_weight ts + path_weight us + (if p = 0 \<and> q = 0 then min f1 f2 else f1 + f2)"
    by (simp only: if_False add_ac)
  with * show "both_accept g1 g2 ps w" unfolding both_accept_iff by blast
qed

text \<open>C13. The intersection of two well-formed graphs whose symbols have numbers always returns, the result is
  well-formed, and each label sequence that it accepts is that of an accepting path of either graph. Its
  weight is the sum of the weights of the two paths and of their final weights; only for paths that end in the
  pair of initial states the final weight is the smaller one of the two, as the code has it. So the weights are those that
  both graphs give to the sequence, added, unless both initial states are final.\<close>

theorem intersect_sound:
  fixes graph1 graph2 :: "'w::{linorder, comm_monoid_add} hbt"
  assumes "symtab_ok tab" and "all_numbered tab graph1" and "all_numbered tab graph2"
    and "wf_hbt graph1" and "wf_hbt graph2"
  shows "\<exists>g. intersect tab graph1 graph2 = Some (Inr g) \<and> wf_hbt g \<and>
     (\<forall>ps w. weighted_accepts g ps w \<longrightarrow>
        (\<exists>ts us p q f1 f2. path graph1 0 ts p \<and> path graph2 0 us q \<and> map tr_label ts = ps \<and> map tr_label us = ps \<and>
           final_weight_map graph1 p = Some f1 \<and> final_weight_map graph2 q = Some f2 \<and>
           w = path_weight ts + path_weight us + (if p = 0 \<and> q = 0 then min f1 f2 else f1 + f2))) \<and>
     (final_weight_map graph1 0 = None \<or> final_weight_map graph2 0 = None \<longrightarrow>
        (\<forall>ps w. weighted_accepts g ps w \<longrightarrow>
           (\<exists>w1 w2. weighted_accepts graph1 ps w1 \<and> weighted_accepts graph2 ps w2 \<and> w = w1 + w2)))"
proof -
  from intersect_result [OF assms(4,5)] obtain P where
    P: "intersect tab graph1 graph2 = Some (Inr (result_graph P))"
    "intersected tab (sort_arcs tab graph1) (sort_arcs tab graph2) P" by blast
  then have wf: "wf_hbt (result_graph P)" by (simp add: intersected_def intersect_inv_def product_inv_def)
  have sound: "\<forall>ps w. weighted_accepts (result_graph P) ps w \<longrightarrow> both_accept graph1 graph2 ps w"
    using intersected_sound [OF assms(1-3) P(2)] by blast
  note sound' = sound [unfolded both_accept_iff]
  have "\<exists>w1 w2. weighted_accepts graph1 ps w1 \<and> weighted_accepts graph2 ps w2 \<and> w = w1 + w2"
    if "final_weight_map graph1 0 = None \<or> final_weight_map graph2 0 = None" "weighted_accepts (result_graph P) ps w" for ps w
    using sound that(2) both_accept_added [OF that(1)] by blast
  with P(1) wf sound' show ?thesis by blast
qed

text \<open>C12. When in both graphs the sorted transitions of every state are in the strict order of their labels,
  the intersection accepts a label sequence with a weight exactly when both graphs have an accepting path with these labels
  and the weight is the sum of the weights of the two paths and of their final weights; only for paths that end in the
  pair of initial states the final weight is the smaller one of the two, as the code has it. So, unless both initial states
  are final, it accepts exactly what both graphs accept, with the weights added.\<close>

theorem intersect_complete:
  fixes graph1 graph2 :: "'w::{linorder, comm_monoid_add} hbt"
  assumes "symtab_ok tab" and "all_numbered tab graph1" and "all_numbered tab graph2"
    and "wf_hbt graph1" and "wf_hbt graph2"
    and "\<And>p. label_sorted tab (transitions_of (sort_arcs tab graph1) p)"
    and "\<And>p. label_sorted tab (transitions_of (sort_arcs tab graph2) p)"
  shows "\<exists>g. intersect tab graph1 graph2 = Some (Inr g) \<and>
     (\<forall>ps w. weighted_accepts g ps w \<longleftrightarrow>
        (\<exists>ts us p q f1 f2. path graph1 0 ts p \<and> path graph2 0 us q \<and> map tr_label ts = ps \<and> map tr_label us = ps \<and>
           final_weight_map graph1 p = Some f1 \<and> final_weight_map graph2 q = Some f2 \<and>
           w = path_weight ts + path_weight us + (if p = 0 \<and> q = 0 then min f1 f2 else f1 + f2))) \<and>
     (final_weight_map graph1 0 = None \<or> final_weight_map graph2 0 = None \<longrightarrow>
        (\<forall>ps w. weighted_accepts g ps w \<longleftrightarrow>
           (\<exists>w1 w2. weighted_accepts graph1 ps w1 \<and> weighted_accepts graph2 ps w2 \<and> w = w1 + w2)))"
proof -
  from intersect_result [OF assms(4,5)] obtain P where
    P: "intersect tab graph1 graph2 = Some (Inr (result_graph P))"
    "intersected tab (sort_arcs tab graph1) (sort_arcs tab graph2) P" by blast
  have exact: "\<forall>ps w. weighted_accepts (result_graph P) ps w \<longleftrightarrow> both_accept graph1 graph2 ps w"
    using intersected_sound [OF assms(1-3) P(2)] intersected_complete [OF assms(1-3) P(2) assms(6,7)] by blast
  note exact' = exact [unfolded both_accept_iff]
  have "weighted_accepts (result_graph P) ps w \<longleftrightarrow>
      (\<exists>w1 w2. weighted_accepts graph1 ps w1 \<and> weighted_accepts graph2 ps w2 \<and> w = w1 + w2)"
    if "final_weight_map graph1 0 = None \<or> final_weight_map graph2 0 = None" for ps w
    using exact both_accept_added [OF that] by blast
  with P(1) exact' show ?thesis by blast
qed

text \<open>Two deterministic graphs for the witnesses: \<open>a\<close> leads to state 1 and \<open>b\<close> to state 2, or the other way
  around, and states 1 and 2 are final.\<close>

definition two_letters :: "nat \<Rightarrow> nat \<Rightarrow> int hbt" where
  "two_letters s1 s2 = \<lparr>hbt_name = [],
     state_vector = [[\<lparr>tr_target = s1, tr_input = ''a'', tr_output = ''a'', tr_weight = 1\<rparr>,
       \<lparr>tr_target = s2, tr_input = ''b'', tr_output = ''b'', tr_weight = 2\<rparr>], [], []],
     final_weight_map = [1 \<mapsto> 3, 2 \<mapsto> 4], alphabet = insert ''a'' (insert ''b'' (initialize_alphabet {}))\<rparr>"

definition two_letters_tab :: symtab where
  "two_letters_tab =
     \<lparr>number2symbol = [internal_epsilon, internal_unknown, internal_identity, ''a'', ''b''],
      symbol2number = [internal_epsilon \<mapsto> 0, internal_unknown \<mapsto> 1, internal_identity \<mapsto> 2,
        ''a'' \<mapsto> 3, ''b'' \<mapsto> 4], max_number = 4\<rparr>"

lemmas special_symbol_defs = internal_epsilon_def internal_unknown_def internal_identity_def

lemma two_letters_tab_ok: "symtab_ok two_letters_tab"
proof -
  obtain n tab1 where 1: "get_number ''a'' initial_symtab = Inr (n, tab1)" "tab1 =
      \<lparr>number2symbol = [internal_epsilon, internal_unknown, internal_identity, ''a''],
       symbol2number = [internal_epsilon \<mapsto> 0, internal_unknown \<mapsto> 1, internal_identity \<mapsto> 2, ''a'' \<mapsto> 3],
       max_number = 3\<rparr>"
    by (auto simp: get_number_def initial_symtab_def Let_def special_symbol_defs)
  have ok: "symtab_ok tab1" using get_number_ok [OF symtab_ok_initial _ 1(1)] by (simp add: initial_symtab_def)
  have "get_number ''b'' tab1 = Inr (4, two_letters_tab)"
    by (simp add: 1(2) get_number_def Let_def special_symbol_defs two_letters_tab_def)
  from get_number_ok [OF ok _ this] show ?thesis by (simp add: 1(2))
qed

lemma two_letters_numbered:
  "all_numbered two_letters_tab (two_letters s1 s2)"
  by (simp add: all_numbered_def two_letters_def numbered_def two_letters_tab_def)

lemma two_letters_wf: "s1 < 3 \<Longrightarrow> s2 < 3 \<Longrightarrow> wf_hbt (two_letters s1 s2)"
  by (auto simp: wf_hbt_def wf_graph_def wf_alphabet_def two_letters_def wf_transition_def initialize_alphabet_def
      special_symbol_defs)

lemma two_letters_transitions:
  "transitions_of (two_letters s1 s2) p = (if p = 0 then [\<lparr>tr_target = s1, tr_input = ''a'', tr_output = ''a'', tr_weight = 1\<rparr>,
     \<lparr>tr_target = s2, tr_input = ''b'', tr_output = ''b'', tr_weight = 2\<rparr>] else [])"
proof (cases "p < 3")
  case True
  then consider "p = 0" | "p = 1" | "p = 2" by linarith
  then show ?thesis by cases (simp_all add: transitions_of_def two_letters_def)
qed (simp add: transitions_of_def two_letters_def)

lemmas two_letters_numbers = encode_transition_def two_letters_tab_def special_symbol_defs less_eq_arc_def
  arc_less_def td_less_def label_number_def pair_number_def tr_label_def

lemma two_letters_sorted: "label_sorted two_letters_tab (transitions_of (sort_arcs two_letters_tab (two_letters 1 2)) p)"
  by (simp add: sort_arcs_simps two_letters_transitions two_letters_numbers)

lemma two_letters_accepts:
  assumes "s1 \<in> {1, 2}" and "final_weight_map (two_letters s1 s2) s1 = Some f"
  shows "weighted_accepts (two_letters s1 s2) [(''a'', ''a'')] (1 + f)"
  unfolding weighted_accepts_def
  by (rule exI [of _ "[\<lparr>tr_target = s1, tr_input = ''a'', tr_output = ''a'', tr_weight = 1\<rparr>]"], rule exI [of _ s1],
      rule exI [of _ f])
    (use assms in \<open>auto simp: transitions_of_def tr_label_def two_letters_def\<close>)

lemma two_letters_not_final: "final_weight_map (two_letters s1 s2) 0 = None"
  by (simp add: two_letters_def)

lemma intersect_sound_witness:
  "\<exists>g. intersect two_letters_tab (two_letters 1 2) (two_letters 2 1) = Some (Inr g) \<and> wf_hbt g \<and>
     (\<forall>ps w. weighted_accepts g ps w \<longrightarrow> (\<exists>w1 w2. weighted_accepts (two_letters 1 2) ps w1 \<and>
        weighted_accepts (two_letters 2 1) ps w2 \<and> w = w1 + w2))"
proof -
  have "wf_hbt (two_letters 1 2)" "wf_hbt (two_letters 2 1)" by (rule two_letters_wf; simp)+
  from intersect_sound [OF two_letters_tab_ok two_letters_numbered two_letters_numbered this] two_letters_not_final
  show ?thesis by blast
qed

lemma intersect_complete_witness:
  "\<exists>g. intersect two_letters_tab (two_letters 1 2) (two_letters 1 2) = Some (Inr g) \<and>
     weighted_accepts g [(''a'', ''a'')] 8"
proof -
  have wf: "wf_hbt (two_letters 1 2)" by (rule two_letters_wf; simp)
  have "weighted_accepts (two_letters 1 2) [(''a'', ''a'')] 4" using two_letters_accepts [of 1 2 3] by (simp add: two_letters_def)
  then have "\<exists>w1 w2. weighted_accepts (two_letters 1 2) [(''a'', ''a'')] w1 \<and>
      weighted_accepts (two_letters 1 2) [(''a'', ''a'')] w2 \<and> (8 :: int) = w1 + w2" by (intro exI [of _ 4] conjI) simp_all
  with intersect_complete [OF two_letters_tab_ok two_letters_numbered two_letters_numbered wf wf
      two_letters_sorted two_letters_sorted] two_letters_not_final show ?thesis by blast
qed

text \<open>C14. Sorting puts the transitions in the order of their target states first, while matching takes
  them to be in the order of their labels: for two deterministic graphs that accept \<open>a\<close>, with
  differently numbered states, the intersection does not accept \<open>a\<close>.\<close>

theorem intersect_misses_match:
  "\<exists>g. intersect two_letters_tab (two_letters 1 2) (two_letters 2 1) = Some (Inr g) \<and>
     weighted_accepts (two_letters 1 2) [(''a'', ''a'')] 4 \<and> weighted_accepts (two_letters 2 1) [(''a'', ''a'')] 5 \<and>
     \<not> accepts g [(''a'', ''a'')]"
proof -
  let ?g1 = "sort_arcs two_letters_tab (two_letters 1 2)" and ?g2 = "sort_arcs two_letters_tab (two_letters 2 1)"
  from intersect_result [OF two_letters_wf two_letters_wf, of 1 2 2 1 two_letters_tab] obtain P where
    P: "intersect two_letters_tab (two_letters 1 2) (two_letters 2 1) = Some (Inr (result_graph P))"
    "intersected two_letters_tab ?g1 ?g2 P" by auto
  have found: "matches two_letters_tab ?g1 ?g2 (0, 0) =
      [(\<lparr>tr_target = 2, tr_input = ''b'', tr_output = ''b'', tr_weight = 2\<rparr>,
        \<lparr>tr_target = 1, tr_input = ''b'', tr_output = ''b'', tr_weight = 2\<rparr>)]"
    by (simp add: matches_def sort_arcs_simps two_letters_transitions two_letters_numbers tr_less_number)
  have "tr_label t \<noteq> (''a'', ''a'')" if t: "t \<in> set (transitions_of (result_graph P) 0)" for t
  proof -
    have inv: "intersect_inv two_letters_tab ?g1 ?g2 P" "state_map P (0, 0) = Some 0"
      using P(2) by (simp_all add: intersected_def)
    with t obtain pq m where m: "state_map P pq = Some 0" "m \<in> set (matches two_letters_tab ?g1 ?g2 pq)"
      "copies P m t" unfolding intersect_inv_def by blast
    have "pq = (0, 0)" using same_pair inv m(1) unfolding intersect_inv_def by blast
    with m(2,3) found show ?thesis by (simp add: copies_def tr_label_def)
  qed
  then have "\<not> accepts (result_graph P) [(''a'', ''a'')]" by (force simp: accepts_labels Cons_eq_map_conv)
  moreover have "weighted_accepts (two_letters 1 2) [(''a'', ''a'')] 4" "weighted_accepts (two_letters 2 1) [(''a'', ''a'')] 5"
    using two_letters_accepts [of 1 2 3] two_letters_accepts [of 2 1 4] by (simp_all add: two_letters_def)
  ultimately show ?thesis using P(1) by blast
qed

end
