(* ===== verification/Merging.thy ===== *)
theory Merging
  imports PairSearch
begin

text \<open>
  \<open>HfstBasicTransducer::merge\<close> with \<open>is_list_symbol\<close>, \<open>handle_list_match\<close>,
  \<open>handle_non_list_match\<close> and \<open>find_matches_for_merge\<close> (\<open>HfstBasicTransducer.cc\<close>, lines 4130 to
  4345), the second use of the search of \<open>PairSearch\<close>. The merger supplies the members of the
  list symbols of the graph: a transition with a list symbol becomes, for each member that the
  merger has, a marker transition to a state of its own followed by the merger's transition. The
  runs of the result are the merged runs (\<open>merged_run\<close>), with their weights.
\<close>

section \<open>The operations\<close>

text \<open>A match: the transition of the graph, the one of the merger for a list symbol, and the state of
  the merger.\<close>

type_synonym 'w merge_match = "'w transition \<times> 'w transition option \<times> nat"

definition is_list_symbol :: "'w transition \<Rightarrow> (string \<rightharpoonup> string set) \<Rightarrow> bool result" where
  "is_list_symbol tr list_symbols =
     (if tr_input tr \<noteq> tr_output tr
      then Inl (ConstCharException ''is_list_symbol: input and output symbols must be the same'')
      else Inr (tr_input tr \<in> dom list_symbols))"

definition list_step ::
  "string set \<Rightarrow> 'w transition \<Rightarrow> nat \<Rightarrow> 'w transition \<Rightarrow> 'w merge_match result list" where
  "list_step symbol_list graph_transition merger_state merger_transition =
     (if tr_input merger_transition \<noteq> tr_output merger_transition
      then [Inl (ConstCharException ''find_matches_for_merge: input and output symbols must be the same'')]
      else if tr_input merger_transition \<in> symbol_list
      then [Inr (graph_transition, Some merger_transition, merger_state)] else [])"

definition transition_steps ::
  "(string \<rightharpoonup> string set) \<Rightarrow> 'w transition list \<Rightarrow> nat \<Rightarrow> 'w transition \<Rightarrow> 'w merge_match result list" where
  "transition_steps list_symbols merger_transitions merger_state graph_transition =
     (case is_list_symbol graph_transition list_symbols of
        Inl e \<Rightarrow> [Inl e]
      | Inr is_list \<Rightarrow>
          if is_list then
            (let symbol_list = the (list_symbols (tr_input graph_transition));
                 found = concat (map (list_step symbol_list graph_transition merger_state) merger_transitions);
                 list_match_found = list_ex (\<lambda>t. tr_input t \<in> symbol_list) merger_transitions
             in if list_match_found then found else found @ [Inr (graph_transition, None, merger_state)])
          else [Inr (graph_transition, None, merger_state)])"

definition merge_steps ::
  "(string \<rightharpoonup> string set) \<Rightarrow> 'w hbt \<Rightarrow> 'w hbt \<Rightarrow> nat \<times> nat \<Rightarrow> 'w merge_match result list result" where
  "merge_steps list_symbols graph merger ss =
     (case ss of (graph_state, merger_state) \<Rightarrow>
        if \<not> (graph_state < length (state_vector graph) \<and> merger_state < length (state_vector merger))
        then Inl UndefinedBehaviour
        else Inr (concat (map (transition_steps list_symbols (state_vector merger ! merger_state) merger_state)
                    (state_vector graph ! graph_state))))"

definition handle_non_list_match ::
  "'w::plus hbt \<Rightarrow> 'w transition \<Rightarrow> 'w hbt \<Rightarrow> nat \<Rightarrow> nat \<Rightarrow> 'w product_search \<Rightarrow>
     (nat \<times> 'w product_search) result" where
  "handle_non_list_match graph graph_transition merger merger_target result_state P =
     (let graph_target = tr_target graph_transition;
          (retval, was_new_state, P1) = find_target_state graph_target merger_target P
      in rbind (new_transition retval (tr_input graph_transition) (tr_output graph_transition)
                  (tr_weight graph_transition)) (\<lambda>tr.
         rmap (\<lambda>g. (retval, P1\<lparr>result_graph := g\<rparr>))
           (make_final was_new_state graph graph_target merger merger_target retval
              (add_transition result_state tr True (result_graph P1)))))"

definition at_marker :: "string \<Rightarrow> string" where
  "at_marker symbol = ''@'' @ symbol @ ''@''"

definition handle_list_match ::
  "'w::monoid_add hbt \<Rightarrow> 'w transition \<Rightarrow> 'w hbt \<Rightarrow> 'w transition \<Rightarrow> nat \<Rightarrow> 'w product_search \<Rightarrow>
     (nat \<times> 'w product_search) result" where
  "handle_list_match graph graph_transition merger merger_transition result_state P =
     (let graph_target = tr_target graph_transition; merger_target = tr_target merger_transition;
          (retval, was_new_state, P1) = find_target_state graph_target merger_target P;
          transition_weight = tr_weight graph_transition + tr_weight merger_transition;
          (extra_state, g1) = add_new_state (result_graph P1)
      in rbind (new_transition extra_state (at_marker (tr_input graph_transition))
                  (at_marker (tr_output graph_transition)) 0) (\<lambda>marker.
         rbind (new_transition retval (tr_input merger_transition) (tr_output merger_transition)
                  transition_weight) (\<lambda>tr.
         rmap (\<lambda>g. (retval, P1\<lparr>result_graph := g,
                 markers_added := insert (at_marker (tr_input graph_transition)) (markers_added P1)\<rparr>))
           (make_final was_new_state graph graph_target merger merger_target retval
              (add_transition extra_state tr True (add_transition result_state marker True g1))))))"

definition handle_merge ::
  "'w::monoid_add hbt \<Rightarrow> 'w hbt \<Rightarrow> 'w merge_match \<Rightarrow> nat \<Rightarrow> 'w product_search \<Rightarrow> (nat \<times> 'w product_search) result" where
  "handle_merge graph merger m result_state P =
     (case m of (graph_transition, mt, merger_state) \<Rightarrow> (case mt of
        Some merger_transition \<Rightarrow> handle_list_match graph graph_transition merger merger_transition result_state P
      | None \<Rightarrow> handle_non_list_match graph graph_transition merger merger_state result_state P))"

definition merge_targets :: "'w merge_match \<Rightarrow> nat \<times> nat" where
  "merge_targets m =
     (case m of (graph_transition, mt, merger_state) \<Rightarrow>
        (tr_target graph_transition, case mt of Some t \<Rightarrow> tr_target t | None \<Rightarrow> merger_state))"

definition find_matches_for_merge ::
  "(string \<rightharpoonup> string set) \<Rightarrow> 'w::monoid_add hbt \<Rightarrow> 'w hbt \<Rightarrow> nat \<times> nat \<Rightarrow> nat \<Rightarrow> 'w product_search \<Rightarrow>
     'w product_search result option" where
  "find_matches_for_merge list_symbols graph merger pq result_state P =
     search_pairs (merge_steps list_symbols graph merger) (handle_merge graph merger) merge_targets
       pq result_state None P"

text \<open>The \<open>catch (const char * msg)\<close> of \<open>merge\<close>.\<close>

fun catch_message :: "'a result \<Rightarrow> 'a result" where
  "catch_message (Inl (ConstCharException msg)) = Inl TransducersAreNotAutomataException"
| "catch_message r = r"

definition merge ::
  "symtab \<Rightarrow> (string \<rightharpoonup> string set) \<Rightarrow> string set \<Rightarrow> 'w::{linorder, monoid_add} hbt \<Rightarrow> 'w hbt \<Rightarrow>
     ('w hbt \<times> string set) result option" where
  "merge tab list_symbols markers graph merger =
     (let g1 = sort_arcs tab graph; g2 = sort_arcs tab merger
      in case initial_result (+) g1 g2 of
           Inl e \<Rightarrow> Some (Inl e)
         | Inr r \<Rightarrow> map_option (\<lambda>x. rmap (\<lambda>P. (result_graph P, markers_added P)) (catch_message x))
             (find_matches_for_merge list_symbols g1 g2 (0, 0) 0
                \<lparr>result_graph = r, state_map = [(0, 0) \<mapsto> 0], agenda = {}, markers_added = markers\<rparr>))"

section \<open>The matches of automata\<close>

definition is_automaton :: "'w hbt \<Rightarrow> bool" where
  "is_automaton g \<longleftrightarrow> (\<forall>trs \<in> set (state_vector g). \<forall>t \<in> set trs. tr_input t = tr_output t)"

lemma automaton_at: "is_automaton g \<Longrightarrow> t \<in> set (transitions_of g s) \<Longrightarrow> tr_input t = tr_output t"
  using in_state_vector [of g t] unfolding is_automaton_def by blast

definition found_for ::
  "(string \<rightharpoonup> string set) \<Rightarrow> 'w transition list \<Rightarrow> nat \<Rightarrow> 'w transition \<Rightarrow> 'w merge_match list" where
  "found_for list_symbols mts q t =
     (case list_symbols (tr_input t) of
        None \<Rightarrow> [(t, None, q)]
      | Some symbols \<Rightarrow> (case filter (\<lambda>u. tr_input u \<in> symbols) mts of
            [] \<Rightarrow> [(t, None, q)]
          | us \<Rightarrow> map (\<lambda>u. (t, Some u, q)) us))"

definition merge_found ::
  "(string \<rightharpoonup> string set) \<Rightarrow> 'w hbt \<Rightarrow> 'w hbt \<Rightarrow> nat \<times> nat \<Rightarrow> 'w merge_match list" where
  "merge_found list_symbols graph merger pq =
     concat (map (found_for list_symbols (transitions_of merger (snd pq)) (snd pq)) (transitions_of graph (fst pq)))"

definition merge_pairs :: "'w hbt \<Rightarrow> 'w hbt \<Rightarrow> (nat \<times> nat) set" where
  "merge_pairs graph merger =
     (if wf_hbt graph \<and> wf_hbt merger \<and> is_automaton graph \<and> is_automaton merger
      then state_pairs graph merger else {})"

lemma list_steps_found:
  "(\<And>u. u \<in> set mts \<Longrightarrow> tr_input u = tr_output u) \<Longrightarrow>
     concat (map (list_step symbols t q) mts) =
       map Inr (map (\<lambda>u. (t, Some u, q)) (filter (\<lambda>u. tr_input u \<in> symbols) mts))"
  by (induction mts) (auto simp: list_step_def)

lemma transition_steps_found:
  assumes "tr_input t = tr_output t" and "\<And>u. u \<in> set mts \<Longrightarrow> tr_input u = tr_output u"
  shows "transition_steps list_symbols mts q t = map Inr (found_for list_symbols mts q t)"
proof (cases "list_symbols (tr_input t)")
  case None
  then have "tr_input t \<notin> dom list_symbols" by blast
  with None assms(1) show ?thesis by (simp add: transition_steps_def is_list_symbol_def found_for_def domIff)
next
  case (Some symbols)
  then have "is_list_symbol t list_symbols = Inr True" using assms(1) by (auto simp: is_list_symbol_def)
  moreover have "list_ex (\<lambda>u. tr_input u \<in> symbols) mts \<longleftrightarrow> filter (\<lambda>u. tr_input u \<in> symbols) mts \<noteq> []"
    by (induction mts) auto
  ultimately show ?thesis
    using Some list_steps_found [of mts symbols t q, OF assms(2)]
    by (auto simp: transition_steps_def found_for_def Let_def split: list.splits)
qed

lemma merge_steps_found:
  assumes "pq \<in> merge_pairs graph merger"
  shows "merge_steps list_symbols graph merger pq = Inr (map Inr (merge_found list_symbols graph merger pq))"
proof -
  obtain p q where pq: "pq = (p, q)" by (cases pq)
  have aut: "is_automaton graph" "is_automaton merger" "p < length (state_vector graph)"
    "q < length (state_vector merger)" using assms pq by (auto simp: merge_pairs_def state_pairs_def split: if_splits)
  have "transition_steps list_symbols (transitions_of merger q) q t =
      map Inr (found_for list_symbols (transitions_of merger q) q t)" if "t \<in> set (transitions_of graph p)" for t
    using automaton_at [OF aut(1) that] automaton_at [OF aut(2)] by (rule transition_steps_found)
  then have "map (transition_steps list_symbols (transitions_of merger q) q) (transitions_of graph p) =
      map (map Inr) (map (found_for list_symbols (transitions_of merger q) q) (transitions_of graph p))" by simp
  then have "concat (map (transition_steps list_symbols (transitions_of merger q) q) (transitions_of graph p)) =
      map Inr (merge_found list_symbols graph merger pq)"
    unfolding merge_found_def pq fst_conv snd_conv map_concat by (rule arg_cong)
  then show ?thesis using aut(3,4) pq by (simp add: merge_steps_def transitions_of_def)
qed

lemma merge_found_in:
  "m \<in> set (merge_found list_symbols graph merger (p, q)) \<longleftrightarrow>
     (\<exists>t \<in> set (transitions_of graph p). m \<in> set (found_for list_symbols (transitions_of merger q) q t))"
  by (auto simp: merge_found_def)

lemma found_for_in:
  "m \<in> set (found_for list_symbols mts q t) \<Longrightarrow>
     m = (t, None, q) \<or> (\<exists>u \<in> set mts. m = (t, Some u, q))"
  by (auto simp: found_for_def split: option.splits list.splits dest: filter_eq_ConsD)

lemma merge_targets_in:
  assumes "pq \<in> merge_pairs graph merger" and "m \<in> set (merge_found list_symbols graph merger pq)"
  shows "merge_targets m \<in> merge_pairs graph merger"
proof -
  obtain p q where pq: "pq = (p, q)" by (cases pq)
  have wf: "wf_graph graph" "wf_graph merger" "q < length (state_vector merger)"
    using assms(1) pq by (auto simp: merge_pairs_def state_pairs_def wf_hbt_def split: if_splits)
  from assms(2) pq obtain t where t: "t \<in> set (transitions_of graph p)"
    "m \<in> set (found_for list_symbols (transitions_of merger q) q t)" by (auto simp: merge_found_in)
  from found_for_in [OF t(2)] have "merge_targets m \<in> state_pairs graph merger"
    using wf wf_graph_target [OF wf(1) t(1)] by (auto simp: merge_targets_def state_pairs_def dest: wf_graph_target)
  with assms(1) show ?thesis by (auto simp: merge_pairs_def split: if_splits)
qed

section \<open>The search for matches\<close>

text \<open>The transition \<open>t\<close> of the result stands for the match \<open>m\<close>: it copies the transition of the graph,
  or it is the marker transition to a state of its own, whose only transition is the merger's.\<close>

definition merged_as :: "'w::monoid_add product_search \<Rightarrow> 'w merge_match \<Rightarrow> 'w transition \<Rightarrow> bool" where
  "merged_as P m t \<longleftrightarrow> (case m of (gt, mt, q) \<Rightarrow> (case mt of
      None \<Rightarrow> tr_label t = tr_label gt \<and> tr_weight t = tr_weight gt \<and>
        state_map P (merge_targets m) = Some (tr_target t)
    | Some u \<Rightarrow> tr_label t = (at_marker (tr_input gt), at_marker (tr_output gt)) \<and> tr_weight t = 0 \<and>
        at_marker (tr_input gt) \<in> markers_added P \<and> tr_target t \<notin> ran (state_map P) \<and>
        (\<exists>v. transitions_of (result_graph P) (tr_target t) = [v] \<and> tr_label v = tr_label u \<and>
          tr_weight v = tr_weight gt + tr_weight u \<and> state_map P (merge_targets m) = Some (tr_target v))))"

definition merge_ext :: "'w product_search \<Rightarrow> 'w product_search \<Rightarrow> bool" where
  "merge_ext P Q \<longleftrightarrow> search_ext P Q \<and>
     length (state_vector (result_graph P)) \<le> length (state_vector (result_graph Q)) \<and>
     (\<forall>s < length (state_vector (result_graph P)). s \<notin> ran (state_map P) \<longrightarrow>
        s \<notin> ran (state_map Q) \<and> transitions_of (result_graph Q) s = transitions_of (result_graph P) s)"

definition match_merged :: "'w::monoid_add merge_match \<Rightarrow> nat \<times> nat \<Rightarrow> 'w product_search \<Rightarrow> bool" where
  "match_merged m pq P \<longleftrightarrow> (\<exists>s. state_map P pq = Some s \<and> (\<exists>t \<in> set (transitions_of (result_graph P) s).
     tr_target t < length (state_vector (result_graph P)) \<and> merged_as P m t))"

definition merge_inv ::
  "(string \<rightharpoonup> string set) \<Rightarrow> string set \<Rightarrow> 'w::monoid_add hbt \<Rightarrow> 'w hbt \<Rightarrow> 'w product_search \<Rightarrow> bool" where
  "merge_inv list_symbols markers graph merger P \<longleftrightarrow>
     product_inv (merge_pairs graph merger) (final_sum graph merger) P \<and>
     markers_added P \<subseteq> markers \<union> at_marker ` dom list_symbols \<and>
     (\<forall>pq s. state_map P pq = Some s \<longrightarrow> (\<forall>t \<in> set (transitions_of (result_graph P) s).
        \<exists>m \<in> set (merge_found list_symbols graph merger pq). merged_as P m t))"

lemma merge_ext_search: "merge_ext P Q \<Longrightarrow> search_ext P Q"
  by (simp add: merge_ext_def)

lemma merge_ext_trans: "merge_ext P Q \<Longrightarrow> merge_ext Q R \<Longrightarrow> merge_ext P R"
  using search_ext_trans [of P Q R] unfolding merge_ext_def
  by (elim conjE, intro conjI allI impI) (simp_all add: less_le_trans)

lemma merge_ext_refl: "merge_ext P P"
  by (simp add: merge_ext_def search_ext_refl)

lemma merged_as_ext:
  assumes "merge_ext P Q" and "tr_target t < length (state_vector (result_graph P))" and "merged_as P m t"
  shows "merged_as Q m t"
proof -
  obtain gt mt q where m: "m = (gt, mt, q)" by (cases m)
  note get = search_ext_map [OF merge_ext_search [OF assms(1)]]
  show ?thesis
  proof (cases mt)
    case None
    with assms(3) m get show ?thesis by (auto simp: merged_as_def)
  next
    case (Some u)
    from assms(3) m Some obtain v where v: "transitions_of (result_graph P) (tr_target t) = [v]"
      "tr_label v = tr_label u" "tr_weight v = tr_weight gt + tr_weight u"
      "state_map P (merge_targets m) = Some (tr_target v)" "tr_target t \<notin> ran (state_map P)"
      "at_marker (tr_input gt) \<in> markers_added P"
      "tr_label t = (at_marker (tr_input gt), at_marker (tr_output gt))" "tr_weight t = 0"
      by (auto simp: merged_as_def)
    have "tr_target t \<notin> ran (state_map Q)" "transitions_of (result_graph Q) (tr_target t) = [v]"
      using assms(1,2) v(1,5) unfolding merge_ext_def by metis+
    moreover have "at_marker (tr_input gt) \<in> markers_added Q"
      using v(6) merge_ext_search [OF assms(1)] unfolding search_ext_def by blast
    ultimately show ?thesis using v get [OF v(4)] by (simp add: merged_as_def m Some)
  qed
qed

lemma match_merged_ext: "merge_ext P Q \<Longrightarrow> match_merged m pq P \<Longrightarrow> match_merged m pq Q"
proof -
  assume e: "merge_ext P Q" and "match_merged m pq P"
  then obtain s t where s: "state_map P pq = Some s" "t \<in> set (transitions_of (result_graph P) s)"
    "tr_target t < length (state_vector (result_graph P))" "merged_as P m t" by (auto simp: match_merged_def)
  moreover have "t \<in> set (transitions_of (result_graph Q) s)"
    using merge_ext_search [OF e] s(2) by (auto simp: search_ext_def)
  moreover have "tr_target t < length (state_vector (result_graph Q))" using e s(3) by (simp add: merge_ext_def)
  ultimately show ?thesis
    using search_ext_map [OF merge_ext_search [OF e] s(1)] merged_as_ext [OF e s(3,4)]
    unfolding match_merged_def by blast
qed

lemma product_target:
  "product_inv pairs F P \<Longrightarrow> t \<in> set (transitions_of (result_graph P) s) \<Longrightarrow>
     tr_target t < length (state_vector (result_graph P))"
  by (auto simp: product_inv_def wf_hbt_def dest: wf_graph_target)

lemma merge_inv_step:
  assumes inv: "merge_inv list_symbols markers graph merger P" and pq: "state_map P pq = Some s"
    and m: "m \<in> set (merge_found list_symbols graph merger pq)"
    and Q: "product_inv (merge_pairs graph merger) (final_sum graph merger) Q" "merge_ext P Q"
      "markers_added Q \<subseteq> markers \<union> at_marker ` dom list_symbols"
    and trs: "\<And>u. u \<in> ran (state_map Q) \<Longrightarrow> transitions_of (result_graph Q) u =
      transitions_of (result_graph P) u @ (if u = s then [tr] else [])"
    and tr: "merged_as Q m tr"
  shows "merge_inv list_symbols markers graph merger Q \<and> match_merged m pq Q"
proof -
  have pi: "product_inv (merge_pairs graph merger) (final_sum graph merger) P"
    and old: "\<And>pq s t. state_map P pq = Some s \<Longrightarrow> t \<in> set (transitions_of (result_graph P) s) \<Longrightarrow>
        \<exists>m \<in> set (merge_found list_symbols graph merger pq). merged_as P m t"
    using inv unfolding merge_inv_def by blast+
  note pqQ = search_ext_map [OF merge_ext_search [OF Q(2)] pq]
  have "\<exists>m \<in> set (merge_found list_symbols graph merger pq'). merged_as Q m t"
    if u: "state_map Q pq' = Some u" "t \<in> set (transitions_of (result_graph Q) u)" for pq' u t
  proof (cases "t \<in> set (transitions_of (result_graph P) u)")
    case True
    then have "u < length (state_vector (result_graph P))" by (auto simp: transitions_of_def split: if_splits)
    then have "u \<in> ran (state_map P)" using Q(2) ranI [of "state_map Q" pq', OF u(1)] unfolding merge_ext_def by blast
    then obtain pq'' where "state_map P pq'' = Some u" by (auto simp: ran_def)
    moreover from this have "pq'' = pq'" 
      using same_pair [OF Q(1)] search_ext_map [OF merge_ext_search [OF Q(2)]] u(1) by blast
    ultimately show ?thesis using old True merged_as_ext [OF Q(2) product_target [OF pi True]] by blast
  next
    case False
    with u trs [OF ranI [of "state_map Q" pq', OF u(1)]] have "u = s" "t = tr" by (auto split: if_splits)
    with same_pair [OF Q(1) pqQ] u(1) have "pq' = pq" by blast
    with m tr \<open>t = tr\<close> show ?thesis by blast
  qed
  then have "merge_inv list_symbols markers graph merger Q" using Q(1,3) by (simp add: merge_inv_def)
  moreover have t: "tr \<in> set (transitions_of (result_graph Q) s)" using trs [of s] pqQ by (simp add: ranI)
  moreover have "tr_target tr < length (state_vector (result_graph Q))" by (rule product_target [OF Q(1) t])
  ultimately show ?thesis using pqQ tr unfolding match_merged_def by blast
qed

text \<open>What both handlers start with.\<close>

lemma merge_start:
  assumes inv: "merge_inv list_symbols markers graph merger P" and pq: "state_map P (p, q) = Some s"
    and m: "m \<in> set (merge_found list_symbols graph merger (p, q))"
  shows "product_inv (merge_pairs graph merger) (final_sum graph merger) P"
    and "wf_graph graph" and "wf_graph merger" and "s < length (state_vector (result_graph P))"
    and "merge_targets m \<in> merge_pairs graph merger"
    and "\<exists>t \<in> set (transitions_of graph p). tr_input t \<noteq> [] \<and> tr_output t \<noteq> [] \<and>
       (m = (t, None, q) \<or> tr_input t \<in> dom list_symbols \<and>
         (\<exists>u \<in> set (transitions_of merger q). tr_input u \<noteq> [] \<and> tr_output u \<noteq> [] \<and> m = (t, Some u, q)))"
proof -
  show pi: "product_inv (merge_pairs graph merger) (final_sum graph merger) P"
    using inv by (simp add: merge_inv_def)
  have in_pairs: "(p, q) \<in> merge_pairs graph merger" using pi pq unfolding product_inv_def by blast
  then show wf: "wf_graph graph" "wf_graph merger" by (auto simp: merge_pairs_def wf_hbt_def split: if_splits)
  show "s < length (state_vector (result_graph P))"
    using pi ranI [of "state_map P" "(p, q)", OF pq] unfolding product_inv_def by blast
  show "merge_targets m \<in> merge_pairs graph merger" using in_pairs m by (rule merge_targets_in)
  from m obtain t where t: "t \<in> set (transitions_of graph p)"
    "m \<in> set (found_for list_symbols (transitions_of merger q) q t)" by (auto simp: merge_found_in)
  have ne: "u \<in> set (transitions_of graph p) \<Longrightarrow> tr_input u \<noteq> [] \<and> tr_output u \<noteq> []"
    "u \<in> set (transitions_of merger q) \<Longrightarrow> tr_input u \<noteq> [] \<and> tr_output u \<noteq> []" for u
    using wf by (auto simp: wf_graph_iff wf_transition_def)
  have "tr_input t \<in> dom list_symbols" if "m = (t, Some u, q)" for u
    using t(2) that by (auto simp: found_for_def split: option.splits)
  with found_for_in [OF t(2)] t(1) ne show "\<exists>t \<in> set (transitions_of graph p). tr_input t \<noteq> [] \<and> tr_output t \<noteq> [] \<and>
       (m = (t, None, q) \<or> tr_input t \<in> dom list_symbols \<and>
         (\<exists>u \<in> set (transitions_of merger q). tr_input u \<noteq> [] \<and> tr_output u \<noteq> [] \<and> m = (t, Some u, q)))"
    by blast
qed

lemma find_target_ran:
  assumes "product_inv pairs F P" and "find_target_state p q P = (t, new, P1)"
  shows "ran (state_map P1) = insert t (ran (state_map P))"
    and "u \<notin> ran (state_map P) \<Longrightarrow> u < length (state_vector (result_graph P)) \<Longrightarrow> u \<notin> ran (state_map P1)"
proof -
  note ft = find_target [OF assms]
  show r: "ran (state_map P1) = insert t (ran (state_map P))"
  proof (cases new)
    case True
    with ft(2,3) show ?thesis by simp
  next
    case False
    then have "state_map P (p, q) = Some t" using ft(1,3) by simp
    with False ft(3) ranI [of "state_map P" "(p, q)", OF this] show ?thesis by auto
  qed
  show "u \<notin> ran (state_map P1)" if u: "u \<notin> ran (state_map P)" "u < length (state_vector (result_graph P))"
  proof (cases new)
    case True
    with u r ft(9) show ?thesis by auto
  next
    case False
    with u ft(3) show ?thesis by simp
  qed
qed

lemma handle_non_list_step:
  assumes inv: "merge_inv list_symbols markers graph merger P" and pq: "state_map P (p, q) = Some s"
    and m: "(t, None, q) \<in> set (merge_found list_symbols graph merger (p, q))"
  shows "\<exists>r Q. handle_non_list_match graph t merger q s P = Inr (r, Q) \<and>
     merge_inv list_symbols markers graph merger Q \<and> merge_ext P Q \<and> agenda Q = agenda P \<and>
     state_map Q (merge_targets (t, None, q)) = Some r \<and> match_merged (t, None, q) (p, q) Q"
proof -
  note st = merge_start [OF inv pq m]
  obtain r new P1 where f: "find_target_state (tr_target t) q P = (r, new, P1)"
    by (cases "find_target_state (tr_target t) q P")
  note ft = find_target [OF st(1) f] and fr = find_target_ran [OF st(1) f]
  have "tr_input t \<noteq> []" "tr_output t \<noteq> []" using st(6) by auto
  from new_transition_ok [OF this, where t = r and w = "tr_weight t"] obtain tr where
    tr: "new_transition r (tr_input t) (tr_output t) (tr_weight t) = Inr tr" "tr_target tr = r"
      "tr_label tr = (tr_input t, tr_output t)" "tr_weight tr = tr_weight t" by blast
  let ?h = "add_transition s tr True (result_graph P1)"
  have len: "length (state_vector ?h) = length (state_vector (result_graph P1))"
    using st(4) ft(5,6) tr(2) by (simp add: add_transition_simps(1))
  obtain g where g: "make_final new graph (tr_target t) merger q r ?h = Inr g"
    "transitions_of g = transitions_of ?h" "length (state_vector g) = length (state_vector ?h)"
    "product_inv (merge_pairs graph merger) (final_sum graph merger)
       (P1\<lparr>result_graph := g, markers_added := markers_added P1\<rparr>)"
    using finish_target [OF st(2,3,1) f, of ?h "markers_added P1"] add_transition_wf_hbt [OF ft(10) tr(1)] len ft(8)
      st(5) by (auto simp: add_transition_simps(2) merge_targets_def)
  let ?Q = "P1\<lparr>result_graph := g\<rparr>"
  have trs: "transitions_of g u = transitions_of (result_graph P) u @ (if u = s then [tr] else [])" for u
    using g(2) ft(7) by (simp add: add_transition_simps(4))
  have s_ran: "s \<in> ran (state_map P)" using pq by (rule ranI)
  have ext: "merge_ext P ?Q"
    using ft(2,3,4,6,11) trs fr(2) g(3) len s_ran by (auto simp: merge_ext_def search_ext_def map_le_def)
  have mk: "markers_added ?Q \<subseteq> markers \<union> at_marker ` dom list_symbols"
    using inv ft(11) by (simp add: merge_inv_def)
  have as: "merged_as ?Q (t, None, q) tr"
    using tr(2,3,4) ft(1) by (simp add: merged_as_def merge_targets_def tr_label_def [of t])
  have pi: "product_inv (merge_pairs graph merger) (final_sum graph merger) ?Q" using g(4) by simp
  have "merge_inv list_symbols markers graph merger ?Q \<and> match_merged (t, None, q) (p, q) ?Q"
    by (rule merge_inv_step [OF inv pq m pi ext mk _ as]) (simp add: trs)
  moreover have "handle_non_list_match graph t merger q s P = Inr (r, ?Q)"
    using f tr(1) g(1) by (simp add: handle_non_list_match_def Let_def)
  ultimately show ?thesis using ext ft(1,4) by (simp add: merge_targets_def)
qed

lemma handle_list_step:
  assumes inv: "merge_inv list_symbols markers graph merger P" and pq: "state_map P (p, q) = Some s"
    and m: "(t, Some u, q) \<in> set (merge_found list_symbols graph merger (p, q))"
  shows "\<exists>r Q. handle_list_match graph t merger u s P = Inr (r, Q) \<and>
     merge_inv list_symbols markers graph merger Q \<and> merge_ext P Q \<and> agenda Q = agenda P \<and>
     state_map Q (merge_targets (t, Some u, q)) = Some r \<and> match_merged (t, Some u, q) (p, q) Q"
proof -
  note st = merge_start [OF inv pq m]
  obtain r new P1 where f: "find_target_state (tr_target t) (tr_target u) P = (r, new, P1)"
    by (cases "find_target_state (tr_target t) (tr_target u) P")
  note ft = find_target [OF st(1) f] and fr = find_target_ran [OF st(1) f]
  let ?e = "length (state_vector (result_graph P1))" and ?i = "at_marker (tr_input t)"
  let ?g1 = "snd (add_new_state (result_graph P1))"
  have ne: "tr_input u \<noteq> []" "tr_output u \<noteq> []" using st(6) by auto
  from new_transition_ok [OF this, where t = r and w = "tr_weight t + tr_weight u"] obtain tr where
    tr: "new_transition r (tr_input u) (tr_output u) (tr_weight t + tr_weight u) = Inr tr" "tr_target tr = r"
      "tr_label tr = (tr_input u, tr_output u)" "tr_weight tr = tr_weight t + tr_weight u" by blast
  have "?i \<noteq> []" "at_marker (tr_output t) \<noteq> []" by (simp_all add: at_marker_def)
  from new_transition_ok [OF this, where t = ?e and w = "0 :: 'a"] obtain mk where
    mk: "new_transition ?e ?i (at_marker (tr_output t)) (0 :: 'a) = Inr mk" "tr_target mk = ?e"
      "tr_label mk = (?i, at_marker (tr_output t))" "tr_weight mk = 0" by blast
  let ?h = "add_transition ?e tr True (add_transition s mk True ?g1)"
  have se: "s < ?e" using st(4) ft(6) by simp
  have len: "length (state_vector ?h) = Suc ?e"
    using se ft(5) tr(2) mk(2) by (simp add: add_transition_simps(1) add_new_state_simps)
  have wf: "wf_hbt ?h" by (intro add_transition_wf_hbt [OF _ tr(1)] add_transition_wf_hbt [OF _ mk(1)]
      add_new_state_wf_hbt ft(10))
  have "final_weight_map ?h = final_weight_map (result_graph P)"
    using ft(8) by (simp add: add_transition_simps(2) add_new_state_simps)
  then obtain g where g: "make_final new graph (tr_target t) merger (tr_target u) r ?h = Inr g"
    "transitions_of g = transitions_of ?h" "length (state_vector g) = Suc ?e"
    "product_inv (merge_pairs graph merger) (final_sum graph merger)
       (P1\<lparr>result_graph := g, markers_added := insert ?i (markers_added P1)\<rparr>)"
    using finish_target [OF st(2,3,1) f, of ?h "insert ?i (markers_added P1)"] wf len st(5)
    by (auto simp: merge_targets_def)
  let ?Q = "P1\<lparr>result_graph := g, markers_added := insert ?i (markers_added P1)\<rparr>"
  have out: "transitions_of (result_graph P) ?e = []" unfolding ft(7) [symmetric] by (simp add: transitions_of_def)
  have trs: "transitions_of g v = (if v = ?e then [tr] else transitions_of (result_graph P) v @ (if v = s then [mk] else []))"
    for v using g(2) ft(7) out se by (simp add: add_transition_simps(4) add_new_state_simps)
  have ran_e: "v \<in> ran (state_map P1) \<Longrightarrow> v \<noteq> ?e" for v
    using fr(1) ft(5,6) st(1) unfolding product_inv_def by auto
  have s_ran: "s \<in> ran (state_map P)" using pq by (rule ranI)
  have sub: "set (transitions_of (result_graph P) v) \<subseteq> set (transitions_of g v)" for v
    using out trs [of v] by auto
  have ext: "merge_ext P ?Q"
    using ft(2,3,4,6,11) trs fr(2) g(3) s_ran sub by (auto simp: merge_ext_def search_ext_def map_le_def)
  have mark: "markers_added ?Q \<subseteq> markers \<union> at_marker ` dom list_symbols"
    using inv ft(11) st(6) by (auto simp: merge_inv_def)
  have as: "merged_as ?Q (t, Some u, q) mk"
    using tr(2,3,4) mk ft(1) ran_e trs [of ?e] by (auto simp: merged_as_def merge_targets_def tr_label_def [of u])
  have "merge_inv list_symbols markers graph merger ?Q \<and> match_merged (t, Some u, q) (p, q) ?Q"
    by (rule merge_inv_step [OF inv pq m g(4) ext mark _ as]) (use ran_e trs in auto)
  moreover have "handle_list_match graph t merger u s P = Inr (r, ?Q)"
    using f tr(1) mk(1) g(1) add_new_state_simps(5) [of "result_graph P1"]
    by (simp add: handle_list_match_def Let_def case_prod_beta)
  ultimately show ?thesis using ext ft(1,4) by (simp add: merge_targets_def)
qed

lemma handle_merge_step:
  assumes inv: "merge_inv list_symbols markers graph merger P" and pq: "state_map P pq = Some s"
    and m: "m \<in> set (merge_found list_symbols graph merger pq)"
  shows "\<exists>r Q. handle_merge graph merger m s P = Inr (r, Q) \<and>
     merge_inv list_symbols markers graph merger Q \<and> merge_ext P Q \<and> agenda Q = agenda P \<and>
     state_map Q (merge_targets m) = Some r \<and> match_merged m pq Q"
proof -
  obtain p q where pq': "pq = (p, q)" by (cases pq)
  from merge_start(6) [OF inv pq [unfolded pq'] m [unfolded pq']] obtain t mt where m': "m = (t, mt, q)" by blast
  show ?thesis
  proof (cases mt)
    case None
    with handle_non_list_step [OF inv pq [unfolded pq']] m m' pq' show ?thesis by (simp add: handle_merge_def)
  next
    case (Some u)
    with handle_list_step [OF inv pq [unfolded pq']] m m' pq' show ?thesis by (simp add: handle_merge_def)
  qed
qed

lemma merged_as_agenda: "merged_as (P\<lparr>agenda := A\<rparr>) m t \<longleftrightarrow> merged_as P m t"
proof -
  obtain gt mt q where m: "m = (gt, mt, q)" by (cases m)
  show ?thesis unfolding m by (cases mt) (simp_all add: merged_as_def)
qed

interpretation merging: pair_search "merge_steps list_symbols graph merger" "handle_merge graph merger" merge_targets
  "merge_pairs graph merger" "merge_found list_symbols graph merger" "merge_inv list_symbols markers graph merger"
  merge_ext match_merged
  for list_symbols :: "string \<rightharpoonup> string set" and markers and graph merger :: "'w::{linorder, monoid_add} hbt"
proof unfold_locales
  fix P Q R :: "'w product_search" and pq s and m :: "'w merge_match"
  show "finite (merge_pairs graph merger)" by (simp add: merge_pairs_def state_pairs_def)
  show "merge_steps list_symbols graph merger pq = Inr (map Inr (merge_found list_symbols graph merger pq))"
    if "pq \<in> merge_pairs graph merger" using that by (rule merge_steps_found)
  show "merge_targets m \<in> merge_pairs graph merger"
    if "pq \<in> merge_pairs graph merger" "m \<in> set (merge_found list_symbols graph merger pq)"
    using that by (rule merge_targets_in)
  show "dom (state_map P) \<subseteq> merge_pairs graph merger \<and> inj_on (state_map P) (dom (state_map P)) \<and>
      agenda P \<subseteq> ran (state_map P)" if "merge_inv list_symbols markers graph merger P"
    using that unfolding merge_inv_def product_inv_def by blast
  show "merge_inv list_symbols markers graph merger (P\<lparr>agenda := insert s (agenda P)\<rparr>) \<and>
      merge_ext P (P\<lparr>agenda := insert s (agenda P)\<rparr>)"
    if "merge_inv list_symbols markers graph merger P" and "s \<in> ran (state_map P)"
    using that product_inv_agenda [of _ _ P s]
    by (simp add: merge_inv_def merge_ext_def search_ext_agenda merged_as_agenda)
  show "merge_ext P Q \<Longrightarrow> merge_ext Q R \<Longrightarrow> merge_ext P R" by (rule merge_ext_trans)
  show "merge_ext P Q \<Longrightarrow> match_merged m pq P \<Longrightarrow> match_merged m pq Q" by (rule match_merged_ext)
  show "merge_ext P Q \<Longrightarrow> state_map P \<subseteq>\<^sub>m state_map Q \<and> agenda P \<subseteq> agenda Q"
    by (simp add: merge_ext_def search_ext_def)
  show "merge_ext P P" by (rule merge_ext_refl)
  show "\<exists>t Q. handle_merge graph merger m s P = Inr (t, Q) \<and> merge_inv list_symbols markers graph merger Q \<and>
      merge_ext P Q \<and> agenda Q = agenda P \<and> state_map Q (merge_targets m) = Some t \<and> match_merged m pq Q"
    if "merge_inv list_symbols markers graph merger P" "state_map P pq = Some s"
      "m \<in> set (merge_found list_symbols graph merger pq)"
    using that by (rule handle_merge_step)
qed

section \<open>Merged runs\<close>

text \<open>The runs a merge should have, from a pair of states to another: labels and weight.\<close>

inductive merged_run ::
  "(string \<rightharpoonup> string set) \<Rightarrow> 'w::monoid_add hbt \<Rightarrow> 'w hbt \<Rightarrow> nat \<times> nat \<Rightarrow> string_pair list \<Rightarrow> 'w \<Rightarrow> nat \<times> nat \<Rightarrow> bool"
  for list_symbols graph merger where
  stop: "merged_run list_symbols graph merger pq [] 0 pq"
| copy: "t \<in> set (transitions_of graph p) \<Longrightarrow>
    (\<forall>symbols. list_symbols (tr_input t) = Some symbols \<longrightarrow>
       (\<forall>u \<in> set (transitions_of merger q). tr_input u \<notin> symbols)) \<Longrightarrow>
    merged_run list_symbols graph merger (tr_target t, q) ps w pq \<Longrightarrow>
    merged_run list_symbols graph merger (p, q) (tr_label t # ps) (tr_weight t + w) pq"
| list: "t \<in> set (transitions_of graph p) \<Longrightarrow> list_symbols (tr_input t) = Some symbols \<Longrightarrow>
    u \<in> set (transitions_of merger q) \<Longrightarrow> tr_input u \<in> symbols \<Longrightarrow>
    merged_run list_symbols graph merger (tr_target t, tr_target u) ps w pq \<Longrightarrow>
    merged_run list_symbols graph merger (p, q)
      ((at_marker (tr_input t), at_marker (tr_output t)) # tr_label u # ps) (tr_weight t + tr_weight u + w) pq"

lemma found_for_copy:
  "(t, None, q) \<in> set (found_for list_symbols mts q t) \<longleftrightarrow>
     (\<forall>symbols. list_symbols (tr_input t) = Some symbols \<longrightarrow> (\<forall>u \<in> set mts. tr_input u \<notin> symbols))"
  by (auto simp: found_for_def filter_empty_conv split: option.splits list.splits)

lemma found_for_list:
  "(t, Some u, q) \<in> set (found_for list_symbols mts q t) \<longleftrightarrow>
     u \<in> set mts \<and> (\<exists>symbols. list_symbols (tr_input t) = Some symbols \<and> tr_input u \<in> symbols)"
proof (cases "list_symbols (tr_input t)")
  case (Some symbols)
  have "set (filter (\<lambda>u. tr_input u \<in> symbols) mts) = {u \<in> set mts. tr_input u \<in> symbols}" by auto
  with Some show ?thesis
    by (cases "filter (\<lambda>u. tr_input u \<in> symbols) mts") (auto simp: found_for_def)
qed (simp add: found_for_def)

lemma merge_found_fst:
  "m \<in> set (merge_found list_symbols graph merger (p, q)) \<longleftrightarrow> fst m \<in> set (transitions_of graph p) \<and>
     m \<in> set (found_for list_symbols (transitions_of merger q) q (fst m))"
proof -
  have "fst m = t" if "m \<in> set (found_for list_symbols (transitions_of merger q) q t)" for t
    using found_for_in [OF that] by auto
  then show ?thesis unfolding merge_found_in by blast
qed

lemma merge_found_copy:
  "(t, None, q) \<in> set (merge_found list_symbols graph merger (p, q)) \<longleftrightarrow> t \<in> set (transitions_of graph p) \<and>
     (\<forall>symbols. list_symbols (tr_input t) = Some symbols \<longrightarrow>
       (\<forall>u \<in> set (transitions_of merger q). tr_input u \<notin> symbols))"
  unfolding merge_found_fst fst_conv found_for_copy ..

lemma merge_found_list:
  "(t, Some u, q) \<in> set (merge_found list_symbols graph merger (p, q)) \<longleftrightarrow> t \<in> set (transitions_of graph p) \<and>
     u \<in> set (transitions_of merger q) \<and> (\<exists>symbols. list_symbols (tr_input t) = Some symbols \<and> tr_input u \<in> symbols)"
  unfolding merge_found_fst fst_conv found_for_list ..

definition merge_complete ::
  "(string \<rightharpoonup> string set) \<Rightarrow> string set \<Rightarrow> 'w::monoid_add hbt \<Rightarrow> 'w hbt \<Rightarrow> 'w product_search \<Rightarrow> bool" where
  "merge_complete list_symbols markers graph merger P \<longleftrightarrow>
     merge_inv list_symbols markers graph merger P \<and> state_map P (0, 0) = Some 0 \<and> 0 \<in> agenda P \<and>
     (\<forall>pq s m. state_map P pq = Some s \<longrightarrow> s \<in> agenda P \<longrightarrow> m \<in> set (merge_found list_symbols graph merger pq) \<longrightarrow>
        match_merged m pq P \<and> (\<exists>t \<in> agenda P. state_map P (merge_targets m) = Some t))"

lemma merge_path_sound:
  fixes graph merger :: "'w::monoid_add hbt"
  assumes inv: "merge_inv list_symbols markers graph merger P"
  shows "path (result_graph P) s us r \<Longrightarrow> state_map P (p, q) = Some s \<Longrightarrow> r \<in> ran (state_map P) \<Longrightarrow>
     \<exists>pq. state_map P pq = Some r \<and>
       merged_run list_symbols graph merger (p, q) (map tr_label us) (path_weight us) pq"
proof (induction us arbitrary: s p q rule: length_induct)
  case (1 us)
  show ?case
  proof (cases us)
    case Nil
    with 1(2,3) show ?thesis by (auto intro: merged_run.stop)
  next
    case (Cons t ts)
    then have t: "t \<in> set (transitions_of (result_graph P) s)" "path (result_graph P) (tr_target t) ts r"
      using 1(2) by simp_all
    from inv t(1) 1(3) obtain m where m: "m \<in> set (merge_found list_symbols graph merger (p, q))" "merged_as P m t"
      unfolding merge_inv_def by blast
    from merge_start(6) [OF inv 1(3) m(1)] obtain gt mt where gt: "m = (gt, mt, q)" by blast
    show ?thesis
    proof (cases mt)
      case None
      with m gt have *: "tr_label t = tr_label gt" "tr_weight t = tr_weight gt"
        "state_map P (tr_target gt, q) = Some (tr_target t)"
        by (auto simp: merged_as_def merge_targets_def)
      from 1(1) Cons t(2) *(3) 1(4) obtain pq where pq: "state_map P pq = Some r"
        "merged_run list_symbols graph merger (tr_target gt, q) (map tr_label ts) (path_weight ts) pq"
        by (metis length_Cons lessI)
      from merged_run.copy [OF _ _ pq(2)] m(1) gt None merge_found_copy
      have "merged_run list_symbols graph merger (p, q) (tr_label gt # map tr_label ts) (tr_weight gt + path_weight ts) pq"
        by blast
      with pq(1) * Cons show ?thesis by (intro exI [of _ pq]) simp
    next
      case (Some u)
      with m gt obtain v where v: "tr_label t = (at_marker (tr_input gt), at_marker (tr_output gt))" "tr_weight t = 0"
        "tr_target t \<notin> ran (state_map P)" "transitions_of (result_graph P) (tr_target t) = [v]"
        "tr_label v = tr_label u" "tr_weight v = tr_weight gt + tr_weight u"
        "state_map P (tr_target gt, tr_target u) = Some (tr_target v)"
        by (auto simp: merged_as_def merge_targets_def)
      have "ts \<noteq> []" using t(2) v(3) 1(4) by auto
      with t(2) v(4) obtain ts' where ts': "ts = v # ts'" "path (result_graph P) (tr_target v) ts' r"
        by (cases ts) auto
      have "length ts' < length us" using Cons ts'(1) by simp
      with 1(1) ts'(2) v(7) 1(4) obtain pq where pq: "state_map P pq = Some r"
        "merged_run list_symbols graph merger (tr_target gt, tr_target u) (map tr_label ts') (path_weight ts') pq"
        by blast
      from m(1) gt Some merge_found_list obtain symbols where "gt \<in> set (transitions_of graph p)"
        "u \<in> set (transitions_of merger q)" "list_symbols (tr_input gt) = Some symbols" "tr_input u \<in> symbols" by blast
      from merged_run.list [where list_symbols = list_symbols, OF this(1,3,2,4) pq(2)] pq(1) v Cons ts'(1)
      show ?thesis by (intro exI [of _ pq]) (simp add: add.assoc)
    qed
  qed
qed

lemma merge_path_complete:
  fixes graph merger :: "'w::monoid_add hbt"
  assumes all: "merge_complete list_symbols markers graph merger P"
  shows "merged_run list_symbols graph merger pq ps w pq' \<Longrightarrow> state_map P pq = Some s \<Longrightarrow> s \<in> agenda P \<Longrightarrow>
     \<exists>us r. path (result_graph P) s us r \<and> state_map P pq' = Some r \<and> map tr_label us = ps \<and> path_weight us = w"
proof (induction arbitrary: s rule: merged_run.induct)
  case (stop pq)
  then show ?case by (intro exI [of _ "[]"]) simp
next
  case (copy t p q ps w pq)
  from copy(1,2) have "(t, None, q) \<in> set (merge_found list_symbols graph merger (p, q))"
    by (simp add: merge_found_copy)
  with all copy(5,6) obtain t' where "match_merged (t, None, q) (p, q) P" and
    t': "t' \<in> agenda P" "state_map P (tr_target t, q) = Some t'"
    unfolding merge_complete_def by (fastforce simp: merge_targets_def)
  with copy(5) obtain v where v: "v \<in> set (transitions_of (result_graph P) s)" "tr_label v = tr_label t"
    "tr_weight v = tr_weight t" "tr_target v = t'" by (auto simp: match_merged_def merged_as_def merge_targets_def)
  from copy.IH [OF t'(2,1)] obtain us r where "path (result_graph P) t' us r" "state_map P pq = Some r"
    "map tr_label us = ps" "path_weight us = w" by blast
  with v show ?case by (intro exI [of _ "v # us"] exI [of _ r]) simp
next
  case (list t p symbols u q ps w pq)
  from list(1-4) have "(t, Some u, q) \<in> set (merge_found list_symbols graph merger (p, q))"
    by (simp add: merge_found_list)
  with all list(7,8) obtain t' where "match_merged (t, Some u, q) (p, q) P" and
    t': "t' \<in> agenda P" "state_map P (tr_target t, tr_target u) = Some t'"
    unfolding merge_complete_def by (fastforce simp: merge_targets_def)
  with list(7) obtain mk v where v: "mk \<in> set (transitions_of (result_graph P) s)"
    "tr_label mk = (at_marker (tr_input t), at_marker (tr_output t))" "tr_weight mk = 0"
    "v \<in> set (transitions_of (result_graph P) (tr_target mk))" "tr_label v = tr_label u"
    "tr_weight v = tr_weight t + tr_weight u" "tr_target v = t'"
    by (auto simp: match_merged_def merged_as_def merge_targets_def)
  from list.IH [OF t'(2,1)] obtain us r where "path (result_graph P) t' us r" "state_map P pq = Some r"
    "map tr_label us = ps" "path_weight us = w" by blast
  with v show ?case by (intro exI [of _ "mk # v # us"] exI [of _ r]) (simp add: add.assoc)
qed

lemma is_automaton_sort_arcs: "is_automaton (sort_arcs tab g) \<longleftrightarrow> is_automaton g"
  by (simp add: is_automaton_def sort_arcs_def)

lemma merge_result:
  fixes graph merger :: "'w::{linorder, monoid_add} hbt"
  assumes "wf_hbt graph" and "wf_hbt merger" and "is_automaton graph" and "is_automaton merger"
  shows "\<exists>P. merge tab list_symbols markers graph merger = Some (Inr (result_graph P, markers_added P)) \<and>
     merge_complete list_symbols markers (sort_arcs tab graph) (sort_arcs tab merger) P"
proof -
  let ?g1 = "sort_arcs tab graph" and ?g2 = "sort_arcs tab merger"
  have wf: "wf_hbt ?g1" "wf_hbt ?g2" using assms by (simp_all add: sort_arcs_wf_hbt)
  then have wfg: "wf_graph ?g1" "wf_graph ?g2" by (simp_all add: wf_hbt_def)
  from initial_result_ok [OF wfg, of "(+)"] obtain r where r: "initial_result (+) ?g1 ?g2 = Inr r" "wf_hbt r"
    "\<And>s. transitions_of r s = []" "length (state_vector r) = 1"
    "final_weight_map r = Map.empty(0 := final_sum ?g1 ?g2 (0, 0))" unfolding final_sum_def by auto
  let ?P = "\<lparr>result_graph = r, state_map = [(0, 0) \<mapsto> 0], agenda = {}, markers_added = markers\<rparr>"
  have "product_inv (merge_pairs ?g1 ?g2) (final_sum ?g1 ?g2) ?P"
    using initial_pair [OF wfg] wf assms(3,4)
    by (intro product_inv_initial r) (simp add: merge_pairs_def is_automaton_sort_arcs)
  then have inv: "merge_inv list_symbols markers ?g1 ?g2 ?P" by (simp add: merge_inv_def r(3))
  have "\<exists>R. search_pairs (merge_steps list_symbols ?g1 ?g2) (handle_merge ?g1 ?g2) merge_targets (0, 0) 0 None ?P =
      Some (Inr R) \<and> merging.progress list_symbols ?g1 ?g2 markers ?P R \<and> 0 \<in> agenda R"
    by (rule merging.search_result [OF inv]) simp_all
  then obtain R where R: "find_matches_for_merge list_symbols ?g1 ?g2 (0, 0) 0 ?P = Some (Inr R)"
    "merging.progress list_symbols ?g1 ?g2 markers ?P R" "0 \<in> agenda R" unfolding find_matches_for_merge_def by blast
  have inv: "merge_inv list_symbols markers ?g1 ?g2 R" using R(2) by (simp add: merging.progress_def)
  moreover have "state_map R (0, 0) = Some 0" using inv by (simp add: merge_inv_def product_inv_def)
  moreover have "match_merged m pq R \<and> (\<exists>t \<in> agenda R. state_map R (merge_targets m) = Some t)"
    if "state_map R pq = Some s" "s \<in> agenda R" "m \<in> set (merge_found list_symbols ?g1 ?g2 pq)" for pq s m
    using merging.progressD [OF R(2) that(1,2)] that(3) by (simp add: merging.gone_through_def)
  ultimately have "merge_complete list_symbols markers ?g1 ?g2 R" using R(3) unfolding merge_complete_def by blast
  moreover have "merge tab list_symbols markers graph merger = Some (Inr (result_graph R, markers_added R))"
    by (simp only: merge_def Let_def r(1) sum.case R(1)) simp
  ultimately show ?thesis by blast
qed

text \<open>Merged runs do not depend on the order of the transitions.\<close>

lemma merged_run_sorted:
  "merged_run list_symbols g1 g2 pq ps w pq' \<Longrightarrow>
     (\<And>s. set (transitions_of g1 s) = set (transitions_of h1 s)) \<Longrightarrow>
     (\<And>s. set (transitions_of g2 s) = set (transitions_of h2 s)) \<Longrightarrow>
     merged_run list_symbols h1 h2 pq ps w pq'"
proof (induction rule: merged_run.induct)
  case (stop pq)
  show ?case by (rule merged_run.stop)
next
  case (copy t p q ps w pq)
  show ?case by (rule merged_run.copy) (use copy in auto)
next
  case (list t p symbols u q ps w pq)
  show ?case by (rule merged_run.list [where symbols = symbols]) (use list in auto)
qed

lemma merged_run_sort_arcs:
  "merged_run list_symbols (sort_arcs tab g1) (sort_arcs tab g2) pq ps w pq' \<longleftrightarrow> merged_run list_symbols g1 g2 pq ps w pq'"
  using merged_run_sorted [of list_symbols "sort_arcs tab g1" "sort_arcs tab g2" pq ps w pq' g1 g2]
    merged_run_sorted [of list_symbols g1 g2 pq ps w pq' "sort_arcs tab g1" "sort_arcs tab g2"]
  by (auto simp: sort_arcs_simps(4))

lemma final_sum_sort_arcs: "final_sum (sort_arcs tab g1) (sort_arcs tab g2) = final_sum g1 g2"
  by (simp add: final_sum_def fun_eq_iff sort_arcs_simps(3))

section \<open>Properties\<close>

text \<open>C15. Merging two automata always returns; the result is well-formed, and it accepts exactly the
  labels of the merged runs that end in final states, with their weights. The markers added are
  those of list symbols.\<close>

theorem merge_correct:
  fixes graph merger :: "'w::{linorder, monoid_add} hbt"
  assumes "wf_hbt graph" and "wf_hbt merger" and "is_automaton graph" and "is_automaton merger"
  shows "\<exists>g added. merge tab list_symbols markers graph merger = Some (Inr (g, added)) \<and> wf_hbt g \<and>
     added \<subseteq> markers \<union> at_marker ` dom list_symbols \<and>
     (\<forall>ps w. weighted_accepts g ps w \<longleftrightarrow> (\<exists>v pq f. merged_run list_symbols graph merger (0, 0) ps v pq \<and>
        final_sum graph merger pq = Some f \<and> w = v + f))"
proof -
  from merge_result [OF assms, of tab list_symbols markers] obtain P where
    P: "merge tab list_symbols markers graph merger = Some (Inr (result_graph P, markers_added P))"
    "merge_complete list_symbols markers (sort_arcs tab graph) (sort_arcs tab merger) P" by blast
  then have inv: "merge_inv list_symbols markers (sort_arcs tab graph) (sort_arcs tab merger) P"
    and init: "state_map P (0, 0) = Some 0" "0 \<in> agenda P" by (simp_all add: merge_complete_def)
  have fin: "final_weight_map (result_graph P) s = final_sum graph merger pq" if "state_map P pq = Some s" for pq s
    using inv that by (auto simp: merge_inv_def product_inv_def final_sum_sort_arcs simp del: split_paired_All)
  have "weighted_accepts (result_graph P) ps w \<longleftrightarrow> (\<exists>v pq f. merged_run list_symbols graph merger (0, 0) ps v pq \<and>
        final_sum graph merger pq = Some f \<and> w = v + f)" for ps w
  proof
    assume "weighted_accepts (result_graph P) ps w"
    then obtain us r fw where us: "path (result_graph P) 0 us r" "final_weight_map (result_graph P) r = Some fw"
      "ps = map tr_label us" "w = path_weight us + fw" by (auto simp: weighted_accepts_def)
    have "r \<in> ran (state_map P)" using inv us(2) unfolding merge_inv_def product_inv_def by blast
    from merge_path_sound [OF inv us(1) init(1) this] obtain pq where "state_map P pq = Some r"
      "merged_run list_symbols graph merger (0, 0) ps (path_weight us) pq"
      by (auto simp: merged_run_sort_arcs us(3) simp del: split_paired_Ex)
    with fin us(2,4) show "\<exists>v pq f. merged_run list_symbols graph merger (0, 0) ps v pq \<and>
        final_sum graph merger pq = Some f \<and> w = v + f" by metis
  next
    assume "\<exists>v pq f. merged_run list_symbols graph merger (0, 0) ps v pq \<and>
        final_sum graph merger pq = Some f \<and> w = v + f"
    then obtain v pq f where v: "merged_run list_symbols graph merger (0, 0) ps v pq"
      "final_sum graph merger pq = Some f" "w = v + f" by blast
    have "merged_run list_symbols (sort_arcs tab graph) (sort_arcs tab merger) (0, 0) ps v pq"
      using v(1) by (simp only: merged_run_sort_arcs)
    from merge_path_complete [OF P(2) this init] obtain us r where
      "path (result_graph P) 0 us r" "state_map P pq = Some r" "map tr_label us = ps" "path_weight us = v" by blast
    with fin v(2,3) show "weighted_accepts (result_graph P) ps w" unfolding weighted_accepts_def by metis
  qed
  moreover have "wf_hbt (result_graph P)" "markers_added P \<subseteq> markers \<union> at_marker ` dom list_symbols"
    using inv by (simp_all add: merge_inv_def product_inv_def)
  ultimately show ?thesis using P(1) by blast
qed

definition one_letter :: "string \<Rightarrow> int hbt" where
  "one_letter a = \<lparr>hbt_name = [],
     state_vector = [[\<lparr>tr_target = 1, tr_input = a, tr_output = a, tr_weight = 1\<rparr>], []],
     final_weight_map = [1 \<mapsto> 3], alphabet = insert a (initialize_alphabet {})\<rparr>"

lemma one_letter_ok: "a \<noteq> [] \<Longrightarrow> wf_hbt (one_letter a) \<and> is_automaton (one_letter a)"
  by (auto simp: wf_hbt_def wf_graph_def wf_alphabet_def one_letter_def wf_transition_def initialize_alphabet_def
      internal_epsilon_def internal_unknown_def internal_identity_def is_automaton_def)

lemma merge_correct_witness:
  "\<exists>g added. merge initial_symtab [''L'' \<mapsto> {''a'', ''b''}] {} (one_letter ''L'') (one_letter ''a'') = Some (Inr (g, added)) \<and>
     weighted_accepts g [(''@L@'', ''@L@''), (''a'', ''a'')] 8"
proof -
  let ?t = "\<lambda>a. \<lparr>tr_target = 1, tr_input = a, tr_output = a, tr_weight = 1 :: int\<rparr>"
  have "merged_run [''L'' \<mapsto> {''a'', ''b''}] (one_letter ''L'') (one_letter ''a'') (0, 0)
      ((at_marker (tr_input (?t ''L'')), at_marker (tr_output (?t ''L''))) # tr_label (?t ''a'') # [])
      (tr_weight (?t ''L'') + tr_weight (?t ''a'') + 0) (1, 1)"
    by (rule merged_run.list [where symbols = "{''a'', ''b''}"])
      (auto simp: one_letter_def transitions_of_def intro: merged_run.stop)
  moreover have "final_sum (one_letter ''L'') (one_letter ''a'') (1, 1) = Some 6"
    by (simp add: final_sum_def one_letter_def)
  ultimately have run: "\<exists>v pq f. merged_run [''L'' \<mapsto> {''a'', ''b''}] (one_letter ''L'') (one_letter ''a'') (0, 0)
      [(''@L@'', ''@L@''), (''a'', ''a'')] v pq \<and> final_sum (one_letter ''L'') (one_letter ''a'') pq = Some f \<and> 8 = v + f"
    by (intro exI [of _ 2] exI [of _ "(1, 1)"] exI [of _ 6]) (simp add: at_marker_def tr_label_def)
  from merge_correct [of "one_letter ''L''" "one_letter ''a''" initial_symtab "[''L'' \<mapsto> {''a'', ''b''}]" "{}"]
    one_letter_ok obtain g added where
    "merge initial_symtab [''L'' \<mapsto> {''a'', ''b''}] {} (one_letter ''L'') (one_letter ''a'') = Some (Inr (g, added))"
    "\<And>ps w. weighted_accepts g ps w \<longleftrightarrow> (\<exists>v pq f. merged_run [''L'' \<mapsto> {''a'', ''b''}] (one_letter ''L'')
       (one_letter ''a'') (0, 0) ps v pq \<and> final_sum (one_letter ''L'') (one_letter ''a'') pq = Some f \<and> w = v + f)"
    by auto
  with run show ?thesis by blast
qed

end
