(* ===== verification/ComposeFst.thy ===== *)
theory ComposeFst
  imports Substitution
begin

text \<open>
  The transducers of compose-intersect (\<open>compose_intersect/ComposeIntersectUtilities.h\<close>,
  \<open>ComposeIntersectFst.cc\<close> and \<open>ComposeIntersectRule.cc\<close>): sorted vectors used as sets, and
  graphs whose transitions are looked up by a symbol, where a symbol the graph does not know
  gets the identity transition of the state, stored when it is first asked for. Shown: the
  vectors are sets, what the constructor builds, and that a look-up gives what \<open>known_or_identity\<close>
  says and leaves that as it was.
\<close>

section \<open>SpaceSavingSet\<close>

datatype 'w ci_transition =
  CiTransition (ilabel: nat) (olabel: nat) (ci_weight: 'w) (ci_target: nat)

definition compare_transitions :: "'w::ord ci_transition \<Rightarrow> 'w ci_transition \<Rightarrow> bool" where
  "compare_transitions tr1 tr2 =
     (if ilabel tr1 = ilabel tr2 then
        (if olabel tr1 = olabel tr2 then
           (if ci_weight tr1 = ci_weight tr2 then ci_target tr1 < ci_target tr2
            else ci_weight tr1 < ci_weight tr2)
         else olabel tr1 < olabel tr2)
      else ilabel tr1 < ilabel tr2)"

instantiation ci_transition :: (linorder) linorder
begin

definition less_ci_transition_def: "(a :: 'a ci_transition) < b \<longleftrightarrow> compare_transitions a b"
definition less_eq_ci_transition_def: "(a :: 'a ci_transition) \<le> b \<longleftrightarrow> \<not> compare_transitions b a"

instance
proof
  fix a b c :: "'a ci_transition"
  show "(a < b) = (a \<le> b \<and> \<not> b \<le> a)" "a \<le> a" "a \<le> b \<or> b \<le> a"
    by (auto simp: less_ci_transition_def less_eq_ci_transition_def compare_transitions_def split: if_splits)
  show "a \<le> b \<Longrightarrow> b \<le> c \<Longrightarrow> a \<le> c" "a \<le> b \<Longrightarrow> b \<le> a \<Longrightarrow> a = b"
    by (cases a; cases b; cases c;
        force simp: less_eq_ci_transition_def compare_transitions_def split: if_splits)+
qed

end

text \<open>The set is a vector; \<open>insert\<close> walks to the least upper bound and inserts unless it is there.\<close>

fun least_upper_bound :: "'a::linorder \<Rightarrow> 'a list \<Rightarrow> nat" where
  "least_upper_bound x [] = 0"
| "least_upper_bound x (y # ys) = (if y < x then Suc (least_upper_bound x ys) else 0)"

definition sss_insert :: "'a::linorder \<Rightarrow> 'a list \<Rightarrow> 'a list" where
  "sss_insert x container =
     (let i = least_upper_bound x container
      in if i = length container \<or> x \<noteq> container ! i
         then take i container @ [x] @ drop i container else container)"

definition sss_has_element :: "'a::linorder \<Rightarrow> 'a list \<Rightarrow> bool" where
  "sss_has_element x container =
     (let i = least_upper_bound x container
      in \<not> (i = length container \<or> container ! i \<noteq> x))"

lemma sss_insert_Cons:
  "sss_insert x (y # ys) = (if y < x then y # sss_insert x ys else if x = y then y # ys else x # y # ys)"
  by (simp add: sss_insert_def Let_def)

lemma sss_insert_Nil [simp]: "sss_insert x [] = [x]"
  by (simp add: sss_insert_def)

lemma set_sss_insert [simp]: "set (sss_insert x xs) = insert x (set xs)"
  by (induction xs) (auto simp: sss_insert_Cons)

lemma sorted_sss_insert: "sorted_wrt (<) xs \<Longrightarrow> sorted_wrt (<) (sss_insert x xs)"
  by (induction xs) (auto simp: sss_insert_Cons)

lemma sss_has_element_iff: "sorted_wrt (<) xs \<Longrightarrow> sss_has_element x xs \<longleftrightarrow> x \<in> set xs"
  by (induction xs) (auto simp: sss_has_element_def Let_def)

section \<open>ComposeIntersectFst\<close>

text \<open>The graph is kept as well, but only for its iteration in the constructor. \<open>finality\<close> is \<open>None\<close> where
  the code has infinity.\<close>

record 'w ci_fst =
  symbol_set :: "nat set"
  transition_maps :: "(nat \<rightharpoonup> 'w ci_transition list) list"
  finality :: "'w option list"
  identity_transitions :: "'w ci_transition list"

text \<open>The numbers of the two special symbols the code asks for; they are given when the table is
  made and never change.\<close>

definition epsilon_number :: nat where "epsilon_number = 0"
definition identity_number :: nat where "identity_number = 2"

definition ci_of_transition :: "'w transition \<Rightarrow> symtab \<Rightarrow> ('w ci_transition \<times> symtab) result" where
  "ci_of_transition t tab =
     rbind (get_number (tr_input t) tab) (\<lambda>(i, tab1).
     rbind (get_number (tr_output t) tab1) (\<lambda>(out, tab2).
       if tr_input t = [] \<or> tr_output t = [] then Inl AssertionFailed
       else Inr (CiTransition i out (tr_weight t) (tr_target t), tab2)))"

text \<open>The loop over the transitions of a state: the map of the state, the vector of identity
  transitions, and whether one was found.\<close>

definition ci_add_transition ::
  "bool \<Rightarrow> 'w::linorder transition \<Rightarrow>
     (nat \<rightharpoonup> 'w ci_transition list) \<times> 'w ci_transition list \<times> bool \<times> symtab \<Rightarrow>
     ((nat \<rightharpoonup> 'w ci_transition list) \<times> 'w ci_transition list \<times> bool \<times> symtab) result" where
  "ci_add_transition input_keys t st =
     (case st of (m, ids, identity_found, tab) \<Rightarrow>
        if tr_input t = internal_identity
        then rmap (\<lambda>(c, tab1). (m, ids @ [c], True, tab1)) (ci_of_transition t tab)
        else rbind (get_number (if input_keys then tr_input t else tr_output t) tab) (\<lambda>(k, tab1).
             rmap (\<lambda>(c, tab2). (m(k \<mapsto> sss_insert c (case m k of None \<Rightarrow> [] | Some cs \<Rightarrow> cs)), ids, identity_found, tab2))
               (ci_of_transition t tab1)))"

definition ci_add_state ::
  "bool \<Rightarrow> 'w::{linorder, zero} hbt \<Rightarrow> nat \<Rightarrow> 'w ci_fst \<times> symtab \<Rightarrow> ('w ci_fst \<times> symtab) result" where
  "ci_add_state input_keys g source_state st =
     (case st of (f, tab) \<Rightarrow>
        rbind (if is_final_state source_state g then rmap Some (get_final_weight source_state g) else Inr None)
        (\<lambda>fw.
        rmap (\<lambda>(m, ids, identity_found, tab1).
            (f\<lparr>transition_maps := transition_maps f @ [m], finality := finality f @ [fw],
               identity_transitions := (if \<not> identity_found
                 then ids @ [CiTransition epsilon_number epsilon_number 0 0] else ids)\<rparr>, tab1))
          (rfold (ci_add_transition input_keys) (transitions_of g source_state)
             (Map.empty, identity_transitions f, False, tab))))"

definition ci_fst_new :: "bool \<Rightarrow> 'w::{linorder, zero} hbt \<Rightarrow> symtab \<Rightarrow> ('w ci_fst \<times> symtab) result" where
  "ci_fst_new input_keys t tab =
     (let g = sort_arcs tab t in
      rbind (rfold (\<lambda>s (syms, tab). rmap (\<lambda>(n, tab1). (insert n syms, tab1)) (get_number s tab))
               (sorted_list_of_set (alphabet g)) ({}, tab)) (\<lambda>(syms, tab1).
      rfold (ci_add_state input_keys g) [0..<length (state_vector g)]
        (\<lparr>symbol_set = syms, transition_maps = [], finality = [], identity_transitions = []\<rparr>, tab1)))"

definition is_known_symbol :: "nat \<Rightarrow> ('w, 'z) ci_fst_scheme \<Rightarrow> bool" where
  "is_known_symbol symbol f \<longleftrightarrow> symbol \<in> symbol_set f"

definition get_identity_transition :: "nat \<Rightarrow> ('w, 'z) ci_fst_scheme \<Rightarrow> 'w ci_transition result" where
  "get_identity_transition s f =
     (if s \<ge> length (transition_maps f) then Inl StateNotDefined
      else if s \<ge> length (identity_transitions f) then Inl OutOfRange
      else Inr (identity_transitions f ! s))"

definition has_identity_transition :: "nat \<Rightarrow> ('w, 'z) ci_fst_scheme \<Rightarrow> bool result" where
  "has_identity_transition s f = rmap (\<lambda>t. ilabel t = identity_number) (get_identity_transition s f)"

definition ci_final_weight :: "nat \<Rightarrow> ('w, 'z) ci_fst_scheme \<Rightarrow> 'w option result" where
  "ci_final_weight s f =
     (if s \<ge> length (transition_maps f) then Inl StateNotDefined
      else if s \<ge> length (finality f) then Inl OutOfRange else Inr (finality f ! s))"

definition ci_get_transitions ::
  "nat \<Rightarrow> nat \<Rightarrow> ('w::linorder, 'z) ci_fst_scheme \<Rightarrow> ('w ci_transition list \<times> ('w, 'z) ci_fst_scheme) result" where
  "ci_get_transitions s symbol f =
     (if s \<ge> length (transition_maps f) then Inl StateNotDefined
      else case (transition_maps f ! s) symbol of
        Some ts \<Rightarrow> Inr (ts, f)
      | None \<Rightarrow>
          let store = (\<lambda>ts. (ts, f\<lparr>transition_maps := (transition_maps f)[s := (transition_maps f ! s)(symbol \<mapsto> ts)]\<rparr>))
          in rbind (if is_known_symbol symbol f then Inr True else rmap Not (has_identity_transition s f)) (\<lambda>b.
             if b then Inr (store [])
             else rmap (\<lambda>t. store (sss_insert (CiTransition symbol symbol (ci_weight t) (ci_target t)) []))
                    (get_identity_transition s f)))"

text \<open>\<open>ComposeIntersectRule\<close> keeps the alphabet as strings too.\<close>

record 'w ci_rule = "'w ci_fst" +
  rule_symbols :: "string set"

definition known_symbol :: "nat \<Rightarrow> symtab \<Rightarrow> 'w ci_rule \<Rightarrow> bool result" where
  "known_symbol symbol tab r =
     rbind (size_t_to_uint symbol) (\<lambda>n. rmap (\<lambda>s. s \<in> rule_symbols r) (get_symbol n tab))"

definition ci_rule_new :: "'w::{linorder, zero} hbt \<Rightarrow> symtab \<Rightarrow> ('w ci_rule \<times> symtab) result" where
  "ci_rule_new t tab =
     rmap (\<lambda>(f, tab1). (ci_fst.extend f \<lparr>rule_symbols = alphabet t\<rparr>, tab1)) (ci_fst_new True t tab)"

section \<open>What the constructor builds\<close>

definition ci_encode :: "symtab \<Rightarrow> 'w transition \<Rightarrow> 'w ci_transition" where
  "ci_encode tab t = CiTransition (tr_input_number tab t) (tr_output_number tab t) (tr_weight t) (tr_target t)"

definition ci_key :: "bool \<Rightarrow> symtab \<Rightarrow> 'w transition \<Rightarrow> nat" where
  "ci_key input_keys tab t = (if input_keys then tr_input_number tab t else tr_output_number tab t)"

text \<open>A table that numbers the special symbols as the program does at its start.\<close>

definition program_table :: "symtab \<Rightarrow> bool" where
  "program_table tab \<longleftrightarrow> symtab_ok tab \<and> symbol2number tab internal_epsilon = Some epsilon_number \<and>
     symbol2number tab internal_identity = Some identity_number"

definition keyed :: "bool \<Rightarrow> symtab \<Rightarrow> 'w transition list \<Rightarrow> nat \<Rightarrow> 'w ci_transition set" where
  "keyed input_keys tab trs k =
     {ci_encode tab t | t. t \<in> set trs \<and> tr_input t \<noteq> internal_identity \<and> ci_key input_keys tab t = k}"

definition identities_of :: "symtab \<Rightarrow> 'w transition list \<Rightarrow> 'w ci_transition list" where
  "identities_of tab trs = map (ci_encode tab) (filter (\<lambda>t. tr_input t = internal_identity) trs)"

text \<open>The map holds a sorted vector for every key that occurs, and nothing else.\<close>

definition holds_keyed :: "(nat \<rightharpoonup> 'w::linorder ci_transition list) \<Rightarrow> (nat \<Rightarrow> 'w ci_transition set) \<Rightarrow> bool" where
  "holds_keyed m K \<longleftrightarrow> (\<forall>k. case m k of None \<Rightarrow> K k = {}
     | Some cs \<Rightarrow> sorted_wrt (<) cs \<and> set cs = K k \<and> K k \<noteq> {})"

lemma ci_of_transition_known:
  assumes "symtab_ok tab" and "numbered tab t"
  shows "ci_of_transition t tab = Inr (ci_encode tab t, tab)"
proof -
  have "[] \<notin> dom (symbol2number tab)" using assms(1) unfolding symtab_ok_def by blast
  then show ?thesis
    using assms(2) tr_numbers [OF assms(2)] get_number_known [OF assms(1)]
    by (auto simp: ci_of_transition_def ci_encode_def numbered_def)
qed

lemma ci_add_transition_known:
  assumes "symtab_ok tab" and "numbered tab t"
  shows "ci_add_transition input_keys t (m, ids, found, tab) = Inr
     (if tr_input t = internal_identity then (m, ids @ [ci_encode tab t], True, tab)
      else (m(ci_key input_keys tab t \<mapsto> sss_insert (ci_encode tab t)
              (case m (ci_key input_keys tab t) of None \<Rightarrow> [] | Some cs \<Rightarrow> cs)), ids, found, tab))"
proof -
  have "get_number (if input_keys then tr_input t else tr_output t) tab = Inr (ci_key input_keys tab t, tab)"
    using tr_numbers [OF assms(2)] get_number_known [OF assms(1)] by (simp add: ci_key_def)
  then show ?thesis by (simp add: ci_add_transition_def ci_of_transition_known [OF assms])
qed

lemma keyed_snoc:
  "keyed input_keys tab (trs @ [t]) k = keyed input_keys tab trs k \<union>
     (if tr_input t \<noteq> internal_identity \<and> ci_key input_keys tab t = k then {ci_encode tab t} else {})"
  by (auto simp: keyed_def)

lemma ci_add_transitions_known:
  assumes "symtab_ok tab" and "\<And>t. t \<in> set trs \<Longrightarrow> numbered tab t"
  shows "\<exists>m. rfold (ci_add_transition input_keys) trs (Map.empty, ids, False, tab) =
     Inr (m, ids @ identities_of tab trs, identities_of tab trs \<noteq> [], tab) \<and> holds_keyed m (keyed input_keys tab trs)"
  using assms(2)
proof (induction trs rule: rev_induct)
  case Nil
  show ?case by (simp add: identities_of_def holds_keyed_def keyed_def)
next
  case (snoc t trs)
  have "numbered tab t" using snoc.prems by simp
  note step = ci_add_transition_known [OF assms(1) this]
  from snoc obtain m where m: "rfold (ci_add_transition input_keys) trs (Map.empty, ids, False, tab) =
     Inr (m, ids @ identities_of tab trs, identities_of tab trs \<noteq> [], tab)" "holds_keyed m (keyed input_keys tab trs)"
    by auto
  show ?case
  proof (cases "tr_input t = internal_identity")
    case True
    with m step show ?thesis
      by (simp add: rfold_append identities_of_def holds_keyed_def keyed_snoc)
  next
    case False
    let ?k = "ci_key input_keys tab t" and ?c = "ci_encode tab t"
    let ?cs = "case m ?k of None \<Rightarrow> [] | Some cs \<Rightarrow> cs"
    have cs: "sorted_wrt (<) ?cs" "set ?cs = keyed input_keys tab trs ?k"
      using m(2) by (auto simp: holds_keyed_def split: option.splits dest: spec [of _ ?k])
    have "case (m(?k \<mapsto> sss_insert ?c ?cs)) k of None \<Rightarrow> keyed input_keys tab (trs @ [t]) k = {}
        | Some cs \<Rightarrow> sorted_wrt (<) cs \<and> set cs = keyed input_keys tab (trs @ [t]) k \<and> keyed input_keys tab (trs @ [t]) k \<noteq> {}" for k
    proof (cases "k = ?k")
      case True
      with False cs show ?thesis by (simp add: keyed_snoc sorted_sss_insert)
    next
      case False
      then have "keyed input_keys tab (trs @ [t]) k = keyed input_keys tab trs k" by (simp add: keyed_snoc)
      with False m(2) show ?thesis by (cases "m k") (auto simp: holds_keyed_def dest: spec [of _ k])
    qed
    then have "holds_keyed (m(?k \<mapsto> sss_insert ?c ?cs)) (keyed input_keys tab (trs @ [t]))"
      unfolding holds_keyed_def by blast
    with False m(1) step show ?thesis by (simp add: rfold_append identities_of_def)
  qed
qed

definition no_identity :: "'w::zero ci_transition" where
  "no_identity = CiTransition epsilon_number epsilon_number 0 0"

definition identity_entries :: "symtab \<Rightarrow> 'w::zero transition list \<Rightarrow> 'w ci_transition list" where
  "identity_entries tab trs = (case identities_of tab trs of [] \<Rightarrow> [no_identity] | ids \<Rightarrow> ids)"

text \<open>The first \<open>n\<close> states of the graph are in the object.\<close>

definition ci_built :: "bool \<Rightarrow> symtab \<Rightarrow> 'w::{linorder, zero} hbt \<Rightarrow> nat \<Rightarrow> 'w ci_fst \<Rightarrow> bool" where
  "ci_built input_keys tab g n f \<longleftrightarrow> length (transition_maps f) = n \<and> length (finality f) = n \<and>
     symbol_set f = (\<lambda>s. the (symbol2number tab s)) ` alphabet g \<and>
     (\<forall>s < n. finality f ! s = final_weight_map g s \<and>
        holds_keyed (transition_maps f ! s) (keyed input_keys tab (transitions_of g s))) \<and>
     identity_transitions f = concat (map (\<lambda>s. identity_entries tab (transitions_of g s)) [0..<n])"

lemma ci_add_state_known:
  assumes "symtab_ok tab" and "wf_graph g" and "all_numbered tab g" and "n < length (state_vector g)"
    and "ci_built input_keys tab g n f"
  shows "\<exists>f'. ci_add_state input_keys g n (f, tab) = Inr (f', tab) \<and> ci_built input_keys tab g (Suc n) f'"
proof -
  let ?trs = "transitions_of g n"
  obtain m where m: "rfold (ci_add_transition input_keys) ?trs (Map.empty, identity_transitions f, False, tab) =
     Inr (m, identity_transitions f @ identities_of tab ?trs, identities_of tab ?trs \<noteq> [], tab)"
     "holds_keyed m (keyed input_keys tab ?trs)"
    using ci_add_transitions_known [OF assms(1)] all_numbered_at [OF assms(3)] by blast
  have fw: "(if is_final_state n g then rmap Some (get_final_weight n g) else Inr None) = Inr (final_weight_map g n)"
    using assms(2) by (auto simp: is_final_state_def get_final_weight_def get_max_state_def wf_graph_def)
  let ?f = "f\<lparr>transition_maps := transition_maps f @ [m], finality := finality f @ [final_weight_map g n],
     identity_transitions := identity_transitions f @ identity_entries tab ?trs\<rparr>"
  have "ci_add_state input_keys g n (f, tab) = Inr (?f, tab)"
    using m(1) fw by (auto simp: ci_add_state_def identity_entries_def no_identity_def split: list.splits)
  moreover have "ci_built input_keys tab g (Suc n) ?f"
    using assms(5) m(2) by (auto simp: ci_built_def nth_append less_Suc_eq)
  ultimately show ?thesis by blast
qed

lemma ci_add_states_known:
  assumes "symtab_ok tab" and "wf_graph g" and "all_numbered tab g" and "ci_built input_keys tab g 0 f"
  shows "n \<le> length (state_vector g) \<Longrightarrow>
     \<exists>f'. rfold (ci_add_state input_keys g) [0..<n] (f, tab) = Inr (f', tab) \<and> ci_built input_keys tab g n f'"
proof (induction n)
  case 0
  with assms(4) show ?case by simp
next
  case (Suc n)
  then obtain f' where f': "rfold (ci_add_state input_keys g) [0..<n] (f, tab) = Inr (f', tab)"
    "ci_built input_keys tab g n f'" by auto
  from ci_add_state_known [OF assms(1-3) _ f'(2)] Suc.prems f'(1) show ?case by (auto simp: rfold_append)
qed

lemma ci_alphabet_known:
  assumes "symtab_ok tab" and "set xs \<subseteq> dom (symbol2number tab)"
  shows "rfold (\<lambda>s (syms, tab). rmap (\<lambda>(n, tab1). (insert n syms, tab1)) (get_number s tab)) xs (S, tab) =
     Inr ((\<lambda>s. the (symbol2number tab s)) ` set xs \<union> S, tab)"
  using assms(2)
proof (induction xs arbitrary: S)
  case (Cons x xs)
  then obtain k where "symbol2number tab x = Some k" by auto
  with Cons get_number_known [OF assms(1) this] show ?case by simp
qed simp

lemma all_numbered_sort_arcs: "all_numbered tab (sort_arcs tab' g) \<longleftrightarrow> all_numbered tab g"
  by (simp add: all_numbered_def sort_arcs_def)

lemma ci_fst_new_known:
  assumes "symtab_ok tab" and "wf_hbt g" and "all_numbered tab g" and "alphabet g \<subseteq> dom (symbol2number tab)"
  shows "\<exists>f. ci_fst_new input_keys g tab = Inr (f, tab) \<and>
     ci_built input_keys tab (sort_arcs tab g) (length (state_vector g)) f"
proof -
  let ?g = "sort_arcs tab g"
  have al: "alphabet ?g = alphabet g" "finite (alphabet g)"
    using assms(2) by (simp_all add: sort_arcs_def wf_hbt_def wf_alphabet_iff)
  have wf: "wf_graph ?g" using sort_arcs_wf_hbt [OF assms(2)] by (simp add: wf_hbt_def)
  let ?f = "\<lparr>symbol_set = (\<lambda>s. the (symbol2number tab s)) ` alphabet g, transition_maps = [], finality = [],
    identity_transitions = []\<rparr> :: 'a ci_fst"
  have "ci_built input_keys tab ?g 0 ?f" by (simp add: ci_built_def al)
  from ci_add_states_known [OF assms(1) wf _ this, of "length (state_vector ?g)"] assms(3)
  obtain f where "rfold (ci_add_state input_keys ?g) [0..<length (state_vector ?g)] (?f, tab) = Inr (f, tab)"
    "ci_built input_keys tab ?g (length (state_vector ?g)) f" by (auto simp: all_numbered_sort_arcs)
  moreover have "rfold (\<lambda>s (syms, tab). rmap (\<lambda>(n, tab1). (insert n syms, tab1)) (get_number s tab))
      (sorted_list_of_set (alphabet ?g)) ({}, tab) = Inr (symbol_set ?f, tab)"
    using ci_alphabet_known [OF assms(1), of "sorted_list_of_set (alphabet g)" "{}"] al assms(4) by simp
  ultimately show ?thesis by (simp add: ci_fst_new_def Let_def sort_arcs_simps(2))
qed

section \<open>Looking transitions up\<close>

text \<open>What a look-up gives: the transitions with the symbol as their key, or the state's identity
  transition for a symbol that is not in the alphabet.\<close>

definition identity_or_none :: "('w, 'z) ci_fst_scheme \<Rightarrow> nat \<Rightarrow> nat \<Rightarrow> 'w ci_transition list" where
  "identity_or_none f s symbol =
     (let t = identity_transitions f ! s in
      if symbol \<in> symbol_set f \<or> ilabel t \<noteq> identity_number then []
      else [CiTransition symbol symbol (ci_weight t) (ci_target t)])"

definition known_or_identity :: "('w::linorder, 'z) ci_fst_scheme \<Rightarrow> nat \<Rightarrow> nat \<Rightarrow> 'w ci_transition list" where
  "known_or_identity f s symbol =
     (case (transition_maps f ! s) symbol of
        Some ts \<Rightarrow> ts | None \<Rightarrow> identity_or_none f s symbol)"

definition ci_size :: "('w, 'z) ci_fst_scheme \<Rightarrow> nat" where
  "ci_size f = length (transition_maps f)"

definition ci_shape :: "('w, 'z) ci_fst_scheme \<Rightarrow> bool" where
  "ci_shape f \<longleftrightarrow> length (finality f) = ci_size f \<and> length (identity_transitions f) = ci_size f"

lemma ci_final_weight_ok: "ci_shape f \<Longrightarrow> s < ci_size f \<Longrightarrow> ci_final_weight s f = Inr (finality f ! s)"
  by (simp add: ci_final_weight_def ci_shape_def ci_size_def)

lemma ci_get_transitions_ok:
  assumes "ci_shape f" and "s < ci_size f"
  shows "\<exists>m. ci_get_transitions s symbol f =
       Inr (known_or_identity f s symbol, f\<lparr>transition_maps := m\<rparr>) \<and>
     length m = ci_size f \<and>
     (\<forall>s' symbol'. known_or_identity (f\<lparr>transition_maps := m\<rparr>) s' symbol' = known_or_identity f s' symbol')"
proof (cases "(transition_maps f ! s) symbol")
  case None
  let ?ts = "known_or_identity f s symbol"
  let ?m = "(transition_maps f)[s := (transition_maps f ! s)(symbol \<mapsto> ?ts)]"
  have "ci_get_transitions s symbol f = Inr (?ts, f\<lparr>transition_maps := ?m\<rparr>)"
    using None assms
    by (simp add: ci_get_transitions_def known_or_identity_def is_known_symbol_def has_identity_transition_def
        get_identity_transition_def ci_shape_def ci_size_def identity_or_none_def Let_def)
  moreover have "identity_or_none (f\<lparr>transition_maps := ?m\<rparr>) = identity_or_none f"
    by (simp add: identity_or_none_def fun_eq_iff)
  then have "known_or_identity (f\<lparr>transition_maps := ?m\<rparr>) s' symbol' =
      (case (?m ! s') symbol' of Some ts \<Rightarrow> ts | None \<Rightarrow> identity_or_none f s' symbol')" for s' symbol'
    by (simp add: known_or_identity_def [of "f\<lparr>transition_maps := ?m\<rparr>"] split: option.split)
  then have "known_or_identity (f\<lparr>transition_maps := ?m\<rparr>) s' symbol' = known_or_identity f s' symbol'" for s' symbol'
    using None assms(2) by (cases "s' = s"; cases "symbol' = symbol") (simp_all add: ci_size_def, simp_all add: known_or_identity_def)
  ultimately show ?thesis by (intro exI [of _ ?m]) (simp add: ci_size_def)
next
  case (Some ts)
  then show ?thesis using assms
    by (intro exI [of _ "transition_maps f"]) (simp add: ci_get_transitions_def known_or_identity_def ci_size_def)
qed

end
