(* ===== verification/ComposeRules.thy ===== *)
theory ComposeRules
  imports ComposeFst
begin

text \<open>
  \<open>ComposeIntersectRulePair\<close> (\<open>compose_intersect/ComposeIntersectRulePair.cc\<close>): the intersection of
  two rules, computed when asked for. A rule is a \<open>ComposeIntersectRule\<close> or a pair, whose states
  are numbers for pairs of states given as they are met, and whose transitions are stored. Shown: in
  deterministic rules every look-up gives the transitions of the intersection (\<open>delta\<close>), with
  numbers that denote pairs of states, and storing changes nothing of what the rule means.
\<close>

section \<open>Rules\<close>

record 'w pair_memo =
  state_pair_vector :: "(nat \<times> nat) list"
  pair_state_map :: "nat \<times> nat \<rightharpoonup> nat"
  state_transition_vector :: "(nat \<rightharpoonup> 'w ci_transition list) list"
  pair_symbol_set :: "nat set"

datatype 'w rule = Rule "'w ci_rule" | RulePair "'w rule" "'w rule" "'w pair_memo"

fun rule_get_symbols :: "'w rule \<Rightarrow> nat set" where
  "rule_get_symbols (Rule r) = symbol_set r"
| "rule_get_symbols (RulePair fst1 fst2 m) = pair_symbol_set m"

definition rule_pair_new :: "'w rule \<Rightarrow> 'w rule \<Rightarrow> 'w rule" where
  "rule_pair_new fst1 fst2 =
     RulePair fst1 fst2 \<lparr>state_pair_vector = [(0, 0)], pair_state_map = [(0, 0) \<mapsto> 0],
       state_transition_vector = [Map.empty], pair_symbol_set = rule_get_symbols fst1\<rparr>"

definition pair_get_state :: "nat \<times> nat \<Rightarrow> 'w pair_memo \<Rightarrow> (nat \<times> 'w pair_memo) result" where
  "pair_get_state p m =
     (case pair_state_map m p of
        None \<Rightarrow>
          rbind (size_t_to_uint (length (state_pair_vector m))) (\<lambda>n.
          rmap (\<lambda>k. (k, m\<lparr>pair_state_map := (pair_state_map m)(p \<mapsto> n),
                state_pair_vector := state_pair_vector m @ [p],
                state_transition_vector := state_transition_vector m @ [Map.empty]\<rparr>))
            (size_t_to_uint (length (state_pair_vector m @ [p]) - 1)))
      | Some s \<Rightarrow> Inr (s, m))"

text \<open>The loop of \<open>compute_transition_set\<close> with its two iterators.\<close>

fun pair_loop ::
  "nat \<Rightarrow> 'w::{linorder, plus} ci_transition list \<Rightarrow> 'w ci_transition list \<Rightarrow> 'w ci_transition list \<Rightarrow>
     'w pair_memo \<Rightarrow> ('w ci_transition list \<times> 'w pair_memo) result" where
  "pair_loop symbol (t # ts) (u # us) transitions m =
     (if olabel t = olabel u then
        rbind (pair_get_state (ci_target t, ci_target u) m) (\<lambda>(target, m1).
          pair_loop symbol ts us
            (sss_insert (CiTransition symbol (olabel t) (ci_weight t + ci_weight u) target) transitions) m1)
      else if olabel t < olabel u then pair_loop symbol ts (u # us) transitions m
      else pair_loop symbol (t # ts) us transitions m)"
| "pair_loop symbol [] us transitions m = Inr (transitions, m)"
| "pair_loop symbol ts [] transitions m = Inr (transitions, m)"

fun rule_get_transitions ::
  "nat \<Rightarrow> nat \<Rightarrow> 'w::{linorder, plus} rule \<Rightarrow> ('w ci_transition list \<times> 'w rule) result" where
  "rule_get_transitions s symbol (Rule r) = rmap (\<lambda>(ts, r1). (ts, Rule r1)) (ci_get_transitions s symbol r)"
| "rule_get_transitions s symbol (RulePair fst1 fst2 m) =
     (if \<not> s < length (state_pair_vector m) then Inl StateNotDefined
      else rbind (vec_at (state_transition_vector m) s) (\<lambda>stored. case stored symbol of
          Some ts \<Rightarrow> Inr (ts, RulePair fst1 fst2 m)
        | None \<Rightarrow>
            (let state_pair = state_pair_vector m ! s in
             rbind (rule_get_transitions (fst state_pair) symbol fst1) (\<lambda>(ts1, fst1').
             rbind (rule_get_transitions (snd state_pair) symbol fst2) (\<lambda>(ts2, fst2').
             rmap (\<lambda>(ts, m1). (ts, RulePair fst1' fst2' (m1\<lparr>state_transition_vector :=
                 (state_transition_vector m1)[s := (state_transition_vector m1 ! s)(symbol \<mapsto> ts)]\<rparr>)))
               (pair_loop symbol ts1 ts2 [] m))))))"

fun add_weights :: "'w::plus option \<Rightarrow> 'w option \<Rightarrow> 'w option" where
  "add_weights (Some w1) (Some w2) = Some (w1 + w2)"
| "add_weights _ _ = None"

lemma add_weights_Some: "add_weights a b = Some w \<longleftrightarrow> (\<exists>x y. a = Some x \<and> b = Some y \<and> w = x + y)"
  by (cases a; cases b) auto

fun rule_final_weight :: "nat \<Rightarrow> 'w::plus rule \<Rightarrow> 'w option result" where
  "rule_final_weight s (Rule r) = ci_final_weight s r"
| "rule_final_weight s (RulePair fst1 fst2 m) =
     (if \<not> s < length (state_pair_vector m) then Inl StateNotDefined
      else let state_pair = state_pair_vector m ! s in
        rbind (rule_final_weight (fst state_pair) fst1) (\<lambda>w1.
          rmap (add_weights w1) (rule_final_weight (snd state_pair) fst2)))"

text \<open>The constructor of a pair leaves its \<open>symbols\<close> empty.\<close>

fun rule_known_symbol :: "nat \<Rightarrow> symtab \<Rightarrow> 'w rule \<Rightarrow> bool result" where
  "rule_known_symbol symbol tab (Rule r) = known_symbol symbol tab r"
| "rule_known_symbol symbol tab (RulePair fst1 fst2 m) =
     rbind (size_t_to_uint symbol) (\<lambda>n. rmap (\<lambda>s. False) (get_symbol n tab))"

section \<open>What a rule means\<close>

text \<open>A state of a rule stands for a tree of states; \<open>delta\<close> gives the weight and the target for a
  symbol and its realization, in a pair where both rules have one.\<close>

datatype rule_state = Leaf nat | Fork rule_state rule_state

fun denote :: "'w rule \<Rightarrow> nat \<Rightarrow> rule_state option" where
  "denote (Rule r) s = (if s < ci_size r then Some (Leaf s) else None)"
| "denote (RulePair r1 r2 m) s =
     (if s < length (state_pair_vector m)
      then (case (denote r1 (fst (state_pair_vector m ! s)), denote r2 (snd (state_pair_vector m ! s))) of
              (Some x, Some y) \<Rightarrow> Some (Fork x y) | _ \<Rightarrow> None)
      else None)"

fun join :: "('w::plus \<times> rule_state) option \<Rightarrow> ('w \<times> rule_state) option \<Rightarrow> ('w \<times> rule_state) option" where
  "join (Some (w, x)) (Some (v, y)) = Some (w + v, Fork x y)"
| "join _ _ = None"

fun delta :: "'w::{linorder, plus} rule \<Rightarrow> rule_state \<Rightarrow> nat \<Rightarrow> nat \<Rightarrow> ('w \<times> rule_state) option" where
  "delta (Rule r) (Leaf s) a b =
     map_option (\<lambda>t. (ci_weight t, Leaf (ci_target t))) (find (\<lambda>t. olabel t = b) (known_or_identity r s a))"
| "delta (RulePair r1 r2 m) (Fork x y) a b = join (delta r1 x a b) (delta r2 y a b)"
| "delta _ _ a b = None"

fun rule_final :: "'w::plus rule \<Rightarrow> rule_state \<Rightarrow> 'w option" where
  "rule_final (Rule r) (Leaf s) = finality r ! s"
| "rule_final (RulePair r1 r2 m) (Fork x y) = add_weights (rule_final r1 x) (rule_final r2 y)"
| "rule_final _ _ = None"

fun rule_states :: "'w rule \<Rightarrow> rule_state set" where
  "rule_states (Rule r) = Leaf ` {..<ci_size r}"
| "rule_states (RulePair r1 r2 m) = (\<lambda>(x, y). Fork x y) ` (rule_states r1 \<times> rule_states r2)"

text \<open>A list of transitions, in the order of their realizations, represents the function \<open>D\<close>.\<close>

definition represents ::
  "(nat \<Rightarrow> 'x option) \<Rightarrow> 'w ci_transition list \<Rightarrow> nat \<Rightarrow> (nat \<Rightarrow> ('w \<times> 'x) option) \<Rightarrow> bool" where
  "represents den ts a D \<longleftrightarrow> sorted_wrt (\<lambda>t u. olabel t < olabel u) ts \<and>
     (\<forall>t \<in> set ts. ilabel t = a \<and> (\<exists>x. den (ci_target t) = Some x \<and> D (olabel t) = Some (ci_weight t, x))) \<and>
     (\<forall>b. D b \<noteq> None \<longrightarrow> b \<in> olabel ` set ts)"

text \<open>Deterministic rules, and pairs whose numbers and stored transitions are right.\<close>

definition base_ok :: "'w::linorder ci_rule \<Rightarrow> bool" where
  "base_ok r \<longleftrightarrow> ci_shape r \<and> 0 < ci_size r \<and>
     (\<forall>s < ci_size r. \<forall>a. sorted_wrt (\<lambda>t u. olabel t < olabel u) (known_or_identity r s a) \<and>
        (\<forall>t \<in> set (known_or_identity r s a). ilabel t = a \<and> ci_target t < ci_size r))"

definition pairs_ok :: "'w rule \<Rightarrow> 'w rule \<Rightarrow> 'w pair_memo \<Rightarrow> bool" where
  "pairs_ok r1 r2 m \<longleftrightarrow> length (state_transition_vector m) = length (state_pair_vector m) \<and>
     state_pair_vector m \<noteq> [] \<and> state_pair_vector m ! 0 = (0, 0) \<and>
     (\<forall>p s. pair_state_map m p = Some s \<longleftrightarrow> s < length (state_pair_vector m) \<and> state_pair_vector m ! s = p) \<and>
     (\<forall>p \<in> set (state_pair_vector m). denote r1 (fst p) \<noteq> None \<and> denote r2 (snd p) \<noteq> None)"

fun rule_ok :: "'w::{linorder, plus} rule \<Rightarrow> bool" where
  "rule_ok (Rule r) = base_ok r"
| "rule_ok (RulePair r1 r2 m) =
     (rule_ok r1 \<and> rule_ok r2 \<and> pairs_ok r1 r2 m \<and>
      card (rule_states r1) * card (rule_states r2) \<le> 4294967296 \<and>
      (\<forall>s < length (state_pair_vector m). \<forall>a ts. (state_transition_vector m ! s) a = Some ts \<longrightarrow>
         represents (denote (RulePair r1 r2 m)) ts a (delta (RulePair r1 r2 m) (the (denote (RulePair r1 r2 m) s)) a)))"

text \<open>A rule that has been asked more still means the same.\<close>

definition rule_ext :: "'w::{linorder, plus} rule \<Rightarrow> 'w rule \<Rightarrow> bool" where
  "rule_ext r r' \<longleftrightarrow> delta r' = delta r \<and> rule_final r' = rule_final r \<and> rule_states r' = rule_states r \<and>
     (\<forall>symbol tab. rule_known_symbol symbol tab r' = rule_known_symbol symbol tab r) \<and>
     (\<forall>s x. denote r s = Some x \<longrightarrow> denote r' s = Some x)"

lemma rule_ext_refl: "rule_ext r r" by (simp add: rule_ext_def)

lemma rule_ext_trans: "rule_ext r r' \<Longrightarrow> rule_ext r' r'' \<Longrightarrow> rule_ext r r''"
  by (simp add: rule_ext_def)

lemma finite_rule_states [simp]: "finite (rule_states r)"
  by (induction r) auto

lemma denote_in: "denote r s = Some x \<Longrightarrow> x \<in> rule_states r"
  by (induction r arbitrary: s x) (auto split: if_splits option.splits)

lemma denote_inj: "rule_ok r \<Longrightarrow> denote r s = Some x \<Longrightarrow> denote r s' = Some x \<Longrightarrow> s = s'"
proof (induction r arbitrary: s s' x)
  case (Rule r)
  then show ?case by (auto split: if_splits)
next
  case (RulePair r1 r2 m)
  have m: "\<And>p s. pair_state_map m p = Some s \<longleftrightarrow> s < length (state_pair_vector m) \<and> state_pair_vector m ! s = p"
    using RulePair.prems(1) unfolding rule_ok.simps pairs_ok_def by blast
  let ?p = "state_pair_vector m ! s" and ?q = "state_pair_vector m ! s'"
  from RulePair.prems(2,3) have "s < length (state_pair_vector m)" "s' < length (state_pair_vector m)"
    by (auto split: if_splits)
  moreover have "fst ?p = fst ?q" "snd ?p = snd ?q"
    using RulePair.IH(1) [of "fst ?p" _ "fst ?q"] RulePair.IH(2) [of "snd ?p" _ "snd ?q"] RulePair.prems
    by (auto split: if_splits option.splits)
  ultimately show ?case using m by (metis option.inject prod_eqI)
qed

section \<open>The states of a pair\<close>

definition memo_le :: "'w pair_memo \<Rightarrow> 'w pair_memo \<Rightarrow> bool" where
  "memo_le m m' \<longleftrightarrow> (\<exists>ps. state_pair_vector m' = state_pair_vector m @ ps \<and>
     state_transition_vector m' = state_transition_vector m @ replicate (length ps) Map.empty)"

lemma memo_le_refl: "memo_le m m" by (auto simp: memo_le_def)

lemma memo_le_trans: "memo_le m1 m2 \<Longrightarrow> memo_le m2 m3 \<Longrightarrow> memo_le m1 m3"
  unfolding memo_le_def by (metis append.assoc length_append replicate_add)

lemma pairs_ok_map:
  "pairs_ok r1 r2 m \<Longrightarrow> pair_state_map m p = Some s \<longleftrightarrow> s < length (state_pair_vector m) \<and> state_pair_vector m ! s = p"
  unfolding pairs_ok_def by blast

lemma memo_le_map:
  assumes "memo_le m m'" and "pairs_ok r1 r2 m" and "pairs_ok r1 r2 m'" and "pair_state_map m p = Some s"
  shows "pair_state_map m' p = Some s"
  using assms(1,4) unfolding pairs_ok_map [OF assms(2)] pairs_ok_map [OF assms(3)] memo_le_def
  by (auto simp: nth_append)

lemma pairs_ok_distinct: "pairs_ok r1 r2 m \<Longrightarrow> distinct (state_pair_vector m)"
  unfolding distinct_conv_nth using pairs_ok_map [of r1 r2 m] by (metis option.inject)

text \<open>There are no more states than pairs of states denoted.\<close>

lemma pairs_bound:
  assumes "rule_ok r1" and "rule_ok r2" and "pairs_ok r1 r2 m" and "p \<notin> set (state_pair_vector m)"
    and "denote r1 (fst p) \<noteq> None" and "denote r2 (snd p) \<noteq> None"
  shows "length (state_pair_vector m) < card (rule_states r1) * card (rule_states r2)"
proof -
  let ?V = "insert p (set (state_pair_vector m))"
  let ?f = "\<lambda>q. (the (denote r1 (fst q)), the (denote r2 (snd q)))"
  have den: "\<exists>x y. denote r1 (fst q) = Some x \<and> denote r2 (snd q) = Some y" if "q \<in> ?V" for q
    using that assms(3,5,6) unfolding pairs_ok_def by blast
  have "inj_on ?f ?V"
  proof (rule inj_onI)
    fix q q' assume q: "q \<in> ?V" "q' \<in> ?V" "?f q = ?f q'"
    from den [OF q(1)] den [OF q(2)] q(3) have "fst q = fst q'" "snd q = snd q'"
      using denote_inj [OF assms(1), of "fst q" _ "fst q'"] denote_inj [OF assms(2), of "snd q" _ "snd q'"] by auto
    then show "q = q'" by (rule prod_eqI)
  qed
  moreover have "?f ` ?V \<subseteq> rule_states r1 \<times> rule_states r2"
  proof
    fix z assume "z \<in> ?f ` ?V"
    then obtain q where q: "q \<in> ?V" "z = ?f q" by blast
    from den [OF q(1)] q(2) show "z \<in> rule_states r1 \<times> rule_states r2" by (auto dest: denote_in)
  qed
  ultimately have "card ?V \<le> card (rule_states r1 \<times> rule_states r2)" by (intro card_inj_on_le) auto
  moreover have "card ?V = Suc (length (state_pair_vector m))"
    using assms(4) distinct_card [OF pairs_ok_distinct [OF assms(3)]] by simp
  ultimately show ?thesis by (simp add: card_cartesian_product)
qed

lemma pair_get_state_ok:
  assumes r: "rule_ok r1" "rule_ok r2" "pairs_ok r1 r2 m"
    and bound: "card (rule_states r1) * card (rule_states r2) \<le> 4294967296"
    and p: "denote r1 (fst p) \<noteq> None" "denote r2 (snd p) \<noteq> None"
  shows "\<exists>s m'. pair_get_state p m = Inr (s, m') \<and> pairs_ok r1 r2 m' \<and> memo_le m m' \<and> pair_state_map m' p = Some s"
proof (cases "pair_state_map m p")
  case (Some s)
  with assms(3) show ?thesis by (auto simp: pair_get_state_def memo_le_refl)
next
  case None
  let ?n = "length (state_pair_vector m)"
  let ?m = "m\<lparr>pair_state_map := (pair_state_map m)(p \<mapsto> ?n), state_pair_vector := state_pair_vector m @ [p],
     state_transition_vector := state_transition_vector m @ [Map.empty]\<rparr>"
  have new: "p \<notin> set (state_pair_vector m)"
    using None pairs_ok_map [OF r(3), of p] by (auto simp: in_set_conv_nth)
  from pairs_bound [OF r new p] bound have "?n \<le> 4294967295" by linarith
  then have "pair_get_state p m = Inr (?n, ?m)" using None by (simp add: pair_get_state_def size_t_to_uint_def)
  moreover have "pair_state_map ?m q = Some s \<longleftrightarrow> s < length (state_pair_vector ?m) \<and> state_pair_vector ?m ! s = q" for q s
    using new pairs_ok_map [OF r(3), of q s] by (auto simp: nth_append less_Suc_eq)
  then have "pairs_ok r1 r2 ?m"
    using r(3) p unfolding pairs_ok_def by (auto simp: nth_append)
  ultimately show ?thesis by (intro exI [of _ ?n] exI [of _ ?m]) (auto simp: memo_le_def)
qed

section \<open>The loop\<close>

abbreviation by_olabel :: "'w ci_transition list \<Rightarrow> bool" where
  "by_olabel \<equiv> sorted_wrt (\<lambda>t u. olabel t < olabel u)"

definition matched :: "'w ci_transition list \<Rightarrow> 'w ci_transition list \<Rightarrow> ('w ci_transition \<times> 'w ci_transition) set" where
  "matched ts us = {(t, u). t \<in> set ts \<and> u \<in> set us \<and> olabel t = olabel u}"

definition target_pair :: "'w ci_transition \<times> 'w ci_transition \<Rightarrow> nat \<times> nat" where
  "target_pair tu = (ci_target (fst tu), ci_target (snd tu))"

definition emit :: "nat \<Rightarrow> 'w::plus pair_memo \<Rightarrow> 'w ci_transition \<times> 'w ci_transition \<Rightarrow> 'w ci_transition" where
  "emit a m tu = CiTransition a (olabel (fst tu)) (ci_weight (fst tu) + ci_weight (snd tu))
     (the (pair_state_map m (target_pair tu)))"

lemma matched_step:
  "matched [] us = {}" "matched ts [] = {}"
  "by_olabel (t # ts) \<Longrightarrow> by_olabel (u # us) \<Longrightarrow> matched (t # ts) (u # us) =
     (if olabel t = olabel u then insert (t, u) (matched ts us)
      else if olabel t < olabel u then matched ts (u # us) else matched (t # ts) us)"
  by (auto simp: matched_def)

lemma pair_loop_ok:
  assumes r: "rule_ok r1" "rule_ok r2" and bound: "card (rule_states r1) * card (rule_states r2) \<le> 4294967296"
  shows "pairs_ok r1 r2 m \<Longrightarrow> by_olabel ts \<Longrightarrow> by_olabel us \<Longrightarrow>
     \<forall>t \<in> set ts. denote r1 (ci_target t) \<noteq> None \<Longrightarrow> \<forall>u \<in> set us. denote r2 (ci_target u) \<noteq> None \<Longrightarrow>
     sorted_wrt (<) acc \<Longrightarrow>
     \<exists>acc' m'. pair_loop a ts us acc m = Inr (acc', m') \<and> pairs_ok r1 r2 m' \<and> memo_le m m' \<and> sorted_wrt (<) acc' \<and>
       set acc' = set acc \<union> emit a m' ` matched ts us \<and>
       (\<forall>tu \<in> matched ts us. pair_state_map m' (target_pair tu) \<noteq> None)"
proof (induction a ts us acc m rule: pair_loop.induct)
  case (1 a t ts u us acc m)
  note step = matched_step(3) [OF 1(5,6)]
  have tl: "by_olabel ts" "by_olabel us" using 1(5,6) by simp_all
  consider (eq) "olabel t = olabel u" | (less) "olabel t < olabel u" | (greater) "olabel u < olabel t" by linarith
  then show ?case
  proof cases
    case eq
    have "denote r1 (fst (ci_target t, ci_target u)) \<noteq> None" "denote r2 (snd (ci_target t, ci_target u)) \<noteq> None"
      using 1(7,8) by simp_all
    from pair_get_state_ok [OF r 1(4) bound this] obtain s m1 where
      m1: "pair_get_state (ci_target t, ci_target u) m = Inr (s, m1)" "pairs_ok r1 r2 m1" "memo_le m m1"
        "pair_state_map m1 (ci_target t, ci_target u) = Some s" by blast
    let ?c = "CiTransition a (olabel t) (ci_weight t + ci_weight u) s"
    have "\<exists>acc' m'. pair_loop a ts us (sss_insert ?c acc) m1 = Inr (acc', m') \<and> pairs_ok r1 r2 m' \<and> memo_le m1 m' \<and>
       sorted_wrt (<) acc' \<and> set acc' = set (sss_insert ?c acc) \<union> emit a m' ` matched ts us \<and>
       (\<forall>tu \<in> matched ts us. pair_state_map m' (target_pair tu) \<noteq> None)"
      by (rule 1(1)) (use eq m1 tl 1(7,8,9) in \<open>auto intro: sorted_sss_insert\<close>)
    then obtain acc' m' where IH: "pair_loop a ts us (sss_insert ?c acc) m1 = Inr (acc', m')" "pairs_ok r1 r2 m'"
      "memo_le m1 m'" "sorted_wrt (<) acc'" "set acc' = insert ?c (set acc) \<union> emit a m' ` matched ts us"
      "\<forall>tu \<in> matched ts us. pair_state_map m' (target_pair tu) \<noteq> None" by auto
    have s: "pair_state_map m' (target_pair (t, u)) = Some s"
      using memo_le_map [OF IH(3) m1(2) IH(2) m1(4)] by (simp add: target_pair_def)
    then have "emit a m' (t, u) = ?c" by (simp add: emit_def)
    then show ?thesis using IH m1 eq s memo_le_trans [OF m1(3) IH(3)] by (auto simp: step)
  next
    case less
    with 1 tl show ?thesis by (simp add: step)
  next
    case greater
    with 1 tl show ?thesis by (simp add: step)
  qed
qed (use memo_le_refl in \<open>auto simp: matched_step\<close>)

section \<open>Looking transitions up\<close>

lemma represents_mono:
  "represents den ts a D \<Longrightarrow> (\<And>s x. den s = Some x \<Longrightarrow> den' s = Some x) \<Longrightarrow> represents den' ts a D"
  unfolding represents_def by blast

lemma represents_targets: "represents den ts a D \<Longrightarrow> \<forall>t \<in> set ts. den (ci_target t) \<noteq> None"
  unfolding represents_def by blast

lemma find_by_olabel:
  "by_olabel ts \<Longrightarrow> t \<in> set ts \<Longrightarrow> find (\<lambda>u. olabel u = olabel t) ts = Some t"
  by (induction ts) auto

lemma by_olabel_inj: "by_olabel ts \<Longrightarrow> t \<in> set ts \<Longrightarrow> u \<in> set ts \<Longrightarrow> olabel t = olabel u \<Longrightarrow> t = u"
  by (induction ts) auto

lemma by_olabel_sorted:
  assumes "sorted_wrt (<) ts" and "\<And>t. t \<in> set ts \<Longrightarrow> ilabel t = a"
    and "\<And>t u. t \<in> set ts \<Longrightarrow> u \<in> set ts \<Longrightarrow> olabel t = olabel u \<Longrightarrow> t = u"
  shows "by_olabel ts"
proof -
  have "olabel t < olabel u" if "t \<in> set ts" "u \<in> set ts" "t < u" for t u
  proof -
    have "olabel t \<noteq> olabel u" using assms(3) [OF that(1,2)] that(3) by auto
    with that assms(2) show ?thesis
      by (auto simp: less_ci_transition_def compare_transitions_def split: if_splits)
  qed
  then show ?thesis by (rule sorted_wrt_mono_rel [OF _ assms(1)])
qed

lemma base_represents:
  assumes "base_ok r" and "s < ci_size r"
  shows "represents (denote (Rule r)) (known_or_identity r s a) a (delta (Rule r) (Leaf s) a)"
proof -
  have ts: "by_olabel (known_or_identity r s a)"
    "\<forall>t \<in> set (known_or_identity r s a). ilabel t = a \<and> ci_target t < ci_size r"
    using assms unfolding base_ok_def by blast+
  have "delta (Rule r) (Leaf s) a (olabel t) = Some (ci_weight t, Leaf (ci_target t))"
    if "t \<in> set (known_or_identity r s a)" for t
    using find_by_olabel [OF ts(1) that] by simp
  moreover have "b \<in> olabel ` set (known_or_identity r s a)" if "delta (Rule r) (Leaf s) a b \<noteq> None" for b
    using that by (auto simp: find_Some_iff intro: nth_mem)
  ultimately show ?thesis using ts by (auto simp: represents_def)
qed

lemma base_get_transitions:
  assumes "base_ok r" and "s < ci_size r"
  shows "\<exists>r'. ci_get_transitions s a r = Inr (known_or_identity r s a, r') \<and> base_ok r' \<and> rule_ext (Rule r) (Rule r')"
proof -
  have shape: "ci_shape r" using assms(1) by (simp add: base_ok_def)
  from ci_get_transitions_ok [OF shape assms(2)] obtain m where
    m: "ci_get_transitions s a r = Inr (known_or_identity r s a, r\<lparr>transition_maps := m\<rparr>)" "length m = ci_size r"
      "\<And>s' a'. known_or_identity (r\<lparr>transition_maps := m\<rparr>) s' a' = known_or_identity r s' a'" by blast
  let ?r = "r\<lparr>transition_maps := m\<rparr>"
  have size: "ci_size ?r = ci_size r" using m(2) by (simp add: ci_size_def)
  have "base_ok ?r" using assms(1) shape by (simp add: base_ok_def m(3) size ci_shape_def)
  moreover have "delta (Rule ?r) = delta (Rule r)"
  proof (intro ext)
    fix x a' b show "delta (Rule ?r) x a' b = delta (Rule r) x a' b" by (cases x) (simp_all add: m(3))
  qed
  moreover have "rule_final (Rule ?r) = rule_final (Rule r)"
  proof
    fix x show "rule_final (Rule ?r) x = rule_final (Rule r) x" by (cases x) simp_all
  qed
  ultimately show ?thesis using m(1) size by (auto simp: rule_ext_def known_symbol_def)
qed

lemma pair_denote:
  assumes "denote (RulePair r1 r2 m) s = Some x"
  shows "s < length (state_pair_vector m) \<and> (\<exists>x1 x2. x = Fork x1 x2 \<and>
     denote r1 (fst (state_pair_vector m ! s)) = Some x1 \<and> denote r2 (snd (state_pair_vector m ! s)) = Some x2)"
  using assms by (auto split: if_splits option.splits)

text \<open>What the loop leaves represents the intersection.\<close>

lemma loop_represents:
  assumes rep: "represents (denote r1) ts a D1" "represents (denote r2) us a D2"
    and m: "pairs_ok r1 r2 m" and acc: "sorted_wrt (<) acc" "set acc = emit a m ` matched ts us"
    and map: "\<forall>tu \<in> matched ts us. pair_state_map m (target_pair tu) \<noteq> None"
    and den: "\<And>k y z. k < length (state_pair_vector m) \<Longrightarrow> denote r1 (fst (state_pair_vector m ! k)) = Some y \<Longrightarrow>
      denote r2 (snd (state_pair_vector m ! k)) = Some z \<Longrightarrow> den k = Some (Fork y z)"
  shows "represents den acc a (\<lambda>b. join (D1 b) (D2 b))"
proof -
  have sorted: "by_olabel ts" "by_olabel us"
    and rep1: "\<And>t. t \<in> set ts \<Longrightarrow> \<exists>x. denote r1 (ci_target t) = Some x \<and> D1 (olabel t) = Some (ci_weight t, x)"
    and rep2: "\<And>u. u \<in> set us \<Longrightarrow> \<exists>x. denote r2 (ci_target u) = Some x \<and> D2 (olabel u) = Some (ci_weight u, x)"
    and all1: "\<And>b. D1 b \<noteq> None \<Longrightarrow> b \<in> olabel ` set ts" and all2: "\<And>b. D2 b \<noteq> None \<Longrightarrow> b \<in> olabel ` set us"
    using rep unfolding represents_def by blast+
  have "c = c'" if c: "c \<in> set acc" "c' \<in> set acc" "olabel c = olabel c'" for c c'
  proof -
    from c(1,2) acc(2) obtain t u t' u' where *: "c = emit a m (t, u)" "(t, u) \<in> matched ts us"
      "c' = emit a m (t', u')" "(t', u') \<in> matched ts us" by auto
    then have "t = t'" "u = u'"
      using c(3) by_olabel_inj [OF sorted(1), of t t'] by_olabel_inj [OF sorted(2), of u u']
      by (auto simp: matched_def emit_def)
    with * show ?thesis by simp
  qed
  moreover have "ilabel c = a" if "c \<in> set acc" for c using that acc(2) by (auto simp: emit_def)
  ultimately have "by_olabel acc" using by_olabel_sorted [OF acc(1)] by blast
  moreover have "ilabel c = a \<and> (\<exists>x. den (ci_target c) = Some x \<and> join (D1 (olabel c)) (D2 (olabel c)) = Some (ci_weight c, x))"
    if "c \<in> set acc" for c
  proof -
    from that acc(2) obtain t u where c: "c = emit a m (t, u)" "(t, u) \<in> matched ts us" by auto
    with map obtain k where k: "pair_state_map m (target_pair (t, u)) = Some k" by blast
    then have k': "k < length (state_pair_vector m)" "state_pair_vector m ! k = (ci_target t, ci_target u)"
      using pairs_ok_map [OF m] by (auto simp: target_pair_def)
    from c(2) rep1 rep2 obtain y z where y: "denote r1 (ci_target t) = Some y" "D1 (olabel t) = Some (ci_weight t, y)"
      "denote r2 (ci_target u) = Some z" "D2 (olabel u) = Some (ci_weight u, z)" "olabel t = olabel u"
      unfolding matched_def by blast
    have "den k = Some (Fork y z)" using den [OF k'(1)] k'(2) y by simp
    then show ?thesis using c(1) k y by (simp add: emit_def)
  qed
  moreover have "b \<in> olabel ` set acc" if "join (D1 b) (D2 b) \<noteq> None" for b
  proof -
    have "D1 b \<noteq> None" "D2 b \<noteq> None" using that by (cases "D1 b"; cases "D2 b"; auto)+
    then obtain t u where "t \<in> set ts" "olabel t = b" "u \<in> set us" "olabel u = b" using all1 [of b] all2 [of b] by auto
    then have "(t, u) \<in> matched ts us" "olabel (emit a m (t, u)) = b" by (auto simp: matched_def emit_def)
    then show ?thesis unfolding acc(2) by force
  qed
  ultimately show ?thesis unfolding represents_def by blast
qed

lemma denote_ext: "rule_ext r r' \<Longrightarrow> denote r s \<noteq> None \<Longrightarrow> denote r' s \<noteq> None"
  by (auto simp: rule_ext_def)

lemma pairs_ok_ext:
  "pairs_ok r1 r2 m \<Longrightarrow> rule_ext r1 r1' \<Longrightarrow> rule_ext r2 r2' \<Longrightarrow> pairs_ok r1' r2' m"
  unfolding pairs_ok_def using denote_ext [of r1 r1'] denote_ext [of r2 r2'] by blast

lemma pair_ext:
  assumes "rule_ext r1 r1'" and "rule_ext r2 r2'" and "state_pair_vector m' = state_pair_vector m @ ps"
  shows "rule_ext (RulePair r1 r2 m) (RulePair r1' r2' m')"
proof -
  have "delta (RulePair r1' r2' m') = delta (RulePair r1 r2 m)"
  proof (intro ext)
    fix x a b show "delta (RulePair r1' r2' m') x a b = delta (RulePair r1 r2 m) x a b"
      using assms(1,2) by (cases x) (simp_all add: rule_ext_def)
  qed
  moreover have "rule_final (RulePair r1' r2' m') = rule_final (RulePair r1 r2 m)"
  proof
    fix x show "rule_final (RulePair r1' r2' m') x = rule_final (RulePair r1 r2 m) x"
      using assms(1,2) by (cases x) (simp_all add: rule_ext_def)
  qed
  moreover have "denote (RulePair r1' r2' m') s = Some x" if "denote (RulePair r1 r2 m) s = Some x" for s x
    using pair_denote [OF that] assms by (auto simp: rule_ext_def nth_append)
  ultimately show ?thesis using assms(1,2) by (simp add: rule_ext_def del: denote.simps)
qed

lemma stored_ok:
  assumes old: "\<And>s a ts. s < length (state_pair_vector m) \<Longrightarrow> (state_transition_vector m ! s) a = Some ts \<Longrightarrow>
      represents (denote (RulePair r1 r2 m)) ts a (delta (RulePair r1 r2 m) (the (denote (RulePair r1 r2 m) s)) a)"
    and len: "length (state_transition_vector m) = length (state_pair_vector m)"
    and le: "memo_le m m1" and ext: "rule_ext (RulePair r1 r2 m) R"
    and den: "\<And>s. s < length (state_pair_vector m) \<Longrightarrow> denote (RulePair r1 r2 m) s \<noteq> None"
    and new: "represents (denote R) new_ts a0 (delta R (the (denote R s0)) a0)" and s0: "s0 < length (state_pair_vector m)"
    and s: "s < length (state_pair_vector m1)"
    and stored: "((state_transition_vector m1)[s0 := (state_transition_vector m1 ! s0)(a0 \<mapsto> new_ts)] ! s) a = Some ts"
  shows "represents (denote R) ts a (delta R (the (denote R s)) a)"
proof (cases "s = s0 \<and> a = a0")
  case True
  have "length (state_transition_vector m1) = length (state_pair_vector m1)" using len le by (auto simp: memo_le_def)
  with True stored s have "ts = new_ts" by simp
  with True new show ?thesis by simp
next
  case False
  have ln: "length (state_transition_vector m1) = length (state_pair_vector m1)" using len le by (auto simp: memo_le_def)
  with False stored s have "(state_transition_vector m1 ! s) a = Some ts" by (cases "s = s0") auto
  with le len s have st: "s < length (state_pair_vector m)" "(state_transition_vector m ! s) a = Some ts"
    by (auto simp: memo_le_def nth_append split: if_splits)
  from den [OF st(1)] obtain x where x: "denote (RulePair r1 r2 m) s = Some x" by blast
  with ext have "denote R s = Some x" unfolding rule_ext_def by blast
  with old [OF st] x ext show ?thesis
    using represents_mono [of "denote (RulePair r1 r2 m)" ts a _ "denote R"] unfolding rule_ext_def by simp
qed

lemma rule_get_transitions_ok:
  "rule_ok r \<Longrightarrow> denote r s = Some x \<Longrightarrow>
     \<exists>ts r'. rule_get_transitions s a r = Inr (ts, r') \<and> rule_ok r' \<and> rule_ext r r' \<and>
       represents (denote r') ts a (delta r x a)"
proof (induction r arbitrary: s x)
  case (Rule r)
  then have s: "base_ok r" "s < ci_size r" "x = Leaf s" by (auto split: if_splits)
  from base_get_transitions [OF s(1,2)] obtain r' where r': "ci_get_transitions s a r = Inr (known_or_identity r s a, r')"
    "base_ok r'" "rule_ext (Rule r) (Rule r')" by blast
  have "represents (denote (Rule r')) (known_or_identity r s a) a (delta (Rule r) x a)"
    unfolding s(3) by (rule represents_mono [OF base_represents [OF s(1,2)]]) (use r'(3) in \<open>simp add: rule_ext_def\<close>)
  with r' show ?case
    by (intro exI [of _ "known_or_identity r s a"] exI [of _ "Rule r'"]) (simp del: denote.simps delta.simps)
next
  case (RulePair r1 r2 m)
  let ?R = "RulePair r1 r2 m" and ?p = "state_pair_vector m ! s"
  from pair_denote [OF RulePair.prems(2)] obtain x1 x2 where s: "s < length (state_pair_vector m)" and x: "x = Fork x1 x2"
    "denote r1 (fst ?p) = Some x1" "denote r2 (snd ?p) = Some x2" by blast
  have ok: "rule_ok r1" "rule_ok r2" "pairs_ok r1 r2 m" "card (rule_states r1) * card (rule_states r2) \<le> 4294967296"
    and stored: "\<And>s a ts. s < length (state_pair_vector m) \<Longrightarrow> (state_transition_vector m ! s) a = Some ts \<Longrightarrow>
      represents (denote ?R) ts a (delta ?R (the (denote ?R s)) a)"
    using RulePair.prems(1) unfolding rule_ok.simps by blast+
  have len: "length (state_transition_vector m) = length (state_pair_vector m)" using ok(3) by (simp add: pairs_ok_def)
  then have at: "vec_at (state_transition_vector m) s = Inr (state_transition_vector m ! s)" using s by (simp add: vec_at_def)
  show ?case
  proof (cases "(state_transition_vector m ! s) a")
    case (Some ts)
    have "rule_get_transitions s a ?R = Inr (ts, ?R)" using s at Some by simp
    with stored [OF s Some] RulePair.prems rule_ext_refl show ?thesis by (metis option.sel)
  next
    case None
    from RulePair.IH(1) [OF ok(1) x(2)] obtain ts1 r1' where 1: "rule_get_transitions (fst ?p) a r1 = Inr (ts1, r1')"
      "rule_ok r1'" "rule_ext r1 r1'" "represents (denote r1') ts1 a (delta r1 x1 a)" by blast
    from RulePair.IH(2) [OF ok(2) x(3)] obtain ts2 r2' where 2: "rule_get_transitions (snd ?p) a r2 = Inr (ts2, r2')"
      "rule_ok r2'" "rule_ext r2 r2'" "represents (denote r2') ts2 a (delta r2 x2 a)" by blast
    have bound: "card (rule_states r1') * card (rule_states r2') \<le> 4294967296"
      using ok(4) 1(3) 2(3) by (simp add: rule_ext_def)
    note m' = pairs_ok_ext [OF ok(3) 1(3) 2(3)]
    have sorted: "by_olabel ts1" "by_olabel ts2" using 1(4) 2(4) by (simp_all add: represents_def)
    from pair_loop_ok [OF 1(2) 2(2) bound m' sorted represents_targets [OF 1(4)] represents_targets [OF 2(4)], of "[]" a]
    obtain ts m1 where loop: "pair_loop a ts1 ts2 [] m = Inr (ts, m1)" "pairs_ok r1' r2' m1" "memo_le m m1"
      "sorted_wrt (<) ts" "set ts = emit a m1 ` matched ts1 ts2"
      "\<forall>tu \<in> matched ts1 ts2. pair_state_map m1 (target_pair tu) \<noteq> None" by auto
    let ?m2 = "m1\<lparr>state_transition_vector := (state_transition_vector m1)[s := (state_transition_vector m1 ! s)(a \<mapsto> ts)]\<rparr>"
    let ?R2 = "RulePair r1' r2' ?m2"
    have get: "rule_get_transitions s a ?R = Inr (ts, ?R2)"
      using s at None 1(1) 2(1) loop(1) by (simp add: Let_def)
    from loop(3) obtain ps where "state_pair_vector ?m2 = state_pair_vector m @ ps" by (auto simp: memo_le_def)
    note ext = pair_ext [OF 1(3) 2(3) this]
    have rep: "represents (denote ?R2) ts a (\<lambda>b. join (delta r1 x1 a b) (delta r2 x2 a b))"
      by (rule loop_represents [OF 1(4) 2(4) loop(2,4,5,6)]) simp
    moreover have "delta ?R x a = (\<lambda>b. join (delta r1 x1 a b) (delta r2 x2 a b))" by (simp add: x(1) fun_eq_iff)
    ultimately have rep: "represents (denote ?R2) ts a (delta ?R x a)" by (simp only:)
    have xR2: "denote ?R2 s = Some x" "delta ?R2 = delta ?R" using ext RulePair.prems(2) by (simp_all add: rule_ext_def)
    have den: "denote ?R s' \<noteq> None" if "s' < length (state_pair_vector m)" for s'
      using ok(3) that unfolding pairs_ok_def by (auto dest!: nth_mem split: option.splits)
    have "represents (denote ?R2) ts' a' (delta ?R2 (the (denote ?R2 s')) a')"
      if "s' < length (state_pair_vector ?m2)" "(state_transition_vector ?m2 ! s') a' = Some ts'" for s' a' ts'
      by (rule stored_ok [OF stored len loop(3) ext den _ s, of ts a s' a' ts']) (use that rep xR2 in auto)
    moreover have "pairs_ok r1' r2' ?m2" using loop(2) by (simp add: pairs_ok_def)
    ultimately have "rule_ok ?R2" using 1(2) 2(2) bound by simp
    with get ext rep show ?thesis by blast
  qed
qed

lemma rule_final_weight_ok:
  "rule_ok r \<Longrightarrow> denote r s = Some x \<Longrightarrow> rule_final_weight s r = Inr (rule_final r x)"
proof (induction r arbitrary: s x)
  case (Rule r)
  then show ?case by (auto simp: base_ok_def ci_final_weight_ok split: if_splits)
next
  case (RulePair r1 r2 m)
  from pair_denote [OF RulePair.prems(2)] RulePair show ?case by auto
qed

section \<open>Rules made from graphs\<close>

text \<open>A deterministic rule: different transitions of a state have different labels, and at most one
  of them reads identity.\<close>

definition det_rule :: "'w hbt \<Rightarrow> bool" where
  "det_rule g \<longleftrightarrow> (\<forall>s.
     (\<forall>t \<in> set (transitions_of g s). \<forall>u \<in> set (transitions_of g s). tr_label t = tr_label u \<longrightarrow> t = u) \<and>
     length (filter (\<lambda>t. tr_input t = internal_identity) (transitions_of g s)) \<le> 1)"

lemma det_rule_sort_arcs: "det_rule (sort_arcs tab g) \<longleftrightarrow> det_rule g"
  unfolding det_rule_def sort_arcs_simps(1) by (simp add: filter_sort)

lemma concat_singletons:
  "(\<And>s. s < n \<Longrightarrow> length (f s) = Suc 0) \<Longrightarrow> length (concat (map f [0..<n])) = n \<and>
     (\<forall>s < n. concat (map f [0..<n]) ! s = hd (f s))"
proof (induction n)
  case (Suc n)
  then have "length (f n) = Suc 0" by simp
  then obtain x where "f n = [x]" by (auto simp: length_Suc_conv)
  with Suc show ?case by (auto simp: nth_append less_Suc_eq)
qed simp

text \<open>What a look-up in the rule gives, in terms of the graph.\<close>

definition reads_identity :: "'w hbt \<Rightarrow> nat \<Rightarrow> 'w transition \<Rightarrow> bool" where
  "reads_identity g s t \<longleftrightarrow> t \<in> set (transitions_of g s) \<and> tr_input t = internal_identity"

definition rule_arc :: "symtab \<Rightarrow> 'w hbt \<Rightarrow> nat \<Rightarrow> nat \<Rightarrow> nat \<Rightarrow> 'w \<Rightarrow> nat \<Rightarrow> bool" where
  "rule_arc tab g s a b w q \<longleftrightarrow>
     (\<exists>t \<in> set (transitions_of g s). tr_input t \<noteq> internal_identity \<and> tr_input_number tab t = a \<and>
        tr_output_number tab t = b \<and> tr_weight t = w \<and> tr_target t = q) \<or>
     a \<notin> (\<lambda>s. the (symbol2number tab s)) ` alphabet g \<and> a = b \<and>
        (\<exists>t. reads_identity g s t \<and> tr_weight t = w \<and> tr_target t = q)"

lemma identity_at:
  assumes built: "ci_built k tab g n f" and det: "det_rule g" and s: "s < n"
  shows "length (identity_transitions f) = n"
    and "identity_transitions f ! s = (case identities_of tab (transitions_of g s) of [] \<Rightarrow> no_identity | t # ts \<Rightarrow> t)"
proof -
  have "length (identities_of tab (transitions_of g u)) \<le> 1" for u
    using det unfolding det_rule_def identities_of_def by simp
  then have len: "length (identity_entries tab (transitions_of g u)) = Suc 0" for u
    by (cases "identities_of tab (transitions_of g u)") (auto simp: identity_entries_def, metis One_nat_def Suc_le_mono le_zero_eq length_0_conv length_Cons)
  from concat_singletons [of n, OF len] built s
  show "length (identity_transitions f) = n"
    "identity_transitions f ! s = (case identities_of tab (transitions_of g s) of [] \<Rightarrow> no_identity | t # ts \<Rightarrow> t)"
    by (auto simp: ci_built_def identity_entries_def split: list.splits)
qed

lemma alphabet_number:
  assumes "symtab_ok tab" and "wf_hbt g" and "all_numbered tab g" and "t \<in> set (transitions_of g s)"
  shows "tr_input_number tab t \<in> (\<lambda>s. the (symbol2number tab s)) ` alphabet g"
proof -
  have "tr_input t \<in> alphabet g" using assms(2,4) unfolding wf_hbt_def wf_alphabet_iff by blast
  moreover have "symbol2number tab (tr_input t) = Some (tr_input_number tab t)"
    using tr_numbers [OF all_numbered_at [OF assms(3,4)]] by blast
  ultimately show ?thesis by (metis image_eqI option.sel)
qed

lemma known_or_identity_built:
  assumes tab: "program_table tab" and g: "wf_hbt g" "all_numbered tab g" "det_rule g"
    and built: "ci_built True tab g n f" and s: "s < n"
  shows "c \<in> set (known_or_identity f s a) \<longleftrightarrow> ilabel c = a \<and> rule_arc tab g s a (olabel c) (ci_weight c) (ci_target c)"
    and "by_olabel (known_or_identity f s a)"
proof -
  let ?trs = "transitions_of g s" and ?A = "(\<lambda>s. the (symbol2number tab s)) ` alphabet g"
  have ok: "symtab_ok tab" using tab by (simp add: program_table_def)
  have held: "holds_keyed (transition_maps f ! s) (keyed True tab ?trs)" and syms: "symbol_set f = ?A"
    using built s by (simp_all add: ci_built_def)
  have keyed: "c \<in> keyed True tab ?trs a \<longleftrightarrow> ilabel c = a \<and> (\<exists>t \<in> set ?trs. tr_input t \<noteq> internal_identity \<and>
      tr_input_number tab t = a \<and> tr_output_number tab t = olabel c \<and> tr_weight t = ci_weight c \<and> tr_target t = ci_target c)"
    for c by (cases c) (auto simp: keyed_def ci_key_def ci_encode_def)
  have "(\<forall>c. c \<in> set (known_or_identity f s a) \<longleftrightarrow> ilabel c = a \<and> rule_arc tab g s a (olabel c) (ci_weight c) (ci_target c)) \<and>
      by_olabel (known_or_identity f s a)"
  proof (cases "(transition_maps f ! s) a")
    case (Some cs)
    with held have cs: "sorted_wrt (<) cs" "set cs = keyed True tab ?trs a" "keyed True tab ?trs a \<noteq> {}"
      by (auto simp: holds_keyed_def split: option.splits dest!: spec [of _ a])
    then have "a \<in> ?A" using alphabet_number [OF ok g(1,2)] by (force simp: keyed_def ci_key_def)
    then have "c \<in> set (known_or_identity f s a) \<longleftrightarrow> ilabel c = a \<and> rule_arc tab g s a (olabel c) (ci_weight c) (ci_target c)" for c
      using Some cs(2) keyed [of c] by (simp add: known_or_identity_def rule_arc_def)
    moreover have "by_olabel cs"
    proof (rule by_olabel_sorted [OF cs(1)])
      show "ilabel c = a" if "c \<in> set cs" for c using that cs(2) keyed by blast
      show "c = c'" if "c \<in> set cs" "c' \<in> set cs" and o: "olabel c = olabel c'" for c c'
      proof -
        from that(1,2) cs(2) obtain t t' where t: "t \<in> set ?trs" "t' \<in> set ?trs" "c = ci_encode tab t" "c' = ci_encode tab t'"
          "tr_input_number tab t = tr_input_number tab t'" by (auto simp: keyed_def ci_key_def)
        have num: "numbered tab t" "numbered tab t'" using all_numbered_at [OF g(2)] t(1,2) by blast+
        have "tr_label t = tr_label t'"
          using tr_numbers [OF num(1)] tr_numbers [OF num(2)] t(3-5) o symtab_number_inj [OF ok]
          by (auto simp: tr_label_def ci_encode_def)
        then have "t = t'" using g(3) t(1,2) unfolding det_rule_def by blast
        with t(3,4) show ?thesis by simp
      qed
    qed
    ultimately show ?thesis using Some by (simp add: known_or_identity_def)
  next
    case None
    with held have empty: "keyed True tab ?trs a = {}" by (auto simp: holds_keyed_def split: option.splits dest!: spec [of _ a])
    then have "\<not> (\<exists>t \<in> set ?trs. tr_input t \<noteq> internal_identity \<and> tr_input_number tab t = a)"
      by (auto simp: keyed_def ci_key_def)
    then have no_arc: "rule_arc tab g s a b w q \<longleftrightarrow> a \<notin> ?A \<and> a = b \<and>
        (\<exists>t. reads_identity g s t \<and> tr_weight t = w \<and> tr_target t = q)" for b w q
      unfolding rule_arc_def by blast
    show ?thesis
    proof (cases "identities_of tab ?trs")
      case Nil
      then have "\<not> reads_identity g s t" for t by (auto simp: identities_of_def reads_identity_def filter_empty_conv)
      moreover have "identity_transitions f ! s = no_identity"
        using identity_at(2) [OF built g(3) s] Nil by simp
      ultimately show ?thesis using None no_arc
        by (simp add: known_or_identity_def identity_or_none_def no_identity_def epsilon_number_def identity_number_def)
    next
      case (Cons i ids)
      then obtain t ts where t: "filter (\<lambda>t. tr_input t = internal_identity) ?trs = t # ts" "i = ci_encode tab t"
        by (auto simp: identities_of_def)
      have "length (t # ts) \<le> 1" using g(3) t(1) unfolding det_rule_def by metis
      then have "set (filter (\<lambda>t. tr_input t = internal_identity) ?trs) = {t}" unfolding t(1) by simp
      then have only: "reads_identity g s u \<longleftrightarrow> u = t" for u by (auto simp: reads_identity_def)
      then have id: "tr_input t = internal_identity" "t \<in> set ?trs" by (auto simp: reads_identity_def)
      have "tr_input_number tab t = identity_number"
        using tr_numbers [OF all_numbered_at [OF g(2) id(2)]] id(1) tab by (simp add: program_table_def)
      moreover have "identity_transitions f ! s = ci_encode tab t"
        using identity_at(2) [OF built g(3) s] Cons t(2) by simp
      ultimately have "known_or_identity f s a = (if a \<in> ?A then [] else [CiTransition a a (tr_weight t) (tr_target t)])"
        using None syms by (simp add: known_or_identity_def identity_or_none_def ci_encode_def)
      moreover have "rule_arc tab g s a b w q \<longleftrightarrow> a \<notin> ?A \<and> a = b \<and> tr_weight t = w \<and> tr_target t = q" for b w q
        using no_arc only by auto
      ultimately show ?thesis by (auto simp: ci_transition.expand)
    qed
  qed
  then show "c \<in> set (known_or_identity f s a) \<longleftrightarrow> ilabel c = a \<and> rule_arc tab g s a (olabel c) (ci_weight c) (ci_target c)"
    and "by_olabel (known_or_identity f s a)" by blast+
qed

text \<open>The rule made from a graph.\<close>

definition rule_of_graph :: "symtab \<Rightarrow> 'w::{linorder, monoid_add} hbt \<Rightarrow> 'w ci_rule \<Rightarrow> bool" where
  "rule_of_graph tab g r \<longleftrightarrow> rule_ok (Rule r) \<and> rule_symbols r = alphabet g \<and> denote (Rule r) 0 = Some (Leaf 0) \<and>
     rule_states (Rule r) = Leaf ` {..<length (state_vector g)} \<and>
     (\<forall>s < length (state_vector g). rule_final (Rule r) (Leaf s) = final_weight_map g s \<and>
        (\<forall>a b w q. delta (Rule r) (Leaf s) a b = Some (w, Leaf q) \<longleftrightarrow> rule_arc tab g s a b w q))"

lemma rule_arc_sort_arcs: "rule_arc tab (sort_arcs tab' g) s a b w q \<longleftrightarrow> rule_arc tab g s a b w q"
  by (simp add: rule_arc_def reads_identity_def sort_arcs_simps(4)) (simp add: sort_arcs_def)

lemma rule_arc_target: "wf_graph g \<Longrightarrow> rule_arc tab g s a b w q \<Longrightarrow> q < length (state_vector g)"
  by (auto simp: rule_arc_def reads_identity_def dest: wf_graph_target)

lemma rule_new_ok:
  fixes g :: "'w::{linorder, monoid_add} hbt"
  assumes tab: "program_table tab" and g: "wf_hbt g" "all_numbered tab g" "det_rule g"
    and alpha: "alphabet g \<subseteq> dom (symbol2number tab)"
  shows "\<exists>r. ci_rule_new g tab = Inr (r, tab) \<and> rule_of_graph tab g r"
proof -
  let ?g = "sort_arcs tab g" and ?n = "length (state_vector g)"
  have ok: "symtab_ok tab" using tab by (simp add: program_table_def)
  from ci_fst_new_known [OF ok g(1,2) alpha, of True] obtain f where
    f: "ci_fst_new True g tab = Inr (f, tab)" "ci_built True tab ?g ?n f" by blast
  let ?r = "ci_fst.extend f \<lparr>rule_symbols = alphabet g\<rparr>"
  have fields: "transition_maps ?r = transition_maps f" "finality ?r = finality f"
    "identity_transitions ?r = identity_transitions f" "symbol_set ?r = symbol_set f" "rule_symbols ?r = alphabet g"
    by (simp_all add: ci_fst.defs)
  have look: "known_or_identity ?r s a = known_or_identity f s a" for s a
    by (simp add: known_or_identity_def identity_or_none_def fields split: option.split)
  have wf: "wf_hbt ?g" "all_numbered tab ?g" "det_rule ?g" "wf_graph g" "wf_graph ?g"
    using g sort_arcs_wf_hbt [OF g(1)] by (simp_all add: all_numbered_sort_arcs det_rule_sort_arcs wf_hbt_def)
  have pos: "0 < ?n" using wf(4) by (simp add: wf_graph_def)
  have size: "ci_size ?r = ?n" using f(2) by (simp add: ci_size_def fields ci_built_def)
  have arcs: "c \<in> set (known_or_identity ?r s a) \<longleftrightarrow> ilabel c = a \<and> rule_arc tab g s a (olabel c) (ci_weight c) (ci_target c)"
    and sorted: "by_olabel (known_or_identity ?r s a)" if "s < ?n" for c s a
    using known_or_identity_built [OF tab wf(1-3) f(2) that] by (simp_all add: look rule_arc_sort_arcs)
  have "base_ok ?r"
    unfolding base_ok_def
  proof (intro conjI allI impI ballI)
    show "ci_shape ?r" using f(2) identity_at(1) [OF f(2) wf(3) pos] by (simp add: ci_shape_def size fields ci_built_def)
    show "0 < ci_size ?r" unfolding size by (rule pos)
    fix s a assume s: "s < ci_size ?r"
    show "by_olabel (known_or_identity ?r s a)" using s size by (intro sorted) simp
    fix t assume t: "t \<in> set (known_or_identity ?r s a)"
    then show "ilabel t = a" using arcs s size by simp
    show "ci_target t < ci_size ?r" using t arcs [of s t a] s size rule_arc_target [OF wf(4)] by auto
  qed
  moreover have "delta (Rule ?r) (Leaf s) a b = Some (w, Leaf q) \<longleftrightarrow> rule_arc tab g s a b w q" if s: "s < ?n" for s a b w q
  proof -
    have "delta (Rule ?r) (Leaf s) a b = Some (w, Leaf q) \<longleftrightarrow>
        (\<exists>c \<in> set (known_or_identity ?r s a). olabel c = b \<and> ci_weight c = w \<and> ci_target c = q)"
    proof
      assume "delta (Rule ?r) (Leaf s) a b = Some (w, Leaf q)"
      then show "\<exists>c \<in> set (known_or_identity ?r s a). olabel c = b \<and> ci_weight c = w \<and> ci_target c = q"
        by (auto simp: find_Some_iff intro: nth_mem)
    next
      assume "\<exists>c \<in> set (known_or_identity ?r s a). olabel c = b \<and> ci_weight c = w \<and> ci_target c = q"
      with find_by_olabel [OF sorted [OF s]] show "delta (Rule ?r) (Leaf s) a b = Some (w, Leaf q)" by fastforce
    qed
    also have "\<dots> \<longleftrightarrow> rule_arc tab g s a b w q"
      using arcs [OF s, of _ a] by (auto intro: bexI [of _ "CiTransition a b w q"])
    finally show ?thesis .
  qed
  ultimately have "rule_of_graph tab g ?r"
    using f(2) pos by (simp add: rule_of_graph_def size fields ci_built_def sort_arcs_simps(3))
  moreover have "ci_rule_new g tab = Inr (?r, tab)" using f(1) by (simp add: ci_rule_new_def)
  ultimately show ?thesis by blast
qed

lemma rule_pair_ok:
  assumes "rule_ok r1" and "rule_ok r2" and "denote r1 0 = Some x" and "denote r2 0 = Some y"
    and "card (rule_states r1) * card (rule_states r2) \<le> 4294967296"
  shows "rule_ok (rule_pair_new r1 r2) \<and> denote (rule_pair_new r1 r2) 0 = Some (Fork x y)"
  using assms by (auto simp: rule_pair_new_def pairs_ok_def)

text \<open>What a rule does with a sequence of symbol pairs.\<close>

fun rule_path :: "'w::{linorder, monoid_add} rule \<Rightarrow> rule_state \<Rightarrow> (nat \<times> nat) list \<Rightarrow> ('w \<times> rule_state) option" where
  "rule_path r x [] = Some (0, x)"
| "rule_path r x ((a, b) # ps) =
     (case delta r x a b of
        None \<Rightarrow> None
      | Some (w, y) \<Rightarrow> map_option (\<lambda>(v, z). (w + v, z)) (rule_path r y ps))"

definition rule_value :: "'w::{linorder, monoid_add} rule \<Rightarrow> rule_state \<Rightarrow> (nat \<times> nat) list \<Rightarrow> 'w option" where
  "rule_value r x ps =
     (case rule_path r x ps of None \<Rightarrow> None | Some (w, y) \<Rightarrow> add_weights (Some w) (rule_final r y))"

lemma pair_path:
  fixes r1 r2 :: "'w::{linorder, comm_monoid_add} rule"
  shows "rule_path (RulePair r1 r2 m) (Fork x y) ps = join (rule_path r1 x ps) (rule_path r2 y ps)"
proof (induction ps arbitrary: x y)
  case (Cons p ps)
  obtain a b where p: "p = (a, b)" by (cases p)
  show ?case
  proof (cases "delta r1 x a b")
    case None
    then show ?thesis by (simp add: p)
  next
    case (Some wx)
    obtain w x' where wx: "wx = (w, x')" by (cases wx)
    note D1 = Some this
    show ?thesis
    proof (cases "delta r2 y a b")
      case None
      then show ?thesis using D1 by (cases "rule_path r1 x' ps") (auto simp: p)
    next
      case (Some vy)
      obtain v y' where vy: "vy = (v, y')" by (cases vy)
      show ?thesis using D1 Some vy
        by (cases "rule_path r1 x' ps"; cases "rule_path r2 y' ps") (auto simp: p Cons.IH ac_simps)
    qed
  qed
qed simp

lemma pair_value:
  fixes r1 r2 :: "'w::{linorder, comm_monoid_add} rule"
  shows "rule_value (RulePair r1 r2 m) (Fork x y) ps = add_weights (rule_value r1 x ps) (rule_value r2 y ps)"
proof (cases "rule_path r1 x ps")
  case None
  then show ?thesis by (simp add: rule_value_def pair_path)
next
  case (Some wx)
  obtain w x' where wx: "wx = (w, x')" by (cases wx)
  show ?thesis
  proof (cases "rule_path r2 y ps")
    case None
    then show ?thesis using Some wx by (cases "rule_final r1 x'") (simp_all add: rule_value_def pair_path)
  next
    case (Some vy)
    obtain v y' where vy: "vy = (v, y')" by (cases vy)
    show ?thesis using \<open>rule_path r1 x ps = Some wx\<close> wx Some vy
      by (cases "rule_final r1 x'"; cases "rule_final r2 y'") (simp_all add: rule_value_def pair_path ac_simps)
  qed
qed

end
