(* ===== verification/ComposeLexicon.thy ===== *)
theory ComposeLexicon
  imports ComposeRules Flags
begin

text \<open>
  \<open>ComposeIntersectLexicon\<close> (\<open>compose_intersect/ComposeIntersectLexicon.cc\<close>): the composition of a
  lexicon with a rule, breadth first over pairs of states. The rule is used through its virtual
  functions, the record \<open>rule_class\<close>; the locale \<open>composed_rule\<close> states what they promise, and is
  interpreted on the rules of \<open>ComposeRules\<close>. Shown: the composition ends, and the result accepts
  exactly the composed runs with their weights.
\<close>

section \<open>The operations\<close>

text \<open>The virtual functions of \<open>ComposeIntersectRule\<close>.\<close>

record ('r, 'w) rule_class =
  get_transitions_of :: "nat \<Rightarrow> nat \<Rightarrow> 'r \<Rightarrow> ('w ci_transition list \<times> 'r) result"
  final_weight_of :: "nat \<Rightarrow> 'r \<Rightarrow> 'w option result"
  known_symbol_of :: "nat \<Rightarrow> symtab \<Rightarrow> 'r \<Rightarrow> bool result"

definition rule_functions :: "('w::{linorder, plus} rule, 'w) rule_class" where
  "rule_functions = \<lparr>get_transitions_of = rule_get_transitions, final_weight_of = rule_final_weight,
     known_symbol_of = rule_known_symbol\<rparr>"

record 'w ci_lexicon = "'w ci_fst" +
  state_pair_map :: "nat \<times> nat \<rightharpoonup> nat"
  pair_vector :: "(nat \<times> nat) list"
  lex_agenda :: "nat list"
  lex_result :: "'w hbt"
  lexicon_non_epsilon_states :: "nat set"

definition ci_lexicon_new :: "'w::{linorder, zero} hbt \<Rightarrow> symtab \<Rightarrow> ('w ci_lexicon \<times> symtab) result" where
  "ci_lexicon_new t tab =
     rmap (\<lambda>(f, tab1). (ci_fst.extend f \<lparr>state_pair_map = Map.empty, pair_vector = [], lex_agenda = [],
         lex_result = new_hbt, lexicon_non_epsilon_states = {}\<rparr>, tab1)) (ci_fst_new False t tab)"

definition lex_is_flag_diacritic :: "nat \<Rightarrow> symtab \<Rightarrow> bool result" where
  "lex_is_flag_diacritic symbol tab =
     rbind (size_t_to_uint symbol) (\<lambda>n. rmap is_diacritic (get_symbol n tab))"

definition clear_all_info :: "'w ci_lexicon \<Rightarrow> 'w ci_lexicon" where
  "clear_all_info L = L\<lparr>state_pair_map := Map.empty, pair_vector := [], lex_agenda := [], lex_result := new_hbt\<rparr>"

definition map_state_and_add_to_agenda ::
  "nat \<times> nat \<Rightarrow> bool \<Rightarrow> 'w ci_lexicon \<Rightarrow> (nat \<times> 'w ci_lexicon) result" where
  "map_state_and_add_to_agenda p allow_lexicon_epsilons L =
     (let (s, g) = (if fst p = 0 \<and> snd p = 0 then (0, lex_result L) else add_new_state (lex_result L))
      in if s \<noteq> card (dom (state_pair_map L)) then Inl AssertionFailed
         else Inr (s, L\<lparr>lex_result := g, state_pair_map := (state_pair_map L)(p \<mapsto> s),
                pair_vector := pair_vector L @ [p], lex_agenda := lex_agenda L @ [s],
                lexicon_non_epsilon_states := insert s (lexicon_non_epsilon_states L)\<rparr>))"

definition can_have_lexicon_epsilons :: "nat \<Rightarrow> 'w ci_lexicon \<Rightarrow> bool" where
  "can_have_lexicon_epsilons s L \<longleftrightarrow> s \<in> lexicon_non_epsilon_states L"

definition lex_get_state :: "nat \<times> nat \<Rightarrow> bool \<Rightarrow> 'w ci_lexicon \<Rightarrow> (nat \<times> 'w ci_lexicon) result" where
  "lex_get_state p allow_lexicon_epsilons L =
     (case state_pair_map L p of
        None \<Rightarrow> map_state_and_add_to_agenda p allow_lexicon_epsilons L
      | Some s \<Rightarrow> Inr (s, L))"

definition lex_get_pair :: "nat \<Rightarrow> 'w ci_lexicon \<Rightarrow> (nat \<times> nat) result" where
  "lex_get_pair s L = (if s \<ge> length (pair_vector L) then Inl StateNotDefined else Inr (pair_vector L ! s))"

definition lex_add_transition ::
  "symtab \<Rightarrow> nat \<Rightarrow> nat \<Rightarrow> nat \<Rightarrow> 'w \<Rightarrow> nat \<Rightarrow> 'w ci_lexicon \<Rightarrow> 'w ci_lexicon result" where
  "lex_add_transition tab origin input out weight target L =
     rbind (rbind (size_t_to_uint input) (\<lambda>n. get_symbol n tab)) (\<lambda>isym.
     rbind (rbind (size_t_to_uint out) (\<lambda>n. get_symbol n tab)) (\<lambda>osym.
     rmap (\<lambda>tr. L\<lparr>lex_result := add_transition origin tr True (lex_result L)\<rparr>)
       (new_transition target isym osym weight)))"

definition lexicon_skip_symbol_compose ::
  "symtab \<Rightarrow> 'w ci_transition list \<Rightarrow> nat \<Rightarrow> nat \<Rightarrow> 'w ci_lexicon \<Rightarrow> 'w ci_lexicon result" where
  "lexicon_skip_symbol_compose tab transitions rule_state origin L =
     rfold (\<lambda>t L. rbind (lex_get_state (ci_target t, rule_state) True L) (\<lambda>(s, L1).
         lex_add_transition tab origin (ilabel t) (olabel t) (ci_weight t) s L1)) transitions L"

definition rule_skip_symbol_compose ::
  "symtab \<Rightarrow> 'w ci_transition list \<Rightarrow> nat \<Rightarrow> nat \<Rightarrow> 'w ci_lexicon \<Rightarrow> 'w ci_lexicon result" where
  "rule_skip_symbol_compose tab transitions lex_state origin L =
     rfold (\<lambda>t L. rbind (lex_get_state (lex_state, ci_target t) False L) (\<lambda>(s, L1).
         lex_add_transition tab origin (ilabel t) (olabel t) (ci_weight t) s L1)) transitions L"

definition lex_compose ::
  "symtab \<Rightarrow> 'w::plus ci_transition list \<Rightarrow> 'w ci_transition list \<Rightarrow> nat \<Rightarrow> 'w ci_lexicon \<Rightarrow> 'w ci_lexicon result" where
  "lex_compose tab lex_transitions rule_transitions origin L =
     rbind (lex_get_pair origin L) (\<lambda>p.
     rfold (\<lambda>t L. rfold (\<lambda>u L. rbind (lex_get_state (ci_target t, ci_target u) True L) (\<lambda>(s, L1).
           lex_add_transition tab origin (ilabel t) (olabel u) (ci_weight t + ci_weight u) s L1))
         rule_transitions L) lex_transitions L)"

definition compute_symbol ::
  "('r, 'w::plus) rule_class \<Rightarrow> symtab \<Rightarrow> nat \<Rightarrow> nat \<Rightarrow> bool \<Rightarrow> nat \<times> 'w ci_transition list \<Rightarrow>
     'w ci_lexicon \<times> 'r \<Rightarrow> ('w ci_lexicon \<times> 'r) result" where
  "compute_symbol V tab state rule_state allow_lexicon_epsilons it Lr =
     (case Lr of (L, rules) \<Rightarrow>
        if fst it = epsilon_number then
          (if allow_lexicon_epsilons
           then rmap (\<lambda>L1. (L1, rules)) (lexicon_skip_symbol_compose tab (snd it) rule_state state L)
           else Inr (L, rules))
        else
          rbind (rbind (lex_is_flag_diacritic (fst it) tab) (\<lambda>flag.
                   if flag then rmap Not (known_symbol_of V (fst it) tab rules) else Inr False)) (\<lambda>skip.
            if skip then rmap (\<lambda>L1. (L1, rules)) (lexicon_skip_symbol_compose tab (snd it) rule_state state L)
            else rbind (get_transitions_of V rule_state (fst it) rules) (\<lambda>(ts, rules1).
                   rmap (\<lambda>L1. (L1, rules1)) (lex_compose tab (snd it) ts state L))))"

definition compute_state ::
  "('r, 'w::plus) rule_class \<Rightarrow> symtab \<Rightarrow> nat \<Rightarrow> bool \<Rightarrow> 'w ci_lexicon \<times> 'r \<Rightarrow> ('w ci_lexicon \<times> 'r) result" where
  "compute_state V tab state allow_lexicon_epsilons Lr =
     rbind (lex_get_pair state (fst Lr)) (\<lambda>p.
       if \<not> fst p < length (transition_maps (fst Lr)) then Inl UndefinedBehaviour
       else rbind (rfold (compute_symbol V tab state (snd p) allow_lexicon_epsilons)
              (map_entries (transition_maps (fst Lr) ! fst p)) Lr) (\<lambda>(L, rules).
            rbind (get_transitions_of V (snd p) epsilon_number rules) (\<lambda>(ts, rules1).
              rmap (\<lambda>L1. (L1, rules1)) (rule_skip_symbol_compose tab ts (fst p) state L))))"

partial_function (option) compute_agenda ::
  "('r, 'w::plus) rule_class \<Rightarrow> symtab \<Rightarrow> 'w ci_lexicon \<times> 'r \<Rightarrow> ('w ci_lexicon \<times> 'r) result option" where
  "compute_agenda V tab Lr =
     (case lex_agenda (fst Lr) of
        [] \<Rightarrow> Some (Inr Lr)
      | s # rest \<Rightarrow>
          (case compute_state V tab s (can_have_lexicon_epsilons s (fst Lr)) ((fst Lr)\<lparr>lex_agenda := rest\<rparr>, snd Lr) of
             Inl e \<Rightarrow> Some (Inl e)
           | Inr Lr1 \<Rightarrow> compute_agenda V tab Lr1))"

definition set_final_state_weights ::
  "('r, 'w::plus) rule_class \<Rightarrow> 'r \<Rightarrow> 'w ci_lexicon \<Rightarrow> 'w ci_lexicon result" where
  "set_final_state_weights V rules L =
     rfold (\<lambda>s L. rbind (ci_final_weight (fst (pair_vector L ! s)) L) (\<lambda>lexicon_weight.
       rbind (final_weight_of V (snd (pair_vector L ! s)) rules) (\<lambda>rules_weight.
         case (lexicon_weight, rules_weight) of
           (Some w1, Some w2) \<Rightarrow>
             rmap (\<lambda>n. L\<lparr>lex_result := set_final_weight n (w1 + w2) (lex_result L)\<rparr>) (size_t_to_uint s)
         | _ \<Rightarrow> Inr L))) [0..<length (pair_vector L)] L"

definition compose_with_rules ::
  "('r, 'w::plus) rule_class \<Rightarrow> symtab \<Rightarrow> 'w ci_lexicon \<Rightarrow> 'r \<Rightarrow> 'w hbt result option" where
  "compose_with_rules V tab L rules =
     (case map_state_and_add_to_agenda (0, 0) True (clear_all_info L) of
        Inl e \<Rightarrow> Some (Inl e)
      | Inr (s, L1) \<Rightarrow> map_option (\<lambda>r. rbind r (\<lambda>(L2, rules1).
            rmap lex_result (set_final_state_weights V rules1 L2))) (compute_agenda V tab (L1, rules)))"

section \<open>Composed runs\<close>

text \<open>The transitions of the lexicon in a state, by the symbol they realize.\<close>

definition lex_arcs :: "('w, 'z) ci_fst_scheme \<Rightarrow> nat \<Rightarrow> 'w ci_transition set" where
  "lex_arcs L p = {c. \<exists>k cs. (transition_maps L ! p) k = Some cs \<and> c \<in> set cs}"

text \<open>One step of the composition from a pair of states: the lexicon goes alone over a symbol that the
  rule does not see, both go together, or the rule goes alone over epsilon. A move is an input, an
  output, a weight and the pair it leads to.\<close>

definition lex_moves ::
  "('x \<Rightarrow> nat \<Rightarrow> nat \<Rightarrow> ('w \<times> 'x) option) \<Rightarrow> (nat \<Rightarrow> bool) \<Rightarrow> 'x \<Rightarrow> nat \<Rightarrow> 'w::plus ci_transition set \<Rightarrow>
     (nat \<times> nat \<times> 'w \<times> nat \<times> 'x) set" where
  "lex_moves D skip x k cs =
     (if skip k then {(ilabel c, olabel c, ci_weight c, ci_target c, x) | c. c \<in> cs}
      else {(ilabel c, b, ci_weight c + v, ci_target c, y) | c b v y. c \<in> cs \<and> D x k b = Some (v, y)})"

definition rule_moves ::
  "('x \<Rightarrow> nat \<Rightarrow> nat \<Rightarrow> ('w \<times> 'x) option) \<Rightarrow> nat \<Rightarrow> 'x \<Rightarrow> (nat \<times> nat \<times> 'w \<times> nat \<times> 'x) set" where
  "rule_moves D p x = {(epsilon_number, b, v, p, y) | b v y. D x epsilon_number b = Some (v, y)}"

definition ci_moves ::
  "('x \<Rightarrow> nat \<Rightarrow> nat \<Rightarrow> ('w \<times> 'x) option) \<Rightarrow> (nat \<Rightarrow> 'w::plus ci_transition set) \<Rightarrow> (nat \<Rightarrow> bool) \<Rightarrow> nat \<Rightarrow> 'x \<Rightarrow>
     (nat \<times> nat \<times> 'w \<times> nat \<times> 'x) set" where
  "ci_moves D T skip p x =
     (\<Union>k. lex_moves D skip x k {c \<in> T p. olabel c = k}) \<union> rule_moves D p x"

inductive ci_run ::
  "('x \<Rightarrow> nat \<Rightarrow> nat \<Rightarrow> ('w \<times> 'x) option) \<Rightarrow> (nat \<Rightarrow> 'w::monoid_add ci_transition set) \<Rightarrow> (nat \<Rightarrow> bool) \<Rightarrow>
     nat \<Rightarrow> 'x \<Rightarrow> (nat \<times> nat) list \<Rightarrow> 'w \<Rightarrow> nat \<Rightarrow> 'x \<Rightarrow> bool" for D T skip where
  stop: "ci_run D T skip p x [] 0 p x"
| step: "(i, b, w, q, y) \<in> ci_moves D T skip p x \<Longrightarrow> ci_run D T skip q y ps v p' x' \<Longrightarrow>
    ci_run D T skip p x ((i, b) # ps) (w + v) p' x'"

section \<open>The promises of a rule\<close>

definition symbol_of :: "symtab \<Rightarrow> nat \<Rightarrow> string" where
  "symbol_of tab n = number2symbol tab ! n"

definition valid_number :: "symtab \<Rightarrow> nat \<Rightarrow> bool" where
  "valid_number tab n \<longleftrightarrow> n < length (number2symbol tab)"

text \<open>What the lexicon needs: well-formed maps of transitions.\<close>

definition lexicon_ok :: "symtab \<Rightarrow> ('w, 'z) ci_fst_scheme \<Rightarrow> bool" where
  "lexicon_ok tab L \<longleftrightarrow> 0 < ci_size L \<and> length (finality L) = ci_size L \<and>
     (\<forall>p < ci_size L. finite (dom (transition_maps L ! p)) \<and>
        (\<forall>k cs. (transition_maps L ! p) k = Some cs \<longrightarrow> valid_number tab k \<and>
           (\<forall>c \<in> set cs. olabel c = k \<and> valid_number tab (ilabel c) \<and> ci_target c < ci_size L)))"

locale composed_rule =
  fixes V :: "('r, 'w::{linorder, monoid_add}) rule_class"
    and ok :: "'r \<Rightarrow> bool" and ext :: "'r \<Rightarrow> 'r \<Rightarrow> bool" and den :: "'r \<Rightarrow> nat \<Rightarrow> 'x option"
    and D :: "'r \<Rightarrow> 'x \<Rightarrow> nat \<Rightarrow> nat \<Rightarrow> ('w \<times> 'x) option" and F :: "'r \<Rightarrow> 'x \<Rightarrow> 'w option" and X :: "'r \<Rightarrow> 'x set"
  assumes get: "ok r \<Longrightarrow> den r s = Some x \<Longrightarrow>
      \<exists>ts r'. get_transitions_of V s a r = Inr (ts, r') \<and> ok r' \<and> ext r r' \<and> represents (den r') ts a (D r x a)"
    and final: "ok r \<Longrightarrow> den r s = Some x \<Longrightarrow> final_weight_of V s r = Inr (F r x)"
    and known: "get_symbol a tab = Inr z \<Longrightarrow> a \<le> 4294967295 \<Longrightarrow> \<exists>b. known_symbol_of V a tab r = Inr b"
    and ext_known: "ext r r' \<Longrightarrow> known_symbol_of V a tab r' = known_symbol_of V a tab r"
    and ext_same: "ext r r' \<Longrightarrow> D r' = D r \<and> F r' = F r \<and> X r' = X r"
    and ext_den: "ext r r' \<Longrightarrow> den r s = Some x \<Longrightarrow> den r' s = Some x"
    and ext_refl: "ext r r"
    and ext_trans: "ext r r' \<Longrightarrow> ext r' r'' \<Longrightarrow> ext r r''"
    and den_inj: "ok r \<Longrightarrow> den r s = Some x \<Longrightarrow> den r s' = Some x \<Longrightarrow> s = s'"
    and den_in: "den r s = Some x \<Longrightarrow> x \<in> X r"
    and finite_X: "finite (X r)"
begin

definition lex_inv :: "'r \<Rightarrow> 'w ci_lexicon \<Rightarrow> bool" where
  "lex_inv r L \<longleftrightarrow> wf_hbt (lex_result L) \<and> final_weight_map (lex_result L) = Map.empty \<and>
     length (state_vector (lex_result L)) = length (pair_vector L) \<and> pair_vector L \<noteq> [] \<and> pair_vector L ! 0 = (0, 0) \<and>
     (\<forall>p s. state_pair_map L p = Some s \<longleftrightarrow> s < length (pair_vector L) \<and> pair_vector L ! s = p) \<and>
     (\<forall>p \<in> set (pair_vector L). fst p < ci_size L \<and> den r (snd p) \<noteq> None) \<and>
     distinct (lex_agenda L) \<and> set (lex_agenda L) \<subseteq> {..<length (pair_vector L)} \<and>
     {..<length (pair_vector L)} \<subseteq> lexicon_non_epsilon_states L"

definition lex_le :: "'w ci_lexicon \<Rightarrow> 'w ci_lexicon \<Rightarrow> bool" where
  "lex_le L L' \<longleftrightarrow> (\<exists>ps. pair_vector L' = pair_vector L @ ps) \<and>
     lex_agenda L' = lex_agenda L @ [length (pair_vector L)..<length (pair_vector L')] \<and>
     transition_maps L' = transition_maps L \<and> finality L' = finality L"

lemma lex_le_refl: "lex_le L L" by (simp add: lex_le_def)

lemma lex_le_trans:
  assumes "lex_le L1 L2" and "lex_le L2 L3"
  shows "lex_le L1 L3"
proof -
  obtain ps qs where p: "pair_vector L2 = pair_vector L1 @ ps" "pair_vector L3 = pair_vector L2 @ qs"
    using assms by (auto simp: lex_le_def)
  have "[length (pair_vector L1)..<length (pair_vector L3)] =
      [length (pair_vector L1)..<length (pair_vector L2)] @ [length (pair_vector L2)..<length (pair_vector L3)]"
    using p upt_add_eq_append [of "length (pair_vector L1)" "length (pair_vector L2)" "length qs"]
    by (simp add: add.assoc)
  with assms p show ?thesis by (simp add: lex_le_def)
qed

lemma lex_inv_map:
  "lex_inv r L \<Longrightarrow> state_pair_map L p = Some s \<longleftrightarrow> s < length (pair_vector L) \<and> pair_vector L ! s = p"
  unfolding lex_inv_def by blast

lemma lex_le_map:
  assumes "lex_le L L'" and "lex_inv r L" and "lex_inv r' L'" and "state_pair_map L p = Some s"
  shows "state_pair_map L' p = Some s"
  using assms(1,4) unfolding lex_inv_map [OF assms(2)] lex_inv_map [OF assms(3)] lex_le_def
  by (auto simp: nth_append)

lemma lex_inv_ext:
  assumes "lex_inv r L" and "ext r r'"
  shows "lex_inv r' L"
proof -
  have "den r' k \<noteq> None" if "den r k \<noteq> None" for k using that ext_den [OF assms(2)] by blast
  with assms(1) show ?thesis unfolding lex_inv_def by blast
qed

lemma lex_size: "lex_le L L' \<Longrightarrow> ci_size L' = ci_size L" by (simp add: lex_le_def ci_size_def)

lemma lex_card:
  assumes "lex_inv r L"
  shows "card (dom (state_pair_map L)) = length (pair_vector L)" and "distinct (pair_vector L)"
proof -
  have m: "\<And>p s. state_pair_map L p = Some s \<longleftrightarrow> s < length (pair_vector L) \<and> pair_vector L ! s = p"
    using lex_inv_map [OF assms] .
  show d: "distinct (pair_vector L)" unfolding distinct_conv_nth using m by (metis option.inject)
  have "(\<exists>s. state_pair_map L p = Some s) \<longleftrightarrow> p \<in> set (pair_vector L)" for p
    unfolding m in_set_conv_nth ..
  then have "dom (state_pair_map L) = set (pair_vector L)" unfolding dom_def by auto
  then show "card (dom (state_pair_map L)) = length (pair_vector L)" by (simp add: distinct_card [OF d])
qed

section \<open>Adding transitions\<close>

lemma map_state_ok:
  assumes inv: "lex_inv r L" and new: "state_pair_map L (q, k) = None" and "q < ci_size L" and "den r k \<noteq> None"
  shows "\<exists>t L'. map_state_and_add_to_agenda (q, k) b L = Inr (t, L') \<and> lex_inv r L' \<and> lex_le L L' \<and>
     state_pair_map L' (q, k) = Some t \<and> transitions_of (lex_result L') = transitions_of (lex_result L)"
proof -
  let ?n = "length (pair_vector L)"
  have L: "wf_hbt (lex_result L)" "final_weight_map (lex_result L) = Map.empty"
    "length (state_vector (lex_result L)) = ?n" "pair_vector L \<noteq> []" "pair_vector L ! 0 = (0, 0)"
    "\<forall>p \<in> set (pair_vector L). fst p < ci_size L \<and> den r (snd p) \<noteq> None"
    "distinct (lex_agenda L)" "set (lex_agenda L) \<subseteq> {..<?n}" "{..<?n} \<subseteq> lexicon_non_epsilon_states L"
    using inv unfolding lex_inv_def by blast+
  note m = lex_inv_map [OF inv]
  have "state_pair_map L (0, 0) = Some 0" using m [of "(0, 0)" 0] L(4,5) by simp
  with new have not0: "\<not> (q = 0 \<and> k = 0)" by (cases "q = 0"; cases "k = 0") simp_all
  let ?g = "snd (add_new_state (lex_result L))"
  let ?L = "L\<lparr>lex_result := ?g, state_pair_map := (state_pair_map L)((q, k) \<mapsto> ?n), pair_vector := pair_vector L @ [(q, k)],
     lex_agenda := lex_agenda L @ [?n], lexicon_non_epsilon_states := insert ?n (lexicon_non_epsilon_states L)\<rparr>"
  have "map_state_and_add_to_agenda (q, k) b L = Inr (?n, ?L)"
    using not0 lex_card(1) [OF inv] add_new_state_simps(5) [of "lex_result L"] L(3)
    by (auto simp: map_state_and_add_to_agenda_def Let_def split: prod.splits)
  moreover have "state_pair_map ?L p = Some s \<longleftrightarrow> s < length (pair_vector ?L) \<and> pair_vector ?L ! s = p" for p s
    using new m [of p s] m [of "(q, k)" s] by (auto simp: nth_append less_Suc_eq)
  then have "lex_inv r ?L"
    using L assms(3,4) add_new_state_wf_hbt [OF L(1)]
    unfolding lex_inv_def by (auto simp: add_new_state_simps nth_append ci_size_def less_Suc_eq)
  ultimately show ?thesis
    by (intro exI [of _ ?n] exI [of _ ?L]) (simp add: lex_le_def add_new_state_simps)
qed

lemma lex_get_state_ok:
  assumes inv: "lex_inv r L" and "q < ci_size L" and "den r k \<noteq> None"
  shows "\<exists>t L'. lex_get_state (q, k) b L = Inr (t, L') \<and> lex_inv r L' \<and> lex_le L L' \<and>
     state_pair_map L' (q, k) = Some t \<and> transitions_of (lex_result L') = transitions_of (lex_result L)"
proof (cases "state_pair_map L (q, k)")
  case None
  with map_state_ok [OF inv None assms(2,3)] show ?thesis by (simp add: lex_get_state_def)
next
  case (Some s)
  then show ?thesis using inv lex_le_refl by (auto simp: lex_get_state_def)
qed

lemma lex_add_transition_ok:
  assumes inv: "lex_inv r L" and tab: "symtab_ok tab" and num: "valid_number tab i" "valid_number tab b"
    and s: "s < length (pair_vector L)" and t: "t < length (pair_vector L)"
  shows "\<exists>L' tr. lex_add_transition tab s i b w t L = Inr L' \<and> lex_inv r L' \<and> lex_le L L' \<and>
     pair_vector L' = pair_vector L \<and> tr_label tr = (symbol_of tab i, symbol_of tab b) \<and> tr_weight tr = w \<and> tr_target tr = t \<and>
     (\<forall>u. transitions_of (lex_result L') u = transitions_of (lex_result L) u @ (if u = s then [tr] else []))"
proof -
  have L: "wf_hbt (lex_result L)" "length (state_vector (lex_result L)) = length (pair_vector L)"
    "final_weight_map (lex_result L) = Map.empty" using inv unfolding lex_inv_def by blast+
  have max: "length (number2symbol tab) = max_number tab + 1" "max_number tab < 4294967295"
    "[] \<notin> dom (symbol2number tab)" using tab unfolding symtab_ok_def by blast+
  have sym: "rbind (size_t_to_uint n) (\<lambda>n. get_symbol n tab) = Inr (symbol_of tab n)" "symbol_of tab n \<noteq> []"
    if "valid_number tab n" for n
  proof -
    show *: "rbind (size_t_to_uint n) (\<lambda>n. get_symbol n tab) = Inr (symbol_of tab n)"
      using that max by (simp add: valid_number_def size_t_to_uint_def get_symbol_def symbol_of_def)
    then have "get_symbol n tab = Inr (symbol_of tab n)" by (simp add: size_t_to_uint_def split: if_splits)
    then have "symbol2number tab (symbol_of tab n) = Some n" using get_symbol_number [OF tab] by blast
    then show "symbol_of tab n \<noteq> []" using max(3) by auto
  qed
  from new_transition_ok [OF sym(2) [OF num(1)] sym(2) [OF num(2)], where t = t and w = w] obtain tr where
    tr: "new_transition t (symbol_of tab i) (symbol_of tab b) w = Inr tr" "tr_target tr = t"
      "tr_label tr = (symbol_of tab i, symbol_of tab b)" "tr_weight tr = w" by blast
  let ?L = "L\<lparr>lex_result := add_transition s tr True (lex_result L)\<rparr>"
  have "lex_add_transition tab s i b w t L = Inr ?L"
    using tr(1) sym(1) [OF num(1)] sym(1) [OF num(2)] by (simp add: lex_add_transition_def)
  moreover have "lex_inv r ?L"
    using inv add_transition_wf_hbt [OF L(1) tr(1)] s t L(2,3) tr(2)
    unfolding lex_inv_def by (simp add: add_transition_simps ci_size_def)
  ultimately show ?thesis using tr by (intro exI [of _ ?L] exI [of _ tr]) (simp add: lex_le_def add_transition_simps(4))
qed

text \<open>A list of items (input, output, weight, pair of states), each made a transition of the state.\<close>

definition add_item ::
  "symtab \<Rightarrow> nat \<Rightarrow> nat \<times> nat \<times> 'w \<times> nat \<times> nat \<Rightarrow> 'w ci_lexicon \<Rightarrow> 'w ci_lexicon result" where
  "add_item tab s it L = (case it of (i, b, w, p) \<Rightarrow>
     rbind (lex_get_state p True L) (\<lambda>(t, L1). lex_add_transition tab s i b w t L1))"

lemma add_item_simp [simp]: "add_item tab s (i, b, w, p) L =
     rbind (lex_get_state p True L) (\<lambda>(t, L1). lex_add_transition tab s i b w t L1)"
  by (simp add: add_item_def)

lemma add_item_fun: "add_item tab s (i, b, w, p) = (\<lambda>L.
     rbind (lex_get_state p True L) (\<lambda>(t, L1). lex_add_transition tab s i b w t L1))"
  by (simp add: fun_eq_iff)

definition item_made :: "symtab \<Rightarrow> 'w ci_lexicon \<Rightarrow> nat \<times> nat \<times> 'w \<times> nat \<times> nat \<Rightarrow> 'w transition \<Rightarrow> bool" where
  "item_made tab L it t \<longleftrightarrow> (case it of (i, b, w, p) \<Rightarrow>
     tr_label t = (symbol_of tab i, symbol_of tab b) \<and> tr_weight t = w \<and> state_pair_map L p = Some (tr_target t))"

definition item_ok :: "'r \<Rightarrow> symtab \<Rightarrow> 'w ci_lexicon \<Rightarrow> nat \<times> nat \<times> 'w \<times> nat \<times> nat \<Rightarrow> bool" where
  "item_ok r tab L it \<longleftrightarrow> (case it of (i, b, w, p) \<Rightarrow>
     valid_number tab i \<and> valid_number tab b \<and> fst p < ci_size L \<and> den r (snd p) \<noteq> None)"

lemma item_made_le:
  "lex_le L L' \<Longrightarrow> lex_inv r L \<Longrightarrow> lex_inv r' L' \<Longrightarrow> item_made tab L it t \<Longrightarrow> item_made tab L' it t"
  using lex_le_map [of L L' r r'] by (auto simp: item_made_def)

lemma add_items_ok:
  assumes tab: "symtab_ok tab"
  shows "lex_inv r L \<Longrightarrow> s < length (pair_vector L) \<Longrightarrow> \<forall>it \<in> set items. item_ok r tab L it \<Longrightarrow>
     \<exists>L' new. rfold (add_item tab s) items L = Inr L' \<and> lex_inv r L' \<and> lex_le L L' \<and>
       list_all2 (item_made tab L') items new \<and>
       (\<forall>u. transitions_of (lex_result L') u = transitions_of (lex_result L) u @ (if u = s then new else []))"
proof (induction items arbitrary: L)
  case Nil
  then show ?case using lex_le_refl by (intro exI [of _ L] exI [of _ "[]"]) simp
next
  case (Cons it items)
  obtain i b w q k where it: "it = (i, b, w, q, k)" by (cases it)
  have ok: "valid_number tab i" "valid_number tab b" "q < ci_size L" "den r k \<noteq> None"
    using Cons.prems(3) it by (auto simp: item_ok_def)
  from lex_get_state_ok [OF Cons.prems(1) ok(3,4)] obtain t L1 where
    1: "lex_get_state (q, k) True L = Inr (t, L1)" "lex_inv r L1" "lex_le L L1" "state_pair_map L1 (q, k) = Some t"
      "transitions_of (lex_result L1) = transitions_of (lex_result L)" by blast
  have t: "t < length (pair_vector L1)" using 1(4) lex_inv_map [OF 1(2)] by blast
  have s: "s < length (pair_vector L1)" using Cons.prems(2) 1(3) by (auto simp: lex_le_def)
  from lex_add_transition_ok [OF 1(2) tab ok(1,2) s t, of w] obtain L2 tr where
    2: "lex_add_transition tab s i b w t L1 = Inr L2" "lex_inv r L2" "lex_le L1 L2" "pair_vector L2 = pair_vector L1"
      "tr_label tr = (symbol_of tab i, symbol_of tab b)" "tr_weight tr = w" "tr_target tr = t"
      "\<forall>u. transitions_of (lex_result L2) u = transitions_of (lex_result L1) u @ (if u = s then [tr] else [])" by blast
  have le: "lex_le L L2" by (rule lex_le_trans [OF 1(3) 2(3)])
  have "\<forall>it \<in> set items. item_ok r tab L2 it"
    using Cons.prems(3) lex_size [OF le] by (auto simp: item_ok_def)
  with Cons.IH [OF 2(2)] s 2(4) obtain L' new where
    IH: "rfold (add_item tab s) items L2 = Inr L'" "lex_inv r L'" "lex_le L2 L'" "list_all2 (item_made tab L') items new"
      "\<forall>u. transitions_of (lex_result L') u = transitions_of (lex_result L2) u @ (if u = s then new else [])" by auto
  have "state_pair_map L2 (q, k) = Some t" by (rule lex_le_map [OF 2(3) 1(2) 2(2) 1(4)])
  then have "item_made tab L' it tr"
    using 2(5-7) it by (intro item_made_le [OF IH(3) 2(2) IH(2)]) (simp add: item_made_def)
  then show ?case
    using IH 1(1,5) 2(1,8) it lex_le_trans [OF le IH(3)]
    by (intro exI [of _ L'] exI [of _ "tr # new"]) simp
qed

lemma lexicon_skip_items:
  "lexicon_skip_symbol_compose tab cs k s L = rfold (add_item tab s) (map (\<lambda>c. (ilabel c, olabel c, ci_weight c, ci_target c, k)) cs) L"
  by (simp add: lexicon_skip_symbol_compose_def rfold_map add_item_fun)

lemma rule_skip_items:
  "rule_skip_symbol_compose tab cs p s L = rfold (add_item tab s) (map (\<lambda>c. (ilabel c, olabel c, ci_weight c, p, ci_target c)) cs) L"
proof -
  have "lex_get_state q False = (lex_get_state q True :: 'w ci_lexicon \<Rightarrow> _)" for q
    by (simp add: fun_eq_iff lex_get_state_def map_state_and_add_to_agenda_def split: option.split)
  then show ?thesis by (simp add: rule_skip_symbol_compose_def rfold_map add_item_fun)
qed

lemma lex_compose_items:
  "s < length (pair_vector L) \<Longrightarrow> lex_compose tab cs us s L = rfold (add_item tab s)
     (concat (map (\<lambda>c. map (\<lambda>u. (ilabel c, olabel u, ci_weight c + ci_weight u, ci_target c, ci_target u)) us) cs)) L"
  by (simp add: lex_compose_def lex_get_pair_def rfold_concat rfold_map add_item_fun)

section \<open>Computing a state\<close>

text \<open>A transition of the result made for a move.\<close>

definition move_made :: "'r \<Rightarrow> symtab \<Rightarrow> 'w ci_lexicon \<Rightarrow> nat \<times> nat \<times> 'w \<times> nat \<times> 'x \<Rightarrow> 'w transition \<Rightarrow> bool" where
  "move_made r tab L mv t \<longleftrightarrow> (case mv of (i, b, w, q, y) \<Rightarrow>
     tr_label t = (symbol_of tab i, symbol_of tab b) \<and> tr_weight t = w \<and>
     (\<exists>k. state_pair_map L (q, k) = Some (tr_target t) \<and> den r k = Some y))"

definition covers :: "'r \<Rightarrow> symtab \<Rightarrow> 'w ci_lexicon \<Rightarrow> 'w transition list \<Rightarrow> (nat \<times> nat \<times> 'w \<times> nat \<times> 'x) set \<Rightarrow> bool" where
  "covers r tab L ts M \<longleftrightarrow> (\<forall>t \<in> set ts. \<exists>mv \<in> M. move_made r tab L mv t) \<and> (\<forall>mv \<in> M. \<exists>t \<in> set ts. move_made r tab L mv t)"

lemma move_made_mono:
  assumes "lex_le L L'" and "lex_inv r L" and "lex_inv r' L'" and "ext r r'" and "move_made r tab L mv t"
  shows "move_made r' tab L' mv t"
  using assms(5) lex_le_map [OF assms(1-3)] ext_den [OF assms(4)] by (auto simp: move_made_def) blast

lemma covers_mono:
  assumes "lex_le L L'" and "lex_inv r L" and "lex_inv r' L'" and "ext r r'" and "covers r tab L ts M"
  shows "covers r' tab L' ts M"
  using assms(5) move_made_mono [OF assms(1-4)] unfolding covers_def by blast

lemma covers_append:
  "covers r tab L ts M \<Longrightarrow> covers r tab L us N \<Longrightarrow> covers r tab L (ts @ us) (M \<union> N)"
  by (auto simp: covers_def)

lemma covers_items:
  assumes "list_all2 (item_made tab L) items ts"
    and "\<And>i b w q k. (i, b, w, q, k) \<in> set items \<Longrightarrow> \<exists>y. den r k = Some y \<and> (i, b, w, q, y) \<in> M"
    and "\<And>i b w q y. (i, b, w, q, y) \<in> M \<Longrightarrow> \<exists>k. den r k = Some y \<and> (i, b, w, q, k) \<in> set items"
  shows "covers r tab L ts M"
  unfolding covers_def
proof (intro conjI ballI)
  fix t assume "t \<in> set ts"
  from list_all2_right [OF assms(1) this] obtain it where it: "it \<in> set items" "item_made tab L it t" by blast
  obtain i b w q k where e: "it = (i, b, w, q, k)" by (cases it)
  from assms(2) it(1) e obtain y where "den r k = Some y" "(i, b, w, q, y) \<in> M" by blast
  with it(2) e show "\<exists>mv \<in> M. move_made r tab L mv t"
    by (intro bexI [of _ "(i, b, w, q, y)"]) (auto simp: item_made_def move_made_def)
next
  fix mv assume mv: "mv \<in> M"
  obtain i b w q y where e: "mv = (i, b, w, q, y)" by (cases mv)
  from assms(3) mv e obtain k where k: "den r k = Some y" "(i, b, w, q, k) \<in> set items" by blast
  from list_all2_left [OF assms(1) k(2)] obtain t where "t \<in> set ts" "item_made tab L (i, b, w, q, k) t" by blast
  with k(1) e show "\<exists>t \<in> set ts. move_made r tab L mv t" by (auto simp: item_made_def move_made_def)
qed

text \<open>Adding items that stand for a set of moves.\<close>

lemma add_moves_ok:
  assumes tab: "symtab_ok tab" and inv: "lex_inv r L" and s: "s < length (pair_vector L)"
    and items: "\<And>i b w q k. (i, b, w, q, k) \<in> set items \<Longrightarrow> valid_number tab i \<and> valid_number tab b \<and> q < ci_size L \<and>
       (\<exists>y. den r k = Some y \<and> (i, b, w, q, y) \<in> M)"
    and moves: "\<And>i b w q y. (i, b, w, q, y) \<in> M \<Longrightarrow> \<exists>k. den r k = Some y \<and> (i, b, w, q, k) \<in> set items"
  shows "\<exists>L' new. rfold (add_item tab s) items L = Inr L' \<and> lex_inv r L' \<and> lex_le L L' \<and> covers r tab L' new M \<and>
     (\<forall>u. transitions_of (lex_result L') u = transitions_of (lex_result L) u @ (if u = s then new else []))"
proof -
  have "item_ok r tab L it" if "it \<in> set items" for it
  proof -
    obtain i b w q k where it: "it = (i, b, w, q, k)" by (cases it)
    from items that it obtain y where "valid_number tab i" "valid_number tab b" "q < ci_size L" "den r k = Some y" by blast
    with it show ?thesis by (simp add: item_ok_def)
  qed
  with add_items_ok [OF tab inv s] obtain L' new where L': "rfold (add_item tab s) items L = Inr L'" "lex_inv r L'"
    "lex_le L L'" "list_all2 (item_made tab L') items new"
    "\<forall>u. transitions_of (lex_result L') u = transitions_of (lex_result L) u @ (if u = s then new else [])" by blast
  have "covers r tab L' new M" by (rule covers_items [OF L'(4)]) (use items moves in blast)+
  with L' show ?thesis by blast
qed

text \<open>The symbols the lexicon goes over alone.\<close>

definition skips :: "symtab \<Rightarrow> 'r \<Rightarrow> nat \<Rightarrow> bool" where
  "skips tab r k \<longleftrightarrow> k = epsilon_number \<or> is_diacritic (symbol_of tab k) \<and> known_symbol_of V k tab r = Inr False"

definition outputs_valid :: "symtab \<Rightarrow> 'r \<Rightarrow> bool" where
  "outputs_valid tab r \<longleftrightarrow> (\<forall>x \<in> X r. \<forall>a b. D r x a b \<noteq> None \<longrightarrow> valid_number tab a \<longrightarrow> valid_number tab b)"

definition made_of :: "symtab \<Rightarrow> nat \<Rightarrow> 'w ci_lexicon \<times> 'r \<Rightarrow> 'w ci_lexicon \<times> 'r \<Rightarrow> (nat \<times> nat \<times> 'w \<times> nat \<times> 'x) set \<Rightarrow> bool" where
  "made_of tab s Lr Lr' M \<longleftrightarrow> ok (snd Lr') \<and> ext (snd Lr) (snd Lr') \<and> lex_inv (snd Lr') (fst Lr') \<and> lex_le (fst Lr) (fst Lr') \<and>
     (\<exists>new. covers (snd Lr') tab (fst Lr') new M \<and> (\<forall>u. transitions_of (lex_result (fst Lr')) u =
        transitions_of (lex_result (fst Lr)) u @ (if u = s then new else [])))"

lemma made_of_trans:
  assumes "lex_inv r1 L1" and "made_of tab s (L1, r1) (L2, r2) M" and "made_of tab s (L2, r2) (L3, r3) N"
  shows "made_of tab s (L1, r1) (L3, r3) (M \<union> N)"
proof -
  have 2: "ok r2" "ext r1 r2" "lex_inv r2 L2" "lex_le L1 L2" and 3: "ok r3" "ext r2 r3" "lex_inv r3 L3" "lex_le L2 L3"
    using assms(2,3) by (simp_all add: made_of_def)
  from assms(2) obtain new1 where n1: "covers r2 tab L2 new1 M"
    "\<forall>u. transitions_of (lex_result L2) u = transitions_of (lex_result L1) u @ (if u = s then new1 else [])"
    by (auto simp: made_of_def)
  from assms(3) obtain new2 where n2: "covers r3 tab L3 new2 N"
    "\<forall>u. transitions_of (lex_result L3) u = transitions_of (lex_result L2) u @ (if u = s then new2 else [])"
    by (auto simp: made_of_def)
  have "covers r3 tab L3 (new1 @ new2) (M \<union> N)"
    by (rule covers_append [OF covers_mono [OF 3(4) 2(3) 3(3) 3(2) n1(1)] n2(1)])
  then show ?thesis
    using 2 3 n1(2) n2(2) ext_trans [OF 2(2) 3(2)] lex_le_trans [OF 2(4) 3(4)]
    unfolding made_of_def by (intro conjI exI [of _ "new1 @ new2"]) auto
qed

lemma made_of_moves:
  assumes "ok r" and "ext r0 r" and "lex_inv r L'" and "lex_le L L'" and "covers r tab L' new M"
    and "\<forall>u. transitions_of (lex_result L') u = transitions_of (lex_result L) u @ (if u = s then new else [])"
  shows "made_of tab s (L, r0) (L', r) M"
  using assms by (auto simp: made_of_def)

lemma compute_symbol_skip:
  assumes tab: "symtab_ok tab" and inv: "lex_inv r L" "ok r" and s: "s < length (pair_vector L)" and x: "den r k = Some x"
    and cs: "\<And>c. c \<in> set cs \<Longrightarrow> olabel c = a \<and> valid_number tab (ilabel c) \<and> valid_number tab a \<and> ci_target c < ci_size L"
    and "skip a"
  shows "\<exists>L'. lexicon_skip_symbol_compose tab cs k s L = Inr L' \<and>
     made_of tab s (L, r) (L', r) (lex_moves (D r) skip x a (set cs))"
proof -
  have "\<exists>L' new. rfold (add_item tab s) (map (\<lambda>c. (ilabel c, olabel c, ci_weight c, ci_target c, k)) cs) L = Inr L' \<and>
     lex_inv r L' \<and> lex_le L L' \<and> covers r tab L' new (lex_moves (D r) skip x a (set cs)) \<and>
     (\<forall>u. transitions_of (lex_result L') u = transitions_of (lex_result L) u @ (if u = s then new else []))"
  proof (rule add_moves_ok [OF tab inv(1) s])
    fix i b w q k' assume "(i, b, w, q, k') \<in> set (map (\<lambda>c. (ilabel c, olabel c, ci_weight c, ci_target c, k)) cs)"
    then obtain c where c: "c \<in> set cs" "i = ilabel c" "b = olabel c" "w = ci_weight c" "q = ci_target c" "k' = k" by auto
    with cs [OF c(1)] x assms(7) show "valid_number tab i \<and> valid_number tab b \<and> q < ci_size L \<and>
        (\<exists>y. den r k' = Some y \<and> (i, b, w, q, y) \<in> lex_moves (D r) skip x a (set cs))"
      by (auto simp: lex_moves_def)
  next
    fix i b w q y assume "(i, b, w, q, y) \<in> lex_moves (D r) skip x a (set cs)"
    with assms(7) x show "\<exists>k'. den r k' = Some y \<and>
        (i, b, w, q, k') \<in> set (map (\<lambda>c. (ilabel c, olabel c, ci_weight c, ci_target c, k)) cs)"
      by (auto simp: lex_moves_def)
  qed
  then show ?thesis using inv(2) ext_refl unfolding lexicon_skip_items by (blast intro: made_of_moves)
qed

lemma compute_symbol_both:
  assumes tab: "symtab_ok tab" and inv: "lex_inv r L" "ok r" and s: "s < length (pair_vector L)" and x: "den r k = Some x"
    and cs: "\<And>c. c \<in> set cs \<Longrightarrow> olabel c = a \<and> valid_number tab (ilabel c) \<and> valid_number tab a \<and> ci_target c < ci_size L"
    and out: "outputs_valid tab r" and a: "valid_number tab a" and "\<not> skip a"
  shows "\<exists>ts r' L'. get_transitions_of V k a r = Inr (ts, r') \<and> lex_compose tab cs ts s L = Inr L' \<and>
     made_of tab s (L, r) (L', r') (lex_moves (D r) skip x a (set cs))"
proof -
  from get [OF inv(2) x] obtain ts r' where ts: "get_transitions_of V k a r = Inr (ts, r')" "ok r'" "ext r r'"
    "represents (den r') ts a (D r x a)" by blast
  have inv': "lex_inv r' L" by (rule lex_inv_ext [OF inv(1) ts(3)])
  have rep1: "\<And>u. u \<in> set ts \<Longrightarrow> \<exists>y. den r' (ci_target u) = Some y \<and> D r x a (olabel u) = Some (ci_weight u, y)"
    and rep2: "\<And>b. D r x a b \<noteq> None \<Longrightarrow> b \<in> olabel ` set ts" using ts(4) unfolding represents_def by blast+
  let ?items = "concat (map (\<lambda>c. map (\<lambda>u. (ilabel c, olabel u, ci_weight c + ci_weight u, ci_target c, ci_target u)) ts) cs)"
  have "\<exists>L' new. rfold (add_item tab s) ?items L = Inr L' \<and> lex_inv r' L' \<and> lex_le L L' \<and>
     covers r' tab L' new (lex_moves (D r) skip x a (set cs)) \<and>
     (\<forall>u. transitions_of (lex_result L') u = transitions_of (lex_result L) u @ (if u = s then new else []))"
  proof (rule add_moves_ok [OF tab inv' s])
    fix i b w q k' assume "(i, b, w, q, k') \<in> set ?items"
    then obtain c u where c: "c \<in> set cs" "u \<in> set ts" "i = ilabel c" "b = olabel u" "w = ci_weight c + ci_weight u"
      "q = ci_target c" "k' = ci_target u" by auto
    from rep1 [OF c(2)] obtain y where y: "den r' (ci_target u) = Some y" "D r x a (olabel u) = Some (ci_weight u, y)" by blast
    then have "valid_number tab b" using out a c(4) den_in [OF x] unfolding outputs_valid_def by blast
    with cs [OF c(1)] c y assms(9) show "valid_number tab i \<and> valid_number tab b \<and> q < ci_size L \<and>
        (\<exists>y. den r' k' = Some y \<and> (i, b, w, q, y) \<in> lex_moves (D r) skip x a (set cs))"
      by (auto simp: lex_moves_def)
  next
    fix i b w q y assume "(i, b, w, q, y) \<in> lex_moves (D r) skip x a (set cs)"
    with assms(9) obtain c v where c: "c \<in> set cs" "i = ilabel c" "w = ci_weight c + v" "q = ci_target c"
      "D r x a b = Some (v, y)" by (auto simp: lex_moves_def)
    from rep2 [of b] c(5) obtain u where u: "u \<in> set ts" "olabel u = b" by auto
    from rep1 [OF u(1)] u(2) c(5) have "den r' (ci_target u) = Some y" "ci_weight u = v" by auto
    with c u show "\<exists>k'. den r' k' = Some y \<and> (i, b, w, q, k') \<in> set ?items" by (intro exI [of _ "ci_target u"]) auto
  qed
  then show ?thesis using ts(1-3) unfolding lex_compose_items [OF s] by (blast intro: made_of_moves)
qed

lemma rule_skip_ok:
  assumes tab: "symtab_ok tab" and inv: "lex_inv r L" "ok r" and s: "s < length (pair_vector L)" and x: "den r k = Some x"
    and out: "outputs_valid tab r" and eps: "valid_number tab epsilon_number" and p: "p < ci_size L"
  shows "\<exists>ts r' L'. get_transitions_of V k epsilon_number r = Inr (ts, r') \<and> rule_skip_symbol_compose tab ts p s L = Inr L' \<and>
     made_of tab s (L, r) (L', r') (rule_moves (D r) p x)"
proof -
  from get [OF inv(2) x] obtain ts r' where ts: "get_transitions_of V k epsilon_number r = Inr (ts, r')" "ok r'" "ext r r'"
    "represents (den r') ts epsilon_number (D r x epsilon_number)" by blast
  have inv': "lex_inv r' L" by (rule lex_inv_ext [OF inv(1) ts(3)])
  have rep1: "\<And>u. u \<in> set ts \<Longrightarrow> ilabel u = epsilon_number \<and>
      (\<exists>y. den r' (ci_target u) = Some y \<and> D r x epsilon_number (olabel u) = Some (ci_weight u, y))"
    and rep2: "\<And>b. D r x epsilon_number b \<noteq> None \<Longrightarrow> b \<in> olabel ` set ts" using ts(4) unfolding represents_def by blast+
  let ?items = "map (\<lambda>c. (ilabel c, olabel c, ci_weight c, p, ci_target c)) ts"
  have "\<exists>L' new. rfold (add_item tab s) ?items L = Inr L' \<and> lex_inv r' L' \<and> lex_le L L' \<and>
     covers r' tab L' new (rule_moves (D r) p x) \<and>
     (\<forall>u. transitions_of (lex_result L') u = transitions_of (lex_result L) u @ (if u = s then new else []))"
  proof (rule add_moves_ok [OF tab inv' s])
    fix i b w q k' assume "(i, b, w, q, k') \<in> set ?items"
    then obtain u where u: "u \<in> set ts" "i = ilabel u" "b = olabel u" "w = ci_weight u" "q = p" "k' = ci_target u" by auto
    from rep1 [OF u(1)] obtain y where y: "ilabel u = epsilon_number" "den r' (ci_target u) = Some y"
      "D r x epsilon_number (olabel u) = Some (ci_weight u, y)" by blast
    then have "valid_number tab b" using out eps u(3) den_in [OF x] unfolding outputs_valid_def by blast
    with u y p eps show "valid_number tab i \<and> valid_number tab b \<and> q < ci_size L \<and>
        (\<exists>y. den r' k' = Some y \<and> (i, b, w, q, y) \<in> rule_moves (D r) p x)"
      by (auto simp: rule_moves_def)
  next
    fix i b w q y assume "(i, b, w, q, y) \<in> rule_moves (D r) p x"
    then have m: "i = epsilon_number" "q = p" "D r x epsilon_number b = Some (w, y)" by (auto simp: rule_moves_def)
    from rep2 [of b] m(3) obtain u where u: "u \<in> set ts" "olabel u = b" by auto
    from rep1 [OF u(1)] u(2) m(3) have "den r' (ci_target u) = Some y" "ci_weight u = w" "ilabel u = epsilon_number" by auto
    with m u show "\<exists>k'. den r' k' = Some y \<and> (i, b, w, q, k') \<in> set ?items"
      by (intro exI [of _ "ci_target u"]) (auto intro!: image_eqI [of _ _ u])
  qed
  then show ?thesis using ts(1-3) unfolding rule_skip_items by (blast intro: made_of_moves)
qed

lemma ext_skips: "ext r r' \<Longrightarrow> skips tab r' = skips tab r"
  using ext_known by (simp add: skips_def fun_eq_iff)

lemma ext_outputs: "ext r r' \<Longrightarrow> outputs_valid tab r' \<longleftrightarrow> outputs_valid tab r"
  using ext_same [of r r'] by (simp add: outputs_valid_def)

lemma skip_test:
  assumes tab: "symtab_ok tab" and a: "valid_number tab a" "a \<noteq> epsilon_number"
  shows "rbind (lex_is_flag_diacritic a tab) (\<lambda>flag.
     if flag then rmap Not (known_symbol_of V a tab r) else Inr False) = Inr (skips tab r a)"
proof -
  have "length (number2symbol tab) = max_number tab + 1" "max_number tab < 4294967295"
    using tab unfolding symtab_ok_def by blast+
  with a(1) have le: "a \<le> 4294967295" and get_a: "get_symbol a tab = Inr (symbol_of tab a)"
    by (simp_all add: valid_number_def get_symbol_def symbol_of_def)
  from known [OF get_a le, of r] obtain b where "known_symbol_of V a tab r = Inr b" by blast
  with a(2) le get_a show ?thesis
    by (simp add: lex_is_flag_diacritic_def size_t_to_uint_def skips_def)
qed

lemmas compute_symbol_pair = compute_symbol_def
  [of V tab s k b "(a, cs)" "(L, r)" for tab s k b a cs L r, unfolded prod.case fst_conv snd_conv]

lemma compute_symbol_ok:
  assumes tab: "symtab_ok tab" and inv: "lex_inv r L" "ok r" and s: "s < length (pair_vector L)" and x: "den r k = Some x"
    and cs: "\<And>c. c \<in> set cs \<Longrightarrow> olabel c = a \<and> valid_number tab (ilabel c) \<and> valid_number tab a \<and> ci_target c < ci_size L"
    and out: "outputs_valid tab r" and a: "valid_number tab a"
  shows "\<exists>L' r'. compute_symbol V tab s k True (a, cs) (L, r) = Inr (L', r') \<and>
     made_of tab s (L, r) (L', r') (lex_moves (D r) (skips tab r) x a (set cs))"
proof (cases "skips tab r a")
  case True
  from compute_symbol_skip [where skip = "skips tab r", OF tab inv s x cs True] obtain L' where L':
    "lexicon_skip_symbol_compose tab cs k s L = Inr L'"
    "made_of tab s (L, r) (L', r) (lex_moves (D r) (skips tab r) x a (set cs))" by blast
  then have "compute_symbol V tab s k True (a, cs) (L, r) = Inr (L', r)"
    using skip_test [OF tab a, of r] True by (cases "a = epsilon_number") (simp_all add: compute_symbol_pair)
  with L'(2) show ?thesis by blast
next
  case False
  then have ne: "a \<noteq> epsilon_number" by (auto simp: skips_def)
  from compute_symbol_both [where skip = "skips tab r", OF tab inv s x cs out a False] obtain ts r' L' where *:
    "get_transitions_of V k a r = Inr (ts, r')" "lex_compose tab cs ts s L = Inr L'"
    "made_of tab s (L, r) (L', r') (lex_moves (D r) (skips tab r) x a (set cs))" by blast
  then have "compute_symbol V tab s k True (a, cs) (L, r) = Inr (L', r')"
    using skip_test [OF tab a ne, of r] False ne by (simp add: compute_symbol_pair)
  with *(3) show ?thesis by blast
qed

lemma compute_symbols_ok:
  assumes tab: "symtab_ok tab"
  shows "lex_inv r L \<Longrightarrow> ok r \<Longrightarrow> s < length (pair_vector L) \<Longrightarrow> den r k = Some x \<Longrightarrow> outputs_valid tab r \<Longrightarrow>
     (\<And>a cs c. (a, cs) \<in> set es \<Longrightarrow> valid_number tab a \<and> (c \<in> set cs \<longrightarrow>
        olabel c = a \<and> valid_number tab (ilabel c) \<and> ci_target c < ci_size L)) \<Longrightarrow>
     \<exists>L' r'. rfold (compute_symbol V tab s k True) es (L, r) = Inr (L', r') \<and>
       made_of tab s (L, r) (L', r') (\<Union>(a, cs) \<in> set es. lex_moves (D r) (skips tab r) x a (set cs))"
proof (induction es arbitrary: L r)
  case Nil
  then show ?case using ext_refl lex_le_refl
    by (intro exI [of _ L] exI [of _ r]) (auto simp: made_of_def covers_def intro!: exI [of _ "[]"])
next
  case (Cons e es)
  obtain a cs where e: "e = (a, cs)" by (cases e)
  have cs: "valid_number tab a" "\<And>c. c \<in> set cs \<Longrightarrow> olabel c = a \<and> valid_number tab (ilabel c) \<and> valid_number tab a \<and>
      ci_target c < ci_size L" using Cons.prems(6) [of a cs] e by auto
  from compute_symbol_ok [OF tab Cons.prems(1-4) cs(2) Cons.prems(5) cs(1)] obtain L1 r1 where
    1: "compute_symbol V tab s k True (a, cs) (L, r) = Inr (L1, r1)"
      "made_of tab s (L, r) (L1, r1) (lex_moves (D r) (skips tab r) x a (set cs))" by blast
  then have m: "ok r1" "ext r r1" "lex_inv r1 L1" "lex_le L L1" by (simp_all add: made_of_def)
  have same: "D r1 = D r" "skips tab r1 = skips tab r" "ci_size L1 = ci_size L"
    using ext_same [OF m(2)] ext_skips [OF m(2)] lex_size [OF m(4)] by simp_all
  have "\<exists>L' r'. rfold (compute_symbol V tab s k True) es (L1, r1) = Inr (L', r') \<and>
      made_of tab s (L1, r1) (L', r') (\<Union>(a, cs) \<in> set es. lex_moves (D r1) (skips tab r1) x a (set cs))"
  proof (rule Cons.IH [OF m(3,1)])
    show "s < length (pair_vector L1)" using Cons.prems(3) m(4) by (auto simp: lex_le_def)
    show "den r1 k = Some x" by (rule ext_den [OF m(2) Cons.prems(4)])
    show "outputs_valid tab r1" using Cons.prems(5) ext_outputs [OF m(2)] by simp
    show "valid_number tab a \<and> (c \<in> set cs \<longrightarrow> olabel c = a \<and> valid_number tab (ilabel c) \<and> ci_target c < ci_size L1)"
      if "(a, cs) \<in> set es" for a cs c using Cons.prems(6) [of a cs c] that same(3) by simp
  qed
  then obtain L2 r2 where 2: "rfold (compute_symbol V tab s k True) es (L1, r1) = Inr (L2, r2)"
    "made_of tab s (L1, r1) (L2, r2) (\<Union>(a, cs) \<in> set es. lex_moves (D r) (skips tab r) x a (set cs))"
    unfolding same by blast
  from made_of_trans [OF Cons.prems(1) 1(2) 2(2)] 1(1) 2(1) e show ?case by auto
qed

lemma lex_moves_union:
  assumes "finite (dom m)" and "\<And>k cs c. m k = Some cs \<Longrightarrow> c \<in> set cs \<Longrightarrow> olabel c = k"
    and T: "\<And>c. c \<in> T \<longleftrightarrow> (\<exists>k cs. m k = Some cs \<and> c \<in> set cs)"
  shows "(\<Union>(a, cs) \<in> set (map_entries m). lex_moves D' skip x a (set cs)) = (\<Union>k. lex_moves D' skip x k {c \<in> T. olabel c = k})"
proof -
  have "lex_moves D' skip x k {c \<in> T. olabel c = k} = (case m k of None \<Rightarrow> {} | Some cs \<Rightarrow> lex_moves D' skip x k (set cs))" for k
  proof (cases "m k")
    case None
    then have "{c \<in> T. olabel c = k} = {}" using T assms(2) by auto
    then show ?thesis using None by (auto simp: lex_moves_def)
  next
    case (Some cs)
    have "{c \<in> T. olabel c = k} = set cs"
    proof (rule set_eqI)
      fix c show "c \<in> {c \<in> T. olabel c = k} \<longleftrightarrow> c \<in> set cs"
        using T [of c] assms(2) Some by auto
    qed
    then show ?thesis using Some by simp
  qed
  then show ?thesis using assms(1) by (auto split: option.splits) (metis option.inject option.distinct(1))+
qed

lemma compute_state_ok:
  assumes tab: "symtab_ok tab" and lex: "lexicon_ok tab L" and inv: "lex_inv r L" "ok r"
    and s: "s < length (pair_vector L)" "pair_vector L ! s = (p, k)" and x: "den r k = Some x"
    and out: "outputs_valid tab r" and eps: "valid_number tab epsilon_number"
  shows "\<exists>L' r'. compute_state V tab s True (L, r) = Inr (L', r') \<and>
     made_of tab s (L, r) (L', r') (ci_moves (D r) (lex_arcs L) (skips tab r) p x)"
proof -
  have p: "p < ci_size L" using inv(1) nth_mem [OF s(1)] s(2) unfolding lex_inv_def by force
  let ?m = "transition_maps L ! p"
  have m: "finite (dom ?m)" "\<And>k cs. ?m k = Some cs \<Longrightarrow> valid_number tab k"
    "\<And>k cs c. ?m k = Some cs \<Longrightarrow> c \<in> set cs \<Longrightarrow> olabel c = k \<and> valid_number tab (ilabel c) \<and> ci_target c < ci_size L"
    using lex p unfolding lexicon_ok_def by blast+
  have "\<exists>L' r'. rfold (compute_symbol V tab s k True) (map_entries ?m) (L, r) = Inr (L', r') \<and>
      made_of tab s (L, r) (L', r') (\<Union>(a, cs) \<in> set (map_entries ?m). lex_moves (D r) (skips tab r) x a (set cs))"
    by (rule compute_symbols_ok [OF tab inv s(1) x out]) (use m in auto)
  then obtain L1 r1 where 1: "rfold (compute_symbol V tab s k True) (map_entries ?m) (L, r) = Inr (L1, r1)"
    "made_of tab s (L, r) (L1, r1) (\<Union>(a, cs) \<in> set (map_entries ?m). lex_moves (D r) (skips tab r) x a (set cs))" by blast
  have "(\<Union>(a, cs) \<in> set (map_entries ?m). lex_moves (D r) (skips tab r) x a (set cs)) =
      (\<Union>k. lex_moves (D r) (skips tab r) x k {c \<in> lex_arcs L p. olabel c = k})"
    by (rule lex_moves_union) (use m in \<open>auto simp: lex_arcs_def\<close>)
  note made = 1(2) [unfolded this]
  have n1: "ok r1" "ext r r1" "lex_inv r1 L1" "lex_le L L1" using made by (simp_all add: made_of_def)
  have "s < length (pair_vector L1)" using s(1) n1(4) by (auto simp: lex_le_def)
  moreover have "outputs_valid tab r1" using out ext_outputs [OF n1(2)] by simp
  moreover have "p < ci_size L1" using p lex_size [OF n1(4)] by simp
  ultimately obtain ts r2 L2 where 2: "get_transitions_of V k epsilon_number r1 = Inr (ts, r2)"
    "rule_skip_symbol_compose tab ts p s L1 = Inr L2" "made_of tab s (L1, r1) (L2, r2) (rule_moves (D r1) p x)"
    using rule_skip_ok [OF tab n1(3,1) _ ext_den [OF n1(2) x] _ eps] by blast
  have "D r1 = D r" using ext_same [OF n1(2)] by simp
  then have "made_of tab s (L, r) (L2, r2) (ci_moves (D r) (lex_arcs L) (skips tab r) p x)"
    using made_of_trans [OF inv(1) made 2(3)] by (simp add: ci_moves_def)
  moreover have "compute_state V tab s True (L, r) = Inr (L2, r2)"
    using s p 1(1) 2(1,2) by (simp add: compute_state_def lex_get_pair_def ci_size_def)
  ultimately show ?thesis by blast
qed

section \<open>The agenda\<close>

definition all_made :: "symtab \<Rightarrow> 'r \<Rightarrow> 'w ci_lexicon \<Rightarrow> bool" where
  "all_made tab r L \<longleftrightarrow> (\<forall>s p k x. s < length (pair_vector L) \<longrightarrow> pair_vector L ! s = (p, k) \<longrightarrow> den r k = Some x \<longrightarrow>
     (\<forall>t \<in> set (transitions_of (lex_result L) s).
        \<exists>mv \<in> ci_moves (D r) (lex_arcs L) (skips tab r) p x. move_made r tab L mv t) \<and>
     (s \<notin> set (lex_agenda L) \<longrightarrow> (\<forall>mv \<in> ci_moves (D r) (lex_arcs L) (skips tab r) p x.
        \<exists>t \<in> set (transitions_of (lex_result L) s). move_made r tab L mv t)))"

lemma all_madeD:
  assumes "all_made tab r L" and "s < length (pair_vector L)" and "pair_vector L ! s = (p, k)" and "den r k = Some x"
  shows "t \<in> set (transitions_of (lex_result L) s) \<Longrightarrow>
      \<exists>mv \<in> ci_moves (D r) (lex_arcs L) (skips tab r) p x. move_made r tab L mv t"
    and "s \<notin> set (lex_agenda L) \<Longrightarrow> mv \<in> ci_moves (D r) (lex_arcs L) (skips tab r) p x \<Longrightarrow>
      \<exists>t \<in> set (transitions_of (lex_result L) s). move_made r tab L mv t"
  using assms unfolding all_made_def by blast+

lemma lex_arcs_le: "lex_le L L' \<Longrightarrow> lex_arcs L' = lex_arcs L"
  by (simp add: lex_le_def lex_arcs_def fun_eq_iff)

lemma all_made_step:
  assumes am: "all_made tab r L" and inv: "lex_inv r L" and agenda: "lex_agenda L = s # rest"
    and s: "pair_vector L ! s = (p, k)" "den r k = Some x"
    and made: "made_of tab s (L\<lparr>lex_agenda := rest\<rparr>, r) (L', r') (ci_moves (D r) (lex_arcs L) (skips tab r) p x)"
  shows "all_made tab r' L'"
  unfolding all_made_def
proof (intro allI impI)
  let ?L = "L\<lparr>lex_agenda := rest\<rparr>"
  have m: "ok r'" "ext r r'" "lex_inv r' L'" "lex_le ?L L'" using made by (simp_all add: made_of_def)
  have inv': "lex_inv r ?L" using inv agenda by (auto simp: lex_inv_def ci_size_def)
  from made obtain new where new: "covers r' tab L' new (ci_moves (D r) (lex_arcs L) (skips tab r) p x)"
    "\<And>u. transitions_of (lex_result L') u = transitions_of (lex_result L) u @ (if u = s then new else [])"
    by (auto simp: made_of_def)
  have same: "D r' = D r" "lex_arcs L' = lex_arcs L" "skips tab r' = skips tab r"
    using ext_same [OF m(2)] ext_skips [OF m(2)] lex_arcs_le [OF m(4)] by (simp_all add: lex_arcs_def fun_eq_iff)
  have mono: "move_made r tab L mv t \<Longrightarrow> move_made r' tab L' mv t" for mv t
    using move_made_mono [OF m(4) inv' m(3,2), of tab mv t] by (simp add: move_made_def)
  fix u q j y assume u: "u < length (pair_vector L')" "pair_vector L' ! u = (q, j)" "den r' j = Some y"
  have len: "length (state_vector (lex_result L)) = length (pair_vector L)" using inv by (simp add: lex_inv_def)
  have ag: "lex_agenda L' = rest @ [length (pair_vector L)..<length (pair_vector L')]"
    "\<exists>ps. pair_vector L' = pair_vector L @ ps" using m(4) by (simp_all add: lex_le_def)
  show "(\<forall>t \<in> set (transitions_of (lex_result L') u).
        \<exists>mv \<in> ci_moves (D r') (lex_arcs L') (skips tab r') q y. move_made r' tab L' mv t) \<and>
     (u \<notin> set (lex_agenda L') \<longrightarrow> (\<forall>mv \<in> ci_moves (D r') (lex_arcs L') (skips tab r') q y.
        \<exists>t \<in> set (transitions_of (lex_result L') u). move_made r' tab L' mv t))"
  proof (cases "u < length (pair_vector L)")
    case False
    then have "transitions_of (lex_result L) u = []" using len by (simp add: transitions_of_def)
    moreover have "u \<noteq> s" using False agenda inv by (auto simp: lex_inv_def)
    moreover have "u \<in> set (lex_agenda L')" using False u(1) ag(1) by simp
    ultimately show ?thesis by (simp add: new(2))
  next
    case True
    then have uL: "pair_vector L ! u = (q, j)" using u(2) ag(2) by (auto simp: nth_append)
    have "den r j \<noteq> None" using inv nth_mem [OF True] uL unfolding lex_inv_def by force
    then have y: "den r j = Some y" using ext_den [OF m(2)] u(3) by auto
    note old = all_madeD [OF am True uL y]
    show ?thesis
    proof (cases "u = s")
      case True
      with s uL y have e: "q = p" "y = x" by auto
      show ?thesis
      proof (intro conjI impI ballI)
        fix t assume "t \<in> set (transitions_of (lex_result L') u)"
        then have "t \<in> set (transitions_of (lex_result L) u) \<or> t \<in> set new" by (auto simp: new(2) split: if_splits)
        then show "\<exists>mv \<in> ci_moves (D r') (lex_arcs L') (skips tab r') q y. move_made r' tab L' mv t"
          using old(1) mono new(1) unfolding same e covers_def by blast
      next
        fix mv assume "mv \<in> ci_moves (D r') (lex_arcs L') (skips tab r') q y"
        then have "\<exists>t \<in> set new. move_made r' tab L' mv t" using new(1) unfolding same e covers_def by blast
        then show "\<exists>t \<in> set (transitions_of (lex_result L') u). move_made r' tab L' mv t" using True by (auto simp: new(2))
      qed
    next
      case False
      then have "u \<notin> set (lex_agenda L') \<Longrightarrow> u \<notin> set (lex_agenda L)" using ag(1) agenda by auto
      with old mono False show ?thesis unfolding same new(2) by (simp only: if_False append_Nil2) blast
    qed
  qed
qed

lemma pairs_le:
  assumes "lex_inv r L" and "ok r"
  shows "length (pair_vector L) \<le> ci_size L * card (X r)"
proof -
  let ?f = "\<lambda>q. (fst q, the (den r (snd q)))"
  have den: "fst q < ci_size L \<and> (\<exists>x. den r (snd q) = Some x)" if "q \<in> set (pair_vector L)" for q
    using that assms(1) unfolding lex_inv_def by blast
  have "inj_on ?f (set (pair_vector L))"
  proof (rule inj_onI)
    fix q q' assume q: "q \<in> set (pair_vector L)" "q' \<in> set (pair_vector L)" "?f q = ?f q'"
    from den [OF q(1)] den [OF q(2)] q(3) have "fst q = fst q'" "snd q = snd q'"
      using den_inj [OF assms(2), of "snd q" _ "snd q'"] by auto
    then show "q = q'" by (rule prod_eqI)
  qed
  moreover have "?f ` set (pair_vector L) \<subseteq> {..<ci_size L} \<times> X r"
  proof
    fix z assume "z \<in> ?f ` set (pair_vector L)"
    then obtain q where q: "q \<in> set (pair_vector L)" "z = ?f q" by blast
    from den [OF q(1)] q(2) show "z \<in> {..<ci_size L} \<times> X r" by (auto dest: den_in)
  qed
  ultimately have "card (set (pair_vector L)) \<le> card ({..<ci_size L} \<times> X r)"
    using finite_X by (intro card_inj_on_le) auto
  then show ?thesis using distinct_card [OF lex_card(2) [OF assms(1)]] by (simp add: card_cartesian_product)
qed

definition same_maps :: "'w ci_lexicon \<Rightarrow> 'w ci_lexicon \<Rightarrow> bool" where
  "same_maps L L' \<longleftrightarrow> transition_maps L' = transition_maps L \<and> finality L' = finality L"

lemma same_mapsD:
  assumes "same_maps L L'"
  shows "ci_size L' = ci_size L" and "lexicon_ok tab L' \<longleftrightarrow> lexicon_ok tab L" and "lex_arcs L' = lex_arcs L"
  using assms by (simp_all add: same_maps_def ci_size_def lexicon_ok_def lex_arcs_def fun_eq_iff)

lemma compute_agenda_ok:
  assumes tab: "symtab_ok tab" and eps: "valid_number tab epsilon_number"
  shows "lexicon_ok tab L \<Longrightarrow> ok r \<Longrightarrow> lex_inv r L \<Longrightarrow> outputs_valid tab r \<Longrightarrow> all_made tab r L \<Longrightarrow>
     \<exists>L' r'. compute_agenda V tab (L, r) = Some (Inr (L', r')) \<and> ok r' \<and> ext r r' \<and> lex_inv r' L' \<and>
       all_made tab r' L' \<and> lex_agenda L' = [] \<and> same_maps L L'"
proof (induction "ci_size L * card (X r) + length (lex_agenda L) - length (pair_vector L)" arbitrary: L r rule: less_induct)
  case less
  show ?case
  proof (cases "lex_agenda L")
    case Nil
    then have "compute_agenda V tab (L, r) = Some (Inr (L, r))" by (subst compute_agenda.simps) simp
    with Nil less.prems ext_refl show ?thesis by (auto simp: same_maps_def)
  next
    case (Cons s rest)
    let ?L = "L\<lparr>lex_agenda := rest\<rparr>"
    have inv: "lex_inv r ?L" using less.prems(3) Cons by (auto simp: lex_inv_def ci_size_def)
    have s: "s < length (pair_vector L)" "s \<in> lexicon_non_epsilon_states L"
      using less.prems(3) Cons unfolding lex_inv_def by auto
    obtain p k where pk: "pair_vector L ! s = (p, k)" by (cases "pair_vector L ! s")
    have "den r k \<noteq> None" using less.prems(3) nth_mem [OF s(1)] pk unfolding lex_inv_def by force
    then obtain x where x: "den r k = Some x" by blast
    have lex: "lexicon_ok tab ?L" using less.prems(1) by (simp add: lexicon_ok_def ci_size_def)
    have arcs: "lex_arcs ?L = lex_arcs L" by (simp add: lex_arcs_def fun_eq_iff)
    from compute_state_ok [OF tab lex inv less.prems(2) _ _ x less.prems(4) eps, of s p] s(1) pk
    obtain L1 r1 where 1: "compute_state V tab s True (?L, r) = Inr (L1, r1)"
      "made_of tab s (?L, r) (L1, r1) (ci_moves (D r) (lex_arcs L) (skips tab r) p x)" by (auto simp: arcs)
    then have m: "ok r1" "ext r r1" "lex_inv r1 L1" "lex_le ?L L1" by (simp_all add: made_of_def)
    have am: "all_made tab r1 L1" by (rule all_made_step [OF less.prems(5,3) Cons pk x 1(2)])
    have maps: "same_maps L L1" using m(4) by (simp add: same_maps_def lex_le_def)
    have size: "ci_size L1 = ci_size L" "X r1 = X r" using same_mapsD(1) [OF maps] ext_same [OF m(2)] by simp_all
    have call: "compute_agenda V tab (L, r) = compute_agenda V tab (L1, r1)"
      using Cons 1(1) s(2) by (subst compute_agenda.simps) (simp add: can_have_lexicon_epsilons_def)
    have "distinct (lex_agenda L)" "set (lex_agenda L) \<subseteq> {..<length (pair_vector L)}"
      using less.prems(3) by (simp_all add: lex_inv_def)
    then have "length (lex_agenda L) \<le> length (pair_vector L)"
      using card_mono [of "{..<length (pair_vector L)}" "set (lex_agenda L)"] by (simp add: distinct_card)
    moreover have "length (lex_agenda L1) + length (pair_vector L) + 1 = length (lex_agenda L) + length (pair_vector L1)"
      using m(4) Cons by (auto simp: lex_le_def)
    moreover have "length (pair_vector L1) \<le> ci_size L * card (X r)" using pairs_le [OF m(3,1)] size by simp
    moreover have "length (lex_agenda L1) \<le> length (pair_vector L1)"
    proof -
      have "distinct (lex_agenda L1)" "set (lex_agenda L1) \<subseteq> {..<length (pair_vector L1)}"
        using m(3) by (simp_all add: lex_inv_def)
      then show ?thesis using card_mono [of "{..<length (pair_vector L1)}" "set (lex_agenda L1)"] by (simp add: distinct_card)
    qed
    ultimately have "ci_size L1 * card (X r1) + length (lex_agenda L1) - length (pair_vector L1) <
        ci_size L * card (X r) + length (lex_agenda L) - length (pair_vector L)" using Cons size by simp
    moreover have "lexicon_ok tab L1" "outputs_valid tab r1"
      using less.prems(1,4) same_mapsD(2) [OF maps] ext_outputs [OF m(2)] by simp_all
    ultimately obtain L2 r2 where "compute_agenda V tab (L1, r1) = Some (Inr (L2, r2))" "ok r2" "ext r1 r2"
      "lex_inv r2 L2" "all_made tab r2 L2" "lex_agenda L2 = []" "same_maps L1 L2"
      using less.hyps [of L1 r1] m(1,3) am by blast
    with call ext_trans [OF m(2)] maps show ?thesis by (auto simp: same_maps_def)
  qed
qed

section \<open>Final weights\<close>

text \<open>The final weight of a state of the result.\<close>

definition pair_weight :: "'r \<Rightarrow> 'w ci_lexicon \<Rightarrow> nat \<Rightarrow> 'w option" where
  "pair_weight r L s = add_weights (finality L ! fst (pair_vector L ! s)) (F r (the (den r (snd (pair_vector L ! s)))))"

lemma set_final_ok:
  assumes lex: "lexicon_ok tab L" and inv: "lex_inv r L" "ok r" and small: "length (pair_vector L) \<le> 4294967296"
  shows "\<exists>L'. set_final_state_weights V r L = Inr L' \<and> wf_hbt (lex_result L') \<and>
     transitions_of (lex_result L') = transitions_of (lex_result L) \<and>
     (\<forall>s. final_weight_map (lex_result L') s = (if s < length (pair_vector L) then pair_weight r L s else None))"
proof -
  let ?step = "\<lambda>s L. rbind (ci_final_weight (fst (pair_vector L ! s)) L) (\<lambda>lexicon_weight.
       rbind (final_weight_of V (snd (pair_vector L ! s)) r) (\<lambda>rules_weight.
         case (lexicon_weight, rules_weight) of
           (Some w1, Some w2) \<Rightarrow>
             rmap (\<lambda>n. L\<lparr>lex_result := set_final_weight n (w1 + w2) (lex_result L)\<rparr>) (size_t_to_uint s)
         | _ \<Rightarrow> Inr L))"
  have "n \<le> length (pair_vector L) \<Longrightarrow> \<exists>g. rfold ?step [0..<n] L = Inr (L\<lparr>lex_result := g\<rparr>) \<and> wf_hbt g \<and>
      transitions_of g = transitions_of (lex_result L) \<and> length (state_vector g) = length (pair_vector L) \<and>
      (\<forall>s. final_weight_map g s = (if s < n then pair_weight r L s else None))" for n
  proof (induction n)
    case 0
    show ?case using inv(1) by (intro exI [of _ "lex_result L"]) (simp add: lex_inv_def)
  next
    case (Suc n)
    then obtain g where g: "rfold ?step [0..<n] L = Inr (L\<lparr>lex_result := g\<rparr>)" "wf_hbt g"
      "transitions_of g = transitions_of (lex_result L)" "length (state_vector g) = length (pair_vector L)"
      "\<And>s. final_weight_map g s = (if s < n then pair_weight r L s else None)" by auto
    obtain p k where pk: "pair_vector L ! n = (p, k)" by (cases "pair_vector L ! n")
    have pd: "p < ci_size L" "den r k \<noteq> None"
      using inv(1) nth_mem [of n "pair_vector L"] Suc.prems pk unfolding lex_inv_def by force+
    then obtain x where x: "den r k = Some x" by blast
    have w1: "ci_final_weight p (L\<lparr>lex_result := g\<rparr>) = Inr (finality L ! p)"
      using lex pd(1) by (simp add: ci_final_weight_def lexicon_ok_def ci_size_def)
    have w2: "final_weight_of V k r = Inr (F r x)" by (rule final [OF inv(2) x])
    have u: "size_t_to_uint n = Inr n" using Suc.prems small by (simp add: size_t_to_uint_def)
    have pw: "pair_weight r L n = add_weights (finality L ! p) (F r x)" using pk x by (simp add: pair_weight_def)
    show ?case
    proof (cases "pair_weight r L n")
      case None
      then have "?step n (L\<lparr>lex_result := g\<rparr>) = Inr (L\<lparr>lex_result := g\<rparr>)"
        using w1 w2 pw pk by (cases "finality L ! p"; cases "F r x") auto
      with g None show ?thesis by (intro exI [of _ g]) (auto simp: rfold_append less_Suc_eq)
    next
      case (Some w)
      let ?g = "set_final_weight n w g"
      have "?step n (L\<lparr>lex_result := g\<rparr>) = Inr (L\<lparr>lex_result := ?g\<rparr>)"
      proof -
        from Some pw obtain f1 f2 where "finality L ! p = Some f1" "F r x = Some f2" "w = f1 + f2"
          by (auto simp: add_weights_Some)
        with w1 w2 pk u show ?thesis by simp
      qed
      moreover have "transitions_of ?g = transitions_of g" by (rule ext) (rule set_final_weight_simps(2))
      ultimately show ?thesis using g Some Suc.prems
        by (intro exI [of _ ?g]) (auto simp: rfold_append set_final_weight_wf_hbt set_final_weight_simps less_Suc_eq)
    qed
  qed
  from this [of "length (pair_vector L)"] show ?thesis by (auto simp: set_final_state_weights_def)
qed

section \<open>The runs of the result\<close>

definition symbols_of :: "symtab \<Rightarrow> nat \<times> nat \<Rightarrow> string_pair" where
  "symbols_of tab ib = (symbol_of tab (fst ib), symbol_of tab (snd ib))"

definition stands_at :: "'r \<Rightarrow> 'w ci_lexicon \<Rightarrow> nat \<Rightarrow> nat \<Rightarrow> 'x \<Rightarrow> bool" where
  "stands_at r L s p x \<longleftrightarrow> s < length (pair_vector L) \<and> fst (pair_vector L ! s) = p \<and> den r (snd (pair_vector L ! s)) = Some x"

lemma made_stands:
  "lex_inv r L \<Longrightarrow> move_made r tab L (i, b, w, q, y) t \<Longrightarrow>
     stands_at r L (tr_target t) q y \<and> tr_label t = symbols_of tab (i, b) \<and> tr_weight t = w"
  using lex_inv_map [of r L] by (auto simp: move_made_def stands_at_def symbols_of_def)

lemma stands_pair: "stands_at r L s p x \<Longrightarrow> pair_vector L ! s = (p, snd (pair_vector L ! s)) \<and> s < length (pair_vector L) \<and>
    den r (snd (pair_vector L ! s)) = Some x"
  by (cases "pair_vector L ! s") (auto simp: stands_at_def)

lemma composed_path_sound:
  assumes inv: "lex_inv r L" and am: "all_made tab r L"
  shows "path (lex_result L) s us e \<Longrightarrow> stands_at r L s p x \<Longrightarrow>
     \<exists>ns q y. ci_run (D r) (lex_arcs L) (skips tab r) p x ns (path_weight us) q y \<and> stands_at r L e q y \<and>
       map tr_label us = map (symbols_of tab) ns"
proof (induction us arbitrary: s p x)
  case Nil
  then show ?case by (intro exI [of _ "[]"] exI [of _ p] exI [of _ x]) (auto intro: ci_run.stop)
next
  case (Cons t us)
  then have t: "t \<in> set (transitions_of (lex_result L) s)" "path (lex_result L) (tr_target t) us e" by simp_all
  note sp = stands_pair [OF Cons.prems(2)]
  from all_madeD(1) [OF am _ _ _ t(1)] sp obtain mv where mv: "mv \<in> ci_moves (D r) (lex_arcs L) (skips tab r) p x"
    "move_made r tab L mv t" by blast
  obtain i b w q y where e: "mv = (i, b, w, q, y)" by (cases mv)
  note m = made_stands [OF inv mv(2) [unfolded e]]
  from Cons.IH [OF t(2)] m obtain ns q' y' where IH:
    "ci_run (D r) (lex_arcs L) (skips tab r) q y ns (path_weight us) q' y'" "stands_at r L e q' y'"
    "map tr_label us = map (symbols_of tab) ns" by blast
  have "ci_run (D r) (lex_arcs L) (skips tab r) p x ((i, b) # ns) (w + path_weight us) q' y'"
    using mv(1) IH(1) unfolding e by (rule ci_run.step)
  with IH(2,3) m show ?case by (intro exI [of _ "(i, b) # ns"] exI [of _ q'] exI [of _ y']) simp
qed

lemma composed_path_complete:
  assumes inv: "lex_inv r L" and am: "all_made tab r L" and empty: "lex_agenda L = []"
  shows "ci_run (D r) (lex_arcs L) (skips tab r) p x ns v q y \<Longrightarrow> stands_at r L s p x \<Longrightarrow>
     \<exists>us e. path (lex_result L) s us e \<and> stands_at r L e q y \<and> map tr_label us = map (symbols_of tab) ns \<and> path_weight us = v"
proof (induction arbitrary: s rule: ci_run.induct)
  case (stop p x)
  then show ?case by (intro exI [of _ "[]"] exI [of _ s]) simp
next
  case (step i b w q y p x ps v p' x')
  note sp = stands_pair [OF step.prems]
  have "s \<notin> set (lex_agenda L)" by (simp add: empty)
  from all_madeD(2) [OF am _ _ _ this step.hyps(1)] sp obtain t where
    t: "t \<in> set (transitions_of (lex_result L) s)" "move_made r tab L (i, b, w, q, y) t" by blast
  note m = made_stands [OF inv t(2)]
  from step.IH m obtain us e where "path (lex_result L) (tr_target t) us e" "stands_at r L e p' x'"
    "map tr_label us = map (symbols_of tab) ps" "path_weight us = v" by blast
  with t(1) m show ?case by (intro exI [of _ "t # us"] exI [of _ e]) simp
qed

lemma compose_start:
  assumes "0 < ci_size L" and "den r 0 = Some x0"
  shows "\<exists>L1. map_state_and_add_to_agenda (0, 0) True (clear_all_info L) = Inr (0, L1) \<and> lex_inv r L1 \<and>
     all_made tab r L1 \<and> same_maps L L1 \<and> stands_at r L1 0 0 x0"
proof -
  let ?L = "L\<lparr>lex_result := new_hbt, state_pair_map := [(0, 0) \<mapsto> 0], pair_vector := [(0, 0)], lex_agenda := [0],
     lexicon_non_epsilon_states := insert 0 (lexicon_non_epsilon_states L)\<rparr>"
  have "map_state_and_add_to_agenda (0, 0) True (clear_all_info L) = Inr (0, ?L)"
    by (simp add: map_state_and_add_to_agenda_def clear_all_info_def Let_def)
  moreover have "lex_inv r ?L" using assms by (auto simp: lex_inv_def ci_size_def split: if_splits)
  moreover have "all_made tab r ?L" by (auto simp: all_made_def)
  moreover have "same_maps L ?L" "stands_at r ?L 0 0 x0" using assms(2) by (simp_all add: same_maps_def stands_at_def)
  ultimately show ?thesis by blast
qed

lemma compose_ok:
  assumes tab: "symtab_ok tab" and eps: "valid_number tab epsilon_number" and lex: "lexicon_ok tab L"
    and r: "ok r" "den r 0 = Some x0" "outputs_valid tab r" and small: "ci_size L * card (X r) \<le> 4294967296"
  shows "\<exists>g. compose_with_rules V tab L r = Some (Inr g) \<and> wf_hbt g \<and>
     (\<forall>ps w. weighted_accepts g ps w \<longleftrightarrow> (\<exists>ns v p x f. ci_run (D r) (lex_arcs L) (skips tab r) 0 x0 ns v p x \<and>
        ps = map (symbols_of tab) ns \<and> add_weights (finality L ! p) (F r x) = Some f \<and> w = v + f))"
proof -
  have "0 < ci_size L" using lex by (simp add: lexicon_ok_def)
  from compose_start [OF this r(2), of tab] obtain L1 where
    1: "map_state_and_add_to_agenda (0, 0) True (clear_all_info L) = Inr (0, L1)" "lex_inv r L1" "all_made tab r L1"
      "same_maps L L1" "stands_at r L1 0 0 x0" by blast
  have "lexicon_ok tab L1" using lex same_mapsD(2) [OF 1(4)] by simp
  from compute_agenda_ok [OF tab eps this r(1) 1(2) r(3) 1(3)] obtain L2 r2 where
    2: "compute_agenda V tab (L1, r) = Some (Inr (L2, r2))" "ok r2" "ext r r2" "lex_inv r2 L2" "all_made tab r2 L2"
      "lex_agenda L2 = []" "same_maps L1 L2" by blast
  have maps: "same_maps L L2" using 1(4) 2(7) by (simp add: same_maps_def)
  have same: "D r2 = D r" "F r2 = F r" "X r2 = X r" "skips tab r2 = skips tab r" "lex_arcs L2 = lex_arcs L"
    "finality L2 = finality L" "ci_size L2 = ci_size L"
    using ext_same [OF 2(3)] ext_skips [OF 2(3)] same_mapsD [OF maps] maps by (simp_all add: same_maps_def)
  have "length (pair_vector L2) \<le> 4294967296" using pairs_le [OF 2(4,2)] small same by simp
  moreover have "lexicon_ok tab L2" using lex same_mapsD(2) [OF maps] by simp
  ultimately obtain L3 where 3: "set_final_state_weights V r2 L2 = Inr L3" "wf_hbt (lex_result L3)"
    "transitions_of (lex_result L3) = transitions_of (lex_result L2)"
    "\<And>s. final_weight_map (lex_result L3) s = (if s < length (pair_vector L2) then pair_weight r2 L2 s else None)"
    using set_final_ok [OF _ 2(4,2)] by blast
  have "pair_vector L2 ! 0 = (0, 0)" "pair_vector L2 \<noteq> []" "den r2 0 = Some x0"
    using 2(4) ext_den [OF 2(3) r(2)] by (simp_all add: lex_inv_def)
  then have start: "stands_at r2 L2 0 0 x0" by (simp add: stands_at_def)
  have fin: "final_weight_map (lex_result L3) s = add_weights (finality L ! p) (F r x)" if "stands_at r2 L2 s p x" for s p x
    using that 3(4) [of s] same by (auto simp: stands_at_def pair_weight_def)
  have "path (lex_result L3) s us e \<longleftrightarrow> path (lex_result L2) s us e" for s us e by (rule path_cong [OF 3(3)])
  note path = this
  have "weighted_accepts (lex_result L3) ps w \<longleftrightarrow> (\<exists>ns v p x f. ci_run (D r) (lex_arcs L) (skips tab r) 0 x0 ns v p x \<and>
        ps = map (symbols_of tab) ns \<and> add_weights (finality L ! p) (F r x) = Some f \<and> w = v + f)" for ps w
  proof
    assume "weighted_accepts (lex_result L3) ps w"
    then obtain us e fw where us: "path (lex_result L2) 0 us e" "final_weight_map (lex_result L3) e = Some fw"
      "ps = map tr_label us" "w = path_weight us + fw" by (auto simp: weighted_accepts_def path)
    from composed_path_sound [OF 2(4,5) us(1) start] obtain ns q y where
      "ci_run (D r2) (lex_arcs L2) (skips tab r2) 0 x0 ns (path_weight us) q y" "stands_at r2 L2 e q y"
      "map tr_label us = map (symbols_of tab) ns" by blast
    with us fin show "\<exists>ns v p x f. ci_run (D r) (lex_arcs L) (skips tab r) 0 x0 ns v p x \<and>
        ps = map (symbols_of tab) ns \<and> add_weights (finality L ! p) (F r x) = Some f \<and> w = v + f"
      unfolding same by metis
  next
    assume "\<exists>ns v p x f. ci_run (D r) (lex_arcs L) (skips tab r) 0 x0 ns v p x \<and>
        ps = map (symbols_of tab) ns \<and> add_weights (finality L ! p) (F r x) = Some f \<and> w = v + f"
    then obtain ns v p x f where run: "ci_run (D r2) (lex_arcs L2) (skips tab r2) 0 x0 ns v p x"
      "ps = map (symbols_of tab) ns" "add_weights (finality L ! p) (F r x) = Some f" "w = v + f" unfolding same by blast
    from composed_path_complete [OF 2(4,5,6) run(1) start] obtain us e where
      "path (lex_result L2) 0 us e" "stands_at r2 L2 e p x" "map tr_label us = map (symbols_of tab) ns" "path_weight us = v"
      by blast
    with run fin show "weighted_accepts (lex_result L3) ps w" unfolding weighted_accepts_def path by metis
  qed
  moreover have "compose_with_rules V tab L r = Some (Inr (lex_result L3))"
    using 1(1) 2(1) 3(1) by (simp add: compose_with_rules_def)
  ultimately show ?thesis using 3(2) by blast
qed

end

lemma rule_known_symbol_defined:
  assumes "get_symbol a tab = Inr z" and "a \<le> 4294967295"
  shows "\<exists>b. rule_known_symbol a tab r = Inr b"
  using assms by (cases r) (auto simp: known_symbol_def size_t_to_uint_def)

interpretation composed: composed_rule rule_functions rule_ok rule_ext denote delta rule_final rule_states
proof
  fix r :: "('a::{linorder, monoid_add}) rule" and r' s x a
  show "rule_ok r \<Longrightarrow> denote r s = Some x \<Longrightarrow> \<exists>ts r'. get_transitions_of rule_functions s a r = Inr (ts, r') \<and>
      rule_ok r' \<and> rule_ext r r' \<and> represents (denote r') ts a (delta r x a)"
    using rule_get_transitions_ok by (simp add: rule_functions_def)
  show "rule_ok r \<Longrightarrow> denote r s = Some x \<Longrightarrow> final_weight_of rule_functions s r = Inr (rule_final r x)"
    using rule_final_weight_ok by (simp add: rule_functions_def)
qed (use rule_known_symbol_defined rule_ext_refl rule_ext_trans denote_inj denote_in in
    \<open>simp_all add: rule_functions_def rule_ext_def\<close>)

end
