(* ===== verification/ComposeIntersect.thy ===== *)
theory ComposeIntersect
  imports ComposeLexicon
begin

text \<open>
  Composing a lexicon with rules, as \<open>HfstTransducer::compose_intersect\<close> puts it together from the
  classes of \<open>compose_intersect\<close>: the rules become a chain of pairs, the lexicon is composed with
  it. Shown: over graphs, the result accepts exactly the runs of the lexicon with all rules in
  parallel, with their weights; and which flag diacritics of the lexicon the rules see.
\<close>

section \<open>The chain of rules\<close>

text \<open>The rules are graphs; the facade has converted and, if asked to, inverted them before.\<close>

definition build_rules :: "'w::{linorder, zero} hbt list \<Rightarrow> symtab \<Rightarrow> ('w rule \<times> symtab) result" where
  "build_rules v tab =
     rbind (rbind (vec_at v 0) (\<lambda>t. ci_rule_new t tab)) (\<lambda>(first_rule, tab1).
       if length v = 1 then Inr (Rule first_rule, tab1)
       else rbind (rbind (vec_at v 1) (\<lambda>t. ci_rule_new t tab1)) (\<lambda>(second_rule, tab2).
         rfold (\<lambda>t (rules, tab3). rmap (\<lambda>(r, tab4). (rule_pair_new (Rule r) rules, tab4)) (ci_rule_new t tab3))
           (drop 2 v) (rule_pair_new (Rule first_rule) (Rule second_rule), tab2)))"

definition compose_lexicon_with ::
  "'w::{linorder, monoid_add} hbt \<Rightarrow> 'w hbt list \<Rightarrow> symtab \<Rightarrow> 'w hbt result option" where
  "compose_lexicon_with lexicon v tab =
     (case build_rules v tab of
        Inl e \<Rightarrow> Some (Inl e)
      | Inr (rules, tab1) \<Rightarrow> (case ci_lexicon_new lexicon tab1 of
          Inl e \<Rightarrow> Some (Inl e)
        | Inr (L, tab2) \<Rightarrow> compose_with_rules rule_functions tab2 L rules))"

section \<open>Runs over graphs\<close>

text \<open>What a rule reads: a transition with the symbol, or identity for a symbol it does not know.\<close>

definition rule_reads :: "'w hbt \<Rightarrow> nat \<Rightarrow> string \<Rightarrow> string \<Rightarrow> 'w \<Rightarrow> nat \<Rightarrow> bool" where
  "rule_reads g q a b w q' \<longleftrightarrow>
     (\<exists>t \<in> set (transitions_of g q). tr_input t \<noteq> internal_identity \<and> tr_label t = (a, b) \<and> tr_weight t = w \<and> tr_target t = q') \<or>
     a \<notin> alphabet g \<and> a = b \<and>
       (\<exists>t \<in> set (transitions_of g q). tr_input t = internal_identity \<and> tr_weight t = w \<and> tr_target t = q')"

text \<open>All rules read the same pair.\<close>

fun rules_read :: "'w::monoid_add hbt list \<Rightarrow> nat list \<Rightarrow> string \<Rightarrow> string \<Rightarrow> 'w \<Rightarrow> nat list \<Rightarrow> bool" where
  "rules_read (g # gs) (q # qs) a b w (q' # qs') \<longleftrightarrow>
     (\<exists>w1 w2. rule_reads g q a b w1 q' \<and> rules_read gs qs a b w2 qs' \<and> w = w1 + w2)"
| "rules_read gs qs a b w qs' \<longleftrightarrow> gs = [] \<and> qs = [] \<and> qs' = [] \<and> w = 0"

fun rules_final :: "'w::monoid_add hbt list \<Rightarrow> nat list \<Rightarrow> 'w option" where
  "rules_final (g # gs) (q # qs) = add_weights (final_weight_map g q) (rules_final gs qs)"
| "rules_final gs qs = Some 0"

text \<open>The flag diacritics in the alphabet of a single rule are seen by it; a pair sees none.\<close>

definition lexicon_alone :: "'w hbt list \<Rightarrow> string \<Rightarrow> bool" where
  "lexicon_alone v z \<longleftrightarrow> z = internal_epsilon \<or>
     is_diacritic z \<and> (case v of [g] \<Rightarrow> z \<notin> alphabet g | _ \<Rightarrow> True)"

text \<open>A lexicon transition that reads identity is left out, as in the code, which drops it; \<open>HfstTransducer::compose_intersect\<close>
  replaces identity in the lexicon by a marker before.\<close>

inductive compose_step ::
  "'w::monoid_add hbt \<Rightarrow> 'w hbt list \<Rightarrow> nat \<Rightarrow> nat list \<Rightarrow> string_pair \<Rightarrow> 'w \<Rightarrow> nat \<Rightarrow> nat list \<Rightarrow> bool"
  for lexicon v where
  lexicon_step: "t \<in> set (transitions_of lexicon p) \<Longrightarrow> tr_input t \<noteq> internal_identity \<Longrightarrow>
    lexicon_alone v (tr_output t) \<Longrightarrow>
    compose_step lexicon v p qs (tr_label t) (tr_weight t) (tr_target t) qs"
| both_step: "t \<in> set (transitions_of lexicon p) \<Longrightarrow> tr_input t \<noteq> internal_identity \<Longrightarrow>
    \<not> lexicon_alone v (tr_output t) \<Longrightarrow> rules_read v qs (tr_output t) b w qs' \<Longrightarrow>
    compose_step lexicon v p qs (tr_input t, b) (tr_weight t + w) (tr_target t) qs'"
| rule_step: "rules_read v qs internal_epsilon b w qs' \<Longrightarrow>
    compose_step lexicon v p qs (internal_epsilon, b) w p qs'"

inductive compose_run ::
  "'w::monoid_add hbt \<Rightarrow> 'w hbt list \<Rightarrow> nat \<Rightarrow> nat list \<Rightarrow> string_pair list \<Rightarrow> 'w \<Rightarrow> nat \<Rightarrow> nat list \<Rightarrow> bool"
  for lexicon v where
  compose_stop: "compose_run lexicon v p qs [] 0 p qs"
| compose_go: "compose_step lexicon v p qs a w p' qs' \<Longrightarrow> compose_run lexicon v p' qs' ps u p'' qs'' \<Longrightarrow>
    compose_run lexicon v p qs (a # ps) (w + u) p'' qs''"

section \<open>Symbols and numbers\<close>

lemma numbered_symbol:
  assumes "symtab_ok tab"
  shows "symbol2number tab z = Some n \<longleftrightarrow> valid_number tab n \<and> symbol_of tab n = z"
  using assms unfolding symtab_ok_def valid_number_def symbol_of_def by blast

text \<open>Where the rule is and what it reads, by numbers and by symbols.\<close>

definition as_numbers ::
  "symtab \<Rightarrow> (nat \<Rightarrow> nat \<Rightarrow> 'w \<Rightarrow> 'x \<Rightarrow> bool) \<Rightarrow> (string \<Rightarrow> string \<Rightarrow> 'w \<Rightarrow> 'x \<Rightarrow> bool) \<Rightarrow> bool" where
  "as_numbers tab A S \<longleftrightarrow> (\<forall>z a b w y. symbol2number tab z = Some a \<longrightarrow>
     A a b w y = (\<exists>u. symbol2number tab u = Some b \<and> S z u w y))"

lemma alphabet_image:
  assumes "symtab_ok tab" and "alphabet g \<subseteq> dom (symbol2number tab)" and "symbol2number tab z = Some a"
  shows "a \<in> (\<lambda>s. the (symbol2number tab s)) ` alphabet g \<longleftrightarrow> z \<in> alphabet g"
proof
  assume "a \<in> (\<lambda>s. the (symbol2number tab s)) ` alphabet g"
  then obtain s where s: "s \<in> alphabet g" "a = the (symbol2number tab s)" by blast
  with assms(2) have "symbol2number tab s = Some a" by auto
  with symtab_number_inj [OF assms(1) assms(3)] s(1) show "z \<in> alphabet g" by simp
next
  assume "z \<in> alphabet g"
  with assms(3) show "a \<in> (\<lambda>s. the (symbol2number tab s)) ` alphabet g" by force
qed

lemma tr_label_numbers:
  assumes "symtab_ok tab" and "numbered tab t" and "symbol2number tab z = Some a"
  shows "tr_input_number tab t = a \<and> tr_output_number tab t = b \<longleftrightarrow>
     (\<exists>u. symbol2number tab u = Some b \<and> tr_label t = (z, u))"
proof -
  have n: "symbol2number tab (tr_input t) = Some (tr_input_number tab t)"
    "symbol2number tab (tr_output t) = Some (tr_output_number tab t)" using tr_numbers [OF assms(2)] by blast+
  have "tr_input_number tab t = a \<longleftrightarrow> tr_input t = z"
    using symtab_number_inj [OF assms(1,3), of "tr_input t"] n(1) assms(3) by auto
  moreover have "tr_output_number tab t = b \<longleftrightarrow> symbol2number tab (tr_output t) = Some b" using n(2) by simp
  ultimately show ?thesis unfolding tr_label_def by blast
qed

lemma ex_read:
  "A \<longleftrightarrow> (\<exists>u. N u \<and> B u) \<Longrightarrow> E \<longleftrightarrow> (\<exists>u. N u \<and> z = u) \<Longrightarrow>
     (A \<or> C \<and> E \<and> F) \<longleftrightarrow> (\<exists>u. N u \<and> (B u \<or> C \<and> z = u \<and> F))"
  by blast

lemma rule_arc_reads:
  fixes g :: "'w hbt"
  assumes "symtab_ok tab" and "all_numbered tab g" and "alphabet g \<subseteq> dom (symbol2number tab)"
  shows "as_numbers tab (rule_arc tab g q) (rule_reads g q)"
  unfolding as_numbers_def
proof (intro allI impI)
  fix z a b w q' assume z: "symbol2number tab z = Some a"
  let ?T = "set (transitions_of g q)" and ?P = "\<lambda>t :: 'w transition. tr_input t \<noteq> internal_identity"
  let ?Q = "\<lambda>t :: 'w transition. tr_weight t = w \<and> tr_target t = q'"
  have lab: "tr_input_number tab t = a \<and> tr_output_number tab t = b \<longleftrightarrow>
      (\<exists>u. symbol2number tab u = Some b \<and> tr_label t = (z, u))" if "t \<in> ?T" for t
    by (rule tr_label_numbers [OF assms(1) all_numbered_at [OF assms(2) that] z])
  have "(\<exists>t \<in> ?T. ?P t \<and> tr_input_number tab t = a \<and> tr_output_number tab t = b \<and> ?Q t) \<longleftrightarrow>
      (\<exists>t \<in> ?T. ?P t \<and> (tr_input_number tab t = a \<and> tr_output_number tab t = b) \<and> ?Q t)" by simp
  also have "\<dots> \<longleftrightarrow> (\<exists>t \<in> ?T. ?P t \<and> (\<exists>u. symbol2number tab u = Some b \<and> tr_label t = (z, u)) \<and> ?Q t)"
    by (rule bex_cong [OF refl]) (simp only: lab)
  also have "\<dots> \<longleftrightarrow> (\<exists>u. symbol2number tab u = Some b \<and> (\<exists>t \<in> ?T. ?P t \<and> tr_label t = (z, u) \<and> ?Q t))" by blast
  finally have "(\<exists>t \<in> ?T. ?P t \<and> tr_input_number tab t = a \<and> tr_output_number tab t = b \<and> ?Q t) \<longleftrightarrow>
      (\<exists>u. symbol2number tab u = Some b \<and> (\<exists>t \<in> ?T. ?P t \<and> tr_label t = (z, u) \<and> ?Q t))" .
  moreover have "a = b \<longleftrightarrow> (\<exists>u. symbol2number tab u = Some b \<and> z = u)" using z by auto
  ultimately show "rule_arc tab g q a b w q' \<longleftrightarrow> (\<exists>u. symbol2number tab u = Some b \<and> rule_reads g q z u w q')"
    unfolding rule_arc_def rule_reads_def reads_identity_def alphabet_image [OF assms(1,3) z] conj_assoc Bex_def
    by (rule ex_read)
qed


section \<open>What the chain means\<close>

fun leaves :: "rule_state \<Rightarrow> nat list" where
  "leaves (Leaf q) = [q]"
| "leaves (Fork x y) = leaves x @ leaves y"

definition in_graphs :: "'w hbt list \<Rightarrow> nat list \<Rightarrow> bool" where
  "in_graphs gs qs \<longleftrightarrow> list_all2 (\<lambda>g q. q < length (state_vector g)) gs qs"

text \<open>The rule stands for the graphs \<open>gs\<close>, with its states lists of their states.\<close>

definition means :: "symtab \<Rightarrow> 'w::{linorder, comm_monoid_add} hbt list \<Rightarrow> 'w rule \<Rightarrow> bool" where
  "means tab gs R \<longleftrightarrow> rule_ok R \<and> inj_on leaves (rule_states R) \<and> leaves ` rule_states R = {qs. in_graphs gs qs} \<and>
     (\<exists>x. denote R 0 = Some x \<and> leaves x = map (\<lambda>g. 0) gs) \<and>
     (\<forall>x \<in> rule_states R. rule_final R x = rules_final gs (leaves x) \<and>
        (\<forall>a b w y. delta R x a b = Some (w, y) \<longrightarrow> y \<in> rule_states R) \<and>
        as_numbers tab (\<lambda>a b w y. y \<in> rule_states R \<and> delta R x a b = Some (w, y))
          (\<lambda>z u w y. y \<in> rule_states R \<and> rules_read gs (leaves x) z u w (leaves y)))"

lemma means_Rule:
  fixes g :: "'w::{linorder, comm_monoid_add} hbt"
  assumes tab: "symtab_ok tab" "all_numbered tab g" "alphabet g \<subseteq> dom (symbol2number tab)" and wf: "wf_graph g"
    and r: "rule_of_graph tab g r"
  shows "means tab [g] (Rule r)"
proof -
  let ?n = "length (state_vector g)"
  have R: "rule_ok (Rule r)" "denote (Rule r) 0 = Some (Leaf 0)" "rule_states (Rule r) = Leaf ` {..<?n}"
    and fin: "\<And>s. s < ?n \<Longrightarrow> rule_final (Rule r) (Leaf s) = final_weight_map g s"
    and del: "\<And>s a b w q. s < ?n \<Longrightarrow> delta (Rule r) (Leaf s) a b = Some (w, Leaf q) \<longleftrightarrow> rule_arc tab g s a b w q"
    using r unfolding rule_of_graph_def by blast+
  have fw: "add_weights u (Some 0) = u" for u :: "'w option" by (cases u) simp_all
  have states_eq: "leaves ` rule_states (Rule r) = {qs. in_graphs [g] qs}"
    unfolding R(3) by (auto simp: in_graphs_def list_all2_Cons1 image_iff)
  have inj: "inj_on leaves (rule_states (Rule r))" unfolding R(3) by (auto simp: inj_on_def)
  have each: "rule_final (Rule r) (Leaf s) = rules_final [g] [s] \<and>
      (\<forall>a b w y. delta (Rule r) (Leaf s) a b = Some (w, y) \<longrightarrow> y \<in> rule_states (Rule r)) \<and>
      as_numbers tab (\<lambda>a b w y. y \<in> rule_states (Rule r) \<and> delta (Rule r) (Leaf s) a b = Some (w, y))
          (\<lambda>z u w y. y \<in> rule_states (Rule r) \<and> rules_read [g] [s] z u w (leaves y))" if s: "s < ?n" for s
  proof (intro conjI allI impI)
    show "rule_final (Rule r) (Leaf s) = rules_final [g] [s]" using fin [OF s] fw by simp
    fix a b w y assume d: "delta (Rule r) (Leaf s) a b = Some (w, y)"
    then obtain q where "y = Leaf q" by auto
    with d del [OF s] rule_arc_target [OF wf] show "y \<in> rule_states (Rule r)" unfolding R(3) by blast
  next
    have "rules_read [g] [s] z u w [q] \<longleftrightarrow> rule_reads g s z u w q" for z u w q by auto
    moreover have "as_numbers tab (rule_arc tab g s) (rule_reads g s)" by (rule rule_arc_reads [OF tab])
    ultimately show "as_numbers tab (\<lambda>a b w y. y \<in> rule_states (Rule r) \<and> delta (Rule r) (Leaf s) a b = Some (w, y))
          (\<lambda>z u w y. y \<in> rule_states (Rule r) \<and> rules_read [g] [s] z u w (leaves y))"
      using del [OF s] unfolding as_numbers_def R(3) by (auto simp del: delta.simps rules_read.simps)
  qed
  then have "\<forall>x \<in> rule_states (Rule r). rule_final (Rule r) x = rules_final [g] (leaves x) \<and>
        (\<forall>a b w y. delta (Rule r) x a b = Some (w, y) \<longrightarrow> y \<in> rule_states (Rule r)) \<and>
        as_numbers tab (\<lambda>a b w y. y \<in> rule_states (Rule r) \<and> delta (Rule r) x a b = Some (w, y))
          (\<lambda>z u w y. y \<in> rule_states (Rule r) \<and> rules_read [g] (leaves x) z u w (leaves y))"
    unfolding R(3) by (simp del: delta.simps rules_read.simps rules_final.simps rule_final.simps rule_states.simps)
  moreover have "\<exists>x. denote (Rule r) 0 = Some x \<and> leaves x = map (\<lambda>g. 0) [g]"
    by (rule exI [of _ "Leaf 0"]) (simp add: R(2) del: denote.simps)
  ultimately show ?thesis unfolding means_def using R(1) inj states_eq by blast
qed

lemma as_numbers_join:
  assumes tab: "symtab_ok tab" and A: "as_numbers tab A1 S1" "as_numbers tab A2 S2"
  shows "as_numbers tab (\<lambda>a b w y. \<exists>w1 w2 y1 y2. A1 a b w1 y1 \<and> A2 a b w2 y2 \<and> w = f w1 w2 \<and> y = h y1 y2)
     (\<lambda>z u w y. \<exists>w1 w2 y1 y2. S1 z u w1 y1 \<and> S2 z u w2 y2 \<and> w = f w1 w2 \<and> y = h y1 y2)"
  unfolding as_numbers_def
proof (intro allI impI)
  fix z a b w y assume z: "symbol2number tab z = Some a"
  have 1: "A1 a b w y \<longleftrightarrow> (\<exists>u. symbol2number tab u = Some b \<and> S1 z u w y)" for w y
    using A(1) z unfolding as_numbers_def by blast
  have 2: "A2 a b w y \<longleftrightarrow> (\<exists>u. symbol2number tab u = Some b \<and> S2 z u w y)" for w y
    using A(2) z unfolding as_numbers_def by blast
  have same: "u = u'" if "symbol2number tab u = Some b" "symbol2number tab u' = Some b" for u u'
    by (rule symtab_number_inj [OF tab that])
  show "(\<exists>w1 w2 y1 y2. A1 a b w1 y1 \<and> A2 a b w2 y2 \<and> w = f w1 w2 \<and> y = h y1 y2) \<longleftrightarrow>
      (\<exists>u. symbol2number tab u = Some b \<and> (\<exists>w1 w2 y1 y2. S1 z u w1 y1 \<and> S2 z u w2 y2 \<and> w = f w1 w2 \<and> y = h y1 y2))"
    unfolding 1 2 using same by blast
qed

lemma join_Some:
  "join d1 d2 = Some (w, y) \<longleftrightarrow>
     (\<exists>w1 w2 y1 y2. d1 = Some (w1, y1) \<and> d2 = Some (w2, y2) \<and> w = w1 + w2 \<and> y = Fork y1 y2)"
  by (cases d1; cases d2) auto

lemma pair_states: "x \<in> rule_states (RulePair r1 r2 m) \<longleftrightarrow> (\<exists>x1 \<in> rule_states r1. \<exists>x2 \<in> rule_states r2. x = Fork x1 x2)"
  by auto

lemma means_leaf:
  assumes "means tab [g] R" and "x \<in> rule_states R"
  shows "\<exists>q < length (state_vector g). leaves x = [q]"
proof -
  have "leaves x \<in> leaves ` rule_states R" using assms(2) by blast
  then have "in_graphs [g] (leaves x)" using assms(1) unfolding means_def by blast
  then show ?thesis by (auto simp: in_graphs_def list_all2_Cons1)
qed

lemma means_pair_reads:
  assumes tab: "symtab_ok tab" and m1: "means tab [g] R1" and m2: "means tab gs R2"
    and x: "x1 \<in> rule_states R1" "x2 \<in> rule_states R2"
  shows "as_numbers tab (\<lambda>a b w y. y \<in> rule_states (RulePair R1 R2 m) \<and> delta (RulePair R1 R2 m) (Fork x1 x2) a b = Some (w, y))
     (\<lambda>z u w y. y \<in> rule_states (RulePair R1 R2 m) \<and> rules_read (g # gs) (leaves (Fork x1 x2)) z u w (leaves y))"
    (is "as_numbers tab ?A ?S")
proof -
  let ?A1 = "\<lambda>a b w y. y \<in> rule_states R1 \<and> delta R1 x1 a b = Some (w, y)"
  let ?S1 = "\<lambda>z u w y. y \<in> rule_states R1 \<and> rules_read [g] (leaves x1) z u w (leaves y)"
  let ?A2 = "\<lambda>a b w y. y \<in> rule_states R2 \<and> delta R2 x2 a b = Some (w, y)"
  let ?S2 = "\<lambda>z u w y. y \<in> rule_states R2 \<and> rules_read gs (leaves x2) z u w (leaves y)"
  have "as_numbers tab ?A1 ?S1" "as_numbers tab ?A2 ?S2" using m1 m2 x unfolding means_def by blast+
  note joined = as_numbers_join [OF tab this, of "(+)" Fork]
  have A: "?A = (\<lambda>a b w y. \<exists>w1 w2 y1 y2. ?A1 a b w1 y1 \<and> ?A2 a b w2 y2 \<and> w = w1 + w2 \<and> y = Fork y1 y2)"
    unfolding delta.simps join_Some pair_states fun_eq_iff by blast
  obtain q where q: "leaves x1 = [q]" using means_leaf [OF m1 x(1)] by blast
  have one: "rules_read [g] [q] z u w [q'] \<longleftrightarrow> rule_reads g q z u w q'" for z u w q' by auto
  have "?S z u w y \<longleftrightarrow> (\<exists>w1 w2 y1 y2. ?S1 z u w1 y1 \<and> ?S2 z u w2 y2 \<and> w = w1 + w2 \<and> y = Fork y1 y2)" for z u w y
  proof -
    have "rules_read (g # gs) (leaves (Fork x1 x2)) z u w (leaves (Fork y1 y2)) \<longleftrightarrow>
        (\<exists>w1 w2. rules_read [g] (leaves x1) z u w1 (leaves y1) \<and> rules_read gs (leaves x2) z u w2 (leaves y2) \<and> w = w1 + w2)"
      if y1: "y1 \<in> rule_states R1" for y1 y2
    proof -
      obtain q' where q': "leaves y1 = [q']" using means_leaf [OF m1 y1] by blast
      show ?thesis unfolding leaves.simps q q' append_Cons append_Nil one by simp
    qed
    then show ?thesis unfolding pair_states by blast
  qed
  then have S: "?S = (\<lambda>z u w y. \<exists>w1 w2 y1 y2. ?S1 z u w1 y1 \<and> ?S2 z u w2 y2 \<and> w = w1 + w2 \<and> y = Fork y1 y2)"
    unfolding fun_eq_iff by blast
  show ?thesis unfolding A S by (rule joined)
qed

lemma in_graphs_append: "(\<exists>u v. in_graphs [g] u \<and> in_graphs gs v \<and> qs = u @ v) \<longleftrightarrow> in_graphs (g # gs) qs"
proof
  assume "in_graphs (g # gs) qs"
  then obtain q v where "qs = [q] @ v" "q < length (state_vector g)" "in_graphs gs v"
    by (auto simp: in_graphs_def list_all2_Cons1)
  then show "\<exists>u v. in_graphs [g] u \<and> in_graphs gs v \<and> qs = u @ v"
    by (intro exI [of _ "[q]"] exI [of _ v]) (simp add: in_graphs_def)
qed (auto simp: in_graphs_def list_all2_Cons1)

lemma means_states:
  assumes "means tab gs R"
  shows "rule_ok R" and "inj_on leaves (rule_states R)" and "leaves ` rule_states R = {qs. in_graphs gs qs}"
proof -
  from assms [unfolded means_def] show "rule_ok R" by (elim conjE)
  from assms [unfolded means_def] show "inj_on leaves (rule_states R)" by (elim conjE)
  from assms [unfolded means_def] show "leaves ` rule_states R = {qs. in_graphs gs qs}" by (elim conjE) simp
qed

lemma means_start: "means tab gs R \<Longrightarrow> \<exists>x. denote R 0 = Some x \<and> leaves x = map (\<lambda>g. 0) gs"
  unfolding means_def by (elim conjE)

lemma means_pair:
  assumes tab: "symtab_ok tab" and m1: "means tab [g] R1" and m2: "means tab gs R2"
    and bound: "card (rule_states R1) * card (rule_states R2) \<le> 4294967296"
  shows "means tab (g # gs) (rule_pair_new R1 R2)"
proof -
  obtain m where P: "rule_pair_new R1 R2 = RulePair R1 R2 m" by (simp add: rule_pair_new_def)
  let ?P = "RulePair R1 R2 m"
  have ok: "rule_ok R1" "rule_ok R2" and inj: "inj_on leaves (rule_states R1)" "inj_on leaves (rule_states R2)"
    and img: "leaves ` rule_states R1 = {qs. in_graphs [g] qs}" "leaves ` rule_states R2 = {qs. in_graphs gs qs}"
    by (fact means_states [OF m1] means_states [OF m2])+
  obtain x1 where x1: "denote R1 0 = Some x1" "leaves x1 = map (\<lambda>g. 0) [g]" using means_start [OF m1] by (elim exE conjE)
  obtain x2 where x2: "denote R2 0 = Some x2" "leaves x2 = map (\<lambda>g. 0) gs" using means_start [OF m2] by (elim exE conjE)
  note x0 = x1 x2
  from rule_pair_ok [OF ok x0(1,3) bound] have okP: "rule_ok ?P" "denote ?P 0 = Some (Fork x1 x2)" unfolding P by blast+
  note leaf = means_leaf [OF m1]
  have "inj_on leaves (rule_states ?P)"
  proof (rule inj_onI)
    fix x y assume "x \<in> rule_states ?P" "y \<in> rule_states ?P" and eq: "leaves x = leaves y"
    then obtain x1 x2 y1 y2 where xy: "x1 \<in> rule_states R1" "x2 \<in> rule_states R2" "x = Fork x1 x2"
      "y1 \<in> rule_states R1" "y2 \<in> rule_states R2" "y = Fork y1 y2" unfolding pair_states by blast
    obtain q q' where "leaves x1 = [q]" "leaves y1 = [q']" using leaf [OF xy(1)] leaf [OF xy(4)] by blast
    with eq xy have "leaves x1 = leaves y1" "leaves x2 = leaves y2" by simp_all
    with inj xy show "x = y" by (auto dest: inj_onD)
  qed
  moreover have "leaves ` rule_states ?P = {qs. in_graphs (g # gs) qs}"
  proof -
    have "qs \<in> leaves ` rule_states ?P \<longleftrightarrow> (\<exists>u \<in> leaves ` rule_states R1. \<exists>v \<in> leaves ` rule_states R2. qs = u @ v)" for qs
      by (auto simp: image_iff)
    then have "qs \<in> leaves ` rule_states ?P \<longleftrightarrow> (\<exists>u v. in_graphs [g] u \<and> in_graphs gs v \<and> qs = u @ v)" for qs
      unfolding img by blast
    then show ?thesis unfolding in_graphs_append by blast
  qed
  moreover have "\<exists>x. denote ?P 0 = Some x \<and> leaves x = map (\<lambda>g. 0) (g # gs)"
    by (rule exI [of _ "Fork x1 x2"]) (simp add: okP(2) x0 del: denote.simps)
  moreover have "\<forall>x \<in> rule_states ?P. rule_final ?P x = rules_final (g # gs) (leaves x) \<and>
        (\<forall>a b w y. delta ?P x a b = Some (w, y) \<longrightarrow> y \<in> rule_states ?P) \<and>
        as_numbers tab (\<lambda>a b w y. y \<in> rule_states ?P \<and> delta ?P x a b = Some (w, y))
          (\<lambda>z u w y. y \<in> rule_states ?P \<and> rules_read (g # gs) (leaves x) z u w (leaves y))"
  proof
    fix x assume "x \<in> rule_states ?P"
    then obtain x1 x2 where x: "x1 \<in> rule_states R1" "x2 \<in> rule_states R2" "x = Fork x1 x2" unfolding pair_states by blast
    have fin: "rule_final R1 x1 = rules_final [g] (leaves x1)" "rule_final R2 x2 = rules_final gs (leaves x2)"
      and closed: "\<And>a b w y. delta R1 x1 a b = Some (w, y) \<Longrightarrow> y \<in> rule_states R1"
        "\<And>a b w y. delta R2 x2 a b = Some (w, y) \<Longrightarrow> y \<in> rule_states R2"
      using m1 m2 x(1,2) unfolding means_def by blast+
    obtain q where q: "leaves x1 = [q]" using leaf [OF x(1)] by blast
    have "add_weights u (Some 0) = u" for u :: "'a option" by (cases u) simp_all
    then have "rule_final ?P x = rules_final (g # gs) (leaves x)" using fin q x(3) by simp
    moreover have "\<forall>a b w y. delta ?P x a b = Some (w, y) \<longrightarrow> y \<in> rule_states ?P"
      unfolding x(3) delta.simps join_Some pair_states using closed by blast
    moreover note means_pair_reads [OF tab m1 m2 x(1,2), of m]
    ultimately show "rule_final ?P x = rules_final (g # gs) (leaves x) \<and>
        (\<forall>a b w y. delta ?P x a b = Some (w, y) \<longrightarrow> y \<in> rule_states ?P) \<and>
        as_numbers tab (\<lambda>a b w y. y \<in> rule_states ?P \<and> delta ?P x a b = Some (w, y))
          (\<lambda>z u w y. y \<in> rule_states ?P \<and> rules_read (g # gs) (leaves x) z u w (leaves y))" unfolding x(3) by blast
  qed
  ultimately show ?thesis unfolding means_def P using okP(1) by blast
qed

lemma means_card:
  assumes "means tab gs R"
  shows "card (rule_states R) = prod_list (map (\<lambda>g. length (state_vector g)) gs)"
proof -
  have "card (rule_states R) = card {qs. in_graphs gs qs}"
    using assms card_image [of leaves "rule_states R"] unfolding means_def by metis
  also have "\<dots> = prod_list (map (\<lambda>g. length (state_vector g)) gs)"
  proof (induction gs)
    case Nil
    show ?case by (simp add: in_graphs_def)
  next
    case (Cons g gs)
    have "{qs. in_graphs (g # gs) qs} = (\<lambda>(q, qs). q # qs) ` ({..<length (state_vector g)} \<times> {qs. in_graphs gs qs})"
      by (auto simp: in_graphs_def list_all2_Cons1)
    moreover have "inj_on (\<lambda>(q, qs). q # qs) ({..<length (state_vector g)} \<times> {qs. in_graphs gs qs})"
      by (auto simp: inj_on_def)
    ultimately show ?case using Cons.IH by (simp add: card_image card_cartesian_product)
  qed
  finally show ?thesis .
qed

lemma means_reads:
  assumes "means tab gs R" and "x \<in> rule_states R" and "symbol2number tab z = Some a"
  shows "y \<in> rule_states R \<and> delta R x a b = Some (w, y) \<longleftrightarrow>
     (\<exists>u. symbol2number tab u = Some b \<and> y \<in> rule_states R \<and> rules_read gs (leaves x) z u w (leaves y))"
proof -
  have "as_numbers tab (\<lambda>a b w y. y \<in> rule_states R \<and> delta R x a b = Some (w, y))
      (\<lambda>z u w y. y \<in> rule_states R \<and> rules_read gs (leaves x) z u w (leaves y))"
    using assms(1) [unfolded means_def] assms(2) by (elim conjE) (drule bspec, assumption, elim conjE)
  with assms(3) show ?thesis unfolding as_numbers_def by blast
qed

lemma means_closed:
  assumes "means tab gs R" and "x \<in> rule_states R" and "delta R x a b = Some (w, y)"
  shows "y \<in> rule_states R"
  using assms(1) [unfolded means_def] assms(2,3) by (elim conjE) (drule bspec, assumption, elim conjE, blast)

lemma means_final:
  assumes "means tab gs R" and "x \<in> rule_states R"
  shows "rule_final R x = rules_final gs (leaves x)"
  using assms(1) [unfolded means_def] assms(2) by (elim conjE) (drule bspec, assumption, elim conjE)

lemma means_outputs:
  assumes "symtab_ok tab" and "means tab gs R"
  shows "composed.outputs_valid tab R"
  unfolding composed.outputs_valid_def
proof (intro ballI allI impI)
  fix x a b assume x: "x \<in> rule_states R" and d: "delta R x a b \<noteq> None" and a: "valid_number tab a"
  from d obtain w y where y: "delta R x a b = Some (w, y)" by auto
  have "symbol2number tab (symbol_of tab a) = Some a" using a numbered_symbol [OF assms(1)] by blast
  from means_reads [OF assms(2) x this] means_closed [OF assms(2) x y] y obtain u where "symbol2number tab u = Some b" by blast
  then show "valid_number tab b" using numbered_symbol [OF assms(1)] by blast
qed

section \<open>Building the chain\<close>

definition rules_ready :: "symtab \<Rightarrow> 'w hbt list \<Rightarrow> bool" where
  "rules_ready tab v \<longleftrightarrow> (\<forall>g \<in> set v. wf_hbt g \<and> all_numbered tab g \<and> det_rule g \<and> alphabet g \<subseteq> dom (symbol2number tab))"

text \<open>The rules in the order of the chain.\<close>

definition rule_order :: "'a list \<Rightarrow> 'a list" where
  "rule_order v = rev (drop 2 v) @ take 2 v"

definition graph_size :: "'w hbt list \<Rightarrow> nat" where
  "graph_size gs = prod_list (map (\<lambda>g. length (state_vector g)) gs)"

lemma graph_size_simps [simp]:
  "graph_size [] = 1" "graph_size (g # gs) = length (state_vector g) * graph_size gs"
  "graph_size (gs @ hs) = graph_size gs * graph_size hs" "graph_size (rev gs) = graph_size gs"
  by (simp_all add: graph_size_def) (induction gs; simp)

lemma graph_size_rule_order: "graph_size (rule_order v) = graph_size v"
proof -
  have "graph_size v = graph_size (take 2 v @ drop 2 v)" by simp
  then show ?thesis unfolding rule_order_def graph_size_simps by simp
qed

lemma graph_size_pos: "rules_ready tab v \<Longrightarrow> 0 < graph_size v"
  by (induction v) (auto simp: rules_ready_def wf_hbt_def wf_graph_def)

lemma means_rule_new:
  assumes "program_table tab" and "rules_ready tab (g # v)"
  shows "\<exists>r. ci_rule_new g tab = Inr (r, tab) \<and> means tab [g] (Rule r) \<and> rule_symbols r = alphabet g"
proof -
  have g: "wf_hbt g" "all_numbered tab g" "det_rule g" "alphabet g \<subseteq> dom (symbol2number tab)"
    using assms(2) by (simp_all add: rules_ready_def)
  from rule_new_ok [OF assms(1) g] obtain r where r: "ci_rule_new g tab = Inr (r, tab)" "rule_of_graph tab g r" by blast
  have "means tab [g] (Rule r)"
    using assms(1) g r(2) by (intro means_Rule) (simp_all add: program_table_def wf_hbt_def)
  with r show ?thesis by (auto simp: rule_of_graph_def)
qed

definition is_pair :: "'w rule \<Rightarrow> bool" where
  "is_pair R \<longleftrightarrow> (case R of Rule r \<Rightarrow> False | RulePair r1 r2 m \<Rightarrow> True)"

lemma is_pair_new [simp]: "is_pair (rule_pair_new r1 r2)"
  by (simp add: is_pair_def rule_pair_new_def)

lemma means_add:
  assumes "program_table tab" and "means tab [g] (Rule r)" and "means tab gs R"
    and "graph_size (g # gs) \<le> 4294967296"
  shows "means tab (g # gs) (rule_pair_new (Rule r) R)"
proof (rule means_pair [OF _ assms(2,3)])
  show "card (rule_states (Rule r)) * card (rule_states R) \<le> 4294967296"
    using assms(4) unfolding means_card [OF assms(2)] means_card [OF assms(3)] by (simp add: graph_size_def)
qed (use assms(1) in \<open>simp add: program_table_def\<close>)

lemma chain_ok:
  assumes "program_table tab"
  shows "rules_ready tab ts \<Longrightarrow> rules_ready tab gs \<Longrightarrow> means tab gs R \<Longrightarrow> is_pair R \<Longrightarrow>
     graph_size gs * graph_size ts \<le> 4294967296 \<Longrightarrow>
     \<exists>R'. rfold (\<lambda>t (rules, tab3). rmap (\<lambda>(r, tab4). (rule_pair_new (Rule r) rules, tab4)) (ci_rule_new t tab3)) ts (R, tab) =
       Inr (R', tab) \<and> means tab (rev ts @ gs) R' \<and> is_pair R'"
proof (induction ts arbitrary: gs R)
  case Nil
  then show ?case by simp
next
  case (Cons t ts)
  have ts: "rules_ready tab ts" "rules_ready tab (t # gs)" using Cons.prems(1,2) by (simp_all add: rules_ready_def)
  from means_rule_new [OF assms Cons.prems(1)] obtain r where r: "ci_rule_new t tab = Inr (r, tab)" "means tab [t] (Rule r)" by blast
  have "graph_size (t # gs) * 1 \<le> graph_size (t # gs) * graph_size ts"
    using graph_size_pos [OF ts(1)] by (intro mult_le_mono) simp_all
  moreover have size: "graph_size (t # gs) * graph_size ts \<le> 4294967296" using Cons.prems(5) by (simp add: ac_simps)
  ultimately have "graph_size (t # gs) \<le> 4294967296" by linarith
  note m = means_add [OF assms r(2) Cons.prems(3) this]
  from Cons.IH [OF ts m is_pair_new size] r(1) show ?case by simp
qed

lemma build_rules_ok:
  assumes "program_table tab" and "rules_ready tab v" and "v \<noteq> []" and "graph_size v \<le> 4294967296"
  shows "\<exists>R. build_rules v tab = Inr (R, tab) \<and> means tab (rule_order v) R \<and>
     (case v of [g] \<Rightarrow> \<exists>r. R = Rule r \<and> rule_symbols r = alphabet g | _ \<Rightarrow> is_pair R)"
proof -
  from assms(3) obtain g1 v1 where v: "v = g1 # v1" by (cases v) auto
  from means_rule_new [OF assms(1) assms(2) [unfolded v]] obtain r1 where
    r1: "ci_rule_new g1 tab = Inr (r1, tab)" "means tab [g1] (Rule r1)" "rule_symbols r1 = alphabet g1" by blast
  show ?thesis
  proof (cases v1)
    case Nil
    with r1 v show ?thesis by (simp add: build_rules_def vec_at_def rule_order_def)
  next
    case (Cons g2 ts)
    have ready: "rules_ready tab (g2 # ts)" "rules_ready tab ts" "rules_ready tab [g1, g2]"
      using assms(2) v Cons by (simp_all add: rules_ready_def)
    from means_rule_new [OF assms(1) ready(1)] obtain r2 where
      r2: "ci_rule_new g2 tab = Inr (r2, tab)" "means tab [g2] (Rule r2)" by blast
    have size: "graph_size [g1, g2] * graph_size ts \<le> 4294967296" using assms(4) v Cons by (simp add: ac_simps)
    have "graph_size [g1, g2] * 1 \<le> graph_size [g1, g2] * graph_size ts"
      using graph_size_pos [OF ready(2)] by (intro mult_le_mono) simp_all
    with size have "graph_size [g1, g2] \<le> 4294967296" by linarith
    note m = means_add [OF assms(1) r1(2) r2(2) this]
    from chain_ok [OF assms(1) ready(2,3) m is_pair_new size] obtain R where
      R: "rfold (\<lambda>t (rules, tab3). rmap (\<lambda>(r, tab4). (rule_pair_new (Rule r) rules, tab4)) (ci_rule_new t tab3)) ts
           (rule_pair_new (Rule r1) (Rule r2), tab) = Inr (R, tab)" "means tab (rev ts @ [g1, g2]) R" "is_pair R" by blast
    have order: "rule_order v = rev ts @ [g1, g2]" "drop 2 v = ts" using v Cons by (simp_all add: rule_order_def)
    have "build_rules v tab = Inr (R, tab)"
      unfolding build_rules_def order using r1(1) r2(1) R(1) v Cons by (simp add: vec_at_def)
    with R(2,3) order v Cons show ?thesis by simp
  qed
qed

section \<open>The lexicon\<close>

definition lexicon_of_graph :: "symtab \<Rightarrow> 'w::{linorder, monoid_add} hbt \<Rightarrow> 'w ci_lexicon \<Rightarrow> bool" where
  "lexicon_of_graph tab g L \<longleftrightarrow> lexicon_ok tab L \<and> ci_size L = length (state_vector g) \<and>
     (\<forall>p < length (state_vector g). finality L ! p = final_weight_map g p \<and>
        lex_arcs L p = {ci_encode tab t | t. t \<in> set (transitions_of g p) \<and> tr_input t \<noteq> internal_identity})"

lemma holds_keyed_Some: "holds_keyed m K \<Longrightarrow> m k = Some cs \<Longrightarrow> set cs = K k \<and> K k \<noteq> {}"
  unfolding holds_keyed_def by (drule spec [of _ k]) simp

lemma holds_keyed_ex: "holds_keyed m K \<Longrightarrow> c \<in> K k \<Longrightarrow> \<exists>cs. m k = Some cs \<and> c \<in> set cs"
  unfolding holds_keyed_def by (drule spec [of _ k]) (auto split: option.splits)

lemma lexicon_new_ok:
  fixes g :: "'w::{linorder, monoid_add} hbt"
  assumes ok: "symtab_ok tab" and g: "wf_hbt g" "all_numbered tab g" and alpha: "alphabet g \<subseteq> dom (symbol2number tab)"
  shows "\<exists>L. ci_lexicon_new g tab = Inr (L, tab) \<and> lexicon_of_graph tab g L"
proof -
  let ?g = "sort_arcs tab g" and ?n = "length (state_vector g)"
  from ci_fst_new_known [OF ok g alpha, of False] obtain f where
    f: "ci_fst_new False g tab = Inr (f, tab)" "ci_built False tab ?g ?n f" by blast
  let ?L = "ci_fst.extend f \<lparr>state_pair_map = Map.empty, pair_vector = [], lex_agenda = [], lex_result = new_hbt,
     lexicon_non_epsilon_states = {}\<rparr>"
  have fields: "transition_maps ?L = transition_maps f" "finality ?L = finality f" by (simp_all add: ci_fst.defs)
  have size: "ci_size ?L = ?n" using f(2) by (simp add: ci_size_def fields ci_built_def)
  have wf: "wf_graph g" using g(1) by (simp add: wf_hbt_def)
  have num: "numbered tab t" if "t \<in> set (transitions_of g p)" for t p by (rule all_numbered_at [OF g(2) that])
  have valid: "valid_number tab n" if "symbol2number tab z = Some n" for z n
    using that numbered_symbol [OF ok] by blast
  have trs: "set (transitions_of ?g p) = set (transitions_of g p)" for p by (simp add: sort_arcs_simps(4))
  have held: "holds_keyed (transition_maps f ! p) (keyed False tab (transitions_of ?g p))" if "p < ?n" for p
    using f(2) that by (simp add: ci_built_def)
  have key: "c \<in> keyed False tab (transitions_of ?g p) k \<longleftrightarrow>
      (\<exists>t. t \<in> set (transitions_of g p) \<and> tr_input t \<noteq> internal_identity \<and> tr_output_number tab t = k \<and> c = ci_encode tab t)"
    for c p k by (auto simp: keyed_def trs ci_key_def)
  have arcs: "lex_arcs ?L p = {ci_encode tab t | t. t \<in> set (transitions_of g p) \<and> tr_input t \<noteq> internal_identity}"
    if p: "p < ?n" for p
  proof -
    have "(\<exists>k cs. (transition_maps f ! p) k = Some cs \<and> c \<in> set cs) \<longleftrightarrow>
        (\<exists>k. c \<in> keyed False tab (transitions_of ?g p) k)" for c
      using holds_keyed_Some [OF held [OF p]] holds_keyed_ex [OF held [OF p]] by blast
    then show ?thesis unfolding lex_arcs_def fields key by blast
  qed
  have "finite (dom (transition_maps f ! p))" if p: "p < ?n" for p
  proof (rule finite_subset)
    show "dom (transition_maps f ! p) \<subseteq> tr_output_number tab ` set (transitions_of g p)"
    proof
      fix k assume "k \<in> dom (transition_maps f ! p)"
      then obtain cs where "(transition_maps f ! p) k = Some cs" by blast
      with holds_keyed_Some [OF held [OF p]] obtain c where "c \<in> keyed False tab (transitions_of ?g p) k" by blast
      then show "k \<in> tr_output_number tab ` set (transitions_of g p)" unfolding key by blast
    qed
  qed simp
  moreover have "valid_number tab k \<and> (\<forall>c \<in> set cs. olabel c = k \<and> valid_number tab (ilabel c) \<and> ci_target c < ?n)"
    if p: "p < ?n" and m: "(transition_maps f ! p) k = Some cs" for p k cs
  proof -
    have cs: "set cs = keyed False tab (transitions_of ?g p) k" "keyed False tab (transitions_of ?g p) k \<noteq> {}"
      using holds_keyed_Some [OF held [OF p] m] by blast+
    have each: "olabel c = k \<and> valid_number tab (olabel c) \<and> valid_number tab (ilabel c) \<and> ci_target c < ?n" if "c \<in> set cs" for c
    proof -
      from that cs(1) key obtain t where t: "t \<in> set (transitions_of g p)" "tr_output_number tab t = k" "c = ci_encode tab t" by blast
      with tr_numbers [OF num [OF t(1)]] valid wf_graph_target [OF wf t(1)] show ?thesis by (auto simp: ci_encode_def)
    qed
    moreover obtain c where "c \<in> set cs" using cs by blast
    ultimately show ?thesis by blast
  qed
  moreover have "0 < ?n" using wf by (simp add: wf_graph_def)
  ultimately have "lexicon_ok tab ?L"
    unfolding lexicon_ok_def size fields using f(2) by (auto simp: ci_built_def)
  moreover have "finality ?L ! p = final_weight_map g p" if "p < ?n" for p
    using f(2) that by (simp add: fields ci_built_def sort_arcs_simps(3))
  moreover have "ci_lexicon_new g tab = Inr (?L, tab)" using f(1) by (simp add: ci_lexicon_new_def)
  ultimately show ?thesis unfolding lexicon_of_graph_def using size arcs by blast
qed

section \<open>The runs agree\<close>

lemma rule_reads_target: "wf_graph g \<Longrightarrow> rule_reads g q a b w q' \<Longrightarrow> q' < length (state_vector g)"
  by (auto simp: rule_reads_def dest: wf_graph_target)

lemma rules_read_target:
  "\<forall>g \<in> set gs. wf_graph g \<Longrightarrow> rules_read gs qs a b w qs' \<Longrightarrow> in_graphs gs qs'"
proof (induction gs qs a b w qs' rule: rules_read.induct)
  case (1 g gs q qs a b w q' qs')
  then show ?case using rule_reads_target by (auto simp: in_graphs_def)
qed (auto simp: in_graphs_def)

text \<open>Everything both sides of the correspondence rest on.\<close>

definition corresponds ::
  "symtab \<Rightarrow> 'w::{linorder, comm_monoid_add} hbt \<Rightarrow> 'w hbt list \<Rightarrow> 'w ci_lexicon \<Rightarrow> 'w rule \<Rightarrow> bool" where
  "corresponds tab g gs L R \<longleftrightarrow> program_table tab \<and> wf_graph g \<and> all_numbered tab g \<and> lexicon_of_graph tab g L \<and>
     means tab gs R \<and> gs \<noteq> [] \<and> (\<forall>h \<in> set gs. wf_graph h \<and> all_numbered tab h) \<and>
     (\<forall>z k. symbol2number tab z = Some k \<longrightarrow> composed.skips tab R k = lexicon_alone gs z)"

lemma corresponds_move_sound:
  assumes c: "corresponds tab g gs L R" and p: "p < length (state_vector g)" and x: "x \<in> rule_states R"
    and mv: "(i, b, w, q, y) \<in> ci_moves (delta R) (lex_arcs L) (composed.skips tab R) p x"
  shows "q < length (state_vector g) \<and> y \<in> rule_states R \<and>
     compose_step g gs p (leaves x) (composed.symbols_of tab (i, b)) w q (leaves y)"
proof -
  have tab: "program_table tab" "symtab_ok tab" and wf: "wf_graph g" and num: "all_numbered tab g" and lex: "lexicon_of_graph tab g L"
    and m: "means tab gs R" and skip: "\<And>z k. symbol2number tab z = Some k \<Longrightarrow> composed.skips tab R k = lexicon_alone gs z"
    using c unfolding corresponds_def program_table_def by blast+
  have arcs: "lex_arcs L p = {ci_encode tab t | t. t \<in> set (transitions_of g p) \<and> tr_input t \<noteq> internal_identity}"
    using lex p unfolding lexicon_of_graph_def by blast
  have sym: "symbol_of tab n = z" if "symbol2number tab z = Some n" for z n using that numbered_symbol [OF tab(2)] by blast
  from mv consider (lex) k where "(i, b, w, q, y) \<in> lex_moves (delta R) (composed.skips tab R) x k {c \<in> lex_arcs L p. olabel c = k}"
    | (rule) "(i, b, w, q, y) \<in> rule_moves (delta R) p x" unfolding ci_moves_def by blast
  then show ?thesis
  proof cases
    case lex
    then obtain t where t: "t \<in> set (transitions_of g p)" "tr_input t \<noteq> internal_identity" "tr_output_number tab t = k"
      and mv: "(i, b, w, q, y) \<in> lex_moves (delta R) (composed.skips tab R) x k {ci_encode tab t}"
      unfolding arcs lex_moves_def by (auto simp: ci_encode_def split: if_splits)
    have n: "symbol2number tab (tr_input t) = Some (tr_input_number tab t)" "symbol2number tab (tr_output t) = Some k"
      using tr_numbers [OF all_numbered_at [OF num t(1)]] t(3) by blast+
    have target: "tr_target t < length (state_vector g)" by (rule wf_graph_target [OF wf t(1)])
    show ?thesis
    proof (cases "composed.skips tab R k")
      case True
      then have e: "i = tr_input_number tab t" "b = k" "w = tr_weight t" "q = tr_target t" "y = x"
        using mv t(3) by (auto simp: lex_moves_def ci_encode_def)
      have "lexicon_alone gs (tr_output t)" using True skip [OF n(2)] by simp
      from lexicon_step [OF t(1,2) this] target x show ?thesis
        unfolding e by (simp add: composed.symbols_of_def sym [OF n(1)] sym [OF n(2)] tr_label_def)
    next
      case False
      then obtain v where e: "i = tr_input_number tab t" "w = tr_weight t + v" "q = tr_target t" "delta R x k b = Some (v, y)"
        using mv by (auto simp: lex_moves_def ci_encode_def)
      have y: "y \<in> rule_states R" by (rule means_closed [OF m x e(4)])
      with means_reads [OF m x n(2)] e(4) obtain u where u: "symbol2number tab u = Some b"
        "rules_read gs (leaves x) (tr_output t) u v (leaves y)" by blast
      have "\<not> lexicon_alone gs (tr_output t)" using False skip [OF n(2)] by simp
      from both_step [OF t(1,2) this u(2)] target y show ?thesis
        unfolding e by (simp add: composed.symbols_of_def sym [OF n(1)] sym [OF u(1)])
    qed
  next
    case rule
    then have e: "i = epsilon_number" "q = p" "delta R x epsilon_number b = Some (w, y)" by (auto simp: rule_moves_def)
    have n: "symbol2number tab internal_epsilon = Some epsilon_number" using tab(1) by (simp add: program_table_def)
    have y: "y \<in> rule_states R" by (rule means_closed [OF m x e(3)])
    with means_reads [OF m x n] e(3) obtain u where u: "symbol2number tab u = Some b"
      "rules_read gs (leaves x) internal_epsilon u w (leaves y)" by blast
    from rule_step [OF u(2)] p y show ?thesis
      unfolding e by (simp add: composed.symbols_of_def sym [OF n] sym [OF u(1)])
  qed
qed

lemma rules_read_known:
  assumes "gs \<noteq> []" and "\<forall>h \<in> set gs. wf_graph h \<and> all_numbered tab h" and "rules_read gs qs z u w qs'"
  shows "symbol2number tab z \<noteq> None \<Longrightarrow> \<exists>b. symbol2number tab u = Some b"
proof -
  assume z: "symbol2number tab z \<noteq> None"
  obtain h hs where gs: "gs = h # hs" using assms(1) by (cases gs) auto
  obtain q qt q' qt' v where r: "rule_reads h q z u v q'"
    using assms(3) gs by (cases qs; cases qs') auto
  have "numbered tab t" if "t \<in> set (transitions_of h q)" for t
    using assms(2) gs all_numbered_at [of tab h t q] that by simp
  with r z show ?thesis by (auto simp: rule_reads_def numbered_def tr_label_def)
qed

lemma corresponds_move_complete:
  assumes c: "corresponds tab g gs L R" and p: "p < length (state_vector g)" and x: "x \<in> rule_states R"
    and st: "compose_step g gs p qs a w q qs'" and qs: "qs = leaves x"
  shows "q < length (state_vector g) \<and> (\<exists>y \<in> rule_states R. leaves y = qs' \<and> (\<exists>i b. a = composed.symbols_of tab (i, b) \<and>
     (i, b, w, q, y) \<in> ci_moves (delta R) (lex_arcs L) (composed.skips tab R) p x))"
proof -
  have tab: "program_table tab" "symtab_ok tab" and wf: "wf_graph g" and num: "all_numbered tab g" and lex: "lexicon_of_graph tab g L"
    and m: "means tab gs R" and gs: "\<forall>h \<in> set gs. wf_graph h \<and> all_numbered tab h" and ne: "gs \<noteq> []"
    and skip: "\<And>z k. symbol2number tab z = Some k \<Longrightarrow> composed.skips tab R k = lexicon_alone gs z"
    using c unfolding corresponds_def program_table_def by blast+
  have arcs: "lex_arcs L p = {ci_encode tab t | t. t \<in> set (transitions_of g p) \<and> tr_input t \<noteq> internal_identity}"
    using lex p unfolding lexicon_of_graph_def by blast
  have sym: "symbol_of tab n = z" if "symbol2number tab z = Some n" for z n using that numbered_symbol [OF tab(2)] by blast
  have reach: "\<exists>y b. y \<in> rule_states R \<and> leaves y = qs' \<and> delta R x k b = Some (v, y) \<and> symbol_of tab b = u"
    if z: "symbol2number tab z = Some k" and r: "rules_read gs qs z u v qs'" for z k u v qs'
  proof -
    have "in_graphs gs qs'" by (rule rules_read_target [OF _ r]) (use gs in blast)
    then have "qs' \<in> leaves ` rule_states R" unfolding means_states(3) [OF m] by simp
    then obtain y where y: "y \<in> rule_states R" "leaves y = qs'" by blast
    obtain b where b: "symbol2number tab u = Some b" using rules_read_known [OF ne gs r] z by blast
    with means_reads [OF m x z, of y b v] y r qs have "delta R x k b = Some (v, y)" by blast
    with y sym [OF b] show ?thesis by blast
  qed
  from st show ?thesis
  proof cases
    case (lexicon_step t)
    note n = tr_numbers [OF all_numbered_at [OF num lexicon_step(5)]]
    let ?c = "ci_encode tab t"
    let ?k = "tr_output_number tab t"
    have "?c \<in> {c \<in> lex_arcs L p. olabel c = ?k}" using lexicon_step(5,6) unfolding arcs by (auto simp: ci_encode_def)
    moreover have "composed.skips tab R ?k" using lexicon_step(7) skip n by blast
    ultimately have "(ilabel ?c, olabel ?c, ci_weight ?c, ci_target ?c, x) \<in>
        lex_moves (delta R) (composed.skips tab R) x ?k {c \<in> lex_arcs L p. olabel c = ?k}"
      unfolding lex_moves_def by auto
    then have "(tr_input_number tab t, tr_output_number tab t, tr_weight t, tr_target t, x) \<in>
        ci_moves (delta R) (lex_arcs L) (composed.skips tab R) p x" unfolding ci_moves_def by (auto simp: ci_encode_def)
    moreover have "tr_label t = composed.symbols_of tab (tr_input_number tab t, tr_output_number tab t)"
      using sym [OF conjunct1 [OF n]] sym [OF conjunct2 [OF n]] by (simp add: composed.symbols_of_def tr_label_def)
    moreover have "tr_target t < length (state_vector g)" by (rule wf_graph_target [OF wf lexicon_step(5)])
    ultimately show ?thesis using lexicon_step(1-4) x qs by blast
  next
    case (both_step t b v)
    note n = tr_numbers [OF all_numbered_at [OF num both_step(4)]]
    let ?c = "ci_encode tab t" and ?k = "tr_output_number tab t"
    from reach [OF conjunct2 [OF n] both_step(7)] obtain y b' where y: "y \<in> rule_states R" "leaves y = qs'"
      "delta R x ?k b' = Some (v, y)" "symbol_of tab b' = b" by blast
    have "?c \<in> {c \<in> lex_arcs L p. olabel c = ?k}" using both_step(4,5) unfolding arcs by (auto simp: ci_encode_def)
    moreover have "\<not> composed.skips tab R ?k" using both_step(6) skip n by blast
    ultimately have "(ilabel ?c, b', ci_weight ?c + v, ci_target ?c, y) \<in>
        lex_moves (delta R) (composed.skips tab R) x ?k {c \<in> lex_arcs L p. olabel c = ?k}"
      using y(3) unfolding lex_moves_def by auto
    then have "(tr_input_number tab t, b', tr_weight t + v, tr_target t, y) \<in>
        ci_moves (delta R) (lex_arcs L) (composed.skips tab R) p x" unfolding ci_moves_def by (auto simp: ci_encode_def)
    moreover have "(tr_input t, b) = composed.symbols_of tab (tr_input_number tab t, b')"
      using sym [OF conjunct1 [OF n]] y(4) by (simp add: composed.symbols_of_def)
    moreover have "tr_target t < length (state_vector g)" by (rule wf_graph_target [OF wf both_step(4)])
    ultimately show ?thesis using both_step(1-3) y(1,2) by blast
  next
    case (rule_step b)
    have n: "symbol2number tab internal_epsilon = Some epsilon_number" using tab(1) by (simp add: program_table_def)
    from reach [OF n rule_step(3)] obtain y b' where y: "y \<in> rule_states R" "leaves y = qs'"
      "delta R x epsilon_number b' = Some (w, y)" "symbol_of tab b' = b" by blast
    then have "(epsilon_number, b', w, p, y) \<in> ci_moves (delta R) (lex_arcs L) (composed.skips tab R) p x"
      unfolding ci_moves_def rule_moves_def by blast
    moreover have "(internal_epsilon, b) = composed.symbols_of tab (epsilon_number, b')"
      using sym [OF n] y(4) by (simp add: composed.symbols_of_def)
    ultimately show ?thesis using rule_step(1,2) y(1,2) p by blast
  qed
qed

lemma corresponds_run_sound:
  assumes c: "corresponds tab g gs L R"
  shows "ci_run (delta R) (lex_arcs L) (composed.skips tab R) p x ns w q y \<Longrightarrow> p < length (state_vector g) \<Longrightarrow> x \<in> rule_states R \<Longrightarrow>
     compose_run g gs p (leaves x) (map (composed.symbols_of tab) ns) w q (leaves y) \<and> q < length (state_vector g) \<and> y \<in> rule_states R"
proof (induction rule: ci_run.induct)
  case (stop p x)
  then show ?case by (simp add: compose_stop)
next
  case (step i b w q y p x ps v p' x')
  note mv = corresponds_move_sound [OF c step.prems step.hyps(1)]
  with step.IH compose_go show ?case by fastforce
qed

lemma corresponds_run_complete:
  assumes c: "corresponds tab g gs L R"
  shows "compose_run g gs p qs as w q qs' \<Longrightarrow> p < length (state_vector g) \<Longrightarrow> x \<in> rule_states R \<Longrightarrow> qs = leaves x \<Longrightarrow>
     \<exists>ns y. ci_run (delta R) (lex_arcs L) (composed.skips tab R) p x ns w q y \<and> as = map (composed.symbols_of tab) ns \<and>
       leaves y = qs' \<and> q < length (state_vector g) \<and> y \<in> rule_states R"
proof (induction arbitrary: x rule: compose_run.induct)
  case (compose_stop p qs)
  then show ?case by (intro exI [of _ "[]"] exI [of _ x]) (simp add: ci_run.stop)
next
  case (compose_go p qs a w p' qs' as u p'' qs'')
  from corresponds_move_complete [OF c compose_go.prems(1,2) compose_go.hyps(1) compose_go.prems(3)] obtain y i b where
    y: "p' < length (state_vector g)" "y \<in> rule_states R" "leaves y = qs'" "a = composed.symbols_of tab (i, b)"
      "(i, b, w, p', y) \<in> ci_moves (delta R) (lex_arcs L) (composed.skips tab R) p x" by blast
  from compose_go.IH [OF y(1,2) y(3) [symmetric]] obtain ns y' where IH:
    "ci_run (delta R) (lex_arcs L) (composed.skips tab R) p' y ns u p'' y'" "as = map (composed.symbols_of tab) ns"
    "leaves y' = qs''" "p'' < length (state_vector g)" "y' \<in> rule_states R" by blast
  from ci_run.step [OF y(5) IH(1)] IH y(4) show ?case
    by (intro exI [of _ "(i, b) # ns"] exI [of _ y']) simp
qed

text \<open>What the composition accepts, said of the graphs.\<close>

definition composition_accepts ::
  "'w::monoid_add hbt \<Rightarrow> 'w hbt list \<Rightarrow> string_pair list \<Rightarrow> 'w \<Rightarrow> bool" where
  "composition_accepts lexicon gs ps w \<longleftrightarrow> (\<exists>v p qs f. compose_run lexicon gs 0 (map (\<lambda>g. 0) gs) ps v p qs \<and>
     add_weights (final_weight_map lexicon p) (rules_final gs qs) = Some f \<and> w = v + f)"

lemma composition_correct:
  fixes lexicon :: "'w::{linorder, comm_monoid_add} hbt"
  assumes c: "corresponds tab lexicon gs L R" and size: "length (state_vector lexicon) * graph_size gs \<le> 4294967296"
  shows "\<exists>g. compose_with_rules rule_functions tab L R = Some (Inr g) \<and> wf_hbt g \<and>
     (\<forall>ps w. weighted_accepts g ps w = composition_accepts lexicon gs ps w)"
proof -
  have tab: "program_table tab" "symtab_ok tab" and wf: "wf_graph lexicon" and lex: "lexicon_of_graph tab lexicon L"
    and m: "means tab gs R" using c unfolding corresponds_def program_table_def by blast+
  have L: "lexicon_ok tab L" "ci_size L = length (state_vector lexicon)"
    and fin: "\<And>p. p < length (state_vector lexicon) \<Longrightarrow> finality L ! p = final_weight_map lexicon p"
    using lex unfolding lexicon_of_graph_def by blast+
  from means_start [OF m] obtain x0 where x0: "denote R 0 = Some x0" "leaves x0 = map (\<lambda>g. 0) gs" by (elim exE conjE)
  have start: "x0 \<in> rule_states R" "0 < length (state_vector lexicon)"
    using denote_in [OF x0(1)] wf by (simp_all add: wf_graph_def)
  have eps: "valid_number tab epsilon_number"
    using tab numbered_symbol [OF tab(2)] unfolding program_table_def by blast
  have "ci_size L * card (rule_states R) \<le> 4294967296" using size unfolding L(2) means_card [OF m] graph_size_def .
  from composed.compose_ok [OF tab(2) eps L(1) means_states(1) [OF m] x0(1) means_outputs [OF tab(2) m] this] obtain g where
    g: "compose_with_rules rule_functions tab L R = Some (Inr g)" "wf_hbt g"
      "\<And>ps w. weighted_accepts g ps w \<longleftrightarrow> (\<exists>ns v p x f. ci_run (delta R) (lex_arcs L) (composed.skips tab R) 0 x0 ns v p x \<and>
        ps = map (composed.symbols_of tab) ns \<and> add_weights (finality L ! p) (rule_final R x) = Some f \<and> w = v + f)" by blast
  have "weighted_accepts g ps w \<longleftrightarrow> composition_accepts lexicon gs ps w" for ps w
  proof
    assume "weighted_accepts g ps w"
    then obtain ns v p x f where r: "ci_run (delta R) (lex_arcs L) (composed.skips tab R) 0 x0 ns v p x"
      "ps = map (composed.symbols_of tab) ns" "add_weights (finality L ! p) (rule_final R x) = Some f" "w = v + f"
      unfolding g(3) by blast
    note run = corresponds_run_sound [OF c r(1) start(2,1)]
    have "add_weights (final_weight_map lexicon p) (rules_final gs (leaves x)) = Some f"
      using r(3) fin [of p] means_final [OF m, of x] run by simp
    with run r(2,4) show "composition_accepts lexicon gs ps w" unfolding composition_accepts_def x0(2) by blast
  next
    assume "composition_accepts lexicon gs ps w"
    then obtain v p qs f where r: "compose_run lexicon gs 0 (leaves x0) ps v p qs"
      "add_weights (final_weight_map lexicon p) (rules_final gs qs) = Some f" "w = v + f"
      unfolding composition_accepts_def x0(2) by blast
    from corresponds_run_complete [OF c r(1) start(2,1) refl] obtain ns y where
      run: "ci_run (delta R) (lex_arcs L) (composed.skips tab R) 0 x0 ns v p y" "ps = map (composed.symbols_of tab) ns"
        "leaves y = qs" "p < length (state_vector lexicon)" "y \<in> rule_states R" by blast
    have "add_weights (finality L ! p) (rule_final R y) = Some f"
      using r(2) fin [OF run(4)] means_final [OF m run(5)] run(3) by simp
    with run(1,2) r(3) show "weighted_accepts g ps w" unfolding g(3) by blast
  qed
  with g(1,2) show ?thesis by blast
qed

lemma skips_known:
  assumes tab: "program_table tab" and z: "symbol2number tab z = Some k"
    and kn: "rule_known_symbol k tab R = Inr b" and b: "b \<longleftrightarrow> (\<exists>g. gs = [g] \<and> z \<in> alphabet g)"
  shows "composed.skips tab R k = lexicon_alone gs z"
proof -
  have ok: "symtab_ok tab" using tab by (simp add: program_table_def)
  have "symbol_of tab k = z" using z numbered_symbol [OF ok] by blast
  moreover have "k = epsilon_number \<longleftrightarrow> z = internal_epsilon"
  proof -
    have "symbol2number tab internal_epsilon = Some epsilon_number" using tab by (simp add: program_table_def)
    then show ?thesis using symtab_number_inj [OF ok z, of internal_epsilon] z by auto
  qed
  moreover have "(case gs of [g] \<Rightarrow> z \<notin> alphabet g | _ \<Rightarrow> True) \<longleftrightarrow> \<not> b" unfolding b by (auto split: list.split)
  moreover have "known_symbol_of rule_functions k tab R = Inr b" using kn by (simp add: rule_functions_def)
  ultimately show ?thesis by (simp add: composed.skips_def lexicon_alone_def)
qed

lemma known_symbol_get:
  assumes "symtab_ok tab" and "symbol2number tab z = Some k"
  shows "size_t_to_uint k = Inr k" and "get_symbol k tab = Inr z"
proof -
  show "get_symbol k tab = Inr z" using get_symbol_number [OF assms(1)] assms(2) by blast
  have "max_number tab < 4294967295" using assms(1) unfolding symtab_ok_def by blast
  with symtab_number_less [OF assms] show "size_t_to_uint k = Inr k" by (simp add: size_t_to_uint_def)
qed

lemma composition_ready:
  fixes lexicon :: "'w::{linorder, comm_monoid_add} hbt"
  assumes tab: "program_table tab" and v: "rules_ready tab v" "v \<noteq> []" "graph_size v \<le> 4294967296"
    and g: "wf_hbt lexicon" "all_numbered tab lexicon" "alphabet lexicon \<subseteq> dom (symbol2number tab)"
  shows "\<exists>R L. build_rules v tab = Inr (R, tab) \<and> ci_lexicon_new lexicon tab = Inr (L, tab) \<and>
     corresponds tab lexicon (rule_order v) L R"
proof -
  have ok: "symtab_ok tab" using tab by (simp add: program_table_def)
  from build_rules_ok [OF tab v] obtain R where R: "build_rules v tab = Inr (R, tab)" "means tab (rule_order v) R"
    "case v of [g] \<Rightarrow> \<exists>r. R = Rule r \<and> rule_symbols r = alphabet g | _ \<Rightarrow> is_pair R" by blast
  from lexicon_new_ok [OF ok g] obtain L where L: "ci_lexicon_new lexicon tab = Inr (L, tab)" "lexicon_of_graph tab lexicon L"
    by blast
  have order: "set (rule_order v) = set v" "length (rule_order v) = length v"
    by (simp_all add: rule_order_def) (metis append_take_drop_id set_append sup_commute)
  have skip: "composed.skips tab R k = lexicon_alone (rule_order v) z" if z: "symbol2number tab z = Some k" for z k
  proof -
    note get = known_symbol_get [OF ok z]
    show ?thesis
    proof (cases "\<exists>g. v = [g]")
      case True
      then obtain g where vg: "v = [g]" by blast
      with R(3) obtain r where r: "R = Rule r" "rule_symbols r = alphabet g" by auto
      have "rule_known_symbol k tab R = Inr (z \<in> alphabet g)" using r get by (simp add: known_symbol_def)
      then show ?thesis by (rule skips_known [OF tab z]) (simp add: vg rule_order_def)
    next
      case False
      then have "is_pair R" using R(3) v(2) by (auto split: list.splits)
      then have "rule_known_symbol k tab R = Inr False" using get by (cases R) (simp_all add: is_pair_def)
      moreover have "rule_order v \<noteq> [g]" for g
      proof
        assume "rule_order v = [g]"
        then have "length v = 1" using order(2) by simp
        with False show False by (auto simp: length_Suc_conv)
      qed
      ultimately show ?thesis by (intro skips_known [OF tab z]) auto
    qed
  qed
  have wf: "wf_graph lexicon" "\<forall>h \<in> set (rule_order v). wf_graph h \<and> all_numbered tab h"
    using g(1) v(1) unfolding order rules_ready_def wf_hbt_def by blast+
  have "rule_order v \<noteq> []"
  proof
    assume "rule_order v = []"
    with order(2) have "length v = 0" by simp
    with v(2) show False by simp
  qed
  then have "corresponds tab lexicon (rule_order v) L R"
    unfolding corresponds_def using tab g(2) L(2) R(2) wf skip by blast
  with R(1) L(1) show ?thesis by blast
qed

text \<open>C16. Compose-intersect is right: for a lexicon and a list of deterministic rules whose symbols all
  have numbers, with no more than \<open>2^32\<close> combinations of their states, building the chain of rules and
  composing the lexicon with it returns a well-formed graph, and the graph accepts a sequence of symbol
  pairs with a weight exactly when the lexicon and all rules in parallel do: the lexicon goes alone
  over epsilon and over flag diacritics the rules do not see, the rules go alone over epsilon, and
  otherwise every rule reads what the lexicon realizes. Lexicon transitions that read identity do not take part, since
  the code drops them.\<close>

theorem compose_intersect_correct:
  fixes lexicon :: "'w::{linorder, comm_monoid_add} hbt"
  assumes "program_table tab" and "rules_ready tab v" and "v \<noteq> []"
    and "wf_hbt lexicon" and "all_numbered tab lexicon" and "alphabet lexicon \<subseteq> dom (symbol2number tab)"
    and "length (state_vector lexicon) * graph_size v \<le> 4294967296"
  shows "\<exists>g. compose_lexicon_with lexicon v tab = Some (Inr g) \<and> wf_hbt g \<and>
     (\<forall>ps w. weighted_accepts g ps w = composition_accepts lexicon (rule_order v) ps w)"
proof -
  have "0 < length (state_vector lexicon)" using assms(4) by (simp add: wf_hbt_def wf_graph_def)
  then have "1 * graph_size v \<le> length (state_vector lexicon) * graph_size v" by (intro mult_le_mono) linarith+
  with assms(7) have "graph_size v \<le> 4294967296" by linarith
  from composition_ready [OF assms(1-3) this assms(4-6)] obtain R L where
    b: "build_rules v tab = Inr (R, tab)" "ci_lexicon_new lexicon tab = Inr (L, tab)" "corresponds tab lexicon (rule_order v) L R"
    by blast
  have "length (state_vector lexicon) * graph_size (rule_order v) \<le> 4294967296"
    using assms(7) by (simp add: graph_size_rule_order)
  from composition_correct [OF b(3) this] b(1,2) show ?thesis by (simp add: compose_lexicon_with_def)
qed

section \<open>An example\<close>

text \<open>A lexicon with the one word \<open>a\<close>, and a rule that lets every symbol through that it does not know.\<close>

definition demo_table :: symtab where
  "demo_table = \<lparr>number2symbol = [internal_epsilon, internal_unknown, internal_identity, ''a''],
     symbol2number = [internal_epsilon \<mapsto> 0, internal_unknown \<mapsto> 1, internal_identity \<mapsto> 2, ''a'' \<mapsto> 3], max_number = 3\<rparr>"

definition demo_lexicon :: "nat hbt" where
  "demo_lexicon = \<lparr>hbt_name = [], state_vector = [[\<lparr>tr_target = 1, tr_input = ''a'', tr_output = ''a'', tr_weight = 1\<rparr>], []],
     final_weight_map = [1 \<mapsto> 2], alphabet = initialize_alphabet {''a''}\<rparr>"

definition demo_rule :: "nat hbt" where
  "demo_rule = \<lparr>hbt_name = [], state_vector =
     [[\<lparr>tr_target = 0, tr_input = internal_identity, tr_output = internal_identity, tr_weight = 5\<rparr>]],
     final_weight_map = [0 \<mapsto> 3], alphabet = initialize_alphabet {}\<rparr>"

lemma demo_table_ok: "program_table demo_table"
proof -
  have "get_number ''a'' initial_symtab = Inr (3, demo_table)"
    by (simp add: get_number_def initial_symtab_def demo_table_def special_symbol_defs Let_def fun_upd_twist)
  from get_number_ok [OF symtab_ok_initial _ this] have "symtab_ok demo_table" by (simp add: initial_symtab_def)
  then show ?thesis
    by (simp add: program_table_def demo_table_def epsilon_number_def identity_number_def special_symbol_defs)
qed

lemmas demo_defs = demo_table_def demo_lexicon_def demo_rule_def special_symbol_defs initialize_alphabet_def

lemma demo_lexicon_ok: "wf_hbt demo_lexicon" "all_numbered demo_table demo_lexicon"
  "alphabet demo_lexicon \<subseteq> dom (symbol2number demo_table)"
  by (auto simp: demo_defs wf_hbt_def wf_graph_def wf_alphabet_def wf_transition_def all_numbered_def numbered_def)

lemma demo_rules_ok: "rules_ready demo_table [demo_rule, demo_rule]"
proof -
  have tr: "transitions_of demo_rule s = (if s = 0
      then [\<lparr>tr_target = 0, tr_input = internal_identity, tr_output = internal_identity, tr_weight = 5\<rparr>] else [])" for s
    by (simp add: transitions_of_def demo_rule_def)
  have "det_rule demo_rule" unfolding det_rule_def tr by simp
  moreover have "wf_hbt demo_rule" "all_numbered demo_table demo_rule"
    by (simp_all add: demo_defs wf_hbt_def wf_graph_def wf_alphabet_def wf_transition_def all_numbered_def numbered_def)
  moreover have "alphabet demo_rule \<subseteq> dom (symbol2number demo_table)" by (auto simp: demo_defs)
  ultimately show ?thesis by (simp add: rules_ready_def)
qed

lemma demo_accepts: "composition_accepts demo_lexicon [demo_rule, demo_rule] [(''a'', ''a'')] 19"
proof -
  have read: "rule_reads demo_rule 0 ''a'' ''a'' 5 0"
    by (simp add: rule_reads_def transitions_of_def demo_defs)
  let ?t = "\<lparr>tr_target = 1, tr_input = ''a'', tr_output = ''a'', tr_weight = 1\<rparr> :: nat transition"
  have "compose_step demo_lexicon [demo_rule, demo_rule] 0 [0, 0] (tr_input ?t, ''a'') (tr_weight ?t + 10) (tr_target ?t) [0, 0]"
  proof (rule both_step)
    show "?t \<in> set (transitions_of demo_lexicon 0)" by (simp add: transitions_of_def demo_lexicon_def)
    show "\<not> lexicon_alone [demo_rule, demo_rule] (tr_output ?t)"
      by (simp add: lexicon_alone_def special_symbol_defs is_diacritic_def)
    have "rules_read [demo_rule] [0] ''a'' ''a'' 5 [0]" using read by auto
    with read show "rules_read [demo_rule, demo_rule] [0, 0] (tr_output ?t) ''a'' 10 [0, 0]" by force
  qed (simp add: special_symbol_defs)
  from compose_go [OF this compose_stop] have
    run: "compose_run demo_lexicon [demo_rule, demo_rule] 0 [0, 0] [(''a'', ''a'')] 11 1 [0, 0]" by simp
  show ?thesis unfolding composition_accepts_def
    by (rule exI [of _ 11], rule exI [of _ 1], rule exI [of _ "[0, 0]"], rule exI [of _ 8])
      (use run in \<open>simp add: demo_lexicon_def demo_rule_def\<close>)
qed

lemma compose_intersect_correct_witness:
  "\<exists>g. compose_lexicon_with demo_lexicon [demo_rule, demo_rule] demo_table = Some (Inr g) \<and>
     weighted_accepts g [(''a'', ''a'')] 19"
  using compose_intersect_correct [OF demo_table_ok demo_rules_ok _ demo_lexicon_ok] demo_accepts
  by (auto simp: graph_size_def rule_order_def demo_lexicon_def demo_rule_def)

text \<open>C17. Looking transitions up in a rule, or in a chain of rules whose states and transitions are
  computed when they are asked for, gives the transitions of the intersection of the rules with
  their weights; their targets are numbers for the right combinations of states, and what is stored
  on the way changes nothing of what the rule means.\<close>

theorem rule_lookup_refines:
  fixes R :: "'w::{linorder, plus} rule"
  assumes "rule_ok R" and "denote R s = Some x"
  shows "\<exists>ts R'. rule_get_transitions s symbol R = Inr (ts, R') \<and> rule_ok R' \<and> rule_ext R R' \<and>
     represents (denote R') ts symbol (delta R x symbol)"
  by (rule rule_get_transitions_ok [OF assms])

lemma rule_lookup_refines_witness:
  "\<exists>R x ts R'. build_rules [demo_rule, demo_rule] demo_table = Inr (R, demo_table) \<and>
     rule_get_transitions 0 3 R = Inr (ts, R') \<and> represents (denote R') ts 3 (delta R x 3)"
proof -
  from build_rules_ok [OF demo_table_ok demo_rules_ok] obtain R where
    R: "build_rules [demo_rule, demo_rule] demo_table = Inr (R, demo_table)" "means demo_table [demo_rule, demo_rule] R"
    by (auto simp: graph_size_def rule_order_def demo_rule_def)
  from means_start [OF R(2)] obtain x where "denote R 0 = Some x" by (elim exE conjE)
  from rule_lookup_refines [OF means_states(1) [OF R(2)] this, of 3] R(1) show ?thesis by blast
qed

end
