(* ===== verification/OlEncoder.thy ===== *)
theory OlEncoder
  imports Tokenizer
begin

text \<open>
  The alphabet and the input side of optimized-lookup transducers
  (\<open>optimized-lookup/transducer.h\<close>, \<open>transducer.cc\<close>, \<open>ospell.cc\<close>): \<open>TransducerAlphabet\<close>, the letter trie,
  \<open>Encoder\<close> with its short cut for single ASCII characters, and the tokenization of the input in
  \<open>Transducer::initialize_input\<close>, which adds unknown characters to the alphabet as it meets them.
  A symbol number is an \<open>unsigned short\<close>; the model writes its wrap-around out. Shown: the
  encoder finds the longest symbol, and tokenization is a maximal munch of the input.
\<close>

section \<open>TransducerAlphabet\<close>

definition no_symbol_number :: nat where "no_symbol_number = 65535"

definition to_symbol_number :: "nat \<Rightarrow> nat" where
  "to_symbol_number n = n mod 65536"

record ol_alphabet =
  symbol_table :: "string list"
  ol_fd_table :: "nat fd_table"
  unknown_symbol :: nat
  default_symbol :: nat
  identity_symbol :: nat
  orig_symbol_count :: nat

definition ol_alphabet_empty :: ol_alphabet where
  "ol_alphabet_empty = \<lparr>symbol_table = [internal_epsilon], ol_fd_table = empty_fd_table, unknown_symbol = no_symbol_number,
     default_symbol = no_symbol_number, identity_symbol = no_symbol_number, orig_symbol_count = 1\<rparr>"

definition classify_symbol :: "nat \<times> string \<Rightarrow> ol_alphabet \<Rightarrow> ol_alphabet result" where
  "classify_symbol istr a =
     (case istr of (i, str) \<Rightarrow>
        if is_diacritic str then rmap (\<lambda>t. a\<lparr>ol_fd_table := t\<rparr>) (define_diacritic i str (ol_fd_table a))
        else if is_unknown str then Inr (a\<lparr>unknown_symbol := i\<rparr>)
        else if is_default str then Inr (a\<lparr>default_symbol := i\<rparr>)
        else if is_identity str then Inr (a\<lparr>identity_symbol := i\<rparr>)
        else Inr a)"

text \<open>The loop counts in a \<open>SymbolNumber\<close>, so it never ends for a table of more than 65535 symbols.\<close>

definition ol_alphabet_new :: "string list \<Rightarrow> ol_alphabet result" where
  "ol_alphabet_new st =
     (if length st > 65535 then Inl Diverges
      else rfold classify_symbol (enumerate 0 st)
        \<lparr>symbol_table = st, ol_fd_table = empty_fd_table, unknown_symbol = no_symbol_number,
         default_symbol = no_symbol_number, identity_symbol = no_symbol_number,
         orig_symbol_count = to_symbol_number (length st)\<rparr>)"

definition add_symbol_ol :: "string \<Rightarrow> ol_alphabet \<Rightarrow> ol_alphabet" where
  "add_symbol_ol symbol a = a\<lparr>symbol_table := symbol_table a @ [symbol]\<rparr>"

definition is_flag_diacritic :: "ol_alphabet \<Rightarrow> nat \<Rightarrow> bool" where
  "is_flag_diacritic a symbol = table_is_diacritic (ol_fd_table a) symbol"

definition is_like_epsilon :: "ol_alphabet \<Rightarrow> nat \<Rightarrow> bool" where
  "is_like_epsilon a symbol =
     (if table_is_diacritic (ol_fd_table a) symbol then True
      else if symbol \<ge> length (symbol_table a) then False
      else let s = symbol_table a ! symbol in
        length s \<ge> 5 \<and> s ! 0 = CHR ''@'' \<and> s ! 1 = CHR ''I'' \<and> s ! 2 = CHR ''.'' \<and> s ! (length s - 1) = CHR ''@'')"

definition is_meta_arc :: "ol_alphabet \<Rightarrow> nat \<Rightarrow> bool" where
  "is_meta_arc a symbol =
     (if symbol = no_symbol_number then False
      else symbol = unknown_symbol a \<or> symbol = default_symbol a \<or> symbol = identity_symbol a)"

definition string_from_symbol :: "ol_alphabet \<Rightarrow> nat \<Rightarrow> string result" where
  "string_from_symbol a symbol =
     (if symbol = 0 then Inr []
      else if symbol < length (symbol_table a) then Inr (symbol_table a ! symbol) else Inl UndefinedBehaviour)"

fun first_position :: "string \<Rightarrow> string list \<Rightarrow> nat option" where
  "first_position s [] = None"
| "first_position s (x # xs) = (if x = s then Some 0 else map_option Suc (first_position s xs))"

definition symbol_from_string :: "ol_alphabet \<Rightarrow> string \<Rightarrow> nat result" where
  "symbol_from_string a s =
     (case first_position s (symbol_table a) of
        Some i \<Rightarrow> if i \<le> 65535 then Inr i else Inl Diverges
      | None \<Rightarrow> if length (symbol_table a) > 65535 then Inl Diverges else Inr no_symbol_number)"

definition build_string_symbol_map :: "ol_alphabet \<Rightarrow> (string \<rightharpoonup> nat) result" where
  "build_string_symbol_map a =
     (if length (symbol_table a) > 65535 then Inl Diverges
      else Inr (fold (\<lambda>(i, s) m. m(s \<mapsto> i)) (enumerate 0 (symbol_table a)) Map.empty))"

section \<open>OlLetterTrie\<close>

datatype ol_trie = OlTrie (letters: "char \<Rightarrow> ol_trie option") (ol_symbols: "char \<Rightarrow> nat")

definition new_ol_trie :: ol_trie where
  "new_ol_trie = OlTrie (\<lambda>c. None) (\<lambda>c. no_symbol_number)"

text \<open>A string is what stands before the terminating zero; an empty one makes the code read past it.\<close>

fun add_string :: "string \<Rightarrow> nat \<Rightarrow> ol_trie \<Rightarrow> ol_trie result" where
  "add_string [] symbol_key t = Inl UndefinedBehaviour"
| "add_string [c] symbol_key t = Inr (OlTrie (letters t) ((ol_symbols t)(c := symbol_key)))"
| "add_string (c # d # p) symbol_key t =
     rmap (\<lambda>u. OlTrie ((letters t)(c \<mapsto> u)) (ol_symbols t))
       (add_string (d # p) symbol_key (case letters t c of None \<Rightarrow> new_ol_trie | Some u \<Rightarrow> u))"

definition has_key_starting_with :: "char \<Rightarrow> ol_trie \<Rightarrow> bool" where
  "has_key_starting_with c t \<longleftrightarrow> letters t c \<noteq> None"

text \<open>\<open>find_key\<close> returns the symbol and how far the pointer moved.\<close>

fun trie_find_key :: "ol_trie \<Rightarrow> string \<Rightarrow> (nat \<times> nat) result" where
  "trie_find_key t [] =
     (case letters t (CHR 0x00) of
        None \<Rightarrow> Inr (ol_symbols t (CHR 0x00), 1)
      | Some u \<Rightarrow> Inl UndefinedBehaviour)"
| "trie_find_key t (c # p) =
     (case letters t c of
        None \<Rightarrow> Inr (ol_symbols t c, 1)
      | Some u \<Rightarrow> rmap (\<lambda>(s, n). if s = no_symbol_number then (ol_symbols t c, 1 + n - 1) else (s, 1 + n))
          (trie_find_key u p))"

section \<open>Encoder\<close>

definition should_ascii_tokenize :: "char \<Rightarrow> bool" where
  "should_ascii_tokenize c \<longleftrightarrow> (of_char c :: nat) \<le> 127"

record encoder =
  number_of_input_symbols :: nat
  enc_letters :: ol_trie
  ascii_symbols :: "char \<Rightarrow> nat"

definition read_input_symbol :: "string \<Rightarrow> nat \<Rightarrow> encoder \<Rightarrow> encoder result" where
  "read_input_symbol s s_num e =
     (let e1 = (if length s = 1 \<and> should_ascii_tokenize (s ! 0) \<and> \<not> has_key_starting_with (s ! 0) (enc_letters e)
           then e\<lparr>ascii_symbols := (ascii_symbols e)(s ! 0 := to_symbol_number s_num)\<rparr> else e);
         e2 = (if length s > 1 \<and> should_ascii_tokenize (s ! 0) \<and> ascii_symbols e1 (s ! 0) \<noteq> no_symbol_number
           then e1\<lparr>ascii_symbols := (ascii_symbols e1)(s ! 0 := no_symbol_number)\<rparr> else e1)
      in rmap (\<lambda>t. e2\<lparr>enc_letters := t\<rparr>) (add_string s (to_symbol_number s_num) (enc_letters e2)))"

definition read_input_symbols :: "string list \<Rightarrow> encoder \<Rightarrow> encoder result" where
  "read_input_symbols kt e =
     rfold (\<lambda>k e. if k < length kt then read_input_symbol (kt ! k) k e else Inl UndefinedBehaviour)
       [0..<number_of_input_symbols e] e"

definition new_encoder :: "string list \<Rightarrow> nat \<Rightarrow> encoder result" where
  "new_encoder st input_symbol_count =
     read_input_symbols st \<lparr>number_of_input_symbols = input_symbol_count, enc_letters = new_ol_trie,
       ascii_symbols = (\<lambda>c. no_symbol_number)\<rparr>"

definition find_key :: "encoder \<Rightarrow> string \<Rightarrow> (nat \<times> nat) result" where
  "find_key e p =
     (let c = (case p of [] \<Rightarrow> CHR 0x00 | c # cs \<Rightarrow> c)
      in if \<not> should_ascii_tokenize c \<or> ascii_symbols e c = no_symbol_number
         then trie_find_key (enc_letters e) p else Inr (ascii_symbols e c, 1))"

section \<open>Tokenization of the input\<close>

definition nByte_utf8 :: "char \<Rightarrow> nat" where
  "nByte_utf8 c =
     (if (of_char c :: nat) \<le> 127 then 1
      else if digit7 c \<and> digit6 c \<and> digit5 c \<and> digit4 c then 4
      else if digit7 c \<and> digit6 c \<and> digit5 c then 3
      else if digit7 c \<and> digit6 c then 2 else 0)"

definition tape_write :: "nat \<Rightarrow> nat \<Rightarrow> nat list \<Rightarrow> nat list" where
  "tape_write i s tape =
     (if length tape > i then tape[i := s]
      else (tape @ replicate (i + 1 - length tape) no_symbol_number)[i := s])"

text \<open>One turn of the loop at a text that is not empty: the symbol written, the rest of the text, and
  the alphabet and encoder, which grow when the text begins with no symbol. \<open>None\<close>: the tokenization fails.\<close>

definition next_input_symbol ::
  "string \<Rightarrow> ol_alphabet \<times> encoder \<Rightarrow> (nat \<times> string \<times> ol_alphabet \<times> encoder) option result" where
  "next_input_symbol p ae =
     (case ae of (a, e) \<Rightarrow>
        rbind (find_key e p) (\<lambda>(k, n).
          if k \<noteq> no_symbol_number then Inr (Some (k, drop n p, a, e))
          else
            let bytes_to_tokenize = nByte_utf8 (p ! 0) in
            if bytes_to_tokenize = 0 then Inr None
            else if length p < bytes_to_tokenize then Inl UndefinedBehaviour
            else
              let new_symbol = take bytes_to_tokenize p; a1 = add_symbol_ol new_symbol a;
                  k = length (symbol_table a1) - 1 in
              rmap (\<lambda>e1. Some (to_symbol_number k, drop bytes_to_tokenize p, a1, e1))
                (read_input_symbol new_symbol (to_symbol_number k) e)))"

lemma rest_shorter:
  assumes "next_input_symbol p ae = Inr (Some (k, rest, ae'))" and "p \<noteq> []"
  shows "length rest < length p"
proof -
  have "trie_find_key t s = Inr (k, n) \<Longrightarrow> 0 < n" for t s k n
    by (induction t s arbitrary: k n rule: trie_find_key.induct)
       (fastforce simp: result_simps split: option.splits if_splits prod.splits)+
  then have "find_key e p = Inr (k, n) \<Longrightarrow> 0 < n" for e k n
    by (fastforce simp: find_key_def Let_def split: if_splits)
  with assms show ?thesis
    by (fastforce simp: next_input_symbol_def Let_def result_simps split: prod.splits if_splits)
qed

function input_loop ::
  "string \<Rightarrow> nat \<Rightarrow> nat list \<Rightarrow> ol_alphabet \<times> encoder \<Rightarrow> (bool \<times> nat list \<times> ol_alphabet \<times> encoder) result" where
  "input_loop p i tape ae =
     (if p = [] then Inr (True, tape_write i no_symbol_number tape, ae)
      else case next_input_symbol p ae of
          Inl err \<Rightarrow> Inl err
        | Inr None \<Rightarrow> Inr (False, tape, ae)
        | Inr (Some (k, rest, ae')) \<Rightarrow> input_loop rest (i + 1) (tape_write i k tape) ae')"
  by pat_completeness auto
termination
  by (relation "measure (\<lambda>(p, i, tape, ae). length p)") (auto dest: rest_shorter)

declare input_loop.simps [simp del]

definition initialize_input ::
  "string \<Rightarrow> nat list \<Rightarrow> ol_alphabet \<times> encoder \<Rightarrow> (bool \<times> nat list \<times> ol_alphabet \<times> encoder) result" where
  "initialize_input input tape ae = input_loop (c_str input) 0 tape ae"

definition include_symbol_in_alphabet :: "string \<Rightarrow> ol_alphabet \<times> encoder \<Rightarrow> (ol_alphabet \<times> encoder) result" where
  "include_symbol_in_alphabet s ae =
     (case ae of (a, e) \<Rightarrow>
        rbind (symbol_from_string a s) (\<lambda>key.
          if key \<noteq> no_symbol_number then Inr (a, e)
          else rmap (\<lambda>e1. (add_symbol_ol s a, e1))
                 (read_input_symbol s (to_symbol_number (length (symbol_table a))) e)))"

section \<open>The trie is a dictionary\<close>

text \<open>The number a trie has for a string.\<close>

fun trie_number :: "ol_trie \<Rightarrow> string \<Rightarrow> nat" where
  "trie_number t [] = no_symbol_number"
| "trie_number t [c] = ol_symbols t c"
| "trie_number t (c # d # cs) = (case letters t c of None \<Rightarrow> no_symbol_number | Some u \<Rightarrow> trie_number u (d # cs))"

inductive ol_trie_ok :: "ol_trie \<Rightarrow> bool" where
  "letters t (CHR 0x00) = None \<Longrightarrow> ol_symbols t (CHR 0x00) = no_symbol_number \<Longrightarrow>
   (\<And>c u. letters t c = Some u \<Longrightarrow> ol_trie_ok u) \<Longrightarrow> ol_trie_ok t"

inductive_simps ol_trie_ok_simps: "ol_trie_ok t"

lemma trie_number_Cons:
  "trie_number t (c # cs) = (if cs = [] then ol_symbols t c
     else case letters t c of None \<Rightarrow> no_symbol_number | Some u \<Rightarrow> trie_number u cs)"
  by (cases cs) auto

lemma trie_number_new [simp]: "trie_number new_ol_trie w = no_symbol_number"
  by (cases w) (auto simp: new_ol_trie_def trie_number_Cons)

lemma ol_trie_ok_new [simp]: "ol_trie_ok new_ol_trie"
  by (subst ol_trie_ok_simps) (simp add: new_ol_trie_def)

lemma add_string_total: "s \<noteq> [] \<Longrightarrow> \<exists>t'. add_string s k t = Inr t'"
  by (induction s k t rule: add_string.induct) auto

lemma add_string_number: "add_string s k t = Inr t' \<Longrightarrow> trie_number t' w = (if w = s then k else trie_number t w)"
proof (induction s k t arbitrary: t' w rule: add_string.induct)
  case (2 c k t)
  then show ?case by (cases w) (auto simp: trie_number_Cons)
next
  case (3 c d p k t)
  let ?u = "case letters t c of None \<Rightarrow> new_ol_trie | Some u \<Rightarrow> u"
  from "3.prems" obtain u where u: "add_string (d # p) k ?u = Inr u" "t' = OlTrie ((letters t)(c \<mapsto> u)) (ol_symbols t)"
    by (auto simp: result_simps)
  have IH: "trie_number u v = (if v = d # p then k else trie_number ?u v)" for v using 3 u by simp
  show ?case
  proof (cases w)
    case (Cons e es)
    with u(2) IH [of es] show ?thesis by (auto simp: trie_number_Cons split: option.splits)
  qed simp
qed simp

lemma add_string_ok: "add_string s k t = Inr t' \<Longrightarrow> ol_trie_ok t \<Longrightarrow> CHR 0x00 \<notin> set s \<Longrightarrow> ol_trie_ok t'"
proof (induction s k t arbitrary: t' rule: add_string.induct)
  case (2 c k t)
  then have t': "t' = OlTrie (letters t) ((ol_symbols t)(c := k))" by simp
  show ?case using 2 by (subst ol_trie_ok_simps) (simp add: t' ol_trie_ok_simps [of t])
next
  case (3 c d p k t)
  let ?u = "case letters t c of None \<Rightarrow> new_ol_trie | Some u \<Rightarrow> u"
  from "3.prems" obtain u where u: "add_string (d # p) k ?u = Inr u" "t' = OlTrie ((letters t)(c \<mapsto> u)) (ol_symbols t)"
    by (auto simp: result_simps)
  have t: "letters t (CHR 0x00) = None" "ol_symbols t (CHR 0x00) = no_symbol_number" "\<And>c u. letters t c = Some u \<Longrightarrow> ol_trie_ok u"
    using "3.prems"(2) by (simp_all add: ol_trie_ok_simps [of t])
  then have "ol_trie_ok ?u" by (simp split: option.split)
  with 3 u have "ol_trie_ok u" by simp
  with t "3.prems"(3) show ?case by (subst ol_trie_ok_simps) (simp add: u(2))
qed simp

definition trie_word :: "ol_trie \<Rightarrow> string \<Rightarrow> bool" where
  "trie_word t w \<longleftrightarrow> trie_number t w \<noteq> no_symbol_number"

text \<open>The pointer and the number after a search.\<close>

definition found :: "(string \<Rightarrow> nat) \<Rightarrow> string \<Rightarrow> nat option \<Rightarrow> nat \<times> nat" where
  "found number s r = (case r of None \<Rightarrow> (no_symbol_number, 1) | Some n \<Rightarrow> (number (take n s), n))"

lemma trie_find_key_longest:
  "ol_trie_ok t \<Longrightarrow> \<exists>r. trie_find_key t s = Inr (found (trie_number t) s r) \<and> longest (trie_word t) s r"
proof (induction t s rule: trie_find_key.induct)
  case (1 t)
  then show ?case by (simp add: ol_trie_ok_simps [of t] found_def longest_def exI [of _ None])
next
  case (2 t c p)
  have ne: "take m p \<noteq> []" if "0 < m" "m \<le> length p" for m using that by (cases p) auto
  have here: "found (trie_number t) (c # p) (if ol_symbols t c = no_symbol_number then None else Some (Suc 0)) =
      (ol_symbols t c, 1)" by (simp add: found_def)
  show ?case
  proof (cases "letters t c")
    case None
    then have "\<not> trie_word t (c # take m p)" if "0 < m" "m \<le> length p" for m
      using ne [OF that] by (simp add: trie_word_def trie_number_Cons)
    then have "longest (trie_word t) (c # p) (if ol_symbols t c = no_symbol_number then None else Some (Suc 0))"
      by (auto simp: longest_Cons trie_word_def)
    moreover have "trie_find_key t (c # p) = Inr (ol_symbols t c, 1)" using None by simp
    ultimately show ?thesis unfolding here [symmetric] by (intro exI conjI)
  next
    case (Some u)
    with "2.prems" have "ol_trie_ok u" by (auto simp: ol_trie_ok_simps [of t])
    from "2.IH" [OF Some this] obtain q where
      q: "trie_find_key u p = Inr (found (trie_number u) p q)" "longest (trie_word u) p q" by blast
    have step: "trie_number t (c # take m p) = trie_number u (take m p)" if "0 < m" "m \<le> length p" for m
      using Some ne [OF that] by (simp add: trie_number_Cons)
    show ?thesis
    proof (cases q)
      case None
      with q(2) step have "longest (trie_word t) (c # p) (if ol_symbols t c = no_symbol_number then None else Some (Suc 0))"
        by (auto simp: longest_Cons trie_word_def) (auto simp: longest_def trie_word_def)
      moreover have "trie_find_key t (c # p) = Inr (ol_symbols t c, 1)" using Some q(1) None by (simp add: found_def)
      ultimately show ?thesis unfolding here [symmetric] by (intro exI conjI)
    next
      case (Some n)
      have n: "0 < n" "n \<le> length p" "trie_word u (take n p)" using q(2) Some by (auto simp: longest_def)
      have "longest (trie_word t) (c # p) (Some (Suc n))"
        using q(2) Some step by (auto simp: longest_Cons trie_word_def) (auto simp: longest_def trie_word_def)
      moreover have "trie_find_key t (c # p) = Inr (found (trie_number t) (c # p) (Some (Suc n)))"
        using \<open>letters t c = Some u\<close> q(1) Some n step [OF n(1,2)] by (simp add: found_def trie_word_def)
      ultimately show ?thesis by blast
    qed
  qed
qed

section \<open>The short cut for ASCII\<close>

text \<open>The vector of ASCII symbols agrees with the trie, and holds no character a longer symbol begins with.\<close>

definition encoder_ok :: "encoder \<Rightarrow> bool" where
  "encoder_ok e \<longleftrightarrow> ol_trie_ok (enc_letters e) \<and>
     (\<forall>c. ascii_symbols e c \<noteq> no_symbol_number \<longrightarrow> should_ascii_tokenize c \<and> letters (enc_letters e) c = None \<and>
        ol_symbols (enc_letters e) c = ascii_symbols e c)"

definition encoder_number :: "encoder \<Rightarrow> string \<Rightarrow> nat" where
  "encoder_number e = trie_number (enc_letters e)"

definition encoder_word :: "encoder \<Rightarrow> string \<Rightarrow> bool" where
  "encoder_word e w \<longleftrightarrow> encoder_number e w \<noteq> no_symbol_number"

lemma find_key_trie: "encoder_ok e \<Longrightarrow> find_key e s = trie_find_key (enc_letters e) s"
  by (cases s) (auto simp: find_key_def encoder_ok_def Let_def)

lemma add_string_head:
  "add_string s k t = Inr t' \<Longrightarrow> letters t' c = (if 1 < length s \<and> c = s ! 0 then letters t' c else letters t c) \<and>
     ol_symbols t' c = (if s = [c] then k else ol_symbols t c)"
  by (cases "(s, k, t)" rule: add_string.cases) (auto simp: result_simps)

lemma read_input_symbol_ok:
  assumes "encoder_ok e" and "s \<noteq> []" and "CHR 0x00 \<notin> set s"
  shows "\<exists>e'. read_input_symbol s n e = Inr e' \<and> encoder_ok e' \<and> number_of_input_symbols e' = number_of_input_symbols e \<and>
     encoder_number e' = (encoder_number e)(s := to_symbol_number n)"
proof -
  let ?n = "to_symbol_number n"
  from add_string_total [OF assms(2)] obtain t where t: "add_string s ?n (enc_letters e) = Inr t" by blast
  obtain c cs where s: "s = c # cs" using assms(2) by (cases s) auto
  let ?a1 = "if cs = [] \<and> should_ascii_tokenize c \<and> letters (enc_letters e) c = None
      then (ascii_symbols e)(c := ?n) else ascii_symbols e"
  let ?a2 = "if cs \<noteq> [] \<and> should_ascii_tokenize c then ?a1(c := no_symbol_number) else ?a1"
  let ?e = "e\<lparr>enc_letters := t, ascii_symbols := ?a2\<rparr>"
  have "read_input_symbol s n e = Inr ?e"
    using t by (auto simp: read_input_symbol_def Let_def s has_key_starting_with_def fun_upd_idem)
  moreover have "encoder_ok ?e"
    unfolding encoder_ok_def
  proof (intro conjI allI impI)
    show "ol_trie_ok (enc_letters ?e)" using add_string_ok [OF t] assms(1,3) by (simp add: encoder_ok_def)
    fix d assume d: "ascii_symbols ?e d \<noteq> no_symbol_number"
    have old: "should_ascii_tokenize d \<and> letters (enc_letters e) d = None \<and> ol_symbols (enc_letters e) d = ascii_symbols e d"
      if "ascii_symbols e d \<noteq> no_symbol_number" using assms(1) that unfolding encoder_ok_def by blast
    show "should_ascii_tokenize d"
      using d old by (auto split: if_splits)
    then show "letters (enc_letters ?e) d = None" and "ol_symbols (enc_letters ?e) d = ascii_symbols ?e d"
      using d old add_string_head [OF t, of d] by (auto simp: s split: if_splits)
  qed
  moreover have "encoder_number ?e = (encoder_number e)(s := ?n)"
    using add_string_number [OF t] by (auto simp: encoder_number_def fun_eq_iff)
  ultimately show ?thesis by (intro exI [of _ ?e]) simp
qed

definition encoder_find :: "encoder \<Rightarrow> string \<Rightarrow> nat option result" where
  "encoder_find e s = rmap (\<lambda>(k, n). if k = no_symbol_number then None else Some n) (find_key e s)"

lemma find_key_longest:
  assumes "encoder_ok e"
  shows "\<exists>r. find_key e s = Inr (found (encoder_number e) s r) \<and> longest (encoder_word e) s r"
proof -
  have "trie_word (enc_letters e) = encoder_word e"
    by (simp add: fun_eq_iff trie_word_def encoder_word_def encoder_number_def)
  then show ?thesis
    using trie_find_key_longest [of "enc_letters e" s] assms find_key_trie [OF assms]
    by (simp add: encoder_ok_def encoder_number_def)
qed

text \<open>So the encoder is one more matcher for the lemmas of \<open>Tokenizer\<close>.\<close>

interpretation encoder: symbol_matcher encoder_find encoder_word encoder_ok "\<lambda>s. True"
proof
  fix e s assume "encoder_ok e"
  from find_key_longest [OF this] obtain r where
    r: "find_key e s = Inr (found (encoder_number e) s r)" "longest (encoder_word e) s r" by blast
  then have "encoder_find e s = Inr r"
    by (auto simp: encoder_find_def found_def longest_def encoder_word_def split: option.splits)
  with r(2) show "\<exists>r. encoder_find e s = Inr r \<and> longest (encoder_word e) s r" by blast
qed

section \<open>Maximal munch of the input\<close>

text \<open>A number on the input tape is that of an input symbol or of a character added later.\<close>

definition input_number :: "ol_alphabet \<Rightarrow> nat \<Rightarrow> nat \<Rightarrow> bool" where
  "input_number a n k \<longleftrightarrow> k < n \<or> orig_symbol_count a \<le> k"

lemma input_number_grown [simp]: "input_number (a\<lparr>symbol_table := st\<rparr>) = input_number a"
  by (simp add: fun_eq_iff input_number_def)

text \<open>The alphabet and the encoder agree, and the symbols are correct UTF-8.\<close>

definition input_ok :: "ol_alphabet \<times> encoder \<Rightarrow> bool" where
  "input_ok ae \<longleftrightarrow> (case ae of (a, e) \<Rightarrow> encoder_ok e \<and> orig_symbol_count a \<le> length (symbol_table a) \<and>
     (\<forall>w. encoder_word e w \<longrightarrow> utf8_ok w \<and> encoder_number e w < length (symbol_table a) \<and>
        symbol_table a ! encoder_number e w = w \<and> input_number a (number_of_input_symbols e) (encoder_number e w)))"

lemma nByte_utf8_char: "utf8_char x \<Longrightarrow> nByte_utf8 (x ! 0) = length x"
proof -
  assume "utf8_char x"
  then obtain c cs n where x: "x = c # cs" "additional_chars c = Inr n" "length cs = n" by (auto simp: utf8_char_def)
  have "(of_char c :: nat) \<le> 127 \<longleftrightarrow> \<not> digit7 c" by (cases c) (auto simp: of_char_def)
  then show ?thesis using x by (auto simp: nByte_utf8_def additional_chars_def split: if_splits)
qed

lemma next_input_symbol_ok:
  assumes ok: "input_ok (a, e)" and p: "utf8_ok p" "p \<noteq> []" "CHR 0x00 \<notin> set p" and room: "length (symbol_table a) < 65535"
  shows "\<exists>x rest k a' e' new. next_input_symbol p (a, e) = Inr (Some (k, rest, a', e')) \<and> p = x @ rest \<and> x \<noteq> [] \<and>
     utf8_ok rest \<and> input_ok (a', e') \<and> a' = a\<lparr>symbol_table := symbol_table a @ new\<rparr> \<and>
     number_of_input_symbols e' = number_of_input_symbols e \<and> input_number a (number_of_input_symbols e) k \<and> k < length (symbol_table a') \<and>
     symbol_table a' ! k = x \<and> k \<noteq> no_symbol_number \<and> length new \<le> 1 \<and>
     (if longest (encoder_word e) p None
      then utf8_char x \<and> new = [x] \<and> encoder_word e' = (encoder_word e)(x := True) \<and>
        encoder_number e' = (encoder_number e)(x := length (symbol_table a))
      else longest (encoder_word e) p (Some (length x)) \<and> new = [] \<and> e' = e)"
proof -
  have eok: "encoder_ok e" and words: "\<And>w. encoder_word e w \<Longrightarrow> utf8_ok w \<and> encoder_number e w < length (symbol_table a) \<and>
      symbol_table a ! encoder_number e w = w \<and> input_number a (number_of_input_symbols e) (encoder_number e w)"
    and orig: "orig_symbol_count a \<le> length (symbol_table a)" using ok by (auto simp: input_ok_def)
  obtain x rest where x: "p = x @ rest" "x \<noteq> []" "utf8_ok rest"
      "if longest (encoder_word e) p None then utf8_char x else longest (encoder_word e) p (Some (length x))"
    by (rule encoder.next_symbol_munch [OF eok TrueI _ p(1,2)]) (use words in blast)+
  obtain r where r: "find_key e p = Inr (found (encoder_number e) p r)" "longest (encoder_word e) p r"
    using find_key_longest [OF eok] by blast
  have unique: "r = r'" if "longest (encoder_word e) p r'" for r'
    using r(2) that by (auto simp: longest_def split: option.splits) (metis linorder_less_linear)
  show ?thesis
  proof (cases "longest (encoder_word e) p None")
    case True
    then have key: "find_key e p = Inr (no_symbol_number, 1)" using r(1) unique by (auto simp: found_def)
    have xc: "utf8_char x" using x(4) True by simp
    then have n: "nByte_utf8 (p ! 0) = length x" using nByte_utf8_char [OF xc] x(1,2) by (simp add: nth_append)
    let ?k = "length (symbol_table a)" and ?a = "add_symbol_ol x a"
    have k: "to_symbol_number ?k = ?k" using room by (simp add: to_symbol_number_def)
    have "CHR 0x00 \<notin> set x" using p(3) x(1) by simp
    from read_input_symbol_ok [OF eok x(2) this, of ?k] obtain e' where
      e': "read_input_symbol x ?k e = Inr e'" "encoder_ok e'" "encoder_number e' = (encoder_number e)(x := ?k)"
        "number_of_input_symbols e' = number_of_input_symbols e"
      unfolding k by blast
    have "next_input_symbol p (a, e) = Inr (Some (?k, rest, ?a, e'))"
      using key n e'(1) x(1,2) k by (simp add: next_input_symbol_def Let_def add_symbol_ol_def)
    moreover have "encoder_word e' = (encoder_word e)(x := True)"
      using e'(3) room by (auto simp: encoder_word_def fun_eq_iff no_symbol_number_def)
    moreover have "input_ok (?a, e')"
      using e'(2,3,4) words orig utf8_ok_char_append [OF xc, of "[]"]
      by (auto simp: input_ok_def add_symbol_ol_def encoder_word_def nth_append less_Suc_eq input_number_def)
    ultimately show ?thesis using True x xc room e'(3,4) orig
      by (intro exI [of _ x] exI [of _ rest] exI [of _ ?k] exI [of _ ?a] exI [of _ e'] exI [of _ "[x]"])
         (simp add: add_symbol_ol_def no_symbol_number_def input_number_def)
  next
    case False
    then have lx: "longest (encoder_word e) p (Some (length x))" using x(4) by simp
    then have "r = Some (length x)" and wx: "encoder_word e x" using unique x(1) by (auto simp: longest_def)
    then have "find_key e p = Inr (encoder_number e x, length x)" using r(1) x(1) by (simp add: found_def)
    then have "next_input_symbol p (a, e) = Inr (Some (encoder_number e x, rest, a, e))"
      using wx x(1) by (simp add: next_input_symbol_def encoder_word_def)
    with False lx x ok words [OF wx] wx show ?thesis
      by (intro exI [of _ x] exI [of _ rest] exI [of _ "encoder_number e x"] exI [of _ a] exI [of _ e] exI [of _ "[]"])
         (simp add: encoder_word_def)
  qed
qed

text \<open>Words that are single characters and were added because no word began there do not disturb the division.\<close>

lemma utf8_char_prefix: "utf8_char x \<Longrightarrow> utf8_char y \<Longrightarrow> x @ s = y @ t \<Longrightarrow> x = y"
  by (auto simp: utf8_char_def append_eq_append_conv)

lemma grown_longest:
  assumes W: "\<And>w. W w \<Longrightarrow> utf8_ok w" and N: "\<And>w. w \<in> N \<Longrightarrow> utf8_char w \<and> \<not> W w"
    and l: "longest (\<lambda>w. W w \<or> w \<in> N) s r"
  shows "(case r of None \<Rightarrow> longest W s None | Some n \<Rightarrow>
     if W (take n s) then longest W s (Some n) else longest W s None \<and> utf8_char (take n s))"
proof (cases r)
  case None
  with l show ?thesis by (auto simp: longest_def)
next
  case (Some n)
  then have n: "0 < n" "n \<le> length s" "W (take n s) \<or> take n s \<in> N"
    "\<And>m. n < m \<Longrightarrow> m \<le> length s \<Longrightarrow> \<not> W (take m s)" using l by (auto simp: longest_def)
  show ?thesis
  proof (cases "W (take n s)")
    case True
    with n Some show ?thesis by (simp add: longest_def)
  next
    case False
    with n N have c: "utf8_char (take n s)" by blast
    have "\<not> W (take m s)" if m: "0 < m" "m \<le> length s" for m
    proof
      assume w: "W (take m s)"
      have "take m s \<noteq> []" using m by auto
      with W [OF w] obtain y rest where y: "take m s = y @ rest" "utf8_char y" by (rule utf8_ok_cases)
      have "take n s @ drop n s = y @ (rest @ drop m s)" using y(1) by (metis append.assoc append_take_drop_id)
      from utf8_char_prefix [OF c y(2) this] y(1) have "length (take n s) \<le> length (take m s)" by simp
      then have "n \<le> m" using n(2) m by simp
      with n(4) [of m] w m False show False by (cases "m = n") auto
    qed
    then have "longest W s None" by (simp add: longest_def)
    with False c Some show ?thesis by simp
  qed
qed

lemma tape_write_take:
  assumes "i \<le> length tape"
  shows "take (Suc i) (tape_write i s tape) = take i tape @ [s]" and "Suc i \<le> length (tape_write i s tape)"
  using assms by (auto simp: tape_write_def take_Suc_conv_app_nth list_update_append nth_append not_less)

definition stands_for_pieces :: "ol_alphabet \<Rightarrow> string list \<Rightarrow> nat list \<Rightarrow> bool" where
  "stands_for_pieces a ts ks \<longleftrightarrow> list_all2 (\<lambda>x k. k < length (symbol_table a) \<and> symbol_table a ! k = x \<and> k \<noteq> no_symbol_number) ts ks"

lemma stands_for_grows:
  "stands_for_pieces a ts ks \<Longrightarrow> symbol_table a' = symbol_table a @ new \<Longrightarrow> stands_for_pieces a' ts ks"
  unfolding stands_for_pieces_def by (erule list_all2_mono) (auto simp: nth_append)

text \<open>What an encoder has learnt: the pieces that were no words before, each once, and no old number has changed.\<close>

definition learnt :: "encoder \<Rightarrow> string list \<Rightarrow> string list \<Rightarrow> encoder \<Rightarrow> bool" where
  "learnt e new ts e' \<longleftrightarrow> distinct new \<and> set new = {x \<in> set ts. \<not> encoder_word e x} \<and>
     (\<forall>w. encoder_word e' w \<longleftrightarrow> encoder_word e w \<or> w \<in> set new) \<and>
     (\<forall>w. encoder_word e w \<longrightarrow> encoder_number e' w = encoder_number e w)"

lemma learnt_nothing: "learnt e [] [] e"
  by (simp add: learnt_def)

lemma learnt_word: "encoder_word e x \<Longrightarrow> learnt e new ts e' \<Longrightarrow> learnt e new (x # ts) e'"
  by (auto simp: learnt_def)

lemma learnt_character:
  assumes "\<not> encoder_word e x" and "encoder_word e1 = (encoder_word e)(x := True)" and "encoder_number e1 = (encoder_number e)(x := k)"
    and "learnt e1 new ts e'"
  shows "learnt e (x # new) (x # ts) e'"
  using assms by (auto simp: learnt_def)

lemma input_loop_munch:
  assumes W: "\<And>w. W w \<Longrightarrow> utf8_ok w"
  shows "input_ok (a, e) \<Longrightarrow> utf8_ok p \<Longrightarrow> CHR 0x00 \<notin> set p \<Longrightarrow> length (symbol_table a) + length p \<le> 65535 \<Longrightarrow>
     encoder_word e = (\<lambda>w. W w \<or> w \<in> N) \<Longrightarrow> (\<forall>w \<in> N. utf8_char w \<and> \<not> W w) \<Longrightarrow> i \<le> length tape \<Longrightarrow>
     \<exists>ts ks tape' a' e' new. input_loop p i tape (a, e) = Inr (True, tape', a', e') \<and> concat ts = p \<and> munch W ts \<and>
       take (Suc (i + length ts)) tape' = take i tape @ ks @ [no_symbol_number] \<and> stands_for_pieces a' ts ks \<and>
       input_ok (a', e') \<and> a' = a\<lparr>symbol_table := symbol_table a @ new\<rparr> \<and>
       number_of_input_symbols e' = number_of_input_symbols e \<and> list_all (input_number a (number_of_input_symbols e)) ks \<and>
       length new \<le> length p \<and> (\<forall>w \<in> set new. \<not> W w) \<and> learnt e new ts e'"
proof (induction "length p" arbitrary: p i tape a e N rule: less_induct)
  case less
  show ?case
  proof (cases "p = []")
    case True
    then have "input_loop p i tape (a, e) = Inr (True, tape_write i no_symbol_number tape, a, e)"
      by (subst input_loop.simps) simp
    moreover have "concat [] = p" "munch W []" using True by simp_all
    moreover have "take (Suc (i + length ([] :: string list))) (tape_write i no_symbol_number tape) =
        take i tape @ [] @ [no_symbol_number]" using tape_write_take(1) [OF less.prems(7)] by simp
    moreover have "stands_for_pieces a [] []" by (simp add: stands_for_pieces_def)
    moreover have "a = a\<lparr>symbol_table := symbol_table a @ []\<rparr>" by simp
    moreover have "list_all (input_number a (number_of_input_symbols e)) []" "length ([] :: string list) \<le> length p"
      "\<forall>w \<in> set []. \<not> W w" by simp_all
    moreover note learnt_nothing [of e]
    ultimately show ?thesis using less.prems(1) by blast
  next
    case False
    then have "0 < length p" by simp
    then have "length (symbol_table a) < 65535" using less.prems(4) by linarith
    from next_input_symbol_ok [OF less.prems(1,2) False less.prems(3) this] obtain x rest k a' e' new where
      x: "next_input_symbol p (a, e) = Inr (Some (k, rest, a', e'))" "p = x @ rest" "x \<noteq> []" "utf8_ok rest"
        "input_ok (a', e')" "a' = a\<lparr>symbol_table := symbol_table a @ new\<rparr>" "k < length (symbol_table a')"
        "symbol_table a' ! k = x" "k \<noteq> no_symbol_number" "length new \<le> 1"
        "number_of_input_symbols e' = number_of_input_symbols e" "input_number a (number_of_input_symbols e) k" and
      how: "if longest (encoder_word e) p None then utf8_char x \<and> new = [x] \<and> encoder_word e' = (encoder_word e)(x := True) \<and>
          encoder_number e' = (encoder_number e)(x := length (symbol_table a))
        else longest (encoder_word e) p (Some (length x)) \<and> new = [] \<and> e' = e" by blast
    let ?tape = "tape_write i k tape"
    note tw = tape_write_take [OF less.prems(7), of k]
    have N: "\<And>w. w \<in> N \<Longrightarrow> utf8_char w \<and> \<not> W w" using less.prems(6) by blast
    have call: "input_loop p i tape (a, e) = input_loop rest (Suc i) ?tape (a', e')"
      using False x(1) by (subst input_loop.simps) simp
    have shorter: "length rest < length p" using x(2,3) by simp
    have nul: "CHR 0x00 \<notin> set rest" using less.prems(3) x(2) by simp
    have room: "length (symbol_table a') + length rest \<le> 65535"
      using less.prems(4) x(2,3,6,10) by (cases x) auto
    obtain M where M: "encoder_word e' = (\<lambda>w. W w \<or> w \<in> M)" "\<forall>w \<in> M. utf8_char w \<and> \<not> W w"
      and first: "if longest W p None then utf8_char x else longest W p (Some (length x))" and unknown: "\<forall>w \<in> set new. \<not> W w"
    proof (cases "longest (encoder_word e) p None")
      case True
      then have lw: "longest W p None" and xc: "utf8_char x" and e': "encoder_word e' = (encoder_word e)(x := True)" and nw: "new = [x]"
        using less.prems(5) how by (auto simp: longest_def)
      have "\<not> W x"
        using lw x(2,3) unfolding longest_def by (auto dest!: spec [of _ "length x"])
      then show thesis using lw xc e' nw less.prems(5) N by (intro that [of "insert x N"]) (auto simp: fun_eq_iff)
    next
      case False
      then have "longest (\<lambda>w. W w \<or> w \<in> N) p (Some (length x))" "e' = e" "new = []" using how less.prems(5) by auto
      with grown_longest [OF W N, where s = p and r = "Some (length x)"] have
        "if W (take (length x) p) then longest W p (Some (length x)) else longest W p None \<and> utf8_char (take (length x) p)"
        by simp
      then have "if longest W p None then utf8_char x else longest W p (Some (length x))"
        using x(2) by (auto simp: longest_def split: if_splits)
      with less.prems(5,6) \<open>e' = e\<close> \<open>new = []\<close> show thesis by (intro that [of N]) auto
    qed
    from less.hyps [OF shorter x(5,4) nul room M tw(2)] obtain ts ks tape' a2 e2 new2 where
      IH: "input_loop rest (Suc i) ?tape (a', e') = Inr (True, tape', a2, e2)" "concat ts = rest" "munch W ts"
        "take (Suc (Suc i + length ts)) tape' = take (Suc i) ?tape @ ks @ [no_symbol_number]" "stands_for_pieces a2 ts ks"
        "input_ok (a2, e2)" "a2 = a'\<lparr>symbol_table := symbol_table a' @ new2\<rparr>"
        "number_of_input_symbols e2 = number_of_input_symbols e'" "list_all (input_number a' (number_of_input_symbols e')) ks"
        "length new2 \<le> length rest" "\<forall>w \<in> set new2. \<not> W w" "learnt e' new2 ts e2" by blast
    have "learnt e (new @ new2) (x # ts) e2"
    proof (cases "longest (encoder_word e) p None")
      case True
      then have "\<not> encoder_word e x" using x(2,3) unfolding longest_def by (auto dest!: spec [of _ "length x"])
      with learnt_character [OF _ _ _ IH(12)] how True show ?thesis by auto
    next
      case False
      with how have "longest (encoder_word e) p (Some (length x))" by simp
      then have "encoder_word e x" using x(2) by (simp add: longest_def)
      with learnt_word [OF _ IH(12)] how False show ?thesis by auto
    qed
    moreover have "stands_for_pieces a2 (x # ts) (k # ks)"
      using IH(5,7) x(7,8,9) by (simp add: stands_for_pieces_def nth_append)
    moreover have "munch W (x # ts)" using IH(2,3) x(3) first unfolding x(2) by simp
    moreover have "take (Suc (i + length (x # ts))) tape' = take i tape @ (k # ks) @ [no_symbol_number]"
      using IH(4) tw(1) by simp
    moreover have "concat (x # ts) = p" "a2 = a\<lparr>symbol_table := symbol_table a @ (new @ new2)\<rparr>" using IH(2,7) x(2,6) by simp_all
    moreover have "number_of_input_symbols e2 = number_of_input_symbols e"
      "list_all (input_number a (number_of_input_symbols e)) (k # ks)" using IH(8,9) x(6,11,12) by simp_all
    moreover have "length (new @ new2) \<le> length p" "\<forall>w \<in> set (new @ new2). \<not> W w" using IH(10,11) x(10) shorter unknown by auto
    moreover have "input_loop p i tape (a, e) = Inr (True, tape', a2, e2)" using call IH(1) by simp
    ultimately show ?thesis using IH(6) by blast
  qed
qed

lemma read_input_symbols_ok:
  assumes st: "\<forall>s \<in> set st. s \<noteq> [] \<and> CHR 0x00 \<notin> set s" and "length st \<le> 65535"
  shows "n \<le> length st \<Longrightarrow> \<exists>e. rfold (\<lambda>k e. if k < length st then read_input_symbol (st ! k) k e else Inl UndefinedBehaviour)
       [0..<n] \<lparr>number_of_input_symbols = m, enc_letters = new_ol_trie, ascii_symbols = (\<lambda>c. no_symbol_number)\<rparr> = Inr e \<and>
     encoder_ok e \<and> number_of_input_symbols e = m \<and> (\<forall>w. encoder_word e w \<longleftrightarrow> w \<in> set (take n st)) \<and>
     (\<forall>w. encoder_word e w \<longrightarrow> encoder_number e w < n \<and> st ! encoder_number e w = w)"
proof (induction n)
  case 0
  then show ?case by (simp add: encoder_ok_def encoder_word_def encoder_number_def)
next
  case (Suc n)
  then obtain e where e: "rfold (\<lambda>k e. if k < length st then read_input_symbol (st ! k) k e else Inl UndefinedBehaviour)
       [0..<n] \<lparr>number_of_input_symbols = m, enc_letters = new_ol_trie, ascii_symbols = (\<lambda>c. no_symbol_number)\<rparr> = Inr e"
     "encoder_ok e" "\<And>w. encoder_word e w \<longleftrightarrow> w \<in> set (take n st)" "number_of_input_symbols e = m"
     "\<And>w. encoder_word e w \<Longrightarrow> encoder_number e w < n \<and> st ! encoder_number e w = w" by (auto simp del: upt_Suc)
  have n: "n < length st" "st ! n \<noteq> []" "CHR 0x00 \<notin> set (st ! n)" using Suc.prems st by simp_all
  have k: "to_symbol_number n = n" "n \<noteq> no_symbol_number"
    using n(1) assms(2) by (simp_all add: to_symbol_number_def no_symbol_number_def)
  from read_input_symbol_ok [OF e(2) n(2,3), of n] obtain e' where
    e': "read_input_symbol (st ! n) n e = Inr e'" "encoder_ok e'" "encoder_number e' = (encoder_number e)(st ! n := n)"
      "number_of_input_symbols e' = m"
    unfolding k e(4) [symmetric] by blast
  have word: "encoder_word e' w \<longleftrightarrow> w = st ! n \<or> encoder_word e w" for w
    using e'(3) k(2) by (simp add: encoder_word_def)
  have "encoder_word e' w \<longleftrightarrow> w \<in> set (take (Suc n) st)" for w
    unfolding word e(3) using n(1) by (auto simp: take_Suc_conv_app_nth)
  moreover have "encoder_number e' w < Suc n \<and> st ! encoder_number e' w = w" if "encoder_word e' w" for w
    using that e(5) [of w] e'(3) word [of w] by (cases "w = st ! n") (auto simp: less_Suc_eq)
  ultimately show ?case using e(1) e'(1,2,4) n(1) by (auto simp: rfold_append)
qed

lemma new_encoder_ok:
  assumes st: "\<forall>s \<in> set (symbol_table a). s \<noteq> [] \<and> CHR 0x00 \<notin> set s \<and> utf8_ok s" and count: "count \<le> length (symbol_table a)"
    and orig: "orig_symbol_count a \<le> length (symbol_table a)" and "length (symbol_table a) \<le> 65535"
  shows "\<exists>e. new_encoder (symbol_table a) count = Inr e \<and> input_ok (a, e) \<and> number_of_input_symbols e = count \<and>
     encoder_word e = (\<lambda>w. w \<in> set (take count (symbol_table a)))"
proof -
  let ?st = "symbol_table a"
  have "\<forall>s \<in> set ?st. s \<noteq> [] \<and> CHR 0x00 \<notin> set s" using st by blast
  from read_input_symbols_ok [OF this assms(4) count, of count] obtain e where
    e: "new_encoder ?st count = Inr e" "encoder_ok e" "\<And>w. encoder_word e w \<longleftrightarrow> w \<in> set (take count ?st)"
      "\<And>w. encoder_word e w \<Longrightarrow> encoder_number e w < count \<and> ?st ! encoder_number e w = w"
      "number_of_input_symbols e = count"
    by (auto simp: new_encoder_def read_input_symbols_def)
  have "utf8_ok w" if "encoder_word e w" for w using that e(3) st in_set_takeD by metis
  then have "input_ok (a, e)"
    unfolding input_ok_def prod.case using e(2,4,5) count orig unfolding input_number_def by (metis order_less_le_trans)
  with e show ?thesis by (auto simp: fun_eq_iff)
qed

text \<open>C18. Tokenization for optimized lookup, from any alphabet and encoder that agree (\<open>input_ok\<close>; every encoder
  built from a symbol table does, \<open>new_encoder_ok\<close>). A correct UTF-8 input without NUL bytes, for which the numbers of symbols
  suffice, is divided by maximal munch: the pieces put together are the input, and each is the longest word of the encoder
  that matches at its place, or one UTF-8 character where none does. The input tape holds one number per piece, the position of the piece
  in the symbol table, and then the end marker. The characters that were no words before are
  appended to the symbol table, each once, and they and the old words are the words of the encoder afterwards, the old ones
  with their old numbers; alphabet and encoder agree again.\<close>

theorem initialize_input_munch:
  assumes "input_ok (a, e)" and "utf8_ok input" and "CHR 0x00 \<notin> set input"
    and "length (symbol_table a) + length input \<le> 65535"
  shows "\<exists>ts ks tape' a' e' new. initialize_input input tape (a, e) = Inr (True, tape', a', e') \<and>
     concat ts = input \<and> munch (encoder_word e) ts \<and>
     take (Suc (length ts)) tape' = ks @ [no_symbol_number] \<and> stands_for_pieces a' ts ks \<and>
     list_all (input_number a (number_of_input_symbols e)) ks \<and>
     a' = a\<lparr>symbol_table := symbol_table a @ new\<rparr> \<and> distinct new \<and> set new = {x \<in> set ts. \<not> encoder_word e x} \<and>
     input_ok (a', e') \<and> number_of_input_symbols e' = number_of_input_symbols e \<and>
     (\<forall>w. encoder_word e' w \<longleftrightarrow> encoder_word e w \<or> w \<in> set new) \<and>
     (\<forall>w. encoder_word e w \<longrightarrow> encoder_number e' w = encoder_number e w)"
proof -
  have W: "utf8_ok w" if "encoder_word e w" for w using that assms(1) by (simp add: input_ok_def)
  from input_loop_munch [where W = "encoder_word e" and N = "{}" and i = 0 and tape = tape, OF W assms]
  show ?thesis unfolding initialize_input_def c_str_id [OF assms(3)] learnt_def by simp blast
qed

lemma initialize_input_munch_witness:
  "\<exists>e tape' a' e'. new_encoder [internal_epsilon, ''a'', ''ab''] 3 = Inr e \<and>
     initialize_input ''abac'' [] (ol_alphabet_empty\<lparr>symbol_table := [internal_epsilon, ''a'', ''ab'']\<rparr>, e) =
       Inr (True, tape', a', e') \<and> input_ok (a', e') \<and> (encoder_word e' ''c'' \<longleftrightarrow> ''c'' \<in> set (symbol_table a'))"
proof -
  let ?a = "ol_alphabet_empty\<lparr>symbol_table := [internal_epsilon, ''a'', ''ab'']\<rparr>"
  have "\<forall>s \<in> set (''abac'' # symbol_table ?a). s \<noteq> [] \<and> CHR 0x00 \<notin> set s \<and> utf8_ok s"
    by (simp add: utf8_ok_def internal_epsilon_def additional_chars_def)
  moreover from this new_encoder_ok [of ?a 3] obtain e where
    e: "new_encoder (symbol_table ?a) 3 = Inr e" "input_ok (?a, e)" "encoder_word e = (\<lambda>w. w \<in> set (symbol_table ?a))"
    by (auto simp: ol_alphabet_empty_def)
  ultimately obtain tape' a' e' new where
    "initialize_input ''abac'' [] (?a, e) = Inr (True, tape', a', e')" "input_ok (a', e')"
    "a' = ?a\<lparr>symbol_table := symbol_table ?a @ new\<rparr>" "\<forall>w. encoder_word e' w \<longleftrightarrow> encoder_word e w \<or> w \<in> set new"
    using initialize_input_munch [OF e(2), of "''abac''" "[]"] by (auto simp: ol_alphabet_empty_def internal_epsilon_def)
  with e show ?thesis by auto
qed

end
