(* ===== verification/OlFormat.thy ===== *)
theory OlFormat
  imports OlEncoder
begin

text \<open>
  The binary format of optimized-lookup transducers (\<open>optimized-lookup/transducer.h\<close>,
  \<open>transducer.cc\<close>): header, alphabet, index table and transition table. Numbers are 16 and 32 bits
  wide and written as they lie in memory, the low byte first; a weight is kept as the 32 bits of its
  \<open>float\<close>, as the format and the \<open>union\<close> of \<open>TransitionWIndex\<close> do. Shown: what is written
  is read back, and a file that stops early is refused.
\<close>

section \<open>Bytes\<close>

fun put_bytes :: "nat \<Rightarrow> nat \<Rightarrow> string" where
  "put_bytes 0 n = []"
| "put_bytes (Suc k) n = char_of (n mod 256) # put_bytes k (n div 256)"

fun get_bytes :: "string \<Rightarrow> nat" where
  "get_bytes [] = 0"
| "get_bytes (c # cs) = of_char c + 256 * get_bytes cs"

lemma length_put_bytes [simp]: "length (put_bytes k n) = k"
  by (induction k arbitrary: n) auto

lemma get_put_bytes: "n < 256 ^ k \<Longrightarrow> get_bytes (put_bytes k n) = n"
proof (induction k arbitrary: n)
  case (Suc k)
  then have "n div 256 < 256 ^ k" by (simp add: less_mult_imp_div_less mult.commute)
  with Suc.IH show ?case by simp
qed simp

text \<open>A read that does not find enough bytes leaves the stream failed, and the constructor throws at its end.\<close>

definition read_property :: "nat \<Rightarrow> string \<Rightarrow> (nat \<times> string) result" where
  "read_property k bs =
     (if length bs < k then Inl TransducerHasWrongTypeException else Inr (get_bytes (take k bs), drop k bs))"

definition read_bool_property :: "string \<Rightarrow> (bool \<times> string) result" where
  "read_bool_property bs =
     rbind (read_property 4 bs) (\<lambda>(prop, rest).
       if prop = 0 then Inr (False, rest)
       else if prop = 1 then Inr (True, rest) else Inl TransducerHasWrongTypeException)"

definition write_bool_property :: "bool \<Rightarrow> string" where
  "write_bool_property b = put_bytes 4 (if b then 1 else 0)"

lemma read_property_put [simp]: "n < 256 ^ k \<Longrightarrow> read_property k (put_bytes k n @ rest) = Inr (n, rest)"
  by (simp add: read_property_def get_put_bytes)

lemma read_bool_write [simp]: "read_bool_property (write_bool_property b @ rest) = Inr (b, rest)"
  by (simp add: read_bool_property_def write_bool_property_def)

section \<open>TransducerHeader\<close>

record ol_header =
  h_input_symbols :: nat
  h_symbols :: nat
  h_index_size :: nat
  h_target_size :: nat
  h_states :: nat
  h_transitions :: nat
  h_weighted :: bool
  h_deterministic :: bool
  h_input_deterministic :: bool
  h_minimized :: bool
  h_cyclic :: bool
  h_epsilon_epsilon :: bool
  h_input_epsilon :: bool
  h_input_epsilon_cycles :: bool
  h_unweighted_input_epsilon_cycles :: bool

definition new_header :: "nat \<Rightarrow> nat \<Rightarrow> nat \<Rightarrow> nat \<Rightarrow> bool \<Rightarrow> ol_header" where
  "new_header input_symbols symbols transition_index_table transition_table weights =
     \<lparr>h_input_symbols = input_symbols, h_symbols = symbols, h_index_size = transition_index_table,
      h_target_size = transition_table, h_states = 0, h_transitions = 0, h_weighted = weights, h_deterministic = True,
      h_input_deterministic = True, h_minimized = True, h_cyclic = False, h_epsilon_epsilon = False,
      h_input_epsilon = False, h_input_epsilon_cycles = False, h_unweighted_input_epsilon_cycles = False\<rparr>"

datatype header_flag = Weighted | Deterministic | Input_deterministic | Minimized | Cyclic |
  Has_epsilon_epsilon_transitions | Has_input_epsilon_transitions | Has_input_epsilon_cycles |
  Has_unweighted_input_epsilon_cycles

fun probe_flag :: "header_flag \<Rightarrow> ol_header \<Rightarrow> bool" where
  "probe_flag Weighted h = h_weighted h"
| "probe_flag Deterministic h = h_deterministic h"
| "probe_flag Input_deterministic h = h_input_deterministic h"
| "probe_flag Minimized h = h_minimized h"
| "probe_flag Cyclic h = h_cyclic h"
| "probe_flag Has_epsilon_epsilon_transitions h = h_epsilon_epsilon h"
| "probe_flag Has_input_epsilon_transitions h = h_input_epsilon h"
| "probe_flag Has_input_epsilon_cycles h = h_input_epsilon_cycles h"
| "probe_flag Has_unweighted_input_epsilon_cycles h = h_unweighted_input_epsilon_cycles h"

text \<open>The code ignores the value and sets the flag.\<close>

fun set_flag :: "header_flag \<Rightarrow> bool \<Rightarrow> ol_header \<Rightarrow> ol_header" where
  "set_flag Weighted v h = h\<lparr>h_weighted := True\<rparr>"
| "set_flag Deterministic v h = h\<lparr>h_deterministic := True\<rparr>"
| "set_flag Input_deterministic v h = h\<lparr>h_input_deterministic := True\<rparr>"
| "set_flag Minimized v h = h\<lparr>h_minimized := True\<rparr>"
| "set_flag Cyclic v h = h\<lparr>h_cyclic := True\<rparr>"
| "set_flag Has_epsilon_epsilon_transitions v h = h\<lparr>h_epsilon_epsilon := True\<rparr>"
| "set_flag Has_input_epsilon_transitions v h = h\<lparr>h_input_epsilon := True\<rparr>"
| "set_flag Has_input_epsilon_cycles v h = h\<lparr>h_input_epsilon_cycles := True\<rparr>"
| "set_flag Has_unweighted_input_epsilon_cycles v h = h\<lparr>h_unweighted_input_epsilon_cycles := True\<rparr>"

definition write_header :: "ol_header \<Rightarrow> string" where
  "write_header h =
     put_bytes 2 (h_input_symbols h) @ put_bytes 2 (h_symbols h) @ put_bytes 4 (h_index_size h) @
     put_bytes 4 (h_target_size h) @ put_bytes 4 (h_states h) @ put_bytes 4 (h_transitions h) @
     write_bool_property (h_weighted h) @ write_bool_property (h_deterministic h) @
     write_bool_property (h_input_deterministic h) @ write_bool_property (h_minimized h) @
     write_bool_property (h_cyclic h) @ write_bool_property (h_epsilon_epsilon h) @
     write_bool_property (h_input_epsilon h) @ write_bool_property (h_input_epsilon_cycles h) @
     write_bool_property (h_unweighted_input_epsilon_cycles h)"

definition read_header :: "string \<Rightarrow> (ol_header \<times> string) result" where
  "read_header s0 =
     rbind (read_property 2 s0) (\<lambda>(n1, s1). rbind (read_property 2 s1) (\<lambda>(n2, s2).
     rbind (read_property 4 s2) (\<lambda>(n3, s3). rbind (read_property 4 s3) (\<lambda>(n4, s4).
     rbind (read_property 4 s4) (\<lambda>(n5, s5). rbind (read_property 4 s5) (\<lambda>(n6, s6).
     rbind (read_bool_property s6) (\<lambda>(b1, s7). rbind (read_bool_property s7) (\<lambda>(b2, s8).
     rbind (read_bool_property s8) (\<lambda>(b3, s9). rbind (read_bool_property s9) (\<lambda>(b4, s10).
     rbind (read_bool_property s10) (\<lambda>(b5, s11). rbind (read_bool_property s11) (\<lambda>(b6, s12).
     rbind (read_bool_property s12) (\<lambda>(b7, s13). rbind (read_bool_property s13) (\<lambda>(b8, s14).
     rmap (\<lambda>(b9, s15). (\<lparr>h_input_symbols = n1, h_symbols = n2, h_index_size = n3, h_target_size = n4,
         h_states = n5, h_transitions = n6, h_weighted = b1, h_deterministic = b2, h_input_deterministic = b3,
         h_minimized = b4, h_cyclic = b5, h_epsilon_epsilon = b6, h_input_epsilon = b7,
         h_input_epsilon_cycles = b8, h_unweighted_input_epsilon_cycles = b9\<rparr>, s15))
       (read_bool_property s14)))))))))))))))"

section \<open>The alphabet\<close>

definition write_alphabet :: "ol_alphabet \<Rightarrow> string" where
  "write_alphabet a = concat (map (\<lambda>s. s @ [CHR 0x00]) (symbol_table a))"

text \<open>\<open>getline\<close> fails when there is nothing left; at the end of the file the terminator may be missing.\<close>

definition getline_zero :: "string \<Rightarrow> (string \<times> string) result" where
  "getline_zero bs =
     (if bs = [] then Inl TransducerHasWrongTypeException
      else Inr (c_str bs, drop (length (c_str bs) + 1) bs))"

definition read_alphabet_symbol ::
  "bool \<Rightarrow> nat \<Rightarrow> ol_alphabet \<times> string \<Rightarrow> (ol_alphabet \<times> string) result" where
  "read_alphabet_symbol preserve_diacritic_strings i as =
     (case as of (a, bs) \<Rightarrow>
        rbind (getline_zero bs) (\<lambda>(str, rest).
        rmap (\<lambda>a1. (add_symbol_ol (if is_diacritic str \<and> \<not> preserve_diacritic_strings then [] else str) a1, rest))
          (classify_symbol (i, str) a)))"

definition read_alphabet :: "nat \<Rightarrow> bool \<Rightarrow> string \<Rightarrow> (ol_alphabet \<times> string) result" where
  "read_alphabet symbol_count preserve_diacritic_strings bs =
     rmap (\<lambda>(a, rest). (a\<lparr>orig_symbol_count := to_symbol_number (length (symbol_table a))\<rparr>, rest))
       (rfold (read_alphabet_symbol preserve_diacritic_strings) [0..<symbol_count]
         (\<lparr>symbol_table = [], ol_fd_table = empty_fd_table, unknown_symbol = no_symbol_number,
           default_symbol = no_symbol_number, identity_symbol = no_symbol_number, orig_symbol_count = 0\<rparr>, bs))"

section \<open>The tables\<close>

definition no_table_index :: nat where "no_table_index = 4294967295"
definition target_table_start :: nat where "target_table_start = 2147483648"

record ol_index =
  ti_input :: nat
  ti_first :: nat

record ol_transition =
  ot_input :: nat
  ot_output :: nat
  ot_target :: nat
  ot_weight :: nat

definition index_final :: "ol_index \<Rightarrow> bool" where
  "index_final x \<longleftrightarrow> ti_input x = no_symbol_number \<and> ti_first x \<noteq> no_table_index"

definition transition_final :: "ol_transition \<Rightarrow> bool" where
  "transition_final x \<longleftrightarrow> ot_input x = no_symbol_number \<and> ot_output x = no_symbol_number \<and> ot_target x = 1"

definition index_matches :: "nat \<Rightarrow> ol_index \<Rightarrow> bool" where
  "index_matches s x \<longleftrightarrow> ti_input x \<noteq> no_symbol_number \<and> ti_input x = s"

definition transition_matches :: "nat \<Rightarrow> ol_transition \<Rightarrow> bool" where
  "transition_matches s x \<longleftrightarrow> ot_input x \<noteq> no_symbol_number \<and> ot_input x = s"

text \<open>The tables of a weighted transducer have entries of the classes with a \<open>W\<close>; the entries of the
  others weigh nothing, and their field \<open>ot_weight\<close> is 0.\<close>

record ol_tables =
  weighted_tables :: bool
  index_table :: "ol_index list"
  transition_table :: "ol_transition list"

definition write_index :: "bool \<Rightarrow> ol_index \<Rightarrow> string" where
  "write_index weighted x =
     put_bytes 2 (ti_input x) @
     put_bytes 4 (if \<not> weighted \<and> ti_input x = no_symbol_number \<and> ti_first x \<noteq> no_table_index then 1 else ti_first x)"

definition write_transition :: "bool \<Rightarrow> bool \<Rightarrow> ol_transition \<Rightarrow> string" where
  "write_transition class_w weighted x =
     put_bytes 2 (ot_input x) @ put_bytes 2 (ot_output x) @ put_bytes 4 (ot_target x) @
     (if class_w then (if weighted then put_bytes 4 (ot_weight x) else [])
      else if weighted then ''0'' else [])"

definition read_index :: "string \<Rightarrow> (ol_index \<times> string) result" where
  "read_index s0 =
     rbind (read_property 2 s0) (\<lambda>(i, s1). rmap (\<lambda>(f, s2). (\<lparr>ti_input = i, ti_first = f\<rparr>, s2)) (read_property 4 s1))"

definition read_transition :: "bool \<Rightarrow> string \<Rightarrow> (ol_transition \<times> string) result" where
  "read_transition class_w s0 =
     rbind (read_property 2 s0) (\<lambda>(i, s1). rbind (read_property 2 s1) (\<lambda>(out, s2).
     rbind (read_property 4 s2) (\<lambda>(t, s3).
       if class_w then rmap (\<lambda>(w, s4). (\<lparr>ot_input = i, ot_output = out, ot_target = t, ot_weight = w\<rparr>, s4)) (read_property 4 s3)
       else Inr (\<lparr>ot_input = i, ot_output = out, ot_target = t, ot_weight = 0\<rparr>, s3))))"

fun read_table :: "(string \<Rightarrow> ('x \<times> string) result) \<Rightarrow> nat \<Rightarrow> string \<Rightarrow> ('x list \<times> string) result" where
  "read_table f 0 bs = Inr ([], bs)"
| "read_table f (Suc n) bs = rbind (f bs) (\<lambda>(x, rest). rmap (\<lambda>(xs, rest'). (x # xs, rest')) (read_table f n rest))"

definition load_tables :: "ol_header \<Rightarrow> string \<Rightarrow> (ol_tables \<times> string) result" where
  "load_tables h bs =
     rbind (read_table read_index (h_index_size h) bs) (\<lambda>(indices, s1).
     rmap (\<lambda>(transitions, s2). (\<lparr>weighted_tables = h_weighted h, index_table = indices, transition_table = transitions\<rparr>, s2))
       (read_table (read_transition (h_weighted h)) (h_target_size h) s1))"

section \<open>Transducer\<close>

record ol_transducer =
  ol_head :: ol_header
  ol_alpha :: ol_alphabet
  tables :: ol_tables
  ol_encoder :: encoder

definition new_transducer :: "ol_header \<Rightarrow> ol_alphabet \<Rightarrow> ol_tables \<Rightarrow> ol_transducer result" where
  "new_transducer h a tabs =
     rmap (\<lambda>e. \<lparr>ol_head = h, ol_alpha = a, tables = tabs, ol_encoder = e\<rparr>) (new_encoder (symbol_table a) (h_input_symbols h))"

definition read_transducer :: "string \<Rightarrow> (ol_transducer \<times> string) result" where
  "read_transducer bs =
     rbind (read_header bs) (\<lambda>(h, s1).
     rbind (read_alphabet (h_symbols h) True s1) (\<lambda>(a, s2).
     rbind (new_encoder (symbol_table a) (h_input_symbols h)) (\<lambda>e.
     rmap (\<lambda>(tabs, s3). (\<lparr>ol_head = h, ol_alpha = a, tables = tabs, ol_encoder = e\<rparr>, s3)) (load_tables h s2))))"

text \<open>\<open>operator[]\<close> of a table takes an index with or without the offset of the transition table.\<close>

definition table_at :: "'x list \<Rightarrow> nat \<Rightarrow> 'x result" where
  "table_at table i =
     (let k = (if i < target_table_start then i else i - target_table_start)
      in if k < length table then Inr (table ! k) else Inl UndefinedBehaviour)"

definition write_transducer :: "ol_transducer \<Rightarrow> string result" where
  "write_transducer t =
     rbind (rfold (\<lambda>i out. rmap (\<lambda>x. out @ write_index (h_weighted (ol_head t)) x) (table_at (index_table (tables t)) i))
              [0..<h_index_size (ol_head t)] (write_header (ol_head t) @ write_alphabet (ol_alpha t))) (\<lambda>out.
     rfold (\<lambda>i out. rmap (\<lambda>x. out @ write_transition (weighted_tables (tables t)) (h_weighted (ol_head t)) x)
                         (table_at (transition_table (tables t)) i)) [0..<h_target_size (ol_head t)] out)"

section \<open>Round trip\<close>

definition header_ok :: "ol_header \<Rightarrow> bool" where
  "header_ok h \<longleftrightarrow> h_input_symbols h < 65536 \<and> h_symbols h < 65536 \<and> h_index_size h < 4294967296 \<and>
     h_target_size h < 4294967296 \<and> h_states h < 4294967296 \<and> h_transitions h < 4294967296"

lemma read_write_header: "header_ok h \<Longrightarrow> read_header (write_header h @ rest) = Inr (h, rest)"
  by (simp add: header_ok_def read_header_def write_header_def)

text \<open>The number of symbols is that of the table, and no symbol holds a zero byte.\<close>

lemma classify_symbol_table:
  "classify_symbol istr (a\<lparr>symbol_table := st, orig_symbol_count := n\<rparr>) =
     rmap (\<lambda>a. a\<lparr>symbol_table := st, orig_symbol_count := n\<rparr>) (classify_symbol istr a)"
  by (cases istr; cases "define_diacritic (fst istr) (snd istr) (ol_fd_table a)") (auto simp: classify_symbol_def)

lemma classify_symbol_keeps: "classify_symbol istr a = Inr a' \<Longrightarrow> symbol_table a' = symbol_table a \<and> orig_symbol_count a' = orig_symbol_count a"
  by (auto simp: classify_symbol_def result_simps split: prod.splits if_splits)

lemma read_alphabet_symbols:
  "(\<forall>s \<in> set st. CHR 0x00 \<notin> set s) \<Longrightarrow>
   rfold (read_alphabet_symbol True) [k..<k + length st] (a, concat (map (\<lambda>s. s @ [CHR 0x00]) st) @ rest) =
     rmap (\<lambda>b. (b\<lparr>symbol_table := symbol_table a @ st\<rparr>, rest)) (rfold classify_symbol (enumerate k st) a)"
proof (induction st arbitrary: k a)
  case (Cons s st)
  have c: "c_str (s @ CHR 0x00 # u) = s" for u using Cons.prems by (subst c_str_def, subst takeWhile_append2) auto
  have upt: "[k..<k + length (s # st)] = k # [Suc k..<Suc k + length st]" by (simp add: upt_rec)
  show ?case
  proof (cases "classify_symbol (k, s) a")
    case (Inl e)
    then show ?thesis unfolding upt by (simp add: read_alphabet_symbol_def getline_zero_def c)
  next
    case (Inr b)
    let ?b = "b\<lparr>symbol_table := symbol_table a @ [s]\<rparr>"
    have "symbol_table b = symbol_table a" using classify_symbol_keeps [OF Inr] by simp
    then have "read_alphabet_symbol True k (a, concat (map (\<lambda>s. s @ [CHR 0x00]) (s # st)) @ rest) =
        Inr (?b, concat (map (\<lambda>s. s @ [CHR 0x00]) st) @ rest)"
      using Inr by (simp add: read_alphabet_symbol_def getline_zero_def c add_symbol_ol_def)
    moreover have "rfold classify_symbol xs (b\<lparr>symbol_table := t\<rparr>) =
        rmap (\<lambda>b. b\<lparr>symbol_table := t\<rparr>) (rfold classify_symbol xs b)" for xs t b
    proof (induction xs arbitrary: b)
      case (Cons x xs)
      have "classify_symbol x (b\<lparr>symbol_table := t\<rparr>) = rmap (\<lambda>b. b\<lparr>symbol_table := t\<rparr>) (classify_symbol x b)"
        using classify_symbol_table [where istr = x and a = b and st = t and n = "orig_symbol_count b"]
        by (cases "classify_symbol x b") (auto dest: classify_symbol_keeps)
      then show ?case using Cons.IH by (cases "classify_symbol x b") simp_all
    qed simp
    ultimately show ?thesis
      using Cons.IH [of "Suc k" ?b] Cons.prems Inr unfolding upt
      by (cases "rfold classify_symbol (enumerate (Suc k) st) b") simp_all
  qed
qed simp

lemma classify_all_table:
  "rfold classify_symbol xs (b\<lparr>symbol_table := t, orig_symbol_count := n\<rparr>) =
     rmap (\<lambda>b. b\<lparr>symbol_table := t, orig_symbol_count := n\<rparr>) (rfold classify_symbol xs b)"
proof (induction xs arbitrary: b)
  case (Cons x xs)
  then show ?case using classify_symbol_table [where istr = x and a = b and st = t and n = n] by (cases "classify_symbol x b") simp_all
qed simp

text \<open>Reading an alphabet and constructing one from the table of its symbols is the same.\<close>

lemma read_write_alphabet:
  assumes "ol_alphabet_new st = Inr a" and "\<forall>s \<in> set st. CHR 0x00 \<notin> set s"
  shows "read_alphabet (length st) True (write_alphabet a @ rest) = Inr (a, rest)"
proof -
  let ?z = "\<lparr>symbol_table = [], ol_fd_table = empty_fd_table, unknown_symbol = no_symbol_number,
     default_symbol = no_symbol_number, identity_symbol = no_symbol_number, orig_symbol_count = 0\<rparr>"
  let ?n = "to_symbol_number (length st)"
  have "rfold classify_symbol (enumerate 0 st) (?z\<lparr>symbol_table := st, orig_symbol_count := ?n\<rparr>) = Inr a"
    using assms(1) by (simp add: ol_alphabet_new_def split: if_splits)
  then obtain b where b: "rfold classify_symbol (enumerate 0 st) ?z = Inr b" "a = b\<lparr>symbol_table := st, orig_symbol_count := ?n\<rparr>"
    unfolding classify_all_table by (auto simp: result_simps)
  have "symbol_table a = st" using b(2) by simp
  then have "rfold (read_alphabet_symbol True) [0..<length st] (?z, write_alphabet a @ rest) =
      Inr (b\<lparr>symbol_table := st\<rparr>, rest)"
    using read_alphabet_symbols [OF assms(2), of 0 ?z rest] b(1) by (simp add: write_alphabet_def)
  then show ?thesis using b(2) by (simp add: read_alphabet_def)
qed

lemma read_table_concat:
  "(\<And>x r. x \<in> set xs \<Longrightarrow> f (w x @ r) = Inr (g x, r)) \<Longrightarrow>
     read_table f (length xs) (concat (map w xs) @ rest) = Inr (map g xs, rest)"
  by (induction xs) auto

lemma write_table:
  assumes "length xs \<le> target_table_start"
  shows "rfold (\<lambda>i out. rmap (\<lambda>x. out @ w x) (table_at xs i)) [0..<length xs] out = Inr (out @ concat (map w xs))"
proof -
  have "n \<le> length xs \<Longrightarrow> rfold (\<lambda>i out. rmap (\<lambda>x. out @ w x) (table_at xs i)) [0..<n] out = Inr (out @ concat (map w (take n xs)))" for n
  proof (induction n)
    case (Suc n)
    then have "table_at xs n = Inr (xs ! n)" using assms by (simp add: table_at_def)
    with Suc show ?case by (simp add: rfold_append take_Suc_conv_app_nth)
  qed simp
  from this [of "length xs"] show ?thesis by simp
qed

text \<open>The entries as they come back: in an unweighted file every final marker of the index table is 1, and
  transitions weigh nothing.\<close>

definition index_read_back :: "bool \<Rightarrow> ol_index \<Rightarrow> ol_index" where
  "index_read_back weighted x =
     (if \<not> weighted \<and> index_final x then x\<lparr>ti_first := 1\<rparr> else x)"

definition transition_read_back :: "bool \<Rightarrow> ol_transition \<Rightarrow> ol_transition" where
  "transition_read_back weighted x = (if weighted then x else x\<lparr>ot_weight := 0\<rparr>)"

definition read_back :: "bool \<Rightarrow> ol_tables \<Rightarrow> ol_tables" where
  "read_back weighted tabs = \<lparr>weighted_tables = weighted, index_table = map (index_read_back weighted) (index_table tabs),
     transition_table = map (transition_read_back weighted) (transition_table tabs)\<rparr>"

definition index_ok :: "ol_index \<Rightarrow> bool" where
  "index_ok x \<longleftrightarrow> ti_input x < 65536 \<and> ti_first x < 4294967296"

definition transition_ok :: "ol_transition \<Rightarrow> bool" where
  "transition_ok x \<longleftrightarrow> ot_input x < 65536 \<and> ot_output x < 65536 \<and> ot_target x < 4294967296 \<and> ot_weight x < 4294967296"

text \<open>A transducer as the constructors make it, whose header tells the truth about its parts.\<close>

definition transducer_ok :: "ol_transducer \<Rightarrow> bool" where
  "transducer_ok t \<longleftrightarrow> header_ok (ol_head t) \<and> h_symbols (ol_head t) = length (symbol_table (ol_alpha t)) \<and>
     ol_alphabet_new (symbol_table (ol_alpha t)) = Inr (ol_alpha t) \<and>
     (\<forall>s \<in> set (symbol_table (ol_alpha t)). CHR 0x00 \<notin> set s) \<and>
     new_encoder (symbol_table (ol_alpha t)) (h_input_symbols (ol_head t)) = Inr (ol_encoder t) \<and>
     h_index_size (ol_head t) = length (index_table (tables t)) \<and>
     h_target_size (ol_head t) = length (transition_table (tables t)) \<and>
     length (index_table (tables t)) \<le> target_table_start \<and> length (transition_table (tables t)) \<le> target_table_start \<and>
     (\<forall>x \<in> set (index_table (tables t)). index_ok x) \<and> (\<forall>x \<in> set (transition_table (tables t)). transition_ok x) \<and>
     (h_weighted (ol_head t) \<longrightarrow> weighted_tables (tables t))"

lemma read_write_index: "index_ok x \<Longrightarrow> read_index (write_index weighted x @ r) = Inr (index_read_back weighted x, r)"
  by (cases x) (simp add: index_ok_def read_index_def write_index_def index_read_back_def index_final_def)

lemma read_write_transition:
  "transition_ok x \<Longrightarrow> (weighted \<longrightarrow> class_w) \<Longrightarrow>
     read_transition weighted (write_transition class_w weighted x @ r) = Inr (transition_read_back weighted x, r)"
  by (cases x; cases weighted)
     (simp_all add: transition_ok_def read_transition_def write_transition_def transition_read_back_def)

text \<open>C19. A transducer in optimized-lookup format that is written out and read back is the same transducer:
  header, alphabet with its flag diacritics and special symbols, encoder and both tables, with any
  bytes that follow left unread. In an unweighted file the weights are gone and every final
  marker of the index table is 1.\<close>

theorem ol_format_roundtrip:
  assumes "transducer_ok t"
  shows "\<exists>bs. write_transducer t = Inr bs \<and>
     read_transducer (bs @ rest) = Inr (t\<lparr>tables := read_back (h_weighted (ol_head t)) (tables t)\<rparr>, rest)"
proof -
  let ?h = "ol_head t" and ?a = "ol_alpha t" and ?T = "tables t"
  let ?wi = "write_index (h_weighted ?h)" and ?wt = "write_transition (weighted_tables ?T) (h_weighted ?h)"
  have t: "header_ok ?h" "h_symbols ?h = length (symbol_table ?a)" "ol_alphabet_new (symbol_table ?a) = Inr ?a"
    "\<forall>s \<in> set (symbol_table ?a). CHR 0x00 \<notin> set s" "new_encoder (symbol_table ?a) (h_input_symbols ?h) = Inr (ol_encoder t)"
    "h_index_size ?h = length (index_table ?T)" "h_target_size ?h = length (transition_table ?T)"
    "length (index_table ?T) \<le> target_table_start" "length (transition_table ?T) \<le> target_table_start"
    "\<forall>x \<in> set (index_table ?T). index_ok x" "\<forall>x \<in> set (transition_table ?T). transition_ok x"
    "h_weighted ?h \<longrightarrow> weighted_tables ?T"
    using assms unfolding transducer_ok_def by blast+
  let ?I = "concat (map ?wi (index_table ?T))" and ?R = "concat (map ?wt (transition_table ?T))"
  have "write_transducer t = Inr (((write_header ?h @ write_alphabet ?a) @ ?I) @ ?R)"
    unfolding write_transducer_def t(6,7) by (simp add: write_table [OF t(8)] write_table [OF t(9)])
  moreover have "load_tables ?h (?I @ ?R @ rest) = Inr (read_back (h_weighted ?h) ?T, rest)"
  proof -
    have "read_table read_index (length (index_table ?T)) (?I @ ?R @ rest) =
        Inr (map (index_read_back (h_weighted ?h)) (index_table ?T), ?R @ rest)"
      by (rule read_table_concat) (use t(10) in \<open>simp add: read_write_index\<close>)
    moreover have "read_table (read_transition (h_weighted ?h)) (length (transition_table ?T)) (?R @ rest) =
        Inr (map (transition_read_back (h_weighted ?h)) (transition_table ?T), rest)"
      by (rule read_table_concat) (use t(11,12) in \<open>simp add: read_write_transition\<close>)
    ultimately show ?thesis by (simp add: load_tables_def t(6,7) read_back_def)
  qed
  moreover have "read_alphabet (h_symbols ?h) True (write_alphabet ?a @ ?I @ ?R @ rest) = Inr (?a, ?I @ ?R @ rest)"
    using read_write_alphabet [OF t(3,4)] t(2) by simp
  ultimately show ?thesis using t(5) by (simp add: read_transducer_def read_write_header [OF t(1)])
qed

text \<open>The transducer that accepts \<open>a\<close> with weight bits 7.\<close>

definition demo_tables :: ol_tables where
  "demo_tables = \<lparr>weighted_tables = True,
     index_table = [\<lparr>ti_input = 65535, ti_first = 4294967295\<rparr>, \<lparr>ti_input = 65535, ti_first = 4294967295\<rparr>,
       \<lparr>ti_input = 1, ti_first = 2147483649\<rparr>],
     transition_table = [\<lparr>ot_input = 65535, ot_output = 65535, ot_target = 4294967295, ot_weight = 0\<rparr>,
       \<lparr>ot_input = 1, ot_output = 1, ot_target = 2147483650, ot_weight = 7\<rparr>,
       \<lparr>ot_input = 65535, ot_output = 65535, ot_target = 1, ot_weight = 0\<rparr>]\<rparr>"

definition demo_alphabet :: ol_alphabet where
  "demo_alphabet = ol_alphabet_empty\<lparr>symbol_table := [internal_epsilon, ''a''], orig_symbol_count := 2\<rparr>"

lemma demo_alphabet_new: "ol_alphabet_new [internal_epsilon, ''a''] = Inr demo_alphabet"
  by (simp add: ol_alphabet_new_def classify_symbol_def demo_alphabet_def ol_alphabet_empty_def special_symbol_defs
      is_diacritic_def is_unknown_def is_default_def is_identity_def to_symbol_number_def)

lemma ol_format_roundtrip_witness:
  "\<exists>t bs. tables t = demo_tables \<and> ol_alpha t = demo_alphabet \<and> write_transducer t = Inr bs \<and>
     read_transducer bs = Inr (t, [])"
proof -
  let ?st = "[internal_epsilon, ''a'']"
  have st: "\<forall>s \<in> set ?st. s \<noteq> [] \<and> CHR 0x00 \<notin> set s" by (simp add: special_symbol_defs)
  from read_input_symbols_ok [OF st, of 2 2] obtain e where e: "new_encoder ?st 2 = Inr e"
    by (auto simp: new_encoder_def read_input_symbols_def)
  let ?t = "\<lparr>ol_head = new_header 2 2 3 3 True, ol_alpha = demo_alphabet, tables = demo_tables, ol_encoder = e\<rparr>"
  have "symbol_table demo_alphabet = ?st" by (simp add: demo_alphabet_def)
  then have "transducer_ok ?t"
    using e st demo_alphabet_new
    by (simp add: transducer_ok_def header_ok_def new_header_def demo_tables_def index_ok_def transition_ok_def target_table_start_def)
  from ol_format_roundtrip [OF this, of "[]"] show ?thesis
    by (intro exI [of _ ?t]) (auto simp: read_back_def index_read_back_def transition_read_back_def demo_tables_def new_header_def)
qed

end
