(* ===== verification/OlConvert.thy ===== *)
theory OlConvert
  imports OlFormat Harmonization
begin

text \<open>
  Conversion of a basic transducer to the optimized-lookup format (\<open>ConvertOlTransducer.cc\<close>, the place
  holders of \<open>optimized-lookup/convert.h\<close> and the writing of transitions in \<open>convert.cc\<close>). Symbols are
  numbered with the input symbols first; the transitions of a state are grouped by input
  symbol; states with more than one group, and the start state, get a place in the index table,
  where their entries are packed into the gaps of the states before.
  \<open>bits\<close> gives the 32 bits of a weight. A vector entry \<open>UINT_MAX\<close> or \<open>NO_TABLE_INDEX\<close> that
  means absence is \<open>None\<close>.
\<close>

section \<open>Place holders of states\<close>

record 'w transition_placeholder =
  tp_target :: nat
  tp_input :: nat
  tp_output :: nat
  tp_weight :: 'w

datatype indexing_type = Empty_state | Simple_zero_index | Simple_nonzero_index | Nonsimple

record 'w state_placeholder =
  sp_number :: nat
  sp_start_index :: "nat option"
  sp_first_transition :: nat
  symbol_to_group :: "nat option list"
  sp_groups :: "'w transition_placeholder list list"
  sp_type :: indexing_type
  sp_inputs :: nat
  sp_final :: bool
  sp_final_weight :: 'w

definition new_placeholder :: "nat \<Rightarrow> bool \<Rightarrow> nat \<Rightarrow> 'w \<Rightarrow> 'w state_placeholder" where
  "new_placeholder s finality first final_weight =
     \<lparr>sp_number = s, sp_start_index = None, sp_first_transition = first, symbol_to_group = [], sp_groups = [],
      sp_type = (if s = 0 then Nonsimple else Empty_state), sp_inputs = 0, sp_final = finality, sp_final_weight = final_weight\<rparr>"

definition is_simple :: "'w state_placeholder \<Rightarrow> bool" where
  "is_simple p \<longleftrightarrow> sp_type p \<noteq> Nonsimple"

definition input_present :: "'w state_placeholder \<Rightarrow> nat \<Rightarrow> bool" where
  "input_present p input \<longleftrightarrow> input < length (symbol_to_group p) \<and> symbol_to_group p ! input \<noteq> None"

definition indexing_after :: "indexing_type \<Rightarrow> bool \<Rightarrow> nat \<Rightarrow> indexing_type" where
  "indexing_after ty zero inputs =
     (case ty of
        Nonsimple \<Rightarrow> Nonsimple
      | Empty_state \<Rightarrow> if zero then Simple_zero_index else Simple_nonzero_index
      | Simple_zero_index \<Rightarrow> if \<not> zero then Nonsimple else Simple_zero_index
      | Simple_nonzero_index \<Rightarrow> if inputs > 1 \<or> zero then Nonsimple else Simple_nonzero_index)"

definition add_input :: "nat set \<Rightarrow> nat \<Rightarrow> 'w state_placeholder \<Rightarrow> 'w state_placeholder" where
  "add_input flag_symbols input p =
     (if input_present p input then p
      else let v = symbol_to_group p @ replicate (Suc input - length (symbol_to_group p)) None;
               inputs = to_symbol_number (sp_inputs p + 1)
           in p\<lparr>symbol_to_group := v[input := Some (length (sp_groups p))], sp_groups := sp_groups p @ [[]],
                sp_inputs := inputs, sp_type := indexing_after (sp_type p) (input = 0 \<or> input \<in> flag_symbols) inputs\<rparr>)"

definition group_of :: "'w state_placeholder \<Rightarrow> nat \<Rightarrow> 'w transition_placeholder list" where
  "group_of p input = (if input_present p input then sp_groups p ! the (symbol_to_group p ! input) else [])"

definition add_to_group :: "'w transition_placeholder \<Rightarrow> 'w state_placeholder \<Rightarrow> 'w state_placeholder result" where
  "add_to_group tp p =
     (if input_present p (tp_input tp) then
        (let j = the (symbol_to_group p ! tp_input tp) in Inr (p\<lparr>sp_groups := (sp_groups p)[j := sp_groups p ! j @ [tp]]\<rparr>))
      else Inl UndefinedBehaviour)"

text \<open>\<open>symbol_offset\<close>: epsilons first, then flag diacritics, then the rest. The loop over the flag
  diacritics returns 0 when it meets the symbol (\<open>Inl\<close>).\<close>

fun flag_offset :: "'w state_placeholder \<Rightarrow> nat \<Rightarrow> nat list \<Rightarrow> nat \<Rightarrow> nat + nat" where
  "flag_offset p symbol [] offset = Inr offset"
| "flag_offset p symbol (f # fs) offset =
     (if input_present p f then if symbol = f then Inl 0 else flag_offset p symbol fs (offset + length (group_of p f))
      else flag_offset p symbol fs offset)"

fun other_offset :: "'w state_placeholder \<Rightarrow> nat set \<Rightarrow> nat \<Rightarrow> nat list \<Rightarrow> nat \<Rightarrow> nat result" where
  "other_offset p flag_symbols symbol [] offset = Inl HfstFatalException"
| "other_offset p flag_symbols symbol (i # is) offset =
     (if input_present p i \<and> i \<notin> flag_symbols then
        if symbol = i then Inr offset else other_offset p flag_symbols symbol is (offset + length (group_of p i))
      else other_offset p flag_symbols symbol is offset)"

definition symbol_offset :: "nat set \<Rightarrow> nat \<Rightarrow> 'w state_placeholder \<Rightarrow> nat result" where
  "symbol_offset flag_symbols symbol p =
     (if symbol = 0 then Inr 0
      else case flag_offset p symbol (sorted_list_of_set flag_symbols) (if input_present p 0 then length (group_of p 0) else 0) of
          Inl r \<Rightarrow> Inr r
        | Inr offset \<Rightarrow> other_offset p flag_symbols symbol [1..<length (symbol_to_group p)] offset)"

section \<open>Symbols and states\<close>

record symbol_numbers =
  sn_table :: "string list"
  sn_map :: "string \<rightharpoonup> nat"
  sn_seen :: nat
  sn_flags :: "nat set"

definition number_symbol :: "string \<Rightarrow> symbol_numbers \<Rightarrow> symbol_numbers result" where
  "number_symbol s S = rmap (\<lambda>k. S\<lparr>sn_table := sn_table S @ [s], sn_map := (sn_map S)(s \<mapsto> k)\<rparr>) (size_t_to_ushort (length (sn_table S)))"

definition collect_numbers :: "string set \<Rightarrow> string set \<Rightarrow> string set \<Rightarrow> symbol_numbers result" where
  "collect_numbers input_symbols flag_diacritics other_symbols =
     rbind (number_symbol internal_epsilon \<lparr>sn_table = [], sn_map = Map.empty, sn_seen = 1, sn_flags = {}\<rparr>) (\<lambda>S0.
     rbind (rfold (\<lambda>s S. if is_epsilon s then Inr S
              else rmap (\<lambda>S'. S'\<lparr>sn_seen := to_symbol_number (sn_seen S' + 1)\<rparr>) (number_symbol s S))
            (sorted_list_of_set input_symbols) S0) (\<lambda>S1.
     rbind (rfold (\<lambda>s S. if is_epsilon s then Inr S
              else rmap (\<lambda>S'. S'\<lparr>sn_flags := insert (to_symbol_number (length (sn_table S))) (sn_flags S')\<rparr>) (number_symbol s S))
            (sorted_list_of_set flag_diacritics) S1) (\<lambda>S2.
     rfold (\<lambda>s S. if \<not> is_epsilon s \<and> s \<notin> input_symbols \<and> s \<notin> flag_diacritics then number_symbol s S else Inr S)
       (sorted_list_of_set other_symbols) S2)))"

text \<open>With a harmonizer its symbols are used instead.\<close>

definition harmonizer_numbers :: "ol_transducer \<Rightarrow> symbol_numbers result" where
  "harmonizer_numbers h =
     (let st = symbol_table (ol_alpha h) in
      rmap (\<lambda>m. \<lparr>sn_table = st, sn_map = m, sn_seen = h_input_symbols (ol_head h),
          sn_flags = set (filter (\<lambda>i. is_flag_diacritic (ol_alpha h) i \<or> is_insertion (st ! i)) [0..<length st])\<rparr>)
        (build_string_symbol_map (ol_alpha h)))"

definition first_pass_symbols :: "'w transition \<Rightarrow> string set \<times> string set \<times> string set \<Rightarrow> string set \<times> string set \<times> string set" where
  "first_pass_symbols tr sets =
     (case sets of (inputs, flags, others) \<Rightarrow>
        if is_diacritic (tr_input tr) \<or> is_insertion (tr_input tr)
        then (inputs, insert (tr_input tr) flags, insert (tr_output tr) others)
        else (insert (tr_input tr) inputs, flags, insert (tr_output tr) others))"

definition first_pass_states :: "('w::zero) hbt \<Rightarrow> 'w state_placeholder list" where
  "first_pass_states g = fst (fold (\<lambda>trs (ps, first_transition).
     (let s = length ps in
       (ps @ [new_placeholder s (is_final_state s g) first_transition (case final_weight_map g s of None \<Rightarrow> 0 | Some w \<Rightarrow> w)],
        first_transition + 1 + length trs))) (state_vector g) ([], 0))"

text \<open>\<open>operator[]\<close> of the map gives 0, the number of epsilon, to a symbol without a number.\<close>

definition map_number :: "(string \<rightharpoonup> nat) \<Rightarrow> string \<Rightarrow> nat" where
  "map_number m s = (case m s of None \<Rightarrow> 0 | Some k \<Rightarrow> k)"

definition second_pass_transition :: "symbol_numbers \<Rightarrow> 'w transition \<Rightarrow> 'w state_placeholder \<Rightarrow> 'w state_placeholder result" where
  "second_pass_transition S tr p =
     add_to_group \<lparr>tp_target = tr_target tr, tp_input = map_number (sn_map S) (tr_input tr),
         tp_output = map_number (sn_map S) (tr_output tr), tp_weight = tr_weight tr\<rparr>
       (add_input (sn_flags S) (map_number (sn_map S) (tr_input tr)) p)"

fun second_pass :: "symbol_numbers \<Rightarrow> 'w transition list list \<Rightarrow> 'w state_placeholder list \<Rightarrow> 'w state_placeholder list result" where
  "second_pass S (trs # sv) (p # ps) =
     rbind (rfold (second_pass_transition S) trs p) (\<lambda>p'. rmap (Cons p') (second_pass S sv ps))"
| "second_pass S _ ps = Inr ps"

definition get_states_and_symbols ::
  "('w::zero) hbt \<Rightarrow> ol_transducer option \<Rightarrow> (symbol_numbers \<times> 'w state_placeholder list) result" where
  "get_states_and_symbols g harmonizer =
     rbind (case harmonizer of
              None \<Rightarrow> (case collect_transitions first_pass_symbols g ({}, {}, {}) of (inputs, flags, others) \<Rightarrow>
                         collect_numbers inputs flags others)
            | Some h \<Rightarrow> harmonizer_numbers h) (\<lambda>S.
       rmap (Pair S) (second_pass S (state_vector g) (first_pass_states g)))"

section \<open>Packing the index table\<close>

record index_placeholders =
  ip_indices :: "nat option list"
  ip_targets :: "(nat \<times> nat) list"

definition used :: "index_placeholders \<Rightarrow> nat \<Rightarrow> bool" where
  "used ip position \<longleftrightarrow> position < length (ip_indices ip) \<and> ip_indices ip ! position \<noteq> None"

definition ip_assign :: "nat \<Rightarrow> nat \<Rightarrow> nat \<Rightarrow> index_placeholders \<Rightarrow> index_placeholders" where
  "ip_assign position target smb ip =
     ip\<lparr>ip_indices := (ip_indices ip @ replicate (Suc position - length (ip_indices ip)) None)[position := Some (length (ip_targets ip))],
        ip_targets := ip_targets ip @ [(target, smb)]\<rparr>"

definition ip_target :: "index_placeholders \<Rightarrow> nat \<Rightarrow> nat \<times> nat" where
  "ip_target ip i = ip_targets ip ! the (ip_indices ip ! i)"

text \<open>Flag diacritics are indexed as epsilon. A group holds a transition as soon as it exists.\<close>

definition index_offset :: "nat set \<Rightarrow> 'w transition_placeholder list \<Rightarrow> nat" where
  "index_offset flag_symbols trs = (let k = tp_input (trs ! 0) in if k \<in> flag_symbols then 0 else k)"

definition fits :: "nat set \<Rightarrow> 'w state_placeholder \<Rightarrow> index_placeholders \<Rightarrow> nat \<Rightarrow> bool" where
  "fits flag_symbols p ip position \<longleftrightarrow>
     (if used ip position then False
      else list_all (\<lambda>trs. \<not> used ip (index_offset flag_symbols trs + position + 1)) (sp_groups p))"

text \<open>\<open>filled >= 0.85 * symbols\<close>; the rounding of \<open>float\<close> is not modelled.\<close>

definition too_full :: "nat \<Rightarrow> nat \<Rightarrow> bool" where
  "too_full filled symbols \<longleftrightarrow> 17 * symbols \<le> 20 * filled"

fun unsuitable_loop :: "index_placeholders \<Rightarrow> nat \<Rightarrow> nat \<Rightarrow> nat list \<Rightarrow> nat \<Rightarrow> bool" where
  "unsuitable_loop ip index symbols [] filled = False"
| "unsuitable_loop ip index symbols (i # is) filled =
     (let filled' = filled + (if used ip (index + i + 1) then 1 else 0)
      in if too_full filled' symbols then True else unsuitable_loop ip index symbols is filled')"

definition unsuitable :: "index_placeholders \<Rightarrow> nat \<Rightarrow> nat \<Rightarrow> bool" where
  "unsuitable ip index symbols =
     (if used ip index then True else unsuitable_loop ip index symbols [0..<symbols] 0)"

lemma used_length: "used ip i \<Longrightarrow> i < length (ip_indices ip)"
  by (simp add: used_def)

lemma fits_beyond: "length (ip_indices ip) \<le> i \<Longrightarrow> fits flag_symbols p ip i"
  by (auto simp: fits_def list_all_iff dest!: used_length)

lemma suitable_beyond: "length (ip_indices ip) \<le> i \<Longrightarrow> \<not> unsuitable ip i symbols"
proof -
  assume i: "length (ip_indices ip) \<le> i"
  have "0 < symbols \<Longrightarrow> \<not> unsuitable_loop ip i symbols is 0" for "is"
    using i by (induction "is") (auto simp: too_full_def used_def)
  then show ?thesis using i by (cases symbols) (auto simp: unsuitable_def used_def)
qed

text \<open>The index is an \<open>unsigned int\<close> in the code; it stays below the length of the index table, and so within range for
  the graphs of \<open>convertible\<close> in \<open>OlConverted\<close>.\<close>

function find_start :: "nat set \<Rightarrow> 'w state_placeholder \<Rightarrow> index_placeholders \<Rightarrow> nat \<Rightarrow> nat" where
  "find_start flag_symbols p ip i = (if fits flag_symbols p ip i then i else find_start flag_symbols p ip (i + 1))"
  by pat_completeness auto
termination
  by (relation "measure (\<lambda>(fs, p, ip, i). length (ip_indices ip) - i)") (auto, meson fits_beyond not_le diff_less_mono2 lessI)

function skip_unsuitable :: "index_placeholders \<Rightarrow> nat \<Rightarrow> nat \<Rightarrow> nat" where
  "skip_unsuitable ip symbols i = (if unsuitable ip i symbols then skip_unsuitable ip symbols (i + 1) else i)"
  by pat_completeness auto
termination
  by (relation "measure (\<lambda>(ip, symbols, i). length (ip_indices ip) - i)") (auto, meson suitable_beyond not_le diff_less_mono2 lessI)

declare find_start.simps [simp del] skip_unsuitable.simps [simp del]

record 'w packing =
  pk_states :: "'w state_placeholder list"
  pk_indices :: index_placeholders
  first_available_index :: nat
  previous_first_index :: nat
  floor_stuck_counter :: nat

definition assign_state :: "nat set \<Rightarrow> 'w state_placeholder \<Rightarrow> nat \<Rightarrow> index_placeholders \<Rightarrow> index_placeholders" where
  "assign_state flag_symbols p i ip =
     fold (\<lambda>trs ip. ip_assign (i + index_offset flag_symbols trs + 1) (sp_number p) (index_offset flag_symbols trs) ip)
       (sp_groups p) (ip_assign i (sp_number p) no_symbol_number ip)"

definition pack_state :: "nat set \<Rightarrow> nat \<Rightarrow> 'w state_placeholder \<Rightarrow> 'w packing \<Rightarrow> 'w packing" where
  "pack_state flag_symbols seen_input_symbols p k =
     (if is_simple p then k\<lparr>pk_states := pk_states k @ [p]\<rparr>
      else
        let i = find_start flag_symbols p (pk_indices k) (first_available_index k);
            ip = assign_state flag_symbols p i (pk_indices k);
            first = skip_unsuitable ip seen_input_symbols (first_available_index k);
            k1 = k\<lparr>pk_states := pk_states k @ [p\<lparr>sp_start_index := Some i\<rparr>], pk_indices := ip, first_available_index := first\<rparr> in
        if first = previous_first_index k then
          if floor_stuck_counter k > 4
          then k1\<lparr>first_available_index := i + 1, floor_stuck_counter := 0, previous_first_index := i + 1\<rparr>
          else k1\<lparr>floor_stuck_counter := floor_stuck_counter k + 1\<rparr>
        else k1\<lparr>previous_first_index := first, floor_stuck_counter := 0\<rparr>)"

definition pack_states :: "nat set \<Rightarrow> nat \<Rightarrow> 'w state_placeholder list \<Rightarrow> 'w packing" where
  "pack_states flag_symbols seen_input_symbols ps =
     fold (pack_state flag_symbols seen_input_symbols) ps
       \<lparr>pk_states = [], pk_indices = \<lparr>ip_indices = [], ip_targets = []\<rparr>, first_available_index = 0,
        previous_first_index = 0, floor_stuck_counter = 0\<rparr>"

section \<open>Writing the tables\<close>

definition blank_index :: ol_index where
  "blank_index = \<lparr>ti_input = no_symbol_number, ti_first = no_table_index\<rparr>"

definition index_entry :: "('w \<Rightarrow> nat) \<Rightarrow> nat set \<Rightarrow> 'w packing \<Rightarrow> nat \<Rightarrow> ol_index result" where
  "index_entry bits flag_symbols k i =
     (if \<not> used (pk_indices k) i then Inr blank_index
      else case ip_target (pk_indices k) i of (idx, smb) \<Rightarrow>
        let p = pk_states k ! idx in
        if smb = no_symbol_number
        then Inr (if sp_final p then \<lparr>ti_input = no_symbol_number, ti_first = bits (sp_final_weight p)\<rparr> else blank_index)
        else rmap (\<lambda>offset. \<lparr>ti_input = smb, ti_first = (sp_first_transition p + offset + target_table_start) mod 4294967296\<rparr>)
               (symbol_offset flag_symbols smb p))"

fun rmap_list :: "('a \<Rightarrow> 'b result) \<Rightarrow> 'a list \<Rightarrow> 'b list result" where
  "rmap_list f [] = Inr []"
| "rmap_list f (x # xs) = rbind (f x) (\<lambda>y. rmap (Cons y) (rmap_list f xs))"

definition write_index_table :: "('w \<Rightarrow> nat) \<Rightarrow> symbol_numbers \<Rightarrow> 'w packing \<Rightarrow> ol_index list result" where
  "write_index_table bits S k =
     (let greatest_index = length (ip_indices (pk_indices k)) - 1 in
      rmap (\<lambda>xs. xs @ replicate (sn_seen S) blank_index) (rmap_list (index_entry bits (sn_flags S) k) [0..<greatest_index + 1]))"

definition placeholder_transition ::
  "('w \<Rightarrow> nat) \<Rightarrow> 'w state_placeholder list \<Rightarrow> nat \<Rightarrow> 'w transition_placeholder \<Rightarrow> ol_transition result" where
  "placeholder_transition bits ps symbol tp =
     (if tp_target tp < length ps then
        let p = ps ! tp_target tp;
            target = (if is_simple p then (sp_first_transition p + target_table_start - 1) mod 4294967296
                      else case sp_start_index p of None \<Rightarrow> 4294967295 | Some i \<Rightarrow> i)
        in Inr \<lparr>ot_input = symbol, ot_output = tp_output tp, ot_target = target, ot_weight = bits (tp_weight tp)\<rparr>
      else Inl UndefinedBehaviour)"

definition add_transitions_with ::
  "('w \<Rightarrow> nat) \<Rightarrow> 'w state_placeholder list \<Rightarrow> nat \<Rightarrow> 'w transition_placeholder list \<Rightarrow> ol_transition list \<Rightarrow> ol_transition list result" where
  "add_transitions_with bits ps symbol trs table = rmap (\<lambda>xs. table @ xs) (rmap_list (placeholder_transition bits ps symbol) trs)"

definition final_marker :: "('w \<Rightarrow> nat) \<Rightarrow> bool \<Rightarrow> 'w \<Rightarrow> ol_transition" where
  "final_marker bits final w =
     \<lparr>ot_input = no_symbol_number, ot_output = no_symbol_number, ot_target = (if final then 1 else no_table_index), ot_weight = bits w\<rparr>"

definition write_state :: "('w \<Rightarrow> nat) \<Rightarrow> nat set \<Rightarrow> 'w state_placeholder list \<Rightarrow> 'w state_placeholder \<Rightarrow> ol_transition list \<Rightarrow> ol_transition list result" where
  "write_state bits flag_symbols ps p table =
     rbind (if input_present p 0
            then add_transitions_with bits ps 0 (group_of p 0) (if sp_number p \<noteq> 0 then table @ [final_marker bits (sp_final p) (sp_final_weight p)] else table)
            else Inr (if sp_number p \<noteq> 0 then table @ [final_marker bits (sp_final p) (sp_final_weight p)] else table)) (\<lambda>table1.
     rbind (rfold (\<lambda>f table. if input_present p f then add_transitions_with bits ps f (group_of p f) table else Inr table)
              (sorted_list_of_set flag_symbols) table1) (\<lambda>table2.
     rfold (\<lambda>i table. if \<not> input_present p i \<or> i \<in> flag_symbols then Inr table
              else add_transitions_with bits ps i (group_of p i) table) [1..<length (symbol_to_group p)] table2))"

definition infinite_weight_bits :: nat where "infinite_weight_bits = 1333788672"

definition write_transitions :: "('w \<Rightarrow> nat) \<Rightarrow> nat set \<Rightarrow> 'w state_placeholder list \<Rightarrow> ol_transition list result" where
  "write_transitions bits flag_symbols ps =
     rmap (\<lambda>table. table @ [\<lparr>ot_input = no_symbol_number, ot_output = no_symbol_number, ot_target = no_table_index, ot_weight = infinite_weight_bits\<rparr>])
       (rfold (write_state bits flag_symbols ps) ps [])"

section \<open>The conversion\<close>

definition hfst_basic_transducer_to_hfst_ol ::
  "('w::zero \<Rightarrow> nat) \<Rightarrow> 'w hbt \<Rightarrow> bool \<Rightarrow> ol_transducer option \<Rightarrow> ol_transducer result" where
  "hfst_basic_transducer_to_hfst_ol bits g weighted harmonizer =
     rbind (get_states_and_symbols g harmonizer) (\<lambda>(S, ps).
     let k = pack_states (sn_flags S) (sn_seen S) ps in
     rbind (write_index_table bits S k) (\<lambda>windex_table.
     rbind (write_transitions bits (sn_flags S) (pk_states k)) (\<lambda>wtransition_table.
     rbind (ol_alphabet_new (sn_table S)) (\<lambda>a.
     rbind (size_t_to_ushort (length (sn_table S))) (\<lambda>symbols.
     new_transducer (new_header (sn_seen S) symbols (length windex_table) (length wtransition_table) weighted) a
       \<lparr>weighted_tables = True, index_table = windex_table, transition_table = wtransition_table\<rparr>)))))"

end
