(* ===== verification/OlPlaceholders.thy ===== *)
theory OlPlaceholders
  imports OlConvert
begin

text \<open>
  The place holders of states as the conversion fills them: a place holder stands for the list of
  transitions added to it, divided into groups by their input symbols (\<open>holds\<close>). Shown: both passes
  over the graph end in place holders that stand for the transitions of their states.
\<close>

section \<open>A place holder and its transitions\<close>

definition groups_ok :: "'w state_placeholder \<Rightarrow> bool" where
  "groups_ok p \<longleftrightarrow>
     (\<forall>k j. k < length (symbol_to_group p) \<longrightarrow> symbol_to_group p ! k = Some j \<longrightarrow> j < length (sp_groups p)) \<and>
     (\<forall>k l j. k < length (symbol_to_group p) \<longrightarrow> l < length (symbol_to_group p) \<longrightarrow>
        symbol_to_group p ! k = Some j \<longrightarrow> symbol_to_group p ! l = Some j \<longrightarrow> k = l) \<and>
     (\<forall>j < length (sp_groups p). \<exists>k < length (symbol_to_group p). symbol_to_group p ! k = Some j)"

lemma groups_okD:
  "groups_ok p \<Longrightarrow> k < length (symbol_to_group p) \<Longrightarrow> symbol_to_group p ! k = Some j \<Longrightarrow> j < length (sp_groups p)"
  "groups_ok p \<Longrightarrow> k < length (symbol_to_group p) \<Longrightarrow> l < length (symbol_to_group p) \<Longrightarrow>
     symbol_to_group p ! k = Some j \<Longrightarrow> symbol_to_group p ! l = Some j \<Longrightarrow> k = l"
  "groups_ok p \<Longrightarrow> j < length (sp_groups p) \<Longrightarrow> \<exists>k < length (symbol_to_group p). symbol_to_group p ! k = Some j"
  unfolding groups_ok_def by blast+

text \<open>How a state with the input symbols \<open>I\<close> is indexed.\<close>

definition indexing_of :: "nat set \<Rightarrow> nat \<Rightarrow> nat set \<Rightarrow> indexing_type" where
  "indexing_of flag_symbols s I =
     (if s = 0 then Nonsimple else if I = {} then Empty_state
      else if \<forall>k \<in> I. k = 0 \<or> k \<in> flag_symbols then Simple_zero_index
      else if \<exists>k. I = {k} then Simple_nonzero_index else Nonsimple)"

definition holds :: "nat set \<Rightarrow> 'w transition_placeholder list \<Rightarrow> 'w state_placeholder \<Rightarrow> bool" where
  "holds flag_symbols xs p \<longleftrightarrow> groups_ok p \<and>
     (\<forall>k. input_present p k \<longleftrightarrow> k \<in> tp_input ` set xs) \<and>
     (\<forall>k. group_of p k = filter (\<lambda>t. tp_input t = k) xs) \<and>
     sp_type p = indexing_of flag_symbols (sp_number p) (tp_input ` set xs) \<and>
     sp_inputs p = card (tp_input ` set xs)"

lemma indexing_after_of:
  assumes "k \<notin> I" and "finite I"
  shows "indexing_after (indexing_of flag_symbols s I) (k = 0 \<or> k \<in> flag_symbols) (card (insert k I)) =
     indexing_of flag_symbols s (insert k I)"
proof -
  have one: "(\<exists>l. insert k I = {l}) \<longleftrightarrow> I = {}" using assms(1) by auto
  have many: "I \<noteq> {} \<Longrightarrow> 1 < card (insert k I)" using assms by (auto simp: card_gt_0_iff)
  show ?thesis
  proof (cases "s = 0 \<or> I = {}")
    case True
    then show ?thesis using one by (auto simp: indexing_of_def indexing_after_def)
  next
    case False
    then show ?thesis using one many by (simp add: indexing_of_def indexing_after_def)
  qed
qed

definition grown_groups :: "nat \<Rightarrow> 'w state_placeholder \<Rightarrow> nat option list" where
  "grown_groups k p = (symbol_to_group p @ replicate (Suc k - length (symbol_to_group p)) None)[k := Some (length (sp_groups p))]"

lemma grown_groups_nth:
  assumes "\<not> input_present p k"
  shows "length (grown_groups k p) = max (length (symbol_to_group p)) (Suc k)"
    and "l < length (grown_groups k p) \<Longrightarrow> grown_groups k p ! l =
      (if l = k then Some (length (sp_groups p)) else if input_present p l then symbol_to_group p ! l else None)"
  using assms by (auto simp: grown_groups_def nth_list_update nth_append input_present_def)

lemma add_input_new:
  assumes "\<not> input_present p k"
  shows "add_input fs k p = p\<lparr>symbol_to_group := grown_groups k p, sp_groups := sp_groups p @ [[]],
     sp_inputs := to_symbol_number (sp_inputs p + 1),
     sp_type := indexing_after (sp_type p) (k = 0 \<or> k \<in> fs) (to_symbol_number (sp_inputs p + 1))\<rparr>"
  using assms by (simp add: add_input_def Let_def grown_groups_def)

lemma input_present_grown:
  "\<not> input_present p k \<Longrightarrow> input_present (p\<lparr>symbol_to_group := grown_groups k p, sp_groups := gs, sp_inputs := n, sp_type := ty\<rparr>) l \<longleftrightarrow>
     l = k \<or> input_present p l"
  using grown_groups_nth(1) [of p k] grown_groups_nth(2) [of p k l]
  by (cases "l < length (grown_groups k p)") (auto simp: input_present_def)

lemma groups_ok_grown:
  assumes "groups_ok p" and "\<not> input_present p k"
  shows "groups_ok (p\<lparr>symbol_to_group := grown_groups k p, sp_groups := sp_groups p @ [[]], sp_inputs := n, sp_type := ty\<rparr>)"
proof -
  let ?v = "grown_groups k p" and ?n = "length (sp_groups p)"
  have old: "l < length (symbol_to_group p) \<and> symbol_to_group p ! l = Some j \<and> j < ?n \<and> l \<noteq> k"
    if "l < length ?v" "?v ! l = Some j" "l \<noteq> k" for l j
    using that grown_groups_nth(2) [OF assms(2) that(1)] assms(1) by (auto simp: groups_ok_def input_present_def split: if_splits)
  have new: "?v ! k = Some ?n" "k < length ?v" using grown_groups_nth [OF assms(2)] by auto
  have kept: "l < length ?v \<and> ?v ! l = Some j" if "l < length (symbol_to_group p)" "symbol_to_group p ! l = Some j" for l j
    using that grown_groups_nth(1) [OF assms(2)] grown_groups_nth(2) [OF assms(2), of l] assms(2) by (auto simp: input_present_def)
  have range: "l < length ?v \<Longrightarrow> ?v ! l = Some j \<Longrightarrow> j < Suc ?n" for l j
    using old [of l j] new by (cases "l = k") auto
  moreover have "l < length ?v \<Longrightarrow> l' < length ?v \<Longrightarrow> ?v ! l = Some j \<Longrightarrow> ?v ! l' = Some j \<Longrightarrow> l = l'" for l l' j
    using old [of l j] old [of l' j] new groups_okD(2) [OF assms(1), of l l' j] by (cases "l = k"; cases "l' = k") auto
  moreover have "\<exists>l < length ?v. ?v ! l = Some j" if "j < Suc ?n" for j
    using that new kept assms(1) unfolding groups_ok_def by (cases "j = ?n") (metis, metis less_SucE)
  ultimately show ?thesis by (simp add: groups_ok_def)
qed

text \<open>Adding a transition, as the second pass does.\<close>

definition add_placeholder :: "nat set \<Rightarrow> 'w transition_placeholder \<Rightarrow> 'w state_placeholder \<Rightarrow> 'w state_placeholder result" where
  "add_placeholder fs t p = add_to_group t (add_input fs (tp_input t) p)"

lemma holds_add_input:
  assumes p: "holds fs xs p" and few: "card (insert k (tp_input ` set xs)) < 65536"
  shows "groups_ok (add_input fs k p)"
    and "input_present (add_input fs k p) l \<longleftrightarrow> l = k \<or> l \<in> tp_input ` set xs"
    and "group_of (add_input fs k p) l = filter (\<lambda>t. tp_input t = l) xs"
    and "sp_type (add_input fs k p) = indexing_of fs (sp_number p) (insert k (tp_input ` set xs))"
    and "sp_inputs (add_input fs k p) = card (insert k (tp_input ` set xs))"
    and "sp_number (add_input fs k p) = sp_number p" "sp_start_index (add_input fs k p) = sp_start_index p"
      "sp_first_transition (add_input fs k p) = sp_first_transition p" "sp_final (add_input fs k p) = sp_final p"
      "sp_final_weight (add_input fs k p) = sp_final_weight p"
proof -
  let ?I = "tp_input ` set xs"
  have h: "groups_ok p" "\<And>l. input_present p l \<longleftrightarrow> l \<in> ?I" "\<And>l. group_of p l = filter (\<lambda>t. tp_input t = l) xs"
    "sp_type p = indexing_of fs (sp_number p) ?I" "sp_inputs p = card ?I" using p by (auto simp: holds_def)
  have "groups_ok (add_input fs k p) \<and> (input_present (add_input fs k p) l \<longleftrightarrow> l = k \<or> l \<in> ?I) \<and>
    group_of (add_input fs k p) l = filter (\<lambda>t. tp_input t = l) xs \<and>
    sp_type (add_input fs k p) = indexing_of fs (sp_number p) (insert k ?I) \<and> sp_inputs (add_input fs k p) = card (insert k ?I)"
  proof (cases "input_present p k")
    case True
    then show ?thesis using h by (auto simp: add_input_def insert_absorb)
  next
    case False
    let ?q = "add_input fs k p"
    note q = add_input_new [OF False, of fs]
    have k: "k \<notin> ?I" using False h(2) by blast
    have n: "to_symbol_number (sp_inputs p + 1) = card (insert k ?I)"
      using few k h(5) by (simp add: to_symbol_number_def)
    have pres: "input_present ?q l \<longleftrightarrow> l = k \<or> l \<in> ?I" unfolding q input_present_grown [OF False] h(2) ..
    have "group_of ?q l = filter (\<lambda>t. tp_input t = l) xs"
    proof (cases "l = k")
      case True
      have "filter (\<lambda>t. tp_input t = k) xs = []" using k by (auto simp: filter_empty_conv)
      moreover have "group_of ?q k = []"
        using pres [unfolded True] grown_groups_nth [OF False] unfolding group_of_def q by auto
      ultimately show ?thesis using True by simp
    next
      case False
      show ?thesis
      proof (cases "l \<in> ?I")
        case True
        then have l: "input_present p l" using h(2) by blast
        then obtain j where j: "l < length (symbol_to_group p)" "symbol_to_group p ! l = Some j" by (auto simp: input_present_def)
        then have "j < length (sp_groups p)" using h(1) by (auto simp: groups_ok_def)
        moreover have "grown_groups k p ! l = Some j"
          using grown_groups_nth(1) [OF \<open>\<not> input_present p k\<close>] grown_groups_nth(2) [OF \<open>\<not> input_present p k\<close>, of l] False l j by auto
        ultimately have "group_of ?q l = group_of p l"
          using pres True l j unfolding group_of_def by (simp add: q nth_append)
        then show ?thesis using h(3) by simp
      next
        case none: False
        then have "\<not> input_present ?q l" using pres False by blast
        moreover have "filter (\<lambda>t. tp_input t = l) xs = []" using none by (auto simp: filter_empty_conv)
        ultimately show ?thesis by (simp add: group_of_def)
      qed
    qed
    moreover have "sp_type ?q = indexing_of fs (sp_number p) (insert k ?I)"
      using indexing_after_of [OF k, of fs "sp_number p"] n h(4) by (simp add: q)
    ultimately show ?thesis using groups_ok_grown [OF h(1) False] pres n by (simp add: q)
  qed
  then show "groups_ok (add_input fs k p)" "input_present (add_input fs k p) l \<longleftrightarrow> l = k \<or> l \<in> ?I"
    "group_of (add_input fs k p) l = filter (\<lambda>t. tp_input t = l) xs"
    "sp_type (add_input fs k p) = indexing_of fs (sp_number p) (insert k ?I)" "sp_inputs (add_input fs k p) = card (insert k ?I)" by blast+
  show "sp_number (add_input fs k p) = sp_number p" "sp_start_index (add_input fs k p) = sp_start_index p"
      "sp_first_transition (add_input fs k p) = sp_first_transition p" "sp_final (add_input fs k p) = sp_final p"
      "sp_final_weight (add_input fs k p) = sp_final_weight p"
    by (simp_all add: add_input_def Let_def)
qed

lemma holds_add_placeholder:
  assumes p: "holds fs xs p" and few: "card (tp_input ` set (xs @ [t])) < 65536"
  shows "\<exists>q. add_placeholder fs t p = Inr q \<and> holds fs (xs @ [t]) q \<and> sp_number q = sp_number p \<and>
     sp_start_index q = sp_start_index p \<and> sp_first_transition q = sp_first_transition p \<and> sp_final q = sp_final p \<and>
     sp_final_weight q = sp_final_weight p"
proof -
  let ?k = "tp_input t" and ?q = "add_input fs (tp_input t) p"
  have "card (insert ?k (tp_input ` set xs)) < 65536" using few by simp
  note q = holds_add_input [OF p this]
  have k: "input_present ?q ?k" using q(2) by blast
  then obtain j where j: "?k < length (symbol_to_group ?q)" "symbol_to_group ?q ! ?k = Some j" by (auto simp: input_present_def)
  then have jl: "j < length (sp_groups ?q)" using q(1) by (auto simp: groups_ok_def)
  let ?r = "?q\<lparr>sp_groups := (sp_groups ?q)[j := sp_groups ?q ! j @ [t]]\<rparr>"
  have pres: "input_present ?r l \<longleftrightarrow> input_present ?q l" for l by (simp add: input_present_def)
  have "group_of ?r l = filter (\<lambda>u. tp_input u = l) (xs @ [t])" for l
  proof (cases "l = ?k")
    case True
    then have "group_of ?r l = group_of ?q l @ [t]" using k j jl by (simp add: group_of_def pres)
    then show ?thesis using q(3) True by simp
  next
    case False
    have "group_of ?r l = group_of ?q l"
    proof (cases "input_present ?q l")
      case True
      then obtain i where i: "l < length (symbol_to_group ?q)" "symbol_to_group ?q ! l = Some i" by (auto simp: input_present_def)
      with groups_okD(2) [OF q(1) i(1) j(1)] j(2) False have "i \<noteq> j" by auto
      with i True show ?thesis by (simp add: group_of_def pres)
    qed (simp add: group_of_def pres)
    then show ?thesis using q(3) False by simp
  qed
  moreover have "groups_ok ?r" using q(1) by (simp add: groups_ok_def)
  moreover have "add_placeholder fs t p = Inr ?r" using k j by (simp add: add_placeholder_def add_to_group_def)
  moreover have "input_present ?r l \<longleftrightarrow> l \<in> tp_input ` set (xs @ [t])" for l unfolding pres q(2) by simp
  moreover have "sp_type ?r = indexing_of fs (sp_number ?r) (tp_input ` set (xs @ [t]))" using q(4,6) by simp
  moreover have "sp_inputs ?r = card (tp_input ` set (xs @ [t]))" using q(5) by simp
  ultimately have "holds fs (xs @ [t]) ?r" unfolding holds_def by blast
  moreover have "sp_number ?r = sp_number p" "sp_start_index ?r = sp_start_index p" "sp_first_transition ?r = sp_first_transition p"
    "sp_final ?r = sp_final p" "sp_final_weight ?r = sp_final_weight p" using q(6-10) by simp_all
  ultimately show ?thesis using \<open>add_placeholder fs t p = Inr ?r\<close> by blast
qed

section \<open>The two passes\<close>

text \<open>Where the transitions of a state begin in the transition table.\<close>

definition state_base :: "'w hbt \<Rightarrow> nat \<Rightarrow> nat" where
  "state_base g s = (\<Sum>trs \<leftarrow> take s (state_vector g). 1 + length trs)"

definition tp_of :: "symbol_numbers \<Rightarrow> 'w transition \<Rightarrow> 'w transition_placeholder" where
  "tp_of S tr = \<lparr>tp_target = tr_target tr, tp_input = map_number (sn_map S) (tr_input tr),
     tp_output = map_number (sn_map S) (tr_output tr), tp_weight = tr_weight tr\<rparr>"

definition final_of :: "('w::zero) hbt \<Rightarrow> nat \<Rightarrow> 'w" where
  "final_of g s = (case final_weight_map g s of None \<Rightarrow> 0 | Some w \<Rightarrow> w)"

lemma first_pass_states_eq:
  "first_pass_states g = map (\<lambda>s. new_placeholder s (is_final_state s g) (state_base g s) (final_of g s)) [0..<length (state_vector g)]"
proof -
  let ?f = "\<lambda>trs (ps, first_transition). (let s = length ps in
      (ps @ [new_placeholder s (is_final_state s g) first_transition (final_of g s)], first_transition + 1 + length trs))"
  have "fold ?f (take n (state_vector g)) ([], 0) =
      (map (\<lambda>s. new_placeholder s (is_final_state s g) (state_base g s) (final_of g s)) [0..<n], state_base g n)"
    if "n \<le> length (state_vector g)" for n
    using that by (induction n) (auto simp: state_base_def take_Suc_conv_app_nth Let_def)
  from this [of "length (state_vector g)"] show ?thesis by (simp add: first_pass_states_def final_of_def)
qed

lemma holds_new: "holds fs [] (new_placeholder s b n w)"
  by (simp add: holds_def new_placeholder_def groups_ok_def input_present_def group_of_def indexing_of_def)

lemma new_placeholder_simps:
  "sp_number (new_placeholder s b n w) = s" "sp_start_index (new_placeholder s b n w) = None"
  "sp_first_transition (new_placeholder s b n w) = n" "sp_final (new_placeholder s b n w) = b"
  "sp_final_weight (new_placeholder s b n w) = w"
  by (simp_all add: new_placeholder_def)

lemma second_pass_state:
  assumes numbers: "\<And>s. map_number (sn_map S) s < 65535"
  shows "holds (sn_flags S) xs p \<Longrightarrow> tp_input ` set xs \<subseteq> {..<65535} \<Longrightarrow>
     \<exists>q. rfold (second_pass_transition S) trs p = Inr q \<and> holds (sn_flags S) (xs @ map (tp_of S) trs) q \<and> sp_number q = sp_number p \<and>
       sp_start_index q = sp_start_index p \<and> sp_first_transition q = sp_first_transition p \<and> sp_final q = sp_final p \<and>
       sp_final_weight q = sp_final_weight p"
proof (induction trs arbitrary: xs p)
  case (Cons tr trs)
  have sub: "tp_input ` set (xs @ [tp_of S tr]) \<subseteq> {..<65535}" using Cons.prems(2) numbers by (auto simp: tp_of_def)
  then have "card (tp_input ` set (xs @ [tp_of S tr])) \<le> card {..<65535 :: nat}" by (intro card_mono) auto
  then have "card (tp_input ` set (xs @ [tp_of S tr])) < 65536" by simp
  from holds_add_placeholder [OF Cons.prems(1) this] obtain q where
    q: "add_placeholder (sn_flags S) (tp_of S tr) p = Inr q" "holds (sn_flags S) (xs @ [tp_of S tr]) q" "sp_number q = sp_number p"
      "sp_start_index q = sp_start_index p" "sp_first_transition q = sp_first_transition p" "sp_final q = sp_final p"
      "sp_final_weight q = sp_final_weight p" by blast
  have "second_pass_transition S tr p = Inr q" using q(1) by (simp add: second_pass_transition_def add_placeholder_def tp_of_def)
  with Cons.IH [OF q(2) sub] q(3-7) show ?case by simp
qed simp

lemma second_pass_nth:
  assumes "length ps = length sv" and "\<And>i. i < length sv \<Longrightarrow> rfold (second_pass_transition S) (sv ! i) (ps ! i) = Inr (f i)"
  shows "second_pass S sv ps = Inr (map f [0..<length sv])"
  using assms
proof (induction sv arbitrary: ps f)
  case (Cons trs sv)
  then obtain p qs where ps: "ps = p # qs" "length qs = length sv" by (cases ps) auto
  have "second_pass S sv qs = Inr (map (\<lambda>i. f (Suc i)) [0..<length sv])"
    by (rule Cons.IH [OF ps(2)]) (use Cons.prems(2) [of "Suc _"] ps(1) in simp)
  moreover have "rfold (second_pass_transition S) trs p = Inr (f 0)" using Cons.prems(2) [of 0] ps(1) by simp
  ultimately show ?case unfolding ps(1) by (simp add: map_upt_Suc del: upt_Suc)
qed simp

text \<open>The place holders after both passes.\<close>

definition stands_for :: "symbol_numbers \<Rightarrow> ('w::zero) hbt \<Rightarrow> 'w state_placeholder list \<Rightarrow> bool" where
  "stands_for S g ps \<longleftrightarrow> length ps = length (state_vector g) \<and> (\<forall>s < length ps.
     holds (sn_flags S) (map (tp_of S) (state_vector g ! s)) (ps ! s) \<and> sp_number (ps ! s) = s \<and>
     sp_first_transition (ps ! s) = state_base g s \<and> sp_final (ps ! s) = is_final_state s g \<and>
     sp_final_weight (ps ! s) = final_of g s)"

lemma second_pass_stands_for:
  assumes numbers: "\<And>s. map_number (sn_map S) s < 65535"
  shows "\<exists>ps. second_pass S (state_vector g) (first_pass_states g) = Inr ps \<and> stands_for S g ps \<and>
     (\<forall>p \<in> set ps. sp_start_index p = None)"
proof -
  let ?n = "length (state_vector g)"
  let ?new = "\<lambda>s. new_placeholder s (is_final_state s g) (state_base g s) (final_of g s)"
  have "\<exists>q. rfold (second_pass_transition S) (state_vector g ! s) (?new s) = Inr q \<and>
      holds (sn_flags S) (map (tp_of S) (state_vector g ! s)) q \<and> sp_number q = s \<and> sp_start_index q = None \<and>
      sp_first_transition q = state_base g s \<and> sp_final q = is_final_state s g \<and> sp_final_weight q = final_of g s" for s
    using second_pass_state [OF numbers holds_new, where trs = "state_vector g ! s"]
    unfolding new_placeholder_simps by simp
  then have "\<forall>s. \<exists>q. rfold (second_pass_transition S) (state_vector g ! s) (?new s) = Inr q \<and>
      holds (sn_flags S) (map (tp_of S) (state_vector g ! s)) q \<and> sp_number q = s \<and> sp_start_index q = None \<and>
      sp_first_transition q = state_base g s \<and> sp_final q = is_final_state s g \<and> sp_final_weight q = final_of g s" by blast
  then obtain f where f: "\<forall>s < ?n. rfold (second_pass_transition S) (state_vector g ! s) (?new s) = Inr (f s) \<and>
      holds (sn_flags S) (map (tp_of S) (state_vector g ! s)) (f s) \<and> sp_number (f s) = s \<and> sp_start_index (f s) = None \<and>
      sp_first_transition (f s) = state_base g s \<and> sp_final (f s) = is_final_state s g \<and> sp_final_weight (f s) = final_of g s"
    by metis
  have "second_pass S (state_vector g) (first_pass_states g) = Inr (map f [0..<?n])"
    unfolding first_pass_states_eq by (rule second_pass_nth) (use f in auto)
  then show ?thesis using f by (auto simp: stands_for_def)
qed

end
