(* ===== verification/OlPacking.thy ===== *)
theory OlPacking
  imports OlPlaceholders
begin

text \<open>
  The packing of the index table. \<open>slot\<close> reads the place holders of the table as a map from positions
  to a state and a symbol. Shown: whatever the heuristics for the first available index do, the
  slots are those of the states that need an index, each at its start index and behind it, and no two
  of them meet.
\<close>

definition slot :: "index_placeholders \<Rightarrow> nat \<rightharpoonup> nat \<times> nat" where
  "slot ip pos = (if used ip pos then Some (ip_target ip pos) else None)"

definition ip_ok :: "index_placeholders \<Rightarrow> bool" where
  "ip_ok ip \<longleftrightarrow> (\<forall>pos j. pos < length (ip_indices ip) \<longrightarrow> ip_indices ip ! pos = Some j \<longrightarrow> j < length (ip_targets ip))"

lemma slot_None: "slot ip pos = None \<longleftrightarrow> \<not> used ip pos"
  by (simp add: slot_def)

lemma slot_assign:
  assumes "ip_ok ip"
  shows "ip_ok (ip_assign pos t y ip)" and "slot (ip_assign pos t y ip) = (slot ip)(pos \<mapsto> (t, y))"
proof -
  let ?v = "(ip_indices ip @ replicate (Suc pos - length (ip_indices ip)) None)[pos := Some (length (ip_targets ip))]"
  have v: "length ?v = max (length (ip_indices ip)) (Suc pos)"
    "l < length ?v \<Longrightarrow> ?v ! l = (if l = pos then Some (length (ip_targets ip)) else if l < length (ip_indices ip) then ip_indices ip ! l else None)" for l
    by (auto simp: nth_list_update nth_append)
  have same: "ip_assign pos t y ip = ip\<lparr>ip_indices := ?v, ip_targets := ip_targets ip @ [(t, y)]\<rparr>" by (simp add: ip_assign_def)
  show "ip_ok (ip_assign pos t y ip)"
    using assms v unfolding same ip_ok_def by (auto split: if_splits intro: less_SucI)
  show "slot (ip_assign pos t y ip) = (slot ip)(pos \<mapsto> (t, y))"
  proof
    fix l
    show "slot (ip_assign pos t y ip) l = ((slot ip)(pos \<mapsto> (t, y))) l"
    proof (cases "l = pos")
      case True
      then show ?thesis using v(1) v(2) [of l] by (simp add: same slot_def used_def ip_target_def)
    next
      case False
      have "used (ip\<lparr>ip_indices := ?v, ip_targets := ip_targets ip @ [(t, y)]\<rparr>) l \<longleftrightarrow> used ip l"
        using False v(1) v(2) [of l] by (cases "l < length ?v") (auto simp: used_def)
      moreover have "ip_target (ip\<lparr>ip_indices := ?v, ip_targets := ip_targets ip @ [(t, y)]\<rparr>) l = ip_target ip l" if "used ip l"
        using that False v(1) v(2) [of l] assms by (auto simp: used_def ip_target_def ip_ok_def nth_append)
      ultimately show ?thesis using False by (simp add: same slot_def)
    qed
  qed
qed

lemma assign_state_slots:
  assumes "ip_ok ip"
  shows "ip_ok (assign_state fs p i ip)"
    and "slot (assign_state fs p i ip) pos =
      (if \<exists>trs \<in> set (sp_groups p). pos = i + index_offset fs trs + 1 then Some (sp_number p, pos - i - 1)
       else if pos = i then Some (sp_number p, no_symbol_number) else slot ip pos)"
proof -
  have fold: "ip_ok ip \<Longrightarrow> ip_ok (fold (\<lambda>trs ip. ip_assign (i + index_offset fs trs + 1) s (index_offset fs trs) ip) gs ip) \<and>
      slot (fold (\<lambda>trs ip. ip_assign (i + index_offset fs trs + 1) s (index_offset fs trs) ip) gs ip) pos =
        (if \<exists>trs \<in> set gs. pos = i + index_offset fs trs + 1 then Some (s, pos - i - 1) else slot ip pos)" for gs s ip
    by (induction gs arbitrary: ip) (auto simp: slot_assign)
  show "ip_ok (assign_state fs p i ip)" unfolding assign_state_def using fold slot_assign [OF assms] by blast
  show "slot (assign_state fs p i ip) pos =
      (if \<exists>trs \<in> set (sp_groups p). pos = i + index_offset fs trs + 1 then Some (sp_number p, pos - i - 1)
       else if pos = i then Some (sp_number p, no_symbol_number) else slot ip pos)"
    unfolding assign_state_def fold [OF slot_assign(1) [OF assms], THEN conjunct2] slot_assign(2) [OF assms] by simp
qed

lemma find_start_fits: "fits fs p ip (find_start fs p ip i)"
  by (induction fs p ip i rule: find_start.induct) (subst find_start.simps, auto)

text \<open>The slots of a state.\<close>

definition state_slot :: "nat set \<Rightarrow> 'w state_placeholder \<Rightarrow> nat \<Rightarrow> nat \<Rightarrow> bool" where
  "state_slot fs p pos y \<longleftrightarrow> (\<exists>i. sp_start_index p = Some i \<and>
     (y = no_symbol_number \<and> pos = i \<or> (\<exists>trs \<in> set (sp_groups p). y = index_offset fs trs \<and> pos = i + y + 1)))"

definition packed :: "nat set \<Rightarrow> 'w state_placeholder list \<Rightarrow> 'w packing \<Rightarrow> bool" where
  "packed fs ps k \<longleftrightarrow> length (pk_states k) = length ps \<and> ip_ok (pk_indices k) \<and>
     (\<forall>s < length ps. \<exists>i. pk_states k ! s = (ps ! s)\<lparr>sp_start_index := i\<rparr> \<and> (i = None \<longleftrightarrow> is_simple (ps ! s))) \<and>
     (\<forall>pos s y. slot (pk_indices k) pos = Some (s, y) \<longleftrightarrow> s < length ps \<and> state_slot fs (pk_states k ! s) pos y)"

lemma packed_snoc:
  assumes k: "packed fs ps k" and p: "sp_number p = length ps" "sp_start_index p = None"
  shows "packed fs (ps @ [p]) (pack_state fs seen p k)"
proof (cases "is_simple p")
  case True
  have none: "\<not> state_slot fs p pos y" for pos y using p(2) by (simp add: state_slot_def)
  have "pack_state fs seen p k = k\<lparr>pk_states := pk_states k @ [p]\<rparr>" using True by (simp add: pack_state_def)
  moreover have "p = p\<lparr>sp_start_index := None\<rparr>" using p(2) by (cases p) simp
  ultimately show ?thesis using k True none unfolding packed_def by (auto simp: nth_append less_Suc_eq)
next
  case False
  let ?i = "find_start fs p (pk_indices k) (first_available_index k)"
  let ?ip = "assign_state fs p ?i (pk_indices k)" and ?q = "p\<lparr>sp_start_index := Some ?i\<rparr>"
  have parts: "pk_states (pack_state fs seen p k) = pk_states k @ [?q]" "pk_indices (pack_state fs seen p k) = ?ip"
    using False by (simp_all add: pack_state_def Let_def)
  have ok: "ip_ok (pk_indices k)" and len: "length (pk_states k) = length ps"
    and old: "\<And>pos s y. slot (pk_indices k) pos = Some (s, y) \<longleftrightarrow> s < length ps \<and> state_slot fs (pk_states k ! s) pos y"
    using k by (simp_all add: packed_def)
  note slots = assign_state_slots [OF ok, of fs p ?i]
  have free: "slot (pk_indices k) ?i = None" "trs \<in> set (sp_groups p) \<Longrightarrow> slot (pk_indices k) (?i + index_offset fs trs + 1) = None" for trs
    using find_start_fits [of fs p "pk_indices k" "first_available_index k"]
    by (auto simp: fits_def slot_None list_all_iff ac_simps split: if_splits)
  have new: "state_slot fs ?q pos y \<longleftrightarrow> y = no_symbol_number \<and> pos = ?i \<or> (\<exists>trs \<in> set (sp_groups p). y = index_offset fs trs \<and> pos = ?i + y + 1)" for pos y
    by (simp add: state_slot_def)
  have "slot ?ip pos = Some (s, y) \<longleftrightarrow> s < Suc (length ps) \<and> state_slot fs ((pk_states k @ [?q]) ! s) pos y" for pos s y
  proof (cases "s = length ps")
    case True
    then have "slot (pk_indices k) pos \<noteq> Some (s, y)" using old by simp
    moreover have "(pk_states k @ [?q]) ! s = ?q" using True len by (simp add: nth_append)
    moreover have "slot ?ip pos = Some (s, y) \<longleftrightarrow> state_slot fs ?q pos y"
      if "slot (pk_indices k) pos \<noteq> Some (s, y)"
    proof (cases "\<exists>trs \<in> set (sp_groups p). pos = ?i + index_offset fs trs + 1")
      case True
      then show ?thesis using \<open>s = length ps\<close> p(1) unfolding new slots(2) by auto
    next
      case False
      then show ?thesis using \<open>s = length ps\<close> p(1) that unfolding new slots(2) by auto
    qed
    ultimately show ?thesis using True by simp
  next
    case other: False
    show ?thesis
    proof (cases "pos = ?i \<or> (\<exists>trs \<in> set (sp_groups p). pos = ?i + index_offset fs trs + 1)")
      case True
      then have "slot (pk_indices k) pos = None" using free by auto
      then have "\<not> (s < length ps \<and> state_slot fs (pk_states k ! s) pos y)" using old [of pos s y] by simp
      then show ?thesis using True other p(1) len slots(2) [of pos] by (auto simp: nth_append)
    next
      case False
      then have "slot ?ip pos = slot (pk_indices k) pos" using slots(2) [of pos] by auto
      then show ?thesis using old other len by (auto simp: nth_append)
    qed
  qed
  moreover have "\<exists>i. (pk_states k @ [?q]) ! s = ((ps @ [p]) ! s)\<lparr>sp_start_index := i\<rparr> \<and> (i = None \<longleftrightarrow> is_simple ((ps @ [p]) ! s))"
    if "s < Suc (length ps)" for s
  proof (cases "s = length ps")
    case True
    then show ?thesis using len False by (intro exI [of _ "Some ?i"]) (simp add: nth_append)
  next
    case other: False
    then have "s < length ps" using that by simp
    then show ?thesis using k len by (simp add: packed_def nth_append)
  qed
  ultimately show ?thesis using slots(1) parts len by (simp add: packed_def)
qed

lemma pack_states_packed:
  "\<forall>s < length ps. sp_number (ps ! s) = s \<and> sp_start_index (ps ! s) = None \<Longrightarrow> packed fs ps (pack_states fs seen ps)"
proof (induction ps rule: rev_induct)
  case Nil
  show ?case by (simp add: pack_states_def packed_def ip_ok_def slot_def used_def)
next
  case (snoc p ps)
  have "\<forall>s < length ps. sp_number (ps ! s) = s \<and> sp_start_index (ps ! s) = None"
    using snoc.prems by (auto simp: nth_append less_Suc_eq)
  from packed_snoc [OF snoc.IH [OF this], of p seen] snoc.prems [rule_format, of "length ps"] show ?case
    by (simp add: pack_states_def)
qed

text \<open>The start state is first.\<close>

lemma pack_states_start:
  "ps \<noteq> [] \<Longrightarrow> \<not> is_simple (hd ps) \<Longrightarrow> sp_start_index (pk_states (pack_states fs seen ps) ! 0) = Some 0 \<and>
     pk_states (pack_states fs seen ps) \<noteq> []"
proof (induction ps rule: rev_induct)
  case (snoc p ps)
  show ?case
  proof (cases "ps = []")
    case True
    have "find_start fs p \<lparr>ip_indices = [], ip_targets = []\<rparr> 0 = 0"
      by (subst find_start.simps) (simp add: fits_beyond)
    then show ?thesis using True snoc.prems by (simp add: pack_states_def pack_state_def Let_def)
  next
    case False
    moreover have "\<exists>q. pk_states (pack_state fs seen p k) = pk_states k @ [q]" for k :: "'a packing"
      by (simp add: pack_state_def Let_def)
    ultimately show ?thesis using snoc by (auto simp: pack_states_def nth_append) (metis append_Cons neq_Nil_conv nth_Cons_0)+
  qed
qed simp

section \<open>The size of the index table\<close>

lemma find_start_bound: "i \<le> length (ip_indices ip) \<Longrightarrow> find_start fs p ip i \<le> length (ip_indices ip)"
proof (induction fs p ip i rule: find_start.induct)
  case (1 fs p ip i)
  show ?case
  proof (cases "fits fs p ip i")
    case False
    then have "i + 1 \<le> length (ip_indices ip)" using fits_beyond [of ip i fs p] by linarith
    then show ?thesis using 1 False by (subst find_start.simps) simp
  qed (use 1 in \<open>simp add: find_start.simps [of fs p ip i]\<close>)
qed

lemma skip_unsuitable_bound: "i \<le> length (ip_indices ip) \<Longrightarrow> skip_unsuitable ip symbols i \<le> length (ip_indices ip)"
proof (induction ip symbols i rule: skip_unsuitable.induct)
  case (1 ip symbols i)
  show ?case
  proof (cases "unsuitable ip i symbols")
    case True
    then have "i + 1 \<le> length (ip_indices ip)" using suitable_beyond [of ip i symbols] by linarith
    then show ?thesis using 1 True by (subst skip_unsuitable.simps) simp
  qed (use 1 in \<open>simp add: skip_unsuitable.simps [of ip symbols i]\<close>)
qed

lemma length_ip_assign: "length (ip_indices (ip_assign pos t y ip)) = max (length (ip_indices ip)) (Suc pos)"
  by (auto simp: ip_assign_def)

lemma assign_groups_length:
  "length (ip_indices ip) \<le> length (ip_indices (fold (\<lambda>trs ip. ip_assign (i + index_offset fs trs + 1) s (index_offset fs trs) ip) gs ip))"
proof (induction gs arbitrary: ip)
  case (Cons trs gs)
  from Cons.IH [of "ip_assign (i + index_offset fs trs + 1) s (index_offset fs trs) ip"] show ?case
    by (simp add: length_ip_assign)
qed simp

lemma assign_state_length:
  assumes "\<forall>trs \<in> set (sp_groups p). index_offset fs trs < m"
  shows "length (ip_indices (assign_state fs p i ip)) \<le> max (length (ip_indices ip)) (i + m + 1)"
    and "max (length (ip_indices ip)) (Suc i) \<le> length (ip_indices (assign_state fs p i ip))"
proof -
  have fold: "length (ip_indices (fold (\<lambda>trs ip. ip_assign (i + index_offset fs trs + 1) s (index_offset fs trs) ip) gs ip)) \<le>
      max (length (ip_indices ip)) (i + m + 1)" if "\<forall>trs \<in> set gs. index_offset fs trs < m" for gs s ip
    using that
  proof (induction gs arbitrary: ip)
    case (Cons trs gs)
    then have "i + index_offset fs trs + 1 < i + m + 1" by simp
    with Cons show ?case using Cons.IH [of "ip_assign (i + index_offset fs trs + 1) s (index_offset fs trs) ip"]
      by (simp add: length_ip_assign max_def split: if_splits)
  qed simp
  from fold [OF assms, of "sp_number p" "ip_assign i (sp_number p) no_symbol_number ip"]
  show "length (ip_indices (assign_state fs p i ip)) \<le> max (length (ip_indices ip)) (i + m + 1)"
    unfolding assign_state_def length_ip_assign by linarith
  from assign_groups_length [of "ip_assign i (sp_number p) no_symbol_number ip"]
  show "max (length (ip_indices ip)) (Suc i) \<le> length (ip_indices (assign_state fs p i ip))"
    unfolding assign_state_def length_ip_assign by blast
qed

text \<open>Each state makes the table longer by at most the largest offset and two entries.\<close>

lemma pack_states_length:
  "\<forall>p \<in> set ps. \<forall>trs \<in> set (sp_groups p). index_offset fs trs < m \<Longrightarrow>
     length (ip_indices (pk_indices (pack_states fs seen ps))) \<le> length ps * (m + 1) \<and>
     first_available_index (pack_states fs seen ps) \<le> length (ip_indices (pk_indices (pack_states fs seen ps)))"
proof (induction ps rule: rev_induct)
  case Nil
  show ?case by (simp add: pack_states_def)
next
  case (snoc p ps)
  let ?k = "pack_states fs seen ps"
  have IH: "length (ip_indices (pk_indices ?k)) \<le> length ps * (m + 1)" "first_available_index ?k \<le> length (ip_indices (pk_indices ?k))"
    using snoc by simp_all
  have step: "pack_states fs seen (ps @ [p]) = pack_state fs seen p ?k" by (simp add: pack_states_def)
  show ?case
  proof (cases "is_simple p")
    case True
    then show ?thesis using IH by (simp add: step pack_state_def)
  next
    case False
    let ?i = "find_start fs p (pk_indices ?k) (first_available_index ?k)"
    let ?ip = "assign_state fs p ?i (pk_indices ?k)"
    have i: "?i \<le> length (ip_indices (pk_indices ?k))" by (rule find_start_bound [OF IH(2)])
    have "\<forall>trs \<in> set (sp_groups p). index_offset fs trs < m" using snoc.prems by simp
    note a = assign_state_length [OF this, where i = ?i and ip = "pk_indices ?k"]
    have len: "length (ip_indices ?ip) \<le> length ps * (m + 1) + (m + 1)" using a(1) i IH(1) by linarith
    have "length (ip_indices (pk_indices ?k)) \<le> length (ip_indices ?ip)" using a(2) by simp
    then have "skip_unsuitable ?ip seen (first_available_index ?k) \<le> length (ip_indices ?ip)"
      using IH(2) by (intro skip_unsuitable_bound) simp
    then show ?thesis using len a(2) False by (simp add: step pack_state_def Let_def)
  qed
qed

end
