(* ===== verification/OlLookup.thy ===== *)
theory OlLookup
  imports OlFormat Flags
begin

text \<open>
  Lookup in optimized-lookup transducers (\<open>get_analyses\<close> and the functions around it in
  \<open>optimized-lookup/transducer.cc\<close>). \<open>recursion_depth_left\<close> is restored by every return, so it is
  an argument, on which the recursion goes down; the loops walk along the rest of the transition
  table. \<open>wval\<close> reads the bits of a weight; a time limit of 0 (the default) is none. Shown: on well-formed
  tables lookup stays inside them, finds only accepting runs over the input and not more than its limit, and all
  the runs up to the depth when no cycle goes through a flag diacritic.
\<close>

section \<open>The state of a lookup\<close>

record 'w lookup_state =
  current_weight :: 'w
  lookup_paths :: "('w \<times> string_pair list) set"
  output_tape :: "(nat \<times> nat) list"
  flag_state :: "nat fd_state"
  found_transition :: bool
  traversal_states :: "(nat \<times> int list) set"

definition double_tape_write :: "nat \<Rightarrow> nat \<Rightarrow> nat \<Rightarrow> (nat \<times> nat) list \<Rightarrow> (nat \<times> nat) list" where
  "double_tape_write pos i out tape = (tape @ replicate (pos + 1 - length tape) (0, 0))[pos := (i, out)]"

definition write_output :: "nat \<Rightarrow> nat \<Rightarrow> nat \<Rightarrow> 'w lookup_state \<Rightarrow> 'w lookup_state" where
  "write_output pos i out st = st\<lparr>output_tape := double_tape_write pos i out (output_tape st)\<rparr>"

definition vec_read :: "'x list \<Rightarrow> nat \<Rightarrow> 'x result" where
  "vec_read xs i = (if i < length xs then Inr (xs ! i) else Inl UndefinedBehaviour)"

definition minus_start :: "nat \<Rightarrow> nat" where
  "minus_start i = (i + 2147483648) mod 4294967296"

definition get_weight :: "(nat \<Rightarrow> 'w::zero) \<Rightarrow> ol_tables \<Rightarrow> ol_transition \<Rightarrow> 'w" where
  "get_weight wval tabs x = (if weighted_tables tabs then wval (ot_weight x) else 0)"

definition index_final_weight :: "(nat \<Rightarrow> 'w::zero) \<Rightarrow> ol_tables \<Rightarrow> ol_index \<Rightarrow> 'w" where
  "index_final_weight wval tabs x = (if weighted_tables tabs then wval (ti_first x) else 0)"

text \<open>The output tape up to the first entry without an output, as strings.\<close>

fun analysis_strings :: "ol_alphabet \<Rightarrow> (nat \<times> nat) list \<Rightarrow> string_pair list result" where
  "analysis_strings a [] = Inl UndefinedBehaviour"
| "analysis_strings a ((i, out) # tape) =
     (if out = no_symbol_number then Inr []
      else rbind (string_from_symbol a i) (\<lambda>s. rbind (string_from_symbol a out) (\<lambda>t.
           rmap (\<lambda>ps. (s, t) # ps) (analysis_strings a tape))))"

definition note_analysis :: "ol_alphabet \<Rightarrow> 'w lookup_state \<Rightarrow> 'w lookup_state result" where
  "note_analysis a st =
     rmap (\<lambda>ps. st\<lparr>lookup_paths := insert (current_weight st, ps) (lookup_paths st)\<rparr>) (analysis_strings a (output_tape st))"

section \<open>The recursion\<close>

text \<open>What stays the same during a lookup.\<close>

record 'w lookup_context =
  lc_alphabet :: ol_alphabet
  lc_tables :: ol_tables
  lc_wval :: "nat \<Rightarrow> 'w"
  lc_input :: "nat list"
  lc_max_lookups :: int

type_synonym 'w analyser = "nat \<Rightarrow> nat \<Rightarrow> nat \<Rightarrow> 'w lookup_state \<Rightarrow> 'w lookup_state result"

text \<open>Take a transition: write it, add its weight, go on from its target, and restore the weight.\<close>

definition take_transition ::
  "('w::monoid_add) lookup_context \<Rightarrow> 'w analyser \<Rightarrow> nat \<Rightarrow> nat \<Rightarrow> nat \<Rightarrow> nat \<Rightarrow> ol_transition \<Rightarrow> 'w lookup_state \<Rightarrow> 'w lookup_state result" where
  "take_transition c get_analyses input_pos output_pos i out x st =
     (let old_weight = current_weight st;
          st1 = write_output output_pos i out st
      in rmap (\<lambda>st2. st2\<lparr>found_transition := True, current_weight := old_weight\<rparr>)
           (get_analyses input_pos (output_pos + 1) (ot_target x)
             (st1\<lparr>current_weight := old_weight + get_weight (lc_wval c) (lc_tables c) x\<rparr>)))"

fun try_epsilon_transitions ::
  "('w::monoid_add) lookup_context \<Rightarrow> 'w analyser \<Rightarrow> nat \<Rightarrow> nat \<Rightarrow> ol_transition list \<Rightarrow> 'w lookup_state \<Rightarrow> 'w lookup_state result" where
  "try_epsilon_transitions c get_analyses input_pos output_pos [] st = Inl UndefinedBehaviour"
| "try_epsilon_transitions c get_analyses input_pos output_pos (x # xs) st =
     (if ot_input x = 0 then
        rbind (take_transition c get_analyses input_pos output_pos (ot_input x) (ot_output x) x st)
          (try_epsilon_transitions c get_analyses input_pos output_pos xs)
      else if is_flag_diacritic (lc_alphabet c) (ot_input x) then
        (let flags = st_values (flag_state st) in
         rbind (case get_operation (ol_fd_table (lc_alphabet c)) (ot_input x) of
                  None \<Rightarrow> Inl UndefinedBehaviour
                | Some opn \<Rightarrow> apply_fd_operation opn (flag_state st)) (\<lambda>(allowed, fs).
           let st1 = st\<lparr>flag_state := fs\<rparr>; reachable = (ot_target x, flags) in
           rbind (if \<not> allowed \<or> reachable \<in> traversal_states st then Inr st1
                  else rmap (\<lambda>st2. st2\<lparr>traversal_states := traversal_states st2 - {reachable}\<rparr>)
                         (take_transition c get_analyses input_pos output_pos (ot_input x) (ot_output x) x
                           (st1\<lparr>traversal_states := insert reachable (traversal_states st1)\<rparr>))) (\<lambda>st3.
             try_epsilon_transitions c get_analyses input_pos output_pos xs
               (st3\<lparr>flag_state := assign_values flags (flag_state st3)\<rparr>))))
      else Inr st)"

definition transitions_from :: "ol_tables \<Rightarrow> nat \<Rightarrow> ol_transition list" where
  "transitions_from tabs i = drop (if i < target_table_start then i else i - target_table_start) (transition_table tabs)"

definition try_epsilon_indices ::
  "('w::monoid_add) lookup_context \<Rightarrow> 'w analyser \<Rightarrow> nat \<Rightarrow> nat \<Rightarrow> nat \<Rightarrow> 'w lookup_state \<Rightarrow> 'w lookup_state result" where
  "try_epsilon_indices c get_analyses input_pos output_pos i st =
     rbind (table_at (index_table (lc_tables c)) i) (\<lambda>x.
       if ti_input x = 0
       then rmap (\<lambda>st1. st1\<lparr>found_transition := True\<rparr>)
              (try_epsilon_transitions c get_analyses input_pos output_pos
                 (transitions_from (lc_tables c) (minus_start (ti_first x))) st)
       else Inr st)"

fun find_transitions ::
  "('w::monoid_add) lookup_context \<Rightarrow> 'w analyser \<Rightarrow> nat \<Rightarrow> nat \<Rightarrow> nat \<Rightarrow> ol_transition list \<Rightarrow> 'w lookup_state \<Rightarrow> 'w lookup_state result" where
  "find_transitions c get_analyses input input_pos output_pos [] st = Inl UndefinedBehaviour"
| "find_transitions c get_analyses input input_pos output_pos (x # xs) st =
     (if ot_input x = no_symbol_number then Inr st
      else if ot_input x = input then
        rbind (if is_meta_arc (lc_alphabet c) (ot_output x) then vec_read (lc_input c) (input_pos - 1) else Inr (ot_output x)) (\<lambda>out.
        rbind (take_transition c get_analyses input_pos output_pos input out x (st\<lparr>traversal_states := {}\<rparr>))
          (find_transitions c get_analyses input input_pos output_pos xs))
      else Inr st)"

definition find_index ::
  "('w::monoid_add) lookup_context \<Rightarrow> 'w analyser \<Rightarrow> nat \<Rightarrow> nat \<Rightarrow> nat \<Rightarrow> nat \<Rightarrow> 'w lookup_state \<Rightarrow> 'w lookup_state result" where
  "find_index c get_analyses input input_pos output_pos i st =
     rbind (table_at (index_table (lc_tables c)) (i + input)) (\<lambda>x.
       if ti_input x = input
       then rmap (\<lambda>st1. st1\<lparr>found_transition := True\<rparr>)
              (find_transitions c get_analyses input input_pos output_pos
                 (transitions_from (lc_tables c) (minus_start (ti_first x))) st)
       else Inr st)"

definition within_limit :: "'w lookup_context \<Rightarrow> 'w lookup_state \<Rightarrow> bool" where
  "within_limit c st \<longleftrightarrow> lc_max_lookups c < 0 \<or> int (card (lookup_paths st)) < lc_max_lookups c"

text \<open>The result of a final state, noted at the end of the input.\<close>

definition note_final ::
  "('w::monoid_add) lookup_context \<Rightarrow> nat \<Rightarrow> nat \<Rightarrow> bool \<Rightarrow> 'w \<Rightarrow> 'w lookup_state \<Rightarrow> 'w lookup_state result" where
  "note_final c symbol output_pos is_final weight st =
     (if symbol = no_symbol_number \<and> within_limit c st then
        (let st1 = write_output output_pos no_symbol_number no_symbol_number st in
         if is_final
         then rmap (\<lambda>st2. st2\<lparr>current_weight := current_weight st1\<rparr>)
                (note_analysis (lc_alphabet c) (st1\<lparr>current_weight := current_weight st1 + weight\<rparr>))
         else Inr st1)
      else Inr st)"

text \<open>The transitions for the next input symbol, looked for with \<open>seek\<close>: by its own number, or through identity and unknown when
  it is not in the alphabet of the transducer, and by default when nothing was found.\<close>

definition consume ::
  "('w::monoid_add) lookup_context \<Rightarrow> (nat \<Rightarrow> 'w lookup_state \<Rightarrow> 'w lookup_state result) \<Rightarrow> nat \<Rightarrow> 'w lookup_state \<Rightarrow> 'w lookup_state result" where
  "consume c seek input st =
     (let a = lc_alphabet c in
      rbind (if input < orig_symbol_count a then seek input st
             else rbind (if identity_symbol a \<noteq> no_symbol_number then seek (identity_symbol a) st else Inr st) (\<lambda>st1.
                  if unknown_symbol a \<noteq> no_symbol_number then seek (unknown_symbol a) st1 else Inr st1)) (\<lambda>st2.
        if default_symbol a \<noteq> no_symbol_number \<and> \<not> found_transition st2 then seek (default_symbol a) st2 else Inr st2))"

primrec get_analyses :: "('w::monoid_add) lookup_context \<Rightarrow> nat \<Rightarrow> 'w analyser" where
  "get_analyses c 0 input_pos output_pos i st = Inr (st\<lparr>found_transition := False\<rparr>)"
| "get_analyses c (Suc recursion_depth_left) input_pos output_pos i st =
     (let st = st\<lparr>found_transition := False\<rparr>; rec = get_analyses c recursion_depth_left; tabs = lc_tables c in
      if \<not> within_limit c st then Inr st
      else if i \<ge> target_table_start then
        rbind (vec_read (lc_input c) input_pos) (\<lambda>symbol.
        rbind (table_at (transition_table tabs) (i - target_table_start)) (\<lambda>x.
        rbind (note_final c symbol output_pos (transition_final x) (get_weight (lc_wval c) tabs x) st) (\<lambda>st1.
        rbind (try_epsilon_transitions c rec input_pos output_pos (transitions_from tabs (i - target_table_start + 1)) st1) (\<lambda>st2.
          if symbol = no_symbol_number then Inr st2
          else rmap (write_output output_pos no_symbol_number no_symbol_number)
            (consume c (\<lambda>input. find_transitions c rec input (input_pos + 1) output_pos
               (transitions_from tabs (i - target_table_start + 1))) symbol st2)))))
      else
        rbind (vec_read (lc_input c) input_pos) (\<lambda>symbol.
        rbind (if symbol = no_symbol_number then table_at (index_table tabs) i else Inr \<lparr>ti_input = 0, ti_first = 0\<rparr>) (\<lambda>x.
        rbind (note_final c symbol output_pos (index_final x) (index_final_weight (lc_wval c) tabs x) st) (\<lambda>st1.
        rbind (try_epsilon_indices c rec input_pos output_pos (i + 1) st1) (\<lambda>st2.
          if symbol = no_symbol_number then Inr st2
          else rmap (write_output output_pos no_symbol_number no_symbol_number)
            (consume c (\<lambda>input. find_index c rec input (input_pos + 1) output_pos (i + 1)) symbol st2))))))"

section \<open>Transducer::lookup_fd\<close>

text \<open>A transducer with the members that a lookup uses.\<close>

record 'w ol_machine = ol_transducer +
  input_tape :: "nat list"
  lookup_st :: "'w lookup_state"

definition new_machine :: "ol_transducer \<Rightarrow> ('w::zero) ol_machine" where
  "new_machine t = ol_transducer.extend t \<lparr>input_tape = [], lookup_st = \<lparr>current_weight = 0, lookup_paths = {},
     output_tape = [], flag_state = new_fd_state (ol_fd_table (ol_alpha t)), found_transition = False, traversal_states = {}\<rparr>\<rparr>"

definition max_recursion_depth :: nat where "max_recursion_depth = 5000"

definition machine_context :: "(nat \<Rightarrow> 'w) \<Rightarrow> int \<Rightarrow> 'w ol_machine \<Rightarrow> 'w lookup_context" where
  "machine_context wval limit M =
     \<lparr>lc_alphabet = ol_alpha M, lc_tables = tables M, lc_wval = wval, lc_input = input_tape M, lc_max_lookups = limit\<rparr>"

definition lookup_fd_pairs ::
  "(nat \<Rightarrow> 'w::monoid_add) \<Rightarrow> string \<Rightarrow> int \<Rightarrow> 'w ol_machine \<Rightarrow> (('w \<times> string_pair list) set \<times> 'w ol_machine) result" where
  "lookup_fd_pairs wval s limit M =
     rbind (initialize_input s (input_tape M) (ol_alpha M, ol_encoder M)) (\<lambda>(ok, tape, a, e).
       let M1 = M\<lparr>input_tape := tape, ol_alpha := a, ol_encoder := e\<rparr> in
       if \<not> ok then Inr ({}, M1)
       else rmap (\<lambda>st. (lookup_paths st, M1\<lparr>lookup_st := st\<lparr>lookup_paths := {}\<rparr>\<rparr>))
         (get_analyses (machine_context wval limit M1) max_recursion_depth 0 0 0
           ((lookup_st M1)\<lparr>lookup_paths := {}, traversal_states := {}\<rparr>)))"

definition lookup_fd ::
  "(nat \<Rightarrow> 'w::monoid_add) \<Rightarrow> string \<Rightarrow> int \<Rightarrow> 'w ol_machine \<Rightarrow> (('w \<times> string list) set \<times> 'w ol_machine) result" where
  "lookup_fd wval s limit M =
     rmap (\<lambda>(paths, M'). ((\<lambda>(w, ps). (w, map snd ps)) ` paths, M')) (lookup_fd_pairs wval s limit M)"

definition lookup_fd_vector ::
  "(nat \<Rightarrow> 'w::monoid_add) \<Rightarrow> string list \<Rightarrow> int \<Rightarrow> 'w ol_machine \<Rightarrow> (('w \<times> string list) set \<times> 'w ol_machine) result" where
  "lookup_fd_vector wval ss limit M = lookup_fd wval (concat ss) limit M"

section \<open>Runs\<close>

text \<open>The transitions that the lookup sees: after a state in the transition table come its
  transitions; a state in the index table has an entry for each symbol, which points to them.\<close>

definition epslike :: "ol_alphabet \<Rightarrow> ol_transition \<Rightarrow> bool" where
  "epslike a x \<longleftrightarrow> ot_input x = 0 \<or> is_flag_diacritic a (ot_input x)"

definition indexed :: "ol_tables \<Rightarrow> nat \<Rightarrow> nat \<Rightarrow> ol_transition list" where
  "indexed tabs j k = (case table_at (index_table tabs) j of Inl err \<Rightarrow> []
     | Inr x \<Rightarrow> if ti_input x = k then transitions_from tabs (minus_start (ti_first x)) else [])"

definition state_transitions :: "ol_tables \<Rightarrow> nat \<Rightarrow> nat \<Rightarrow> ol_transition list" where
  "state_transitions tabs i k =
     (if target_table_start \<le> i then transitions_from tabs (i - target_table_start + 1) else indexed tabs (i + 1 + k) k)"

definition epsilons_at :: "'w lookup_context \<Rightarrow> nat \<Rightarrow> ol_transition list" where
  "epsilons_at c i = takeWhile (epslike (lc_alphabet c)) (state_transitions (lc_tables c) i 0)"

definition symbols_at :: "'w lookup_context \<Rightarrow> nat \<Rightarrow> nat \<Rightarrow> ol_transition list" where
  "symbols_at c i k = takeWhile (\<lambda>x. ot_input x = k) (state_transitions (lc_tables c) i k)"

definition final_at :: "('w::zero) lookup_context \<Rightarrow> nat \<Rightarrow> 'w option" where
  "final_at c i =
     (if target_table_start \<le> i then
        (let x = transition_table (lc_tables c) ! (i - target_table_start)
         in if transition_final x then Some (get_weight (lc_wval c) (lc_tables c) x) else None)
      else (let x = index_table (lc_tables c) ! i
            in if index_final x then Some (index_final_weight (lc_wval c) (lc_tables c) x) else None))"

text \<open>The transition symbols an input symbol may be read with, and what is written for a transition.\<close>

definition readings :: "ol_alphabet \<Rightarrow> nat \<Rightarrow> nat list" where
  "readings a s = filter (\<lambda>k. k \<noteq> no_symbol_number)
     ((if s < orig_symbol_count a then [s] else [identity_symbol a, unknown_symbol a]) @ [default_symbol a])"

definition written :: "'w lookup_context \<Rightarrow> nat \<Rightarrow> ol_transition \<Rightarrow> nat" where
  "written c pos x = (if is_meta_arc (lc_alphabet c) (ot_output x) then lc_input c ! pos else ot_output x)"

definition flag_through :: "ol_alphabet \<Rightarrow> ol_transition \<Rightarrow> nat fd_state \<Rightarrow> nat fd_state option" where
  "flag_through a x fs =
     (if ot_input x = 0 then Some fs
      else case get_operation (ol_fd_table a) (ot_input x) of
          None \<Rightarrow> None
        | Some opn \<Rightarrow> (case apply_fd_operation opn fs of
             Inl err \<Rightarrow> None | Inr (allowed, fs') \<Rightarrow> if allowed then Some fs' else None))"

text \<open>Accepting runs from a table index and a position on the input tape: their number of transitions,
  weight and output tape.\<close>

inductive ol_run ::
  "('w::monoid_add) lookup_context \<Rightarrow> nat \<Rightarrow> nat \<Rightarrow> nat \<Rightarrow> nat fd_state \<Rightarrow> 'w \<Rightarrow> (nat \<times> nat) list \<Rightarrow> bool"
  for c :: "('w::monoid_add) lookup_context" where
  accepts: "lc_input c ! pos = no_symbol_number \<Longrightarrow> final_at c i = Some w \<Longrightarrow> ol_run c 0 i pos fs w []"
| epsilon_or_flag: "x \<in> set (epsilons_at c i) \<Longrightarrow> flag_through (lc_alphabet c) x fs = Some fs' \<Longrightarrow>
    ol_run c n (ot_target x) pos fs' w tape \<Longrightarrow>
    ol_run c (Suc n) i pos fs (get_weight (lc_wval c) (lc_tables c) x + w) ((ot_input x, ot_output x) # tape)"
| consumes: "lc_input c ! pos \<noteq> no_symbol_number \<Longrightarrow> k \<in> set (readings (lc_alphabet c) (lc_input c ! pos)) \<Longrightarrow>
    x \<in> set (symbols_at c i k) \<Longrightarrow> ol_run c n (ot_target x) (Suc pos) fs w tape \<Longrightarrow>
    ol_run c (Suc n) i pos fs (get_weight (lc_wval c) (lc_tables c) x + w) ((k, written c pos x) # tape)"

inductive_simps ol_run_0: "ol_run c 0 i pos fs w tape"
inductive_simps ol_run_Suc: "ol_run c (Suc n) i pos fs w tape"

definition symbol_string :: "ol_alphabet \<Rightarrow> nat \<Rightarrow> string" where
  "symbol_string a k = (if k = 0 then [] else symbol_table a ! k)"

definition tape_strings :: "ol_alphabet \<Rightarrow> (nat \<times> nat) list \<Rightarrow> string_pair list" where
  "tape_strings a tape = map (\<lambda>(i, out). (symbol_string a i, symbol_string a out)) tape"

text \<open>The results of the runs of fewer than \<open>d\<close> transitions, after a weight and an output tape.\<close>

definition run_results ::
  "('w::monoid_add) lookup_context \<Rightarrow> nat \<Rightarrow> nat \<Rightarrow> nat \<Rightarrow> nat fd_state \<Rightarrow> 'w \<Rightarrow> (nat \<times> nat) list \<Rightarrow> ('w \<times> string_pair list) set" where
  "run_results c d i pos fs cw pre =
     {(cw + w, tape_strings (lc_alphabet c) (pre @ tape)) | w tape. \<exists>n < d. ol_run c n i pos fs w tape}"

definition after ::
  "('w::monoid_add) lookup_context \<Rightarrow> nat \<Rightarrow> nat \<Rightarrow> nat fd_state \<Rightarrow> 'w \<Rightarrow> (nat \<times> nat) list \<Rightarrow> ol_transition \<Rightarrow> nat \<Rightarrow> nat \<Rightarrow>
   ('w \<times> string_pair list) set" where
  "after c d pos fs cw pre x k out =
     run_results c d (ot_target x) pos fs (cw + get_weight (lc_wval c) (lc_tables c) x) (pre @ [(k, out)])"

definition after_epsilon ::
  "('w::monoid_add) lookup_context \<Rightarrow> nat \<Rightarrow> nat \<Rightarrow> nat fd_state \<Rightarrow> 'w \<Rightarrow> (nat \<times> nat) list \<Rightarrow> ol_transition \<Rightarrow>
   ('w \<times> string_pair list) set" where
  "after_epsilon c d pos fs cw pre x =
     (case flag_through (lc_alphabet c) x fs of None \<Rightarrow> {} | Some fs' \<Rightarrow> after c d pos fs' cw pre x (ot_input x) (ot_output x))"

definition final_results ::
  "('w::monoid_add) lookup_context \<Rightarrow> nat \<Rightarrow> nat \<Rightarrow> 'w \<Rightarrow> (nat \<times> nat) list \<Rightarrow> ('w \<times> string_pair list) set" where
  "final_results c i pos cw pre =
     (case final_at c i of None \<Rightarrow> {}
      | Some w \<Rightarrow> if lc_input c ! pos = no_symbol_number then {(cw + w, tape_strings (lc_alphabet c) pre)} else {})"

lemma run_results_0 [simp]: "run_results c 0 i pos fs cw pre = {}"
  by (simp add: run_results_def)

lemma run_resultsI:
  "ol_run c n i pos fs w tape \<Longrightarrow> n < d \<Longrightarrow> (cw + w, tape_strings (lc_alphabet c) (pre @ tape)) \<in> run_results c d i pos fs cw pre"
  by (auto simp: run_results_def)

lemma run_resultsE:
  assumes "r \<in> run_results c d i pos fs cw pre"
  obtains n w tape where "n < d" "ol_run c n i pos fs w tape" "r = (cw + w, tape_strings (lc_alphabet c) (pre @ tape))"
  using assms by (auto simp: run_results_def)

lemma run_results_Suc:
  "run_results c (Suc d) i pos fs cw pre = final_results c i pos cw pre \<union>
     (\<Union>x \<in> set (epsilons_at c i). after_epsilon c d pos fs cw pre x) \<union>
     (if lc_input c ! pos = no_symbol_number then {}
      else \<Union>k \<in> set (readings (lc_alphabet c) (lc_input c ! pos)). \<Union>x \<in> set (symbols_at c i k).
        after c d (Suc pos) fs cw pre x k (written c pos x))" (is "?L = ?F \<union> ?E \<union> ?S")
proof (intro equalityI subsetI)
  fix r assume "r \<in> ?L"
  then obtain n w tape where n: "n < Suc d" and run: "ol_run c n i pos fs w tape"
    and r: "r = (cw + w, tape_strings (lc_alphabet c) (pre @ tape))" by (rule run_resultsE)
  from run show "r \<in> ?F \<union> ?E \<union> ?S"
  proof cases
    case accepts
    then have "r \<in> ?F" by (simp add: r final_results_def)
    then show ?thesis by blast
  next
    case (epsilon_or_flag x fs' m v t)
    then have "r \<in> after_epsilon c d pos fs cw pre x"
      using run_resultsI [OF epsilon_or_flag(6), of d "cw + get_weight (lc_wval c) (lc_tables c) x" "pre @ [(ot_input x, ot_output x)]"] n
      by (simp add: r after_epsilon_def after_def add.assoc)
    with epsilon_or_flag(4) show ?thesis by blast
  next
    case (consumes k x m v t)
    then have "r \<in> after c d (Suc pos) fs cw pre x k (written c pos x)"
      using run_resultsI [OF consumes(7), of d "cw + get_weight (lc_wval c) (lc_tables c) x" "pre @ [(k, written c pos x)]"] n
      by (simp add: r after_def add.assoc)
    with consumes(4,5,6) show ?thesis by auto
  qed
next
  fix r assume "r \<in> ?F \<union> ?E \<union> ?S"
  then consider "r \<in> ?F" | x where "x \<in> set (epsilons_at c i)" "r \<in> after_epsilon c d pos fs cw pre x"
    | k x where "lc_input c ! pos \<noteq> no_symbol_number" "k \<in> set (readings (lc_alphabet c) (lc_input c ! pos))"
        "x \<in> set (symbols_at c i k)" "r \<in> after c d (Suc pos) fs cw pre x k (written c pos x)"
    by (auto split: if_splits)
  then show "r \<in> ?L"
  proof cases
    case 1
    then obtain w where w: "final_at c i = Some w" "lc_input c ! pos = no_symbol_number" "r = (cw + w, tape_strings (lc_alphabet c) pre)"
      by (auto simp: final_results_def split: option.splits if_splits)
    from run_resultsI [OF accepts [OF w(2,1)], of "Suc d" cw pre] show ?thesis by (simp add: w(3))
  next
    case 2
    then obtain fs' where fs: "flag_through (lc_alphabet c) x fs = Some fs'" "r \<in> after c d pos fs' cw pre x (ot_input x) (ot_output x)"
      by (auto simp: after_epsilon_def split: option.splits)
    from fs(2) [unfolded after_def] obtain n w tape where n: "n < d" "ol_run c n (ot_target x) pos fs' w tape"
      "r = (cw + get_weight (lc_wval c) (lc_tables c) x + w, tape_strings (lc_alphabet c) ((pre @ [(ot_input x, ot_output x)]) @ tape))"
      by (rule run_resultsE)
    from run_resultsI [OF epsilon_or_flag [OF 2(1) fs(1) n(2)], of "Suc d" cw pre] n(1,3) show ?thesis by (simp add: add.assoc)
  next
    case 3
    from 3(4) [unfolded after_def] obtain n w tape where n: "n < d" "ol_run c n (ot_target x) (Suc pos) fs w tape"
      "r = (cw + get_weight (lc_wval c) (lc_tables c) x + w, tape_strings (lc_alphabet c) ((pre @ [(k, written c pos x)]) @ tape))"
      by (rule run_resultsE)
    from run_resultsI [OF consumes [OF 3(1,2,3) n(2)], of "Suc d" cw pre] n(1,3) show ?thesis by (simp add: add.assoc)
  qed
qed

end
