(* ===== verification/OlTables.thy ===== *)
theory OlTables
  imports OlPacking OlLookup
begin

text \<open>
  The two tables that the conversion writes, as the lookup reads them. Shown: the entries of a state lie
  where its place holder says, ordered by input symbol with epsilons and flag diacritics first, and
  from the index of a state the lookup sees exactly the transitions of the state.
\<close>

section \<open>The entries of a state\<close>

definition input_order :: "nat set \<Rightarrow> 'w state_placeholder \<Rightarrow> nat list" where
  "input_order fs p = ((if input_present p 0 then [0] else []) @ filter (input_present p) (sorted_list_of_set fs)) @
     filter (\<lambda>i. input_present p i \<and> i \<notin> fs) [1..<length (symbol_to_group p)]"

definition zero_order :: "nat set \<Rightarrow> 'w state_placeholder \<Rightarrow> nat list" where
  "zero_order fs p = (if input_present p 0 then [0] else []) @ filter (input_present p) (sorted_list_of_set fs)"

definition other_order :: "nat set \<Rightarrow> 'w state_placeholder \<Rightarrow> nat list" where
  "other_order fs p = filter (\<lambda>i. input_present p i \<and> i \<notin> fs) [1..<length (symbol_to_group p)]"

lemma input_order_split: "input_order fs p = zero_order fs p @ other_order fs p"
  by (simp add: input_order_def zero_order_def other_order_def)

lemma set_orders:
  assumes "finite fs" and "0 \<notin> fs"
  shows "set (zero_order fs p) = {k. input_present p k \<and> (k = 0 \<or> k \<in> fs)}"
    and "set (other_order fs p) = {k. input_present p k \<and> k \<noteq> 0 \<and> k \<notin> fs}"
    and "set (input_order fs p) = {k. input_present p k}" and "distinct (input_order fs p)"
proof -
  show z: "set (zero_order fs p) = {k. input_present p k \<and> (k = 0 \<or> k \<in> fs)}"
    using assms by (auto simp: zero_order_def)
  show other: "set (other_order fs p) = {k. input_present p k \<and> k \<noteq> 0 \<and> k \<notin> fs}"
    by (auto simp: other_order_def input_present_def)
  show "set (input_order fs p) = {k. input_present p k}" unfolding input_order_split set_append z other by auto
  show "distinct (input_order fs p)" using assms by (auto simp: input_order_def)
qed

definition target_index :: "'w state_placeholder list \<Rightarrow> nat \<Rightarrow> nat" where
  "target_index ps t = (let p = ps ! t in if is_simple p then (sp_first_transition p + target_table_start - 1) mod 4294967296
     else case sp_start_index p of None \<Rightarrow> 4294967295 | Some i \<Rightarrow> i)"

definition encoded :: "('w \<Rightarrow> nat) \<Rightarrow> 'w state_placeholder list \<Rightarrow> nat \<Rightarrow> 'w transition_placeholder \<Rightarrow> ol_transition" where
  "encoded bits ps k t = \<lparr>ot_input = k, ot_output = tp_output t, ot_target = target_index ps (tp_target t), ot_weight = bits (tp_weight t)\<rparr>"

definition entries :: "('w \<Rightarrow> nat) \<Rightarrow> 'w state_placeholder list \<Rightarrow> 'w state_placeholder \<Rightarrow> nat list \<Rightarrow> ol_transition list" where
  "entries bits ps p ks = concat (map (\<lambda>k. map (encoded bits ps k) (group_of p k)) ks)"

lemma entries_simps [simp]:
  "entries bits ps p [] = []"
  "entries bits ps p (k # ks) = map (encoded bits ps k) (group_of p k) @ entries bits ps p ks"
  "entries bits ps p (ks @ ls) = entries bits ps p ks @ entries bits ps p ls"
  by (simp_all add: entries_def)

lemma entries_input: "x \<in> set (entries bits ps p ks) \<Longrightarrow> ot_input x \<in> set ks"
  by (auto simp: entries_def encoded_def)

lemma rmap_list_Inr: "(\<And>x. x \<in> set xs \<Longrightarrow> f x = Inr (h x)) \<Longrightarrow> rmap_list f xs = Inr (map h xs)"
  by (induction xs) auto

lemma add_transitions_with_ok:
  "\<forall>t \<in> set trs. tp_target t < length ps \<Longrightarrow> add_transitions_with bits ps k trs table = Inr (table @ map (encoded bits ps k) trs)"
  using rmap_list_Inr [of trs "placeholder_transition bits ps k" "encoded bits ps k"]
  by (simp add: add_transitions_with_def placeholder_transition_def encoded_def target_index_def Let_def)

definition targets_ok :: "'w state_placeholder list \<Rightarrow> 'w state_placeholder \<Rightarrow> bool" where
  "targets_ok ps p \<longleftrightarrow> (\<forall>k. \<forall>t \<in> set (group_of p k). tp_target t < length ps)"

lemma write_groups:
  assumes "targets_ok ps p"
  shows "rfold (\<lambda>k table. if P k then add_transitions_with bits ps k (group_of p k) table else Inr table) ks table =
     Inr (table @ entries bits ps p (filter P ks))"
proof (induction ks arbitrary: table)
  case (Cons k ks)
  have "add_transitions_with bits ps k (group_of p k) table = Inr (table @ map (encoded bits ps k) (group_of p k))" for table
    using assms by (intro add_transitions_with_ok) (simp add: targets_ok_def)
  with Cons show ?case by simp
qed simp

definition block :: "('w \<Rightarrow> nat) \<Rightarrow> nat set \<Rightarrow> 'w state_placeholder list \<Rightarrow> 'w state_placeholder \<Rightarrow> ol_transition list" where
  "block bits fs ps p = (if sp_number p \<noteq> 0 then [final_marker bits (sp_final p) (sp_final_weight p)] else []) @
     entries bits ps p (input_order fs p)"

lemma write_state_ok:
  assumes "targets_ok ps p"
  shows "write_state bits fs ps p table = Inr (table @ block bits fs ps p)"
proof -
  have conv: "(if \<not> a \<or> b then x else y) = (if a \<and> \<not> b then y else x)" for a b and x y :: "'z" by simp
  have "add_transitions_with bits ps 0 (group_of p 0) table = Inr (table @ entries bits ps p [0])" for table
    using assms by (subst add_transitions_with_ok) (auto simp: targets_ok_def)
  then show ?thesis
    unfolding write_state_def conv write_groups [OF assms]
    by (simp add: write_groups [OF assms] block_def input_order_def)
qed

lemma write_transitions_ok:
  assumes "\<forall>p \<in> set ps. targets_ok ps p"
  shows "\<exists>pad. ot_input pad = no_symbol_number \<and> write_transitions bits fs ps = Inr (concat (map (block bits fs ps) ps) @ [pad])"
proof -
  have "\<forall>p \<in> set qs. targets_ok ps p \<Longrightarrow> rfold (write_state bits fs ps) qs table = Inr (table @ concat (map (block bits fs ps) qs))" for qs table
    by (induction qs arbitrary: table) (simp_all add: write_state_ok)
  with assms show ?thesis by (simp add: write_transitions_def)
qed

section \<open>Offsets\<close>

lemma flag_offset_others:
  "k \<notin> set fs \<Longrightarrow> flag_offset p k fs offset = Inr (offset + length (entries bits ps p (filter (input_present p) fs)))"
  by (induction fs arbitrary: offset) auto

lemma other_offset_found:
  "input_present p k \<Longrightarrow> k \<notin> fs \<Longrightarrow> k \<notin> set A \<Longrightarrow> other_offset p fs k (A @ k # B) offset =
     Inr (offset + length (entries bits ps p (filter (\<lambda>i. input_present p i \<and> i \<notin> fs) A)))"
  by (induction A arbitrary: offset) auto

lemma symbol_offset_ok:
  assumes "finite fs" and "input_present p k" and "k \<noteq> 0" and "k \<notin> fs"
  shows "\<exists>A B. input_order fs p = zero_order fs p @ A @ k # B \<and>
     symbol_offset fs k p = Inr (length (entries bits ps p (zero_order fs p @ A)))"
proof -
  let ?P = "\<lambda>i. input_present p i \<and> i \<notin> fs" and ?L = "[1..<length (symbol_to_group p)]"
  have "k \<in> set ?L" using assms by (auto simp: input_present_def)
  then obtain A B where L: "?L = A @ k # B" "k \<notin> set A" using split_list_first by metis
  have "other_order fs p = filter ?P A @ k # filter ?P B" unfolding other_order_def L(1) using assms by simp
  moreover have "symbol_offset fs k p = Inr (length (entries bits ps p (zero_order fs p @ filter ?P A)))"
    using assms flag_offset_others [of k "sorted_list_of_set fs" p _ bits ps] other_offset_found [OF assms(2,4) L(2), of B _ bits ps]
    unfolding symbol_offset_def L(1) by (simp add: zero_order_def)
  ultimately show ?thesis unfolding input_order_split by fastforce
qed

section \<open>Positions\<close>

lemma length_divided:
  "distinct ks \<Longrightarrow> f ` set xs \<subseteq> set ks \<Longrightarrow> length (concat (map (\<lambda>k. filter (\<lambda>t. f t = k) xs) ks)) = length xs"
proof (induction xs)
  case (Cons x xs)
  have "length (concat (map (\<lambda>k. filter (\<lambda>t. f t = k) (x # xs)) ls)) =
      length (concat (map (\<lambda>k. filter (\<lambda>t. f t = k) xs) ls)) + (if f x \<in> set ls then 1 else 0)" if "distinct ls" for ls
    using that by (induction ls) auto
  with Cons show ?case by simp
qed (induction ks, auto)

lemma length_entries:
  assumes "holds fs xs p" and "finite fs" and "0 \<notin> fs"
  shows "length (entries bits ps p (input_order fs p)) = length xs"
proof -
  have "group_of p = (\<lambda>k. filter (\<lambda>t. tp_input t = k) xs)"
    using assms(1) by (simp add: holds_def fun_eq_iff)
  then have "length (entries bits ps p (input_order fs p)) = length (concat (map (\<lambda>k. filter (\<lambda>t. tp_input t = k) xs) (input_order fs p)))"
    by (simp add: entries_def length_concat comp_def)
  also have "\<dots> = length xs"
    using set_orders(3,4) [OF assms(2,3), of p] assms(1) by (intro length_divided) (auto simp: holds_def)
  finally show ?thesis .
qed

lemma state_base_Suc: "s < length (state_vector g) \<Longrightarrow> state_base g (Suc s) = state_base g s + 1 + length (state_vector g ! s)"
  by (simp add: state_base_def take_Suc_conv_app_nth)

lemma state_base_0 [simp]: "state_base g 0 = 0"
  by (simp add: state_base_def)

lemma blocks_length:
  assumes g: "stands_for S g ps" and fs: "finite (sn_flags S)" "0 \<notin> sn_flags S"
  shows "Suc s \<le> length ps \<Longrightarrow> Suc (length (concat (map (block bits (sn_flags S) ps) (take (Suc s) ps)))) = state_base g (Suc s)"
proof (induction s)
  case 0
  then have "0 < length ps" by (simp add: Suc_le_eq)
  then have "holds (sn_flags S) (map (tp_of S) (state_vector g ! 0)) (ps ! 0)" "sp_number (ps ! 0) = 0" "ps \<noteq> []"
    "0 < length (state_vector g)" using g unfolding stands_for_def by auto
  moreover from this have "take (Suc 0) ps = [ps ! 0]" by (cases ps) auto
  moreover note length_entries [OF \<open>holds (sn_flags S) (map (tp_of S) (state_vector g ! 0)) (ps ! 0)\<close> fs, of bits ps]
  ultimately show ?case using state_base_Suc [of 0 g] by (simp add: block_def)
next
  case (Suc s)
  then have s: "Suc s < length ps" by simp
  then have "holds (sn_flags S) (map (tp_of S) (state_vector g ! Suc s)) (ps ! Suc s)" "sp_number (ps ! Suc s) = Suc s"
    "Suc s < length (state_vector g)" using g by (auto simp: stands_for_def)
  then have "length (block bits (sn_flags S) ps (ps ! Suc s)) = Suc (length (state_vector g ! Suc s))"
    using length_entries [OF _ fs, of "map (tp_of S) (state_vector g ! Suc s)" "ps ! Suc s" bits ps] by (simp add: block_def)
  then show ?case
    using Suc.IH s state_base_Suc [OF \<open>Suc s < length (state_vector g)\<close>] by (simp add: take_Suc_conv_app_nth [of "Suc s"])
qed

lemma table_at_state:
  assumes g: "stands_for S g ps" and fs: "finite (sn_flags S)" "0 \<notin> sn_flags S" and s: "s < length ps"
    and wt: "wt = concat (map (block bits (sn_flags S) ps) ps) @ [pad]" "ot_input pad = no_symbol_number"
  shows "\<exists>rest. drop (state_base g s) wt = entries bits ps (ps ! s) (input_order (sn_flags S) (ps ! s)) @ rest \<and>
      rest \<noteq> [] \<and> ot_input (hd rest) = no_symbol_number"
    and "s \<noteq> 0 \<Longrightarrow> 0 < state_base g s \<and> wt ! (state_base g s - 1) = final_marker bits (is_final_state s g) (final_of g s)"
proof -
  let ?B = "block bits (sn_flags S) ps"
  let ?pre = "concat (map ?B (take s ps))" and ?post = "concat (map ?B (drop (Suc s) ps)) @ [pad]"
  have num: "sp_number (ps ! t) = t \<and> sp_final (ps ! t) = is_final_state t g \<and> sp_final_weight (ps ! t) = final_of g t" if "t < length ps" for t
    using g that by (simp add: stands_for_def)
  have "ps = take s ps @ ps ! s # drop (Suc s) ps" by (rule id_take_nth_drop [OF s])
  then have "concat (map ?B ps) = ?pre @ ?B (ps ! s) @ concat (map ?B (drop (Suc s) ps))" by (metis concat.simps(2) concat_append list.simps(9) map_append)
  then have split: "wt = ?pre @ ?B (ps ! s) @ ?post" using wt(1) by simp
  have len: "s \<noteq> 0 \<Longrightarrow> Suc (length ?pre) = state_base g s"
    using blocks_length [OF g fs, of "s - 1" bits] s by (cases s) simp_all
  have post: "?post \<noteq> [] \<and> ot_input (hd ?post) = no_symbol_number"
  proof (cases "drop (Suc s) ps")
    case (Cons q qs)
    then have later: "Suc s < length ps" by (metis drop_eq_Nil list.distinct(1) not_le)
    then have "q = ps ! Suc s" using Cons by (metis Cons_nth_drop_Suc list.inject)
    with later have "sp_number q \<noteq> 0" using num by simp
    then show ?thesis by (simp add: Cons block_def final_marker_def)
  qed (use wt(2) in simp)
  show "\<exists>rest. drop (state_base g s) wt = entries bits ps (ps ! s) (input_order (sn_flags S) (ps ! s)) @ rest \<and>
      rest \<noteq> [] \<and> ot_input (hd rest) = no_symbol_number"
  proof (intro exI conjI)
    show "drop (state_base g s) wt = entries bits ps (ps ! s) (input_order (sn_flags S) (ps ! s)) @ ?post"
    proof (cases "s = 0")
      case True
      then show ?thesis using split num [of 0] s by (simp add: block_def)
    next
      case False
      have "drop (Suc (length ?pre)) wt = drop 1 (?B (ps ! s)) @ ?post"
        using num [OF s] False by (simp add: split block_def)
      then show ?thesis using len [OF False] num [OF s] False by (simp add: block_def)
    qed
  qed (use post in blast)+
  show "0 < state_base g s \<and> wt ! (state_base g s - 1) = final_marker bits (is_final_state s g) (final_of g s)" if "s \<noteq> 0"
  proof -
    have "state_base g s - 1 = length ?pre" using len [OF that] by simp
    then show ?thesis using len [OF that] num [OF s] that by (simp add: split block_def nth_append)
  qed
qed

section \<open>The index table\<close>

lemma group_offsets:
  assumes h: "holds fs xs p" and fs: "finite fs" "0 \<notin> fs"
  shows "(\<exists>trs \<in> set (sp_groups p). y = index_offset fs trs) \<longleftrightarrow> y = 0 \<and> zero_order fs p \<noteq> [] \<or> y \<in> set (other_order fs p)"
proof -
  have group: "group_of p k \<in> set (sp_groups p)" if "input_present p k" for k
  proof -
    from that obtain j where "k < length (symbol_to_group p)" "symbol_to_group p ! k = Some j" by (auto simp: input_present_def)
    moreover from this have "j < length (sp_groups p)" using groups_okD(1) h unfolding holds_def by blast
    ultimately show ?thesis using that by (simp add: group_of_def)
  qed
  have offset: "index_offset fs (group_of p k) = (if k \<in> fs then 0 else k)" if "input_present p k" for k
  proof -
    have "k \<in> tp_input ` set xs" and "group_of p k = filter (\<lambda>t. tp_input t = k) xs" using h that by (simp_all add: holds_def)
    then have "group_of p k \<noteq> []" "\<forall>t \<in> set (group_of p k). tp_input t = k" by (auto simp: filter_empty_conv)
    then have "tp_input (group_of p k ! 0) = k" by (simp add: nth_mem)
    then show ?thesis by (simp add: index_offset_def)
  qed
  have all: "\<exists>k. input_present p k \<and> trs = group_of p k" if trs: "trs \<in> set (sp_groups p)" for trs
  proof -
    from trs obtain j where j: "j < length (sp_groups p)" "trs = sp_groups p ! j" by (auto simp: in_set_conv_nth)
    have "groups_ok p" using h by (simp add: holds_def)
    from groups_okD(3) [OF this j(1)] obtain k where "k < length (symbol_to_group p)" "symbol_to_group p ! k = Some j" by blast
    with j(2) show ?thesis by (intro exI [of _ k]) (simp add: input_present_def group_of_def)
  qed
  have "(\<exists>trs \<in> set (sp_groups p). y = index_offset fs trs) \<longleftrightarrow> (\<exists>k. input_present p k \<and> y = (if k \<in> fs then 0 else k))"
    using group offset all by metis
  moreover have "zero_order fs p \<noteq> [] \<longleftrightarrow> (\<exists>k. input_present p k \<and> (k = 0 \<or> k \<in> fs))"
    using set_orders(1) [OF fs, of p] by (metis (mono_tags, lifting) empty_iff list.set(1) list.set_sel(1) mem_Collect_eq)
  moreover have "(\<exists>k. input_present p k \<and> y = (if k \<in> fs then 0 else k)) \<longleftrightarrow>
      y = 0 \<and> (\<exists>k. input_present p k \<and> (k = 0 \<or> k \<in> fs)) \<or> input_present p y \<and> y \<noteq> 0 \<and> y \<notin> fs"
    by (cases "y = 0") (use fs(2) in \<open>metis+\<close>)
  moreover have "y \<in> set (other_order fs p) \<longleftrightarrow> input_present p y \<and> y \<noteq> 0 \<and> y \<notin> fs"
    using set_orders(2) [OF fs, of p] by simp
  ultimately show ?thesis by (simp only:)
qed

text \<open>A conversion with everything that is known about its parts.\<close>

definition converted ::
  "('w::zero \<Rightarrow> nat) \<Rightarrow> symbol_numbers \<Rightarrow> 'w hbt \<Rightarrow> 'w packing \<Rightarrow> ol_index list \<Rightarrow> ol_transition list \<Rightarrow> bool" where
  "converted bits S g k wi wt \<longleftrightarrow> stands_for S g (pk_states k) \<and> finite (sn_flags S) \<and> 0 \<notin> sn_flags S \<and> state_vector g \<noteq> [] \<and>
     (\<forall>s. map_number (sn_map S) s < 65535) \<and> (\<forall>w. bits w < 4294967295) \<and>
     (\<forall>s < length (pk_states k). sp_start_index (pk_states k ! s) = None \<longleftrightarrow> is_simple (pk_states k ! s)) \<and>
     sp_start_index (pk_states k ! 0) = Some 0 \<and>
     (\<forall>pos s y. slot (pk_indices k) pos = Some (s, y) \<longleftrightarrow> s < length (pk_states k) \<and> state_slot (sn_flags S) (pk_states k ! s) pos y) \<and>
     write_index_table bits S k = Inr wi \<and> length wi + 65536 \<le> target_table_start \<and>
     (\<exists>pad. ot_input pad = no_symbol_number \<and> wt = concat (map (block bits (sn_flags S) (pk_states k)) (pk_states k)) @ [pad]) \<and>
     length wt \<le> target_table_start"

lemma convertedD:
  assumes "converted bits S g k wi wt"
  shows "stands_for S g (pk_states k)" "finite (sn_flags S)" "0 \<notin> sn_flags S" "state_vector g \<noteq> []"
    "\<And>s. map_number (sn_map S) s < 65535" "\<And>w. bits w < 4294967295"
    "\<And>s. s < length (pk_states k) \<Longrightarrow> sp_start_index (pk_states k ! s) = None \<longleftrightarrow> is_simple (pk_states k ! s)"
    "sp_start_index (pk_states k ! 0) = Some 0"
    "\<And>pos s y. slot (pk_indices k) pos = Some (s, y) \<longleftrightarrow> s < length (pk_states k) \<and> state_slot (sn_flags S) (pk_states k ! s) pos y"
    "write_index_table bits S k = Inr wi" "length wi + 65536 \<le> target_table_start" "length wt \<le> target_table_start"
  using assms by (simp_all add: converted_def)

lemma rmap_list_nth: "rmap_list f xs = Inr ys \<Longrightarrow> length ys = length xs \<and> (\<forall>i < length xs. f (xs ! i) = Inr (ys ! i))"
proof (induction xs arbitrary: ys)
  case (Cons x xs)
  then obtain y zs where "f x = Inr y" "rmap_list f xs = Inr zs" "ys = y # zs" by (auto simp: result_simps)
  with Cons.IH show ?case by (auto simp: nth_Cons split: nat.split)
qed simp

lemma index_table_length:
  assumes "converted bits S g k wi wt"
  shows "length wi = length (ip_indices (pk_indices k)) - 1 + 1 + sn_seen S"
    and "pos < length (ip_indices (pk_indices k)) - 1 + 1 \<Longrightarrow> index_entry bits (sn_flags S) k pos = Inr (wi ! pos)"
    and "length (ip_indices (pk_indices k)) - 1 + 1 \<le> pos \<Longrightarrow> pos < length wi \<Longrightarrow> wi ! pos = blank_index"
proof -
  from convertedD(10) [OF assms] obtain xs where
    xs: "rmap_list (index_entry bits (sn_flags S) k) [0..<length (ip_indices (pk_indices k)) - 1 + 1] = Inr xs" "wi = xs @ replicate (sn_seen S) blank_index"
    by (auto simp: write_index_table_def Let_def result_simps simp del: upt_Suc)
  note n = rmap_list_nth [OF xs(1)]
  show "length wi = length (ip_indices (pk_indices k)) - 1 + 1 + sn_seen S" using n xs(2) by simp
  show "pos < length (ip_indices (pk_indices k)) - 1 + 1 \<Longrightarrow> index_entry bits (sn_flags S) k pos = Inr (wi ! pos)"
    using n xs(2) by (auto simp: nth_append simp del: upt_Suc)
  show "length (ip_indices (pk_indices k)) - 1 + 1 \<le> pos \<Longrightarrow> pos < length wi \<Longrightarrow> wi ! pos = blank_index"
    using n xs(2) by (auto simp: nth_append)
qed

lemma slot_entry:
  assumes c: "converted bits S g k wi wt" and "slot (pk_indices k) pos = Some (s, y)"
  shows "pos < length wi" and "index_entry bits (sn_flags S) k pos = Inr (wi ! pos)" and "used (pk_indices k) pos" "ip_target (pk_indices k) pos = (s, y)"
proof -
  show u: "used (pk_indices k) pos" "ip_target (pk_indices k) pos = (s, y)" using assms(2) by (auto simp: slot_def split: if_splits)
  then show "pos < length wi" using used_length index_table_length(1) [OF c] by fastforce
  show "index_entry bits (sn_flags S) k pos = Inr (wi ! pos)" using used_length [OF u(1)] by (intro index_table_length(2) [OF c]) simp
qed

lemma slot_entry_input:
  assumes c: "converted bits S g k wi wt" and "slot (pk_indices k) pos = Some (s, y)"
  shows "ti_input (wi ! pos) = y"
proof -
  note e = slot_entry [OF assms]
  have "rmap ti_input (index_entry bits (sn_flags S) k pos) = rmap (\<lambda>x. y) (index_entry bits (sn_flags S) k pos)"
    using e(3,4) by (cases "symbol_offset (sn_flags S) y (pk_states k ! s)") (simp_all add: index_entry_def Let_def blank_index_def)
  then show ?thesis by (simp add: e(2))
qed

lemma no_slot_entry:
  assumes c: "converted bits S g k wi wt" and "slot (pk_indices k) pos = None" and "pos < length wi"
  shows "wi ! pos = blank_index"
proof (cases "pos < length (ip_indices (pk_indices k)) - 1 + 1")
  case True
  from index_table_length(2) [OF c True] assms(2) show ?thesis by (simp add: index_entry_def slot_None)
next
  case False
  then show ?thesis using index_table_length(3) [OF c] assms(3) by simp
qed

lemma state_slot_orders:
  assumes c: "converted bits S g k wi wt" and s: "s < length (pk_states k)"
  shows "slot (pk_indices k) pos = Some (s, y) \<longleftrightarrow> (\<exists>i. sp_start_index (pk_states k ! s) = Some i \<and>
     (y = no_symbol_number \<and> pos = i \<or> pos = i + y + 1 \<and> (y = 0 \<and> zero_order (sn_flags S) (pk_states k ! s) \<noteq> [] \<or>
       y \<in> set (other_order (sn_flags S) (pk_states k ! s)))))"
proof -
  have "holds (sn_flags S) (map (tp_of S) (state_vector g ! s)) (pk_states k ! s)"
    using convertedD(1) [OF c] s by (simp add: stands_for_def)
  from group_offsets [OF this convertedD(2,3) [OF c]] show ?thesis
    unfolding convertedD(9) [OF c] state_slot_def using s by blast
qed

section \<open>What the lookup sees\<close>

lemma placeholder_facts:
  assumes c: "converted bits S g k wi wt" and s: "s < length (pk_states k)"
  shows "holds (sn_flags S) (map (tp_of S) (state_vector g ! s)) (pk_states k ! s)" "sp_number (pk_states k ! s) = s"
    "sp_first_transition (pk_states k ! s) = state_base g s" "sp_final (pk_states k ! s) = is_final_state s g"
    "sp_final_weight (pk_states k ! s) = final_of g s"
  using convertedD(1) [OF c] s by (simp_all add: stands_for_def)

lemma table_of_state:
  assumes c: "converted bits S g k wi wt" and s: "s < length (pk_states k)"
  shows "\<exists>rest. drop (state_base g s) wt = entries bits (pk_states k) (pk_states k ! s) (input_order (sn_flags S) (pk_states k ! s)) @ rest \<and>
      rest \<noteq> [] \<and> ot_input (hd rest) = no_symbol_number"
    and "s \<noteq> 0 \<Longrightarrow> 0 < state_base g s \<and> wt ! (state_base g s - 1) = final_marker bits (is_final_state s g) (final_of g s)"
    and "state_base g s < length wt"
proof -
  from c obtain pad where pad: "wt = concat (map (block bits (sn_flags S) (pk_states k)) (pk_states k)) @ [pad]" "ot_input pad = no_symbol_number"
    by (auto simp: converted_def)
  note t = table_at_state [OF convertedD(1,2,3) [OF c] s pad]
  show e: "\<exists>rest. drop (state_base g s) wt = entries bits (pk_states k) (pk_states k ! s) (input_order (sn_flags S) (pk_states k ! s)) @ rest \<and>
      rest \<noteq> [] \<and> ot_input (hd rest) = no_symbol_number" by (rule t(1))
  show "s \<noteq> 0 \<Longrightarrow> 0 < state_base g s \<and> wt ! (state_base g s - 1) = final_marker bits (is_final_state s g) (final_of g s)" by (rule t(2))
  from e have "drop (state_base g s) wt \<noteq> []" by auto
  then show "state_base g s < length wt" by simp
qed

lemma simple_not_start: "converted bits S g k wi wt \<Longrightarrow> s < length (pk_states k) \<Longrightarrow> is_simple (pk_states k ! s) \<Longrightarrow> s \<noteq> 0"
  using convertedD(7,8) [of bits S g k wi wt] by (metis option.distinct(1))

lemma state_index_simple:
  assumes c: "converted bits S g k wi wt" and s: "s < length (pk_states k)" "is_simple (pk_states k ! s)"
  shows "target_index (pk_states k) s = target_table_start + (state_base g s - 1)" and "0 < state_base g s"
proof -
  show pos: "0 < state_base g s" using table_of_state(2) [OF c s(1)] simple_not_start [OF c s] by blast
  have "state_base g s < target_table_start" using table_of_state(3) [OF c s(1)] convertedD(12) [OF c] by simp
  then show "target_index (pk_states k) s = target_table_start + (state_base g s - 1)"
    using s(2) pos placeholder_facts(3) [OF c s(1)] by (simp add: target_index_def target_table_start_def)
qed

lemma state_index_nonsimple:
  assumes c: "converted bits S g k wi wt" and s: "s < length (pk_states k)" "\<not> is_simple (pk_states k ! s)"
  shows "\<exists>i. sp_start_index (pk_states k ! s) = Some i \<and> target_index (pk_states k) s = i \<and> i < length wi \<and> i < target_table_start \<and>
     slot (pk_indices k) i = Some (s, no_symbol_number)"
proof -
  obtain i where i: "sp_start_index (pk_states k ! s) = Some i" using convertedD(7) [OF c s(1)] s(2) by auto
  then have sl: "slot (pk_indices k) i = Some (s, no_symbol_number)" using state_slot_orders [OF c s(1)] by blast
  then show ?thesis using i s(2) slot_entry(1) [OF c sl] convertedD(11) [OF c] by (simp add: target_index_def)
qed

lemma final_seen:
  assumes c: "converted bits S g k wi wt" and s: "s < length (pk_states k)" and wval: "\<And>w. wval (bits w) = w"
    and lc: "lc_tables c = \<lparr>weighted_tables = True, index_table = wi, transition_table = wt\<rparr>" "lc_wval c = wval"
  shows "final_at c (target_index (pk_states k) s) = final_weight_map g s"
proof (cases "is_simple (pk_states k ! s)")
  case True
  have "wt ! (state_base g s - 1) = final_marker bits (is_final_state s g) (final_of g s)"
    using table_of_state(2) [OF c s] simple_not_start [OF c s True] by blast
  then show ?thesis
    using wval unfolding state_index_simple(1) [OF c s True]
    by (auto simp: final_at_def lc Let_def transition_final_def final_marker_def get_weight_def no_table_index_def is_final_state_def
        final_of_def split: option.splits)
next
  case False
  from state_index_nonsimple [OF c s False] obtain i where
    i: "target_index (pk_states k) s = i" "i < target_table_start" "slot (pk_indices k) i = Some (s, no_symbol_number)" by blast
  have "index_entry bits (sn_flags S) k i = Inr (if is_final_state s g then \<lparr>ti_input = no_symbol_number, ti_first = bits (final_of g s)\<rparr> else blank_index)"
    using slot_entry(3,4) [OF c i(3)] placeholder_facts(4,5) [OF c s] by (simp add: index_entry_def Let_def)
  then have "wi ! i = (if is_final_state s g then \<lparr>ti_input = no_symbol_number, ti_first = bits (final_of g s)\<rparr> else blank_index)"
    using slot_entry(2) [OF c i(3)] by simp
  then show ?thesis
    using i(2) wval convertedD(6) [OF c, of "final_of g s"]
    by (auto simp: final_at_def lc Let_def i(1) index_final_def index_final_weight_def no_table_index_def is_final_state_def
        final_of_def blank_index_def split: option.splits)
qed

lemma takeWhile_entries:
  assumes "\<forall>k \<in> set A. P k" and "\<forall>k \<in> set B. \<not> P k" and "\<not> P no_symbol_number"
    and rest: "rest \<noteq> []" "ot_input (hd rest) = no_symbol_number"
  shows "takeWhile (\<lambda>x. P (ot_input x)) (entries bits ps p A @ entries bits ps p B @ rest) = entries bits ps p A"
proof -
  have "\<forall>x \<in> set (entries bits ps p A). P (ot_input x)" using entries_input assms(1) by blast
  then have "takeWhile (\<lambda>x. P (ot_input x)) (entries bits ps p A @ entries bits ps p B @ rest) =
      entries bits ps p A @ takeWhile (\<lambda>x. P (ot_input x)) (entries bits ps p B @ rest)"
    by (intro takeWhile_append2) simp
  moreover have "takeWhile (\<lambda>x. P (ot_input x)) (entries bits ps p B @ rest) = []"
  proof (cases "entries bits ps p B")
    case Nil
    then show ?thesis using rest assms(3) by (cases rest) auto
  next
    case (Cons x xs)
    then have "\<not> P (ot_input x)" using entries_input [of x bits ps p B] assms(2) by auto
    then show ?thesis by (simp add: Cons)
  qed
  ultimately show ?thesis by simp
qed

text \<open>The entry of a state in the index table leads to its transitions, and other entries are not mistaken for it.\<close>

lemma indexed_state:
  assumes c: "converted bits S g k wi wt" and s: "s < length (pk_states k)"
    and i: "sp_start_index (pk_states k ! s) = Some i" and y: "y < no_symbol_number"
    and tabs: "tabs = \<lparr>weighted_tables = True, index_table = wi, transition_table = wt\<rparr>"
  shows "slot (pk_indices k) (i + 1 + y) = Some (s, y) \<Longrightarrow> symbol_offset (sn_flags S) y (pk_states k ! s) = Inr offset \<Longrightarrow>
      state_base g s + offset < length wt \<Longrightarrow> indexed tabs (i + 1 + y) y = drop (state_base g s + offset) wt"
    and "slot (pk_indices k) (i + 1 + y) \<noteq> Some (s, y) \<Longrightarrow> indexed tabs (i + 1 + y) y = []"
proof -
  let ?pos = "i + 1 + y"
  have base: "slot (pk_indices k) i = Some (s, no_symbol_number)" using state_slot_orders [OF c s] i by blast
  then have "i < length wi" by (rule slot_entry(1) [OF c])
  then have "?pos < target_table_start" using convertedD(11) [OF c] y by (simp add: no_symbol_number_def)
  then have at: "table_at wi ?pos = (if ?pos < length wi then Inr (wi ! ?pos) else Inl UndefinedBehaviour)"
    by (simp add: table_at_def)
  show "indexed tabs ?pos y = drop (state_base g s + offset) wt"
    if sl: "slot (pk_indices k) ?pos = Some (s, y)" and off: "symbol_offset (sn_flags S) y (pk_states k ! s) = Inr offset"
      and room: "state_base g s + offset < length wt"
  proof -
    note e = slot_entry [OF c sl]
    have b: "state_base g s + offset < target_table_start" using room convertedD(12) [OF c] by simp
    have "index_entry bits (sn_flags S) k ?pos =
        Inr \<lparr>ti_input = y, ti_first = (state_base g s + offset + target_table_start) mod 4294967296\<rparr>"
      using e(3,4) y off placeholder_facts(3) [OF c s] by (simp add: index_entry_def Let_def)
    with e(2) have entry: "wi ! ?pos = \<lparr>ti_input = y, ti_first = (state_base g s + offset + target_table_start) mod 4294967296\<rparr>" by simp
    have "minus_start ((state_base g s + offset + target_table_start) mod 4294967296) = state_base g s + offset"
      using b by (simp add: minus_start_def target_table_start_def mod_add_left_eq)
    moreover have "table_at wi ?pos = Inr (wi ! ?pos)" using e(1) at by simp
    ultimately show ?thesis using b entry by (simp add: indexed_def tabs transitions_from_def)
  qed
  show "indexed tabs ?pos y = []" if other: "slot (pk_indices k) ?pos \<noteq> Some (s, y)"
  proof (cases "table_at wi ?pos")
    case (Inl err)
    then show ?thesis by (simp add: indexed_def tabs)
  next
    case (Inr x)
    then have x: "?pos < length wi" "x = wi ! ?pos" using at by (auto split: if_splits)
    have "ti_input x \<noteq> y"
    proof (cases "slot (pk_indices k) ?pos")
      case None
      then show ?thesis using no_slot_entry [OF c None x(1)] x(2) y by (simp add: blank_index_def)
    next
      case (Some sy)
      obtain s' y' where sy: "sy = (s', y')" by (cases sy)
      have input: "ti_input x = y'"
        unfolding x(2) by (rule slot_entry_input [OF c Some [unfolded sy]])
      show ?thesis
      proof
        assume "ti_input x = y"
        with input have y': "y' = y" by simp
        have s': "s' < length (pk_states k)" using Some sy convertedD(9) [OF c] by blast
        with Some sy y' y obtain i' where i': "sp_start_index (pk_states k ! s') = Some i'" "?pos = i' + y + 1"
          using state_slot_orders [OF c s'] by auto
        then have "slot (pk_indices k) i = Some (s', no_symbol_number)" using state_slot_orders [OF c s'] by simp
        with base have "s' = s" by simp
        with Some sy y' other show False by simp
      qed
    qed
    then show ?thesis using Inr by (simp add: indexed_def tabs)
  qed
qed

text \<open>So both kinds of states show the lookup their transitions.\<close>

definition same_flags :: "symbol_numbers \<Rightarrow> 'w hbt \<Rightarrow> ol_alphabet \<Rightarrow> bool" where
  "same_flags S g a \<longleftrightarrow> \<not> is_flag_diacritic a no_symbol_number \<and>
     (\<forall>s. \<forall>tr \<in> set (transitions_of g s). is_flag_diacritic a (map_number (sn_map S) (tr_input tr)) \<longleftrightarrow>
        map_number (sn_map S) (tr_input tr) \<in> sn_flags S)"

lemma present_number:
  assumes c: "converted bits S g k wi wt" and s: "s < length (pk_states k)"
  shows "input_present (pk_states k ! s) y \<longleftrightarrow> (\<exists>tr \<in> set (transitions_of g s). y = map_number (sn_map S) (tr_input tr))"
    and "input_present (pk_states k ! s) y \<Longrightarrow> y < no_symbol_number"
    and "group_of (pk_states k ! s) y = filter (\<lambda>t. tp_input t = y) (map (tp_of S) (transitions_of g s))"
proof -
  have "s < length (state_vector g)" using convertedD(1) [OF c] s by (simp add: stands_for_def)
  then have tr: "transitions_of g s = state_vector g ! s" by (simp add: transitions_of_def)
  have h: "holds (sn_flags S) (map (tp_of S) (state_vector g ! s)) (pk_states k ! s)" by (rule placeholder_facts(1) [OF c s])
  show present: "input_present (pk_states k ! s) y \<longleftrightarrow> (\<exists>tr \<in> set (transitions_of g s). y = map_number (sn_map S) (tr_input tr))"
  proof -
    have "input_present (pk_states k ! s) y \<longleftrightarrow> y \<in> tp_input ` set (map (tp_of S) (state_vector g ! s))"
      using h unfolding holds_def by blast
    moreover have "tp_input ` set (map (tp_of S) (state_vector g ! s)) = (\<lambda>tr. map_number (sn_map S) (tr_input tr)) ` set (state_vector g ! s)"
      by (simp add: image_image tp_of_def)
    ultimately show ?thesis unfolding tr by blast
  qed
  show "group_of (pk_states k ! s) y = filter (\<lambda>t. tp_input t = y) (map (tp_of S) (transitions_of g s))"
    using h unfolding tr holds_def by blast
  show "y < no_symbol_number" if "input_present (pk_states k ! s) y"
    using that convertedD(5) [OF c] unfolding present no_symbol_number_def by blast
qed

lemma epsilons_seen:
  assumes c: "converted bits S g k wi wt" and s: "s < length (pk_states k)"
    and lc: "lc_tables lc = \<lparr>weighted_tables = True, index_table = wi, transition_table = wt\<rparr>" and same: "same_flags S g (lc_alphabet lc)"
  shows "epsilons_at lc (target_index (pk_states k) s) = entries bits (pk_states k) (pk_states k ! s) (zero_order (sn_flags S) (pk_states k ! s))"
proof -
  let ?p = "pk_states k ! s" and ?fs = "sn_flags S" and ?a = "lc_alphabet lc"
  let ?tabs = "\<lparr>weighted_tables = True, index_table = wi, transition_table = wt\<rparr>"
  let ?P = "\<lambda>y. y = 0 \<or> is_flag_diacritic ?a y"
  have flag: "is_flag_diacritic ?a y \<longleftrightarrow> y \<in> ?fs" if "input_present ?p y" for y
    using that same unfolding present_number(1) [OF c s] same_flags_def by blast
  note orders = set_orders [OF convertedD(2,3) [OF c], of ?p]
  have Z: "\<forall>y \<in> set (zero_order ?fs ?p). ?P y" and O: "\<forall>y \<in> set (other_order ?fs ?p). \<not> ?P y"
    unfolding orders(1,2) using flag by auto
  have N: "\<not> ?P no_symbol_number" using same by (simp add: same_flags_def no_symbol_number_def)
  from table_of_state(1) [OF c s] obtain rest where
    rest: "drop (state_base g s) wt = entries bits (pk_states k) ?p (zero_order ?fs ?p) @ entries bits (pk_states k) ?p (other_order ?fs ?p) @ rest"
      "rest \<noteq> []" "ot_input (hd rest) = no_symbol_number" unfolding input_order_split by auto
  have look: "takeWhile (epslike ?a) (drop (state_base g s) wt) = entries bits (pk_states k) ?p (zero_order ?fs ?p)"
    unfolding epslike_def rest(1) by (rule takeWhile_entries [OF Z O N rest(2,3)])
  show ?thesis
  proof (cases "is_simple ?p")
    case True
    note i = state_index_simple [OF c s True]
    have "state_base g s < target_table_start" using table_of_state(3) [OF c s] convertedD(12) [OF c] by simp
    then have "state_transitions ?tabs (target_index (pk_states k) s) 0 = drop (state_base g s) wt"
      using i by (simp add: state_transitions_def transitions_from_def)
    with look show ?thesis by (simp add: epsilons_at_def lc)
  next
    case False
    then obtain i where i: "sp_start_index ?p = Some i" "target_index (pk_states k) s = i" "i < target_table_start"
      using state_index_nonsimple [OF c s] by blast
    have zero: "0 < no_symbol_number" by (simp add: no_symbol_number_def)
    have st: "state_transitions ?tabs i 0 = indexed ?tabs (i + 1 + 0) 0" using i(3) by (simp add: state_transitions_def)
    have sl: "slot (pk_indices k) (i + 1 + 0) = Some (s, 0) \<longleftrightarrow> zero_order ?fs ?p \<noteq> []"
      unfolding state_slot_orders [OF c s] using i(1) zero orders(2) by auto
    note idx = indexed_state [OF c s i(1) zero refl]
    show ?thesis
    proof (cases "zero_order ?fs ?p = []")
      case True
      then have "slot (pk_indices k) (i + 1 + 0) \<noteq> Some (s, 0)" using sl by simp
      from idx(2) [OF this] st i(2) True show ?thesis by (simp add: epsilons_at_def lc)
    next
      case False
      then have "slot (pk_indices k) (i + 1 + 0) = Some (s, 0)" using sl by simp
      from idx(1) [OF this, of 0] table_of_state(3) [OF c s] have "indexed ?tabs (i + 1 + 0) 0 = drop (state_base g s) wt"
        by (simp add: symbol_offset_def)
      then show ?thesis using st i(2) look by (simp only: epsilons_at_def lc)
    qed
  qed
qed

lemma distinct_one: "distinct xs \<Longrightarrow> set xs = {y} \<Longrightarrow> xs = [y]"
proof (cases xs)
  case (Cons x zs)
  assume d: "distinct xs" and "set xs = {y}"
  then have "x = y" "set zs \<subseteq> {y}" using Cons by auto
  then show ?thesis using d Cons by (cases zs) auto
qed simp

lemma symbols_seen:
  assumes c: "converted bits S g k wi wt" and s: "s < length (pk_states k)"
    and lc: "lc_tables lc = \<lparr>weighted_tables = True, index_table = wi, transition_table = wt\<rparr>"
    and y: "y \<noteq> 0" "y \<notin> sn_flags S" "y < no_symbol_number"
  shows "symbols_at lc (target_index (pk_states k) s) y = map (encoded bits (pk_states k) y) (group_of (pk_states k ! s) y)"
proof -
  let ?p = "pk_states k ! s" and ?fs = "sn_flags S" and ?Q = "pk_states k"
  let ?tabs = "\<lparr>weighted_tables = True, index_table = wi, transition_table = wt\<rparr>"
  note fin = convertedD(2,3) [OF c]
  note orders = set_orders [OF fin, of ?p]
  from table_of_state(1) [OF c s] obtain rest where
    rest: "drop (state_base g s) wt = entries bits ?Q ?p (input_order ?fs ?p) @ rest" "rest \<noteq> []" "ot_input (hd rest) = no_symbol_number"
    by blast
  have after: "takeWhile (\<lambda>x. ot_input x = y) (entries bits ?Q ?p [y] @ entries bits ?Q ?p B @ rest) = entries bits ?Q ?p [y]"
    if "y \<notin> set B" for B
    by (rule takeWhile_entries [where P = "\<lambda>k. k = y", OF _ _ _ rest(2,3)]) (use that y(3) in auto)
  have none: "takeWhile (\<lambda>x. ot_input x = y) (drop (state_base g s) wt) = []" if "\<not> input_present ?p y"
  proof -
    have "takeWhile (\<lambda>x. ot_input x = y) (entries bits ?Q ?p [] @ entries bits ?Q ?p (input_order ?fs ?p) @ rest) = entries bits ?Q ?p []"
      by (rule takeWhile_entries [where P = "\<lambda>k. k = y", OF _ _ _ rest(2,3)]) (use that y(3) orders(3) in auto)
    then show ?thesis using rest(1) by simp
  qed
  have empty: "group_of ?p y = []" if "\<not> input_present ?p y" using that by (simp add: group_of_def)
  show ?thesis
  proof (cases "is_simple ?p")
    case True
    note i = state_index_simple [OF c s True]
    have "state_base g s < target_table_start" using table_of_state(3) [OF c s] convertedD(12) [OF c] by simp
    then have st: "state_transitions ?tabs (target_index ?Q s) y = drop (state_base g s) wt"
      using i by (simp add: state_transitions_def transitions_from_def)
    show ?thesis
    proof (cases "input_present ?p y")
      case False
      then show ?thesis using st none empty by (simp add: symbols_at_def lc)
    next
      case present: True
      have h: "holds ?fs (map (tp_of S) (state_vector g ! s)) ?p" by (rule placeholder_facts(1) [OF c s])
      let ?I = "tp_input ` set (map (tp_of S) (state_vector g ! s))"
      have "y \<in> ?I" "sp_type ?p = indexing_of ?fs s ?I" using h present placeholder_facts(2) [OF c s] by (simp_all add: holds_def)
      with True y have "\<exists>k. ?I = {k}" by (auto simp: is_simple_def indexing_of_def split: if_splits)
      with \<open>y \<in> ?I\<close> have "?I = {y}" by (metis singletonD)
      then have "set (input_order ?fs ?p) = {y}" using orders(3) h by (simp add: holds_def)
      with orders(4) have "input_order ?fs ?p = [y]" by (intro distinct_one)
      then have "takeWhile (\<lambda>x. ot_input x = y) (drop (state_base g s) wt) = entries bits ?Q ?p [y]"
        using after [of "[]"] rest(1) by simp
      then show ?thesis using st by (simp add: symbols_at_def lc)
    qed
  next
    case False
    then obtain i where i: "sp_start_index ?p = Some i" "target_index ?Q s = i" "i < target_table_start"
      using state_index_nonsimple [OF c s] by blast
    have st: "state_transitions ?tabs i y = indexed ?tabs (i + 1 + y) y" using i(3) by (simp add: state_transitions_def)
    have sl: "slot (pk_indices k) (i + 1 + y) = Some (s, y) \<longleftrightarrow> input_present ?p y"
      unfolding state_slot_orders [OF c s] using i(1) y orders(2) by auto
    note idx = indexed_state [OF c s i(1) y(3) refl]
    show ?thesis
    proof (cases "input_present ?p y")
      case none: False
      then have "slot (pk_indices k) (i + 1 + y) \<noteq> Some (s, y)" using sl by simp
      from idx(2) [OF this] st i(2) empty [OF none] show ?thesis by (simp add: symbols_at_def lc)
    next
      case True
      from symbol_offset_ok [OF fin(1) True y(1,2), of bits ?Q] obtain A B where
        AB: "input_order ?fs ?p = zero_order ?fs ?p @ A @ y # B"
          "symbol_offset ?fs y ?p = Inr (length (entries bits ?Q ?p (zero_order ?fs ?p @ A)))" by blast
      let ?off = "length (entries bits ?Q ?p (zero_order ?fs ?p @ A))"
      have dropped: "drop (state_base g s + ?off) wt = entries bits ?Q ?p [y] @ entries bits ?Q ?p B @ rest"
        using arg_cong [OF rest(1), of "drop ?off"] by (simp add: AB(1) add.commute)
      then have "drop (state_base g s + ?off) wt \<noteq> []" using rest(2) by simp
      then have room: "state_base g s + ?off < length wt" by simp
      have "slot (pk_indices k) (i + 1 + y) = Some (s, y)" using sl True by simp
      from idx(1) [OF this AB(2) room] have "indexed ?tabs (i + 1 + y) y = entries bits ?Q ?p [y] @ entries bits ?Q ?p B @ rest"
        using dropped by simp
      moreover have "y \<notin> set B" using orders(4) unfolding AB(1) by simp
      ultimately have "takeWhile (\<lambda>x. ot_input x = y) (indexed ?tabs (i + 1 + y) y) = entries bits ?Q ?p [y]"
        using after by simp
      then show ?thesis using st i(2) by (simp add: symbols_at_def lc)
    qed
  qed
qed

end
