(* ===== verification/OlAnalyses.thy ===== *)
theory OlAnalyses
  imports OlLookup
begin

text \<open>
  What a lookup in optimized-lookup tables finds. A well-formed transducer is described by
  \<open>alphabet_ok\<close> and \<open>tables_ok\<close>; \<open>adds\<close> says how a part of the search changes the state: weight, flags
  and the tape behind the position are as before, and the results of runs have been added. Each
  function of \<open>OlLookup\<close> has one lemma of this form, and \<open>get_analyses_adds\<close> puts them
  together by induction on the recursion depth.
\<close>

section \<open>Well-formed transducers\<close>

definition alphabet_ok :: "ol_alphabet \<Rightarrow> bool" where
  "alphabet_ok a \<longleftrightarrow> length (symbol_table a) \<le> 65535 \<and> orig_symbol_count a \<le> length (symbol_table a) \<and>
     (\<forall>k opn. operations (ol_fd_table a) k = Some opn \<longrightarrow>
        0 < k \<and> k < length (symbol_table a) \<and> op_feature opn < num_features (ol_fd_table a))"

text \<open>The symbols a state of the index table is asked for: the first \<open>n\<close> and the special ones.\<close>

definition asked_for :: "ol_alphabet \<Rightarrow> nat \<Rightarrow> nat \<Rightarrow> bool" where
  "asked_for a n k \<longleftrightarrow> k < n \<or> k \<noteq> no_symbol_number \<and> k \<in> {identity_symbol a, unknown_symbol a, default_symbol a}"

definition valid_index :: "ol_alphabet \<Rightarrow> nat \<Rightarrow> ol_tables \<Rightarrow> nat \<Rightarrow> bool" where
  "valid_index a n tabs i \<longleftrightarrow>
     (if target_table_start \<le> i then i - target_table_start + 1 < length (transition_table tabs)
      else i < length (index_table tabs) \<and> (\<forall>k. k = 0 \<or> asked_for a n k \<longrightarrow> i + 1 + k < length (index_table tabs)))"

definition edge_ok :: "ol_alphabet \<Rightarrow> nat \<Rightarrow> ol_tables \<Rightarrow> ol_transition \<Rightarrow> bool" where
  "edge_ok a n tabs x \<longleftrightarrow> ot_input x < length (symbol_table a) \<and> ot_output x < length (symbol_table a) \<and>
     valid_index a n tabs (ot_target x)"

definition tables_ok :: "ol_alphabet \<Rightarrow> nat \<Rightarrow> ol_tables \<Rightarrow> bool" where
  "tables_ok a n tabs \<longleftrightarrow> length (index_table tabs) \<le> target_table_start \<and> length (transition_table tabs) \<le> target_table_start \<and>
     transition_table tabs \<noteq> [] \<and> ot_input (last (transition_table tabs)) = no_symbol_number \<and>
     (\<forall>x \<in> set (transition_table tabs). ot_input x \<noteq> no_symbol_number \<longrightarrow> edge_ok a n tabs x) \<and>
     (\<forall>x \<in> set (index_table tabs). ti_input x \<noteq> no_symbol_number \<longrightarrow> transitions_from tabs (minus_start (ti_first x)) \<noteq> [])"

text \<open>The input tape holds \<open>m\<close> symbols and an end marker.\<close>

definition input_to :: "ol_alphabet \<Rightarrow> nat \<Rightarrow> nat list \<Rightarrow> nat \<Rightarrow> bool" where
  "input_to a n tape m \<longleftrightarrow> m < length tape \<and> tape ! m = no_symbol_number \<and>
     (\<forall>j < m. tape ! j \<noteq> no_symbol_number \<and> tape ! j < length (symbol_table a) \<and> input_number a n (tape ! j))"

definition lookup_ok :: "'w lookup_context \<Rightarrow> nat \<Rightarrow> nat \<Rightarrow> bool" where
  "lookup_ok c n m \<longleftrightarrow> alphabet_ok (lc_alphabet c) \<and> tables_ok (lc_alphabet c) n (lc_tables c) \<and>
     input_to (lc_alphabet c) n (lc_input c) m"

lemma transitions_from_suffix:
  assumes "tables_ok a n tabs" and "transitions_from tabs i \<noteq> []"
  shows "set (transitions_from tabs i) \<subseteq> set (transition_table tabs)"
    and "\<exists>x \<in> set (transitions_from tabs i). ot_input x = no_symbol_number"
proof -
  show "set (transitions_from tabs i) \<subseteq> set (transition_table tabs)"
    by (simp add: transitions_from_def set_drop_subset)
  have "last (transitions_from tabs i) = last (transition_table tabs)"
    using assms(2) by (auto simp: transitions_from_def split: if_splits)
  then show "\<exists>x \<in> set (transitions_from tabs i). ot_input x = no_symbol_number"
    using assms last_in_set [OF assms(2)] unfolding tables_ok_def by metis
qed

lemma epslike_number:
  "alphabet_ok a \<Longrightarrow> epslike a x \<Longrightarrow> ot_input x \<noteq> no_symbol_number"
  by (force simp: epslike_def alphabet_ok_def is_flag_diacritic_def table_is_diacritic_def no_symbol_number_def split: option.splits)

section \<open>What a part of the search does to the state\<close>

definition frame :: "nat \<Rightarrow> 'w lookup_state \<Rightarrow> 'w lookup_state \<Rightarrow> bool" where
  "frame out st st' \<longleftrightarrow> current_weight st' = current_weight st \<and> flag_state st' = flag_state st \<and>
     out \<le> length (output_tape st') \<and> take out (output_tape st') = take out (output_tape st) \<and>
     traversal_states st' \<subseteq> traversal_states st"

text \<open>\<open>A\<close> may be added, and is added when \<open>exact\<close> holds.\<close>

definition adds ::
  "nat \<Rightarrow> bool \<Rightarrow> ('w \<times> string_pair list) set \<Rightarrow> 'w lookup_state \<Rightarrow> 'w lookup_state \<Rightarrow> bool" where
  "adds out exact A st st' \<longleftrightarrow> frame out st st' \<and> lookup_paths st \<subseteq> lookup_paths st' \<and>
     lookup_paths st' \<subseteq> lookup_paths st \<union> A \<and> (exact \<longrightarrow> A \<subseteq> lookup_paths st')"

definition tape_ok :: "ol_alphabet \<Rightarrow> (nat \<times> nat) list \<Rightarrow> bool" where
  "tape_ok a tape \<longleftrightarrow> (\<forall>(i, out) \<in> set tape. i < length (symbol_table a) \<and> out < length (symbol_table a))"

definition flags_ok :: "ol_alphabet \<Rightarrow> nat fd_state \<Rightarrow> bool" where
  "flags_ok a fs \<longleftrightarrow> length (st_values fs) = num_features (ol_fd_table a) \<and> st_num_features fs = num_features (ol_fd_table a)"

definition state_ok :: "ol_alphabet \<Rightarrow> nat \<Rightarrow> 'w lookup_state \<Rightarrow> bool" where
  "state_ok a out st \<longleftrightarrow> out \<le> length (output_tape st) \<and> tape_ok a (take out (output_tape st)) \<and> flags_ok a (flag_state st)"

lemma frame_refl: "out \<le> length (output_tape st) \<Longrightarrow> frame out st st"
  by (simp add: frame_def)

lemma frame_trans: "frame out st st1 \<Longrightarrow> frame out st1 st2 \<Longrightarrow> frame out st st2"
  by (auto simp: frame_def)

lemma frame_state_ok: "frame out st st' \<Longrightarrow> state_ok a out st \<Longrightarrow> state_ok a out st'"
  by (simp add: frame_def state_ok_def)

lemma adds_frame: "adds out exact A st st' \<Longrightarrow> frame out st st'"
  by (simp add: adds_def)

lemma adds_nothing: "frame out st st' \<Longrightarrow> lookup_paths st' = lookup_paths st \<Longrightarrow> (exact \<Longrightarrow> A = {}) \<Longrightarrow> adds out exact A st st'"
  by (auto simp: adds_def)

lemma adds_trans: "adds out exact A st st1 \<Longrightarrow> adds out exact B st1 st2 \<Longrightarrow> adds out exact (A \<union> B) st st2"
  unfolding adds_def using frame_trans by blast

text \<open>Members that do not matter may be set before and after.\<close>

lemma adds_post: "adds out exact A st st1 \<Longrightarrow> frame out st1 st2 \<Longrightarrow> lookup_paths st2 = lookup_paths st1 \<Longrightarrow> adds out exact A st st2"
  by (auto simp: adds_def elim: frame_trans)

lemma adds_pre: "frame out st st1 \<Longrightarrow> lookup_paths st1 = lookup_paths st \<Longrightarrow> adds out exact A st1 st2 \<Longrightarrow> adds out exact A st st2"
  by (auto simp: adds_def elim: frame_trans)

lemma frame_found: "out \<le> length (output_tape st) \<Longrightarrow> frame out st (st\<lparr>found_transition := b\<rparr>)"
  by (simp add: frame_def)

lemma write_output_simps [simp]:
  "current_weight (write_output out i o' st) = current_weight st"
  "flag_state (write_output out i o' st) = flag_state st"
  "traversal_states (write_output out i o' st) = traversal_states st"
  "lookup_paths (write_output out i o' st) = lookup_paths st"
  "found_transition (write_output out i o' st) = found_transition st"
  by (simp_all add: write_output_def)

lemma write_output_tape:
  assumes "out \<le> length (output_tape st)"
  shows "Suc out \<le> length (output_tape (write_output out i o' st))"
    and "take out (output_tape (write_output out i o' st)) = take out (output_tape st)"
    and "take (Suc out) (output_tape (write_output out i o' st)) = take out (output_tape st) @ [(i, o')]"
  using assms by (auto simp: write_output_def double_tape_write_def take_Suc_conv_app_nth)

lemma frame_write: "out \<le> length (output_tape st) \<Longrightarrow> frame out st (write_output out i o' st)"
  using write_output_tape [of out st i o'] by (simp add: frame_def)

lemma tape_ok_append: "tape_ok a (xs @ [(i, out)]) \<longleftrightarrow> tape_ok a xs \<and> i < length (symbol_table a) \<and> out < length (symbol_table a)"
  by (auto simp: tape_ok_def)

section \<open>Noting a result\<close>

lemma analysis_strings_tape:
  "tape_ok a pre \<Longrightarrow> length (symbol_table a) \<le> 65535 \<Longrightarrow>
     analysis_strings a (pre @ (i, no_symbol_number) # rest) = Inr (tape_strings a pre)"
proof (induction pre)
  case (Cons p pre)
  obtain k out where p: "p = (k, out)" by (cases p)
  with Cons.prems have "k < length (symbol_table a)" "out < length (symbol_table a)" "tape_ok a pre"
    by (auto simp: tape_ok_def)
  with Cons p show ?case
    by (auto simp: tape_strings_def string_from_symbol_def symbol_string_def no_symbol_number_def)
qed (simp add: tape_strings_def)

lemma note_final_adds:
  assumes a: "alphabet_ok (lc_alphabet c)" and st: "state_ok (lc_alphabet c) out st"
    and exact: "exact \<Longrightarrow> lc_max_lookups c < 0"
  shows "\<exists>st'. note_final c symbol out is_final w st = Inr st' \<and>
     adds out exact (if symbol = no_symbol_number \<and> is_final
       then {(current_weight st + w, tape_strings (lc_alphabet c) (take out (output_tape st)))} else {}) st st'"
proof (cases "symbol = no_symbol_number \<and> within_limit c st")
  case False
  then have "note_final c symbol out is_final w st = Inr st" unfolding note_final_def by (rule if_not_P)
  moreover have "exact \<Longrightarrow> symbol \<noteq> no_symbol_number" using False exact by (auto simp: within_limit_def)
  ultimately show ?thesis using st by (auto simp: state_ok_def intro!: adds_nothing frame_refl)
next
  case True
  let ?st = "write_output out no_symbol_number no_symbol_number st"
  have out: "out \<le> length (output_tape st)" using st by (simp add: state_ok_def)
  note tape = write_output_tape [OF out, of no_symbol_number no_symbol_number]
  have f: "frame out st ?st" by (rule frame_write [OF out])
  show ?thesis
  proof (cases is_final)
    case False
    then show ?thesis using True f by (auto simp: note_final_def intro!: adds_nothing)
  next
    case fin: True
    have "output_tape ?st = take out (output_tape st) @ (no_symbol_number, no_symbol_number) # drop (Suc out) (output_tape ?st)"
      using tape(3) append_take_drop_id [of "Suc out" "output_tape ?st"] by simp
    then have "analysis_strings (lc_alphabet c) (output_tape ?st) =
        Inr (tape_strings (lc_alphabet c) (take out (output_tape st)))"
      using analysis_strings_tape st a by (metis state_ok_def alphabet_ok_def)
    with True fin have "note_final c symbol out is_final w st =
        Inr (?st\<lparr>lookup_paths := insert (current_weight st + w, tape_strings (lc_alphabet c) (take out (output_tape st)))
          (lookup_paths st)\<rparr>)"
      by (simp add: note_final_def note_analysis_def Let_def)
    with True fin f show ?thesis by (auto simp: adds_def frame_def)
  qed
qed

section \<open>When the search is exhaustive\<close>

text \<open>There is no limit and no default symbol, and no cycle of epsilons and flag diacritics goes through a
  flag diacritic: indices can be ranked so that flag diacritics go down.\<close>

definition flags_ranked :: "'w lookup_context \<Rightarrow> nat \<Rightarrow> (nat \<Rightarrow> nat) \<Rightarrow> bool" where
  "flags_ranked c n rank \<longleftrightarrow> (\<forall>i. valid_index (lc_alphabet c) n (lc_tables c) i \<longrightarrow> (\<forall>x \<in> set (epsilons_at c i).
     if ot_input x = 0 then rank (ot_target x) \<le> rank i else rank (ot_target x) < rank i))"

definition exhaustive :: "'w lookup_context \<Rightarrow> nat \<Rightarrow> (nat \<Rightarrow> nat) \<Rightarrow> bool" where
  "exhaustive c n rank \<longleftrightarrow> lc_max_lookups c < 0 \<and> default_symbol (lc_alphabet c) = no_symbol_number \<and> flags_ranked c n rank"

definition below :: "(nat \<Rightarrow> nat) \<Rightarrow> nat \<Rightarrow> 'w lookup_state \<Rightarrow> bool" where
  "below rank i st \<longleftrightarrow> (\<forall>(t, vs) \<in> traversal_states st. rank i \<le> rank t)"

lemma frame_below: "frame out st st' \<Longrightarrow> below rank i st \<Longrightarrow> below rank i st'"
  by (auto simp: frame_def below_def)

text \<open>What the recursive calls do.\<close>

definition finds ::
  "('w::monoid_add) lookup_context \<Rightarrow> nat \<Rightarrow> nat \<Rightarrow> (nat \<Rightarrow> nat) \<Rightarrow> nat \<Rightarrow> 'w analyser \<Rightarrow> bool" where
  "finds c n m rank d rec \<longleftrightarrow> (\<forall>i pos out st. valid_index (lc_alphabet c) n (lc_tables c) i \<longrightarrow> pos \<le> m \<longrightarrow>
     state_ok (lc_alphabet c) out st \<longrightarrow> (\<exists>st'. rec pos out i st = Inr st' \<and> adds out (exhaustive c n rank \<and> below rank i st)
       (run_results c d i pos (flag_state st) (current_weight st) (take out (output_tape st))) st st'))"

lemma findsD:
  "finds c n m rank d rec \<Longrightarrow> valid_index (lc_alphabet c) n (lc_tables c) i \<Longrightarrow> pos \<le> m \<Longrightarrow> state_ok (lc_alphabet c) out st \<Longrightarrow>
   \<exists>st'. rec pos out i st = Inr st' \<and> adds out (exhaustive c n rank \<and> below rank i st)
     (run_results c d i pos (flag_state st) (current_weight st) (take out (output_tape st))) st st'"
  unfolding finds_def by blast

lemma take_transition_adds:
  assumes rec: "finds c n m rank d rec" and "pos \<le> m" and st: "state_ok (lc_alphabet c) out st"
    and x: "valid_index (lc_alphabet c) n (lc_tables c) (ot_target x)"
    and k: "k < length (symbol_table (lc_alphabet c))" "k' < length (symbol_table (lc_alphabet c))"
  shows "\<exists>st'. take_transition c rec pos out k k' x st = Inr st' \<and> adds out (exhaustive c n rank \<and> below rank (ot_target x) st)
     (after c d pos (flag_state st) (current_weight st) (take out (output_tape st)) x k k') st st'"
proof -
  let ?w = "current_weight st + get_weight (lc_wval c) (lc_tables c) x"
  let ?st = "(write_output out k k' st)\<lparr>current_weight := ?w\<rparr>"
  have out: "out \<le> length (output_tape st)" using st by (simp add: state_ok_def)
  note tape = write_output_tape [OF out, of k k']
  have "state_ok (lc_alphabet c) (Suc out) ?st" using st k tape by (simp add: state_ok_def tape_ok_append)
  with rec x \<open>pos \<le> m\<close> obtain st' where
    st': "rec pos (Suc out) (ot_target x) ?st = Inr st'"
      "adds (Suc out) (exhaustive c n rank \<and> below rank (ot_target x) ?st) (run_results c d (ot_target x) pos (flag_state ?st)
        (current_weight ?st) (take (Suc out) (output_tape ?st))) ?st st'" unfolding finds_def by blast
  let ?st' = "st'\<lparr>found_transition := True, current_weight := current_weight st\<rparr>"
  have "take_transition c rec pos out k k' x st = Inr ?st'" using st'(1) by (simp add: take_transition_def Let_def)
  moreover have "adds out (exhaustive c n rank \<and> below rank (ot_target x) st)
     (after c d pos (flag_state st) (current_weight st) (take out (output_tape st)) x k k') st ?st'"
  proof -
    have "take out (output_tape st') = take out (take (Suc out) (output_tape st'))" by (simp add: min_def)
    also have "\<dots> = take out (output_tape st)" using st'(2) tape(3) out by (simp add: adds_def frame_def)
    finally show ?thesis using st'(2) tape by (auto simp: adds_def frame_def below_def after_def)
  qed
  ultimately show ?thesis by blast
qed

section \<open>Transitions that read a symbol\<close>

lemma lookup_ok_symbol:
  "lookup_ok c n m \<Longrightarrow> pos < m \<Longrightarrow> lc_input c ! pos \<noteq> no_symbol_number \<and>
     lc_input c ! pos < length (symbol_table (lc_alphabet c)) \<and> input_number (lc_alphabet c) n (lc_input c ! pos)"
  by (simp add: lookup_ok_def input_to_def)

lemma lookup_ok_read: "lookup_ok c n m \<Longrightarrow> pos \<le> m \<Longrightarrow> vec_read (lc_input c) pos = Inr (lc_input c ! pos)"
  by (simp add: lookup_ok_def input_to_def vec_read_def)

lemma find_transitions_adds:
  assumes rec: "finds c n m rank d rec" and c: "lookup_ok c n m" "pos < m" and k: "k \<noteq> no_symbol_number"
  shows "state_ok (lc_alphabet c) out st \<Longrightarrow> \<exists>x \<in> set xs. ot_input x = no_symbol_number \<Longrightarrow>
     \<forall>x \<in> set xs. ot_input x \<noteq> no_symbol_number \<longrightarrow> edge_ok (lc_alphabet c) n (lc_tables c) x \<Longrightarrow>
     \<exists>st'. find_transitions c rec k (Suc pos) out xs st = Inr st' \<and> adds out (exhaustive c n rank)
       (\<Union>x \<in> set (takeWhile (\<lambda>x. ot_input x = k) xs).
         after c d (Suc pos) (flag_state st) (current_weight st) (take out (output_tape st)) x k (written c pos x)) st st'"
proof (induction xs arbitrary: st)
  case (Cons x xs)
  let ?a = "lc_alphabet c"
  show ?case
  proof (cases "ot_input x = k")
    case False
    then have "find_transitions c rec k (Suc pos) out (x # xs) st = Inr st" by simp
    with False Cons.prems(1) show ?thesis by (auto simp: state_ok_def intro!: adds_nothing frame_refl)
  next
    case True
    then have x: "edge_ok ?a n (lc_tables c) x" using Cons.prems(3) k by simp
    let ?st = "st\<lparr>traversal_states := {}\<rparr>"
    have st: "state_ok ?a out ?st" and out: "out \<le> length (output_tape st)" using Cons.prems(1) by (simp_all add: state_ok_def)
    have nums: "k < length (symbol_table ?a)" "written c pos x < length (symbol_table ?a)"
      using x True lookup_ok_symbol [OF c] by (auto simp: edge_ok_def written_def)
    have "valid_index ?a n (lc_tables c) (ot_target x)" using x by (simp add: edge_ok_def)
    from take_transition_adds [OF rec _ st this nums, of "Suc pos"] c(2) obtain st1 where
      st1: "take_transition c rec (Suc pos) out k (written c pos x) x ?st = Inr st1"
        "adds out (exhaustive c n rank \<and> below rank (ot_target x) ?st)
          (after c d (Suc pos) (flag_state st) (current_weight st) (take out (output_tape st)) x k (written c pos x)) ?st st1"
      by auto
    have "frame out st ?st" using out by (simp add: frame_def)
    from adds_pre [OF this _ st1(2)] have
      A: "adds out (exhaustive c n rank) (after c d (Suc pos) (flag_state st) (current_weight st) (take out (output_tape st)) x k (written c pos x)) st st1"
      by (simp add: below_def)
    then have f: "frame out st st1" by (rule adds_frame)
    have "state_ok ?a out st1" by (rule frame_state_ok [OF f Cons.prems(1)])
    then obtain st2 where st2: "find_transitions c rec k (Suc pos) out xs st1 = Inr st2"
        "adds out (exhaustive c n rank) (\<Union>x \<in> set (takeWhile (\<lambda>x. ot_input x = k) xs).
          after c d (Suc pos) (flag_state st1) (current_weight st1) (take out (output_tape st1)) x k (written c pos x)) st1 st2"
      using Cons.IH [of st1] Cons.prems(2,3) True k by auto
    have "find_transitions c rec k (Suc pos) out (x # xs) st = Inr st2"
      using True k st1(1) st2(1) lookup_ok_read [OF c(1) less_imp_le [OF c(2)]]
      by (cases "is_meta_arc ?a (ot_output x)") (simp_all add: written_def)
    moreover have "adds out (exhaustive c n rank) (\<Union>x \<in> set (takeWhile (\<lambda>x. ot_input x = k) (x # xs)).
        after c d (Suc pos) (flag_state st) (current_weight st) (take out (output_tape st)) x k (written c pos x)) st st2"
      using adds_trans [OF A st2(2)] f True by (simp add: frame_def)
    ultimately show ?thesis by blast
  qed
qed simp

section \<open>Epsilons and flag diacritics\<close>

lemma apply_fd_operation_total:
  assumes "alphabet_ok a" and "flags_ok a fs" and "get_operation (ol_fd_table a) k = Some opn"
  shows "\<exists>allowed fs'. apply_fd_operation opn fs = Inr (allowed, fs')"
    and "apply_fd_operation opn fs = Inr (allowed, fs') \<Longrightarrow> flags_ok a fs' \<and> assign_values (st_values fs) fs' = fs"
proof -
  have f: "op_feature opn < length (st_values fs)" using assms by (auto simp: alphabet_ok_def flags_ok_def get_operation_def)
  then show "\<exists>allowed fs'. apply_fd_operation opn fs = Inr (allowed, fs')"
    by (auto simp: apply_fd_operation_def Let_def split: fd_operator.splits)
  assume "apply_fd_operation opn fs = Inr (allowed, fs')"
  then have v: "fs' = fs \<or> (\<exists>v. fs' = set_value (op_feature opn) v fs)"
    using f by (cases "op_operator opn") (auto simp: apply_fd_operation_def Let_def split: if_splits)
  show "flags_ok a fs' \<and> assign_values (st_values fs) fs' = fs"
    using v assms(2) by (auto simp: flags_ok_def assign_values_def set_value_def)
qed

lemma adds_weaken: "adds out exact A st st' \<Longrightarrow> (exact' \<Longrightarrow> exact) \<Longrightarrow> adds out exact' A st st'"
  by (auto simp: adds_def)

text \<open>What one epsilon or flag diacritic does, before the loop goes on.\<close>

definition epsilon_step ::
  "('w::monoid_add) lookup_context \<Rightarrow> 'w analyser \<Rightarrow> nat \<Rightarrow> nat \<Rightarrow> ol_transition \<Rightarrow> 'w lookup_state \<Rightarrow> 'w lookup_state result" where
  "epsilon_step c rec pos out x st =
     (if ot_input x = 0 then take_transition c rec pos out (ot_input x) (ot_output x) x st
      else rbind (case get_operation (ol_fd_table (lc_alphabet c)) (ot_input x) of
                  None \<Rightarrow> Inl UndefinedBehaviour
                | Some opn \<Rightarrow> apply_fd_operation opn (flag_state st)) (\<lambda>(allowed, fs).
           let st1 = st\<lparr>flag_state := fs\<rparr>; reachable = (ot_target x, st_values (flag_state st)) in
           rmap (\<lambda>st3. st3\<lparr>flag_state := assign_values (st_values (flag_state st)) (flag_state st3)\<rparr>)
             (if \<not> allowed \<or> reachable \<in> traversal_states st then Inr st1
              else rmap (\<lambda>st2. st2\<lparr>traversal_states := traversal_states st2 - {reachable}\<rparr>)
                     (take_transition c rec pos out (ot_input x) (ot_output x) x
                       (st1\<lparr>traversal_states := insert reachable (traversal_states st1)\<rparr>)))))"

lemma try_epsilon_transitions_Cons:
  "try_epsilon_transitions c rec pos out (x # xs) st =
     (if epslike (lc_alphabet c) x then rbind (epsilon_step c rec pos out x st) (try_epsilon_transitions c rec pos out xs) else Inr st)"
proof -
  have m: "rbind (rmap f y) g = rbind y (\<lambda>a. g (f a))" for f :: "'w lookup_state \<Rightarrow> 'w lookup_state" and y :: "'w lookup_state result" and g
    by (cases y) simp_all
  show ?thesis
    by (simp add: epslike_def epsilon_step_def Let_def rbind_assoc m split: prod.split)
       (auto intro!: arg_cong [of _ _ "rbind _"] simp: fun_eq_iff m split: prod.split)
qed

lemma epsilon_step_adds:
  assumes rec: "finds c n m rank d rec" and a: "alphabet_ok (lc_alphabet c)" and pos: "pos \<le> m"
    and st: "state_ok (lc_alphabet c) out st" and x: "epslike (lc_alphabet c) x" "edge_ok (lc_alphabet c) n (lc_tables c) x"
    and exact: "exact \<Longrightarrow> exhaustive c n rank \<and> below rank i st \<and>
      (if ot_input x = 0 then rank (ot_target x) \<le> rank i else rank (ot_target x) < rank i)"
  shows "\<exists>st'. epsilon_step c rec pos out x st = Inr st' \<and> adds out exact
     (after_epsilon c d pos (flag_state st) (current_weight st) (take out (output_tape st)) x) st st'"
proof (cases "ot_input x = 0")
  case True
  from take_transition_adds [OF rec pos st, of x "ot_input x" "ot_output x"] x(2) obtain st' where
    "take_transition c rec pos out (ot_input x) (ot_output x) x st = Inr st'"
    "adds out (exhaustive c n rank \<and> below rank (ot_target x) st)
       (after c d pos (flag_state st) (current_weight st) (take out (output_tape st)) x (ot_input x) (ot_output x)) st st'"
    by (auto simp: edge_ok_def)
  moreover have "exact \<Longrightarrow> exhaustive c n rank \<and> below rank (ot_target x) st"
    using exact True by (fastforce simp: below_def)
  ultimately show ?thesis
    using True by (auto simp: epsilon_step_def after_epsilon_def flag_through_def intro: adds_weaken)
next
  case False
  then obtain opn where opn: "get_operation (ol_fd_table (lc_alphabet c)) (ot_input x) = Some opn"
    using x(1) by (auto simp: epslike_def is_flag_diacritic_def table_is_diacritic_def get_operation_def)
  have fs: "flags_ok (lc_alphabet c) (flag_state st)" and out: "out \<le> length (output_tape st)" using st by (simp_all add: state_ok_def)
  from apply_fd_operation_total [OF a fs opn] obtain allowed fs' where
    ap: "apply_fd_operation opn (flag_state st) = Inr (allowed, fs')" "flags_ok (lc_alphabet c) fs'"
      "assign_values (st_values (flag_state st)) fs' = flag_state st" by blast
  let ?r = "(ot_target x, st_values (flag_state st))"
  have through: "flag_through (lc_alphabet c) x (flag_state st) = (if allowed then Some fs' else None)"
    using False opn ap(1) by (simp add: flag_through_def)
  show ?thesis
  proof (cases "\<not> allowed \<or> ?r \<in> traversal_states st")
    case True
    then have "epsilon_step c rec pos out x st = Inr st" using False opn ap by (simp add: epsilon_step_def Let_def)
    moreover have "exact \<Longrightarrow> \<not> allowed" using True exact False by (fastforce simp: below_def)
    ultimately show ?thesis using through out by (auto simp: after_epsilon_def intro!: adds_nothing frame_refl)
  next
    case go: False
    let ?st = "st\<lparr>flag_state := fs', traversal_states := insert ?r (traversal_states st)\<rparr>"
    have "state_ok (lc_alphabet c) out ?st" using st ap(2) by (simp add: state_ok_def)
    from take_transition_adds [OF rec pos this, of x "ot_input x" "ot_output x"] x(2) obtain st' where
      st': "take_transition c rec pos out (ot_input x) (ot_output x) x ?st = Inr st'"
        "adds out (exhaustive c n rank \<and> below rank (ot_target x) ?st)
          (after c d pos fs' (current_weight st) (take out (output_tape st)) x (ot_input x) (ot_output x)) ?st st'"
      by (auto simp: edge_ok_def)
    let ?st' = "st'\<lparr>traversal_states := traversal_states st' - {?r}, flag_state := flag_state st\<rparr>"
    have "flag_state st' = fs'" using st'(2) by (simp add: adds_def frame_def)
    then have "epsilon_step c rec pos out x st = Inr ?st'"
      using False go opn ap(1,3) st'(1) by (simp add: epsilon_step_def Let_def)
    moreover have "exact \<Longrightarrow> below rank (ot_target x) ?st" using exact False by (fastforce simp: below_def)
    then have "adds out exact (after_epsilon c d pos (flag_state st) (current_weight st) (take out (output_tape st)) x) st ?st'"
      using st'(2) exact go through by (auto simp: adds_def frame_def after_epsilon_def)
    ultimately show ?thesis by blast
  qed
qed

lemma try_epsilon_transitions_adds:
  assumes rec: "finds c n m rank d rec" and a: "alphabet_ok (lc_alphabet c)" and pos: "pos \<le> m"
  shows "state_ok (lc_alphabet c) out st \<Longrightarrow> \<exists>x \<in> set xs. \<not> epslike (lc_alphabet c) x \<Longrightarrow>
     \<forall>x \<in> set (takeWhile (epslike (lc_alphabet c)) xs). edge_ok (lc_alphabet c) n (lc_tables c) x \<and> (exact \<longrightarrow>
       (if ot_input x = 0 then rank (ot_target x) \<le> rank i else rank (ot_target x) < rank i)) \<Longrightarrow>
     (exact \<Longrightarrow> exhaustive c n rank \<and> below rank i st) \<Longrightarrow>
     \<exists>st'. try_epsilon_transitions c rec pos out xs st = Inr st' \<and> adds out exact
       (\<Union>x \<in> set (takeWhile (epslike (lc_alphabet c)) xs).
         after_epsilon c d pos (flag_state st) (current_weight st) (take out (output_tape st)) x) st st'"
proof (induction xs arbitrary: st)
  case (Cons x xs)
  let ?a = "lc_alphabet c"
  show ?case
  proof (cases "epslike ?a x")
    case False
    with Cons.prems(1) show ?thesis
      by (auto simp: try_epsilon_transitions_Cons state_ok_def simp del: try_epsilon_transitions.simps intro!: adds_nothing frame_refl)
  next
    case True
    have x: "edge_ok ?a n (lc_tables c) x" and exact: "exact \<Longrightarrow> exhaustive c n rank \<and> below rank i st \<and>
        (if ot_input x = 0 then rank (ot_target x) \<le> rank i else rank (ot_target x) < rank i)"
      using Cons.prems(3,4) True by auto
    obtain st1 where st1: "epsilon_step c rec pos out x st = Inr st1"
        "adds out exact (after_epsilon c d pos (flag_state st) (current_weight st) (take out (output_tape st)) x) st st1"
      using epsilon_step_adds [OF rec a pos Cons.prems(1) True x exact] by blast
    have f: "frame out st st1" by (rule adds_frame [OF st1(2)])
    have tail: "\<exists>x \<in> set xs. \<not> epslike ?a x" "\<forall>x \<in> set (takeWhile (epslike ?a) xs). edge_ok ?a n (lc_tables c) x \<and> (exact \<longrightarrow>
       (if ot_input x = 0 then rank (ot_target x) \<le> rank i else rank (ot_target x) < rank i))"
      using Cons.prems(2,3) True by auto
    have "exact \<Longrightarrow> exhaustive c n rank \<and> below rank i st1" using exact frame_below [OF f] by blast
    from Cons.IH [OF frame_state_ok [OF f Cons.prems(1)] tail this] obtain st2 where
      st2: "try_epsilon_transitions c rec pos out xs st1 = Inr st2"
        "adds out exact (\<Union>x \<in> set (takeWhile (epslike ?a) xs).
          after_epsilon c d pos (flag_state st1) (current_weight st1) (take out (output_tape st1)) x) st1 st2" by blast
    have "try_epsilon_transitions c rec pos out (x # xs) st = Inr st2"
      using True st1(1) st2(1) by (simp add: try_epsilon_transitions_Cons del: try_epsilon_transitions.simps)
    moreover have "adds out exact (\<Union>x \<in> set (takeWhile (epslike ?a) (x # xs)).
        after_epsilon c d pos (flag_state st) (current_weight st) (take out (output_tape st)) x) st st2"
      using adds_trans [OF st1(2) st2(2)] f True by (simp add: frame_def)
    ultimately show ?thesis by blast
  qed
qed simp

section \<open>The transitions of a state\<close>

lemma state_transitions_ok:
  assumes T: "tables_ok a n tabs" and i: "valid_index a n tabs i" and k: "k = 0 \<or> asked_for a n k" "k \<noteq> no_symbol_number"
  shows "\<forall>x \<in> set (state_transitions tabs i k). ot_input x \<noteq> no_symbol_number \<longrightarrow> edge_ok a n tabs x"
    and "target_table_start \<le> i \<Longrightarrow> \<exists>x \<in> set (state_transitions tabs i k). ot_input x = no_symbol_number"
    and "i < target_table_start \<Longrightarrow> \<exists>y. table_at (index_table tabs) (i + 1 + k) = Inr y \<and> state_transitions tabs i k =
      (if ti_input y = k then transitions_from tabs (minus_start (ti_first y)) else []) \<and>
      (ti_input y = k \<longrightarrow> (\<exists>x \<in> set (state_transitions tabs i k). ot_input x = no_symbol_number))"
proof -
  have edges: "\<forall>x \<in> set (transition_table tabs). ot_input x \<noteq> no_symbol_number \<longrightarrow> edge_ok a n tabs x"
    using T by (simp add: tables_ok_def)
  have index: "\<exists>y. table_at (index_table tabs) (i + 1 + k) = Inr y \<and> y \<in> set (index_table tabs)" if "i < target_table_start"
    using that T i k(1) unfolding valid_index_def tables_ok_def table_at_def by (auto simp: Let_def)
  have points: "ti_input y = k \<Longrightarrow> y \<in> set (index_table tabs) \<Longrightarrow> transitions_from tabs (minus_start (ti_first y)) \<noteq> []" for y
    using T k(2) by (simp add: tables_ok_def)
  show "\<forall>x \<in> set (state_transitions tabs i k). ot_input x \<noteq> no_symbol_number \<longrightarrow> edge_ok a n tabs x"
  proof (cases "target_table_start \<le> i")
    case True
    then show ?thesis using edges set_drop_subset by (auto simp: state_transitions_def transitions_from_def dest!: in_set_dropD)
  next
    case False
    with index edges show ?thesis
      by (auto simp: state_transitions_def indexed_def transitions_from_def dest!: in_set_dropD)
  qed
  show "\<exists>x \<in> set (state_transitions tabs i k). ot_input x = no_symbol_number" if high: "target_table_start \<le> i"
  proof -
    have "transitions_from tabs (i - target_table_start + 1) \<noteq> []"
      using high i T by (auto simp: valid_index_def transitions_from_def tables_ok_def)
    from transitions_from_suffix(2) [OF T this] show ?thesis using high by (simp add: state_transitions_def)
  qed
  show "\<exists>y. table_at (index_table tabs) (i + 1 + k) = Inr y \<and> state_transitions tabs i k =
      (if ti_input y = k then transitions_from tabs (minus_start (ti_first y)) else []) \<and>
      (ti_input y = k \<longrightarrow> (\<exists>x \<in> set (state_transitions tabs i k). ot_input x = no_symbol_number))" if low: "i < target_table_start"
  proof -
    from index [OF low] obtain y where y: "table_at (index_table tabs) (i + 1 + k) = Inr y" "y \<in> set (index_table tabs)" by blast
    then show ?thesis using low points [of y] transitions_from_suffix(2) [OF T] by (auto simp: state_transitions_def indexed_def)
  qed
qed

lemma state_epsilons_adds:
  assumes rec: "finds c n m rank d rec" and c: "lookup_ok c n m" and pos: "pos \<le> m" and st: "state_ok (lc_alphabet c) out st"
    and i: "valid_index (lc_alphabet c) n (lc_tables c) i"
  shows "\<exists>st'. (if target_table_start \<le> i
       then try_epsilon_transitions c rec pos out (transitions_from (lc_tables c) (i - target_table_start + 1)) st
       else try_epsilon_indices c rec pos out (i + 1) st) = Inr st' \<and>
     adds out (exhaustive c n rank \<and> below rank i st)
       (\<Union>x \<in> set (epsilons_at c i). after_epsilon c d pos (flag_state st) (current_weight st) (take out (output_tape st)) x) st st'"
proof -
  let ?a = "lc_alphabet c" and ?xs = "state_transitions (lc_tables c) i 0" and ?exact = "exhaustive c n rank \<and> below rank i st"
  have a: "alphabet_ok ?a" and T: "tables_ok ?a n (lc_tables c)" using c by (simp_all add: lookup_ok_def)
  have zero: "0 \<noteq> no_symbol_number" by (simp add: no_symbol_number_def)
  note facts = state_transitions_ok [OF T i disjI1 [OF refl] zero]
  have edges: "\<forall>x \<in> set (takeWhile (epslike ?a) ?xs). edge_ok ?a n (lc_tables c) x \<and> (?exact \<longrightarrow>
       (if ot_input x = 0 then rank (ot_target x) \<le> rank i else rank (ot_target x) < rank i))"
  proof
    fix x assume x: "x \<in> set (takeWhile (epslike ?a) ?xs)"
    then have "x \<in> set ?xs" "epslike ?a x" by (auto dest: set_takeWhileD)
    then show "edge_ok ?a n (lc_tables c) x \<and> (?exact \<longrightarrow>
       (if ot_input x = 0 then rank (ot_target x) \<le> rank i else rank (ot_target x) < rank i))"
      using facts(1) epslike_number [OF a] i x unfolding exhaustive_def flags_ranked_def epsilons_at_def by blast
  qed
  have loop: "\<exists>st'. try_epsilon_transitions c rec pos out ?xs st = Inr st' \<and> adds out ?exact
       (\<Union>x \<in> set (epsilons_at c i). after_epsilon c d pos (flag_state st) (current_weight st) (take out (output_tape st)) x) st st'"
    if "\<exists>x \<in> set ?xs. ot_input x = no_symbol_number"
  proof -
    have "\<exists>x \<in> set ?xs. \<not> epslike ?a x" using that epslike_number [OF a] by blast
    from try_epsilon_transitions_adds [OF rec a pos st this edges] show ?thesis unfolding epsilons_at_def by blast
  qed
  show ?thesis
  proof (cases "target_table_start \<le> i")
    case True
    with loop facts(2) show ?thesis by (simp add: state_transitions_def)
  next
    case False
    then have "i < target_table_start" by simp
    from facts(3) [OF this] obtain y where y: "table_at (index_table (lc_tables c)) (i + 1 + 0) = Inr y"
        "?xs = (if ti_input y = 0 then transitions_from (lc_tables c) (minus_start (ti_first y)) else [])"
        "ti_input y = 0 \<longrightarrow> (\<exists>x \<in> set ?xs. ot_input x = no_symbol_number)"
      by (elim exE conjE) (rule that)
    have out: "out \<le> length (output_tape st)" using st by (simp add: state_ok_def)
    show ?thesis
    proof (cases "ti_input y = 0")
      case is_zero: True
      then obtain st' where st': "try_epsilon_transitions c rec pos out ?xs st = Inr st'" "adds out ?exact
          (\<Union>x \<in> set (epsilons_at c i). after_epsilon c d pos (flag_state st) (current_weight st) (take out (output_tape st)) x) st st'"
        using loop y(3) by blast
      have "frame out st' (st'\<lparr>found_transition := True\<rparr>)" using st'(2) by (intro frame_found) (simp add: adds_def frame_def)
      from adds_post [OF st'(2) this] False is_zero y st'(1) show ?thesis by (auto simp: try_epsilon_indices_def)
    next
      case none: False
      with y have "epsilons_at c i = []" by (simp add: epsilons_at_def)
      with False none y out show ?thesis by (auto simp: try_epsilon_indices_def intro!: adds_nothing frame_refl)
    qed
  qed
qed

lemma state_symbols_adds:
  assumes rec: "finds c n m rank d rec" and c: "lookup_ok c n m" and pos: "pos < m" and st: "state_ok (lc_alphabet c) out st"
    and i: "valid_index (lc_alphabet c) n (lc_tables c) i" and k: "asked_for (lc_alphabet c) n k" "k \<noteq> no_symbol_number"
  shows "\<exists>st'. (if target_table_start \<le> i
       then find_transitions c rec k (Suc pos) out (transitions_from (lc_tables c) (i - target_table_start + 1)) st
       else find_index c rec k (Suc pos) out (i + 1) st) = Inr st' \<and>
     adds out (exhaustive c n rank)
       (\<Union>x \<in> set (symbols_at c i k). after c d (Suc pos) (flag_state st) (current_weight st) (take out (output_tape st)) x k (written c pos x)) st st'"
proof -
  let ?a = "lc_alphabet c" and ?xs = "state_transitions (lc_tables c) i k"
  have T: "tables_ok ?a n (lc_tables c)" using c by (simp add: lookup_ok_def)
  note facts = state_transitions_ok [OF T i disjI2 [OF k(1)] k(2)]
  have loop: "\<exists>st'. find_transitions c rec k (Suc pos) out ?xs st = Inr st' \<and> adds out (exhaustive c n rank)
       (\<Union>x \<in> set (symbols_at c i k). after c d (Suc pos) (flag_state st) (current_weight st) (take out (output_tape st)) x k (written c pos x)) st st'"
    if "\<exists>x \<in> set ?xs. ot_input x = no_symbol_number"
    using find_transitions_adds [OF rec c pos k(2) st that facts(1)] unfolding symbols_at_def by blast
  show ?thesis
  proof (cases "target_table_start \<le> i")
    case True
    with loop facts(2) show ?thesis by (simp add: state_transitions_def)
  next
    case False
    then have "i < target_table_start" by simp
    from facts(3) [OF this] obtain y where y: "table_at (index_table (lc_tables c)) (i + 1 + k) = Inr y"
        "?xs = (if ti_input y = k then transitions_from (lc_tables c) (minus_start (ti_first y)) else [])"
        "ti_input y = k \<longrightarrow> (\<exists>x \<in> set ?xs. ot_input x = no_symbol_number)"
      by blast
    have out: "out \<le> length (output_tape st)" using st by (simp add: state_ok_def)
    show ?thesis
    proof (cases "ti_input y = k")
      case same: True
      then obtain st' where st': "find_transitions c rec k (Suc pos) out ?xs st = Inr st'" "adds out (exhaustive c n rank)
          (\<Union>x \<in> set (symbols_at c i k). after c d (Suc pos) (flag_state st) (current_weight st) (take out (output_tape st)) x k (written c pos x)) st st'"
        using loop y(3) by blast
      have "frame out st' (st'\<lparr>found_transition := True\<rparr>)" using st'(2) by (intro frame_found) (simp add: adds_def frame_def)
      from adds_post [OF st'(2) this] False same y st'(1) show ?thesis by (auto simp: find_index_def)
    next
      case none: False
      with y have "symbols_at c i k = []" by (simp add: symbols_at_def)
      with False none y out show ?thesis by (auto simp: find_index_def intro!: adds_nothing frame_refl)
    qed
  qed
qed

section \<open>The whole search\<close>

lemma consume_adds:
  assumes s: "s \<noteq> no_symbol_number" and st: "state_ok (lc_alphabet c) out st"
    and seek: "\<And>k st. k \<in> set (readings (lc_alphabet c) s) \<Longrightarrow> state_ok (lc_alphabet c) out st \<Longrightarrow>
      \<exists>st'. seek k st = Inr st' \<and> adds out exact (B k (flag_state st) (current_weight st) (take out (output_tape st))) st st'"
    and exact: "exact \<Longrightarrow> default_symbol (lc_alphabet c) = no_symbol_number"
  shows "\<exists>st'. consume c seek s st = Inr st' \<and> adds out exact
     (\<Union>k \<in> set (readings (lc_alphabet c) s). B k (flag_state st) (current_weight st) (take out (output_tape st))) st st'"
proof -
  let ?a = "lc_alphabet c" and ?B = "\<lambda>k. B k (flag_state st) (current_weight st) (take out (output_tape st))"
  have attempt: "\<exists>st2. (if k \<noteq> no_symbol_number \<and> b then seek k st1 else Inr st1) = Inr st2 \<and>
      adds out exact (if k \<noteq> no_symbol_number then ?B k else {}) st1 st2"
    if st1: "frame out st st1" "k \<noteq> no_symbol_number \<Longrightarrow> k \<in> set (readings ?a s)" "exact \<Longrightarrow> k \<noteq> no_symbol_number \<Longrightarrow> b" for k b st1
  proof (cases "k \<noteq> no_symbol_number \<and> b")
    case True
    then obtain st2 where "seek k st1 = Inr st2"
        "adds out exact (B k (flag_state st1) (current_weight st1) (take out (output_tape st1))) st1 st2"
      using seek st1(2) frame_state_ok [OF st1(1) st] by blast
    then show ?thesis using True st1(1) by (simp add: frame_def)
  next
    case False
    then have "adds out exact (if k \<noteq> no_symbol_number then ?B k else {}) st1 st1"
      using st1(1,3) by (intro adds_nothing frame_refl) (auto simp: frame_def)
    with False show ?thesis by auto
  qed
  have f: "frame out st st" using st by (simp add: frame_refl state_ok_def)
  let ?first = "if s < orig_symbol_count ?a then seek s st
     else rbind (if identity_symbol ?a \<noteq> no_symbol_number then seek (identity_symbol ?a) st else Inr st) (\<lambda>st1.
        if unknown_symbol ?a \<noteq> no_symbol_number then seek (unknown_symbol ?a) st1 else Inr st1)"
  let ?ks = "filter (\<lambda>k. k \<noteq> no_symbol_number) (if s < orig_symbol_count ?a then [s] else [identity_symbol ?a, unknown_symbol ?a])"
  have "\<exists>st1. ?first = Inr st1 \<and> adds out exact (\<Union>k \<in> set ?ks. ?B k) st st1"
  proof (cases "s < orig_symbol_count ?a")
    case True
    then show ?thesis using attempt [OF f, of s True] s by (auto simp: readings_def)
  next
    case False
    then obtain st1 where st1: "(if identity_symbol ?a \<noteq> no_symbol_number then seek (identity_symbol ?a) st else Inr st) = Inr st1"
        "adds out exact (if identity_symbol ?a \<noteq> no_symbol_number then ?B (identity_symbol ?a) else {}) st st1"
      using attempt [OF f, of "identity_symbol ?a" True] by (auto simp: readings_def)
    have member: "unknown_symbol ?a \<noteq> no_symbol_number \<Longrightarrow> unknown_symbol ?a \<in> set (readings ?a s)"
      using False by (simp add: readings_def)
    obtain st2 where st2: "(if unknown_symbol ?a \<noteq> no_symbol_number then seek (unknown_symbol ?a) st1 else Inr st1) = Inr st2"
        "adds out exact (if unknown_symbol ?a \<noteq> no_symbol_number then ?B (unknown_symbol ?a) else {}) st1 st2"
      using attempt [OF adds_frame [OF st1(2)] member, of True] by auto
    have "?first = Inr st2" using False st1(1) st2(1) by simp
    moreover have "(\<Union>k \<in> set ?ks. ?B k) = (if identity_symbol ?a \<noteq> no_symbol_number then ?B (identity_symbol ?a) else {}) \<union>
        (if unknown_symbol ?a \<noteq> no_symbol_number then ?B (unknown_symbol ?a) else {})" using False by auto
    ultimately show ?thesis using adds_trans [OF st1(2) st2(2)] by auto
  qed
  then obtain st1 where st1: "?first = Inr st1" "adds out exact (\<Union>k \<in> set ?ks. ?B k) st st1" by blast
  from attempt [OF adds_frame [OF st1(2)], of "default_symbol ?a" "\<not> found_transition st1"] exact obtain st2 where
    st2: "(if default_symbol ?a \<noteq> no_symbol_number \<and> \<not> found_transition st1 then seek (default_symbol ?a) st1 else Inr st1) = Inr st2"
      "adds out exact (if default_symbol ?a \<noteq> no_symbol_number then ?B (default_symbol ?a) else {}) st1 st2"
    by (auto simp: readings_def)
  have "consume c seek s st = Inr st2" unfolding consume_def Let_def st1(1) using st2(1) by simp
  moreover have "(\<Union>k \<in> set (readings ?a s). ?B k) = (\<Union>k \<in> set ?ks. ?B k) \<union>
      (if default_symbol ?a \<noteq> no_symbol_number then ?B (default_symbol ?a) else {})" by (auto simp: readings_def)
  ultimately show ?thesis using adds_trans [OF st1(2) st2(2)] by auto
qed

lemma readings_asked_for:
  assumes "lookup_ok c n m" and "pos < m" and "k \<in> set (readings (lc_alphabet c) (lc_input c ! pos))"
  shows "asked_for (lc_alphabet c) n k" and "k \<noteq> no_symbol_number"
  using assms(3) lookup_ok_symbol [OF assms(1,2)] by (auto simp: readings_def asked_for_def input_number_def split: if_splits)

lemma get_analyses_step:
  assumes c: "lookup_ok c n m" and i: "valid_index (lc_alphabet c) n (lc_tables c) i" and pos: "pos \<le> m"
  shows "get_analyses c (Suc d) pos out i st =
     (let st0 = st\<lparr>found_transition := False\<rparr>; s = lc_input c ! pos; rec = get_analyses c d in
      if \<not> within_limit c st0 then Inr st0
      else rbind (note_final c s out (final_at c i \<noteq> None) (case final_at c i of None \<Rightarrow> 0 | Some w \<Rightarrow> w) st0) (\<lambda>st1.
        rbind (if target_table_start \<le> i
           then try_epsilon_transitions c rec pos out (transitions_from (lc_tables c) (i - target_table_start + 1)) st1
           else try_epsilon_indices c rec pos out (i + 1) st1) (\<lambda>st2.
          if s = no_symbol_number then Inr st2
          else rmap (write_output out no_symbol_number no_symbol_number)
            (consume c (\<lambda>k. if target_table_start \<le> i
               then find_transitions c rec k (Suc pos) out (transitions_from (lc_tables c) (i - target_table_start + 1))
               else find_index c rec k (Suc pos) out (i + 1)) s st2))))"
proof -
  have read: "vec_read (lc_input c) pos = Inr (lc_input c ! pos)" by (rule lookup_ok_read [OF c pos])
  have T: "tables_ok (lc_alphabet c) n (lc_tables c)" using c by (simp add: lookup_ok_def)
  let ?w = "case final_at c i of None \<Rightarrow> 0 | Some w \<Rightarrow> w"
  show ?thesis
  proof (cases "target_table_start \<le> i")
    case True
    let ?x = "transition_table (lc_tables c) ! (i - target_table_start)"
    have entry: "table_at (transition_table (lc_tables c)) (i - target_table_start) = Inr ?x"
      using True T i by (auto simp: valid_index_def tables_ok_def table_at_def Let_def)
    have noted: "note_final c s out (transition_final ?x) (get_weight (lc_wval c) (lc_tables c) ?x) st0 =
        note_final c s out (final_at c i \<noteq> None) ?w st0" for s and st0 :: "'a lookup_state"
      using True by (cases "transition_final ?x") (simp_all add: final_at_def Let_def note_final_def)
    show ?thesis using True read entry by (simp add: Let_def noted cong: if_cong)
  next
    case False
    let ?x = "index_table (lc_tables c) ! i" and ?y = "\<lparr>ti_input = 0, ti_first = 0\<rparr>"
    have entry: "table_at (index_table (lc_tables c)) i = Inr ?x"
      using False T i by (auto simp: valid_index_def tables_ok_def table_at_def Let_def)
    have noted: "note_final c no_symbol_number out (index_final ?x) (index_final_weight (lc_wval c) (lc_tables c) ?x) st0 =
        note_final c no_symbol_number out (final_at c i \<noteq> None) ?w st0" for st0 :: "'a lookup_state"
      using False by (cases "index_final ?x") (simp_all add: final_at_def Let_def note_final_def)
    show ?thesis
    proof (cases "lc_input c ! pos = no_symbol_number")
      case stop: True
      then show ?thesis using False read entry by (simp add: Let_def noted cong: if_cong)
    next
      case go: False
      then have skip: "note_final c (lc_input c ! pos) out b w st0 = Inr st0" for b w and st0 :: "'a lookup_state"
        by (simp add: note_final_def)
      show ?thesis using False go read by (simp add: Let_def skip cong: if_cong)
    qed
  qed
qed

theorem get_analyses_adds: "lookup_ok c n m \<Longrightarrow> finds c n m rank d (get_analyses c d)"
proof (induction d)
  case 0
  show ?case unfolding finds_def by (auto simp: state_ok_def intro!: adds_nothing frame_found)
next
  case (Suc d)
  then have c: "lookup_ok c n m" and rec: "finds c n m rank d (get_analyses c d)" by simp_all
  let ?a = "lc_alphabet c" and ?T = "lc_tables c" and ?rec = "get_analyses c d"
  have a: "alphabet_ok ?a" using c by (simp add: lookup_ok_def)
  show ?case
    unfolding finds_def
  proof (intro allI impI)
    fix i pos out and st :: "'a lookup_state"
    assume i: "valid_index ?a n ?T i" and pos: "pos \<le> m" and st: "state_ok ?a out st"
    let ?exact = "exhaustive c n rank \<and> below rank i st" and ?s = "lc_input c ! pos"
    let ?fs = "flag_state st" and ?cw = "current_weight st" and ?pre = "take out (output_tape st)"
    let ?st0 = "st\<lparr>found_transition := False\<rparr>"
    have out: "out \<le> length (output_tape st)" using st by (simp add: state_ok_def)
    have f0: "frame out st ?st0" by (rule frame_found [OF out])
    note step = get_analyses_step [OF c i pos, of d out st]
    show "\<exists>st'. get_analyses c (Suc d) pos out i st = Inr st' \<and>
        adds out ?exact (run_results c (Suc d) i pos ?fs ?cw ?pre) st st'"
    proof (cases "within_limit c ?st0")
      case False
      then have "get_analyses c (Suc d) pos out i st = Inr ?st0" unfolding step Let_def by (rule if_P)
      moreover have "\<not> ?exact" using False by (auto simp: exhaustive_def within_limit_def)
      ultimately show ?thesis using f0 by (auto intro!: adds_nothing)
    next
      case True
      let ?w = "case final_at c i of None \<Rightarrow> 0 | Some w \<Rightarrow> w" and ?seek = "\<lambda>k. if target_table_start \<le> i
               then find_transitions c ?rec k (Suc pos) out (transitions_from ?T (i - target_table_start + 1))
               else find_index c ?rec k (Suc pos) out (i + 1)"
      have unlimited: "?exact \<Longrightarrow> lc_max_lookups c < 0" by (simp add: exhaustive_def)
      have same: "current_weight ?st0 = ?cw" "output_tape ?st0 = output_tape st" by simp_all
      have "\<exists>st1. note_final c ?s out (final_at c i \<noteq> None) ?w ?st0 = Inr st1 \<and> adds out ?exact
          (if ?s = no_symbol_number \<and> final_at c i \<noteq> None then {(?cw + ?w, tape_strings ?a ?pre)} else {}) ?st0 st1"
        using note_final_adds [OF a frame_state_ok [OF f0 st] unlimited, where symbol = ?s and is_final = "final_at c i \<noteq> None" and w = ?w]
        unfolding same by blast
      then obtain st1 where
        st1: "note_final c ?s out (final_at c i \<noteq> None) ?w ?st0 = Inr st1"
          "adds out ?exact (if ?s = no_symbol_number \<and> final_at c i \<noteq> None then {(?cw + ?w, tape_strings ?a ?pre)} else {}) ?st0 st1"
        by blast
      have "(if ?s = no_symbol_number \<and> final_at c i \<noteq> None then {(?cw + ?w, tape_strings ?a ?pre)} else {}) = final_results c i pos ?cw ?pre"
        by (auto simp: final_results_def split: option.splits)
      then have A1: "adds out ?exact (final_results c i pos ?cw ?pre) st st1" using adds_pre [OF f0 _ st1(2)] by simp
      have f1: "frame out st st1" by (rule adds_frame [OF A1])
      from state_epsilons_adds [OF rec c pos frame_state_ok [OF f1 st] i] obtain st2 where
        st2: "(if target_table_start \<le> i then try_epsilon_transitions c ?rec pos out (transitions_from ?T (i - target_table_start + 1)) st1
            else try_epsilon_indices c ?rec pos out (i + 1) st1) = Inr st2"
          "adds out (exhaustive c n rank \<and> below rank i st1)
             (\<Union>x \<in> set (epsilons_at c i). after_epsilon c d pos (flag_state st1) (current_weight st1) (take out (output_tape st1)) x) st1 st2"
        by blast
      have "?exact \<Longrightarrow> exhaustive c n rank \<and> below rank i st1" using frame_below [OF f1] by blast
      from adds_trans [OF A1 adds_weaken [OF st2(2) this]]
      have A2: "adds out ?exact (final_results c i pos ?cw ?pre \<union> (\<Union>x \<in> set (epsilons_at c i). after_epsilon c d pos ?fs ?cw ?pre x)) st st2"
        using f1 by (simp add: frame_def)
      have f2: "frame out st st2" by (rule adds_frame [OF A2])
      show ?thesis
      proof (cases "?s = no_symbol_number")
        case stop: True
        then have "get_analyses c (Suc d) pos out i st = Inr st2"
          using True st1(1) st2(1) unfolding step Let_def by simp
        then show ?thesis using A2 stop by (simp add: run_results_Suc)
      next
        case more: False
        then have less: "pos < m" using pos c by (cases "pos = m") (auto simp: lookup_ok_def input_to_def)
        have seek: "\<exists>st'. ?seek k u = Inr st' \<and> adds out ?exact ((\<lambda>k fs cw pre. \<Union>x \<in> set (symbols_at c i k).
            after c d (Suc pos) fs cw pre x k (written c pos x)) k (flag_state u) (current_weight u) (take out (output_tape u))) u st'"
          if "k \<in> set (readings ?a ?s)" "state_ok ?a out u" for k u
        proof -
          from state_symbols_adds [OF rec c less that(2) i readings_asked_for [OF c less that(1)]] obtain st' where
            st': "(if target_table_start \<le> i
                then find_transitions c ?rec k (Suc pos) out (transitions_from ?T (i - target_table_start + 1)) u
                else find_index c ?rec k (Suc pos) out (i + 1) u) = Inr st'"
              "adds out (exhaustive c n rank) (\<Union>x \<in> set (symbols_at c i k).
                after c d (Suc pos) (flag_state u) (current_weight u) (take out (output_tape u)) x k (written c pos x)) u st'" by blast
          have "?seek k u = Inr st'" using st'(1) by (simp split: if_splits)
          with adds_weaken [OF st'(2), of ?exact] show ?thesis by blast
        qed
        have "?exact \<Longrightarrow> default_symbol ?a = no_symbol_number" by (simp add: exhaustive_def)
        from consume_adds [where seek = ?seek and exact = ?exact and B = "\<lambda>k fs cw pre. \<Union>x \<in> set (symbols_at c i k).
            after c d (Suc pos) fs cw pre x k (written c pos x)", OF more frame_state_ok [OF f2 st] seek this] obtain st3 where
          st3: "consume c ?seek ?s st2 = Inr st3" "adds out ?exact (\<Union>k \<in> set (readings ?a ?s). \<Union>x \<in> set (symbols_at c i k).
            after c d (Suc pos) (flag_state st2) (current_weight st2) (take out (output_tape st2)) x k (written c pos x)) st2 st3"
          by blast
        let ?st3 = "write_output out no_symbol_number no_symbol_number st3"
        have "get_analyses c (Suc d) pos out i st = Inr ?st3"
          using True more st1(1) st2(1) st3(1) unfolding step Let_def by simp
        moreover have "frame out st3 ?st3" using st3(2) by (intro frame_write) (simp add: adds_def frame_def)
        then have "adds out ?exact (run_results c (Suc d) i pos ?fs ?cw ?pre) st ?st3"
          using adds_post [OF adds_trans [OF A2 st3(2)]] f2 more by (simp add: run_results_Suc frame_def)
        ultimately show ?thesis by blast
      qed
    qed
  qed
qed

end
