(* ===== verification/OlResults.thy ===== *)
theory OlResults
  imports OlAnalyses
begin

text \<open>
  \<open>Transducer::lookup_fd_pairs\<close> from end to end: tokenization of the input (\<open>OlEncoder\<close>), then the
  search (\<open>OlAnalyses\<close>). Shown: on a well-formed transducer every lookup returns, leaves the
  transducer well-formed and finds only accepting runs, not more than its limit; without limit,
  default symbol and cycles through flag diacritics it finds every run of fewer than 5000 transitions.
\<close>

section \<open>The number of results\<close>

definition keeps :: "(('w \<times> string_pair list) set \<Rightarrow> bool) \<Rightarrow> ('w lookup_state \<Rightarrow> 'w lookup_state result) \<Rightarrow> bool" where
  "keeps P f \<longleftrightarrow> (\<forall>st st'. f st = Inr st' \<longrightarrow> P (lookup_paths st) \<longrightarrow> P (lookup_paths st'))"

lemma keepsD: "keeps P f \<Longrightarrow> f st = Inr st' \<Longrightarrow> P (lookup_paths st) \<longrightarrow> P (lookup_paths st')"
  unfolding keeps_def by blast

lemma take_transition_keeps:
  assumes rec: "\<And>pos out i. keeps P (rec pos out i)"
  shows "keeps P (take_transition c rec pos out k k' x)"
  unfolding keeps_def [of P "take_transition c rec pos out k k' x"]
  by (auto simp: take_transition_def Let_def result_simps dest!: keepsD [OF rec])

lemma try_epsilon_transitions_keeps:
  assumes rec: "\<And>pos out i. keeps P (rec pos out i)"
  shows "keeps P (try_epsilon_transitions c rec pos out xs)"
proof -
  have "try_epsilon_transitions c rec pos out xs st = Inr st' \<Longrightarrow> P (lookup_paths st) \<Longrightarrow> P (lookup_paths st')" for st st'
  proof (induction xs arbitrary: st)
    case (Cons x xs)
    have "P (lookup_paths st1)" if "epsilon_step c rec pos out x st = Inr st1" for st1
      using that Cons.prems(2)
      by (auto simp: epsilon_step_def Let_def result_simps split: if_splits option.splits prod.splits
          dest!: keepsD [OF take_transition_keeps [OF rec]])
    with Cons show ?case
      by (auto simp: try_epsilon_transitions_Cons result_simps simp del: try_epsilon_transitions.simps split: if_splits)
  qed simp
  then show ?thesis unfolding keeps_def by blast
qed

lemma find_transitions_keeps:
  assumes rec: "\<And>pos out i. keeps P (rec pos out i)"
  shows "keeps P (find_transitions c rec k pos out xs)"
proof -
  have "find_transitions c rec k pos out xs st = Inr st' \<Longrightarrow> P (lookup_paths st) \<Longrightarrow> P (lookup_paths st')" for st st'
  proof (induction xs arbitrary: st)
    case (Cons x xs)
    then show ?case
      by (auto simp: result_simps split: if_splits dest!: keepsD [OF take_transition_keeps [OF rec]])
  qed simp
  then show ?thesis unfolding keeps_def by blast
qed

lemma consume_keeps:
  assumes "\<And>k. keeps P (seek k)"
  shows "keeps P (consume c seek s)"
  unfolding keeps_def [of P "consume c seek s"] consume_def Let_def
  by (auto simp: result_simps split: if_splits dest!: keepsD [OF assms])

lemma note_final_keeps:
  assumes "\<And>r S. P S \<Longrightarrow> lc_max_lookups c < 0 \<or> int (card S) < lc_max_lookups c \<Longrightarrow> P (insert r S)"
  shows "keeps P (note_final c s out b w)"
  using assms unfolding keeps_def note_final_def within_limit_def
  by (auto simp: Let_def note_analysis_def result_simps)

lemma get_analyses_keeps:
  assumes P: "\<And>r S. P S \<Longrightarrow> lc_max_lookups c < 0 \<or> int (card S) < lc_max_lookups c \<Longrightarrow> P (insert r S)"
  shows "keeps P (get_analyses c d pos out i)"
proof (induction d arbitrary: pos out i)
  case 0
  show ?case by (simp add: keeps_def)
next
  case (Suc d)
  note eps = keepsD [OF try_epsilon_transitions_keeps [OF Suc.IH]] and trans = find_transitions_keeps [OF Suc.IH]

  have "keeps P (note_final c s out b w)" for s out b w by (rule note_final_keeps) (rule P)
  note final = keepsD [OF this]
  have indices: "keeps P (try_epsilon_indices c (get_analyses c d) pos out i)" for i
    unfolding keeps_def by (auto simp: try_epsilon_indices_def result_simps split: if_splits dest!: eps)
  have index: "keeps P (find_index c (get_analyses c d) k pos out i)" for k pos i
    unfolding keeps_def by (auto simp: find_index_def result_simps split: if_splits dest!: keepsD [OF trans])
  show ?case
    unfolding keeps_def [of P "get_analyses c (Suc d) pos out i"]
  proof (intro allI impI)
    fix st st' assume run: "get_analyses c (Suc d) pos out i st = Inr st'" and p: "P (lookup_paths st)"
    then have p0: "P (lookup_paths (st\<lparr>found_transition := False\<rparr>))" by simp
    show "P (lookup_paths st')"
      using run p0
      by (auto simp: Let_def result_simps split: if_splits
          dest!: final eps keepsD [OF indices] keepsD [OF consume_keeps [OF trans]] keepsD [OF consume_keeps [OF index]])
  qed
qed

section \<open>A lookup\<close>

definition machine_ok :: "nat \<Rightarrow> ('w::zero) ol_machine \<Rightarrow> bool" where
  "machine_ok n M \<longleftrightarrow> alphabet_ok (ol_alpha M) \<and> tables_ok (ol_alpha M) n (tables M) \<and>
     valid_index (ol_alpha M) n (tables M) 0 \<and> input_ok (ol_alpha M, ol_encoder M) \<and>
     number_of_input_symbols (ol_encoder M) = n \<and>
     flag_state (lookup_st M) = new_fd_state (ol_fd_table (ol_alpha M)) \<and> current_weight (lookup_st M) = 0"

text \<open>What the lookup of the input tape may find.\<close>

definition machine_results :: "(nat \<Rightarrow> 'w::monoid_add) \<Rightarrow> int \<Rightarrow> 'w ol_machine \<Rightarrow> ('w \<times> string_pair list) set" where
  "machine_results wval limit M = {(w, tape_strings (ol_alpha M) tape) | w tape.
     \<exists>n < max_recursion_depth. ol_run (machine_context wval limit M) n 0 0 (new_fd_state (ol_fd_table (ol_alpha M))) w tape}"

text \<open>The tape holds the numbers of the pieces of the input, and an end marker. A piece that is no input symbol of the
  transducer gets a number behind those of its own symbols.\<close>

definition reads_input :: "string \<Rightarrow> 'w ol_machine \<Rightarrow> 'w ol_machine \<Rightarrow> bool" where
  "reads_input s M M' \<longleftrightarrow> (\<exists>ts ks new. concat ts = s \<and> munch (encoder_word (ol_encoder M)) ts \<and>
     take (Suc (length ts)) (input_tape M') = ks @ [no_symbol_number] \<and> stands_for_pieces (ol_alpha M') ts ks \<and>
     list_all (input_number (ol_alpha M) (number_of_input_symbols (ol_encoder M))) ks \<and>
     symbol_table (ol_alpha M') = symbol_table (ol_alpha M) @ new \<and> (\<forall>w \<in> set new. \<not> encoder_word (ol_encoder M) w))"

lemma grown_alphabet:
  fixes a :: ol_alphabet and new :: "string list"
  defines "a' \<equiv> a\<lparr>symbol_table := symbol_table a @ new\<rparr>"
  shows "asked_for a' = asked_for a" and "valid_index a' = valid_index a"
    and "length (symbol_table a') \<le> 65535 \<Longrightarrow> alphabet_ok a \<Longrightarrow> alphabet_ok a'"
    and "tables_ok a n tabs \<Longrightarrow> tables_ok a' n tabs"
proof -
  show asked: "asked_for a' = asked_for a" by (simp add: fun_eq_iff asked_for_def a'_def)
  then show valid: "valid_index a' = valid_index a" by (simp add: fun_eq_iff valid_index_def)
  show "length (symbol_table a') \<le> 65535 \<Longrightarrow> alphabet_ok a \<Longrightarrow> alphabet_ok a'"
    by (fastforce simp: alphabet_ok_def a'_def)
  have "edge_ok a n tabs x \<Longrightarrow> edge_ok a' n tabs x" for x
    using valid by (simp add: edge_ok_def a'_def)
  then show "tables_ok a n tabs \<Longrightarrow> tables_ok a' n tabs" unfolding tables_ok_def by blast
qed

lemma flags_ok_new: "flags_ok a (new_fd_state (ol_fd_table a))"
  by (simp add: flags_ok_def new_fd_state_def)

lemma lookup_fd_pairs_run:
  fixes M :: "('w::monoid_add) ol_machine"
  assumes M: "machine_ok n M" and s: "utf8_ok s" "CHR 0x00 \<notin> set s" "length (symbol_table (ol_alpha M)) + length s < 65535"
  shows "\<exists>paths M'. lookup_fd_pairs wval s limit M = Inr (paths, M') \<and> machine_ok n M' \<and> reads_input s M M' \<and>
     tables M' = tables M \<and> (\<exists>new. ol_alpha M' = (ol_alpha M)\<lparr>symbol_table := symbol_table (ol_alpha M) @ new\<rparr>) \<and> paths \<subseteq> machine_results wval limit M' \<and>
     (\<forall>rank. exhaustive (machine_context wval limit M') n rank \<longrightarrow> machine_results wval limit M' \<subseteq> paths) \<and>
     finite paths \<and> (0 \<le> limit \<longrightarrow> int (card paths) \<le> limit)"
proof -
  let ?a = "ol_alpha M" and ?e = "ol_encoder M"
  have ok: "alphabet_ok ?a" "tables_ok ?a n (tables M)" "valid_index ?a n (tables M) 0" "input_ok (?a, ?e)"
    "number_of_input_symbols ?e = n" "flag_state (lookup_st M) = new_fd_state (ol_fd_table ?a)"
    "current_weight (lookup_st M) = 0" using M by (simp_all add: machine_ok_def)
  have W: "utf8_ok w" if "encoder_word ?e w" for w using ok(4) that by (simp add: input_ok_def)
  have "encoder_word ?e = (\<lambda>w. encoder_word ?e w \<or> w \<in> {})" by simp
  from input_loop_munch [where W = "encoder_word ?e", OF W ok(4) s(1,2) less_imp_le [OF s(3)] this, of 0 "input_tape M"]
  obtain ts ks tape a' e' new where
    init: "input_loop s 0 (input_tape M) (?a, ?e) = Inr (True, tape, a', e')" and ts: "concat ts = s" "munch (encoder_word ?e) ts"
      "take (Suc (length ts)) tape = ks @ [no_symbol_number]" "stands_for_pieces a' ts ks" and
    grown: "input_ok (a', e')" "a' = ?a\<lparr>symbol_table := symbol_table ?a @ new\<rparr>" "number_of_input_symbols e' = n"
      "list_all (input_number ?a n) ks" "length new \<le> length s" "\<forall>w \<in> set new. \<not> encoder_word ?e w" unfolding ok(5) by auto
  let ?M = "M\<lparr>input_tape := tape, ol_alpha := a', ol_encoder := e'\<rparr>" and ?c = "machine_context wval limit"
  let ?st = "(lookup_st M)\<lparr>lookup_paths := {}, traversal_states := {}\<rparr>"
  have "length (symbol_table a') \<le> 65535" using s(3) grown(2,5) by simp
  with ok grown(2) have a': "alphabet_ok a'" "tables_ok a' n (tables M)" "valid_index a' n (tables M) 0"
    using grown_alphabet [where a = ?a and new = new] by auto
  have fd: "ol_fd_table a' = ol_fd_table ?a" by (simp add: grown(2))
  have len: "length ks = length ts" using ts(4) by (simp add: stands_for_pieces_def list_all2_lengthD)
  have "length (take (Suc (length ts)) tape) = Suc (length ts)" using ts(3) len by simp
  then have long: "length ts < length tape" by simp
  have at: "tape ! j = (ks @ [no_symbol_number]) ! j" if "j \<le> length ts" for j
    using that ts(3) by (metis le_imp_less_Suc nth_take)
  have "input_to a' n tape (length ts)"
    using long at ts(4) grown(2,4) len
    by (auto simp: input_to_def stands_for_pieces_def list_all2_conv_all_nth list_all_length nth_append)
  then have c: "lookup_ok (?c ?M) n (length ts)" using a' by (simp add: lookup_ok_def machine_context_def)
  have "state_ok a' 0 ?st" using flags_ok_new [of a'] ok(6) fd by (simp add: state_ok_def tape_ok_def)
  then have "state_ok (lc_alphabet (?c ?M)) 0 ?st" "valid_index (lc_alphabet (?c ?M)) n (lc_tables (?c ?M)) 0"
    using a'(3) by (simp_all add: machine_context_def)
  from findsD [OF get_analyses_adds [OF c] this(2) le0 this(1)] have
    found: "\<exists>st'. get_analyses (?c ?M) max_recursion_depth 0 0 0 ?st = Inr st' \<and>
      adds 0 (exhaustive (?c ?M) n rank \<and> below rank 0 ?st)
        (run_results (?c ?M) max_recursion_depth 0 0 (flag_state ?st) (current_weight ?st) (take 0 (output_tape ?st))) ?st st'" for rank
    by blast
  then obtain st' where st': "get_analyses (?c ?M) max_recursion_depth 0 0 0 ?st = Inr st'" by blast
  let ?M' = "?M\<lparr>lookup_st := st'\<lparr>lookup_paths := {}\<rparr>\<rparr>"
  have same: "?c ?M' = ?c ?M" by (simp add: machine_context_def)
  have "run_results (?c ?M) max_recursion_depth 0 0 (flag_state ?st) (current_weight ?st) (take 0 (output_tape ?st)) =
      machine_results wval limit ?M'"
    by (simp add: machine_results_def run_results_def same ok(6,7) fd) (simp add: machine_context_def)
  with found st' have adds: "adds 0 (exhaustive (?c ?M') n rank) (machine_results wval limit ?M') ?st st'" for rank
    unfolding same by (fastforce simp: below_def)
  then have frame: "frame 0 ?st st'" by (rule adds_frame)
  have "keeps (\<lambda>S. finite S \<and> (0 \<le> limit \<longrightarrow> int (card S) \<le> limit)) (get_analyses (?c ?M) max_recursion_depth 0 0 0)"
    by (rule get_analyses_keeps) (auto simp: machine_context_def card_insert_if)
  from keepsD [OF this st'] have few: "finite (lookup_paths st') \<and> (0 \<le> limit \<longrightarrow> int (card (lookup_paths st')) \<le> limit)" by simp
  have "lookup_fd_pairs wval s limit M = Inr (lookup_paths st', ?M')"
    using init st' c_str_id [OF s(2)] by (simp add: lookup_fd_pairs_def initialize_input_def Let_def)
  moreover have "machine_ok n ?M'"
    using a' grown(1,3) frame ok(6,7) fd by (simp add: machine_ok_def frame_def)
  moreover have "reads_input s M ?M'" using ts grown(2,4,6) ok(5) unfolding reads_input_def by fastforce
  moreover have "lookup_paths st' \<subseteq> machine_results wval limit ?M'" using adds by (simp add: adds_def)
  moreover have "\<forall>rank. exhaustive (?c ?M') n rank \<longrightarrow> machine_results wval limit ?M' \<subseteq> lookup_paths st'"
    using adds unfolding adds_def by blast
  moreover have "tables ?M' = tables M" "\<exists>new. ol_alpha ?M' = ?a\<lparr>symbol_table := symbol_table ?a @ new\<rparr>" using grown(2) by auto
  ultimately show ?thesis using few by blast
qed

section \<open>Transducers that have just been constructed\<close>

definition numbered_up_to :: "nat \<Rightarrow> ol_alphabet \<Rightarrow> bool" where
  "numbered_up_to k a \<longleftrightarrow> fd_table_ok (ol_fd_table a) \<and> card (dom (feature_map (ol_fd_table a))) \<le> k \<and>
     card (dom (value_map (ol_fd_table a))) \<le> Suc k \<and> (\<forall>j opn. operations (ol_fd_table a) j = Some opn \<longrightarrow> 0 < j \<and> j < k)"

lemma classify_symbol_numbered:
  assumes "numbered_up_to k a" and "classify_symbol (k, s) a = Inr b" and "k < 32766" and "k = 0 \<Longrightarrow> \<not> is_diacritic s"
  shows "numbered_up_to (Suc k) b"
proof (cases "is_diacritic s")
  case False
  then have "ol_fd_table b = ol_fd_table a" using assms(2) by (auto simp: classify_symbol_def split: if_splits)
  with assms(1) show ?thesis by (auto simp: numbered_up_to_def less_Suc_eq)
next
  case True
  then have k: "0 < k" using assms(4) by (cases k) auto
  let ?t = "ol_fd_table a" and ?t' = "ol_fd_table b"
  from True assms(2) have d: "define_diacritic k s ?t = Inr ?t'" by (auto simp: classify_symbol_def result_simps)
  have ok: "fd_table_ok ?t" "card (dom (feature_map ?t)) \<le> k" "card (dom (value_map ?t)) \<le> Suc k"
    "\<And>j opn. operations ?t j = Some opn \<Longrightarrow> 0 < j \<and> j < k" using assms(1) by (auto simp: numbered_up_to_def)
  have fin: "finite (dom (feature_map ?t))" "finite (dom (value_map ?t))"
    using ok(1) feature_ids.numbering_ok_finite value_ids.numbering_ok_finite by (auto simp: fd_table_ok_def)
  have "fd_table_ok ?t'" using define_diacritic_ok [OF ok(1) d] ok(2,3) assms(3) by simp
  moreover from d have "card (dom (feature_map ?t')) \<le> Suc k \<and> card (dom (value_map ?t')) \<le> Suc (Suc k) \<and>
      (\<forall>j opn. operations ?t' j = Some opn \<longrightarrow> 0 < j \<and> j < Suc k)"
  proof (rule define_diacritic_cases)
    fix opr f v
    assume "?t' = ?t\<lparr>feature_map := alloc id f (feature_map ?t), value_map := alloc next_value v (value_map ?t),
        operations := (operations ?t)(k \<mapsto> \<lparr>op_operator = opr, op_feature = the (alloc id f (feature_map ?t) f),
          op_value = the (alloc next_value v (value_map ?t) v), op_name = s\<rparr>), symbol_map := (symbol_map ?t)(s \<mapsto> k)\<rparr>"
    then show ?thesis using ok(2,3,4) k fin by (force simp: card_alloc less_Suc_eq split: if_splits simp del: dom_alloc)
  qed
  ultimately show ?thesis by (simp add: numbered_up_to_def)
qed

lemma classify_symbols_numbered:
  "numbered_up_to k a \<Longrightarrow> rfold classify_symbol (enumerate k st) a = Inr b \<Longrightarrow> k + length st \<le> 32766 \<Longrightarrow>
   (k = 0 \<longrightarrow> st \<noteq> [] \<longrightarrow> \<not> is_diacritic (hd st)) \<Longrightarrow> numbered_up_to (k + length st) b"
proof (induction st arbitrary: k a)
  case (Cons s st)
  then obtain a1 where a1: "classify_symbol (k, s) a = Inr a1" "rfold classify_symbol (enumerate (Suc k) st) a1 = Inr b"
    by (auto simp: result_simps)
  have "numbered_up_to (Suc k) a1" by (rule classify_symbol_numbered [OF Cons.prems(1) a1(1)]) (use Cons.prems(3,4) in auto)
  from Cons.IH [OF this a1(2)] Cons.prems(3) show ?case by simp
qed simp

lemma ol_alphabet_new_ok:
  assumes new: "ol_alphabet_new st = Inr a" and "length st \<le> 32766" and "st \<noteq> []" and "\<not> is_diacritic (hd st)"
  shows "alphabet_ok a" and "orig_symbol_count a = length st" and "symbol_table a = st"
proof -
  have "numbered_up_to 0 (a\<lparr>ol_fd_table := empty_fd_table\<rparr>)" for a
    by (simp add: numbered_up_to_def fd_table_ok_empty) (simp add: empty_fd_table_def)
  from this [of "\<lparr>symbol_table = st, ol_fd_table = empty_fd_table, unknown_symbol = no_symbol_number,
      default_symbol = no_symbol_number, identity_symbol = no_symbol_number, orig_symbol_count = to_symbol_number (length st)\<rparr>"]
    classify_symbols_numbered [where k = 0 and st = st and b = a] new assms(2,3,4)
  have num: "numbered_up_to (length st) a" by (auto simp: ol_alphabet_new_def split: if_splits)
  have "rfold classify_symbol (enumerate k xs) c = Inr a \<Longrightarrow> symbol_table a = symbol_table c \<and> orig_symbol_count a = orig_symbol_count c" for k xs c
    by (induction xs arbitrary: k c) (auto simp: result_simps dest: classify_symbol_keeps)
  with new assms(2) show table: "symbol_table a = st" and orig: "orig_symbol_count a = length st"
    by (fastforce simp: ol_alphabet_new_def to_symbol_number_def split: if_splits)+
  have "op_feature opn < num_features (ol_fd_table a)" if "operations (ol_fd_table a) k = Some opn" for k opn
  proof -
    have ok: "fd_table_ok (ol_fd_table a)" "card (dom (feature_map (ol_fd_table a))) < 65536"
      using num assms(2) by (auto simp: numbered_up_to_def)
    with that obtain f where "feature_map (ol_fd_table a) f = Some (op_feature opn)"
      by (fastforce simp: fd_table_ok_def encodes_def)
    with feature_id_less [OF ok(1)] ok(2) show ?thesis by (simp add: num_features_def)
  qed
  then show "alphabet_ok a" using num table orig assms(2) by (auto simp: alphabet_ok_def numbered_up_to_def)
qed

lemma new_machine_ok:
  assumes new: "ol_alphabet_new (symbol_table (ol_alpha t)) = Inr (ol_alpha t)" "new_encoder (symbol_table (ol_alpha t)) n = Inr (ol_encoder t)"
    and st: "length (symbol_table (ol_alpha t)) \<le> 32766" "symbol_table (ol_alpha t) \<noteq> []" "\<not> is_diacritic (hd (symbol_table (ol_alpha t)))"
      "\<forall>s \<in> set (symbol_table (ol_alpha t)). s \<noteq> [] \<and> CHR 0x00 \<notin> set s \<and> utf8_ok s" "n \<le> length (symbol_table (ol_alpha t))"
    and tabs: "tables_ok (ol_alpha t) n (tables t)" "valid_index (ol_alpha t) n (tables t) 0"
  shows "machine_ok n (new_machine t)"
proof -
  note a = ol_alphabet_new_ok [OF new(1) st(1,2,3)]
  have "input_ok (ol_alpha t, ol_encoder t) \<and> number_of_input_symbols (ol_encoder t) = n"
    using new_encoder_ok [of "ol_alpha t" n] a(2) st(1,4,5) new(2) by auto
  with a(1) tabs show ?thesis by (simp add: machine_ok_def new_machine_def ol_transducer.defs)
qed

section \<open>Properties\<close>

lemma flags_ranked_grown:
  assumes "flags_ranked (machine_context wval limit M) n rank" and "tables M' = tables M"
    and "ol_alpha M' = (ol_alpha M)\<lparr>symbol_table := symbol_table (ol_alpha M) @ new\<rparr>"
  shows "flags_ranked (machine_context wval limit M') n rank"
proof -
  have "epslike (ol_alpha M') = epslike (ol_alpha M)" by (simp add: fun_eq_iff epslike_def is_flag_diacritic_def assms(3))
  then have "epsilons_at (machine_context wval limit M') = epsilons_at (machine_context wval limit M)"
    unfolding epsilons_at_def machine_context_def by (simp add: assms(2))
  moreover have "valid_index (ol_alpha M') = valid_index (ol_alpha M)" unfolding assms(3) by (rule grown_alphabet(2))
  ultimately show ?thesis using assms(1,2) by (simp add: flags_ranked_def machine_context_def)
qed

text \<open>C20. Looking up a correct UTF-8 string in a well-formed transducer never goes wrong: whatever the flag
  diacritics, default symbols, cycles and limit, it returns without reading outside the tables, the
  alphabet, the flag values or the tapes, it leaves the transducer well-formed, the tape
  holds the input divided by maximal munch, and every result is the weight and the strings of an accepting run.\<close>

theorem lookup_fd_pairs_safe:
  assumes "machine_ok n M" and "utf8_ok s" and "CHR 0x00 \<notin> set s" and "length (symbol_table (ol_alpha M)) + length s < 65535"
  shows "\<exists>paths M'. lookup_fd_pairs wval s limit M = Inr (paths, M') \<and> machine_ok n M' \<and> reads_input s M M' \<and>
     paths \<subseteq> machine_results wval limit M'"
  using lookup_fd_pairs_run [OF assms, of wval limit] by blast

text \<open>C21. Without limit and default symbol, and when no cycle of epsilons and flag diacritics goes through a flag
  diacritic, a lookup returns exactly the results of the accepting runs of fewer than 5000 transitions.\<close>

theorem lookup_fd_pairs_complete:
  assumes "machine_ok n M" and "utf8_ok s" and "CHR 0x00 \<notin> set s" and "length (symbol_table (ol_alpha M)) + length s < 65535"
    and "limit < 0" and "default_symbol (ol_alpha M) = no_symbol_number" and "flags_ranked (machine_context wval limit M) n rank"
  shows "\<exists>M'. lookup_fd_pairs wval s limit M = Inr (machine_results wval limit M', M') \<and> machine_ok n M' \<and> reads_input s M M'"
proof -
  from lookup_fd_pairs_run [OF assms(1,2,3,4), of wval limit] obtain paths M' where
    M': "lookup_fd_pairs wval s limit M = Inr (paths, M')" "machine_ok n M'" "reads_input s M M'" "paths \<subseteq> machine_results wval limit M'"
      "\<exists>new. ol_alpha M' = (ol_alpha M)\<lparr>symbol_table := symbol_table (ol_alpha M) @ new\<rparr>" "tables M' = tables M"
      "\<forall>rank. exhaustive (machine_context wval limit M') n rank \<longrightarrow> machine_results wval limit M' \<subseteq> paths" by blast
  have "exhaustive (machine_context wval limit M') n rank"
    using M'(5,6) flags_ranked_grown [OF assms(7)] assms(5,6) by (auto simp: exhaustive_def machine_context_def)
  then have "paths = machine_results wval limit M'" using M'(4,7) by blast
  with M'(1,2,3) show ?thesis by blast
qed

text \<open>C22. A lookup with a limit of \<open>k\<close> results returns at most \<open>k\<close>, for any transducer and any input.\<close>

theorem lookup_fd_pairs_limit:
  assumes "lookup_fd_pairs wval s limit M = Inr (paths, M')" and "0 \<le> limit"
  shows "finite paths \<and> int (card paths) \<le> limit"
proof -
  have "keeps (\<lambda>S. finite S \<and> int (card S) \<le> limit) (get_analyses (machine_context wval limit M1) max_recursion_depth 0 0 0)" for M1
    using assms(2) by (intro get_analyses_keeps) (auto simp: machine_context_def card_insert_if)
  with assms show ?thesis
    by (fastforce simp: lookup_fd_pairs_def Let_def result_simps dest!: keepsD split: prod.splits if_splits)
qed

text \<open>The transducer that accepts \<open>a\<close> with weight 7.\<close>

definition demo_lookup_tables :: ol_tables where
  "demo_lookup_tables = \<lparr>weighted_tables = True,
     index_table = [\<lparr>ti_input = 65535, ti_first = 4294967295\<rparr>, \<lparr>ti_input = 65535, ti_first = 4294967295\<rparr>,
       \<lparr>ti_input = 1, ti_first = 2147483649\<rparr>],
     transition_table = [\<lparr>ot_input = 65535, ot_output = 65535, ot_target = 4294967295, ot_weight = 0\<rparr>,
       \<lparr>ot_input = 1, ot_output = 1, ot_target = 2147483650, ot_weight = 7\<rparr>,
       \<lparr>ot_input = 65535, ot_output = 65535, ot_target = 1, ot_weight = 0\<rparr>,
       \<lparr>ot_input = 65535, ot_output = 65535, ot_target = 4294967295, ot_weight = 0\<rparr>]\<rparr>"

definition demo_ol_machine :: "encoder \<Rightarrow> nat ol_machine" where
  "demo_ol_machine e = new_machine \<lparr>ol_head = new_header 2 2 3 4 True, ol_alpha = demo_alphabet, tables = demo_lookup_tables, ol_encoder = e\<rparr>"

lemma demo_alphabet_parts:
  "symbol_table demo_alphabet = [internal_epsilon, ''a'']" "identity_symbol demo_alphabet = no_symbol_number"
  "unknown_symbol demo_alphabet = no_symbol_number" "default_symbol demo_alphabet = no_symbol_number"
  "orig_symbol_count demo_alphabet = 2" "ol_fd_table demo_alphabet = empty_fd_table"
  by (simp_all add: demo_alphabet_def ol_alphabet_empty_def)

lemma demo_ol_machine_parts [simp]:
  "ol_alpha (demo_ol_machine e) = demo_alphabet" "tables (demo_ol_machine e) = demo_lookup_tables"
  by (simp_all add: demo_ol_machine_def new_machine_def ol_transducer.defs)

lemma demo_ol_machine_ok: "\<exists>e. new_encoder [internal_epsilon, ''a''] 2 = Inr e \<and> machine_ok 2 (demo_ol_machine e)"
proof -
  have st: "\<forall>s \<in> set (symbol_table demo_alphabet). s \<noteq> [] \<and> CHR 0x00 \<notin> set s \<and> utf8_ok s"
    by (simp add: demo_alphabet_parts utf8_ok_def internal_epsilon_def additional_chars_def)
  from new_encoder_ok [OF this, of 2] obtain e where e: "new_encoder (symbol_table demo_alphabet) 2 = Inr e"
    by (auto simp: demo_alphabet_parts)
  have asked: "asked_for demo_alphabet 2 k \<longleftrightarrow> k < 2" for k by (auto simp: asked_for_def demo_alphabet_parts)
  have valid: "valid_index demo_alphabet 2 demo_lookup_tables 0" "valid_index demo_alphabet 2 demo_lookup_tables 2147483650"
    by (auto simp: valid_index_def asked demo_lookup_tables_def target_table_start_def)
  have "tables_ok demo_alphabet 2 demo_lookup_tables"
    using valid(2) by (simp add: tables_ok_def edge_ok_def demo_alphabet_parts)
      (simp add: demo_lookup_tables_def target_table_start_def no_symbol_number_def transitions_from_def minus_start_def)
  then have "machine_ok 2 (demo_ol_machine e)"
    unfolding demo_ol_machine_def
    using e st demo_alphabet_new valid(1) by (intro new_machine_ok) (simp_all add: demo_alphabet_parts is_diacritic_def internal_epsilon_def)
  with e show ?thesis by (auto simp: demo_alphabet_parts)
qed

lemma demo_flags_ranked: "flags_ranked (machine_context wval limit (demo_ol_machine e)) 2 (\<lambda>i. 0)"
proof -
  have "epslike demo_alphabet x \<Longrightarrow> ot_input x = 0" for x
    by (simp add: epslike_def is_flag_diacritic_def demo_alphabet_parts table_is_diacritic_def empty_fd_table_def)
  then show ?thesis by (auto simp: flags_ranked_def epsilons_at_def machine_context_def dest: set_takeWhileD)
qed

lemma utf8_a: "utf8_ok ''a''" by (simp add: utf8_ok_def additional_chars_def)

lemma lookup_fd_pairs_safe_witness:
  "\<exists>e paths M'. new_encoder [internal_epsilon, ''a''] 2 = Inr e \<and> lookup_fd_pairs id ''a'' 1 (demo_ol_machine e) = Inr (paths, M') \<and>
     machine_ok 2 M' \<and> paths \<subseteq> machine_results id 1 M'"
proof -
  from demo_ol_machine_ok obtain e where e: "new_encoder [internal_epsilon, ''a''] 2 = Inr e" "machine_ok 2 (demo_ol_machine e)" by blast
  from lookup_fd_pairs_safe [OF e(2) utf8_a, of id 1] e(1) show ?thesis by (auto simp: demo_alphabet_parts)
qed

lemma lookup_fd_pairs_complete_witness:
  "\<exists>e M'. new_encoder [internal_epsilon, ''a''] 2 = Inr e \<and>
     lookup_fd_pairs id ''a'' (- 1) (demo_ol_machine e) = Inr (machine_results id (- 1) M', M') \<and> machine_ok 2 M'"
proof -
  from demo_ol_machine_ok obtain e where e: "new_encoder [internal_epsilon, ''a''] 2 = Inr e" "machine_ok 2 (demo_ol_machine e)" by blast
  from lookup_fd_pairs_complete [OF e(2) utf8_a _ _ _ _ demo_flags_ranked, of "- 1" id] e(1) show ?thesis
    by (auto simp: demo_alphabet_parts)
qed

lemma lookup_fd_pairs_limit_witness:
  "\<exists>e paths M'. new_encoder [internal_epsilon, ''a''] 2 = Inr e \<and> lookup_fd_pairs id ''a'' 1 (demo_ol_machine e) = Inr (paths, M') \<and>
     int (card paths) \<le> 1"
proof -
  from demo_ol_machine_ok obtain e where e: "new_encoder [internal_epsilon, ''a''] 2 = Inr e" "machine_ok 2 (demo_ol_machine e)" by blast
  from lookup_fd_pairs_run [OF e(2) utf8_a, of id 1] obtain paths M' where
    "lookup_fd_pairs id ''a'' 1 (demo_ol_machine e) = Inr (paths, M')" by (auto simp: demo_alphabet_parts)
  with lookup_fd_pairs_limit [OF this] e(1) show ?thesis by auto
qed

end
