(* ===== verification/OlNumbers.thy ===== *)
theory OlNumbers
  imports OlConvert OlResults
begin

text \<open>
  The numbers that the conversion gives to symbols, and the alphabet made of them. Shown: the table
  of symbols holds each symbol once, epsilon first, then the other input symbols, the flag
  diacritics and the rest, and the alphabet knows the flag diacritics and the special symbols by their numbers.
\<close>

section \<open>The symbols of a graph\<close>

definition all_transitions :: "'w hbt \<Rightarrow> 'w transition set" where
  "all_transitions g = set (concat (state_vector g))"

definition flag_symbol :: "string \<Rightarrow> bool" where
  "flag_symbol s \<longleftrightarrow> is_diacritic s \<or> is_insertion s"

definition read_symbols :: "'w hbt \<Rightarrow> string set" where
  "read_symbols g = {s \<in> tr_input ` all_transitions g. \<not> flag_symbol s}"

definition read_flags :: "'w hbt \<Rightarrow> string set" where
  "read_flags g = {s \<in> tr_input ` all_transitions g. flag_symbol s}"

definition written_symbols :: "'w hbt \<Rightarrow> string set" where
  "written_symbols g = tr_output ` all_transitions g"

lemma finite_symbols [simp]: "finite (read_symbols g)" "finite (read_flags g)" "finite (written_symbols g)"
  by (simp_all add: read_symbols_def read_flags_def written_symbols_def all_transitions_def)

lemma first_pass_collected:
  "collect_transitions first_pass_symbols g ({}, {}, {}) = (read_symbols g, read_flags g, written_symbols g)"
proof -
  have "fold (fold first_pass_symbols) sv a = fold first_pass_symbols (concat sv) a" for sv :: "'a transition list list" and a
    by (induction sv arbitrary: a) simp_all
  moreover have "fold first_pass_symbols trs (I, F, O1) =
      (I \<union> {s \<in> tr_input ` set trs. \<not> flag_symbol s}, F \<union> {s \<in> tr_input ` set trs. flag_symbol s}, O1 \<union> tr_output ` set trs)" for trs :: "'a transition list" and I F O1
    by (induction trs arbitrary: I F O1) (auto simp: first_pass_symbols_def flag_symbol_def)
  ultimately show ?thesis
    by (simp add: collect_transitions_def read_symbols_def read_flags_def written_symbols_def all_transitions_def del: set_concat)
qed

section \<open>Numbering\<close>

definition numbered :: "symbol_numbers \<Rightarrow> bool" where
  "numbered S \<longleftrightarrow> distinct (sn_table S) \<and> (\<forall>s k. sn_map S s = Some k \<longleftrightarrow> k < length (sn_table S) \<and> sn_table S ! k = s)"

definition symbol_list :: "string set \<Rightarrow> string set \<Rightarrow> string set \<Rightarrow> string list" where
  "symbol_list I F others = internal_epsilon # filter (\<lambda>s. \<not> is_epsilon s) (sorted_list_of_set I) @
     filter (\<lambda>s. \<not> is_epsilon s) (sorted_list_of_set F) @
     filter (\<lambda>s. \<not> is_epsilon s \<and> s \<notin> I \<and> s \<notin> F) (sorted_list_of_set others)"

definition with_number :: "string \<Rightarrow> symbol_numbers \<Rightarrow> symbol_numbers" where
  "with_number s S = S\<lparr>sn_table := sn_table S @ [s], sn_map := (sn_map S)(s \<mapsto> length (sn_table S))\<rparr>"

lemma numbered_with: "numbered S \<Longrightarrow> s \<notin> set (sn_table S) \<Longrightarrow> numbered (with_number s S)"
  by (auto simp: numbered_def with_number_def nth_append less_Suc_eq in_set_conv_nth)

lemma number_all:
  assumes f: "\<And>s S. f s S = (if P s then rmap (h (length (sn_table S))) (number_symbol s S) else Inr S)"
    and h: "\<And>k S. sn_table (h k S) = sn_table S \<and> sn_map (h k S) = sn_map S"
    and Q: "\<And>s S. Q S \<Longrightarrow> length (sn_table S) < 65535 \<Longrightarrow> Q (h (length (sn_table S)) (with_number s S))"
  shows "numbered S \<Longrightarrow> Q S \<Longrightarrow> distinct xs \<Longrightarrow> set (filter P xs) \<inter> set (sn_table S) = {} \<Longrightarrow>
     length (sn_table S) + length (filter P xs) \<le> 65535 \<Longrightarrow>
     \<exists>S'. rfold f xs S = Inr S' \<and> numbered S' \<and> Q S' \<and> sn_table S' = sn_table S @ filter P xs"
proof (induction xs arbitrary: S)
  case (Cons x xs)
  show ?case
  proof (cases "P x")
    case True
    let ?S = "h (length (sn_table S)) (with_number x S)"
    have len: "length (sn_table S) < 65535" using Cons.prems(5) True by simp
    then have "number_symbol x S = Inr (with_number x S)"
      by (simp add: number_symbol_def size_t_to_ushort_def with_number_def)
    then have step: "f x S = Inr ?S" using f True by simp
    have table: "sn_table ?S = sn_table S @ [x]" using h by (simp add: with_number_def)
    have "numbered ?S" using numbered_with [OF Cons.prems(1), of x] Cons.prems(4) True h by (simp add: numbered_def)
    moreover have "set (filter P xs) \<inter> set (sn_table ?S) = {}" using Cons.prems(3,4) True by (auto simp: table)
    moreover have "length (sn_table ?S) + length (filter P xs) \<le> 65535" using Cons.prems(5) True by (simp add: table)
    moreover have "distinct xs" using Cons.prems(3) by simp
    ultimately show ?thesis using Cons.IH [of ?S] Q [OF Cons.prems(2) len] step table True by auto
  next
    case False
    then show ?thesis using Cons f by simp
  qed
qed simp

lemma collect_numbers_ok:
  assumes fin: "finite I" "finite F" "finite others" and dis: "I \<inter> F = {}" and len: "length (symbol_list I F others) \<le> 65535"
  shows "\<exists>S. collect_numbers I F others = Inr S \<and> numbered S \<and> sn_table S = symbol_list I F others \<and>
     sn_seen S = Suc (length (filter (\<lambda>s. \<not> is_epsilon s) (sorted_list_of_set I))) \<and>
     sn_flags S = {sn_seen S..<sn_seen S + length (filter (\<lambda>s. \<not> is_epsilon s) (sorted_list_of_set F))}"
proof -
  let ?P = "\<lambda>s. \<not> is_epsilon s" and ?R = "\<lambda>s. \<not> is_epsilon s \<and> s \<notin> I \<and> s \<notin> F"
  let ?I = "filter ?P (sorted_list_of_set I)" and ?F = "filter ?P (sorted_list_of_set F)" and ?O = "filter ?R (sorted_list_of_set others)"
  let ?S0 = "\<lparr>sn_table = [internal_epsilon], sn_map = [internal_epsilon \<mapsto> 0], sn_seen = 1, sn_flags = {}\<rparr>"
  have lens: "Suc (length ?I + length ?F + length ?O) \<le> 65535" using len by (simp add: symbol_list_def)
  let ?f1 = "\<lambda>s S. if is_epsilon s then Inr S
      else rmap (\<lambda>S'. S'\<lparr>sn_seen := to_symbol_number (sn_seen S' + 1)\<rparr>) (number_symbol s S)"
  have "\<exists>S1. rfold ?f1 (sorted_list_of_set I) ?S0 = Inr S1 \<and> numbered S1 \<and>
      (sn_seen S1 = length (sn_table S1) \<and> sn_flags S1 = {}) \<and> sn_table S1 = sn_table ?S0 @ ?I"
    by (rule number_all [where Q = "\<lambda>S. sn_seen S = length (sn_table S) \<and> sn_flags S = {}" and P = ?P and
        h = "\<lambda>k S'. S'\<lparr>sn_seen := to_symbol_number (sn_seen S' + 1)\<rparr>"])
      (use lens in \<open>auto simp: to_symbol_number_def with_number_def is_epsilon_def numbered_def\<close>)
  then obtain S1 where S1: "rfold ?f1 (sorted_list_of_set I) ?S0 = Inr S1" "numbered S1" "sn_seen S1 = length (sn_table S1)"
    "sn_flags S1 = {}" "sn_table S1 = internal_epsilon # ?I" by auto
  let ?f2 = "\<lambda>s S. if is_epsilon s then Inr S
      else rmap (\<lambda>S'. S'\<lparr>sn_flags := insert (to_symbol_number (length (sn_table S))) (sn_flags S')\<rparr>) (number_symbol s S)"
  have "\<exists>S2. rfold ?f2 (sorted_list_of_set F) S1 = Inr S2 \<and> numbered S2 \<and>
      (sn_seen S2 = sn_seen S1 \<and> sn_seen S1 \<le> length (sn_table S2) \<and> sn_flags S2 = {sn_seen S1..<length (sn_table S2)}) \<and> sn_table S2 = sn_table S1 @ ?F"
    by (rule number_all [where Q = "\<lambda>S. sn_seen S = sn_seen S1 \<and> sn_seen S1 \<le> length (sn_table S) \<and> sn_flags S = {sn_seen S1..<length (sn_table S)}"
        and P = ?P and h = "\<lambda>k S'. S'\<lparr>sn_flags := insert (to_symbol_number k) (sn_flags S')\<rparr>"])
      (use lens S1 fin dis in \<open>auto simp: to_symbol_number_def with_number_def is_epsilon_def\<close>)
  then obtain S2 where S2: "rfold ?f2 (sorted_list_of_set F) S1 = Inr S2" "numbered S2" "sn_seen S2 = sn_seen S1"
    "sn_flags S2 = {sn_seen S1..<length (sn_table S2)}" "sn_table S2 = internal_epsilon # ?I @ ?F" using S1(5) by auto
  let ?f3 = "\<lambda>s S. if \<not> is_epsilon s \<and> s \<notin> I \<and> s \<notin> F then number_symbol s S else Inr S"
  have "\<exists>S3. rfold ?f3 (sorted_list_of_set others) S2 = Inr S3 \<and> numbered S3 \<and>
      (sn_seen S3 = sn_seen S1 \<and> sn_flags S3 = sn_flags S2) \<and> sn_table S3 = sn_table S2 @ ?O"
    by (rule number_all [where Q = "\<lambda>S. sn_seen S = sn_seen S1 \<and> sn_flags S = sn_flags S2" and P = ?R and h = "\<lambda>k S. S"])
      (use lens S2 fin in \<open>auto simp: with_number_def is_epsilon_def number_symbol_def size_t_to_ushort_def\<close>)
  then obtain S3 where S3: "rfold ?f3 (sorted_list_of_set others) S2 = Inr S3" "numbered S3" "sn_seen S3 = sn_seen S1"
    "sn_flags S3 = sn_flags S2" "sn_table S3 = symbol_list I F others" using S2(5) by (auto simp: symbol_list_def)
  have "number_symbol internal_epsilon \<lparr>sn_table = [], sn_map = Map.empty, sn_seen = 1, sn_flags = {}\<rparr> = Inr ?S0"
    by (simp add: number_symbol_def size_t_to_ushort_def)
  then have "collect_numbers I F others = Inr S3" by (simp only: collect_numbers_def rbind.simps S1(1) S2(1) S3(1))
  then show ?thesis using S1(3,5) S2(4,5) S3 by simp
qed

lemma symbol_list_set:
  assumes "finite I" "finite F" "finite others" and "I \<inter> F = {}"
  shows "distinct (symbol_list I F others)" and "set (symbol_list I F others) = insert internal_epsilon (I \<union> F \<union> others)"
  using assms by (auto simp: symbol_list_def is_epsilon_def)

text \<open>What the conversion relies on.\<close>

definition numbers_of :: "'w hbt \<Rightarrow> symbol_numbers \<Rightarrow> bool" where
  "numbers_of g S \<longleftrightarrow> numbered S \<and> 0 < sn_seen S \<and> sn_seen S \<le> length (sn_table S) \<and> sn_table S ! 0 = internal_epsilon \<and>
     set (sn_table S) = insert internal_epsilon (read_symbols g \<union> read_flags g \<union> written_symbols g) \<and>
     (\<forall>k < length (sn_table S). k < sn_seen S \<longleftrightarrow> sn_table S ! k \<in> insert internal_epsilon (read_symbols g)) \<and>
     (\<forall>k. k \<in> sn_flags S \<longleftrightarrow> k < length (sn_table S) \<and> sn_table S ! k \<in> read_flags g)"

lemma numbers_ofD:
  assumes "numbers_of g S"
  shows "numbered S" "0 < sn_seen S" "sn_seen S \<le> length (sn_table S)" "sn_table S ! 0 = internal_epsilon"
    "set (sn_table S) = insert internal_epsilon (read_symbols g \<union> read_flags g \<union> written_symbols g)"
    "\<And>k. k < length (sn_table S) \<Longrightarrow> k < sn_seen S \<longleftrightarrow> sn_table S ! k \<in> insert internal_epsilon (read_symbols g)"
    "\<And>k. k \<in> sn_flags S \<longleftrightarrow> k < length (sn_table S) \<and> sn_table S ! k \<in> read_flags g"
  using assms by (simp_all add: numbers_of_def)

definition used_symbols :: "'w hbt \<Rightarrow> string set" where
  "used_symbols g = insert internal_epsilon (read_symbols g \<union> read_flags g \<union> written_symbols g)"

lemma numbers_of_graph:
  assumes card: "card (used_symbols g) \<le> 65535" and eps: "internal_epsilon \<notin> read_flags g"
  shows "\<exists>S. collect_numbers (read_symbols g) (read_flags g) (written_symbols g) = Inr S \<and> numbers_of g S \<and>
     length (sn_table S) = card (used_symbols g)"
proof -
  let ?I = "read_symbols g" and ?F = "read_flags g" and ?O = "written_symbols g"
  let ?I' = "filter (\<lambda>s. \<not> is_epsilon s) (sorted_list_of_set ?I)" and ?F' = "filter (\<lambda>s. \<not> is_epsilon s) (sorted_list_of_set ?F)"
  let ?O' = "filter (\<lambda>s. \<not> is_epsilon s \<and> s \<notin> ?I \<and> s \<notin> ?F) (sorted_list_of_set ?O)"
  have dis: "?I \<inter> ?F = {}" by (auto simp: read_symbols_def read_flags_def)
  note set = symbol_list_set [OF finite_symbols(1,2) finite_symbols(3) [of g] dis]
  have len: "length (symbol_list ?I ?F ?O) = card (used_symbols g)"
    using distinct_card [OF set(1)] by (simp add: set(2) used_symbols_def)
  with collect_numbers_ok [OF finite_symbols(1,2) finite_symbols(3) [of g] dis] card obtain S where
    S: "collect_numbers ?I ?F ?O = Inr S" "numbered S" "sn_table S = symbol_list ?I ?F ?O" "sn_seen S = Suc (length ?I')"
      "sn_flags S = {sn_seen S..<sn_seen S + length ?F'}" by auto
  have table: "sn_table S = (internal_epsilon # ?I') @ ?F' @ ?O'" by (simp add: S(3) symbol_list_def)
  have sets: "set ?I' = ?I - {internal_epsilon}" "set ?F' = ?F" "set ?O' = ?O - {internal_epsilon} - ?I - ?F"
    using eps by (auto simp: is_epsilon_def)
  have parts: "sn_table S ! k \<in> (if k < sn_seen S then insert internal_epsilon ?I else if k < sn_seen S + length ?F' then ?F else ?O - {internal_epsilon} - ?I - ?F)"
    if "k < length (sn_table S)" for k
  proof (cases "k < sn_seen S")
    case True
    then have "sn_table S ! k = (internal_epsilon # ?I') ! k" unfolding table by (subst nth_append) (simp add: S(4))
    moreover have "(internal_epsilon # ?I') ! k \<in> set (internal_epsilon # ?I')" using True by (intro nth_mem) (simp add: S(4))
    ultimately show ?thesis using True sets(1) by auto
  next
    case False
    then have "sn_table S ! k = (?F' @ ?O') ! (k - sn_seen S)" unfolding table by (subst nth_append) (simp add: S(4))
    moreover have "?F' ! (k - sn_seen S) \<in> set ?F'" if "k < sn_seen S + length ?F'" using that False by (intro nth_mem) simp
    moreover have "?O' ! (k - sn_seen S - length ?F') \<in> set ?O'" if "\<not> k < sn_seen S + length ?F'"
      using that \<open>k < length (sn_table S)\<close> unfolding table by (intro nth_mem) (simp add: S(4))
    ultimately show ?thesis using False sets(2,3) by (simp add: nth_append split: if_splits) auto
  qed
  have "k < sn_seen S \<longleftrightarrow> sn_table S ! k \<in> insert internal_epsilon ?I" if "k < length (sn_table S)" for k
    using parts [OF that] dis eps by (auto split: if_splits)
  moreover have "k \<in> sn_flags S \<longleftrightarrow> k < length (sn_table S) \<and> sn_table S ! k \<in> ?F" for k
    using parts [of k] dis eps S(4,5) by (auto simp: table split: if_splits)
  ultimately have "numbers_of g S"
    using S(2) set(2) by (simp add: numbers_of_def S(3,4)) (simp add: symbol_list_def)
  then show ?thesis using S(1,3) len by auto
qed

section \<open>The alphabet of a table\<close>

definition stands_at :: "nat \<Rightarrow> string list \<Rightarrow> string \<Rightarrow> nat \<Rightarrow> bool" where
  "stands_at n st s k \<longleftrightarrow> k < n \<and> st ! k = s \<or> k = no_symbol_number \<and> (\<forall>j < n. st ! j \<noteq> s)"

definition knows_flag :: "nat fd_table \<Rightarrow> string \<Rightarrow> nat \<Rightarrow> bool" where
  "knows_flag t s k \<longleftrightarrow>
     (if is_diacritic s then (\<exists>opn. operations t k = Some opn \<and> op_name opn = s) \<and> symbol_map t s = Some k
      else operations t k = None)"

definition classified :: "nat \<Rightarrow> string list \<Rightarrow> ol_alphabet \<Rightarrow> bool" where
  "classified n st a \<longleftrightarrow> numbered_up_to n a \<and> (\<forall>k < n. knows_flag (ol_fd_table a) (st ! k) k) \<and>
     stands_at n st internal_unknown (unknown_symbol a) \<and> stands_at n st internal_identity (identity_symbol a) \<and>
     stands_at n st internal_default (default_symbol a)"

lemma stands_at_Suc:
  "stands_at n st s k \<Longrightarrow> n < length st \<Longrightarrow> distinct st \<Longrightarrow> stands_at (Suc n) st s (if st ! n = s then n else k)"
  by (auto simp: stands_at_def less_Suc_eq)

lemma special_not_diacritic:
  "\<not> is_diacritic internal_epsilon" "\<not> is_diacritic internal_unknown" "\<not> is_diacritic internal_identity" "\<not> is_diacritic internal_default"
  by (simp_all add: is_diacritic_def internal_epsilon_def internal_unknown_def internal_identity_def internal_default_def)

lemma special_distinct:
  "internal_unknown \<noteq> internal_identity" "internal_unknown \<noteq> internal_default" "internal_identity \<noteq> internal_default"
  "internal_epsilon \<noteq> internal_unknown" "internal_epsilon \<noteq> internal_identity" "internal_epsilon \<noteq> internal_default"
  by (simp_all add: internal_epsilon_def internal_unknown_def internal_identity_def internal_default_def)

lemma classify_other:
  "\<not> is_diacritic s \<Longrightarrow> classify_symbol (n, s) a = Inr (a\<lparr>unknown_symbol := (if s = internal_unknown then n else unknown_symbol a),
     default_symbol := (if s = internal_default then n else default_symbol a),
     identity_symbol := (if s = internal_identity then n else identity_symbol a)\<rparr>)"
  using special_distinct by (cases a) (auto simp: classify_symbol_def is_unknown_def is_default_def is_identity_def)

lemma classify_next:
  assumes c: "classified n st a" and n: "n < length st" "n < 32766" and d: "distinct st" and first: "n = 0 \<Longrightarrow> \<not> is_diacritic (st ! 0)"
  shows "\<exists>b. classify_symbol (n, st ! n) a = Inr b \<and> classified (Suc n) st b"
proof -
  let ?s = "st ! n"
  have num: "numbered_up_to n a" and flags: "\<And>k. k < n \<Longrightarrow> knows_flag (ol_fd_table a) (st ! k) k"
    and special: "stands_at n st internal_unknown (unknown_symbol a)" "stands_at n st internal_identity (identity_symbol a)"
      "stands_at n st internal_default (default_symbol a)" using c by (auto simp: classified_def)
  note later = stands_at_Suc [OF _ n(1) d]
  have whole: "classified (Suc n) st b" if b: "classify_symbol (n, ?s) a = Inr b" and fl: "\<forall>k < Suc n. knows_flag (ol_fd_table b) (st ! k) k"
    and sp: "unknown_symbol b = (if ?s = internal_unknown then n else unknown_symbol a)"
      "identity_symbol b = (if ?s = internal_identity then n else identity_symbol a)"
      "default_symbol b = (if ?s = internal_default then n else default_symbol a)" for b
    using classify_symbol_numbered [OF num b n(2)] first fl later [OF special(1)] later [OF special(2)] later [OF special(3)]
    by (auto simp: classified_def sp)
  show ?thesis
  proof (cases "is_diacritic ?s")
    case True
    have cards: "card (dom (feature_map (ol_fd_table a))) \<le> 65535" "card (dom (value_map (ol_fd_table a))) < 65535"
      using num n(2) by (auto simp: numbered_up_to_def)
    from define_diacritic_total [OF True this] obtain t' where t': "define_diacritic n ?s (ol_fd_table a) = Inr t'" by blast
    then have b: "classify_symbol (n, ?s) a = Inr (a\<lparr>ol_fd_table := t'\<rparr>)" using True by (simp add: classify_symbol_def)
    have "knows_flag t' (st ! k) k" if "k < Suc n" for k
      using t'
    proof (rule define_diacritic_cases)
      fix opr f v
      assume t: "t' = (ol_fd_table a)\<lparr>feature_map := alloc id f (feature_map (ol_fd_table a)), value_map := alloc next_value v (value_map (ol_fd_table a)),
        operations := (operations (ol_fd_table a))(n \<mapsto> \<lparr>op_operator = opr, op_feature = the (alloc id f (feature_map (ol_fd_table a)) f),
          op_value = the (alloc next_value v (value_map (ol_fd_table a)) v), op_name = ?s\<rparr>),
        symbol_map := (symbol_map (ol_fd_table a))(?s \<mapsto> n)\<rparr>"
      show ?thesis
      proof (cases "k = n")
        case True
        then show ?thesis using \<open>is_diacritic ?s\<close> by (simp add: t knows_flag_def)
      next
        case False
        then have k: "k < n" using that by simp
        then have "st ! k \<noteq> ?s" using d n(1) by (simp add: nth_eq_iff_index_eq)
        then show ?thesis using flags [OF k] k by (simp add: t knows_flag_def)
      qed
    qed
    moreover have "?s \<noteq> internal_unknown" "?s \<noteq> internal_identity" "?s \<noteq> internal_default"
      using True special_not_diacritic by metis+
    ultimately show ?thesis using b whole [OF b] by auto
  next
    case False
    have none: "operations (ol_fd_table a) n = None"
      using num unfolding numbered_up_to_def by (metis less_irrefl not_None_eq)
    let ?b = "a\<lparr>unknown_symbol := (if ?s = internal_unknown then n else unknown_symbol a),
        default_symbol := (if ?s = internal_default then n else default_symbol a),
        identity_symbol := (if ?s = internal_identity then n else identity_symbol a)\<rparr>"
    have b: "classify_symbol (n, ?s) a = Inr ?b" by (rule classify_other [OF False])
    have "\<forall>k < Suc n. knows_flag (ol_fd_table ?b) (st ! k) k"
      using flags none False by (auto simp: less_Suc_eq) (simp add: knows_flag_def)
    then show ?thesis using b whole [OF b] by auto
  qed
qed

lemma ol_alphabet_new_classified:
  assumes "distinct st" and "length st \<le> 32766" and "st \<noteq> []" and "\<not> is_diacritic (st ! 0)"
  shows "\<exists>a. ol_alphabet_new st = Inr a \<and> classified (length st) st a"
proof -
  let ?a = "\<lparr>symbol_table = st, ol_fd_table = empty_fd_table, unknown_symbol = no_symbol_number,
         default_symbol = no_symbol_number, identity_symbol = no_symbol_number,
         orig_symbol_count = to_symbol_number (length st)\<rparr>"
  have start: "classified 0 st ?a"
    by (simp add: classified_def stands_at_def numbered_up_to_def fd_table_ok_empty) (simp add: empty_fd_table_def)
  have "classified n st a \<Longrightarrow> n \<le> length st \<Longrightarrow>
      \<exists>b. rfold classify_symbol (enumerate n (drop n st)) a = Inr b \<and> classified (length st) st b" for n a
  proof (induction "length st - n" arbitrary: n a)
    case 0
    then show ?case by simp
  next
    case (Suc j)
    then have n: "n < length st" by simp
    from classify_next [OF Suc.prems(1) n _ assms(1)] assms n obtain b where
      b: "classify_symbol (n, st ! n) a = Inr b" "classified (Suc n) st b" by auto
    have "drop n st = st ! n # drop (Suc n) st" using n by (simp add: Cons_nth_drop_Suc)
    moreover have "\<exists>c. rfold classify_symbol (enumerate (Suc n) (drop (Suc n) st)) b = Inr c \<and> classified (length st) st c"
      using Suc b(2) n by simp
    ultimately show ?case using b(1) by simp
  qed
  from this [OF start le0] show ?thesis using assms(2) by (simp add: ol_alphabet_new_def)
qed

end
