(* ===== verification/OlConverted.thy ===== *)
theory OlConverted
  imports OlTables OlNumbers
begin

text \<open>
  The conversion of a graph from end to end. Shown: for every \<open>convertible\<close>
  graph the conversion returns a transducer whose tables show the lookup the transitions and the final
  weights of the graph, and in which lookups are safe.
\<close>

section \<open>Graphs that can be converted\<close>

text \<open>Correct UTF-8 symbols, few enough for their numbers, and states and transitions that fit the tables; no symbols like
  \<open>@I.x@\<close> on the input side, which the conversion takes for flag diacritics and the alphabet of the result does not; and unknown,
  identity and default written only if they are also read, since the padding of the index table (line 431) counts
  input symbols only, while the lookup asks for them whenever the alphabet has them.\<close>

definition convertible :: "('w::zero) hbt \<Rightarrow> bool" where
  "convertible g \<longleftrightarrow> wf_graph g \<and> (\<forall>s \<in> used_symbols g. utf8_ok s \<and> CHR 0x00 \<notin> set s) \<and>
     (\<forall>tr \<in> all_transitions g. \<not> is_insertion (tr_input tr)) \<and>
     {internal_unknown, internal_identity, internal_default} \<inter> written_symbols g \<subseteq> read_symbols g \<and>
     card (used_symbols g) \<le> 32766 \<and>
     length (state_vector g) * (card (used_symbols g) + 1) + 131072 \<le> target_table_start \<and>
     state_base g (length (state_vector g)) \<le> target_table_start"

lemma convertibleD:
  assumes "convertible g"
  shows "wf_graph g" "\<And>s. s \<in> used_symbols g \<Longrightarrow> utf8_ok s \<and> CHR 0x00 \<notin> set s"
    "\<And>tr. tr \<in> all_transitions g \<Longrightarrow> \<not> is_insertion (tr_input tr)"
    "{internal_unknown, internal_identity, internal_default} \<inter> written_symbols g \<subseteq> read_symbols g"
    "card (used_symbols g) \<le> 32766" "length (state_vector g) * (card (used_symbols g) + 1) + 131072 \<le> target_table_start"
    "state_base g (length (state_vector g)) \<le> target_table_start"
  using assms by (simp_all add: convertible_def)

lemma transitions_of_all: "tr \<in> set (transitions_of g s) \<Longrightarrow> tr \<in> all_transitions g"
  by (auto simp: transitions_of_def all_transitions_def split: if_splits intro!: bexI [OF _ nth_mem])

lemma all_transitions_wf: "wf_graph g \<Longrightarrow> tr \<in> all_transitions g \<Longrightarrow> wf_transition (length (state_vector g)) tr"
  by (auto simp: all_transitions_def wf_graph_def)

lemma used_symbols_nonempty: "convertible g \<Longrightarrow> s \<in> used_symbols g \<Longrightarrow> s \<noteq> []"
  using all_transitions_wf [OF convertibleD(1), of g]
  by (fastforce simp: used_symbols_def read_symbols_def read_flags_def written_symbols_def wf_transition_def internal_epsilon_def)

lemma flag_symbol_read: "convertible g \<Longrightarrow> tr \<in> all_transitions g \<Longrightarrow> flag_symbol (tr_input tr) \<longleftrightarrow> is_diacritic (tr_input tr)"
  using convertibleD(3) [of g tr] by (auto simp: flag_symbol_def)

lemma epsilon_not_flag: "internal_epsilon \<notin> read_flags g"
  by (simp add: read_flags_def flag_symbol_def is_diacritic_def is_insertion_def starts_with_def str_find_def internal_epsilon_def)

lemma number_bound: "numbers_of g S \<Longrightarrow> map_number (sn_map S) s < length (sn_table S)"
  using numbers_ofD(1,2,3) [of g S] by (auto simp: map_number_def numbered_def split: option.split)

lemma numberedD: "numbered S \<Longrightarrow> sn_map S s = Some k \<longleftrightarrow> k < length (sn_table S) \<and> sn_table S ! k = s"
  by (simp add: numbered_def)

lemma number_unique: "numbers_of g S \<Longrightarrow> k < length (sn_table S) \<Longrightarrow> map_number (sn_map S) (sn_table S ! k) = k"
  using numberedD [OF numbers_ofD(1), of g S "sn_table S ! k" k] by (simp add: map_number_def)

lemma number_at: "numbers_of g S \<Longrightarrow> s \<in> set (sn_table S) \<Longrightarrow> sn_table S ! map_number (sn_map S) s = s"
  using number_unique [of g S] by (auto simp: in_set_conv_nth)

lemma transition_symbols:
  assumes "numbers_of g S" and "tr \<in> all_transitions g"
  shows "tr_input tr \<in> set (sn_table S)" and "tr_output tr \<in> set (sn_table S)"
  using numbers_ofD(5) [OF assms(1)] assms(2) by (auto simp: read_symbols_def read_flags_def written_symbols_def)

section \<open>The parts of the conversion\<close>

lemma start_index_irrelevant [simp]:
  "holds fs xs (p\<lparr>sp_start_index := i\<rparr>) = holds fs xs p" "is_simple (p\<lparr>sp_start_index := i\<rparr>) = is_simple p"
  "group_of (p\<lparr>sp_start_index := i\<rparr>) = group_of p"
proof -
  have present: "input_present (p\<lparr>sp_start_index := i\<rparr>) = input_present p" by (simp add: input_present_def fun_eq_iff)
  then show group: "group_of (p\<lparr>sp_start_index := i\<rparr>) = group_of p" by (simp add: group_of_def fun_eq_iff)
  show "holds fs xs (p\<lparr>sp_start_index := i\<rparr>) = holds fs xs p" by (simp add: holds_def groups_ok_def present group)
qed (simp add: is_simple_def)

lemma packed_stands_for:
  assumes "packed fs ps k" and "stands_for S g ps"
  shows "stands_for S g (pk_states k)"
proof -
  have len: "length (pk_states k) = length ps" using assms(1) by (simp add: packed_def)
  have "holds (sn_flags S) (map (tp_of S) (state_vector g ! s)) (pk_states k ! s) \<and> sp_number (pk_states k ! s) = s \<and>
      sp_first_transition (pk_states k ! s) = state_base g s \<and> sp_final (pk_states k ! s) = is_final_state s g \<and>
      sp_final_weight (pk_states k ! s) = final_of g s" if s: "s < length ps" for s
  proof -
    from assms(1) s obtain i where "pk_states k ! s = (ps ! s)\<lparr>sp_start_index := i\<rparr>" by (auto simp: packed_def)
    with assms(2) s show ?thesis by (simp add: stands_for_def)
  qed
  with assms(2) show ?thesis by (simp add: stands_for_def len)
qed

lemma rmap_list_total: "(\<forall>x \<in> set xs. \<exists>y. f x = Inr y) \<Longrightarrow> \<exists>ys. rmap_list f xs = Inr ys"
  by (induction xs) (auto simp: result_simps)

text \<open>The offset of an index entry lies inside the entries of its state.\<close>

lemma slot_symbol_offset:
  assumes h: "holds fs xs p" and fs: "finite fs" "0 \<notin> fs" and y: "\<exists>trs \<in> set (sp_groups p). y = index_offset fs trs"
  shows "\<exists>offset. symbol_offset fs y p = Inr offset \<and> offset \<le> length xs"
proof -
  from y have y: "y = 0 \<or> y \<in> set (other_order fs p)" unfolding group_offsets [OF h fs] by blast
  show ?thesis
  proof (cases "y = 0")
    case True
    then show ?thesis by (simp add: symbol_offset_def)
  next
    case False
    with y set_orders(2) [OF fs, of p] have "input_present p y" "y \<notin> fs" by auto
    from symbol_offset_ok [OF fs(1) this(1) False this(2), of undefined "[]"] obtain A B where
      AB: "input_order fs p = zero_order fs p @ A @ y # B" "symbol_offset fs y p = Inr (length (entries undefined [] p (zero_order fs p @ A)))"
      by blast
    have "length (entries undefined [] p (zero_order fs p @ A)) \<le> length (entries undefined [] p (input_order fs p))"
      unfolding AB(1) by simp
    then show ?thesis using AB(2) length_entries [OF h fs, of undefined "[]"] by simp
  qed
qed

lemma index_offset_bound:
  assumes h: "holds fs xs p" and fs: "finite fs" "0 \<notin> fs" and m: "0 < m" "\<forall>t \<in> set xs. tp_input t < m" and trs: "trs \<in> set (sp_groups p)"
  shows "index_offset fs trs < m"
proof -
  from trs group_offsets [OF h fs, of "index_offset fs trs"] have
    "index_offset fs trs = 0 \<or> index_offset fs trs \<in> set (other_order fs p)" by blast
  then show ?thesis using m set_orders(2) [OF fs, of p] h by (fastforce simp: holds_def)
qed

lemma write_index_table_total:
  assumes k: "packed fs ps k" "stands_for S g (pk_states k)" and fs: "fs = sn_flags S" "finite fs" "0 \<notin> fs"
  shows "\<exists>wi. write_index_table bits S k = Inr wi"
proof -
  have "\<exists>x. index_entry bits fs k i = Inr x" for i
  proof (cases "slot (pk_indices k) i")
    case None
    then show ?thesis by (simp add: index_entry_def slot_None)
  next
    case (Some sy)
    obtain s y where sy: "sy = (s, y)" by (cases sy)
    have slot: "used (pk_indices k) i" "ip_target (pk_indices k) i = (s, y)" using Some sy by (auto simp: slot_def split: if_splits)
    from Some sy k(1) have s: "s < length (pk_states k)" "state_slot fs (pk_states k ! s) i y" by (auto simp: packed_def)
    have "\<exists>offset. symbol_offset fs y (pk_states k ! s) = Inr offset" if "y \<noteq> no_symbol_number"
    proof -
      have "holds fs (map (tp_of S) (state_vector g ! s)) (pk_states k ! s)" using k(2) s(1) fs(1) by (simp add: stands_for_def)
      moreover have "\<exists>trs \<in> set (sp_groups (pk_states k ! s)). y = index_offset fs trs" using s(2) that by (auto simp: state_slot_def)
      ultimately show ?thesis using slot_symbol_offset [OF _ fs(2,3)] by blast
    qed
    then show ?thesis using slot by (auto simp: index_entry_def Let_def)
  qed
  then have "\<exists>ys. rmap_list (index_entry bits fs k) [0..<length (ip_indices (pk_indices k)) - 1 + 1] = Inr ys"
    by (intro rmap_list_total ballI)
  then obtain ys where "rmap_list (index_entry bits fs k) [0..<length (ip_indices (pk_indices k)) - 1 + 1] = Inr ys" ..
  then show ?thesis by (simp add: write_index_table_def Let_def fs(1) del: upt_Suc)
qed

section \<open>The conversion returns\<close>

lemma concat_blocks_length:
  assumes g: "stands_for S g ps" and fs: "finite (sn_flags S)" "0 \<notin> sn_flags S" and "ps \<noteq> []"
  shows "Suc (length (concat (map (block bits (sn_flags S) ps) ps))) = state_base g (length (state_vector g))"
proof -
  have len: "length ps = length (state_vector g)" using g by (simp add: stands_for_def)
  from assms(4) obtain n where n: "length ps = Suc n" by (cases ps) auto
  with blocks_length [OF g fs, of n bits] len show ?thesis by simp
qed

lemma stands_for_targets:
  assumes "stands_for S g ps" and "wf_graph g" and "p \<in> set ps"
  shows "targets_ok ps p"
proof -
  from assms(3) obtain s where s: "s < length ps" "p = ps ! s" by (auto simp: in_set_conv_nth)
  have len: "length ps = length (state_vector g)" using assms(1) by (simp add: stands_for_def)
  have "group_of p j = filter (\<lambda>t. tp_input t = j) (map (tp_of S) (state_vector g ! s))" for j
    using assms(1) s by (simp add: stands_for_def holds_def)
  moreover have "tr_target tr < length ps" if "tr \<in> set (state_vector g ! s)" for tr
    using wf_graph_target [OF assms(2), of tr s] that s(1) len by (simp add: transitions_of_def)
  ultimately show ?thesis by (auto simp: targets_ok_def tp_of_def)
qed

lemma states_inputs:
  assumes "numbers_of g S" and "s < length (state_vector g)"
  shows "\<forall>t \<in> set (map (tp_of S) (state_vector g ! s)). tp_input t < length (sn_table S)"
  using number_bound [OF assms(1)] by (simp add: tp_of_def)

lemma packing_of_graph:
  assumes g: "convertible g" and S: "numbers_of g S" "length (sn_table S) = card (used_symbols g)"
  shows "\<exists>ps wi wt. second_pass S (state_vector g) (first_pass_states g) = Inr ps \<and>
     write_index_table bits S (pack_states (sn_flags S) (sn_seen S) ps) = Inr wi \<and>
     write_transitions bits (sn_flags S) (pk_states (pack_states (sn_flags S) (sn_seen S) ps)) = Inr wt \<and>
     ((\<forall>w. bits w < 4294967295) \<longrightarrow> converted bits S g (pack_states (sn_flags S) (sn_seen S) ps) wi wt)"
proof -
  have n: "length (sn_table S) \<le> 32766" using convertibleD(5) [OF g] S(2) by simp
  have small: "map_number (sn_map S) s < 65535" for s using number_bound [OF S(1), of s] n by simp
  from second_pass_stands_for [OF this] obtain ps where
    ps: "second_pass S (state_vector g) (first_pass_states g) = Inr ps" "stands_for S g ps" "\<forall>p \<in> set ps. sp_start_index p = None" by blast
  let ?fs = "sn_flags S" and ?k = "pack_states (sn_flags S) (sn_seen S) ps"
  have fs: "finite ?fs" "0 \<notin> ?fs"
  proof -
    have "?fs \<subseteq> {..<length (sn_table S)}" using numbers_ofD(7) [OF S(1)] by auto
    then show "finite ?fs" using finite_subset by blast
    show "0 \<notin> ?fs" using numbers_ofD(4,7) [OF S(1)] epsilon_not_flag [of g] by metis
  qed
  have sv: "state_vector g \<noteq> []" using convertibleD(1) [OF g] by (simp add: wf_graph_def)
  have len: "length ps = length (state_vector g)" using ps(2) by (simp add: stands_for_def)
  have "\<forall>s < length ps. sp_number (ps ! s) = s \<and> sp_start_index (ps ! s) = None"
    using ps(2,3) by (simp add: stands_for_def)
  then have k: "packed ?fs ps ?k" by (rule pack_states_packed)
  then have sf: "stands_for S g (pk_states ?k)" using packed_stands_for ps(2) by blast
  from write_index_table_total [OF k sf refl fs] obtain wi where wi: "write_index_table bits S ?k = Inr wi" by blast
  have "\<forall>p \<in> set (pk_states ?k). targets_ok (pk_states ?k) p" using stands_for_targets [OF sf convertibleD(1) [OF g]] by blast
  from write_transitions_ok [OF this, of bits ?fs] obtain pad where
    wt: "ot_input pad = no_symbol_number" "write_transitions bits ?fs (pk_states ?k) = Inr (concat (map (block bits ?fs (pk_states ?k)) (pk_states ?k)) @ [pad])"
    by blast
  let ?wt = "concat (map (block bits ?fs (pk_states ?k)) (pk_states ?k)) @ [pad]"
  have ne: "pk_states ?k \<noteq> []" using sf sv by (auto simp: stands_for_def)
  have "length ?wt \<le> target_table_start" using concat_blocks_length [OF sf fs ne, of bits] convertibleD(7) [OF g] by simp
  moreover have "length wi + 65536 \<le> target_table_start"
  proof -
    have "index_offset ?fs trs < length (sn_table S)" if p: "p \<in> set ps" "trs \<in> set (sp_groups p)" for p trs
    proof -
      from p(1) obtain s where s: "s < length ps" "p = ps ! s" by (auto simp: in_set_conv_nth)
      have "holds ?fs (map (tp_of S) (state_vector g ! s)) p" using ps(2) s by (simp add: stands_for_def)
      moreover have "0 < length (sn_table S)" using numbers_ofD(2,3) [OF S(1)] by linarith
      moreover have "\<forall>t \<in> set (map (tp_of S) (state_vector g ! s)). tp_input t < length (sn_table S)"
        using states_inputs [OF S(1)] s(1) len by simp
      ultimately show ?thesis using index_offset_bound [OF _ fs _ _ p(2)] by blast
    qed
    then have "\<forall>p \<in> set ps. \<forall>trs \<in> set (sp_groups p). index_offset ?fs trs < length (sn_table S)" by blast
    from pack_states_length [OF this, of "sn_seen S"] have "length (ip_indices (pk_indices ?k)) \<le> length ps * (length (sn_table S) + 1)" by blast
    moreover have "length wi = length (ip_indices (pk_indices ?k)) - 1 + 1 + sn_seen S"
    proof -
      from wi obtain xs where "rmap_list (index_entry bits ?fs ?k) [0..<length (ip_indices (pk_indices ?k)) - 1 + 1] = Inr xs" "wi = xs @ replicate (sn_seen S) blank_index"
        by (auto simp: write_index_table_def Let_def result_simps simp del: upt_Suc)
      with rmap_list_nth [OF this(1)] show ?thesis by simp
    qed
    moreover have "sn_seen S \<le> 32766" using numbers_ofD(3) [OF S(1)] n by simp
    ultimately show ?thesis using convertibleD(6) [OF g] S(2) len by simp
  qed
  moreover have "\<forall>s < length (pk_states ?k). sp_start_index (pk_states ?k ! s) = None \<longleftrightarrow> is_simple (pk_states ?k ! s)"
    using k by (auto simp: packed_def)
  moreover have "sp_start_index (pk_states ?k ! 0) = Some 0"
  proof -
    have "ps \<noteq> []" using len sv by auto
    moreover from this have "holds ?fs (map (tp_of S) (state_vector g ! 0)) (ps ! 0)" "sp_number (ps ! 0) = 0"
      using ps(2) by (auto simp: stands_for_def)
    then have "\<not> is_simple (ps ! 0)" by (simp add: is_simple_def holds_def indexing_of_def)
    ultimately show ?thesis using pack_states_start [of ps] by (simp add: hd_conv_nth)
  qed
  moreover have "\<forall>pos s y. slot (pk_indices ?k) pos = Some (s, y) \<longleftrightarrow> s < length (pk_states ?k) \<and> state_slot ?fs (pk_states ?k ! s) pos y"
    using k unfolding packed_def by metis
  ultimately have "(\<forall>w. bits w < 4294967295) \<longrightarrow> converted bits S g ?k wi ?wt"
    using sf fs sv small wi wt(1) unfolding converted_def by blast
  then show ?thesis using ps(1) wi wt(2) by blast
qed

text \<open>The result of the conversion: a transducer, the numbers of its symbols and the packing of its states.\<close>

definition conversion_of :: "('w::zero \<Rightarrow> nat) \<Rightarrow> 'w hbt \<Rightarrow> symbol_numbers \<Rightarrow> 'w packing \<Rightarrow> ol_transducer \<Rightarrow> bool" where
  "conversion_of bits g S k t \<longleftrightarrow> convertible g \<and> numbers_of g S \<and> length (sn_table S) \<le> 32766 \<and>
     converted bits S g k (index_table (tables t)) (transition_table (tables t)) \<and> weighted_tables (tables t) \<and>
     ol_alphabet_new (sn_table S) = Inr (ol_alpha t) \<and> symbol_table (ol_alpha t) = sn_table S \<and>
     classified (length (sn_table S)) (sn_table S) (ol_alpha t) \<and> new_encoder (sn_table S) (sn_seen S) = Inr (ol_encoder t)"

lemma conversion_ofD:
  assumes "conversion_of bits g S k t"
  shows "convertible g" "numbers_of g S" "length (sn_table S) \<le> 32766"
    "converted bits S g k (index_table (tables t)) (transition_table (tables t))" "weighted_tables (tables t)"
    "ol_alphabet_new (sn_table S) = Inr (ol_alpha t)" "symbol_table (ol_alpha t) = sn_table S"
    "classified (length (sn_table S)) (sn_table S) (ol_alpha t)" "new_encoder (sn_table S) (sn_seen S) = Inr (ol_encoder t)"
    "orig_symbol_count (ol_alpha t) = length (sn_table S)" "alphabet_ok (ol_alpha t)"
proof -
  show parts: "convertible g" "numbers_of g S" "length (sn_table S) \<le> 32766"
    "converted bits S g k (index_table (tables t)) (transition_table (tables t))" "weighted_tables (tables t)"
    "ol_alphabet_new (sn_table S) = Inr (ol_alpha t)" "symbol_table (ol_alpha t) = sn_table S"
    "classified (length (sn_table S)) (sn_table S) (ol_alpha t)" "new_encoder (sn_table S) (sn_seen S) = Inr (ol_encoder t)"
    using assms by (simp_all add: conversion_of_def)
  have ne: "sn_table S \<noteq> []" using numbers_ofD(2,3) [OF parts(2)] by auto
  then have "hd (sn_table S) = internal_epsilon" using numbers_ofD(4) [OF parts(2)] by (simp add: hd_conv_nth)
  with ol_alphabet_new_ok [OF parts(6,3) ne] show "orig_symbol_count (ol_alpha t) = length (sn_table S)" "alphabet_ok (ol_alpha t)"
    by (simp_all add: special_not_diacritic)
qed

lemma conversion_returns:
  assumes g: "convertible g" and bits: "\<forall>w. bits w < 4294967295"
  shows "\<exists>t S k. hfst_basic_transducer_to_hfst_ol bits g weighted None = Inr t \<and> conversion_of bits g S k t"
proof -
  have card: "card (used_symbols g) \<le> 32766" by (rule convertibleD(5) [OF g])
  then have "card (used_symbols g) \<le> 65535" by simp
  from numbers_of_graph [OF this epsilon_not_flag] obtain S where
    S: "collect_numbers (read_symbols g) (read_flags g) (written_symbols g) = Inr S" "numbers_of g S" "length (sn_table S) = card (used_symbols g)"
    by blast
  from packing_of_graph [OF g S(2,3), of bits] obtain ps wi wt where
    ps: "second_pass S (state_vector g) (first_pass_states g) = Inr ps"
      "write_index_table bits S (pack_states (sn_flags S) (sn_seen S) ps) = Inr wi"
      "write_transitions bits (sn_flags S) (pk_states (pack_states (sn_flags S) (sn_seen S) ps)) = Inr wt"
      "converted bits S g (pack_states (sn_flags S) (sn_seen S) ps) wi wt" using bits by blast
  have ne: "sn_table S \<noteq> []" using numbers_ofD(2,3) [OF S(2)] by auto
  have "distinct (sn_table S)" "\<not> is_diacritic (sn_table S ! 0)"
    using numbers_ofD(1,4) [OF S(2)] special_not_diacritic(1) by (simp_all add: numbered_def)
  with ol_alphabet_new_classified [OF _ _ ne] card S(3) obtain a where
    a: "ol_alphabet_new (sn_table S) = Inr a" "classified (length (sn_table S)) (sn_table S) a" by auto
  have hd: "hd (sn_table S) = internal_epsilon" using ne numbers_ofD(4) [OF S(2)] by (simp add: hd_conv_nth)
  have table: "symbol_table a = sn_table S" "orig_symbol_count a = length (sn_table S)"
    using ol_alphabet_new_ok [OF a(1) _ ne] card S(3) by (simp_all add: hd special_not_diacritic)
  have "set (sn_table S) = used_symbols g" using numbers_ofD(5) [OF S(2)] by (simp add: used_symbols_def)
  then have "\<forall>s \<in> set (symbol_table a). s \<noteq> [] \<and> CHR 0x00 \<notin> set s \<and> utf8_ok s"
    using convertibleD(2) [OF g] used_symbols_nonempty [OF g] table(1) by auto
  from new_encoder_ok [OF this, of "sn_seen S"] obtain e where e: "new_encoder (sn_table S) (sn_seen S) = Inr e"
    using table numbers_ofD(3) [OF S(2)] card S(3) by auto
  have short: "size_t_to_ushort (length (sn_table S)) = Inr (length (sn_table S))" using card S(3) by (simp add: size_t_to_ushort_def)
  let ?t = "\<lparr>ol_head = new_header (sn_seen S) (length (sn_table S)) (length wi) (length wt) weighted, ol_alpha = a,
      tables = \<lparr>weighted_tables = True, index_table = wi, transition_table = wt\<rparr>, ol_encoder = e\<rparr>"
  have "get_states_and_symbols g None = Inr (S, ps)"
    by (simp add: get_states_and_symbols_def first_pass_collected S(1) ps(1))
  moreover have "new_transducer (new_header (sn_seen S) (length (sn_table S)) (length wi) (length wt) weighted) a
      \<lparr>weighted_tables = True, index_table = wi, transition_table = wt\<rparr> = Inr ?t"
    by (simp add: new_transducer_def new_header_def table(1) e)
  ultimately have "hfst_basic_transducer_to_hfst_ol bits g weighted None = Inr ?t"
    by (simp add: hfst_basic_transducer_to_hfst_ol_def ps(2,3) a(1) short Let_def)
  moreover have "conversion_of bits g S (pack_states (sn_flags S) (sn_seen S) ps) ?t"
    using g S(2,3) card ps(4) a e table(1) by (simp add: conversion_of_def)
  ultimately show ?thesis by blast
qed

section \<open>The transducer is well-formed\<close>

lemma flag_number:
  assumes c: "conversion_of bits g S k t" and s: "s \<in> set (sn_table S)"
  shows "is_flag_diacritic (ol_alpha t) (map_number (sn_map S) s) \<longleftrightarrow> is_diacritic s"
proof -
  note S = conversion_ofD(2) [OF c]
  have "knows_flag (ol_fd_table (ol_alpha t)) (sn_table S ! map_number (sn_map S) s) (map_number (sn_map S) s)"
    using conversion_ofD(8) [OF c] number_bound [OF S, of s] by (simp add: classified_def)
  then show ?thesis unfolding number_at [OF S s]
    by (auto simp: knows_flag_def is_flag_diacritic_def table_is_diacritic_def split: if_splits)
qed

lemma conversion_same_flags:
  assumes c: "conversion_of bits g S k t"
  shows "same_flags S g (ol_alpha t)"
proof -
  note S = conversion_ofD(2) [OF c]
  have "is_flag_diacritic (ol_alpha t) (map_number (sn_map S) (tr_input tr)) \<longleftrightarrow> map_number (sn_map S) (tr_input tr) \<in> sn_flags S"
    if "tr \<in> set (transitions_of g s)" for s tr
  proof -
    note tr = transitions_of_all [OF that]
    note table = transition_symbols(1) [OF S tr]
    have "map_number (sn_map S) (tr_input tr) \<in> sn_flags S \<longleftrightarrow> tr_input tr \<in> read_flags g"
      using numbers_ofD(7) [OF S] number_bound [OF S, of "tr_input tr"] number_at [OF S table] by simp
    also have "\<dots> \<longleftrightarrow> is_diacritic (tr_input tr)"
      using flag_symbol_read [OF conversion_ofD(1) [OF c] tr] tr by (auto simp: read_flags_def)
    finally show ?thesis using flag_number [OF c table] by simp
  qed
  moreover have "\<not> is_flag_diacritic (ol_alpha t) no_symbol_number"
    using conversion_ofD(3,7,11) [OF c]
    by (cases "operations (ol_fd_table (ol_alpha t)) no_symbol_number")
      (fastforce simp: alphabet_ok_def is_flag_diacritic_def table_is_diacritic_def no_symbol_number_def)+
  ultimately show ?thesis unfolding same_flags_def by blast
qed

text \<open>A special symbol that the alphabet knows is an input symbol.\<close>

lemma special_numbers:
  assumes c: "conversion_of bits g S k t" and n: "asked_for (ol_alpha t) (sn_seen S) y"
  shows "y < sn_seen S"
proof (cases "y < sn_seen S")
  case False
  note S = conversion_ofD(2) [OF c]
  have "\<exists>s \<in> {internal_unknown, internal_identity, internal_default}. stands_at (length (sn_table S)) (sn_table S) s y" and "y \<noteq> no_symbol_number"
    using n False conversion_ofD(8) [OF c] by (auto simp: asked_for_def classified_def)
  then obtain s where s: "s \<in> {internal_unknown, internal_identity, internal_default}" "y < length (sn_table S)" "sn_table S ! y = s"
    by (auto simp: stands_at_def)
  then have "s \<in> set (sn_table S)" using nth_mem [OF s(2)] by simp
  moreover have "\<not> is_diacritic s" "s \<noteq> internal_epsilon" using s(1) special_not_diacritic special_distinct by auto
  then have "s \<notin> read_flags g"
    using s(1) by (auto simp: read_flags_def flag_symbol_def is_insertion_def starts_with_def str_find_def internal_unknown_def internal_identity_def internal_default_def)
  ultimately have "s \<in> read_symbols g"
    using s(1) numbers_ofD(5) [OF S] convertibleD(4) [OF conversion_ofD(1) [OF c]] \<open>s \<noteq> internal_epsilon\<close> by auto
  then show ?thesis using numbers_ofD(6) [OF S s(2)] s(3) by simp
qed

lemma target_valid:
  assumes c: "conversion_of bits g S k t" and s: "s < length (pk_states k)"
  shows "valid_index (ol_alpha t) (sn_seen S) (tables t) (target_index (pk_states k) s)"
proof (cases "is_simple (pk_states k ! s)")
  case True
  note cv = conversion_ofD(4) [OF c]
  note i = state_index_simple [OF cv s True]
  have "target_index (pk_states k) s - target_table_start + 1 = state_base g s" using i by simp
  then show ?thesis using table_of_state(3) [OF cv s] i(1) by (simp add: valid_index_def)
next
  case False
  note cv = conversion_ofD(4) [OF c]
  from state_index_nonsimple [OF cv s False] obtain i where
    i: "target_index (pk_states k) s = i" "i < length (index_table (tables t))" "i < target_table_start" "slot (pk_indices k) i = Some (s, no_symbol_number)" by blast
  have "used (pk_indices k) i" by (rule slot_entry(3) [OF cv i(4)])
  then have "i < length (ip_indices (pk_indices k))" by (rule used_length)
  moreover have "length (index_table (tables t)) = length (ip_indices (pk_indices k)) - 1 + 1 + sn_seen S" by (rule index_table_length(1) [OF cv])
  moreover have "0 < sn_seen S" using numbers_ofD(2) [OF conversion_ofD(2) [OF c]] .
  ultimately have room: "i + 1 + y < length (index_table (tables t))" if "y < sn_seen S" for y using that by linarith
  have "i + 1 + y < length (index_table (tables t))" if "y = 0 \<or> asked_for (ol_alpha t) (sn_seen S) y" for y
    using that special_numbers [OF c, of y] \<open>0 < sn_seen S\<close> by (intro room) auto
  then show ?thesis using i by (simp add: valid_index_def)
qed

lemma entry_origin:
  assumes cv: "converted bits S g k wi wt" and x: "x \<in> set wt" "ot_input x \<noteq> no_symbol_number"
  shows "\<exists>s < length (pk_states k). \<exists>tr \<in> set (state_vector g ! s).
     x = encoded bits (pk_states k) (map_number (sn_map S) (tr_input tr)) (tp_of S tr)"
proof -
  from cv obtain pad where "ot_input pad = no_symbol_number" "wt = concat (map (block bits (sn_flags S) (pk_states k)) (pk_states k)) @ [pad]"
    by (auto simp: converted_def)
  with x obtain p where p: "p \<in> set (pk_states k)" "x \<in> set (block bits (sn_flags S) (pk_states k) p)" by auto
  then obtain s where s: "s < length (pk_states k)" "p = pk_states k ! s" by (auto simp: in_set_conv_nth)
  from p(2) x(2) obtain y t where y: "t \<in> set (group_of p y)" "x = encoded bits (pk_states k) y t"
    by (auto simp: block_def final_marker_def entries_def split: if_splits)
  have "holds (sn_flags S) (map (tp_of S) (state_vector g ! s)) p" using placeholder_facts(1) [OF cv s(1)] s(2) by simp
  then have "group_of p y = filter (\<lambda>t. tp_input t = y) (map (tp_of S) (state_vector g ! s))" by (simp add: holds_def)
  with y(1) obtain tr where "tr \<in> set (state_vector g ! s)" "t = tp_of S tr" "y = map_number (sn_map S) (tr_input tr)"
    by (auto simp: tp_of_def)
  then show ?thesis using s(1) y(2) by blast
qed

lemma tables_of_conversion: "conversion_of bits g S k t \<Longrightarrow>
    tables t = \<lparr>weighted_tables = True, index_table = index_table (tables t), transition_table = transition_table (tables t)\<rparr>"
  using conversion_ofD(5) [of bits g S k t] by (cases "tables t") simp

lemma index_entry_leads:
  assumes c: "conversion_of bits g S k t" and pos: "pos < length (index_table (tables t))" "ti_input (index_table (tables t) ! pos) \<noteq> no_symbol_number"
  shows "transitions_from (tables t) (minus_start (ti_first (index_table (tables t) ! pos))) \<noteq> []"
proof -
  let ?wi = "index_table (tables t)" and ?wt = "transition_table (tables t)" and ?fs = "sn_flags S"
  note cv = conversion_ofD(4) [OF c]
  have "slot (pk_indices k) pos \<noteq> None" using no_slot_entry [OF cv _ pos(1)] pos(2) unfolding blank_index_def by fastforce
  then obtain s y where slot: "slot (pk_indices k) pos = Some (s, y)" by (metis not_None_eq prod.exhaust)
  have y: "ti_input (?wi ! pos) = y" by (rule slot_entry_input [OF cv slot])
  have s: "s < length (pk_states k)" "state_slot ?fs (pk_states k ! s) pos y" using slot convertedD(9) [OF cv] by blast+
  then obtain i where i: "sp_start_index (pk_states k ! s) = Some i" "pos = i + 1 + y"
    "\<exists>trs \<in> set (sp_groups (pk_states k ! s)). y = index_offset ?fs trs" using pos(2) y by (auto simp: state_slot_def)
  note h = placeholder_facts(1) [OF cv s(1)]
  have "0 < length (sn_table S)" using numbers_ofD(2,3) [OF conversion_ofD(2) [OF c]] by linarith
  from index_offset_bound [OF h convertedD(2,3) [OF cv] this] states_inputs [OF conversion_ofD(2) [OF c], of s] i(3) s(1) convertedD(1) [OF cv]
  have "y < length (sn_table S)" by (auto simp: stands_for_def)
  then have small: "y < no_symbol_number" using conversion_ofD(3) [OF c] by (simp add: no_symbol_number_def)
  from slot_symbol_offset [OF h convertedD(2,3) [OF cv] i(3)] obtain offset where
    offset: "symbol_offset ?fs y (pk_states k ! s) = Inr offset" "offset \<le> length (state_vector g ! s)" by auto
  from table_of_state(1) [OF cv s(1)] obtain rest where
    "drop (state_base g s) ?wt = entries bits (pk_states k) (pk_states k ! s) (input_order ?fs (pk_states k ! s)) @ rest" "rest \<noteq> []" by blast
  moreover have "length (entries bits (pk_states k) (pk_states k ! s) (input_order ?fs (pk_states k ! s))) = length (state_vector g ! s)"
    using length_entries [OF h convertedD(2,3) [OF cv], of bits "pk_states k"] by simp
  ultimately have "length (state_vector g ! s) < length (drop (state_base g s) ?wt)" by simp
  then have room: "state_base g s + offset < length ?wt" using offset(2) by simp
  from indexed_state(1) [OF cv s(1) i(1) small tables_of_conversion [OF c]] slot offset(1) room i(2)
  have "indexed (tables t) pos y = drop (state_base g s + offset) ?wt" by simp
  moreover have "drop (state_base g s + offset) ?wt \<noteq> []" using room by simp
  ultimately show ?thesis
    using pos(1) y convertedD(11) [OF cv] by (simp add: indexed_def table_at_def split: sum.splits if_splits)
qed

lemma conversion_tables_ok:
  assumes c: "conversion_of bits g S k t"
  shows "tables_ok (ol_alpha t) (sn_seen S) (tables t)" and "valid_index (ol_alpha t) (sn_seen S) (tables t) 0"
proof -
  note cv = conversion_ofD(4) [OF c] and S = conversion_ofD(2) [OF c]
  have len: "length (pk_states k) = length (state_vector g)" using convertedD(1) [OF cv] by (simp add: stands_for_def)
  have edge: "edge_ok (ol_alpha t) (sn_seen S) (tables t) x" if x: "x \<in> set (transition_table (tables t))" "ot_input x \<noteq> no_symbol_number" for x
  proof -
    from entry_origin [OF cv x] obtain s tr where
      o': "s < length (pk_states k)" "tr \<in> set (state_vector g ! s)" "x = encoded bits (pk_states k) (map_number (sn_map S) (tr_input tr)) (tp_of S tr)"
      by blast
    have "tr \<in> set (transitions_of g s)" using o'(1,2) len by (simp add: transitions_of_def)
    then have "tr_target tr < length (pk_states k)" using wf_graph_target [OF convertibleD(1) [OF conversion_ofD(1) [OF c]]] len by simp
    from target_valid [OF c this] show ?thesis
      using number_bound [OF S] conversion_ofD(7) [OF c] by (simp add: edge_ok_def o'(3) encoded_def tp_of_def)
  qed
  from cv obtain pad where pad: "ot_input pad = no_symbol_number"
    "transition_table (tables t) = concat (map (block bits (sn_flags S) (pk_states k)) (pk_states k)) @ [pad]" by (auto simp: converted_def)
  show "tables_ok (ol_alpha t) (sn_seen S) (tables t)"
    using edge pad convertedD(11,12) [OF cv] index_entry_leads [OF c] by (auto simp: tables_ok_def in_set_conv_nth)
  have "0 < length (pk_states k)" using convertedD(4) [OF cv] len by simp
  moreover from this have "target_index (pk_states k) 0 = 0"
    using convertedD(7) [OF cv, of 0] convertedD(8) [OF cv] by (simp add: target_index_def)
  ultimately show "valid_index (ol_alpha t) (sn_seen S) (tables t) 0" using target_valid [OF c, of 0] by simp
qed

lemma conversion_machine_ok:
  assumes c: "conversion_of bits g S k t"
  shows "machine_ok (sn_seen S) (new_machine t)"
proof (rule new_machine_ok)
  note S = conversion_ofD(2) [OF c] and table = conversion_ofD(7) [OF c]
  have ne: "sn_table S \<noteq> []" using numbers_ofD(2,3) [OF S] by auto
  show "ol_alphabet_new (symbol_table (ol_alpha t)) = Inr (ol_alpha t)" "new_encoder (symbol_table (ol_alpha t)) (sn_seen S) = Inr (ol_encoder t)"
    "length (symbol_table (ol_alpha t)) \<le> 32766" "symbol_table (ol_alpha t) \<noteq> []" "sn_seen S \<le> length (symbol_table (ol_alpha t))"
    using conversion_ofD(3,6,9) [OF c] ne numbers_ofD(3) [OF S] by (simp_all add: table)
  show "\<not> is_diacritic (hd (symbol_table (ol_alpha t)))"
    using numbers_ofD(4) [OF S] ne special_not_diacritic(1) by (simp add: table hd_conv_nth)
  have "set (sn_table S) = used_symbols g" using numbers_ofD(5) [OF S] by (simp add: used_symbols_def)
  then show "\<forall>s \<in> set (symbol_table (ol_alpha t)). s \<noteq> [] \<and> CHR 0x00 \<notin> set s \<and> utf8_ok s"
    using convertibleD(2) [OF conversion_ofD(1) [OF c]] used_symbols_nonempty [OF conversion_ofD(1) [OF c]] by (auto simp: table)
  show "tables_ok (ol_alpha t) (sn_seen S) (tables t)" "valid_index (ol_alpha t) (sn_seen S) (tables t) 0"
    by (rule conversion_tables_ok [OF c])+
qed

end
