(* ===== verification/OlGraphRuns.thy ===== *)
theory OlGraphRuns
  imports OlConverted
begin

text \<open>
  What a lookup in a converted graph finds, in terms of the graph. \<open>graph_run\<close> describes the
  accepting runs of a graph over a divided input, with symbols as strings and flags by their meaning; the
  runs over the tables of the converted transducer are shown to be the same. So a lookup, from the text
  to the strings of its results, returns what the graph accepts.
\<close>

section \<open>Runs of a graph\<close>

definition shown :: "string \<Rightarrow> string" where
  "shown s = (if s = internal_epsilon then [] else s)"

definition meta_symbol :: "string \<Rightarrow> bool" where
  "meta_symbol s \<longleftrightarrow> s \<in> {internal_unknown, internal_identity, internal_default}"

text \<open>The symbols that read a piece of the input when the symbols \<open>K\<close> are known: the piece itself, when it is known,
  identity and unknown otherwise, and always default.\<close>

definition reads :: "string set \<Rightarrow> string \<Rightarrow> string \<Rightarrow> bool" where
  "reads K piece s \<longleftrightarrow> (if piece \<in> insert internal_epsilon K then s = piece
     else s = internal_identity \<or> s = internal_unknown) \<or> s = internal_default"

inductive graph_run ::
  "string set \<Rightarrow> ('w::monoid_add) hbt \<Rightarrow> nat \<Rightarrow> nat \<Rightarrow> string list \<Rightarrow> flag_env \<Rightarrow> 'w \<Rightarrow> string_pair list \<Rightarrow> bool"
  for K :: "string set" and g :: "('w::monoid_add) hbt" where
  graph_final: "final_weight_map g s = Some w \<Longrightarrow> graph_run K g 0 s [] env w []"
| graph_free: "tr \<in> set (transitions_of g s) \<Longrightarrow> tr_input tr = internal_epsilon \<or> is_diacritic (tr_input tr) \<Longrightarrow>
    flag_step (tr_input tr) env = Some env' \<Longrightarrow> graph_run K g n (tr_target tr) ts env' w out \<Longrightarrow>
    graph_run K g (Suc n) s ts env (tr_weight tr + w) ((shown (tr_input tr), shown (tr_output tr)) # out)"
| graph_reads: "tr \<in> set (transitions_of g s) \<Longrightarrow> reads K piece (tr_input tr) \<Longrightarrow> graph_run K g n (tr_target tr) ts env w out \<Longrightarrow>
    graph_run K g (Suc n) s (piece # ts) env (tr_weight tr + w)
      ((shown (tr_input tr), shown (if meta_symbol (tr_output tr) then piece else tr_output tr)) # out)"

text \<open>Only what the transitions of the graph read matters.\<close>

lemma graph_run_known:
  assumes "graph_run K g n s ts env w out"
    and "\<forall>piece \<in> set ts. \<forall>tr \<in> all_transitions g. reads K piece (tr_input tr) \<longrightarrow> reads K' piece (tr_input tr)"
  shows "graph_run K' g n s ts env w out"
  using assms
proof (induction rule: graph_run.induct)
  case (graph_final s w env)
  then show ?case by (auto intro: graph_run.graph_final)
next
  case (graph_free tr s env env' n ts w out)
  then show ?case by (auto intro: graph_run.graph_free)
next
  case (graph_reads tr s piece n ts env w out)
  then have "reads K' piece (tr_input tr)" using transitions_of_all by auto
  from graph_run.graph_reads [OF graph_reads.hyps(1) this graph_reads.IH] graph_reads.prems show ?case by simp
qed

text \<open>Flags whose value is empty are left out: the number of the empty value means that the feature is unset.\<close>

definition flags_valued :: "'w hbt \<Rightarrow> bool" where
  "flags_valued g \<longleftrightarrow> (\<forall>s \<in> read_flags g. has_value s \<longrightarrow> get_value s \<noteq> Inr [])"

section \<open>The transitions that the lookup sees\<close>

lemma takeWhile_weaker: "(\<And>x. P x \<Longrightarrow> Q x) \<Longrightarrow> takeWhile P (takeWhile Q xs) = takeWhile P xs"
  by (induction xs) auto

lemma epsilon_number: "numbers_of g S \<Longrightarrow> map_number (sn_map S) internal_epsilon = 0"
proof -
  assume n: "numbers_of g S"
  then have "0 < length (sn_table S)" using numbers_ofD(2,3) by (metis less_le_trans)
  from number_unique [OF n this] numbers_ofD(4) [OF n] show ?thesis by simp
qed

lemma takeWhile_none: "\<forall>x \<in> set xs. \<not> P x \<Longrightarrow> takeWhile P xs = []"
  by (cases xs) auto

text \<open>A lookup context over the tables of a conversion; its alphabet may have grown.\<close>

definition converted_context ::
  "('w::monoid_add \<Rightarrow> nat) \<Rightarrow> 'w hbt \<Rightarrow> symbol_numbers \<Rightarrow> 'w packing \<Rightarrow> ol_transducer \<Rightarrow> string list \<Rightarrow> 'w lookup_context \<Rightarrow> bool" where
  "converted_context bits g S k t new c \<longleftrightarrow> conversion_of bits g S k t \<and> lc_tables c = tables t \<and>
     lc_alphabet c = (ol_alpha t)\<lparr>symbol_table := sn_table S @ new\<rparr> \<and> (\<forall>w. lc_wval c (bits w) = w)"

lemma converted_contextD:
  assumes "converted_context bits g S k t new c"
  shows "conversion_of bits g S k t" "lc_alphabet c = (ol_alpha t)\<lparr>symbol_table := sn_table S @ new\<rparr>" "\<And>w. lc_wval c (bits w) = w"
    "lc_tables c = \<lparr>weighted_tables = True, index_table = index_table (tables t), transition_table = transition_table (tables t)\<rparr>"
    "converted bits S g k (index_table (tables t)) (transition_table (tables t))" "numbers_of g S"
    "same_flags S g (lc_alphabet c)" "is_flag_diacritic (lc_alphabet c) = is_flag_diacritic (ol_alpha t)"
proof -
  show c: "conversion_of bits g S k t" "lc_alphabet c = (ol_alpha t)\<lparr>symbol_table := sn_table S @ new\<rparr>" "\<And>w. lc_wval c (bits w) = w"
    using assms by (simp_all add: converted_context_def)
  show "lc_tables c = \<lparr>weighted_tables = True, index_table = index_table (tables t), transition_table = transition_table (tables t)\<rparr>"
    using assms tables_of_conversion [OF c(1)] by (simp add: converted_context_def)
  show "converted bits S g k (index_table (tables t)) (transition_table (tables t))" "numbers_of g S"
    using conversion_ofD(2,4) [OF c(1)] by simp_all
  show flags: "is_flag_diacritic (lc_alphabet c) = is_flag_diacritic (ol_alpha t)" by (simp add: fun_eq_iff is_flag_diacritic_def c(2))
  show "same_flags S g (lc_alphabet c)" using conversion_same_flags [OF c(1)] by (simp add: same_flags_def flags)
qed

abbreviation number_of :: "symbol_numbers \<Rightarrow> string \<Rightarrow> nat" where
  "number_of S \<equiv> map_number (sn_map S)"

definition entry_of :: "('w \<Rightarrow> nat) \<Rightarrow> symbol_numbers \<Rightarrow> 'w packing \<Rightarrow> 'w transition \<Rightarrow> ol_transition" where
  "entry_of bits S k tr = encoded bits (pk_states k) (number_of S (tr_input tr)) (tp_of S tr)"

lemma entry_of_simps [simp]:
  "ot_input (entry_of bits S k tr) = number_of S (tr_input tr)" "ot_output (entry_of bits S k tr) = number_of S (tr_output tr)"
  "ot_target (entry_of bits S k tr) = target_index (pk_states k) (tr_target tr)" "ot_weight (entry_of bits S k tr) = bits (tr_weight tr)"
  by (simp_all add: entry_of_def encoded_def tp_of_def)

lemma entries_of_state:
  assumes c: "converted bits S g k wi wt" and s: "s < length (pk_states k)"
  shows "set (entries bits (pk_states k) (pk_states k ! s) ks) =
    entry_of bits S k ` {tr \<in> set (transitions_of g s). number_of S (tr_input tr) \<in> set ks}"
  unfolding entries_def by (auto simp: present_number(3) [OF c s] entry_of_def tp_of_def)

lemma epsilons_of_state:
  assumes c: "converted_context bits g S k t new c" and s: "s < length (pk_states k)"
  shows "set (epsilons_at c (target_index (pk_states k) s)) =
    entry_of bits S k ` {tr \<in> set (transitions_of g s). tr_input tr = internal_epsilon \<or> is_diacritic (tr_input tr)}"
proof -
  note d = converted_contextD [OF c]
  have zero: "number_of S (tr_input tr) \<in> set (zero_order (sn_flags S) (pk_states k ! s)) \<longleftrightarrow> tr_input tr = internal_epsilon \<or> is_diacritic (tr_input tr)"
    if tr: "tr \<in> set (transitions_of g s)" for tr
  proof -
    note table = transition_symbols(1) [OF d(6) transitions_of_all [OF tr]]
    have "number_of S (tr_input tr) = 0 \<longleftrightarrow> tr_input tr = internal_epsilon"
      using number_at [OF d(6) table] numbers_ofD(4) [OF d(6)] epsilon_number [OF d(6)] by auto
    moreover have "number_of S (tr_input tr) \<in> sn_flags S \<longleftrightarrow> is_diacritic (tr_input tr)"
      using d(7) tr flag_number [OF d(1) table] unfolding d(8) same_flags_def by blast
    moreover have "input_present (pk_states k ! s) (number_of S (tr_input tr))"
      unfolding present_number(1) [OF d(5) s] using tr by blast
    ultimately show ?thesis unfolding set_orders(1) [OF convertedD(2,3) [OF d(5)]] by auto
  qed
  show ?thesis unfolding epsilons_seen [OF d(5) s d(4,7)] entries_of_state [OF d(5) s] using zero by blast
qed

lemma symbols_of_state:
  assumes c: "converted_context bits g S k t new c" and s: "s < length (pk_states k)" and y: "y \<notin> sn_flags S" "y < no_symbol_number"
  shows "set (symbols_at c (target_index (pk_states k) s) y) =
    entry_of bits S k ` {tr \<in> set (transitions_of g s). number_of S (tr_input tr) = y}"
proof (cases "y = 0")
  case False
  note d = converted_contextD [OF c]
  have "set (symbols_at c (target_index (pk_states k) s) y) = set (entries bits (pk_states k) (pk_states k ! s) [y])"
    unfolding symbols_seen [OF d(5) s d(4) False y] by simp
  then show ?thesis unfolding entries_of_state [OF d(5) s] by simp
next
  case True
  note d = converted_contextD [OF c]
  let ?p = "pk_states k ! s" and ?E = "entries bits (pk_states k) (pk_states k ! s)"
  have "symbols_at c (target_index (pk_states k) s) 0 = takeWhile (\<lambda>x. ot_input x = 0) (epsilons_at c (target_index (pk_states k) s))"
    unfolding symbols_at_def epsilons_at_def by (rule takeWhile_weaker [symmetric]) (simp add: epslike_def)
  also have "\<dots> = takeWhile (\<lambda>x. ot_input x = 0) (?E (zero_order (sn_flags S) ?p))" unfolding epsilons_seen [OF d(5) s d(4,7)] ..
  also have "\<dots> = ?E (if input_present ?p 0 then [0] else [])"
  proof -
    let ?F = "filter (input_present ?p) (sorted_list_of_set (sn_flags S))"
    have "\<forall>x \<in> set (?E ?F). ot_input x \<noteq> 0"
    proof
      fix x assume "x \<in> set (?E ?F)"
      then have "ot_input x \<in> sn_flags S" using entries_input [of x bits "pk_states k" ?p ?F] convertedD(2) [OF d(5)] by simp
      then show "ot_input x \<noteq> 0" using convertedD(3) [OF d(5)] by metis
    qed
    then have none: "takeWhile (\<lambda>x. ot_input x = 0) (?E ?F) = []" by (rule takeWhile_none)
    have "\<forall>x \<in> set (?E (if input_present ?p 0 then [0] else [])). ot_input x = 0" by (auto simp: encoded_def)
    then show ?thesis unfolding zero_order_def entries_simps(3) by (subst takeWhile_append2) (blast, simp only: none append_Nil2)
  qed
  finally have seen: "symbols_at c (target_index (pk_states k) s) 0 = ?E (if input_present ?p 0 then [0] else [])" .
  have "number_of S (tr_input tr) \<in> set (if input_present ?p 0 then [0] else []) \<longleftrightarrow> number_of S (tr_input tr) = 0"
    if "tr \<in> set (transitions_of g s)" for tr
  proof -
    have "input_present ?p (number_of S (tr_input tr))" unfolding present_number(1) [OF d(5) s] using that by blast
    then show ?thesis by (cases "number_of S (tr_input tr) = 0") auto
  qed
  then have "{tr \<in> set (transitions_of g s). number_of S (tr_input tr) \<in> set (if input_present ?p 0 then [0] else [])} =
      {tr \<in> set (transitions_of g s). number_of S (tr_input tr) = 0}" by blast
  then show ?thesis unfolding True seen entries_of_state [OF d(5) s] by (rule arg_cong)
qed

lemma final_of_state:
  assumes c: "converted_context bits g S k t new c" and s: "s < length (pk_states k)"
  shows "final_at c (target_index (pk_states k) s) = final_weight_map g s"
  using final_seen [OF converted_contextD(5) [OF c] s _ converted_contextD(4) [OF c] refl] converted_contextD(3) [OF c] by blast

section \<open>Symbols of the input and of the results\<close>

lemma conversion_special:
  assumes c: "conversion_of bits g S k t" and z: "z \<in> set (sn_table S)" and k: "stands_at (length (sn_table S)) (sn_table S) s j"
  shows "number_of S z = j \<longleftrightarrow> z = s"
proof -
  note S = conversion_ofD(2) [OF c]
  have m: "number_of S z < length (sn_table S)" "sn_table S ! number_of S z = z" by (rule number_bound [OF S], rule number_at [OF S z])
  have n: "length (sn_table S) \<le> no_symbol_number" using conversion_ofD(3) [OF c] by (simp add: no_symbol_number_def)
  from k consider "j < length (sn_table S)" "sn_table S ! j = s" | "j = no_symbol_number" "\<forall>i < length (sn_table S). sn_table S ! i \<noteq> s"
    unfolding stands_at_def by blast
  then show ?thesis
  proof cases
    case 1
    then show ?thesis using m number_unique [OF S 1(1)] by auto
  next
    case 2
    then show ?thesis using m n by auto
  qed
qed

lemma conversion_specials:
  assumes c: "conversion_of bits g S k t" and z: "z \<in> set (sn_table S)"
  shows "number_of S z = unknown_symbol (ol_alpha t) \<longleftrightarrow> z = internal_unknown"
    and "number_of S z = identity_symbol (ol_alpha t) \<longleftrightarrow> z = internal_identity"
    and "number_of S z = default_symbol (ol_alpha t) \<longleftrightarrow> z = internal_default"
    and "number_of S z \<noteq> no_symbol_number"
proof -
  have "stands_at (length (sn_table S)) (sn_table S) internal_unknown (unknown_symbol (ol_alpha t))"
    "stands_at (length (sn_table S)) (sn_table S) internal_identity (identity_symbol (ol_alpha t))"
    "stands_at (length (sn_table S)) (sn_table S) internal_default (default_symbol (ol_alpha t))"
    using conversion_ofD(8) [OF c] by (simp_all add: classified_def)
  note special = this [THEN conversion_special [OF c z]]
  show "number_of S z = unknown_symbol (ol_alpha t) \<longleftrightarrow> z = internal_unknown" by (rule special(1))
  show "number_of S z = identity_symbol (ol_alpha t) \<longleftrightarrow> z = internal_identity" by (rule special(2))
  show "number_of S z = default_symbol (ol_alpha t) \<longleftrightarrow> z = internal_default" by (rule special(3))
  show "number_of S z \<noteq> no_symbol_number"
    using number_bound [OF conversion_ofD(2) [OF c], of z] conversion_ofD(3) [OF c] by (simp add: no_symbol_number_def)
qed

text \<open>The tape holds the pieces of the input.\<close>

definition tape_holds :: "'w hbt \<Rightarrow> symbol_numbers \<Rightarrow> string list \<Rightarrow> string list \<Rightarrow> nat list \<Rightarrow> bool" where
  "tape_holds g S new ts tape \<longleftrightarrow> length ts < length tape \<and> tape ! length ts = no_symbol_number \<and>
     (\<forall>w \<in> set new. w \<notin> insert internal_epsilon (read_symbols g)) \<and>
     (\<forall>j < length ts. tape ! j \<noteq> no_symbol_number \<and> tape ! j < length (sn_table S @ new) \<and> (sn_table S @ new) ! (tape ! j) = ts ! j \<and>
        (tape ! j < sn_seen S \<or> length (sn_table S) \<le> tape ! j))"

lemma tape_piece:
  assumes S: "numbers_of g S" and tape: "tape_holds g S new ts tape" and j: "j < length ts"
  shows "tape ! j < length (sn_table S) \<longleftrightarrow> ts ! j \<in> insert internal_epsilon (read_symbols g)"
    and "tape ! j < length (sn_table S) \<Longrightarrow> sn_table S ! (tape ! j) = ts ! j"
    and "tape ! j = 0 \<longleftrightarrow> ts ! j = internal_epsilon"
proof -
  have t: "tape ! j < length (sn_table S @ new)" "(sn_table S @ new) ! (tape ! j) = ts ! j" "tape ! j < sn_seen S \<or> length (sn_table S) \<le> tape ! j"
    "\<forall>w \<in> set new. w \<notin> insert internal_epsilon (read_symbols g)" using tape j by (auto simp: tape_holds_def)
  show own: "sn_table S ! (tape ! j) = ts ! j" if "tape ! j < length (sn_table S)" using t(2) that by (simp add: nth_append)
  show known: "tape ! j < length (sn_table S) \<longleftrightarrow> ts ! j \<in> insert internal_epsilon (read_symbols g)"
  proof (cases "tape ! j < length (sn_table S)")
    case True
    then show ?thesis using t(3) numbers_ofD(6) [OF S True] own by simp
  next
    case False
    then have "new ! (tape ! j - length (sn_table S)) = ts ! j" "tape ! j - length (sn_table S) < length new"
      using t(1,2) by (simp_all add: nth_append)
    then have "ts ! j \<in> set new" using nth_mem by metis
    then show ?thesis using t(4) False by blast
  qed
  show "tape ! j = 0 \<longleftrightarrow> ts ! j = internal_epsilon"
  proof
    assume "tape ! j = 0"
    then show "ts ! j = internal_epsilon" using own numbers_ofD(2,3,4) [OF S] by (metis less_le_trans)
  next
    assume e: "ts ! j = internal_epsilon"
    then have "tape ! j < length (sn_table S)" using known by blast
    then show "tape ! j = 0" using number_unique [OF S, of "tape ! j"] own epsilon_number [OF S] e by simp
  qed
qed

lemma in_readings: "k \<noteq> no_symbol_number \<Longrightarrow> k \<in> set (readings a y) \<longleftrightarrow>
     (if y < orig_symbol_count a then k = y else k = identity_symbol a \<or> k = unknown_symbol a) \<or> k = default_symbol a"
  by (auto simp: readings_def)

lemma readings_of_piece:
  assumes c: "converted_context bits g S k t new c" and tape: "tape_holds g S new ts (lc_input c)" and j: "j < length ts"
    and z: "z \<in> set (sn_table S)"
  shows "number_of S z \<in> set (readings (lc_alphabet c) (lc_input c ! j)) \<longleftrightarrow> reads (read_symbols g) (ts ! j) z"
proof -
  note d = converted_contextD [OF c]
  note special = conversion_specials [OF d(1) z] and piece = tape_piece [OF d(6) tape j]
  have orig: "orig_symbol_count (lc_alphabet c) = length (sn_table S)" using conversion_ofD(10) [OF d(1)] by (simp add: d(2))
  have own: "number_of S z = lc_input c ! j \<longleftrightarrow> z = ts ! j" if "lc_input c ! j < length (sn_table S)"
    using number_unique [OF d(6) that] number_at [OF d(6) z] piece(2) [OF that] by auto
  show ?thesis
  proof (cases "lc_input c ! j < length (sn_table S)")
    case True
    then show ?thesis using piece(1) own [OF True] special unfolding in_readings [OF special(4)] orig reads_def by (simp add: d(2))
  next
    case False
    then show ?thesis using piece(1) special unfolding in_readings [OF special(4)] orig reads_def by (simp add: d(2))
  qed
qed

lemma string_of_number:
  assumes c: "converted_context bits g S k t new c" and z: "z \<in> set (sn_table S)"
  shows "symbol_string (lc_alphabet c) (number_of S z) = shown z"
proof -
  note d = converted_contextD [OF c]
  have "number_of S z = 0 \<longleftrightarrow> z = internal_epsilon"
    using number_at [OF d(6) z] numbers_ofD(4) [OF d(6)] epsilon_number [OF d(6)] by auto
  then show ?thesis
    using number_at [OF d(6) z] number_bound [OF d(6), of z] by (simp add: symbol_string_def shown_def d(2) nth_append)
qed

lemma string_written:
  assumes c: "converted_context bits g S k t new c" and tape: "tape_holds g S new ts (lc_input c)" and j: "j < length ts"
    and tr: "tr \<in> all_transitions g"
  shows "symbol_string (lc_alphabet c) (written c j (entry_of bits S k tr)) = shown (if meta_symbol (tr_output tr) then ts ! j else tr_output tr)"
proof -
  note d = converted_contextD [OF c]
  note z = transition_symbols(2) [OF d(6) tr]
  have "is_meta_arc (lc_alphabet c) (number_of S (tr_output tr)) \<longleftrightarrow> meta_symbol (tr_output tr)"
    using conversion_specials [OF d(1) z] by (auto simp: is_meta_arc_def meta_symbol_def d(2))
  moreover have "symbol_string (lc_alphabet c) (lc_input c ! j) = shown (ts ! j)"
    using tape_piece(3) [OF d(6) tape j] tape j by (simp add: symbol_string_def shown_def d(2) tape_holds_def)
  ultimately show ?thesis using string_of_number [OF c z] by (simp add: written_def)
qed

section \<open>Flags\<close>

lemma flag_of_entry:
  assumes c: "converted_context bits g S k t new c" and v: "flags_valued g" and tr: "tr \<in> all_transitions g"
    and free: "tr_input tr = internal_epsilon \<or> is_diacritic (tr_input tr)"
    and fs: "fd_rel fs env" "st_table fs = ol_fd_table (ol_alpha t)"
  shows "case flag_step (tr_input tr) env of None \<Rightarrow> flag_through (lc_alphabet c) (entry_of bits S k tr) fs = None
     | Some env' \<Rightarrow> \<exists>fs'. flag_through (lc_alphabet c) (entry_of bits S k tr) fs = Some fs' \<and> fd_rel fs' env' \<and> st_table fs' = ol_fd_table (ol_alpha t)"
proof -
  note d = converted_contextD [OF c]
  let ?s = "tr_input tr" and ?m = "number_of S (tr_input tr)" and ?t = "ol_fd_table (ol_alpha t)"
  note z = transition_symbols(1) [OF d(6) tr]
  show ?thesis
  proof (cases "is_diacritic ?s")
    case False
    then have e: "?s = internal_epsilon" using free by simp
    then have "?m = 0" using epsilon_number [OF d(6)] by simp
    then show ?thesis using False fs by (simp add: flag_step_def flag_through_def)
  next
    case True
    have "?m \<noteq> 0" using number_at [OF d(6) z] numbers_ofD(4) [OF d(6)] True special_not_diacritic(1) by metis
    have "knows_flag ?t (sn_table S ! ?m) ?m"
      using conversion_ofD(8) [OF d(1)] number_bound [OF d(6), of ?s] by (simp add: classified_def)
    then obtain opn where opn: "operations ?t ?m = Some opn" "op_name opn = ?s" "symbol_map ?t ?s = Some ?m"
      unfolding number_at [OF d(6) z] using True by (auto simp: knows_flag_def)
    then have str: "get_operation_str ?t ?s = Some opn" by (simp add: get_operation_str_def get_operation_def)
    have "?s \<in> read_flags g" using True tr by (auto simp: read_flags_def flag_symbol_def)
    then have "fd_covers fs ?s" using v True str opn(2) fs(2) by (simp add: fd_covers_def flags_valued_def)
    from apply_operation_str_spec [OF fs(1) this] str fs(2) \<open>?m \<noteq> 0\<close> opn(1) show ?thesis
      by (auto simp: apply_operation_str_def flag_through_def get_operation_def d(2) split: option.splits)
  qed
qed

section \<open>The runs are the same\<close>

lemma readings_inputs:
  assumes c: "converted_context bits g S k t new c" and tape: "tape_holds g S new ts (lc_input c)" and j: "j < length ts"
    and y: "y \<in> set (readings (lc_alphabet c) (lc_input c ! j))"
  shows "y \<notin> sn_flags S" and "y < no_symbol_number"
proof -
  note d = converted_contextD [OF c]
  have orig: "orig_symbol_count (lc_alphabet c) = length (sn_table S)" using conversion_ofD(10) [OF d(1)] by (simp add: d(2))
  have ne: "y \<noteq> no_symbol_number" using y unfolding readings_def set_filter by blast
  have "y < sn_seen S"
  proof (cases "y = lc_input c ! j \<and> y < length (sn_table S)")
    case True
    then show ?thesis using tape j by (auto simp: tape_holds_def)
  next
    case False
    then have "y \<in> {identity_symbol (ol_alpha t), unknown_symbol (ol_alpha t), default_symbol (ol_alpha t)}"
      using y unfolding in_readings [OF ne] orig by (auto simp: d(2) split: if_splits)
    then show ?thesis using ne special_numbers [OF d(1), of y] by (simp add: asked_for_def)
  qed
  then have len: "y < length (sn_table S)" using numbers_ofD(3) [OF d(6)] by linarith
  then have "sn_table S ! y \<in> insert internal_epsilon (read_symbols g)"
    using numbers_ofD(6) [OF d(6)] \<open>y < sn_seen S\<close> by blast
  then have "sn_table S ! y \<notin> read_flags g" using epsilon_not_flag [of g] by (auto simp: read_symbols_def read_flags_def)
  then show "y \<notin> sn_flags S" using numbers_ofD(7) [OF d(6)] by blast
  show "y < no_symbol_number" using len conversion_ofD(3) [OF d(1)] by (simp add: no_symbol_number_def)
qed

lemma weight_of_entry:
  "converted_context bits g S k t new c \<Longrightarrow> get_weight (lc_wval c) (lc_tables c) (entry_of bits S k tr) = tr_weight tr"
  using converted_contextD(3,4) [of bits g S k t new c] by (simp add: get_weight_def)

lemma target_state:
  assumes c: "converted_context bits g S k t new c" and tr: "tr \<in> set (transitions_of g s)"
  shows "tr_target tr < length (pk_states k)"
proof -
  note d = converted_contextD [OF c]
  have "length (pk_states k) = length (state_vector g)" using convertedD(1) [OF d(5)] by (simp add: stands_for_def)
  then show ?thesis using wf_graph_target [OF convertibleD(1) [OF conversion_ofD(1) [OF d(1)]] tr] by simp
qed

lemma ol_run_graph_run:
  assumes c: "converted_context bits g S k t new c" and tape: "tape_holds g S new ts (lc_input c)" and v: "flags_valued g"
  shows "ol_run c n i pos fs w out \<Longrightarrow> i = target_index (pk_states k) s \<Longrightarrow> s < length (pk_states k) \<Longrightarrow> pos \<le> length ts \<Longrightarrow>
     fd_rel fs env \<Longrightarrow> st_table fs = ol_fd_table (ol_alpha t) \<Longrightarrow>
     graph_run (read_symbols g) g n s (drop pos ts) env w (tape_strings (lc_alphabet c) out)"
proof (induction arbitrary: s env rule: ol_run.induct)
  case (accepts pos i w fs)
  have "pos = length ts"
  proof (rule ccontr)
    assume "pos \<noteq> length ts"
    then show False using tape accepts by (auto simp: tape_holds_def)
  qed
  then show ?case using accepts final_of_state [OF c accepts.prems(2)] by (auto simp: tape_strings_def intro: graph_final)
next
  case (epsilon_or_flag x i fs fs' n pos w out)
  note d = converted_contextD [OF c]
  from epsilon_or_flag.hyps(1) obtain tr where tr: "tr \<in> set (transitions_of g s)" "tr_input tr = internal_epsilon \<or> is_diacritic (tr_input tr)"
    "x = entry_of bits S k tr" unfolding epsilon_or_flag.prems(1) epsilons_of_state [OF c epsilon_or_flag.prems(2)] by blast
  note all = transitions_of_all [OF tr(1)]
  from flag_of_entry [OF c v all tr(2) epsilon_or_flag.prems(4,5)] epsilon_or_flag.hyps(2) obtain env' where
    env': "flag_step (tr_input tr) env = Some env'" "fd_rel fs' env'" "st_table fs' = ol_fd_table (ol_alpha t)"
    unfolding tr(3) by (auto split: option.splits)
  have "graph_run (read_symbols g) g n (tr_target tr) (drop pos ts) env' w (tape_strings (lc_alphabet c) out)"
    by (rule epsilon_or_flag.IH) (use tr(3) target_state [OF c tr(1)] epsilon_or_flag.prems(3) env' in simp_all)
  from graph_free [OF tr(1,2) env'(1) this] show ?case
    using string_of_number [OF c transition_symbols(1) [OF d(6) all]] string_of_number [OF c transition_symbols(2) [OF d(6) all]]
      weight_of_entry [OF c] by (simp add: tr(3) tape_strings_def)
next
  case (consumes pos y x i n fs w out)
  note d = converted_contextD [OF c]
  have pos: "pos < length ts"
    using consumes.hyps(1) consumes.prems(3) tape by (cases "pos = length ts") (auto simp: tape_holds_def)
  note y = readings_inputs [OF c tape pos consumes.hyps(2)]
  from consumes.hyps(3) obtain tr where tr: "tr \<in> set (transitions_of g s)" "number_of S (tr_input tr) = y" "x = entry_of bits S k tr"
    unfolding consumes.prems(1) symbols_of_state [OF c consumes.prems(2) y] by blast
  note all = transitions_of_all [OF tr(1)]
  have reads: "reads (read_symbols g) (ts ! pos) (tr_input tr)"
    using consumes.hyps(2) readings_of_piece [OF c tape pos transition_symbols(1) [OF d(6) all]] unfolding tr(2) by blast
  have "graph_run (read_symbols g) g n (tr_target tr) (drop (Suc pos) ts) env w (tape_strings (lc_alphabet c) out)"
    by (rule consumes.IH) (use tr(3) target_state [OF c tr(1)] pos consumes.prems(4,5) in simp_all)
  from graph_reads [OF tr(1) reads this] show ?case
    using string_of_number [OF c transition_symbols(1) [OF d(6) all]] string_written [OF c tape pos all]
      weight_of_entry [OF c] tr(2) Cons_nth_drop_Suc [OF pos] by (simp add: tr(3) tape_strings_def)
qed

lemma graph_run_ol_run:
  assumes c: "converted_context bits g S k t new c" and tape: "tape_holds g S new ts (lc_input c)" and v: "flags_valued g"
  shows "graph_run (read_symbols g) g n s us env w out \<Longrightarrow> us = drop pos ts \<Longrightarrow> pos \<le> length ts \<Longrightarrow> s < length (pk_states k) \<Longrightarrow>
     fd_rel fs env \<Longrightarrow> st_table fs = ol_fd_table (ol_alpha t) \<Longrightarrow>
     \<exists>ol_out. ol_run c n (target_index (pk_states k) s) pos fs w ol_out \<and> out = tape_strings (lc_alphabet c) ol_out"
proof (induction arbitrary: pos fs rule: graph_run.induct)
  case (graph_final s w env)
  then have "pos = length ts" by simp
  then have "lc_input c ! pos = no_symbol_number" using tape by (simp add: tape_holds_def)
  from accepts [OF this] graph_final(1) final_of_state [OF c graph_final.prems(3)] show ?case
    by (intro exI [of _ "[]"]) (simp add: tape_strings_def)
next
  case (graph_free tr s env env' n us w out)
  note d = converted_contextD [OF c] and all = transitions_of_all [OF graph_free.hyps(1)]
  from flag_of_entry [OF c v all graph_free.hyps(2) graph_free.prems(4,5)] graph_free.hyps(3) obtain fs' where
    fs': "flag_through (lc_alphabet c) (entry_of bits S k tr) fs = Some fs'" "fd_rel fs' env'" "st_table fs' = ol_fd_table (ol_alpha t)"
    by auto
  from graph_free.IH [OF graph_free.prems(1,2) target_state [OF c graph_free.hyps(1)] fs'(2,3)] obtain ol_out where
    run: "ol_run c n (target_index (pk_states k) (tr_target tr)) pos fs' w ol_out" "out = tape_strings (lc_alphabet c) ol_out" by blast
  have "entry_of bits S k tr \<in> set (epsilons_at c (target_index (pk_states k) s))"
    unfolding epsilons_of_state [OF c graph_free.prems(3)] using graph_free.hyps(1,2) by blast
  from epsilon_or_flag [OF this fs'(1), of n pos w ol_out] run(1) show ?case
    using string_of_number [OF c transition_symbols(1) [OF d(6) all]] string_of_number [OF c transition_symbols(2) [OF d(6) all]]
      weight_of_entry [OF c] run(2) by (intro exI conjI) (auto simp: tape_strings_def)
next
  case (graph_reads tr s piece n us env w out)
  note d = converted_contextD [OF c] and all = transitions_of_all [OF graph_reads.hyps(1)]
  have pos: "pos < length ts" using graph_reads.prems(1) by (cases "pos < length ts") auto
  have "piece # us = ts ! pos # drop (Suc pos) ts" using graph_reads.prems(1) Cons_nth_drop_Suc [OF pos] by simp
  then have piece: "piece = ts ! pos" "us = drop (Suc pos) ts" by simp_all
  let ?y = "number_of S (tr_input tr)"
  have y: "?y \<in> set (readings (lc_alphabet c) (lc_input c ! pos))"
    using readings_of_piece [OF c tape pos transition_symbols(1) [OF d(6) all]] graph_reads.hyps(2) piece(1) by blast
  have "Suc pos \<le> length ts" using pos by simp
  from graph_reads.IH [OF piece(2) this target_state [OF c graph_reads.hyps(1)] graph_reads.prems(4,5)] obtain ol_out where
    run: "ol_run c n (target_index (pk_states k) (tr_target tr)) (Suc pos) fs w ol_out" "out = tape_strings (lc_alphabet c) ol_out" by blast
  have "entry_of bits S k tr \<in> set (symbols_at c (target_index (pk_states k) s) ?y)"
    unfolding symbols_of_state [OF c graph_reads.prems(3) readings_inputs [OF c tape pos y]] using graph_reads.hyps(1) by blast
  moreover have "lc_input c ! pos \<noteq> no_symbol_number" using tape pos by (simp add: tape_holds_def)
  ultimately have "ol_run c (Suc n) (target_index (pk_states k) s) pos fs
      (get_weight (lc_wval c) (lc_tables c) (entry_of bits S k tr) + w) ((?y, written c pos (entry_of bits S k tr)) # ol_out)"
    using consumes [of c pos ?y "entry_of bits S k tr" "target_index (pk_states k) s" n fs w ol_out] y run(1) by simp
  then show ?case
    using string_of_number [OF c transition_symbols(1) [OF d(6) all]] string_written [OF c tape pos all]
      weight_of_entry [OF c] run(2) piece(1) by (intro exI conjI) (auto simp: tape_strings_def)
qed

end
