(* ===== verification/OlConvertedLookup.thy ===== *)
theory OlConvertedLookup
  imports OlGraphRuns "HOL-Library.Word"
begin

text \<open>
  The conversion and the lookup together: what \<open>Transducer::lookup_fd_pairs\<close> finds in the result of
  \<open>hfst_basic_transducer_to_hfst_ol\<close> are the runs of the graph that was converted.
\<close>

section \<open>The results of a lookup\<close>

definition graph_results :: "string set \<Rightarrow> ('w::monoid_add) hbt \<Rightarrow> string list \<Rightarrow> ('w \<times> string_pair list) set" where
  "graph_results K g ts = {(w, out) | w out. \<exists>n < max_recursion_depth. graph_run K g n 0 ts Map.empty w out}"

text \<open>The pieces of a text: the longest input symbols of the graph, and characters where none begins.\<close>

definition pieces_of :: "'w hbt \<Rightarrow> string \<Rightarrow> string list \<Rightarrow> bool" where
  "pieces_of g s ts \<longleftrightarrow> concat ts = s \<and> munch (\<lambda>w. w \<in> insert internal_epsilon (read_symbols g)) ts"

lemma conversion_words:
  assumes c: "conversion_of bits g S k t"
  shows "encoder_word (ol_encoder t) = (\<lambda>w. w \<in> insert internal_epsilon (read_symbols g))" and "number_of_input_symbols (ol_encoder t) = sn_seen S"
proof -
  note S = conversion_ofD(2) [OF c] and table = conversion_ofD(7) [OF c]
  have "set (sn_table S) = used_symbols g" using numbers_ofD(5) [OF S] by (simp add: used_symbols_def)
  then have "\<forall>s \<in> set (symbol_table (ol_alpha t)). s \<noteq> [] \<and> CHR 0x00 \<notin> set s \<and> utf8_ok s"
    using convertibleD(2) [OF conversion_ofD(1) [OF c]] used_symbols_nonempty [OF conversion_ofD(1) [OF c]] by (auto simp: table)
  from new_encoder_ok [OF this, of "sn_seen S"] obtain e where
    e: "new_encoder (sn_table S) (sn_seen S) = Inr e" "number_of_input_symbols e = sn_seen S" "encoder_word e = (\<lambda>w. w \<in> set (take (sn_seen S) (sn_table S)))"
    using numbers_ofD(3) [OF S] conversion_ofD(3,10) [OF c] by (auto simp: table)
  then have same: "ol_encoder t = e" using conversion_ofD(9) [OF c] by simp
  have "w \<in> set (take (sn_seen S) (sn_table S)) \<longleftrightarrow> w \<in> insert internal_epsilon (read_symbols g)" for w
  proof
    assume "w \<in> set (take (sn_seen S) (sn_table S))"
    then obtain j where "j < sn_seen S" "j < length (sn_table S)" "w = sn_table S ! j" by (auto simp: in_set_conv_nth)
    then show "w \<in> insert internal_epsilon (read_symbols g)" using numbers_ofD(6) [OF S] by blast
  next
    assume w: "w \<in> insert internal_epsilon (read_symbols g)"
    then have "w \<in> set (sn_table S)" using numbers_ofD(5) [OF S] by blast
    then obtain j where j: "j < length (sn_table S)" "w = sn_table S ! j" by (auto simp: in_set_conv_nth)
    then have "j < sn_seen S" using numbers_ofD(6) [OF S] w by blast
    then show "w \<in> set (take (sn_seen S) (sn_table S))" using j by (auto simp: in_set_conv_nth intro!: exI [of _ j])
  qed
  then show "encoder_word (ol_encoder t) = (\<lambda>w. w \<in> insert internal_epsilon (read_symbols g))" using same e(3) by (simp add: fun_eq_iff)
  show "number_of_input_symbols (ol_encoder t) = sn_seen S" using same e(2) by simp
qed

lemma new_machine_parts [simp]:
  "ol_alpha (new_machine t) = ol_alpha t" "tables (new_machine t) = tables t" "ol_encoder (new_machine t) = ol_encoder t"
  by (simp_all add: new_machine_def ol_transducer.defs)

lemma reads_input_pieces:
  assumes c: "conversion_of bits g S k t" and r: "reads_input s (new_machine t) M'" and new: "ol_alpha M' = (ol_alpha t)\<lparr>symbol_table := sn_table S @ new\<rparr>"
  shows "\<exists>ts. pieces_of g s ts \<and> tape_holds g S new ts (input_tape M')"
proof -
  note table = conversion_ofD(7) [OF c] and words = conversion_words [OF c]
  from r obtain ts ks new' where ts: "concat ts = s" "munch (encoder_word (ol_encoder t)) ts"
    "take (Suc (length ts)) (input_tape M') = ks @ [no_symbol_number]" "stands_for_pieces (ol_alpha M') ts ks"
    "list_all (OlEncoder.input_number (ol_alpha t) (sn_seen S)) ks" "symbol_table (ol_alpha M') = sn_table S @ new'"
    "\<forall>w \<in> set new'. \<not> encoder_word (ol_encoder t) w" unfolding reads_input_def by (auto simp: table words(2))
  have "new' = new" using ts(6) new by simp
  have len: "length ks = length ts" using ts(4) by (simp add: stands_for_pieces_def list_all2_lengthD)
  have "length (take (Suc (length ts)) (input_tape M')) = Suc (length ts)" using ts(3) len by simp
  then have long: "length ts < length (input_tape M')" by simp
  have at: "input_tape M' ! j = (ks @ [no_symbol_number]) ! j" if "j \<le> length ts" for j
    using that ts(3) by (metis le_imp_less_Suc nth_take)
  have "tape_holds g S new ts (input_tape M')"
    unfolding tape_holds_def
  proof (intro conjI allI impI)
    show "length ts < length (input_tape M')" by (rule long)
    show "input_tape M' ! length ts = no_symbol_number" using at [of "length ts"] len by (simp add: nth_append)
    show "\<forall>w \<in> set new. w \<notin> insert internal_epsilon (read_symbols g)" using ts(7) \<open>new' = new\<close> unfolding words(1) by simp
    fix j assume j: "j < length ts"
    then have t: "input_tape M' ! j = ks ! j" using at len by (simp add: nth_append)
    have "ks ! j < length (sn_table S @ new) \<and> (sn_table S @ new) ! (ks ! j) = ts ! j \<and> ks ! j \<noteq> no_symbol_number"
      using ts(4) j len by (simp add: stands_for_pieces_def list_all2_conv_all_nth new)
    moreover have "ks ! j < sn_seen S \<or> length (sn_table S) \<le> ks ! j"
      using ts(5) j len conversion_ofD(10) [OF c] by (simp add: list_all_length OlEncoder.input_number_def)
    ultimately show "input_tape M' ! j \<noteq> no_symbol_number" "input_tape M' ! j < length (sn_table S @ new)"
      "(sn_table S @ new) ! (input_tape M' ! j) = ts ! j" "input_tape M' ! j < sn_seen S \<or> length (sn_table S) \<le> input_tape M' ! j"
      unfolding t by blast+
  qed
  then show ?thesis using ts(1,2) by (auto simp: pieces_of_def words(1))
qed

lemma start_index:
  assumes c: "conversion_of bits g S k t"
  shows "target_index (pk_states k) 0 = 0" and "0 < length (pk_states k)"
proof -
  note cv = conversion_ofD(4) [OF c]
  show n: "0 < length (pk_states k)" using convertedD(1,4) [OF cv] by (simp add: stands_for_def)
  show "target_index (pk_states k) 0 = 0" using convertedD(7) [OF cv n] convertedD(8) [OF cv] by (simp add: target_index_def)
qed

lemma machine_results_graph:
  assumes c: "conversion_of bits g S k t" and v: "flags_valued g" and wval: "\<forall>w. wval (bits w) = w"
    and M': "tables M' = tables t" "ol_alpha M' = (ol_alpha t)\<lparr>symbol_table := sn_table S @ new\<rparr>" and tape: "tape_holds g S new ts (input_tape M')"
  shows "machine_results wval limit M' = graph_results (read_symbols g) g ts"
proof -
  let ?c = "machine_context wval limit M'" and ?fs = "new_fd_state (ol_fd_table (ol_alpha t)) :: nat fd_state"
  have cc: "converted_context bits g S k t new ?c"
    using c wval M' by (simp add: converted_context_def machine_context_def)
  have tape': "tape_holds g S new ts (lc_input ?c)" using tape by (simp add: machine_context_def)
  have alpha: "lc_alphabet ?c = ol_alpha M'" by (simp add: machine_context_def)
  have "fd_table_ok (ol_fd_table (ol_alpha t))" using conversion_ofD(8) [OF c] by (simp add: classified_def numbered_up_to_def)
  then have fs: "fd_rel ?fs Map.empty" "st_table ?fs = ol_fd_table (ol_alpha t)" by (rule fd_rel_new) (simp add: new_fd_state_def)
  note start = start_index [OF c]
  have "(\<exists>tape. ol_run ?c n 0 0 ?fs w tape \<and> out = tape_strings (ol_alpha M') tape) \<longleftrightarrow> graph_run (read_symbols g) g n 0 ts Map.empty w out" for n w out
    using ol_run_graph_run [OF cc tape' v _ _ start(2) le0 fs, of n 0 w] graph_run_ol_run [OF cc tape' v _ _ le0 start(2) fs, of n ts w out] start(1)
    unfolding alpha by auto
  then show ?thesis unfolding machine_results_def graph_results_def by (fastforce simp: M'(2))
qed

text \<open>A lookup right after the conversion.\<close>

lemma converted_lookup:
  fixes g :: "('w::monoid_add) hbt"
  assumes c: "conversion_of bits g S k t" and v: "flags_valued g" and wval: "\<forall>w. wval (bits w) = w"
    and s: "utf8_ok s" "CHR 0x00 \<notin> set s" "card (used_symbols g) + length s < 65535"
  shows "\<exists>paths M' ts. lookup_fd_pairs wval s limit (new_machine t) = Inr (paths, M') \<and> pieces_of g s ts \<and> paths \<subseteq> graph_results (read_symbols g) g ts \<and>
     (limit < 0 \<longrightarrow> default_symbol (ol_alpha t) = no_symbol_number \<longrightarrow>
       (\<forall>rank. flags_ranked (machine_context wval limit (new_machine t)) (sn_seen S) rank \<longrightarrow> paths = graph_results (read_symbols g) g ts)) \<and>
     finite paths \<and> (0 \<le> limit \<longrightarrow> int (card paths) \<le> limit)"
proof -
  note S = conversion_ofD(2) [OF c] and table = conversion_ofD(7) [OF c]
  have "card (set (sn_table S)) = length (sn_table S)" using numbers_ofD(1) [OF S] by (intro distinct_card) (simp add: numbered_def)
  then have "length (symbol_table (ol_alpha (new_machine t))) + length s < 65535"
    using s(3) numbers_ofD(5) [OF S] by (simp add: table used_symbols_def)
  from lookup_fd_pairs_run [OF conversion_machine_ok [OF c] s(1,2) this, of wval limit] obtain paths M' new where
    M': "lookup_fd_pairs wval s limit (new_machine t) = Inr (paths, M')" "reads_input s (new_machine t) M'" "tables M' = tables t"
      "ol_alpha M' = (ol_alpha t)\<lparr>symbol_table := sn_table S @ new\<rparr>" "paths \<subseteq> machine_results wval limit M'"
      "\<forall>rank. exhaustive (machine_context wval limit M') (sn_seen S) rank \<longrightarrow> machine_results wval limit M' \<subseteq> paths"
      "finite paths \<and> (0 \<le> limit \<longrightarrow> int (card paths) \<le> limit)" by (auto simp: table)
  from reads_input_pieces [OF c M'(2,4)] obtain ts where ts: "pieces_of g s ts" "tape_holds g S new ts (input_tape M')" by blast
  note results = machine_results_graph [OF c v wval M'(3,4) ts(2), of limit]
  have "paths = graph_results (read_symbols g) g ts" if r: "limit < 0" "default_symbol (ol_alpha t) = no_symbol_number"
    "flags_ranked (machine_context wval limit (new_machine t)) (sn_seen S) rank" for rank
  proof -
    have "flags_ranked (machine_context wval limit M') (sn_seen S) rank"
      by (rule flags_ranked_grown [OF r(3)]) (use M'(3,4) table in simp_all)
    then have "exhaustive (machine_context wval limit M') (sn_seen S) rank"
      using r(1,2) M'(4) by (simp add: exhaustive_def machine_context_def)
    then show ?thesis using M'(5,6) results by blast
  qed
  then show ?thesis using M'(1,5,7) ts(1) results by blast
qed

section \<open>Flag diacritics and cycles\<close>

text \<open>No cycle of epsilon transitions and flag diacritics goes through a flag diacritic.\<close>

definition graph_ranked :: "'w hbt \<Rightarrow> (nat \<Rightarrow> nat) \<Rightarrow> bool" where
  "graph_ranked g rank \<longleftrightarrow> (\<forall>s. \<forall>tr \<in> set (transitions_of g s).
     (tr_input tr = internal_epsilon \<longrightarrow> rank (tr_target tr) \<le> rank s) \<and>
     (is_diacritic (tr_input tr) \<longrightarrow> rank (tr_target tr) < rank s))"

lemma state_base_less: "s < s' \<Longrightarrow> s' \<le> length (state_vector g) \<Longrightarrow> state_base g s < state_base g s'"
proof (induction s')
  case (Suc s')
  then have "state_base g s \<le> state_base g s'" by (cases "s = s'") auto
  then show ?case using state_base_Suc [of s' g] Suc.prems(2) by simp
qed simp

lemma target_index_inj:
  assumes c: "converted bits S g k wi wt" and s: "s < length (pk_states k)" "s' < length (pk_states k)"
    and eq: "target_index (pk_states k) s = target_index (pk_states k) s'"
  shows "s = s'"
proof -
  have len: "length (pk_states k) = length (state_vector g)" using convertedD(1) [OF c] by (simp add: stands_for_def)
  consider "is_simple (pk_states k ! s)" "is_simple (pk_states k ! s')" | "\<not> is_simple (pk_states k ! s)" "\<not> is_simple (pk_states k ! s')"
    | "is_simple (pk_states k ! s) \<noteq> is_simple (pk_states k ! s')" by blast
  then show ?thesis
  proof cases
    case 1
    then have "state_base g s = state_base g s'"
      using eq state_index_simple [OF c s(1) 1(1)] state_index_simple [OF c s(2) 1(2)] by simp
    then show ?thesis using state_base_less [of s s' g] state_base_less [of s' s g] s len by (cases s s' rule: linorder_cases) auto
  next
    case 2
    from state_index_nonsimple [OF c s(1) 2(1)] state_index_nonsimple [OF c s(2) 2(2)] eq show ?thesis by auto
  next
    case 3
    have "is_simple (pk_states k ! q) \<longleftrightarrow> target_table_start \<le> target_index (pk_states k) q" if q: "q < length (pk_states k)" for q
      using state_index_simple(1) [OF c q] state_index_nonsimple [OF c q] by (cases "is_simple (pk_states k ! q)") auto
    then show ?thesis using 3 eq s by simp
  qed
qed

lemma seen_transitions_origin:
  assumes cv: "converted bits S g k wi wt" and a: "alphabet_ok (lc_alphabet c)" and x: "x \<in> set (epsilons_at c i)"
    and tabs: "lc_tables c = \<lparr>weighted_tables = True, index_table = wi, transition_table = wt\<rparr>"
  shows "\<exists>s < length (pk_states k). \<exists>tr \<in> set (transitions_of g s). ot_target x = target_index (pk_states k) (tr_target tr)"
proof -
  have len: "length (pk_states k) = length (state_vector g)" using convertedD(1) [OF cv] by (simp add: stands_for_def)
  have "set (transitions_from (lc_tables c) j) \<subseteq> set wt" for j by (simp add: transitions_from_def tabs set_drop_subset)
  then have "set (state_transitions (lc_tables c) i 0) \<subseteq> set wt"
    by (auto simp: state_transitions_def indexed_def split: sum.splits if_splits)
  moreover have "x \<in> set (state_transitions (lc_tables c) i 0)" "epslike (lc_alphabet c) x"
    using x by (auto simp: epsilons_at_def dest: set_takeWhileD)
  ultimately have "x \<in> set wt" "ot_input x \<noteq> no_symbol_number" using epslike_number [OF a] by blast+
  from entry_origin [OF cv this] obtain s tr where
    "s < length (pk_states k)" "tr \<in> set (state_vector g ! s)" "x = encoded bits (pk_states k) (number_of S (tr_input tr)) (tp_of S tr)" by blast
  then show ?thesis using len by (intro exI [of _ s]) (auto simp: transitions_of_def encoded_def tp_of_def)
qed

lemma conversion_ranked:
  fixes g :: "('w::monoid_add) hbt"
  assumes c: "conversion_of bits g S k t" and wval: "\<forall>w. wval (bits w) = w" and rank: "graph_ranked g rank"
  shows "\<exists>rank'. flags_ranked (machine_context wval limit (new_machine t)) (sn_seen S) rank'"
proof -
  let ?c = "machine_context wval limit (new_machine t)" and ?N = "length (pk_states k)"
  note cv = conversion_ofD(4) [OF c] and table = conversion_ofD(7) [OF c]
  have "ol_alpha t = (ol_alpha t)\<lparr>symbol_table := sn_table S @ []\<rparr>" using table by (cases "ol_alpha t") simp
  then have cc: "converted_context bits g S k t [] ?c" using c wval by (simp add: converted_context_def machine_context_def)
  note d = converted_contextD [OF cc]
  have a: "alphabet_ok (lc_alphabet ?c)" using conversion_ofD(11) [OF c] by (simp add: machine_context_def)
  let ?is = "\<lambda>i s. s < ?N \<and> target_index (pk_states k) s = i"
  let ?big = "Suc (Max (rank ` {..<?N}))"
  define rank' where "rank' i = (if \<exists>s. ?is i s then rank (SOME s. ?is i s) else ?big)" for i
  have at: "rank' (target_index (pk_states k) s) = rank s" if s: "s < ?N" for s
  proof -
    have "(SOME s'. ?is (target_index (pk_states k) s) s') = s"
      by (rule some_equality) (use s target_index_inj [OF cv] in blast)+
    then show ?thesis using s by (auto simp: rank'_def)
  qed
  have small: "rank s < ?big" if "s < ?N" for s using that by (simp add: less_Suc_eq_le)
  have "if ot_input x = 0 then rank' (ot_target x) \<le> rank' i else rank' (ot_target x) < rank' i" if x: "x \<in> set (epsilons_at ?c i)" for i x
  proof (cases "\<exists>s. ?is i s")
    case True
    then obtain s where s: "s < ?N" "i = target_index (pk_states k) s" by blast
    from x obtain tr where tr: "tr \<in> set (transitions_of g s)" "tr_input tr = internal_epsilon \<or> is_diacritic (tr_input tr)"
      "x = entry_of bits S k tr" unfolding s(2) epsilons_of_state [OF cc s(1)] by blast
    note z = transition_symbols(1) [OF d(6) transitions_of_all [OF tr(1)]]
    have "ot_input x = 0 \<longleftrightarrow> tr_input tr = internal_epsilon"
      using number_at [OF d(6) z] numbers_ofD(4) [OF d(6)] epsilon_number [OF d(6)] by (auto simp: tr(3))
    moreover have "rank' (ot_target x) = rank (tr_target tr)" using at target_state [OF cc tr(1)] by (simp add: tr(3))
    ultimately show ?thesis using rank tr(1,2) at [OF s(1)] s(2) by (auto simp: graph_ranked_def)
  next
    case False
    from seen_transitions_origin [OF cv a x d(4)] obtain s tr where
      tr: "tr \<in> set (transitions_of g s)" "ot_target x = target_index (pk_states k) (tr_target tr)" by blast
    note t = target_state [OF cc tr(1)]
    have "rank' i = ?big" unfolding rank'_def using False by (rule if_not_P)
    then show ?thesis using at [OF t] small [OF t] by (simp add: tr(2))
  qed
  then have "flags_ranked ?c (sn_seen S) rank'" by (simp add: flags_ranked_def)
  then show ?thesis by blast
qed

section \<open>The alphabet of the graph\<close>

text \<open>Identity and unknown stand for the symbols outside the alphabet of a graph; the lookup, which no longer has
  that alphabet, reads by them what no transition reads. This is the same when every ordinary symbol of
  the alphabet is read by some transition (or nothing is read by identity and unknown).\<close>

definition alphabet_read :: "'w hbt \<Rightarrow> bool" where
  "alphabet_read g \<longleftrightarrow> {internal_identity, internal_unknown} \<inter> read_symbols g = {} \<or>
     (\<forall>a \<in> alphabet g. a \<in> read_symbols g \<or> a = internal_epsilon \<or> meta_symbol a \<or> flag_symbol a)"

lemma special_no_char:
  "utf8_char a \<Longrightarrow> a \<noteq> internal_epsilon \<and> \<not> meta_symbol a \<and> \<not> flag_symbol a"
proof -
  assume "utf8_char a"
  then obtain c cs n where a: "a = c # cs" "additional_chars c = Inr n" "length cs = n" by (auto simp: utf8_char_def)
  have one: "length a = 1" if "a ! 0 = CHR ''@''" using a that by (auto simp: additional_chars_def)
  have "a ! 0 = CHR ''@'' \<and> 1 < length a" if "is_insertion a"
  proof -
    have "find_at ''@I.'' a 0 = Some 0" using that by (simp add: is_insertion_def starts_with_def str_find_def)
    from find_at_Some [OF this] have "prefix ''@I.'' a" by simp
    then show ?thesis by (auto simp: prefix_def)
  qed
  moreover have "a ! 0 = CHR ''@'' \<and> 1 < length a" if "is_diacritic a"
    using that by (auto simp: is_diacritic_def split: if_splits)
  ultimately show ?thesis
    using one by (auto simp: flag_symbol_def meta_symbol_def internal_epsilon_def internal_unknown_def internal_identity_def internal_default_def)
qed

lemma meta_not_flag: "\<not> flag_symbol internal_identity" "\<not> flag_symbol internal_unknown"
  by (simp_all add: flag_symbol_def is_diacritic_def is_insertion_def starts_with_def str_find_def
      internal_identity_def internal_unknown_def)

lemma munch_pieces: "munch W ts \<Longrightarrow> x \<in> set ts \<Longrightarrow> W x \<or> utf8_char x"
  by (induction ts) (auto simp: longest_def split: if_splits)

lemma alphabet_results:
  assumes "wf_alphabet g" and "alphabet_read g" and ts: "pieces_of g s ts"
  shows "graph_results (read_symbols g) g ts = graph_results (alphabet g) g ts"
proof -
  have wf: "tr_input tr \<in> alphabet g" if "tr \<in> all_transitions g" for tr
    using that assms(1) by (auto simp: wf_alphabet_def all_transitions_def)
  have "reads (read_symbols g) x (tr_input tr) \<longleftrightarrow> reads (alphabet g) x (tr_input tr)"
    if x: "x \<in> set ts" and tr: "tr \<in> all_transitions g" for x tr
  proof (cases "x \<in> insert internal_epsilon (read_symbols g)")
    case True
    then have "x \<in> insert internal_epsilon (alphabet g)" using wf by (auto simp: read_symbols_def)
    with True show ?thesis by (simp add: reads_def)
  next
    case False
    then have char: "x \<noteq> internal_epsilon" "\<not> meta_symbol x" "\<not> flag_symbol x"
      using munch_pieces [of "\<lambda>w. w \<in> insert internal_epsilon (read_symbols g)" ts x] ts x special_no_char [of x]
      unfolding pieces_of_def by blast+
    then have ne: "tr_input tr \<noteq> x" using False tr by (auto simp: read_symbols_def)
    have no: "tr_input tr \<noteq> internal_identity \<and> tr_input tr \<noteq> internal_unknown"
      if "{internal_identity, internal_unknown} \<inter> read_symbols g = {}"
    proof -
      have "tr_input tr \<in> read_symbols g" if "tr_input tr = internal_identity \<or> tr_input tr = internal_unknown"
        using tr that meta_not_flag by (auto simp: read_symbols_def)
      then show ?thesis using that by blast
    qed
    show ?thesis
    proof (cases "{internal_identity, internal_unknown} \<inter> read_symbols g = {}")
      case True
      then show ?thesis using no ne False by (simp add: reads_def)
    next
      case some: False
      then have "x \<notin> alphabet g" using assms(2) False char by (auto simp: alphabet_read_def)
      then show ?thesis using False char(1) by (simp add: reads_def)
    qed
  qed
  then have "graph_run (read_symbols g) g n 0 ts Map.empty w out \<longleftrightarrow> graph_run (alphabet g) g n 0 ts Map.empty w out" for n w out
    using graph_run_known [of "read_symbols g" g n 0 ts Map.empty w out "alphabet g"]
      graph_run_known [of "alphabet g" g n 0 ts Map.empty w out "read_symbols g"] by blast
  then show ?thesis by (simp add: graph_results_def)
qed

section \<open>Properties\<close>

text \<open>C26. Whatever the heuristics of the packing loop do, its result records every state that is not simple at one start
  index, with the entries of its input symbols behind it, and no two entries share a place of the table.\<close>

theorem pack_states_no_collision:
  assumes "\<forall>s < length ps. sp_number (ps ! s) = s \<and> sp_start_index (ps ! s) = None"
  shows "length (pk_states (pack_states fs seen ps)) = length ps \<and>
     (\<forall>s < length ps. sp_start_index (pk_states (pack_states fs seen ps) ! s) = None \<longleftrightarrow> is_simple (ps ! s)) \<and>
     (\<forall>pos s y. slot (pk_indices (pack_states fs seen ps)) pos = Some (s, y) \<longleftrightarrow>
        s < length ps \<and> state_slot fs (pk_states (pack_states fs seen ps) ! s) pos y)"
proof (intro conjI allI impI)
  note packed = pack_states_packed [OF assms, of fs seen, unfolded packed_def]
  show "length (pk_states (pack_states fs seen ps)) = length ps" using packed by blast
  show "sp_start_index (pk_states (pack_states fs seen ps) ! s) = None \<longleftrightarrow> is_simple (ps ! s)" if s: "s < length ps" for s
  proof -
    from packed s obtain i where "pk_states (pack_states fs seen ps) ! s = (ps ! s)\<lparr>sp_start_index := i\<rparr>" "i = None \<longleftrightarrow> is_simple (ps ! s)" by blast
    then show ?thesis by simp
  qed
  show "slot (pk_indices (pack_states fs seen ps)) pos = Some (s, y) \<longleftrightarrow>
      s < length ps \<and> state_slot fs (pk_states (pack_states fs seen ps) ! s) pos y" for pos s y using packed by blast
qed

lemma pack_states_no_collision_witness:
  "slot (pk_indices (pack_states {} 2 [new_placeholder 0 True 0 (0 :: nat)])) 0 = Some (0, 65535)"
proof -
  let ?p = "new_placeholder 0 True 0 (0 :: nat)"
  have "sp_start_index (pk_states (pack_states {} 2 [?p]) ! 0) = Some 0"
    using pack_states_start [of "[?p]" "{}" 2] by (simp add: is_simple_def new_placeholder_def)
  with pack_states_no_collision [of "[?p]" "{}" 2] show ?thesis
    by (simp add: new_placeholder_simps state_slot_def no_symbol_number_def)
qed

lemma symbols_of_input:
  assumes cc: "converted_context bits g S k t new c" and s: "s < length (pk_states k)" and z: "z \<in> read_symbols g"
  shows "set (symbols_at c (target_index (pk_states k) s) (number_of S z)) = entry_of bits S k ` {tr \<in> set (transitions_of g s). tr_input tr = z}"
proof -
  note d = converted_contextD [OF cc]
  have table: "z \<in> set (sn_table S)" using numbers_ofD(5) [OF d(6)] z by blast
  have "z \<notin> read_flags g" using z by (auto simp: read_symbols_def read_flags_def)
  then have y: "number_of S z \<notin> sn_flags S" "number_of S z < no_symbol_number"
    using numbers_ofD(7) [OF d(6)] number_at [OF d(6) table] number_bound [OF d(6), of z] conversion_ofD(3) [OF d(1)]
    by (simp_all add: no_symbol_number_def)
  have "number_of S (tr_input tr) = number_of S z \<longleftrightarrow> tr_input tr = z" if "tr \<in> set (transitions_of g s)" for tr
    using number_at [OF d(6) table] number_at [OF d(6) transition_symbols(1) [OF d(6) transitions_of_all [OF that]]] by metis
  then have "{tr \<in> set (transitions_of g s). number_of S (tr_input tr) = number_of S z} = {tr \<in> set (transitions_of g s). tr_input tr = z}" by blast
  then show ?thesis unfolding symbols_of_state [OF cc s y] by (rule arg_cong)
qed

text \<open>C25. The conversion returns a well-formed transducer for every graph that is \<open>convertible\<close>: a well-formed graph whose symbols are
  correct UTF-8 without NUL bytes, at most 32766 of them, whose states and transitions fit the tables (their
  entries are below \<open>2 ^ 31\<close>), without symbols like \<open>@I.x@\<close> on the input side, and in which unknown, identity
  and default occur as output symbols only if also as input symbols (otherwise the padding of the index table at line 431 is
  too short). The symbol table of the result holds epsilon and the symbols of the graph's transitions, each once, epsilon at place 0; its encoder has the
  input symbols that are no flag diacritics. There is an index for every state, 0 for the initial one and different ones for
  different states, from which the tables show exactly the final weight and the transitions of the
  state: epsilons and flag diacritics together, every other symbol by its number; the entry of a
  transition has the places of its two symbols in that symbol table, the index of its target and the bits of its weight.\<close>

theorem hfst_basic_transducer_to_hfst_ol_shows:
  fixes g :: "('w::monoid_add) hbt"
  assumes "convertible g" and "\<forall>w. bits w < 4294967295 \<and> wval (bits w) = w"
  shows "\<exists>t num index. hfst_basic_transducer_to_hfst_ol bits g weighted None = Inr t \<and>
     machine_ok (number_of_input_symbols (ol_encoder t)) (new_machine t :: 'w ol_machine) \<and>
     distinct (symbol_table (ol_alpha t)) \<and> set (symbol_table (ol_alpha t)) = used_symbols g \<and> num internal_epsilon = 0 \<and>
     (\<forall>z \<in> used_symbols g. num z < length (symbol_table (ol_alpha t)) \<and> symbol_table (ol_alpha t) ! num z = z) \<and>
     encoder_word (ol_encoder t) = (\<lambda>w. w \<in> insert internal_epsilon (read_symbols g)) \<and>
     index 0 = 0 \<and> inj_on index {..<length (state_vector g)} \<and>
     (\<forall>s < length (state_vector g).
        let c = machine_context wval limit (new_machine t);
            entry = (\<lambda>tr. \<lparr>ot_input = num (tr_input tr), ot_output = num (tr_output tr),
                            ot_target = index (tr_target tr), ot_weight = bits (tr_weight tr)\<rparr>)
        in final_at c (index s) = final_weight_map g s \<and>
           set (epsilons_at c (index s)) =
             entry ` {tr \<in> set (transitions_of g s). tr_input tr = internal_epsilon \<or> is_diacritic (tr_input tr)} \<and>
           (\<forall>z \<in> read_symbols g. set (symbols_at c (index s) (num z)) = entry ` {tr \<in> set (transitions_of g s). tr_input tr = z}))"
proof -
  from conversion_returns [OF assms(1), of bits weighted] assms(2) obtain t S k where
    t: "hfst_basic_transducer_to_hfst_ol bits g weighted None = Inr t" and c: "conversion_of bits g S k t" by blast
  let ?c = "machine_context wval limit (new_machine t)"
  note table = conversion_ofD(7) [OF c]
  have "ol_alpha t = (ol_alpha t)\<lparr>symbol_table := sn_table S @ []\<rparr>" using table by (cases "ol_alpha t") simp
  then have cc: "converted_context bits g S k t [] ?c" using c assms(2) by (simp add: converted_context_def machine_context_def)
  note d = converted_contextD [OF cc]
  have len: "length (pk_states k) = length (state_vector g)" using convertedD(1) [OF d(5)] by (simp add: stands_for_def)
  have entry: "entry_of bits S k = (\<lambda>tr. \<lparr>ot_input = number_of S (tr_input tr), ot_output = number_of S (tr_output tr),
      ot_target = target_index (pk_states k) (tr_target tr), ot_weight = bits (tr_weight tr)\<rparr>)"
    by (simp add: fun_eq_iff entry_of_def encoded_def tp_of_def)
  have inj: "inj_on (target_index (pk_states k)) {..<length (state_vector g)}"
    using target_index_inj [OF d(5)] len by (simp add: inj_on_def)
  have symbols: "set (symbol_table (ol_alpha t)) = used_symbols g" using numbers_ofD(5) [OF d(6)] by (simp add: table used_symbols_def)
  have numbers: "\<forall>z \<in> used_symbols g. number_of S z < length (symbol_table (ol_alpha t)) \<and> symbol_table (ol_alpha t) ! number_of S z = z"
    using symbols number_at [OF d(6)] number_bound [OF d(6)] by (simp add: table)
  have "distinct (symbol_table (ol_alpha t))" using numbers_ofD(1) [OF d(6)] by (simp add: table numbered_def)
  moreover have "machine_ok (number_of_input_symbols (ol_encoder t)) (new_machine t :: 'w ol_machine)"
    using conversion_machine_ok [OF c] conversion_words(2) [OF c] by simp
  moreover have "final_at ?c (target_index (pk_states k) s) = final_weight_map g s \<and>
      set (epsilons_at ?c (target_index (pk_states k) s)) =
        entry_of bits S k ` {tr \<in> set (transitions_of g s). tr_input tr = internal_epsilon \<or> is_diacritic (tr_input tr)} \<and>
      (\<forall>z \<in> read_symbols g. set (symbols_at ?c (target_index (pk_states k) s) (number_of S z)) =
        entry_of bits S k ` {tr \<in> set (transitions_of g s). tr_input tr = z})" if "s < length (state_vector g)" for s
    using final_of_state [OF cc] epsilons_of_state [OF cc] symbols_of_input [OF cc] that unfolding len by simp
  ultimately show ?thesis
    using t symbols numbers epsilon_number [OF d(6)] conversion_words(1) [OF c] start_index(1) [OF c] inj
    unfolding entry Let_def by (intro exI [of _ t] exI [of _ "number_of S"] exI [of _ "target_index (pk_states k)"] conjI; simp)
qed

text \<open>C23. A \<open>convertible\<close> graph without empty flag values, converted and looked up without limit: when its symbols do not
  include default and no cycle of epsilons and flag diacritics goes through a flag diacritic, the lookup of a correct
  UTF-8 text without NUL bytes, for which the symbol numbers suffice, returns exactly the weights and strings of the accepting runs of the graph
  (of fewer than 5000 transitions) over the text divided into the longest input symbols of the graph, with the flag diacritics
  obeyed, where identity and unknown read the pieces that are no input symbols. When, moreover, the ordinary symbols of the alphabet
  are input symbols (or nothing reads identity or unknown), these are the runs in which identity and unknown stand for what is outside the graph's alphabet.\<close>

theorem converted_lookup_complete:
  fixes g :: "('w::monoid_add) hbt"
  assumes "convertible g" and "flags_valued g" and "\<forall>w. bits w < 4294967295 \<and> wval (bits w) = w"
    and "internal_default \<notin> used_symbols g" and "graph_ranked g rank"
    and "utf8_ok s" and "CHR 0x00 \<notin> set s" and "card (used_symbols g) + length s < 65535"
  shows "\<exists>t M' ts. hfst_basic_transducer_to_hfst_ol bits g weighted None = Inr t \<and> pieces_of g s ts \<and>
     lookup_fd_pairs wval s (- 1) (new_machine t) = Inr (graph_results (read_symbols g) g ts, M') \<and>
     (wf_alphabet g \<and> alphabet_read g \<longrightarrow>
        lookup_fd_pairs wval s (- 1) (new_machine t) = Inr (graph_results (alphabet g) g ts, M'))"
proof -
  from conversion_returns [OF assms(1), of bits weighted] assms(3) obtain t S k where
    t: "hfst_basic_transducer_to_hfst_ol bits g weighted None = Inr t" and c: "conversion_of bits g S k t" by blast
  note S = conversion_ofD(2) [OF c]
  have wval: "\<forall>w. wval (bits w) = w" using assms(3) by blast
  have "set (sn_table S) = used_symbols g" using numbers_ofD(5) [OF S] by (simp add: used_symbols_def)
  then have "\<forall>j < length (sn_table S). sn_table S ! j \<noteq> internal_default" using assms(4) nth_mem by metis
  then have "default_symbol (ol_alpha t) = no_symbol_number" using conversion_ofD(8) [OF c] by (auto simp: classified_def stands_at_def)
  with converted_lookup [OF c assms(2) wval assms(6,7,8), of "- 1"] conversion_ranked [OF c wval assms(5), of "- 1"]
  obtain M' ts where "lookup_fd_pairs wval s (- 1) (new_machine t) = Inr (graph_results (read_symbols g) g ts, M')" "pieces_of g s ts"
    by fastforce
  then show ?thesis using t alphabet_results [of g s ts] by auto
qed

text \<open>C24. A \<open>convertible\<close> graph without empty flag values, converted and looked up, with or without default symbols, cycles and
  a limit: both return, and the lookup of a correct UTF-8 text without NUL bytes, for which the symbol numbers suffice, finds
  only weights and strings of accepting runs of the graph, in which identity and unknown read the pieces that are no input symbols, and at most as
  many as the limit. When the ordinary symbols of the alphabet are input symbols (or nothing reads identity or unknown), these
  are runs in which identity and unknown stand for what is outside the graph's alphabet.\<close>

theorem converted_lookup_sound:
  fixes g :: "('w::monoid_add) hbt"
  assumes "convertible g" and "flags_valued g" and "\<forall>w. bits w < 4294967295 \<and> wval (bits w) = w"
    and "utf8_ok s" and "CHR 0x00 \<notin> set s" and "card (used_symbols g) + length s < 65535"
  shows "\<exists>t paths M' ts. hfst_basic_transducer_to_hfst_ol bits g weighted None = Inr t \<and> pieces_of g s ts \<and>
     lookup_fd_pairs wval s limit (new_machine t) = Inr (paths, M') \<and> paths \<subseteq> graph_results (read_symbols g) g ts \<and>
     (wf_alphabet g \<and> alphabet_read g \<longrightarrow> paths \<subseteq> graph_results (alphabet g) g ts) \<and>
     (0 \<le> limit \<longrightarrow> int (card paths) \<le> limit)"
proof -
  from conversion_returns [OF assms(1), of bits weighted] assms(3) obtain t S k where
    t: "hfst_basic_transducer_to_hfst_ol bits g weighted None = Inr t" and c: "conversion_of bits g S k t" by blast
  have "\<forall>w. wval (bits w) = w" using assms(3) by blast
  from converted_lookup [OF c assms(2) this assms(4,5,6), of limit] t alphabet_results [of g s] show ?thesis by blast
qed

text \<open>The graph that rewrites \<open>a\<close> as \<open>b\<close>, with weights of eight bits.\<close>

definition demo_graph :: "8 word hbt" where
  "demo_graph = \<lparr>hbt_name = [],
     state_vector = [[\<lparr>tr_target = 1, tr_input = ''a'', tr_output = ''b'', tr_weight = 3\<rparr>], []],
     final_weight_map = [1 \<mapsto> 1], alphabet = {''a'', ''b''}\<rparr>"

lemma demo_graph_symbols:
  "all_transitions demo_graph = {\<lparr>tr_target = 1, tr_input = ''a'', tr_output = ''b'', tr_weight = 3\<rparr>}"
  "read_symbols demo_graph = {''a''}" "read_flags demo_graph = {}" "used_symbols demo_graph = {internal_epsilon, ''a'', ''b''}"
proof -
  show t: "all_transitions demo_graph = {\<lparr>tr_target = 1, tr_input = ''a'', tr_output = ''b'', tr_weight = 3\<rparr>}"
    by (simp add: all_transitions_def demo_graph_def)
  have "\<not> flag_symbol ''a''" by (simp add: flag_symbol_def is_diacritic_def is_insertion_def starts_with_def str_find_def)
  then show r: "read_symbols demo_graph = {''a''}" "read_flags demo_graph = {}"
    unfolding read_symbols_def read_flags_def t by auto
  show "used_symbols demo_graph = {internal_epsilon, ''a'', ''b''}"
    unfolding used_symbols_def r by (auto simp: written_symbols_def t)
qed

lemma demo_graph_convertible: "convertible demo_graph" "flags_valued demo_graph" "graph_ranked demo_graph (\<lambda>s. 0)"
proof -
  have "wf_graph demo_graph" by (simp add: wf_graph_def wf_transition_def demo_graph_def)
  moreover have "\<forall>s \<in> used_symbols demo_graph. utf8_ok s \<and> CHR 0x00 \<notin> set s"
    by (simp add: demo_graph_symbols utf8_ok_def internal_epsilon_def additional_chars_def)
  moreover have "card (used_symbols demo_graph) = 3" by (simp add: demo_graph_symbols internal_epsilon_def)
  moreover have "{internal_unknown, internal_identity, internal_default} \<inter> written_symbols demo_graph \<subseteq> read_symbols demo_graph"
    by (simp add: written_symbols_def demo_graph_symbols internal_unknown_def internal_identity_def internal_default_def)
  moreover have "\<forall>tr \<in> all_transitions demo_graph. \<not> is_insertion (tr_input tr)" by (simp add: demo_graph_symbols is_insertion_def starts_with_def str_find_def)
  moreover have "length (state_vector demo_graph) = 2" "state_base demo_graph 2 = 3" by (simp_all add: demo_graph_def state_base_def)
  ultimately show "convertible demo_graph" unfolding convertible_def target_table_start_def by simp
  show "flags_valued demo_graph" by (simp add: flags_valued_def demo_graph_symbols)
  show "graph_ranked demo_graph (\<lambda>s. 0)"
    using demo_graph_symbols(1) transitions_of_all [of _ demo_graph] by (fastforce simp: graph_ranked_def is_diacritic_def)
qed

lemma eight_bits: "\<forall>w :: 8 word. unat w < 4294967295 \<and> word_of_nat (unat w) = w"
proof
  fix w :: "8 word"
  have "unat w < 2 ^ 8" using unsigned_less [of w, where 'a = nat] by simp
  then show "unat w < 4294967295 \<and> word_of_nat (unat w) = w" by simp
qed

lemma hfst_basic_transducer_to_hfst_ol_shows_witness:
  "\<exists>t index. hfst_basic_transducer_to_hfst_ol unat demo_graph True None = Inr t \<and>
     set (symbol_table (ol_alpha t)) = {internal_epsilon, ''a'', ''b''} \<and>
     final_at (machine_context word_of_nat (- 1) (new_machine t)) (index (1 :: nat)) = Some (1 :: 8 word)"
proof -
  have one: "1 < length (state_vector demo_graph)" "final_weight_map demo_graph 1 = Some 1" by (simp_all add: demo_graph_def)
  from hfst_basic_transducer_to_hfst_ol_shows [OF demo_graph_convertible(1) eight_bits, of True "- 1"] show ?thesis
    unfolding demo_graph_symbols(4) Let_def
    by (elim exE conjE) (intro exI conjI, assumption, assumption, drule spec [where x = "1 :: nat"], drule mp, rule one(1),
      drule conjunct1, erule trans, rule one(2))
qed

text \<open>The text \<open>a\<close> is one piece, and the graph turns it into \<open>b\<close>.\<close>

lemma munch_nonempty: "munch W ts \<Longrightarrow> [] \<notin> set ts"
  by (induction ts) auto

lemma demo_graph_pieces: "pieces_of demo_graph ''a'' ts \<Longrightarrow> ts = [''a'']"
proof -
  assume ts: "pieces_of demo_graph ''a'' ts"
  then have "[] \<notin> set ts" unfolding pieces_of_def by (metis munch_nonempty)
  moreover have "concat ts = ''a''" using ts by (simp add: pieces_of_def)
  ultimately show ?thesis by (cases ts; cases "hd ts"; cases "tl ts") auto
qed

lemma demo_graph_run: "(4, [(''a'', ''b'')]) \<in> graph_results (read_symbols demo_graph) demo_graph [''a'']"
proof -
  let ?tr = "\<lparr>tr_target = 1, tr_input = ''a'', tr_output = ''b'', tr_weight = 3\<rparr> :: 8 word transition"
  have tr: "?tr \<in> set (transitions_of demo_graph 0)" by (simp add: transitions_of_def demo_graph_def)
  have reads: "reads {''a''} ''a'' (tr_input ?tr)" by (simp add: reads_def demo_graph_symbols)
  have "graph_run {''a''} demo_graph 0 (tr_target ?tr) [] Map.empty 1 []" by (rule graph_final) (simp add: demo_graph_def)
  from graph_reads [OF tr reads this]
  have "graph_run {''a''} demo_graph (Suc 0) 0 [''a''] Map.empty 4 [(''a'', ''b'')]"
    by (simp add: shown_def meta_symbol_def internal_epsilon_def internal_unknown_def internal_identity_def internal_default_def)
  moreover have "Suc 0 < max_recursion_depth" by (simp add: max_recursion_depth_def)
  ultimately show ?thesis unfolding graph_results_def demo_graph_symbols(2) by blast
qed

lemma demo_graph_alphabet: "wf_alphabet demo_graph \<and> alphabet_read demo_graph"
  by (simp add: wf_alphabet_def alphabet_read_def demo_graph_symbols) (simp add: demo_graph_def internal_identity_def internal_unknown_def)

lemma converted_lookup_complete_witness:
  "\<exists>t M'. hfst_basic_transducer_to_hfst_ol unat demo_graph True None = Inr t \<and>
     (4, [(''a'', ''b'')]) \<in> graph_results (read_symbols demo_graph) demo_graph [''a''] \<and>
     lookup_fd_pairs word_of_nat ''a'' (- 1) (new_machine t) = Inr (graph_results (alphabet demo_graph) demo_graph [''a''], M')"
proof -
  have "\<exists>t M' ts. hfst_basic_transducer_to_hfst_ol unat demo_graph True None = Inr t \<and> pieces_of demo_graph ''a'' ts \<and>
      lookup_fd_pairs word_of_nat ''a'' (- 1) (new_machine t) = Inr (graph_results (read_symbols demo_graph) demo_graph ts, M') \<and>
      (wf_alphabet demo_graph \<and> alphabet_read demo_graph \<longrightarrow>
        lookup_fd_pairs word_of_nat ''a'' (- 1) (new_machine t) = Inr (graph_results (alphabet demo_graph) demo_graph ts, M'))"
    by (rule converted_lookup_complete [OF demo_graph_convertible(1,2) eight_bits _ demo_graph_convertible(3) utf8_a])
      (simp_all add: demo_graph_symbols internal_default_def internal_epsilon_def)
  then show ?thesis using demo_graph_pieces demo_graph_run demo_graph_alphabet unfolding demo_graph_symbols(2) by blast
qed

lemma converted_lookup_sound_witness:
  "\<exists>t paths M' ts. hfst_basic_transducer_to_hfst_ol unat demo_graph True None = Inr t \<and> pieces_of demo_graph ''a'' ts \<and>
     lookup_fd_pairs word_of_nat ''a'' 5 (new_machine t) = Inr (paths, M') \<and> paths \<subseteq> graph_results (alphabet demo_graph) demo_graph ts \<and>
     int (card paths) \<le> 5"
proof -
  have a: "CHR 0x00 \<notin> set ''a''" "card (used_symbols demo_graph) + length ''a'' < 65535"
    by (simp_all add: demo_graph_symbols internal_epsilon_def)
  from converted_lookup_sound [OF demo_graph_convertible(1,2) eight_bits utf8_a a, of True 5] demo_graph_alphabet
  show ?thesis by auto
qed

end
