(* ===== verification/Spec2Isabelle.thy ===== *)
theory Spec2Isabelle
  imports PairStrings PrologFormat GraphSubstitution Lexicon TopologicalSort Completion Lookup Intersection Merging ComposeIntersect OlConvertedLookup
begin

text \<open>
  Verification library for HFST, the Helsinki Finite-State Technology library (\<open>libhfst\<close>).
  The program reads, builds, transforms and applies weighted finite-state transducers. Its own
  core is under \<open>src/libhfst/src\<close>: the flag diacritics, the tokenizers, and in
  \<open>implementations\<close> the transducer format \<open>HfstBasicTransducer\<close>, through which all back ends
  exchange graphs and in which most algorithms that belong to HFST itself are written.

  \<^bold>\<open>Theories and what they model.\<close>
  \<^item> \<open>Prelude\<close>: results (a sum of the errors that the code throws or runs into, and a value),
    folds over them, string searching as in \<open>std::string\<close>, map entries in the order of
    \<open>std::map\<close>. \<open>Numbering\<close>: bijections between keys and the numbers given to them.
  \<^item> \<open>Flags\<close>: \<open>HfstFlagDiacritics.h\<close>, \<open>HfstFlagDiacritics.cc\<close>. Parsing of flag diacritics,
    \<open>FdTable\<close>, and \<open>FdState\<close> with its values as signed 16 bit integers. Shown: the shape of
    diacritics, parsing after printing, the invariant of the table, and that \<open>FdState\<close> refines
    the abstract meaning of the operations.
  \<^item> \<open>LookupFlags\<close>: \<open>HfstLookupFlagDiacritics.cc\<close>, the other flag engine. Shown: it accepts the
    same sequences as \<open>FdState\<close>, unless a flag has an empty value.
  \<^item> \<open>SymbolDefs\<close>: \<open>HfstSymbolDefs.cc\<close> and \<open>string-utils.cc\<close>.
  \<^item> \<open>Tokenizer\<close>: \<open>HfstTokenizer.cc\<close>. Shown: UTF-8 checking, the trie, longest match.
    \<open>PairStrings\<close>: \<open>HfstStrings2FstTokenizer.cc\<close>.
  \<^item> \<open>EpsilonHandler\<close>: \<open>HfstEpsilonHandler.cc\<close>.
  \<^item> \<open>SymbolTable\<close>: \<open>HfstTropicalTransducerTransitionData.cc\<close>, the global numbering of symbols.
  \<^item> \<open>BasicTransducer\<close>: the graph itself (record \<open>hbt\<close>, with the fields of the class), its
    operations, the invariant \<open>wf_hbt\<close> and the accepted label sequences.
    \<open>AttFormat\<close> and \<open>PrologFormat\<close>: its text formats, writers and readers. Shown: a graph written in
    AT&T format is read back, with weights as printing and reading leave them.
  \<^item> \<open>Rewriting\<close>: the loop over all transitions shared by substitution and harmonization, in a
    locale that is interpreted for each loop of the code, and lemmas that carry a change of
    transitions over to paths, accepted sequences and weights.
  \<^item> \<open>Substitution\<close> and \<open>PairSubstitution\<close>: \<open>substitute\<close> in its versions for symbols, symbol
    numbers, pairs, sets of pairs and functions; removal of transitions; free insertion.
    Shown: what happens to the transitions and the accepted sequences, and the two places
    where the loops do something else than their comments say.
  \<^item> \<open>Harmonization\<close>: \<open>HarmonizeUnknownAndIdentitySymbols.cc\<close>. Shown: the meaning of every state
    stays as it was, when unknown and identity stand for all symbols outside the alphabet.
  \<^item> \<open>GraphSubstitution\<close>: substitution of pairs and symbols by graphs, with the erasing through saved
    iterators. Shown: the paths of the result with their weights, and when an invalidated iterator is used.
  \<^item> \<open>Lexicon\<close>: \<open>disjunct\<close>. Shown: adding paths one after the other builds a trie for the
    lexicon that maps each path to its smallest weight; this lexicon is the interface (a
    locale) the client needs.
  \<^item> \<open>TopologicalSort\<close>: \<open>topsort\<close>, \<open>longest_path_size\<close>, \<open>path_sizes\<close>. Shown: they return exactly
    when no cycle can be reached, and what they return.
  \<^item> \<open>Completion\<close>: \<open>complete\<close> and \<open>flag_purge\<close>. Shown: completion keeps the weighted language and
    gives every state a transition for each symbol; what purging does to the transitions.
  \<^item> \<open>EpsilonCycles\<close>: \<open>has_negative_epsilon_cycles\<close> and \<open>is_infinitely_ambiguous\<close>. Shown: both searches
    end and decide whether such a cycle exists.
  \<^item> \<open>Lookup\<close>: \<open>lookup\<close>, with \<open>EpsilonHandler\<close> and the flag tables as its components. Shown: it ends,
    its results are accepting paths that read the input, and which of them it finds.
  \<^item> \<open>PairSearch\<close>: the recursion over pairs of states shared by intersection and merging, in a locale
    that \<open>Intersection\<close> and \<open>Merging\<close> interpret on their own steps and handlers. Shown: \<open>intersect\<close> is
    sound, complete when the sorted transitions are in the order of their labels, and misses a match
    otherwise, with weights added except at the pair of initial states; \<open>merge\<close> accepts exactly the merged runs.
  \<^item> \<open>ComposeFst\<close>, \<open>ComposeRules\<close>, \<open>ComposeLexicon\<close>, \<open>ComposeIntersect\<close>: the directory
    \<open>compose_intersect\<close> and its use in \<open>HfstTransducer::compose_intersect\<close>. Sorted vectors as sets,
    graphs looked up by symbol, pairs of rules computed when asked for, and the composition of a
    lexicon with a rule, whose virtual functions are the interface (a locale) that the rules
    implement. Shown: looking up refines the intersection of the rules, and the composition accepts
    exactly the runs of the lexicon with all rules in parallel.
  \<^item> \<open>OlEncoder\<close>, \<open>OlFormat\<close>: alphabet, letter trie, encoder and binary format of the
    optimized-lookup transducers (\<open>optimized-lookup/transducer.h\<close>, \<open>transducer.cc\<close>). Shown:
    tokenization is a maximal munch, and reading after writing gives the same transducer.
    \<open>OlLookup\<close>, \<open>OlAnalyses\<close>, \<open>OlResults\<close>: lookup in them (\<open>lookup_fd_pairs\<close>, \<open>get_analyses\<close>), as
    functions on an explicit state. Shown: it never leaves the tables of a well-formed transducer,
    finds only accepting runs, at most as many as its limit, and otherwise all of them up to
    the recursion depth of 5000 when no cycle goes through a flag diacritic.
  \<^item> \<open>OlConvert\<close>: \<open>hfst_basic_transducer_to_hfst_ol\<close> of \<open>ConvertOlTransducer.cc\<close> with \<open>convert.h\<close> and
    \<open>convert.cc\<close>, the conversion of a graph to the optimized-lookup format. \<open>OlPlaceholders\<close>: the two passes
    that divide the transitions of each state by input symbol; \<open>OlPacking\<close>: the packing of the index
    table, in which no two entries meet, and its size; \<open>OlNumbers\<close>: the numbers of symbols and the alphabet;
    \<open>OlTables\<close>: both tables as the lookup reads them; \<open>OlConverted\<close>: the conversion returns for every
    graph that meets the conditions of \<open>convertible\<close> (bounds of the format, and two conditions on its symbols) and its result is well-formed. \<open>OlGraphRuns\<close>,
    \<open>OlConvertedLookup\<close>: the runs over the tables are the runs of the graph, so that converting a graph and
    looking up a text gives exactly what the graph accepts, with the meaning of flags from \<open>Flags\<close>; identity and unknown
    stand for what no transition reads, and so for what is outside the graph's alphabet when its symbols are all read.

  \<^bold>\<open>Conventions.\<close> A C++ object is a record with the same fields; a method takes it and returns it
  changed. Exceptions, failed assertions, library exceptions such as \<open>std::out_of_range\<close>, and
  undefined behaviour are values of the type \<open>hfst_exception\<close>. A loop that may not end is a partial
  function whose value is then \<open>None\<close>; the only fuel is the recursion depth that \<open>get_analyses\<close> itself counts down. Sets and maps are gone through in
  ascending order, as \<open>std::set\<close> and \<open>std::map\<close> do, with strings ordered by their bytes. Weights
  are elements of a type with the operations a function needs (addition, order); rounding of
  \<open>float\<close> is not modelled. Symbol numbers, feature values and UTF-8 bytes have their widths where
  the code depends on them; state numbers are natural numbers, and states of more than \<open>2^31\<close> are
  excluded by hypotheses where the code narrows them.

  \<^bold>\<open>Not modelled.\<close> The back-end libraries (OpenFst, SFST, foma) and the conversions to and from
  them; \<open>HfstTransducer\<close> and the rule compilers, which combine back-end operations; the parsers and
  command line tools; \<open>HfstTransitionGraph.h\<close>, the template that this graph class replaced; debug
  output and unit tests. Of \<open>HfstBasicTransducer.cc\<close>: weight markers (weights printed and read through streams),
  regular expression paths and the ambiguity of lookup, on which no other modelled part depends, and the
  substitution of a graph into itself (an argument that is the object itself). Of the
  optimized-lookup code: the search for epsilon loops, the spell checker, \<open>pmatch\<close> and the
  conversion back to a graph (\<open>hfst_ol_to_hfst_basic_transducer\<close>).
\<close>

end
